(* ===== verification/Prelude.thy ===== *)
theory Prelude
  imports Main "HOL-Library.Multiset" "HOL-Library.Product_Lexorder" "HOL-Library.Monad_Syntax"
begin

text \<open>
  Shared vocabulary of the development.

  A panic of the Rust code (an index out of range, an \<open>unwrap\<close> of \<open>None\<close>, a failed
  \<open>assert!\<close>) is the value \<open>None\<close> of an option-valued operation; \<open>Some\<close> is a
  normal return.  \<open>vec_get\<close> and \<open>vec_set\<close> are the checked reads and writes of
  \<open>Vec\<close> and slices.

  \<open>upd_count us t\<close> is the accumulated difference of \<open>t\<close> in a list of
  \<open>(time, diff)\<close> updates: the meaning every container of updates in the repository
  gives to its contents.  The collection \<open>count_simps\<close> carries its equations.
\<close>

named_theorems count_simps \<open>equations for accumulated update counts\<close>
named_theorems inv_intros \<open>preservation of data structure invariants\<close>

section \<open>Checked access to vectors\<close>

definition vec_get :: "'a list \<Rightarrow> nat \<Rightarrow> 'a option" where
  "vec_get xs i = (if i < length xs then Some (xs ! i) else None)"

definition vec_set :: "'a list \<Rightarrow> nat \<Rightarrow> 'a \<Rightarrow> 'a list option" where
  "vec_set xs i x = (if i < length xs then Some (xs[i := x]) else None)"

lemma vec_get_Some [simp]: "vec_get xs i = Some x \<longleftrightarrow> i < length xs \<and> x = xs ! i"
  by (auto simp: vec_get_def)

lemma vec_get_None [simp]: "vec_get xs i = None \<longleftrightarrow> length xs \<le> i"
  by (auto simp: vec_get_def)

lemma vec_set_Some [simp]: "vec_set xs i x = Some ys \<longleftrightarrow> i < length xs \<and> ys = xs[i := x]"
  by (auto simp: vec_set_def)

lemma vec_set_None [simp]: "vec_set xs i x = None \<longleftrightarrow> length xs \<le> i"
  by (auto simp: vec_set_def)

section \<open>Accumulated counts of update lists\<close>

definition upd_count :: "('a \<times> int) list \<Rightarrow> 'a \<Rightarrow> int" where
  "upd_count us t = (\<Sum>(x, d) \<leftarrow> us. if x = t then d else 0)"

lemma upd_count_Nil [simp, count_simps]: "upd_count [] t = 0"
  by (simp add: upd_count_def)

lemma upd_count_Cons [simp, count_simps]:
  "upd_count ((x, d) # us) t = (if x = t then d else 0) + upd_count us t"
  by (simp add: upd_count_def)

lemma upd_count_append [simp, count_simps]:
  "upd_count (us @ vs) t = upd_count us t + upd_count vs t"
  by (simp add: upd_count_def)

lemma upd_count_mset: "mset us = mset vs \<Longrightarrow> upd_count us t = upd_count vs t"
proof -
  assume "mset us = mset vs"
  then have "sum_mset (image_mset (\<lambda>(x, d). if x = t then d else 0) (mset us))
           = sum_mset (image_mset (\<lambda>(x, d). if x = t then d else 0) (mset vs))"
    by simp
  then show ?thesis by (simp add: upd_count_def sum_mset_sum_list flip: mset_map)
qed

lemma upd_count_sort_key [simp]: "upd_count (sort_key f us) t = upd_count us t"
  by (rule upd_count_mset) simp

lemma upd_count_filter_nonzero [simp]: "upd_count (filter (\<lambda>x. snd x \<noteq> 0) us) t = upd_count us t"
  by (induction us) auto

lemma upd_count_notin: "t \<notin> fst ` set us \<Longrightarrow> upd_count us t = 0"
  by (induction us) (auto simp: image_iff)

lemma upd_count_distinct:
  "distinct (map fst us) \<Longrightarrow> (t, d) \<in> set us \<Longrightarrow> upd_count us t = d"
proof (induction us)
  case Nil
  then show ?case by simp
next
  case (Cons u us)
  obtain x e where u: "u = (x, e)" by (cases u)
  show ?case
  proof (cases "(t, d) = u")
    case True
    with Cons.prems u show ?thesis by (auto intro: upd_count_notin)
  next
    case False
    with Cons.prems u have "(t, d) \<in> set us" by auto
    with Cons.prems u have "x \<noteq> t" by (auto simp: image_iff)
    with Cons u \<open>(t, d) \<in> set us\<close> show ?thesis by simp
  qed
qed

lemma upd_count_map_neg [simp]: "upd_count (map (\<lambda>(x, d). (x, - d)) us) t = - upd_count us t"
  by (induction us) auto

lemma upd_count_map_const:
  "distinct xs \<Longrightarrow> upd_count (map (\<lambda>x. (x, d)) xs) t = (if t \<in> set xs then d else 0)"
  by (induction xs) auto

lemma upd_count_abs_bound: "\<bar>upd_count us t\<bar> \<le> (\<Sum>(x, d) \<leftarrow> us. \<bar>d\<bar>)"
  by (induction us) auto

text \<open>
  A sum weighted by a function of the key only depends on the accumulated counts.
\<close>

lemma sum_upd_count:
  assumes "finite A" and "fst ` set us \<subseteq> A"
  shows "(\<Sum>(x, d) \<leftarrow> us. d * g x) = (\<Sum>x \<in> A. upd_count us x * (g x :: int))"
  using assms(2)
proof (induction us)
  case Nil
  then show ?case by simp
next
  case (Cons u us)
  obtain x d where u: "u = (x, d)" by (cases u)
  have "(\<Sum>y \<in> A. upd_count (u # us) y * g y)
      = (\<Sum>y \<in> A. (if x = y then d * g y else 0) + upd_count us y * g y)"
    by (rule sum.cong) (auto simp: u algebra_simps)
  also have "\<dots> = d * g x + (\<Sum>y \<in> A. upd_count us y * g y)"
    using Cons.prems assms(1) by (simp add: u sum.distrib)
  finally show ?case using Cons by (simp add: u)
qed

section \<open>Lists\<close>

lemma sorted_wrt_less_distinct: "sorted_wrt (<) (xs :: 'a::linorder list) \<Longrightarrow> distinct xs"
  by (simp add: strict_sorted_iff)

lemma map_fst_filter_sorted:
  "sorted_wrt (<) (map fst (us :: ('a::linorder \<times> 'b) list)) \<Longrightarrow> sorted_wrt (<) (map fst (filter P us))"
  by (induction us) auto

lemma length_filter_lt: "x \<in> set xs \<Longrightarrow> \<not> P x \<Longrightarrow> length (filter P xs) < length xs"
  by (rule length_filter_less)

text \<open>\<open>Vec::remove\<close>: the list without its element at a position.\<close>

definition remove_nth :: "nat \<Rightarrow> 'a list \<Rightarrow> 'a list" where
  "remove_nth k xs = take k xs @ drop (Suc k) xs"

lemma remove_nth_split: "k < length xs \<Longrightarrow> xs = take k xs @ xs ! k # drop (Suc k) xs"
  by (rule id_take_nth_drop)

lemma set_remove_nth: "set (remove_nth k xs) \<subseteq> set xs"
  using set_take_subset [of k xs] set_drop_subset [of "Suc k" xs] by (auto simp: remove_nth_def)

lemma length_remove_nth [simp]: "k < length xs \<Longrightarrow> length (remove_nth k xs) = length xs - 1"
  by (simp add: remove_nth_def)

lemma mset_remove_nth: "k < length xs \<Longrightarrow> mset xs = add_mset (xs ! k) (mset (remove_nth k xs))"
  by (subst remove_nth_split [of k xs]) (simp_all add: remove_nth_def)

end
