(* ===== verification/Change_Batch.thy ===== *)
theory Change_Batch
  imports Prelude
begin

text \<open>
  \<^verbatim>\<open>timely/src/progress/change_batch.rs\<close>: a lazily compacted collection of
  \<open>(T, i64)\<close> updates.  The record has the two fields of the struct; every public method
  is one definition, and methods that take \<open>&mut self\<close> return the new batch.  Rust's
  \<open>T: Ord\<close> is the type class \<open>linorder\<close>; the stable \<open>sort_by\<close> on the key is
  \<open>sort_key fst\<close>.  Differences are mathematical integers; that no accumulated \<open>i64\<close>
  can leave its range while the total of the absolute differences does not is a property of
  the compaction loop (\<open>cb_accumulate_bounded\<close>).

  The abstraction is \<open>cb_count b t\<close>, the accumulated difference of \<open>t\<close>; the invariant
  \<open>cb_inv\<close> says what \<open>clean\<close> promises about the prefix it delimits.
\<close>

section \<open>Data and operations\<close>

record 't change_batch =
  cb_updates :: "('t \<times> int) list"
  cb_clean :: nat

definition cb_new :: "'t change_batch" where
  "cb_new = \<lparr>cb_updates = [], cb_clean = 0\<rparr>"

definition cb_is_dirty :: "'t change_batch \<Rightarrow> bool" where
  "cb_is_dirty b \<longleftrightarrow> length (cb_updates b) > cb_clean b"

definition cb_clear :: "'t change_batch \<Rightarrow> 't change_batch" where
  "cb_clear b = b\<lparr>cb_updates := [], cb_clean := 0\<rparr>"

text \<open>
  The loop of \<open>compact\<close>: each position hands its difference to the next one when the
  keys agree, and keeps zero.
\<close>

fun cb_accumulate :: "('t \<times> int) list \<Rightarrow> ('t \<times> int) list" where
  "cb_accumulate ((x, a) # (y, b) # us) =
     (if x = y then (x, 0) # cb_accumulate ((y, b + a) # us)
      else (x, a) # cb_accumulate ((y, b) # us))"
| "cb_accumulate us = us"

definition cb_compact :: "'t::linorder change_batch \<Rightarrow> 't change_batch" where
  "cb_compact b =
     (let us = (if cb_clean b < length (cb_updates b) \<and> length (cb_updates b) > 1
                then filter (\<lambda>x. snd x \<noteq> 0) (cb_accumulate (sort_key fst (cb_updates b)))
                else cb_updates b)
      in b\<lparr>cb_updates := us, cb_clean := length us\<rparr>)"

definition cb_maintain_bounds :: "'t::linorder change_batch \<Rightarrow> 't change_batch" where
  "cb_maintain_bounds b =
     (if length (cb_updates b) > 32 \<and> length (cb_updates b) div 2 \<ge> cb_clean b
      then cb_compact b else b)"

definition cb_update :: "'t::linorder \<Rightarrow> int \<Rightarrow> 't change_batch \<Rightarrow> 't change_batch" where
  "cb_update item value b =
     cb_maintain_bounds (b\<lparr>cb_updates := cb_updates b @ [(item, value)]\<rparr>)"

definition cb_new_from :: "'t::linorder \<Rightarrow> int \<Rightarrow> 't change_batch" where
  "cb_new_from key val = cb_update key val cb_new"

definition cb_extend :: "('t::linorder \<times> int) list \<Rightarrow> 't change_batch \<Rightarrow> 't change_batch" where
  "cb_extend us b = cb_maintain_bounds (b\<lparr>cb_updates := cb_updates b @ us\<rparr>)"

definition cb_into_inner :: "'t::linorder change_batch \<Rightarrow> ('t \<times> int) list" where
  "cb_into_inner b = cb_updates (cb_compact b)"

definition cb_iter :: "'t::linorder change_batch \<Rightarrow> ('t \<times> int) list \<times> 't change_batch" where
  "cb_iter b = (let b' = cb_compact b in (cb_updates b', b'))"

definition cb_drain :: "'t::linorder change_batch \<Rightarrow> ('t \<times> int) list \<times> 't change_batch" where
  "cb_drain b =
     (let b' = cb_compact b in (cb_updates b', b'\<lparr>cb_clean := 0, cb_updates := []\<rparr>))"

definition cb_is_empty :: "'t::linorder change_batch \<Rightarrow> bool \<times> 't change_batch" where
  "cb_is_empty b =
     (if cb_clean b > length (cb_updates b) div 2 then (False, b)
      else let b' = cb_compact b in (cb_updates b' = [], b'))"

definition cb_len :: "'t::linorder change_batch \<Rightarrow> nat \<times> 't change_batch" where
  "cb_len b = (let b' = cb_compact b in (length (cb_updates b'), b'))"

text \<open>\<open>drain_into\<close> returns the new \<open>self\<close> and the new \<open>other\<close>.\<close>

definition cb_drain_into ::
  "'t::linorder change_batch \<Rightarrow> 't change_batch \<Rightarrow> 't change_batch \<times> 't change_batch" where
  "cb_drain_into b other =
     (if cb_updates other = [] then (other, b)
      else (b\<lparr>cb_updates := [], cb_clean := 0\<rparr>, cb_extend (cb_updates b) other))"

section \<open>Abstraction and invariant\<close>

definition cb_count :: "'t change_batch \<Rightarrow> 't \<Rightarrow> int" where
  "cb_count b t = upd_count (cb_updates b) t"

definition upd_nonzero :: "('t \<times> int) list \<Rightarrow> bool" where
  "upd_nonzero us \<longleftrightarrow> (\<forall>u \<in> set us. snd u \<noteq> 0)"

definition cb_nonzero :: "'t change_batch \<Rightarrow> bool" where
  "cb_nonzero b \<longleftrightarrow> upd_nonzero (cb_updates b)"

text \<open>
  The clean prefix has strictly increasing keys; its differences are non-zero, except that a
  batch of one update is declared clean without looking at its difference.
\<close>

definition cb_inv :: "'t::linorder change_batch \<Rightarrow> bool" where
  "cb_inv b \<longleftrightarrow> cb_clean b \<le> length (cb_updates b)
     \<and> sorted_wrt (<) (map fst (take (cb_clean b) (cb_updates b)))
     \<and> (cb_clean b \<noteq> 1 \<longrightarrow> upd_nonzero (take (cb_clean b) (cb_updates b)))"

section \<open>The compaction loop\<close>

lemma upd_count_accumulate [simp]: "upd_count (cb_accumulate us) t = upd_count us t"
  by (induction us rule: cb_accumulate.induct) auto

lemma fst_accumulate [simp]: "map fst (cb_accumulate us) = map fst us"
  by (induction us rule: cb_accumulate.induct) auto

lemma accumulate_keys_sorted:
  "sorted (map fst us) \<Longrightarrow>
   sorted_wrt (<) (map fst (filter (\<lambda>x. snd x \<noteq> 0) (cb_accumulate (us :: ('t::linorder \<times> int) list))))"
proof (induction us rule: cb_accumulate.induct)
  case (1 x a y b us)
  show ?case
  proof (cases "x = y")
    case True
    with 1 show ?thesis by simp
  next
    case False
    let ?r = "cb_accumulate ((y, b) # us)"
    from 1(3) False have "x < y" and srt: "sorted (map fst ((y, b) # us))"
      by auto
    have "fst ` set ?r = fst ` set ((y, b) # us)"
      by (metis fst_accumulate list.set_map)
    with srt have "\<forall>k \<in> fst ` set ?r. y \<le> k" by auto
    with \<open>x < y\<close> have "\<forall>k \<in> fst ` set ?r. x < k" by force
    with 1(2)[OF False srt] False show ?thesis by auto
  qed
qed auto

lemma accumulate_abs:
  "(\<Sum>(x, d) \<leftarrow> cb_accumulate us. \<bar>d\<bar>) \<le> (\<Sum>(x, d) \<leftarrow> us. \<bar>d\<bar>)"
  by (induction us rule: cb_accumulate.induct) auto

lemma compact_nonzero_cases:
  "cb_inv b \<Longrightarrow> upd_nonzero (cb_updates (cb_compact b)) \<or> (\<exists>t. cb_updates b = [(t, 0)])"
proof -
  assume inv: "cb_inv b"
  consider (dirty) "cb_clean b < length (cb_updates b)" "length (cb_updates b) > 1"
    | (clean) "cb_clean b = length (cb_updates b)" "length (cb_updates b) \<noteq> 1"
    | (one) "length (cb_updates b) = 1" | (zero) "cb_updates b = []"
    using inv unfolding cb_inv_def by fastforce
  then show ?thesis
  proof cases
    case one
    then obtain t d where "cb_updates b = [(t, d)]"
      by (metis length_0_conv length_Suc_conv One_nat_def surj_pair)
    then show ?thesis by (cases "d = 0") (auto simp: cb_compact_def upd_nonzero_def Let_def)
  qed (use inv in \<open>auto simp: cb_compact_def cb_inv_def upd_nonzero_def Let_def\<close>)
qed


section \<open>What each operation does to the counts\<close>

lemma cb_count_new [simp, count_simps]: "cb_count cb_new t = 0"
  by (simp add: cb_count_def cb_new_def)

lemma cb_count_clear [simp, count_simps]: "cb_count (cb_clear b) t = 0"
  by (simp add: cb_count_def cb_clear_def)

lemma cb_count_compact [simp, count_simps]: "cb_count (cb_compact b) t = cb_count b t"
  by (simp add: cb_count_def cb_compact_def Let_def)

lemma cb_count_maintain [simp, count_simps]: "cb_count (cb_maintain_bounds b) t = cb_count b t"
  by (simp add: cb_maintain_bounds_def)

lemma cb_count_update [simp, count_simps]:
  "cb_count (cb_update x d b) t = cb_count b t + (if x = t then d else 0)"
  unfolding cb_update_def cb_count_maintain by (simp add: cb_count_def)

lemma cb_count_extend [simp, count_simps]:
  "cb_count (cb_extend us b) t = cb_count b t + upd_count us t"
  unfolding cb_extend_def cb_count_maintain by (simp add: cb_count_def)

lemma cb_count_new_from [simp, count_simps]: "cb_count (cb_new_from x d) t = (if x = t then d else 0)"
  by (simp add: cb_new_from_def)

lemma cb_updates_compact_count: "upd_count (cb_updates (cb_compact b)) t = cb_count b t"
  using cb_count_compact [of b t] by (simp add: cb_count_def)

lemma cb_drain_snd [simp]: "snd (cb_drain b) = cb_new"
  by (simp add: cb_drain_def cb_new_def cb_compact_def Let_def)

lemma cb_drain_fst: "fst (cb_drain b) = cb_updates (cb_compact b)"
  by (simp add: cb_drain_def Let_def)

lemma cb_count_drain [simp, count_simps]: "upd_count (fst (cb_drain b)) t = cb_count b t"
  by (simp add: cb_drain_fst cb_updates_compact_count)

lemma cb_count_fold_update [count_simps]:
  "cb_count (fold (\<lambda>(x, d). cb_update (f x) (g d)) us b) t
   = cb_count b t + upd_count (map (\<lambda>(x, d). (f x, g d)) us) t"
  by (induction us arbitrary: b) auto

section \<open>Every operation keeps the invariant\<close>

lemma cb_inv_new [simp, inv_intros]: "cb_inv cb_new"
  by (simp add: cb_inv_def cb_new_def upd_nonzero_def)

lemma cb_inv_clear [simp, inv_intros]: "cb_inv (cb_clear b)"
  by (simp add: cb_inv_def cb_clear_def upd_nonzero_def)

lemma cb_clean_compact [simp]: "cb_clean (cb_compact b) = length (cb_updates (cb_compact b))"
  by (simp add: cb_compact_def Let_def)

lemma compact_keys_sorted:
  "cb_inv b \<Longrightarrow> sorted_wrt (<) (map fst (cb_updates (cb_compact b)))"
  using accumulate_keys_sorted [of "sort_key fst (cb_updates b)"]
  by (auto simp: cb_compact_def cb_inv_def Let_def not_less le_Suc_eq length_Suc_conv)

lemma compact_keys_distinct: "cb_inv b \<Longrightarrow> distinct (map fst (cb_updates (cb_compact b)))"
  by (rule sorted_wrt_less_distinct) (rule compact_keys_sorted)

lemma cb_inv_compact [simp, inv_intros]: "cb_inv b \<Longrightarrow> cb_inv (cb_compact b)"
  using compact_keys_sorted [of b] compact_nonzero_cases [of b]
  by (auto simp: cb_inv_def upd_nonzero_def cb_compact_def Let_def)

lemma cb_inv_append:
  "cb_inv b \<Longrightarrow> cb_inv (b\<lparr>cb_updates := cb_updates b @ us\<rparr>)"
  by (auto simp: cb_inv_def)

lemma cb_inv_maintain [simp, inv_intros]: "cb_inv b \<Longrightarrow> cb_inv (cb_maintain_bounds b)"
  by (simp add: cb_maintain_bounds_def)

lemma cb_inv_update [simp, inv_intros]: "cb_inv b \<Longrightarrow> cb_inv (cb_update x d b)"
  unfolding cb_update_def by (intro cb_inv_maintain cb_inv_append)

lemma cb_inv_extend [simp, inv_intros]: "cb_inv b \<Longrightarrow> cb_inv (cb_extend us b)"
  unfolding cb_extend_def by (intro cb_inv_maintain cb_inv_append)

lemma cb_inv_new_from [simp, inv_intros]: "cb_inv (cb_new_from x d)"
  by (simp add: cb_new_from_def)

lemma cb_inv_fold_update [inv_intros]:
  "cb_inv b \<Longrightarrow> cb_inv (fold (\<lambda>(x, d). cb_update (f x) (g d)) us b)"
  by (induction us arbitrary: b) auto

lemma cb_inv_drain_into:
  "cb_inv b \<Longrightarrow> cb_inv other \<Longrightarrow> cb_drain_into b other = (b', other') \<Longrightarrow> cb_inv b' \<and> cb_inv other'"
  by (auto simp: cb_drain_into_def cb_inv_def [of "b\<lparr>cb_updates := [], cb_clean := 0\<rparr>"]
      upd_nonzero_def split: if_splits)

lemma drain_into_facts:
  assumes "cb_drain_into b other = (b', other')"
  shows "cb_updates b' = []" "cb_count other' t = cb_count b t + cb_count other t"
  using assms by (auto simp: cb_drain_into_def cb_count_def split: if_splits)
    (simp_all add: cb_count_def [symmetric])

section \<open>Batches without zero differences\<close>

lemma cb_nonzero_new [simp, inv_intros]: "cb_nonzero cb_new"
  by (simp add: cb_nonzero_def cb_new_def upd_nonzero_def)

lemma cb_nonzero_compact [simp, inv_intros]: "cb_nonzero b \<Longrightarrow> cb_nonzero (cb_compact b)"
  by (auto simp: cb_nonzero_def cb_compact_def upd_nonzero_def Let_def)

lemma cb_nonzero_update [simp, inv_intros]: "cb_nonzero b \<Longrightarrow> d \<noteq> 0 \<Longrightarrow> cb_nonzero (cb_update x d b)"
proof -
  assume "cb_nonzero b" and "d \<noteq> 0"
  then have "cb_nonzero (b\<lparr>cb_updates := cb_updates b @ [(x, d)]\<rparr>)"
    by (auto simp: cb_nonzero_def upd_nonzero_def)
  then show ?thesis by (simp add: cb_update_def cb_maintain_bounds_def)
qed

lemma cb_nonzero_fold_update [inv_intros]:
  "cb_nonzero b \<Longrightarrow> (\<forall>(x, d) \<in> set us. g d \<noteq> 0) \<Longrightarrow>
   cb_nonzero (fold (\<lambda>(x, d). cb_update (f x) (g d)) us b)"
  by (induction us arbitrary: b) auto

section \<open>Compacted contents\<close>

text \<open>After compaction, the updates are the graph of the non-zero counts, in key order.\<close>

lemma compact_entry:
  assumes "cb_inv b" and "(t, d) \<in> set (cb_updates (cb_compact b))"
  shows "cb_count b t = d"
  using upd_count_distinct [OF compact_keys_distinct [OF assms(1)] assms(2)]
  by (simp add: cb_updates_compact_count)

lemma compact_has_entry:
  assumes "cb_inv b" and "cb_count b t \<noteq> 0"
  shows "(t, cb_count b t) \<in> set (cb_updates (cb_compact b))"
proof -
  have "t \<in> fst ` set (cb_updates (cb_compact b))"
    using assms(2) upd_count_notin [of t "cb_updates (cb_compact b)"]
    by (auto simp: cb_updates_compact_count)
  then obtain d where d: "(t, d) \<in> set (cb_updates (cb_compact b))" by force
  with compact_entry [OF assms(1) d] show ?thesis by simp
qed

lemma compact_empty_iff:
  assumes "cb_inv b"
  shows "cb_updates (cb_compact b) = [] \<longleftrightarrow> (\<forall>t. cb_count b t = 0) \<and> (\<nexists>t. cb_updates b = [(t, 0)])"
proof
  assume e: "cb_updates (cb_compact b) = []"
  then have "cb_count b t = 0" for t
    using cb_updates_compact_count [of b t] by simp
  moreover have "\<nexists>t. cb_updates b = [(t, 0)]"
    using e by (auto simp: cb_compact_def Let_def)
  ultimately show "(\<forall>t. cb_count b t = 0) \<and> (\<nexists>t. cb_updates b = [(t, 0)])" by blast
next
  assume z: "(\<forall>t. cb_count b t = 0) \<and> (\<nexists>t. cb_updates b = [(t, 0)])"
  with compact_nonzero_cases [OF assms] have nz: "upd_nonzero (cb_updates (cb_compact b))"
    by blast
  show "cb_updates (cb_compact b) = []"
  proof (rule ccontr)
    assume "cb_updates (cb_compact b) \<noteq> []"
    then obtain t d where td: "(t, d) \<in> set (cb_updates (cb_compact b))"
      by (metis list.set_intros(1) neq_Nil_conv surj_pair)
    with compact_entry [OF assms td] z nz show False
      by (auto simp: upd_nonzero_def)
  qed
qed

text \<open>
  The shortcut of \<open>is_empty\<close>: when more than half of the updates are clean, the other
  ones cannot cancel all of the clean keys.
\<close>

lemma clean_majority_nonzero:
  assumes inv: "cb_inv b" and maj: "cb_clean b > length (cb_updates b) div 2" and two: "cb_clean b \<noteq> 1"
  shows "\<exists>t. cb_count b t \<noteq> 0"
proof -
  define c where "c = cb_clean b"
  define pre where "pre = take c (cb_updates b)"
  define suf where "suf = drop c (cb_updates b)"
  have us: "cb_updates b = pre @ suf" by (simp add: pre_def suf_def)
  have len: "length pre = c" and dp: "distinct (map fst pre)" and nz: "upd_nonzero pre"
    using inv two by (auto simp: cb_inv_def pre_def c_def intro: sorted_wrt_less_distinct)
  have "card (fst ` set suf) \<le> length suf"
    by (metis card_length length_map list.set_map)
  also have "length suf < c" using maj us len by (simp add: c_def)
  also have "c = card (fst ` set pre)"
    using distinct_card [OF dp] len by simp
  finally have "\<not> fst ` set pre \<subseteq> fst ` set suf"
    by (meson List.finite_set card_mono finite_imageI not_le)
  then obtain t d where td: "(t, d) \<in> set pre" and "t \<notin> fst ` set suf" by force
  then have "cb_count b t = d"
    using upd_count_distinct [OF dp td] by (simp add: cb_count_def us upd_count_notin)
  moreover have "d \<noteq> 0" using nz td by (auto simp: upd_nonzero_def)
  ultimately show ?thesis by blast
qed

lemma is_empty_iff:
  assumes inv: "cb_inv b"
  shows "fst (cb_is_empty b) \<longleftrightarrow> (\<forall>t. cb_count b t = 0) \<and> (\<nexists>t. cb_updates b = [(t, 0)])"
proof (cases "cb_clean b > length (cb_updates b) div 2")
  case False
  then show ?thesis by (simp add: cb_is_empty_def compact_empty_iff [OF inv] Let_def)
next
  case True
  show ?thesis
  proof (cases "cb_clean b = 1")
    case False
    with clean_majority_nonzero [OF inv True] True show ?thesis by (auto simp: cb_is_empty_def)
  next
    case one: True
    with True inv have "length (cb_updates b) = 1" unfolding cb_inv_def by linarith
    then obtain t d where "cb_updates b = [(t, d)]"
      by (metis length_0_conv length_Suc_conv One_nat_def surj_pair)
    then show ?thesis using True by (auto simp: cb_is_empty_def cb_count_def)
  qed
qed

lemma is_empty_snd:
  "cb_inv b \<Longrightarrow> cb_is_empty b = (e, b') \<Longrightarrow> cb_inv b' \<and> (\<forall>t. cb_count b' t = cb_count b t)"
  by (auto simp: cb_is_empty_def Let_def split: if_splits)


section \<open>Properties\<close>

text \<open>
  \<open>compact\<close> returns, for a batch that satisfies the invariant, its updates with
  strictly increasing keys, each paired with exactly its accumulated difference; no key with a
  non-zero accumulated difference is lost, and no accumulated difference changes.
\<close>

theorem cb_compact_correct:
  assumes "cb_inv b"
  shows "cb_inv (cb_compact b)
    \<and> (\<forall>t. cb_count (cb_compact b) t = cb_count b t)
    \<and> sorted_wrt (<) (map fst (cb_updates (cb_compact b)))
    \<and> (\<forall>(t, d) \<in> set (cb_updates (cb_compact b)). d = cb_count b t)
    \<and> {t. cb_count b t \<noteq> 0} \<subseteq> fst ` set (cb_updates (cb_compact b))"
proof (intro conjI)
  show "\<forall>(t, d) \<in> set (cb_updates (cb_compact b)). d = cb_count b t"
    by (auto simp: compact_entry [OF assms])
  show "{t. cb_count b t \<noteq> 0} \<subseteq> fst ` set (cb_updates (cb_compact b))"
    using compact_has_entry [OF assms] by (metis (mono_tags, lifting) fst_conv imageI mem_Collect_eq subsetI)
qed (simp_all add: assms compact_keys_sorted)

theorem cb_compact_correct_witness:
  "cb_inv (cb_update 3 1 (cb_update 1 2 (cb_update (3::nat) 4 cb_new)))
   \<and> cb_updates (cb_compact (cb_update 3 1 (cb_update 1 2 (cb_update (3::nat) 4 cb_new)))) = [(1, 2), (3, 5)]
   \<and> sorted_wrt (<) (map fst (cb_updates (cb_compact (cb_update 3 1 (cb_update 1 2 (cb_update (3::nat) 4 cb_new))))))"
proof -
  let ?b = "cb_update 3 1 (cb_update 1 2 (cb_update (3::nat) 4 cb_new))"
  have i: "cb_inv ?b" by (intro inv_intros)
  have u: "cb_updates (cb_compact ?b) = [(1, 2), (3, 5)]" by code_simp
  show ?thesis using i u cb_compact_correct [OF i] by blast
qed

text \<open>
  \<open>is_empty\<close> answers \<open>true\<close> exactly when every accumulated difference is zero,
  except for the batch that holds a single update with difference zero; its shortcut on the
  clean prefix never gives a wrong answer, and it leaves the counts and the invariant alone.
\<close>

theorem cb_is_empty_correct:
  assumes "cb_inv b" and "cb_is_empty b = (e, b')"
  shows "(e \<longleftrightarrow> (\<forall>t. cb_count b t = 0) \<and> (\<nexists>t. cb_updates b = [(t, 0)]))
    \<and> cb_inv b' \<and> (\<forall>t. cb_count b' t = cb_count b t)"
  using is_empty_iff [OF assms(1)] is_empty_snd [OF assms] assms(2) by simp

theorem cb_is_empty_correct_witness:
  "\<exists>b'. cb_is_empty (cb_update 7 (-1) (cb_new_from (7::nat) 1)) = (True, b')
     \<and> (\<forall>t. cb_count b' t = 0)"
proof -
  let ?b = "cb_update 7 (-1) (cb_new_from (7::nat) 1)"
  have i: "cb_inv ?b" by (intro inv_intros)
  obtain e b' where eb: "cb_is_empty ?b = (e, b')" by (cases "cb_is_empty ?b")
  have "fst (cb_is_empty ?b) = True" by code_simp
  with eb cb_is_empty_correct [OF i eb] show ?thesis by (auto simp: count_simps)
qed

text \<open>
  a single update with difference zero makes \<open>is_empty\<close> answer \<open>false\<close> although
  all keys have value zero, which its documentation excludes.
\<close>

theorem cb_is_empty_single_zero:
  "fst (cb_is_empty (cb_new_from t 0)) = False \<and> (\<forall>k. cb_count (cb_new_from t 0) k = 0)"
  by (simp add: cb_is_empty_def cb_new_from_def cb_update_def cb_maintain_bounds_def cb_new_def
      cb_compact_def Let_def cb_count_def)

text \<open>
  the footprint of a batch: after any \<open>update\<close> or \<open>extend\<close> at most 32 updates are
  held, or more than half of them (rounded down) are clean.
\<close>

theorem cb_footprint_bounded:
  "(length (cb_updates (cb_update x d b)) \<le> 32
     \<or> length (cb_updates (cb_update x d b)) div 2 < cb_clean (cb_update x d b))
   \<and> (length (cb_updates (cb_extend us b)) \<le> 32
     \<or> length (cb_updates (cb_extend us b)) div 2 < cb_clean (cb_extend us b))"
  unfolding cb_update_def cb_extend_def cb_maintain_bounds_def by auto

text \<open>
  \<open>drain_into\<close> moves every difference: afterwards \<open>self\<close> accumulates to zero
  and \<open>other\<close> to the sum of the two batches, whether or not the swap is taken.
\<close>

theorem cb_drain_into_conserves:
  assumes "cb_inv b" and "cb_inv other" and "cb_drain_into b other = (b', other')"
  shows "cb_inv b' \<and> cb_inv other' \<and> cb_updates b' = []
    \<and> (\<forall>t. cb_count other' t = cb_count b t + cb_count other t)"
  using assms cb_inv_drain_into [OF assms]
  by (auto simp: cb_drain_into_def split: if_splits) (auto simp: cb_count_def)

theorem cb_drain_into_conserves_witness:
  "\<exists>b' other'. cb_drain_into (cb_new_from (17::nat) 1) (cb_new_from 4 2) = (b', other')
     \<and> cb_updates b' = [] \<and> cb_count other' 17 = 1 \<and> cb_count other' 4 = 2"
proof -
  let ?b = "cb_new_from (17::nat) 1" and ?o = "cb_new_from (4::nat) 2"
  obtain b' o' where e: "cb_drain_into ?b ?o = (b', o')" by (cases "cb_drain_into ?b ?o")
  have "cb_inv ?b" "cb_inv ?o" by (intro inv_intros)+
  from cb_drain_into_conserves [OF this e] e show ?thesis by (auto simp: count_simps)
qed

text \<open>
  the accumulation loop of \<open>compact\<close> never forms a difference whose absolute value
  exceeds the sum of the absolute differences it was given, so it stays within \<open>i64\<close>
  whenever that sum does.
\<close>

theorem cb_accumulate_bounded:
  assumes "(t, d) \<in> set (cb_accumulate us)"
  shows "\<bar>d\<bar> \<le> (\<Sum>(x, e) \<leftarrow> us. \<bar>e\<bar>)"
proof -
  have "\<bar>d\<bar> \<le> (\<Sum>(x, e) \<leftarrow> cb_accumulate us. \<bar>e\<bar>)"
    using assms by (force intro: member_le_sum_list)
  with accumulate_abs [of us] show ?thesis by linarith
qed

theorem cb_accumulate_bounded_witness:
  "(2::nat, 3) \<in> set (cb_accumulate [(2, 4), (2, -1)]) \<and> \<bar>3::int\<bar> \<le> 5"
proof -
  have m: "(2::nat, 3) \<in> set (cb_accumulate [(2, 4), (2, -1)])" by simp
  from m cb_accumulate_bounded [OF m] show ?thesis by simp
qed

end
