(* ===== verification/Partial_Orders.thy ===== *)
theory Partial_Orders
  imports Prelude "HOL-Library.Word"
begin

text \<open>
  \<^verbatim>\<open>timely/src/order.rs\<close> and \<^verbatim>\<open>timely/src/progress/timestamp.rs\<close>: partial
  orders, timestamps and path summaries.

  The traits are interfaces, so they are locales: \<open>partial_order_laws\<close> for
  \<open>PartialOrder\<close>, \<open>timestamp_order\<close> for the promise of \<open>Timestamp\<close> that
  \<open>a.less_equal(b)\<close> implies \<open>a <= b\<close>, \<open>path_summary\<close> for the contract that
  \<open>PathSummary\<close> documents, \<open>advancing_summary\<close> for summaries that never walk a
  timestamp backwards, and \<open>refines_laws\<close> for \<open>Refines\<close>.  A trait method is an
  explicit function argument of the definitions that call it; \<open>T: Ord\<close> is \<open>linorder\<close>.

  The implementations are the definitions: machine integers with \<open>checked_add\<close>
  (unsigned ones are words, signed ones are the integers of their range), \<open>Duration\<close> as a
  number of nanoseconds, \<open>()\<close>, \<open>Product\<close> with the product order and pairs with the
  lexicographic order.  Interpretations discharge the contracts for them.
\<close>

section \<open>PartialOrder\<close>

definition less_than :: "('t \<Rightarrow> 't \<Rightarrow> bool) \<Rightarrow> 't \<Rightarrow> 't \<Rightarrow> bool" where
  "less_than le a b \<longleftrightarrow> le a b \<and> a \<noteq> b"

datatype ('o, 'i) Product = Product (outer: 'o) (inner: 'i)

definition product_less_equal ::
  "('o \<Rightarrow> 'o \<Rightarrow> bool) \<Rightarrow> ('i \<Rightarrow> 'i \<Rightarrow> bool) \<Rightarrow> ('o, 'i) Product \<Rightarrow> ('o, 'i) Product \<Rightarrow> bool" where
  "product_less_equal leo lei a b \<longleftrightarrow> leo (outer a) (outer b) \<and> lei (inner a) (inner b)"

definition tuple_less_equal ::
  "('o \<Rightarrow> 'o \<Rightarrow> bool) \<Rightarrow> ('i \<Rightarrow> 'i \<Rightarrow> bool) \<Rightarrow> 'o \<times> 'i \<Rightarrow> 'o \<times> 'i \<Rightarrow> bool" where
  "tuple_less_equal leo lei a b \<longleftrightarrow>
     less_than leo (fst a) (fst b) \<or> (fst a = fst b \<and> lei (snd a) (snd b))"

text \<open>The derived \<open>Ord\<close> of \<open>Product\<close> compares the fields in order.\<close>

instantiation Product :: (linorder, linorder) linorder
begin

definition less_eq_Product :: "('a, 'b) Product \<Rightarrow> ('a, 'b) Product \<Rightarrow> bool" where
  "less_eq_Product a b \<longleftrightarrow> outer a < outer b \<or> outer a = outer b \<and> inner a \<le> inner b"

definition less_Product :: "('a, 'b) Product \<Rightarrow> ('a, 'b) Product \<Rightarrow> bool" where
  "less_Product a b \<longleftrightarrow> outer a < outer b \<or> outer a = outer b \<and> inner a < inner b"

instance
  by standard (auto simp: less_eq_Product_def less_Product_def Product.expand)

end

section \<open>Timestamps and path summaries\<close>

text \<open>\<open>checked_add\<close> of the unsigned integer types.\<close>

definition checked_add :: "'w::len word \<Rightarrow> 'w word \<Rightarrow> 'w word option" where
  "checked_add a b = (if unat a + unat b < 2 ^ LENGTH('w) then Some (a + b) else None)"

text \<open>\<open>checked_add\<close> of the signed integer types of \<open>w\<close> bits.\<close>

definition checked_add_signed :: "nat \<Rightarrow> int \<Rightarrow> int \<Rightarrow> int option" where
  "checked_add_signed w a b =
     (if - (2 ^ (w - 1)) \<le> a + b \<and> a + b < 2 ^ (w - 1) then Some (a + b) else None)"

text \<open>\<open>Duration\<close> as its number of nanoseconds: the seconds are a \<open>u64\<close>.\<close>

typedef duration = "{n :: nat. n < 2 ^ 64 * 10 ^ 9}"
  morphisms as_nanos from_nanos
  by (rule exI [of _ 0]) simp

instantiation duration :: linorder
begin

definition less_eq_duration :: "duration \<Rightarrow> duration \<Rightarrow> bool" where
  "less_eq_duration a b \<longleftrightarrow> as_nanos a \<le> as_nanos b"

definition less_duration :: "duration \<Rightarrow> duration \<Rightarrow> bool" where
  "less_duration a b \<longleftrightarrow> as_nanos a < as_nanos b"

instance
  by standard (auto simp: less_eq_duration_def less_duration_def as_nanos_inject)

end

definition duration_checked_add :: "duration \<Rightarrow> duration \<Rightarrow> duration option" where
  "duration_checked_add a b =
     (if as_nanos a + as_nanos b < 2 ^ 64 * 10 ^ 9
      then Some (from_nanos (as_nanos a + as_nanos b)) else None)"

definition unit_results_in :: "unit \<Rightarrow> unit \<Rightarrow> unit option" where
  "unit_results_in s t = Some ()"

definition unit_followed_by :: "unit \<Rightarrow> unit \<Rightarrow> unit option" where
  "unit_followed_by s t = Some ()"

definition unsigned_minimum :: "'w::len word" where
  "unsigned_minimum = 0"

definition signed_minimum :: "nat \<Rightarrow> int" where
  "signed_minimum w = - (2 ^ (w - 1))"

definition product_minimum :: "'o \<Rightarrow> 'i \<Rightarrow> ('o, 'i) Product" where
  "product_minimum mo mi = Product mo mi"

definition product_results_in ::
  "('so \<Rightarrow> 'o \<Rightarrow> 'o option) \<Rightarrow> ('si \<Rightarrow> 'i \<Rightarrow> 'i option)
   \<Rightarrow> ('so, 'si) Product \<Rightarrow> ('o, 'i) Product \<Rightarrow> ('o, 'i) Product option" where
  "product_results_in ro ri s p =
     do { o' \<leftarrow> ro (outer s) (outer p); map_option (Product o') (ri (inner s) (inner p)) }"

definition product_followed_by ::
  "('so \<Rightarrow> 'so \<Rightarrow> 'so option) \<Rightarrow> ('si \<Rightarrow> 'si \<Rightarrow> 'si option)
   \<Rightarrow> ('so, 'si) Product \<Rightarrow> ('so, 'si) Product \<Rightarrow> ('so, 'si) Product option" where
  "product_followed_by fo fi s q =
     do { o' \<leftarrow> fo (outer s) (outer q); map_option (Product o') (fi (inner s) (inner q)) }"


definition tuple_followed_by ::
  "('so \<Rightarrow> 'so \<Rightarrow> 'so option) \<Rightarrow> ('si \<Rightarrow> 'si \<Rightarrow> 'si option)
   \<Rightarrow> 'so \<times> 'si \<Rightarrow> 'so \<times> 'si \<Rightarrow> ('so \<times> 'si) option" where
  "tuple_followed_by fo fi s q =
     do { o' \<leftarrow> fo (fst s) (fst q); map_option (Pair o') (fi (snd s) (snd q)) }"

section \<open>Refines\<close>

definition product_to_inner :: "'i \<Rightarrow> 'o \<Rightarrow> ('o, 'i) Product" where
  "product_to_inner minimum t = Product t minimum"

definition product_to_outer :: "('o, 'i) Product \<Rightarrow> 'o" where
  "product_to_outer p = outer p"

definition product_summarize :: "('so, 'si) Product \<Rightarrow> 'so" where
  "product_summarize s = outer s"

definition tuple_to_inner :: "'i \<Rightarrow> 'o \<Rightarrow> 'o \<times> 'i" where
  "tuple_to_inner minimum t = (t, minimum)"

definition tuple_to_outer :: "'o \<times> 'i \<Rightarrow> 'o" where
  "tuple_to_outer p = fst p"

definition tuple_summarize :: "'so \<times> 'si \<Rightarrow> 'so" where
  "tuple_summarize s = fst s"

definition self_to_inner :: "'t \<Rightarrow> 't" where
  "self_to_inner t = t"

definition self_to_outer :: "'t \<Rightarrow> 't" where
  "self_to_outer t = t"

definition self_summarize :: "'s \<Rightarrow> 's" where
  "self_summarize s = s"

text \<open>\<open>Refines<()>\<close> for the integer types: \<open>to_inner\<close> is \<open>Default::default()\<close>, zero.\<close>

definition empty_to_inner :: "unit \<Rightarrow> 't::zero" where
  "empty_to_inner u = 0"

definition empty_to_outer :: "'t \<Rightarrow> unit" where
  "empty_to_outer t = ()"

definition empty_summarize :: "'s \<Rightarrow> unit" where
  "empty_summarize s = ()"

section \<open>The contracts\<close>

locale partial_order_laws =
  fixes le :: "'t \<Rightarrow> 't \<Rightarrow> bool"
  assumes le_refl: "le a a"
    and le_antisym: "le a b \<Longrightarrow> le b a \<Longrightarrow> a = b"
    and le_trans: "le a b \<Longrightarrow> le b c \<Longrightarrow> le a c"
begin

lemma lt_irrefl: "\<not> less_than le a a"
  by (simp add: less_than_def)

lemma lt_trans: "less_than le a b \<Longrightarrow> less_than le b c \<Longrightarrow> less_than le a c"
  using le_trans [of a b c] le_antisym [of a b] by (auto simp: less_than_def)

lemma lt_le_trans: "less_than le a b \<Longrightarrow> le b c \<Longrightarrow> less_than le a c"
  using le_trans [of a b c] le_antisym [of a b] by (auto simp: less_than_def)

lemma le_lt_trans: "le a b \<Longrightarrow> less_than le b c \<Longrightarrow> less_than le a c"
  using le_trans [of a b c] le_antisym [of a b] by (auto simp: less_than_def)

lemma finite_has_minimal_below:
  assumes "finite A" and "a \<in> A"
  shows "\<exists>m \<in> A. le m a \<and> (\<forall>x \<in> A. le x m \<longrightarrow> x = m)"
  using assms
proof (induction "card {x \<in> A. less_than le x a}" arbitrary: a rule: less_induct)
  case less
  show ?case
  proof (cases "\<forall>x \<in> A. le x a \<longrightarrow> x = a")
    case True
    with less.prems le_refl show ?thesis by blast
  next
    case False
    then obtain x where x: "x \<in> A" "less_than le x a" by (auto simp: less_than_def)
    then have "{y \<in> A. less_than le y x} \<subset> {y \<in> A. less_than le y a}"
      using lt_trans lt_irrefl by blast
    then have "card {y \<in> A. less_than le y x} < card {y \<in> A. less_than le y a}"
      using less.prems(1) by (simp add: psubset_card_mono)
    from less.hyps [OF this less.prems(1) x(1)] obtain m where
      "m \<in> A" "le m x" "\<forall>y \<in> A. le y m \<longrightarrow> y = m" by blast
    moreover have "le m a" using \<open>le m x\<close> x(2) le_trans [of m x a] by (simp add: less_than_def)
    ultimately show ?thesis by blast
  qed
qed

lemma finite_bounded:
  assumes "finite (UNIV :: 't set)"
  shows "wf {(t', t). less_than le t t'}"
proof (rule finite_acyclic_wf)
  show "finite {(t', t). less_than le t t'}" by (rule finite_subset [OF subset_UNIV]) (use assms in \<open>simp add: finite_Prod_UNIV\<close>)
  have tr: "(a, b) \<in> {(t', t). less_than le t t'}\<^sup>+ \<Longrightarrow> less_than le b a" for a b
  proof (induction rule: trancl_induct)
    case (step b c)
    then show ?case using lt_trans [of c b a] by simp
  qed simp
  show "acyclic {(t', t). less_than le t t'}"
  proof (rule acyclicI, rule allI, rule notI)
    fix a assume "(a, a) \<in> {(t', t). less_than le t t'}\<^sup>+"
    from tr [OF this] show False by (simp add: lt_irrefl)
  qed
qed

end

locale timestamp_order = partial_order_laws le
  for le :: "'t::linorder \<Rightarrow> 't \<Rightarrow> bool" +
  assumes ord_compat: "le a b \<Longrightarrow> a \<le> b"

locale path_summary = timestamp_order le
  for le :: "'t::linorder \<Rightarrow> 't \<Rightarrow> bool" +
  fixes sle :: "'s \<Rightarrow> 's \<Rightarrow> bool"
    and dflt :: 's
    and results_in :: "'s \<Rightarrow> 't \<Rightarrow> 't option"
    and followed_by :: "'s \<Rightarrow> 's \<Rightarrow> 's option"
  assumes summary_order: "partial_order_laws sle"
    and results_default: "results_in dflt t = Some t"
    and results_mono: "le t1 t2 \<Longrightarrow> results_in s t2 = Some u2 \<Longrightarrow>
      \<exists>u1. results_in s t1 = Some u1 \<and> le u1 u2"
    and results_summary_mono: "sle s1 s2 \<Longrightarrow> results_in s2 t = Some u2 \<Longrightarrow>
      \<exists>u1. results_in s1 t = Some u1 \<and> le u1 u2"
    and results_followed_by:
      "Option.bind (followed_by s1 s2) (\<lambda>s. results_in s t)
       = Option.bind (results_in s1 t) (results_in s2)"

locale advancing_summary = path_summary le sle dflt results_in followed_by
  for le :: "'t::linorder \<Rightarrow> 't \<Rightarrow> bool" and sle :: "'s \<Rightarrow> 's \<Rightarrow> bool" and dflt
    and results_in and followed_by +
  assumes advances: "results_in s t = Some u \<Longrightarrow> le t u"
    and stays_default: "results_in s t = Some t \<Longrightarrow> s = dflt"

text \<open>
  Timestamps of a bounded type cannot advance forever: \<open>results_in\<close> eventually overflows.
\<close>

locale bounded_summary = advancing_summary le sle dflt results_in followed_by
  for le :: "'t::linorder \<Rightarrow> 't \<Rightarrow> bool" and sle :: "'s \<Rightarrow> 's \<Rightarrow> bool" and dflt
    and results_in and followed_by +
  assumes bounded: "wf {(t', t). less_than le t t'}"

locale refines_laws =
  inn: path_summary lei slei defaulti results_ini followed_byi +
  out: path_summary leo sleo defaulto results_ino followed_byo
  for lei :: "'i::linorder \<Rightarrow> 'i \<Rightarrow> bool" and slei :: "'si \<Rightarrow> 'si \<Rightarrow> bool" and defaulti
    and results_ini and followed_byi
    and leo :: "'o::linorder \<Rightarrow> 'o \<Rightarrow> bool" and sleo :: "'so \<Rightarrow> 'so \<Rightarrow> bool" and defaulto
    and results_ino and followed_byo +
  fixes to_inner :: "'o \<Rightarrow> 'i" and to_outer :: "'i \<Rightarrow> 'o" and summarize :: "'si \<Rightarrow> 'so"
  assumes outer_inner: "to_outer (to_inner t) = t"
    and to_outer_mono: "lei a b \<Longrightarrow> leo (to_outer a) (to_outer b)"
    and summarize_sound: "results_ini s (to_inner t) = Some u \<Longrightarrow>
      \<exists>v. results_ino (summarize s) t = Some v \<and> leo v (to_outer u)"


section \<open>Machine integers satisfy the contracts\<close>

lemma checked_add_Some:
  "checked_add a b = Some c \<longleftrightarrow> unat a + unat b < 2 ^ LENGTH('w) \<and> c = a + b"
  for a b c :: "'w::len word"
  by (auto simp: checked_add_def)

lemma unat_checked_add:
  "checked_add a b = Some c \<Longrightarrow> unat c = unat a + unat b" for a b c :: "'w::len word"
  by (auto simp: checked_add_Some unat_word_ariths)

lemma checked_add_unat_iff:
  "checked_add a b = Some c \<longleftrightarrow> unat c = unat a + unat b" for a b c :: "'w::len word"
proof
  assume *: "unat c = unat a + unat b"
  have "unat c < 2 ^ LENGTH('w)" by simp
  with * have lt: "unat a + unat b < 2 ^ LENGTH('w)" by simp
  then have "unat (a + b) = unat c" using * by (simp add: unat_word_ariths)
  then have "c = a + b" by (simp add: word_unat_eq_iff)
  with lt show "checked_add a b = Some c" by (simp add: checked_add_Some)
qed (rule unat_checked_add)

lemma checked_add_mono:
  fixes a a' b b' c :: "'w::len word"
  assumes "a \<le> a'" "b \<le> b'" "checked_add a' b' = Some c"
  shows "\<exists>d. checked_add a b = Some d \<and> d \<le> c"
proof -
  have *: "unat a + unat b \<le> unat c"
    using assms by (auto simp: word_le_nat_alt dest: unat_checked_add)
  also have "unat c < 2 ^ LENGTH('w)" by simp
  finally have "checked_add a b = Some (a + b)" by (simp add: checked_add_Some)
  with * show ?thesis by (metis unat_checked_add word_le_nat_alt)
qed

lemma checked_add_assoc_left:
  "Option.bind (checked_add a b) (\<lambda>s. checked_add s t) = Some c \<longleftrightarrow> unat c = unat a + unat b + unat t"
  for a b t c :: "'w::len word"
proof
  assume *: "unat c = unat a + unat b + unat t"
  have "unat c < 2 ^ LENGTH('w)" by simp
  with * have ab: "checked_add a b = Some (a + b)" by (simp add: checked_add_Some)
  then have "unat (a + b) = unat a + unat b" by (rule unat_checked_add)
  with * have "checked_add (a + b) t = Some c" by (simp add: checked_add_unat_iff)
  with ab show "Option.bind (checked_add a b) (\<lambda>s. checked_add s t) = Some c" by simp
qed (auto simp: bind_eq_Some_conv checked_add_unat_iff)

lemma checked_add_commute: "checked_add a b = checked_add b a"
  by (simp add: checked_add_def add.commute)

lemma checked_add_assoc:
  fixes a b t :: "'w::len word"
  shows "Option.bind (checked_add a b) (\<lambda>s. checked_add s t) = Option.bind (checked_add a t) (checked_add b)"
    (is "?L = ?R")
proof -
  have "?R = Option.bind (checked_add a t) (\<lambda>s. checked_add s b)"
    by (rule arg_cong [where f = "Option.bind _"]) (simp add: fun_eq_iff checked_add_commute)
  then have "?L = Some c \<longleftrightarrow> ?R = Some c" for c
    by (auto simp: checked_add_assoc_left)
  then show ?thesis by (metis not_None_eq)
qed

interpretation unsigned: advancing_summary
  "(\<le>) :: 'w::len word \<Rightarrow> 'w word \<Rightarrow> bool" "(\<le>)" 0 checked_add checked_add
proof unfold_locales
  fix s t u :: "'w word"
  show "checked_add 0 t = Some t" by (simp add: checked_add_unat_iff)
  show "checked_add s t = Some u \<Longrightarrow> t \<le> u"
    by (auto simp: word_le_nat_alt dest: unat_checked_add)
  show "checked_add s t = Some t \<Longrightarrow> s = 0"
    by (auto dest!: unat_checked_add simp: unat_eq_0)
qed (auto intro: checked_add_mono checked_add_assoc)

interpretation unsigned: bounded_summary
  "(\<le>) :: 'w::len word \<Rightarrow> 'w word \<Rightarrow> bool" "(\<le>)" 0 checked_add checked_add
  by unfold_locales (rule unsigned.finite_bounded, simp)

interpretation unit: advancing_summary
  "\<lambda>_ _ :: unit. True" "\<lambda>_ _ :: unit. True" "()" unit_results_in unit_followed_by
  by unfold_locales (auto simp: unit_results_in_def unit_followed_by_def)

lemma duration_checked_add_Some:
  "duration_checked_add a b = Some c \<longleftrightarrow> as_nanos c = as_nanos a + as_nanos b"
  using as_nanos [of c] as_nanos_inverse [of c]
  by (auto simp: duration_checked_add_def from_nanos_inverse)

lemma duration_checked_add_exists:
  "as_nanos a + as_nanos b \<le> as_nanos c \<Longrightarrow> \<exists>d. duration_checked_add a b = Some d \<and> d \<le> c"
  using as_nanos [of c] by (auto simp: duration_checked_add_def less_eq_duration_def from_nanos_inverse)

interpretation duration: advancing_summary
  "(\<le>) :: duration \<Rightarrow> duration \<Rightarrow> bool" "(\<le>)" "from_nanos 0" duration_checked_add duration_checked_add
proof unfold_locales
  fix s s1 s2 t t1 t2 u u2 :: duration
  have zero: "as_nanos (from_nanos 0) = 0" by (simp add: from_nanos_inverse)
  show "duration_checked_add (from_nanos 0) t = Some t" by (simp add: duration_checked_add_Some zero)
  show "t1 \<le> t2 \<Longrightarrow> duration_checked_add s t2 = Some u2 \<Longrightarrow>
      \<exists>u1. duration_checked_add s t1 = Some u1 \<and> u1 \<le> u2"
    by (intro duration_checked_add_exists) (simp add: duration_checked_add_Some less_eq_duration_def)
  show "s1 \<le> s2 \<Longrightarrow> duration_checked_add s2 t = Some u2 \<Longrightarrow>
      \<exists>u1. duration_checked_add s1 t = Some u1 \<and> u1 \<le> u2"
    by (intro duration_checked_add_exists) (simp add: duration_checked_add_Some less_eq_duration_def)
  show "Option.bind (duration_checked_add s1 s2) (\<lambda>s. duration_checked_add s t)
      = Option.bind (duration_checked_add s1 t) (duration_checked_add s2)"
    by (auto simp: duration_checked_add_def from_nanos_inverse ac_simps split: bind_splits)
  show "duration_checked_add s t = Some u \<Longrightarrow> t \<le> u"
    by (simp add: duration_checked_add_Some less_eq_duration_def)
  show "duration_checked_add s t = Some t \<Longrightarrow> s = from_nanos 0"
    by (simp add: duration_checked_add_Some zero flip: as_nanos_inject)
qed auto


section \<open>Product and tuple\<close>

lemma product_results_in_Some:
  "product_results_in ro ri s p = Some q \<longleftrightarrow>
   ro (outer s) (outer p) = Some (outer q) \<and> ri (inner s) (inner p) = Some (inner q)"
  by (cases q) (auto simp: product_results_in_def bind_eq_Some_conv)

lemma ex_Product: "(\<exists>q. P q) \<longleftrightarrow> (\<exists>a b. P (Product a b))"
  by (metis Product.collapse)

lemma product_partial_order:
  "partial_order_laws leo \<Longrightarrow> partial_order_laws lei \<Longrightarrow> partial_order_laws (product_less_equal leo lei)"
  unfolding partial_order_laws_def product_less_equal_def by (metis Product.expand)

lemma tuple_partial_order:
  assumes "partial_order_laws leo" and "partial_order_laws lei"
  shows "partial_order_laws (tuple_less_equal leo lei)"
proof
  fix a b c :: "'a \<times> 'b"
  show "tuple_less_equal leo lei a a"
    by (simp add: tuple_less_equal_def partial_order_laws.le_refl [OF assms(2)])
  show "tuple_less_equal leo lei a b \<Longrightarrow> tuple_less_equal leo lei b a \<Longrightarrow> a = b"
    using partial_order_laws.lt_trans [OF assms(1), of "fst a" "fst b" "fst a"]
      partial_order_laws.le_antisym [OF assms(2), of "snd a" "snd b"]
    by (auto simp: tuple_less_equal_def prod_eq_iff partial_order_laws.lt_irrefl [OF assms(1)])
  show "tuple_less_equal leo lei a b \<Longrightarrow> tuple_less_equal leo lei b c \<Longrightarrow> tuple_less_equal leo lei a c"
    using partial_order_laws.lt_trans [OF assms(1), of "fst a" "fst b" "fst c"]
      partial_order_laws.le_trans [OF assms(2), of "snd a" "snd b" "snd c"]
    by (auto simp: tuple_less_equal_def)
qed

lemma product_timestamp_order:
  assumes "timestamp_order leo" and "timestamp_order lei"
  shows "timestamp_order (product_less_equal leo lei)"
proof -
  have "a \<le> b" if "product_less_equal leo lei a b" for a b
    using that timestamp_order.ord_compat [OF assms(1), of "outer a" "outer b"]
      timestamp_order.ord_compat [OF assms(2), of "inner a" "inner b"]
    by (auto simp: product_less_equal_def less_eq_Product_def)
  with assms show ?thesis
    by (simp add: timestamp_order_def timestamp_order_axioms_def product_partial_order)
qed

lemma tuple_timestamp_order:
  assumes "timestamp_order leo" and "timestamp_order lei"
  shows "timestamp_order (tuple_less_equal leo lei)"
proof -
  have "a \<le> b" if "tuple_less_equal leo lei a b" for a b
    using that timestamp_order.ord_compat [OF assms(1), of "fst a" "fst b"]
      timestamp_order.ord_compat [OF assms(2), of "snd a" "snd b"]
    by (auto simp: tuple_less_equal_def less_than_def less_eq_prod_def)
  with assms show ?thesis
    by (simp add: timestamp_order_def timestamp_order_axioms_def tuple_partial_order)
qed

text \<open>Composition of two componentwise option-valued steps.\<close>

lemma product_bind:
  "Option.bind (product_followed_by fo fi s1 s2) (\<lambda>s. product_results_in ro ri s t)
   = do { o' \<leftarrow> Option.bind (fo (outer s1) (outer s2)) (\<lambda>s. ro s (outer t));
          map_option (Product o') (Option.bind (fi (inner s1) (inner s2)) (\<lambda>s. ri s (inner t))) }"
  by (cases "fo (outer s1) (outer s2)"; cases "fi (inner s1) (inner s2)"; cases "ro (the (fo (outer s1) (outer s2))) (outer t)")
    (auto simp: product_followed_by_def product_results_in_def)

lemma product_bind_results:
  "Option.bind (product_results_in ro ri s1 t) (product_results_in ro ri s2)
   = do { o' \<leftarrow> Option.bind (ro (outer s1) (outer t)) (ro (outer s2));
          map_option (Product o') (Option.bind (ri (inner s1) (inner t)) (ri (inner s2))) }"
  by (cases "ro (outer s1) (outer t)"; cases "ri (inner s1) (inner t)";
      cases "ro (outer s2) (the (ro (outer s1) (outer t)))")
    (auto simp: product_results_in_def)

lemma product_path_summary:
  assumes "path_summary leo sleo dfo ro fo" and "path_summary lei slei dfi ri fi"
  shows "path_summary (product_less_equal leo lei) (product_less_equal sleo slei) (Product dfo dfi)
    (product_results_in ro ri) (product_followed_by fo fi)"
proof -
  note o = path_summary.results_mono [OF assms(1)] path_summary.results_summary_mono [OF assms(1)]
  note i = path_summary.results_mono [OF assms(2)] path_summary.results_summary_mono [OF assms(2)]
  have "partial_order_laws (product_less_equal sleo slei)"
    using assms by (intro product_partial_order path_summary.summary_order)
  moreover have "timestamp_order (product_less_equal leo lei)"
    using assms by (intro product_timestamp_order) (simp_all add: path_summary_def)
  moreover have "product_results_in ro ri (Product dfo dfi) t = Some t" for t
    by (simp add: product_results_in_Some path_summary.results_default [OF assms(1)]
        path_summary.results_default [OF assms(2)])
  moreover have "\<exists>u1. product_results_in ro ri s t1 = Some u1 \<and> product_less_equal leo lei u1 u2"
    if "product_less_equal leo lei t1 t2" "product_results_in ro ri s t2 = Some u2" for s t1 t2 u2
    using that o(1) [of "outer t1" "outer t2" "outer s" "outer u2"]
      i(1) [of "inner t1" "inner t2" "inner s" "inner u2"]
    by (auto simp: product_results_in_Some product_less_equal_def ex_Product)
  moreover have "\<exists>u1. product_results_in ro ri s1 t = Some u1 \<and> product_less_equal leo lei u1 u2"
    if "product_less_equal sleo slei s1 s2" "product_results_in ro ri s2 t = Some u2" for s1 s2 t u2
    using that o(2) [of "outer s1" "outer s2" "outer t" "outer u2"]
      i(2) [of "inner s1" "inner s2" "inner t" "inner u2"]
    by (auto simp: product_results_in_Some product_less_equal_def ex_Product)
  moreover have "Option.bind (product_followed_by fo fi s1 s2) (\<lambda>s. product_results_in ro ri s t)
      = Option.bind (product_results_in ro ri s1 t) (product_results_in ro ri s2)" for s1 s2 t
    by (simp add: product_bind product_bind_results path_summary.results_followed_by [OF assms(1)]
        path_summary.results_followed_by [OF assms(2)])
  ultimately show ?thesis by (simp add: path_summary_def path_summary_axioms_def)
qed


lemma product_advancing_summary:
  assumes "advancing_summary leo sleo dfo ro fo" and "advancing_summary lei slei dfi ri fi"
  shows "advancing_summary (product_less_equal leo lei) (product_less_equal sleo slei) (Product dfo dfi)
    (product_results_in ro ri) (product_followed_by fo fi)"
proof -
  have "path_summary (product_less_equal leo lei) (product_less_equal sleo slei) (Product dfo dfi)
      (product_results_in ro ri) (product_followed_by fo fi)"
    using assms by (intro product_path_summary) (simp_all add: advancing_summary_def)
  moreover have "product_less_equal leo lei t u" if "product_results_in ro ri s t = Some u" for s t u
    using that advancing_summary.advances [OF assms(1)] advancing_summary.advances [OF assms(2)]
    by (auto simp: product_results_in_Some product_less_equal_def)
  moreover have "s = Product dfo dfi" if "product_results_in ro ri s t = Some t" for s t
    using that advancing_summary.stays_default [OF assms(1)] advancing_summary.stays_default [OF assms(2)]
    by (cases s) (auto simp: product_results_in_Some)
  ultimately show ?thesis by (simp add: advancing_summary_def advancing_summary_axioms_def)
qed

lemma product_refines:
  assumes "path_summary leo sleo dfo ro fo" and "path_summary lei slei dfi ri fi"
  shows "refines_laws (product_less_equal leo lei) (product_less_equal sleo slei) (Product dfo dfi)
    (product_results_in ro ri) (product_followed_by fo fi) leo sleo dfo ro fo
    (product_to_inner minimum) product_to_outer product_summarize"
proof -
  have refl: "leo t t" for t
    using assms(1) by (simp add: path_summary_def timestamp_order_def partial_order_laws_def)
  have "refines_laws_axioms (product_less_equal leo lei) (product_results_in ro ri) leo ro
      (product_to_inner minimum) product_to_outer product_summarize"
    by unfold_locales (auto simp: product_to_inner_def product_to_outer_def product_summarize_def
        product_less_equal_def product_results_in_Some refl)
  with product_path_summary [OF assms] assms(1) show ?thesis by (simp add: refines_laws_def)
qed

text \<open>
  The timestamps of a scope nested in a scope of machine-integer time, for any two widths.
\<close>

interpretation nested: advancing_summary
  "product_less_equal (\<le>) ((\<le>) :: 'v::len word \<Rightarrow> 'v word \<Rightarrow> bool)
     :: ('w::len word, 'v word) Product \<Rightarrow> ('w word, 'v word) Product \<Rightarrow> bool"
  "product_less_equal (\<le>) (\<le>)" "Product 0 0"
  "product_results_in checked_add checked_add" "product_followed_by checked_add checked_add"
  by (rule product_advancing_summary) (rule unsigned.advancing_summary_axioms)+

lemma finite_Product [simp]: "finite (UNIV :: ('a::finite, 'b::finite) Product set)"
proof -
  have "(UNIV :: ('a, 'b) Product set) = (\<lambda>(a, b). Product a b) ` UNIV"
  proof (rule set_eqI)
    fix p :: "('a, 'b) Product"
    show "p \<in> UNIV \<longleftrightarrow> p \<in> (\<lambda>(a, b). Product a b) ` UNIV"
      by (cases p) (simp add: image_iff)
  qed
  then show ?thesis by (metis finite finite_imageI)
qed

interpretation nested: bounded_summary
  "product_less_equal (\<le>) ((\<le>) :: 'v::len word \<Rightarrow> 'v word \<Rightarrow> bool)
     :: ('w::len word, 'v word) Product \<Rightarrow> ('w word, 'v word) Product \<Rightarrow> bool"
  "product_less_equal (\<le>) (\<le>)" "Product 0 0"
  "product_results_in checked_add checked_add" "product_followed_by checked_add checked_add"
  by unfold_locales (rule nested.finite_bounded, rule finite_Product)

interpretation nested: refines_laws
  "product_less_equal (\<le>) ((\<le>) :: 'v::len word \<Rightarrow> 'v word \<Rightarrow> bool)
     :: ('w::len word, 'v word) Product \<Rightarrow> ('w word, 'v word) Product \<Rightarrow> bool"
  "product_less_equal (\<le>) (\<le>)" "Product 0 0"
  "product_results_in checked_add checked_add" "product_followed_by checked_add checked_add"
  "(\<le>) :: 'w word \<Rightarrow> 'w word \<Rightarrow> bool" "(\<le>)" 0 checked_add checked_add
  "product_to_inner unsigned_minimum" product_to_outer product_summarize
  by (rule product_refines) (rule unsigned.path_summary_axioms)+

interpretation lexicographic: timestamp_order
  "tuple_less_equal (\<le>) ((\<le>) :: 'v::len word \<Rightarrow> 'v word \<Rightarrow> bool)
     :: 'w::len word \<times> 'v word \<Rightarrow> 'w word \<times> 'v word \<Rightarrow> bool"
  by (rule tuple_timestamp_order) (rule unsigned.timestamp_order_axioms)+

section \<open>Properties\<close>

text \<open>
  for every unsigned integer type, \<open>results_in\<close> and \<open>followed_by\<close> satisfy the
  contract of \<open>PathSummary\<close>: the default summary is a no-op, both arguments are monotone
  (an overflow counts as larger than every timestamp), composing summaries equals applying
  them in turn, also when the composition overflows, and a timestamp never moves backwards.
\<close>

theorem unsigned_path_summary:
  fixes s s' t t' :: "'w::len word"
  shows "checked_add 0 t = Some t
    \<and> (s \<le> s' \<and> t \<le> t' \<longrightarrow> (\<forall>u'. checked_add s' t' = Some u' \<longrightarrow> (\<exists>u. checked_add s t = Some u \<and> u \<le> u')))
    \<and> Option.bind (checked_add s s') (\<lambda>c. checked_add c t) = Option.bind (checked_add s t) (checked_add s')
    \<and> (\<forall>u. checked_add s t = Some u \<longrightarrow> t \<le> u \<and> (u = t \<longrightarrow> s = 0))"
  using checked_add_mono [of s s' t t'] unsigned.advances [of s t] unsigned.stays_default [of s t]
  by (simp add: unsigned.results_default checked_add_assoc)

theorem unsigned_path_summary_witness:
  "checked_add (5 :: 8 word) 3 = Some 8 \<and> checked_add (253 :: 8 word) 3 = None
   \<and> (\<exists>u. checked_add (2 :: 8 word) 1 = Some u \<and> u \<le> 8)"
proof -
  have a: "checked_add (5 :: 8 word) 3 = Some 8" "checked_add (253 :: 8 word) 3 = None"
    by (simp_all add: checked_add_def)
  show ?thesis using a unsigned_path_summary [of "1 :: 8 word" 2 5 3] by simp
qed

text \<open>
  C38: \<open>Product\<close> lifts the contract: a product of two lawful summary types is lawful, with
  overflow in either coordinate discarding the timestamp, and entering a scope, following an
  inner summary and leaving it again is never earlier than the summarized outer summary says.
\<close>

theorem product_contract:
  assumes "path_summary leo sleo dfo ro fo" and "path_summary lei slei dfi ri fi"
  shows "path_summary (product_less_equal leo lei) (product_less_equal sleo slei) (Product dfo dfi)
      (product_results_in ro ri) (product_followed_by fo fi)
    \<and> (\<forall>s t u. product_results_in ro ri s (product_to_inner m t) = Some u \<longrightarrow>
        (\<exists>v. ro (product_summarize s) t = Some v \<and> leo v (product_to_outer u)))"
  using product_path_summary [OF assms] refines_laws.summarize_sound [OF product_refines [OF assms, of m]]
  by blast

theorem product_contract_witness:
  "product_results_in checked_add checked_add (Product (1 :: 8 word) (2 :: 8 word)) (product_to_inner 0 7)
     = Some (Product 8 2)
   \<and> (\<exists>v. checked_add (product_summarize (Product (1 :: 8 word) (2 :: 8 word))) 7 = Some v \<and> v \<le> 8)"
proof -
  have r: "product_results_in checked_add checked_add (Product (1 :: 8 word) (2 :: 8 word)) (product_to_inner 0 7)
     = Some (Product 8 2)"
    by (simp add: product_results_in_def product_to_inner_def checked_add_def)
  from product_contract [OF unsigned.path_summary_axioms [where 'w = 8] unsigned.path_summary_axioms [where 'w = 8], of 0] r
  show ?thesis by (fastforce simp: product_to_outer_def)
qed

text \<open>The values of the signed integer type of \<open>w\<close> bits.\<close>

definition signed_range :: "nat \<Rightarrow> int set" where
  "signed_range w = {- (2 ^ (w - 1))..<2 ^ (w - 1)}"

text \<open>
  C39: no signed integer type satisfies the contract.  Every negative summary discards a timestamp and keeps a larger
  one, which the larger summary zero also keeps at the discarded timestamp.  And whenever the composition of two
  positive summaries overflows, so that \<open>followed_by\<close> drops the path, the two can still be applied in turn, with the
  exact sum as result, to every timestamp small enough, and there are such timestamps.
\<close>

theorem signed_path_summary_fails:
  assumes "0 < w" and "s \<in> signed_range w" and "s' \<in> signed_range w"
  shows "(s < 0 \<longrightarrow> (\<exists>t \<in> signed_range w. \<exists>t' \<in> signed_range w. t \<le> t'
            \<and> checked_add_signed w s t = None \<and> checked_add_signed w s t' \<noteq> None \<and> checked_add_signed w 0 t = Some t))
    \<and> (0 < s \<and> 0 < s' \<and> checked_add_signed w s s' = None \<longrightarrow>
         (\<forall>t \<in> signed_range w. t + s + s' < 2 ^ (w - 1) \<longrightarrow> Option.bind (checked_add_signed w s t) (checked_add_signed w s') = Some (t + s + s'))
         \<and> (\<exists>t \<in> signed_range w. t + s + s' < 2 ^ (w - 1)))"
proof -
  define m :: int where "m = 2 ^ (w - 1)"
  have m: "0 < m" and r: "x \<in> signed_range w \<longleftrightarrow> - m \<le> x \<and> x < m" for x by (simp_all add: m_def signed_range_def)
  have c: "checked_add_signed w x y = (if - m \<le> x + y \<and> x + y < m then Some (x + y) else None)" for x y
    by (simp add: checked_add_signed_def m_def)
  have "- m \<in> signed_range w" "0 \<in> signed_range w" using m by (simp_all add: r)
  then have "s < 0 \<longrightarrow> (\<exists>t \<in> signed_range w. \<exists>t' \<in> signed_range w. t \<le> t'
      \<and> checked_add_signed w s t = None \<and> checked_add_signed w s t' \<noteq> None \<and> checked_add_signed w 0 t = Some t)"
    using m assms(2) by (intro impI bexI [of _ "- m"] bexI [of _ 0]) (auto simp: r c)
  moreover have "- m + s + s' < m" using assms(2,3) by (simp add: r)
  ultimately show ?thesis unfolding m_def [symmetric] using \<open>- m \<in> signed_range w\<close> assms(2,3) by (auto simp: r c intro!: bexI [of _ "- m"])
qed

theorem signed_path_summary_fails_witness:
  "checked_add_signed 8 100 100 = None
   \<and> Option.bind (checked_add_signed 8 100 (- 100)) (checked_add_signed 8 100) = Some 100
   \<and> (\<exists>t \<in> signed_range 8. \<exists>t' \<in> signed_range 8. t \<le> t' \<and> checked_add_signed 8 (- 100) t = None \<and> checked_add_signed 8 (- 100) t' \<noteq> None)"
proof -
  have r: "100 \<in> signed_range 8" "- 100 \<in> signed_range 8" "checked_add_signed 8 100 100 = None" by (simp_all add: signed_range_def checked_add_signed_def)
  have "Option.bind (checked_add_signed 8 100 (- 100)) (checked_add_signed 8 100) = Some (- 100 + 100 + 100)"
    using signed_path_summary_fails [OF _ r(1,1)] r by auto
  moreover have "\<exists>t \<in> signed_range 8. \<exists>t' \<in> signed_range 8. t \<le> t' \<and> checked_add_signed 8 (- 100) t = None \<and> checked_add_signed 8 (- 100) t' \<noteq> None"
    using signed_path_summary_fails [OF _ r(2,1)] by auto
  ultimately show ?thesis using r(3) by simp
qed



end
