(* ===== verification/Frontier.thy ===== *)
theory Frontier
  imports Change_Batch Partial_Orders
begin

text \<open>
  \<^verbatim>\<open>timely/src/progress/frontier.rs\<close>: \<open>Antichain\<close>, \<open>MutableAntichain\<close> and the
  borrowed \<open>AntichainRef\<close>, whose slice is the list itself.  \<open>le\<close> is the
  \<open>PartialOrder\<close> of the elements, \<open>linorder\<close> their \<open>Ord\<close>.

  \<open>minimals\<close> is the abstract frontier of a set of times; \<open>antichain_inv\<close> and
  \<open>ma_inv\<close> are the invariants.  \<open>ma_inv\<close> says that the maintained frontier is the
  set of minimal times of positive accumulated count, although \<open>update_iter\<close> rebuilds it
  only when it cannot rule out a change.
\<close>

section \<open>Antichain\<close>

record 't antichain =
  ac_elements :: "'t list"

definition antichain_new :: "'t antichain" where
  "antichain_new = \<lparr>ac_elements = []\<rparr>"

definition antichain_from_elem :: "'t \<Rightarrow> 't antichain" where
  "antichain_from_elem e = \<lparr>ac_elements = [e]\<rparr>"

definition antichain_clear :: "'t antichain \<Rightarrow> 't antichain" where
  "antichain_clear a = a\<lparr>ac_elements := []\<rparr>"

definition antichain_insert ::
  "('t \<Rightarrow> 't \<Rightarrow> bool) \<Rightarrow> 't \<Rightarrow> 't antichain \<Rightarrow> bool \<times> 't antichain" where
  "antichain_insert le e a =
     (if \<not> list_ex (\<lambda>x. le x e) (ac_elements a)
      then (True, a\<lparr>ac_elements := filter (\<lambda>x. \<not> le e x) (ac_elements a) @ [e]\<rparr>)
      else (False, a))"

text \<open>\<open>insert_with\<close> compares with a borrowed form of the element and converts it on insertion.\<close>

definition antichain_insert_with ::
  "('t \<Rightarrow> 'o \<Rightarrow> bool) \<Rightarrow> ('o \<Rightarrow> 't \<Rightarrow> bool) \<Rightarrow> ('o \<Rightarrow> 't) \<Rightarrow> 'o \<Rightarrow> 't antichain
   \<Rightarrow> bool \<times> 't antichain" where
  "antichain_insert_with le_to le_ot to_owned e a =
     (if \<not> list_ex (\<lambda>x. le_to x e) (ac_elements a)
      then (True, a\<lparr>ac_elements := filter (\<lambda>x. \<not> le_ot e x) (ac_elements a) @ [to_owned e]\<rparr>)
      else (False, a))"

definition antichain_insert_ref ::
  "('t \<Rightarrow> 't \<Rightarrow> bool) \<Rightarrow> 't \<Rightarrow> 't antichain \<Rightarrow> bool \<times> 't antichain" where
  "antichain_insert_ref le e a = antichain_insert_with le le (\<lambda>x. x) e a"

fun antichain_extend_from ::
  "('t \<Rightarrow> 't \<Rightarrow> bool) \<Rightarrow> 't list \<Rightarrow> bool \<Rightarrow> 't antichain \<Rightarrow> bool \<times> 't antichain" where
  "antichain_extend_from le [] added a = (added, a)"
| "antichain_extend_from le (e # es) added a =
     (let (inserted, a') = antichain_insert le e a
      in antichain_extend_from le es (inserted \<or> added) a')"

definition antichain_extend ::
  "('t \<Rightarrow> 't \<Rightarrow> bool) \<Rightarrow> 't list \<Rightarrow> 't antichain \<Rightarrow> bool \<times> 't antichain" where
  "antichain_extend le es a = antichain_extend_from le es False a"

definition antichain_from_iter :: "('t \<Rightarrow> 't \<Rightarrow> bool) \<Rightarrow> 't list \<Rightarrow> 't antichain" where
  "antichain_from_iter le es = snd (antichain_extend le es antichain_new)"

definition antichain_from_vec :: "('t \<Rightarrow> 't \<Rightarrow> bool) \<Rightarrow> 't list \<Rightarrow> 't antichain" where
  "antichain_from_vec le es = fold (\<lambda>e a. snd (antichain_insert le e a)) es antichain_new"

definition antichain_less_than :: "('t \<Rightarrow> 't \<Rightarrow> bool) \<Rightarrow> 't antichain \<Rightarrow> 't \<Rightarrow> bool" where
  "antichain_less_than le a t \<longleftrightarrow> list_ex (\<lambda>x. less_than le x t) (ac_elements a)"

definition antichain_less_equal :: "('t \<Rightarrow> 't \<Rightarrow> bool) \<Rightarrow> 't antichain \<Rightarrow> 't \<Rightarrow> bool" where
  "antichain_less_equal le a t \<longleftrightarrow> list_ex (\<lambda>x. le x t) (ac_elements a)"

definition antichain_sort :: "'t::linorder antichain \<Rightarrow> 't antichain" where
  "antichain_sort a = a\<lparr>ac_elements := sort (ac_elements a)\<rparr>"

text \<open>\<open>PartialEq\<close> and \<open>PartialOrder\<close> of antichains and of borrowed antichains.\<close>

definition aref_eq :: "'t list \<Rightarrow> 't list \<Rightarrow> bool" where
  "aref_eq xs ys \<longleftrightarrow> length xs = length ys
     \<and> (list_all (\<lambda>(x, y). x = y) (zip xs ys) \<or> list_all (\<lambda>x. list_ex (\<lambda>y. x = y) ys) xs)"

definition antichain_eq :: "'t antichain \<Rightarrow> 't antichain \<Rightarrow> bool" where
  "antichain_eq a b \<longleftrightarrow> length (ac_elements a) = length (ac_elements b)
     \<and> (list_all (\<lambda>(x, y). x = y) (zip (ac_elements a) (ac_elements b))
        \<or> list_all (\<lambda>x. list_ex (\<lambda>y. x = y) (ac_elements b)) (ac_elements a))"

definition aref_le :: "('t \<Rightarrow> 't \<Rightarrow> bool) \<Rightarrow> 't list \<Rightarrow> 't list \<Rightarrow> bool" where
  "aref_le le xs ys \<longleftrightarrow> list_all (\<lambda>t2. list_ex (\<lambda>t1. le t1 t2) xs) ys"

definition antichain_le :: "('t \<Rightarrow> 't \<Rightarrow> bool) \<Rightarrow> 't antichain \<Rightarrow> 't antichain \<Rightarrow> bool" where
  "antichain_le le a b \<longleftrightarrow> list_all (\<lambda>t2. list_ex (\<lambda>t1. le t1 t2) (ac_elements a)) (ac_elements b)"

definition antichain_dominates :: "('t \<Rightarrow> 't \<Rightarrow> bool) \<Rightarrow> 't antichain \<Rightarrow> 't antichain \<Rightarrow> bool" where
  "antichain_dominates le a b = antichain_le le a b"

text \<open>\<open>into_option\<close> and \<open>as_option\<close>; the \<open>debug_assert!\<close> on the length is not part of a release build.\<close>

definition antichain_as_option :: "'t antichain \<Rightarrow> 't option" where
  "antichain_as_option a = (if ac_elements a = [] then None else Some (last (ac_elements a)))"

definition antichain_into_option :: "'t antichain \<Rightarrow> 't option" where
  "antichain_into_option a = (if ac_elements a = [] then None else Some (last (ac_elements a)))"

text \<open>What \<open>Hash for Antichain\<close> feeds to the hasher: the elements in sorted order.\<close>

definition antichain_hash_input :: "'t::linorder antichain \<Rightarrow> 't list" where
  "antichain_hash_input a = sort (ac_elements a)"

definition aref_less_than :: "('t \<Rightarrow> 't \<Rightarrow> bool) \<Rightarrow> 't list \<Rightarrow> 't \<Rightarrow> bool" where
  "aref_less_than le xs t \<longleftrightarrow> list_ex (\<lambda>x. less_than le x t) xs"

definition aref_less_equal :: "('t \<Rightarrow> 't \<Rightarrow> bool) \<Rightarrow> 't list \<Rightarrow> 't \<Rightarrow> bool" where
  "aref_less_equal le xs t \<longleftrightarrow> list_ex (\<lambda>x. le x t) xs"

definition aref_to_owned :: "'t list \<Rightarrow> 't antichain" where
  "aref_to_owned xs = \<lparr>ac_elements = xs\<rparr>"

definition aref_as_option :: "'t list \<Rightarrow> 't option" where
  "aref_as_option xs = (if xs = [] then None else Some (last xs))"

section \<open>MutableAntichain\<close>

record 't mutable_antichain =
  ma_updates :: "'t change_batch"
  ma_frontier :: "'t list"
  ma_changes :: "'t change_batch"

definition ma_new :: "'t mutable_antichain" where
  "ma_new = \<lparr>ma_updates = cb_new, ma_frontier = [], ma_changes = cb_new\<rparr>"

definition ma_clear :: "'t mutable_antichain \<Rightarrow> 't mutable_antichain" where
  "ma_clear m = m\<lparr>ma_updates := cb_clear (ma_updates m), ma_frontier := [],
     ma_changes := cb_clear (ma_changes m)\<rparr>"

definition ma_new_bottom :: "'t::linorder \<Rightarrow> 't mutable_antichain" where
  "ma_new_bottom bottom =
     \<lparr>ma_updates = cb_new_from bottom 1, ma_frontier = [bottom], ma_changes = cb_new\<rparr>"

definition ma_is_empty :: "'t mutable_antichain \<Rightarrow> bool" where
  "ma_is_empty m \<longleftrightarrow> ma_frontier m = []"

definition ma_less_than :: "('t \<Rightarrow> 't \<Rightarrow> bool) \<Rightarrow> 't mutable_antichain \<Rightarrow> 't \<Rightarrow> bool" where
  "ma_less_than le m t = aref_less_than le (ma_frontier m) t"

definition ma_less_equal :: "('t \<Rightarrow> 't \<Rightarrow> bool) \<Rightarrow> 't mutable_antichain \<Rightarrow> 't \<Rightarrow> bool" where
  "ma_less_equal le m t = aref_less_equal le (ma_frontier m) t"

text \<open>The loop of \<open>rebuild\<close> over the sorted updates of positive count.\<close>

fun ma_build :: "('t \<Rightarrow> 't \<Rightarrow> bool) \<Rightarrow> ('t \<times> int) list \<Rightarrow> 't list \<Rightarrow> 't list" where
  "ma_build le [] fs = fs"
| "ma_build le ((t, d) # us) fs =
     ma_build le us (if d > 0 \<and> \<not> list_ex (\<lambda>f. le f t) fs then fs @ [t] else fs)"

definition ma_rebuild :: "('t::linorder \<Rightarrow> 't \<Rightarrow> bool) \<Rightarrow> 't mutable_antichain \<Rightarrow> 't mutable_antichain" where
  "ma_rebuild le m =
     (let changes = fold (\<lambda>t. cb_update t (- 1)) (ma_frontier m) (ma_changes m);
          (us, updates) = cb_iter (ma_updates m);
          frontier = ma_build le us [];
          changes = fold (\<lambda>t. cb_update t 1) frontier changes
      in m\<lparr>ma_updates := updates, ma_frontier := frontier, ma_changes := changes\<rparr>)"

text \<open>The loop of \<open>update_iter\<close>: the flag and the accumulated updates; the frontier is fixed.\<close>

fun ma_apply ::
  "('t::linorder \<Rightarrow> 't \<Rightarrow> bool) \<Rightarrow> 't list \<Rightarrow> ('t \<times> int) list \<Rightarrow> bool \<Rightarrow> 't change_batch
   \<Rightarrow> bool \<times> 't change_batch" where
  "ma_apply le frontier [] rebuild b = (rebuild, b)"
| "ma_apply le frontier ((time, delta) # us) rebuild b =
     (let beyond_frontier = list_ex (\<lambda>f. less_than le f time) frontier;
          before_frontier = \<not> list_ex (\<lambda>f. le f time) frontier;
          rebuild' = (if \<not> rebuild then \<not> (beyond_frontier \<or> (delta < 0 \<and> before_frontier)) else rebuild)
      in ma_apply le frontier us rebuild' (cb_update time delta b))"

definition ma_update_iter ::
  "('t::linorder \<Rightarrow> 't \<Rightarrow> bool) \<Rightarrow> ('t \<times> int) list \<Rightarrow> 't mutable_antichain
   \<Rightarrow> ('t \<times> int) list \<times> 't mutable_antichain" where
  "ma_update_iter le us m =
     (let (rebuild, b) = ma_apply le (ma_frontier m) us False (ma_updates m);
          m1 = m\<lparr>ma_updates := b\<rparr>;
          m2 = (if rebuild then ma_rebuild le m1 else m1);
          (out, changes) = cb_drain (ma_changes m2)
      in (out, m2\<lparr>ma_changes := changes\<rparr>))"

definition ma_count_for :: "'t mutable_antichain \<Rightarrow> 't \<Rightarrow> int" where
  "ma_count_for m q = sum_list (map snd (filter (\<lambda>td. fst td = q) (cb_updates (ma_updates m))))"

text \<open>\<open>updates\<close> rebuilds without draining \<open>changes\<close>.\<close>

definition ma_reveal_updates ::
  "('t::linorder \<Rightarrow> 't \<Rightarrow> bool) \<Rightarrow> 't mutable_antichain \<Rightarrow> ('t \<times> int) list \<times> 't mutable_antichain" where
  "ma_reveal_updates le m =
     (let m' = ma_rebuild le m; (us, b) = cb_iter (ma_updates m') in (us, m'\<lparr>ma_updates := b\<rparr>))"

definition ma_filter_through ::
  "('t::linorder \<Rightarrow> 't \<Rightarrow> bool) \<Rightarrow> ('t \<times> int) list \<Rightarrow> 't mutable_antichain
   \<Rightarrow> ('t \<times> int) list \<times> 't mutable_antichain" where
  "ma_filter_through le us m = ma_update_iter le us m"

definition ma_from_antichain :: "('t::linorder \<Rightarrow> 't \<Rightarrow> bool) \<Rightarrow> 't antichain \<Rightarrow> 't mutable_antichain" where
  "ma_from_antichain le a = snd (ma_update_iter le (map (\<lambda>t. (t, 1)) (ac_elements a)) ma_new)"

definition ma_from_iter :: "('t::linorder \<Rightarrow> 't \<Rightarrow> bool) \<Rightarrow> ('t \<times> int) list \<Rightarrow> 't mutable_antichain" where
  "ma_from_iter le us = snd (ma_update_iter le us ma_new)"

section \<open>Abstraction and invariants\<close>

definition minimals :: "('t \<Rightarrow> 't \<Rightarrow> bool) \<Rightarrow> 't set \<Rightarrow> 't set" where
  "minimals le A = {x \<in> A. \<forall>y \<in> A. le y x \<longrightarrow> y = x}"

definition antichain_inv :: "('t \<Rightarrow> 't \<Rightarrow> bool) \<Rightarrow> 't antichain \<Rightarrow> bool" where
  "antichain_inv le a \<longleftrightarrow> distinct (ac_elements a)
     \<and> (\<forall>x \<in> set (ac_elements a). \<forall>y \<in> set (ac_elements a). le x y \<longrightarrow> x = y)"

definition ma_count :: "'t mutable_antichain \<Rightarrow> 't \<Rightarrow> int" where
  "ma_count m t = cb_count (ma_updates m) t"

definition ma_inv :: "('t::linorder \<Rightarrow> 't \<Rightarrow> bool) \<Rightarrow> 't mutable_antichain \<Rightarrow> bool" where
  "ma_inv le m \<longleftrightarrow> cb_inv (ma_updates m) \<and> cb_inv (ma_changes m) \<and> cb_nonzero (ma_changes m)
     \<and> (\<forall>t. cb_count (ma_changes m) t = 0)
     \<and> distinct (ma_frontier m) \<and> set (ma_frontier m) = minimals le {t. ma_count m t > 0}"

section \<open>Antichains\<close>

lemma insert_ref_eq [simp]: "antichain_insert_ref le e a = antichain_insert le e a"
  by (simp add: antichain_insert_ref_def antichain_insert_with_def antichain_insert_def)

lemma extend_from_eq_fold:
  "snd (antichain_extend_from le es added a) = fold (\<lambda>e a. snd (antichain_insert le e a)) es a"
  by (induction es arbitrary: added a) (auto simp: split_beta Let_def)

lemma from_iter_eq_from_vec: "antichain_from_iter le es = antichain_from_vec le es"
  by (simp add: antichain_from_iter_def antichain_from_vec_def antichain_extend_def extend_from_eq_fold)

context partial_order_laws
begin

text \<open>A subset that has something below every element has the same minimal elements.\<close>

lemma minimals_cover:
  assumes sub: "X \<subseteq> Y" and cov: "\<And>y. y \<in> Y \<Longrightarrow> \<exists>x \<in> X. le x y"
  shows "minimals le X = minimals le Y"
proof (rule set_eqI, rule iffI)
  fix x assume x: "x \<in> minimals le X"
  have "y = x" if y: "y \<in> Y" "le y x" for y
  proof -
    from cov [OF y(1)] obtain z where z: "z \<in> X" "le z y" by blast
    with x le_trans [of z y x] y(2) have "z = x" by (auto simp: minimals_def)
    with z(2) y(2) le_antisym show ?thesis by blast
  qed
  with x sub show "x \<in> minimals le Y" unfolding minimals_def by blast
next
  fix y assume "y \<in> minimals le Y"
  then show "y \<in> minimals le X" using cov [of y] sub unfolding minimals_def by blast
qed

lemma minimals_antichain: "(\<And>f g. f \<in> F \<Longrightarrow> g \<in> F \<Longrightarrow> le f g \<Longrightarrow> f = g) \<Longrightarrow> minimals le F = F"
  unfolding minimals_def by blast

end

lemma finite_cb_count: "finite {t. cb_count b t \<noteq> 0}"
  by (rule finite_subset [of _ "fst ` set (cb_updates b)"])
    (auto simp: cb_count_def dest: upd_count_notin intro: ccontr)

lemma finite_ma_pos: "finite {t. ma_count m t > 0}"
  by (rule finite_subset [OF _ finite_cb_count [of "ma_updates m"]]) (auto simp: ma_count_def)

lemma ma_count_for_eq: "ma_count_for m t = ma_count m t"
proof -
  have "sum_list (map snd (filter (\<lambda>td. fst td = t) us)) = upd_count us t" for us
    by (induction us) auto
  then show ?thesis by (simp add: ma_count_for_def ma_count_def cb_count_def)
qed

context partial_order_laws
begin

lemma antichain_inv_insert:
  "antichain_inv le a \<Longrightarrow> antichain_inv le (snd (antichain_insert le e a))"
  using le_refl by (auto simp: antichain_inv_def antichain_insert_def list_ex_iff)

lemma less_equal_insert:
  "antichain_less_equal le (snd (antichain_insert le e a)) t \<longleftrightarrow> le e t \<or> antichain_less_equal le a t"
  using le_trans by (auto simp: antichain_less_equal_def antichain_insert_def list_ex_iff)

lemma set_insert_minimals:
  assumes "set (ac_elements a) = minimals le A" and "finite A"
  shows "set (ac_elements (snd (antichain_insert le e a))) = minimals le (insert e A)"
proof -
  have below: "\<exists>m \<in> minimals le A. le m x" if "x \<in> A" for x
    using finite_has_minimal_below [OF assms(2) that] by (auto simp: minimals_def)
  show ?thesis
  proof (cases "\<exists>x \<in> minimals le A. le x e")
    case True
    then obtain x where x: "x \<in> minimals le A" "le x e" by blast
    have "minimals le (insert e A) = minimals le A"
    proof (rule set_eqI, rule iffI)
      fix y assume y: "y \<in> minimals le (insert e A)"
      show "y \<in> minimals le A"
      proof (cases "y = e")
        case True
        with y x have "x = e" by (auto simp: minimals_def)
        with x True show ?thesis by simp
      next
        case False
        with y show ?thesis by (auto simp: minimals_def)
      qed
    next
      fix y assume y: "y \<in> minimals le A"
      have "y = e" if "le e y"
      proof -
        from x(2) that have "le x y" by (rule le_trans)
        with x y have "x = y" by (auto simp: minimals_def)
        with x that show ?thesis by (auto intro: le_antisym)
      qed
      with y show "y \<in> minimals le (insert e A)" by (auto simp: minimals_def)
    qed
    with True assms(1) show ?thesis by (auto simp: antichain_insert_def list_ex_iff)
  next
    case False
    then have "\<not> le x e" if "x \<in> A" for x
      using below [OF that] le_trans by blast
    then have "minimals le (insert e A) = insert e {x \<in> minimals le A. \<not> le e x}"
      using le_refl by (auto simp: minimals_def)
    with False assms(1) show ?thesis by (auto simp: antichain_insert_def list_ex_iff)
  qed
qed

lemma from_vec_fold:
  assumes "set (ac_elements a) = minimals le A" "finite A" "antichain_inv le a"
  shows "set (ac_elements (fold (\<lambda>e a. snd (antichain_insert le e a)) es a)) = minimals le (set es \<union> A)
    \<and> antichain_inv le (fold (\<lambda>e a. snd (antichain_insert le e a)) es a)"
  using assms
proof (induction es arbitrary: a A)
  case Nil
  then show ?case by simp
next
  case (Cons e es)
  from Cons.IH [OF set_insert_minimals [OF Cons.prems(1,2)] _ antichain_inv_insert [OF Cons.prems(3)]]
  show ?case using Cons.prems(2) by simp
qed

end


section \<open>Mutable antichains\<close>

lemma apply_count [count_simps]:
  "cb_count (snd (ma_apply le fr us r b)) t = cb_count b t + upd_count us t"
  by (induction le fr us r b rule: ma_apply.induct) (auto simp: Let_def)

lemma apply_inv [inv_intros]: "cb_inv b \<Longrightarrow> cb_inv (snd (ma_apply le fr us r b))"
  by (induction le fr us r b rule: ma_apply.induct) (auto simp: Let_def)

text \<open>No rebuild is requested only if every update is harmless for the given frontier.\<close>

lemma apply_no_rebuild:
  "\<not> fst (ma_apply le fr us r b) \<Longrightarrow> \<not> r \<and> (\<forall>(t, d) \<in> set us.
     (\<exists>f \<in> set fr. less_than le f t) \<or> d < 0 \<and> (\<forall>f \<in> set fr. \<not> le f t))"
proof (induction le fr us r b rule: ma_apply.induct)
  case (2 le fr t d us r b)
  then show ?case by (cases r) (auto simp: Let_def list_ex_iff split: if_splits)
qed simp

lemma count_fold_frontier [count_simps]:
  "cb_count (fold (\<lambda>t. cb_update t d) fs b) t = cb_count b t + upd_count (map (\<lambda>x. (x, d)) fs) t"
  by (induction fs arbitrary: b) auto

lemma inv_fold_frontier [inv_intros]: "cb_inv b \<Longrightarrow> cb_inv (fold (\<lambda>t. cb_update t d) fs b)"
  by (induction fs arbitrary: b) auto

lemma nonzero_fold_frontier [inv_intros]:
  "cb_nonzero b \<Longrightarrow> d \<noteq> 0 \<Longrightarrow> cb_nonzero (fold (\<lambda>t. cb_update t d) fs b)"
  by (induction fs arbitrary: b) auto

lemma nonzero_count_imp_mem:
  "cb_inv b \<Longrightarrow> fst ` set (cb_updates (cb_compact b)) \<inter> {t. cb_count b t > 0} = {t. cb_count b t > 0}"
  by (force dest: compact_has_entry)

context timestamp_order
begin

text \<open>
  Times arrive in increasing \<open>Ord\<close>, so a later one is never below an earlier one: keeping a
  time exactly when no kept one is below it computes the minimal elements.
\<close>

lemma build_minimals:
  assumes "set fs = minimals le A" "finite A" "distinct fs"
    and "sorted_wrt (<) (map fst us)" and "\<forall>a \<in> A. \<forall>(t, d) \<in> set us. a < t"
  shows "set (ma_build le us fs) = minimals le (A \<union> fst ` {(t, d) \<in> set us. d > 0})
    \<and> distinct (ma_build le us fs)"
  using assms
proof (induction us arbitrary: fs A)
  case Nil
  then show ?case by simp
next
  case (Cons u us)
  obtain t d where u: "u = (t, d)" by (cases u)
  let ?fs = "if d > 0 \<and> \<not> list_ex (\<lambda>f. le f t) fs then fs @ [t] else fs"
  let ?A = "if d > 0 then insert t A else A"
  have not_below: "\<not> le t a" if "a \<in> A" for a
    using Cons.prems(5) that ord_compat [of t a] u by force
  have "set ?fs = minimals le ?A \<and> distinct ?fs"
  proof (cases "d > 0")
    case True
    have "filter (\<lambda>x. \<not> le t x) fs = fs"
      using not_below Cons.prems(1) by (auto simp: minimals_def filter_id_conv)
    with set_insert_minimals [of "\<lparr>ac_elements = fs\<rparr>" A t] Cons.prems(1,2) True
    have "set ?fs = minimals le (insert t A)" by (auto simp: antichain_insert_def split: if_splits)
    moreover have "t \<notin> set fs" if "\<not> list_ex (\<lambda>f. le f t) fs"
      using that le_refl by (auto simp: list_ex_iff)
    ultimately show ?thesis using True Cons.prems(3) by auto
  next
    case False
    with Cons.prems(1,3) show ?thesis by simp
  qed
  moreover have "finite ?A" using Cons.prems(2) by simp
  moreover have "sorted_wrt (<) (map fst us)" using Cons.prems(4) u by simp
  moreover have "\<forall>a \<in> ?A. \<forall>(t, d) \<in> set us. a < t"
    using Cons.prems(4,5) u by (auto split: if_splits)
  ultimately have "set (ma_build le us ?fs) = minimals le (?A \<union> fst ` {(t, d) \<in> set us. d > 0})
      \<and> distinct (ma_build le us ?fs)"
    by (intro Cons.IH) blast+
  moreover have "?A \<union> fst ` {(t, d) \<in> set us. d > 0} = A \<union> fst ` {(t, d) \<in> set (u # us). d > 0}"
    by (auto simp: u image_iff)
  ultimately show ?case by (simp add: u)
qed

lemma build_compact:
  assumes "cb_inv b"
  shows "set (ma_build le (cb_updates (cb_compact b)) []) = minimals le {t. cb_count b t > 0}
    \<and> distinct (ma_build le (cb_updates (cb_compact b)) [])"
proof -
  let ?us = "cb_updates (cb_compact b)"
  have "fst ` {(t, d) \<in> set ?us. d > 0} = {t. cb_count b t > 0}"
    using compact_entry [OF assms] compact_has_entry [OF assms] by (force simp: image_iff)
  with build_minimals [of "[]" "{}" ?us] compact_keys_sorted [OF assms]
  show ?thesis by (simp add: minimals_def)
qed

lemma rebuild_correct:
  assumes "cb_inv (ma_updates m)" "cb_inv (ma_changes m)" "cb_nonzero (ma_changes m)" "distinct (ma_frontier m)"
  defines "m' \<equiv> ma_rebuild le m"
  shows "cb_inv (ma_updates m')" "cb_inv (ma_changes m')" "cb_nonzero (ma_changes m')"
    and "distinct (ma_frontier m')" and "set (ma_frontier m') = minimals le {t. ma_count m t > 0}"
    and "ma_count m' t = ma_count m t"
    and "cb_count (ma_changes m') t = cb_count (ma_changes m) t
      + of_bool (t \<in> set (ma_frontier m')) - of_bool (t \<in> set (ma_frontier m))"
proof -
  note b = build_compact [OF assms(1)]
  show "cb_inv (ma_updates m')" "cb_inv (ma_changes m')" "cb_nonzero (ma_changes m')"
    using assms(1-3) by (simp_all add: m'_def ma_rebuild_def cb_iter_def Let_def inv_intros)
  show "distinct (ma_frontier m')" and "set (ma_frontier m') = minimals le {t. ma_count m t > 0}"
    and "ma_count m' t = ma_count m t"
    using b by (simp_all add: m'_def ma_rebuild_def cb_iter_def Let_def ma_count_def)
  show "cb_count (ma_changes m') t = cb_count (ma_changes m) t
      + of_bool (t \<in> set (ma_frontier m')) - of_bool (t \<in> set (ma_frontier m))"
    using b assms(4) by (simp add: m'_def ma_rebuild_def cb_iter_def Let_def count_simps upd_count_map_const)
qed

text \<open>Updates that \<open>update_iter\<close> lets pass without a rebuild do not move the frontier.\<close>

lemma harmless_updates:
  assumes fr: "fr = minimals le {t. c t > (0::int)}" and fin: "finite {t. c t > 0}"
    and harmless: "\<forall>(t, d) \<in> set us. (\<exists>f \<in> fr. less_than le f t) \<or> d < 0 \<and> (\<forall>f \<in> fr. \<not> le f t)"
  shows "minimals le {t. c t + upd_count us t > 0} = fr"
proof -
  let ?P = "{t. c t > 0}" and ?Q = "{t. c t + upd_count us t > 0}"
  have below: "\<exists>f \<in> fr. le f t" if "c t > 0" for t
    using finite_has_minimal_below [OF fin, of t] that unfolding fr minimals_def by blast
  have anti: "f = g" if "f \<in> fr" "g \<in> fr" "le f g" for f g
    using that unfolding fr minimals_def by auto
  have unchanged: "upd_count us f = 0" if "f \<in> fr" for f
  proof (rule upd_count_notin, rule notI)
    assume "f \<in> fst ` set us"
    then obtain d where "(f, d) \<in> set us" by force
    with harmless that anti le_refl show False unfolding less_than_def by blast
  qed
  have frQ: "fr \<subseteq> ?Q" using unchanged unfolding fr minimals_def by auto
  have Qbelow: "\<exists>f \<in> fr. le f t" if "t \<in> ?Q" for t
  proof (rule ccontr)
    assume none: "\<not> ?thesis"
    then have "c t \<le> 0" using below not_less by blast
    moreover have "(x, d) \<in> set us \<Longrightarrow> x = t \<Longrightarrow> d < 0" for x d
      using harmless none by (force simp: less_than_def)
    then have "upd_count us t \<le> 0"
      unfolding upd_count_def by (intro sum_list_nonpos) (auto simp: less_imp_le)
    ultimately show False using that by simp
  qed
  show ?thesis
  proof (rule set_eqI, rule iffI)
    fix t assume "t \<in> minimals le ?Q"
    then show "t \<in> fr" using Qbelow [of t] frQ unfolding minimals_def by blast
  next
    fix t assume t: "t \<in> fr"
    have "y = t" if y: "y \<in> ?Q" "le y t" for y
    proof -
      from Qbelow [OF y(1)] obtain f where f: "f \<in> fr" "le f y" by blast
      with y(2) have "le f t" using le_trans by blast
      with f t anti have "f = t" by blast
      with f y(2) show ?thesis by (auto intro: le_antisym)
    qed
    with t frQ show "t \<in> minimals le ?Q" unfolding minimals_def by blast
  qed
qed

lemma ma_inv_new: "ma_inv le ma_new"
  by (simp add: ma_inv_def ma_new_def ma_count_def minimals_def)

lemma ma_inv_new_bottom: "ma_inv le (ma_new_bottom t)"
  by (simp add: ma_inv_def ma_new_bottom_def ma_count_def minimals_def)

lemma update_iter_state:
  assumes inv: "ma_inv le m" and up: "ma_update_iter le us m = (out, m')"
  shows "ma_inv le m'" and "ma_count m' t = ma_count m t + upd_count us t"
    and "upd_count out t = of_bool (t \<in> set (ma_frontier m')) - of_bool (t \<in> set (ma_frontier m))"
    and "distinct (map fst out)" and "upd_nonzero out"
proof -
  obtain r b where ap: "ma_apply le (ma_frontier m) us False (ma_updates m) = (r, b)"
    by (cases "ma_apply le (ma_frontier m) us False (ma_updates m)")
  define m1 where "m1 = m\<lparr>ma_updates := b\<rparr>"
  define m2 where "m2 = (if r then ma_rebuild le m1 else m1)"
  have out: "out = cb_updates (cb_compact (ma_changes m2))" and m': "m' = m2\<lparr>ma_changes := cb_new\<rparr>"
    using up cb_drain_fst [of "ma_changes m2"] cb_drain_snd [of "ma_changes m2"]
    by (auto simp: ma_update_iter_def ap Let_def split_beta m1_def m2_def)
  have b: "cb_inv b" "\<And>t. cb_count b t = ma_count m t + upd_count us t"
    using apply_inv [of "ma_updates m" le "ma_frontier m" us False] inv
      apply_count [of le "ma_frontier m" us False "ma_updates m"]
    by (auto simp: ap ma_inv_def ma_count_def)
  have m1: "cb_inv (ma_updates m1)" "cb_inv (ma_changes m1)" "cb_nonzero (ma_changes m1)"
    "distinct (ma_frontier m1)" "\<And>t. cb_count (ma_changes m1) t = 0"
    "\<And>t. ma_count m1 t = ma_count m t + upd_count us t" "ma_frontier m1 = ma_frontier m"
    using inv b by (auto simp: m1_def ma_inv_def ma_count_def)
  have front: "set (ma_frontier m2) = minimals le {t. ma_count m1 t > 0} \<and> distinct (ma_frontier m2)"
  proof (cases r)
    case True
    then show ?thesis using rebuild_correct(4,5) [OF m1(1-4)] by (simp add: m2_def)
  next
    case False
    have "minimals le {t. ma_count m t + upd_count us t > 0} = set (ma_frontier m)"
      using inv apply_no_rebuild [of le "ma_frontier m" us False "ma_updates m"] False
      by (intro harmless_updates finite_ma_pos) (auto simp: ap ma_inv_def)
    then show ?thesis using False m1 by (simp add: m2_def)
  qed
  have m2: "cb_inv (ma_updates m2)" "cb_inv (ma_changes m2)" "cb_nonzero (ma_changes m2)"
    "\<And>t. ma_count m2 t = ma_count m1 t"
    "\<And>t. cb_count (ma_changes m2) t = of_bool (t \<in> set (ma_frontier m2)) - of_bool (t \<in> set (ma_frontier m))"
    using m1 rebuild_correct(1-3,6,7) [OF m1(1-4)] by (auto simp: m2_def)
  show "ma_inv le m'" using front m2(1,4) by (simp add: m' ma_inv_def ma_count_def)
  show "ma_count m' t = ma_count m t + upd_count us t"
    using m1(6) m2(4) by (simp add: m' ma_count_def)
  show "upd_count out t = of_bool (t \<in> set (ma_frontier m')) - of_bool (t \<in> set (ma_frontier m))"
    using m2(5) by (simp add: out m' cb_updates_compact_count)
  show "distinct (map fst out)" using m2(2) by (simp add: out compact_keys_distinct)
  show "upd_nonzero out" using cb_nonzero_compact [OF m2(3)] by (simp add: out cb_nonzero_def)
qed

lemma ma_inv_below:
  "ma_inv le m \<Longrightarrow> ma_count m t > 0 \<Longrightarrow> \<exists>f \<in> set (ma_frontier m). le f t"
  using finite_has_minimal_below [OF finite_ma_pos, of t m] by (auto simp: ma_inv_def minimals_def)

lemma ma_inv_frontier_pos: "ma_inv le m \<Longrightarrow> f \<in> set (ma_frontier m) \<Longrightarrow> ma_count m f > 0"
  by (auto simp: ma_inv_def minimals_def)

lemma ma_inv_less_equal:
  assumes "ma_inv le m"
  shows "ma_less_equal le m t \<longleftrightarrow> (\<exists>x. ma_count m x > 0 \<and> le x t)"
proof
  assume "\<exists>x. ma_count m x > 0 \<and> le x t"
  then obtain x f where "le x t" "f \<in> set (ma_frontier m)" "le f x"
    using ma_inv_below [OF assms] by blast
  moreover from this have "le f t" using le_trans by blast
  ultimately show "ma_less_equal le m t"
    by (auto simp: ma_less_equal_def aref_less_equal_def list_ex_iff)
qed (use ma_inv_frontier_pos [OF assms] in
    \<open>auto simp: ma_less_equal_def aref_less_equal_def list_ex_iff\<close>)

lemma ma_inv_less_than:
  assumes "ma_inv le m"
  shows "ma_less_than le m t \<longleftrightarrow> (\<exists>x. ma_count m x > 0 \<and> less_than le x t)"
proof
  assume "\<exists>x. ma_count m x > 0 \<and> less_than le x t"
  then obtain x f where "less_than le x t" "f \<in> set (ma_frontier m)" "le f x"
    using ma_inv_below [OF assms] by blast
  moreover from this have "less_than le f t" using le_lt_trans by blast
  ultimately show "ma_less_than le m t"
    by (auto simp: ma_less_than_def aref_less_than_def list_ex_iff)
qed (use ma_inv_frontier_pos [OF assms] in
    \<open>auto simp: ma_less_than_def aref_less_than_def list_ex_iff\<close>)

lemma ma_inv_is_empty:
  assumes "ma_inv le m"
  shows "ma_is_empty m \<longleftrightarrow> (\<forall>t. ma_count m t \<le> 0)"
proof
  assume "ma_is_empty m"
  then show "\<forall>t. ma_count m t \<le> 0"
    using ma_inv_below [OF assms] by (metis empty_iff list.set(1) ma_is_empty_def not_less)
next
  assume "\<forall>t. ma_count m t \<le> 0"
  then have "set (ma_frontier m) = {}"
    using ma_inv_frontier_pos [OF assms] by (metis all_not_in_conv not_less)
  then show "ma_is_empty m" by (simp add: ma_is_empty_def)
qed

lemma ma_inv_reveal:
  assumes "ma_inv le m" and "ma_reveal_updates le m = (us, m')"
  shows "ma_inv le m' \<and> set (ma_frontier m') = set (ma_frontier m)
    \<and> (\<forall>t. ma_count m' t = ma_count m t \<and> upd_count us t = ma_count m t)"
proof -
  have i: "cb_inv (ma_updates m)" "cb_inv (ma_changes m)" "cb_nonzero (ma_changes m)" "distinct (ma_frontier m)"
    using assms(1) by (simp_all add: ma_inv_def)
  note r = rebuild_correct [OF i]
  show ?thesis using assms r
    by (auto simp: ma_reveal_updates_def cb_iter_def Let_def ma_inv_def ma_count_def cb_updates_compact_count)
qed

end


lemma antichain_eq_iff:
  assumes "distinct (ac_elements a)" "distinct (ac_elements b)"
  shows "antichain_eq a b \<longleftrightarrow> set (ac_elements a) = set (ac_elements b)"
proof -
  let ?x = "ac_elements a" and ?y = "ac_elements b"
  have zip: "?x = ?y" if "length ?x = length ?y" "list_all (\<lambda>(x, y). x = y) (zip ?x ?y)"
    using that by (auto simp: list_eq_iff_nth_eq list_all_length)
  have sub: "set ?x = set ?y" if "length ?x = length ?y" "set ?x \<subseteq> set ?y"
    using that assms by (metis List.finite_set card_subset_eq distinct_card)
  have len: "length ?x = length ?y" if "set ?x = set ?y"
    using that assms by (metis distinct_card)
  show ?thesis using zip sub len by (auto simp: antichain_eq_def list_all_iff list_ex_iff)
qed

section \<open>Properties\<close>

text \<open>
  inserting elements one after the other, in any order and with any repetitions, leaves
  exactly the minimal ones, each once; \<open>FromIterator\<close> and \<open>From<Vec>\<close> agree.
\<close>

theorem antichain_from_elements:
  assumes "partial_order_laws le"
  shows "antichain_inv le (antichain_from_vec le es)
    \<and> set (ac_elements (antichain_from_vec le es)) = minimals le (set es)
    \<and> antichain_from_iter le es = antichain_from_vec le es"
  using partial_order_laws.from_vec_fold [OF assms, of antichain_new "{}" es]
  by (simp add: antichain_from_vec_def antichain_new_def minimals_def antichain_inv_def from_iter_eq_from_vec)

theorem antichain_from_elements_witness:
  "ac_elements (antichain_from_vec (product_less_equal (\<le>) (\<le>))
     [Product (2::8 word) (1::8 word), Product 3 3, Product 1 2]) = [Product 2 1, Product 1 2]
   \<and> minimals (product_less_equal (\<le>) (\<le>)) {Product (2::8 word) (1::8 word), Product 3 3, Product 1 2}
     = {Product 2 1, Product 1 2}"
proof -
  let ?es = "[Product (2::8 word) (1::8 word), Product 3 3, Product 1 2]"
  have e: "ac_elements (antichain_from_vec (product_less_equal (\<le>) (\<le>)) ?es) = [Product 2 1, Product 1 2]"
    by code_simp
  from antichain_from_elements [OF nested.partial_order_laws_axioms [where 'w = 8 and 'v = 8], of ?es] e
  show ?thesis by simp
qed

text \<open>
  \<open>PartialOrder for Antichain\<close> is a partial order whose equality is \<open>PartialEq\<close>
  (the same elements in any order), \<open>a.less_equal(b)\<close> holds exactly when everything beyond
  \<open>b\<close> is beyond \<open>a\<close>, and antichains that are equal feed the same input to a hasher.
\<close>

theorem antichain_order:
  assumes "partial_order_laws le" and "antichain_inv le a" and "antichain_inv le (b :: 't::linorder antichain)"
  shows "(antichain_eq a b \<longleftrightarrow> set (ac_elements a) = set (ac_elements b))
    \<and> (antichain_le le a b \<longleftrightarrow> (\<forall>t. antichain_less_equal le b t \<longrightarrow> antichain_less_equal le a t))
    \<and> (antichain_le le a b \<and> antichain_le le b a \<longleftrightarrow> antichain_eq a b)
    \<and> (antichain_eq a b \<longrightarrow> antichain_hash_input a = antichain_hash_input b)"
proof -
  note refl = partial_order_laws.le_refl [OF assms(1)] and trans = partial_order_laws.le_trans [OF assms(1)]
  note anti = partial_order_laws.le_antisym [OF assms(1)]
  have eq: "antichain_eq a b \<longleftrightarrow> set (ac_elements a) = set (ac_elements b)"
    using assms(2,3) by (simp add: antichain_inv_def antichain_eq_iff)
  have le: "antichain_le le x y \<longleftrightarrow> (\<forall>t \<in> set (ac_elements y). \<exists>s \<in> set (ac_elements x). le s t)" for x y
    by (simp add: antichain_le_def list_all_iff list_ex_iff)
  have up: "antichain_le le a b \<longleftrightarrow> (\<forall>t. antichain_less_equal le b t \<longrightarrow> antichain_less_equal le a t)"
    unfolding le antichain_less_equal_def list_ex_iff using refl trans by blast
  have sub: "set (ac_elements x) \<subseteq> set (ac_elements y)"
    if xy: "antichain_le le x y" "antichain_le le y x" "antichain_inv le x" for x y
  proof
    fix s assume s: "s \<in> set (ac_elements x)"
    with xy(2) obtain t where t: "t \<in> set (ac_elements y)" "le t s" unfolding le by blast
    with xy(1) obtain r where r: "r \<in> set (ac_elements x)" "le r t" unfolding le by blast
    then have "le r s" using t(2) trans by blast
    with r s xy(3) have "r = s" unfolding antichain_inv_def by blast
    with r t anti show "s \<in> set (ac_elements y)" by blast
  qed
  have "antichain_le le a b \<and> antichain_le le b a \<longleftrightarrow> antichain_eq a b"
    using sub [of a b] sub [of b a] assms(2,3) refl unfolding eq le by blast
  moreover have "antichain_eq a b \<longrightarrow> antichain_hash_input a = antichain_hash_input b"
    using assms(2,3) by (auto simp: eq antichain_hash_input_def antichain_inv_def intro: sorted_distinct_set_unique)
  ultimately show ?thesis using eq up by blast
qed

theorem antichain_order_witness:
  "antichain_eq (antichain_from_vec (product_less_equal (\<le>) (\<le>)) [Product (2::8 word) (1::8 word), Product 1 2])
     (antichain_from_vec (product_less_equal (\<le>) (\<le>)) [Product 1 2, Product 2 1])
   \<and> antichain_hash_input (antichain_from_vec (product_less_equal (\<le>) (\<le>)) [Product (2::8 word) (1::8 word), Product 1 2])
     = antichain_hash_input (antichain_from_vec (product_less_equal (\<le>) (\<le>)) [Product 1 2, Product 2 1])"
proof -
  let ?le = "product_less_equal (\<le>) (\<le>) :: (8 word, 8 word) Product \<Rightarrow> _"
  let ?a = "antichain_from_vec ?le [Product 2 1, Product 1 2]" and ?b = "antichain_from_vec ?le [Product 1 2, Product 2 1]"
  note po = nested.partial_order_laws_axioms [where 'w = 8 and 'v = 8]
  have e: "ac_elements ?a = [Product 2 1, Product 1 2]" "ac_elements ?b = [Product 1 2, Product 2 1]"
    by code_simp+
  then have "antichain_inv ?le ?a" "antichain_inv ?le ?b"
    by (auto simp: antichain_inv_def product_less_equal_def word_le_nat_alt)
  from antichain_order [OF po this] e show ?thesis by auto
qed

text \<open>
  C30: \<open>update_iter\<close> keeps the frontier of a \<open>MutableAntichain\<close> equal to the minimal
  times of positive accumulated count for every batch of updates, whether or not it rebuilds
  and whether counts go up, down or negative; the changes it reports are, each time once, exactly
  the difference of the indicator functions of the new and the old frontier.
\<close>

theorem ma_update_iter_correct:
  assumes "timestamp_order le" and "ma_inv le m" and "ma_update_iter le us m = (out, m')"
  shows "ma_inv le m'
    \<and> (\<forall>t. ma_count m' t = ma_count m t + upd_count us t)
    \<and> set (ma_frontier m') = minimals le {t. ma_count m t + upd_count us t > 0}
    \<and> distinct (map fst out)
    \<and> set out = {(t, 1) |t. t \<in> set (ma_frontier m') - set (ma_frontier m)}
              \<union> {(t, - 1) |t. t \<in> set (ma_frontier m) - set (ma_frontier m')}"
proof -
  note s = timestamp_order.update_iter_state [OF assms]
  have entry: "(t, d) \<in> set out \<longleftrightarrow> d = upd_count out t \<and> d \<noteq> 0" for t d
  proof
    assume "(t, d) \<in> set out"
    then show "d = upd_count out t \<and> d \<noteq> 0"
      using upd_count_distinct [OF s(4)] s(5) by (force simp: upd_nonzero_def)
  next
    assume d: "d = upd_count out t \<and> d \<noteq> 0"
    then obtain d' where "(t, d') \<in> set out" using upd_count_notin [of t out] by force
    with d upd_count_distinct [OF s(4), of t d'] show "(t, d) \<in> set out" by simp
  qed
  have "set out = {(t, 1) |t. t \<in> set (ma_frontier m') - set (ma_frontier m)}
              \<union> {(t, - 1) |t. t \<in> set (ma_frontier m) - set (ma_frontier m')}"
    by (rule set_eqI) (auto simp: entry s(3) of_bool_def split: if_splits)
  with s show ?thesis by (simp add: ma_inv_def)
qed

theorem ma_update_iter_correct_witness:
  "\<exists>m'. ma_update_iter (\<le>) [(1::8 word, - 1), (2, 7)] (ma_new_bottom 1) = ([(1, - 1), (2, 1)], m')
     \<and> set (ma_frontier m') = {2} \<and> ma_count m' 2 = 7 \<and> ma_inv (\<le>) m'"
proof -
  let ?m = "ma_new_bottom (1::8 word)" and ?us = "[(1::8 word, - 1::int), (2, 7)]"
  obtain out m' where up: "ma_update_iter (\<le>) ?us ?m = (out, m')" by (cases "ma_update_iter (\<le>) ?us ?m")
  have o: "fst (ma_update_iter (\<le>) ?us ?m) = [(1, - 1), (2, 1)]" and f: "ma_frontier (snd (ma_update_iter (\<le>) ?us ?m)) = [2]"
    by code_simp+
  have c: "ma_count ?m 2 = 0" by (simp add: ma_count_def ma_new_bottom_def)
  from ma_update_iter_correct [OF unsigned.timestamp_order_axioms unsigned.ma_inv_new_bottom up] up o f c
  show ?thesis by auto
qed

text \<open>
  the queries of a \<open>MutableAntichain\<close> are about the accumulated counts:
  \<open>less_equal\<close> and \<open>less_than\<close> say whether some time of positive count is below (strictly
  below) the argument, \<open>is_empty\<close> whether there is none, and \<open>count_for\<close> is the
  accumulated count even while the updates are not compacted.
\<close>

theorem ma_queries_correct:
  assumes "timestamp_order le" and "ma_inv le m"
  shows "(ma_less_equal le m t \<longleftrightarrow> (\<exists>x. ma_count_for m x > 0 \<and> le x t))
    \<and> (ma_less_than le m t \<longleftrightarrow> (\<exists>x. ma_count_for m x > 0 \<and> less_than le x t))
    \<and> (ma_is_empty m \<longleftrightarrow> (\<forall>x. ma_count_for m x \<le> 0))
    \<and> ma_count_for m t = cb_count (ma_updates m) t"
  using timestamp_order.ma_inv_less_equal [OF assms] timestamp_order.ma_inv_less_than [OF assms]
    timestamp_order.ma_inv_is_empty [OF assms]
  by (simp add: ma_count_for_eq ma_count_def)

theorem ma_queries_correct_witness:
  "ma_less_equal (\<le>) (ma_new_bottom (1::8 word)) 1 \<and> \<not> ma_less_than (\<le>) (ma_new_bottom (1::8 word)) 1
   \<and> (\<exists>x. ma_count_for (ma_new_bottom (1::8 word)) x > 0 \<and> x \<le> 1)"
proof -
  have "ma_less_equal (\<le>) (ma_new_bottom (1::8 word)) 1" "\<not> ma_less_than (\<le>) (ma_new_bottom (1::8 word)) 1"
    by (simp_all add: ma_less_equal_def aref_less_equal_def ma_less_than_def aref_less_than_def
        less_than_def ma_new_bottom_def)
  with ma_queries_correct [OF unsigned.timestamp_order_axioms unsigned.ma_inv_new_bottom, of "1::8 word" "1::8 word"]
  show ?thesis by blast
qed

end
