(* ===== verification/Operate.thy ===== *)
theory Operate
  imports Frontier
begin

text \<open>
  \<^verbatim>\<open>timely/src/progress/mod.rs\<close>: locations, ports, sources and targets, with their
  derived \<open>Ord\<close> (fields in order, \<open>Port::Target\<close> before \<open>Port::Source\<close>), and
  \<^verbatim>\<open>timely/src/progress/operate.rs\<close>: \<open>PortConnectivity\<close> and \<open>SharedProgress\<close>.

  A \<open>BTreeMap\<close> is its list of entries in key order, which is also the order in which it is
  iterated.
\<close>

section \<open>Locations\<close>

datatype port = PortTarget nat | PortSource nat

datatype location = Location (loc_node: nat) (loc_port: port)

datatype source = Source (src_node: nat) (src_port: nat)

datatype target = Target (tgt_node: nat) (tgt_port: nat)

definition new_target :: "nat \<Rightarrow> nat \<Rightarrow> location" where
  "new_target node port = Location node (PortTarget port)"

definition new_source :: "nat \<Rightarrow> nat \<Rightarrow> location" where
  "new_source node port = Location node (PortSource port)"

definition is_target :: "location \<Rightarrow> bool" where
  "is_target l = (case loc_port l of PortTarget _ \<Rightarrow> True | PortSource _ \<Rightarrow> False)"

definition is_source :: "location \<Rightarrow> bool" where
  "is_source l = (case loc_port l of PortTarget _ \<Rightarrow> False | PortSource _ \<Rightarrow> True)"

definition location_of_target :: "target \<Rightarrow> location" where
  "location_of_target t = Location (tgt_node t) (PortTarget (tgt_port t))"

definition location_of_source :: "source \<Rightarrow> location" where
  "location_of_source s = Location (src_node s) (PortSource (src_port s))"

text \<open>The rank of a port in its derived order.\<close>

fun port_rank :: "port \<Rightarrow> nat \<times> nat" where
  "port_rank (PortTarget p) = (0, p)"
| "port_rank (PortSource p) = (1, p)"

lemma port_rank_inject [simp]: "port_rank a = port_rank b \<longleftrightarrow> a = b"
  by (cases a; cases b) auto

instantiation port :: linorder
begin

definition less_eq_port :: "port \<Rightarrow> port \<Rightarrow> bool" where
  "less_eq_port a b \<longleftrightarrow> port_rank a \<le> port_rank b"

definition less_port :: "port \<Rightarrow> port \<Rightarrow> bool" where
  "less_port a b \<longleftrightarrow> port_rank a < port_rank b"

instance
  by standard (auto simp: less_eq_port_def less_port_def less_le_not_le)

end

instantiation location :: linorder
begin

definition less_eq_location :: "location \<Rightarrow> location \<Rightarrow> bool" where
  "less_eq_location a b \<longleftrightarrow> (loc_node a, loc_port a) \<le> (loc_node b, loc_port b)"

definition less_location :: "location \<Rightarrow> location \<Rightarrow> bool" where
  "less_location a b \<longleftrightarrow> (loc_node a, loc_port a) < (loc_node b, loc_port b)"

instance
  by standard (auto simp: less_eq_location_def less_location_def location.expand)

end

instantiation source :: linorder
begin

definition less_eq_source :: "source \<Rightarrow> source \<Rightarrow> bool" where
  "less_eq_source a b \<longleftrightarrow> (src_node a, src_port a) \<le> (src_node b, src_port b)"

definition less_source :: "source \<Rightarrow> source \<Rightarrow> bool" where
  "less_source a b \<longleftrightarrow> (src_node a, src_port a) < (src_node b, src_port b)"

instance
  by standard (auto simp: less_eq_source_def less_source_def source.expand)

end

instantiation target :: linorder
begin

definition less_eq_target :: "target \<Rightarrow> target \<Rightarrow> bool" where
  "less_eq_target a b \<longleftrightarrow> (tgt_node a, tgt_port a) \<le> (tgt_node b, tgt_port b)"

definition less_target :: "target \<Rightarrow> target \<Rightarrow> bool" where
  "less_target a b \<longleftrightarrow> (tgt_node a, tgt_port a) < (tgt_node b, tgt_port b)"

instance
  by standard (auto simp: less_eq_target_def less_target_def target.expand)

end

section \<open>PortConnectivity\<close>

text \<open>\<open>BTreeMap::insert\<close> on the sorted entries.\<close>

fun bt_insert :: "'k::linorder \<Rightarrow> 'v \<Rightarrow> ('k \<times> 'v) list \<Rightarrow> ('k \<times> 'v) list" where
  "bt_insert k v [] = [(k, v)]"
| "bt_insert k v ((k', v') # kvs) =
     (if k < k' then (k, v) # (k', v') # kvs
      else if k = k' then (k, v) # kvs
      else (k', v') # bt_insert k v kvs)"

record 's port_connectivity =
  pc_tree :: "(nat \<times> 's antichain) list"

type_synonym 's connectivity = "'s port_connectivity list"

definition pc_default :: "'s port_connectivity" where
  "pc_default = \<lparr>pc_tree = []\<rparr>"

definition pc_get :: "'s port_connectivity \<Rightarrow> nat \<Rightarrow> 's antichain option" where
  "pc_get p index = map_of (pc_tree p) index"

definition pc_insert ::
  "('s \<Rightarrow> 's \<Rightarrow> bool) \<Rightarrow> nat \<Rightarrow> 's \<Rightarrow> 's port_connectivity \<Rightarrow> bool \<times> 's port_connectivity" where
  "pc_insert sle index e p =
     (let a = (case pc_get p index of Some a \<Rightarrow> a | None \<Rightarrow> antichain_new);
          (inserted, a') = antichain_insert sle e a
      in (inserted, p\<lparr>pc_tree := bt_insert index a' (pc_tree p)\<rparr>))"

definition pc_insert_ref ::
  "('s \<Rightarrow> 's \<Rightarrow> bool) \<Rightarrow> nat \<Rightarrow> 's \<Rightarrow> 's port_connectivity \<Rightarrow> bool \<times> 's port_connectivity" where
  "pc_insert_ref sle index e p =
     (let a = (case pc_get p index of Some a \<Rightarrow> a | None \<Rightarrow> antichain_new);
          (inserted, a') = antichain_insert_ref sle e a
      in (inserted, p\<lparr>pc_tree := bt_insert index a' (pc_tree p)\<rparr>))"

text \<open>\<open>add_port\<close> panics if there was an entry for the port.\<close>

definition pc_add_port :: "nat \<Rightarrow> 's antichain \<Rightarrow> 's port_connectivity \<Rightarrow> 's port_connectivity option" where
  "pc_add_port port summary p =
     (if pc_get p port \<noteq> None then None
      else if ac_elements summary \<noteq> [] then Some (p\<lparr>pc_tree := bt_insert port summary (pc_tree p)\<rparr>)
      else Some p)"

definition pc_iter_ports :: "'s port_connectivity \<Rightarrow> (nat \<times> 's antichain) list" where
  "pc_iter_ports p = pc_tree p"

definition pc_from_iter :: "(nat \<times> 's antichain) list \<Rightarrow> 's port_connectivity" where
  "pc_from_iter ps =
     \<lparr>pc_tree = fold (\<lambda>(k, a). bt_insert k a) (filter (\<lambda>(_, a). ac_elements a \<noteq> []) ps) []\<rparr>"

section \<open>SharedProgress\<close>

record 't shared_progress =
  sp_frontiers :: "'t change_batch list"
  sp_consumeds :: "'t change_batch list"
  sp_internals :: "'t change_batch list"
  sp_produceds :: "'t change_batch list"

definition sp_new :: "nat \<Rightarrow> nat \<Rightarrow> 't shared_progress" where
  "sp_new inputs outputs =
     \<lparr>sp_frontiers = replicate inputs cb_new, sp_consumeds = replicate inputs cb_new,
      sp_internals = replicate outputs cb_new, sp_produceds = replicate outputs cb_new\<rparr>"

section \<open>Invariants\<close>

definition bt_inv :: "('k::linorder \<times> 'v) list \<Rightarrow> bool" where
  "bt_inv kvs \<longleftrightarrow> sorted_wrt (<) (map fst kvs)"

definition pc_inv :: "('s \<Rightarrow> 's \<Rightarrow> bool) \<Rightarrow> 's port_connectivity \<Rightarrow> bool" where
  "pc_inv sle p \<longleftrightarrow> bt_inv (pc_tree p) \<and> (\<forall>(k, a) \<in> set (pc_tree p). antichain_inv sle a)"

text \<open>The summaries a connectivity holds for a port.\<close>

definition pc_summaries :: "'s port_connectivity \<Rightarrow> nat \<Rightarrow> 's set" where
  "pc_summaries p k = (case pc_get p k of None \<Rightarrow> {} | Some a \<Rightarrow> set (ac_elements a))"

section \<open>Lemmas\<close>

lemma set_bt_insert_keys: "fst ` set (bt_insert k v kvs) = insert k (fst ` set kvs)"
  by (induction k v kvs rule: bt_insert.induct) auto

lemma bt_inv_insert [simp, inv_intros]: "bt_inv kvs \<Longrightarrow> bt_inv (bt_insert k v kvs)"
proof (induction k v kvs rule: bt_insert.induct)
  case (2 k v k' v' kvs)
  have keys: "set (map fst (bt_insert k v kvs)) = insert k (set (map fst kvs))"
    using set_bt_insert_keys [of k v kvs] by simp
  show ?case
  proof (cases "k < k' \<or> k = k'")
    case True
    with 2 show ?thesis by (auto simp: bt_inv_def)
  next
    case False
    with 2 keys show ?thesis by (auto simp: bt_inv_def simp flip: set_map)
  qed
qed (simp add: bt_inv_def)

lemma map_of_bt_insert:
  "bt_inv kvs \<Longrightarrow> map_of (bt_insert k v kvs) = (map_of kvs)(k \<mapsto> v)"
proof (induction k v kvs rule: bt_insert.induct)
  case (2 k v k' v' kvs)
  then show ?case by (auto simp: bt_inv_def fun_eq_iff)
qed simp

lemma bt_inv_distinct: "bt_inv kvs \<Longrightarrow> distinct (map fst kvs)"
  unfolding bt_inv_def by (rule sorted_wrt_less_distinct)

lemma set_bt_insert: "set (bt_insert k v kvs) \<subseteq> insert (k, v) (set kvs)"
  by (induction k v kvs rule: bt_insert.induct) auto

lemma pc_insert_ref_eq [simp]: "pc_insert_ref sle k e p = pc_insert sle k e p"
  by (simp add: pc_insert_ref_def pc_insert_def)

lemma pc_inv_default [simp, inv_intros]: "pc_inv sle pc_default"
  by (simp add: pc_inv_def pc_default_def bt_inv_def)

lemma pc_get_inv: "pc_inv sle p \<Longrightarrow> pc_get p k = Some a \<Longrightarrow> antichain_inv sle a"
  by (auto simp: pc_inv_def pc_get_def dest!: map_of_SomeD)

lemma pc_get_iter: "pc_inv sle p \<Longrightarrow> pc_get p k = Some a \<longleftrightarrow> (k, a) \<in> set (pc_iter_ports p)"
  by (auto simp: pc_inv_def pc_get_def pc_iter_ports_def bt_inv_distinct)

lemma pc_get_insert:
  "pc_inv sle p \<Longrightarrow> pc_get (snd (pc_insert sle k e p)) k' =
     (if k' = k then Some (snd (antichain_insert sle e (case pc_get p k of Some a \<Rightarrow> a | None \<Rightarrow> antichain_new)))
      else pc_get p k')"
  by (simp add: pc_insert_def Let_def split_beta pc_get_def pc_inv_def map_of_bt_insert)

lemma pc_insert_fst:
  "fst (pc_insert sle k e p) \<longleftrightarrow> \<not> (\<exists>x \<in> pc_summaries p k. sle x e)"
  by (auto simp: pc_insert_def Let_def split_beta pc_summaries_def antichain_insert_def antichain_new_def
      list_ex_iff split: option.splits)

context partial_order_laws
begin

lemma pc_inv_insert:
  assumes "pc_inv le p"
  shows "pc_inv le (snd (pc_insert le k e p))"
proof -
  define a where "a = (case pc_get p k of Some a \<Rightarrow> a | None \<Rightarrow> antichain_new)"
  have "antichain_inv le a"
    using pc_get_inv [OF assms] by (auto simp: a_def antichain_inv_def antichain_new_def split: option.splits)
  then have "antichain_inv le (snd (antichain_insert le e a))" by (rule antichain_inv_insert)
  then show ?thesis using assms set_bt_insert [of k "snd (antichain_insert le e a)" "pc_tree p"]
    by (auto simp: pc_insert_def Let_def split_beta pc_inv_def simp flip: a_def)
qed

lemma pc_insert_covers:
  assumes "pc_inv le p"
  shows "(\<exists>x \<in> pc_summaries (snd (pc_insert le k e p)) k'. le x s)
    \<longleftrightarrow> (\<exists>x \<in> pc_summaries p k'. le x s) \<or> (k' = k \<and> le e s)"
proof -
  define a where "a = (case pc_get p k of Some a \<Rightarrow> a | None \<Rightarrow> antichain_new)"
  have a: "set (ac_elements a) = pc_summaries p k"
    by (auto simp: a_def pc_summaries_def antichain_new_def split: option.splits)
  have "(\<exists>x \<in> set (ac_elements (snd (antichain_insert le e a))). le x s) \<longleftrightarrow>
      le e s \<or> (\<exists>x \<in> set (ac_elements a). le x s)"
    using less_equal_insert [of e a s] by (simp add: antichain_less_equal_def list_ex_iff)
  moreover have "pc_summaries (snd (pc_insert le k e p)) k' =
      (if k' = k then set (ac_elements (snd (antichain_insert le e a))) else pc_summaries p k')"
    by (simp add: pc_summaries_def pc_get_insert [OF assms] a_def)
  ultimately show ?thesis using a by auto
qed

lemma pc_insert_subset:
  assumes "pc_inv le p"
  shows "pc_summaries (snd (pc_insert le k e p)) k' \<subseteq> pc_summaries p k' \<union> (if k' = k then {e} else {})"
  by (auto simp: pc_summaries_def pc_get_insert [OF assms] antichain_insert_def antichain_new_def
      split: option.splits if_splits)

end

end
