(* ===== verification/Reach_Builder.thy ===== *)
theory Reach_Builder
  imports Operate "HOL-Library.AList"
begin

text \<open>
  \<^verbatim>\<open>timely/src/progress/reachability.rs\<close>, first part: the topology \<open>Builder\<close> and its
  test \<open>is_acyclic\<close> for cycles of default path summaries.

  \<open>debug_assert!\<close>s are not part of a release build and are not modelled; an index out of
  range is \<open>None\<close>.  The \<open>HashMap\<close> of in-degrees is an association list with distinct
  keys; the order in which Rust iterates over it is unspecified, so it is the parameter
  \<open>hash_order\<close>, any function that permutes the list of keys.  The worklist \<open>Vec\<close> is a
  list whose head is its last element.
\<close>

section \<open>Builder\<close>

record 's builder =
  bd_nodes :: "'s connectivity list"
  bd_edges :: "target list list list"
  bd_shape :: "(nat \<times> nat) list"

definition builder_new :: "'s builder" where
  "builder_new = \<lparr>bd_nodes = [], bd_edges = [], bd_shape = []\<rparr>"

definition builder_add_node ::
  "nat \<Rightarrow> nat \<Rightarrow> nat \<Rightarrow> 's connectivity \<Rightarrow> 's builder \<Rightarrow> 's builder option" where
  "builder_add_node index inputs outputs summary b =
     do {
       let k = Suc index - length (bd_nodes b);
       nodes \<leftarrow> vec_set (bd_nodes b @ replicate k []) index summary;
       let edges = bd_edges b @ replicate k [];
       ports \<leftarrow> vec_get edges index;
       edges \<leftarrow> (if length ports \<noteq> outputs then vec_set edges index (replicate outputs []) else Some edges);
       shape \<leftarrow> vec_set (bd_shape b @ replicate k (0, 0)) index (inputs, outputs);
       Some (b\<lparr>bd_nodes := nodes, bd_edges := edges, bd_shape := shape\<rparr>)
     }"

definition builder_add_edge :: "source \<Rightarrow> target \<Rightarrow> 's builder \<Rightarrow> 's builder option" where
  "builder_add_edge s t b =
     do {
       ports \<leftarrow> vec_get (bd_edges b) (src_node s);
       targets \<leftarrow> vec_get ports (src_port s);
       Some (b\<lparr>bd_edges := (bd_edges b)[src_node s := ports[src_port s := targets @ [t]]]\<rparr>)
     }"

section \<open>is_acyclic\<close>

type_synonym in_degrees = "(location \<times> nat) list"

text \<open>\<open>in_degree.entry(k).or_insert(0)\<close>, without and with \<open>+= 1\<close>.\<close>

definition deg_touch :: "location \<Rightarrow> in_degrees \<Rightarrow> in_degrees" where
  "deg_touch k m = (case map_of m k of None \<Rightarrow> AList.update k 0 m | Some _ \<Rightarrow> m)"

definition deg_incr :: "location \<Rightarrow> in_degrees \<Rightarrow> in_degrees" where
  "deg_incr k m = AList.update k (case map_of m k of None \<Rightarrow> 1 | Some v \<Rightarrow> Suc v) m"

definition acyclic_load_edges :: "target list list list \<Rightarrow> in_degrees \<Rightarrow> in_degrees" where
  "acyclic_load_edges edges m =
     fold (\<lambda>(index, ports). fold (\<lambda>(output, targets) m.
         fold (\<lambda>t. deg_incr (location_of_target t)) targets (deg_touch (new_source index output) m))
       (enumerate 0 ports)) (enumerate 0 edges) m"

definition acyclic_load_nodes :: "'s \<Rightarrow> 's connectivity list \<Rightarrow> in_degrees \<Rightarrow> in_degrees" where
  "acyclic_load_nodes dflt nodes m =
     fold (\<lambda>(index, summary). fold (\<lambda>(input, outputs) m.
         fold (\<lambda>(output, summaries).
             fold (\<lambda>s m. if s = dflt then deg_incr (new_source index output) m else m) (ac_elements summaries))
           (pc_iter_ports outputs) (deg_touch (new_target index input) m))
       (enumerate 0 summary)) (enumerate 0 nodes) m"

text \<open>
  The locations whose in-degree the body of the main loop decrements, in order, with one entry
  for every decrement.
\<close>

definition acyclic_succs :: "'s \<Rightarrow> 's builder \<Rightarrow> location \<Rightarrow> location list option" where
  "acyclic_succs dflt b l =
     (case loc_port l of
        PortSource p \<Rightarrow>
          do { ports \<leftarrow> vec_get (bd_edges b) (loc_node l); targets \<leftarrow> vec_get ports p;
               Some (map location_of_target targets) }
      | PortTarget p \<Rightarrow>
          do { inputs \<leftarrow> vec_get (bd_nodes b) (loc_node l); outputs \<leftarrow> vec_get inputs p;
               Some (concat (map (\<lambda>(output, summaries).
                 map (\<lambda>_. new_source (loc_node l) output) (filter (\<lambda>s. s = dflt) (ac_elements summaries)))
                 (pc_iter_ports outputs))) })"

text \<open>\<open>get_mut(..).unwrap()\<close> of a missing key and a decrement of zero are panics.\<close>

fun acyclic_visit :: "location list \<Rightarrow> in_degrees \<times> location list \<Rightarrow> (in_degrees \<times> location list) option" where
  "acyclic_visit [] mw = Some mw"
| "acyclic_visit (k # ks) (m, w) =
     (case map_of m k of
        None \<Rightarrow> None
      | Some 0 \<Rightarrow> None
      | Some (Suc v) \<Rightarrow>
          if v = 0 then acyclic_visit ks (AList.delete k m, k # w)
          else acyclic_visit ks (AList.update k v m, w))"

lemma length_update_present: "map_of m k \<noteq> None \<Longrightarrow> length (AList.update k v m) = length m"
  by (induction m) auto

lemma length_delete_present: "map_of m k = Some v \<Longrightarrow> length (AList.delete k m) < length m"
  unfolding AList.delete_eq by (rule length_filter_less [of "(k, v)"]) (auto dest: map_of_SomeD)

lemma acyclic_visit_measure:
  "acyclic_visit ks (m, w) = Some (m', w') \<Longrightarrow> length w' + 2 * length m' \<le> length w + 2 * length m"
proof (induction ks arbitrary: m w)
  case (Cons k ks)
  then obtain v where v: "map_of m k = Some (Suc v)"
    by (auto split: option.splits nat.splits)
  show ?case
  proof (cases "v = 0")
    case True
    with Cons.prems v have "acyclic_visit ks (AList.delete k m, k # w) = Some (m', w')" by simp
    from Cons.IH [OF this] length_delete_present [OF v] show ?thesis by simp
  next
    case False
    with Cons.prems v have "acyclic_visit ks (AList.update k v m, w) = Some (m', w')" by simp
    from Cons.IH [OF this] v show ?thesis by (simp add: length_update_present)
  qed
qed simp

function acyclic_loop :: "'s \<Rightarrow> 's builder \<Rightarrow> in_degrees \<Rightarrow> location list \<Rightarrow> in_degrees option" where
  "acyclic_loop dflt b m [] = Some m"
| "acyclic_loop dflt b m (l # w) =
     (case acyclic_succs dflt b l of
        None \<Rightarrow> None
      | Some ss \<Rightarrow>
          (case acyclic_visit ss (m, w) of
             None \<Rightarrow> None
           | Some (m', w') \<Rightarrow> acyclic_loop dflt b m' w'))"
  by pat_completeness auto
termination
  by (relation "measure (\<lambda>(d, b, m, w). length w + 2 * length m)")
    (auto dest: acyclic_visit_measure)

definition builder_is_acyclic :: "(location list \<Rightarrow> location list) \<Rightarrow> 's \<Rightarrow> 's builder \<Rightarrow> bool option" where
  "builder_is_acyclic hash_order dflt b =
     do {
       let in_degree = acyclic_load_nodes dflt (bd_nodes b) (acyclic_load_edges (bd_edges b) []);
       let worklist = rev (filter (\<lambda>k. map_of in_degree k = Some 0) (hash_order (map fst in_degree)));
       let in_degree = filter (\<lambda>(_, v). v \<noteq> 0) in_degree;
       m \<leftarrow> acyclic_loop dflt b in_degree worklist;
       Some (m = [])
     }"

section \<open>Well-formed topologies and their default edges\<close>

definition wf_builder :: "'s builder \<Rightarrow> bool" where
  "wf_builder b \<longleftrightarrow>
     length (bd_edges b) = length (bd_nodes b) \<and> length (bd_shape b) = length (bd_nodes b)
     \<and> (\<forall>n < length (bd_nodes b).
          length (bd_nodes b ! n) = fst (bd_shape b ! n) \<and> length (bd_edges b ! n) = snd (bd_shape b ! n)
          \<and> (\<forall>pc \<in> set (bd_nodes b ! n). \<forall>(k, a) \<in> set (pc_iter_ports pc). k < snd (bd_shape b ! n))
          \<and> (\<forall>ts \<in> set (bd_edges b ! n). \<forall>t \<in> set ts.
               tgt_node t < length (bd_nodes b) \<and> tgt_port t < fst (bd_shape b ! tgt_node t)))"

text \<open>The locations of the graph.\<close>

definition builder_locs :: "'s builder \<Rightarrow> location set" where
  "builder_locs b = {l. loc_node l < length (bd_nodes b) \<and>
     (case loc_port l of PortTarget p \<Rightarrow> p < length (bd_nodes b ! loc_node l)
                       | PortSource p \<Rightarrow> p < length (bd_edges b ! loc_node l))}"

text \<open>An edge along which a timestamp can pass unchanged.\<close>

definition default_edges :: "'s \<Rightarrow> 's builder \<Rightarrow> (location \<times> location) set" where
  "default_edges dflt b =
     {(l, l'). l \<in> builder_locs b \<and> (\<exists>ss. acyclic_succs dflt b l = Some ss \<and> l' \<in> set ss)}"


text \<open>Two nodes in a loop whose second one applies the summary \<open>s\<close>.\<close>

definition example_builder :: "8 word \<Rightarrow> 8 word builder" where
  "example_builder s = \<lparr>bd_nodes = [[pc_from_iter [(0, antichain_from_elem 0)]], [pc_from_iter [(0, antichain_from_elem s)]]],
     bd_edges = [[[Target 1 0]], [[Target 0 0]]], bd_shape = [(1, 1), (1, 1)]\<rparr>"

section \<open>Loading the in-degrees\<close>

definition deg_val :: "in_degrees \<Rightarrow> location \<Rightarrow> nat" where
  "deg_val m k = (case map_of m k of None \<Rightarrow> 0 | Some v \<Rightarrow> v)"

lemma deg_val_touch [simp]: "deg_val (deg_touch l m) k = deg_val m k"
  by (auto simp: deg_val_def deg_touch_def update_conv' split: option.splits)

lemma dom_deg_touch [simp]: "dom (map_of (deg_touch l m)) = insert l (dom (map_of m))"
  by (auto simp: deg_touch_def update_conv' split: option.splits if_splits)

lemma deg_val_incr [simp]: "deg_val (deg_incr l m) k = deg_val m k + (if k = l then 1 else 0)"
  by (auto simp: deg_val_def deg_incr_def update_conv' split: option.splits)

lemma dom_deg_incr [simp]: "dom (map_of (deg_incr l m)) = insert l (dom (map_of m))"
  by (auto simp: deg_incr_def update_conv')

lemma distinct_deg_touch [simp]: "distinct (map fst m) \<Longrightarrow> distinct (map fst (deg_touch l m))"
  by (auto simp: deg_touch_def distinct_update split: option.splits)

lemma distinct_deg_incr [simp]: "distinct (map fst m) \<Longrightarrow> distinct (map fst (deg_incr l m))"
  by (simp add: deg_incr_def distinct_update)

lemma fold_incr:
  "deg_val (fold deg_incr ks m) k = deg_val m k + count_list ks k
   \<and> dom (map_of (fold deg_incr ks m)) = set ks \<union> dom (map_of m)
   \<and> (distinct (map fst m) \<longrightarrow> distinct (map fst (fold deg_incr ks m)))"
  by (induction ks arbitrary: m) auto

text \<open>One visit of a location while loading: it is recorded and its successors are counted.\<close>

definition deg_load :: "(location \<Rightarrow> location list) \<Rightarrow> location \<Rightarrow> in_degrees \<Rightarrow> in_degrees" where
  "deg_load S l m = fold deg_incr (S l) (deg_touch l m)"

lemma fold_load:
  "deg_val (fold (deg_load S) ls m) k = deg_val m k + (\<Sum>l \<leftarrow> ls. count_list (S l) k)
   \<and> dom (map_of (fold (deg_load S) ls m)) = set ls \<union> (\<Union>l \<in> set ls. set (S l)) \<union> dom (map_of m)
   \<and> (distinct (map fst m) \<longrightarrow> distinct (map fst (fold (deg_load S) ls m)))"
proof (induction ls arbitrary: m)
  case Nil
  then show ?case by simp
next
  case (Cons l ls)
  from Cons.IH [of "deg_load S l m"] fold_incr [of "S l" "deg_touch l m"]
  show ?case by (simp add: deg_load_def) blast
qed

text \<open>The source and the target locations in the order in which they are loaded.\<close>

definition source_locs :: "'s builder \<Rightarrow> location list" where
  "source_locs b = concat (map (\<lambda>(i, ports). map (\<lambda>(j, _). new_source i j) (enumerate 0 ports)) (enumerate 0 (bd_edges b)))"

definition target_locs :: "'s builder \<Rightarrow> location list" where
  "target_locs b = concat (map (\<lambda>(i, inputs). map (\<lambda>(j, _). new_target i j) (enumerate 0 inputs)) (enumerate 0 (bd_nodes b)))"

definition succs_of :: "'s \<Rightarrow> 's builder \<Rightarrow> location \<Rightarrow> location list" where
  "succs_of dflt b l = the (acyclic_succs dflt b l)"

lemma fold_concat_map: "fold f (concat (map g xs)) = fold (\<lambda>x. fold f (g x)) xs"
  by (induction xs) (simp_all add: fold_append)

lemma in_enumerate: "(i, x) \<in> set (enumerate 0 xs) \<longleftrightarrow> i < length xs \<and> x = xs ! i"
  by (auto simp: in_set_enumerate_eq)

lemma fold_enumerate2:
  assumes "\<And>i j. i < length xss \<Longrightarrow> j < length (xss ! i) \<Longrightarrow> f i j (xss ! i ! j) = g (h i j)"
  shows "fold (\<lambda>(i, xs). fold (\<lambda>(j, x). f i j x) (enumerate 0 xs)) (enumerate 0 xss) m
    = fold g (concat (map (\<lambda>(i, xs). map (\<lambda>(j, _). h i j) (enumerate 0 xs)) (enumerate 0 xss))) m"
proof -
  have "fold (\<lambda>(j, x). f i j x) (enumerate 0 xs) = fold g (map (\<lambda>(j, _). h i j) (enumerate 0 xs))"
    if "(i, xs) \<in> set (enumerate 0 xss)" for i xs
    unfolding fold_map using that assms
    by (intro ext fold_cong) (auto simp: in_enumerate)
  then have "fold (\<lambda>(i, xs). fold (\<lambda>(j, x). f i j x) (enumerate 0 xs)) (enumerate 0 xss)
    = fold (\<lambda>x. fold g ((\<lambda>(i, xs). map (\<lambda>(j, _). h i j) (enumerate 0 xs)) x)) (enumerate 0 xss)"
    by (intro ext fold_cong) auto
  then show ?thesis by (simp add: fold_concat_map)
qed

lemma load_edges_eq: "acyclic_load_edges (bd_edges b) m = fold (deg_load (succs_of dflt b)) (source_locs b) m"
  unfolding acyclic_load_edges_def source_locs_def
  by (rule fold_enumerate2) (auto simp: deg_load_def succs_of_def acyclic_succs_def new_source_def vec_get_def
      fold_map comp_def)

lemma fold_if_eq:
  "fold (\<lambda>s m. if s = d then f m else m) xs m = fold (\<lambda>_. f) (filter (\<lambda>s. s = d) xs) m"
  by (induction xs arbitrary: m) auto

lemma load_nodes_eq: "acyclic_load_nodes dflt (bd_nodes b) m = fold (deg_load (succs_of dflt b)) (target_locs b) m"
proof -
  have ports: "fold (\<lambda>(output, summaries).
             fold (\<lambda>s m. if s = dflt then deg_incr (new_source i output) m else m) (ac_elements summaries)) ps m
     = fold deg_incr (concat (map (\<lambda>(output, summaries).
          map (\<lambda>_. new_source i output) (filter (\<lambda>s. s = dflt) (ac_elements summaries))) ps)) m" for i ps m
    by (induction ps arbitrary: m) (auto simp: fold_append fold_map comp_def fold_if_eq)
  show ?thesis unfolding acyclic_load_nodes_def target_locs_def
    by (rule fold_enumerate2) (auto simp: deg_load_def succs_of_def acyclic_succs_def new_target_def
        vec_get_def ports)
qed

lemma set_source_locs:
  "l \<in> set (source_locs b) \<longleftrightarrow>
   (\<exists>i j. l = new_source i j \<and> i < length (bd_edges b) \<and> j < length (bd_edges b ! i))"
  by (force simp: source_locs_def in_enumerate)

lemma set_target_locs:
  "l \<in> set (target_locs b) \<longleftrightarrow>
   (\<exists>i j. l = new_target i j \<and> i < length (bd_nodes b) \<and> j < length (bd_nodes b ! i))"
  by (force simp: target_locs_def in_enumerate)

lemma set_all_locs:
  assumes "length (bd_edges b) = length (bd_nodes b)"
  shows "set (source_locs b @ target_locs b) = builder_locs b"
proof (rule set_eqI)
  fix l
  obtain n p where l: "l = Location n p" by (cases l)
  show "l \<in> set (source_locs b @ target_locs b) \<longleftrightarrow> l \<in> builder_locs b"
    using assms unfolding set_append Un_iff set_source_locs set_target_locs
    by (cases p) (auto simp: l builder_locs_def new_source_def new_target_def)
qed


lemma distinct_concat_enumerate:
  assumes "\<And>i j i' j'. h i j = h i' j' \<Longrightarrow> i = i' \<and> j = j'"
  shows "distinct (concat (map (\<lambda>(i, xs). map (\<lambda>(j, _). h i j) (enumerate 0 xs)) (enumerate n xss)))"
proof (induction xss arbitrary: n)
  case Nil
  then show ?case by simp
next
  case (Cons xs xss)
  have inner: "map (\<lambda>(j, _). h n j) (enumerate 0 xs) = map (h n) [0..<length xs]"
  proof -
    have "map (\<lambda>(j, _). h n j) (enumerate 0 xs) = map (h n) (map fst (enumerate 0 xs))"
      unfolding map_map by (rule map_cong) auto
    then show ?thesis unfolding map_fst_enumerate by simp
  qed
  define rest where "rest = concat (map (\<lambda>(i, xs). map (\<lambda>(j, _). h i j) (enumerate 0 xs)) (enumerate (Suc n) xss))"
  have "h n j \<notin> set rest" for j
  proof
    assume "h n j \<in> set rest"
    then obtain i j' where "Suc n \<le> i" "h n j = h i j'" by (auto simp: rest_def in_set_enumerate_eq)
    with assms [of n j i j'] show False by simp
  qed
  moreover have "distinct (map (h n) [0..<length xs])"
    using assms by (auto simp: distinct_map inj_on_def)
  moreover have "distinct rest" using Cons.IH by (simp add: rest_def)
  ultimately have "distinct (map (h n) [0..<length xs] @ rest)" by auto
  then show ?case by (simp add: inner rest_def)
qed

lemma distinct_all_locs: "distinct (source_locs b @ target_locs b)"
proof -
  have "distinct (source_locs b)" "distinct (target_locs b)"
    unfolding source_locs_def target_locs_def
    by (rule distinct_concat_enumerate; simp add: new_source_def new_target_def)+
  moreover have "set (source_locs b) \<inter> set (target_locs b) = {}"
    by (auto simp: set_source_locs set_target_locs new_source_def new_target_def)
  ultimately show ?thesis by simp
qed

lemma finite_builder_locs:
  "length (bd_edges b) = length (bd_nodes b) \<Longrightarrow> finite (builder_locs b)"
  using set_all_locs [of b] by (metis List.finite_set)

lemma wf_builder_nodes:
  "wf_builder b \<Longrightarrow> n < length (bd_nodes b) \<Longrightarrow> pc \<in> set (bd_nodes b ! n) \<Longrightarrow>
   (k, a) \<in> set (pc_iter_ports pc) \<Longrightarrow> k < length (bd_edges b ! n)"
  by (fastforce simp: wf_builder_def)

lemma wf_builder_edges:
  "wf_builder b \<Longrightarrow> n < length (bd_nodes b) \<Longrightarrow> ts \<in> set (bd_edges b ! n) \<Longrightarrow> t \<in> set ts \<Longrightarrow>
   tgt_node t < length (bd_nodes b) \<and> tgt_port t < length (bd_nodes b ! tgt_node t)"
  by (simp add: wf_builder_def)

lemma succs_defined:
  assumes "wf_builder b" and "l \<in> builder_locs b"
  shows "acyclic_succs dflt b l = Some (succs_of dflt b l) \<and> set (succs_of dflt b l) \<subseteq> builder_locs b"
proof -
  obtain n p where l: "l = Location n p" by (cases l)
  have n: "n < length (bd_nodes b)" using assms(2) by (simp add: l builder_locs_def)
  show ?thesis
  proof (cases p)
    case (PortTarget i)
    then have i: "i < length (bd_nodes b ! n)" using assms(2) by (simp add: l builder_locs_def)
    then have "bd_nodes b ! n ! i \<in> set (bd_nodes b ! n)" by simp
    from wf_builder_nodes [OF assms(1) n this] PortTarget n i show ?thesis
      by (auto simp: l acyclic_succs_def succs_of_def vec_get_def builder_locs_def new_source_def)
  next
    case (PortSource i)
    then have i: "i < length (bd_edges b ! n)" using assms(2) by (simp add: l builder_locs_def)
    then have "bd_edges b ! n ! i \<in> set (bd_edges b ! n)" by simp
    from wf_builder_edges [OF assms(1) n this] PortSource n i assms(1) show ?thesis
      by (auto simp: l acyclic_succs_def succs_of_def vec_get_def builder_locs_def location_of_target_def wf_builder_def)
  qed
qed

lemma initial_degrees:
  fixes dflt :: 's and b :: "'s builder"
  assumes "wf_builder b"
  defines "m \<equiv> acyclic_load_nodes dflt (bd_nodes b) (acyclic_load_edges (bd_edges b) [])"
  shows "distinct (map fst m)" and "fst ` set m = builder_locs b"
    and "deg_val m k = (\<Sum>l \<in> builder_locs b. count_list (succs_of dflt b l) k)"
proof -
  let ?ls = "source_locs b @ target_locs b"
  have len: "length (bd_edges b) = length (bd_nodes b)" using assms(1) by (simp add: wf_builder_def)
  have m: "m = fold (deg_load (succs_of dflt b)) ?ls []"
    by (simp add: m_def load_edges_eq [of b _ dflt] load_nodes_eq)
  note fl = fold_load [of "succs_of dflt b" ?ls "[]"]
  show "distinct (map fst m)" using fl [of k] by (simp add: m)
  have "dom (map_of m) = builder_locs b"
    using fl [of k] succs_defined [OF assms(1), of _ dflt] unfolding m set_all_locs [OF len] by auto
  then show "fst ` set m = builder_locs b" by (simp add: dom_map_of_conv_image_fst)
  have "deg_val m k = (\<Sum>l \<leftarrow> ?ls. count_list (succs_of dflt b l) k)"
    using fl [of k] by (simp add: m deg_val_def)
  also have "\<dots> = (\<Sum>l \<in> set ?ls. count_list (succs_of dflt b l) k)"
    by (rule sum_list_distinct_conv_sum_set [OF distinct_all_locs])
  finally show "deg_val m k = (\<Sum>l \<in> builder_locs b. count_list (succs_of dflt b l) k)"
    unfolding set_all_locs [OF len] .
qed


section \<open>The main loop\<close>

text \<open>
  \<open>deg_ok V D c m w\<close>: the map holds exactly the locations of \<open>V\<close> with a positive
  remaining in-degree \<open>c\<close>; the other ones have been popped (\<open>D\<close>) or wait in \<open>w\<close>.
\<close>

definition deg_ok ::
  "location set \<Rightarrow> location set \<Rightarrow> (location \<Rightarrow> nat) \<Rightarrow> in_degrees \<Rightarrow> location list \<Rightarrow> bool" where
  "deg_ok V D c m w \<longleftrightarrow> distinct (map fst m) \<and> distinct w \<and> D \<inter> set w = {}
     \<and> fst ` set m \<subseteq> V \<and> V - fst ` set m = D \<union> set w
     \<and> (\<forall>k \<in> V. map_of m k = (if c k > 0 then Some (c k) else None))"

lemma visit_ok:
  "deg_ok V D (\<lambda>k. c k + count_list ks k) m w \<Longrightarrow> set ks \<subseteq> V \<Longrightarrow>
   \<exists>m' w'. acyclic_visit ks (m, w) = Some (m', w') \<and> deg_ok V D c m' w'"
proof (induction ks arbitrary: m w)
  case Nil
  then show ?case by simp
next
  case (Cons k ks)
  let ?v = "c k + count_list ks k"
  have k: "k \<in> V" and mk: "map_of m k = Some (Suc ?v)"
    using Cons.prems by (auto simp: deg_ok_def)
  have in_m: "k \<in> fst ` set m" using mk by (force dest: map_of_SomeD)
  have rest: "map_of m j = (if c j + count_list ks j > 0 then Some (c j + count_list ks j) else None)"
    if "j \<in> V" "j \<noteq> k" for j using Cons.prems(1) that by (auto simp: deg_ok_def)
  show ?case
  proof (cases "?v = 0")
    case True
    have "deg_ok V D (\<lambda>k. c k + count_list ks k) (AList.delete k m) (k # w)"
      using Cons.prems(1) in_m k True rest
      by (auto simp: deg_ok_def distinct_delete delete_conv' AList.delete_keys [symmetric] dom_map_of_conv_image_fst [symmetric] image_iff)
    from Cons.IH [OF this] Cons.prems(2) mk True show ?thesis by simp
  next
    case False
    have "deg_ok V D (\<lambda>k. c k + count_list ks k) (AList.update k ?v m) w"
      using Cons.prems(1) in_m k False rest
      by (auto simp: deg_ok_def distinct_update update_conv' simp flip: dom_map_of_conv_image_fst)
    from Cons.IH [OF this] Cons.prems(2) mk False show ?thesis by auto
  qed
qed

text \<open>\<open>topo R ps\<close>: every predecessor of an element of \<open>ps\<close> comes after it in the list.\<close>

fun topo :: "('a \<times> 'a) set \<Rightarrow> 'a list \<Rightarrow> bool" where
  "topo R [] = True"
| "topo R (p # ps) \<longleftrightarrow> p \<notin> set ps \<and> (\<forall>q. (q, p) \<in> R \<longrightarrow> q \<in> set ps) \<and> topo R ps"

lemma topo_closed_step: "topo R ps \<Longrightarrow> (q, p) \<in> R \<Longrightarrow> p \<in> set ps \<Longrightarrow> q \<in> set ps"
  by (induction ps) auto

lemma topo_closed: "(q, p) \<in> R\<^sup>* \<Longrightarrow> topo R ps \<Longrightarrow> p \<in> set ps \<Longrightarrow> q \<in> set ps"
  by (induction rule: converse_rtrancl_induct) (auto intro: topo_closed_step)

lemma topo_irrefl: "topo R ps \<Longrightarrow> p \<in> set ps \<Longrightarrow> (p, p) \<notin> R\<^sup>+"
proof (induction ps)
  case (Cons p0 ps)
  show ?case
  proof (cases "p = p0")
    case True
    show ?thesis
    proof
      assume "(p, p) \<in> R\<^sup>+"
      then obtain q where "(p, q) \<in> R\<^sup>*" "(q, p) \<in> R" by (meson tranclD2)
      with Cons.prems True show False using topo_closed [of p q R ps] by auto
    qed
  next
    case False
    with Cons show ?thesis by auto
  qed
qed simp

lemma loop_ok:
  fixes dflt :: 's and b :: "'s builder"
  assumes wf: "wf_builder b"
  assumes "deg_ok (builder_locs b) (set ps) (\<lambda>k. \<Sum>l \<in> builder_locs b - set ps. count_list (succs_of dflt b l) k) m w"
    and "topo (default_edges dflt b) ps"
  shows "\<exists>m' ps'. acyclic_loop dflt b m w = Some m' \<and> topo (default_edges dflt b) ps'
    \<and> deg_ok (builder_locs b) (set ps') (\<lambda>k. \<Sum>l \<in> builder_locs b - set ps'. count_list (succs_of dflt b l) k) m' []"
  using assms
proof (induction dflt b m w arbitrary: ps rule: acyclic_loop.induct)
  case (1 dflt b m)
  then show ?case by auto
next
  case (2 dflt b m l w)
  let ?V = "builder_locs b" and ?S = "succs_of dflt b" and ?R = "default_edges dflt b"
  have fin: "finite ?V" using 2(2) by (simp add: finite_builder_locs wf_builder_def)
  have l: "l \<in> ?V" "l \<notin> set ps" "l \<notin> fst ` set m" and lw: "l \<notin> set w"
    using 2(3) by (auto simp: deg_ok_def)
  have S: "acyclic_succs dflt b l = Some (?S l)" "set (?S l) \<subseteq> ?V"
    using succs_defined [OF 2(2) l(1)] by auto
  have split: "(\<Sum>x \<in> ?V - set ps. count_list (?S x) k)
      = (\<Sum>x \<in> ?V - set (l # ps). count_list (?S x) k) + count_list (?S l) k" for k
  proof -
    have "?V - set (l # ps) = ?V - set ps - {l}" by auto
    then show ?thesis using sum.remove [of "?V - set ps" l "\<lambda>x. count_list (?S x) k"] fin l by simp
  qed
  have "deg_ok ?V (set (l # ps)) (\<lambda>k. (\<Sum>x \<in> ?V - set (l # ps). count_list (?S x) k) + count_list (?S l) k) m w"
    using 2(3) l lw unfolding split [symmetric] by (auto simp: deg_ok_def)
  from visit_ok [OF this S(2)] obtain m1 w1 where v: "acyclic_visit (?S l) (m, w) = Some (m1, w1)"
    and ok: "deg_ok ?V (set (l # ps)) (\<lambda>k. \<Sum>x \<in> ?V - set (l # ps). count_list (?S x) k) m1 w1" by blast
  have preds: "q \<in> set ps" if q: "(q, l) \<in> ?R" for q
  proof (rule ccontr)
    assume "q \<notin> set ps"
    moreover have "q \<in> ?V" "l \<in> set (?S q)"
      using q succs_defined [OF 2(2), of q dflt] by (auto simp: default_edges_def)
    ultimately have "0 < (\<Sum>x \<in> ?V - set ps. count_list (?S x) l)"
      using fin by (intro sum_pos2 [of _ q]) (auto simp: count_list_0_iff neq0_conv [symmetric] simp del: neq0_conv)
    moreover have "map_of m l = None" using l(3) by (simp add: map_of_eq_None_iff)
    ultimately show False using 2(3) l(1) by (auto simp: deg_ok_def)
  qed
  have "topo ?R (l # ps)" using 2(4) l preds by simp
  from "2.IH" [OF S(1) v refl 2(2) ok this] show ?case by (simp add: S(1) v)
qed

text \<open>A finite non-empty set in which everybody has a predecessor in the set has a cycle.\<close>

lemma acyclic_no_self_support:
  assumes "finite A" and "A \<noteq> {}" and "\<forall>x \<in> A. \<exists>y \<in> A. (y, x) \<in> R"
  shows "\<not> acyclic R"
proof
  assume "acyclic R"
  then have "wf (R \<inter> A \<times> A)"
    using assms(1) by (intro finite_acyclic_wf) (auto intro: acyclic_subset)
  from wfE_min [OF this] assms(2) obtain x where x: "x \<in> A" "\<And>y. (y, x) \<in> R \<inter> A \<times> A \<Longrightarrow> y \<notin> A"
    by (metis all_not_in_conv)
  with assms(3) show False by blast
qed

lemma map_of_filter_nonzero:
  "distinct (map fst m) \<Longrightarrow> map_of (filter (\<lambda>(_, v). v \<noteq> (0::nat)) m) k =
     (case map_of m k of None \<Rightarrow> None | Some v \<Rightarrow> if v \<noteq> 0 then Some v else None)"
  by (induction m) (auto simp: map_of_eq_None_iff split: option.splits)

lemma is_acyclic_iff:
  fixes dflt :: 's and b :: "'s builder"
  assumes wf: "wf_builder b" and perm: "\<And>ks. mset (hash_order ks) = mset ks"
  shows "builder_is_acyclic hash_order dflt b = Some (acyclic (default_edges dflt b))"
proof -
  let ?V = "builder_locs b" and ?S = "succs_of dflt b" and ?R = "default_edges dflt b"
  have fin: "finite ?V" using wf by (simp add: finite_builder_locs wf_builder_def)
  define m where "m = acyclic_load_nodes dflt (bd_nodes b) (acyclic_load_edges (bd_edges b) [])"
  note init = initial_degrees [OF wf, of dflt, folded m_def]
  define w where "w = rev (filter (\<lambda>k. map_of m k = Some 0) (hash_order (map fst m)))"
  have ord: "set (hash_order (map fst m)) = ?V" "distinct (hash_order (map fst m))"
    using perm [of "map fst m"] init(1,2) by (metis list.set_map set_mset_mset, metis distinct_count_atmost_1 set_mset_mset)
  have mk: "map_of m k = Some (\<Sum>l \<in> ?V. count_list (?S l) k)" if "k \<in> ?V" for k
  proof -
    from that init(2) have "map_of m k \<noteq> None" by (simp add: map_of_eq_None_iff)
    with init(3) [of k] show ?thesis by (auto simp: deg_val_def)
  qed
  let ?m = "filter (\<lambda>(_, v). v \<noteq> 0) m"
  have flt: "map_of ?m k = (if (\<Sum>l \<in> ?V. count_list (?S l) k) > 0
      then Some (\<Sum>l \<in> ?V. count_list (?S l) k) else None)" if "k \<in> ?V" for k
    unfolding map_of_filter_nonzero [OF init(1)] using mk [OF that] by simp
  have keys: "k \<in> fst ` set ?m \<longleftrightarrow> k \<in> ?V \<and> (\<Sum>l \<in> ?V. count_list (?S l) k) > 0" for k
  proof -
    have sub: "fst ` set ?m \<subseteq> ?V" using init(2) by auto
    have dom: "k \<in> fst ` set ?m \<longleftrightarrow> map_of ?m k \<noteq> None" by (metis map_of_eq_None_iff)
    show ?thesis
    proof (cases "k \<in> ?V")
      case True
      then show ?thesis unfolding dom flt [OF True] by simp
    next
      case False
      with sub show ?thesis by blast
    qed
  qed
  then have keyset: "fst ` set ?m = {k \<in> ?V. (\<Sum>l \<in> ?V. count_list (?S l) k) > 0}" by blast
  have "deg_ok ?V (set []) (\<lambda>k. \<Sum>l \<in> ?V - set []. count_list (?S l) k) ?m w"
    unfolding deg_ok_def
  proof (intro conjI)
    show "distinct (map fst ?m)" by (rule distinct_map_filter [OF init(1)])
    show "distinct w" using ord(2) by (simp add: w_def)
    show "?V - fst ` set ?m = set [] \<union> set w"
      unfolding keyset using ord(1) mk by (auto simp: w_def)
    show "fst ` set ?m \<subseteq> ?V" unfolding keyset by blast
    show "\<forall>k \<in> ?V. map_of ?m k = (if 0 < (\<Sum>l \<in> ?V - set []. count_list (?S l) k)
        then Some (\<Sum>l \<in> ?V - set []. count_list (?S l) k) else None)"
      using flt unfolding empty_set [symmetric] Diff_empty by blast
  qed simp
  from loop_ok [OF wf this] obtain m' ps where l: "acyclic_loop dflt b ?m w = Some m'" and t: "topo ?R ps"
    and ok: "deg_ok ?V (set ps) (\<lambda>k. \<Sum>l \<in> ?V - set ps. count_list (?S l) k) m' []" by auto
  have "m' = [] \<longleftrightarrow> acyclic ?R"
  proof
    assume "m' = []"
    with ok have "set ps = ?V" by (simp add: deg_ok_def)
    moreover have "(x, x) \<notin> ?R\<^sup>+" if "x \<notin> ?V" for x
      using that by (auto simp: default_edges_def dest: tranclD)
    ultimately show "acyclic ?R" using topo_irrefl [OF t] by (metis acyclic_def)
  next
    assume ac: "acyclic ?R"
    have M: "fst ` set m' = ?V - set ps" using ok by (auto simp: deg_ok_def)
    have "\<exists>y \<in> ?V - set ps. (y, x) \<in> ?R" if "x \<in> ?V - set ps" for x
    proof -
      have "map_of m' x \<noteq> None" using that M by (simp add: map_of_eq_None_iff)
      with ok that have "(\<Sum>l \<in> ?V - set ps. count_list (?S l) x) \<noteq> 0"
        by (auto simp: deg_ok_def split: if_splits)
      then obtain y where "y \<in> ?V - set ps" "count_list (?S y) x \<noteq> 0" by (meson sum.not_neutral_contains_not_neutral)
      with succs_defined [OF wf, of y dflt] show ?thesis
        by (auto simp: default_edges_def count_list_0_iff)
    qed
    with acyclic_no_self_support [of "?V - set ps" ?R] ac fin have "?V - set ps = {}" by blast
    with M show "m' = []" by simp
  qed
  then show ?thesis unfolding builder_is_acyclic_def Let_def m_def [symmetric] w_def [symmetric] l
    by simp
qed


section \<open>Building keeps topologies well formed\<close>

text \<open>A node description is well formed when it has one entry per input and names existing outputs.\<close>

definition wf_summary :: "nat \<Rightarrow> nat \<Rightarrow> 's connectivity \<Rightarrow> bool" where
  "wf_summary inputs outputs summary \<longleftrightarrow> length summary = inputs
     \<and> (\<forall>pc \<in> set summary. \<forall>(k, a) \<in> set (pc_iter_ports pc). k < outputs)"

lemma wf_builder_new: "wf_builder builder_new"
  by (simp add: wf_builder_def builder_new_def)

text \<open>
  Nodes are added in index order (as \<open>SubgraphBuilder::build\<close> does); re-adding a node is
  another matter, since its shape may no longer fit the edges into it.
\<close>

lemma wf_add_node:
  assumes "wf_builder b" and "wf_summary inputs outputs summary"
  shows "\<exists>b'. builder_add_node (length (bd_nodes b)) inputs outputs summary b = Some b' \<and> wf_builder b'
    \<and> length (bd_nodes b') = Suc (length (bd_nodes b)) \<and> bd_shape b' = bd_shape b @ [(inputs, outputs)]
    \<and> bd_edges b' = bd_edges b @ [replicate outputs []]"
proof -
  let ?n = "length (bd_nodes b)"
  let ?b = "b\<lparr>bd_nodes := bd_nodes b @ [summary], bd_edges := bd_edges b @ [replicate outputs []],
     bd_shape := bd_shape b @ [(inputs, outputs)]\<rparr>"
  have len: "length (bd_edges b) = ?n" "length (bd_shape b) = ?n" using assms(1) by (auto simp: wf_builder_def)
  have "builder_add_node ?n inputs outputs summary b = Some ?b"
    using len by (simp add: builder_add_node_def vec_set_def vec_get_def list_update_append nth_append Let_def)
  moreover have "wf_builder ?b"
    using assms len by (auto simp: wf_builder_def wf_summary_def nth_append less_Suc_eq)
  ultimately show ?thesis by simp
qed

lemma wf_add_edge:
  assumes "wf_builder b" and "src_node s < length (bd_nodes b)" "src_port s < snd (bd_shape b ! src_node s)"
    and "tgt_node t < length (bd_nodes b)" "tgt_port t < fst (bd_shape b ! tgt_node t)"
  shows "\<exists>b'. builder_add_edge s t b = Some b' \<and> wf_builder b'
    \<and> bd_nodes b' = bd_nodes b \<and> bd_shape b' = bd_shape b
    \<and> bd_edges b' = (bd_edges b)[src_node s := (bd_edges b ! src_node s)[src_port s := bd_edges b ! src_node s ! src_port s @ [t]]]"
proof -
  let ?ports = "bd_edges b ! src_node s"
  let ?b = "b\<lparr>bd_edges := (bd_edges b)[src_node s := ?ports[src_port s := ?ports ! src_port s @ [t]]]\<rparr>"
  have s: "src_port s < length ?ports" "length (bd_edges b) = length (bd_nodes b)"
    using assms(1-3) by (auto simp: wf_builder_def)
  have old: "tgt_node t' < length (bd_nodes b) \<and> tgt_port t' < fst (bd_shape b ! tgt_node t')"
    if "n < length (bd_nodes b)" "ts \<in> set (bd_edges b ! n)" "t' \<in> set ts" for n ts t'
    using assms(1) that by (simp add: wf_builder_def)
  have "tgt_node t' < length (bd_nodes b) \<and> tgt_port t' < fst (bd_shape b ! tgt_node t')"
    if "n < length (bd_nodes b)" "ts \<in> set (bd_edges ?b ! n)" "t' \<in> set ts" for n ts t'
  proof -
    from that(2) s assms(2) consider "ts \<in> set (bd_edges b ! n)" | "n = src_node s" "ts = ?ports ! src_port s @ [t]"
      by (auto simp: nth_list_update split: if_splits dest!: set_update_subset_insert [THEN subsetD])
    then show ?thesis
    proof cases
      case 1
      with that old show ?thesis by blast
    next
      case 2
      with that(1,3) old [of n "?ports ! src_port s" t'] s assms(4,5) show ?thesis by auto
    qed
  qed
  then have "wf_builder ?b" using assms(1,2) by (auto simp: wf_builder_def nth_list_update)
  moreover have "builder_add_edge s t b = Some ?b"
    using s assms(2) by (simp add: builder_add_edge_def vec_get_def)
  ultimately show ?thesis by simp
qed

section \<open>Properties\<close>

text \<open>
  C31: on a well-formed topology \<open>is_acyclic\<close> returns, without panic and whatever order the
  hash map is iterated in, \<open>true\<close> exactly when the locations have no cycle of edges and
  default path summaries.
\<close>

theorem builder_is_acyclic_correct:
  assumes "wf_builder b" and "\<forall>ks. mset (hash_order ks) = mset ks"
  shows "builder_is_acyclic hash_order dflt b = Some (acyclic (default_edges dflt b))"
  by (rule is_acyclic_iff) (use assms in auto)

theorem builder_is_acyclic_correct_witness:
  "builder_is_acyclic rev 0 (example_builder 1) = Some True \<and> acyclic (default_edges 0 (example_builder 1))
   \<and> builder_is_acyclic rev 0 (example_builder 0) = Some False \<and> \<not> acyclic (default_edges 0 (example_builder 0))"
proof -
  have r: "\<forall>ks :: location list. mset (rev ks) = mset ks" by simp
  have wf: "wf_builder (example_builder s)" for s
    by (auto simp: wf_builder_def example_builder_def less_Suc_eq pc_iter_ports_def pc_from_iter_def
        antichain_from_elem_def)
  have "builder_is_acyclic rev 0 (example_builder 1) = Some True"
    "builder_is_acyclic rev 0 (example_builder 0) = Some False" by code_simp+
  with builder_is_acyclic_correct [OF wf r] show ?thesis by force
qed

end
