(* ===== verification/Reach_Tracker.thy ===== *)
theory Reach_Tracker
  imports Reach_Builder
begin

text \<open>
  \<^verbatim>\<open>timely/src/progress/reachability.rs\<close>, second part: the \<open>Tracker\<close> and
  \<open>propagate_all\<close>.

  \<open>ri\<close> is \<open>results_in\<close> of the path summaries, \<open>le\<close> the partial order of the times.
  The \<open>BinaryHeap<Reverse<(T, Location, i64)>>\<close> is the list of its entries in increasing
  order: \<open>push\<close> is \<open>insort\<close>, \<open>pop\<close> takes the head.  The tracker is modelled without
  a logger, so step 0 of \<open>propagate_all\<close> and the \<open>Drop\<close> implementation do nothing.  An
  index out of range is \<open>None\<close>; so is a run of the propagation loop that does not end,
  and that it ends is proved, not assumed.
\<close>

section \<open>State\<close>

record ('t, 's) port_information =
  pi_pointstamps :: "'t mutable_antichain"
  pi_implications :: "'t mutable_antichain"
  pi_output_summaries :: "'s port_connectivity"

record ('t, 's) per_operator =
  po_targets :: "('t, 's) port_information list"
  po_sources :: "('t, 's) port_information list"

record ('t, 's) tracker =
  tr_nodes :: "'s connectivity list"
  tr_edges :: "target list list list"
  tr_per_operator :: "('t, 's) per_operator list"
  tr_target_changes :: "(target \<times> 't) change_batch"
  tr_source_changes :: "(source \<times> 't) change_batch"
  tr_worklist :: "('t \<times> location \<times> int) list"
  tr_pushed_changes :: "(location \<times> 't) change_batch"
  tr_output_changes :: "'t change_batch list"
  tr_total_counts :: int

definition pi_new :: "('t, 's) port_information" where
  "pi_new = \<lparr>pi_pointstamps = ma_new, pi_implications = ma_new, pi_output_summaries = pc_default\<rparr>"

definition po_new :: "nat \<Rightarrow> nat \<Rightarrow> ('t, 's) per_operator" where
  "po_new inputs outputs = \<lparr>po_targets = replicate inputs pi_new, po_sources = replicate outputs pi_new\<rparr>"

definition pi_is_global :: "('t \<Rightarrow> 't \<Rightarrow> bool) \<Rightarrow> ('t, 's) port_information \<Rightarrow> 't \<Rightarrow> bool" where
  "pi_is_global le p time =
     (let dominated = list_ex (\<lambda>t. less_than le t time) (ma_frontier (pi_implications p));
          redundant = ma_count_for (pi_implications p) time > 1
      in \<not> dominated \<and> \<not> redundant)"

text \<open>\<open>self.per_operator[node].targets[port]\<close> and \<open>.sources[port]\<close>, read and written back.\<close>

definition tr_get :: "('t, 's) tracker \<Rightarrow> location \<Rightarrow> ('t, 's) port_information option" where
  "tr_get tr l =
     do { po \<leftarrow> vec_get (tr_per_operator tr) (loc_node l);
          case loc_port l of PortTarget p \<Rightarrow> vec_get (po_targets po) p | PortSource p \<Rightarrow> vec_get (po_sources po) p }"

definition tr_set :: "('t, 's) tracker \<Rightarrow> location \<Rightarrow> ('t, 's) port_information \<Rightarrow> ('t, 's) tracker option" where
  "tr_set tr l pinf =
     do { po \<leftarrow> vec_get (tr_per_operator tr) (loc_node l);
          po' \<leftarrow> (case loc_port l of
              PortTarget p \<Rightarrow> map_option (\<lambda>ts. po\<lparr>po_targets := ts\<rparr>) (vec_set (po_targets po) p pinf)
            | PortSource p \<Rightarrow> map_option (\<lambda>ss. po\<lparr>po_sources := ss\<rparr>) (vec_set (po_sources po) p pinf));
          Some (tr\<lparr>tr_per_operator := (tr_per_operator tr)[loc_node l := po']\<rparr>) }"

section \<open>Operations\<close>

definition tracker_update_target :: "target \<Rightarrow> 't::linorder \<Rightarrow> int \<Rightarrow> ('t, 's) tracker \<Rightarrow> ('t, 's) tracker" where
  "tracker_update_target target time value tr =
     tr\<lparr>tr_target_changes := cb_update (target, time) value (tr_target_changes tr)\<rparr>"

definition tracker_update_source :: "source \<Rightarrow> 't::linorder \<Rightarrow> int \<Rightarrow> ('t, 's) tracker \<Rightarrow> ('t, 's) tracker" where
  "tracker_update_source source time value tr =
     tr\<lparr>tr_source_changes := cb_update (source, time) value (tr_source_changes tr)\<rparr>"

definition tracker_update :: "location \<Rightarrow> 't::linorder \<Rightarrow> int \<Rightarrow> ('t, 's) tracker \<Rightarrow> ('t, 's) tracker" where
  "tracker_update l time value tr =
     (case loc_port l of
        PortTarget p \<Rightarrow> tracker_update_target (Target (loc_node l) p) time value tr
      | PortSource p \<Rightarrow> tracker_update_source (Source (loc_node l) p) time value tr)"

definition tracker_tracking_anything :: "('t::linorder, 's) tracker \<Rightarrow> bool \<times> ('t, 's) tracker" where
  "tracker_tracking_anything tr =
     (let (es, sc) = cb_is_empty (tr_source_changes tr); tr = tr\<lparr>tr_source_changes := sc\<rparr>
      in if \<not> es then (True, tr)
         else let (et, tc) = cb_is_empty (tr_target_changes tr); tr = tr\<lparr>tr_target_changes := tc\<rparr>
              in (\<not> et \<or> tr_total_counts tr > 0, tr))"

definition tracker_is_global :: "('t \<Rightarrow> 't \<Rightarrow> bool) \<Rightarrow> ('t, 's) tracker \<Rightarrow> location \<Rightarrow> 't \<Rightarrow> bool option" where
  "tracker_is_global le tr l time = map_option (\<lambda>p. pi_is_global le p time) (tr_get tr l)"

text \<open>The projection of a frontier change through the summaries to the scope outputs.\<close>

fun push_outputs ::
  "('s \<Rightarrow> 't \<Rightarrow> 't option) \<Rightarrow> 't::linorder \<Rightarrow> int \<Rightarrow> (nat \<times> 's antichain) list
   \<Rightarrow> 't change_batch list \<Rightarrow> 't change_batch list option" where
  "push_outputs ri time diff [] ocs = Some ocs"
| "push_outputs ri time diff ((output, summaries) # ports) ocs =
     do { oc \<leftarrow> vec_get ocs output;
          let oc' = fold (\<lambda>s oc. case ri s time of None \<Rightarrow> oc | Some out_time \<Rightarrow> cb_update out_time diff oc)
                      (ac_elements summaries) oc;
          push_outputs ri time diff ports (ocs[output := oc']) }"

fun note_changes ::
  "('s \<Rightarrow> 't \<Rightarrow> 't option) \<Rightarrow> location \<Rightarrow> (nat \<times> 's antichain) list \<Rightarrow> ('t::linorder \<times> int) list
   \<Rightarrow> ('t, 's) tracker \<Rightarrow> ('t, 's) tracker option" where
  "note_changes ri l ports [] tr = Some tr"
| "note_changes ri l ports ((time, diff) # cs) tr =
     do { ocs \<leftarrow> push_outputs ri time diff ports (tr_output_changes tr);
          note_changes ri l ports cs
            (tr\<lparr>tr_total_counts := tr_total_counts tr + diff, tr_output_changes := ocs,
                tr_worklist := insort (time, l, diff) (tr_worklist tr)\<rparr>) }"

text \<open>One round of the first two loops: all buffered updates of one port.\<close>

definition absorb_port ::
  "('t \<Rightarrow> 't \<Rightarrow> bool) \<Rightarrow> ('s \<Rightarrow> 't \<Rightarrow> 't option) \<Rightarrow> location \<Rightarrow> ('t::linorder \<times> int) list
   \<Rightarrow> ('t, 's) tracker \<Rightarrow> ('t, 's) tracker option" where
  "absorb_port le ri l us tr =
     do { p \<leftarrow> tr_get tr l;
          let (changes, ma) = ma_update_iter le us (pi_pointstamps p);
          tr \<leftarrow> tr_set tr l (p\<lparr>pi_pointstamps := ma\<rparr>);
          note_changes ri l (pc_iter_ports (pi_output_summaries p)) changes tr }"

function absorb_changes ::
  "('t \<Rightarrow> 't \<Rightarrow> bool) \<Rightarrow> ('s \<Rightarrow> 't \<Rightarrow> 't option) \<Rightarrow> ('k \<Rightarrow> location) \<Rightarrow> (('k \<times> 't::linorder) \<times> int) list
   \<Rightarrow> ('t, 's) tracker \<Rightarrow> ('t, 's) tracker option" where
  "absorb_changes le ri loc_of [] tr = Some tr"
| "absorb_changes le ri loc_of (u # us) tr =
     (let k = fst (fst u); same = (\<lambda>v. fst (fst v) = k) in
      do { tr' \<leftarrow> absorb_port le ri (loc_of k) (map (\<lambda>v. (snd (fst v), snd v)) (takeWhile same (u # us))) tr;
           absorb_changes le ri loc_of (dropWhile same us) tr' })"
  by pat_completeness auto
termination
  by (relation "measure (\<lambda>(le, ri, loc_of, us, tr). length us)")
    (auto simp: less_Suc_eq_le length_dropWhile_le)

text \<open>
  Where a change of the implications at a location and time is pushed to: across the operator,
  along the path summaries, or along the outgoing edges.
\<close>

definition tracker_succs ::
  "('s \<Rightarrow> 't \<Rightarrow> 't option) \<Rightarrow> ('t, 's) tracker \<Rightarrow> location \<Rightarrow> 't \<Rightarrow> (location \<times> 't) list option" where
  "tracker_succs ri tr l time =
     (case loc_port l of
        PortTarget p \<Rightarrow>
          do { inputs \<leftarrow> vec_get (tr_nodes tr) (loc_node l); outputs \<leftarrow> vec_get inputs p;
               Some (concat (map (\<lambda>(output, summaries).
                 map (Pair (Location (loc_node l) (PortSource output)))
                   (List.map_filter (\<lambda>s. ri s time) (ac_elements summaries))) (pc_iter_ports outputs))) }
      | PortSource p \<Rightarrow>
          do { ports \<leftarrow> vec_get (tr_edges tr) (loc_node l); targets \<leftarrow> vec_get ports p;
               Some (map (\<lambda>t. (location_of_target t, time)) targets) })"

fun push_implications ::
  "('s \<Rightarrow> 't \<Rightarrow> 't option) \<Rightarrow> location \<Rightarrow> ('t::linorder \<times> int) list \<Rightarrow> ('t, 's) tracker \<Rightarrow> ('t, 's) tracker option" where
  "push_implications ri l [] tr = Some tr"
| "push_implications ri l ((time, diff) # cs) tr =
     do { ss \<leftarrow> tracker_succs ri tr l time;
          push_implications ri l cs
            (tr\<lparr>tr_worklist := fold (\<lambda>(l', t'). insort (t', l', diff)) ss (tr_worklist tr),
                tr_pushed_changes := cb_update (l, time) diff (tr_pushed_changes tr)\<rparr>) }"

text \<open>Draining all heap entries with the time and location just popped.\<close>

fun gather :: "'t \<Rightarrow> location \<Rightarrow> int \<Rightarrow> ('t \<times> location \<times> int) list \<Rightarrow> int \<times> ('t \<times> location \<times> int) list" where
  "gather time l diff [] = (diff, [])"
| "gather time l diff ((time', l', d) # w) =
     (if time' = time \<and> l' = l then gather time l (diff + d) w else (diff, (time', l', d) # w))"

definition propagate_step ::
  "('t \<Rightarrow> 't \<Rightarrow> bool) \<Rightarrow> ('s \<Rightarrow> 't \<Rightarrow> 't option) \<Rightarrow> 't::linorder \<Rightarrow> location \<Rightarrow> int
   \<Rightarrow> ('t, 's) tracker \<Rightarrow> ('t, 's) tracker option" where
  "propagate_step le ri time l diff tr =
     (if diff \<noteq> 0 then
        do { p \<leftarrow> tr_get tr l;
             let (changes, ma) = ma_update_iter le [(time, diff)] (pi_implications p);
             tr \<leftarrow> tr_set tr l (p\<lparr>pi_implications := ma\<rparr>);
             push_implications ri l changes tr }
      else Some tr)"

partial_function (option) propagate_loop ::
  "('t \<Rightarrow> 't \<Rightarrow> bool) \<Rightarrow> ('s \<Rightarrow> 't \<Rightarrow> 't option) \<Rightarrow> ('t::linorder, 's) tracker \<Rightarrow> ('t, 's) tracker option" where
  "propagate_loop le ri tr =
     (case tr_worklist tr of
        [] \<Rightarrow> Some tr
      | (time, l, d) # w \<Rightarrow>
          Option.bind (propagate_step le ri time l (fst (gather time l d w))
              (tr\<lparr>tr_worklist := snd (gather time l d w)\<rparr>))
            (propagate_loop le ri))"

declare propagate_loop.simps [code]

definition tracker_propagate_all ::
  "('t \<Rightarrow> 't \<Rightarrow> bool) \<Rightarrow> ('s \<Rightarrow> 't \<Rightarrow> 't option) \<Rightarrow> ('t::linorder, 's) tracker \<Rightarrow> ('t, 's) tracker option" where
  "tracker_propagate_all le ri tr =
     do { let (ts, tc) = cb_drain (tr_target_changes tr);
          tr \<leftarrow> absorb_changes le ri location_of_target ts (tr\<lparr>tr_target_changes := tc\<rparr>);
          let (ss, sc) = cb_drain (tr_source_changes tr);
          tr \<leftarrow> absorb_changes le ri location_of_source ss (tr\<lparr>tr_source_changes := sc\<rparr>);
          propagate_loop le ri tr }"

section \<open>Invariant\<close>

definition tr_locs :: "('t, 's) tracker \<Rightarrow> location set" where
  "tr_locs tr = {l. tr_get tr l \<noteq> None}"

definition tr_pts :: "('t, 's) tracker \<Rightarrow> location \<Rightarrow> 't mutable_antichain" where
  "tr_pts tr l = pi_pointstamps (the (tr_get tr l))"

definition tr_imp :: "('t, 's) tracker \<Rightarrow> location \<Rightarrow> 't mutable_antichain" where
  "tr_imp tr l = pi_implications (the (tr_get tr l))"

definition succs_at :: "('s \<Rightarrow> 't \<Rightarrow> 't option) \<Rightarrow> ('t, 's) tracker \<Rightarrow> location \<Rightarrow> 't \<Rightarrow> (location \<times> 't) list" where
  "succs_at ri tr l t = the (tracker_succs ri tr l t)"

text \<open>The pending difference in the worklist.\<close>

definition tr_work :: "('t \<times> location \<times> int) list \<Rightarrow> location \<times> 't \<Rightarrow> int" where
  "tr_work wl = upd_count (map (\<lambda>(t, l, d). ((l, t), d)) wl)"

text \<open>Every index the tracker uses is in range.\<close>

definition tr_wf :: "('s \<Rightarrow> 't \<Rightarrow> 't option) \<Rightarrow> ('t, 's) tracker \<Rightarrow> bool" where
  "tr_wf ri tr \<longleftrightarrow>
     (\<forall>l \<in> tr_locs tr.
        (\<forall>t. \<exists>ss. tracker_succs ri tr l t = Some ss \<and> fst ` set ss \<subseteq> tr_locs tr)
        \<and> (\<forall>(k, a) \<in> set (pc_iter_ports (pi_output_summaries (the (tr_get tr l)))). k < length (tr_output_changes tr)))
     \<and> (\<forall>x \<in> set (tr_worklist tr). fst (snd x) \<in> tr_locs tr)"

text \<open>
  Implications and worklist together always account for the pointstamp frontier of a location
  and for what the implication frontiers of its predecessors imply there.
\<close>

definition tr_balanced :: "('s \<Rightarrow> 't \<Rightarrow> 't option) \<Rightarrow> ('t, 's) tracker \<Rightarrow> bool" where
  "tr_balanced ri tr \<longleftrightarrow> (\<forall>l \<in> tr_locs tr. \<forall>t.
     ma_count (tr_imp tr l) t + tr_work (tr_worklist tr) (l, t)
     = of_bool (t \<in> set (ma_frontier (tr_pts tr l)))
       + (\<Sum>l' \<in> tr_locs tr. \<Sum>t' \<in> set (ma_frontier (tr_imp tr l')). int (count_list (succs_at ri tr l' t') (l, t))))"

definition tr_counted :: "('t, 's) tracker \<Rightarrow> bool" where
  "tr_counted tr \<longleftrightarrow> tr_total_counts tr = (\<Sum>l \<in> tr_locs tr. int (length (ma_frontier (tr_pts tr l))))"

text \<open>The buffered updates name existing ports.\<close>

definition tr_buffers_ok :: "('t::linorder, 's) tracker \<Rightarrow> bool" where
  "tr_buffers_ok tr \<longleftrightarrow> cb_inv (tr_target_changes tr) \<and> cb_inv (tr_source_changes tr)
     \<and> (\<forall>u \<in> set (cb_updates (tr_target_changes tr)). location_of_target (fst (fst u)) \<in> tr_locs tr)
     \<and> (\<forall>u \<in> set (cb_updates (tr_source_changes tr)). location_of_source (fst (fst u)) \<in> tr_locs tr)"

definition tr_inv :: "('t::linorder \<Rightarrow> 't \<Rightarrow> bool) \<Rightarrow> ('s \<Rightarrow> 't \<Rightarrow> 't option) \<Rightarrow> ('t, 's) tracker \<Rightarrow> bool" where
  "tr_inv le ri tr \<longleftrightarrow> tr_wf ri tr \<and> tr_balanced ri tr \<and> tr_counted tr
     \<and> (\<forall>l \<in> tr_locs tr. ma_inv le (tr_pts tr l) \<and> ma_inv le (tr_imp tr l))"

text \<open>What a frontier change at a time contributes to an output, one entry per update.\<close>

definition out_times ::
  "('s \<Rightarrow> 't \<Rightarrow> 't option) \<Rightarrow> (nat \<times> 's antichain) list \<Rightarrow> nat \<Rightarrow> 't \<Rightarrow> 't list" where
  "out_times ri ports output time =
     concat (map (\<lambda>(k, a). if k = output then List.map_filter (\<lambda>s. ri s time) (ac_elements a) else []) ports)"

text \<open>The pointstamp frontiers projected to an output.\<close>

definition tr_projection :: "('s \<Rightarrow> 't \<Rightarrow> 't option) \<Rightarrow> ('t, 's) tracker \<Rightarrow> nat \<Rightarrow> 't \<Rightarrow> int" where
  "tr_projection ri tr output t =
     (\<Sum>l \<in> tr_locs tr. \<Sum>t' \<in> set (ma_frontier (tr_pts tr l)).
        int (count_list (out_times ri (pc_iter_ports (pi_output_summaries (the (tr_get tr l)))) output t') t))"

text \<open>
  How propagation evolves a tracker: the graph stays, changes of the implication frontiers are
  exactly the pushed changes, changes of the projected frontiers exactly the output changes.
\<close>

definition tr_evolves ::
  "('s \<Rightarrow> 't \<Rightarrow> 't option) \<Rightarrow> ('t, 's) tracker \<Rightarrow> ('t, 's) tracker \<Rightarrow> bool" where
  "tr_evolves ri tr tr' \<longleftrightarrow> tr_nodes tr' = tr_nodes tr \<and> tr_edges tr' = tr_edges tr \<and> tr_locs tr' = tr_locs tr
     \<and> length (tr_output_changes tr') = length (tr_output_changes tr)
     \<and> (\<forall>l \<in> tr_locs tr. pi_output_summaries (the (tr_get tr' l)) = pi_output_summaries (the (tr_get tr l)))
     \<and> (\<forall>l \<in> tr_locs tr. \<forall>t. cb_count (tr_pushed_changes tr') (l, t) - of_bool (t \<in> set (ma_frontier (tr_imp tr' l)))
          = cb_count (tr_pushed_changes tr) (l, t) - of_bool (t \<in> set (ma_frontier (tr_imp tr l))))
     \<and> (\<forall>k < length (tr_output_changes tr). \<forall>t. cb_count (tr_output_changes tr' ! k) t - tr_projection ri tr' k t
          = cb_count (tr_output_changes tr ! k) t - tr_projection ri tr k t)"

section \<open>Reading and writing ports\<close>

lemma tr_get_simps [simp]:
  "tr_get (tr\<lparr>tr_target_changes := a\<rparr>) = tr_get tr" "tr_get (tr\<lparr>tr_source_changes := b\<rparr>) = tr_get tr"
  "tr_get (tr\<lparr>tr_worklist := c\<rparr>) = tr_get tr" "tr_get (tr\<lparr>tr_pushed_changes := d\<rparr>) = tr_get tr"
  "tr_get (tr\<lparr>tr_output_changes := e\<rparr>) = tr_get tr" "tr_get (tr\<lparr>tr_total_counts := f\<rparr>) = tr_get tr"
  by (simp_all add: tr_get_def fun_eq_iff)

lemma tr_locs_get: "tr_get tr = tr_get tr' \<Longrightarrow> tr_locs tr = tr_locs tr'"
  by (simp add: tr_locs_def)

lemma tr_set_get:
  assumes "tr_get tr l = Some p"
  shows "\<exists>ops. tr_set tr l q = Some (tr\<lparr>tr_per_operator := ops\<rparr>)
    \<and> (\<forall>l'. tr_get (tr\<lparr>tr_per_operator := ops\<rparr>) l' = (if l' = l then Some q else tr_get tr l'))"
proof -
  obtain n pt where l: "l = Location n pt" by (cases l)
  obtain po where n: "n < length (tr_per_operator tr)" and po: "po = tr_per_operator tr ! n"
    using assms by (auto simp: l tr_get_def bind_eq_Some_conv)
  show ?thesis
  proof (cases pt)
    case (PortTarget i)
    then have i: "i < length (po_targets po)" using assms n by (simp add: l tr_get_def po vec_get_def split: if_splits)
    let ?ops = "(tr_per_operator tr)[n := po\<lparr>po_targets := (po_targets po)[i := q]\<rparr>]"
    have "tr_set tr l q = Some (tr\<lparr>tr_per_operator := ?ops\<rparr>)"
      using n i by (simp add: l PortTarget tr_set_def vec_get_def vec_set_def po)
    moreover have "tr_get (tr\<lparr>tr_per_operator := ?ops\<rparr>) l' = (if l' = l then Some q else tr_get tr l')" for l'
      using n i po by (cases l'; cases "loc_port l'")
        (auto simp: l PortTarget tr_get_def vec_get_def nth_list_update)
    ultimately show ?thesis by blast
  next
    case (PortSource i)
    then have i: "i < length (po_sources po)" using assms n by (simp add: l tr_get_def po vec_get_def split: if_splits)
    let ?ops = "(tr_per_operator tr)[n := po\<lparr>po_sources := (po_sources po)[i := q]\<rparr>]"
    have "tr_set tr l q = Some (tr\<lparr>tr_per_operator := ?ops\<rparr>)"
      using n i by (simp add: l PortSource tr_set_def vec_get_def vec_set_def po)
    moreover have "tr_get (tr\<lparr>tr_per_operator := ?ops\<rparr>) l' = (if l' = l then Some q else tr_get tr l')" for l'
      using n i po by (cases l'; cases "loc_port l'")
        (auto simp: l PortSource tr_get_def vec_get_def nth_list_update)
    ultimately show ?thesis by blast
  qed
qed

lemma finite_tr_locs [simp]: "finite (tr_locs tr)"
proof -
  have "tr_locs tr \<subseteq> (\<Union>n < length (tr_per_operator tr).
      (\<lambda>i. Location n (PortTarget i)) ` {..<length (po_targets (tr_per_operator tr ! n))}
      \<union> (\<lambda>i. Location n (PortSource i)) ` {..<length (po_sources (tr_per_operator tr ! n))})"
  proof
    fix l assume "l \<in> tr_locs tr"
    then show "l \<in> (\<Union>n < length (tr_per_operator tr).
      (\<lambda>i. Location n (PortTarget i)) ` {..<length (po_targets (tr_per_operator tr ! n))}
      \<union> (\<lambda>i. Location n (PortSource i)) ` {..<length (po_sources (tr_per_operator tr ! n))})"
      by (cases l; cases "loc_port l")
        (auto simp: tr_locs_def tr_get_def vec_get_def bind_eq_Some_conv split: if_splits)
  qed
  then show ?thesis by (rule finite_subset) auto
qed

lemma succs_simps [simp]:
  "tracker_succs ri (tr\<lparr>tr_per_operator := z\<rparr>) = tracker_succs ri tr"
  "tracker_succs ri (tr\<lparr>tr_target_changes := a\<rparr>) = tracker_succs ri tr"
  "tracker_succs ri (tr\<lparr>tr_source_changes := b\<rparr>) = tracker_succs ri tr"
  "tracker_succs ri (tr\<lparr>tr_worklist := c\<rparr>) = tracker_succs ri tr"
  "tracker_succs ri (tr\<lparr>tr_pushed_changes := d\<rparr>) = tracker_succs ri tr"
  "tracker_succs ri (tr\<lparr>tr_output_changes := e\<rparr>) = tracker_succs ri tr"
  "tracker_succs ri (tr\<lparr>tr_total_counts := f\<rparr>) = tracker_succs ri tr"
  by (simp_all add: tracker_succs_def fun_eq_iff split: port.split)

lemma succs_cong:
  "tr_nodes tr' = tr_nodes tr \<Longrightarrow> tr_edges tr' = tr_edges tr \<Longrightarrow> tracker_succs ri tr' = tracker_succs ri tr"
  by (simp add: tracker_succs_def fun_eq_iff split: port.split)

section \<open>Worklist\<close>

lemma tr_work_insort [simp]:
  "tr_work (insort (t, l, d) wl) k = tr_work wl k + (if (l, t) = k then d else 0)"
proof -
  have "tr_work (insort (t, l, d) wl) k = tr_work ((t, l, d) # wl) k"
    unfolding tr_work_def by (rule upd_count_mset) simp
  then show ?thesis by (simp add: tr_work_def)
qed

lemma tr_work_fold_insort:
  "tr_work (fold (\<lambda>(l', t'). insort (t', l', d)) ss wl) k = tr_work wl k + d * int (count_list ss k)"
  by (induction ss arbitrary: wl) (auto simp: algebra_simps)

lemma set_fold_insort:
  "set (fold (\<lambda>(l', t'). insort (t', l', d)) ss wl) = (\<lambda>(l', t'). (t', l', d)) ` set ss \<union> set wl"
  by (induction ss arbitrary: wl) (auto simp: set_insort_key)

lemma gather_work:
  "gather t l d w = (diff, w') \<Longrightarrow>
   tr_work w' k = tr_work ((t, l, d) # w) k - (if (l, t) = k then diff else 0) \<and> set w' \<subseteq> set w"
  by (induction t l d w rule: gather.induct) (auto simp: tr_work_def split: if_splits)

section \<open>Frontier changes as sums\<close>

lemma frontier_change_sum:
  assumes "finite F" "finite F'" and "\<And>t. upd_count out t = of_bool (t \<in> F') - of_bool (t \<in> F)"
  shows "(\<Sum>(t, d) \<leftarrow> out. d * g t) = sum g F' - (sum g F :: int)"
proof -
  let ?A = "F \<union> F' \<union> fst ` set out"
  have fin: "finite ?A" using assms(1,2) by simp
  have "(\<Sum>(t, d) \<leftarrow> out. d * g t) = (\<Sum>t \<in> ?A. upd_count out t * g t)"
    by (rule sum_upd_count [OF fin]) auto
  also have "\<dots> = (\<Sum>t \<in> ?A. of_bool (t \<in> F') * g t) - (\<Sum>t \<in> ?A. of_bool (t \<in> F) * g t)"
    by (simp add: assms(3) left_diff_distrib sum_subtractf)
  also have "(\<Sum>t \<in> ?A. of_bool (t \<in> F') * g t) = sum g F'"
    using fin by (intro sum.mono_neutral_cong_right) auto
  also have "(\<Sum>t \<in> ?A. of_bool (t \<in> F) * g t) = sum g F"
    using fin by (intro sum.mono_neutral_cong_right) auto
  finally show ?thesis .
qed

lemma upd_count_as_sum: "upd_count us t = (\<Sum>(x, d) \<leftarrow> us. d * of_bool (x = t))"
  by (induction us) auto

lemma sum_fun_upd_loc:
  fixes f g :: "'l \<Rightarrow> int"
  assumes "finite A" "l \<in> A" "\<And>x. x \<in> A \<Longrightarrow> x \<noteq> l \<Longrightarrow> g x = f x"
  shows "sum g A = sum f A + (g l - f l)"
proof -
  have "sum g (A - {l}) = sum f (A - {l})" using assms(3) by (intro sum.cong) auto
  then show ?thesis using sum.remove [OF assms(1,2), of g] sum.remove [OF assms(1,2), of f] by simp
qed


section \<open>Effect of the helper loops\<close>

lemma fold_results_count:
  "cb_count (fold (\<lambda>s oc. case ri s time of None \<Rightarrow> oc | Some u \<Rightarrow> cb_update u d oc) ss oc) u
   = cb_count oc u + d * int (count_list (List.map_filter (\<lambda>s. ri s time) ss) u)"
  by (induction ss arbitrary: oc) (auto simp: map_filter_simps algebra_simps split: option.splits)

lemma push_outputs_ok:
  "\<forall>(k, a) \<in> set ports. k < length ocs \<Longrightarrow>
   \<exists>ocs'. push_outputs ri t d ports ocs = Some ocs' \<and> length ocs' = length ocs
     \<and> (\<forall>k < length ocs. \<forall>u. cb_count (ocs' ! k) u
          = cb_count (ocs ! k) u + d * int (count_list (out_times ri ports k t) u))"
proof (induction ports arbitrary: ocs)
  case Nil
  then show ?case by (simp add: out_times_def)
next
  case (Cons port ports)
  obtain k a where port: "port = (k, a)" by (cases port)
  define oc where "oc = fold (\<lambda>s oc. case ri s t of None \<Rightarrow> oc | Some u \<Rightarrow> cb_update u d oc) (ac_elements a) (ocs ! k)"
  have k: "k < length ocs" using Cons.prems port by auto
  have "\<forall>(j, a) \<in> set ports. j < length (ocs[k := oc])" using Cons.prems by auto
  from Cons.IH [OF this] obtain ocs' where o: "push_outputs ri t d ports (ocs[k := oc]) = Some ocs'"
    "length ocs' = length ocs" "\<And>j u. j < length ocs \<Longrightarrow> cb_count (ocs' ! j) u
      = cb_count (ocs[k := oc] ! j) u + d * int (count_list (out_times ri ports j t) u)" by auto
  have "cb_count (ocs[k := oc] ! j) u + d * int (count_list (out_times ri ports j t) u)
      = cb_count (ocs ! j) u + d * int (count_list (out_times ri (port # ports) j t) u)" if "j < length ocs" for j u
    using that k by (auto simp: port oc_def fold_results_count out_times_def nth_list_update algebra_simps)
  with o k show ?case by (simp add: port vec_get_def Let_def flip: oc_def)
qed

lemma note_changes_ok:
  "\<forall>(k, a) \<in> set ports. k < length (tr_output_changes tr) \<Longrightarrow>
   \<exists>ocs wl. note_changes ri l ports cs tr
       = Some (tr\<lparr>tr_total_counts := tr_total_counts tr + (\<Sum>(t, d) \<leftarrow> cs. d), tr_output_changes := ocs, tr_worklist := wl\<rparr>)
     \<and> length ocs = length (tr_output_changes tr)
     \<and> (\<forall>k < length ocs. \<forall>u. cb_count (ocs ! k) u = cb_count (tr_output_changes tr ! k) u
          + (\<Sum>(t, d) \<leftarrow> cs. d * int (count_list (out_times ri ports k t) u)))
     \<and> (\<forall>k. tr_work wl k = tr_work (tr_worklist tr) k + (if fst k = l then upd_count cs (snd k) else 0))
     \<and> (\<forall>x \<in> set wl. fst (snd x) = l \<or> x \<in> set (tr_worklist tr))"
proof (induction cs arbitrary: tr)
  case Nil
  show ?case
    by (rule exI [of _ "tr_output_changes tr"], rule exI [of _ "tr_worklist tr"]) auto
next
  case (Cons c cs)
  obtain t d where c: "c = (t, d)" by (cases c)
  from push_outputs_ok [OF Cons.prems, of ri t d] obtain ocs where
    o: "push_outputs ri t d ports (tr_output_changes tr) = Some ocs" "length ocs = length (tr_output_changes tr)"
    "\<And>k u. k < length ocs \<Longrightarrow> cb_count (ocs ! k) u
      = cb_count (tr_output_changes tr ! k) u + d * int (count_list (out_times ri ports k t) u)" by auto
  let ?tr = "tr\<lparr>tr_total_counts := tr_total_counts tr + d, tr_output_changes := ocs,
      tr_worklist := insort (t, l, d) (tr_worklist tr)\<rparr>"
  from Cons.IH [of ?tr] Cons.prems o(2) obtain ocs' wl where
    n: "note_changes ri l ports cs ?tr = Some (?tr\<lparr>tr_total_counts := tr_total_counts ?tr + (\<Sum>(t, d) \<leftarrow> cs. d),
        tr_output_changes := ocs', tr_worklist := wl\<rparr>)" "length ocs' = length ocs"
    "\<And>k u. k < length ocs' \<Longrightarrow> cb_count (ocs' ! k) u = cb_count (ocs ! k) u
          + (\<Sum>(t, d) \<leftarrow> cs. d * int (count_list (out_times ri ports k t) u))"
    "\<And>k. tr_work wl k = tr_work (insort (t, l, d) (tr_worklist tr)) k + (if fst k = l then upd_count cs (snd k) else 0)"
    "\<forall>x \<in> set wl. fst (snd x) = l \<or> x \<in> set (insort (t, l, d) (tr_worklist tr))"
    by auto
  show ?case
    by (rule exI [of _ ocs'], rule exI [of _ wl]) (use n o in \<open>auto simp: c algebra_simps set_insort_key\<close>)
qed

lemma push_implications_ok:
  assumes "\<And>t. tracker_succs ri tr l t = Some (S t)"
  shows "\<exists>wl pc. push_implications ri l cs tr = Some (tr\<lparr>tr_worklist := wl, tr_pushed_changes := pc\<rparr>)
     \<and> (\<forall>k. tr_work wl k = tr_work (tr_worklist tr) k + (\<Sum>(t, d) \<leftarrow> cs. d * int (count_list (S t) k)))
     \<and> (\<forall>k. cb_count pc k = cb_count (tr_pushed_changes tr) k + (if fst k = l then upd_count cs (snd k) else 0))
     \<and> mset (map (\<lambda>(t, l, d). (l, t)) wl)
         = mset (map (\<lambda>(t, l, d). (l, t)) (tr_worklist tr)) + mset (concat (map (\<lambda>(t, d). S t) cs))"
  using assms
proof (induction cs arbitrary: tr)
  case Nil
  show ?case by (rule exI [of _ "tr_worklist tr"], rule exI [of _ "tr_pushed_changes tr"]) simp
next
  case (Cons c cs)
  obtain t d where c: "c = (t, d)" by (cases c)
  let ?wl = "fold (\<lambda>(l', t'). insort (t', l', d)) (S t) (tr_worklist tr)"
  let ?tr = "tr\<lparr>tr_worklist := ?wl, tr_pushed_changes := cb_update (l, t) d (tr_pushed_changes tr)\<rparr>"
  have "\<And>t. tracker_succs ri ?tr l t = Some (S t)" using Cons.prems by simp
  from Cons.IH [OF this] obtain wl pc where n: "push_implications ri l cs ?tr
      = Some (?tr\<lparr>tr_worklist := wl, tr_pushed_changes := pc\<rparr>)"
    "\<And>k. tr_work wl k = tr_work ?wl k + (\<Sum>(t, d) \<leftarrow> cs. d * int (count_list (S t) k))"
    "\<And>k. cb_count pc k = cb_count (cb_update (l, t) d (tr_pushed_changes tr)) k
        + (if fst k = l then upd_count cs (snd k) else 0)"
    "mset (map (\<lambda>(t, l, d). (l, t)) wl)
         = mset (map (\<lambda>(t, l, d). (l, t)) ?wl) + mset (concat (map (\<lambda>(t, d). S t) cs))"
    by auto
  have ins: "image_mset (\<lambda>(t, l, d). (l, t)) (mset (fold (\<lambda>(l', t'). insort (t', l', d)) ss w))
      = image_mset (\<lambda>(t, l, d). (l, t)) (mset w) + mset ss" for ss and w :: "('a \<times> location \<times> int) list"
    by (induction ss arbitrary: w) auto
  show ?case
    by (rule exI [of _ wl], rule exI [of _ pc])
      (use n in \<open>auto simp: c Cons.prems tr_work_fold_insort algebra_simps ins\<close>)
qed

end
