(* ===== verification/Reach_Propagate.thy ===== *)
theory Reach_Propagate
  imports Reach_Tracker
begin

text \<open>
  \<^verbatim>\<open>timely/src/progress/reachability.rs\<close>, third part: \<open>propagate_all\<close> is
  correct.  Every phase keeps the invariant \<open>tr_inv\<close>; when the worklist is empty the
  implication frontiers are the reachable times; and the worklist does become empty.
\<close>

section \<open>Both phases keep the invariant\<close>

lemma tr_wf_succs:
  "tr_wf ri tr \<Longrightarrow> l \<in> tr_locs tr \<Longrightarrow>
   tracker_succs ri tr l t = Some (succs_at ri tr l t) \<and> fst ` set (succs_at ri tr l t) \<subseteq> tr_locs tr"
proof -
  assume "tr_wf ri tr" and "l \<in> tr_locs tr"
  then obtain ss where "tracker_succs ri tr l t = Some ss" "fst ` set ss \<subseteq> tr_locs tr"
    unfolding tr_wf_def by blast
  then show ?thesis by (simp add: succs_at_def)
qed

lemma tr_wf_ports:
  "tr_wf ri tr \<Longrightarrow> l \<in> tr_locs tr \<Longrightarrow>
   \<forall>(k, a) \<in> set (pc_iter_ports (pi_output_summaries (the (tr_get tr l)))). k < length (tr_output_changes tr)"
  unfolding tr_wf_def by blast

lemma tr_wf_worklist: "tr_wf ri tr \<Longrightarrow> x \<in> set (tr_worklist tr) \<Longrightarrow> fst (snd x) \<in> tr_locs tr"
  unfolding tr_wf_def by blast

lemma gather_subset: "gather t l d w = (diff, w') \<Longrightarrow> set w' \<subseteq> set w"
  using gather_work [of t l d w diff w'] by blast

lemma tr_wf_cong:
  assumes "tr_wf ri tr" "tr_locs tr' = tr_locs tr" "tracker_succs ri tr' = tracker_succs ri tr"
    "\<And>l. l \<in> tr_locs tr \<Longrightarrow> pi_output_summaries (the (tr_get tr' l)) = pi_output_summaries (the (tr_get tr l))"
    "length (tr_output_changes tr') = length (tr_output_changes tr)"
    "\<forall>x \<in> set (tr_worklist tr'). fst (snd x) \<in> tr_locs tr"
  shows "tr_wf ri tr'"
  using assms unfolding tr_wf_def by simp

lemma tr_evolves_refl: "tr_evolves ri tr tr"
  by (simp add: tr_evolves_def)

lemma tr_evolves_trans: "tr_evolves ri tr tr' \<Longrightarrow> tr_evolves ri tr' tr'' \<Longrightarrow> tr_evolves ri tr tr''"
  unfolding tr_evolves_def by simp

text \<open>
  A step changes the pointstamps or the implications of one location and leaves the graph as it is.  What it
  does to the counts of the invariant is a matter of the changes \<open>out\<close> of that frontier.
\<close>

definition same_graph :: "('s \<Rightarrow> 't \<Rightarrow> 't option) \<Rightarrow> ('t, 's) tracker \<Rightarrow> ('t, 's) tracker \<Rightarrow> bool" where
  "same_graph ri tr tr' \<longleftrightarrow> tr_locs tr' = tr_locs tr \<and> tracker_succs ri tr' = tracker_succs ri tr
     \<and> (\<forall>l. pi_output_summaries (the (tr_get tr' l)) = pi_output_summaries (the (tr_get tr l)))"

definition frontier_step :: "('t \<times> int) list \<Rightarrow> 't mutable_antichain \<Rightarrow> 't mutable_antichain \<Rightarrow> bool" where
  "frontier_step out m m' \<longleftrightarrow> (\<forall>t. upd_count out t = of_bool (t \<in> set (ma_frontier m')) - of_bool (t \<in> set (ma_frontier m)))"

lemma frontier_step_sum:
  "frontier_step out m m' \<Longrightarrow> (\<Sum>(t, d) \<leftarrow> out. d * g t) = sum g (set (ma_frontier m')) - sum g (set (ma_frontier m))"
  by (rule frontier_change_sum) (simp_all add: frontier_step_def)

lemma pts_step_balanced:
  assumes g: "same_graph ri tr tr'" and bal: "tr_balanced ri tr" and imp: "tr_imp tr' = tr_imp tr"
    and pts: "\<And>l'. tr_pts tr' l' = (if l' = l then ma else tr_pts tr l')" and st: "frontier_step out (tr_pts tr l) ma"
    and w: "\<And>k. tr_work (tr_worklist tr') k = tr_work (tr_worklist tr) k + (if fst k = l then upd_count out (snd k) else 0)"
  shows "tr_balanced ri tr'"
proof -
  have s: "succs_at ri tr' = succs_at ri tr" and locs: "tr_locs tr' = tr_locs tr"
    using g by (simp_all add: same_graph_def succs_at_def fun_eq_iff)
  have "ma_count (tr_imp tr l') t + tr_work (tr_worklist tr') (l', t)
      = of_bool (t \<in> set (ma_frontier (tr_pts tr' l'))) + (\<Sum>k \<in> tr_locs tr. \<Sum>u \<in> set (ma_frontier (tr_imp tr k)).
          int (count_list (succs_at ri tr k u) (l', t)))" if "l' \<in> tr_locs tr" for l' t
  proof -
    have "ma_count (tr_imp tr l') t + tr_work (tr_worklist tr) (l', t)
      = of_bool (t \<in> set (ma_frontier (tr_pts tr l'))) + (\<Sum>k \<in> tr_locs tr. \<Sum>u \<in> set (ma_frontier (tr_imp tr k)).
          int (count_list (succs_at ri tr k u) (l', t)))" using bal that unfolding tr_balanced_def by blast
    then show ?thesis using w [of "(l', t)"] st by (cases "l' = l") (simp_all add: pts frontier_step_def)
  qed
  then show ?thesis unfolding tr_balanced_def locs imp s by blast
qed

lemma pts_step_counted:
  assumes "tr_locs tr' = tr_locs tr" and "tr_counted tr" and "l \<in> tr_locs tr"
    and pts: "\<And>l'. tr_pts tr' l' = (if l' = l then ma else tr_pts tr l')" and st: "frontier_step out (tr_pts tr l) ma"
    and dist: "distinct (ma_frontier ma)" "distinct (ma_frontier (tr_pts tr l))"
    and total: "tr_total_counts tr' = tr_total_counts tr + (\<Sum>(t, d) \<leftarrow> out. d)"
  shows "tr_counted tr'"
proof -
  have "(\<Sum>(t, d) \<leftarrow> out. d) = int (length (ma_frontier ma)) - int (length (ma_frontier (tr_pts tr l)))"
    using frontier_step_sum [OF st, of "\<lambda>_. 1"] by (simp add: distinct_card [OF dist(1)] distinct_card [OF dist(2)])
  moreover have "(\<Sum>l' \<in> tr_locs tr. int (length (ma_frontier (tr_pts tr' l'))))
      = (\<Sum>l' \<in> tr_locs tr. int (length (ma_frontier (tr_pts tr l'))))
        + (int (length (ma_frontier (tr_pts tr' l))) - int (length (ma_frontier (tr_pts tr l))))"
    by (rule sum_fun_upd_loc) (simp_all add: assms(3) pts)
  ultimately show ?thesis using assms(2) by (simp add: tr_counted_def assms(1) pts total)
qed

lemma pts_step_projection:
  assumes g: "same_graph ri tr tr'" and l: "l \<in> tr_locs tr"
    and pts: "\<And>l'. tr_pts tr' l' = (if l' = l then ma else tr_pts tr l')" and st: "frontier_step out (tr_pts tr l) ma"
  shows "tr_projection ri tr' k u = tr_projection ri tr k u
    + (\<Sum>(t, d) \<leftarrow> out. d * int (count_list (out_times ri (pc_iter_ports (pi_output_summaries (the (tr_get tr l)))) k t) u))"
proof -
  define G :: "'b mutable_antichain \<Rightarrow> location \<Rightarrow> int" where "G m l' = (\<Sum>t \<in> set (ma_frontier m). int (count_list
      (out_times ri (pc_iter_ports (pi_output_summaries (the (tr_get tr l')))) k t) u))" for m l'
  have locs: "tr_locs tr' = tr_locs tr" and sums: "pi_output_summaries (the (tr_get tr' l')) = pi_output_summaries (the (tr_get tr l'))" for l'
    using g by (simp_all add: same_graph_def)
  have "(\<Sum>l' \<in> tr_locs tr. G (tr_pts tr' l') l')
      = (\<Sum>l' \<in> tr_locs tr. G (tr_pts tr l') l') + (G (tr_pts tr' l) l - G (tr_pts tr l) l)"
    by (rule sum_fun_upd_loc [OF finite_tr_locs l]) (simp add: pts)
  then show ?thesis unfolding tr_projection_def locs sums frontier_step_sum [OF st] by (simp add: G_def pts)
qed

lemma imp_step_balanced:
  assumes g: "same_graph ri tr tr'" and bal: "tr_balanced ri tr" and l: "l \<in> tr_locs tr" and pts: "tr_pts tr' = tr_pts tr"
    and imp: "\<And>l'. tr_imp tr' l' = (if l' = l then ma else tr_imp tr l')" and st: "frontier_step out (tr_imp tr l) ma"
    and c: "\<And>t. ma_count ma t = ma_count (tr_imp tr l) t + (if t = time then diff else 0)"
    and w: "\<And>k. tr_work (tr_worklist tr') k = tr_work (tr_worklist tr) k - (if k = (l, time) then diff else 0)
        + (\<Sum>(t, d) \<leftarrow> out. d * int (count_list (succs_at ri tr l t) k))"
  shows "tr_balanced ri tr'"
proof -
  have s: "succs_at ri tr' = succs_at ri tr" and locs: "tr_locs tr' = tr_locs tr"
    using g by (simp_all add: same_graph_def succs_at_def fun_eq_iff)
  have "ma_count (tr_imp tr' l') t + tr_work (tr_worklist tr') (l', t)
      = of_bool (t \<in> set (ma_frontier (tr_pts tr l'))) + (\<Sum>k \<in> tr_locs tr. \<Sum>u \<in> set (ma_frontier (tr_imp tr' k)).
          int (count_list (succs_at ri tr k u) (l', t)))" if "l' \<in> tr_locs tr" for l' t
  proof -
    define g where "g k u = int (count_list (succs_at ri tr k u) (l', t))" for k u
    have "ma_count (tr_imp tr l') t + tr_work (tr_worklist tr) (l', t)
      = of_bool (t \<in> set (ma_frontier (tr_pts tr l'))) + (\<Sum>k \<in> tr_locs tr. \<Sum>u \<in> set (ma_frontier (tr_imp tr k)). g k u)"
      using bal that unfolding tr_balanced_def g_def by blast
    moreover have "(\<Sum>k \<in> tr_locs tr. sum (g k) (set (ma_frontier (tr_imp tr' k))))
        = (\<Sum>k \<in> tr_locs tr. sum (g k) (set (ma_frontier (tr_imp tr k))))
          + (sum (g l) (set (ma_frontier (tr_imp tr' l))) - sum (g l) (set (ma_frontier (tr_imp tr l))))"
      by (rule sum_fun_upd_loc [OF finite_tr_locs l]) (simp add: imp)
    ultimately show ?thesis using w [of "(l', t)"] frontier_step_sum [OF st, of "g l"] c [of t] unfolding g_def by (auto simp: imp)
  qed
  then show ?thesis unfolding tr_balanced_def locs pts s by blast
qed

context timestamp_order
begin

lemma absorb_port_ok:
  assumes inv: "tr_inv le ri tr" and l: "l \<in> tr_locs tr"
  shows "\<exists>tr'. absorb_port le ri l us tr = Some tr' \<and> tr_inv le ri tr' \<and> tr_evolves ri tr tr'
    \<and> tr_target_changes tr' = tr_target_changes tr \<and> tr_source_changes tr' = tr_source_changes tr
    \<and> (\<forall>l' \<in> tr_locs tr. \<forall>t. ma_count (tr_pts tr' l') t = ma_count (tr_pts tr l') t + (if l' = l then upd_count us t else 0))"
proof -
  obtain p where p: "tr_get tr l = Some p" using l by (auto simp: tr_locs_def)
  obtain out ma where up: "ma_update_iter le us (pi_pointstamps p) = (out, ma)"
    by (cases "ma_update_iter le us (pi_pointstamps p)")
  have mi: "ma_inv le (pi_pointstamps p)" using inv l p by (auto simp: tr_inv_def tr_pts_def)
  note st = update_iter_state [OF mi up]
  define q where "q = p\<lparr>pi_pointstamps := ma\<rparr>"
  let ?ports = "pc_iter_ports (pi_output_summaries p)"
  from tr_set_get [OF p, of q] obtain ops where
    s: "tr_set tr l q = Some (tr\<lparr>tr_per_operator := ops\<rparr>)"
    and g: "\<And>l'. tr_get (tr\<lparr>tr_per_operator := ops\<rparr>) l' = (if l' = l then Some q else tr_get tr l')" by blast
  have "\<forall>(k, a) \<in> set ?ports. k < length (tr_output_changes (tr\<lparr>tr_per_operator := ops\<rparr>))"
    using tr_wf_ports [of ri tr l] inv l p by (simp add: tr_inv_def)
  from note_changes_ok [OF this, of ri l out] obtain ocs wl where
    n: "note_changes ri l ?ports out (tr\<lparr>tr_per_operator := ops\<rparr>) = Some (tr\<lparr>tr_per_operator := ops,
        tr_total_counts := tr_total_counts tr + (\<Sum>(t, d) \<leftarrow> out. d), tr_output_changes := ocs, tr_worklist := wl\<rparr>)"
    and oc: "length ocs = length (tr_output_changes tr)"
      "\<And>k u. k < length ocs \<Longrightarrow> cb_count (ocs ! k) u = cb_count (tr_output_changes tr ! k) u
          + (\<Sum>(t, d) \<leftarrow> out. d * int (count_list (out_times ri ?ports k t) u))"
    and w: "\<And>k. tr_work wl k = tr_work (tr_worklist tr) k + (if fst k = l then upd_count out (snd k) else 0)"
      "\<forall>x \<in> set wl. fst (snd x) = l \<or> x \<in> set (tr_worklist tr)" by auto
  define tr' where "tr' = tr\<lparr>tr_per_operator := ops,
        tr_total_counts := tr_total_counts tr + (\<Sum>(t, d) \<leftarrow> out. d), tr_output_changes := ocs, tr_worklist := wl\<rparr>"
  have run: "absorb_port le ri l us tr = Some tr'"
    by (simp add: absorb_port_def p up s n tr'_def flip: q_def)
  have get: "tr_get tr' l' = (if l' = l then Some q else tr_get tr l')" for l'
    using g by (simp add: tr'_def)
  have locs: "tr_locs tr' = tr_locs tr" using l by (auto simp: tr_locs_def get)
  have succs: "tracker_succs ri tr' = tracker_succs ri tr" by (simp add: tr'_def)
  have imp: "tr_imp tr' = tr_imp tr" by (auto simp: fun_eq_iff tr_imp_def get q_def p)
  have pts: "tr_pts tr' l' = (if l' = l then ma else tr_pts tr l')" for l' by (simp add: tr_pts_def get q_def)
  have ptl: "tr_pts tr l = pi_pointstamps p" by (simp add: tr_pts_def p)
  have sums: "pi_output_summaries (the (tr_get tr' l')) = pi_output_summaries (the (tr_get tr l'))" for l'
    by (simp add: get q_def p)
  have wf0: "tr_wf ri tr" using inv by (simp add: tr_inv_def)
  have old: "\<forall>x \<in> set (tr_worklist tr). fst (snd x) \<in> tr_locs tr"
    using wf0 unfolding tr_wf_def by (rule conjunct2)
  have "\<forall>x \<in> set wl. fst (snd x) \<in> tr_locs tr" using w(2) old l by auto
  then have wf: "tr_wf ri tr'"
    by (intro tr_wf_cong [OF wf0 locs succs sums]) (simp_all add: tr'_def oc(1))
  have sg: "same_graph ri tr tr'" by (simp add: same_graph_def locs succs sums)
  have fs: "frontier_step out (tr_pts tr l) ma" by (simp add: frontier_step_def st(3) ptl)
  have "tr_balanced ri tr'"
    by (rule pts_step_balanced [OF sg _ imp pts fs]) (use inv w(1) in \<open>simp_all add: tr_inv_def tr'_def\<close>)
  moreover have "tr_counted tr'"
    by (rule pts_step_counted [OF locs _ l pts fs]) (use inv st(1) mi in \<open>simp_all add: tr_inv_def ma_inv_def ptl tr'_def\<close>)
  moreover have "\<forall>l' \<in> tr_locs tr'. ma_inv le (tr_pts tr' l') \<and> ma_inv le (tr_imp tr' l')"
    using inv st(1) by (simp add: tr_inv_def locs pts imp)
  moreover have "tr_evolves ri tr tr'"
    using pts_step_projection [OF sg l pts fs] oc by (simp add: tr_evolves_def locs sums imp p) (simp add: tr'_def)
  ultimately show ?thesis using run wf st(2)
    by (auto simp: tr_inv_def pts ptl) (auto simp: tr'_def)
qed

text \<open>The drained updates of a phase, as differences at locations.\<close>

lemma absorb_segment_count:
  "upd_count (map (\<lambda>((k, t), d). ((loc_of k, t), d)) (takeWhile (\<lambda>v. fst (fst v) = k) us)) (l, t)
   = (if l = loc_of k then upd_count (map (\<lambda>v. (snd (fst v), snd v)) (takeWhile (\<lambda>v. fst (fst v) = k) us)) t else 0)"
  by (induction us) auto

lemma absorb_changes_ok:
  assumes "tr_inv le ri tr" and "\<forall>u \<in> set us. loc_of (fst (fst u)) \<in> tr_locs tr"
  shows "\<exists>tr'. absorb_changes le ri loc_of us tr = Some tr' \<and> tr_inv le ri tr' \<and> tr_evolves ri tr tr'
    \<and> tr_target_changes tr' = tr_target_changes tr \<and> tr_source_changes tr' = tr_source_changes tr
    \<and> (\<forall>l \<in> tr_locs tr. \<forall>t. ma_count (tr_pts tr' l) t
        = ma_count (tr_pts tr l) t + upd_count (map (\<lambda>((k, t), d). ((loc_of k, t), d)) us) (l, t))"
  using assms
proof (induction "length us" arbitrary: us tr rule: less_induct)
  case less
  show ?case
  proof (cases us)
    case Nil
    with less.prems show ?thesis by (simp add: tr_evolves_refl)
  next
    case (Cons u vs)
    define k where "k = fst (fst u)"
    define same where "same = (\<lambda>v :: ('b \<times> 't) \<times> int. fst (fst v) = k)"
    define seg where "seg = takeWhile same us"
    define rest where "rest = dropWhile same vs"
    have us: "us = seg @ rest" by (simp add: Cons seg_def rest_def same_def k_def)
    have k: "loc_of k \<in> tr_locs tr" using less.prems(2) by (simp add: Cons k_def)
    from absorb_port_ok [OF less.prems(1) k, of "map (\<lambda>v. (snd (fst v), snd v)) seg"] obtain tr1 where
      p: "absorb_port le ri (loc_of k) (map (\<lambda>v. (snd (fst v), snd v)) seg) tr = Some tr1" "tr_inv le ri tr1"
      "tr_evolves ri tr tr1" "tr_target_changes tr1 = tr_target_changes tr" "tr_source_changes tr1 = tr_source_changes tr"
      "\<And>l t. l \<in> tr_locs tr \<Longrightarrow> ma_count (tr_pts tr1 l) t = ma_count (tr_pts tr l) t
        + (if l = loc_of k then upd_count (map (\<lambda>v. (snd (fst v), snd v)) seg) t else 0)" by blast
    have locs: "tr_locs tr1 = tr_locs tr" using p(3) by (simp add: tr_evolves_def)
    have "length rest < length us" using length_dropWhile_le [of same vs] by (simp add: Cons rest_def)
    moreover have "\<forall>u \<in> set rest. loc_of (fst (fst u)) \<in> tr_locs tr1" using less.prems(2) by (simp add: us locs)
    ultimately obtain tr2 where r: "absorb_changes le ri loc_of rest tr1 = Some tr2" "tr_inv le ri tr2"
      "tr_evolves ri tr1 tr2" "tr_target_changes tr2 = tr_target_changes tr" "tr_source_changes tr2 = tr_source_changes tr"
      "\<And>l t. l \<in> tr_locs tr \<Longrightarrow> ma_count (tr_pts tr2 l) t
        = ma_count (tr_pts tr1 l) t + upd_count (map (\<lambda>((k, t), d). ((loc_of k, t), d)) rest) (l, t)"
      using less.hyps [of rest tr1] p(2,4,5) unfolding locs by auto
    have "absorb_changes le ri loc_of us tr = Some tr2"
      using p(1) r(1) by (simp add: Cons seg_def rest_def same_def k_def)
    moreover have seg_c: "upd_count (map (\<lambda>((k, t), d). ((loc_of k, t), d)) seg) (l, t)
        = (if l = loc_of k then upd_count (map (\<lambda>v. (snd (fst v), snd v)) seg) t else 0)" for l t
      unfolding seg_def same_def by (rule absorb_segment_count)
    moreover have "upd_count (map (\<lambda>((k, t), d). ((loc_of k, t), d)) us) (l, t)
        = (if l = loc_of k then upd_count (map (\<lambda>v. (snd (fst v), snd v)) seg) t else 0)
          + upd_count (map (\<lambda>((k, t), d). ((loc_of k, t), d)) rest) (l, t)" for l t
      unfolding us map_append upd_count_append seg_c ..
    ultimately show ?thesis using r p(6) tr_evolves_trans [OF p(3) r(3)]
      by (intro exI [of _ tr2]) simp
  qed
qed

text \<open>A single update only moves frontier elements at or after its time.\<close>

lemma single_update_changes:
  assumes inv: "ma_inv le m" and up: "ma_update_iter le [(t0, d)] m = (out, m')" and c: "c \<in> set out"
  shows "le t0 (fst c)"
proof (rule ccontr)
  assume n: "\<not> le t0 (fst c)"
  note st = update_iter_state [OF inv up]
  have "upd_count out (fst c) \<noteq> 0"
    using upd_count_distinct [OF st(4), of "fst c" "snd c"] c st(5) by (simp add: upd_nonzero_def)
  then have "fst c \<in> set (ma_frontier m') \<longleftrightarrow> fst c \<notin> set (ma_frontier m)" by (auto simp: st(3))
  moreover have "ma_count m' y = ma_count m y" if "le y (fst c)" for y
    using n that by (auto simp: st(2))
  then have "fst c \<in> minimals le {t. ma_count m' t > 0} \<longleftrightarrow> fst c \<in> minimals le {t. ma_count m t > 0}"
    using le_refl by (auto simp: minimals_def)
  ultimately show False using inv st(1) by (simp add: ma_inv_def)
qed

lemma propagate_step_ok:
  assumes inv: "tr_inv le ri tr" and wl: "tr_worklist tr = (time, l, d) # w" and ga: "gather time l d w = (diff, w')"
    and nz: "diff \<noteq> 0"
  shows "\<exists>tr' (out :: ('t \<times> int) list). propagate_step le ri time l diff (tr\<lparr>tr_worklist := w'\<rparr>) = Some tr' \<and> tr_inv le ri tr'
    \<and> tr_evolves ri tr tr' \<and> tr_pts tr' = tr_pts tr
    \<and> tr_target_changes tr' = tr_target_changes tr \<and> tr_source_changes tr' = tr_source_changes tr
    \<and> (\<forall>c \<in> set out. le time (fst c))
    \<and> mset (map (\<lambda>(t, l, d). (l, t)) (tr_worklist tr'))
        = mset (map (\<lambda>(t, l, d). (l, t)) w') + mset (concat (map (\<lambda>(t, d). succs_at ri tr l t) out))"
proof -
  have wf0: "tr_wf ri tr" and bal0: "tr_balanced ri tr" using inv by (simp_all add: tr_inv_def)
  have l: "l \<in> tr_locs tr" using wf0 wl by (simp add: tr_wf_def)
  then obtain p where p: "tr_get tr l = Some p" by (auto simp: tr_locs_def)
  obtain out ma where up: "ma_update_iter le [(time, diff)] (pi_implications p) = (out, ma)"
    by (cases "ma_update_iter le [(time, diff)] (pi_implications p)")
  have mi: "ma_inv le (pi_implications p)" using inv l p by (auto simp: tr_inv_def tr_imp_def)
  note st = update_iter_state [OF mi up]
  define q where "q = p\<lparr>pi_implications := ma\<rparr>"
  have p': "tr_get (tr\<lparr>tr_worklist := w'\<rparr>) l = Some p" using p by simp
  from tr_set_get [OF p', of q] obtain ops where
    s: "tr_set (tr\<lparr>tr_worklist := w'\<rparr>) l q = Some (tr\<lparr>tr_worklist := w', tr_per_operator := ops\<rparr>)"
    and g: "\<And>l'. tr_get (tr\<lparr>tr_worklist := w', tr_per_operator := ops\<rparr>) l' = (if l' = l then Some q else tr_get tr l')"
    by auto
  have succ: "tracker_succs ri (tr\<lparr>tr_worklist := w', tr_per_operator := ops\<rparr>) l t = Some (succs_at ri tr l t)" for t
    using tr_wf_succs [OF wf0 l] by simp
  from push_implications_ok [OF succ, of out] obtain wl' pc where
    n: "push_implications ri l out (tr\<lparr>tr_worklist := w', tr_per_operator := ops\<rparr>)
      = Some (tr\<lparr>tr_per_operator := ops, tr_worklist := wl', tr_pushed_changes := pc\<rparr>)"
    and w: "\<And>k. tr_work wl' k = tr_work w' k + (\<Sum>(t, d) \<leftarrow> out. d * int (count_list (succs_at ri tr l t) k))"
    and pc: "\<And>k. cb_count pc k = cb_count (tr_pushed_changes tr) k + (if fst k = l then upd_count out (snd k) else 0)"
    and ms: "mset (map (\<lambda>(t, l, d). (l, t)) wl')
         = mset (map (\<lambda>(t, l, d). (l, t)) w') + mset (concat (map (\<lambda>(t, d). succs_at ri tr l t) out))"
    by auto
  define tr' where "tr' = tr\<lparr>tr_per_operator := ops, tr_worklist := wl', tr_pushed_changes := pc\<rparr>"
  have run: "propagate_step le ri time l diff (tr\<lparr>tr_worklist := w'\<rparr>) = Some tr'"
    using s n nz by (simp add: propagate_step_def p up tr'_def flip: q_def)
  have get: "tr_get tr' l' = (if l' = l then Some q else tr_get tr l')" for l'
    using g [of l'] by (simp add: tr'_def tr_get_def)
  have locs: "tr_locs tr' = tr_locs tr" using l by (auto simp: tr_locs_def get)
  have succs: "tracker_succs ri tr' = tracker_succs ri tr" by (simp add: tr'_def)
  have pts: "tr_pts tr' = tr_pts tr" by (auto simp: fun_eq_iff tr_pts_def get q_def p)
  have imp: "tr_imp tr' l' = (if l' = l then ma else tr_imp tr l')" for l' by (simp add: tr_imp_def get q_def)
  have iml: "tr_imp tr l = pi_implications p" by (simp add: tr_imp_def p)
  have sums: "pi_output_summaries (the (tr_get tr' l')) = pi_output_summaries (the (tr_get tr l'))" for l'
    by (simp add: get q_def p)
  have fld: "tr_worklist tr' = wl'" "tr_pushed_changes tr' = pc" "tr_output_changes tr' = tr_output_changes tr"
    "tr_total_counts tr' = tr_total_counts tr" "tr_nodes tr' = tr_nodes tr" "tr_edges tr' = tr_edges tr"
    "tr_target_changes tr' = tr_target_changes tr" "tr_source_changes tr' = tr_source_changes tr"
    by (simp_all add: tr'_def)
  have "\<forall>x \<in> set wl'. fst (snd x) \<in> tr_locs tr"
  proof
    fix x assume "x \<in> set wl'"
    then have "(\<lambda>(t, l, d). (l, t)) x \<in> set_mset (mset (map (\<lambda>(t, l, d). (l, t)) wl'))" by simp
    then have "(fst (snd x), fst x) \<in> set_mset (mset (map (\<lambda>(t, l, d). (l, t)) w')
        + mset (concat (map (\<lambda>(t, d). succs_at ri tr l t) out)))" unfolding ms by (simp add: split_beta)
    then consider y where "y \<in> set w'" "fst (snd y) = fst (snd x)" | t where "(fst (snd x), fst x) \<in> set (succs_at ri tr l t)"
      by (auto simp: split_beta)
    then show "fst (snd x) \<in> tr_locs tr"
    proof cases
      case 1
      then show ?thesis using gather_subset [OF ga] tr_wf_worklist [OF wf0, of y] wl by auto
    next
      case 2
      then show ?thesis using tr_wf_succs [OF wf0 l, of t] by force
    qed
  qed
  then have wf: "tr_wf ri tr'"
    by (intro tr_wf_cong [OF wf0 locs succs sums]) (simp_all add: fld)
  have sg: "same_graph ri tr tr'" by (simp add: same_graph_def locs succs sums)
  have "tr_balanced ri tr'"
  proof (rule imp_step_balanced [OF sg bal0 l pts imp])
    show "frontier_step out (tr_imp tr l) ma" by (simp add: frontier_step_def st(3) iml)
    show "tr_work (tr_worklist tr') k = tr_work (tr_worklist tr) k - (if k = (l, time) then diff else 0)
        + (\<Sum>(t, d) \<leftarrow> out. d * int (count_list (succs_at ri tr l t) k))" for k
      using w [of k] gather_work [OF ga, of k] by (simp add: fld wl eq_commute [of k])
  qed (simp add: st(2) iml eq_commute [of _ time])
  moreover have "tr_counted tr'" using inv by (simp add: tr_inv_def tr_counted_def locs pts fld)
  moreover have "\<forall>l' \<in> tr_locs tr'. ma_inv le (tr_pts tr' l') \<and> ma_inv le (tr_imp tr' l')"
    using inv st(1) by (simp add: tr_inv_def locs pts imp)
  ultimately have inv': "tr_inv le ri tr'" using wf by (simp add: tr_inv_def)
  have ev: "tr_evolves ri tr tr'"
    unfolding tr_evolves_def locs sums fld tr_projection_def pts
    by (simp add: pc st(3) imp iml)
  show ?thesis
    by (rule exI [of _ tr'], rule exI [of _ out])
      (use run inv' ms ev single_update_changes [OF mi up] in \<open>simp add: fld pts\<close>)
qed

lemma tr_simps_worklist [simp]:
  "tr_locs (tr\<lparr>tr_worklist := w\<rparr>) = tr_locs tr" "tr_pts (tr\<lparr>tr_worklist := w\<rparr>) = tr_pts tr"
  "tr_imp (tr\<lparr>tr_worklist := w\<rparr>) = tr_imp tr" "succs_at ri (tr\<lparr>tr_worklist := w\<rparr>) = succs_at ri tr"
  by (simp_all add: tr_locs_def tr_pts_def tr_imp_def succs_at_def fun_eq_iff)

text \<open>Differences that cancel in the worklist are dropped.\<close>

lemma propagate_idle_ok:
  assumes inv: "tr_inv le ri tr" and wl: "tr_worklist tr = (time, l, d) # w" and ga: "gather time l d w = (0, w')"
  shows "tr_inv le ri (tr\<lparr>tr_worklist := w'\<rparr>)" and "tr_evolves ri tr (tr\<lparr>tr_worklist := w'\<rparr>)"
proof -
  have wf: "tr_wf ri tr" using inv by (simp add: tr_inv_def)
  have work: "tr_work w' k = tr_work (tr_worklist tr) k" for k
    using gather_work [OF ga, of k] by (simp add: wl)
  have "\<forall>x \<in> set w'. fst (snd x) \<in> tr_locs tr"
    using gather_subset [OF ga] tr_wf_worklist [OF wf] wl by auto
  then have "tr_wf ri (tr\<lparr>tr_worklist := w'\<rparr>)" by (intro tr_wf_cong [OF wf]) simp_all
  with inv show "tr_inv le ri (tr\<lparr>tr_worklist := w'\<rparr>)"
    by (simp add: tr_inv_def tr_balanced_def tr_counted_def work)
  show "tr_evolves ri tr (tr\<lparr>tr_worklist := w'\<rparr>)" by (simp add: tr_evolves_def tr_projection_def)
qed

end

section \<open>The worklist becomes empty\<close>

text \<open>The topology a tracker was built from: one input and output per entry of the node.\<close>

definition tr_graph :: "('t, 's) tracker \<Rightarrow> 's builder" where
  "tr_graph tr = \<lparr>bd_nodes = tr_nodes tr, bd_edges = tr_edges tr,
     bd_shape = map2 (\<lambda>ins outs. (length ins, length outs)) (tr_nodes tr) (tr_edges tr)\<rparr>"

text \<open>A work item is followed by items at later times, or at the same time along default edges.\<close>

definition work_order ::
  "('t \<Rightarrow> 't \<Rightarrow> bool) \<Rightarrow> (location \<times> location) set \<Rightarrow> ((location \<times> 't) \<times> (location \<times> 't)) set" where
  "work_order le D = {((l', t'), (l, t)). less_than le t t' \<or> t' = t \<and> (l, l') \<in> D}"

lemma wf_work_order:
  assumes "wf {(t', t). less_than le t t'}" and "wf (D\<inverse>)"
  shows "wf (work_order le D)"
proof -
  have "work_order le D = inv_image ({(t', t). less_than le t t'} <*lex*> D\<inverse>) (\<lambda>(l, t). (t, l))"
    by (auto simp: work_order_def)
  then show ?thesis using assms by (simp add: wf_inv_image wf_lex_prod)
qed

lemma gather_mset:
  "gather t l d w = (diff, w') \<Longrightarrow>
   \<exists>n. mset (map (\<lambda>(t, l, d). (l, t)) w) = mset (map (\<lambda>(t, l, d). (l, t)) w') + replicate_mset n (l, t)"
proof (induction t l d w rule: gather.induct)
  case (1 t l d)
  then show ?case by (intro exI [of _ 0]) simp
next
  case (2 t l d t' l' d' w)
  show ?case
  proof (cases "t' = t \<and> l' = l")
    case True
    with 2 obtain n where "mset (map (\<lambda>(t, l, d). (l, t)) w)
        = mset (map (\<lambda>(t, l, d). (l, t)) w') + replicate_mset n (l, t)" by auto
    with True show ?thesis by (intro exI [of _ "Suc n"]) simp
  next
    case False
    with 2 have "w' = (t', l', d') # w" by auto
    then show ?thesis by (intro exI [of _ 0]) simp
  qed
qed

lemma finite_default_edges:
  "wf_builder b \<Longrightarrow> finite (default_edges dflt b)"
proof -
  assume wf: "wf_builder b"
  then have "finite (builder_locs b)" by (simp add: finite_builder_locs wf_builder_def)
  moreover have "default_edges dflt b \<subseteq> builder_locs b \<times> builder_locs b"
    using succs_defined [OF wf, of _ dflt] by (fastforce simp: default_edges_def)
  ultimately show ?thesis using finite_subset by blast
qed

lemma default_edges_cong:
  "bd_nodes b = bd_nodes b' \<Longrightarrow> bd_edges b = bd_edges b' \<Longrightarrow> default_edges dflt b = default_edges dflt b'"
  unfolding default_edges_def builder_locs_def acyclic_succs_def by (simp only:)

context advancing_summary
begin

lemma succs_advance:
  assumes "tracker_succs results_in tr l t = Some ss" and "(l', t') \<in> set ss"
    and len: "length (tr_edges tr) = length (tr_nodes tr)"
  shows "le t t' \<and> (t' = t \<longrightarrow> (l, l') \<in> default_edges dflt (tr_graph tr))"
proof (cases "loc_port l")
  case (PortTarget p)
  with assms(1) have r: "loc_node l < length (tr_nodes tr)" "p < length (tr_nodes tr ! loc_node l)"
    by (auto simp: tracker_succs_def vec_get_def bind_eq_Some_conv split: if_splits)
  with PortTarget assms obtain outp a s where
    o: "(outp, a) \<in> set (pc_iter_ports (tr_nodes tr ! loc_node l ! p))" "s \<in> set (ac_elements a)"
    "results_in s t = Some t'" "l' = Location (loc_node l) (PortSource outp)"
    by (auto simp: tracker_succs_def vec_get_def map_filter_def)
  have "(l, l') \<in> default_edges dflt (tr_graph tr)" if "s = dflt"
    using PortTarget r o that
    by (force simp: default_edges_def tr_graph_def builder_locs_def acyclic_succs_def vec_get_def new_source_def)
  with o(3) show ?thesis using advances [of s t t'] stays_default [of s t] by auto
next
  case (PortSource p)
  with assms(1) have r: "loc_node l < length (tr_edges tr)" "p < length (tr_edges tr ! loc_node l)"
    by (auto simp: tracker_succs_def vec_get_def bind_eq_Some_conv split: if_splits)
  with PortSource assms(1,2) have o: "t' = t" "l' \<in> location_of_target ` set (tr_edges tr ! loc_node l ! p)"
    by (auto simp: tracker_succs_def vec_get_def)
  then have "(l, l') \<in> default_edges dflt (tr_graph tr)"
    using PortSource r len by (auto simp: default_edges_def tr_graph_def builder_locs_def acyclic_succs_def vec_get_def)
  with o(1) show ?thesis using le_refl by simp
qed

end

context bounded_summary
begin

text \<open>The items a step pushes follow the one it pops.\<close>

lemma pushed_items_follow:
  assumes wf: "tr_wf results_in tr" and l: "l \<in> tr_locs tr" and len: "length (tr_edges tr) = length (tr_nodes tr)"
    and out: "\<forall>c \<in> set out. le time (fst c)"
    and k: "k \<in># mset (concat (map (\<lambda>(t, d :: int). succs_at results_in tr l t) out))"
  shows "(k, (l, time)) \<in> work_order le (default_edges dflt (tr_graph tr))"
proof -
  obtain l' t' where k': "k = (l', t')" by (cases k)
  from k obtain c where c: "c \<in> set out" "(l', t') \<in> set (succs_at results_in tr l (fst c))"
    by (auto simp: k')
  have adv: "le (fst c) t'" "t' = fst c \<longrightarrow> (l, l') \<in> default_edges dflt (tr_graph tr)"
    using succs_advance [OF _ c(2) len] tr_wf_succs [OF wf l, of "fst c"] by auto
  have le: "le time (fst c)" using out c(1) by blast
  show ?thesis
  proof (cases "time = t'")
    case True
    then have "fst c = t'" using le adv(1) le_antisym by blast
    with adv(2) True show ?thesis by (simp add: work_order_def k')
  next
    case False
    with le_trans [OF le adv(1)] show ?thesis by (simp add: work_order_def less_than_def k')
  qed
qed

lemma propagate_loop_ok:
  assumes "wf (D\<inverse>)" and "tr_inv le results_in tr" and "length (tr_edges tr) = length (tr_nodes tr)"
    and "default_edges dflt (tr_graph tr) = D"
  shows "\<exists>tr'. propagate_loop le results_in tr = Some tr' \<and> tr_worklist tr' = [] \<and> tr_inv le results_in tr'
    \<and> tr_evolves results_in tr tr' \<and> tr_pts tr' = tr_pts tr
    \<and> tr_target_changes tr' = tr_target_changes tr \<and> tr_source_changes tr' = tr_source_changes tr"
  using assms(2-)
proof (induction "mset (map (\<lambda>(t, l, d). (l, t)) (tr_worklist tr))" arbitrary: tr
    rule: wf_induct_rule [OF wf_mult [OF wf_work_order [OF bounded assms(1)]]])
  case (1 tr)
  define f :: "'t \<times> location \<times> int \<Rightarrow> location \<times> 't" where "f = (\<lambda>(t, l, d). (l, t))"
  show ?case
  proof (cases "tr_worklist tr")
    case Nil
    with 1 show ?thesis by (subst propagate_loop.simps) (simp add: tr_evolves_refl)
  next
    case (Cons x w)
    obtain time l d where x: "x = (time, l, d)" by (cases x)
    obtain diff w' where ga: "gather time l d w = (diff, w')" by (cases "gather time l d w")
    note wl = Cons [unfolded x]
    have wf: "tr_wf results_in tr" using 1 by (simp add: tr_inv_def)
    have l: "l \<in> tr_locs tr" using tr_wf_worklist [OF wf] wl by force
    from gather_mset [OF ga] obtain n where
      "mset (map f (tr_worklist tr)) = mset (map f w') + replicate_mset (Suc n) (l, time)"
      by (auto simp: f_def wl)
    then have m: "mset (map f (tr_worklist tr)) = mset (map f w') + replicate_mset (Suc n) (l, time)" .
    define tr0 where "tr0 = tr\<lparr>tr_worklist := w'\<rparr>"
    obtain tr1 K where step: "propagate_step le results_in time l diff tr0 = Some tr1" "tr_inv le results_in tr1"
      "tr_evolves results_in tr tr1" "tr_pts tr1 = tr_pts tr" "tr_target_changes tr1 = tr_target_changes tr"
      "tr_source_changes tr1 = tr_source_changes tr" "mset (map f (tr_worklist tr1)) = mset (map f w') + K"
      "\<forall>k \<in># K. (k, (l, time)) \<in> work_order le D"
    proof (cases "diff = 0")
      case True
      with propagate_idle_ok [OF 1(2) wl] ga that [of tr0 "{#}"] show ?thesis
        by (simp add: tr0_def propagate_step_def)
    next
      case False
      from propagate_step_ok [OF 1(2) wl ga False] obtain tr1 and out :: "('t \<times> int) list" where
        "propagate_step le results_in time l diff tr0 = Some tr1" "tr_inv le results_in tr1"
        "tr_evolves results_in tr tr1" "tr_pts tr1 = tr_pts tr" "tr_target_changes tr1 = tr_target_changes tr"
        "tr_source_changes tr1 = tr_source_changes tr" "\<forall>c \<in> set out. le time (fst c)"
        "mset (map f (tr_worklist tr1)) = mset (map f w') + mset (concat (map (\<lambda>(t, d). succs_at results_in tr l t) out))"
        unfolding f_def tr0_def by blast
      then show ?thesis using that [of tr1 "mset (concat (map (\<lambda>(t, d). succs_at results_in tr l t) out))"]
        pushed_items_follow [OF wf l 1(3), of out time] unfolding 1(4) by blast
    qed
    have g: "tr_nodes tr1 = tr_nodes tr" "tr_edges tr1 = tr_edges tr" using step(3) by (simp_all add: tr_evolves_def)
    have D: "default_edges dflt (tr_graph tr1) = D"
      unfolding 1(4) [symmetric] by (rule default_edges_cong) (simp_all add: tr_graph_def g)
    have "(mset (map f (tr_worklist tr1)), mset (map f (tr_worklist tr))) \<in> mult (work_order le D)"
      unfolding m step(7) by (rule one_step_implies_mult) (use step(8) in auto)
    from 1(1) [OF this [unfolded f_def] step(2) _ D] obtain tr2 where
      "propagate_loop le results_in tr1 = Some tr2" "tr_worklist tr2 = []" "tr_inv le results_in tr2"
      "tr_evolves results_in tr1 tr2" "tr_pts tr2 = tr_pts tr1"
      "tr_target_changes tr2 = tr_target_changes tr1" "tr_source_changes tr2 = tr_source_changes tr1"
      using 1(3) g by auto
    moreover have "propagate_loop le results_in tr = propagate_loop le results_in tr1"
      by (subst propagate_loop.simps) (use step(1) in \<open>simp add: wl ga tr0_def\<close>)
    ultimately show ?thesis using step tr_evolves_trans by (intro exI [of _ tr2]) auto
  qed
qed

end

section \<open>What an empty worklist means\<close>

text \<open>
  \<open>tr_reaches ri tr (l, t) (l', t')\<close>: a message or capability at location \<open>l\<close> and
  time \<open>t\<close> could result in one at \<open>l'\<close> and \<open>t'\<close>.  \<open>reach_times\<close> are the
  times that some pointstamp of positive count could result in at a location.
\<close>

inductive tr_reaches ::
  "('s \<Rightarrow> 't \<Rightarrow> 't option) \<Rightarrow> ('t, 's) tracker \<Rightarrow> location \<times> 't \<Rightarrow> location \<times> 't \<Rightarrow> bool"
  for ri tr where
  refl: "l \<in> tr_locs tr \<Longrightarrow> tr_reaches ri tr (l, t) (l, t)"
| step: "tr_reaches ri tr lt (l, t) \<Longrightarrow> tracker_succs ri tr l t = Some ss \<Longrightarrow> (l', t') \<in> set ss \<Longrightarrow>
    tr_reaches ri tr lt (l', t')"

definition reach_times :: "('s \<Rightarrow> 't \<Rightarrow> 't option) \<Rightarrow> ('t, 's) tracker \<Rightarrow> location \<Rightarrow> 't set" where
  "reach_times ri tr l = {t. \<exists>l0 t0. ma_count (tr_pts tr l0) t0 > 0 \<and> tr_reaches ri tr (l0, t0) (l, t)}"

lemma reaches_locs: "tr_reaches ri tr lt lt' \<Longrightarrow> tr_wf ri tr \<Longrightarrow> fst lt \<in> tr_locs tr \<and> fst lt' \<in> tr_locs tr"
proof (induction rule: tr_reaches.induct)
  case (step lt l t ss l' t')
  then show ?case using tr_wf_succs [of ri tr l t] by force
qed simp

text \<open>At rest, an implication is counted exactly if it is a pointstamp or follows from one upstream.\<close>

lemma quiet_count:
  assumes "tr_balanced ri tr" and "tr_worklist tr = []" and "l \<in> tr_locs tr"
  shows "ma_count (tr_imp tr l) t > 0 \<longleftrightarrow> t \<in> set (ma_frontier (tr_pts tr l))
    \<or> (\<exists>l' \<in> tr_locs tr. \<exists>t' \<in> set (ma_frontier (tr_imp tr l')). (l, t) \<in> set (succs_at ri tr l' t'))"
proof -
  define g where "g l' t' = int (count_list (succs_at ri tr l' t') (l, t))" for l' t'
  have g: "g l' t' \<ge> 0" "g l' t' > 0 \<longleftrightarrow> (l, t) \<in> set (succs_at ri tr l' t')" for l' t'
    by (simp_all add: g_def count_list_0_iff flip: neq0_conv)
  have "ma_count (tr_imp tr l) t = of_bool (t \<in> set (ma_frontier (tr_pts tr l)))
      + (\<Sum>l' \<in> tr_locs tr. sum (g l') (set (ma_frontier (tr_imp tr l'))))"
    using assms unfolding tr_balanced_def g_def by (simp add: tr_work_def)
  moreover have "(\<Sum>l' \<in> tr_locs tr. sum (g l') (set (ma_frontier (tr_imp tr l')))) \<ge> 0"
    by (intro sum_nonneg g)
  moreover have "(\<Sum>l' \<in> tr_locs tr. sum (g l') (set (ma_frontier (tr_imp tr l')))) = 0 \<longleftrightarrow>
      (\<forall>l' \<in> tr_locs tr. \<forall>t' \<in> set (ma_frontier (tr_imp tr l')). g l' t' = 0)"
    by (simp add: sum_nonneg_eq_0_iff sum_nonneg g(1))
  moreover have "g l' t' = 0 \<longleftrightarrow> (l, t) \<notin> set (succs_at ri tr l' t')" for l' t'
    using g [of l' t'] by linarith
  ultimately show ?thesis by (smt (verit) of_bool_eq)
qed

context path_summary
begin

lemma succs_mono:
  assumes "tracker_succs results_in tr l t2 = Some ss" and "(l', u2) \<in> set ss" and "le t1 t2"
  shows "\<exists>u1. (l', u1) \<in> set (succs_at results_in tr l t1) \<and> le u1 u2"
proof (cases "loc_port l")
  case (PortTarget p)
  with assms(1,2) obtain inputs outputs outp a s where
    o: "vec_get (tr_nodes tr) (loc_node l) = Some inputs" "vec_get inputs p = Some outputs"
    "(outp, a) \<in> set (pc_iter_ports outputs)" "s \<in> set (ac_elements a)"
    "results_in s t2 = Some u2" "l' = Location (loc_node l) (PortSource outp)"
    by (auto simp: tracker_succs_def bind_eq_Some_conv map_filter_def simp del: vec_get_Some)
  from results_mono [OF assms(3) o(5)] obtain u1 where u1: "results_in s t1 = Some u1" "le u1 u2" by blast
  then have "u1 \<in> set (List.map_filter (\<lambda>s. results_in s t1) (ac_elements a))"
    using o(4) by (force simp: map_filter_def)
  then have "(l', u1) \<in> set (succs_at results_in tr l t1)"
    using o(1-3,6) PortTarget by (force simp: succs_at_def tracker_succs_def simp del: vec_get_Some)
  with u1 show ?thesis by blast
next
  case (PortSource p)
  with assms(1,2) have "u2 = t2" "(l', t1) \<in> set (succs_at results_in tr l t1)"
    by (auto simp: tracker_succs_def succs_at_def bind_eq_Some_conv simp del: vec_get_Some)
  with assms(3) show ?thesis by blast
qed

text \<open>Safety: at rest, the implication frontiers are below everything that can still happen.\<close>

lemma quiet_sound:
  assumes inv: "tr_inv le results_in tr" and wl: "tr_worklist tr = []" and r: "t \<in> reach_times results_in tr l"
  shows "\<exists>f \<in> set (ma_frontier (tr_imp tr l)). le f t"
proof -
  have wf: "tr_wf results_in tr" and bal: "tr_balanced results_in tr" using inv by (simp_all add: tr_inv_def)
  have ma: "ma_inv le (tr_pts tr l)" "ma_inv le (tr_imp tr l)" if "l \<in> tr_locs tr" for l
    using inv that by (simp_all add: tr_inv_def)
  have "tr_reaches results_in tr lt lt' \<Longrightarrow> ma_count (tr_pts tr (fst lt)) (snd lt) > 0 \<Longrightarrow>
      \<exists>f \<in> set (ma_frontier (tr_imp tr (fst lt'))). le f (snd lt')" for lt lt'
  proof (induction rule: tr_reaches.induct)
    case (refl l t)
    from ma_inv_below [OF ma(1) [OF refl(1)]] refl(2) obtain f where
      f: "f \<in> set (ma_frontier (tr_pts tr l))" "le f t" by auto
    then have "ma_count (tr_imp tr l) f > 0" using quiet_count [OF bal wl refl(1)] by blast
    from ma_inv_below [OF ma(2) [OF refl(1)] this] f(2) le_trans show ?case by (metis fst_conv snd_conv)
  next
    case (step lt l t ss l' t')
    have l: "l \<in> tr_locs tr" using reaches_locs [OF step(1) wf] by simp
    have l': "l' \<in> tr_locs tr" using tr_wf_succs [OF wf l, of t] step(2,3) by force
    from step.IH step.prems obtain f where f: "f \<in> set (ma_frontier (tr_imp tr l))" "le f t" by auto
    from succs_mono [OF step(2,3) f(2)] obtain u where u: "(l', u) \<in> set (succs_at results_in tr l f)" "le u t'" by blast
    then have "ma_count (tr_imp tr l') u > 0" using quiet_count [OF bal wl l'] f(1) l by blast
    from ma_inv_below [OF ma(2) [OF l'] this] u(2) le_trans show ?case by (metis fst_conv snd_conv)
  qed
  with r show ?thesis unfolding reach_times_def by fastforce
qed

end

context advancing_summary
begin

text \<open>Precision: at rest, every implication frontier element can happen.\<close>

lemma quiet_precise:
  assumes inv: "tr_inv le results_in tr" and wl: "tr_worklist tr = []"
    and len: "length (tr_edges tr) = length (tr_nodes tr)"
    and D: "acyclic (default_edges dflt (tr_graph tr))"
    and l: "l \<in> tr_locs tr" and f: "f \<in> set (ma_frontier (tr_imp tr l))"
  shows "f \<in> reach_times results_in tr l"
proof -
  have wf: "tr_wf results_in tr" and bal: "tr_balanced results_in tr" using inv by (simp_all add: tr_inv_def)
  define P where "P = (SIGMA l : tr_locs tr. set (ma_frontier (tr_imp tr l)))"
  define R where "R = {(x, y). x \<in> P \<and> y \<in> P \<and> y \<in> set (succs_at results_in tr (fst x) (snd x))}"
  have "finite P" by (simp add: P_def)
  moreover have "R \<subseteq> P \<times> P" by (auto simp: R_def)
  ultimately have "finite R" using finite_subset by blast
  have adv: "le (snd x) (snd y) \<and> (snd x = snd y \<longrightarrow> (fst x, fst y) \<in> default_edges dflt (tr_graph tr))"
    if "(x, y) \<in> R" for x y
    using that succs_advance [of tr "fst x" "snd x" "succs_at results_in tr (fst x) (snd x)" "fst y" "snd y"]
      tr_wf_succs [OF wf, of "fst x" "snd x"] len by (auto simp: R_def P_def)
  have path: "(x, y) \<in> R\<^sup>+ \<Longrightarrow> le (snd x) (snd y) \<and> (snd x = snd y \<longrightarrow> (fst x, fst y) \<in> (default_edges dflt (tr_graph tr))\<^sup>+)" for x y
  proof (induction rule: trancl_induct)
    case (base y)
    then show ?case using adv by blast
  next
    case (step y z)
    then show ?case using adv [OF step(2)] le_trans [of "snd x" "snd y" "snd z"] le_antisym [of "snd x" "snd y"]
      by (metis trancl.trancl_into_trancl)
  qed
  have "(x, x) \<notin> R\<^sup>+" for x using path [of x x] D by (auto simp: acyclic_def)
  then have "acyclic R" by (simp add: acyclic_def)
  with \<open>finite R\<close> have "wf R" by (rule finite_acyclic_wf)
  then have "x \<in> P \<Longrightarrow> snd x \<in> reach_times results_in tr (fst x)" for x
  proof (induction x rule: wf_induct_rule)
    case (less x)
    then have x: "fst x \<in> tr_locs tr" "snd x \<in> set (ma_frontier (tr_imp tr (fst x)))" by (auto simp: P_def)
    have mi: "ma_inv le (tr_pts tr (fst x))" "ma_inv le (tr_imp tr (fst x))" using inv x(1) by (simp_all add: tr_inv_def)
    have "ma_count (tr_imp tr (fst x)) (snd x) > 0" using ma_inv_frontier_pos [OF mi(2) x(2)] .
    then consider "snd x \<in> set (ma_frontier (tr_pts tr (fst x)))"
      | y where "y \<in> P" "x \<in> set (succs_at results_in tr (fst y) (snd y))"
      using quiet_count [OF bal wl x(1), of "snd x"] by (force simp: P_def)
    then show ?case
    proof cases
      case 1
      from ma_inv_frontier_pos [OF mi(1) this] tr_reaches.refl [OF x(1), of results_in "snd x"]
      show ?thesis unfolding reach_times_def by blast
    next
      case 2
      then have "snd y \<in> reach_times results_in tr (fst y)" using less by (auto simp: R_def)
      moreover have "tracker_succs results_in tr (fst y) (snd y) = Some (succs_at results_in tr (fst y) (snd y))"
        using tr_wf_succs [OF wf, of "fst y" "snd y"] 2(1) by (auto simp: P_def)
      ultimately show ?thesis using 2(2) tr_reaches.step [of results_in tr _ "fst y" "snd y" _ "fst x" "snd x"]
        unfolding reach_times_def by fastforce
    qed
  qed
  from this [of "(l, f)"] l f show ?thesis by (simp add: P_def)
qed

lemma quiet_exact:
  assumes "tr_inv le results_in tr" and "tr_worklist tr = []"
    and "length (tr_edges tr) = length (tr_nodes tr)" and "acyclic (default_edges dflt (tr_graph tr))"
    and l: "l \<in> tr_locs tr"
  shows "set (ma_frontier (tr_imp tr l)) = minimals le (reach_times results_in tr l)"
proof -
  let ?F = "set (ma_frontier (tr_imp tr l))"
  have "minimals le ?F = ?F"
    by (rule minimals_antichain) (use assms(1) l in \<open>auto simp: tr_inv_def ma_inv_def minimals_def\<close>)
  moreover have "minimals le ?F = minimals le (reach_times results_in tr l)"
    using quiet_precise [OF assms] quiet_sound [OF assms(1,2)] by (intro minimals_cover) auto
  ultimately show ?thesis by simp
qed

end

end
