(* ===== verification/Reach_Summaries.thy ===== *)
theory Reach_Summaries
  imports Reach_Propagate
begin

text \<open>
  \<^verbatim>\<open>timely/src/progress/reachability.rs\<close>, fourth part: \<open>summarize_outputs\<close>, which
  compiles the path summaries from every location to the scope outputs, and the construction of a
  \<open>Tracker\<close> by \<open>allocate_from\<close> and \<open>build\<close>.

  The hash maps are association lists with distinct keys; \<open>hash_order\<close> is the order in which
  \<open>allocate_from\<close> happens to iterate over the locations.  The \<open>println!\<close> warning of
  \<open>build\<close> about a cycle is the first component of its result.
\<close>

section \<open>summarize_outputs\<close>

definition reverse_edges :: "target list list list \<Rightarrow> (location \<times> location) list" where
  "reverse_edges edges =
     fold (\<lambda>(node, outputs). fold (\<lambda>(outp, targets).
         fold (\<lambda>t. AList.update (location_of_target t) (Location node (PortSource outp))) targets)
       (enumerate 0 outputs)) (enumerate 0 edges) []"

definition reverse_internal :: "'s connectivity list \<Rightarrow> (location \<times> (nat \<times> 's antichain) list) list" where
  "reverse_internal nodes =
     fold (\<lambda>(node, connectivity). fold (\<lambda>(input, outputs).
         fold (\<lambda>(outp, summary) m.
             let k = new_source node outp; es = (case map_of m k of None \<Rightarrow> [] | Some es \<Rightarrow> es)
             in AList.update k (es @ [(input, summary)]) m)
           (pc_iter_ports outputs))
       (enumerate 0 connectivity)) (enumerate 0 nodes) []"

text \<open>
  The locations and summaries that one entry of the worklist leads back to, in the order the body
  of the loop tries to insert them.
\<close>

definition summarize_preds ::
  "('s \<Rightarrow> 's \<Rightarrow> 's option) \<Rightarrow> (location \<times> location) list \<Rightarrow> (location \<times> (nat \<times> 's antichain) list) list
   \<Rightarrow> location \<Rightarrow> 's \<Rightarrow> (location \<times> 's) list" where
  "summarize_preds fb rev_edges rev_int l summary =
     (case loc_port l of
        PortSource _ \<Rightarrow>
          (case map_of rev_int l of
             None \<Rightarrow> []
           | Some inputs \<Rightarrow> concat (map (\<lambda>(input_port, operator_summary).
               map (Pair (new_target (loc_node l) input_port))
                 (List.map_filter (\<lambda>op_summary. fb op_summary summary) (ac_elements operator_summary))) inputs))
      | PortTarget _ \<Rightarrow>
          (case map_of rev_edges l of None \<Rightarrow> [] | Some source \<Rightarrow> [(source, summary)]))"

type_synonym 's summary_results = "(location \<times> 's port_connectivity) list"

definition results_get :: "'s summary_results \<Rightarrow> location \<Rightarrow> 's port_connectivity" where
  "results_get results l = (case map_of results l of None \<Rightarrow> pc_default | Some p \<Rightarrow> p)"

text \<open>\<open>results.entry(l).or_default().insert_ref(..)\<close>, and \<open>push_back\<close> if it was inserted.\<close>

fun summarize_push ::
  "('s \<Rightarrow> 's \<Rightarrow> bool) \<Rightarrow> nat \<Rightarrow> (location \<times> 's) list \<Rightarrow> 's summary_results \<times> (location \<times> nat \<times> 's) list
   \<Rightarrow> 's summary_results \<times> (location \<times> nat \<times> 's) list" where
  "summarize_push sle outp [] rw = rw"
| "summarize_push sle outp ((l, s) # cs) (results, worklist) =
     (let (inserted, p) = pc_insert_ref sle outp s (results_get results l)
      in summarize_push sle outp cs
           (AList.update l p results, if inserted then worklist @ [(l, outp, s)] else worklist))"

partial_function (option) summarize_loop ::
  "('s \<Rightarrow> 's \<Rightarrow> bool) \<Rightarrow> ('s \<Rightarrow> 's \<Rightarrow> 's option) \<Rightarrow> (location \<times> location) list
   \<Rightarrow> (location \<times> (nat \<times> 's antichain) list) list \<Rightarrow> 's summary_results \<times> (location \<times> nat \<times> 's) list
   \<Rightarrow> 's summary_results option" where
  "summarize_loop sle fb rev_edges rev_int rw =
     (case snd rw of
        [] \<Rightarrow> Some (fst rw)
      | (l, outp, s) # w \<Rightarrow>
          summarize_loop sle fb rev_edges rev_int
            (summarize_push sle outp (summarize_preds fb rev_edges rev_int l s) (fst rw, w)))"

declare summarize_loop.simps [code]

definition summarize_outputs ::
  "('s \<Rightarrow> 's \<Rightarrow> bool) \<Rightarrow> 's \<Rightarrow> ('s \<Rightarrow> 's \<Rightarrow> 's option) \<Rightarrow> 's connectivity list \<Rightarrow> target list list list
   \<Rightarrow> 's summary_results option" where
  "summarize_outputs sle dflt fb nodes edges =
     (let outputs = filter (\<lambda>t. tgt_node t = 0) (concat (concat edges));
          worklist = map (\<lambda>t. (location_of_target t, tgt_port t, dflt)) outputs
      in summarize_loop sle fb (reverse_edges edges) (reverse_internal nodes) ([], worklist))"

section \<open>Building a tracker\<close>

fun install_summaries ::
  "(location \<times> 's port_connectivity) list \<Rightarrow> ('t, 's) tracker \<times> 's connectivity
   \<Rightarrow> (('t, 's) tracker \<times> 's connectivity) option" where
  "install_summaries [] ts = Some ts"
| "install_summaries ((l, summaries) # ls) (tr, builder_summary) =
     (if loc_node l = 0 then
        (case loc_port l of
           PortSource p \<Rightarrow>
             do { bs \<leftarrow> vec_set builder_summary p summaries; install_summaries ls (tr, bs) }
         | PortTarget _ \<Rightarrow> install_summaries ls (tr, builder_summary))
      else
        do { p \<leftarrow> tr_get tr l;
             tr \<leftarrow> tr_set tr l (p\<lparr>pi_output_summaries := summaries\<rparr>);
             install_summaries ls (tr, builder_summary) })"

definition tracker_empty :: "'s builder \<Rightarrow> nat \<Rightarrow> ('t, 's) tracker" where
  "tracker_empty b scope_outputs =
     \<lparr>tr_nodes = bd_nodes b, tr_edges = bd_edges b,
      tr_per_operator = map (\<lambda>(inputs, outputs). po_new inputs outputs) (bd_shape b),
      tr_target_changes = cb_new, tr_source_changes = cb_new, tr_worklist = [], tr_pushed_changes = cb_new,
      tr_output_changes = replicate scope_outputs cb_new, tr_total_counts = 0\<rparr>"

definition tracker_allocate_from ::
  "(location list \<Rightarrow> location list) \<Rightarrow> ('s \<Rightarrow> 's \<Rightarrow> bool) \<Rightarrow> 's \<Rightarrow> ('s \<Rightarrow> 's \<Rightarrow> 's option) \<Rightarrow> 's builder
   \<Rightarrow> (('t, 's) tracker \<times> 's connectivity) option" where
  "tracker_allocate_from hash_order sle dflt fb b =
     do { (scope_outputs, scope_inputs) \<leftarrow> vec_get (bd_shape b) 0;
          results \<leftarrow> summarize_outputs sle dflt fb (bd_nodes b) (bd_edges b);
          install_summaries (map (\<lambda>l. (l, results_get results l)) (hash_order (map fst results)))
            (tracker_empty b scope_outputs, replicate scope_inputs pc_default) }"

definition builder_build ::
  "(location list \<Rightarrow> location list) \<Rightarrow> ('s \<Rightarrow> 's \<Rightarrow> bool) \<Rightarrow> 's \<Rightarrow> ('s \<Rightarrow> 's \<Rightarrow> 's option) \<Rightarrow> 's builder
   \<Rightarrow> (bool \<times> ('t, 's) tracker \<times> 's connectivity) option" where
  "builder_build hash_order sle dflt fb b =
     do { acyclic \<leftarrow> builder_is_acyclic hash_order dflt b;
          ts \<leftarrow> tracker_allocate_from hash_order sle dflt fb b;
          Some (\<not> acyclic, ts) }"

section \<open>The reverse maps\<close>

definition edge_pairs :: "target list list list \<Rightarrow> (location \<times> location) list" where
  "edge_pairs edges = concat (map (\<lambda>(n, outs). concat (map (\<lambda>(p, ts).
     map (\<lambda>t. (location_of_target t, Location n (PortSource p))) ts) (enumerate 0 outs))) (enumerate 0 edges))"

definition internal_pairs :: "'s connectivity list \<Rightarrow> (location \<times> nat \<times> 's antichain) list" where
  "internal_pairs nodes = concat (map (\<lambda>(n, conn). concat (map (\<lambda>(i, outs).
     map (\<lambda>(p, a). (new_source n p, i, a)) (pc_iter_ports outs)) (enumerate 0 conn))) (enumerate 0 nodes))"

text \<open>Every input is fed by at most one output.\<close>

definition unique_sources :: "target list list list \<Rightarrow> bool" where
  "unique_sources edges \<longleftrightarrow> distinct (map fst (edge_pairs edges))"

lemma set_edge_pairs:
  "(l, l') \<in> set (edge_pairs edges) \<longleftrightarrow> (\<exists>n p t. n < length edges \<and> p < length (edges ! n)
     \<and> t \<in> set (edges ! n ! p) \<and> l = location_of_target t \<and> l' = Location n (PortSource p))"
  by (fastforce simp: edge_pairs_def in_enumerate)

lemma set_internal_pairs:
  "(l, i, a) \<in> set (internal_pairs nodes) \<longleftrightarrow> (\<exists>n p. n < length nodes \<and> i < length (nodes ! n)
     \<and> (p, a) \<in> set (pc_iter_ports (nodes ! n ! i)) \<and> l = new_source n p)"
  by (fastforce simp: internal_pairs_def in_enumerate)

lemma fold_update_map_of:
  "map_of (fold (\<lambda>(k, v). AList.update k v) xs m) k = (case map_of (rev xs) k of None \<Rightarrow> map_of m k | Some v \<Rightarrow> Some v)"
  by (induction xs arbitrary: m) (auto simp: map_add_Some_iff update_conv' map_add_def split: option.splits)

lemma reverse_edges_map: "map_of (reverse_edges edges) = map_of (rev (edge_pairs edges))"
proof -
  have "reverse_edges edges = fold (\<lambda>(k, v). AList.update k v) (edge_pairs edges) []"
    by (simp add: reverse_edges_def edge_pairs_def fold_concat_map fold_map comp_def case_prod_unfold)
  then show ?thesis by (simp add: fun_eq_iff fold_update_map_of split: option.splits)
qed

lemma reverse_edges_Some: "map_of (reverse_edges edges) l = Some l' \<Longrightarrow> (l, l') \<in> set (edge_pairs edges)"
  by (auto simp: reverse_edges_map dest: map_of_SomeD)

lemma reverse_edges_unique:
  "unique_sources edges \<Longrightarrow> (l, l') \<in> set (edge_pairs edges) \<Longrightarrow> map_of (reverse_edges edges) l = Some l'"
  by (simp add: reverse_edges_map unique_sources_def rev_map [symmetric])

lemma fold_group:
  "(case map_of (fold (\<lambda>(k, v) m. let es = (case map_of m k of None \<Rightarrow> [] | Some es \<Rightarrow> es)
        in AList.update k (es @ [v]) m) xs m) k of None \<Rightarrow> [] | Some es \<Rightarrow> es)
   = (case map_of m k of None \<Rightarrow> [] | Some es \<Rightarrow> es) @ map snd (filter (\<lambda>x. fst x = k) xs)"
  by (induction xs arbitrary: m) (auto simp: update_conv' Let_def)

lemma reverse_internal_map:
  "(case map_of (reverse_internal nodes) l of None \<Rightarrow> [] | Some es \<Rightarrow> es)
   = map snd (filter (\<lambda>x. fst x = l) (internal_pairs nodes))"
proof -
  have "reverse_internal nodes = fold (\<lambda>(k, v) m. let es = (case map_of m k of None \<Rightarrow> [] | Some es \<Rightarrow> es)
        in AList.update k (es @ [v]) m) (internal_pairs nodes) []"
    by (simp add: reverse_internal_def internal_pairs_def fold_concat_map fold_map comp_def case_prod_unfold Let_def)
  then show ?thesis by (simp only: fold_group) simp
qed

lemma summarize_preds_source:
  "loc_port l = PortSource p \<Longrightarrow> (l', s') \<in> set (summarize_preds fb re (reverse_internal nodes) l s) \<longleftrightarrow>
   (\<exists>i a s0. (l, i, a) \<in> set (internal_pairs nodes) \<and> s0 \<in> set (ac_elements a) \<and> fb s0 s = Some s'
      \<and> l' = new_target (loc_node l) i)"
proof -
  assume p: "loc_port l = PortSource p"
  let ?es = "case map_of (reverse_internal nodes) l of None \<Rightarrow> [] | Some es \<Rightarrow> es"
  have "summarize_preds fb re (reverse_internal nodes) l s = concat (map (\<lambda>(i, a).
      map (Pair (new_target (loc_node l) i)) (List.map_filter (\<lambda>s0. fb s0 s) (ac_elements a))) ?es)"
    by (simp add: summarize_preds_def p split: option.split)
  then show ?thesis unfolding reverse_internal_map by (force simp: map_filter_def)
qed

section \<open>One round of the loop\<close>

definition results_entries :: "'s summary_results \<Rightarrow> (location \<times> nat \<times> 's) set" where
  "results_entries res = {(l, k, s). s \<in> pc_summaries (results_get res l) k}"

definition results_cover :: "('s \<Rightarrow> 's \<Rightarrow> bool) \<Rightarrow> 's summary_results \<Rightarrow> location \<times> nat \<times> 's \<Rightarrow> bool" where
  "results_cover sle res = (\<lambda>(l, k, s). \<exists>x \<in> pc_summaries (results_get res l) k. sle x s)"

definition results_inv :: "('s \<Rightarrow> 's \<Rightarrow> bool) \<Rightarrow> 's summary_results \<Rightarrow> bool" where
  "results_inv sle res \<longleftrightarrow> distinct (map fst res)
     \<and> (\<forall>l. pc_inv sle (results_get res l) \<and> (\<forall>(k, a) \<in> set (pc_tree (results_get res l)). ac_elements a \<noteq> []))"

text \<open>The predecessors of an entry are covered.\<close>

definition settled ::
  "('s \<Rightarrow> 's \<Rightarrow> bool) \<Rightarrow> (location \<Rightarrow> 's \<Rightarrow> (location \<times> 's) list) \<Rightarrow> 's summary_results \<Rightarrow> location \<times> nat \<times> 's \<Rightarrow> bool" where
  "settled sle preds res = (\<lambda>(l, k, s). \<forall>(l', s') \<in> set (preds l s). results_cover sle res (l', k, s'))"

lemma results_get_update: "results_get (AList.update l p res) l' = (if l' = l then p else results_get res l')"
  by (simp add: results_get_def update_conv')

lemma pc_insert_nonempty:
  assumes "\<forall>(k, a) \<in> set (pc_tree p). ac_elements a \<noteq> []"
  shows "\<forall>(k, a) \<in> set (pc_tree (snd (pc_insert sle k s p))). ac_elements a \<noteq> []"
proof -
  define a where "a = (case pc_get p k of Some a \<Rightarrow> a | None \<Rightarrow> antichain_new)"
  have "ac_elements (snd (antichain_insert sle s a)) \<noteq> []" by (cases "ac_elements a") (auto simp: antichain_insert_def)
  then show ?thesis using assms set_bt_insert [of k "snd (antichain_insert sle s a)" "pc_tree p"]
    by (auto simp: pc_insert_def Let_def split_beta simp flip: a_def)
qed

lemma card_removed:
  assumes "finite U" and "V \<subseteq> U" and "x \<in> U" "x \<notin> V"
  shows "card V < card U"
  using assms by (intro psubset_card_mono) auto

context partial_order_laws
begin

lemma summarize_push_one:
  assumes inv: "results_inv le res" and ins: "pc_insert_ref le k s (results_get res l) = (b, p)"
  shows "results_inv le (AList.update l p res)"
    and "results_cover le (AList.update l p res) (l', k', s') \<longleftrightarrow>
      results_cover le res (l', k', s') \<or> l' = l \<and> k' = k \<and> le s s'"
    and "results_entries (AList.update l p res) \<subseteq> insert (l, k, s) (results_entries res)"
    and "b \<longleftrightarrow> \<not> results_cover le res (l, k, s)"
    and "\<not> b \<Longrightarrow> results_entries (AList.update l p res) = results_entries res"
proof -
  have pin: "pc_inv le (results_get res l)" using inv by (simp add: results_inv_def)
  have p: "p = snd (pc_insert le k s (results_get res l))" and b: "b = fst (pc_insert le k s (results_get res l))"
    using ins by simp_all
  show "results_inv le (AList.update l p res)"
    using inv pc_inv_insert [OF pin, of k s] pc_insert_nonempty [of "results_get res l" le k s] distinct_update [of res l p]
    by (simp add: results_inv_def results_get_update p)
  show "results_cover le (AList.update l p res) (l', k', s') \<longleftrightarrow>
      results_cover le res (l', k', s') \<or> l' = l \<and> k' = k \<and> le s s'"
    using pc_insert_covers [OF pin, of k s k' s'] by (auto simp: results_cover_def results_get_update p)
  show "results_entries (AList.update l p res) \<subseteq> insert (l, k, s) (results_entries res)"
    using pc_insert_subset [OF pin, of k s] by (fastforce simp: results_entries_def results_get_update p split: if_splits)
  show b': "b \<longleftrightarrow> \<not> results_cover le res (l, k, s)"
    using pc_insert_fst [of le k s "results_get res l"] by (simp add: b results_cover_def)
  assume "\<not> b"
  then obtain x where x: "x \<in> pc_summaries (results_get res l) k" "le x s" using b' by (auto simp: results_cover_def)
  then obtain a where a: "pc_get (results_get res l) k = Some a" "x \<in> set (ac_elements a)"
    by (auto simp: pc_summaries_def split: option.splits)
  have "snd (antichain_insert le s a) = a"
    using a(2) x(2) by (auto simp: antichain_insert_def list_ex_iff)
  then have "pc_summaries p k' = pc_summaries (results_get res l) k'" for k'
    by (simp add: p pc_summaries_def pc_get_insert [OF pin] a)
  then show "results_entries (AList.update l p res) = results_entries res"
    by (auto simp: results_entries_def results_get_update split: if_splits)
qed

lemma summarize_push_ok:
  assumes "results_inv le res" and "summarize_push le k cs (res, w) = (res', w')"
  shows "results_inv le res'
    \<and> (\<forall>x. results_cover le res x \<longrightarrow> results_cover le res' x)
    \<and> (\<forall>(l, s) \<in> set cs. results_cover le res' (l, k, s))
    \<and> fst ` set res' = fst ` set res \<union> fst ` set cs
    \<and> (\<exists>new. w' = w @ new \<and> set new \<subseteq> (\<lambda>(l, s). (l, k, s)) ` set cs
         \<and> results_entries res' \<subseteq> results_entries res \<union> set new
         \<and> (\<forall>A. finite A \<longrightarrow> (\<lambda>(l, s). (l, k, s)) ` set cs \<subseteq> A \<longrightarrow>
              card {x \<in> A. \<not> results_cover le res' x} + length new \<le> card {x \<in> A. \<not> results_cover le res x}))"
  using assms
proof (induction cs arbitrary: res w)
  case Nil
  then show ?case by auto
next
  case (Cons c cs)
  obtain l s where c: "c = (l, s)" by (cases c)
  obtain b p where ins: "pc_insert_ref le k s (results_get res l) = (b, p)"
    by (cases "pc_insert_ref le k s (results_get res l)")
  note one = summarize_push_one [OF Cons.prems(1) ins]
  define res1 where "res1 = AList.update l p res"
  define w1 where "w1 = (if b then w @ [(l, k, s)] else w)"
  have "summarize_push le k cs (res1, w1) = (res', w')"
    using Cons.prems(2) ins by (simp add: c res1_def w1_def split: if_splits)
  from Cons.IH [OF one(1) [folded res1_def] this] obtain new where
    ih: "results_inv le res'" "\<And>x. results_cover le res1 x \<Longrightarrow> results_cover le res' x"
    "\<forall>(l, s) \<in> set cs. results_cover le res' (l, k, s)" "fst ` set res' = fst ` set res1 \<union> fst ` set cs"
    "w' = w1 @ new" "set new \<subseteq> (\<lambda>(l, s). (l, k, s)) ` set cs" "results_entries res' \<subseteq> results_entries res1 \<union> set new"
    "\<And>A. finite A \<Longrightarrow> (\<lambda>(l, s). (l, k, s)) ` set cs \<subseteq> A \<Longrightarrow>
        card {x \<in> A. \<not> results_cover le res' x} + length new \<le> card {x \<in> A. \<not> results_cover le res1 x}"
    by blast
  have up: "results_cover le res x \<Longrightarrow> results_cover le res1 x" for x
    using one(2) by (cases x) (simp add: res1_def)
  define add where "add = (if b then [(l, k, s)] else [])"
  have here: "results_cover le res1 (l, k, s)" using one(2) [of l k s] le_refl by (simp add: res1_def)
  have "card {x \<in> A. \<not> results_cover le res' x} + length (add @ new) \<le> card {x \<in> A. \<not> results_cover le res x}"
    if A: "finite A" "(\<lambda>(l, s). (l, k, s)) ` set (c # cs) \<subseteq> A" for A
  proof -
    have sub: "{x \<in> A. \<not> results_cover le res1 x} \<subseteq> {x \<in> A. \<not> results_cover le res x}" using up by blast
    have "card {x \<in> A. \<not> results_cover le res1 x} + length add \<le> card {x \<in> A. \<not> results_cover le res x}"
    proof (cases b)
      case True
      then have "card {x \<in> A. \<not> results_cover le res1 x} < card {x \<in> A. \<not> results_cover le res x}"
        using A here one(4) by (intro card_removed [OF _ sub, of "(l, k, s)"]) (auto simp: c)
      then show ?thesis using True by (simp add: add_def)
    next
      case False
      then show ?thesis using sub A(1) by (simp add: add_def card_mono)
    qed
    with ih(8) [OF A(1)] A(2) show ?thesis by simp
  qed
  moreover have "results_entries res1 \<subseteq> results_entries res \<union> set add"
    using one(3,5) by (cases b) (auto simp: res1_def add_def)
  moreover have "fst ` set res1 = insert l (fst ` set res)"
    using dom_map_of_conv_image_fst [of res] dom_map_of_conv_image_fst [of res1] by (auto simp: res1_def update_conv')
  moreover have "w' = w @ add @ new" using ih(5) by (simp add: w1_def add_def)
  ultimately show ?case using ih up here
    by (intro conjI exI [of _ "add @ new"]) (auto simp: c add_def)
qed

lemma summarize_loop_ok:
  fixes fb re ri defines "P \<equiv> summarize_preds fb re ri"
  assumes fin: "finite A"
    and closed: "\<And>l k s l' s'. (l, k, s) \<in> A \<Longrightarrow> (l', s') \<in> set (P l s) \<Longrightarrow> (l', k, s') \<in> A"
  assumes "results_inv le res" "set w \<subseteq> A" "results_entries res \<subseteq> A" "fst ` set res \<subseteq> fst ` A"
    and "\<forall>x \<in> B \<union> results_entries res. x \<in> set w \<or> settled le P res x"
  shows "\<exists>res'. summarize_loop le fb re ri (res, w) = Some res' \<and> results_inv le res'
    \<and> results_entries res' \<subseteq> A \<and> fst ` set res' \<subseteq> fst ` A
    \<and> (\<forall>x \<in> B \<union> results_entries res'. settled le P res' x)"
  using assms(4-)
proof (induction "card {x \<in> A. \<not> results_cover le res x} + length w" arbitrary: res w rule: less_induct)
  case less
  show ?case
  proof (cases w)
    case Nil
    with less.prems show ?thesis by (subst summarize_loop.simps) auto
  next
    case (Cons x w1)
    obtain l k s where x: "x = (l, k, s)" by (cases x)
    obtain res' w' where pu: "summarize_push le k (P l s) (res, w1) = (res', w')" by fastforce
    from summarize_push_ok [OF less.prems(1) pu] obtain new where
      st: "results_inv le res'" "\<And>y. results_cover le res y \<Longrightarrow> results_cover le res' y"
      "\<forall>(l', s') \<in> set (P l s). results_cover le res' (l', k, s')" "fst ` set res' = fst ` set res \<union> fst ` set (P l s)"
      "w' = w1 @ new" "set new \<subseteq> (\<lambda>(l, s). (l, k, s)) ` set (P l s)" "results_entries res' \<subseteq> results_entries res \<union> set new"
      and ca: "\<And>A. finite A \<Longrightarrow> (\<lambda>(l, s). (l, k, s)) ` set (P l s) \<subseteq> A \<Longrightarrow>
        card {x \<in> A. \<not> results_cover le res' x} + length new \<le> card {x \<in> A. \<not> results_cover le res x}"
      by blast
    have preds: "(\<lambda>(l, s). (l, k, s)) ` set (P l s) \<subseteq> A" using closed [of l k s] less.prems(2) by (auto simp: Cons x)
    then have keys: "fst ` set (P l s) \<subseteq> fst ` A" by force
    have dec: "card {x \<in> A. \<not> results_cover le res' x} + length w' < card {x \<in> A. \<not> results_cover le res x} + length w"
      using ca [OF fin preds] by (simp add: Cons st(5))
    have here: "settled le P res' x" using st(3) by (simp add: settled_def x)
    have keep: "settled le P res y \<Longrightarrow> settled le P res' y" for y using st(2) by (auto simp: settled_def)
    have all: "\<forall>y \<in> B \<union> results_entries res'. y \<in> set w' \<or> settled le P res' y"
    proof
      fix y assume "y \<in> B \<union> results_entries res'"
      then consider "y \<in> B \<union> results_entries res" | "y \<in> set new" using st(7) by blast
      then show "y \<in> set w' \<or> settled le P res' y"
      proof cases
        case 1
        then consider "y = x" | "y \<in> set w1" | "settled le P res y" using less.prems(5) by (auto simp: Cons)
        then show ?thesis using here keep [of y] by cases (auto simp: st(5))
      qed (simp add: st(5))
    qed
    have new: "set new \<subseteq> A" using st(6) preds by blast
    have "set w' \<subseteq> A" using less.prems(2) new by (simp add: Cons st(5))
    moreover have "results_entries res' \<subseteq> A" using less.prems(3) new st(7) by blast
    moreover have "fst ` set res' \<subseteq> fst ` A" using less.prems(4) keys by (simp add: st(4))
    ultimately have sub: "set w' \<subseteq> A" "results_entries res' \<subseteq> A" "fst ` set res' \<subseteq> fst ` A" .
    from less.hyps [OF dec st(1) sub all] show ?thesis
      by (subst summarize_loop.simps) (simp add: Cons x pu P_def [symmetric])
  qed
qed

end

section \<open>Summaries and reachability\<close>

text \<open>Reachability as a closure, for inductions from the front.\<close>

definition tr_steps :: "('s \<Rightarrow> 't \<Rightarrow> 't option) \<Rightarrow> ('t, 's) tracker \<Rightarrow> ((location \<times> 't) \<times> (location \<times> 't)) set" where
  "tr_steps ri tr = {((l, t), x). \<exists>ss. tracker_succs ri tr l t = Some ss \<and> x \<in> set ss}"

lemma tr_reaches_rtrancl:
  "tr_reaches ri tr lt lt' \<longleftrightarrow> fst lt \<in> tr_locs tr \<and> (lt, lt') \<in> (tr_steps ri tr)\<^sup>*"
proof
  assume "tr_reaches ri tr lt lt'"
  then show "fst lt \<in> tr_locs tr \<and> (lt, lt') \<in> (tr_steps ri tr)\<^sup>*"
  proof (induction rule: tr_reaches.induct)
    case (step lt l t ss l' t')
    then have "((l, t), (l', t')) \<in> tr_steps ri tr" by (auto simp: tr_steps_def)
    with step.IH show ?case by auto
  qed simp
next
  assume a: "fst lt \<in> tr_locs tr \<and> (lt, lt') \<in> (tr_steps ri tr)\<^sup>*"
  then have "(lt, lt') \<in> (tr_steps ri tr)\<^sup>*" by simp
  then show "tr_reaches ri tr lt lt'"
  proof (induction rule: rtrancl_induct)
    case base
    then show ?case using a tr_reaches.refl [of "fst lt" tr ri "snd lt"] by simp
  next
    case (step y z)
    then show ?case using tr_reaches.step [of ri tr lt "fst y" "snd y" _ "fst z" "snd z"] by (auto simp: tr_steps_def)
  qed
qed

definition tr_preds ::
  "('s \<Rightarrow> 's \<Rightarrow> 's option) \<Rightarrow> ('t, 's) tracker \<Rightarrow> location \<Rightarrow> 's \<Rightarrow> (location \<times> 's) list" where
  "tr_preds fb tr = summarize_preds fb (reverse_edges (tr_edges tr)) (reverse_internal (tr_nodes tr))"

lemma tr_preds_locs:
  assumes "(l', s') \<in> set (tr_preds fb tr l s)" and "length (tr_edges tr) = length (tr_nodes tr)"
  shows "l' \<in> builder_locs (tr_graph tr)"
proof (cases "loc_port l")
  case (PortTarget p)
  with assms(1) have "(l, l') \<in> set (edge_pairs (tr_edges tr))"
    by (auto simp: tr_preds_def summarize_preds_def intro: reverse_edges_Some [OF sym] split: option.splits)
  with assms(2) show ?thesis by (auto simp: set_edge_pairs builder_locs_def tr_graph_def)
next
  case (PortSource p)
  with assms show ?thesis
    by (auto simp: tr_preds_def summarize_preds_source set_internal_pairs builder_locs_def tr_graph_def new_target_def new_source_def)
qed

context path_summary
begin

lemma tr_preds_sound:
  assumes "(l', s') \<in> set (tr_preds followed_by tr l s)" and "results_in s' t = Some u"
  shows "\<exists>ss t1. tracker_succs results_in tr l' t = Some ss \<and> (l, t1) \<in> set ss \<and> results_in s t1 = Some u"
proof (cases "loc_port l")
  case (PortTarget p)
  with assms(1) have "(l, l') \<in> set (edge_pairs (tr_edges tr))" "s' = s"
    by (auto simp: tr_preds_def summarize_preds_def intro: reverse_edges_Some [OF sym] split: option.splits)
  with assms(2) show ?thesis by (fastforce simp: set_edge_pairs tracker_succs_def vec_get_def)
next
  case (PortSource p)
  with assms(1) obtain n i a s0 q where
    o: "n < length (tr_nodes tr)" "i < length (tr_nodes tr ! n)" "(q, a) \<in> set (pc_iter_ports (tr_nodes tr ! n ! i))"
    "l = new_source n q" "s0 \<in> set (ac_elements a)" "followed_by s0 s = Some s'" "l' = new_target n i"
    by (auto simp: tr_preds_def summarize_preds_source set_internal_pairs new_source_def)
  have "Option.bind (results_in s0 t) (results_in s) = Some u"
    using results_followed_by [of s0 s t] o(6) assms(2) by simp
  then obtain t1 where t1: "results_in s0 t = Some t1" "results_in s t1 = Some u" by (auto simp: bind_eq_Some_conv)
  then have "t1 \<in> set (List.map_filter (\<lambda>s. results_in s t) (ac_elements a))" using o(5) by (force simp: map_filter_def)
  with o(1-4,7) t1(2) show ?thesis by (force simp: tracker_succs_def vec_get_def new_target_def new_source_def)
qed

lemma tr_preds_complete:
  assumes "unique_sources (tr_edges tr)" and "tracker_succs results_in tr l' t = Some ss" and "(l, t1) \<in> set ss"
    and "results_in s t1 = Some u"
  shows "\<exists>s'. (l', s') \<in> set (tr_preds followed_by tr l s) \<and> results_in s' t = Some u"
proof (cases "loc_port l'")
  case (PortSource p)
  with assms(2,3) obtain tg where
    o: "loc_node l' < length (tr_edges tr)" "p < length (tr_edges tr ! loc_node l')"
    "tg \<in> set (tr_edges tr ! loc_node l' ! p)" "l = location_of_target tg" "t1 = t"
    by (auto simp: tracker_succs_def vec_get_def bind_eq_Some_conv split: if_splits)
  have "l' = Location (loc_node l') (PortSource p)" using PortSource by (metis location.collapse)
  with o have "(l, l') \<in> set (edge_pairs (tr_edges tr))" unfolding set_edge_pairs by metis
  from reverse_edges_unique [OF assms(1) this] o(4,5) assms(4) show ?thesis
    by (auto simp: tr_preds_def summarize_preds_def location_of_target_def)
next
  case (PortTarget i)
  with assms(2,3) obtain q a s0 where
    o: "loc_node l' < length (tr_nodes tr)" "i < length (tr_nodes tr ! loc_node l')"
    "(q, a) \<in> set (pc_iter_ports (tr_nodes tr ! loc_node l' ! i))" "s0 \<in> set (ac_elements a)"
    "results_in s0 t = Some t1" "l = new_source (loc_node l') q"
    by (auto simp: tracker_succs_def vec_get_def bind_eq_Some_conv map_filter_def new_source_def split: if_splits)
  from results_followed_by [of s0 s t] o(5) assms(4) obtain s' where
    s': "followed_by s0 s = Some s'" "results_in s' t = Some u" by (auto simp: bind_eq_Some_conv)
  have "l' = new_target (loc_node l') i" using PortTarget by (metis location.collapse new_target_def)
  moreover have "(l, i, a) \<in> set (internal_pairs (tr_nodes tr))" using o unfolding set_internal_pairs by blast
  moreover have "loc_port l = PortSource q" "loc_node l = loc_node l'" by (simp_all add: o(6) new_source_def)
  ultimately have "(l', s') \<in> set (tr_preds followed_by tr l s)"
    using o(4) s'(1) unfolding tr_preds_def by (subst summarize_preds_source) auto
  with s' show ?thesis by blast
qed

end

text \<open>The scope output \<open>k\<close>, and the summaries of paths that lead there.\<close>

definition scope_output :: "nat \<Rightarrow> location" where
  "scope_output k = Location 0 (PortTarget k)"

definition path_to_output ::
  "('s \<Rightarrow> 't \<Rightarrow> 't option) \<Rightarrow> ('t, 's) tracker \<Rightarrow> location \<Rightarrow> nat \<Rightarrow> 's \<Rightarrow> bool" where
  "path_to_output ri tr l k s \<longleftrightarrow> (\<forall>t u. ri s t = Some u \<longrightarrow> tr_reaches ri tr (l, t) (scope_output k, u))"

lemma succ_scope_output:
  assumes "tracker_succs ri tr l t = Some ss" and "(scope_output k, u) \<in> set ss"
  shows "Target 0 k \<in> set (concat (concat (tr_edges tr)))"
proof (cases "loc_port l")
  case (PortTarget p)
  with assms show ?thesis by (auto simp: tracker_succs_def scope_output_def bind_eq_Some_conv)
next
  case (PortSource p)
  with assms obtain tg where tg: "loc_node l < length (tr_edges tr)" "p < length (tr_edges tr ! loc_node l)"
    "tg \<in> set (tr_edges tr ! loc_node l ! p)" "scope_output k = location_of_target tg"
    by (auto simp: tracker_succs_def bind_eq_Some_conv)
  then have "tg = Target 0 k" by (cases tg) (simp add: scope_output_def location_of_target_def)
  with tg(1-3) nth_mem show ?thesis by fastforce
qed

lemma scope_output_loc:
  assumes wf: "wf_builder b" and t: "t \<in> set (concat (concat (bd_edges b)))" "tgt_node t = 0"
  shows "location_of_target t = scope_output (tgt_port t) \<and> scope_output (tgt_port t) \<in> builder_locs b"
proof -
  from t obtain ps ts where "ps \<in> set (bd_edges b)" "ts \<in> set ps" "t \<in> set ts" by auto
  then obtain n where "n < length (bd_edges b)" "ts \<in> set (bd_edges b ! n)" "t \<in> set ts"
    by (metis in_set_conv_nth)
  then have "tgt_node t < length (bd_nodes b) \<and> tgt_port t < length (bd_nodes b ! tgt_node t)"
    using wf_builder_edges [OF wf, of n ts t] wf by (simp add: wf_builder_def)
  then show ?thesis using t(2)
    by (auto simp: location_of_target_def scope_output_def builder_locs_def)
qed

context path_summary
begin

lemma path_to_output_pred:
  assumes "path_to_output results_in tr l k s" and p: "(l', s') \<in> set (tr_preds followed_by tr l s)"
    and l': "l' \<in> tr_locs tr"
  shows "path_to_output results_in tr l' k s'"
  unfolding path_to_output_def
proof (intro allI impI)
  fix t u assume "results_in s' t = Some u"
  from tr_preds_sound [OF p this] obtain ss t1 where
    "tracker_succs results_in tr l' t = Some ss" "(l, t1) \<in> set ss" "results_in s t1 = Some u" by blast
  then have "((l', t), (l, t1)) \<in> tr_steps results_in tr" "tr_reaches results_in tr (l, t1) (scope_output k, u)"
    using assms(1) by (auto simp: tr_steps_def path_to_output_def)
  then show "tr_reaches results_in tr (l', t) (scope_output k, u)"
    using l' unfolding tr_reaches_rtrancl by (auto intro: converse_rtrancl_into_rtrancl)
qed

lemma path_to_output_base: "scope_output k \<in> tr_locs tr \<Longrightarrow> path_to_output results_in tr (scope_output k) k dflt"
  by (simp add: path_to_output_def results_default tr_reaches.refl)

lemma settled_covers:
  assumes uniq: "unique_sources (tr_edges tr)"
    and base: "\<And>k. Target 0 k \<in> set (concat (concat (tr_edges tr))) \<Longrightarrow>
      settled sle (tr_preds followed_by tr) res (scope_output k, k, dflt)"
    and entries: "\<forall>x \<in> results_entries res. settled sle (tr_preds followed_by tr) res x"
    and "(x, (scope_output k, u)) \<in> (tr_steps results_in tr)\<^sup>*"
  shows "x = (scope_output k, u) \<or>
      (\<exists>s \<in> pc_summaries (results_get res (fst x)) k. \<exists>u'. results_in s (snd x) = Some u' \<and> le u' u)"
  using assms(4)
proof (induction rule: converse_rtrancl_induct)
  case base
  then show ?case by simp
next
  case (step x y)
  obtain ss where y: "tracker_succs results_in tr (fst x) (snd x) = Some ss" "(fst y, snd y) \<in> set ss"
    using step(1) by (auto simp: tr_steps_def)
  obtain s u1 where s: "settled sle (tr_preds followed_by tr) res (fst y, k, s)" "results_in s (snd y) = Some u1" "le u1 u"
  proof (cases "y = (scope_output k, u)")
    case True
    with y base [of k] succ_scope_output [of results_in tr "fst x" "snd x" ss k u]
    have "settled sle (tr_preds followed_by tr) res (scope_output k, k, dflt)" by auto
    with True results_default [of u] le_refl [of u] that [of dflt u] show ?thesis by auto
  next
    case False
    with step.IH obtain s u1 where "s \<in> pc_summaries (results_get res (fst y)) k" "results_in s (snd y) = Some u1" "le u1 u"
      by blast
    moreover from this entries have "settled sle (tr_preds followed_by tr) res (fst y, k, s)"
      by (simp add: results_entries_def)
    ultimately show ?thesis using that by blast
  qed
  from tr_preds_complete [OF uniq y s(2)] obtain s' where
    s': "(fst x, s') \<in> set (tr_preds followed_by tr (fst y) s)" "results_in s' (snd x) = Some u1" by blast
  with s(1) obtain s2 where s2: "s2 \<in> pc_summaries (results_get res (fst x)) k" "sle s2 s'"
    by (auto simp: settled_def results_cover_def)
  from results_summary_mono [OF s2(2) s'(2)] obtain u2 where "results_in s2 (snd x) = Some u2" "le u2 u1" by blast
  with s2(1) le_trans [of u2 u1 u] s(3) show ?case by blast
qed

lemma summarize_outputs_ok:
  fixes tr :: "('t, 's) tracker"
  assumes fin: "finite (UNIV :: 's set)" and uniq: "unique_sources (tr_edges tr)"
    and wf: "wf_builder (tr_graph tr)" and locs: "tr_locs tr = builder_locs (tr_graph tr)"
  shows "\<exists>res. summarize_outputs sle dflt followed_by (tr_nodes tr) (tr_edges tr) = Some res
    \<and> results_inv sle res \<and> fst ` set res \<subseteq> tr_locs tr
    \<and> (\<forall>l k s. s \<in> pc_summaries (results_get res l) k \<longrightarrow>
         scope_output k \<in> tr_locs tr \<and> path_to_output results_in tr l k s)
    \<and> (\<forall>l t k u. tr_reaches results_in tr (l, t) (scope_output k, u) \<longrightarrow> (l, t) \<noteq> (scope_output k, u) \<longrightarrow>
         (\<exists>s \<in> pc_summaries (results_get res l) k. \<exists>u'. results_in s t = Some u' \<and> le u' u))"
proof -
  have len: "length (tr_edges tr) = length (tr_nodes tr)" using wf by (simp add: wf_builder_def tr_graph_def)
  define outs where "outs = filter (\<lambda>t. tgt_node t = 0) (concat (concat (tr_edges tr)))"
  define w where "w = map (\<lambda>t. (location_of_target t, tgt_port t, dflt)) outs"
  define A where "A = {(l, k, s). l \<in> tr_locs tr \<and> scope_output k \<in> tr_locs tr \<and> path_to_output results_in tr l k s}"
  have outl: "location_of_target t = scope_output (tgt_port t) \<and> scope_output (tgt_port t) \<in> tr_locs tr" if "t \<in> set outs" for t
    using scope_output_loc [OF wf, of t] that by (auto simp: outs_def tr_graph_def locs)
  have "A \<subseteq> tr_locs tr \<times> (scope_output -` tr_locs tr) \<times> UNIV" by (auto simp: A_def)
  moreover have "finite (scope_output -` tr_locs tr)"
    by (rule finite_vimageI) (auto simp: inj_def scope_output_def)
  ultimately have finA: "finite A" using fin finite_subset by fastforce
  have closed: "(l', k, s') \<in> A" if "(l, k, s) \<in> A" "(l', s') \<in> set (tr_preds followed_by tr l s)" for l k s l' s'
    using that path_to_output_pred [OF _ that(2)] tr_preds_locs [OF that(2) len] by (simp add: A_def locs)
  have "set w \<subseteq> A" using outl path_to_output_base by (auto simp: w_def A_def)
  moreover have "results_inv sle []" "results_entries [] = ({} :: (location \<times> nat \<times> 's) set)"
    by (simp_all add: results_inv_def results_get_def results_entries_def pc_summaries_def pc_get_def pc_default_def
        pc_inv_def bt_inv_def)
  ultimately have "\<exists>res. summarize_loop sle followed_by (reverse_edges (tr_edges tr)) (reverse_internal (tr_nodes tr)) ([], w) = Some res
      \<and> results_inv sle res \<and> results_entries res \<subseteq> A \<and> fst ` set res \<subseteq> fst ` A
      \<and> (\<forall>x \<in> set w \<union> results_entries res. settled sle (tr_preds followed_by tr) res x)"
    unfolding tr_preds_def
    by (intro partial_order_laws.summarize_loop_ok [OF summary_order finA])
      (use closed in \<open>auto simp: tr_preds_def\<close>)
  then obtain res where
    res: "summarize_loop sle followed_by (reverse_edges (tr_edges tr)) (reverse_internal (tr_nodes tr)) ([], w) = Some res"
      "results_inv sle res" "results_entries res \<subseteq> A" "fst ` set res \<subseteq> fst ` A"
      "\<forall>x \<in> set w \<union> results_entries res. settled sle (tr_preds followed_by tr) res x" by blast
  have "(scope_output k, k, dflt) \<in> set w" if "Target 0 k \<in> set (concat (concat (tr_edges tr)))" for k
    using that by (force simp: w_def outs_def location_of_target_def scope_output_def)
  then have cover: "x = (scope_output k, u) \<or>
      (\<exists>s \<in> pc_summaries (results_get res (fst x)) k. \<exists>u'. results_in s (snd x) = Some u' \<and> le u' u)"
    if "(x, (scope_output k, u)) \<in> (tr_steps results_in tr)\<^sup>*" for x k u
    using settled_covers [OF uniq _ _ that] res(5) by blast
  have "fst ` set res \<subseteq> tr_locs tr" using res(4) by (auto simp: A_def)
  moreover have "scope_output k \<in> tr_locs tr \<and> path_to_output results_in tr l k s"
    if "s \<in> pc_summaries (results_get res l) k" for l k s
    using res(3) that by (auto simp: results_entries_def A_def)
  moreover have "\<exists>s \<in> pc_summaries (results_get res l) k. \<exists>u'. results_in s t = Some u' \<and> le u' u"
    if "tr_reaches results_in tr (l, t) (scope_output k, u)" "(l, t) \<noteq> (scope_output k, u)" for l t k u
    using cover [of "(l, t)" k u] that by (auto simp: tr_reaches_rtrancl)
  moreover have "summarize_outputs sle dflt followed_by (tr_nodes tr) (tr_edges tr) = Some res"
    using res(1) by (simp add: summarize_outputs_def Let_def w_def outs_def)
  ultimately show ?thesis using res(2) by (intro exI [of _ res]) simp
qed

end

section \<open>The tracker that is built\<close>

text \<open>
  A connectivity summarizes the paths of a location: each of its summaries is that of paths to
  the scope output, and what can be reached at a scope output is at or after the result of one
  of them.
\<close>

definition summarizes ::
  "('t \<Rightarrow> 't \<Rightarrow> bool) \<Rightarrow> ('s \<Rightarrow> 't \<Rightarrow> 't option) \<Rightarrow> ('t, 's) tracker \<Rightarrow> location \<Rightarrow> 's port_connectivity \<Rightarrow> bool" where
  "summarizes le ri tr l pc \<longleftrightarrow>
     (\<forall>k. \<forall>s \<in> pc_summaries pc k. path_to_output ri tr l k s)
     \<and> (\<forall>t k u. tr_reaches ri tr (l, t) (scope_output k, u) \<longrightarrow>
          (\<exists>s \<in> pc_summaries pc k. \<exists>u'. ri s t = Some u' \<and> le u' u))"

text \<open>Every port inside the scope has the summaries of its paths; the scope's own ports have none.\<close>

definition tr_summarized ::
  "('s \<Rightarrow> 's \<Rightarrow> bool) \<Rightarrow> ('t \<Rightarrow> 't \<Rightarrow> bool) \<Rightarrow> ('s \<Rightarrow> 't \<Rightarrow> 't option) \<Rightarrow> ('t, 's) tracker \<Rightarrow> bool" where
  "tr_summarized sle le ri tr \<longleftrightarrow> (\<forall>l \<in> tr_locs tr. let p = pi_output_summaries (the (tr_get tr l)) in
     pc_inv sle p \<and> (if loc_node l = 0 then p = pc_default else summarizes le ri tr l p))"

lemma tr_reaches_cong:
  "tr_locs tr' = tr_locs tr \<Longrightarrow> tracker_succs ri tr' = tracker_succs ri tr \<Longrightarrow> tr_reaches ri tr' = tr_reaches ri tr"
  by (simp add: fun_eq_iff tr_reaches_rtrancl tr_steps_def)

lemma install_summaries_ok:
  assumes "\<forall>l \<in> fst ` set ls. l \<in> tr_locs tr" and "\<forall>p. new_source 0 p \<in> fst ` set ls \<longrightarrow> p < length bs"
    and "distinct (map fst ls)"
  shows "\<exists>ops bs'. install_summaries ls (tr, bs) = Some (tr\<lparr>tr_per_operator := ops\<rparr>, bs') \<and> length bs' = length bs
    \<and> (\<forall>l. tr_get (tr\<lparr>tr_per_operator := ops\<rparr>) l = (case map_of ls l of
         Some s \<Rightarrow> if loc_node l = 0 then tr_get tr l else map_option (\<lambda>p. p\<lparr>pi_output_summaries := s\<rparr>) (tr_get tr l)
       | None \<Rightarrow> tr_get tr l))
    \<and> (\<forall>p < length bs. bs' ! p = (case map_of ls (new_source 0 p) of Some s \<Rightarrow> s | None \<Rightarrow> bs ! p))"
  using assms
proof (induction ls arbitrary: tr bs)
  case Nil
  show ?case by (intro exI [of _ "tr_per_operator tr"] exI [of _ bs]) simp
next
  case (Cons c ls)
  obtain l s where c: "c = (l, s)" by (cases c)
  have fresh: "map_of ls l = None" using Cons.prems(3) by (simp add: c map_of_eq_None_iff)
  show ?case
  proof (cases "loc_node l = 0")
    case True
    show ?thesis
    proof (cases "loc_port l")
      case (PortTarget p)
      have ne: "new_source 0 q \<noteq> l" for q using PortTarget by (cases l) (auto simp: new_source_def)
      from Cons.IH [of tr bs] Cons.prems obtain ops bs' where
        "install_summaries ls (tr, bs) = Some (tr\<lparr>tr_per_operator := ops\<rparr>, bs')" "length bs' = length bs"
        "\<And>l. tr_get (tr\<lparr>tr_per_operator := ops\<rparr>) l = (case map_of ls l of
           Some s \<Rightarrow> if loc_node l = 0 then tr_get tr l else map_option (\<lambda>p. p\<lparr>pi_output_summaries := s\<rparr>) (tr_get tr l)
         | None \<Rightarrow> tr_get tr l)"
        "\<And>p. p < length bs \<Longrightarrow> bs' ! p = (case map_of ls (new_source 0 p) of Some s \<Rightarrow> s | None \<Rightarrow> bs ! p)"
        by (auto simp: c)
      then show ?thesis
        by (intro exI [of _ ops] exI [of _ bs']) (auto simp: c True PortTarget fresh ne)
    next
      case (PortSource p)
      have l: "l = new_source 0 p" using PortSource True by (cases l) (simp add: new_source_def)
      have p: "p < length bs" using Cons.prems(2) by (simp add: c l)
      from Cons.IH [of tr "bs[p := s]"] Cons.prems obtain ops bs' where
        "install_summaries ls (tr, bs[p := s]) = Some (tr\<lparr>tr_per_operator := ops\<rparr>, bs')" "length bs' = length bs"
        "\<And>l. tr_get (tr\<lparr>tr_per_operator := ops\<rparr>) l = (case map_of ls l of
           Some s \<Rightarrow> if loc_node l = 0 then tr_get tr l else map_option (\<lambda>p. p\<lparr>pi_output_summaries := s\<rparr>) (tr_get tr l)
         | None \<Rightarrow> tr_get tr l)"
        "\<And>q. q < length bs \<Longrightarrow> bs' ! q = (case map_of ls (new_source 0 q) of Some s \<Rightarrow> s | None \<Rightarrow> bs[p := s] ! q)"
        by (auto simp: c)
      then show ?thesis using fresh p
        by (intro exI [of _ ops] exI [of _ bs']) (auto simp: c l vec_set_def new_source_def nth_list_update split: option.splits)
    qed
  next
    case False
    obtain p where p: "tr_get tr l = Some p" using Cons.prems(1) by (auto simp: c tr_locs_def)
    from tr_set_get [OF p, of "p\<lparr>pi_output_summaries := s\<rparr>"] obtain ops1 where
      o: "tr_set tr l (p\<lparr>pi_output_summaries := s\<rparr>) = Some (tr\<lparr>tr_per_operator := ops1\<rparr>)"
      "\<And>l'. tr_get (tr\<lparr>tr_per_operator := ops1\<rparr>) l' = (if l' = l then Some (p\<lparr>pi_output_summaries := s\<rparr>) else tr_get tr l')"
      by blast
    have "tr_locs (tr\<lparr>tr_per_operator := ops1\<rparr>) = tr_locs tr" by (auto simp: tr_locs_def o(2) p)
    with Cons.IH [of "tr\<lparr>tr_per_operator := ops1\<rparr>" bs] Cons.prems obtain ops bs' where
      "install_summaries ls (tr\<lparr>tr_per_operator := ops1\<rparr>, bs) = Some (tr\<lparr>tr_per_operator := ops\<rparr>, bs')" "length bs' = length bs"
      "\<And>l'. tr_get (tr\<lparr>tr_per_operator := ops\<rparr>) l' = (case map_of ls l' of
         Some s \<Rightarrow> if loc_node l' = 0 then tr_get (tr\<lparr>tr_per_operator := ops1\<rparr>) l'
           else map_option (\<lambda>p. p\<lparr>pi_output_summaries := s\<rparr>) (tr_get (tr\<lparr>tr_per_operator := ops1\<rparr>) l')
       | None \<Rightarrow> tr_get (tr\<lparr>tr_per_operator := ops1\<rparr>) l')"
      "\<And>p. p < length bs \<Longrightarrow> bs' ! p = (case map_of ls (new_source 0 p) of Some s \<Rightarrow> s | None \<Rightarrow> bs ! p)"
      by (auto simp: c)
    moreover have "new_source 0 q \<noteq> l" for q using False by (auto simp: new_source_def)
    ultimately show ?thesis using fresh p o False
      by (intro exI [of _ ops] exI [of _ bs']) (auto simp: c split: option.splits)
  qed
qed

lemma tr_graph_sel [simp]: "bd_nodes (tr_graph tr) = tr_nodes tr" "bd_edges (tr_graph tr) = tr_edges tr"
  by (simp_all add: tr_graph_def)

lemma wf_builder_length: "wf_builder b \<Longrightarrow> length (bd_edges b) = length (bd_nodes b)"
  by (simp add: wf_builder_def)

lemma tr_graph_eq:
  assumes "wf_builder b" and "tr_nodes tr = bd_nodes b" "tr_edges tr = bd_edges b"
  shows "tr_graph tr = b"
proof -
  have "map2 (\<lambda>ins outs. (length ins, length outs)) (bd_nodes b) (bd_edges b) = bd_shape b"
    using assms(1) by (intro nth_equalityI) (auto simp: wf_builder_def)
  then show ?thesis by (simp add: tr_graph_def assms)
qed

lemma tr_get_empty:
  assumes "wf_builder b"
  shows "tr_get (tracker_empty b m) l = (if l \<in> builder_locs b then Some pi_new else None)"
  using assms by (cases l; cases "loc_port l")
    (auto simp: tr_get_def tracker_empty_def vec_get_def builder_locs_def wf_builder_def po_new_def case_prod_unfold)

lemma graph_succs:
  assumes wf: "wf_builder (tr_graph tr)" and l: "l \<in> builder_locs (tr_graph tr)"
  shows "\<exists>ss. tracker_succs ri tr l t = Some ss \<and> fst ` set ss \<subseteq> builder_locs (tr_graph tr)"
proof (cases "loc_port l")
  case (PortTarget p)
  have n: "loc_node l < length (tr_nodes tr)" "p < length (tr_nodes tr ! loc_node l)"
    using l PortTarget by (auto simp: builder_locs_def tr_graph_def)
  have "k < length (tr_edges tr ! loc_node l)" if "(k, a) \<in> set (pc_iter_ports (tr_nodes tr ! loc_node l ! p))" for k a
    using wf_builder_nodes [OF wf, of "loc_node l" "tr_nodes tr ! loc_node l ! p" k a] n that by (simp add: tr_graph_def)
  with n PortTarget show ?thesis by (auto simp: tracker_succs_def vec_get_def builder_locs_def tr_graph_def)
next
  case (PortSource p)
  have n: "loc_node l < length (tr_nodes tr)" "loc_node l < length (tr_edges tr)" "p < length (tr_edges tr ! loc_node l)"
    using l PortSource wf_builder_length [OF wf] by (auto simp: builder_locs_def)
  have "location_of_target tg \<in> builder_locs (tr_graph tr)" if "tg \<in> set (tr_edges tr ! loc_node l ! p)" for tg
    using wf_builder_edges [OF wf, of "loc_node l" "tr_edges tr ! loc_node l ! p" tg] n that
    by (simp add: builder_locs_def location_of_target_def tr_graph_def)
  with n PortSource show ?thesis by (auto simp: tracker_succs_def vec_get_def)
qed

context timestamp_order
begin

lemma tr_inv_initial:
  assumes wf: "wf_builder (tr_graph tr)" and locs: "tr_locs tr = builder_locs (tr_graph tr)"
    and "\<forall>l \<in> tr_locs tr. tr_pts tr l = ma_new \<and> tr_imp tr l = ma_new"
    and "tr_worklist tr = []" "tr_total_counts tr = 0"
    and ports: "\<And>l k a. l \<in> tr_locs tr \<Longrightarrow> (k, a) \<in> set (pc_iter_ports (pi_output_summaries (the (tr_get tr l)))) \<Longrightarrow>
      k < length (tr_output_changes tr)"
  shows "tr_inv le ri tr"
proof -
  have "tr_wf ri tr"
    unfolding tr_wf_def using graph_succs [OF wf, of _ ri] locs ports assms(4) by (auto simp del: pc_iter_ports_def)
  moreover have new: "ma_frontier ma_new = []" "ma_count ma_new t = 0" for t :: 't
    by (simp_all add: ma_new_def ma_count_def)
  have "tr_balanced ri tr" using assms(3,4) by (simp add: tr_balanced_def new tr_work_def)
  moreover have "tr_counted tr" using assms(3,5) by (simp add: tr_counted_def new)
  ultimately show ?thesis using assms(3) by (simp add: tr_inv_def ma_inv_new)
qed

end

lemma results_get_none: "l \<notin> fst ` set res \<Longrightarrow> results_get res l = pc_default"
  by (simp add: results_get_def map_of_eq_None_iff [symmetric])

lemma install_results:
  assumes "distinct (map fst res)" and perm: "\<And>ks. mset (hash_order ks) = mset ks"
    and "fst ` set res \<subseteq> tr_locs tr" and "\<And>p. new_source 0 p \<in> fst ` set res \<Longrightarrow> p < ins"
  shows "\<exists>ops bs. install_summaries (map (\<lambda>l. (l, results_get res l)) (hash_order (map fst res))) (tr, replicate ins pc_default)
        = Some (tr\<lparr>tr_per_operator := ops\<rparr>, bs) \<and> length bs = ins
    \<and> (\<forall>l. tr_get (tr\<lparr>tr_per_operator := ops\<rparr>) l = map_option (\<lambda>p. if loc_node l = 0 \<or> l \<notin> fst ` set res then p
        else p\<lparr>pi_output_summaries := results_get res l\<rparr>) (tr_get tr l))
    \<and> (\<forall>p < ins. bs ! p = results_get res (new_source 0 p))"
proof -
  define ls where "ls = map (\<lambda>l. (l, results_get res l)) (hash_order (map fst res))"
  have keys: "set (hash_order (map fst res)) = fst ` set res" "distinct (hash_order (map fst res))"
    using perm [of "map fst res"] assms(1) by (metis list.set_map set_mset_mset, metis distinct_count_atmost_1 set_mset_mset)
  have mp: "map_of ls l = (if l \<in> fst ` set res then Some (results_get res l) else None)" for l
    by (simp add: ls_def map_of_map_restrict keys(1) restrict_map_def)
  have fl: "map fst ls = hash_order (map fst res)" by (simp add: ls_def comp_def)
  then have fl': "fst ` set ls = fst ` set res" using keys(1) by (metis list.set_map)
  have "\<forall>l \<in> fst ` set ls. l \<in> tr_locs tr" "\<forall>p. new_source 0 p \<in> fst ` set ls \<longrightarrow> p < length (replicate ins pc_default)"
    "distinct (map fst ls)" using assms(3,4) keys(2) fl fl' by auto
  from install_summaries_ok [OF this] obtain ops bs where
    i: "install_summaries ls (tr, replicate ins pc_default) = Some (tr\<lparr>tr_per_operator := ops\<rparr>, bs)" "length bs = ins"
    "\<And>l. tr_get (tr\<lparr>tr_per_operator := ops\<rparr>) l = (case map_of ls l of
         Some s \<Rightarrow> if loc_node l = 0 then tr_get tr l else map_option (\<lambda>p. p\<lparr>pi_output_summaries := s\<rparr>) (tr_get tr l)
       | None \<Rightarrow> tr_get tr l)"
    "\<And>p. p < ins \<Longrightarrow> bs ! p = (case map_of ls (new_source 0 p) of Some s \<Rightarrow> s | None \<Rightarrow> replicate ins pc_default ! p)"
    unfolding length_replicate by blast
  have "tr_get (tr\<lparr>tr_per_operator := ops\<rparr>) l = map_option (\<lambda>p. if loc_node l = 0 \<or> l \<notin> fst ` set res then p
        else p\<lparr>pi_output_summaries := results_get res l\<rparr>) (tr_get tr l)" for l
    by (cases "tr_get tr l") (simp_all add: i(3) mp)
  moreover have "bs ! p = results_get res (new_source 0 p)" if "p < ins" for p
    using i(4) [OF that] that by (simp add: mp results_get_none)
  ultimately show ?thesis using i(1,2) unfolding ls_def by blast
qed

context path_summary
begin

lemma allocate_from_ok:
  fixes b :: "'s builder"
  assumes fin: "finite (UNIV :: 's set)" and wf: "wf_builder b" and ne: "bd_nodes b \<noteq> []"
    and uniq: "unique_sources (bd_edges b)" and perm: "\<And>ks. mset (hash_order ks) = mset ks"
  shows "\<exists>(tr :: ('t, 's) tracker) bs. tracker_allocate_from hash_order sle dflt followed_by b = Some (tr, bs)
    \<and> tr_graph tr = b \<and> tr_locs tr = builder_locs b \<and> tr_inv le results_in tr \<and> tr_worklist tr = []
    \<and> tr_target_changes tr = cb_new \<and> tr_source_changes tr = cb_new \<and> tr_pushed_changes tr = cb_new
    \<and> tr_output_changes tr = replicate (fst (bd_shape b ! 0)) cb_new
    \<and> (\<forall>l \<in> builder_locs b. tr_pts tr l = ma_new \<and> tr_imp tr l = ma_new)
    \<and> tr_summarized sle le results_in tr
    \<and> length bs = snd (bd_shape b ! 0)
    \<and> (\<forall>i < length bs. summarizes le results_in tr (new_source 0 i) (bs ! i))"
proof -
  obtain outs ins where sh: "bd_shape b ! 0 = (outs, ins)" by (cases "bd_shape b ! 0")
  have len: "0 < length (bd_shape b)" "length (bd_nodes b ! 0) = outs" "length (bd_edges b ! 0) = ins"
    using wf ne sh by (auto simp: wf_builder_def)
  define tr0 :: "('t, 's) tracker" where "tr0 = tracker_empty b outs"
  have g0: "tr_graph tr0 = b" "tr_nodes tr0 = bd_nodes b" "tr_edges tr0 = bd_edges b"
    using tr_graph_eq [OF wf, of tr0] by (simp_all add: tr0_def tracker_empty_def)
  have get0: "tr_get tr0 l = (if l \<in> builder_locs b then Some pi_new else None)" for l
    unfolding tr0_def by (rule tr_get_empty [OF wf])
  have locs0: "tr_locs tr0 = builder_locs b" by (auto simp: tr_locs_def get0)
  from summarize_outputs_ok [of tr0] fin uniq wf locs0 obtain res where
    res: "summarize_outputs sle dflt followed_by (bd_nodes b) (bd_edges b) = Some res"
    "results_inv sle res" "fst ` set res \<subseteq> builder_locs b"
    "\<And>l k s. s \<in> pc_summaries (results_get res l) k \<Longrightarrow> scope_output k \<in> builder_locs b \<and> path_to_output results_in tr0 l k s"
    "\<And>l t k u. tr_reaches results_in tr0 (l, t) (scope_output k, u) \<Longrightarrow> (l, t) \<noteq> (scope_output k, u) \<Longrightarrow>
         \<exists>s \<in> pc_summaries (results_get res l) k. \<exists>u'. results_in s t = Some u' \<and> le u' u"
    unfolding g0 by auto
  have src: "p < ins" if "new_source 0 p \<in> builder_locs b" for p using that len(3) by (simp add: builder_locs_def new_source_def)
  have "distinct (map fst res)" using res(2) by (simp add: results_inv_def)
  from install_results [OF this perm, of tr0 ins] res(3) src locs0 obtain ops bs where
    inst: "install_summaries (map (\<lambda>l. (l, results_get res l)) (hash_order (map fst res))) (tr0, replicate ins pc_default)
        = Some (tr0\<lparr>tr_per_operator := ops\<rparr>, bs)" "length bs = ins"
    "\<And>l. tr_get (tr0\<lparr>tr_per_operator := ops\<rparr>) l = map_option (\<lambda>p. if loc_node l = 0 \<or> l \<notin> fst ` set res then p
        else p\<lparr>pi_output_summaries := results_get res l\<rparr>) (tr_get tr0 l)"
    "\<And>p. p < ins \<Longrightarrow> bs ! p = results_get res (new_source 0 p)" by blast
  define tr where "tr = tr0\<lparr>tr_per_operator := ops\<rparr>"
  have get: "tr_get tr l = (if l \<in> builder_locs b then Some (pi_new\<lparr>pi_output_summaries :=
      (if loc_node l = 0 then pc_default else results_get res l)\<rparr>) else None)" for l
    using inst(3) [of l] results_get_none [of l res] by (simp add: tr_def get0 pi_new_def)
  have locs: "tr_locs tr = builder_locs b" by (auto simp: tr_locs_def get)
  have fld: "tr_nodes tr = bd_nodes b" "tr_edges tr = bd_edges b" "tr_worklist tr = []" "tr_total_counts tr = 0"
    "tr_target_changes tr = cb_new" "tr_source_changes tr = cb_new" "tr_pushed_changes tr = cb_new"
    "tr_output_changes tr = replicate outs cb_new" by (simp_all add: tr_def tr0_def tracker_empty_def)
  have graph: "tr_graph tr = b" using tr_graph_eq [OF wf] fld by blast
  have new: "\<forall>l \<in> builder_locs b. tr_pts tr l = ma_new \<and> tr_imp tr l = ma_new"
    by (simp add: tr_pts_def tr_imp_def get pi_new_def)
  have "k < outs" if "l \<in> tr_locs tr" "(k, a) \<in> set (pc_iter_ports (pi_output_summaries (the (tr_get tr l))))" for l k a
  proof -
    have k: "(k, a) \<in> set (pc_iter_ports (results_get res l))"
      using that by (auto simp: get locs pi_new_def pc_default_def pc_iter_ports_def split: if_splits)
    have "pc_get (results_get res l) k = Some a" "ac_elements a \<noteq> []"
      using k res(2) pc_get_iter [of sle "results_get res l" k a] by (auto simp: results_inv_def pc_iter_ports_def)
    then have "hd (ac_elements a) \<in> pc_summaries (results_get res l) k" by (simp add: pc_summaries_def)
    from res(4) [OF this] len(2) show ?thesis by (simp add: builder_locs_def scope_output_def)
  qed
  then have inv: "tr_inv le results_in tr"
    using wf graph locs fld new by (intro tr_inv_initial) auto
  have reach: "tr_reaches results_in tr = tr_reaches results_in tr0"
    by (rule tr_reaches_cong) (simp add: locs locs0, simp add: tr_def)
  have sum: "summarizes le results_in tr l (results_get res l)" if "loc_node l \<noteq> 0 \<or> (\<exists>p. loc_port l = PortSource p)" for l
  proof -
    have "l \<noteq> scope_output k" for k using that by (auto simp: scope_output_def)
    then show ?thesis using res(4) [of _ l] res(5) [of l] unfolding summarizes_def path_to_output_def reach by blast
  qed
  have "tr_summarized sle le results_in tr"
    using sum res(2) by (simp add: tr_summarized_def get locs results_inv_def)
  moreover have "\<forall>i < length bs. summarizes le results_in tr (new_source 0 i) (bs ! i)"
    using sum inst(2,4) by (simp add: new_source_def)
  moreover have "tracker_allocate_from hash_order sle dflt followed_by b = Some (tr, bs)"
    using inst(1) len(1) res(1) by (simp add: tracker_allocate_from_def vec_get_def sh tr_def tr0_def)
  ultimately show ?thesis using graph locs inv fld new inst(2) sh
    by (intro exI [of _ tr] exI [of _ bs]) simp
qed

end

end
