(* ===== verification/Reachability.thy ===== *)
theory Reachability
  imports Reach_Summaries
begin

text \<open>
  The progress tracker of \<^verbatim>\<open>timely/src/progress/reachability.rs\<close> as its clients use it:
  build it from a topology, buffer updates, propagate, read frontiers and drained changes.  The
  theorems here are about whole calls of \<open>build\<close>, \<open>propagate_all\<close>,
  \<open>tracking_anything\<close> and \<open>is_global\<close>, for every timestamp type that satisfies the
  contracts of \<^theory_text>\<open>Partial_Orders\<close>.
\<close>

section \<open>Buffered updates\<close>

definition tr_buffered :: "('t, 's) tracker \<Rightarrow> location \<Rightarrow> 't \<Rightarrow> int" where
  "tr_buffered tr l t =
     (case loc_port l of
        PortTarget p \<Rightarrow> cb_count (tr_target_changes tr) (Target (loc_node l) p, t)
      | PortSource p \<Rightarrow> cb_count (tr_source_changes tr) (Source (loc_node l) p, t))"

lemma tr_field_simps [simp]:
  "tr_locs (tr\<lparr>tr_target_changes := a\<rparr>) = tr_locs tr" "tr_locs (tr\<lparr>tr_source_changes := b\<rparr>) = tr_locs tr"
  "tr_pts (tr\<lparr>tr_target_changes := a\<rparr>) = tr_pts tr" "tr_pts (tr\<lparr>tr_source_changes := b\<rparr>) = tr_pts tr"
  "tr_imp (tr\<lparr>tr_target_changes := a\<rparr>) = tr_imp tr" "tr_imp (tr\<lparr>tr_source_changes := b\<rparr>) = tr_imp tr"
  "tr_graph (tr\<lparr>tr_target_changes := a\<rparr>) = tr_graph tr" "tr_graph (tr\<lparr>tr_source_changes := b\<rparr>) = tr_graph tr"
  by (simp_all add: tr_locs_def tr_pts_def tr_imp_def tr_graph_def fun_eq_iff)

lemma tr_inv_buffers [simp]:
  "tr_inv le ri (tr\<lparr>tr_target_changes := a\<rparr>) = tr_inv le ri tr"
  "tr_inv le ri (tr\<lparr>tr_source_changes := b\<rparr>) = tr_inv le ri tr"
  by (simp_all add: tr_inv_def tr_wf_def tr_balanced_def tr_counted_def succs_at_def)

lemma tr_evolves_buffers [simp]:
  "tr_evolves ri (tr\<lparr>tr_target_changes := a\<rparr>) tr' = tr_evolves ri tr tr'"
  "tr_evolves ri (tr\<lparr>tr_source_changes := b\<rparr>) tr' = tr_evolves ri tr tr'"
  by (simp_all add: tr_evolves_def tr_projection_def)

lemma upd_count_target_locs:
  "upd_count (map (\<lambda>((k, t), d). ((location_of_target k, t), d)) us) (l, t)
   = (case loc_port l of PortTarget p \<Rightarrow> upd_count us (Target (loc_node l) p, t) | PortSource p \<Rightarrow> 0)"
proof (induction us)
  case (Cons u us)
  obtain k t' d where u: "u = ((k, t'), d)" by (metis surj_pair)
  have "location_of_target k = l \<longleftrightarrow> (\<exists>p. loc_port l = PortTarget p \<and> k = Target (loc_node l) p)"
    by (cases k; cases l) (auto simp: location_of_target_def)
  with Cons show ?case by (auto simp: u split: port.splits)
qed (simp split: port.split)

lemma upd_count_source_locs:
  "upd_count (map (\<lambda>((k, t), d). ((location_of_source k, t), d)) us) (l, t)
   = (case loc_port l of PortTarget p \<Rightarrow> 0 | PortSource p \<Rightarrow> upd_count us (Source (loc_node l) p, t))"
proof (induction us)
  case (Cons u us)
  obtain k t' d where u: "u = ((k, t'), d)" by (metis surj_pair)
  have "location_of_source k = l \<longleftrightarrow> (\<exists>p. loc_port l = PortSource p \<and> k = Source (loc_node l) p)"
    by (cases k; cases l) (auto simp: location_of_source_def)
  with Cons show ?case by (auto simp: u split: port.splits)
qed (simp split: port.split)

lemma drain_keys:
  assumes "u \<in> set (fst (cb_drain b))"
  shows "fst u \<in> fst ` set (cb_updates b)"
proof -
  have acc: "fst ` set (cb_accumulate us) = fst ` set us" for us :: "('a \<times> int) list"
    by (metis fst_accumulate set_map)
  have "set (fst (cb_drain b)) \<subseteq> set (cb_accumulate (sort_key fst (cb_updates b))) \<union> set (cb_updates b)"
    by (auto simp: cb_drain_fst cb_compact_def Let_def split: if_splits)
  with assms acc [of "sort_key fst (cb_updates b)"] show ?thesis by force
qed

section \<open>propagate_all\<close>

text \<open>The topology is one that \<open>is_acyclic\<close> accepts, in any iteration order.\<close>

definition tr_accepted :: "'s \<Rightarrow> ('t, 's) tracker \<Rightarrow> bool" where
  "tr_accepted dflt tr \<longleftrightarrow> wf_builder (tr_graph tr) \<and> builder_is_acyclic id dflt (tr_graph tr) = Some True"

lemma tr_accepted_facts:
  assumes "tr_accepted dflt tr"
  shows "length (tr_edges tr) = length (tr_nodes tr)" and "acyclic (default_edges dflt (tr_graph tr))"
    and "wf ((default_edges dflt (tr_graph tr))\<inverse>)"
proof -
  have wf: "wf_builder (tr_graph tr)" using assms by (simp add: tr_accepted_def)
  show "length (tr_edges tr) = length (tr_nodes tr)" using wf_builder_length [OF wf] by simp
  show "acyclic (default_edges dflt (tr_graph tr))"
    using is_acyclic_iff [OF wf, of id dflt] assms by (simp add: tr_accepted_def)
  then show "wf ((default_edges dflt (tr_graph tr))\<inverse>)"
    using finite_default_edges [OF wf] by (simp add: finite_acyclic_wf_converse)
qed

lemma tr_graph_evolves: "tr_evolves ri tr tr' \<Longrightarrow> tr_graph tr' = tr_graph tr"
  by (simp add: tr_evolves_def tr_graph_def)

context bounded_summary
begin

lemma propagate_all_ok:
  assumes inv: "tr_inv le results_in tr" and acc: "tr_accepted dflt tr" and buf: "tr_buffers_ok tr"
  shows "\<exists>tr'. tracker_propagate_all le results_in tr = Some tr' \<and> tr_inv le results_in tr' \<and> tr_worklist tr' = []
    \<and> tr_target_changes tr' = cb_new \<and> tr_source_changes tr' = cb_new \<and> tr_evolves results_in tr tr'
    \<and> (\<forall>l \<in> tr_locs tr. \<forall>t. ma_count (tr_pts tr' l) t = ma_count (tr_pts tr l) t + tr_buffered tr l t)"
proof -
  obtain ts where ts: "cb_drain (tr_target_changes tr) = (ts, cb_new)" "ts = fst (cb_drain (tr_target_changes tr))"
    by (metis cb_drain_snd prod.collapse)
  obtain ss where ss: "cb_drain (tr_source_changes tr) = (ss, cb_new)" "ss = fst (cb_drain (tr_source_changes tr))"
    by (metis cb_drain_snd prod.collapse)
  let ?tr0 = "tr\<lparr>tr_target_changes := cb_new\<rparr>"
  have "\<forall>u \<in> set ts. location_of_target (fst (fst u)) \<in> tr_locs ?tr0"
    using buf drain_keys [of _ "tr_target_changes tr"] by (fastforce simp: ts(2) tr_buffers_ok_def)
  then obtain tr1 where 1: "absorb_changes le results_in location_of_target ts ?tr0 = Some tr1" "tr_inv le results_in tr1"
    "tr_evolves results_in tr tr1" "tr_target_changes tr1 = cb_new" "tr_source_changes tr1 = tr_source_changes tr"
    "\<And>l t. l \<in> tr_locs tr \<Longrightarrow> ma_count (tr_pts tr1 l) t
        = ma_count (tr_pts tr l) t + upd_count (map (\<lambda>((k, t), d). ((location_of_target k, t), d)) ts) (l, t)"
    using absorb_changes_ok [of results_in ?tr0 ts location_of_target] inv by auto
  have l1: "tr_locs tr1 = tr_locs tr" using 1(3) by (simp add: tr_evolves_def)
  let ?tr1 = "tr1\<lparr>tr_source_changes := cb_new\<rparr>"
  have "\<forall>u \<in> set ss. location_of_source (fst (fst u)) \<in> tr_locs ?tr1"
    using buf drain_keys [of _ "tr_source_changes tr"] by (fastforce simp: ss(2) tr_buffers_ok_def l1)
  then obtain tr2 where 2: "absorb_changes le results_in location_of_source ss ?tr1 = Some tr2" "tr_inv le results_in tr2"
    "tr_evolves results_in tr1 tr2" "tr_target_changes tr2 = cb_new" "tr_source_changes tr2 = cb_new"
    "\<And>l t. l \<in> tr_locs tr \<Longrightarrow> ma_count (tr_pts tr2 l) t
        = ma_count (tr_pts tr1 l) t + upd_count (map (\<lambda>((k, t), d). ((location_of_source k, t), d)) ss) (l, t)"
    using absorb_changes_ok [of results_in ?tr1 ss location_of_source] 1(2,4) l1 by auto
  have ev: "tr_evolves results_in tr tr2" using tr_evolves_trans 1(3) 2(3) by blast
  have g: "tr_graph tr2 = tr_graph tr" by (rule tr_graph_evolves [OF ev])
  have "length (tr_edges tr2) = length (tr_nodes tr2)"
    using tr_accepted_facts(1) [OF acc] ev by (simp add: tr_evolves_def)
  from propagate_loop_ok [OF tr_accepted_facts(3) [OF acc] 2(2) this] g obtain tr3 where
    3: "propagate_loop le results_in tr2 = Some tr3" "tr_worklist tr3 = []" "tr_inv le results_in tr3"
    "tr_evolves results_in tr2 tr3" "tr_pts tr3 = tr_pts tr2" "tr_target_changes tr3 = cb_new" "tr_source_changes tr3 = cb_new"
    using 2(4,5) by auto
  have "tracker_propagate_all le results_in tr = Some tr3"
    using 1(1,5) 2(1) 3(1) by (simp add: tracker_propagate_all_def ts(1) ss(1))
  moreover have "ma_count (tr_pts tr3 l) t = ma_count (tr_pts tr l) t + tr_buffered tr l t" if "l \<in> tr_locs tr" for l t
    using 1(6) [OF that] 2(6) [OF that] cb_count_drain [of "tr_target_changes tr"] cb_count_drain [of "tr_source_changes tr"]
    by (simp add: 3(5) upd_count_target_locs upd_count_source_locs tr_buffered_def ts(1) ss(1) split: port.split)
  ultimately show ?thesis using 3 tr_evolves_trans [OF ev 3(4)] by blast
qed

end

section \<open>Projection to the scope outputs\<close>

lemma set_out_times:
  assumes "pc_inv sle p"
  shows "set (out_times ri (pc_iter_ports p) k t) = {u. \<exists>s \<in> pc_summaries p k. ri s t = Some u}"
proof -
  have "u \<in> set (out_times ri (pc_iter_ports p) k t) \<longleftrightarrow>
      (\<exists>a s. (k, a) \<in> set (pc_iter_ports p) \<and> s \<in> set (ac_elements a) \<and> ri s t = Some u)" for u
    by (force simp: out_times_def map_filter_def split: if_splits)
  then have "u \<in> set (out_times ri (pc_iter_ports p) k t) \<longleftrightarrow> (\<exists>s \<in> pc_summaries p k. ri s t = Some u)" for u
    unfolding pc_get_iter [OF assms, symmetric] by (simp add: pc_summaries_def Bex_def split: option.split)
  then show ?thesis by blast
qed

lemma tr_projection_pos:
  assumes "tr_summarized sle le ri tr"
  shows "tr_projection ri tr k u > 0 \<longleftrightarrow> (\<exists>l \<in> tr_locs tr. \<exists>t \<in> set (ma_frontier (tr_pts tr l)).
    \<exists>s \<in> pc_summaries (pi_output_summaries (the (tr_get tr l))) k. ri s t = Some u)"
proof -
  define g where "g l t = int (count_list (out_times ri (pc_iter_ports (pi_output_summaries (the (tr_get tr l)))) k t) u)" for l t
  have "g l t = 0 \<longleftrightarrow> \<not> (\<exists>s \<in> pc_summaries (pi_output_summaries (the (tr_get tr l))) k. ri s t = Some u)" if "l \<in> tr_locs tr" for l t
  proof -
    have "pc_inv sle (pi_output_summaries (the (tr_get tr l)))" using assms that by (simp add: tr_summarized_def Let_def)
    from set_out_times [OF this, of ri k t] show ?thesis by (auto simp: g_def count_list_0_iff)
  qed
  moreover have "(\<Sum>l \<in> tr_locs tr. sum (g l) (set (ma_frontier (tr_pts tr l)))) = 0 \<longleftrightarrow>
      (\<forall>l \<in> tr_locs tr. \<forall>t \<in> set (ma_frontier (tr_pts tr l)). g l t = 0)"
    by (simp add: sum_nonneg_eq_0_iff sum_nonneg g_def)
  moreover have "(\<Sum>l \<in> tr_locs tr. sum (g l) (set (ma_frontier (tr_pts tr l)))) \<ge> 0"
    by (simp add: sum_nonneg g_def)
  ultimately show ?thesis unfolding tr_projection_def g_def [symmetric] by (smt (verit, best))
qed

text \<open>The times at a scope output that the pointstamps inside the scope could result in.\<close>

definition scope_times :: "('s \<Rightarrow> 't \<Rightarrow> 't option) \<Rightarrow> ('t, 's) tracker \<Rightarrow> nat \<Rightarrow> 't set" where
  "scope_times ri tr k = {u. \<exists>l t. loc_node l \<noteq> 0 \<and> ma_count (tr_pts tr l) t > 0 \<and> tr_reaches ri tr (l, t) (scope_output k, u)}"

context path_summary
begin

lemma projection_sound:
  assumes inv: "tr_inv le results_in tr" and sm: "tr_summarized sle le results_in tr"
  shows "{u. tr_projection results_in tr k u > 0} \<subseteq> scope_times results_in tr k"
proof
  fix u assume "u \<in> {u. tr_projection results_in tr k u > 0}"
  then obtain l t s where l: "l \<in> tr_locs tr" "t \<in> set (ma_frontier (tr_pts tr l))"
    "s \<in> pc_summaries (pi_output_summaries (the (tr_get tr l))) k" "results_in s t = Some u"
    using tr_projection_pos [OF sm, of k u] by auto
  have "ma_inv le (tr_pts tr l)" using inv l(1) by (simp add: tr_inv_def)
  from ma_inv_frontier_pos [OF this l(2)] have "ma_count (tr_pts tr l) t > 0" .
  moreover from l sm have "loc_node l \<noteq> 0 \<and> path_to_output results_in tr l k s"
    by (auto simp: tr_summarized_def Let_def summarizes_def pc_summaries_def pc_get_def pc_default_def split: if_splits)
  ultimately show "u \<in> scope_times results_in tr k"
    using l(4) by (auto simp: scope_times_def path_to_output_def)
qed

lemma projection_covers:
  assumes inv: "tr_inv le results_in tr" and sm: "tr_summarized sle le results_in tr"
    and u: "u \<in> scope_times results_in tr k"
  shows "\<exists>x \<in> {u. tr_projection results_in tr k u > 0}. le x u"
proof -
  from u obtain l t where l: "loc_node l \<noteq> 0" "ma_count (tr_pts tr l) t > 0" "tr_reaches results_in tr (l, t) (scope_output k, u)"
    by (auto simp: scope_times_def)
  have in': "l \<in> tr_locs tr" using l(3) by (simp add: tr_reaches_rtrancl)
  then have pm: "ma_inv le (tr_pts tr l)" using inv by (simp add: tr_inv_def)
  have "summarizes le results_in tr l (pi_output_summaries (the (tr_get tr l)))"
    using sm in' l(1) by (simp add: tr_summarized_def Let_def)
  with l(3) obtain s u1 where s: "s \<in> pc_summaries (pi_output_summaries (the (tr_get tr l))) k"
    "results_in s t = Some u1" "le u1 u" unfolding summarizes_def by blast
  from ma_inv_below [OF pm l(2)] obtain f where f: "f \<in> set (ma_frontier (tr_pts tr l))" "le f t" by blast
  from results_mono [OF f(2) s(2)] obtain u2 where u2: "results_in s f = Some u2" "le u2 u1" by blast
  have "tr_projection results_in tr k u2 > 0" unfolding tr_projection_pos [OF sm] using in' f(1) s(1) u2(1) by blast
  moreover have "le u2 u" using u2(2) s(3) le_trans by blast
  ultimately show ?thesis by blast
qed

lemma projection_exact:
  assumes "tr_inv le results_in tr" and "tr_summarized sle le results_in tr"
  shows "minimals le {u. tr_projection results_in tr k u > 0} = minimals le (scope_times results_in tr k)"
  using projection_sound [OF assms] projection_covers [OF assms] by (rule minimals_cover)

end

lemma tr_summarized_evolves:
  assumes "tr_summarized sle le ri tr" and ev: "tr_evolves ri tr tr'"
  shows "tr_summarized sle le ri tr'"
proof -
  have "tracker_succs ri tr' = tracker_succs ri tr" using ev by (intro succs_cong) (simp_all add: tr_evolves_def)
  then have "tr_reaches ri tr' = tr_reaches ri tr" using ev by (intro tr_reaches_cong) (simp_all add: tr_evolves_def)
  then have "summarizes le ri tr' = summarizes le ri tr" by (simp add: fun_eq_iff summarizes_def path_to_output_def)
  with assms show ?thesis by (simp add: tr_summarized_def tr_evolves_def Let_def)
qed

section \<open>Queries\<close>

lemma tr_counted_pos:
  assumes "tr_counted tr"
  shows "tr_total_counts tr > 0 \<longleftrightarrow> (\<exists>l \<in> tr_locs tr. ma_frontier (tr_pts tr l) \<noteq> [])"
proof -
  have "(\<Sum>l \<in> tr_locs tr. int (length (ma_frontier (tr_pts tr l)))) > 0 \<longleftrightarrow>
      (\<exists>l \<in> tr_locs tr. int (length (ma_frontier (tr_pts tr l))) > 0)"
    by (smt (verit, ccfv_SIG) finite_tr_locs of_nat_0_le_iff sum_nonneg sum_nonneg_eq_0_iff)
  with assms show ?thesis by (simp add: tr_counted_def)
qed

lemma fold_update_buffers:
  "\<exists>tc sc. fold (\<lambda>(l, t, d). tracker_update l t d) us tr = tr\<lparr>tr_target_changes := tc, tr_source_changes := sc\<rparr>"
proof (induction us arbitrary: tr)
  case Nil
  show ?case by (rule exI [of _ "tr_target_changes tr"], rule exI [of _ "tr_source_changes tr"]) simp
next
  case (Cons u us)
  obtain l t d where u: "u = (l, t, d)" by (metis prod_cases3)
  obtain tc sc where tr: "tracker_update l t d tr = tr\<lparr>tr_target_changes := tc, tr_source_changes := sc\<rparr>"
  proof (cases "loc_port l")
    case (PortTarget p)
    then show ?thesis
      using that [where tc = "cb_update (Target (loc_node l) p, t) d (tr_target_changes tr)" and sc = "tr_source_changes tr"]
      by (simp add: tracker_update_def tracker_update_target_def)
  next
    case (PortSource p)
    then show ?thesis
      using that [where tc = "tr_target_changes tr" and sc = "cb_update (Source (loc_node l) p, t) d (tr_source_changes tr)"]
      by (simp add: tracker_update_def tracker_update_source_def)
  qed
  from Cons [of "tracker_update l t d tr"] show ?case by (auto simp: u tr)
qed

lemma tr_buffered_update:
  "tr_buffered (tracker_update l t d tr) l' t' = tr_buffered tr l' t' + (if (l, t) = (l', t') then d else 0)"
  by (cases l; cases l'; cases "loc_port l"; cases "loc_port l'")
    (auto simp: tr_buffered_def tracker_update_def tracker_update_target_def tracker_update_source_def)

lemma tr_buffered_fold:
  "tr_buffered (fold (\<lambda>(l, t, d). tracker_update l t d) us tr) l' t'
   = tr_buffered tr l' t' + upd_count (map (\<lambda>(l, t, d). ((l, t), d)) us) (l', t')"
  by (induction us arbitrary: tr) (auto simp: tr_buffered_update)

lemma update_keys: "fst ` set (cb_updates (cb_update x d b)) \<subseteq> insert x (fst ` set (cb_updates b))"
proof -
  have acc: "fst ` set (cb_accumulate us) = fst ` set us" for us :: "('a \<times> int) list"
    by (metis fst_accumulate set_map)
  let ?us = "cb_updates b @ [(x, d)]"
  have "set (cb_updates (cb_update x d b)) \<subseteq> set (cb_accumulate (sort_key fst ?us)) \<union> set ?us"
    by (auto simp: cb_update_def cb_maintain_bounds_def cb_compact_def Let_def split: if_splits)
  then have "fst ` set (cb_updates (cb_update x d b)) \<subseteq> fst ` (set (cb_accumulate (sort_key fst ?us)) \<union> set ?us)"
    by (rule image_mono)
  then show ?thesis unfolding image_Un acc by simp
qed

lemma tr_buffers_update:
  assumes "tr_buffers_ok tr" and "l \<in> tr_locs tr"
  shows "tr_buffers_ok (tracker_update l t d tr)"
proof (cases "loc_port l")
  case (PortTarget p)
  have l: "location_of_target (Target (loc_node l) p) = l" using PortTarget by (cases l) (simp add: location_of_target_def)
  then show ?thesis using assms PortTarget update_keys [of "(Target (loc_node l) p, t)" d "tr_target_changes tr"]
    by (fastforce simp: tr_buffers_ok_def tracker_update_def tracker_update_target_def)
next
  case (PortSource p)
  have l: "location_of_source (Source (loc_node l) p) = l" using PortSource by (cases l) (simp add: location_of_source_def)
  then show ?thesis using assms PortSource update_keys [of "(Source (loc_node l) p, t)" d "tr_source_changes tr"]
    by (fastforce simp: tr_buffers_ok_def tracker_update_def tracker_update_source_def)
qed

lemma tr_locs_update [simp]: "tr_locs (tracker_update l t d tr) = tr_locs tr"
  by (simp add: tracker_update_def tracker_update_target_def tracker_update_source_def split: port.split)

lemma tr_buffers_fold:
  "tr_buffers_ok tr \<Longrightarrow> \<forall>(l, t, d) \<in> set us. l \<in> tr_locs tr \<Longrightarrow>
   tr_buffers_ok (fold (\<lambda>(l, t, d). tracker_update l t d) us tr)"
  by (induction us arbitrary: tr) (auto simp: tr_buffers_update)

context timestamp_order
begin

lemma is_global_iff:
  assumes inv: "ma_inv le (pi_implications p)" and pos: "ma_count (pi_implications p) time > 0"
    and up: "ma_update_iter le [(time, -1)] (pi_implications p) = (changes, ma)"
  shows "pi_is_global le p time \<longleftrightarrow> set (ma_frontier ma) \<noteq> set (ma_frontier (pi_implications p))"
proof -
  let ?m = "pi_implications p"
  let ?F = "set (ma_frontier ?m)"
  note st = update_iter_state [OF inv up]
  have F: "?F = minimals le {t. ma_count ?m t > 0}" and F': "set (ma_frontier ma) = minimals le {t. ma_count ma t > 0}"
    using inv st(1) by (simp_all add: ma_inv_def)
  have g: "pi_is_global le p time \<longleftrightarrow> \<not> (\<exists>f \<in> ?F. less_than le f time) \<and> ma_count ?m time \<le> 1"
    by (auto simp: pi_is_global_def list_ex_iff ma_count_for_eq)
  show ?thesis
  proof
    assume gl: "pi_is_global le p time"
    obtain f where "f \<in> ?F" "le f time" using ma_inv_below [OF inv pos] by blast
    with gl g have "time \<in> ?F" by (auto simp: less_than_def)
    moreover have "time \<notin> set (ma_frontier ma)" using gl g pos by (simp add: F' minimals_def st(2))
    ultimately show "set (ma_frontier ma) \<noteq> ?F" by blast
  next
    assume ne: "set (ma_frontier ma) \<noteq> ?F"
    show "pi_is_global le p time"
    proof (rule ccontr)
      assume "\<not> pi_is_global le p time"
      with g consider f where "f \<in> ?F" "less_than le f time" | "ma_count ?m time > 1" by fastforce
      then have "minimals le {t. ma_count ?m t + upd_count [(time, -1)] t > 0} = ?F"
      proof cases
        case 1
        then show ?thesis by (intro harmless_updates [OF F finite_ma_pos]) auto
      next
        case 2
        then have "{t. ma_count ?m t + upd_count [(time, -1)] t > 0} = {t. ma_count ?m t > 0}" by auto
        then show ?thesis by (simp add: F)
      qed
      with ne show False by (simp add: F' st(2))
    qed
  qed
qed

end

context bounded_summary
begin

text \<open>Build, update, propagate.\<close>

lemma session_ok:
  fixes b :: "'s builder"
  assumes fin: "finite (UNIV :: 's set)" and wf: "wf_builder b" and ne: "bd_nodes b \<noteq> []"
    and uniq: "unique_sources (bd_edges b)" and perm: "\<And>ks. mset (hash_order ks) = mset ks"
    and ac: "builder_is_acyclic id dflt b = Some True"
    and us: "\<forall>(l, t, d) \<in> set us. l \<in> builder_locs b"
  shows "\<exists>tr bs tr'. builder_build hash_order sle dflt followed_by b = Some (False, tr, bs)
    \<and> tracker_propagate_all le results_in (fold (\<lambda>(l, t, d). tracker_update l t d) us tr) = Some tr'
    \<and> tr_locs tr' = builder_locs b
    \<and> (\<forall>l \<in> builder_locs b. (\<forall>t. ma_count (tr_pts tr' l) t = upd_count (map (\<lambda>(l, t, d). ((l, t), d)) us) (l, t))
         \<and> set (ma_frontier (tr_imp tr' l)) = minimals le (reach_times results_in tr' l))
    \<and> (\<forall>k < fst (bd_shape b ! 0). minimals le {u. cb_count (tr_output_changes tr' ! k) u > 0}
         = minimals le (scope_times results_in tr' k))"
proof -
  have "builder_is_acyclic hash_order dflt b = Some True"
    using is_acyclic_iff [OF wf perm, of dflt] is_acyclic_iff [OF wf, of id dflt] ac by simp
  moreover from allocate_from_ok [OF fin wf ne uniq perm] obtain tr :: "('t, 's) tracker" and bs where
    a: "tracker_allocate_from hash_order sle dflt followed_by b = Some (tr, bs)" "tr_graph tr = b" "tr_locs tr = builder_locs b"
      "tr_inv le results_in tr" "tr_worklist tr = []" "tr_target_changes tr = cb_new" "tr_source_changes tr = cb_new"
      "tr_output_changes tr = replicate (fst (bd_shape b ! 0)) cb_new"
      "\<forall>l \<in> builder_locs b. tr_pts tr l = ma_new \<and> tr_imp tr l = ma_new" "tr_summarized sle le results_in tr" by blast
  ultimately have build: "builder_build hash_order sle dflt followed_by b = Some (False, tr, bs)"
    by (simp add: builder_build_def)
  define tr0 where "tr0 = fold (\<lambda>(l, t, d). tracker_update l t d) us tr"
  obtain tc sc where tr0: "tr0 = tr\<lparr>tr_target_changes := tc, tr_source_changes := sc\<rparr>"
    using fold_update_buffers [of us tr] unfolding tr0_def by blast
  have "tr_buffers_ok tr" by (simp add: tr_buffers_ok_def a(6,7)) (simp add: cb_new_def)
  then have buf: "tr_buffers_ok tr0" unfolding tr0_def using us a(3) by (intro tr_buffers_fold) auto
  have b0: "tr_buffered tr0 l t = upd_count (map (\<lambda>(l, t, d). ((l, t), d)) us) (l, t)" for l t
    unfolding tr0_def by (simp add: tr_buffered_fold) (simp add: tr_buffered_def a(6,7) split: port.split)
  have acc: "tr_accepted dflt tr0" using a(2) wf ac by (simp add: tr_accepted_def tr0)
  have inv0: "tr_inv le results_in tr0" using a(4) by (simp add: tr0)
  from propagate_all_ok [OF inv0 acc buf] obtain tr' where
    p: "tracker_propagate_all le results_in tr0 = Some tr'" "tr_inv le results_in tr'" "tr_worklist tr' = []"
      "tr_evolves results_in tr0 tr'"
      "\<And>l t. l \<in> tr_locs tr0 \<Longrightarrow> ma_count (tr_pts tr' l) t = ma_count (tr_pts tr0 l) t + tr_buffered tr0 l t" by blast
  have ev: "tr_evolves results_in tr tr'" using p(4) by (simp add: tr0)
  have locs: "tr_locs tr' = builder_locs b" using ev a(3) by (simp add: tr_evolves_def)
  have sm: "tr_summarized sle le results_in tr'" using tr_summarized_evolves [OF a(10) ev] .
  have g: "tr_graph tr' = b" using tr_graph_evolves [OF ev] a(2) by simp
  have "ma_count (tr_pts tr' l) t = upd_count (map (\<lambda>(l, t, d). ((l, t), d)) us) (l, t)" if "l \<in> builder_locs b" for l t
    using p(5) [of l t] a(3,9) that b0 [of l t] by (simp add: tr0 ma_new_def ma_count_def)
  moreover have "set (ma_frontier (tr_imp tr' l)) = minimals le (reach_times results_in tr' l)" if "l \<in> builder_locs b" for l
    using quiet_exact [OF p(2,3) _ _ that [folded locs]] tr_accepted_facts(1,2) [of dflt tr'] wf ac
    by (simp add: tr_accepted_def g)
  moreover have "minimals le {u. cb_count (tr_output_changes tr' ! k) u > 0} = minimals le (scope_times results_in tr' k)"
    if "k < fst (bd_shape b ! 0)" for k
  proof -
    have "tr_projection results_in tr k u = 0" for u
      using a(3,9) by (simp add: tr_projection_def ma_new_def)
    moreover have "cb_count (tr_output_changes tr' ! k) u - tr_projection results_in tr' k u
        = cb_count (tr_output_changes tr ! k) u - tr_projection results_in tr k u" for u
      using ev that by (simp add: tr_evolves_def a(8))
    ultimately have "cb_count (tr_output_changes tr' ! k) u = tr_projection results_in tr' k u" for u
      using that by (simp add: a(8))
    then show ?thesis using projection_exact [OF p(2) sm] by simp
  qed
  ultimately show ?thesis using build p(1) locs unfolding tr0_def by blast
qed

end

section \<open>An example\<close>

text \<open>A tracker for the two-node loop of \<open>example_builder\<close>, with one buffered update.\<close>

definition example_tracker :: "(8 word, 8 word) tracker" where
  "example_tracker = tracker_update (new_source 0 0) 3 1
     (fst (snd (the (builder_build rev (\<le>) 0 checked_add (example_builder 1)))))"

lemma wf_example_builder: "wf_builder (example_builder s)"
  by (auto simp: wf_builder_def example_builder_def less_Suc_eq pc_iter_ports_def pc_from_iter_def
      antichain_from_elem_def)

lemma example_builder_facts:
  "bd_nodes (example_builder s) \<noteq> []" "unique_sources (bd_edges (example_builder s))"
  "builder_is_acyclic id 0 (example_builder 1) = Some True"
  "new_source 0 0 \<in> builder_locs (example_builder s)" "new_target 1 0 \<in> builder_locs (example_builder s)"
  by (simp add: example_builder_def, simp add: unique_sources_def edge_pairs_def example_builder_def location_of_target_def,
      code_simp, simp_all add: builder_locs_def example_builder_def new_source_def new_target_def)

lemma example_tracker_ok:
  "tr_inv (\<le>) checked_add example_tracker \<and> tr_accepted 0 example_tracker \<and> tr_buffers_ok example_tracker
   \<and> new_source 0 0 \<in> tr_locs example_tracker"
proof -
  have perm: "\<And>ks :: location list. mset (rev ks) = mset ks" by simp
  from unsigned.allocate_from_ok [of "example_builder 1" rev, OF _ wf_example_builder example_builder_facts(1,2) perm]
  obtain tr bs where a: "tracker_allocate_from rev (\<le>) 0 checked_add (example_builder 1) = Some (tr, bs)"
    "tr_graph tr = example_builder 1" "tr_locs tr = builder_locs (example_builder 1)" "tr_inv (\<le>) checked_add tr"
    "tr_target_changes tr = cb_new" "tr_source_changes tr = cb_new" by fastforce
  have "builder_is_acyclic rev 0 (example_builder 1) = Some True" by code_simp
  with a(1) have e: "example_tracker = tracker_update (new_source 0 0) 3 1 tr"
    by (simp add: example_tracker_def builder_build_def)
  obtain tc sc where tr: "example_tracker = tr\<lparr>tr_target_changes := tc, tr_source_changes := sc\<rparr>"
    using fold_update_buffers [of "[(new_source 0 0, 3, 1)]" tr] by (auto simp: e)
  have "tr_buffers_ok tr" by (simp add: tr_buffers_ok_def a(5,6)) (simp add: cb_new_def)
  then have "tr_buffers_ok example_tracker" unfolding e
    using a(3) example_builder_facts(4) by (intro tr_buffers_update) auto
  then show ?thesis using a(2-4) wf_example_builder example_builder_facts(3,4) by (simp add: tr tr_accepted_def)
qed

section \<open>Properties\<close>

text \<open>
  C2: on a topology that \<open>is_acyclic\<close> accepts, \<open>propagate_all\<close> returns, without
  panic, for every timestamp type whose path summaries advance times; afterwards all buffered
  updates are in the pointstamp counts, and at every location the frontier of the implications
  is exactly the set of minimal times that some outstanding pointstamp could result in there.
\<close>

theorem propagate_all_correct:
  assumes "bounded_summary le sle dflt ri fb" and "tr_inv le ri tr" and "tr_accepted dflt tr" and "tr_buffers_ok tr"
  shows "\<exists>tr'. tracker_propagate_all le ri tr = Some tr' \<and> tr_inv le ri tr' \<and> tr_worklist tr' = []
    \<and> tr_buffers_ok tr' \<and> tr_locs tr' = tr_locs tr
    \<and> (\<forall>l \<in> tr_locs tr. (\<forall>t. tr_buffered tr' l t = 0 \<and> ma_count (tr_pts tr' l) t = ma_count (tr_pts tr l) t + tr_buffered tr l t)
         \<and> set (ma_frontier (tr_imp tr' l)) = minimals le (reach_times ri tr' l))"
proof -
  from bounded_summary.propagate_all_ok [OF assms] obtain tr' where
    p: "tracker_propagate_all le ri tr = Some tr'" "tr_inv le ri tr'" "tr_worklist tr' = []" "tr_evolves ri tr tr'"
      "tr_target_changes tr' = cb_new" "tr_source_changes tr' = cb_new"
      "\<And>l t. l \<in> tr_locs tr \<Longrightarrow> ma_count (tr_pts tr' l) t = ma_count (tr_pts tr l) t + tr_buffered tr l t" by blast
  have g: "tr_graph tr' = tr_graph tr" and l: "tr_locs tr' = tr_locs tr"
    using p(4) tr_graph_evolves by (auto simp: tr_evolves_def)
  have acc: "tr_accepted dflt tr'" using assms(3) g by (simp add: tr_accepted_def)
  have "tr_buffers_ok tr'" by (simp add: tr_buffers_ok_def p(5,6)) (simp add: cb_new_def)
  moreover have "set (ma_frontier (tr_imp tr' l)) = minimals le (reach_times ri tr' l)" if "l \<in> tr_locs tr" for l
    using advancing_summary.quiet_exact [OF bounded_summary.axioms(1) [OF assms(1)] p(2,3) tr_accepted_facts(1,2) [OF acc]] that l
    by simp
  moreover have "tr_buffered tr' l t = 0" for l t by (simp add: tr_buffered_def p(5,6) split: port.split)
  ultimately show ?thesis using p l by blast
qed

theorem propagate_all_correct_witness:
  "\<exists>tr'. tracker_propagate_all (\<le>) checked_add example_tracker = Some tr'
     \<and> ma_frontier (tr_imp tr' (new_source 1 0)) = [4] \<and> minimals (\<le>) (reach_times checked_add tr' (new_source 1 0)) = {4}"
proof -
  have i: "tr_inv (\<le>) checked_add example_tracker" "tr_accepted 0 example_tracker" "tr_buffers_ok example_tracker"
    using example_tracker_ok by simp_all
  from propagate_all_correct [OF unsigned.bounded_summary_axioms i] obtain tr' where
    t: "tracker_propagate_all (\<le>) checked_add example_tracker = Some tr'"
    "\<forall>l \<in> tr_locs example_tracker. set (ma_frontier (tr_imp tr' l)) = minimals (\<le>) (reach_times checked_add tr' l)" by blast
  have "map_option (\<lambda>tr. ma_frontier (tr_imp tr (new_source 1 0))) (tracker_propagate_all (\<le>) checked_add example_tracker) = Some [4]"
    "tr_get example_tracker (new_source 1 0) \<noteq> None" by code_simp+
  then have f: "ma_frontier (tr_imp tr' (new_source 1 0)) = [4]" and "new_source 1 0 \<in> tr_locs example_tracker"
    using t(1) by (simp_all add: tr_locs_def)
  then have "minimals (\<le>) (reach_times checked_add tr' (new_source 1 0)) = set [4]" using t(2) by metis
  with t(1) f show ?thesis by auto
qed

text \<open>
  C3: \<open>propagate_all\<close> reports what it changed: the updates it adds to
  \<open>pushed_changes\<close> are exactly the changes of the implication frontiers, and those it adds
  to the \<open>output_changes\<close> of a scope output exactly the changes of the projections of the
  pointstamp frontiers to that output.
\<close>

theorem propagate_all_reports:
  assumes "bounded_summary le sle dflt ri fb" and "tr_inv le ri tr" and "tr_accepted dflt tr" and "tr_buffers_ok tr"
    and "tracker_propagate_all le ri tr = Some tr'"
  shows "(\<forall>l \<in> tr_locs tr. \<forall>t. cb_count (tr_pushed_changes tr') (l, t) = cb_count (tr_pushed_changes tr) (l, t)
        + of_bool (t \<in> set (ma_frontier (tr_imp tr' l))) - of_bool (t \<in> set (ma_frontier (tr_imp tr l))))
    \<and> (\<forall>k < length (tr_output_changes tr). \<forall>t. cb_count (tr_output_changes tr' ! k) t = cb_count (tr_output_changes tr ! k) t
        + tr_projection ri tr' k t - tr_projection ri tr k t)"
proof -
  have "tr_evolves ri tr tr'" using bounded_summary.propagate_all_ok [OF assms(1-4)] assms(5) by auto
  then show ?thesis by (simp add: tr_evolves_def algebra_simps)
qed

theorem propagate_all_reports_witness:
  "\<exists>tr'. tracker_propagate_all (\<le>) checked_add example_tracker = Some tr'
     \<and> cb_count (tr_pushed_changes tr') (new_source 1 0, 4) = 1"
proof -
  have i: "tr_inv (\<le>) checked_add example_tracker" "tr_accepted 0 example_tracker" "tr_buffers_ok example_tracker"
    using example_tracker_ok by simp_all
  obtain tr' where t: "tracker_propagate_all (\<le>) checked_add example_tracker = Some tr'"
    using unsigned.propagate_all_ok [OF i] by blast
  have e: "map_option (\<lambda>tr. ma_frontier (tr_imp tr (new_source 1 0))) (tracker_propagate_all (\<le>) checked_add example_tracker) = Some [4]"
    "tr_get example_tracker (new_source 1 0) \<noteq> None" "cb_updates (tr_pushed_changes example_tracker) = []"
    "ma_frontier (tr_imp example_tracker (new_source 1 0)) = []" by code_simp+
  have "new_source 1 0 \<in> tr_locs example_tracker" using e(2) by (simp add: tr_locs_def)
  with propagate_all_reports [OF unsigned.bounded_summary_axioms i t]
  have "cb_count (tr_pushed_changes tr') (new_source 1 0, 4) = cb_count (tr_pushed_changes example_tracker) (new_source 1 0, 4)
      + of_bool (4 \<in> set (ma_frontier (tr_imp tr' (new_source 1 0)))) - of_bool (4 \<in> set (ma_frontier (tr_imp example_tracker (new_source 1 0))))"
    by blast
  with e t show ?thesis by (simp add: cb_count_def)
qed



text \<open>
  when the buffers hold no update of difference zero, \<open>tracking_anything\<close> answers
  \<open>true\<close> exactly when there is a buffered difference or a pointstamp of positive count
  anywhere, and it does not change what the tracker tracks.
\<close>

theorem tracking_anything_correct:
  assumes "timestamp_order le" and "tr_inv le ri tr" and "tr_buffers_ok tr"
    and "cb_nonzero (tr_target_changes tr)" and "cb_nonzero (tr_source_changes tr)"
    and "tracker_tracking_anything tr = (r, tr')"
  shows "(r \<longleftrightarrow> (\<exists>k. cb_count (tr_target_changes tr) k \<noteq> 0) \<or> (\<exists>k. cb_count (tr_source_changes tr) k \<noteq> 0)
      \<or> (\<exists>l \<in> tr_locs tr. \<exists>t. ma_count (tr_pts tr l) t > 0))
    \<and> tr_inv le ri tr' \<and> (\<forall>l t. tr_buffered tr' l t = tr_buffered tr l t)"
proof -
  have buf: "cb_inv (tr_target_changes tr)" "cb_inv (tr_source_changes tr)" using assms(3) by (simp_all add: tr_buffers_ok_def)
  have ie: "fst (cb_is_empty b) \<longleftrightarrow> (\<forall>k. cb_count b k = 0)" if "cb_inv b" "cb_nonzero b" for b :: "('x :: linorder) change_batch"
    using is_empty_iff [OF that(1)] that(2) by (auto simp: cb_nonzero_def upd_nonzero_def)
  obtain es sc where s: "cb_is_empty (tr_source_changes tr) = (es, sc)" by (cases "cb_is_empty (tr_source_changes tr)")
  obtain et tc where t: "cb_is_empty (tr_target_changes tr) = (et, tc)" by (cases "cb_is_empty (tr_target_changes tr)")
  have e: "es \<longleftrightarrow> (\<forall>k. cb_count (tr_source_changes tr) k = 0)" "et \<longleftrightarrow> (\<forall>k. cb_count (tr_target_changes tr) k = 0)"
    using ie [OF buf(2) assms(5)] ie [OF buf(1) assms(4)] s t by simp_all
  have c: "\<And>k. cb_count sc k = cb_count (tr_source_changes tr) k" "\<And>k. cb_count tc k = cb_count (tr_target_changes tr) k"
    using is_empty_snd [OF buf(2) s] is_empty_snd [OF buf(1) t] by blast+
  have "ma_frontier (tr_pts tr l) \<noteq> [] \<longleftrightarrow> (\<exists>t. ma_count (tr_pts tr l) t > 0)" if "l \<in> tr_locs tr" for l
    using timestamp_order.ma_inv_is_empty [OF assms(1), of "tr_pts tr l"] assms(2) that
    by (simp add: tr_inv_def ma_is_empty_def not_le)
  with tr_counted_pos [of tr] assms(2) have "tr_total_counts tr > 0 \<longleftrightarrow> (\<exists>l \<in> tr_locs tr. \<exists>t. ma_count (tr_pts tr l) t > 0)"
    by (simp add: tr_inv_def)
  with assms(2,6) e c show ?thesis
    by (auto simp: tracker_tracking_anything_def s t Let_def tr_buffered_def split: if_splits port.splits)
qed

theorem tracking_anything_correct_witness:
  "fst (tracker_tracking_anything example_tracker) \<and> (\<exists>k. cb_count (tr_source_changes example_tracker) k \<noteq> 0)"
proof -
  obtain r tr' where rt: "tracker_tracking_anything example_tracker = (r, tr')"
    by (cases "tracker_tracking_anything example_tracker")
  have e: "cb_updates (tr_target_changes example_tracker) = []"
    "cb_updates (tr_source_changes example_tracker) = [((Source 0 0, 3), 1)]" by code_simp+
  have "cb_nonzero (tr_target_changes example_tracker)" "cb_nonzero (tr_source_changes example_tracker)"
    by (simp_all add: cb_nonzero_def upd_nonzero_def e)
  with tracking_anything_correct [OF unsigned.timestamp_order_axioms, of checked_add example_tracker r tr'] rt
    example_tracker_ok have "r \<longleftrightarrow> (\<exists>k. cb_count (tr_target_changes example_tracker) k \<noteq> 0)
      \<or> (\<exists>k. cb_count (tr_source_changes example_tracker) k \<noteq> 0)
      \<or> (\<exists>l \<in> tr_locs example_tracker. \<exists>t. ma_count (tr_pts example_tracker l) t > 0)" by blast
  moreover have "cb_count (tr_source_changes example_tracker) (Source 0 0, 3) \<noteq> 0" by (simp add: cb_count_def e)
  ultimately show ?thesis using rt by auto
qed

text \<open>
  for a time that is counted at the port, \<open>is_global\<close> answers \<open>true\<close>
  exactly when taking one occurrence of the time away would change the frontier of the port.
\<close>

theorem is_global_correct:
  assumes "timestamp_order le" and "ma_inv le (pi_implications p)" and "ma_count (pi_implications p) time > 0"
    and "ma_update_iter le [(time, -1)] (pi_implications p) = (changes, ma)"
  shows "pi_is_global le p time \<longleftrightarrow> set (ma_frontier ma) \<noteq> set (ma_frontier (pi_implications p))"
  by (rule timestamp_order.is_global_iff [OF assms])

theorem is_global_correct_witness:
  "pi_is_global (\<le>) (pi_new\<lparr>pi_implications := ma_new_bottom (5 :: 8 word)\<rparr>) 5
   \<and> set (ma_frontier (snd (ma_update_iter (\<le>) [(5, -1)] (ma_new_bottom (5 :: 8 word))))) \<noteq> {5}"
proof -
  let ?p = "pi_new\<lparr>pi_implications := ma_new_bottom (5 :: 8 word)\<rparr> :: (8 word, 8 word) port_information"
  obtain out ma where u: "ma_update_iter (\<le>) [(5, -1)] (pi_implications ?p) = (out, ma)" by fastforce
  have "ma_inv (\<le>) (pi_implications ?p)" "ma_count (pi_implications ?p) 5 > 0"
    by (simp_all add: unsigned.ma_inv_new_bottom) (simp add: ma_count_def ma_new_bottom_def)
  from is_global_correct [OF unsigned.timestamp_order_axioms this u]
  show ?thesis using u by (simp add: pi_is_global_def less_than_def ma_count_for_eq ma_new_bottom_def ma_count_def)
qed

end
