(* ===== verification/Broadcast.thy ===== *)
theory Broadcast
  imports Operate
begin

text \<open>
  \<^verbatim>\<open>timely/src/progress/broadcast.rs\<close>: the \<open>Progcaster\<close>.  The pusher is the list of
  messages handed to it, the puller the list of messages it will yield; a message is the worker
  index, the sequence number and the batch of changes.  Logging is absent.

  Above the two methods stands a network of workers: \<open>send\<close> puts one message on the
  link to every worker, links are first-in first-out, and delivery interleaves arbitrarily.
\<close>

section \<open>Progcaster\<close>

type_synonym 't progress_msg = "nat \<times> nat \<times> (location \<times> 't) change_batch"

record 't progcaster =
  pg_pusher :: "'t progress_msg list"
  pg_puller :: "'t progress_msg list"
  pg_source :: nat
  pg_counter :: nat

definition progcaster_new :: "nat \<Rightarrow> 't progcaster" where
  "progcaster_new worker_index = \<lparr>pg_pusher = [], pg_puller = [], pg_source = worker_index, pg_counter = 0\<rparr>"

definition progcaster_send ::
  "'t::linorder progcaster \<Rightarrow> (location \<times> 't) change_batch \<Rightarrow> 't progcaster \<times> (location \<times> 't) change_batch" where
  "progcaster_send pg changes =
     (let (empty, changes) = cb_is_empty (cb_compact changes)
      in if \<not> empty
         then (pg\<lparr>pg_pusher := pg_pusher pg @ [(pg_source pg, pg_counter pg, changes)], pg_counter := pg_counter pg + 1\<rparr>, cb_new)
         else (pg, changes))"

definition recv_message :: "'t::linorder progress_msg \<Rightarrow> (location \<times> 't) change_batch \<Rightarrow> (location \<times> 't) change_batch" where
  "recv_message m changes = fold (\<lambda>(update, delta). cb_update update delta) (fst (cb_iter (snd (snd m)))) changes"

definition progcaster_recv ::
  "'t::linorder progcaster \<Rightarrow> (location \<times> 't) change_batch \<Rightarrow> 't progcaster \<times> (location \<times> 't) change_batch" where
  "progcaster_recv pg changes = (pg\<lparr>pg_puller := []\<rparr>, fold recv_message (pg_puller pg) changes)"

section \<open>A network of workers\<close>

text \<open>
  A worker has its progcaster, the updates it produced and has not sent, the updates it received
  and has not committed, and the counts it has committed to its tracker.
\<close>

record 't net_worker =
  nw_caster :: "'t progcaster"
  nw_local :: "(location \<times> 't) change_batch"
  nw_final :: "(location \<times> 't) change_batch"
  nw_view :: "location \<times> 't \<Rightarrow> int"

record 't network =
  nt_workers :: "'t net_worker list"
  nt_links :: "nat \<Rightarrow> nat \<Rightarrow> 't progress_msg list"
  nt_produced :: "location \<times> 't \<Rightarrow> int"

definition net_init :: "nat \<Rightarrow> 't network" where
  "net_init n =
     \<lparr>nt_workers = map (\<lambda>i. \<lparr>nw_caster = progcaster_new i, nw_local = cb_new, nw_final = cb_new, nw_view = (\<lambda>_. 0)\<rparr>) [0..<n],
      nt_links = (\<lambda>_ _. []), nt_produced = (\<lambda>_. 0)\<rparr>"

inductive net_step :: "'t::linorder network \<Rightarrow> 't network \<Rightarrow> bool" where
  produce:
    "w < length (nt_workers n) \<Longrightarrow> x = nt_workers n ! w \<Longrightarrow>
     net_step n (n\<lparr>nt_workers := (nt_workers n)[w := x\<lparr>nw_local := cb_update k d (nw_local x)\<rparr>],
                   nt_produced := (nt_produced n)(k := nt_produced n k + d)\<rparr>)"
| send:
    "w < length (nt_workers n) \<Longrightarrow> x = nt_workers n ! w \<Longrightarrow>
     progcaster_send (nw_caster x) (nw_local x) = (pg, local) \<Longrightarrow>
     net_step n (n\<lparr>nt_workers := (nt_workers n)[w := x\<lparr>nw_caster := pg\<lparr>pg_pusher := []\<rparr>, nw_local := local\<rparr>],
                   nt_links := (nt_links n)(w := (\<lambda>r. nt_links n w r @ pg_pusher pg))\<rparr>)"
| deliver:
    "r < length (nt_workers n) \<Longrightarrow> s < length (nt_workers n) \<Longrightarrow> nt_links n s r = m # ms \<Longrightarrow> x = nt_workers n ! r \<Longrightarrow>
     net_step n (n\<lparr>nt_workers := (nt_workers n)[r := x\<lparr>nw_caster := (nw_caster x)\<lparr>pg_puller := pg_puller (nw_caster x) @ [m]\<rparr>\<rparr>],
                   nt_links := (nt_links n)(s := (nt_links n s)(r := ms))\<rparr>)"
| recv:
    "w < length (nt_workers n) \<Longrightarrow> x = nt_workers n ! w \<Longrightarrow>
     progcaster_recv (nw_caster x) (nw_final x) = (pg, final) \<Longrightarrow>
     net_step n (n\<lparr>nt_workers := (nt_workers n)[w := x\<lparr>nw_caster := pg, nw_final := final\<rparr>]\<rparr>)"
| commit:
    "w < length (nt_workers n) \<Longrightarrow> x = nt_workers n ! w \<Longrightarrow> cb_drain (nw_final x) = (us, final) \<Longrightarrow>
     net_step n (n\<lparr>nt_workers := (nt_workers n)[w := x\<lparr>nw_final := final, nw_view := (\<lambda>k. nw_view x k + upd_count us k)\<rparr>]\<rparr>)"

inductive net_reachable :: "nat \<Rightarrow> 't::linorder network \<Rightarrow> bool" for workers where
  init: "net_reachable workers (net_init workers)"
| step: "net_reachable workers n \<Longrightarrow> net_step n n' \<Longrightarrow> net_reachable workers n'"

inductive_cases net_step_cases: "net_step n n'"

section \<open>Conservation\<close>

definition msgs_count :: "'t progress_msg list \<Rightarrow> location \<times> 't \<Rightarrow> int" where
  "msgs_count ms k = (\<Sum>m \<leftarrow> ms. cb_count (snd (snd m)) k)"

lemma msgs_count_simps [simp]:
  "msgs_count [] k = 0" "msgs_count (m # ms) k = cb_count (snd (snd m)) k + msgs_count ms k"
  "msgs_count (ms @ ms') k = msgs_count ms k + msgs_count ms' k"
  by (simp_all add: msgs_count_def)

lemma count_fold_pairs: "cb_count (fold (\<lambda>(x, d). cb_update x d) us b) k = cb_count b k + upd_count us k"
  by (induction us arbitrary: b) auto

lemma recv_message_count [simp]:
  "cb_count (recv_message m changes) k = cb_count changes k + cb_count (snd (snd m)) k"
  by (simp add: recv_message_def cb_iter_def Let_def count_fold_pairs cb_updates_compact_count)

lemma recv_messages_count: "cb_count (fold recv_message ms changes) k = cb_count changes k + msgs_count ms k"
  by (induction ms arbitrary: changes) simp_all

lemma is_empty_count [simp]: "cb_count (snd (cb_is_empty b)) k = cb_count b k"
  by (simp add: cb_is_empty_def Let_def)

text \<open>What \<open>send\<close> does: nothing, or one message with all the changes.\<close>

lemma send_cases:
  assumes "progcaster_send pg changes = (pg', changes')"
  obtains (idle) "pg' = pg" "\<And>k. cb_count changes' k = cb_count changes k"
  | (sent) b where "pg' = pg\<lparr>pg_pusher := pg_pusher pg @ [(pg_source pg, pg_counter pg, b)], pg_counter := pg_counter pg + 1\<rparr>"
      "changes' = cb_new" "\<And>k. cb_count b k = cb_count changes k"
proof -
  obtain e c where e: "cb_is_empty (cb_compact changes) = (e, c)" by (cases "cb_is_empty (cb_compact changes)")
  have "cb_count c k = cb_count changes k" for k using is_empty_count [of "cb_compact changes" k] by (simp add: e)
  with assms idle sent [of c] show thesis by (cases e) (auto simp: progcaster_send_def e)
qed

definition net_total :: "'t network \<Rightarrow> nat \<Rightarrow> location \<times> 't \<Rightarrow> int" where
  "net_total n r k = nw_view (nt_workers n ! r) k + cb_count (nw_final (nt_workers n ! r)) k
     + msgs_count (pg_puller (nw_caster (nt_workers n ! r))) k
     + (\<Sum>s < length (nt_workers n). msgs_count (nt_links n s r) k)
     + (\<Sum>s < length (nt_workers n). cb_count (nw_local (nt_workers n ! s)) k)"

text \<open>The messages of \<open>s\<close> that \<open>r\<close> has not received yet, in order.\<close>

definition net_queue :: "'t network \<Rightarrow> nat \<Rightarrow> nat \<Rightarrow> 't progress_msg list" where
  "net_queue n s r = filter (\<lambda>m. fst m = s) (pg_puller (nw_caster (nt_workers n ! r))) @ nt_links n s r"

definition net_inv :: "nat \<Rightarrow> 't network \<Rightarrow> bool" where
  "net_inv workers n \<longleftrightarrow> length (nt_workers n) = workers
     \<and> (\<forall>w < workers. pg_source (nw_caster (nt_workers n ! w)) = w \<and> pg_pusher (nw_caster (nt_workers n ! w)) = [])
     \<and> (\<forall>s < workers. \<forall>r < workers. (\<forall>m \<in> set (nt_links n s r). fst m = s)
          \<and> length (net_queue n s r) \<le> pg_counter (nw_caster (nt_workers n ! s))
          \<and> map (\<lambda>m. fst (snd m)) (net_queue n s r)
            = [pg_counter (nw_caster (nt_workers n ! s)) - length (net_queue n s r)..<pg_counter (nw_caster (nt_workers n ! s))])
     \<and> (\<forall>r < workers. \<forall>k. net_total n r k = nt_produced n k)"

lemma net_inv_init: "net_inv workers (net_init workers)"
  by (simp add: net_inv_def net_init_def net_total_def net_queue_def progcaster_new_def)

lemma sum_list_update_int:
  fixes f :: "'a \<Rightarrow> int"
  assumes "w < length xs"
  shows "(\<Sum>s < length xs. f (xs[w := x] ! s)) = (\<Sum>s < length xs. f (xs ! s)) + (f x - f (xs ! w))"
proof -
  have "(\<Sum>s < length xs. f (xs[w := x] ! s)) = (\<Sum>s \<in> {..<length xs} - {w}. f (xs ! s)) + f x"
    using assms by (subst sum.remove [of _ w]) (auto intro!: sum.cong)
  moreover have "(\<Sum>s < length xs. f (xs ! s)) = (\<Sum>s \<in> {..<length xs} - {w}. f (xs ! s)) + f (xs ! w)"
    using assms by (subst sum.remove [of _ w]) auto
  ultimately show ?thesis by simp
qed

lemma sum_fun_upd_nat:
  fixes f g :: "nat \<Rightarrow> int"
  assumes "w < N" "\<And>s. s \<noteq> w \<Longrightarrow> g s = f s"
  shows "sum g {..<N} = sum f {..<N} + (g w - f w)"
proof -
  have "sum g ({..<N} - {w}) = sum f ({..<N} - {w})" using assms(2) by (intro sum.cong) auto
  then show ?thesis using assms(1) sum.remove [of "{..<N}" w g] sum.remove [of "{..<N}" w f] by simp
qed

lemma upt_suffix:
  assumes "map f (xs @ ys) = [c - length (xs @ ys)..<c]" and "length (xs @ ys) \<le> c"
  shows "map f ys = [c - length ys..<c]"
proof -
  have "map f ys = drop (length xs) (map f (xs @ ys))" by simp
  also have "\<dots> = [c - length (xs @ ys) + length xs..<c]" unfolding assms(1) by simp
  also have "c - length (xs @ ys) + length xs = c - length ys" using assms(2) by simp
  finally show ?thesis .
qed

lemma net_inv_facts:
  assumes "net_inv N n"
  shows "length (nt_workers n) = N"
    and "w < N \<Longrightarrow> pg_source (nw_caster (nt_workers n ! w)) = w"
    and "w < N \<Longrightarrow> pg_pusher (nw_caster (nt_workers n ! w)) = []"
    and "s < N \<Longrightarrow> r < N \<Longrightarrow> m \<in> set (nt_links n s r) \<Longrightarrow> fst m = s"
    and "s < N \<Longrightarrow> r < N \<Longrightarrow> length (net_queue n s r) \<le> pg_counter (nw_caster (nt_workers n ! s))"
    and "s < N \<Longrightarrow> r < N \<Longrightarrow> map (\<lambda>m. fst (snd m)) (net_queue n s r)
      = [pg_counter (nw_caster (nt_workers n ! s)) - length (net_queue n s r)..<pg_counter (nw_caster (nt_workers n ! s))]"
    and "r < N \<Longrightarrow> net_total n r k = nt_produced n k"
  using assms unfolding net_inv_def by blast+

lemma net_invI:
  assumes "length (nt_workers n) = N"
    and "\<And>w. w < N \<Longrightarrow> pg_source (nw_caster (nt_workers n ! w)) = w"
    and "\<And>w. w < N \<Longrightarrow> pg_pusher (nw_caster (nt_workers n ! w)) = []"
    and "\<And>s r m. s < N \<Longrightarrow> r < N \<Longrightarrow> m \<in> set (nt_links n s r) \<Longrightarrow> fst m = s"
    and "\<And>s r. s < N \<Longrightarrow> r < N \<Longrightarrow> length (net_queue n s r) \<le> pg_counter (nw_caster (nt_workers n ! s))"
    and "\<And>s r. s < N \<Longrightarrow> r < N \<Longrightarrow> map (\<lambda>m. fst (snd m)) (net_queue n s r)
      = [pg_counter (nw_caster (nt_workers n ! s)) - length (net_queue n s r)..<pg_counter (nw_caster (nt_workers n ! s))]"
    and "\<And>r k. r < N \<Longrightarrow> net_total n r k = nt_produced n k"
  shows "net_inv N n"
  using assms unfolding net_inv_def by blast

text \<open>Steps that leave casters and links alone.\<close>

lemma net_inv_local:
  assumes inv: "net_inv N n" and w: "w < N" and x: "nw_caster x = nw_caster (nt_workers n ! w)"
    and n': "n' = \<lparr>nt_workers = (nt_workers n)[w := x], nt_links = nt_links n, nt_produced = p\<rparr>"
    and tot: "\<And>r k. r < N \<Longrightarrow> net_total n' r k = p k"
  shows "net_inv N n'"
proof -
  note f = net_inv_facts [OF inv]
  have c: "nw_caster (nt_workers n' ! i) = nw_caster (nt_workers n ! i)" if "i < N" for i
    using that f(1) w x by (simp add: n' nth_list_update)
  then have q: "net_queue n' s r = net_queue n s r" if "r < N" for s r
    using that by (simp add: net_queue_def n')
  show ?thesis by (rule net_invI) (use c q f tot w in \<open>auto simp: n'\<close>)
qed

lemma net_inv_produce:
  assumes inv: "net_inv N n" and w: "w < N"
  shows "net_inv N (n\<lparr>nt_workers := (nt_workers n)[w := (nt_workers n ! w)\<lparr>nw_local := cb_update k d (nw_local (nt_workers n ! w))\<rparr>],
      nt_produced := (nt_produced n)(k := nt_produced n k + d)\<rparr>)" (is "net_inv N ?n")
proof (rule net_inv_local [OF inv w])
  note f = net_inv_facts [OF inv]
  show "nw_caster ((nt_workers n ! w)\<lparr>nw_local := cb_update k d (nw_local (nt_workers n ! w))\<rparr>) = nw_caster (nt_workers n ! w)" by simp
  show "?n = \<lparr>nt_workers = (nt_workers n)[w := (nt_workers n ! w)\<lparr>nw_local := cb_update k d (nw_local (nt_workers n ! w))\<rparr>],
      nt_links = nt_links n, nt_produced = (nt_produced n)(k := nt_produced n k + d)\<rparr>" by simp
  fix r k' assume r: "r < N"
  have "net_total ?n r k' = net_total n r k' + (if k' = k then d else 0)"
    using f(1) w r sum_list_update_int [of w "nt_workers n" "\<lambda>x. cb_count (nw_local x) k'"
        "(nt_workers n ! w)\<lparr>nw_local := cb_update k d (nw_local (nt_workers n ! w))\<rparr>"]
    by (simp add: net_total_def nth_list_update)
  then show "net_total ?n r k' = ((nt_produced n)(k := nt_produced n k + d)) k'" using f(7) [OF r] by simp
qed

lemma net_inv_commit:
  assumes inv: "net_inv N n" and w: "w < N" and d: "cb_drain (nw_final (nt_workers n ! w)) = (us, final)"
  shows "net_inv N (n\<lparr>nt_workers := (nt_workers n)[w := (nt_workers n ! w)\<lparr>nw_final := final,
      nw_view := (\<lambda>k. nw_view (nt_workers n ! w) k + upd_count us k)\<rparr>]\<rparr>)" (is "net_inv N ?n")
proof (rule net_inv_local [OF inv w])
  note f = net_inv_facts [OF inv]
  let ?x = "(nt_workers n ! w)\<lparr>nw_final := final, nw_view := (\<lambda>k. nw_view (nt_workers n ! w) k + upd_count us k)\<rparr>"
  show "nw_caster ?x = nw_caster (nt_workers n ! w)" by simp
  show "?n = \<lparr>nt_workers = (nt_workers n)[w := ?x], nt_links = nt_links n, nt_produced = nt_produced n\<rparr>" by simp
  fix r k assume r: "r < N"
  have "final = cb_new" "upd_count us k = cb_count (nw_final (nt_workers n ! w)) k"
    using d cb_drain_snd [of "nw_final (nt_workers n ! w)"] cb_count_drain [of "nw_final (nt_workers n ! w)" k] by simp_all
  then have "net_total ?n r k = net_total n r k"
    using f(1) w r sum_list_update_int [of w "nt_workers n" "\<lambda>x. cb_count (nw_local x) k" ?x]
    by (simp add: net_total_def nth_list_update)
  then show "net_total ?n r k = nt_produced n k" using f(7) [OF r] by simp
qed

lemma net_inv_recv:
  assumes inv: "net_inv N n" and w: "w < N"
    and v: "progcaster_recv (nw_caster (nt_workers n ! w)) (nw_final (nt_workers n ! w)) = (pg, final)"
  shows "net_inv N (n\<lparr>nt_workers := (nt_workers n)[w := (nt_workers n ! w)\<lparr>nw_caster := pg, nw_final := final\<rparr>]\<rparr>)" (is "net_inv N ?n")
proof -
  note f = net_inv_facts [OF inv]
  let ?x = "(nt_workers n ! w)\<lparr>nw_caster := pg, nw_final := final\<rparr>"
  have pg: "pg = (nw_caster (nt_workers n ! w))\<lparr>pg_puller := []\<rparr>"
    "\<And>k. cb_count final k = cb_count (nw_final (nt_workers n ! w)) k + msgs_count (pg_puller (nw_caster (nt_workers n ! w))) k"
    using v by (auto simp: progcaster_recv_def recv_messages_count)
  have c: "pg_counter (nw_caster (nt_workers ?n ! i)) = pg_counter (nw_caster (nt_workers n ! i))" if "i < N" for i
    using that f(1) by (cases "i = w") (simp_all add: pg)
  have q: "\<exists>xs. net_queue n s r = xs @ net_queue ?n s r" if "r < N" for s r
    using that f(1) by (cases "r = w") (auto simp: net_queue_def pg)
  show ?thesis
  proof (rule net_invI)
    fix s r assume sr: "s < N" "r < N"
    obtain xs where xs: "net_queue n s r = xs @ net_queue ?n s r" using q sr(2) by blast
    have len: "length (xs @ net_queue ?n s r) \<le> pg_counter (nw_caster (nt_workers n ! s))" using f(5) [OF sr] xs by simp
    show "length (net_queue ?n s r) \<le> pg_counter (nw_caster (nt_workers ?n ! s))" using len c [OF sr(1)] by simp
    show "map (\<lambda>m. fst (snd m)) (net_queue ?n s r) = [pg_counter (nw_caster (nt_workers ?n ! s)) - length (net_queue ?n s r)
        ..<pg_counter (nw_caster (nt_workers ?n ! s))]"
      unfolding c [OF sr(1)] by (rule upt_suffix [OF _ len]) (use f(6) [OF sr] xs in simp)
  next
    fix r k assume r: "r < N"
    have "net_total ?n r k = net_total n r k"
      using f(1) w r sum_list_update_int [of w "nt_workers n" "\<lambda>x. cb_count (nw_local x) k" ?x] pg
      by (simp add: net_total_def nth_list_update)
    then show "net_total ?n r k = nt_produced ?n k" using f(7) [OF r] by simp
  qed (use f w in \<open>auto simp: nth_list_update pg\<close>)
qed

lemma net_inv_deliver:
  assumes inv: "net_inv N n" and r: "r < N" and s: "s < N" and m: "nt_links n s r = m # ms"
  shows "net_inv N (n\<lparr>nt_workers := (nt_workers n)[r := (nt_workers n ! r)\<lparr>nw_caster :=
      (nw_caster (nt_workers n ! r))\<lparr>pg_puller := pg_puller (nw_caster (nt_workers n ! r)) @ [m]\<rparr>\<rparr>],
      nt_links := (nt_links n)(s := (nt_links n s)(r := ms))\<rparr>)" (is "net_inv N ?n")
proof -
  note f = net_inv_facts [OF inv]
  let ?x = "(nt_workers n ! r)\<lparr>nw_caster := (nw_caster (nt_workers n ! r))\<lparr>pg_puller := pg_puller (nw_caster (nt_workers n ! r)) @ [m]\<rparr>\<rparr>"
  have src: "fst m = s" using f(4) [OF s r] m by simp
  have q: "net_queue ?n s' r' = net_queue n s' r'" if "r' < N" for s' r'
    using that f(1) src m by (cases "r' = r") (auto simp: net_queue_def)
  have c: "pg_counter (nw_caster (nt_workers ?n ! i)) = pg_counter (nw_caster (nt_workers n ! i))"
    "pg_source (nw_caster (nt_workers ?n ! i)) = pg_source (nw_caster (nt_workers n ! i))"
    "pg_pusher (nw_caster (nt_workers ?n ! i)) = pg_pusher (nw_caster (nt_workers n ! i))" if "i < N" for i
    using that f(1) by (cases "i = r"; simp)+
  have tot: "net_total ?n r' k = net_total n r' k" if "r' < N" for r' k
  proof -
    have "(\<Sum>i < N. msgs_count (nt_links ?n i r') k) = (\<Sum>i < N. msgs_count (nt_links n i r') k)
        + (msgs_count (nt_links ?n s r') k - msgs_count (nt_links n s r') k)"
      by (rule sum_fun_upd_nat [OF s]) simp
    then show ?thesis using f(1) r that m sum_list_update_int [of r "nt_workers n" "\<lambda>x. cb_count (nw_local x) k" ?x]
      by (cases "r' = r") (simp_all add: net_total_def)
  qed
  have l: "fst m' = s'" if "s' < N" "r' < N" "m' \<in> set (nt_links ?n s' r')" for s' r' m'
    using that f(4) [OF that(1,2)] m by (auto split: if_splits)
  show ?thesis
  proof (rule net_invI)
    show "length (nt_workers ?n) = N" by (simp add: f(1))
  qed (use c q tot l f in auto)
qed

lemma net_inv_send:
  assumes inv: "net_inv N n" and w: "w < N"
    and v: "progcaster_send (nw_caster (nt_workers n ! w)) (nw_local (nt_workers n ! w)) = (pg, local)"
  shows "net_inv N (n\<lparr>nt_workers := (nt_workers n)[w := (nt_workers n ! w)\<lparr>nw_caster := pg\<lparr>pg_pusher := []\<rparr>, nw_local := local\<rparr>],
      nt_links := (nt_links n)(w := (\<lambda>r. nt_links n w r @ pg_pusher pg))\<rparr>)" (is "net_inv N ?n")
proof -
  note f = net_inv_facts [OF inv]
  let ?x = "(nt_workers n ! w)\<lparr>nw_caster := pg\<lparr>pg_pusher := []\<rparr>, nw_local := local\<rparr>"
  define c0 where "c0 = pg_counter (nw_caster (nt_workers n ! w))"
  obtain ms where ms: "pg_pusher pg = ms" "pg_counter pg = c0 + length ms" "map (\<lambda>m. fst (snd m)) ms = [c0..<c0 + length ms]"
    "\<forall>m \<in> set ms. fst m = w" "\<And>k. cb_count local k + msgs_count ms k = cb_count (nw_local (nt_workers n ! w)) k"
    "pg_source pg = w" "pg_puller pg = pg_puller (nw_caster (nt_workers n ! w))"
    using v by (rule send_cases) (use f(2,3) [OF w] that [of "[]"] that [of "[(w, c0, _)]"] in \<open>auto simp: c0_def\<close>)
  have q: "net_queue ?n s r = net_queue n s r @ (if s = w then ms else [])" if "r < N" for s r
    using that f(1) ms(1,7) by (cases "r = w") (auto simp: net_queue_def)
  have cnt: "pg_counter (nw_caster (nt_workers ?n ! i)) = pg_counter (nw_caster (nt_workers n ! i)) + (if i = w then length ms else 0)"
    "pg_source (nw_caster (nt_workers ?n ! i)) = i" "pg_pusher (nw_caster (nt_workers ?n ! i)) = []" if "i < N" for i
    using that f(1,2,3) ms(2,6) by (cases "i = w"; simp add: c0_def)+
  have tot: "net_total ?n r k = net_total n r k" if "r < N" for r k
  proof -
    have "(\<Sum>i < N. msgs_count (nt_links ?n i r) k) = (\<Sum>i < N. msgs_count (nt_links n i r) k)
        + (msgs_count (nt_links ?n w r) k - msgs_count (nt_links n w r) k)"
      by (rule sum_fun_upd_nat [OF w]) simp
    then show ?thesis using f(1) w that ms(1,7) ms(5) [of k] sum_list_update_int [of w "nt_workers n" "\<lambda>x. cb_count (nw_local x) k" ?x]
      by (cases "r = w") (simp_all add: net_total_def)
  qed
  have l: "fst m = s" if "s < N" "r < N" "m \<in> set (nt_links ?n s r)" for s r m
  proof (cases "s = w \<and> m \<in> set ms")
    case False
    with that(3) ms(1) have "m \<in> set (nt_links n s r)" by (auto split: if_splits)
    then show ?thesis by (rule f(4) [OF that(1,2)])
  qed (use ms(4) in simp)
  have ord: "length (net_queue ?n s r) \<le> pg_counter (nw_caster (nt_workers ?n ! s))"
    "map (\<lambda>m. fst (snd m)) (net_queue ?n s r) = [pg_counter (nw_caster (nt_workers ?n ! s)) - length (net_queue ?n s r)
        ..<pg_counter (nw_caster (nt_workers ?n ! s))]" if "s < N" "r < N" for s r
    using f(5,6) [OF that] cnt(1) [OF that(1)] q [OF that(2)] ms(3) upt_add_eq_append [of "c0 - length (net_queue n w r)" c0 "length ms"]
    by (auto simp: c0_def)
  show ?thesis by (rule net_invI) (use f(1,7) cnt tot l ord in auto)
qed

lemma net_inv_step: "net_inv N n \<Longrightarrow> net_step n n' \<Longrightarrow> net_inv N n'"
  by (erule net_step_cases)
    (auto simp: net_inv_facts(1) intro: net_inv_produce net_inv_send net_inv_deliver net_inv_recv net_inv_commit)

lemma net_inv_reachable: "net_reachable N n \<Longrightarrow> net_inv N n"
  by (induction rule: net_reachable.induct) (auto intro: net_inv_init net_inv_step)

section \<open>Properties\<close>

text \<open>
  C10: in every reachable state of the network and at every worker, what the worker has committed,
  received, is being sent, or still holds back locally anywhere adds up to exactly the updates
  produced by all workers: progress updates are neither lost nor duplicated, whatever the
  interleaving of sends, deliveries and receives.
\<close>

theorem broadcast_conserves:
  assumes "net_reachable N n" and "r < N"
  shows "nw_view (nt_workers n ! r) k + cb_count (nw_final (nt_workers n ! r)) k
     + msgs_count (pg_puller (nw_caster (nt_workers n ! r))) k
     + (\<Sum>s < N. msgs_count (nt_links n s r) k) + (\<Sum>s < N. cb_count (nw_local (nt_workers n ! s)) k)
     = nt_produced n k"
  using net_inv_facts(7) [OF net_inv_reachable [OF assms(1)] assms(2), of k] net_inv_facts(1) [OF net_inv_reachable [OF assms(1)]]
  by (simp add: net_total_def)

text \<open>Two workers of which the first has produced and sent an update.\<close>

lemma example_network:
  "\<exists>n. net_reachable 2 (n :: nat network) \<and> nt_produced n (new_source 1 0, 5) = 1 \<and> nt_links n 0 1 \<noteq> []"
proof -
  let ?k = "(new_source 1 0, 5 :: nat)"
  have i: "net_reachable 2 (net_init 2 :: nat network)" by (rule net_reachable.init)
  have l: "(0::nat) < length (nt_workers (net_init 2 :: nat network))" by (simp add: net_init_def)
  note p = net_reachable.step [OF i net_step.produce [OF l refl, of ?k 1]]
  let ?n = "(net_init 2)\<lparr>nt_workers := (nt_workers (net_init 2))[0 := (nt_workers (net_init 2) ! 0)
      \<lparr>nw_local := cb_update ?k 1 (nw_local (nt_workers (net_init 2 :: nat network) ! 0))\<rparr>],
      nt_produced := (nt_produced (net_init 2))(?k := nt_produced (net_init 2) ?k + 1)\<rparr> :: nat network"
  obtain pg local where v: "progcaster_send (nw_caster (nt_workers ?n ! 0)) (nw_local (nt_workers ?n ! 0)) = (pg, local)" by fastforce
  have l': "0 < length (nt_workers ?n)" by (simp add: net_init_def)
  note q = net_reachable.step [OF p net_step.send [OF l' refl v]]
  have ne: "pg_pusher pg \<noteq> []"
    using v by (auto simp: net_init_def progcaster_new_def progcaster_send_def cb_is_empty_def cb_compact_def cb_update_def
        cb_maintain_bounds_def cb_new_def nth_append upt_rec split: if_splits)
  show ?thesis by (rule exI, rule conjI [OF q]) (use ne in \<open>simp add: net_init_def\<close>)
qed

theorem broadcast_conserves_witness:
  "\<exists>n. net_reachable 2 (n :: nat network) \<and> nt_produced n (new_source 1 0, 5) = 1
     \<and> nw_view (nt_workers n ! 1) (new_source 1 0, 5) + cb_count (nw_final (nt_workers n ! 1)) (new_source 1 0, 5)
       + msgs_count (pg_puller (nw_caster (nt_workers n ! 1))) (new_source 1 0, 5)
       + (\<Sum>s < 2. msgs_count (nt_links n s 1) (new_source 1 0, 5))
       + (\<Sum>s < 2. cb_count (nw_local (nt_workers n ! s)) (new_source 1 0, 5)) = 1"
proof -
  obtain n :: "nat network" where n: "net_reachable 2 n" "nt_produced n (new_source 1 0, 5) = 1"
    using example_network by blast
  from broadcast_conserves [OF n(1), of 1 "(new_source 1 0, 5)"] n show ?thesis by auto
qed

text \<open>
  at every worker the messages of a peer that are still to be received carry consecutive
  sequence numbers up to the peer's counter: messages arrive in the order in which they were
  sent, without gaps.
\<close>

theorem broadcast_in_order:
  assumes "net_reachable N n" and "s < N" and "r < N"
  shows "map (\<lambda>m. fst (snd m)) (net_queue n s r)
    = [pg_counter (nw_caster (nt_workers n ! s)) - length (net_queue n s r)..<pg_counter (nw_caster (nt_workers n ! s))]"
  by (rule net_inv_facts(6) [OF net_inv_reachable [OF assms(1)] assms(2,3)])

theorem broadcast_in_order_witness:
  "\<exists>n. net_reachable 2 (n :: nat network) \<and> net_queue n 0 1 \<noteq> []
     \<and> map (\<lambda>m. fst (snd m)) (net_queue n 0 1)
       = [pg_counter (nw_caster (nt_workers n ! 0)) - length (net_queue n 0 1)..<pg_counter (nw_caster (nt_workers n ! 0))]"
proof -
  obtain n :: "nat network" where n: "net_reachable 2 n" "nt_links n 0 1 \<noteq> []" using example_network by blast
  from broadcast_in_order [OF n(1), of 0 1] n show ?thesis by (auto simp: net_queue_def)
qed

end
