(* ===== verification/Activate.thy ===== *)
theory Activate
  imports Partial_Orders "HOL-Library.List_Lexorder" "HOL-Library.Sublist"
begin

text \<open>
  \<^verbatim>\<open>timely/src/scheduling/activate.rs\<close>: the activation tracker.  Paths are slices of the
  one vector \<open>slices\<close>, addressed by \<open>(offset, length)\<close> bounds; slices compare
  lexicographically.  The receiving end of the inter-thread channel is the list of paths sent and
  not yet received, \<open>timer\<close> is only tested for presence and the elapsed time is an argument
  of the operations that read the clock.  Slicing out of range and an overflow of a
  \<open>Duration\<close> sum are panics, \<open>None\<close>.
\<close>

section \<open>State and operations\<close>

type_synonym path = "nat list"

record activations =
  av_clean :: nat
  av_bounds :: "(nat \<times> nat) list"
  av_slices :: "nat list"
  av_buffer :: "nat list"
  av_rx :: "path list"
  av_timer :: bool
  av_queue :: "(duration \<times> path) list"

definition av_new :: "bool \<Rightarrow> activations" where
  "av_new timer = \<lparr>av_clean = 0, av_bounds = [], av_slices = [], av_buffer = [], av_rx = [], av_timer = timer, av_queue = []\<rparr>"

definition slice :: "nat list \<Rightarrow> nat \<times> nat \<Rightarrow> path" where
  "slice xs x = take (snd x) (drop (fst x) xs)"

definition in_range :: "nat list \<Rightarrow> nat \<times> nat \<Rightarrow> bool" where
  "in_range xs x \<longleftrightarrow> fst x + snd x \<le> length xs"

definition av_activate :: "path \<Rightarrow> activations \<Rightarrow> activations" where
  "av_activate path a =
     a\<lparr>av_bounds := av_bounds a @ [(length (av_slices a), length path)], av_slices := av_slices a @ path\<rparr>"

definition av_activate_after :: "duration \<Rightarrow> path \<Rightarrow> duration \<Rightarrow> activations \<Rightarrow> activations option" where
  "av_activate_after elapsed path delay a =
     (if av_timer a then
        if delay = from_nanos 0 then Some (av_activate path a)
        else map_option (\<lambda>moment. a\<lparr>av_queue := insort (moment, path) (av_queue a)\<rparr>)
               (duration_checked_add elapsed delay)
      else Some (av_activate path a))"

text \<open>\<open>dedup_by_key\<close> keeps the first of every run of equal keys.\<close>

fun dedup_by_key :: "('a \<Rightarrow> 'k) \<Rightarrow> 'a list \<Rightarrow> 'a list" where
  "dedup_by_key f (x # y # xs) = (if f x = f y then dedup_by_key f (x # xs) else x # dedup_by_key f (y # xs))"
| "dedup_by_key f xs = xs"

text \<open>The loop that copies the slices into the buffer and moves the offsets.\<close>

fun av_compact :: "nat list \<Rightarrow> (nat \<times> nat) list \<Rightarrow> nat list \<Rightarrow> (nat \<times> nat) list \<times> nat list" where
  "av_compact slices [] buffer = ([], buffer)"
| "av_compact slices ((offset, len) # bs) buffer =
     (let buffer = buffer @ slice slices (offset, len);
          (bs', buffer') = av_compact slices bs buffer
      in ((length buffer - len, len) # bs', buffer'))"

definition av_drain_rx :: "activations \<Rightarrow> activations" where
  "av_drain_rx a = (fold av_activate (av_rx a) a)\<lparr>av_rx := []\<rparr>"

definition av_drain_queue :: "duration \<Rightarrow> activations \<Rightarrow> activations" where
  "av_drain_queue elapsed a =
     (if av_timer a then
        let due = takeWhile (\<lambda>x. fst x \<le> elapsed) (av_queue a)
        in (fold av_activate (map snd due) a)\<lparr>av_queue := dropWhile (\<lambda>x. fst x \<le> elapsed) (av_queue a)\<rparr>
      else a)"

definition av_advance :: "duration \<Rightarrow> activations \<Rightarrow> activations option" where
  "av_advance elapsed a =
     (let a = av_drain_queue elapsed (av_drain_rx a);
          bounds = drop (av_clean a) (av_bounds a)
      in if av_clean a \<le> length (av_bounds a) \<and> list_all (in_range (av_slices a)) bounds
         then let key = slice (av_slices a);
                  bounds = dedup_by_key key (sort_key key bounds);
                  (bounds, buffer) = av_compact (av_slices a) bounds []
              in Some (a\<lparr>av_bounds := bounds, av_slices := buffer, av_buffer := av_slices a, av_clean := length bounds\<rparr>)
         else None)"

text \<open>The active paths \<open>map_active\<close> hands to its argument, in order.\<close>

definition av_map_active :: "activations \<Rightarrow> path list option" where
  "av_map_active a =
     (if list_all (in_range (av_slices a)) (av_bounds a) then Some (map (slice (av_slices a)) (av_bounds a)) else None)"

text \<open>
  \<open>binary_search_by_key\<close> on a sorted slice: the position of the key or where it could be
  inserted.
\<close>

definition search_position :: "path list \<Rightarrow> path \<Rightarrow> nat" where
  "search_position keys key = length (takeWhile (\<lambda>k. k < key) keys)"

fun push_extensions :: "nat \<Rightarrow> nat option \<Rightarrow> path list \<Rightarrow> nat list" where
  "push_extensions n previous [] = []"
| "push_extensions n previous (x # xs) =
     (if n < length x \<and> previous \<noteq> Some (x ! n) then x ! n # push_extensions n (Some (x ! n)) xs
      else push_extensions n previous xs)"

definition av_for_extensions :: "path \<Rightarrow> activations \<Rightarrow> nat list option" where
  "av_for_extensions path a =
     (if av_clean a \<le> length (av_bounds a) \<and> list_all (in_range (av_slices a)) (av_bounds a)
      then let paths = map (slice (av_slices a)) (av_bounds a);
               position = search_position (take (av_clean a) paths) path
           in Some (push_extensions (length path) None (takeWhile (prefix path) (drop position paths)))
      else None)"

definition av_empty_for :: "duration \<Rightarrow> activations \<Rightarrow> duration option" where
  "av_empty_for elapsed a =
     (if av_bounds a \<noteq> [] \<or> \<not> av_timer a then Some (from_nanos 0)
      else case av_queue a of
             [] \<Rightarrow> None
           | (t, _) # _ \<Rightarrow> Some (if t < elapsed then from_nanos 0 else from_nanos (as_nanos t - as_nanos elapsed)))"

text \<open>
  Handles.  Sending on the channel fails, with \<open>SyncActivationError\<close>, when the
  \<open>Activations\<close> have been dropped; the paths before the failure have been sent.
\<close>

datatype sync_activation_error = SyncActivationError

definition sync_activate_batch ::
  "path list \<Rightarrow> activations option \<Rightarrow> (sync_activation_error + unit) \<times> activations option" where
  "sync_activate_batch paths rx =
     (case rx of
        None \<Rightarrow> (if paths = [] then Inr () else Inl SyncActivationError, None)
      | Some a \<Rightarrow> (Inr (), Some (a\<lparr>av_rx := av_rx a @ paths\<rparr>)))"

definition sync_activate ::
  "path \<Rightarrow> activations option \<Rightarrow> (sync_activation_error + unit) \<times> activations option" where
  "sync_activate path rx = sync_activate_batch [path] rx"

definition activator_activate_after :: "duration \<Rightarrow> path \<Rightarrow> duration \<Rightarrow> activations \<Rightarrow> activations option" where
  "activator_activate_after elapsed path delay a =
     (if delay = from_nanos 0 then Some (av_activate path a) else av_activate_after elapsed path delay a)"

definition activate_on_drop :: "path \<Rightarrow> activations \<Rightarrow> activations" where
  "activate_on_drop address a = av_activate address a"

section \<open>Invariant and abstraction\<close>

definition av_paths :: "activations \<Rightarrow> path list" where
  "av_paths a = map (slice (av_slices a)) (av_bounds a)"

text \<open>The presented active set, and the activations waiting for the next \<open>advance\<close>.\<close>

definition av_active :: "activations \<Rightarrow> path list" where
  "av_active a = take (av_clean a) (av_paths a)"

definition av_pending :: "activations \<Rightarrow> path list" where
  "av_pending a = drop (av_clean a) (av_paths a)"

definition av_inv :: "activations \<Rightarrow> bool" where
  "av_inv a \<longleftrightarrow> av_clean a \<le> length (av_bounds a) \<and> list_all (in_range (av_slices a)) (av_bounds a)
     \<and> sorted_wrt (<) (av_active a) \<and> sorted (av_queue a)"

section \<open>Lemmas\<close>

lemma slice_append: "in_range xs x \<Longrightarrow> slice (xs @ ys) x = slice xs x"
  by (simp add: slice_def in_range_def)

lemma slice_new: "slice (xs @ p) (length xs, length p) = p"
  by (simp add: slice_def)

lemma activate_fields [simp]:
  "av_clean (av_activate p a) = av_clean a" "av_rx (av_activate p a) = av_rx a"
  "av_timer (av_activate p a) = av_timer a" "av_queue (av_activate p a) = av_queue a"
  by (simp_all add: av_activate_def)

lemma activate_paths:
  assumes "list_all (in_range (av_slices a)) (av_bounds a)"
  shows "av_paths (av_activate p a) = av_paths a @ [p]"
    and "list_all (in_range (av_slices (av_activate p a))) (av_bounds (av_activate p a))"
proof -
  have "map (slice (av_slices a @ p)) (av_bounds a) = map (slice (av_slices a)) (av_bounds a)"
    using assms by (intro map_cong) (auto simp: slice_append list_all_iff)
  then show "av_paths (av_activate p a) = av_paths a @ [p]"
    by (simp add: av_paths_def av_activate_def slice_new)
  show "list_all (in_range (av_slices (av_activate p a))) (av_bounds (av_activate p a))"
    using assms by (auto simp: list_all_iff av_activate_def in_range_def)
qed

lemma fold_activate:
  "list_all (in_range (av_slices a)) (av_bounds a) \<Longrightarrow>
   av_paths (fold av_activate ps a) = av_paths a @ ps
   \<and> list_all (in_range (av_slices (fold av_activate ps a))) (av_bounds (fold av_activate ps a))
   \<and> av_clean (fold av_activate ps a) = av_clean a \<and> av_rx (fold av_activate ps a) = av_rx a
   \<and> av_timer (fold av_activate ps a) = av_timer a \<and> av_queue (fold av_activate ps a) = av_queue a"
  by (induction ps arbitrary: a) (auto simp: activate_paths)

lemma length_av_paths [simp]: "length (av_paths a) = length (av_bounds a)"
  by (simp add: av_paths_def)

lemma av_inv_activate:
  assumes "av_inv a"
  shows "av_inv (av_activate p a)" and "av_active (av_activate p a) = av_active a"
    and "av_pending (av_activate p a) = av_pending a @ [p]"
proof -
  have r: "list_all (in_range (av_slices a)) (av_bounds a)" "av_clean a \<le> length (av_paths a)"
    using assms by (simp_all add: av_inv_def)
  show ac: "av_active (av_activate p a) = av_active a" using r by (simp add: av_active_def activate_paths)
  show "av_pending (av_activate p a) = av_pending a @ [p]" using r by (simp add: av_pending_def activate_paths)
  have "length (av_paths (av_activate p a)) = Suc (length (av_paths a))" by (simp add: activate_paths [OF r(1)])
  then show "av_inv (av_activate p a)" using assms activate_paths(2) [OF r(1), of p] ac by (simp add: av_inv_def)
qed

lemma dedup_by_key_sorted:
  "sorted (map f xs) \<Longrightarrow> sorted_wrt (<) (map f (dedup_by_key f xs))
     \<and> f ` set (dedup_by_key f xs) = f ` set xs \<and> set (dedup_by_key f xs) \<subseteq> set xs"
  for f :: "'a \<Rightarrow> 'k::linorder"
proof (induction f xs rule: dedup_by_key.induct)
  case (1 f x y xs)
  show ?case
  proof (cases "f x = f y")
    case True
    with 1 show ?thesis by auto
  next
    case False
    with 1 have ih: "sorted_wrt (<) (map f (dedup_by_key f (y # xs)))"
      "f ` set (dedup_by_key f (y # xs)) = f ` set (y # xs)" "set (dedup_by_key f (y # xs)) \<subseteq> set (y # xs)" by auto
    have "f x < f y" using False 1(3) by (simp add: less_le)
    then have lt: "f x < f z" if "z \<in> set (y # xs)" for z using 1(3) that by (auto simp: less_le_trans)
    then have "\<forall>k \<in> set (map f (dedup_by_key f (y # xs))). f x < k" using ih(3) by auto
    with ih False lt show ?thesis by simp blast
  qed
qed auto

lemma compact_paths:
  "list_all (in_range slices) bs \<Longrightarrow> av_compact slices bs buffer = (bs', buffer') \<Longrightarrow>
   map (slice buffer') bs' = map (slice slices) bs \<and> list_all (in_range buffer') bs'
   \<and> (\<exists>ys. buffer' = buffer @ ys)"
proof (induction slices bs buffer arbitrary: bs' buffer' rule: av_compact.induct)
  case (1 slices buffer)
  then show ?case by auto
next
  case (2 slices offset len bs buffer)
  define b1 where "b1 = buffer @ slice slices (offset, len)"
  obtain bs1 b2 where c: "av_compact slices bs b1 = (bs1, b2)" by fastforce
  have ih: "map (slice b2) bs1 = map (slice slices) bs" "list_all (in_range b2) bs1" "\<exists>ys. b2 = b1 @ ys"
    using 2(1) [OF b1_def _ c] 2(2) by auto
  then obtain ys where ys: "b2 = b1 @ ys" by blast
  have out: "bs' = (length b1 - len, len) # bs1" "buffer' = b2" using 2(3) c by (auto simp: b1_def Let_def)
  have len: "length (slice slices (offset, len)) = len" using 2(2) by (auto simp: slice_def in_range_def)
  then have "slice b2 (length b1 - len, len) = slice slices (offset, len)" by (simp add: b1_def ys slice_def)
  moreover have "in_range b2 (length b1 - len, len)" using len by (simp add: in_range_def ys b1_def)
  ultimately show ?case using ih ys by (simp add: out b1_def)
qed

lemma av_inv_activate_after:
  assumes "av_inv a" and "av_activate_after elapsed path delay a = Some a'"
  shows "av_inv a'"
  using assms av_inv_activate(1) [OF assms(1)]
  by (auto simp: av_activate_after_def av_inv_def av_active_def av_paths_def sorted_insort split: if_splits)

lemma av_inv_sync:
  assumes "av_inv a" and "sync_activate_batch paths (Some a) = (r, Some a')"
  shows "av_inv a' \<and> av_rx a' = av_rx a @ paths"
  using assms by (auto simp: sync_activate_batch_def av_inv_def av_active_def av_paths_def)

lemma av_inv_new: "av_inv (av_new timer)"
  by (simp add: av_inv_def av_new_def av_active_def av_paths_def)

lemma drain_rx_state:
  assumes "av_inv a"
  shows "av_inv (av_drain_rx a)" and "av_active (av_drain_rx a) = av_active a"
    and "av_pending (av_drain_rx a) = av_pending a @ av_rx a" and "av_queue (av_drain_rx a) = av_queue a"
    and "av_timer (av_drain_rx a) = av_timer a" and "av_rx (av_drain_rx a) = []"
proof -
  have st: "av_inv (fold av_activate ps a) \<and> av_active (fold av_activate ps a) = av_active a
    \<and> av_pending (fold av_activate ps a) = av_pending a @ ps" if "av_inv a" for ps a
    using that by (induction ps arbitrary: a) (auto simp: av_inv_activate)
  have r: "list_all (in_range (av_slices a)) (av_bounds a)" using assms by (simp add: av_inv_def)
  show "av_inv (av_drain_rx a)" "av_active (av_drain_rx a) = av_active a"
    "av_pending (av_drain_rx a) = av_pending a @ av_rx a" "av_queue (av_drain_rx a) = av_queue a"
    "av_timer (av_drain_rx a) = av_timer a" "av_rx (av_drain_rx a) = []"
    using st [OF assms, of "av_rx a"] fold_activate [OF r, of "av_rx a"]
    by (simp_all add: av_drain_rx_def av_inv_def av_active_def av_pending_def av_paths_def)
qed

definition av_due :: "duration \<Rightarrow> activations \<Rightarrow> path list" where
  "av_due elapsed a = (if av_timer a then map snd (filter (\<lambda>x. fst x \<le> elapsed) (av_queue a)) else [])"

lemma sorted_takeWhile_filter:
  "sorted (xs :: (duration \<times> path) list) \<Longrightarrow> takeWhile (\<lambda>x. fst x \<le> e) xs = filter (\<lambda>x. fst x \<le> e) xs
     \<and> dropWhile (\<lambda>x. fst x \<le> e) xs = filter (\<lambda>x. \<not> fst x \<le> e) xs"
proof (induction xs)
  case (Cons x xs)
  show ?case
  proof (cases "fst x \<le> e")
    case True
    with Cons show ?thesis by simp
  next
    case False
    then have "\<not> fst y \<le> e" if "y \<in> set xs" for y
      using Cons(2) that by (auto simp: less_eq_prod_def dest: order_trans less_imp_le)
    with False show ?thesis by (auto simp: filter_empty_conv filter_id_conv)
  qed
qed simp

lemma drain_queue_state:
  assumes "av_inv a"
  shows "av_inv (av_drain_queue e a)" and "av_pending (av_drain_queue e a) = av_pending a @ av_due e a"
    and "av_queue (av_drain_queue e a) = (if av_timer a then filter (\<lambda>x. \<not> fst x \<le> e) (av_queue a) else av_queue a)"
    and "av_rx (av_drain_queue e a) = av_rx a"
proof -
  have st: "av_inv (fold av_activate ps a) \<and> av_active (fold av_activate ps a) = av_active a
    \<and> av_pending (fold av_activate ps a) = av_pending a @ ps" if "av_inv a" for ps a
    using that by (induction ps arbitrary: a) (auto simp: av_inv_activate)
  have r: "list_all (in_range (av_slices a)) (av_bounds a)" and q: "sorted (av_queue a)"
    using assms by (simp_all add: av_inv_def)
  let ?d = "map snd (filter (\<lambda>x. fst x \<le> e) (av_queue a))"
  show "av_inv (av_drain_queue e a)" "av_pending (av_drain_queue e a) = av_pending a @ av_due e a"
    "av_queue (av_drain_queue e a) = (if av_timer a then filter (\<lambda>x. \<not> fst x \<le> e) (av_queue a) else av_queue a)"
    "av_rx (av_drain_queue e a) = av_rx a"
    using st [OF assms, of ?d] fold_activate [OF r, of ?d] assms sorted_takeWhile_filter [OF q, of e] sorted_wrt_filter [OF q]
    by (simp_all add: av_drain_queue_def av_inv_def av_active_def av_pending_def av_paths_def av_due_def Let_def)
qed

text \<open>What \<open>advance\<close> presents.\<close>

lemma advance_state:
  assumes inv: "av_inv a"
  shows "\<exists>a'. av_advance e a = Some a' \<and> av_inv a' \<and> av_pending a' = [] \<and> av_rx a' = []
    \<and> set (av_active a') = set (av_pending a) \<union> set (av_rx a) \<union> set (av_due e a)
    \<and> av_queue a' = (if av_timer a then filter (\<lambda>x. \<not> fst x \<le> e) (av_queue a) else av_queue a)"
proof -
  define b where "b = av_drain_queue e (av_drain_rx a)"
  note rx = drain_rx_state [OF inv]
  note qu = drain_queue_state [OF rx(1), of e, folded b_def]
  have due: "av_due e (av_drain_rx a) = av_due e a" by (simp add: av_due_def rx(4,5))
  have range: "av_clean b \<le> length (av_bounds b)" "list_all (in_range (av_slices b)) (drop (av_clean b) (av_bounds b))"
    using qu(1) by (auto simp: av_inv_def list_all_iff dest: in_set_dropD)
  define key where "key = slice (av_slices b)"
  define bs where "bs = dedup_by_key key (sort_key key (drop (av_clean b) (av_bounds b)))"
  obtain bounds buffer where c: "av_compact (av_slices b) bs [] = (bounds, buffer)" by fastforce
  have srt: "sorted_wrt (<) (map key bs)" "key ` set bs = key ` set (drop (av_clean b) (av_bounds b))"
    "set bs \<subseteq> set (drop (av_clean b) (av_bounds b))"
    using dedup_by_key_sorted [of key "sort_key key (drop (av_clean b) (av_bounds b))"] by (simp_all add: bs_def)
  have rb: "list_all (in_range (av_slices b)) bs" using range(2) srt(3) by (auto simp: list_all_iff)
  note cp = compact_paths [OF rb c]
  define a' where "a' = b\<lparr>av_bounds := bounds, av_slices := buffer, av_buffer := av_slices b, av_clean := length bounds\<rparr>"
  have run: "av_advance e a = Some a'"
    using range c by (simp add: av_advance_def Let_def a'_def flip: b_def key_def) (simp add: bs_def key_def)
  have "av_paths a' = map key bs" using cp by (simp add: av_paths_def a'_def key_def)
  moreover have "length (map key bs) = length bounds" using cp by (metis length_map)
  ultimately have act: "av_active a' = map key bs" "av_pending a' = []"
    unfolding av_active_def av_pending_def by (simp_all add: a'_def)
  moreover have "av_inv a'" using act srt(1) cp qu(1) by (simp add: av_inv_def a'_def)
  moreover have "set (av_active a') = set (av_pending a) \<union> set (av_rx a) \<union> set (av_due e a)"
  proof -
    have "set (av_active a') = key ` set (drop (av_clean b) (av_bounds b))" using act srt(2) by simp
    also have "\<dots> = set (av_pending b)" by (simp add: av_pending_def av_paths_def key_def drop_map)
    also have "\<dots> = set (av_pending a) \<union> set (av_rx a) \<union> set (av_due e a)" using qu(2) rx(3) due by auto
    finally show ?thesis .
  qed
  moreover have "av_rx a' = []" "av_queue a' = (if av_timer a then filter (\<lambda>x. \<not> fst x \<le> e) (av_queue a) else av_queue a)"
    using qu(3,4) rx(4,5,6) by (simp_all add: a'_def)
  ultimately show ?thesis using run by blast
qed

section \<open>Extensions\<close>

lemma prefix_between: "path \<le> k \<Longrightarrow> k \<le> k' \<Longrightarrow> prefix path k' \<Longrightarrow> prefix path k" for path :: path
proof (induction path arbitrary: k k')
  case (Cons p path)
  then show ?case by (cases k; cases k') auto
qed simp

lemma prefix_next_le: "prefix path x \<Longrightarrow> prefix path y \<Longrightarrow> x \<le> y \<Longrightarrow> length path < length x \<Longrightarrow> length path < length y
   \<Longrightarrow> x ! length path \<le> y ! length path" for path :: path
proof (induction path arbitrary: x y)
  case Nil
  then show ?case by (cases x; cases y) auto
next
  case (Cons p path)
  then show ?case by (cases x; cases y) auto
qed

lemma set_push_extensions:
  "set (push_extensions n previous xs) \<union> set_option previous
   = {x ! n | x. x \<in> set xs \<and> n < length x} \<union> set_option previous"
proof (induction xs arbitrary: previous)
  case (Cons x xs)
  have split: "{y ! n | y. y \<in> set (x # xs) \<and> n < length y}
      = (if n < length x then {x ! n} else {}) \<union> {y ! n | y. y \<in> set xs \<and> n < length y}" by auto
  show ?case
  proof (cases "n < length x \<and> previous \<noteq> Some (x ! n)")
    case True
    with Cons [of "Some (x ! n)"] show ?thesis unfolding split by auto
  next
    case False
    with Cons [of previous] show ?thesis unfolding split by auto
  qed
qed simp

lemma push_extensions_sorted:
  "sorted xs \<Longrightarrow> \<forall>x \<in> set xs. prefix path x \<Longrightarrow> \<forall>p x. previous = Some p \<longrightarrow> x \<in> set xs \<longrightarrow> length path < length x \<longrightarrow> p \<le> x ! length path \<Longrightarrow>
   sorted_wrt (<) (push_extensions (length path) previous xs) \<and> (\<forall>p e. previous = Some p \<longrightarrow> e \<in> set (push_extensions (length path) previous xs) \<longrightarrow> p < e)"
proof (induction xs arbitrary: previous)
  case (Cons x xs)
  show ?case
  proof (cases "length path < length x \<and> previous \<noteq> Some (x ! length path)")
    case True
    have "x ! length path \<le> y ! length path" if "y \<in> set xs" "length path < length y" for y
      using Cons.prems(1,2) True that prefix_next_le [of path x y] by simp
    with Cons.IH [of "Some (x ! length path)"] Cons.prems
    have ih: "sorted_wrt (<) (push_extensions (length path) (Some (x ! length path)) xs)"
      "\<forall>e \<in> set (push_extensions (length path) (Some (x ! length path)) xs). x ! length path < e" by auto
    moreover have "p < x ! length path" if "previous = Some p" for p
      using Cons.prems(3) True that by (auto simp: less_le)
    ultimately show ?thesis using True by (fastforce intro: less_trans)
  next
    case False
    then have eq: "push_extensions (length path) previous (x # xs) = push_extensions (length path) previous xs" by auto
    have "sorted xs" "\<forall>x \<in> set xs. prefix path x"
      "\<forall>p x. previous = Some p \<longrightarrow> x \<in> set xs \<longrightarrow> length path < length x \<longrightarrow> p \<le> x ! length path"
      using Cons.prems by auto
    from Cons.IH [OF this] show ?thesis unfolding eq .
  qed
qed simp

text \<open>On a sorted prefix of the paths, everything that extends \<open>path\<close> is found.\<close>

lemma takeWhile_prefix_sorted:
  "sorted xs \<Longrightarrow> \<forall>x \<in> set xs. path \<le> x \<Longrightarrow> takeWhile (prefix path) xs = filter (prefix path) xs" for path :: path
proof (induction xs)
  case (Cons x xs)
  show ?case
  proof (cases "prefix path x")
    case False
    then have "\<not> prefix path y" if "y \<in> set xs" for y
      using Cons.prems that prefix_between [of path x y] by auto
    with False show ?thesis by (auto simp: filter_empty_conv)
  qed (use Cons in simp)
qed simp

lemma prefix_imp_le: "prefix path x \<Longrightarrow> path \<le> x" for path :: path
proof (induction path arbitrary: x)
  case (Cons p path)
  then show ?case by (cases x) auto
qed simp

lemma found_paths:
  fixes path :: path
  assumes "sorted xs"
  shows "\<exists>zs. takeWhile (prefix path) (drop (search_position xs path) (xs @ ys)) = filter (prefix path) xs @ zs
    \<and> set zs \<subseteq> set ys \<and> (\<forall>z \<in> set zs. prefix path z)"
proof -
  define ds where "ds = dropWhile (\<lambda>k. k < path) xs"
  have "drop (search_position xs path) (xs @ ys) = ds @ ys"
    by (simp add: search_position_def ds_def dropWhile_eq_drop length_takeWhile_le)
  moreover have srt: "sorted ds" using assms by (simp add: ds_def sorted_dropWhile)
  have ge: "path \<le> x" if "x \<in> set ds" for x
  proof (cases ds)
    case (Cons d ds')
    then have "\<not> d < path" using hd_dropWhile [of "\<lambda>k. k < path" xs] by (simp add: ds_def)
    with srt Cons that show ?thesis by auto
  qed (use that in simp)
  have tw: "takeWhile (prefix path) ds = filter (prefix path) ds" using takeWhile_prefix_sorted [OF srt] ge by blast
  have "filter (prefix path) (takeWhile (\<lambda>k. k < path) xs) = []"
    using prefix_imp_le [of path] by (auto simp: filter_empty_conv dest!: set_takeWhileD) (meson leD)
  then have flt: "filter (prefix path) ds = filter (prefix path) xs"
    unfolding ds_def by (metis append_Nil filter_append takeWhile_dropWhile_id)
  have "\<exists>zs. takeWhile (prefix path) (ds @ ys) = takeWhile (prefix path) ds @ zs \<and> set zs \<subseteq> set ys \<and> (\<forall>z \<in> set zs. prefix path z)"
  proof (cases "\<forall>x \<in> set ds. prefix path x")
    case True
    then have t: "takeWhile (prefix path) ds = ds" "takeWhile (prefix path) (ds @ ys) = ds @ takeWhile (prefix path) ys"
      by (simp_all add: takeWhile_eq_all_conv)
    show ?thesis unfolding t using set_takeWhileD [of _ "prefix path" ys] by blast
  next
    case False
    then have "takeWhile (prefix path) (ds @ ys) = takeWhile (prefix path) ds" by (auto simp: takeWhile_append1)
    then show ?thesis by auto
  qed
  ultimately show ?thesis using tw flt by simp
qed

lemma for_extensions_state:
  assumes "av_inv a"
  shows "\<exists>zs. av_for_extensions path a = Some (push_extensions (length path) None (filter (prefix path) (av_active a) @ zs))
    \<and> set zs \<subseteq> set (av_pending a) \<and> (\<forall>z \<in> set zs. prefix path z)"
proof -
  have r: "av_clean a \<le> length (av_bounds a)" "list_all (in_range (av_slices a)) (av_bounds a)" "sorted (av_active a)"
    using assms strict_sorted_imp_sorted by (auto simp: av_inv_def)
  have split: "map (slice (av_slices a)) (av_bounds a) = av_active a @ av_pending a"
    by (simp add: av_active_def av_pending_def av_paths_def)
  have act: "take (av_clean a) (av_active a @ av_pending a) = av_active a"
    unfolding split [symmetric] by (simp add: av_active_def av_paths_def)
  from found_paths [OF r(3), of path "av_pending a"] obtain zs where
    z: "takeWhile (prefix path) (drop (search_position (av_active a) path) (av_active a @ av_pending a))
      = filter (prefix path) (av_active a) @ zs" "set zs \<subseteq> set (av_pending a)" "\<forall>z \<in> set zs. prefix path z" by blast
  have "av_for_extensions path a = Some (push_extensions (length path) None (filter (prefix path) (av_active a) @ zs))"
    using r(1,2) unfolding av_for_extensions_def Let_def split act z(1) by simp
  with z(2,3) show ?thesis by blast
qed

section \<open>Properties\<close>

text \<open>
  C29: \<open>advance\<close> never panics on a tracker in its invariant, which every operation keeps;
  it presents, sorted and without duplicates, exactly the paths activated since the last
  \<open>advance\<close>, those sent by other threads and those whose delay has passed, and keeps
  the others waiting: no activation is lost and none is invented.
\<close>

theorem advance_correct:
  assumes "av_inv a"
  shows "\<exists>a'. av_advance elapsed a = Some a' \<and> av_inv a' \<and> av_map_active a' = Some (av_active a')
    \<and> sorted_wrt (<) (av_active a')
    \<and> set (av_active a') = set (av_pending a) \<union> set (av_rx a) \<union> set (av_due elapsed a)
    \<and> av_pending a' = [] \<and> av_rx a' = []
    \<and> av_queue a' = (if av_timer a then filter (\<lambda>x. \<not> fst x \<le> elapsed) (av_queue a) else av_queue a)"
proof -
  from advance_state [OF assms, of elapsed] obtain a' where
    a: "av_advance elapsed a = Some a'" "av_inv a'" "av_pending a' = []" "av_rx a' = []"
    "set (av_active a') = set (av_pending a) \<union> set (av_rx a) \<union> set (av_due elapsed a)"
    "av_queue a' = (if av_timer a then filter (\<lambda>x. \<not> fst x \<le> elapsed) (av_queue a) else av_queue a)" by blast
  have "av_active a' = av_paths a'" using a(3) append_take_drop_id [of "av_clean a'" "av_paths a'"]
    by (simp add: av_active_def av_pending_def)
  then have "av_map_active a' = Some (av_active a')" using a(2) by (simp add: av_map_active_def av_inv_def av_paths_def)
  with a show ?thesis by (auto simp: av_inv_def)
qed

theorem advance_correct_witness:
  "\<exists>a'. av_advance (from_nanos 0) (av_activate [1, 2] (av_activate [0, 3] (av_activate [1, 2] (av_new False)))) = Some a'
     \<and> set (av_active a') = {[0, 3], [1, 2]}"
proof -
  have "av_inv (av_new False)" by (simp add: av_inv_def av_new_def av_active_def av_paths_def)
  then have i: "av_inv (av_activate [1, 2] (av_activate [0, 3] (av_activate [1, 2] (av_new False))))"
    by (intro av_inv_activate(1))
  have p: "set (av_pending (av_activate [1, 2] (av_activate [0, 3] (av_activate [1, 2] (av_new False))))) = {[0, 3], [1, 2]}"
    by code_simp
  from advance_correct [OF i, of "from_nanos 0"] p show ?thesis by (auto simp: av_due_def av_activate_def av_new_def)
qed

text \<open>
  \<open>for_extensions\<close> never panics and misses nothing: every child on the presented
  active set below the path is reported, and every reported child belongs to some activated
  path; directly after \<open>advance\<close> the children come in strictly increasing order.
\<close>

theorem for_extensions_correct:
  assumes "av_inv a"
  shows "\<exists>es. av_for_extensions path a = Some es
    \<and> {e. \<exists>p \<in> set (av_active a). prefix (path @ [e]) p} \<subseteq> set es
    \<and> set es \<subseteq> {e. \<exists>p \<in> set (av_paths a). prefix (path @ [e]) p}
    \<and> (av_pending a = [] \<longrightarrow> sorted_wrt (<) es)"
proof -
  from for_extensions_state [OF assms, of path] obtain zs where
    z: "av_for_extensions path a = Some (push_extensions (length path) None (filter (prefix path) (av_active a) @ zs))"
    "set zs \<subseteq> set (av_pending a)" "\<forall>z \<in> set zs. prefix path z" by blast
  let ?xs = "filter (prefix path) (av_active a) @ zs"
  have ext: "e = x ! length path \<and> length path < length x \<longleftrightarrow> prefix (path @ [e]) x" if "prefix path x" for e x
    using that by (auto simp: prefix_def nth_append) (metis Cons_eq_appendI append_self_conv2 cancel_comm_monoid_add_class.diff_cancel list.exhaust nth_Cons_0)
  have "set (push_extensions (length path) None ?xs) = {e. \<exists>x \<in> set ?xs. e = x ! length path \<and> length path < length x}"
    using set_push_extensions [of "length path" None ?xs] by auto
  moreover have "(\<exists>x \<in> set ?xs. e = x ! length path \<and> length path < length x) \<longleftrightarrow> (\<exists>x \<in> set ?xs. prefix (path @ [e]) x)" for e
    by (rule bex_cong [OF refl], rule ext) (use z(3) in auto)
  ultimately have set: "set (push_extensions (length path) None ?xs) = {e. \<exists>x \<in> set ?xs. prefix (path @ [e]) x}"
    by simp
  have "set (av_active a) \<union> set (av_pending a) = set (av_paths a)"
    unfolding av_active_def av_pending_def by (metis append_take_drop_id set_append)
  then have "{e. \<exists>p \<in> set (av_active a). prefix (path @ [e]) p} \<subseteq> {e. \<exists>x \<in> set ?xs. prefix (path @ [e]) x}"
    "{e. \<exists>x \<in> set ?xs. prefix (path @ [e]) x} \<subseteq> {e. \<exists>p \<in> set (av_paths a). prefix (path @ [e]) p}"
    using z(2) by (auto dest: append_prefixD)
  moreover have "sorted_wrt (<) (push_extensions (length path) None ?xs)" if "av_pending a = []"
  proof -
    have "zs = []" using z(2) that by simp
    moreover have "sorted (filter (prefix path) (av_active a))"
      by (rule sorted_wrt_filter, rule strict_sorted_imp_sorted) (use assms in \<open>simp add: av_inv_def\<close>)
    ultimately have "sorted ?xs" "\<forall>x \<in> set ?xs. prefix path x" by simp_all
    from push_extensions_sorted [OF this, of None] show ?thesis by blast
  qed
  ultimately show ?thesis using z(1) set by blast
qed

theorem for_extensions_correct_witness:
  "\<exists>es. av_for_extensions [1] (av_activate [1, 2] (av_activate [0, 3] (av_new False))) = Some es
     \<and> set es \<subseteq> {e. \<exists>p \<in> {[1, 2], [0, 3]}. prefix ([1] @ [e]) p}"
proof -
  have "av_inv (av_new False)" by (simp add: av_inv_def av_new_def av_active_def av_paths_def)
  then have i: "av_inv (av_activate [1, 2] (av_activate [0, 3] (av_new False)))" by (intro av_inv_activate(1))
  have "av_paths (av_activate [1, 2] (av_activate [0, 3] (av_new False))) = [[0, 3], [1, 2]]" by code_simp
  with for_extensions_correct [OF i, of "[1]"] show ?thesis by (fastforce simp: insert_commute)
qed

end
