(* ===== verification/Subgraph_Child.thy ===== *)
theory Subgraph_Child
  imports Reachability Broadcast Activate
begin

text \<open>
  \<^verbatim>\<open>timely/src/progress/subgraph.rs\<close>, first part: \<open>PerOperatorState\<close>, the state a
  subgraph keeps for each child.

  A child operator is a trait object: its state has the type \<open>'op\<close> and its
  \<open>schedule\<close> is a parameter, a function of that state, of the \<open>SharedProgress\<close> it
  shares with the subgraph and of the worker's activations, that returns whether it is incomplete
  (\<open>None\<close> when it panics).  Names, identifiers and logging are left out.
  \<open>BinaryHeap<Reverse<usize>>\<close> is a sorted list.
\<close>

section \<open>State\<close>

record ('t, 's, 'op) child =
  ch_index :: nat
  ch_local :: bool
  ch_notify :: bool
  ch_inputs :: nat
  ch_outputs :: nat
  ch_operator :: "'op option"
  ch_edges :: "target list list"
  ch_shared_progress :: "'t shared_progress"
  ch_internal_summary :: "'s connectivity"

type_synonym ('t, 'op) op_schedule =
  "'op \<Rightarrow> 't shared_progress \<Rightarrow> activations \<Rightarrow> (bool \<times> 'op \<times> 't shared_progress \<times> activations) option"

definition child_empty :: "nat \<Rightarrow> nat \<Rightarrow> ('t, 's, 'op) child" where
  "child_empty inputs outputs =
     \<lparr>ch_index = 0, ch_local = False, ch_notify = True, ch_inputs = inputs, ch_outputs = outputs, ch_operator = None,
      ch_edges = replicate outputs [], ch_shared_progress = sp_new inputs outputs, ch_internal_summary = []\<rparr>"

text \<open>
  \<open>new\<close>, given what the operator's \<open>local\<close>, \<open>inputs\<close>, \<open>outputs\<close>,
  \<open>notify_me\<close> and \<open>get_internal_summary\<close> return.
\<close>

definition child_new ::
  "'op \<Rightarrow> nat \<Rightarrow> bool \<Rightarrow> nat \<Rightarrow> nat \<Rightarrow> bool \<Rightarrow> 's connectivity \<Rightarrow> 't shared_progress \<Rightarrow> ('t, 's, 'op) child option" where
  "child_new scope index local inputs outputs notify internal_summary shared_progress =
     (if length internal_summary = inputs
         \<and> list_all (\<lambda>os. list_all (\<lambda>(k, _). k < outputs) (pc_iter_ports os)) internal_summary
      then Some \<lparr>ch_index = index, ch_local = local, ch_notify = notify, ch_inputs = inputs, ch_outputs = outputs,
                 ch_operator = Some scope, ch_edges = replicate outputs [], ch_shared_progress = shared_progress,
                 ch_internal_summary = internal_summary\<rparr>
      else None)"

text \<open>\<open>iter_mut().any(|x| !x.is_empty())\<close>: stops at the first, compacting what it looks at.\<close>

fun any_nonempty :: "'t::linorder change_batch list \<Rightarrow> bool \<times> 't change_batch list" where
  "any_nonempty [] = (False, [])"
| "any_nonempty (b # bs) =
     (let (e, b') = cb_is_empty b
      in if \<not> e then (True, b' # bs) else let (r, bs') = any_nonempty bs in (r, b' # bs'))"

definition child_schedule ::
  "('t::linorder, 'op) op_schedule \<Rightarrow> ('t, 's, 'op) child \<Rightarrow> activations
   \<Rightarrow> (bool \<times> ('t, 's, 'op) child \<times> activations) option" where
  "child_schedule sched ch av =
     (case ch_operator ch of
        Some op \<Rightarrow>
          do { (incomplete, op', sp', av') \<leftarrow> sched op (ch_shared_progress ch) av;
               Some (incomplete, ch\<lparr>ch_operator := Some op', ch_shared_progress := sp'\<rparr>, av') }
      | None \<Rightarrow>
          (let sp = ch_shared_progress ch; (reporting, fs) = any_nonempty (sp_frontiers sp)
           in if reporting then None
              else Some (False, ch\<lparr>ch_shared_progress := sp\<lparr>sp_frontiers := fs\<rparr>\<rparr>, av)))"

definition child_shut_down :: "('t, 's, 'op) child \<Rightarrow> ('t, 's, 'op) child" where
  "child_shut_down ch = ch\<lparr>ch_operator := None\<rparr>"

definition extract_consumed ::
  "nat \<Rightarrow> (nat \<times> 't::linorder change_batch) list \<Rightarrow> (location \<times> 't) change_batch \<Rightarrow> (location \<times> 't) change_batch" where
  "extract_consumed index cs pointstamps =
     fold (\<lambda>(input, consumed). fold (\<lambda>(time, delta). cb_update (new_target index input, time) (- delta)) (fst (cb_drain consumed)))
       cs pointstamps"

definition extract_internal ::
  "nat \<Rightarrow> (nat \<times> 't::linorder change_batch) list \<Rightarrow> (location \<times> 't) change_batch \<Rightarrow> (location \<times> 't) change_batch" where
  "extract_internal index is pointstamps =
     fold (\<lambda>(outp, internal). fold (\<lambda>(time, delta). cb_update (new_source index outp, time) delta) (fst (cb_drain internal)))
       is pointstamps"

text \<open>The edges of an output are only looked up when something was produced at it.\<close>

fun extract_produced ::
  "target list list \<Rightarrow> (nat \<times> 't::linorder change_batch) list \<Rightarrow> (location \<times> 't) change_batch \<times> nat list
   \<Rightarrow> ((location \<times> 't) change_batch \<times> nat list) option" where
  "extract_produced edges [] pa = Some pa"
| "extract_produced edges ((outp, produced) # ps) pa =
     (case fst (cb_drain produced) of
        [] \<Rightarrow> extract_produced edges ps pa
      | us \<Rightarrow>
          do { targets \<leftarrow> vec_get edges outp;
               extract_produced edges ps
                 (fold (\<lambda>(time, delta). fold (\<lambda>target (pointstamps, temp_active).
                      (cb_update (location_of_target target, time) delta pointstamps, insort (tgt_node target) temp_active))
                    targets) us pa) })"

definition child_extract_progress ::
  "('t::linorder, 's, 'op) child \<Rightarrow> (location \<times> 't) change_batch \<times> nat list
   \<Rightarrow> (('t, 's, 'op) child \<times> (location \<times> 't) change_batch \<times> nat list) option" where
  "child_extract_progress ch pa =
     (let sp = ch_shared_progress ch;
          ps = extract_consumed (ch_index ch) (enumerate 0 (sp_consumeds sp)) (fst pa);
          ps = extract_internal (ch_index ch) (enumerate 0 (sp_internals sp)) ps
      in do { pa' \<leftarrow> extract_produced (ch_edges ch) (enumerate 0 (sp_produceds sp)) (ps, snd pa);
              Some (ch\<lparr>ch_shared_progress := sp\<lparr>sp_consumeds := map (\<lambda>b. snd (cb_drain b)) (sp_consumeds sp),
                        sp_internals := map (\<lambda>b. snd (cb_drain b)) (sp_internals sp),
                        sp_produceds := map (\<lambda>b. snd (cb_drain b)) (sp_produceds sp)\<rparr>\<rparr>, pa') })"

text \<open>
  \<open>validate_progress\<close>, called in debug builds: \<open>None\<close> is its panic.  Compacting in
  place the batches it reads is left out: \<open>extract_progress\<close>, which always follows, drains
  them compacted.
\<close>

definition supported ::
  "('t \<Rightarrow> 't \<Rightarrow> bool) \<Rightarrow> 't::linorder change_batch list \<Rightarrow> ('t, 's) per_operator \<Rightarrow> nat \<Rightarrow> 't \<Rightarrow> bool option" where
  "supported le consumeds child_state outp time =
     do { source \<leftarrow> vec_get (po_sources child_state) outp;
          let consumed = list_ex (\<lambda>x. list_ex (\<lambda>(t, d). d > 0 \<and> le t time) (fst (cb_iter x))) consumeds;
          Some (consumed \<or> ma_less_equal le (pi_implications source) time) }"

fun validate_updates ::
  "('t \<Rightarrow> 't \<Rightarrow> bool) \<Rightarrow> 't::linorder change_batch list \<Rightarrow> ('t, 's) per_operator \<Rightarrow> nat \<Rightarrow> ('t \<times> int) list \<Rightarrow> bool option" where
  "validate_updates le consumeds child_state outp [] = Some True"
| "validate_updates le consumeds child_state outp ((time, diff) # us) =
     (if diff > 0 then
        do { ok \<leftarrow> supported le consumeds child_state outp time;
             if ok then validate_updates le consumeds child_state outp us else None }
      else validate_updates le consumeds child_state outp us)"

fun validate_batches ::
  "('t \<Rightarrow> 't \<Rightarrow> bool) \<Rightarrow> 't::linorder change_batch list \<Rightarrow> ('t, 's) per_operator \<Rightarrow> (nat \<times> 't change_batch) list \<Rightarrow> bool option" where
  "validate_batches le consumeds child_state [] = Some True"
| "validate_batches le consumeds child_state ((outp, b) # bs) =
     do { ok \<leftarrow> validate_updates le consumeds child_state outp (fst (cb_iter b));
          validate_batches le consumeds child_state bs }"

definition child_validate_progress ::
  "('t::linorder \<Rightarrow> 't \<Rightarrow> bool) \<Rightarrow> ('t, 's, 'op) child \<Rightarrow> ('t, 's) per_operator \<Rightarrow> bool option" where
  "child_validate_progress le ch child_state =
     (let sp = ch_shared_progress ch
      in do { ok \<leftarrow> validate_batches le (sp_consumeds sp) child_state (enumerate 0 (sp_internals sp));
              validate_batches le (sp_consumeds sp) child_state (enumerate 0 (sp_produceds sp)) })"

section \<open>Progress statements as pointstamp changes\<close>

text \<open>The pointstamp changes a child's shared progress stands for.\<close>

definition child_statements :: "('t, 's, 'op) child \<Rightarrow> location \<times> 't \<Rightarrow> int" where
  "child_statements ch k =
     (let sp = ch_shared_progress ch; index = ch_index ch in
      (\<Sum>p < length (sp_consumeds sp). if new_target index p = fst k then - cb_count (sp_consumeds sp ! p) (snd k) else 0)
      + (\<Sum>p < length (sp_internals sp). if new_source index p = fst k then cb_count (sp_internals sp ! p) (snd k) else 0)
      + (\<Sum>p < length (sp_produceds sp).
           cb_count (sp_produceds sp ! p) (snd k) * int (count_list (map location_of_target (ch_edges ch ! p)) (fst k))))"

lemma fold_update_key_count:
  assumes "\<And>d. f d = s * d"
  shows "cb_count (fold (\<lambda>(time, delta). cb_update (l', time) (f delta)) us b) (l, t)
   = cb_count b (l, t) + (if l' = l then s * upd_count us t else 0)"
  by (induction us arbitrary: b) (auto simp: assms algebra_simps)

lemma fold_enumerate_count:
  assumes "\<And>d. f d = s * d"
  shows "cb_count (fold (\<lambda>(i, c). fold (\<lambda>(time, delta). cb_update (L i, time) (f delta)) (fst (cb_drain c))) (enumerate m cs) b) (l, t)
    = cb_count b (l, t) + (\<Sum>i < length cs. if L (m + i) = l then s * cb_count (cs ! i) t else 0)"
proof (induction cs arbitrary: m b)
  case (Cons c cs)
  show ?case
    by (simp add: Cons fold_update_key_count [OF assms] sum.lessThan_Suc_shift del: sum.lessThan_Suc cong: if_cong)
qed simp

lemma fold_targets:
  "fst (fold (\<lambda>tg (p, a). (cb_update (location_of_target tg, time) d p, insort (tgt_node tg) a)) targets (b, ta))
     = fold (\<lambda>tg. cb_update (location_of_target tg, time) d) targets b"
  by (induction targets arbitrary: b ta) auto

lemma fold_targets_count:
  "cb_count (fold (\<lambda>tg. cb_update (location_of_target tg, time) d) targets b) (l, t)
     = cb_count b (l, t) + (if time = t then d * int (count_list (map location_of_target targets) l) else 0)"
  by (induction targets arbitrary: b) (auto simp: algebra_simps)

lemma fold_produced_count:
  "cb_count (fst (fold (\<lambda>(time, delta). fold (\<lambda>tg (p, a). (cb_update (location_of_target tg, time) delta p,
        insort (tgt_node tg) a)) targets) us pa)) (l, t)
     = cb_count (fst pa) (l, t) + upd_count us t * int (count_list (map location_of_target targets) l)"
proof (induction us arbitrary: pa)
  case (Cons u us)
  obtain x d where u: "u = (x, d)" by (cases u)
  obtain b ta where pa: "pa = (b, ta)" by (cases pa)
  show ?case by (simp add: Cons u pa fold_targets fold_targets_count algebra_simps)
qed simp

lemma fold_targets_active:
  "sorted ta \<Longrightarrow> sorted (snd (fold (\<lambda>tg (p, a). (cb_update (location_of_target tg, time) d p, insort (tgt_node tg) a)) targets (b, ta)))"
  "set (snd (fold (\<lambda>tg (p, a). (cb_update (location_of_target tg, time) d p, insort (tgt_node tg) a)) targets (b, ta)))
     = set ta \<union> tgt_node ` set targets"
  by (induction targets arbitrary: b ta) (auto simp: sorted_insort set_insort_key)

lemma fold_produced_active:
  "(sorted (snd pa) \<longrightarrow> sorted (snd (fold (\<lambda>(time, delta). fold (\<lambda>tg (p, a). (cb_update (location_of_target tg, time) delta p,
        insort (tgt_node tg) a)) targets) us pa)))
   \<and> set (snd (fold (\<lambda>(time, delta). fold (\<lambda>tg (p, a). (cb_update (location_of_target tg, time) delta p,
        insort (tgt_node tg) a)) targets) us pa)) = set (snd pa) \<union> (if us = [] then {} else tgt_node ` set targets)"
proof (induction us arbitrary: pa)
  case (Cons u us)
  obtain x d where u: "u = (x, d)" by (cases u)
  obtain b ta where pa: "pa = (b, ta)" by (cases pa)
  show ?case using Cons [of "fold (\<lambda>tg (p, a). (cb_update (location_of_target tg, x) d p, insort (tgt_node tg) a)) targets (b, ta)"]
      fold_targets_active [where ta = ta and time = x and d = d and targets = targets and b = b]
    by (auto simp: u pa)
qed simp

text \<open>The children reached by what was produced: those the extraction enqueues.\<close>

definition produced_nodes :: "target list list \<Rightarrow> (nat \<times> 't::linorder change_batch) list \<Rightarrow> nat set" where
  "produced_nodes edges ps =
     (\<Union>(outp, b) \<in> set ps. if fst (cb_drain b) = [] then {} else tgt_node ` set (edges ! outp))"

lemma extract_produced_count:
  assumes "m + length ps \<le> length edges"
  shows "\<exists>pa'. extract_produced edges (enumerate m ps) pa = Some pa'
    \<and> (sorted (snd pa) \<longrightarrow> sorted (snd pa')) \<and> set (snd pa') = set (snd pa) \<union> produced_nodes edges (enumerate m ps)
    \<and> (\<forall>l t. cb_count (fst pa') (l, t) = cb_count (fst pa) (l, t)
    + (\<Sum>p < length ps. cb_count (ps ! p) t * int (count_list (map location_of_target (edges ! (m + p))) l)))"
  using assms
proof (induction ps arbitrary: m pa)
  case (Cons c ps)
  define us where "us = fst (cb_drain c)"
  have us: "upd_count us t = cb_count c t" for t by (simp add: us_def)
  define pa1 where "pa1 = fold (\<lambda>(time, delta). fold (\<lambda>tg (p, a). (cb_update (location_of_target tg, time) delta p,
        insort (tgt_node tg) a)) (edges ! m)) us pa"
  have m: "m < length edges" using Cons.prems by simp
  have run: "extract_produced edges (enumerate m (c # ps)) pa = extract_produced edges (enumerate (Suc m) ps) pa1"
    using m by (simp add: vec_get_def pa1_def us_def split: list.split)
  have c: "cb_count (fst pa1) (l, t) = cb_count (fst pa) (l, t) + cb_count c t * int (count_list (map location_of_target (edges ! m)) l)" for l t
    unfolding pa1_def fold_produced_count us by simp
  have a: "sorted (snd pa) \<longrightarrow> sorted (snd pa1)" "set (snd pa1) = set (snd pa) \<union> (if us = [] then {} else tgt_node ` set (edges ! m))"
    using fold_produced_active [of pa "edges ! m" us] unfolding pa1_def by blast+
  obtain pa' where pa': "extract_produced edges (enumerate (Suc m) ps) pa1 = Some pa'" "sorted (snd pa1) \<longrightarrow> sorted (snd pa')"
    "set (snd pa') = set (snd pa1) \<union> produced_nodes edges (enumerate (Suc m) ps)"
    "\<And>l t. cb_count (fst pa') (l, t) = cb_count (fst pa1) (l, t)
      + (\<Sum>p < length ps. cb_count (ps ! p) t * int (count_list (map location_of_target (edges ! (Suc m + p))) l))"
    using Cons.IH [of "Suc m" pa1] Cons.prems by auto
  have "set (snd pa') = set (snd pa) \<union> produced_nodes edges (enumerate m (c # ps))"
    using a(2) pa'(3) by (auto simp: produced_nodes_def us_def)
  moreover have "cb_count (fst pa') (l, t) = cb_count (fst pa) (l, t)
      + (\<Sum>p < length (c # ps). cb_count ((c # ps) ! p) t * int (count_list (map location_of_target (edges ! (m + p))) l))" for l t
    using pa'(4) [of l t] c [of l t] by (simp add: sum.lessThan_Suc_shift del: sum.lessThan_Suc)
  ultimately show ?case unfolding run using a(1) pa'(1,2) by blast
qed (auto simp: produced_nodes_def)

lemma extract_progress_ok:
  assumes "length (sp_produceds (ch_shared_progress ch)) \<le> length (ch_edges ch)"
  shows "\<exists>ps' ta'. child_extract_progress ch (ps, ta) = Some (ch\<lparr>ch_shared_progress := (ch_shared_progress ch)
      \<lparr>sp_consumeds := replicate (length (sp_consumeds (ch_shared_progress ch))) cb_new,
       sp_internals := replicate (length (sp_internals (ch_shared_progress ch))) cb_new,
       sp_produceds := replicate (length (sp_produceds (ch_shared_progress ch))) cb_new\<rparr>\<rparr>, ps', ta')
    \<and> (sorted ta \<longrightarrow> sorted ta')
    \<and> set ta' = set ta \<union> produced_nodes (ch_edges ch) (enumerate 0 (sp_produceds (ch_shared_progress ch)))
    \<and> (\<forall>k. cb_count ps' k = cb_count ps k + child_statements ch k)"
proof -
  let ?sp = "ch_shared_progress ch"
  define p1 where "p1 = extract_consumed (ch_index ch) (enumerate 0 (sp_consumeds ?sp)) ps"
  define p2 where "p2 = extract_internal (ch_index ch) (enumerate 0 (sp_internals ?sp)) p1"
  have c1: "cb_count p1 (l, t) = cb_count ps (l, t)
      + (\<Sum>p < length (sp_consumeds ?sp). if new_target (ch_index ch) p = l then - cb_count (sp_consumeds ?sp ! p) t else 0)" for l t
    unfolding p1_def extract_consumed_def
    using fold_enumerate_count [of uminus "- 1" "new_target (ch_index ch)" 0 "sp_consumeds ?sp" ps l t] by (simp cong: if_cong)
  have c2: "cb_count p2 (l, t) = cb_count p1 (l, t)
      + (\<Sum>p < length (sp_internals ?sp). if new_source (ch_index ch) p = l then cb_count (sp_internals ?sp ! p) t else 0)" for l t
    unfolding p2_def extract_internal_def
    using fold_enumerate_count [of "\<lambda>d. d" 1 "new_source (ch_index ch)" 0 "sp_internals ?sp" p1 l t] by (simp cong: if_cong)
  obtain ps' ta' where
    e: "extract_produced (ch_edges ch) (enumerate 0 (sp_produceds ?sp)) (p2, ta) = Some (ps', ta')" "sorted ta \<longrightarrow> sorted ta'"
    "set ta' = set ta \<union> produced_nodes (ch_edges ch) (enumerate 0 (sp_produceds ?sp))"
    "\<And>l t. cb_count ps' (l, t) = cb_count p2 (l, t) + (\<Sum>p < length (sp_produceds ?sp).
        cb_count (sp_produceds ?sp ! p) t * int (count_list (map location_of_target (ch_edges ch ! p)) l))"
    using extract_produced_count [of 0 "sp_produceds ?sp" "ch_edges ch" "(p2, ta)"] assms by auto
  have "cb_count ps' (l, t) = cb_count ps (l, t) + child_statements ch (l, t)" for l t
    unfolding e(4) c1 c2 child_statements_def Let_def fst_conv snd_conv by (simp only: add.assoc)
  then have "cb_count ps' k = cb_count ps k + child_statements ch k" for k by (cases k) blast
  moreover have "map (\<lambda>b. snd (cb_drain b)) bs = replicate (length bs) cb_new" for bs :: "'a change_batch list"
    by (induction bs) auto
  ultimately show ?thesis using e(1-3)
    by (auto simp: child_extract_progress_def Let_def p1_def p2_def)
qed

end
