(* ===== verification/Subgraph.thy ===== *)
theory Subgraph
  imports Subgraph_Child
begin

text \<open>
  \<^verbatim>\<open>timely/src/progress/subgraph.rs\<close>, second part: \<open>SubgraphBuilder\<close> and
  \<open>Subgraph\<close>.

  \<open>'o\<close> is the timestamp of the parent scope, \<open>'t\<close> the one inside; \<open>to_inner\<close>,
  \<open>to_outer\<close> and \<open>summarize\<close> are the methods of \<open>TInner: Refines<TOuter>\<close>,
  \<open>leo\<close> the order of the outer times.  The worker's activations are shared between the
  subgraph and its children and are passed through every call that touches them.  A panic is
  \<open>None\<close>; \<open>debug\<close> stands for \<open>cfg(debug_assertions)\<close>.
\<close>

section \<open>State\<close>

datatype progress_mode = Eager | Demand

record ('o, 't, 's, 'op) subgraph_builder =
  sb_path :: path
  sb_index :: nat
  sb_children :: "('t, 's, 'op) child list"
  sb_child_count :: nat
  sb_edge_stash :: "(source \<times> target) list"
  sb_input_messages :: "'t change_batch list"
  sb_output_capabilities :: "'o mutable_antichain list"

record ('o, 't, 's, 'op) subgraph =
  sg_path :: path
  sg_inputs :: nat
  sg_outputs :: nat
  sg_children :: "('t, 's, 'op) child list"
  sg_incomplete :: "bool list"
  sg_incomplete_count :: nat
  sg_temp_active :: "nat list"
  sg_maybe_shutdown :: "nat list"
  sg_input_messages :: "'t change_batch list"
  sg_output_capabilities :: "'o mutable_antichain list"
  sg_local_pointstamp :: "(location \<times> 't) change_batch"
  sg_final_pointstamp :: "(location \<times> 't) change_batch"
  sg_pointstamp_tracker :: "('t, 's) tracker"
  sg_progcaster :: "'t progcaster"
  sg_shared_progress :: "'o shared_progress"
  sg_scope_summary :: "'s connectivity"
  sg_progress_mode :: progress_mode

section \<open>SubgraphBuilder\<close>

definition sb_new_input ::
  "'t change_batch \<Rightarrow> ('o, 't, 's, 'op) subgraph_builder \<Rightarrow> target \<times> ('o, 't, 's, 'op) subgraph_builder" where
  "sb_new_input shared_counts sb =
     (let sb = sb\<lparr>sb_input_messages := sb_input_messages sb @ [shared_counts]\<rparr>
      in (Target (sb_index sb) (length (sb_input_messages sb) - 1), sb))"

definition sb_new_output :: "('o, 't, 's, 'op) subgraph_builder \<Rightarrow> source \<times> ('o, 't, 's, 'op) subgraph_builder" where
  "sb_new_output sb =
     (let sb = sb\<lparr>sb_output_capabilities := sb_output_capabilities sb @ [ma_new]\<rparr>
      in (Source (sb_index sb) (length (sb_output_capabilities sb) - 1), sb))"

definition sb_connect :: "source \<Rightarrow> target \<Rightarrow> ('o, 't, 's, 'op) subgraph_builder \<Rightarrow> ('o, 't, 's, 'op) subgraph_builder" where
  "sb_connect source target sb = sb\<lparr>sb_edge_stash := sb_edge_stash sb @ [(source, target)]\<rparr>"

definition sb_new_from :: "path \<Rightarrow> ('o, 't, 's, 'op) subgraph_builder option" where
  "sb_new_from path =
     (if path = [] then None
      else Some \<lparr>sb_path = path, sb_index = last path, sb_children = [child_empty 0 0], sb_child_count = 1,
                 sb_edge_stash = [], sb_input_messages = [], sb_output_capabilities = []\<rparr>)"

definition sb_allocate_child_id :: "('o, 't, 's, 'op) subgraph_builder \<Rightarrow> nat \<times> ('o, 't, 's, 'op) subgraph_builder" where
  "sb_allocate_child_id sb =
     (let sb = sb\<lparr>sb_child_count := sb_child_count sb + 1\<rparr> in (sb_child_count sb - 1, sb))"

definition sb_add_child ::
  "'op \<Rightarrow> nat \<Rightarrow> bool \<Rightarrow> nat \<Rightarrow> nat \<Rightarrow> bool \<Rightarrow> 's connectivity \<Rightarrow> 't shared_progress
   \<Rightarrow> ('o, 't, 's, 'op) subgraph_builder \<Rightarrow> ('o, 't, 's, 'op) subgraph_builder option" where
  "sb_add_child op index local inputs outputs notify internal_summary shared_progress sb =
     do { ch \<leftarrow> child_new op index local inputs outputs notify internal_summary shared_progress;
          Some (sb\<lparr>sb_children := sb_children sb @ [ch]\<rparr>) }"

text \<open>The topology handed to the reachability builder: child zero, the children, the edges.\<close>

fun add_children :: "nat \<Rightarrow> ('t, 's, 'op) child list \<Rightarrow> 's builder \<Rightarrow> 's builder option" where
  "add_children index [] b = Some b"
| "add_children index (ch # chs) b =
     do { b \<leftarrow> builder_add_node index (ch_inputs ch) (ch_outputs ch) (ch_internal_summary ch) b;
          add_children (Suc index) chs b }"

fun add_edges ::
  "(source \<times> target) list \<Rightarrow> ('t, 's, 'op) child list \<times> 's builder \<Rightarrow> (('t, 's, 'op) child list \<times> 's builder) option" where
  "add_edges [] cb = Some cb"
| "add_edges ((source, target) # es) (children, b) =
     do { ch \<leftarrow> vec_get children (src_node source);
          targets \<leftarrow> vec_get (ch_edges ch) (src_port source);
          let ch = ch\<lparr>ch_edges := (ch_edges ch)[src_port source := targets @ [target]]\<rparr>;
          b \<leftarrow> builder_add_edge source target b;
          add_edges es (children[src_node source := ch], b) }"

definition sb_build ::
  "(location list \<Rightarrow> location list) \<Rightarrow> ('s \<Rightarrow> 's \<Rightarrow> bool) \<Rightarrow> 's \<Rightarrow> ('s \<Rightarrow> 's \<Rightarrow> 's option) \<Rightarrow> nat \<Rightarrow> progress_mode
   \<Rightarrow> ('o, 't::linorder, 's, 'op) subgraph_builder \<Rightarrow> activations
   \<Rightarrow> (('o, 't, 's, 'op) subgraph \<times> activations) option" where
  "sb_build hash_order sle dflt followed_by worker_index mode sb av =
     (let children = sort_key ch_index (sb_children sb) in
      if \<not> list_all (\<lambda>(i, x). i = ch_index x) (enumerate 0 children) \<or> children = [] then None
      else
       (let inputs = length (sb_input_messages sb); outputs = length (sb_output_capabilities sb);
            children = children[0 := child_empty outputs inputs]
        in do { b \<leftarrow> builder_add_node 0 outputs inputs (replicate outputs pc_default) builder_new;
                b \<leftarrow> add_children 1 (tl children) b;
                (children, b) \<leftarrow> add_edges (sb_edge_stash sb) (children, b);
                (warned, tracker, scope_summary) \<leftarrow> builder_build hash_order sle dflt followed_by b;
                Some (\<lparr>sg_path = sb_path sb, sg_inputs = inputs, sg_outputs = outputs, sg_children = children,
                       sg_incomplete = (replicate (length children) True)[0 := False],
                       sg_incomplete_count = length children - 1, sg_temp_active = [], sg_maybe_shutdown = [],
                       sg_input_messages = sb_input_messages sb, sg_output_capabilities = sb_output_capabilities sb,
                       sg_local_pointstamp = cb_new, sg_final_pointstamp = cb_new, sg_pointstamp_tracker = tracker,
                       sg_progcaster = progcaster_new worker_index, sg_shared_progress = sp_new inputs outputs,
                       sg_scope_summary = scope_summary, sg_progress_mode = mode\<rparr>,
                      av_activate (sb_path sb) av) }))"

section \<open>Subgraph\<close>

definition accept_frontier ::
  "('o \<Rightarrow> 't) \<Rightarrow> ('o::linorder, 't::linorder, 's, 'op) subgraph \<Rightarrow> ('o, 't, 's, 'op) subgraph" where
  "accept_frontier to_inner sg =
     (let sp = sg_shared_progress sg in
      sg\<lparr>sg_shared_progress := sp\<lparr>sp_frontiers := map (\<lambda>b. snd (cb_drain b)) (sp_frontiers sp)\<rparr>,
         sg_pointstamp_tracker :=
           fold (\<lambda>(port, changes). fold (\<lambda>(time, value). tracker_update_source (Source 0 port) (to_inner time) value)
               (fst (cb_drain changes)))
             (enumerate 0 (sp_frontiers sp)) (sg_pointstamp_tracker sg)\<rparr>)"

text \<open>One input's drained counts; the edges of child zero are looked up when there is a count.\<close>

definition harvest_counts ::
  "nat \<Rightarrow> target list \<Rightarrow> ('t::linorder \<times> int) list \<Rightarrow> (location \<times> 't) change_batch \<Rightarrow> (location \<times> 't) change_batch" where
  "harvest_counts inp targets us pointstamps =
     fold (\<lambda>(time, delta) ps.
         cb_update (new_source 0 inp, time) (- delta) (fold (\<lambda>target. cb_update (location_of_target target, time) delta) targets ps))
       us pointstamps"

fun harvest_from :: "nat list \<Rightarrow> ('o, 't::linorder, 's, 'op) subgraph \<Rightarrow> ('o, 't, 's, 'op) subgraph option" where
  "harvest_from [] sg = Some sg"
| "harvest_from (inp # is) sg =
     do { b \<leftarrow> vec_get (sg_input_messages sg) inp;
          let (us, b) = cb_drain b;
          targets \<leftarrow> (if us = [] then Some []
                      else do { ch \<leftarrow> vec_get (sg_children sg) 0; vec_get (ch_edges ch) inp });
          harvest_from is (sg\<lparr>sg_input_messages := (sg_input_messages sg)[inp := b],
                              sg_local_pointstamp := harvest_counts inp targets us (sg_local_pointstamp sg)\<rparr>) }"

definition harvest_inputs :: "('o, 't::linorder, 's, 'op) subgraph \<Rightarrow> ('o, 't, 's, 'op) subgraph option" where
  "harvest_inputs sg = harvest_from [0..<sg_inputs sg] sg"

text \<open>The first loop of \<open>propagate_pointstamps\<close>.\<close>

fun commit_pointstamps ::
  "('t \<Rightarrow> 'o::linorder) \<Rightarrow> ((location \<times> 't::linorder) \<times> int) list
   \<Rightarrow> 'o shared_progress \<times> ('t, 's) tracker \<Rightarrow> ('o shared_progress \<times> ('t, 's) tracker) option" where
  "commit_pointstamps to_outer [] st = Some st"
| "commit_pointstamps to_outer (((l, timestamp), delta) # us) (sp, tr) =
     (if loc_node l = 0 then
        (case loc_port l of
           PortSource inp \<Rightarrow>
             do { b \<leftarrow> vec_get (sp_consumeds sp) inp;
                  commit_pointstamps to_outer us
                    (sp\<lparr>sp_consumeds := (sp_consumeds sp)[inp := cb_update (to_outer timestamp) (- delta) b]\<rparr>, tr) }
         | PortTarget outp \<Rightarrow>
             do { b \<leftarrow> vec_get (sp_produceds sp) outp;
                  commit_pointstamps to_outer us
                    (sp\<lparr>sp_produceds := (sp_produceds sp)[outp := cb_update (to_outer timestamp) delta b]\<rparr>, tr) })
      else commit_pointstamps to_outer us (sp, tracker_update l timestamp delta tr))"

text \<open>The second loop: pushed frontier changes reach the children.\<close>

fun deliver_pushed ::
  "((location \<times> 't::linorder) \<times> int) list \<Rightarrow> ('t, 's, 'op) child list \<times> nat list \<times> nat list
   \<Rightarrow> (('t, 's, 'op) child list \<times> nat list \<times> nat list) option" where
  "deliver_pushed [] st = Some st"
| "deliver_pushed (((l, time), diff) # us) (children, temp_active, maybe_shutdown) =
     (let maybe_shutdown = maybe_shutdown @ [loc_node l] in
      case loc_port l of
        PortTarget port \<Rightarrow>
          do { ch \<leftarrow> vec_get children (loc_node l);
               let temp_active = (if ch_notify ch then insort (loc_node l) temp_active else temp_active);
               let sp = ch_shared_progress ch;
               b \<leftarrow> vec_get (sp_frontiers sp) port;
               let ch = ch\<lparr>ch_shared_progress := sp\<lparr>sp_frontiers := (sp_frontiers sp)[port := cb_update time diff b]\<rparr>\<rparr>;
               deliver_pushed us (children[loc_node l := ch], temp_active, maybe_shutdown) }
      | PortSource _ \<Rightarrow> deliver_pushed us (children, temp_active, maybe_shutdown))"

text \<open>Neither an input frontier nor a capability is left at an operator.\<close>

definition po_idle :: "('t, 's) per_operator \<Rightarrow> bool" where
  "po_idle child_state \<longleftrightarrow>
     (let frontiers_empty = list_all (\<lambda>x. ma_is_empty (pi_implications x)) (po_targets child_state);
          no_capabilities = list_all (\<lambda>x. ma_is_empty (pi_pointstamps x)) (po_sources child_state)
      in frontiers_empty \<and> no_capabilities)"

fun consider_shutdown :: "('t, 's) tracker \<Rightarrow> nat list \<Rightarrow> nat list \<Rightarrow> nat list option" where
  "consider_shutdown tr [] temp_active = Some temp_active"
| "consider_shutdown tr (child_index # is) temp_active =
     do { child_state \<leftarrow> vec_get (tr_per_operator tr) child_index;
          consider_shutdown tr is (if po_idle child_state then insort child_index temp_active else temp_active) }"

text \<open>The last loop, for outputs \<open>outp\<close> upwards.\<close>

fun report_internals ::
  "('o::linorder \<Rightarrow> 'o \<Rightarrow> bool) \<Rightarrow> ('t::linorder \<Rightarrow> 'o) \<Rightarrow> nat \<Rightarrow> 'o change_batch list
   \<Rightarrow> 't change_batch list \<times> 'o mutable_antichain list
   \<Rightarrow> ('o change_batch list \<times> 't change_batch list \<times> 'o mutable_antichain list) option" where
  "report_internals leo to_outer outp [] st = Some ([], st)"
| "report_internals leo to_outer outp (internal # is) (ocs, caps) =
     do { oc \<leftarrow> vec_get ocs outp;
          cap \<leftarrow> vec_get caps outp;
          let (us, oc) = cb_drain oc;
          let (changes, cap) = ma_filter_through leo (map (\<lambda>(time, diff). (to_outer time, diff)) us) cap;
          (is', st') \<leftarrow> report_internals leo to_outer (Suc outp) is (ocs[outp := oc], caps[outp := cap]);
          Some (fold (\<lambda>(time, diff). cb_update time diff) changes internal # is', st') }"

definition propagate_pointstamps ::
  "('o::linorder \<Rightarrow> 'o \<Rightarrow> bool) \<Rightarrow> ('t \<Rightarrow> 't \<Rightarrow> bool) \<Rightarrow> ('s \<Rightarrow> 't \<Rightarrow> 't option) \<Rightarrow> ('t::linorder \<Rightarrow> 'o)
   \<Rightarrow> ('o, 't, 's, 'op) subgraph \<Rightarrow> ('o, 't, 's, 'op) subgraph option" where
  "propagate_pointstamps leo le ri to_outer sg =
     do { let (us, final) = cb_drain (sg_final_pointstamp sg);
          (sp, tr) \<leftarrow> commit_pointstamps to_outer us (sg_shared_progress sg, sg_pointstamp_tracker sg);
          tr \<leftarrow> tracker_propagate_all le ri tr;
          let (pushed, pc) = cb_drain (tr_pushed_changes tr);
          (children, temp_active, maybe_shutdown) \<leftarrow>
            deliver_pushed pushed (sg_children sg, sg_temp_active sg, sg_maybe_shutdown sg);
          temp_active \<leftarrow> consider_shutdown tr (remdups_adj (sort maybe_shutdown)) temp_active;
          (internals, ocs, caps) \<leftarrow>
            report_internals leo to_outer 0 (sp_internals sp) (tr_output_changes tr, sg_output_capabilities sg);
          Some (sg\<lparr>sg_final_pointstamp := final, sg_shared_progress := sp\<lparr>sp_internals := internals\<rparr>,
                   sg_pointstamp_tracker := tr\<lparr>tr_pushed_changes := pc, tr_output_changes := ocs\<rparr>,
                   sg_children := children, sg_temp_active := temp_active, sg_maybe_shutdown := [],
                   sg_output_capabilities := caps\<rparr>) }"

text \<open>
  \<open>activate_child\<close>.  The counter is a \<open>usize\<close>: going below zero is a panic.
\<close>

definition note_incomplete :: "nat \<Rightarrow> bool \<Rightarrow> bool list \<times> nat \<Rightarrow> (bool list \<times> nat) option" where
  "note_incomplete index incomplete st =
     (let (is, n) = st in
      do { was \<leftarrow> vec_get is index;
           if incomplete \<noteq> was then
             do { n' \<leftarrow> (if incomplete then Some (n + 1) else if n = 0 then None else Some (n - 1));
                  Some (is[index := incomplete], n') }
           else Some (is, n) })"

text \<open>Shutting the child down, or checking its statements.\<close>

definition settle_child ::
  "bool \<Rightarrow> ('t::linorder \<Rightarrow> 't \<Rightarrow> bool) \<Rightarrow> ('t, 's) tracker \<Rightarrow> nat \<Rightarrow> bool \<Rightarrow> ('t, 's, 'op) child \<Rightarrow> ('t, 's, 'op) child option" where
  "settle_child debug le tr child_index incomplete child =
     (if incomplete \<and> \<not> debug then Some child
      else do { child_state \<leftarrow> vec_get (tr_per_operator tr) child_index;
                if \<not> incomplete then Some (if po_idle child_state then child_shut_down child else child)
                else map_option (\<lambda>_. child) (child_validate_progress le child child_state) })"

definition activate_child ::
  "bool \<Rightarrow> ('t \<Rightarrow> 't \<Rightarrow> bool) \<Rightarrow> ('t::linorder, 'op) op_schedule \<Rightarrow> nat \<Rightarrow> ('o, 't, 's, 'op) subgraph \<Rightarrow> activations
   \<Rightarrow> (bool \<times> ('o, 't, 's, 'op) subgraph \<times> activations) option" where
  "activate_child debug le sched child_index sg av =
     do { child \<leftarrow> vec_get (sg_children sg) child_index;
          (incomplete, child, av) \<leftarrow> child_schedule sched child av;
          (is, n) \<leftarrow> note_incomplete child_index incomplete (sg_incomplete sg, sg_incomplete_count sg);
          child \<leftarrow> settle_child debug le (sg_pointstamp_tracker sg) child_index incomplete child;
          (child, pointstamps, temp_active) \<leftarrow>
            child_extract_progress child
              (if ch_local child then sg_local_pointstamp sg else sg_final_pointstamp sg, sg_temp_active sg);
          Some (incomplete,
                sg\<lparr>sg_children := (sg_children sg)[child_index := child], sg_temp_active := temp_active,
                   sg_incomplete := is, sg_incomplete_count := n,
                   sg_local_pointstamp := (if ch_local child then pointstamps else sg_local_pointstamp sg),
                   sg_final_pointstamp := (if ch_local child then sg_final_pointstamp sg else pointstamps)\<rparr>, av) }"

text \<open>\<open>any\<close> stops at the first hit.\<close>

fun any_global :: "('t \<Rightarrow> 't \<Rightarrow> bool) \<Rightarrow> ('t, 's) tracker \<Rightarrow> ((location \<times> 't) \<times> int) list \<Rightarrow> bool option" where
  "any_global le tr [] = Some False"
| "any_global le tr (((l, time), diff) # us) =
     do { g \<leftarrow> tracker_is_global le tr l time;
          if g \<and> diff < 0 then Some True else any_global le tr us }"

definition send_progress ::
  "('t \<Rightarrow> 't \<Rightarrow> bool) \<Rightarrow> ('o, 't::linorder, 's, 'op) subgraph \<Rightarrow> ('o, 't, 's, 'op) subgraph option" where
  "send_progress le sg =
     do { (must_send, sg) \<leftarrow>
            (if sg_progress_mode sg = Eager then Some (True, sg)
             else do { let (us, local) = cb_iter (sg_local_pointstamp sg);
                       r \<leftarrow> any_global le (sg_pointstamp_tracker sg) us;
                       Some (r, sg\<lparr>sg_local_pointstamp := local\<rparr>) });
          if must_send then
            (let (pg, local) = progcaster_send (sg_progcaster sg) (sg_local_pointstamp sg)
             in Some (sg\<lparr>sg_progcaster := pg, sg_local_pointstamp := local\<rparr>))
          else Some sg }"

lemma activate_child_Some:
  assumes "activate_child debug le sched index sg av = Some (r, sg', av')"
  obtains c1 inc n c2 c3 ps ta where "index < length (sg_children sg)"
    "child_schedule sched (sg_children sg ! index) av = Some (r, c1, av')"
    "note_incomplete index r (sg_incomplete sg, sg_incomplete_count sg) = Some (inc, n)"
    "settle_child debug le (sg_pointstamp_tracker sg) index r c1 = Some c2"
    "child_extract_progress c2 (if ch_local c2 then sg_local_pointstamp sg else sg_final_pointstamp sg, sg_temp_active sg) = Some (c3, ps, ta)"
    "sg' = sg\<lparr>sg_children := (sg_children sg)[index := c3], sg_temp_active := ta,
                   sg_incomplete := inc, sg_incomplete_count := n,
                   sg_local_pointstamp := (if ch_local c3 then ps else sg_local_pointstamp sg),
                   sg_final_pointstamp := (if ch_local c3 then sg_final_pointstamp sg else ps)\<rparr>"
  using assms unfolding activate_child_def by (auto simp only: bind_eq_Some_conv vec_get_Some split_paired_all prod.case option.inject prod.inject)

lemma activate_child_length:
  assumes "activate_child debug le sched index sg av = Some (r, sg', av')"
  shows "index < length (sg_children sg) \<and> length (sg_children sg') = length (sg_children sg)"
  by (rule activate_child_Some [OF assms]) simp

text \<open>The loop over active children in \<open>schedule\<close>.\<close>

function schedule_children ::
  "bool \<Rightarrow> ('t \<Rightarrow> 't \<Rightarrow> bool) \<Rightarrow> ('t::linorder, 'op) op_schedule \<Rightarrow> nat \<Rightarrow> ('o, 't, 's, 'op) subgraph \<Rightarrow> activations
   \<Rightarrow> (('o, 't, 's, 'op) subgraph \<times> activations) option" where
  "schedule_children debug le sched previous sg av =
     (case sg_temp_active sg of
        [] \<Rightarrow> Some (sg, av)
      | index # rest \<Rightarrow>
          (if index > previous then
             (case activate_child debug le sched index (sg\<lparr>sg_temp_active := rest\<rparr>) av of
                None \<Rightarrow> None
              | Some (_, sg', av') \<Rightarrow> schedule_children debug le sched index sg' av')
           else schedule_children debug le sched previous (sg\<lparr>sg_temp_active := rest\<rparr>) av))"
  by pat_completeness auto
termination
proof (relation "measures [\<lambda>(debug, le, sched, previous, sg, av). length (sg_children sg) - previous,
    \<lambda>(debug, le, sched, previous, sg, av). length (sg_temp_active sg)]", goal_cases)
  case (2 debug le sched previous sg av index rest r p q sg' av')
  then show ?case using activate_child_length [of debug le sched index "sg\<lparr>sg_temp_active := rest\<rparr>" av p sg' av'] by auto
qed auto

declare schedule_children.simps [simp del]

definition subgraph_schedule ::
  "bool \<Rightarrow> ('o::linorder \<Rightarrow> 'o \<Rightarrow> bool) \<Rightarrow> ('t \<Rightarrow> 't \<Rightarrow> bool) \<Rightarrow> ('s \<Rightarrow> 't \<Rightarrow> 't option) \<Rightarrow> ('o \<Rightarrow> 't) \<Rightarrow> ('t \<Rightarrow> 'o)
   \<Rightarrow> ('t::linorder, 'op) op_schedule \<Rightarrow> ('o, 't, 's, 'op) subgraph \<Rightarrow> activations
   \<Rightarrow> (bool \<times> ('o, 't, 's, 'op) subgraph \<times> activations) option" where
  "subgraph_schedule debug leo le ri to_inner to_outer sched sg av =
     do { sg \<leftarrow> harvest_inputs (accept_frontier to_inner sg);
          let (pg, final) = progcaster_recv (sg_progcaster sg) (sg_final_pointstamp sg);
          sg \<leftarrow> propagate_pointstamps leo le ri to_outer (sg\<lparr>sg_progcaster := pg, sg_final_pointstamp := final\<rparr>);
          extensions \<leftarrow> av_for_extensions (sg_path sg) av;
          (sg, av) \<leftarrow> schedule_children debug le sched 0 (sg\<lparr>sg_temp_active := fold insort extensions (sg_temp_active sg)\<rparr>) av;
          sg \<leftarrow> send_progress le sg;
          let (empty, final) = cb_is_empty (sg_final_pointstamp sg);
          let av = (if \<not> empty then av_activate (sg_path sg) av else av);
          let (tracking, tr) = tracker_tracking_anything (sg_pointstamp_tracker sg);
          Some (sg_incomplete_count sg > 0 \<or> tracking, sg\<lparr>sg_final_pointstamp := final, sg_pointstamp_tracker := tr\<rparr>, av) }"

section \<open>The subgraph as an operator of its parent\<close>

definition subgraph_local :: "('o, 't, 's, 'op) subgraph \<Rightarrow> bool" where
  "subgraph_local sg = False"

text \<open>The scope's summary read at the outer times.\<close>

definition outer_summary ::
  "('so \<Rightarrow> 'so \<Rightarrow> bool) \<Rightarrow> ('s \<Rightarrow> 'so) \<Rightarrow> (nat \<times> 's port_connectivity) list \<Rightarrow> 'so connectivity \<Rightarrow> 'so connectivity option" where
  "outer_summary sleo summarize rows internal_summary =
     fold (\<lambda>(input_idx, inp) acc.
         fold (\<lambda>(output_idx, outp). fold (\<lambda>s acc.
             do { cs \<leftarrow> acc; pc \<leftarrow> vec_get cs input_idx;
                  Some (cs[input_idx := snd (pc_insert sleo output_idx (summarize s) pc)]) }) (ac_elements outp))
           (pc_iter_ports inp) acc)
       rows (Some internal_summary)"

fun extract_all ::
  "('t::linorder, 's, 'op) child list \<Rightarrow> (location \<times> 't) change_batch \<times> nat list
   \<Rightarrow> (('t, 's, 'op) child list \<times> (location \<times> 't) change_batch \<times> nat list) option" where
  "extract_all [] pa = Some ([], pa)"
| "extract_all (ch # chs) pa =
     do { (ch', pa) \<leftarrow> child_extract_progress ch pa;
          (chs', pa) \<leftarrow> extract_all chs pa;
          Some (ch' # chs', pa) }"

definition get_internal_summary ::
  "('o::linorder \<Rightarrow> 'o \<Rightarrow> bool) \<Rightarrow> ('t \<Rightarrow> 't \<Rightarrow> bool) \<Rightarrow> ('so \<Rightarrow> 'so \<Rightarrow> bool) \<Rightarrow> ('s \<Rightarrow> 't \<Rightarrow> 't option) \<Rightarrow> ('t::linorder \<Rightarrow> 'o)
   \<Rightarrow> ('s \<Rightarrow> 'so) \<Rightarrow> ('o, 't, 's, 'op) subgraph
   \<Rightarrow> ('so connectivity \<times> 'o shared_progress \<times> ('o, 't, 's, 'op) subgraph) option" where
  "get_internal_summary leo le sleo ri to_outer summarize sg =
     do { ch0 \<leftarrow> vec_get (sg_children sg) 0;
          if ch_outputs ch0 \<noteq> sg_inputs sg \<or> ch_inputs ch0 \<noteq> sg_outputs sg then None
          else do {
            internal_summary \<leftarrow>
              outer_summary sleo summarize (enumerate 0 (sg_scope_summary sg)) (replicate (sg_inputs sg) pc_default);
            (children, final, temp_active) \<leftarrow> extract_all (sg_children sg) (sg_final_pointstamp sg, sg_temp_active sg);
            sg \<leftarrow> propagate_pointstamps leo le ri to_outer
                  (sg\<lparr>sg_children := children, sg_final_pointstamp := final, sg_temp_active := temp_active\<rparr>);
            Some (internal_summary, sg_shared_progress sg, sg) } }"

fun set_external_children ::
  "('op \<Rightarrow> 't shared_progress \<Rightarrow> activations \<Rightarrow> ('op \<times> 't shared_progress \<times> activations) option)
   \<Rightarrow> ('t, 's, 'op) child list \<Rightarrow> activations \<Rightarrow> (('t, 's, 'op) child list \<times> activations) option" where
  "set_external_children ext [] av = Some ([], av)"
| "set_external_children ext (ch # chs) av =
     do { (ch, av) \<leftarrow>
            (case ch_operator ch of
               None \<Rightarrow> Some (ch, av)
             | Some op \<Rightarrow> do { (op, sp, av) \<leftarrow> ext op (ch_shared_progress ch) av;
                             Some (ch\<lparr>ch_operator := Some op, ch_shared_progress := sp\<rparr>, av) });
          (chs, av) \<leftarrow> set_external_children ext chs av;
          Some (ch # chs, av) }"

definition set_external_summary ::
  "('o::linorder \<Rightarrow> 'o \<Rightarrow> bool) \<Rightarrow> ('t \<Rightarrow> 't \<Rightarrow> bool) \<Rightarrow> ('s \<Rightarrow> 't \<Rightarrow> 't option) \<Rightarrow> ('o \<Rightarrow> 't) \<Rightarrow> ('t::linorder \<Rightarrow> 'o)
   \<Rightarrow> ('op \<Rightarrow> 't shared_progress \<Rightarrow> activations \<Rightarrow> ('op \<times> 't shared_progress \<times> activations) option)
   \<Rightarrow> ('o, 't, 's, 'op) subgraph \<Rightarrow> activations \<Rightarrow> (('o, 't, 's, 'op) subgraph \<times> activations) option" where
  "set_external_summary leo le ri to_inner to_outer ext sg av =
     do { sg \<leftarrow> propagate_pointstamps leo le ri to_outer (accept_frontier to_inner sg);
          (children, av) \<leftarrow> set_external_children ext (sg_children sg) av;
          Some (sg\<lparr>sg_children := children\<rparr>, av) }"

end
