(* ===== verification/Subgraph_Propagate.thy ===== *)
theory Subgraph_Propagate
  imports Subgraph
begin

text \<open>
  \<open>Subgraph::propagate_pointstamps\<close> of \<^verbatim>\<open>timely/src/progress/subgraph.rs\<close>: what each of
  its loops does, and the state invariant under which none of them panics.
\<close>

section \<open>Counts read through a change of timestamp\<close>

text \<open>Differences at inner times, accumulated at the outer times they are mapped to.\<close>

definition outer_count :: "('t \<Rightarrow> 'o) \<Rightarrow> ('t \<Rightarrow> int) \<Rightarrow> 'o \<Rightarrow> int" where
  "outer_count g f u = (\<Sum>t | f t \<noteq> 0 \<and> g t = u. f t)"

lemma outer_count_superset:
  assumes "finite A" and "{t. f t \<noteq> 0} \<subseteq> A"
  shows "outer_count g f u = (\<Sum>t \<in> A. if g t = u then f t else 0)"
proof -
  have "outer_count g f u = (\<Sum>t | f t \<noteq> 0 \<and> g t = u. if g t = u then f t else 0)"
    unfolding outer_count_def by (rule sum.cong) auto
  also have "\<dots> = (\<Sum>t \<in> A. if g t = u then f t else 0)"
    using assms by (intro sum.mono_neutral_left) auto
  finally show ?thesis .
qed

lemma outer_count_add:
  assumes "finite {t. f t \<noteq> 0}" and "finite {t. f' t \<noteq> 0}"
  shows "outer_count g (\<lambda>t. f t + f' t) u = outer_count g f u + outer_count g f' u"
proof -
  let ?A = "{t. f t \<noteq> 0} \<union> {t. f' t \<noteq> 0}"
  have "(\<Sum>t \<in> ?A. if g t = u then f t + f' t else 0) = (\<Sum>t \<in> ?A. (if g t = u then f t else 0) + (if g t = u then f' t else 0))"
    by (rule sum.cong) auto
  moreover have "{t. f t + f' t \<noteq> 0} \<subseteq> ?A" by auto
  ultimately show ?thesis
    using assms outer_count_superset [of ?A f g u] outer_count_superset [of ?A f' g u]
      outer_count_superset [of ?A "\<lambda>t. f t + f' t" g u] by (simp add: sum.distrib)
qed

lemma outer_count_zero [simp]: "outer_count g (\<lambda>t. 0) u = 0"
  by (simp add: outer_count_def)

lemma outer_count_pos:
  assumes "finite {t. f t \<noteq> 0}" and "\<And>t. f t \<ge> 0"
  shows "outer_count g f u > 0 \<longleftrightarrow> u \<in> g ` {t. f t > 0}"
proof -
  have pos: "f t > 0 \<longleftrightarrow> f t \<noteq> 0" for t using assms(2) [of t] by linarith
  have fin: "finite {t. f t \<noteq> 0 \<and> g t = u}" using assms(1) by (rule finite_subset [rotated]) blast
  have "outer_count g f u \<ge> 0" unfolding outer_count_def by (rule sum_nonneg) (simp add: assms(2))
  moreover have "outer_count g f u = 0 \<longleftrightarrow> {t. f t \<noteq> 0 \<and> g t = u} = {}"
    unfolding outer_count_def using sum_nonneg_eq_0_iff [OF fin, of f] assms(2) by auto
  ultimately show ?thesis unfolding pos by (auto simp: less_le)
qed

lemma upd_count_map_key: "upd_count (map (\<lambda>(t, d). (g t, d)) us) u = outer_count g (upd_count us) u"
proof -
  let ?A = "fst ` set us"
  have "upd_count (map (\<lambda>(t, d). (g t, d)) vs) u = (\<Sum>t \<in> A. if g t = u then upd_count vs t else 0)"
    if "finite A" "fst ` set vs \<subseteq> A" for A vs
    using that(2)
  proof (induction vs)
    case (Cons v vs)
    obtain t d where v: "v = (t, d)" by (cases v)
    have "(\<Sum>x \<in> A. if g x = u then upd_count (v # vs) x else 0)
        = (\<Sum>x \<in> A. (if x = t then (if g t = u then d else 0) else 0) + (if g x = u then upd_count vs x else 0))"
      by (rule sum.cong) (auto simp: v)
    also have "\<dots> = (if g t = u then d else 0) + (\<Sum>x \<in> A. if g x = u then upd_count vs x else 0)"
      using Cons.prems that(1) by (simp add: sum.distrib sum.delta v)
    finally show ?case using Cons by (simp add: v)
  qed (simp cong: if_cong)
  from this [of ?A us] show ?thesis
    using outer_count_superset [of ?A "upd_count us" g u] upd_count_notin [of _ us] by fastforce
qed

lemma drain_count_fun: "upd_count (fst (cb_drain b)) = cb_count b"
  by (rule ext) simp

lemma upd_count_at_key:
  "upd_count (map (\<lambda>((l, t), d). (t, d)) (filter (\<lambda>u. fst (fst u) = l) us)) t = upd_count us (l, t)"
  by (induction us) auto

section \<open>The loops\<close>

lemma commit_pointstamps_ok:
  assumes "\<forall>u \<in> set us. \<forall>p. (fst (fst u) = new_source 0 p \<longrightarrow> p < length (sp_consumeds sp))
      \<and> (fst (fst u) = new_target 0 p \<longrightarrow> p < length (sp_produceds sp))"
  shows "\<exists>cs ps. commit_pointstamps to_outer us (sp, tr) = Some (sp\<lparr>sp_consumeds := cs, sp_produceds := ps\<rparr>,
        fold (\<lambda>(l, t, d). tracker_update l t d) (map (\<lambda>((l, t), d). (l, t, d)) (filter (\<lambda>u. loc_node (fst (fst u)) \<noteq> 0) us)) tr)
    \<and> length cs = length (sp_consumeds sp) \<and> length ps = length (sp_produceds sp)
    \<and> (\<forall>p < length cs. \<forall>x. cb_count (cs ! p) x = cb_count (sp_consumeds sp ! p) x
        - upd_count (map (\<lambda>((l, t), d). (to_outer t, d)) (filter (\<lambda>u. fst (fst u) = new_source 0 p) us)) x)
    \<and> (\<forall>p < length ps. \<forall>x. cb_count (ps ! p) x = cb_count (sp_produceds sp ! p) x
        + upd_count (map (\<lambda>((l, t), d). (to_outer t, d)) (filter (\<lambda>u. fst (fst u) = new_target 0 p) us)) x)"
  using assms
proof (induction us arbitrary: sp tr)
  case Nil
  show ?case by (rule exI [of _ "sp_consumeds sp"], rule exI [of _ "sp_produceds sp"]) simp
next
  case (Cons u us)
  obtain n pt t d where u: "u = ((Location n pt, t), d)" by (metis prod.collapse location.exhaust)
  show ?case
  proof (cases "n = 0")
    case False
    then show ?thesis using Cons.IH [of sp "tracker_update (Location n pt) t d tr"] Cons.prems
      by (simp add: u new_source_def new_target_def)
  next
    case n: True
    show ?thesis
    proof (cases pt)
      case (PortSource q)
      then have q: "q < length (sp_consumeds sp)" using Cons.prems n by (simp add: u new_source_def)
      let ?cs = "(sp_consumeds sp)[q := cb_update (to_outer t) (- d) (sp_consumeds sp ! q)]"
      obtain cs ps where *: "commit_pointstamps to_outer us (sp\<lparr>sp_consumeds := ?cs\<rparr>, tr) = Some (sp\<lparr>sp_consumeds := cs, sp_produceds := ps\<rparr>,
          fold (\<lambda>(l, t, d). tracker_update l t d) (map (\<lambda>((l, t), d). (l, t, d)) (filter (\<lambda>u. loc_node (fst (fst u)) \<noteq> 0) us)) tr)"
        "length cs = length (sp_consumeds sp)" "length ps = length (sp_produceds sp)"
        "\<And>p x. p < length cs \<Longrightarrow> cb_count (cs ! p) x = cb_count (?cs ! p) x
          - upd_count (map (\<lambda>((l, t), d). (to_outer t, d)) (filter (\<lambda>u. fst (fst u) = new_source 0 p) us)) x"
        "\<And>p x. p < length ps \<Longrightarrow> cb_count (ps ! p) x = cb_count (sp_produceds sp ! p) x
          + upd_count (map (\<lambda>((l, t), d). (to_outer t, d)) (filter (\<lambda>u. fst (fst u) = new_target 0 p) us)) x"
        using Cons.IH [of "sp\<lparr>sp_consumeds := ?cs\<rparr>" tr] Cons.prems by auto
      have "commit_pointstamps to_outer (u # us) (sp, tr) = commit_pointstamps to_outer us (sp\<lparr>sp_consumeds := ?cs\<rparr>, tr)"
        using q by (simp add: u n PortSource vec_get_def)
      with * q show ?thesis
        by (intro exI [of _ cs] exI [of _ ps]) (auto simp: u n PortSource new_source_def new_target_def nth_list_update)
    next
      case (PortTarget q)
      then have q: "q < length (sp_produceds sp)" using Cons.prems n by (simp add: u new_target_def)
      let ?ps = "(sp_produceds sp)[q := cb_update (to_outer t) d (sp_produceds sp ! q)]"
      obtain cs ps where *: "commit_pointstamps to_outer us (sp\<lparr>sp_produceds := ?ps\<rparr>, tr) = Some (sp\<lparr>sp_consumeds := cs, sp_produceds := ps\<rparr>,
          fold (\<lambda>(l, t, d). tracker_update l t d) (map (\<lambda>((l, t), d). (l, t, d)) (filter (\<lambda>u. loc_node (fst (fst u)) \<noteq> 0) us)) tr)"
        "length cs = length (sp_consumeds sp)" "length ps = length (sp_produceds sp)"
        "\<And>p x. p < length cs \<Longrightarrow> cb_count (cs ! p) x = cb_count (sp_consumeds sp ! p) x
          - upd_count (map (\<lambda>((l, t), d). (to_outer t, d)) (filter (\<lambda>u. fst (fst u) = new_source 0 p) us)) x"
        "\<And>p x. p < length ps \<Longrightarrow> cb_count (ps ! p) x = cb_count (?ps ! p) x
          + upd_count (map (\<lambda>((l, t), d). (to_outer t, d)) (filter (\<lambda>u. fst (fst u) = new_target 0 p) us)) x"
        using Cons.IH [of "sp\<lparr>sp_produceds := ?ps\<rparr>" tr] Cons.prems by auto
      have "commit_pointstamps to_outer (u # us) (sp, tr) = commit_pointstamps to_outer us (sp\<lparr>sp_produceds := ?ps\<rparr>, tr)"
        using q by (simp add: u n PortTarget vec_get_def)
      with * q show ?thesis
        by (intro exI [of _ cs] exI [of _ ps]) (auto simp: u n PortTarget new_source_def new_target_def nth_list_update)
    qed
  qed
qed

text \<open>A child that differs at most in the frontier changes it has been told.\<close>

definition told :: "('t, 's, 'op) child \<Rightarrow> ('t, 's, 'op) child \<Rightarrow> bool" where
  "told c c' \<longleftrightarrow> (\<exists>fs. length fs = length (sp_frontiers (ch_shared_progress c))
     \<and> c' = c\<lparr>ch_shared_progress := (ch_shared_progress c)\<lparr>sp_frontiers := fs\<rparr>\<rparr>)"

lemma told_refl: "told c c"
  unfolding told_def by (rule exI [of _ "sp_frontiers (ch_shared_progress c)"]) simp

lemma told_trans: "told a b \<Longrightarrow> told b c \<Longrightarrow> told a c"
  by (auto simp: told_def)

lemma told_sel:
  assumes "told c c'"
  shows "ch_index c' = ch_index c" "ch_inputs c' = ch_inputs c" "ch_outputs c' = ch_outputs c" "ch_edges c' = ch_edges c"
    "ch_local c' = ch_local c" "ch_operator c' = ch_operator c" "ch_notify c' = ch_notify c"
    "length (sp_frontiers (ch_shared_progress c')) = length (sp_frontiers (ch_shared_progress c))"
    "sp_consumeds (ch_shared_progress c') = sp_consumeds (ch_shared_progress c)"
    "sp_internals (ch_shared_progress c') = sp_internals (ch_shared_progress c)"
    "sp_produceds (ch_shared_progress c') = sp_produceds (ch_shared_progress c)"
  using assms by (auto simp: told_def)

lemma deliver_pushed_ok:
  assumes "\<forall>u \<in> set us. \<forall>i p. fst (fst u) = new_target i p \<longrightarrow>
      i < length children \<and> p < length (sp_frontiers (ch_shared_progress (children ! i)))"
  shows "\<exists>children' ta' ms'. deliver_pushed us (children, ta, ms) = Some (children', ta', ms')
    \<and> list_all2 told children children' \<and> (sorted ta \<longrightarrow> sorted ta')
    \<and> set ta' = set ta \<union> {i. \<exists>u \<in> set us. \<exists>p. fst (fst u) = new_target i p \<and> ch_notify (children ! i)}
    \<and> set ms' = set ms \<union> (\<lambda>u. loc_node (fst (fst u))) ` set us
    \<and> (\<forall>i < length children. \<forall>p < length (sp_frontiers (ch_shared_progress (children ! i))). \<forall>t.
        cb_count (sp_frontiers (ch_shared_progress (children' ! i)) ! p) t
        = cb_count (sp_frontiers (ch_shared_progress (children ! i)) ! p) t + upd_count us (new_target i p, t))"
  using assms
proof (induction us arbitrary: children ta ms)
  case Nil
  show ?case by (simp add: list.rel_refl told_refl)
next
  case (Cons u us)
  obtain n pt t d where u: "u = ((Location n pt, t), d)" by (metis prod.collapse location.exhaust)
  show ?case
  proof (cases pt)
    case (PortSource q)
    obtain children' ta' ms' where *: "deliver_pushed us (children, ta, ms @ [n]) = Some (children', ta', ms')"
      "list_all2 told children children'" "sorted ta \<longrightarrow> sorted ta'"
      "set ta' = set ta \<union> {i. \<exists>u \<in> set us. \<exists>p. fst (fst u) = new_target i p \<and> ch_notify (children ! i)}"
      "set ms' = set (ms @ [n]) \<union> (\<lambda>u. loc_node (fst (fst u))) ` set us"
      "\<And>i p t. i < length children \<Longrightarrow> p < length (sp_frontiers (ch_shared_progress (children ! i))) \<Longrightarrow>
        cb_count (sp_frontiers (ch_shared_progress (children' ! i)) ! p) t
        = cb_count (sp_frontiers (ch_shared_progress (children ! i)) ! p) t + upd_count us (new_target i p, t)"
      using Cons.IH [of children ta "ms @ [n]"] Cons.prems by auto
    have "deliver_pushed (u # us) (children, ta, ms) = Some (children', ta', ms')"
      using *(1) by (simp add: u PortSource)
    moreover have "set ta' = set ta \<union> {i. \<exists>u' \<in> set (u # us). \<exists>p. fst (fst u') = new_target i p \<and> ch_notify (children ! i)}"
      by (simp add: *(4) u PortSource new_target_def)
    moreover have "set ms' = set ms \<union> (\<lambda>u. loc_node (fst (fst u))) ` set (u # us)" by (auto simp: *(5) u)
    moreover have "upd_count (u # us) (new_target i p, x) = upd_count us (new_target i p, x)" for i p x
      by (simp add: u PortSource new_target_def)
    ultimately show ?thesis using *(2,3,6) by simp
  next
    case (PortTarget q)
    then have n: "n < length children" and q: "q < length (sp_frontiers (ch_shared_progress (children ! n)))"
      using Cons.prems by (simp_all add: u new_target_def)
    define c where "c = children ! n"
    define c' where "c' = c\<lparr>ch_shared_progress := (ch_shared_progress c)
        \<lparr>sp_frontiers := (sp_frontiers (ch_shared_progress c))[q := cb_update t d (sp_frontiers (ch_shared_progress c) ! q)]\<rparr>\<rparr>"
    let ?ch = "children[n := c']" and ?ta = "if ch_notify c then insort n ta else ta"
    have c': "told c c'" unfolding told_def c'_def by (rule exI, rule conjI [OF _ HOL.refl]) simp
    have notify: "ch_notify (?ch ! i) = ch_notify (children ! i)" for i
      using n told_sel(7) [OF c'] by (cases "i = n") (simp_all add: c_def)
    have len: "length (sp_frontiers (ch_shared_progress (?ch ! i))) = length (sp_frontiers (ch_shared_progress (children ! i)))" for i
      using n told_sel(8) [OF c'] by (cases "i = n") (simp_all add: c_def)
    obtain children' ta' ms' where *: "deliver_pushed us (?ch, ?ta, ms @ [n]) = Some (children', ta', ms')"
      "list_all2 told ?ch children'" "sorted ?ta \<longrightarrow> sorted ta'"
      "set ta' = set ?ta \<union> {i. \<exists>u \<in> set us. \<exists>p. fst (fst u) = new_target i p \<and> ch_notify (?ch ! i)}"
      "set ms' = set (ms @ [n]) \<union> (\<lambda>u. loc_node (fst (fst u))) ` set us"
      "\<And>i p t. i < length children \<Longrightarrow> p < length (sp_frontiers (ch_shared_progress (?ch ! i))) \<Longrightarrow>
        cb_count (sp_frontiers (ch_shared_progress (children' ! i)) ! p) t
        = cb_count (sp_frontiers (ch_shared_progress (?ch ! i)) ! p) t + upd_count us (new_target i p, t)"
      using Cons.IH [of ?ch ?ta "ms @ [n]"] Cons.prems unfolding len by auto
    have "deliver_pushed (u # us) (children, ta, ms) = Some (children', ta', ms')"
      using *(1) n q by (simp add: u PortTarget vec_get_def c'_def c_def Let_def cong: if_cong)
    moreover have "list_all2 told children ?ch"
      using n c' by (auto simp: list_all2_conv_all_nth nth_list_update told_refl c_def)
    then have "list_all2 told children children'"
      using list_all2_trans [of told told told children ?ch children'] told_trans *(2) by blast
    moreover have "sorted ta \<longrightarrow> sorted ta'" using *(3) by (auto simp: sorted_insort)
    moreover have "set ta' = set ta \<union> {i. \<exists>u' \<in> set (u # us). \<exists>p. fst (fst u') = new_target i p \<and> ch_notify (children ! i)}"
      unfolding *(4) notify by (auto simp: u PortTarget new_target_def set_insort_key c_def)
    moreover have "set ms' = set ms \<union> (\<lambda>u. loc_node (fst (fst u))) ` set (u # us)" by (auto simp: *(5) u)
    moreover have "cb_count (sp_frontiers (ch_shared_progress (children' ! i)) ! p) x
        = cb_count (sp_frontiers (ch_shared_progress (children ! i)) ! p) x + upd_count (u # us) (new_target i p, x)"
      if "i < length children" "p < length (sp_frontiers (ch_shared_progress (children ! i)))" for i p x
    proof -
      have "cb_count (sp_frontiers (ch_shared_progress (?ch ! i)) ! p) x
          = cb_count (sp_frontiers (ch_shared_progress (children ! i)) ! p) x + (if (Location n (PortTarget q), t) = (new_target i p, x) then d else 0)"
        using n q by (auto simp: nth_list_update c'_def c_def new_target_def)
      then show ?thesis using *(6) [of i p x] that len [of i] by (simp add: u PortTarget)
    qed
    ultimately show ?thesis by blast
  qed
qed

lemma consider_shutdown_ok:
  assumes "\<forall>i \<in> set is. i < length (tr_per_operator tr)"
  shows "\<exists>ta'. consider_shutdown tr is ta = Some ta' \<and> (sorted ta \<longrightarrow> sorted ta')
    \<and> set ta' = set ta \<union> {i \<in> set is. po_idle (tr_per_operator tr ! i)}"
  using assms
proof (induction "is" arbitrary: ta)
  case (Cons i "is")
  let ?ta = "if po_idle (tr_per_operator tr ! i) then insort i ta else ta"
  from Cons.IH [of ?ta] Cons.prems obtain ta' where "consider_shutdown tr is ?ta = Some ta'" "sorted ?ta \<longrightarrow> sorted ta'"
    "set ta' = set ?ta \<union> {i \<in> set is. po_idle (tr_per_operator tr ! i)}" by auto
  then show ?case using Cons.prems
    by (intro exI [of _ ta']) (auto simp: vec_get_def sorted_insort set_insort_key split: if_splits)
qed simp

lemma report_internals_ok:
  assumes "timestamp_order leo" and "m + length ints \<le> length ocs" and "length caps = length ocs"
    and "\<forall>k < length caps. ma_inv leo (caps ! k)"
  shows "\<exists>ints' ocs' caps'. report_internals leo to_outer m ints (ocs, caps) = Some (ints', ocs', caps')
    \<and> length ints' = length ints \<and> length ocs' = length ocs \<and> length caps' = length caps
    \<and> (\<forall>k < length caps. ma_inv leo (caps' ! k))
    \<and> (\<forall>k < length ocs. ocs' ! k = (if m \<le> k \<and> k < m + length ints then cb_new else ocs ! k))
    \<and> (\<forall>k < m. caps' ! k = caps ! k)
    \<and> (\<forall>i < length ints. \<forall>x. ma_count (caps' ! (m + i)) x = ma_count (caps ! (m + i)) x + outer_count to_outer (cb_count (ocs ! (m + i))) x
        \<and> cb_count (ints' ! i) x = cb_count (ints ! i) x
            + of_bool (x \<in> set (ma_frontier (caps' ! (m + i)))) - of_bool (x \<in> set (ma_frontier (caps ! (m + i)))))"
  using assms(2-4)
proof (induction ints arbitrary: m ocs caps)
  case Nil
  then show ?case by auto
next
  case (Cons int ints)
  have m: "m < length ocs" "m < length caps" using Cons.prems by simp_all
  define us where "us = map (\<lambda>(time, diff). (to_outer time, diff)) (fst (cb_drain (ocs ! m)))"
  obtain changes cap where f: "ma_filter_through leo us (caps ! m) = (changes, cap)" by (cases "ma_filter_through leo us (caps ! m)")
  have "ma_inv leo (caps ! m)" using Cons.prems(3) m by simp
  note st = timestamp_order.update_iter_state [OF assms(1) this f [unfolded ma_filter_through_def]]
  let ?ocs = "ocs[m := cb_new]" and ?caps = "caps[m := cap]"
  let ?int = "fold (\<lambda>(time, diff). cb_update time diff) changes int"
  have "Suc m + length ints \<le> length ?ocs" "length ?caps = length ?ocs" "\<forall>k < length ?caps. ma_inv leo (?caps ! k)"
    using Cons.prems st(1) by (auto simp: nth_list_update)
  from Cons.IH [OF this] obtain ints' ocs' caps' where
    *: "report_internals leo to_outer (Suc m) ints (?ocs, ?caps) = Some (ints', ocs', caps')"
    "length ints' = length ints" "length ocs' = length ocs" "length caps' = length caps"
    "\<And>k. k < length caps \<Longrightarrow> ma_inv leo (caps' ! k)"
    "\<And>k. k < length ocs \<Longrightarrow> ocs' ! k = (if Suc m \<le> k \<and> k < Suc m + length ints then cb_new else ?ocs ! k)"
    "\<And>k. k < Suc m \<Longrightarrow> caps' ! k = ?caps ! k"
    "\<And>i x. i < length ints \<Longrightarrow> ma_count (caps' ! (Suc m + i)) x
        = ma_count (?caps ! (Suc m + i)) x + outer_count to_outer (cb_count (?ocs ! (Suc m + i))) x"
    "\<And>i x. i < length ints \<Longrightarrow> cb_count (ints' ! i) x = cb_count (ints ! i) x
        + of_bool (x \<in> set (ma_frontier (caps' ! (Suc m + i)))) - of_bool (x \<in> set (ma_frontier (?caps ! (Suc m + i))))"
    unfolding length_list_update by blast
  have run: "report_internals leo to_outer m (int # ints) (ocs, caps) = Some (?int # ints', ocs', caps')"
    using m *(1) f by (simp add: vec_get_def us_def Let_def split_beta)
  have us: "upd_count us x = outer_count to_outer (cb_count (ocs ! m)) x" for x
    unfolding us_def upd_count_map_key drain_count_fun ..
  have ints: "ma_count (caps' ! (m + i)) x = ma_count (caps ! (m + i)) x + outer_count to_outer (cb_count (ocs ! (m + i))) x
        \<and> cb_count ((?int # ints') ! i) x = cb_count ((int # ints) ! i) x
            + of_bool (x \<in> set (ma_frontier (caps' ! (m + i)))) - of_bool (x \<in> set (ma_frontier (caps ! (m + i))))"
    if i: "i < length (int # ints)" for i x
  proof (cases i)
    case 0
    then show ?thesis using m *(7) [of m] st(2,3) by (simp add: count_fold_pairs us)
  next
    case (Suc j)
    then show ?thesis using *(8,9) [of j x] i by simp
  qed
  have "ocs' ! k = (if m \<le> k \<and> k < m + length (int # ints) then cb_new else ocs ! k)" if "k < length ocs" for k
    using *(6) [OF that] m by (auto simp: nth_list_update)
  moreover have "caps' ! k = caps ! k" if "k < m" for k using *(7) [of k] that by simp
  ultimately show ?case using run *(2-5) ints by (intro exI [of _ "?int # ints'"] exI [of _ ocs'] exI [of _ caps']) auto
qed

section \<open>What propagation leaves alone\<close>

definition tr_shape :: "('t, 's) tracker \<Rightarrow> (nat \<times> nat) list" where
  "tr_shape tr = map (\<lambda>po. (length (po_targets po), length (po_sources po))) (tr_per_operator tr)"

lemma tr_shape_simps [simp]:
  "tr_shape (tr\<lparr>tr_target_changes := a\<rparr>) = tr_shape tr" "tr_shape (tr\<lparr>tr_source_changes := b\<rparr>) = tr_shape tr"
  "tr_shape (tr\<lparr>tr_worklist := c\<rparr>) = tr_shape tr" "tr_shape (tr\<lparr>tr_pushed_changes := d\<rparr>) = tr_shape tr"
  "tr_shape (tr\<lparr>tr_output_changes := e\<rparr>) = tr_shape tr" "tr_shape (tr\<lparr>tr_total_counts := f\<rparr>) = tr_shape tr"
  by (simp_all add: tr_shape_def)

lemma tr_locs_shape:
  "l \<in> tr_locs tr \<longleftrightarrow> loc_node l < length (tr_shape tr)
     \<and> (case loc_port l of PortTarget p \<Rightarrow> p < fst (tr_shape tr ! loc_node l) | PortSource p \<Rightarrow> p < snd (tr_shape tr ! loc_node l))"
  by (cases "loc_port l") (auto simp: tr_locs_def tr_get_def tr_shape_def vec_get_def split: if_splits)

lemma tr_locs_cong: "tr_shape tr' = tr_shape tr \<Longrightarrow> tr_locs tr' = tr_locs tr"
  unfolding set_eq_iff tr_locs_shape by (simp only: simp_thms)

lemma tr_locs_fields [simp]:
  "tr_locs (tr\<lparr>tr_worklist := c\<rparr>) = tr_locs tr" "tr_locs (tr\<lparr>tr_pushed_changes := d\<rparr>) = tr_locs tr"
  "tr_locs (tr\<lparr>tr_output_changes := e\<rparr>) = tr_locs tr" "tr_locs (tr\<lparr>tr_total_counts := f\<rparr>) = tr_locs tr"
  by (simp_all add: tr_locs_def)

lemma tr_set_shape:
  assumes "tr_set tr l p = Some tr'"
  shows "tr_shape tr' = tr_shape tr"
proof -
  have "tr_shape (tr\<lparr>tr_per_operator := (tr_per_operator tr)[n := po]\<rparr>) = (tr_shape tr)[n := (length (po_targets po), length (po_sources po))]" for n po
    by (simp add: tr_shape_def map_update)
  moreover have "(tr_shape tr)[n := (length (po_targets po), length (po_sources po))] = tr_shape tr"
    if "n < length (tr_per_operator tr)" "length (po_targets po) = length (po_targets (tr_per_operator tr ! n))"
      "length (po_sources po) = length (po_sources (tr_per_operator tr ! n))" for n and po :: "('a, 'b) per_operator"
    using that by (simp add: tr_shape_def list_eq_iff_nth_eq nth_list_update)
  ultimately show ?thesis using assms
    by (auto simp: tr_set_def bind_eq_Some_conv split: port.splits)
qed

text \<open>The locations of pushed changes.\<close>

definition pushed_locs :: "('t, 's) tracker \<Rightarrow> location set" where
  "pushed_locs tr = fst ` fst ` set (cb_updates (tr_pushed_changes tr))"

definition tr_framed :: "('t, 's) tracker \<Rightarrow> ('t, 's) tracker \<Rightarrow> bool" where
  "tr_framed tr tr' \<longleftrightarrow> tr_shape tr' = tr_shape tr \<and> pushed_locs tr' \<subseteq> pushed_locs tr \<union> tr_locs tr"

lemma tr_framed_refl: "tr_framed tr tr"
  by (simp add: tr_framed_def)

lemma tr_framed_trans: "tr_framed a b \<Longrightarrow> tr_framed b c \<Longrightarrow> tr_framed a c"
  using tr_locs_cong [of b a] unfolding tr_framed_def by auto

lemma tr_framed_simps [simp]:
  "tr_framed (tr\<lparr>tr_target_changes := a\<rparr>) tr' = tr_framed tr tr'" "tr_framed (tr\<lparr>tr_source_changes := a2\<rparr>) tr' = tr_framed tr tr'"
  "tr_framed (tr\<lparr>tr_worklist := b\<rparr>) tr' = tr_framed tr tr'"
  "tr_framed tr (tr'\<lparr>tr_worklist := b\<rparr>) = tr_framed tr tr'" "tr_framed tr (tr'\<lparr>tr_output_changes := c\<rparr>) = tr_framed tr tr'"
  "tr_framed tr (tr'\<lparr>tr_total_counts := e\<rparr>) = tr_framed tr tr'"
  by (simp_all add: tr_framed_def pushed_locs_def)

lemma set_framed:
  assumes "tr_set tr l p = Some tr'"
  shows "tr_framed tr tr'"
proof -
  have "tr_pushed_changes tr' = tr_pushed_changes tr" using assms by (auto simp: tr_set_def bind_eq_Some_conv)
  then show ?thesis using tr_set_shape [OF assms] by (simp add: tr_framed_def pushed_locs_def)
qed

lemma note_changes_framed: "note_changes ri l ports cs tr = Some tr' \<Longrightarrow> tr_framed tr tr'"
proof (induction cs arbitrary: tr)
  case (Cons c cs)
  obtain t d where c: "c = (t, d)" by (cases c)
  from Cons.prems obtain ocs where "note_changes ri l ports cs (tr\<lparr>tr_total_counts := tr_total_counts tr + d, tr_output_changes := ocs,
      tr_worklist := insort (t, l, d) (tr_worklist tr)\<rparr>) = Some tr'" by (auto simp: c bind_eq_Some_conv)
  from Cons.IH [OF this] show ?case by (simp add: tr_framed_def pushed_locs_def)
qed (simp add: tr_framed_refl)

lemma absorb_changes_framed: "absorb_changes le ri loc_of us tr = Some tr' \<Longrightarrow> tr_framed tr tr'"
proof (induction le ri loc_of us tr rule: absorb_changes.induct)
  case (2 le ri loc_of u us tr)
  from "2.prems" obtain tr1 where t: "absorb_port le ri (loc_of (fst (fst u))) (map (\<lambda>v. (snd (fst v), snd v)) (takeWhile (\<lambda>v. fst (fst v) = fst (fst u)) (u # us))) tr = Some tr1"
    "absorb_changes le ri loc_of (dropWhile (\<lambda>v. fst (fst v) = fst (fst u)) us) tr1 = Some tr'"
    by (auto simp: Let_def bind_eq_Some_conv)
  have "tr_framed tr tr1"
    using t(1) by (auto simp: absorb_port_def bind_eq_Some_conv split_beta Let_def
      intro: tr_framed_trans [OF set_framed note_changes_framed])
  moreover have "tr_framed tr1 tr'" by (rule "2.IH" [OF HOL.refl HOL.refl t])
  ultimately show ?case by (rule tr_framed_trans)
qed (simp add: tr_framed_refl)

lemma push_implications_framed:
  "push_implications ri l cs tr = Some tr' \<Longrightarrow> l \<in> tr_locs tr \<Longrightarrow> tr_framed tr tr'"
proof (induction cs arbitrary: tr)
  case (Cons c cs)
  obtain t d where c: "c = (t, d)" by (cases c)
  from Cons.prems(1) obtain w where p: "push_implications ri l cs (tr\<lparr>tr_worklist := w,
      tr_pushed_changes := cb_update (l, t) d (tr_pushed_changes tr)\<rparr>) = Some tr'" by (auto simp: c bind_eq_Some_conv)
  let ?tr = "tr\<lparr>tr_worklist := w, tr_pushed_changes := cb_update (l, t) d (tr_pushed_changes tr)\<rparr>"
  have "l \<in> tr_locs ?tr" using Cons.prems(2) by simp
  from Cons.IH [OF p this] have "tr_framed ?tr tr'" .
  moreover have "tr_framed tr ?tr"
  proof -
    have "fst ` fst ` set (cb_updates (cb_update (l, t) d (tr_pushed_changes tr))) \<subseteq> fst ` insert (l, t) (fst ` set (cb_updates (tr_pushed_changes tr)))"
      using update_keys by (rule image_mono)
    then show ?thesis using Cons.prems(2) by (simp add: tr_framed_def pushed_locs_def) blast
  qed
  ultimately show ?case using tr_framed_trans by blast
qed (simp add: tr_framed_refl)

lemma propagate_step_framed:
  assumes "propagate_step le ri t l d tr = Some tr'"
  shows "tr_framed tr tr'"
proof (cases "d = 0")
  case False
  from assms False obtain p changes ma tr1 where p: "tr_get tr l = Some p" "tr_set tr l (p\<lparr>pi_implications := ma\<rparr>) = Some tr1"
    "push_implications ri l changes tr1 = Some tr'"
    by (auto simp: propagate_step_def bind_eq_Some_conv split_beta Let_def)
  have f: "tr_framed tr tr1" by (rule set_framed [OF p(2)])
  have "l \<in> tr_locs tr" using p(1) by (simp add: tr_locs_def)
  then have "l \<in> tr_locs tr1" using f tr_locs_cong [of tr1 tr] by (simp add: tr_framed_def)
  from push_implications_framed [OF p(3) this] f show ?thesis using tr_framed_trans by blast
qed (use assms in \<open>simp add: propagate_step_def tr_framed_refl\<close>)

lemma propagate_loop_framed:
  assumes "propagate_loop le ri tr = Some tr'"
  shows "tr_framed tr tr'"
proof (rule propagate_loop.raw_induct [where P = "\<lambda>le ri. tr_framed", OF _ assms])
  fix loop and le :: "'a \<Rightarrow> 'a \<Rightarrow> bool" and ri :: "'b \<Rightarrow> 'a \<Rightarrow> 'a option" and tr tr' :: "('a, 'b) tracker"
  assume IH: "\<And>le ri tr tr'. loop le ri tr = Some tr' \<Longrightarrow> tr_framed tr tr'"
    and body: "(case tr_worklist tr of [] \<Rightarrow> Some tr
      | (time, l, d) # w \<Rightarrow> Option.bind (propagate_step le ri time l (fst (gather time l d w))
              (tr\<lparr>tr_worklist := snd (gather time l d w)\<rparr>)) (loop le ri)) = Some tr'"
  show "tr_framed tr tr'"
  proof (cases "tr_worklist tr")
    case Nil
    then show ?thesis using body by (simp add: tr_framed_refl)
  next
    case (Cons e w)
    obtain t l d where e: "e = (t, l, d)" by (metis prod_cases3)
    from body obtain tr1 where "propagate_step le ri t l (fst (gather t l d w)) (tr\<lparr>tr_worklist := snd (gather t l d w)\<rparr>) = Some tr1"
      "loop le ri tr1 = Some tr'" by (auto simp: Cons e bind_eq_Some_conv)
    with propagate_step_framed IH show ?thesis by (metis tr_framed_simps(3) tr_framed_trans)
  qed
qed

lemma propagate_all_framed:
  assumes "tracker_propagate_all le ri tr = Some tr'"
  shows "tr_framed tr tr'"
proof -
  from assms obtain tr1 tr2 ts a ss b where "absorb_changes le ri location_of_target ts (tr\<lparr>tr_target_changes := a\<rparr>) = Some tr1"
    "absorb_changes le ri location_of_source ss (tr1\<lparr>tr_source_changes := b\<rparr>) = Some tr2" "propagate_loop le ri tr2 = Some tr'"
    by (auto simp: tracker_propagate_all_def bind_eq_Some_conv split_beta Let_def)
  then have "tr_framed tr tr1" "tr_framed tr1 tr2" "tr_framed tr2 tr'"
    using absorb_changes_framed propagate_loop_framed tr_framed_simps(1,2) by blast+
  then show ?thesis using tr_framed_trans by blast
qed

section \<open>The invariant of a subgraph\<close>

text \<open>Every vector has the length the others rely on.\<close>

definition child_ok :: "nat \<Rightarrow> ('t, 's, 'op) child \<Rightarrow> bool" where
  "child_ok i c \<longleftrightarrow> ch_index c = i \<and> length (ch_edges c) = ch_outputs c
     \<and> length (sp_frontiers (ch_shared_progress c)) = ch_inputs c \<and> length (sp_consumeds (ch_shared_progress c)) = ch_inputs c
     \<and> length (sp_internals (ch_shared_progress c)) = ch_outputs c \<and> length (sp_produceds (ch_shared_progress c)) = ch_outputs c"

definition sg_shape_ok :: "('o, 't, 's, 'op) subgraph \<Rightarrow> bool" where
  "sg_shape_ok sg \<longleftrightarrow>
     (let children = sg_children sg; tr = sg_pointstamp_tracker sg; sp = sg_shared_progress sg in
      children \<noteq> [] \<and> (\<forall>i < length children. child_ok i (children ! i))
      \<and> ch_outputs (children ! 0) = sg_inputs sg \<and> ch_inputs (children ! 0) = sg_outputs sg
      \<and> tr_shape tr = map (\<lambda>c. (ch_inputs c, ch_outputs c)) children \<and> tr_edges tr = map ch_edges children
      \<and> length (sp_frontiers sp) = sg_inputs sg \<and> length (sp_consumeds sp) = sg_inputs sg
      \<and> length (sp_internals sp) = sg_outputs sg \<and> length (sp_produceds sp) = sg_outputs sg
      \<and> length (sg_input_messages sg) = sg_inputs sg
      \<and> length (sg_incomplete sg) = length children)"

text \<open>Between calls the tracker has nothing pending and its reports have been delivered.\<close>

definition sg_tracker_ok ::
  "('t \<Rightarrow> 't \<Rightarrow> bool) \<Rightarrow> ('s \<Rightarrow> 's \<Rightarrow> bool) \<Rightarrow> 's \<Rightarrow> ('s \<Rightarrow> 't \<Rightarrow> 't option) \<Rightarrow> ('o, 't::linorder, 's, 'op) subgraph \<Rightarrow> bool" where
  "sg_tracker_ok le sle dflt ri sg \<longleftrightarrow>
     (let tr = sg_pointstamp_tracker sg in
      tr_inv le ri tr \<and> tr_accepted dflt tr \<and> tr_buffers_ok tr \<and> tr_summarized sle le ri tr
      \<and> tr_pushed_changes tr = cb_new \<and> tr_output_changes tr = replicate (sg_outputs sg) cb_new)"

text \<open>
  The capabilities reported to the parent are those of the scope outputs, read at outer times.
\<close>

definition sg_outputs_ok ::
  "('o::linorder \<Rightarrow> 'o \<Rightarrow> bool) \<Rightarrow> ('s \<Rightarrow> 't \<Rightarrow> 't option) \<Rightarrow> ('t \<Rightarrow> 'o) \<Rightarrow> ('o, 't, 's, 'op) subgraph \<Rightarrow> bool" where
  "sg_outputs_ok leo ri to_outer sg \<longleftrightarrow>
     length (sg_output_capabilities sg) = sg_outputs sg
     \<and> (\<forall>k < sg_outputs sg. ma_inv leo (sg_output_capabilities sg ! k)
          \<and> (\<forall>x. ma_count (sg_output_capabilities sg ! k) x = outer_count to_outer (tr_projection ri (sg_pointstamp_tracker sg) k) x))"

text \<open>Progress statements in flight name ports that exist.\<close>

definition batch_ok :: "('t, 's) tracker \<Rightarrow> (location \<times> 't::linorder) change_batch \<Rightarrow> bool" where
  "batch_ok tr b \<longleftrightarrow> cb_inv b \<and> fst ` fst ` set (cb_updates b) \<subseteq> tr_locs tr"

definition sg_pointstamps_ok :: "('o, 't::linorder, 's, 'op) subgraph \<Rightarrow> bool" where
  "sg_pointstamps_ok sg \<longleftrightarrow> batch_ok (sg_pointstamp_tracker sg) (sg_local_pointstamp sg)
     \<and> batch_ok (sg_pointstamp_tracker sg) (sg_final_pointstamp sg)"

definition sg_active_ok :: "('o, 't, 's, 'op) subgraph \<Rightarrow> bool" where
  "sg_active_ok sg \<longleftrightarrow> sorted (sg_temp_active sg) \<and> (\<forall>i \<in> set (sg_temp_active sg). i < length (sg_children sg))
     \<and> sg_maybe_shutdown sg = []"

definition sg_incomplete_ok :: "('o, 't, 's, 'op) subgraph \<Rightarrow> bool" where
  "sg_incomplete_ok sg \<longleftrightarrow> sg_incomplete_count sg = length (filter id (sg_incomplete sg))"

definition sg_inv ::
  "('o::linorder \<Rightarrow> 'o \<Rightarrow> bool) \<Rightarrow> ('t \<Rightarrow> 't \<Rightarrow> bool) \<Rightarrow> ('s \<Rightarrow> 's \<Rightarrow> bool) \<Rightarrow> 's \<Rightarrow> ('s \<Rightarrow> 't \<Rightarrow> 't option) \<Rightarrow> ('t \<Rightarrow> 'o)
   \<Rightarrow> ('o, 't::linorder, 's, 'op) subgraph \<Rightarrow> bool" where
  "sg_inv leo le sle dflt ri to_outer sg \<longleftrightarrow> sg_shape_ok sg \<and> sg_tracker_ok le sle dflt ri sg \<and> sg_outputs_ok leo ri to_outer sg
     \<and> sg_pointstamps_ok sg \<and> sg_active_ok sg \<and> sg_incomplete_ok sg"

lemma drain_ok:
  assumes "batch_ok tr b" and "u \<in> set (fst (cb_drain b))"
  shows "fst (fst u) \<in> tr_locs tr"
  using drain_keys [OF assms(2)] assms(1) by (auto simp: batch_ok_def)

lemma batch_ok_simps [simp]: "batch_ok tr cb_new"
  by (simp add: batch_ok_def) (simp add: cb_new_def)

lemma batch_ok_update [simp]:
  assumes "batch_ok tr b" and "fst k \<in> tr_locs tr"
  shows "batch_ok tr (cb_update k d b)"
proof -
  have "fst ` fst ` set (cb_updates (cb_update k d b)) \<subseteq> fst ` insert k (fst ` set (cb_updates b))"
    by (rule image_mono [OF update_keys])
  also have "\<dots> \<subseteq> tr_locs tr" using assms by (simp add: batch_ok_def)
  finally show ?thesis using assms(1) by (simp add: batch_ok_def)
qed

lemma batch_ok_cong: "tr_locs tr = tr_locs tr' \<Longrightarrow> batch_ok tr b = batch_ok tr' b"
  by (simp add: batch_ok_def)

lemma finite_projection: "finite {u. tr_projection ri tr k u \<noteq> 0}"
proof (rule finite_subset)
  let ?o = "\<lambda>l t. out_times ri (pc_iter_ports (pi_output_summaries (the (tr_get tr l)))) k t"
  show "finite (\<Union>l \<in> tr_locs tr. \<Union>t \<in> set (ma_frontier (tr_pts tr l)). set (?o l t))" by simp
  have "tr_projection ri tr k u = 0" if "u \<notin> (\<Union>l \<in> tr_locs tr. \<Union>t \<in> set (ma_frontier (tr_pts tr l)). set (?o l t))" for u
    using that by (simp add: tr_projection_def count_list_0_iff)
  then show "{u. tr_projection ri tr k u \<noteq> 0} \<subseteq> (\<Union>l \<in> tr_locs tr. \<Union>t \<in> set (ma_frontier (tr_pts tr l)). set (?o l t))" by blast
qed

lemma projection_nonneg: "tr_projection ri tr k u \<ge> 0"
  by (simp add: tr_projection_def sum_nonneg)

section \<open>propagate_pointstamps\<close>

text \<open>Committing the final pointstamps to the tracker and propagating.\<close>

lemma tracker_stage:
  assumes bs: "bounded_summary le sle dflt ri fb"
    and tr: "tr_inv le ri tr" "tr_accepted dflt tr" "tr_buffers_ok tr" "tr_summarized sle le ri tr"
    and quiet: "tr_pushed_changes tr = cb_new" "tr_output_changes tr = replicate n cb_new"
    and b: "batch_ok tr b"
    and tr0: "tr0 = fold (\<lambda>(l, t, d). tracker_update l t d)
        (map (\<lambda>((l, t), d). (l, t, d)) (filter (\<lambda>u. loc_node (fst (fst u)) \<noteq> 0) (fst (cb_drain b)))) tr"
  obtains tr' where "tracker_propagate_all le ri tr0 = Some tr'" "tr_inv le ri tr'" "tr_accepted dflt tr'" "tr_buffers_ok tr'"
    "tr_summarized sle le ri tr'" "tr_shape tr' = tr_shape tr" "tr_edges tr' = tr_edges tr" "pushed_locs tr' \<subseteq> tr_locs tr"
    "length (tr_output_changes tr') = n"
    "\<forall>l \<in> tr_locs tr. \<forall>t. tr_buffered tr' l t = 0"
    "\<forall>l \<in> tr_locs tr. \<forall>t. ma_count (tr_pts tr' l) t = ma_count (tr_pts tr l) t + tr_buffered tr l t
        + (if loc_node l = 0 then 0 else cb_count b (l, t))"
    "\<forall>l \<in> tr_locs tr. set (ma_frontier (tr_imp tr' l)) = minimals le (reach_times ri tr' l)"
    "\<forall>l \<in> tr_locs tr. \<forall>t. cb_count (tr_pushed_changes tr') (l, t)
        = of_bool (t \<in> set (ma_frontier (tr_imp tr' l))) - of_bool (t \<in> set (ma_frontier (tr_imp tr l)))"
    "\<forall>k < n. \<forall>u. cb_count (tr_output_changes tr' ! k) u = tr_projection ri tr' k u - tr_projection ri tr k u"
proof -
  define vs where "vs = map (\<lambda>((l, t), d). (l, t, d)) (filter (\<lambda>u. loc_node (fst (fst u)) \<noteq> 0) (fst (cb_drain b)))"
  have tr0': "tr0 = fold (\<lambda>(l, t, d). tracker_update l t d) vs tr" by (simp add: tr0 vs_def)
  have vs: "\<forall>(l, t, d) \<in> set vs. l \<in> tr_locs tr" using drain_ok [OF b] by (force simp: vs_def)
  have cnt: "upd_count (map (\<lambda>(l, t, d). ((l, t), d)) vs) (l, t) = (if loc_node l = 0 then 0 else cb_count b (l, t))" for l t
  proof -
    have "upd_count (map (\<lambda>(l, t, d). ((l, t), d)) (map (\<lambda>((l, t), d). (l, t, d)) (filter (\<lambda>u. loc_node (fst (fst u)) \<noteq> 0) us))) (l, t)
        = (if loc_node l = 0 then 0 else upd_count us (l, t))" for us :: "((location \<times> 'a) \<times> int) list"
      by (induction us) auto
    then show ?thesis unfolding vs_def by simp
  qed
  obtain tc sc where f: "tr0 = tr\<lparr>tr_target_changes := tc, tr_source_changes := sc\<rparr>"
    using fold_update_buffers [of vs tr] unfolding tr0' by blast
  have 0: "tr_inv le ri tr0" "tr_accepted dflt tr0" "tr_buffers_ok tr0"
    using tr tr_buffers_fold [OF tr(3) vs] by (simp_all add: f tr_accepted_def flip: tr0')
  from bounded_summary.propagate_all_ok [OF bs 0] obtain tr' where
    p: "tracker_propagate_all le ri tr0 = Some tr'" "tr_inv le ri tr'" "tr_worklist tr' = []"
      "tr_target_changes tr' = cb_new" "tr_source_changes tr' = cb_new" "tr_evolves ri tr0 tr'"
      "\<And>l t. l \<in> tr_locs tr0 \<Longrightarrow> ma_count (tr_pts tr' l) t = ma_count (tr_pts tr0 l) t + tr_buffered tr0 l t" by blast
  have ev: "tr_evolves ri tr tr'" using p(6) by (simp add: f)
  have g: "tr_graph tr' = tr_graph tr" and l: "tr_locs tr' = tr_locs tr"
    using ev tr_graph_evolves by (auto simp: tr_evolves_def)
  have acc: "tr_accepted dflt tr'" using tr(2) g by (simp add: tr_accepted_def)
  have fr: "tr_framed tr tr'" using propagate_all_framed [OF p(1)] by (simp add: f)
  show thesis
  proof (rule that [OF p(1,2) acc])
    show "tr_buffers_ok tr'" by (simp add: tr_buffers_ok_def p(4,5)) (simp add: cb_new_def)
    show "tr_summarized sle le ri tr'" by (rule tr_summarized_evolves [OF tr(4) ev])
    show "tr_shape tr' = tr_shape tr" "pushed_locs tr' \<subseteq> tr_locs tr"
      using fr unfolding tr_framed_def pushed_locs_def quiet(1) by (simp_all add: cb_new_def)
    show "tr_edges tr' = tr_edges tr" "length (tr_output_changes tr') = n" using ev by (simp_all add: tr_evolves_def quiet(2))
    show "\<forall>l \<in> tr_locs tr. \<forall>t. tr_buffered tr' l t = 0" by (simp add: tr_buffered_def p(4,5) split: port.split)
    show "\<forall>l \<in> tr_locs tr. \<forall>t. ma_count (tr_pts tr' l) t = ma_count (tr_pts tr l) t + tr_buffered tr l t
        + (if loc_node l = 0 then 0 else cb_count b (l, t))"
      using p(7) cnt tr_buffered_fold [of vs tr] by (simp add: f flip: tr0')
    show "\<forall>l \<in> tr_locs tr. set (ma_frontier (tr_imp tr' l)) = minimals le (reach_times ri tr' l)"
      using advancing_summary.quiet_exact [OF bounded_summary.axioms(1) [OF bs] p(2,3) tr_accepted_facts(1,2) [OF acc]]
      by (simp add: \<open>tr_locs tr' = tr_locs tr\<close>)
    show "\<forall>l \<in> tr_locs tr. \<forall>t. cb_count (tr_pushed_changes tr') (l, t)
        = of_bool (t \<in> set (ma_frontier (tr_imp tr' l))) - of_bool (t \<in> set (ma_frontier (tr_imp tr l)))"
    proof (intro ballI allI)
      fix l t assume "l \<in> tr_locs tr"
      then have "cb_count (tr_pushed_changes tr') (l, t) - of_bool (t \<in> set (ma_frontier (tr_imp tr' l)))
          = cb_count (tr_pushed_changes tr) (l, t) - of_bool (t \<in> set (ma_frontier (tr_imp tr l)))"
        using ev unfolding tr_evolves_def by blast
      then show "cb_count (tr_pushed_changes tr') (l, t)
        = of_bool (t \<in> set (ma_frontier (tr_imp tr' l))) - of_bool (t \<in> set (ma_frontier (tr_imp tr l)))" by (simp add: quiet(1))
    qed
    show "\<forall>k < n. \<forall>u. cb_count (tr_output_changes tr' ! k) u = tr_projection ri tr' k u - tr_projection ri tr k u"
    proof (intro allI impI)
      fix k u assume k: "k < n"
      then have "cb_count (tr_output_changes tr' ! k) u - tr_projection ri tr' k u
          = cb_count (tr_output_changes tr ! k) u - tr_projection ri tr k u"
        using ev unfolding tr_evolves_def by (simp add: quiet(2))
      then show "cb_count (tr_output_changes tr' ! k) u = tr_projection ri tr' k u - tr_projection ri tr k u"
        using k by (simp add: quiet(2))
    qed
  qed
qed

text \<open>Draining the reports changes nothing the tracker computes with.\<close>

lemma tr_drained:
  fixes tr :: "('t::linorder, 's) tracker" and pc :: "(location \<times> 't) change_batch" and ocs :: "'t change_batch list"
  defines "tr' \<equiv> tr\<lparr>tr_pushed_changes := pc, tr_output_changes := ocs\<rparr>"
  shows "tr_locs tr' = tr_locs tr" "tr_pts tr' = tr_pts tr" "tr_imp tr' = tr_imp tr" "tr_buffered tr' = tr_buffered tr"
    "reach_times ri tr' = reach_times ri tr" "scope_times ri tr' = scope_times ri tr" "tr_projection ri tr' = tr_projection ri tr"
    "tr_accepted dflt tr' = tr_accepted dflt tr" "tr_buffers_ok tr' = tr_buffers_ok tr"
    "tr_summarized sle le ri tr' = tr_summarized sle le ri tr"
    "length ocs = length (tr_output_changes tr) \<Longrightarrow> tr_inv le ri tr' = tr_inv le ri tr"
proof -
  have g: "tr_get tr' = tr_get tr" by (simp add: tr'_def)
  show l: "tr_locs tr' = tr_locs tr" and p: "tr_pts tr' = tr_pts tr" and i: "tr_imp tr' = tr_imp tr"
    by (simp_all add: tr_locs_def tr_pts_def tr_imp_def fun_eq_iff g)
  have s: "tracker_succs ri tr' = tracker_succs ri tr" for ri :: "'s \<Rightarrow> 't \<Rightarrow> 't option" by (rule succs_cong) (simp_all add: tr'_def)
  have r: "tr_reaches ri tr' = tr_reaches ri tr" for ri :: "'s \<Rightarrow> 't \<Rightarrow> 't option" by (rule tr_reaches_cong [OF l s])
  show "tr_buffered tr' = tr_buffered tr" by (simp add: fun_eq_iff tr_buffered_def tr'_def split: port.split)
  show "reach_times ri tr' = reach_times ri tr" by (simp add: fun_eq_iff reach_times_def p r)
  show "scope_times ri tr' = scope_times ri tr" by (simp add: fun_eq_iff scope_times_def p r)
  show "tr_projection ri tr' = tr_projection ri tr" by (simp add: fun_eq_iff tr_projection_def p l g)
  show "tr_accepted dflt tr' = tr_accepted dflt tr" by (simp add: tr_accepted_def tr_graph_def tr'_def)
  show "tr_buffers_ok tr' = tr_buffers_ok tr" by (simp add: tr_buffers_ok_def l) (simp add: tr'_def)
  show "tr_summarized sle le ri tr' = tr_summarized sle le ri tr"
    by (simp add: tr_summarized_def summarizes_def path_to_output_def r l g)
  assume o: "length ocs = length (tr_output_changes tr)"
  have "tr_wf ri tr' = tr_wf ri tr" unfolding tr_wf_def s l g by (simp add: tr'_def o)
  moreover have "tr_balanced ri tr' = tr_balanced ri tr" unfolding tr_balanced_def succs_at_def s l p i by (simp add: tr'_def)
  moreover have "tr_counted tr' = tr_counted tr" unfolding tr_counted_def l p by (simp add: tr'_def)
  ultimately show "tr_inv le ri tr' = tr_inv le ri tr" by (simp add: tr_inv_def l p i)
qed

lemma sg_shape_locs:
  assumes "sg_shape_ok sg"
  shows "new_target i p \<in> tr_locs (sg_pointstamp_tracker sg) \<longleftrightarrow> i < length (sg_children sg) \<and> p < ch_inputs (sg_children sg ! i)"
    and "new_source i p \<in> tr_locs (sg_pointstamp_tracker sg) \<longleftrightarrow> i < length (sg_children sg) \<and> p < ch_outputs (sg_children sg ! i)"
    and "l \<in> tr_locs (sg_pointstamp_tracker sg) \<Longrightarrow> loc_node l < length (sg_children sg)"
    and "length (tr_per_operator (sg_pointstamp_tracker sg)) = length (sg_children sg)"
proof -
  have sh: "tr_shape (sg_pointstamp_tracker sg) = map (\<lambda>c. (ch_inputs c, ch_outputs c)) (sg_children sg)"
    using assms by (simp add: sg_shape_ok_def Let_def)
  show "new_target i p \<in> tr_locs (sg_pointstamp_tracker sg) \<longleftrightarrow> i < length (sg_children sg) \<and> p < ch_inputs (sg_children sg ! i)"
    "new_source i p \<in> tr_locs (sg_pointstamp_tracker sg) \<longleftrightarrow> i < length (sg_children sg) \<and> p < ch_outputs (sg_children sg ! i)"
    "l \<in> tr_locs (sg_pointstamp_tracker sg) \<Longrightarrow> loc_node l < length (sg_children sg)"
    by (auto simp: tr_locs_shape sh new_target_def new_source_def)
  show "length (tr_per_operator (sg_pointstamp_tracker sg)) = length (sg_children sg)"
    using arg_cong [OF sh, of length] by (simp add: tr_shape_def)
qed

lemma told_child_ok: "told c c' \<Longrightarrow> child_ok i c \<Longrightarrow> child_ok i c'"
  by (simp add: child_ok_def told_sel)

text \<open>The maps of the children that their frontier changes do not touch.\<close>

lemma told_maps:
  assumes "list_all2 told cs cs'"
  shows "map ch_edges cs' = map ch_edges cs" "map (\<lambda>c. (ch_inputs c, ch_outputs c)) cs' = map (\<lambda>c. (ch_inputs c, ch_outputs c)) cs"
    "length cs' = length cs" "i < length cs \<Longrightarrow> told (cs ! i) (cs' ! i)"
  using assms by (auto simp: list_all2_conv_all_nth list_eq_iff_nth_eq told_sel)

text \<open>What propagation promises, from the state before to the state after.\<close>

definition sg_propagated ::
  "('o \<Rightarrow> 'o \<Rightarrow> bool) \<Rightarrow> ('t \<Rightarrow> 't \<Rightarrow> bool) \<Rightarrow> ('s \<Rightarrow> 't \<Rightarrow> 't option) \<Rightarrow> ('t \<Rightarrow> 'o)
   \<Rightarrow> ('o, 't, 's, 'op) subgraph \<Rightarrow> ('o, 't, 's, 'op) subgraph \<Rightarrow> bool" where
  "sg_propagated leo le ri to_outer sg sg' \<longleftrightarrow>
     (let tr = sg_pointstamp_tracker sg; tr' = sg_pointstamp_tracker sg'; final = sg_final_pointstamp sg;
          sp = sg_shared_progress sg; sp' = sg_shared_progress sg' in
      (\<forall>l \<in> tr_locs tr. (\<forall>t. tr_buffered tr' l t = 0 \<and> ma_count (tr_pts tr' l) t
            = ma_count (tr_pts tr l) t + tr_buffered tr l t + (if loc_node l = 0 then 0 else cb_count final (l, t)))
         \<and> set (ma_frontier (tr_imp tr' l)) = minimals le (reach_times ri tr' l))
      \<and> (\<forall>i < length (sg_children sg). \<forall>p < ch_inputs (sg_children sg ! i). \<forall>t.
           cb_count (sp_frontiers (ch_shared_progress (sg_children sg' ! i)) ! p) t
           = cb_count (sp_frontiers (ch_shared_progress (sg_children sg ! i)) ! p) t
             + of_bool (t \<in> set (ma_frontier (tr_imp tr' (new_target i p)))) - of_bool (t \<in> set (ma_frontier (tr_imp tr (new_target i p)))))
      \<and> (\<forall>p < sg_inputs sg. \<forall>x. cb_count (sp_consumeds sp' ! p) x
           = cb_count (sp_consumeds sp ! p) x - outer_count to_outer (\<lambda>t. cb_count final (new_source 0 p, t)) x)
      \<and> (\<forall>k < sg_outputs sg.
           set (ma_frontier (sg_output_capabilities sg' ! k)) = minimals leo (to_outer ` scope_times ri tr' k)
           \<and> (\<forall>x. cb_count (sp_produceds sp' ! k) x
                 = cb_count (sp_produceds sp ! k) x + outer_count to_outer (\<lambda>t. cb_count final (new_target 0 k, t)) x
               \<and> cb_count (sp_internals sp' ! k) x = cb_count (sp_internals sp ! k) x
                   + of_bool (x \<in> set (ma_frontier (sg_output_capabilities sg' ! k)))
                   - of_bool (x \<in> set (ma_frontier (sg_output_capabilities sg ! k))))))"

lemma upd_count_scope:
  "upd_count (map (\<lambda>((l, t), d). (to_outer t, d)) (filter (\<lambda>u. fst (fst u) = l) (fst (cb_drain b)))) x
   = outer_count to_outer (\<lambda>t. cb_count b (l, t)) x"
proof -
  let ?us = "map (\<lambda>((l, t), d). (t, d)) (filter (\<lambda>u. fst (fst u) = l) (fst (cb_drain b)))"
  have "map (\<lambda>((l, t), d). (to_outer t, d)) (filter (\<lambda>u. fst (fst u) = l) (fst (cb_drain b))) = map (\<lambda>(t, d). (to_outer t, d)) ?us"
    by (simp add: comp_def split_beta)
  moreover have "upd_count ?us = (\<lambda>t. cb_count b (l, t))" by (rule ext) (simp add: upd_count_at_key)
  ultimately show ?thesis by (simp only: upd_count_map_key)
qed

lemma outer_projection:
  assumes bs: "bounded_summary le sle dflt ri fb" and po: "timestamp_order leo"
    and mono: "\<And>a b. le a b \<Longrightarrow> leo (to_outer a) (to_outer b)"
    and tr: "tr_inv le ri tr" "tr_summarized sle le ri tr"
    and ma: "ma_inv leo m" "\<And>x. ma_count m x = outer_count to_outer (tr_projection ri tr k) x"
  shows "set (ma_frontier m) = minimals leo (to_outer ` scope_times ri tr k)"
proof -
  have ps: "path_summary le sle dflt ri fb" by (rule advancing_summary.axioms(1) [OF bounded_summary.axioms(1) [OF bs]])
  have pos: "outer_count to_outer (tr_projection ri tr k) x > 0 \<longleftrightarrow> x \<in> to_outer ` {t. tr_projection ri tr k t > 0}" for x
    by (rule outer_count_pos [OF finite_projection projection_nonneg])
  have "{x. ma_count m x > 0} = to_outer ` {u. tr_projection ri tr k u > 0}" unfolding ma(2) pos by simp
  then have "set (ma_frontier m) = minimals leo (to_outer ` {u. tr_projection ri tr k u > 0})" using ma(1) by (simp add: ma_inv_def)
  also have "\<dots> = minimals leo (to_outer ` scope_times ri tr k)"
  proof (rule partial_order_laws.minimals_cover [OF timestamp_order.axioms(1) [OF po]])
    show "to_outer ` {u. tr_projection ri tr k u > 0} \<subseteq> to_outer ` scope_times ri tr k"
      by (rule image_mono [OF path_summary.projection_sound [OF ps tr]])
    fix y assume "y \<in> to_outer ` scope_times ri tr k"
    then obtain u where u: "u \<in> scope_times ri tr k" "y = to_outer u" by blast
    from path_summary.projection_covers [OF ps tr u(1)] mono u(2)
    show "\<exists>x \<in> to_outer ` {u. tr_projection ri tr k u > 0}. leo x y" by blast
  qed
  finally show ?thesis .
qed

text \<open>The stages: what is known of the scope goes to its parent and to the tracker;\<close>

lemma commit_stage:
  assumes shape: "sg_shape_ok sg" and batch: "batch_ok (sg_pointstamp_tracker sg) (sg_final_pointstamp sg)"
  defines "us \<equiv> fst (cb_drain (sg_final_pointstamp sg))" and "sp \<equiv> sg_shared_progress sg"
  shows "\<exists>cs ps. commit_pointstamps to_outer us (sp, sg_pointstamp_tracker sg)
      = Some (sp\<lparr>sp_consumeds := cs, sp_produceds := ps\<rparr>, fold (\<lambda>(l, t, d). tracker_update l t d)
          (map (\<lambda>((l, t), d). (l, t, d)) (filter (\<lambda>u. loc_node (fst (fst u)) \<noteq> 0) us)) (sg_pointstamp_tracker sg))
    \<and> length cs = sg_inputs sg \<and> length ps = sg_outputs sg
    \<and> (\<forall>p < sg_inputs sg. \<forall>x. cb_count (cs ! p) x = cb_count (sp_consumeds sp ! p) x
          - outer_count to_outer (\<lambda>t. cb_count (sg_final_pointstamp sg) (new_source 0 p, t)) x)
    \<and> (\<forall>p < sg_outputs sg. \<forall>x. cb_count (ps ! p) x = cb_count (sp_produceds sp ! p) x
          + outer_count to_outer (\<lambda>t. cb_count (sg_final_pointstamp sg) (new_target 0 p, t)) x)"
proof -
  note locs = sg_shape_locs [OF shape]
  have lens: "ch_outputs (sg_children sg ! 0) = sg_inputs sg" "ch_inputs (sg_children sg ! 0) = sg_outputs sg"
    "length (sp_consumeds sp) = sg_inputs sg" "length (sp_produceds sp) = sg_outputs sg"
    using shape by (simp_all add: sg_shape_ok_def sp_def Let_def)
  have "\<forall>u \<in> set us. \<forall>p. (fst (fst u) = new_source 0 p \<longrightarrow> p < length (sp_consumeds sp))
      \<and> (fst (fst u) = new_target 0 p \<longrightarrow> p < length (sp_produceds sp))"
  proof
    fix u assume "u \<in> set us"
    then have "fst (fst u) \<in> tr_locs (sg_pointstamp_tracker sg)" using drain_ok [OF batch] by (simp add: us_def)
    then show "\<forall>p. (fst (fst u) = new_source 0 p \<longrightarrow> p < length (sp_consumeds sp))
      \<and> (fst (fst u) = new_target 0 p \<longrightarrow> p < length (sp_produceds sp))" using locs(1,2) lens by auto
  qed
  from commit_pointstamps_ok [OF this, where to_outer = to_outer and tr = "sg_pointstamp_tracker sg"] show ?thesis
    unfolding us_def upd_count_scope lens(3,4) by (elim exE conjE, intro exI conjI) simp_all
qed

text \<open>the changes of frontiers go to the children, which are woken or considered for shutdown;\<close>

lemma deliver_stage:
  assumes shape: "sg_shape_ok sg" and act: "sg_active_ok sg"
    and tr: "tr_shape tr' = tr_shape (sg_pointstamp_tracker sg)" "pushed_locs tr' \<subseteq> tr_locs (sg_pointstamp_tracker sg)"
  defines "pu \<equiv> fst (cb_drain (tr_pushed_changes tr'))"
  shows "\<exists>chs ta ms ta'. deliver_pushed pu (sg_children sg, sg_temp_active sg, sg_maybe_shutdown sg) = Some (chs, ta, ms)
    \<and> consider_shutdown tr' (remdups_adj (sort ms)) ta = Some ta'
    \<and> list_all2 told (sg_children sg) chs \<and> sorted ta' \<and> (\<forall>i \<in> set ta'. i < length (sg_children sg))
    \<and> (\<forall>i < length (sg_children sg). \<forall>p < ch_inputs (sg_children sg ! i). \<forall>t.
        cb_count (sp_frontiers (ch_shared_progress (chs ! i)) ! p) t
        = cb_count (sp_frontiers (ch_shared_progress (sg_children sg ! i)) ! p) t + cb_count (tr_pushed_changes tr') (new_target i p, t))"
proof -
  note locs = sg_shape_locs [OF shape]
  have kids: "child_ok i (sg_children sg ! i)" if "i < length (sg_children sg)" for i
    using shape that by (simp add: sg_shape_ok_def Let_def)
  have pu: "fst (fst u) \<in> tr_locs (sg_pointstamp_tracker sg)" if "u \<in> set pu" for u
    using drain_keys [of u "tr_pushed_changes tr'"] that tr(2) by (auto simp: pu_def pushed_locs_def)
  have "\<forall>u \<in> set pu. \<forall>i p. fst (fst u) = new_target i p \<longrightarrow>
      i < length (sg_children sg) \<and> p < length (sp_frontiers (ch_shared_progress (sg_children sg ! i)))"
    using pu locs(1) kids by (metis child_ok_def)
  from deliver_pushed_ok [OF this, of "sg_temp_active sg" "sg_maybe_shutdown sg"] obtain chs ta ms where
    d: "deliver_pushed pu (sg_children sg, sg_temp_active sg, sg_maybe_shutdown sg) = Some (chs, ta, ms)"
      "list_all2 told (sg_children sg) chs" "sorted (sg_temp_active sg) \<longrightarrow> sorted ta"
      "set ta = set (sg_temp_active sg) \<union> {i. \<exists>u \<in> set pu. \<exists>p. fst (fst u) = new_target i p \<and> ch_notify (sg_children sg ! i)}"
      "set ms = set (sg_maybe_shutdown sg) \<union> (\<lambda>u. loc_node (fst (fst u))) ` set pu"
      "\<forall>i < length (sg_children sg). \<forall>p < length (sp_frontiers (ch_shared_progress (sg_children sg ! i))). \<forall>t.
        cb_count (sp_frontiers (ch_shared_progress (chs ! i)) ! p) t
        = cb_count (sp_frontiers (ch_shared_progress (sg_children sg ! i)) ! p) t + upd_count pu (new_target i p, t)"
    by (elim exE conjE) (rule that; assumption)
  have ms: "i < length (sg_children sg)" if "i \<in> set ms" for i
    using that d(5) act pu locs(3) by (auto simp: sg_active_ok_def)
  have "length (tr_per_operator tr') = length (sg_children sg)"
    using arg_cong [OF tr(1), of length] locs(4) by (simp add: tr_shape_def)
  then have "\<forall>i \<in> set (remdups_adj (sort ms)). i < length (tr_per_operator tr')" using ms by simp
  from consider_shutdown_ok [OF this, of ta] obtain ta' where
    e: "consider_shutdown tr' (remdups_adj (sort ms)) ta = Some ta'" "sorted ta \<longrightarrow> sorted ta'"
      "set ta' \<subseteq> set ta \<union> set ms" by auto
  have "i < length (sg_children sg)" if "i \<in> set ta'" for i
  proof -
    from that e(3) d(4) consider "i \<in> set (sg_temp_active sg)" | "i \<in> set ms"
      | u p where "u \<in> set pu" "fst (fst u) = new_target i p" by auto
    then show ?thesis
    proof cases
      case 3
      then show ?thesis using pu [of u] locs(1) by simp
    qed (use act ms in \<open>auto simp: sg_active_ok_def\<close>)
  qed
  moreover have "sorted ta'" using e(2) d(3) act by (simp add: sg_active_ok_def)
  moreover have "upd_count pu (new_target i p, x) = cb_count (tr_pushed_changes tr') (new_target i p, x)" for i p x by (simp add: pu_def)
  ultimately show ?thesis using d(1,2,6) e(1) kids
    by (intro exI [of _ chs] exI [of _ ta] exI [of _ ms] exI [of _ ta']) (simp add: child_ok_def)
qed

text \<open>and the changes at the outputs of the scope go to its parent.\<close>

lemma report_stage:
  assumes po: "timestamp_order leo" and outs: "sg_outputs_ok leo ri to_outer sg"
    and lens: "length (sp_internals sp) = sg_outputs sg" "length (tr_output_changes tr') = sg_outputs sg"
    and changes: "\<forall>k < sg_outputs sg. \<forall>u. cb_count (tr_output_changes tr' ! k) u
        = tr_projection ri tr' k u - tr_projection ri (sg_pointstamp_tracker sg) k u"
  shows "\<exists>ints caps'. report_internals leo to_outer 0 (sp_internals sp) (tr_output_changes tr', sg_output_capabilities sg)
        = Some (ints, replicate (sg_outputs sg) cb_new, caps')
    \<and> length ints = sg_outputs sg \<and> length caps' = sg_outputs sg
    \<and> (\<forall>k < sg_outputs sg. ma_inv leo (caps' ! k) \<and> (\<forall>x. ma_count (caps' ! k) x = outer_count to_outer (tr_projection ri tr' k) x
          \<and> cb_count (ints ! k) x = cb_count (sp_internals sp ! k) x
              + of_bool (x \<in> set (ma_frontier (caps' ! k))) - of_bool (x \<in> set (ma_frontier (sg_output_capabilities sg ! k)))))"
proof -
  have caps: "length (sg_output_capabilities sg) = sg_outputs sg" "\<forall>k < length (sg_output_capabilities sg). ma_inv leo (sg_output_capabilities sg ! k)"
      "\<And>k x. k < sg_outputs sg \<Longrightarrow> ma_count (sg_output_capabilities sg ! k) x = outer_count to_outer (tr_projection ri (sg_pointstamp_tracker sg) k) x"
    using outs by (simp_all add: sg_outputs_ok_def Let_def)
  have "0 + length (sp_internals sp) \<le> length (tr_output_changes tr')" "length (sg_output_capabilities sg) = length (tr_output_changes tr')"
    by (simp_all add: lens caps(1))
  from report_internals_ok [OF po this caps(2), of to_outer] obtain ints ocs caps' where
    r: "report_internals leo to_outer 0 (sp_internals sp) (tr_output_changes tr', sg_output_capabilities sg) = Some (ints, ocs, caps')"
      "length ints = sg_outputs sg" "length ocs = sg_outputs sg" "length caps' = sg_outputs sg"
      "\<And>k. k < sg_outputs sg \<Longrightarrow> ma_inv leo (caps' ! k)" "\<And>k. k < sg_outputs sg \<Longrightarrow> ocs ! k = cb_new"
      "\<And>k x. k < sg_outputs sg \<Longrightarrow> ma_count (caps' ! k) x = ma_count (sg_output_capabilities sg ! k) x + outer_count to_outer (cb_count (tr_output_changes tr' ! k)) x"
      "\<And>k x. k < sg_outputs sg \<Longrightarrow> cb_count (ints ! k) x = cb_count (sp_internals sp ! k) x
            + of_bool (x \<in> set (ma_frontier (caps' ! k))) - of_bool (x \<in> set (ma_frontier (sg_output_capabilities sg ! k)))"
    unfolding lens caps(1) by auto
  have "ma_count (caps' ! k) x = outer_count to_outer (tr_projection ri tr' k) x" if k: "k < sg_outputs sg" for k x
  proof -
    have "tr_projection ri tr' k = (\<lambda>u. tr_projection ri (sg_pointstamp_tracker sg) k u + cb_count (tr_output_changes tr' ! k) u)"
      using changes k by (simp add: fun_eq_iff)
    then have "outer_count to_outer (tr_projection ri tr' k) x
        = outer_count to_outer (tr_projection ri (sg_pointstamp_tracker sg) k) x + outer_count to_outer (cb_count (tr_output_changes tr' ! k)) x"
      using outer_count_add [OF finite_projection finite_cb_count] by simp
    then show ?thesis using r(7) [OF k] caps(3) [OF k] by simp
  qed
  moreover have "ocs = replicate (sg_outputs sg) cb_new" using r(3,6) by (simp add: list_eq_iff_nth_eq)
  ultimately show ?thesis using r(1,2,4,5,8) by (intro exI [of _ ints] exI [of _ caps']) simp
qed

lemma propagate_pointstamps_ok:
  assumes bs: "bounded_summary le sle dflt ri fb" and po: "timestamp_order leo"
    and mono: "\<And>a b. le a b \<Longrightarrow> leo (to_outer a) (to_outer b)"
    and inv: "sg_inv leo le sle dflt ri to_outer sg"
  shows "\<exists>sg'. propagate_pointstamps leo le ri to_outer sg = Some sg' \<and> sg_inv leo le sle dflt ri to_outer sg'
    \<and> sg_propagated leo le ri to_outer sg sg' \<and> list_all2 told (sg_children sg) (sg_children sg')
    \<and> sg_final_pointstamp sg' = cb_new \<and> sg_local_pointstamp sg' = sg_local_pointstamp sg
    \<and> sg_path sg' = sg_path sg \<and> sg_progcaster sg' = sg_progcaster sg \<and> sg_input_messages sg' = sg_input_messages sg
    \<and> sg_progress_mode sg' = sg_progress_mode sg \<and> sg_scope_summary sg' = sg_scope_summary sg
    \<and> sg_incomplete sg' = sg_incomplete sg"
proof -
  define tr us sp where "tr = sg_pointstamp_tracker sg" and "us = fst (cb_drain (sg_final_pointstamp sg))" and "sp = sg_shared_progress sg"
  have ok: "sg_shape_ok sg" "sg_tracker_ok le sle dflt ri sg" "sg_outputs_ok leo ri to_outer sg" "sg_pointstamps_ok sg"
    "sg_active_ok sg" "sg_incomplete_ok sg" using inv by (auto simp: sg_inv_def)
  then have trk: "tr_inv le ri tr" "tr_accepted dflt tr" "tr_buffers_ok tr" "tr_summarized sle le ri tr"
      "tr_pushed_changes tr = cb_new" "tr_output_changes tr = replicate (sg_outputs sg) cb_new"
    and batch: "batch_ok tr (sg_local_pointstamp sg)" "batch_ok tr (sg_final_pointstamp sg)"
    by (simp_all add: sg_tracker_ok_def sg_pointstamps_ok_def tr_def Let_def)
  have li: "length (sp_internals sp) = sg_outputs sg" using ok(1) by (simp add: sg_shape_ok_def sp_def Let_def)
  define tr0 where "tr0 = fold (\<lambda>(l, t, d). tracker_update l t d)
      (map (\<lambda>((l, t), d). (l, t, d)) (filter (\<lambda>u. loc_node (fst (fst u)) \<noteq> 0) us)) tr"
  obtain cs ps where
    c: "commit_pointstamps to_outer us (sp, tr) = Some (sp\<lparr>sp_consumeds := cs, sp_produceds := ps\<rparr>, tr0)"
      "length cs = sg_inputs sg" "length ps = sg_outputs sg"
      "\<And>p x. p < sg_inputs sg \<Longrightarrow> cb_count (cs ! p) x = cb_count (sp_consumeds sp ! p) x
          - outer_count to_outer (\<lambda>t. cb_count (sg_final_pointstamp sg) (new_source 0 p, t)) x"
      "\<And>p x. p < sg_outputs sg \<Longrightarrow> cb_count (ps ! p) x = cb_count (sp_produceds sp ! p) x
          + outer_count to_outer (\<lambda>t. cb_count (sg_final_pointstamp sg) (new_target 0 p, t)) x"
    using commit_stage [OF ok(1) batch(2) [unfolded tr_def], of to_outer, folded us_def sp_def tr_def, folded tr0_def] by blast
  obtain tr' where t: "tracker_propagate_all le ri tr0 = Some tr'" "tr_inv le ri tr'" "tr_accepted dflt tr'" "tr_buffers_ok tr'"
    "tr_summarized sle le ri tr'" "tr_shape tr' = tr_shape tr" "tr_edges tr' = tr_edges tr" "pushed_locs tr' \<subseteq> tr_locs tr"
    "length (tr_output_changes tr') = sg_outputs sg"
    "\<forall>l \<in> tr_locs tr. \<forall>t. tr_buffered tr' l t = 0"
    "\<forall>l \<in> tr_locs tr. \<forall>t. ma_count (tr_pts tr' l) t = ma_count (tr_pts tr l) t + tr_buffered tr l t
        + (if loc_node l = 0 then 0 else cb_count (sg_final_pointstamp sg) (l, t))"
    "\<forall>l \<in> tr_locs tr. set (ma_frontier (tr_imp tr' l)) = minimals le (reach_times ri tr' l)"
    "\<forall>l \<in> tr_locs tr. \<forall>t. cb_count (tr_pushed_changes tr') (l, t)
        = of_bool (t \<in> set (ma_frontier (tr_imp tr' l))) - of_bool (t \<in> set (ma_frontier (tr_imp tr l)))"
    "\<forall>k < sg_outputs sg. \<forall>u. cb_count (tr_output_changes tr' ! k) u = tr_projection ri tr' k u - tr_projection ri tr k u"
    by (rule tracker_stage [OF bs trk batch(2) tr0_def [unfolded us_def]]) (rule that; assumption)
  obtain chs ta ms ta' where
    d: "deliver_pushed (fst (cb_drain (tr_pushed_changes tr'))) (sg_children sg, sg_temp_active sg, sg_maybe_shutdown sg) = Some (chs, ta, ms)"
      "consider_shutdown tr' (remdups_adj (sort ms)) ta = Some ta'"
      "list_all2 told (sg_children sg) chs" "sorted ta'" "\<forall>i \<in> set ta'. i < length (sg_children sg)"
      "\<forall>i < length (sg_children sg). \<forall>p < ch_inputs (sg_children sg ! i). \<forall>t.
        cb_count (sp_frontiers (ch_shared_progress (chs ! i)) ! p) t
        = cb_count (sp_frontiers (ch_shared_progress (sg_children sg ! i)) ! p) t + cb_count (tr_pushed_changes tr') (new_target i p, t)"
    using deliver_stage [OF ok(1,5) t(6,8) [unfolded tr_def]] by blast
  obtain ints caps' where
    r: "report_internals leo to_outer 0 (sp_internals sp) (tr_output_changes tr', sg_output_capabilities sg)
        = Some (ints, replicate (sg_outputs sg) cb_new, caps')" "length ints = sg_outputs sg" "length caps' = sg_outputs sg"
      "\<And>k. k < sg_outputs sg \<Longrightarrow> ma_inv leo (caps' ! k)"
      "\<And>k x. k < sg_outputs sg \<Longrightarrow> ma_count (caps' ! k) x = outer_count to_outer (tr_projection ri tr' k) x"
      "\<And>k x. k < sg_outputs sg \<Longrightarrow> cb_count (ints ! k) x = cb_count (sp_internals sp ! k) x
            + of_bool (x \<in> set (ma_frontier (caps' ! k))) - of_bool (x \<in> set (ma_frontier (sg_output_capabilities sg ! k)))"
    using report_stage [OF po ok(3) li t(9,14) [unfolded tr_def]] by blast
  define sg' where "sg' = sg\<lparr>sg_final_pointstamp := cb_new,
      sg_shared_progress := sp\<lparr>sp_consumeds := cs, sp_produceds := ps, sp_internals := ints\<rparr>,
      sg_pointstamp_tracker := tr'\<lparr>tr_pushed_changes := cb_new, tr_output_changes := replicate (sg_outputs sg) cb_new\<rparr>,
      sg_children := chs, sg_temp_active := ta', sg_maybe_shutdown := [], sg_output_capabilities := caps'\<rparr>"
  have run: "propagate_pointstamps leo le ri to_outer sg = Some sg'"
    using c(1) t(1) d(1,2) r(1)
    by (simp add: propagate_pointstamps_def us_def tr_def sp_def sg'_def split_beta Let_def)
  have dr: "length (replicate (sg_outputs sg) cb_new) = length (tr_output_changes tr')" by (simp add: t(9))
  note td = tr_drained [where tr = tr' and pc = cb_new and ocs = "replicate (sg_outputs sg) cb_new"]
  have "sg_tracker_ok le sle dflt ri sg'"
    unfolding sg_tracker_ok_def Let_def sg'_def using t(2-5) td(8-10) td(11) [OF dr] by simp
  moreover have "sg_shape_ok sg'"
    using ok(1) told_maps [OF d(3)] told_child_ok told_sel(2,3) t(6,7) c(2,3) r(2)
    unfolding sg_shape_ok_def Let_def sg'_def sp_def tr_def by fastforce
  moreover have "sg_outputs_ok leo ri to_outer sg'"
    unfolding sg_outputs_ok_def using r(3-5) td(7) by (simp add: sg'_def)
  moreover have "sg_pointstamps_ok sg'"
    using batch(1) td(1) tr_locs_cong [OF t(6)] by (simp add: sg_pointstamps_ok_def sg'_def batch_ok_def) (simp add: cb_new_def)
  moreover have "sg_active_ok sg'" using d(4,5) ok(5) told_maps(3) [OF d(3)] by (simp add: sg_active_ok_def sg'_def)
  moreover have "sg_incomplete_ok sg'" using ok(6) by (simp add: sg_incomplete_ok_def sg'_def)
  ultimately have inv': "sg_inv leo le sle dflt ri to_outer sg'" by (simp add: sg_inv_def)
  have out: "set (ma_frontier (caps' ! k)) = minimals leo (to_outer ` scope_times ri tr' k)" if "k < sg_outputs sg" for k
    by (rule outer_projection [OF bs po mono t(2,5) r(4) [OF that] r(5) [OF that]])
  have "sg_propagated leo le ri to_outer sg sg'"
    unfolding sg_propagated_def Let_def using sg_shape_locs(1) [OF ok(1), folded tr_def]
    by (simp add: sg'_def td(2-6) tr_def [symmetric] sp_def [symmetric] t(10-13) d(6) c(4,5) r(6) out)
  with run inv' d(3) show ?thesis by (intro exI [of _ sg']) (simp add: sg'_def)
qed

end
