(* ===== verification/Subgraph_Build.thy ===== *)
theory Subgraph_Build
  imports Subgraph_Propagate
begin

text \<open>
  \<open>SubgraphBuilder::build\<close> of \<^verbatim>\<open>timely/src/progress/subgraph.rs\<close>: a subgraph that was
  put together from well-described operators and edges between existing ports starts in the
  invariant.
\<close>

section \<open>The topology\<close>

definition child_fresh :: "('t, 's, 'op) child \<Rightarrow> bool" where
  "child_fresh c \<longleftrightarrow> child_ok (ch_index c) c \<and> ch_edges c = replicate (ch_outputs c) []
     \<and> wf_summary (ch_inputs c) (ch_outputs c) (ch_internal_summary c)"

lemma add_children_ok:
  assumes "wf_builder b" and "n = length (bd_nodes b)" and "\<forall>c \<in> set cs. wf_summary (ch_inputs c) (ch_outputs c) (ch_internal_summary c)"
  shows "\<exists>b'. add_children n cs b = Some b' \<and> wf_builder b' \<and> length (bd_nodes b') = length (bd_nodes b) + length cs
    \<and> bd_shape b' = bd_shape b @ map (\<lambda>c. (ch_inputs c, ch_outputs c)) cs
    \<and> bd_edges b' = bd_edges b @ map (\<lambda>c. replicate (ch_outputs c) []) cs"
  using assms
proof (induction cs arbitrary: n b)
  case (Cons c cs)
  have "wf_summary (ch_inputs c) (ch_outputs c) (ch_internal_summary c)" using Cons.prems(3) by simp
  from wf_add_node [OF Cons.prems(1) this] obtain b1 where
    1: "builder_add_node n (ch_inputs c) (ch_outputs c) (ch_internal_summary c) b = Some b1" "wf_builder b1"
      "length (bd_nodes b1) = Suc n" "bd_shape b1 = bd_shape b @ [(ch_inputs c, ch_outputs c)]"
      "bd_edges b1 = bd_edges b @ [replicate (ch_outputs c) []]" unfolding Cons.prems(2) by blast
  from Cons.IH [OF 1(2), of "Suc n"] Cons.prems(2,3) 1 show ?case by auto
qed simp

text \<open>An edge between ports that exist.\<close>

definition edge_fits :: "(nat \<times> nat) list \<Rightarrow> source \<times> target \<Rightarrow> bool" where
  "edge_fits shape e \<longleftrightarrow> src_node (fst e) < length shape \<and> src_port (fst e) < snd (shape ! src_node (fst e))
     \<and> tgt_node (snd e) < length shape \<and> tgt_port (snd e) < fst (shape ! tgt_node (snd e))"

text \<open>A child that differs at most in its outgoing edges.\<close>

definition wired :: "('t, 's, 'op) child \<Rightarrow> ('t, 's, 'op) child \<Rightarrow> bool" where
  "wired c c' \<longleftrightarrow> (\<exists>es. length es = length (ch_edges c) \<and> c' = c\<lparr>ch_edges := es\<rparr>)"

lemma wired_refl: "wired c c"
  unfolding wired_def by (rule exI [of _ "ch_edges c"]) simp

lemma wired_sel:
  assumes "wired c c'"
  shows "ch_inputs c' = ch_inputs c" "ch_outputs c' = ch_outputs c"
  using assms by (auto simp: wired_def)

lemma wired_trans: "wired a b \<Longrightarrow> wired b c \<Longrightarrow> wired a c"
  by (auto simp: wired_def)

lemma add_edges_ok:
  assumes "wf_builder b" and "bd_edges b = map ch_edges cs" and "\<forall>e \<in> set es. edge_fits (bd_shape b) e"
  shows "\<exists>cs' b'. add_edges es (cs, b) = Some (cs', b') \<and> wf_builder b' \<and> bd_nodes b' = bd_nodes b \<and> bd_shape b' = bd_shape b
    \<and> bd_edges b' = map ch_edges cs' \<and> list_all2 wired cs cs'"
  using assms
proof (induction es arbitrary: cs b)
  case Nil
  then show ?case by (auto simp: list.rel_refl wired_refl)
next
  case (Cons e es)
  obtain s t where e: "e = (s, t)" by (cases e)
  have len: "length (bd_shape b) = length (bd_nodes b)" "length (bd_edges b) = length (bd_nodes b)"
    using Cons.prems(1) by (auto simp: wf_builder_def)
  have fits: "src_node s < length (bd_nodes b)" "src_port s < snd (bd_shape b ! src_node s)"
    "tgt_node t < length (bd_nodes b)" "tgt_port t < fst (bd_shape b ! tgt_node t)"
    using Cons.prems(3) by (simp_all add: e edge_fits_def len)
  from wf_add_edge [OF Cons.prems(1) fits] obtain b1 where
    1: "builder_add_edge s t b = Some b1" "wf_builder b1" "bd_nodes b1 = bd_nodes b" "bd_shape b1 = bd_shape b"
      "bd_edges b1 = (bd_edges b)[src_node s := (bd_edges b ! src_node s)[src_port s := bd_edges b ! src_node s ! src_port s @ [t]]]"
    by blast
  have n: "src_node s < length cs" using fits(1) len(2) Cons.prems(2) by simp
  let ?c = "cs ! src_node s"
  have es: "bd_edges b ! src_node s = ch_edges ?c" using Cons.prems(2) n by simp
  have p: "src_port s < length (ch_edges ?c)"
    unfolding es [symmetric] using fits(1,2) Cons.prems(1) by (simp add: wf_builder_def)
  let ?c' = "?c\<lparr>ch_edges := (ch_edges ?c)[src_port s := ch_edges ?c ! src_port s @ [t]]\<rparr>"
  let ?cs = "cs[src_node s := ?c']"
  have "bd_edges b1 = map ch_edges ?cs" using 1(5) es Cons.prems(2) by (simp add: map_update)
  from Cons.IH [OF 1(2) this] Cons.prems(3) 1(3,4) obtain cs' b' where
    2: "add_edges es (?cs, b1) = Some (cs', b')" "wf_builder b'" "bd_nodes b' = bd_nodes b" "bd_shape b' = bd_shape b"
      "bd_edges b' = map ch_edges cs'" "list_all2 wired ?cs cs'" by auto
  have "wired ?c ?c'" unfolding wired_def by (rule exI, rule conjI [OF _ HOL.refl]) simp
  then have "list_all2 wired cs ?cs" using n by (auto simp: list_all2_conv_all_nth nth_list_update wired_refl)
  then have "list_all2 wired cs cs'" using 2(6) list_all2_trans [of wired wired wired cs ?cs cs'] wired_trans by blast
  moreover have "add_edges (e # es) (cs, b) = Some (cs', b')"
    using 2(1) 1(1) n p by (simp add: e vec_get_def)
  ultimately show ?case using 2(2-5) by blast
qed

section \<open>The tracker\<close>

lemma install_summaries_shape:
  "install_summaries ls (tr, bs) = Some (tr', bs') \<Longrightarrow> tr_shape tr' = tr_shape tr \<and> tr_nodes tr' = tr_nodes tr \<and> tr_edges tr' = tr_edges tr"
proof (induction ls arbitrary: tr bs)
  case (Cons x ls)
  obtain l summaries where x: "x = (l, summaries)" by (cases x)
  from Cons.prems obtain tr1 bs1 where "install_summaries ls (tr1, bs1) = Some (tr', bs')"
    "tr1 = tr \<or> (\<exists>p. tr_set tr l p = Some tr1)"
    by (auto simp: x bind_eq_Some_conv split: if_splits port.splits)
  moreover have "tr_shape tr1 = tr_shape tr \<and> tr_nodes tr1 = tr_nodes tr \<and> tr_edges tr1 = tr_edges tr" if "tr_set tr l p = Some tr1" for p
    using tr_set_shape [OF that] that by (auto simp: tr_set_def bind_eq_Some_conv)
  ultimately show ?case using Cons.IH by metis
qed auto

lemma allocate_shape:
  assumes "tracker_allocate_from hash_order sle dflt fb b = Some (tr, bs)"
  shows "tr_shape tr = bd_shape b"
proof -
  have "tr_shape (tracker_empty b n) = bd_shape b" for n
    by (simp add: tr_shape_def tracker_empty_def po_new_def split_beta comp_def)
  with assms show ?thesis
    by (auto simp: tracker_allocate_from_def bind_eq_Some_conv split_beta dest!: install_summaries_shape)
qed

section \<open>build\<close>

text \<open>
  What the scope's construction has to provide: children numbered from zero, each described
  with as many summaries and shared counters as it has ports, and edges between existing ports.
\<close>

definition sb_children_of :: "('o, 't, 's, 'op) subgraph_builder \<Rightarrow> ('t, 's, 'op) child list" where
  "sb_children_of sb = (sort_key ch_index (sb_children sb))
     [0 := child_empty (length (sb_output_capabilities sb)) (length (sb_input_messages sb))]"

definition sb_shape :: "('o, 't, 's, 'op) subgraph_builder \<Rightarrow> (nat \<times> nat) list" where
  "sb_shape sb = map (\<lambda>c. (ch_inputs c, ch_outputs c)) (sb_children_of sb)"

definition sb_ok :: "('o, 't, 's, 'op) subgraph_builder \<Rightarrow> bool" where
  "sb_ok sb \<longleftrightarrow> sb_children sb \<noteq> [] \<and> map ch_index (sort_key ch_index (sb_children sb)) = [0..<length (sb_children sb)]
     \<and> (\<forall>c \<in> set (sb_children sb). child_fresh c) \<and> (\<forall>e \<in> set (sb_edge_stash sb). edge_fits (sb_shape sb) e)
     \<and> (\<forall>m \<in> set (sb_output_capabilities sb). m = ma_new)"

text \<open>The topology that \<open>build\<close> hands to the reachability builder.\<close>

definition sb_topology :: "('o, 't, 's, 'op) subgraph_builder \<Rightarrow> (('t, 's, 'op) child list \<times> 's builder) option" where
  "sb_topology sb =
     (let children = sb_children_of sb; outputs = length (sb_output_capabilities sb) in
      do { b \<leftarrow> builder_add_node 0 outputs (length (sb_input_messages sb)) (replicate outputs pc_default) builder_new;
           b \<leftarrow> add_children 1 (tl children) b;
           add_edges (sb_edge_stash sb) (children, b) })"

lemma sb_topology_ok:
  assumes "sb_ok sb"
  shows "\<exists>cs b. sb_topology sb = Some (cs, b) \<and> wf_builder b \<and> bd_shape b = sb_shape sb \<and> bd_edges b = map ch_edges cs
    \<and> list_all2 wired (sb_children_of sb) cs \<and> bd_nodes b \<noteq> []"
proof -
  define ins outs where "ins = length (sb_input_messages sb)" and "outs = length (sb_output_capabilities sb)"
  let ?cs = "sb_children_of sb"
  have ne: "sort_key ch_index (sb_children sb) \<noteq> []" using assms by (metis sb_ok_def length_0_conv length_sort)
  then have cs: "?cs = child_empty outs ins # tl (sort_key ch_index (sb_children sb))"
    by (cases "sort_key ch_index (sb_children sb)") (simp_all add: sb_children_of_def ins_def outs_def)
  have "wf_summary outs ins (replicate outs (pc_default :: 'c port_connectivity))"
    by (auto simp: wf_summary_def pc_default_def pc_iter_ports_def)
  from wf_add_node [OF wf_builder_new this] obtain b0 where
    0: "builder_add_node 0 outs ins (replicate outs pc_default) (builder_new :: 'c builder) = Some b0" "wf_builder b0"
      "length (bd_nodes b0) = 1" "bd_shape b0 = [(outs, ins)]" "bd_edges b0 = [replicate ins []]"
    by (auto simp: builder_new_def)
  have fresh: "child_fresh c" if "c \<in> set (tl (sort_key ch_index (sb_children sb)))" for c
    using that assms list.set_sel(2) [OF ne] by (auto simp: sb_ok_def)
  then have "\<forall>c \<in> set (tl ?cs). wf_summary (ch_inputs c) (ch_outputs c) (ch_internal_summary c)" by (simp add: cs child_fresh_def)
  from add_children_ok [OF 0(2) _ this, of 1] 0(3) obtain b1 where
    1: "add_children 1 (tl ?cs) b0 = Some b1" "wf_builder b1" "bd_shape b1 = sb_shape sb" "length (bd_nodes b1) = Suc (length (tl ?cs))"
      "bd_edges b1 = [replicate ins []] @ map (\<lambda>c. replicate (ch_outputs c) []) (tl ?cs)"
    by (auto simp: 0(4,5) sb_shape_def cs child_empty_def)
  have "map (\<lambda>c. replicate (ch_outputs c) []) (tl ?cs) = map ch_edges (tl ?cs)"
    using fresh by (simp add: cs child_fresh_def)
  then have "bd_edges b1 = map ch_edges ?cs" using 1(5) by (simp add: cs child_empty_def)
  from add_edges_ok [OF 1(2) this, of "sb_edge_stash sb"] assms 1(3) obtain cs' b where
    2: "add_edges (sb_edge_stash sb) (?cs, b1) = Some (cs', b)" "wf_builder b" "bd_nodes b = bd_nodes b1" "bd_shape b = sb_shape sb"
      "bd_edges b = map ch_edges cs'" "list_all2 wired ?cs cs'" by (auto simp: sb_ok_def)
  have "sb_topology sb = Some (cs', b)" using 0(1) 1(1) 2(1) by (simp add: sb_topology_def ins_def outs_def)
  moreover have "bd_nodes b \<noteq> []" using 2(3) 1(4) by auto
  ultimately show ?thesis using 2 by blast
qed

lemma sb_build_eq:
  assumes "sb_ok sb"
  shows "sb_build hash_order sle dflt fb w mode sb av =
    do { (children, b) \<leftarrow> sb_topology sb;
         (warned, tracker, scope_summary) \<leftarrow> builder_build hash_order sle dflt fb b;
         Some (\<lparr>sg_path = sb_path sb, sg_inputs = length (sb_input_messages sb), sg_outputs = length (sb_output_capabilities sb),
                 sg_children = children, sg_incomplete = (replicate (length children) True)[0 := False],
                 sg_incomplete_count = length children - 1, sg_temp_active = [], sg_maybe_shutdown = [],
                 sg_input_messages = sb_input_messages sb, sg_output_capabilities = sb_output_capabilities sb,
                 sg_local_pointstamp = cb_new, sg_final_pointstamp = cb_new, sg_pointstamp_tracker = tracker,
                 sg_progcaster = progcaster_new w,
                 sg_shared_progress = sp_new (length (sb_input_messages sb)) (length (sb_output_capabilities sb)),
                 sg_scope_summary = scope_summary, sg_progress_mode = mode\<rparr>, av_activate (sb_path sb) av) }"
proof -
  let ?s = "sort_key ch_index (sb_children sb)"
  have m: "map ch_index ?s = [0..<length ?s]" and ne: "?s \<noteq> []"
    using assms by (auto simp: sb_ok_def) (metis length_0_conv length_sort)
  have "ch_index (?s ! i) = i" if "i < length ?s" for i using arg_cong [OF m, of "\<lambda>xs. xs ! i"] that by simp
  then have "list_all (\<lambda>(i, x). i = ch_index x) (enumerate 0 ?s)" by (auto simp: list_all_iff in_set_enumerate_eq)
  then show ?thesis using ne unfolding sb_build_def sb_topology_def sb_children_of_def Let_def by simp
qed

lemma sb_build_ok:
  fixes sb :: "('o::linorder, 't::linorder, 's, 'op) subgraph_builder"
  assumes bs: "bounded_summary le sle dflt ri fb" and po: "timestamp_order leo" and fin: "finite (UNIV :: 's set)"
    and perm: "\<And>ks. mset (hash_order ks) = mset ks" and ok: "sb_ok sb" and top: "sb_topology sb = Some (cs, b)"
    and uniq: "unique_sources (bd_edges b)" and ac: "builder_is_acyclic id dflt b = Some True"
  shows "\<exists>sg. sb_build hash_order sle dflt fb w mode sb av = Some (sg, av_activate (sb_path sb) av)
    \<and> sg_inv leo le sle dflt ri to_outer sg \<and> sg_children sg = cs \<and> tr_graph (sg_pointstamp_tracker sg) = b
    \<and> (\<forall>l \<in> tr_locs (sg_pointstamp_tracker sg). tr_pts (sg_pointstamp_tracker sg) l = ma_new \<and> tr_imp (sg_pointstamp_tracker sg) l = ma_new)
    \<and> (\<forall>l t. tr_buffered (sg_pointstamp_tracker sg) l t = 0)
    \<and> length (sg_scope_summary sg) = sg_inputs sg
    \<and> (\<forall>i < sg_inputs sg. summarizes le ri (sg_pointstamp_tracker sg) (new_source 0 i) (sg_scope_summary sg ! i))"
proof -
  define ins outs where "ins = length (sb_input_messages sb)" and "outs = length (sb_output_capabilities sb)"
  from sb_topology_ok [OF ok] top have b: "wf_builder b" "bd_shape b = sb_shape sb" "bd_edges b = map ch_edges cs"
    "list_all2 wired (sb_children_of sb) cs" "bd_nodes b \<noteq> []" by auto
  have ps: "path_summary le sle dflt ri fb" by (rule advancing_summary.axioms(1) [OF bounded_summary.axioms(1) [OF bs]])
  have ne: "sort_key ch_index (sb_children sb) \<noteq> []" using ok by (metis sb_ok_def length_0_conv length_sort)
  then have cs0: "sb_children_of sb = child_empty outs ins # tl (sort_key ch_index (sb_children sb))"
    by (cases "sort_key ch_index (sb_children sb)") (simp_all add: sb_children_of_def ins_def outs_def)
  have sh0: "bd_shape b ! 0 = (outs, ins)" by (simp add: b(2) sb_shape_def cs0 child_empty_def)
  from path_summary.allocate_from_ok [OF ps fin b(1,5) uniq perm] obtain tr :: "('t, 's) tracker" and ss where
    a: "tracker_allocate_from hash_order sle dflt fb b = Some (tr, ss)" "tr_graph tr = b" "tr_locs tr = builder_locs b"
      "tr_inv le ri tr" "tr_worklist tr = []" "tr_target_changes tr = cb_new" "tr_source_changes tr = cb_new"
      "tr_pushed_changes tr = cb_new" "tr_output_changes tr = replicate outs cb_new"
      "\<forall>l \<in> builder_locs b. tr_pts tr l = ma_new \<and> tr_imp tr l = ma_new" "tr_summarized sle le ri tr"
      "length ss = ins" "\<forall>i < length ss. summarizes le ri tr (new_source 0 i) (ss ! i)" unfolding sh0 by auto
  have ac': "builder_is_acyclic hash_order dflt b = Some True"
    using is_acyclic_iff [OF b(1) perm, of dflt] is_acyclic_iff [OF b(1), of id dflt] ac by simp
  define sg where "sg = \<lparr>sg_path = sb_path sb, sg_inputs = ins, sg_outputs = outs, sg_children = cs,
      sg_incomplete = (replicate (length cs) True)[0 := False], sg_incomplete_count = length cs - 1, sg_temp_active = [],
      sg_maybe_shutdown = [], sg_input_messages = sb_input_messages sb, sg_output_capabilities = sb_output_capabilities sb,
      sg_local_pointstamp = cb_new, sg_final_pointstamp = cb_new, sg_pointstamp_tracker = tr, sg_progcaster = progcaster_new w,
      sg_shared_progress = sp_new ins outs, sg_scope_summary = ss, sg_progress_mode = mode\<rparr>"
  have run: "sb_build hash_order sle dflt fb w mode sb av = Some (sg, av_activate (sb_path sb) av)"
    unfolding sb_build_eq [OF ok] by (simp add: top builder_build_def a(1) ac' sg_def ins_def outs_def)
  have wired: "cs \<noteq> []" "length cs = length (sb_children_of sb)" "\<And>i. i < length cs \<Longrightarrow> wired (sb_children_of sb ! i) (cs ! i)"
    using b(4) cs0 by (auto simp: list_all2_conv_all_nth)
  have m: "map ch_index (sort_key ch_index (sb_children sb)) = [0..<length (sort_key ch_index (sb_children sb))]"
    using ok by (simp add: sb_ok_def)
  have "child_ok i (sb_children_of sb ! i)" if i: "i < length cs" for i
  proof (cases i)
    case 0
    then show ?thesis by (simp add: cs0 child_ok_def child_empty_def sp_new_def)
  next
    case (Suc j)
    let ?c = "sort_key ch_index (sb_children sb) ! i"
    have l: "i < length (sort_key ch_index (sb_children sb))" using i wired(2) by (simp add: sb_children_of_def)
    have "ch_index ?c = i" using arg_cong [OF m, of "\<lambda>xs. xs ! i"] l by simp
    moreover have "child_fresh ?c" using ok nth_mem [OF l] by (simp add: sb_ok_def)
    moreover have "sb_children_of sb ! i = ?c" using Suc by (simp add: sb_children_of_def)
    ultimately show ?thesis by (simp add: child_fresh_def)
  qed
  then have child: "child_ok i (cs ! i)" if "i < length cs" for i
    using wired(3) [OF that] that by (auto simp: wired_def child_ok_def)
  have ports: "map (\<lambda>c. (ch_inputs c, ch_outputs c)) cs = sb_shape sb"
    using wired(2) wired_sel [OF wired(3)] by (auto simp: sb_shape_def list_eq_iff_nth_eq)
  have c0: "ch_outputs (cs ! 0) = ins" "ch_inputs (cs ! 0) = outs"
    using wired(1) wired(3) [of 0] by (auto simp: wired_def cs0 child_empty_def)
  have "tr_edges tr = bd_edges b" using arg_cong [OF a(2), of bd_edges] by (simp add: tr_graph_def)
  then have "sg_shape_ok sg"
    using wired(1) child c0 ports allocate_shape [OF a(1)] b(2,3)
    by (simp add: sg_shape_ok_def sg_def Let_def sp_new_def ins_def)
  moreover have "sg_tracker_ok le sle dflt ri sg"
  proof -
    have "tr_buffers_ok tr" by (simp add: tr_buffers_ok_def a(6,7)) (simp add: cb_new_def)
    then show ?thesis using a b(1) ac by (simp add: sg_tracker_ok_def sg_def Let_def tr_accepted_def)
  qed
  moreover have "sg_outputs_ok leo ri to_outer sg"
  proof -
    have "tr_projection ri tr k = (\<lambda>u. 0)" for k using a(3,10) by (simp add: fun_eq_iff tr_projection_def ma_new_def)
    moreover have "sb_output_capabilities sb ! k = ma_new" if "k < outs" for k
      using ok nth_mem [of k "sb_output_capabilities sb"] that by (simp add: sb_ok_def outs_def)
    ultimately show ?thesis using timestamp_order.ma_inv_new [OF po]
      by (simp add: sg_outputs_ok_def sg_def outs_def ma_count_def) (simp add: ma_new_def)
  qed
  moreover have "sg_pointstamps_ok sg" "sg_active_ok sg" by (simp_all add: sg_pointstamps_ok_def sg_active_ok_def sg_def)
  moreover have "sg_incomplete_ok sg" using wired(1) by (cases cs) (simp_all add: sg_incomplete_ok_def sg_def)
  ultimately have "sg_inv leo le sle dflt ri to_outer sg" by (simp add: sg_inv_def)
  moreover have "tr_buffered tr l t = 0" for l t by (simp add: tr_buffered_def a(6,7) split: port.split)
  ultimately show ?thesis using run a(2,3,10,12,13) by (intro exI [of _ sg]) (simp add: sg_def)
qed

end
