(* ===== verification/Subgraph_Schedule.thy ===== *)
theory Subgraph_Schedule
  imports Subgraph_Propagate
begin

text \<open>
  \<open>Subgraph::schedule\<close> of \<^verbatim>\<open>timely/src/progress/subgraph.rs\<close>: each of its steps keeps
  the invariant of the subgraph, the loop over active children visits each of them at most once
  and in increasing order, and progress statements are moved, never lost.
\<close>

section \<open>Frontier changes and message counts entering the scope\<close>

lemma accept_port_buffers:
  "fold (\<lambda>(time, value). tracker_update_source (Source 0 port) (g time) value) us tr
   = fold (\<lambda>(l, t, d). tracker_update l t d) (map (\<lambda>(time, value). (new_source 0 port, g time, value)) us) tr"
  by (induction us arbitrary: tr) (auto simp: tracker_update_def new_source_def)

lemma accept_frontier_eq:
  "sg_pointstamp_tracker (accept_frontier to_inner sg)
   = fold (\<lambda>(l, t, d). tracker_update l t d)
       (concat (map (\<lambda>(port, b). map (\<lambda>(time, value). (new_source 0 port, to_inner time, value)) (fst (cb_drain b)))
         (enumerate 0 (sp_frontiers (sg_shared_progress sg))))) (sg_pointstamp_tracker sg)"
proof -
  have "fold (\<lambda>(port, changes). fold (\<lambda>(time, value). tracker_update_source (Source 0 port) (to_inner time) value) (fst (cb_drain changes))) xs tr
      = fold (\<lambda>(l, t, d). tracker_update l t d)
       (concat (map (\<lambda>(port, b). map (\<lambda>(time, value). (new_source 0 port, to_inner time, value)) (fst (cb_drain b))) xs)) tr" for xs tr
    by (induction xs arbitrary: tr) (auto simp: accept_port_buffers)
  then show ?thesis by (simp add: accept_frontier_def Let_def)
qed

lemma accept_frontier_inv:
  assumes inv: "sg_inv leo le sle dflt ri to_outer sg"
  shows "sg_inv leo le sle dflt ri to_outer (accept_frontier to_inner sg)"
proof -
  let ?tr = "sg_pointstamp_tracker sg" and ?sg = "accept_frontier to_inner sg"
  define us where "us = concat (map (\<lambda>(port, b). map (\<lambda>(time, value). (new_source 0 port, to_inner time, value)) (fst (cb_drain b)))
         (enumerate 0 (sp_frontiers (sg_shared_progress sg))))"
  have shape: "sg_shape_ok sg" using inv by (simp add: sg_inv_def)
  have us: "\<forall>(l, t, d) \<in> set us. l \<in> tr_locs ?tr"
    using shape sg_shape_locs(2) [OF shape, of 0] by (auto simp: us_def in_set_enumerate_eq sg_shape_ok_def Let_def)
  have tr: "sg_pointstamp_tracker ?sg = fold (\<lambda>(l, t, d). tracker_update l t d) us ?tr"
    by (simp add: accept_frontier_eq us_def)
  obtain tc sc where f: "sg_pointstamp_tracker ?sg = ?tr\<lparr>tr_target_changes := tc, tr_source_changes := sc\<rparr>"
    using fold_update_buffers [of us ?tr] unfolding tr by blast
  have "tr_buffers_ok ?tr" using inv by (simp add: sg_inv_def sg_tracker_ok_def Let_def)
  then have buf: "tr_buffers_ok (sg_pointstamp_tracker ?sg)" unfolding tr using us by (rule tr_buffers_fold)
  have sm: "tr_summarized sle le ri (?tr\<lparr>tr_target_changes := tc, tr_source_changes := sc\<rparr>) = tr_summarized sle le ri ?tr"
    unfolding tr_summarized_def summarizes_def path_to_output_def
    using tr_reaches_cong [of "?tr\<lparr>tr_target_changes := tc, tr_source_changes := sc\<rparr>" ?tr ri] succs_cong by simp
  have pr: "tr_projection ri (?tr\<lparr>tr_target_changes := tc, tr_source_changes := sc\<rparr>) = tr_projection ri ?tr"
    by (simp add: fun_eq_iff tr_projection_def)
  have rest: "sg_inputs ?sg = sg_inputs sg" "sg_outputs ?sg = sg_outputs sg" "sg_children ?sg = sg_children sg"
    "sg_incomplete ?sg = sg_incomplete sg" "sg_incomplete_count ?sg = sg_incomplete_count sg" "sg_temp_active ?sg = sg_temp_active sg"
    "sg_maybe_shutdown ?sg = sg_maybe_shutdown sg" "sg_input_messages ?sg = sg_input_messages sg"
    "sg_output_capabilities ?sg = sg_output_capabilities sg" "sg_local_pointstamp ?sg = sg_local_pointstamp sg"
    "sg_final_pointstamp ?sg = sg_final_pointstamp sg" "length (sp_frontiers (sg_shared_progress ?sg)) = length (sp_frontiers (sg_shared_progress sg))"
    "sp_consumeds (sg_shared_progress ?sg) = sp_consumeds (sg_shared_progress sg)"
    "sp_internals (sg_shared_progress ?sg) = sp_internals (sg_shared_progress sg)"
    "sp_produceds (sg_shared_progress ?sg) = sp_produceds (sg_shared_progress sg)"
    by (simp_all add: accept_frontier_def Let_def)
  show ?thesis
    using inv buf unfolding sg_inv_def sg_shape_ok_def sg_tracker_ok_def sg_outputs_ok_def sg_pointstamps_ok_def
      sg_active_ok_def sg_incomplete_ok_def Let_def rest
    by (simp add: f sm pr batch_ok_def tr_accepted_def)
qed

text \<open>The targets of a child's edges are ports of the tracker.\<close>

lemma edge_targets:
  assumes shape: "sg_shape_ok sg" and tr: "tr_inv le ri (sg_pointstamp_tracker sg)"
    and i: "i < length (sg_children sg)" "p < ch_outputs (sg_children sg ! i)" and tg: "tg \<in> set (ch_edges (sg_children sg ! i) ! p)"
  shows "location_of_target tg \<in> tr_locs (sg_pointstamp_tracker sg)"
proof -
  let ?tr = "sg_pointstamp_tracker sg"
  have "new_source i p \<in> tr_locs ?tr" using sg_shape_locs(2) [OF shape] i by simp
  then obtain ss where ss: "tracker_succs ri ?tr (new_source i p) undefined = Some ss" "fst ` set ss \<subseteq> tr_locs ?tr"
    using tr unfolding tr_inv_def tr_wf_def by blast
  have "tr_edges ?tr ! i = ch_edges (sg_children sg ! i)" "length (tr_edges ?tr) = length (sg_children sg)"
    using shape i by (simp_all add: sg_shape_ok_def Let_def)
  with ss(1) i have "ss = map (\<lambda>t. (location_of_target t, undefined)) (ch_edges (sg_children sg ! i) ! p)"
    by (auto simp: tracker_succs_def new_source_def bind_eq_Some_conv)
  with ss(2) tg show ?thesis by (simp add: image_subset_iff)
qed

lemma batch_ok_fold:
  assumes "\<And>u b. u \<in> set us \<Longrightarrow> batch_ok tr b \<Longrightarrow> batch_ok tr (f u b)" and "batch_ok tr b"
  shows "batch_ok tr (fold f us b)"
  using assms by (induction us arbitrary: b) auto

text \<open>What one message counted at input \<open>p\<close> stands for: at the targets, and off the scope's source.\<close>

definition harvest_weight :: "('o, 't, 's, 'op) subgraph \<Rightarrow> location \<Rightarrow> nat \<Rightarrow> int" where
  "harvest_weight sg l p = int (count_list (map location_of_target (ch_edges (sg_children sg ! 0) ! p)) l) - of_bool (l = new_source 0 p)"

lemma harvest_counts_count:
  "cb_count (harvest_counts p targets us b) (l, t)
   = cb_count b (l, t) + upd_count us t * (int (count_list (map location_of_target targets) l) - of_bool (l = new_source 0 p))"
proof (induction us arbitrary: b)
  case (Cons u us)
  obtain x d where u: "u = (x, d)" by (cases u)
  have "harvest_counts p targets (u # us) b = harvest_counts p targets us
      (cb_update (new_source 0 p, x) (- d) (fold (\<lambda>tg. cb_update (location_of_target tg, x) d) targets b))"
    by (simp add: harvest_counts_def u)
  then show ?case by (simp add: Cons u fold_targets_count algebra_simps)
qed (simp add: harvest_counts_def)

lemma harvest_from_ok:
  assumes shape: "sg_shape_ok sg" and "distinct ps" and "\<forall>p \<in> set ps. p < sg_inputs sg"
    and tr: "tr_inv le ri (sg_pointstamp_tracker sg)" and "batch_ok (sg_pointstamp_tracker sg) (sg_local_pointstamp sg)"
  shows "\<exists>ms local. harvest_from ps sg = Some (sg\<lparr>sg_input_messages := ms, sg_local_pointstamp := local\<rparr>)
    \<and> length ms = sg_inputs sg \<and> (\<forall>p < sg_inputs sg. ms ! p = (if p \<in> set ps then cb_new else sg_input_messages sg ! p))
    \<and> batch_ok (sg_pointstamp_tracker sg) local
    \<and> (\<forall>l t. cb_count local (l, t) = cb_count (sg_local_pointstamp sg) (l, t)
        + (\<Sum>p \<leftarrow> ps. cb_count (sg_input_messages sg ! p) t * harvest_weight sg l p))"
  using assms(1-3,5) tr
proof (induction ps arbitrary: sg)
  case Nil
  then show ?case
    by (intro exI [of _ "sg_input_messages sg"] exI [of _ "sg_local_pointstamp sg"]) (simp add: sg_shape_ok_def Let_def)
next
  case (Cons p ps)
  have p: "p < sg_inputs sg" "p < length (sg_input_messages sg)" and ch: "sg_children sg \<noteq> []" "child_ok 0 (sg_children sg ! 0)"
    "ch_outputs (sg_children sg ! 0) = sg_inputs sg"
    using Cons.prems(1,3) by (auto simp: sg_shape_ok_def Let_def)
  then have e: "p < length (ch_edges (sg_children sg ! 0))" by (simp add: child_ok_def)
  define us where "us = fst (cb_drain (sg_input_messages sg ! p))"
  define tgs where "tgs = (if us = [] then [] else ch_edges (sg_children sg ! 0) ! p)"
  define loc1 where "loc1 = harvest_counts p tgs us (sg_local_pointstamp sg)"
  define sg1 where "sg1 = sg\<lparr>sg_input_messages := (sg_input_messages sg)[p := cb_new], sg_local_pointstamp := loc1\<rparr>"
  have run: "harvest_from (p # ps) sg = harvest_from ps sg1"
    using p ch e by (simp add: vec_get_def us_def tgs_def loc1_def sg1_def split_beta Let_def)
  have c1: "cb_count loc1 (l, t) = cb_count (sg_local_pointstamp sg) (l, t) + cb_count (sg_input_messages sg ! p) t * harvest_weight sg l p" for l t
  proof (cases "us = []")
    case True
    then have "cb_count (sg_input_messages sg ! p) t = 0" using cb_count_drain [of "sg_input_messages sg ! p" t] by (simp add: us_def)
    then show ?thesis using True by (simp add: loc1_def harvest_counts_def)
  qed (simp add: loc1_def tgs_def harvest_counts_count us_def harvest_weight_def)
  have "location_of_target tg \<in> tr_locs (sg_pointstamp_tracker sg)" if "tg \<in> set tgs" for tg
    using edge_targets [OF Cons.prems(1) Cons.prems(5), of 0 p tg] that ch p(1) by (auto simp: tgs_def split: if_splits)
  moreover have "new_source 0 p \<in> tr_locs (sg_pointstamp_tracker sg)"
    using sg_shape_locs(2) [OF Cons.prems(1), of 0 p] ch p(1) by simp
  ultimately have b1: "batch_ok (sg_pointstamp_tracker sg) loc1"
    unfolding loc1_def harvest_counts_def using Cons.prems(4)
    by (intro batch_ok_fold) (auto intro!: batch_ok_update batch_ok_fold split: prod.split)
  have s1: "sg_shape_ok sg1" using Cons.prems(1) by (simp add: sg1_def sg_shape_ok_def Let_def)
  from Cons.IH [OF s1] Cons.prems b1 obtain ms local where
    h: "harvest_from ps sg1 = Some (sg1\<lparr>sg_input_messages := ms, sg_local_pointstamp := local\<rparr>)" "length ms = sg_inputs sg"
      "\<forall>q < sg_inputs sg. ms ! q = (if q \<in> set ps then cb_new else sg_input_messages sg1 ! q)"
      "batch_ok (sg_pointstamp_tracker sg) local"
      "\<forall>l t. cb_count local (l, t) = cb_count loc1 (l, t) + (\<Sum>q \<leftarrow> ps. cb_count (sg_input_messages sg1 ! q) t * harvest_weight sg1 l q)"
    by (auto simp: sg1_def)
  have "sg_input_messages sg1 ! q = sg_input_messages sg ! q" if "q \<in> set ps" for q
    using that Cons.prems(2) by (cases "q = p") (simp_all add: sg1_def)
  moreover have "harvest_weight sg1 = harvest_weight sg" by (simp add: fun_eq_iff sg1_def harvest_weight_def)
  ultimately have "(\<Sum>q \<leftarrow> ps. cb_count (sg_input_messages sg1 ! q) t * harvest_weight sg1 l q)
      = (\<Sum>q \<leftarrow> ps. cb_count (sg_input_messages sg ! q) t * harvest_weight sg l q)" for l t
    by (simp cong: map_cong)
  with h c1 p run show ?case
    by (intro exI [of _ ms] exI [of _ local]) (auto simp: sg1_def nth_list_update)
qed

lemma harvest_inputs_ok:
  assumes inv: "sg_inv leo le sle dflt ri to_outer sg"
  shows "\<exists>local. harvest_inputs sg = Some (sg\<lparr>sg_input_messages := replicate (sg_inputs sg) cb_new, sg_local_pointstamp := local\<rparr>)
    \<and> sg_inv leo le sle dflt ri to_outer (sg\<lparr>sg_input_messages := replicate (sg_inputs sg) cb_new, sg_local_pointstamp := local\<rparr>)
    \<and> (\<forall>l t. cb_count local (l, t) = cb_count (sg_local_pointstamp sg) (l, t)
        + (\<Sum>p \<leftarrow> [0..<sg_inputs sg]. cb_count (sg_input_messages sg ! p) t * harvest_weight sg l p))"
proof -
  have pre: "sg_shape_ok sg" "tr_inv le ri (sg_pointstamp_tracker sg)" "batch_ok (sg_pointstamp_tracker sg) (sg_local_pointstamp sg)"
    using inv by (auto simp: sg_inv_def sg_tracker_ok_def sg_pointstamps_ok_def Let_def)
  from harvest_from_ok [OF pre(1) _ _ pre(2,3), of "[0..<sg_inputs sg]"] obtain ms local where
    h: "harvest_inputs sg = Some (sg\<lparr>sg_input_messages := ms, sg_local_pointstamp := local\<rparr>)" "length ms = sg_inputs sg"
      "\<forall>p < sg_inputs sg. ms ! p = cb_new" "batch_ok (sg_pointstamp_tracker sg) local"
      "\<forall>l t. cb_count local (l, t) = cb_count (sg_local_pointstamp sg) (l, t)
        + (\<Sum>p \<leftarrow> [0..<sg_inputs sg]. cb_count (sg_input_messages sg ! p) t * harvest_weight sg l p)"
    by (auto simp: harvest_inputs_def)
  have "ms = replicate (sg_inputs sg) cb_new" using h(2,3) by (simp add: list_eq_iff_nth_eq)
  moreover have "sg_inv leo le sle dflt ri to_outer (sg\<lparr>sg_input_messages := replicate (sg_inputs sg) cb_new, sg_local_pointstamp := local\<rparr>)"
    using inv h(4) unfolding sg_inv_def sg_shape_ok_def sg_tracker_ok_def sg_outputs_ok_def sg_pointstamps_ok_def
      sg_active_ok_def sg_incomplete_ok_def Let_def by simp
  ultimately show ?thesis using h(1,5) by blast
qed

section \<open>Scheduling one child\<close>

text \<open>
  The contract of the operators: \<open>schedule\<close> returns, and keeps the number of ports of the
  progress it shares.
\<close>

definition op_contract :: "('t, 'op) op_schedule \<Rightarrow> bool" where
  "op_contract sched \<longleftrightarrow> (\<forall>op sp av. \<exists>r op' sp' av'. sched op sp av = Some (r, op', sp', av')
     \<and> length (sp_frontiers sp') = length (sp_frontiers sp) \<and> length (sp_consumeds sp') = length (sp_consumeds sp)
     \<and> length (sp_internals sp') = length (sp_internals sp) \<and> length (sp_produceds sp') = length (sp_produceds sp))"

text \<open>A child that was shut down and then told of progress: the panic of \<open>PerOperatorState::schedule\<close>.\<close>

definition premature :: "('t::linorder, 's, 'op) child \<Rightarrow> bool" where
  "premature c \<longleftrightarrow> ch_operator c = None \<and> fst (any_nonempty (sp_frontiers (ch_shared_progress c)))"

lemma length_any_nonempty [simp]: "length (snd (any_nonempty bs)) = length bs"
  by (induction bs) (auto simp: split_beta Let_def)

text \<open>A child that only ran: its description and ports are what they were.\<close>

definition ran :: "('t, 's, 'op) child \<Rightarrow> ('t, 's, 'op) child \<Rightarrow> bool" where
  "ran c c' \<longleftrightarrow> ch_index c' = ch_index c \<and> ch_local c' = ch_local c \<and> ch_inputs c' = ch_inputs c \<and> ch_outputs c' = ch_outputs c
     \<and> ch_edges c' = ch_edges c \<and> ch_notify c' = ch_notify c
     \<and> length (sp_frontiers (ch_shared_progress c')) = length (sp_frontiers (ch_shared_progress c))
     \<and> length (sp_consumeds (ch_shared_progress c')) = length (sp_consumeds (ch_shared_progress c))
     \<and> length (sp_internals (ch_shared_progress c')) = length (sp_internals (ch_shared_progress c))
     \<and> length (sp_produceds (ch_shared_progress c')) = length (sp_produceds (ch_shared_progress c))"

lemma child_schedule_ok:
  assumes "op_contract sched" and "\<not> premature c"
  shows "\<exists>r c' av'. child_schedule sched c av = Some (r, c', av') \<and> ran c c'"
proof (cases "ch_operator c")
  case None
  then show ?thesis using assms(2) by (auto simp: child_schedule_def premature_def split_beta Let_def ran_def)
next
  case (Some op)
  from assms(1) obtain r op' sp' av' where "sched op (ch_shared_progress c) av = Some (r, op', sp', av')"
    "length (sp_frontiers sp') = length (sp_frontiers (ch_shared_progress c))" "length (sp_consumeds sp') = length (sp_consumeds (ch_shared_progress c))"
    "length (sp_internals sp') = length (sp_internals (ch_shared_progress c))" "length (sp_produceds sp') = length (sp_produceds (ch_shared_progress c))"
    unfolding op_contract_def by blast
  then show ?thesis by (simp add: child_schedule_def Some ran_def)
qed

lemma child_schedule_premature: "premature c \<Longrightarrow> child_schedule sched c av = None"
  by (auto simp: child_schedule_def premature_def split_beta Let_def)

text \<open>The counter of incomplete children.\<close>

lemma count_true_update:
  "i < length bs \<Longrightarrow> length (filter id (bs[i := b])) + of_bool (bs ! i) = length (filter id bs) + of_bool b"
proof (induction bs arbitrary: i)
  case (Cons a bs)
  show ?case using Cons.IH [of "i - 1"] Cons.prems by (cases i) auto
qed simp

lemma note_incomplete_ok:
  assumes "i < length is" and "n = length (filter id is)"
  shows "\<exists>n'. note_incomplete i b (is, n) = Some (is[i := b], n') \<and> n' = length (filter id (is[i := b]))"
proof (cases "b = is ! i")
  case True
  then show ?thesis using assms by (simp add: note_incomplete_def vec_get_def)
next
  case False
  have "length (filter id is) \<noteq> 0" if "\<not> b"
  proof -
    have "True \<in> set (filter id is)" using that False assms(1) nth_mem [of i "is"] by auto
    then show ?thesis by (metis length_0_conv empty_iff list.set(1))
  qed
  then show ?thesis using False assms count_true_update [OF assms(1), of b]
    by (cases b) (auto simp: note_incomplete_def vec_get_def)
qed

lemma settle_child_ok:
  assumes "i < length (tr_per_operator tr)"
  shows "\<exists>c'. settle_child False le tr i r c = Some c' \<and> (c' = c \<or> c' = child_shut_down c)
    \<and> (c' \<noteq> c \<longrightarrow> \<not> r \<and> po_idle (tr_per_operator tr ! i))"
  using assms by (auto simp: settle_child_def vec_get_def)

lemma shut_down_sel [simp]:
  "ch_shared_progress (child_shut_down c) = ch_shared_progress c" "ch_index (child_shut_down c) = ch_index c"
  "ch_local (child_shut_down c) = ch_local c" "ch_inputs (child_shut_down c) = ch_inputs c"
  "ch_outputs (child_shut_down c) = ch_outputs c" "ch_edges (child_shut_down c) = ch_edges c"
  "ch_notify (child_shut_down c) = ch_notify c" "child_statements (child_shut_down c) = child_statements c"
  by (simp_all add: child_shut_down_def child_statements_def fun_eq_iff)

lemma extract_batch_ok:
  assumes e: "child_extract_progress c (ps, ta) = Some (c', ps', ta')" and b: "batch_ok tr ps"
    and t: "\<And>p. p < length (sp_consumeds (ch_shared_progress c)) \<Longrightarrow> new_target (ch_index c) p \<in> tr_locs tr"
    and s: "\<And>p. p < length (sp_internals (ch_shared_progress c)) \<Longrightarrow> new_source (ch_index c) p \<in> tr_locs tr"
    and g: "\<And>p tg. p < length (ch_edges c) \<Longrightarrow> tg \<in> set (ch_edges c ! p) \<Longrightarrow> location_of_target tg \<in> tr_locs tr"
  shows "batch_ok tr ps'"
proof -
  let ?sp = "ch_shared_progress c"
  define p2 where "p2 = extract_internal (ch_index c) (enumerate 0 (sp_internals ?sp)) (extract_consumed (ch_index c) (enumerate 0 (sp_consumeds ?sp)) ps)"
  have "batch_ok tr (extract_consumed (ch_index c) (enumerate 0 (sp_consumeds ?sp)) ps)"
    unfolding extract_consumed_def using b t
    by (intro batch_ok_fold) (auto simp: in_set_enumerate_eq intro!: batch_ok_fold batch_ok_update)
  then have p2: "batch_ok tr p2" unfolding p2_def extract_internal_def using s
    by (intro batch_ok_fold) (auto simp: in_set_enumerate_eq intro!: batch_ok_fold batch_ok_update)
  have step: "batch_ok tr (fst (fold (\<lambda>(time, delta). fold (\<lambda>tg (p, a). (cb_update (location_of_target tg, time) delta p,
        insort (tgt_node tg) a)) targets) us pa))"
    if "batch_ok tr (fst pa)" "\<forall>tg \<in> set targets. location_of_target tg \<in> tr_locs tr" for us targets pa
    using that(1)
  proof (induction us arbitrary: pa)
    case (Cons u us)
    obtain x d where u: "u = (x, d)" by (cases u)
    obtain q a where pa: "pa = (q, a)" by (cases pa)
    have "batch_ok tr (fold (\<lambda>tg. cb_update (location_of_target tg, x) d) targets q)"
      using Cons.prems that(2) by (intro batch_ok_fold) (auto simp: pa)
    then show ?case using Cons.IH by (simp add: u pa fold_targets)
  qed simp
  have "batch_ok tr (fst pa')" if "extract_produced (ch_edges c) qs pa = Some pa'" "batch_ok tr (fst pa)" for qs pa pa'
    using that
  proof (induction qs arbitrary: pa)
    case (Cons q qs)
    obtain outp b' where q: "q = (outp, b')" by (cases q)
    show ?case
    proof (cases "fst (cb_drain b')")
      case Nil
      then show ?thesis using Cons by (simp add: q)
    next
      case (Cons u us)
      have "outp < length (ch_edges c)" using Cons.prems(1) Cons by (auto simp: q bind_eq_Some_conv)
      moreover have "extract_produced (ch_edges c) qs (fold (\<lambda>(time, delta). fold (\<lambda>tg (p, a). (cb_update (location_of_target tg, time) delta p,
        insort (tgt_node tg) a)) (ch_edges c ! outp)) (u # us) pa) = Some pa'"
        using Cons.prems(1) Cons by (auto simp: q bind_eq_Some_conv)
      ultimately show ?thesis using Cons.IH step [OF Cons.prems(2), of "ch_edges c ! outp" "u # us"] g by blast
    qed
  qed simp
  then show ?thesis using e p2 by (auto simp: child_extract_progress_def Let_def bind_eq_Some_conv p2_def)
qed

text \<open>The pointstamp changes a subgraph holds and has not yet committed or sent.\<close>

definition sg_pending :: "('o, 't, 's, 'op) subgraph \<Rightarrow> location \<times> 't \<Rightarrow> int" where
  "sg_pending sg k = cb_count (sg_local_pointstamp sg) k + cb_count (sg_final_pointstamp sg) k"

lemma activate_child_ok:
  assumes inv: "sg_inv leo le sle dflt ri to_outer sg" and op: "op_contract sched" and i: "i < length (sg_children sg)"
    and np: "\<not> premature (sg_children sg ! i)"
  shows "\<exists>r c sg' av'. child_schedule sched (sg_children sg ! i) av = Some (r, c, av')
    \<and> activate_child False le sched i sg av = Some (r, sg', av')
    \<and> sg_inv leo le sle dflt ri to_outer sg' \<and> sg_incomplete sg' = (sg_incomplete sg)[i := r]
    \<and> (\<forall>j. j \<noteq> i \<longrightarrow> sg_children sg' ! j = sg_children sg ! j) \<and> ran c (sg_children sg' ! i)
    \<and> set (sg_temp_active sg) \<subseteq> set (sg_temp_active sg')
    \<and> (\<forall>k. cb_count (if ch_local c then sg_local_pointstamp sg' else sg_final_pointstamp sg') k
          = cb_count (if ch_local c then sg_local_pointstamp sg else sg_final_pointstamp sg) k + child_statements c k)
    \<and> (\<forall>k. sg_pending sg' k = sg_pending sg k + child_statements c k)"
proof -
  let ?tr = "sg_pointstamp_tracker sg"
  have shape: "sg_shape_ok sg" and trk: "sg_tracker_ok le sle dflt ri sg" and pts: "sg_pointstamps_ok sg" and act: "sg_active_ok sg"
    and inc: "sg_incomplete_ok sg" using inv by (auto simp: sg_inv_def)
  have ti: "tr_inv le ri ?tr" using trk by (simp add: sg_tracker_ok_def Let_def)
  have c0: "child_ok i (sg_children sg ! i)" and li: "i < length (sg_incomplete sg)" using shape i by (simp_all add: sg_shape_ok_def Let_def)
  from child_schedule_ok [OF op np] obtain r c1 av' where c1: "child_schedule sched (sg_children sg ! i) av = Some (r, c1, av')"
    "ran (sg_children sg ! i) c1" by blast
  from note_incomplete_ok [OF li] inc obtain n where n: "note_incomplete i r (sg_incomplete sg, sg_incomplete_count sg) = Some ((sg_incomplete sg)[i := r], n)"
    "n = length (filter id ((sg_incomplete sg)[i := r]))" by (auto simp: sg_incomplete_ok_def)
  have "i < length (tr_per_operator ?tr)" using sg_shape_locs(4) [OF shape] i by simp
  from settle_child_ok [OF this, of le r c1] obtain c2 where c2: "settle_child False le ?tr i r c1 = Some c2" "c2 = c1 \<or> c2 = child_shut_down c1" by blast
  have c2f: "ran (sg_children sg ! i) c2" "child_statements c2 = child_statements c1" "ran c1 c2" using c2(2) c1(2) by (auto simp: ran_def)
  have ok2: "child_ok i c2" using c0 c2f(1) by (simp add: child_ok_def ran_def)
  define ps where "ps = (if ch_local c2 then sg_local_pointstamp sg else sg_final_pointstamp sg)"
  have "length (sp_produceds (ch_shared_progress c2)) \<le> length (ch_edges c2)" using ok2 by (simp add: child_ok_def)
  from extract_progress_ok [OF this, of ps "sg_temp_active sg"] obtain c3 ps' ta' where
    e: "child_extract_progress c2 (ps, sg_temp_active sg) = Some (c3, ps', ta')" "sorted (sg_temp_active sg) \<longrightarrow> sorted ta'"
      "set ta' = set (sg_temp_active sg) \<union> produced_nodes (ch_edges c2) (enumerate 0 (sp_produceds (ch_shared_progress c2)))"
      "\<And>k. cb_count ps' k = cb_count ps k + child_statements c2 k" "ran c2 c3" by (auto simp: ran_def)
  have edges: "location_of_target tg \<in> tr_locs ?tr" if "p < length (ch_edges c2)" "tg \<in> set (ch_edges c2 ! p)" for p tg
    using edge_targets [OF shape ti i, of p tg] that c2f(1) c0 by (simp add: ran_def child_ok_def)
  have "batch_ok ?tr ps" using pts by (simp add: ps_def sg_pointstamps_ok_def)
  from extract_batch_ok [OF e(1) this _ _ edges] have b': "batch_ok ?tr ps'"
    using ok2 c2f(1) sg_shape_locs(1,2) [OF shape, of i] i by (simp add: child_ok_def ran_def)
  have ta: "j < length (sg_children sg)" if "j \<in> set ta'" for j
  proof (cases "j \<in> set (sg_temp_active sg)")
    case False
    with that e(3) obtain p tg where "p < length (ch_edges c2)" "tg \<in> set (ch_edges c2 ! p)" "j = tgt_node tg"
      using ok2 by (auto simp: produced_nodes_def in_set_enumerate_eq child_ok_def split: if_splits)
    then show ?thesis using sg_shape_locs(3) [OF shape edges] by (simp add: location_of_target_def)
  qed (use act in \<open>simp add: sg_active_ok_def\<close>)
  define sg' where "sg' = sg\<lparr>sg_children := (sg_children sg)[i := c3], sg_temp_active := ta',
      sg_incomplete := (sg_incomplete sg)[i := r], sg_incomplete_count := n,
      sg_local_pointstamp := (if ch_local c3 then ps' else sg_local_pointstamp sg),
      sg_final_pointstamp := (if ch_local c3 then sg_final_pointstamp sg else ps')\<rparr>"
  have run: "activate_child False le sched i sg av = Some (r, sg', av')"
    using i c1(1) n(1) c2(1) e(1) by (simp add: activate_child_def vec_get_def ps_def sg'_def)
  have r3: "ran (sg_children sg ! i) c3" "ran c1 c3" using c2f(1,3) e(5) by (auto simp: ran_def)
  have ok3: "child_ok i c3" using c0 r3(1) by (simp add: child_ok_def ran_def)
  have "map ch_edges ((sg_children sg)[i := c3]) = map ch_edges (sg_children sg)"
    "map (\<lambda>c. (ch_inputs c, ch_outputs c)) ((sg_children sg)[i := c3]) = map (\<lambda>c. (ch_inputs c, ch_outputs c)) (sg_children sg)"
    using r3(1) i by (auto simp: list_eq_iff_nth_eq nth_list_update ran_def)
  moreover have "ch_outputs ((sg_children sg)[i := c3] ! 0) = ch_outputs (sg_children sg ! 0)" "ch_inputs ((sg_children sg)[i := c3] ! 0) = ch_inputs (sg_children sg ! 0)"
    using r3(1) i by (auto simp: nth_list_update ran_def)
  moreover have "child_ok j ((sg_children sg)[i := c3] ! j)" if "j < length (sg_children sg)" for j
    using shape ok3 that by (cases "j = i") (simp_all add: sg_shape_ok_def Let_def)
  ultimately have "sg_shape_ok sg'" using shape by (simp add: sg_shape_ok_def sg'_def Let_def)
  moreover have "sg_tracker_ok le sle dflt ri sg'" "sg_outputs_ok leo ri to_outer sg'"
    using inv by (simp_all add: sg_inv_def sg_tracker_ok_def sg_outputs_ok_def sg'_def Let_def)
  moreover have "sg_pointstamps_ok sg'" using pts b' by (simp add: sg_pointstamps_ok_def sg'_def)
  moreover have "sg_active_ok sg'" using act e(2) ta by (simp add: sg_active_ok_def sg'_def)
  moreover have "sg_incomplete_ok sg'" using n(2) by (simp add: sg_incomplete_ok_def sg'_def)
  ultimately have "sg_inv leo le sle dflt ri to_outer sg'" by (simp add: sg_inv_def)
  moreover have lc: "ch_local c3 = ch_local c1" "ch_local c2 = ch_local c1" using r3(2) c2f(3) by (simp_all add: ran_def)
  have "cb_count (if ch_local c1 then sg_local_pointstamp sg' else sg_final_pointstamp sg') k
      = cb_count (if ch_local c1 then sg_local_pointstamp sg else sg_final_pointstamp sg) k + child_statements c1 k"
    "sg_pending sg' k = sg_pending sg k + child_statements c1 k" for k
    using e(4) [of k] by (simp_all add: sg'_def lc ps_def c2f(2) sg_pending_def)
  ultimately show ?thesis using c1(1) run r3(2) e(3) i
    by (intro exI [of _ r] exI [of _ c1] exI [of _ sg'] exI [of _ av']) (simp add: sg'_def)
qed

lemma activate_child_premature:
  assumes "i < length (sg_children sg)" and "premature (sg_children sg ! i)"
  shows "activate_child debug le sched i sg av = None"
  using assms child_schedule_premature [of "sg_children sg ! i" sched av] by (simp add: activate_child_def vec_get_def)

section \<open>The loop over active children\<close>

text \<open>
  A run of \<open>activate_child\<close> on the children of a list, in order, whatever is active
  between the calls.
\<close>

inductive child_runs ::
  "('t \<Rightarrow> 't \<Rightarrow> bool) \<Rightarrow> ('t::linorder, 'op) op_schedule \<Rightarrow> nat list \<Rightarrow> ('o, 't, 's, 'op) subgraph \<Rightarrow> activations
   \<Rightarrow> ('o, 't, 's, 'op) subgraph \<Rightarrow> activations \<Rightarrow> bool" for le sched where
  stop: "child_runs le sched [] sg av (sg\<lparr>sg_temp_active := ta\<rparr>) av"
| go: "activate_child False le sched i (sg\<lparr>sg_temp_active := ta\<rparr>) av = Some (r, sg1, av1) \<Longrightarrow>
    child_runs le sched is sg1 av1 sg' av' \<Longrightarrow> child_runs le sched (i # is) sg av sg' av'"

lemma sg_inv_active:
  assumes "sg_inv leo le sle dflt ri to_outer sg" and "sorted ta" and "\<forall>i \<in> set ta. i < length (sg_children sg)"
  shows "sg_inv leo le sle dflt ri to_outer (sg\<lparr>sg_temp_active := ta\<rparr>)"
  using assms unfolding sg_inv_def sg_shape_ok_def sg_tracker_ok_def sg_outputs_ok_def sg_pointstamps_ok_def
      sg_active_ok_def sg_incomplete_ok_def Let_def by simp

lemma child_runs_active:
  assumes "child_runs le sched is (sg\<lparr>sg_temp_active := ta\<rparr>) av sg' av'"
  shows "child_runs le sched is sg av sg' av'"
  using assms by (cases rule: child_runs.cases) (auto intro: child_runs.intros)

lemma activate_child_path: "activate_child debug le sched i sg av = Some (r, sg', av') \<Longrightarrow> sg_path sg' = sg_path sg"
  by (erule activate_child_Some) simp

lemma schedule_children_ok:
  assumes "sg_inv leo le sle dflt ri to_outer sg" and "op_contract sched"
    and "\<forall>j < length (sg_children sg). previous < j \<longrightarrow> \<not> premature (sg_children sg ! j)"
  shows "\<exists>is sg' av'. schedule_children False le sched previous sg av = Some (sg', av')
    \<and> sg_inv leo le sle dflt ri to_outer sg' \<and> sg_temp_active sg' = [] \<and> child_runs le sched is sg av sg' av'
    \<and> sorted_wrt (<) (previous # is) \<and> {j \<in> set (sg_temp_active sg). previous < j} \<subseteq> set is
    \<and> sg_path sg' = sg_path sg"
  using assms
proof (induction "False" le sched previous sg av rule: schedule_children.induct)
  case (1 le sched previous sg av)
  show ?case
  proof (cases "sg_temp_active sg")
    case Nil
    then have "sg\<lparr>sg_temp_active := []\<rparr> = sg" by (cases sg) simp
    then have "child_runs le sched [] sg av sg av" using child_runs.stop [of le sched sg av "[]"] by simp
    then show ?thesis using "1.prems" Nil by (auto simp: schedule_children.simps [of False le sched previous sg av])
  next
    case (Cons i rest)
    let ?sg = "sg\<lparr>sg_temp_active := rest\<rparr>"
    have act: "sorted (i # rest)" "\<forall>j \<in> set (i # rest). j < length (sg_children sg)"
      using "1.prems"(1) Cons by (auto simp: sg_inv_def sg_active_ok_def)
    have inv: "sg_inv leo le sle dflt ri to_outer ?sg" using "1.prems"(1) act by (intro sg_inv_active) auto
    show ?thesis
    proof (cases "previous < i")
      case False
      from "1.hyps"(2) [OF Cons False inv "1.prems"(2)] "1.prems"(3) obtain "is" sg' av' where
        r: "schedule_children False le sched previous ?sg av = Some (sg', av')" "sg_inv leo le sle dflt ri to_outer sg'"
          "sg_temp_active sg' = []" "child_runs le sched is ?sg av sg' av'" "sorted_wrt (<) (previous # is)"
          "{j \<in> set rest. previous < j} \<subseteq> set is" "sg_path sg' = sg_path sg" by auto
      have "schedule_children False le sched previous sg av = Some (sg', av')"
        using r(1) False by (simp add: schedule_children.simps [of False le sched previous sg av] Cons)
      moreover have "{j \<in> set (sg_temp_active sg). previous < j} \<subseteq> set is" using r(6) False by (auto simp: Cons)
      ultimately show ?thesis using r child_runs_active by blast
    next
      case True
      have np: "\<not> premature (sg_children ?sg ! i)" using "1.prems"(3) True act(2) by simp
      have "i < length (sg_children ?sg)" using act(2) by simp
      from activate_child_ok [OF inv "1.prems"(2) this np, of av] obtain r sg1 av1 where
        a: "activate_child False le sched i ?sg av = Some (r, sg1, av1)" "sg_inv leo le sle dflt ri to_outer sg1"
          "\<forall>j. j \<noteq> i \<longrightarrow> sg_children sg1 ! j = sg_children sg ! j" "set rest \<subseteq> set (sg_temp_active sg1)"
        by (elim exE conjE) (rule that, assumption, assumption, simp_all)
      have len: "length (sg_children sg1) = length (sg_children sg)" "sg_path sg1 = sg_path sg"
        using activate_child_length [OF a(1)] activate_child_path [OF a(1)] by simp_all
      have "\<forall>j < length (sg_children sg1). i < j \<longrightarrow> \<not> premature (sg_children sg1 ! j)"
        using "1.prems"(3) a(3) len True by simp
      from "1.hyps"(1) [OF Cons True a(1) HOL.refl HOL.refl a(2) "1.prems"(2) this] obtain "is" sg' av' where
        r: "schedule_children False le sched i sg1 av1 = Some (sg', av')" "sg_inv leo le sle dflt ri to_outer sg'"
          "sg_temp_active sg' = []" "child_runs le sched is sg1 av1 sg' av'" "sorted_wrt (<) (i # is)"
          "{j \<in> set (sg_temp_active sg1). i < j} \<subseteq> set is" "sg_path sg' = sg_path sg1" by blast
      have "schedule_children False le sched previous sg av = Some (sg', av')"
        using r(1) a(1) True by (simp add: schedule_children.simps [of False le sched previous sg av] Cons)
      moreover have "child_runs le sched (i # is) sg av sg' av'" by (rule child_runs.go [OF a(1) r(4)])
      moreover have "sorted_wrt (<) (previous # i # is)" using r(5) True by auto
      moreover have "{j \<in> set (sg_temp_active sg). previous < j} \<subseteq> set (i # is)"
        using r(6) a(4) act(1) by (auto simp: Cons le_less)
      ultimately show ?thesis using r(2,3,7) len(2) by (metis (no_types, lifting))
    qed
  qed
qed

section \<open>Sending and receiving progress\<close>

lemma compact_keys: "fst ` set (cb_updates (cb_compact b)) \<subseteq> fst ` set (cb_updates b)"
  using drain_keys [of _ b] by (auto simp: cb_drain_fst)

lemma batch_ok_compact: "batch_ok tr b \<Longrightarrow> batch_ok tr (cb_compact b)"
  using image_mono [OF compact_keys [of b], of fst] by (auto simp: batch_ok_def)

lemma recv_batch_ok:
  assumes "batch_ok tr b" and "\<forall>m \<in> set ms. batch_ok tr (snd (snd m))"
  shows "batch_ok tr (fold recv_message ms b)"
proof (rule batch_ok_fold [OF _ assms(1)])
  fix m b assume m: "m \<in> set ms" and b: "batch_ok tr b"
  have "fst k \<in> tr_locs tr" if "(k, d) \<in> set (cb_updates (cb_compact (snd (snd m))))" for k d
    using batch_ok_compact [of tr "snd (snd m)"] assms(2) m that by (force simp: batch_ok_def)
  then show "batch_ok tr (recv_message m b)"
    unfolding recv_message_def cb_iter_def Let_def using b by (intro batch_ok_fold) auto
qed

text \<open>A subtraction that the frontier of its location would show.\<close>

definition visible_subtraction :: "('t \<Rightarrow> 't \<Rightarrow> bool) \<Rightarrow> ('o, 't, 's, 'op) subgraph \<Rightarrow> location \<times> 't \<Rightarrow> bool" where
  "visible_subtraction le sg k \<longleftrightarrow> pi_is_global le (the (tr_get (sg_pointstamp_tracker sg) (fst k))) (snd k)
     \<and> cb_count (sg_local_pointstamp sg) k < 0"

lemma any_global_ok:
  assumes "\<forall>u \<in> set us. fst (fst u) \<in> tr_locs tr"
  shows "any_global le tr us = Some (\<exists>u \<in> set us. pi_is_global le (the (tr_get tr (fst (fst u)))) (snd (fst u)) \<and> snd u < 0)"
  using assms
proof (induction us)
  case (Cons u us)
  obtain l t d where u: "u = ((l, t), d)" by (metis prod.collapse)
  from Cons.prems obtain p where "tr_get tr l = Some p" by (auto simp: u tr_locs_def)
  with Cons show ?case by (auto simp: u tracker_is_global_def)
qed simp

lemma send_all:
  assumes ok: "batch_ok tr b" and s: "progcaster_send pg b = (pg', b')"
  shows "batch_ok tr b' \<and> (\<forall>k. cb_count b' k = 0)
    \<and> (\<exists>ms. pg_pusher pg' = pg_pusher pg @ ms \<and> (\<forall>k. msgs_count ms k = cb_count b k))"
proof -
  obtain e c where e: "cb_is_empty (cb_compact b) = (e, c)" by (cases "cb_is_empty (cb_compact b)")
  have ok': "batch_ok tr (cb_compact b)" "cb_inv (cb_compact b)" using batch_ok_compact [OF ok] by (simp_all add: batch_ok_def)
  have c: "c = cb_compact b \<or> c = cb_compact (cb_compact b)" using e by (auto simp: cb_is_empty_def Let_def split: if_splits)
  have cnt: "cb_count c k = cb_count b k" for k using c by auto
  show ?thesis
  proof (cases e)
    case True
    then have "\<forall>k. cb_count b k = 0" using is_empty_iff [OF ok'(2)] e by simp
    moreover have "pg' = pg" "b' = c" using s True by (simp_all add: progcaster_send_def e)
    moreover have "batch_ok tr c" using c ok'(1) batch_ok_compact by blast
    ultimately show ?thesis using cnt by (intro conjI exI [of _ "[]"]) simp_all
  next
    case False
    then have "b' = cb_new" "pg_pusher pg' = pg_pusher pg @ [(pg_source pg, pg_counter pg, c)]"
      using s by (auto simp: progcaster_send_def e)
    then show ?thesis using cnt by (intro conjI exI [of _ "[(pg_source pg, pg_counter pg, c)]"]) simp_all
  qed
qed

lemma sg_inv_local:
  assumes "sg_inv leo le sle dflt ri to_outer sg" and "batch_ok (sg_pointstamp_tracker sg) local"
  shows "sg_inv leo le sle dflt ri to_outer (sg\<lparr>sg_progcaster := pg, sg_local_pointstamp := local\<rparr>)"
  using assms unfolding sg_inv_def sg_shape_ok_def sg_tracker_ok_def sg_outputs_ok_def sg_pointstamps_ok_def
      sg_active_ok_def sg_incomplete_ok_def Let_def by simp

lemma send_progress_ok:
  assumes inv: "sg_inv leo le sle dflt ri to_outer sg"
  shows "\<exists>pg local ms. send_progress le sg = Some (sg\<lparr>sg_progcaster := pg, sg_local_pointstamp := local\<rparr>)
    \<and> sg_inv leo le sle dflt ri to_outer (sg\<lparr>sg_progcaster := pg, sg_local_pointstamp := local\<rparr>)
    \<and> pg_pusher pg = pg_pusher (sg_progcaster sg) @ ms
    \<and> (\<forall>k. cb_count local k + msgs_count ms k = cb_count (sg_local_pointstamp sg) k)
    \<and> (if sg_progress_mode sg = Eager \<or> (\<exists>k. visible_subtraction le sg k) then \<forall>k. cb_count local k = 0
       else ms = [] \<and> (\<forall>k. cb_count local k = cb_count (sg_local_pointstamp sg) k))"
proof -
  let ?loc = "sg_local_pointstamp sg" and ?tr = "sg_pointstamp_tracker sg"
  have ok: "batch_ok ?tr ?loc" using inv by (simp add: sg_inv_def sg_pointstamps_ok_def)
  then have ci: "cb_inv ?loc" by (simp add: batch_ok_def)
  have keys: "\<forall>u \<in> set (cb_updates (cb_compact ?loc)). fst (fst u) \<in> tr_locs ?tr"
    using drain_ok [OF ok] by (simp add: cb_drain_fst)
  have vis: "(\<exists>u \<in> set (cb_updates (cb_compact ?loc)). pi_is_global le (the (tr_get ?tr (fst (fst u)))) (snd (fst u)) \<and> snd u < 0)
      \<longleftrightarrow> (\<exists>k. visible_subtraction le sg k)"
  proof
    assume "\<exists>u \<in> set (cb_updates (cb_compact ?loc)). pi_is_global le (the (tr_get ?tr (fst (fst u)))) (snd (fst u)) \<and> snd u < 0"
    then obtain k d where "(k, d) \<in> set (cb_updates (cb_compact ?loc))" "pi_is_global le (the (tr_get ?tr (fst k))) (snd k)" "d < 0" by auto
    then have "visible_subtraction le sg k" using compact_entry [OF ci, of k d] by (simp add: visible_subtraction_def)
    then show "\<exists>k. visible_subtraction le sg k" by blast
  next
    assume "\<exists>k. visible_subtraction le sg k"
    then obtain k where k: "visible_subtraction le sg k" by blast
    then have "(k, cb_count ?loc k) \<in> set (cb_updates (cb_compact ?loc))"
      using compact_has_entry [OF ci, of k] by (simp add: visible_subtraction_def)
    with k show "\<exists>u \<in> set (cb_updates (cb_compact ?loc)). pi_is_global le (the (tr_get ?tr (fst (fst u)))) (snd (fst u)) \<and> snd u < 0"
      by (force simp: visible_subtraction_def)
  qed
  define loc1 where "loc1 = (if sg_progress_mode sg = Eager then ?loc else cb_compact ?loc)"
  have l1: "batch_ok ?tr loc1" "\<And>k. cb_count loc1 k = cb_count ?loc k" using ok batch_ok_compact by (auto simp: loc1_def)
  note inv' = sg_inv_local [OF inv]
  show ?thesis
  proof (cases "sg_progress_mode sg = Eager \<or> (\<exists>k. visible_subtraction le sg k)")
    case False
    then have "sg_progress_mode sg \<noteq> Eager" "any_global le ?tr (cb_updates (cb_compact ?loc)) = Some False"
      using any_global_ok [OF keys] vis by simp_all
    then have "send_progress le sg = Some (sg\<lparr>sg_progcaster := sg_progcaster sg, sg_local_pointstamp := loc1\<rparr>)"
      by (simp add: send_progress_def cb_iter_def Let_def loc1_def)
    moreover have "sg_inv leo le sle dflt ri to_outer (sg\<lparr>sg_local_pointstamp := loc1\<rparr>)"
      using inv' [OF l1(1), of "sg_progcaster sg"] by simp
    ultimately show ?thesis using False l1
      by (intro exI [of _ "sg_progcaster sg"] exI [of _ loc1] exI [of _ "[]"]) simp
  next
    case True
    then have "sg_progress_mode sg = Eager \<or> any_global le ?tr (cb_updates (cb_compact ?loc)) = Some True"
      using any_global_ok [OF keys] vis by simp
    then have run: "send_progress le sg = Some (let (pg, local) = progcaster_send (sg_progcaster sg) loc1
        in sg\<lparr>sg_progcaster := pg, sg_local_pointstamp := local\<rparr>)"
      by (cases "sg_progress_mode sg = Eager") (auto simp: send_progress_def cb_iter_def Let_def loc1_def split_beta)
    obtain pg local where s: "progcaster_send (sg_progcaster sg) loc1 = (pg, local)"
      by (cases "progcaster_send (sg_progcaster sg) loc1")
    from send_all [OF l1(1) s] obtain ms where ms: "batch_ok ?tr local" "\<forall>k. cb_count local k = 0"
      "pg_pusher pg = pg_pusher (sg_progcaster sg) @ ms" "\<forall>k. msgs_count ms k = cb_count loc1 k" by blast
    have "send_progress le sg = Some (sg\<lparr>sg_progcaster := pg, sg_local_pointstamp := local\<rparr>)" using run by (simp add: s)
    then show ?thesis using True inv' [OF ms(1)] ms l1(2)
      by (intro exI [of _ pg] exI [of _ local] exI [of _ ms]) simp
  qed
qed

section \<open>The whole of schedule\<close>

lemma sg_inv_received:
  assumes inv: "sg_inv leo le sle dflt ri to_outer sg" and ms: "\<forall>m \<in> set ms. batch_ok (sg_pointstamp_tracker sg) (snd (snd m))"
  shows "sg_inv leo le sle dflt ri to_outer (sg\<lparr>sg_progcaster := pg, sg_final_pointstamp := fold recv_message ms (sg_final_pointstamp sg)\<rparr>)"
proof -
  have "batch_ok (sg_pointstamp_tracker sg) (fold recv_message ms (sg_final_pointstamp sg))"
    using inv ms by (intro recv_batch_ok) (simp_all add: sg_inv_def sg_pointstamps_ok_def)
  then show ?thesis using inv unfolding sg_inv_def sg_shape_ok_def sg_tracker_ok_def sg_outputs_ok_def sg_pointstamps_ok_def
      sg_active_ok_def sg_incomplete_ok_def Let_def by simp
qed

lemma sg_inv_final:
  assumes inv: "sg_inv leo le sle dflt ri to_outer sg" and b: "cb_is_empty (sg_final_pointstamp sg) = (e, b)"
    and tr: "tracker_tracking_anything (sg_pointstamp_tracker sg) = (r, tr)"
  shows "sg_inv leo le sle dflt ri to_outer (sg\<lparr>sg_final_pointstamp := b, sg_pointstamp_tracker := tr\<rparr>)"
proof -
  let ?tr = "sg_pointstamp_tracker sg"
  have "b = sg_final_pointstamp sg \<or> b = cb_compact (sg_final_pointstamp sg)"
    using b by (auto simp: cb_is_empty_def Let_def split: if_splits)
  then have ok: "batch_ok ?tr b" using inv batch_ok_compact by (auto simp: sg_inv_def sg_pointstamps_ok_def)
  have buf: "tr_buffers_ok ?tr" using inv by (simp add: sg_inv_def sg_tracker_ok_def Let_def)
  have keys: "cb_inv (snd (cb_is_empty c)) \<and> fst ` set (cb_updates (snd (cb_is_empty c))) \<subseteq> fst ` set (cb_updates c)"
    if "cb_inv c" for c :: "('z::linorder) change_batch"
    using that compact_keys [of c] by (auto simp: cb_is_empty_def Let_def)
  define sc where "sc = snd (cb_is_empty (tr_source_changes ?tr))"
  define tc where "tc = (if fst (cb_is_empty (tr_source_changes ?tr)) then snd (cb_is_empty (tr_target_changes ?tr)) else tr_target_changes ?tr)"
  have f: "tr = ?tr\<lparr>tr_target_changes := tc, tr_source_changes := sc\<rparr>"
    using tr by (cases "sg_pointstamp_tracker sg") (auto simp: tracker_tracking_anything_def Let_def split_beta tc_def sc_def split: if_splits)
  have "fst ` set (cb_updates tc) \<subseteq> fst ` set (cb_updates (tr_target_changes ?tr)) \<and> cb_inv tc"
    "fst ` set (cb_updates sc) \<subseteq> fst ` set (cb_updates (tr_source_changes ?tr)) \<and> cb_inv sc"
    unfolding tc_def sc_def using keys [of "tr_target_changes ?tr"] keys [of "tr_source_changes ?tr"] buf by (auto simp: tr_buffers_ok_def)
  moreover have "tr_buffers_ok (?tr\<lparr>tr_target_changes := tc, tr_source_changes := sc\<rparr>)"
    if "fst ` set (cb_updates tc) \<subseteq> fst ` set (cb_updates (tr_target_changes ?tr))" "cb_inv tc"
      "fst ` set (cb_updates sc) \<subseteq> fst ` set (cb_updates (tr_source_changes ?tr))" "cb_inv sc"
    using that buf by (fastforce simp: tr_buffers_ok_def)
  ultimately have buf': "tr_buffers_ok tr" unfolding f by blast
  have sm: "tr_summarized sle le ri tr = tr_summarized sle le ri ?tr"
    unfolding tr_summarized_def summarizes_def path_to_output_def f
    using tr_reaches_cong [of "?tr\<lparr>tr_target_changes := tc, tr_source_changes := sc\<rparr>" ?tr ri] succs_cong by simp
  have pr: "tr_projection ri tr = tr_projection ri ?tr" by (simp add: f fun_eq_iff tr_projection_def)
  show ?thesis using inv ok buf' unfolding sg_inv_def sg_shape_ok_def sg_tracker_ok_def sg_outputs_ok_def sg_pointstamps_ok_def
      sg_active_ok_def sg_incomplete_ok_def Let_def by (simp add: sm pr) (simp add: f batch_ok_def tr_accepted_def)
qed

text \<open>The state in which \<open>schedule\<close> starts to propagate.\<close>

definition sg_receive :: "('o, 't::linorder, 's, 'op) subgraph \<Rightarrow> ('o, 't, 's, 'op) subgraph" where
  "sg_receive sg = (let (pg, final) = progcaster_recv (sg_progcaster sg) (sg_final_pointstamp sg)
     in sg\<lparr>sg_progcaster := pg, sg_final_pointstamp := final\<rparr>)"

lemma schedule_quiet:
  assumes inv: "sg_inv leo le sle dflt ri to_outer sg" and po: "timestamp_order le"
    and q: "sg_incomplete_count sg = 0" "\<not> fst (tracker_tracking_anything (sg_pointstamp_tracker sg))"
  shows "(\<forall>b \<in> set (sg_incomplete sg). \<not> b) \<and> (\<forall>l \<in> tr_locs (sg_pointstamp_tracker sg). \<forall>t. ma_count (tr_pts (sg_pointstamp_tracker sg) l) t \<le> 0)"
proof -
  let ?tr = "sg_pointstamp_tracker sg"
  have ti: "tr_inv le ri ?tr" using inv by (simp add: sg_inv_def sg_tracker_ok_def Let_def)
  have "filter id (sg_incomplete sg) = []" using inv q(1) by (simp add: sg_inv_def sg_incomplete_ok_def)
  then have "\<forall>b \<in> set (sg_incomplete sg). \<not> b" by (simp add: filter_empty_conv)
  moreover have "\<not> tr_total_counts ?tr > 0"
    using q(2) by (auto simp: tracker_tracking_anything_def Let_def split_beta split: if_splits)
  then have "ma_frontier (tr_pts ?tr l) = []" if "l \<in> tr_locs ?tr" for l
    using tr_counted_pos [of ?tr] ti that by (auto simp: tr_inv_def)
  then have "\<forall>l \<in> tr_locs ?tr. \<forall>t. ma_count (tr_pts ?tr l) t \<le> 0"
    using timestamp_order.ma_inv_is_empty [OF po] ti by (fastforce simp: tr_inv_def ma_is_empty_def not_le)
  ultimately show ?thesis by blast
qed

lemma set_fold_insort_nat: "set (fold insort xs ys) = set xs \<union> set (ys :: nat list)" "sorted ys \<Longrightarrow> sorted (fold insort xs ys)"
  by (induction xs arbitrary: ys) (auto simp: set_insort_key sorted_insort)

text \<open>
  What \<open>schedule\<close> does once its children ran, from the state \<open>sg2\<close> and the activations \<open>av2\<close> they left: progress
  is sent, the scope is activated again when final pointstamps remain, and it is complete when no child is incomplete
  and nothing is tracked.
\<close>

definition sg_concluded ::
  "('t \<Rightarrow> 't \<Rightarrow> bool) \<Rightarrow> ('o, 't::linorder, 's, 'op) subgraph \<Rightarrow> activations \<Rightarrow> bool \<Rightarrow> ('o, 't, 's, 'op) subgraph \<Rightarrow> activations \<Rightarrow> bool" where
  "sg_concluded le sg2 av2 r sg' av' \<longleftrightarrow>
     (\<exists>sg3. send_progress le sg2 = Some sg3 \<and> sg_progcaster sg' = sg_progcaster sg3 \<and> sg_local_pointstamp sg' = sg_local_pointstamp sg3)
     \<and> sg_children sg' = sg_children sg2 \<and> sg_incomplete sg' = sg_incomplete sg2 \<and> sg_shared_progress sg' = sg_shared_progress sg2
     \<and> (\<forall>k. cb_count (sg_final_pointstamp sg') k = cb_count (sg_final_pointstamp sg2) k)
     \<and> tr_pts (sg_pointstamp_tracker sg') = tr_pts (sg_pointstamp_tracker sg2)
     \<and> av' = (if fst (cb_is_empty (sg_final_pointstamp sg2)) then av2 else av_activate (sg_path sg2) av2)
     \<and> (r \<longleftrightarrow> True \<in> set (sg_incomplete sg2) \<or> fst (tracker_tracking_anything (sg_pointstamp_tracker sg2)))"

lemma subgraph_schedule_ok:
  assumes bs: "bounded_summary le sle dflt ri fb" and po: "timestamp_order leo"
    and mono: "\<And>a b. le a b \<Longrightarrow> leo (to_outer a) (to_outer b)"
    and inv: "sg_inv leo le sle dflt ri to_outer sg" and op: "op_contract sched"
    and ms: "\<forall>m \<in> set (pg_puller (sg_progcaster sg)). batch_ok (sg_pointstamp_tracker sg) (snd (snd m))"
    and ext: "av_for_extensions (sg_path sg) av = Some ext" "\<forall>i \<in> set ext. i < length (sg_children sg)"
  shows "\<exists>sg0 sg1. harvest_inputs (accept_frontier to_inner sg) = Some sg0
    \<and> propagate_pointstamps leo le ri to_outer (sg_receive sg0) = Some sg1 \<and> sg_propagated leo le ri to_outer (sg_receive sg0) sg1
    \<and> ((\<exists>j < length (sg_children sg1). 0 < j \<and> premature (sg_children sg1 ! j))
      \<or> (\<exists>is sg2 av2 r sg' av'. subgraph_schedule False leo le ri to_inner to_outer sched sg av = Some (r, sg', av')
          \<and> sg_inv leo le sle dflt ri to_outer sg' \<and> child_runs le sched is sg1 av sg2 av2 \<and> sg_concluded le sg2 av2 r sg' av'
          \<and> sorted_wrt (<) (0 # is) \<and> {i \<in> set ext \<union> set (sg_temp_active sg1). 0 < i} \<subseteq> set is
          \<and> (\<not> r \<longrightarrow> (\<forall>b \<in> set (sg_incomplete sg'). \<not> b)
               \<and> (\<forall>l \<in> tr_locs (sg_pointstamp_tracker sg'). \<forall>t. ma_count (tr_pts (sg_pointstamp_tracker sg') l) t \<le> 0))))"
proof -
  have tol: "timestamp_order le" by (rule path_summary.axioms(1) [OF advancing_summary.axioms(1) [OF bounded_summary.axioms(1) [OF bs]]])
  have inv0: "sg_inv leo le sle dflt ri to_outer (accept_frontier to_inner sg)" by (rule accept_frontier_inv [OF inv])
  have keep: "sg_progcaster (accept_frontier to_inner sg) = sg_progcaster sg" "sg_path (accept_frontier to_inner sg) = sg_path sg"
    "sg_children (accept_frontier to_inner sg) = sg_children sg" "tr_locs (sg_pointstamp_tracker (accept_frontier to_inner sg)) = tr_locs (sg_pointstamp_tracker sg)"
  proof -
    have "tr_shape (fold (\<lambda>(l, t, d). tracker_update l t d) us tr) = tr_shape tr" for us and tr :: "('a, 'b) tracker"
      using fold_update_buffers [of us tr] by auto
    then show "tr_locs (sg_pointstamp_tracker (accept_frontier to_inner sg)) = tr_locs (sg_pointstamp_tracker sg)"
      unfolding accept_frontier_eq by (rule tr_locs_cong)
  qed (simp_all add: accept_frontier_def Let_def)
  from harvest_inputs_ok [OF inv0] obtain sg0 where h: "harvest_inputs (accept_frontier to_inner sg) = Some sg0"
    "sg_inv leo le sle dflt ri to_outer sg0" "sg_progcaster sg0 = sg_progcaster sg" "sg_path sg0 = sg_path sg"
    "sg_children sg0 = sg_children sg" "sg_pointstamp_tracker sg0 = sg_pointstamp_tracker (accept_frontier to_inner sg)"
    using keep(1-3) by auto
  have ms0: "\<forall>m \<in> set (pg_puller (sg_progcaster sg0)). batch_ok (sg_pointstamp_tracker sg0) (snd (snd m))"
    using ms h(3,6) keep(4) by (simp add: batch_ok_def)
  have rcv: "sg_receive sg0 = sg0\<lparr>sg_progcaster := (sg_progcaster sg0)\<lparr>pg_puller := []\<rparr>,
      sg_final_pointstamp := fold recv_message (pg_puller (sg_progcaster sg0)) (sg_final_pointstamp sg0)\<rparr>"
    by (simp add: sg_receive_def progcaster_recv_def)
  have "sg_inv leo le sle dflt ri to_outer (sg_receive sg0)" unfolding rcv by (rule sg_inv_received [OF h(2) ms0])
  from propagate_pointstamps_ok [OF bs po mono this] obtain sg1 where
    p: "propagate_pointstamps leo le ri to_outer (sg_receive sg0) = Some sg1" "sg_inv leo le sle dflt ri to_outer sg1"
      "sg_propagated leo le ri to_outer (sg_receive sg0) sg1" "list_all2 told (sg_children (sg_receive sg0)) (sg_children sg1)"
      "sg_path sg1 = sg_path (sg_receive sg0)" by blast
  have ch1: "sg_path sg1 = sg_path sg" "length (sg_children sg1) = length (sg_children sg)"
    using p(4,5) h(4,5) by (auto simp: rcv dest: list_all2_lengthD)
  define sg1' where "sg1' = sg1\<lparr>sg_temp_active := fold insort ext (sg_temp_active sg1)\<rparr>"
  have "sorted (sg_temp_active sg1)" "\<forall>i \<in> set (sg_temp_active sg1). i < length (sg_children sg1)"
    using p(2) by (simp_all add: sg_inv_def sg_active_ok_def)
  then have inv1: "sg_inv leo le sle dflt ri to_outer sg1'" unfolding sg1'_def
    using p(2) ext(2) ch1(2) by (intro sg_inv_active) (auto simp: set_fold_insort_nat)
  show ?thesis
  proof (cases "\<exists>j < length (sg_children sg1). 0 < j \<and> premature (sg_children sg1 ! j)")
    case True
    then show ?thesis using h(1) p(1,3) by blast
  next
    case False
    then have "\<forall>j < length (sg_children sg1'). 0 < j \<longrightarrow> \<not> premature (sg_children sg1' ! j)" by (auto simp: sg1'_def)
    from schedule_children_ok [OF inv1 op this, of av] obtain "is" sg2 av2 where
      c: "schedule_children False le sched 0 sg1' av = Some (sg2, av2)" "sg_inv leo le sle dflt ri to_outer sg2"
        "child_runs le sched is sg1' av sg2 av2" "sorted_wrt (<) (0 # is)" "{j \<in> set (sg_temp_active sg1'). 0 < j} \<subseteq> set is" by blast
    from send_progress_ok [OF c(2)] obtain pg local where s0: "send_progress le sg2 = Some (sg2\<lparr>sg_progcaster := pg, sg_local_pointstamp := local\<rparr>)"
      "sg_inv leo le sle dflt ri to_outer (sg2\<lparr>sg_progcaster := pg, sg_local_pointstamp := local\<rparr>)" by blast
    define sg3 where "sg3 = sg2\<lparr>sg_progcaster := pg, sg_local_pointstamp := local\<rparr>"
    note s = s0 [folded sg3_def]
    obtain e b where e: "cb_is_empty (sg_final_pointstamp sg3) = (e, b)" by (cases "cb_is_empty (sg_final_pointstamp sg3)")
    obtain r tr where t: "tracker_tracking_anything (sg_pointstamp_tracker sg3) = (r, tr)"
      by (cases "tracker_tracking_anything (sg_pointstamp_tracker sg3)")
    define sg' where "sg' = sg3\<lparr>sg_final_pointstamp := b, sg_pointstamp_tracker := tr\<rparr>"
    have inv': "sg_inv leo le sle dflt ri to_outer sg'" unfolding sg'_def by (rule sg_inv_final [OF s(2) e t])
    have run: "subgraph_schedule False leo le ri to_inner to_outer sched sg av
        = Some (sg_incomplete_count sg3 > 0 \<or> r, sg', if \<not> e then av_activate (sg_path sg3) av2 else av2)"
    proof -
      have "propagate_pointstamps leo le ri to_outer (sg0\<lparr>sg_progcaster := (sg_progcaster sg0)\<lparr>pg_puller := []\<rparr>,
          sg_final_pointstamp := fold recv_message (pg_puller (sg_progcaster sg0)) (sg_final_pointstamp sg0)\<rparr>) = Some sg1"
        using p(1) by (simp add: rcv)
      then show ?thesis using h(1) ext(1) ch1(1) c(1) s(1)
        by (simp add: subgraph_schedule_def progcaster_recv_def e t sg'_def sg1'_def)
    qed
    have tr3: "tr_locs tr = tr_locs (sg_pointstamp_tracker sg3)" "tr_pts tr = tr_pts (sg_pointstamp_tracker sg3)"
      using t by (auto simp: tracker_tracking_anything_def Let_def split_beta split: if_splits)
    have "(\<forall>b \<in> set (sg_incomplete sg'). \<not> b) \<and> (\<forall>l \<in> tr_locs (sg_pointstamp_tracker sg'). \<forall>t. ma_count (tr_pts (sg_pointstamp_tracker sg') l) t \<le> 0)"
      if "\<not> (sg_incomplete_count sg3 > 0 \<or> r)"
      using schedule_quiet [OF s(2) tol] that by (auto simp: t sg'_def tr3)
    moreover have "{i \<in> set ext \<union> set (sg_temp_active sg1). 0 < i} \<subseteq> set is" using c(5) by (simp add: sg1'_def set_fold_insort_nat)
    moreover have "child_runs le sched is sg1 av sg2 av2" using c(3) child_runs_active by (simp add: sg1'_def)
    moreover have "sg_concluded le sg2 av2 (sg_incomplete_count sg3 > 0 \<or> r) sg' (if \<not> e then av_activate (sg_path sg3) av2 else av2)"
    proof -
      have "sg_incomplete_count sg2 = length (filter id (sg_incomplete sg2))" "cb_inv (sg_final_pointstamp sg2)"
        using c(2) by (simp_all add: sg_inv_def sg_incomplete_ok_def sg_pointstamps_ok_def batch_ok_def)
      moreover from this have "\<forall>k. cb_count b k = cb_count (sg_final_pointstamp sg2) k" using e is_empty_snd by (fastforce simp: sg3_def)
      ultimately show ?thesis using s(1) e t tr3(2)
        by (auto simp: sg_concluded_def sg'_def sg3_def filter_empty_conv length_greater_0_conv)
    qed
    ultimately show ?thesis using h(1) p(1,3) run inv' c(4) by blast
  qed
qed

end
