(* ===== verification/Subgraph_Props.thy ===== *)
theory Subgraph_Props
  imports Subgraph_Build Subgraph_Schedule
begin

text \<open>
  The properties of \<^verbatim>\<open>timely/src/progress/subgraph.rs\<close>: a subgraph as the scheduler and the
  parent scope see it, from \<open>build\<close> over \<open>get_internal_summary\<close> to \<open>schedule\<close>.
\<close>

section \<open>The summary presented to the parent\<close>

definition summary_entries :: "('s \<Rightarrow> 'so) \<Rightarrow> (nat \<times> 's port_connectivity) list \<Rightarrow> (nat \<times> nat \<times> 'so) list" where
  "summary_entries summarize rows =
     concat (map (\<lambda>(i, inp). concat (map (\<lambda>(k, outp). map (\<lambda>s. (i, k, summarize s)) (ac_elements outp)) (pc_iter_ports inp))) rows)"

lemma in_summary_entries:
  assumes "(i, inp) \<in> set rows" and "(k, outp) \<in> set (pc_iter_ports inp)" and "s \<in> set (ac_elements outp)"
  shows "(i, k, summarize s) \<in> set (summary_entries summarize rows)"
  unfolding summary_entries_def set_concat set_map
  using assms by (auto intro!: bexI [of _ "(i, inp)"] bexI [of _ "(k, outp)"])

lemma outer_summary_flat:
  "outer_summary sleo summarize rows cs = fold (\<lambda>(i, k, s) acc. do { cs \<leftarrow> acc; pc \<leftarrow> vec_get cs i;
      Some (cs[i := snd (pc_insert sleo k s pc)]) }) (summary_entries summarize rows) (Some cs)"
  unfolding outer_summary_def summary_entries_def fold_concat_map
  by (simp add: case_prod_beta' fold_concat_map fold_map comp_def)

lemma fold_entries_ok:
  assumes po: "partial_order_laws sleo" and "\<forall>(i, k, s) \<in> set es. i < length cs" and "\<forall>i < length cs. pc_inv sleo (cs ! i)"
  shows "\<exists>cs'. fold (\<lambda>(i, k, s) acc. do { cs \<leftarrow> acc; pc \<leftarrow> vec_get cs i;
      Some (cs[i := snd (pc_insert sleo k s pc)]) }) es (Some cs) = Some cs' \<and> length cs' = length cs \<and> (\<forall>i < length cs. pc_inv sleo (cs' ! i))
    \<and> (\<forall>i < length cs. \<forall>k s. (\<exists>x \<in> pc_summaries (cs' ! i) k. sleo x s)
        \<longleftrightarrow> (\<exists>x \<in> pc_summaries (cs ! i) k. sleo x s) \<or> (\<exists>e. (i, k, e) \<in> set es \<and> sleo e s))"
  using assms(2,3)
proof (induction es arbitrary: cs)
  case (Cons e es)
  obtain i k s where e: "e = (i, k, s)" by (metis prod_cases3)
  let ?pc = "snd (pc_insert sleo k s (cs ! i))" and ?f = "\<lambda>(i, k, s) acc. do { cs \<leftarrow> acc; pc \<leftarrow> vec_get cs i; Some (cs[i := snd (pc_insert sleo k s pc)]) }"
  have i: "i < length cs" "pc_inv sleo (cs ! i)" using Cons.prems by (auto simp: e)
  have "\<forall>j < length (cs[i := ?pc]). pc_inv sleo (cs[i := ?pc] ! j)"
  proof (intro allI impI)
    fix j assume "j < length (cs[i := ?pc])"
    then show "pc_inv sleo (cs[i := ?pc] ! j)"
      using Cons.prems(2) partial_order_laws.pc_inv_insert [OF po i(2), of k s] by (cases "j = i") simp_all
  qed
  from Cons.IH [OF _ this] Cons.prems(1) obtain cs' where
    c: "fold ?f es (Some (cs[i := ?pc])) = Some cs'" "length cs' = length cs" "\<forall>i < length cs. pc_inv sleo (cs' ! i)"
      "\<And>j l x. j < length cs \<Longrightarrow> (\<exists>y \<in> pc_summaries (cs' ! j) l. sleo y x)
        \<longleftrightarrow> (\<exists>y \<in> pc_summaries (cs[i := ?pc] ! j) l. sleo y x) \<or> (\<exists>e. (j, l, e) \<in> set es \<and> sleo e x)"
    by (auto simp: e)
  have "(\<exists>y \<in> pc_summaries (cs' ! j) l. sleo y x) \<longleftrightarrow> (\<exists>y \<in> pc_summaries (cs ! j) l. sleo y x) \<or> (\<exists>a. (j, l, a) \<in> set (e # es) \<and> sleo a x)"
    if "j < length cs" for j l x
    using c(4) [OF that] partial_order_laws.pc_insert_covers [OF po i(2), of k s l x] i(1) by (cases "j = i") (auto simp: e)
  moreover have "fold ?f (e # es) (Some cs) = Some cs'" using c(1) i(1) by (simp add: e vec_get_def)
  ultimately show ?case using c(2,3) by blast
qed auto

section \<open>Initial capabilities\<close>

text \<open>A child all of whose ports, and those its edges lead to, are locations of the tracker.\<close>

definition child_fits :: "('t, 's) tracker \<Rightarrow> nat \<Rightarrow> ('t, 's, 'op) child \<Rightarrow> bool" where
  "child_fits tr n c \<longleftrightarrow> length (sp_produceds (ch_shared_progress c)) \<le> length (ch_edges c)
     \<and> (\<forall>p < length (sp_consumeds (ch_shared_progress c)). new_target (ch_index c) p \<in> tr_locs tr)
     \<and> (\<forall>p < length (sp_internals (ch_shared_progress c)). new_source (ch_index c) p \<in> tr_locs tr)
     \<and> (\<forall>p < length (ch_edges c). \<forall>tg \<in> set (ch_edges c ! p). location_of_target tg \<in> tr_locs tr \<and> tgt_node tg < n)"

lemma sg_child_fits:
  assumes inv: "sg_inv leo le sle dflt ri to_outer sg" and i: "i < length (sg_children sg)"
  shows "child_fits (sg_pointstamp_tracker sg) (length (sg_children sg)) (sg_children sg ! i)"
proof -
  have shape: "sg_shape_ok sg" and ti: "tr_inv le ri (sg_pointstamp_tracker sg)"
    using inv by (simp_all add: sg_inv_def sg_tracker_ok_def Let_def)
  have c: "child_ok i (sg_children sg ! i)" using shape i by (simp add: sg_shape_ok_def Let_def)
  have "location_of_target tg \<in> tr_locs (sg_pointstamp_tracker sg) \<and> tgt_node tg < length (sg_children sg)"
    if "p < length (ch_edges (sg_children sg ! i))" "tg \<in> set (ch_edges (sg_children sg ! i) ! p)" for p tg
  proof -
    have l: "location_of_target tg \<in> tr_locs (sg_pointstamp_tracker sg)"
      using edge_targets [OF shape ti i] that c by (simp add: child_ok_def)
    from sg_shape_locs(3) [OF shape this] l show ?thesis by (simp add: location_of_target_def)
  qed
  then show ?thesis using c sg_shape_locs(1,2) [OF shape, of i] i by (simp add: child_fits_def child_ok_def)
qed

lemma produced_nodes_mem:
  "i \<in> produced_nodes edges (enumerate 0 ps) \<Longrightarrow> \<exists>p < length ps. \<exists>tg \<in> set (edges ! p). i = tgt_node tg"
  by (auto simp: produced_nodes_def in_set_enumerate_eq split: if_splits) blast

lemma extract_all_ok:
  assumes "\<forall>c \<in> set cs. child_fits tr n c" and "batch_ok tr ps" and "sorted ta" and "\<forall>i \<in> set ta. i < n"
  shows "\<exists>cs' ps' ta'. extract_all cs (ps, ta) = Some (cs', ps', ta') \<and> list_all2 ran cs cs' \<and> batch_ok tr ps' \<and> sorted ta'
    \<and> (\<forall>i \<in> set ta'. i < n) \<and> (\<forall>k. cb_count ps' k = cb_count ps k + (\<Sum>c \<leftarrow> cs. child_statements c k))"
  using assms
proof (induction cs arbitrary: ps ta)
  case (Cons c cs)
  have fits: "child_fits tr n c" using Cons.prems(1) by simp
  then have len: "length (sp_produceds (ch_shared_progress c)) \<le> length (ch_edges c)" by (simp add: child_fits_def)
  from extract_progress_ok [OF len, of ps ta] obtain c' ps1 ta1 where
    e: "child_extract_progress c (ps, ta) = Some (c', ps1, ta1)" "sorted ta \<longrightarrow> sorted ta1"
      "set ta1 = set ta \<union> produced_nodes (ch_edges c) (enumerate 0 (sp_produceds (ch_shared_progress c)))"
      "\<And>k. cb_count ps1 k = cb_count ps k + child_statements c k" "ran c c'" by (auto simp: ran_def)
  have b1: "batch_ok tr ps1" using extract_batch_ok [OF e(1) Cons.prems(2)] fits by (simp add: child_fits_def)
  have "\<forall>i \<in> set ta1. i < n"
  proof
    fix i assume "i \<in> set ta1"
    with e(3) consider "i \<in> set ta" | "i \<in> produced_nodes (ch_edges c) (enumerate 0 (sp_produceds (ch_shared_progress c)))" by blast
    then show "i < n"
    proof cases
      case 2
      from produced_nodes_mem [OF this] obtain p tg where p: "p < length (sp_produceds (ch_shared_progress c))"
        "tg \<in> set (ch_edges c ! p)" "i = tgt_node tg" by blast
      have "p < length (ch_edges c)" using p(1) len by linarith
      then show ?thesis using p(2,3) fits unfolding child_fits_def by blast
    qed (use Cons.prems(4) in blast)
  qed
  from Cons.IH [OF _ b1 _ this] Cons.prems(1,3) e(2) obtain cs' ps' ta' where
    r: "extract_all cs (ps1, ta1) = Some (cs', ps', ta')" "list_all2 ran cs cs'" "batch_ok tr ps'" "sorted ta'" "\<forall>i \<in> set ta'. i < n"
      "\<And>k. cb_count ps' k = cb_count ps1 k + (\<Sum>c \<leftarrow> cs. child_statements c k)" by auto
  have "extract_all (c # cs) (ps, ta) = Some (c' # cs', ps', ta')" using e(1) r(1) by simp
  moreover have "cb_count ps' k = cb_count ps k + (\<Sum>c \<leftarrow> c # cs. child_statements c k)" for k
    by (simp add: r(6) e(4))
  ultimately show ?case using r(2-5) e(5) by auto
qed simp

lemma ran_shape:
  assumes "list_all2 ran cs cs'"
  shows "map ch_edges cs' = map ch_edges cs" "map (\<lambda>c. (ch_inputs c, ch_outputs c)) cs' = map (\<lambda>c. (ch_inputs c, ch_outputs c)) cs"
    "length cs' = length cs" "\<And>i. i < length cs \<Longrightarrow> child_ok i (cs ! i) \<Longrightarrow> child_ok i (cs' ! i)"
    "\<And>i. i < length cs \<Longrightarrow> ch_inputs (cs' ! i) = ch_inputs (cs ! i) \<and> ch_outputs (cs' ! i) = ch_outputs (cs ! i)"
  using assms by (auto simp: list_all2_conv_all_nth list_eq_iff_nth_eq ran_def child_ok_def)

lemma extract_all_inv:
  assumes inv: "sg_inv leo le sle dflt ri to_outer sg"
  shows "\<exists>cs final ta. extract_all (sg_children sg) (sg_final_pointstamp sg, sg_temp_active sg) = Some (cs, final, ta)
    \<and> sg_inv leo le sle dflt ri to_outer (sg\<lparr>sg_children := cs, sg_final_pointstamp := final, sg_temp_active := ta\<rparr>)
    \<and> (\<forall>k. cb_count final k = cb_count (sg_final_pointstamp sg) k + (\<Sum>c \<leftarrow> sg_children sg. child_statements c k))"
proof -
  have fits: "\<forall>c \<in> set (sg_children sg). child_fits (sg_pointstamp_tracker sg) (length (sg_children sg)) c"
    using sg_child_fits [OF inv] by (metis in_set_conv_nth)
  have pre: "batch_ok (sg_pointstamp_tracker sg) (sg_final_pointstamp sg)" "sorted (sg_temp_active sg)"
    "\<forall>i \<in> set (sg_temp_active sg). i < length (sg_children sg)"
    using inv by (simp_all add: sg_inv_def sg_pointstamps_ok_def sg_active_ok_def)
  from extract_all_ok [OF fits pre] obtain cs final ta where
    e: "extract_all (sg_children sg) (sg_final_pointstamp sg, sg_temp_active sg) = Some (cs, final, ta)"
      "list_all2 ran (sg_children sg) cs" "batch_ok (sg_pointstamp_tracker sg) final" "sorted ta" "\<forall>i \<in> set ta. i < length (sg_children sg)"
      "\<forall>k. cb_count final k = cb_count (sg_final_pointstamp sg) k + (\<Sum>c \<leftarrow> sg_children sg. child_statements c k)"
    by blast
  have "sg_children sg \<noteq> []" using inv by (simp add: sg_inv_def sg_shape_ok_def Let_def)
  then have "sg_inv leo le sle dflt ri to_outer (sg\<lparr>sg_children := cs, sg_final_pointstamp := final, sg_temp_active := ta\<rparr>)"
    using inv e(3-5) ran_shape(1-4) [OF e(2)] ran_shape(5) [OF e(2), of 0]
    unfolding sg_inv_def sg_shape_ok_def sg_tracker_ok_def sg_outputs_ok_def sg_pointstamps_ok_def
      sg_active_ok_def sg_incomplete_ok_def Let_def by auto
  with e(1,6) show ?thesis by blast
qed

lemma get_internal_summary_ok:
  assumes bs: "bounded_summary le sle dflt ri fb" and rl: "refines_laws le sle dflt ri fb leo sleo dflto rio fbo to_inner to_outer summarize"
    and inv: "sg_inv leo le sle dflt ri to_outer sg"
    and ss: "length (sg_scope_summary sg) = sg_inputs sg"
      "\<forall>i < sg_inputs sg. summarizes le ri (sg_pointstamp_tracker sg) (new_source 0 i) (sg_scope_summary sg ! i)"
  shows "\<exists>rows sg1 sg'. get_internal_summary leo le sleo ri to_outer summarize sg = Some (rows, sg_shared_progress sg', sg')
    \<and> sg_inv leo le sle dflt ri to_outer sg' \<and> length rows = sg_inputs sg \<and> sg_propagated leo le ri to_outer sg1 sg'
    \<and> sg_pointstamp_tracker sg1 = sg_pointstamp_tracker sg
    \<and> (\<forall>k. cb_count (sg_final_pointstamp sg1) k = cb_count (sg_final_pointstamp sg) k + (\<Sum>c \<leftarrow> sg_children sg. child_statements c k))
    \<and> (\<forall>i < sg_inputs sg. \<forall>k t u. tr_reaches ri (sg_pointstamp_tracker sg) (new_source 0 i, to_inner t) (scope_output k, u) \<longrightarrow>
        (\<exists>s \<in> pc_summaries (rows ! i) k. \<exists>v. rio s t = Some v \<and> leo v (to_outer u)))"
proof -
  have out: "path_summary leo sleo dflto rio fbo" by (rule refines_laws.axioms(2) [OF rl])
  have po: "timestamp_order leo" and so: "partial_order_laws sleo" and pl: "partial_order_laws leo"
    using path_summary.axioms(1) [OF out] path_summary.summary_order [OF out] timestamp_order.axioms(1) by blast+
  let ?es = "summary_entries summarize (enumerate 0 (sg_scope_summary sg))" and ?cs = "replicate (sg_inputs sg) pc_default"
  have "\<forall>(i, k, s) \<in> set ?es. i < length ?cs" using ss(1) by (auto simp: summary_entries_def in_set_enumerate_eq)
  moreover have "\<forall>i < length ?cs. pc_inv sleo (?cs ! i)" by simp
  ultimately obtain rows where rows: "outer_summary sleo summarize (enumerate 0 (sg_scope_summary sg)) ?cs = Some rows"
    "length rows = sg_inputs sg"
    "\<forall>i < sg_inputs sg. \<forall>k s. (\<exists>x \<in> pc_summaries (rows ! i) k. sleo x s)
        \<longleftrightarrow> (\<exists>x \<in> pc_summaries (?cs ! i) k. sleo x s) \<or> (\<exists>e. (i, k, e) \<in> set ?es \<and> sleo e s)"
    using fold_entries_ok [OF so, of ?es ?cs] unfolding outer_summary_flat length_replicate by blast
  have sound: "\<exists>s \<in> pc_summaries (rows ! i) k. \<exists>v. rio s t = Some v \<and> leo v (to_outer u)"
    if i: "i < sg_inputs sg" and r: "tr_reaches ri (sg_pointstamp_tracker sg) (new_source 0 i, to_inner t) (scope_output k, u)" for i k t u
  proof -
    from ss(2) i r obtain s u1 where s: "s \<in> pc_summaries (sg_scope_summary sg ! i) k" "ri s (to_inner t) = Some u1" "le u1 u"
      unfolding summarizes_def by blast
    then obtain a where a: "pc_get (sg_scope_summary sg ! i) k = Some a" "s \<in> set (ac_elements a)"
      by (auto simp: pc_summaries_def split: option.splits)
    then have "(k, a) \<in> set (pc_iter_ports (sg_scope_summary sg ! i))" by (auto simp: pc_get_def pc_iter_ports_def dest: map_of_SomeD)
    with a(2) i ss(1) have "(i, k, summarize s) \<in> set ?es"
      by (intro in_summary_entries [where inp = "sg_scope_summary sg ! i" and outp = a]) (simp_all add: in_set_enumerate_eq)
    moreover have "sleo (summarize s) (summarize s)" by (rule partial_order_laws.le_refl [OF so])
    ultimately obtain x where x: "x \<in> pc_summaries (rows ! i) k" "sleo x (summarize s)" using rows(3) i by blast
    from refines_laws.summarize_sound [OF rl s(2)] obtain v where v: "rio (summarize s) t = Some v" "leo v (to_outer u1)" by blast
    from path_summary.results_summary_mono [OF out x(2) v(1)] obtain w where w: "rio x t = Some w" "leo w v" by blast
    have "leo (to_outer u1) (to_outer u)" by (rule refines_laws.to_outer_mono [OF rl s(3)])
    with v(2) w(2) have "leo w (to_outer u)" using partial_order_laws.le_trans [OF pl] by blast
    with x(1) w(1) show ?thesis by blast
  qed
  from extract_all_inv [OF inv] obtain cs final ta where
    e: "extract_all (sg_children sg) (sg_final_pointstamp sg, sg_temp_active sg) = Some (cs, final, ta)"
      "sg_inv leo le sle dflt ri to_outer (sg\<lparr>sg_children := cs, sg_final_pointstamp := final, sg_temp_active := ta\<rparr>)"
      "\<forall>k. cb_count final k = cb_count (sg_final_pointstamp sg) k + (\<Sum>c \<leftarrow> sg_children sg. child_statements c k)" by blast
  define sg1 where "sg1 = sg\<lparr>sg_children := cs, sg_final_pointstamp := final, sg_temp_active := ta\<rparr>"
  from propagate_pointstamps_ok [OF bs po refines_laws.to_outer_mono [OF rl] e(2) [folded sg1_def]] obtain sg' where
    p: "propagate_pointstamps leo le ri to_outer sg1 = Some sg'" "sg_inv leo le sle dflt ri to_outer sg'"
      "sg_propagated leo le ri to_outer sg1 sg'" by blast
  have "sg_children sg \<noteq> []" "ch_outputs (sg_children sg ! 0) = sg_inputs sg" "ch_inputs (sg_children sg ! 0) = sg_outputs sg"
    using inv by (simp_all add: sg_inv_def sg_shape_ok_def Let_def)
  then have "get_internal_summary leo le sleo ri to_outer summarize sg = Some (rows, sg_shared_progress sg', sg')"
    using rows(1) e(1) p(1) by (simp add: get_internal_summary_def vec_get_def sg1_def)
  moreover have "sg_pointstamp_tracker sg1 = sg_pointstamp_tracker sg" "sg_final_pointstamp sg1 = final" by (simp_all add: sg1_def)
  ultimately show ?thesis using p(2,3) rows(2) e(3) sound by (intro exI [of _ rows] exI [of _ sg1] exI [of _ sg']) simp
qed

section \<open>An example\<close>

text \<open>
  A scope with one input and one output around one operator that passes its input on, in the
  times of its parent.  The operator counts its calls, stays incomplete and never changes what it shares.
\<close>

definition example_sched :: "(8 word, nat) op_schedule" where
  "example_sched op sp av = Some (True, op + 1, sp, av)"

definition example_sb :: "(8 word, 8 word, 8 word, nat) subgraph_builder" where
  "example_sb =
     (let sb = the (sb_new_from [0]); (_, sb) = sb_new_input cb_new sb; (_, sb) = sb_new_output sb; (i, sb) = sb_allocate_child_id sb;
          sb = the (sb_add_child 0 i False 1 1 True [pc_from_iter [(0, antichain_from_elem 0)]] (sp_new 1 1) sb)
      in sb_connect (Source i 0) (Target 0 0) (sb_connect (Source 0 0) (Target i 0) sb))"

definition example_topology :: "(8 word, 8 word, nat) child list \<times> 8 word builder" where
  "example_topology = the (sb_topology example_sb)"

definition example_sg :: "(8 word, 8 word, 8 word, nat) subgraph" where
  "example_sg = fst (the (sb_build rev (\<le>) 0 checked_add 0 Eager example_sb (av_new False)))"

lemma example_contract: "op_contract example_sched"
  by (auto simp: op_contract_def example_sched_def)

lemma example_sb_ok: "sb_ok example_sb"
proof -
  have "sb_children example_sb \<noteq> []" "map ch_index (sort_key ch_index (sb_children example_sb)) = [0..<length (sb_children example_sb)]"
    "sb_edge_stash example_sb = [(Source 0 0, Target 1 0), (Source 1 0, Target 0 0)]" "sb_shape example_sb = [(1, 1), (1, 1)]"
    "sb_output_capabilities example_sb = [ma_new]" by code_simp+
  moreover have "\<forall>c \<in> set (sb_children example_sb). child_fresh c"
    by (simp add: example_sb_def sb_new_from_def sb_new_input_def sb_new_output_def sb_allocate_child_id_def sb_add_child_def
        child_new_def sb_connect_def child_fresh_def child_ok_def child_empty_def sp_new_def wf_summary_def
        pc_from_iter_def pc_iter_ports_def Let_def)
  ultimately show ?thesis by (simp add: sb_ok_def edge_fits_def)
qed

lemma example_topology_facts:
  "sb_topology example_sb = Some example_topology" "unique_sources (bd_edges (snd example_topology))"
  "builder_is_acyclic id 0 (snd example_topology) = Some True"
proof -
  show "sb_topology example_sb = Some example_topology"
    using sb_topology_ok [OF example_sb_ok] by (auto simp: example_topology_def)
  have "bd_edges (snd example_topology) = [[[Target 1 0]], [[Target 0 0]]]" by code_simp
  then show "unique_sources (bd_edges (snd example_topology))"
    by (simp add: unique_sources_def edge_pairs_def location_of_target_def)
  show "builder_is_acyclic id 0 (snd example_topology) = Some True" by code_simp
qed

lemma example_sg_ok:
  "sg_inv (\<le>) (\<le>) (\<le>) 0 checked_add self_to_outer example_sg
   \<and> length (sg_scope_summary example_sg) = sg_inputs example_sg
   \<and> (\<forall>i < sg_inputs example_sg. summarizes (\<le>) checked_add (sg_pointstamp_tracker example_sg) (new_source 0 i) (sg_scope_summary example_sg ! i))"
proof -
  have perm: "\<And>ks :: location list. mset (rev ks) = mset ks" by simp
  have top: "sb_topology example_sb = Some (fst example_topology, snd example_topology)" using example_topology_facts(1) by simp
  from sb_build_ok [OF unsigned.bounded_summary_axioms unsigned.timestamp_order_axioms _ perm example_sb_ok top example_topology_facts(2,3),
      where w = 0 and mode = Eager and av = "av_new False" and to_outer = self_to_outer]
  obtain sg where "sb_build rev (\<le>) 0 checked_add 0 Eager example_sb (av_new False) = Some (sg, av_activate (sb_path example_sb) (av_new False))"
    "sg_inv (\<le>) (\<le>) (\<le>) 0 checked_add self_to_outer sg" "length (sg_scope_summary sg) = sg_inputs sg"
    "\<forall>i < sg_inputs sg. summarizes (\<le>) checked_add (sg_pointstamp_tracker sg) (new_source 0 i) (sg_scope_summary sg ! i)" by auto
  then show ?thesis by (simp add: example_sg_def)
qed

section \<open>Properties\<close>

text \<open>
  C7: \<open>build\<close> returns, for a scope whose children are numbered and described
  consistently, whose edges connect existing ports, each input fed once, and whose topology is
  acyclic without advancing time, a subgraph that satisfies the invariant, with
  no pointstamp and nothing reported; its scope summary describes exactly the paths from its inputs to its outputs.
\<close>

theorem subgraph_build_correct:
  fixes sb :: "('o::linorder, 't::linorder, 's, 'op) subgraph_builder"
  assumes "bounded_summary le sle dflt ri fb" and "timestamp_order leo" and "finite (UNIV :: 's set)"
    and "\<forall>ks. mset (hash_order ks) = mset ks" and "sb_ok sb" and "sb_topology sb = Some (cs, b)"
    and "unique_sources (bd_edges b)" and "builder_is_acyclic id dflt b = Some True"
  shows "\<exists>sg. sb_build hash_order sle dflt fb w mode sb av = Some (sg, av_activate (sb_path sb) av)
    \<and> sg_inv leo le sle dflt ri to_outer sg \<and> sg_children sg = cs \<and> tr_graph (sg_pointstamp_tracker sg) = b
    \<and> (\<forall>l \<in> tr_locs (sg_pointstamp_tracker sg). tr_pts (sg_pointstamp_tracker sg) l = ma_new \<and> tr_imp (sg_pointstamp_tracker sg) l = ma_new)
    \<and> (\<forall>l t. tr_buffered (sg_pointstamp_tracker sg) l t = 0)
    \<and> length (sg_scope_summary sg) = sg_inputs sg
    \<and> (\<forall>i < sg_inputs sg. summarizes le ri (sg_pointstamp_tracker sg) (new_source 0 i) (sg_scope_summary sg ! i))"
  by (rule sb_build_ok [OF assms(1-3) _ assms(5-8)]) (use assms(4) in blast)

theorem subgraph_build_correct_witness:
  "\<exists>sg. sb_build rev (\<le>) 0 checked_add 0 Demand example_sb (av_new True) = Some (sg, av_activate [0] (av_new True))
     \<and> sg_inv (\<le>) (\<le>) (\<le>) 0 checked_add self_to_outer sg \<and> length (sg_scope_summary sg) = 1"
proof -
  have perm: "\<forall>ks :: location list. mset (rev ks) = mset ks" by simp
  have top: "sb_topology example_sb = Some (fst example_topology, snd example_topology)" using example_topology_facts(1) by simp
  have p: "sb_path example_sb = [0]" "sb_ok example_sb" "length (sb_input_messages example_sb) = 1" using example_sb_ok by (code_simp, simp, code_simp)
  from subgraph_build_correct [OF unsigned.bounded_summary_axioms unsigned.timestamp_order_axioms _ perm p(2) top example_topology_facts(2,3),
      where w = 0 and mode = Demand and av = "av_new True" and to_outer = self_to_outer]
  obtain sg where sg: "sb_build rev (\<le>) 0 checked_add 0 Demand example_sb (av_new True) = Some (sg, av_activate [0] (av_new True))"
    "sg_inv (\<le>) (\<le>) (\<le>) 0 checked_add self_to_outer sg" "length (sg_scope_summary sg) = sg_inputs sg" unfolding p(1) by auto
  have "sg_inputs sg = 1" using sg(1) p(3) unfolding sb_build_eq [OF p(2)] by (auto simp: bind_eq_Some_conv)
  with sg show ?thesis by auto
qed

text \<open>
  C4: \<open>propagate_pointstamps\<close> returns and keeps the invariant.  Every final pointstamp is
  committed exactly once: to the tracker, or, at the scope's own ports, to the consumed and
  produced counts shared with the parent, at outer times.  Each child is told exactly the change of the
  frontiers of its inputs, which are the minimal times that outstanding pointstamps can reach;
  the parent is told exactly the change of the minimal outer times that pointstamps inside the
  scope can reach at each output.
\<close>

theorem propagate_pointstamps_correct:
  assumes "bounded_summary le sle dflt ri fb" and "timestamp_order leo" and "\<forall>a b. le a b \<longrightarrow> leo (to_outer a) (to_outer b)"
    and "sg_inv leo le sle dflt ri to_outer sg"
  shows "\<exists>sg'. propagate_pointstamps leo le ri to_outer sg = Some sg' \<and> sg_inv leo le sle dflt ri to_outer sg'
    \<and> sg_final_pointstamp sg' = cb_new
    \<and> (let tr = sg_pointstamp_tracker sg; tr' = sg_pointstamp_tracker sg'; final = sg_final_pointstamp sg;
          sp = sg_shared_progress sg; sp' = sg_shared_progress sg' in
      (\<forall>l \<in> tr_locs tr. (\<forall>t. ma_count (tr_pts tr' l) t
            = ma_count (tr_pts tr l) t + tr_buffered tr l t + (if loc_node l = 0 then 0 else cb_count final (l, t)))
         \<and> set (ma_frontier (tr_imp tr' l)) = minimals le (reach_times ri tr' l))
      \<and> (\<forall>i < length (sg_children sg). \<forall>p < ch_inputs (sg_children sg ! i). \<forall>t.
           cb_count (sp_frontiers (ch_shared_progress (sg_children sg' ! i)) ! p) t
           = cb_count (sp_frontiers (ch_shared_progress (sg_children sg ! i)) ! p) t
             + of_bool (t \<in> set (ma_frontier (tr_imp tr' (new_target i p)))) - of_bool (t \<in> set (ma_frontier (tr_imp tr (new_target i p)))))
      \<and> (\<forall>p < sg_inputs sg. \<forall>x. cb_count (sp_consumeds sp' ! p) x
           = cb_count (sp_consumeds sp ! p) x - outer_count to_outer (\<lambda>t. cb_count final (new_source 0 p, t)) x)
      \<and> (\<forall>k < sg_outputs sg.
           set (ma_frontier (sg_output_capabilities sg' ! k)) = minimals leo (to_outer ` scope_times ri tr' k)
           \<and> (\<forall>x. cb_count (sp_produceds sp' ! k) x
                 = cb_count (sp_produceds sp ! k) x + outer_count to_outer (\<lambda>t. cb_count final (new_target 0 k, t)) x
               \<and> cb_count (sp_internals sp' ! k) x = cb_count (sp_internals sp ! k) x
                   + of_bool (x \<in> set (ma_frontier (sg_output_capabilities sg' ! k)))
                   - of_bool (x \<in> set (ma_frontier (sg_output_capabilities sg ! k))))))"
proof -
  have mono: "\<And>a b. le a b \<Longrightarrow> leo (to_outer a) (to_outer b)" using assms(3) by blast
  from propagate_pointstamps_ok [OF assms(1,2) mono assms(4)] obtain sg' where
    p: "propagate_pointstamps leo le ri to_outer sg = Some sg'" "sg_inv leo le sle dflt ri to_outer sg'"
      "sg_final_pointstamp sg' = cb_new" "sg_propagated leo le ri to_outer sg sg'" by blast
  show ?thesis using p(1-3) p(4) [unfolded sg_propagated_def Let_def]
    by (intro exI [of _ sg'] conjI) (simp_all add: Let_def)
qed

lemma example_mono: "\<forall>a b. a \<le> b \<longrightarrow> self_to_outer a \<le> self_to_outer (b :: 8 word)"
  by (simp add: self_to_outer_def)

text \<open>Progress at the input and at the output of the operator of the example.\<close>

lemma example_locs:
  "new_target 1 0 \<in> tr_locs (sg_pointstamp_tracker example_sg)" "new_source 1 0 \<in> tr_locs (sg_pointstamp_tracker example_sg)"
proof -
  have "sg_shape_ok example_sg" using example_sg_ok by (simp add: sg_inv_def)
  note l = sg_shape_locs(1,2) [OF this, of 1 0]
  have "map (\<lambda>c. (ch_inputs c, ch_outputs c)) (sg_children example_sg) = [(1, 1), (1, 1)]" by code_simp
  from arg_cong [OF this, of length] arg_cong [OF this, of "\<lambda>xs. xs ! 1"]
  show "new_target 1 0 \<in> tr_locs (sg_pointstamp_tracker example_sg)" "new_source 1 0 \<in> tr_locs (sg_pointstamp_tracker example_sg)"
    using l by simp_all
qed

lemma example_batch:
  "batch_ok (sg_pointstamp_tracker example_sg) (cb_new_from (new_target 1 0, 3) 7)"
  "batch_ok (sg_pointstamp_tracker example_sg) (cb_new_from (new_source 1 0, 5) 1)"
  unfolding cb_new_from_def using example_locs by simp_all

definition example_received :: "(8 word, 8 word, 8 word, nat) subgraph" where
  "example_received = example_sg\<lparr>sg_final_pointstamp :=
     recv_message (1, 0, cb_new_from (new_source 1 0, 5) 1) (sg_final_pointstamp example_sg)\<rparr>"

theorem propagate_pointstamps_correct_witness:
  "\<exists>sg'. propagate_pointstamps (\<le>) (\<le>) checked_add self_to_outer example_received = Some sg'
     \<and> sg_inv (\<le>) (\<le>) (\<le>) 0 checked_add self_to_outer sg' \<and> sg_final_pointstamp sg' = cb_new
     \<and> ma_count (tr_pts (sg_pointstamp_tracker sg') (new_source 1 0)) 5 = 1
     \<and> ma_frontier (sg_output_capabilities sg' ! 0) = [5] \<and> cb_count (sp_internals (sg_shared_progress sg') ! 0) 5 = 1"
proof -
  let ?sg = example_received
  have inv: "sg_inv (\<le>) (\<le>) (\<le>) 0 checked_add self_to_outer ?sg"
    using sg_inv_received [OF conjunct1 [OF example_sg_ok], of "[(1, 0, cb_new_from (new_source 1 0, 5) 1)]" "sg_progcaster example_sg"] example_batch(2)
    by (simp add: example_received_def)
  have e: "sg_outputs ?sg = 1" "map cb_updates (sp_internals (sg_shared_progress ?sg)) = [[]]" "map ma_frontier (sg_output_capabilities ?sg) = [[]]"
    "ma_count (tr_pts (sg_pointstamp_tracker ?sg) (new_source 1 0)) 5 = 0" "tr_buffered (sg_pointstamp_tracker ?sg) (new_source 1 0) 5 = 0"
    "cb_count (sg_final_pointstamp ?sg) (new_source 1 0, 5) = 1"
    "map_option (\<lambda>sg'. map ma_frontier (sg_output_capabilities sg')) (propagate_pointstamps (\<le>) (\<le>) checked_add self_to_outer ?sg) = Some [[5]]"
    by code_simp+
  have l: "new_source 1 0 \<in> tr_locs (sg_pointstamp_tracker ?sg)" "loc_node (new_source 1 0) = 1"
    using example_locs(2) by (simp_all add: example_received_def new_source_def)
  from propagate_pointstamps_correct [OF unsigned.bounded_summary_axioms unsigned.timestamp_order_axioms example_mono inv]
  obtain sg' where p: "propagate_pointstamps (\<le>) (\<le>) checked_add self_to_outer ?sg = Some sg'"
    "sg_inv (\<le>) (\<le>) (\<le>) 0 checked_add self_to_outer sg'" "sg_final_pointstamp sg' = cb_new"
    "ma_count (tr_pts (sg_pointstamp_tracker sg') (new_source 1 0)) 5 = 1"
    "cb_count (sp_internals (sg_shared_progress sg') ! 0) 5 = cb_count (sp_internals (sg_shared_progress ?sg) ! 0) 5
       + of_bool (5 \<in> set (ma_frontier (sg_output_capabilities sg' ! 0))) - of_bool (5 \<in> set (ma_frontier (sg_output_capabilities ?sg ! 0)))"
    using e(1,4-6) l by (auto simp: Let_def)
  have "map ma_frontier (sg_output_capabilities sg') = [[5]]" using p(1) e(7) by simp
  moreover have "cb_updates (sp_internals (sg_shared_progress ?sg) ! 0) = []" "ma_frontier (sg_output_capabilities ?sg ! 0) = []"
    using arg_cong [OF e(2), of "\<lambda>xs. xs ! 0"] arg_cong [OF e(3), of "\<lambda>xs. xs ! 0"] arg_cong [OF e(2), of length] arg_cong [OF e(3), of length] by simp_all
  ultimately show ?thesis using p by (cases "sg_output_capabilities sg'") (simp_all add: cb_count_def)
qed

text \<open>
  C5: \<open>schedule\<close>, in a release build and with operators that return and keep the number of
  their ports, from a state in the invariant with well-formed incoming progress: the only panic
  is that of an operator that was shut down and is told of progress again; otherwise the
  invariant holds again, every child that was active before the loop is run, no child twice and in
  increasing order, each in the state its predecessors left.  The state returned is that after the last child with its
  progress sent as \<open>send_progress\<close> decides, and the scope is activated once more when final pointstamps are
  left.  The answer that nothing is left is given only when no child is incomplete and no pointstamp is outstanding
  anywhere in the scope.
\<close>

theorem subgraph_schedule_correct:
  assumes "bounded_summary le sle dflt ri fb" and "timestamp_order leo" and "\<forall>a b. le a b \<longrightarrow> leo (to_outer a) (to_outer b)"
    and "sg_inv leo le sle dflt ri to_outer sg" and "op_contract sched"
    and "\<forall>m \<in> set (pg_puller (sg_progcaster sg)). batch_ok (sg_pointstamp_tracker sg) (snd (snd m))"
    and "av_for_extensions (sg_path sg) av = Some ext" and "\<forall>i \<in> set ext. i < length (sg_children sg)"
  shows "\<exists>sg0 sg1. harvest_inputs (accept_frontier to_inner sg) = Some sg0
    \<and> propagate_pointstamps leo le ri to_outer (sg_receive sg0) = Some sg1
    \<and> ((\<exists>j < length (sg_children sg1). 0 < j \<and> premature (sg_children sg1 ! j))
      \<or> (\<exists>is sg2 av2 r sg' av'. subgraph_schedule False leo le ri to_inner to_outer sched sg av = Some (r, sg', av')
          \<and> sg_inv leo le sle dflt ri to_outer sg' \<and> child_runs le sched is sg1 av sg2 av2 \<and> sg_concluded le sg2 av2 r sg' av'
          \<and> sorted_wrt (<) (0 # is) \<and> {i \<in> set ext \<union> set (sg_temp_active sg1). 0 < i} \<subseteq> set is
          \<and> (\<not> r \<longrightarrow> (\<forall>b \<in> set (sg_incomplete sg'). \<not> b)
               \<and> (\<forall>l \<in> tr_locs (sg_pointstamp_tracker sg'). \<forall>t. ma_count (tr_pts (sg_pointstamp_tracker sg') l) t \<le> 0))))"
proof -
  have mono: "\<And>a b. le a b \<Longrightarrow> leo (to_outer a) (to_outer b)" using assms(3) by blast
  show ?thesis using subgraph_schedule_ok [OF assms(1,2) mono assms(4-8), of to_inner] by blast
qed

lemma example_scheduled:
  "\<exists>r sg' av'. subgraph_schedule False (\<le>) (\<le>) checked_add self_to_inner self_to_outer example_sched example_sg
       (av_activate [0, 1] (av_new False)) = Some (r, sg', av') \<and> r \<and> map ch_operator (sg_children sg') = [None, Some 1]"
proof -
  have "map_option (\<lambda>(r, sg', av'). (r, map ch_operator (sg_children sg'))) (subgraph_schedule False (\<le>) (\<le>) checked_add self_to_inner self_to_outer
      example_sched example_sg (av_activate [0, 1] (av_new False))) = Some (True, [None, Some 1])" by code_simp
  then show ?thesis by auto
qed

theorem subgraph_schedule_correct_witness:
  "\<exists>is sg1 sg2 av2 r sg' av'. subgraph_schedule False (\<le>) (\<le>) checked_add self_to_inner self_to_outer example_sched example_sg
       (av_activate [0, 1] (av_new False)) = Some (r, sg', av')
     \<and> sg_inv (\<le>) (\<le>) (\<le>) 0 checked_add self_to_outer sg' \<and> sorted_wrt (<) ((0 :: nat) # is) \<and> 1 \<in> set is
     \<and> map ch_operator (sg_children sg1) = [None, Some 0] \<and> child_runs (\<le>) example_sched is sg1 (av_activate [0, 1] (av_new False)) sg2 av2
     \<and> sg_concluded (\<le>) sg2 av2 r sg' av' \<and> map ch_operator (sg_children sg') = [None, Some 1] \<and> r"
proof -
  let ?av = "av_activate [0, 1] (av_new False)"
  have e: "av_for_extensions (sg_path example_sg) ?av = Some [1]" "length (sg_children example_sg) = 2"
    "pg_puller (sg_progcaster example_sg) = []" "map_option (\<lambda>sg0. map_option (\<lambda>sg1. map ch_operator (sg_children sg1))
        (propagate_pointstamps (\<le>) (\<le>) checked_add self_to_outer (sg_receive sg0)))
      (harvest_inputs (accept_frontier self_to_inner example_sg)) = Some (Some [None, Some 0])" by code_simp+
  have "\<forall>m \<in> set (pg_puller (sg_progcaster example_sg)). batch_ok (sg_pointstamp_tracker example_sg) (snd (snd m))"
    "\<forall>i \<in> set [1 :: nat]. i < length (sg_children example_sg)" by (simp_all add: e)
  from subgraph_schedule_correct [OF unsigned.bounded_summary_axioms unsigned.timestamp_order_axioms example_mono
      conjunct1 [OF example_sg_ok] example_contract this(1) e(1) this(2), of self_to_inner]
  obtain sg0 sg1 where s: "harvest_inputs (accept_frontier self_to_inner example_sg) = Some sg0"
    "propagate_pointstamps (\<le>) (\<le>) checked_add self_to_outer (sg_receive sg0) = Some sg1"
    "(\<exists>j < length (sg_children sg1). 0 < j \<and> premature (sg_children sg1 ! j))
      \<or> (\<exists>is sg2 av2 r sg' av'. subgraph_schedule False (\<le>) (\<le>) checked_add self_to_inner self_to_outer example_sched example_sg ?av = Some (r, sg', av')
          \<and> sg_inv (\<le>) (\<le>) (\<le>) 0 checked_add self_to_outer sg' \<and> child_runs (\<le>) example_sched is sg1 ?av sg2 av2 \<and> sg_concluded (\<le>) sg2 av2 r sg' av'
          \<and> sorted_wrt (<) (0 # is) \<and> {i \<in> set [1] \<union> set (sg_temp_active sg1). 0 < i} \<subseteq> set is)"
    by (elim exE conjE) (rule that, assumption, assumption, blast)
  have ops: "map ch_operator (sg_children sg1) = [None, Some 0]" using e(4) s(1,2) by simp
  have "\<not> premature (sg_children sg1 ! j)" if "j < length (sg_children sg1)" "0 < j" for j
  proof -
    have "j = 1" using arg_cong [OF ops, of length] that by simp
    then have "ch_operator (sg_children sg1 ! j) = Some 0" using arg_cong [OF ops, of "\<lambda>xs. xs ! 1"] that by simp
    then show ?thesis by (simp add: premature_def)
  qed
  with s(3) obtain "is" sg2 av2 r sg' av' where r:
    "subgraph_schedule False (\<le>) (\<le>) checked_add self_to_inner self_to_outer example_sched example_sg ?av = Some (r, sg', av')"
    "sg_inv (\<le>) (\<le>) (\<le>) 0 checked_add self_to_outer sg'" "child_runs (\<le>) example_sched is sg1 ?av sg2 av2" "sg_concluded (\<le>) sg2 av2 r sg' av'"
    "sorted_wrt (<) (0 # is)" "{i \<in> set [1] \<union> set (sg_temp_active sg1). 0 < i} \<subseteq> set is" by blast
  have "1 \<in> set is" using r(6) by auto
  moreover have "r" "map ch_operator (sg_children sg') = [None, Some 1]" using example_scheduled r(1) by auto
  ultimately show ?thesis
    using r(1-5) ops by - (rule exI [of _ "is"], rule exI [of _ sg1], rule exI [of _ sg2], rule exI [of _ av2], rule exI [of _ r],
      rule exI [of _ sg'], rule exI [of _ av'], intro conjI)
qed

text \<open>
  C6: \<open>get_internal_summary\<close> returns and keeps the invariant; the initial capabilities of the
  children are committed; and the summary it presents is sound for the parent: whenever a time that
  enters the scope at an input could result in a time at an output, along any path of the scope,
  the parent's summary yields from the outer time at the input an outer time that is not later.
\<close>

theorem get_internal_summary_correct:
  assumes "bounded_summary le sle dflt ri fb" and "refines_laws le sle dflt ri fb leo sleo dflto rio fbo to_inner to_outer summarize"
    and "sg_inv leo le sle dflt ri to_outer sg" and "length (sg_scope_summary sg) = sg_inputs sg"
    and "\<forall>i < sg_inputs sg. summarizes le ri (sg_pointstamp_tracker sg) (new_source 0 i) (sg_scope_summary sg ! i)"
  shows "\<exists>rows sg'. get_internal_summary leo le sleo ri to_outer summarize sg = Some (rows, sg_shared_progress sg', sg')
    \<and> sg_inv leo le sle dflt ri to_outer sg' \<and> length rows = sg_inputs sg
    \<and> (\<forall>l \<in> tr_locs (sg_pointstamp_tracker sg). \<forall>t. loc_node l \<noteq> 0 \<longrightarrow>
         ma_count (tr_pts (sg_pointstamp_tracker sg') l) t
         = ma_count (tr_pts (sg_pointstamp_tracker sg) l) t + tr_buffered (sg_pointstamp_tracker sg) l t
           + cb_count (sg_final_pointstamp sg) (l, t) + (\<Sum>c \<leftarrow> sg_children sg. child_statements c (l, t)))
    \<and> (\<forall>i < sg_inputs sg. \<forall>k t u. tr_reaches ri (sg_pointstamp_tracker sg) (new_source 0 i, to_inner t) (scope_output k, u) \<longrightarrow>
        (\<exists>s \<in> pc_summaries (rows ! i) k. \<exists>v. rio s t = Some v \<and> leo v (to_outer u)))"
proof -
  from get_internal_summary_ok [OF assms] obtain rows sg1 sg' where
    g: "get_internal_summary leo le sleo ri to_outer summarize sg = Some (rows, sg_shared_progress sg', sg')"
      "sg_inv leo le sle dflt ri to_outer sg'" "length rows = sg_inputs sg" "sg_propagated leo le ri to_outer sg1 sg'"
      "sg_pointstamp_tracker sg1 = sg_pointstamp_tracker sg"
      "\<forall>k. cb_count (sg_final_pointstamp sg1) k = cb_count (sg_final_pointstamp sg) k + (\<Sum>c \<leftarrow> sg_children sg. child_statements c k)"
      "\<forall>i < sg_inputs sg. \<forall>k t u. tr_reaches ri (sg_pointstamp_tracker sg) (new_source 0 i, to_inner t) (scope_output k, u) \<longrightarrow>
        (\<exists>s \<in> pc_summaries (rows ! i) k. \<exists>v. rio s t = Some v \<and> leo v (to_outer u))" by (elim exE conjE) (rule that; assumption)
  show ?thesis using g(1-3,7) g(4) [unfolded sg_propagated_def Let_def g(5)] g(6)
    by (intro exI [of _ rows] exI [of _ sg'] conjI) auto
qed

lemma self_refines: "refines_laws (\<le>) (\<le>) 0 checked_add checked_add (\<le>) (\<le>) 0 checked_add checked_add
    self_to_inner self_to_outer (self_summarize :: 'w::len word \<Rightarrow> 'w word)"
  by unfold_locales (auto simp: self_to_inner_def self_to_outer_def self_summarize_def)

theorem get_internal_summary_correct_witness:
  "\<exists>rows sg'. get_internal_summary (\<le>) (\<le>) (\<le>) checked_add self_to_outer self_summarize example_sg = Some (rows, sg_shared_progress sg', sg')
     \<and> length rows = 1 \<and> pc_summaries (rows ! 0) 0 = {0}
     \<and> (\<forall>t u. tr_reaches checked_add (sg_pointstamp_tracker example_sg) (new_source 0 0, t) (scope_output 0, u) \<longrightarrow> t \<le> u)"
proof -
  have i: "sg_inputs example_sg = 1" by code_simp
  from get_internal_summary_correct [OF unsigned.bounded_summary_axioms self_refines conjunct1 [OF example_sg_ok]
      conjunct1 [OF conjunct2 [OF example_sg_ok]] conjunct2 [OF conjunct2 [OF example_sg_ok]]]
  obtain rows sg' where g: "get_internal_summary (\<le>) (\<le>) (\<le>) checked_add self_to_outer self_summarize example_sg = Some (rows, sg_shared_progress sg', sg')"
    "length rows = 1" "\<forall>k t u. tr_reaches checked_add (sg_pointstamp_tracker example_sg) (new_source 0 0, t) (scope_output k, u) \<longrightarrow>
        (\<exists>s \<in> pc_summaries (rows ! 0) k. \<exists>v. checked_add s t = Some v \<and> v \<le> u)"
    unfolding i by (auto simp: self_to_inner_def self_to_outer_def)
  have "map_option (\<lambda>x. map_option ac_elements (pc_get (fst x ! 0) 0))
      (get_internal_summary (\<le>) (\<le>) (\<le>) checked_add self_to_outer self_summarize example_sg) = Some (Some [0])" by code_simp
  with g(1) have p: "pc_summaries (rows ! 0) 0 = {0}" by (auto simp: pc_summaries_def)
  have "t \<le> u" if "tr_reaches checked_add (sg_pointstamp_tracker example_sg) (new_source 0 0, t) (scope_output 0, u)" for t u
  proof -
    from g(3) that obtain s v where v: "s \<in> pc_summaries (rows ! 0) 0" "checked_add s t = Some v" "v \<le> u" by blast
    then have "v = t" using p unsigned.results_default [of t] by simp
    with v(3) show ?thesis by simp
  qed
  with g(1,2) p show ?thesis by blast
qed

text \<open>
  The loop of \<open>schedule\<close> over the heap of active children ends, although children put
  others on the heap while it runs: it runs every child above \<open>previous\<close> that was active, each once, in increasing
  order, and leaves the heap empty; the counter of incomplete children stays the number of children whose
  last answer was "incomplete" and never underflows.
\<close>

theorem schedule_children_correct:
  assumes "sg_inv leo le sle dflt ri to_outer sg" and "op_contract sched"
    and "\<forall>j < length (sg_children sg). previous < j \<longrightarrow> \<not> premature (sg_children sg ! j)"
  shows "\<exists>is sg' av'. schedule_children False le sched previous sg av = Some (sg', av')
    \<and> sg_temp_active sg' = [] \<and> child_runs le sched is sg av sg' av'
    \<and> sorted_wrt (<) (previous # is) \<and> {j \<in> set (sg_temp_active sg). previous < j} \<subseteq> set is
    \<and> sg_incomplete_count sg' = length (filter id (sg_incomplete sg'))"
proof -
  from schedule_children_ok [OF assms] obtain "is" sg' av' where
    r: "schedule_children False le sched previous sg av = Some (sg', av')" "sg_inv leo le sle dflt ri to_outer sg'"
      "sg_temp_active sg' = []" "child_runs le sched is sg av sg' av'" "sorted_wrt (<) (previous # is)"
      "{j \<in> set (sg_temp_active sg). previous < j} \<subseteq> set is" by blast
  then show ?thesis by (auto simp: sg_inv_def sg_incomplete_ok_def)
qed

theorem schedule_children_correct_witness:
  "\<exists>is sg' av'. schedule_children False (\<le>) example_sched 0 (example_sg\<lparr>sg_temp_active := [1]\<rparr>) (av_new False) = Some (sg', av')
     \<and> 1 \<in> set is \<and> sorted_wrt (<) ((0 :: nat) # is) \<and> sg_incomplete_count sg' = length (filter id (sg_incomplete sg'))"
proof -
  let ?sg = "example_sg\<lparr>sg_temp_active := [1]\<rparr>"
  have c: "map ch_operator (sg_children example_sg) = [None, Some 0]" by code_simp
  have "length (sg_children example_sg) = 2" using arg_cong [OF c, of length] by simp
  moreover from this have "ch_operator (sg_children example_sg ! 1) = Some 0" using arg_cong [OF c, of "\<lambda>xs. xs ! 1"] by simp
  ultimately have "\<forall>j < length (sg_children ?sg). 0 < j \<longrightarrow> \<not> premature (sg_children ?sg ! j)"
    "sg_inv (\<le>) (\<le>) (\<le>) 0 checked_add self_to_outer ?sg"
    using sg_inv_active [OF conjunct1 [OF example_sg_ok], of "[1]"] by (auto simp: less_2_cases_iff premature_def)
  from schedule_children_correct [OF this(2) example_contract this(1), of "av_new False"] show ?thesis by auto
qed

text \<open>
  \<open>activate_child\<close> runs the child's operator once and moves exactly what the
  child then states, consumed messages as subtractions at its inputs, internal changes at its outputs, produced
  messages at the targets of its edges, to the local or the final pointstamps according to
  whether the child is local; nothing else in flight changes and no other child is touched.
\<close>

theorem activate_child_correct:
  assumes "sg_inv leo le sle dflt ri to_outer sg" and "op_contract sched" and "i < length (sg_children sg)"
    and "\<not> premature (sg_children sg ! i)"
  shows "\<exists>r c sg' av'. child_schedule sched (sg_children sg ! i) av = Some (r, c, av')
    \<and> activate_child False le sched i sg av = Some (r, sg', av')
    \<and> sg_inv leo le sle dflt ri to_outer sg' \<and> sg_incomplete sg' = (sg_incomplete sg)[i := r]
    \<and> (\<forall>j. j \<noteq> i \<longrightarrow> sg_children sg' ! j = sg_children sg ! j)
    \<and> (\<forall>k. cb_count (if ch_local c then sg_local_pointstamp sg' else sg_final_pointstamp sg') k
          = cb_count (if ch_local c then sg_local_pointstamp sg else sg_final_pointstamp sg) k + child_statements c k)
    \<and> (\<forall>k. sg_pending sg' k = sg_pending sg k + child_statements c k)"
  using activate_child_ok [OF assms, of av] by blast

theorem activate_child_correct_witness:
  "\<exists>r c sg' av'. child_schedule example_sched (sg_children example_sg ! 1) (av_new False) = Some (r, c, av')
     \<and> activate_child False (\<le>) example_sched 1 example_sg (av_new False) = Some (r, sg', av')
     \<and> (\<forall>k. sg_pending sg' k = sg_pending example_sg k + child_statements c k)"
proof -
  have c: "map ch_operator (sg_children example_sg) = [None, Some 0]" by code_simp
  have l: "1 < length (sg_children example_sg)" using arg_cong [OF c, of length] by simp
  moreover from this have "\<not> premature (sg_children example_sg ! 1)"
    using arg_cong [OF c, of "\<lambda>xs. xs ! 1"] by (simp add: premature_def)
  ultimately show ?thesis
    using activate_child_correct [OF conjunct1 [OF example_sg_ok] example_contract, of 1 "av_new False"] by blast
qed

text \<open>
  C34: \<open>send_progress\<close> returns; what leaves the local pointstamps is exactly what the messages
  handed to the other workers carry; in eager mode, and in demand mode when a local subtraction
  would be visible in the frontier of its location, everything is sent; otherwise nothing is.
\<close>

theorem send_progress_correct:
  assumes "sg_inv leo le sle dflt ri to_outer sg"
  shows "\<exists>sg' ms. send_progress le sg = Some sg' \<and> sg_inv leo le sle dflt ri to_outer sg'
    \<and> pg_pusher (sg_progcaster sg') = pg_pusher (sg_progcaster sg) @ ms
    \<and> (\<forall>k. cb_count (sg_local_pointstamp sg') k + msgs_count ms k = cb_count (sg_local_pointstamp sg) k)
    \<and> (if sg_progress_mode sg = Eager \<or> (\<exists>k. visible_subtraction le sg k) then \<forall>k. cb_count (sg_local_pointstamp sg') k = 0
       else ms = [])"
proof -
  from send_progress_ok [OF assms] obtain pg local ms where
    s: "send_progress le sg = Some (sg\<lparr>sg_progcaster := pg, sg_local_pointstamp := local\<rparr>)"
      "sg_inv leo le sle dflt ri to_outer (sg\<lparr>sg_progcaster := pg, sg_local_pointstamp := local\<rparr>)"
      "pg_pusher pg = pg_pusher (sg_progcaster sg) @ ms"
      "\<forall>k. cb_count local k + msgs_count ms k = cb_count (sg_local_pointstamp sg) k"
      "if sg_progress_mode sg = Eager \<or> (\<exists>k. visible_subtraction le sg k) then \<forall>k. cb_count local k = 0
       else ms = [] \<and> (\<forall>k. cb_count local k = cb_count (sg_local_pointstamp sg) k)" by (elim exE conjE) (rule that; assumption)
  then show ?thesis by (intro exI [of _ "sg\<lparr>sg_progcaster := pg, sg_local_pointstamp := local\<rparr>"] exI [of _ ms]) (simp split: if_splits)
qed

theorem send_progress_correct_witness:
  "\<exists>sg' ms. send_progress (\<le>) (example_sg\<lparr>sg_local_pointstamp := cb_new_from (new_target 1 0, 3) 7\<rparr>) = Some sg'
     \<and> (\<forall>k. cb_count (sg_local_pointstamp sg') k = 0)
     \<and> pg_pusher (sg_progcaster sg') = ms \<and> msgs_count ms (new_target 1 0, 3) = 7"
proof -
  let ?sg = "example_sg\<lparr>sg_progcaster := sg_progcaster example_sg, sg_local_pointstamp := cb_new_from (new_target 1 0, 3) 7\<rparr>"
  have e: "sg_progress_mode example_sg = Eager" "pg_pusher (sg_progcaster example_sg) = []" by code_simp+
  have "sg_inv (\<le>) (\<le>) (\<le>) 0 checked_add self_to_outer ?sg" by (rule sg_inv_local [OF conjunct1 [OF example_sg_ok] example_batch(1)])
  from send_progress_correct [OF this] obtain sg' ms where s: "send_progress (\<le>) ?sg = Some sg'"
    "pg_pusher (sg_progcaster sg') = ms" "\<forall>k. cb_count (sg_local_pointstamp sg') k = 0"
    "\<forall>k. msgs_count ms k = cb_count (cb_new_from (new_target 1 0, 3) 7) k" by (auto simp: e)
  then show ?thesis by simp
qed

text \<open>
  \<open>harvest_inputs\<close> returns, empties the message counts of all inputs and moves each count
  to the targets its input is connected to, taking it off the scope's own source: nothing is
  counted twice and nothing is lost.
\<close>

theorem harvest_inputs_correct:
  assumes "sg_inv leo le sle dflt ri to_outer sg"
  shows "\<exists>local. harvest_inputs sg = Some (sg\<lparr>sg_input_messages := replicate (sg_inputs sg) cb_new, sg_local_pointstamp := local\<rparr>)
    \<and> sg_inv leo le sle dflt ri to_outer (sg\<lparr>sg_input_messages := replicate (sg_inputs sg) cb_new, sg_local_pointstamp := local\<rparr>)
    \<and> (\<forall>l t. cb_count local (l, t) = cb_count (sg_local_pointstamp sg) (l, t)
        + (\<Sum>p \<leftarrow> [0..<sg_inputs sg]. cb_count (sg_input_messages sg ! p) t
            * (int (count_list (map location_of_target (ch_edges (sg_children sg ! 0) ! p)) l) - of_bool (l = new_source 0 p))))"
  using harvest_inputs_ok [OF assms] unfolding harvest_weight_def by blast

theorem harvest_inputs_correct_witness:
  "\<exists>local. harvest_inputs (example_sg\<lparr>sg_input_messages := [cb_new_from 3 7]\<rparr>)
       = Some (example_sg\<lparr>sg_input_messages := [cb_new], sg_local_pointstamp := local\<rparr>)
     \<and> cb_count local (new_target 1 0, 3) = 7 \<and> cb_count local (new_source 0 0, 3) = - 7"
proof -
  let ?sg = "example_sg\<lparr>sg_input_messages := [cb_new_from 3 7]\<rparr>"
  have e: "sg_inputs example_sg = 1" "map ch_edges (sg_children example_sg) = [[[Target 1 0]], [[Target 0 0]]]"
    "cb_updates (sg_local_pointstamp example_sg) = []" by code_simp+
  have e0: "ch_edges (sg_children example_sg ! 0) = [[Target 1 0]]"
    using arg_cong [OF e(2), of "\<lambda>xs. xs ! 0"] arg_cong [OF e(2), of length] by simp
  have "sg_inv (\<le>) (\<le>) (\<le>) 0 checked_add self_to_outer ?sg"
    using example_sg_ok e(1) unfolding sg_inv_def sg_shape_ok_def sg_tracker_ok_def sg_outputs_ok_def sg_pointstamps_ok_def
      sg_active_ok_def sg_incomplete_ok_def Let_def by simp
  from harvest_inputs_correct [OF this] obtain local where
    h: "harvest_inputs ?sg = Some (example_sg\<lparr>sg_input_messages := [cb_new], sg_local_pointstamp := local\<rparr>)"
      "\<forall>l t. cb_count local (l, t) = cb_count (cb_new_from 3 7) t
            * (int (count_list (map location_of_target [Target 1 0]) l) - of_bool (l = new_source 0 0))"
    by (auto simp: e e0 cb_count_def)
  then show ?thesis by (intro exI [of _ local]) (simp add: location_of_target_def new_target_def new_source_def)
qed

end
