(* ===== verification/Capability.thy ===== *)
theory Capability
  imports Operate Activate
begin

text \<open>
  \<^verbatim>\<open>timely/src/dataflow/operators/capability.rs\<close>, with the guard and the counters of
  \<^verbatim>\<open>timely/src/dataflow/channels/pullers/counter.rs\<close> and
  \<^verbatim>\<open>timely/src/dataflow/channels/pushers/counter.rs\<close>.

  The change batches that capabilities, guards and counters share (\<open>Rc<RefCell<ChangeBatch<T>>>\<close>)
  live in a store, a function of their addresses, and \<open>Rc::ptr_eq\<close> is equality of addresses.
  Dropping a value is an operation of its own, applied where Rust drops.  The shared lists an
  input capability refers to are only changed while the operator is built, so it carries their
  contents.
\<close>

section \<open>Capabilities\<close>

type_synonym 't buffers = "nat \<Rightarrow> 't change_batch"

definition buf_update :: "nat \<Rightarrow> 't::linorder \<Rightarrow> int \<Rightarrow> 't buffers \<Rightarrow> 't buffers" where
  "buf_update a t d h = h(a := cb_update t d (h a))"

record 't capability =
  cap_time :: 't
  cap_internal :: nat

definition cap_valid_for_output :: "'t capability \<Rightarrow> nat \<Rightarrow> bool" where
  "cap_valid_for_output c query_buffer \<longleftrightarrow> cap_internal c = query_buffer"

definition cap_new :: "'t::linorder \<Rightarrow> nat \<Rightarrow> 't buffers \<Rightarrow> 't capability \<times> 't buffers" where
  "cap_new time internal h = (\<lparr>cap_time = time, cap_internal = internal\<rparr>, buf_update internal time 1 h)"

definition cap_try_delayed ::
  "('t \<Rightarrow> 't \<Rightarrow> bool) \<Rightarrow> 't::linorder capability \<Rightarrow> 't \<Rightarrow> 't buffers \<Rightarrow> ('t capability \<times> 't buffers) option" where
  "cap_try_delayed le c new_time h =
     (if le (cap_time c) new_time then Some (cap_new new_time (cap_internal c) h) else None)"

text \<open>\<open>delayed\<close> and \<open>downgrade\<close> panic (\<open>None\<close>) where the \<open>try_\<close> variants report.\<close>

definition cap_delayed ::
  "('t \<Rightarrow> 't \<Rightarrow> bool) \<Rightarrow> 't::linorder capability \<Rightarrow> 't \<Rightarrow> 't buffers \<Rightarrow> ('t capability \<times> 't buffers) option" where
  "cap_delayed le c new_time h = cap_try_delayed le c new_time h"

definition cap_drop :: "'t::linorder capability \<Rightarrow> 't buffers \<Rightarrow> 't buffers" where
  "cap_drop c h = buf_update (cap_internal c) (cap_time c) (- 1) h"

datatype downgrade_error = DowngradeError

definition cap_try_downgrade ::
  "('t \<Rightarrow> 't \<Rightarrow> bool) \<Rightarrow> 't::linorder capability \<Rightarrow> 't \<Rightarrow> 't buffers
   \<Rightarrow> (downgrade_error + unit) \<times> 't capability \<times> 't buffers" where
  "cap_try_downgrade le c new_time h =
     (case cap_try_delayed le c new_time h of
        Some (new_capability, h) \<Rightarrow> (Inr (), new_capability, cap_drop c h)
      | None \<Rightarrow> (Inl DowngradeError, c, h))"

definition cap_downgrade ::
  "('t \<Rightarrow> 't \<Rightarrow> bool) \<Rightarrow> 't::linorder capability \<Rightarrow> 't \<Rightarrow> 't buffers \<Rightarrow> ('t capability \<times> 't buffers) option" where
  "cap_downgrade le c new_time h =
     (case cap_try_downgrade le c new_time h of (Inr _, c', h') \<Rightarrow> Some (c', h') | (Inl _, _) \<Rightarrow> None)"

definition cap_clone :: "'t::linorder capability \<Rightarrow> 't buffers \<Rightarrow> 't capability \<times> 't buffers" where
  "cap_clone c h = cap_new (cap_time c) (cap_internal c) h"

definition cap_eq :: "'t capability \<Rightarrow> 't capability \<Rightarrow> bool" where
  "cap_eq c d \<longleftrightarrow> cap_time c = cap_time d \<and> cap_internal c = cap_internal d"

definition cap_less_equal :: "('t \<Rightarrow> 't \<Rightarrow> bool) \<Rightarrow> 't capability \<Rightarrow> 't capability \<Rightarrow> bool" where
  "cap_less_equal le c d \<longleftrightarrow> le (cap_time c) (cap_time d) \<and> cap_internal c = cap_internal d"

section \<open>Counters and guards of the data path\<close>

text \<open>
  A message is its time and its container, a list of records.  The guard's \<open>time\<close> is an
  option only so that \<open>drop\<close> can take it.
\<close>

type_synonym ('t, 'd) message = "'t \<times> 'd list"

record 't consumed_guard =
  cg_consumed :: nat
  cg_time :: 't
  cg_record_count :: int

definition guard_drop :: "'t::linorder consumed_guard \<Rightarrow> 't buffers \<Rightarrow> 't buffers" where
  "guard_drop g h = buf_update (cg_consumed g) (cg_time g) (cg_record_count g) h"

text \<open>The puller is the list of messages it will yield.\<close>

definition next_guarded ::
  "nat \<Rightarrow> ('t, 'd) message list \<Rightarrow> ('t consumed_guard \<times> ('t, 'd) message \<times> ('t, 'd) message list) option" where
  "next_guarded consumed pullable =
     (case pullable of
        [] \<Rightarrow> None
      | m # ms \<Rightarrow> Some (\<lparr>cg_consumed = consumed, cg_time = fst m, cg_record_count = int (length (snd m))\<rparr>, m, ms))"

text \<open>
  The pushing counter: it forwards a flush (\<open>None\<close>) only when something was produced.  The
  pushee is the list of what was pushed to it.
\<close>

definition counter_push ::
  "nat \<Rightarrow> ('t::linorder, 'd) message option \<Rightarrow> 't buffers \<Rightarrow> ('t, 'd) message option list
   \<Rightarrow> 't buffers \<times> ('t, 'd) message option list" where
  "counter_push produced message h pushee =
     (let h = (case message of Some (time, data) \<Rightarrow> buf_update produced time (int (length data)) h | None \<Rightarrow> h)
      in if message \<noteq> None then (h, pushee @ [message])
         else let (empty, b) = cb_is_empty (h produced)
              in (h(produced := b), if \<not> empty then pushee @ [message] else pushee))"

section \<open>Input capabilities\<close>

record ('t, 's) input_capability =
  ic_internal :: "nat list"
  ic_summaries :: "'s port_connectivity"
  ic_guard :: "'t consumed_guard"

definition ic_time :: "('t, 's) input_capability \<Rightarrow> 't" where
  "ic_time c = cg_time (ic_guard c)"

text \<open>Indexing the list of buffers out of range panics.\<close>

definition ic_valid_for_output :: "'s \<Rightarrow> ('t, 's) input_capability \<Rightarrow> nat \<Rightarrow> nat \<Rightarrow> bool option" where
  "ic_valid_for_output dflt c query_buffer port =
     do { a \<leftarrow> vec_get (ic_internal c) port;
          Some (a = query_buffer
                \<and> (case pc_get (ic_summaries c) port of None \<Rightarrow> False | Some path \<Rightarrow> ac_elements path = [dflt])) }"

definition some_result_le ::
  "('t \<Rightarrow> 't \<Rightarrow> bool) \<Rightarrow> ('s \<Rightarrow> 't \<Rightarrow> 't option) \<Rightarrow> 's antichain \<Rightarrow> 't \<Rightarrow> 't \<Rightarrow> bool" where
  "some_result_le le ri path time new_time \<longleftrightarrow>
     list_ex (\<lambda>s. case ri s time of None \<Rightarrow> False | Some time' \<Rightarrow> le time' new_time) (ac_elements path)"

definition ic_delayed_for_output ::
  "('t \<Rightarrow> 't \<Rightarrow> bool) \<Rightarrow> ('s \<Rightarrow> 't \<Rightarrow> 't option) \<Rightarrow> ('t::linorder, 's) input_capability \<Rightarrow> 't \<Rightarrow> nat \<Rightarrow> 't buffers
   \<Rightarrow> ('t capability \<times> 't buffers) option" where
  "ic_delayed_for_output le ri c new_time output_port h =
     do { path \<leftarrow> pc_get (ic_summaries c) output_port;
          if some_result_le le ri path (ic_time c) new_time
          then do { a \<leftarrow> vec_get (ic_internal c) output_port; Some (cap_new new_time a h) }
          else None }"

definition ic_delayed ::
  "('t \<Rightarrow> 't \<Rightarrow> bool) \<Rightarrow> ('s \<Rightarrow> 't \<Rightarrow> 't option) \<Rightarrow> ('t::linorder, 's) input_capability \<Rightarrow> 't \<Rightarrow> 't buffers
   \<Rightarrow> ('t capability \<times> 't buffers) option" where
  "ic_delayed le ri c new_time h = ic_delayed_for_output le ri c new_time 0 h"

definition ic_drop :: "('t::linorder, 's) input_capability \<Rightarrow> 't buffers \<Rightarrow> 't buffers" where
  "ic_drop c h = guard_drop (ic_guard c) h"

text \<open>\<open>retain_for_output\<close> takes the input capability and drops it on return.\<close>

definition ic_retain_for_output ::
  "('t \<Rightarrow> 't \<Rightarrow> bool) \<Rightarrow> ('s \<Rightarrow> 't \<Rightarrow> 't option) \<Rightarrow> ('t::linorder, 's) input_capability \<Rightarrow> nat \<Rightarrow> 't buffers
   \<Rightarrow> ('t capability \<times> 't buffers) option" where
  "ic_retain_for_output le ri c output_port h =
     do { path \<leftarrow> pc_get (ic_summaries c) output_port;
          if some_result_le le ri path (ic_time c) (ic_time c)
          then do { a \<leftarrow> vec_get (ic_internal c) output_port;
                    let (d, h) = cap_new (ic_time c) a h;
                    Some (d, ic_drop c h) }
          else None }"

definition ic_retain ::
  "('t \<Rightarrow> 't \<Rightarrow> bool) \<Rightarrow> ('s \<Rightarrow> 't \<Rightarrow> 't option) \<Rightarrow> ('t::linorder, 's) input_capability \<Rightarrow> 't buffers
   \<Rightarrow> ('t capability \<times> 't buffers) option" where
  "ic_retain le ri c h = ic_retain_for_output le ri c 0 h"

section \<open>Activating capabilities\<close>

record 't activate_capability =
  acap_capability :: "'t capability"
  acap_address :: path

definition acap_delayed ::
  "('t \<Rightarrow> 't \<Rightarrow> bool) \<Rightarrow> 't::linorder activate_capability \<Rightarrow> 't \<Rightarrow> 't buffers
   \<Rightarrow> ('t activate_capability \<times> 't buffers) option" where
  "acap_delayed le c time h =
     map_option (\<lambda>(d, h). (\<lparr>acap_capability = d, acap_address = acap_address c\<rparr>, h)) (cap_delayed le (acap_capability c) time h)"

definition acap_downgrade ::
  "('t \<Rightarrow> 't \<Rightarrow> bool) \<Rightarrow> 't::linorder activate_capability \<Rightarrow> 't \<Rightarrow> 't buffers \<Rightarrow> activations
   \<Rightarrow> ('t activate_capability \<times> 't buffers \<times> activations) option" where
  "acap_downgrade le c time h av =
     map_option (\<lambda>(d, h). (c\<lparr>acap_capability := d\<rparr>, h, av_activate (acap_address c) av))
       (cap_downgrade le (acap_capability c) time h)"

text \<open>The activation of \<open>drop\<close> is followed by the drop of the capability inside.\<close>

definition acap_drop :: "'t::linorder activate_capability \<Rightarrow> 't buffers \<Rightarrow> activations \<Rightarrow> 't buffers \<times> activations" where
  "acap_drop c h av = (cap_drop (acap_capability c) h, av_activate (acap_address c) av)"

section \<open>Capability sets\<close>

type_synonym 't capability_set = "'t capability list"

definition cs_new :: "'t capability_set" where
  "cs_new = []"

definition cs_from_elem :: "'t capability \<Rightarrow> 't capability_set" where
  "cs_from_elem c = [c]"

definition cs_insert ::
  "('t \<Rightarrow> 't \<Rightarrow> bool) \<Rightarrow> 't::linorder capability \<Rightarrow> 't capability_set \<times> 't buffers \<Rightarrow> 't capability_set \<times> 't buffers" where
  "cs_insert le c csh =
     (let (cs, h) = csh in
      if list_ex (\<lambda>d. cap_less_equal le d c) cs then (cs, cap_drop c h)
      else (filter (\<lambda>d. \<not> cap_less_equal le c d) cs @ [c], fold cap_drop (filter (cap_less_equal le c) cs) h))"

definition cs_try_delayed ::
  "('t \<Rightarrow> 't \<Rightarrow> bool) \<Rightarrow> 't::linorder capability_set \<Rightarrow> 't \<Rightarrow> 't buffers \<Rightarrow> ('t capability \<times> 't buffers) option" where
  "cs_try_delayed le cs time h =
     (case find (\<lambda>c. le (cap_time c) time) cs of None \<Rightarrow> None | Some c \<Rightarrow> cap_try_delayed le c time h)"

definition cs_delayed ::
  "('t \<Rightarrow> 't \<Rightarrow> bool) \<Rightarrow> 't::linorder capability_set \<Rightarrow> 't \<Rightarrow> 't buffers \<Rightarrow> ('t capability \<times> 't buffers) option" where
  "cs_delayed le cs time h = cs_try_delayed le cs time h"

text \<open>The loop of \<open>try_downgrade\<close> stops at the first time it has no capability for.\<close>

fun cs_push_delayed ::
  "('t \<Rightarrow> 't \<Rightarrow> bool) \<Rightarrow> 't::linorder list \<Rightarrow> 't capability_set \<Rightarrow> 't buffers
   \<Rightarrow> (downgrade_error + unit) \<times> 't capability_set \<times> 't buffers" where
  "cs_push_delayed le [] cs h = (Inr (), cs, h)"
| "cs_push_delayed le (time # frontier) cs h =
     (case cs_try_delayed le cs time h of
        None \<Rightarrow> (Inl DowngradeError, cs, h)
      | Some (capability, h) \<Rightarrow> cs_push_delayed le frontier (cs @ [capability]) h)"

definition cs_try_downgrade ::
  "('t \<Rightarrow> 't \<Rightarrow> bool) \<Rightarrow> 't::linorder list \<Rightarrow> 't capability_set \<Rightarrow> 't buffers
   \<Rightarrow> (downgrade_error + unit) \<times> 't capability_set \<times> 't buffers" where
  "cs_try_downgrade le frontier cs h =
     (case cs_push_delayed le frontier cs h of
        (Inl e, cs', h') \<Rightarrow> (Inl e, cs', h')
      | (Inr _, cs', h') \<Rightarrow> (Inr (), drop (length cs) cs', fold cap_drop (take (length cs) cs') h'))"

definition cs_downgrade ::
  "('t \<Rightarrow> 't \<Rightarrow> bool) \<Rightarrow> 't::linorder list \<Rightarrow> 't capability_set \<Rightarrow> 't buffers \<Rightarrow> ('t capability_set \<times> 't buffers) option" where
  "cs_downgrade le frontier cs h =
     (case cs_try_downgrade le frontier cs h of (Inl _, _) \<Rightarrow> None | (Inr _, csh) \<Rightarrow> Some csh)"

definition cs_from :: "('t \<Rightarrow> 't \<Rightarrow> bool) \<Rightarrow> 't::linorder capability list \<Rightarrow> 't buffers \<Rightarrow> 't capability_set \<times> 't buffers" where
  "cs_from le capabilities h = fold (cs_insert le) capabilities (cs_new, h)"

section \<open>Accounting\<close>

text \<open>How many of a list of capabilities are at a time on a buffer.\<close>

definition holds :: "'t capability list \<Rightarrow> nat \<Rightarrow> 't \<Rightarrow> int" where
  "holds cs a t = int (length (filter (\<lambda>c. cap_internal c = a \<and> cap_time c = t) cs))"

lemma holds_simps [simp, count_simps]:
  "holds [] a t = 0"
  "holds (c # cs) a t = of_bool (cap_internal c = a \<and> cap_time c = t) + holds cs a t"
  "holds (cs @ ds) a t = holds cs a t + holds ds a t"
  by (simp_all add: holds_def)

lemma holds_nonneg [simp]: "0 \<le> holds cs a t"
  by (simp add: holds_def)

lemma holds_pos_iff: "0 < holds cs a t \<longleftrightarrow> (\<exists>c \<in> set cs. cap_internal c = a \<and> cap_time c = t)"
  by (auto simp: holds_def filter_empty_conv)

lemma holds_partition: "holds (filter P cs) a t + holds (filter (\<lambda>c. \<not> P c) cs) a t = holds cs a t"
  by (induction cs) auto

lemma holds_take_drop: "holds (take n cs) a t + holds (drop n cs) a t = holds cs a t"
  by (metis append_take_drop_id holds_simps(3))

lemma buf_update_count [simp, count_simps]:
  "cb_count (buf_update a t d h b) u = cb_count (h b) u + (if a = b \<and> t = u then d else 0)"
  by (simp add: buf_update_def)

lemma cap_drop_count [simp, count_simps]: "cb_count (cap_drop c h a) t = cb_count (h a) t - holds [c] a t"
  by (simp add: cap_drop_def)

lemma fold_drop_count [simp, count_simps]: "cb_count (fold cap_drop cs h a) t = cb_count (h a) t - holds cs a t"
  by (induction cs arbitrary: h) auto

lemma cap_new_count:
  "cap_new time a h = (c, h') \<Longrightarrow> cb_count (h' b) t = cb_count (h b) t + holds [c] b t"
  by (auto simp: cap_new_def)

text \<open>The capabilities \<open>cs\<close> are accounted for by \<open>h\<close> relative to a fixed base.\<close>

definition unaccounted :: "'t capability list \<Rightarrow> 't buffers \<Rightarrow> nat \<Rightarrow> 't \<Rightarrow> int" where
  "unaccounted cs h a t = cb_count (h a) t - holds cs a t"

lemma cap_try_delayed_Some:
  "cap_try_delayed le c t h = Some (d, h') \<longleftrightarrow>
     le (cap_time c) t \<and> d = \<lparr>cap_time = t, cap_internal = cap_internal c\<rparr> \<and> h' = buf_update (cap_internal c) t 1 h"
  by (auto simp: cap_try_delayed_def cap_new_def)

lemma cs_try_delayed_Some:
  assumes "cs_try_delayed le cs t h = Some (d, h')"
  obtains c where "c \<in> set cs" "cap_less_equal le c d" "cap_time d = t" "unaccounted (cs @ [d]) h' = unaccounted cs h"
proof -
  from assms obtain c where "c \<in> set cs" and c: "cap_try_delayed le c t h = Some (d, h')"
    by (auto simp: cs_try_delayed_def find_Some_iff split: option.splits intro: nth_mem)
  with c show thesis
    by (intro that [of c]) (auto simp: cap_try_delayed_Some cap_less_equal_def unaccounted_def fun_eq_iff)
qed

lemma cs_try_delayed_None:
  "cs_try_delayed le cs t h = None \<longleftrightarrow> (\<forall>c \<in> set cs. \<not> le (cap_time c) t)"
proof
  assume "cs_try_delayed le cs t h = None"
  then show "\<forall>c \<in> set cs. \<not> le (cap_time c) t"
    by (auto simp: cs_try_delayed_def cap_try_delayed_def find_None_iff find_Some_iff split: option.splits if_splits)
next
  assume "\<forall>c \<in> set cs. \<not> le (cap_time c) t"
  then show "cs_try_delayed le cs t h = None" by (simp add: cs_try_delayed_def find_None_iff [THEN iffD2])
qed

lemma cap_order_trans: "timestamp_order le \<Longrightarrow> le a b \<Longrightarrow> le b c \<Longrightarrow> le a c"
  unfolding timestamp_order_def partial_order_laws_def by blast

lemma cap_less_equal_trans:
  assumes "timestamp_order le" and "cap_less_equal le c d" and "cap_less_equal le d e"
  shows "cap_less_equal le c e"
  using assms(2,3) cap_order_trans [OF assms(1)] by (auto simp: cap_less_equal_def)

lemma cs_push_delayed_ok:
  assumes "timestamp_order le" and "cs_push_delayed le frontier (cs @ ds) h = (r, cs', h')"
    and "\<forall>d \<in> set ds. \<exists>c \<in> set cs. cap_less_equal le c d"
  shows "\<exists>es. cs' = cs @ ds @ es \<and> (\<forall>e \<in> set es. \<exists>c \<in> set cs. cap_less_equal le c e)
    \<and> unaccounted cs' h' = unaccounted (cs @ ds) h
    \<and> (r = Inr () \<longleftrightarrow> (\<forall>t \<in> set frontier. \<exists>c \<in> set cs. le (cap_time c) t))
    \<and> (r = Inr () \<longrightarrow> map cap_time es = frontier)"
  using assms(2,3)
proof (induction frontier arbitrary: ds h)
  case Nil
  then show ?case by (intro exI [of _ "[]"]) auto
next
  case (Cons t frontier)
  have below: "(\<exists>c \<in> set (cs @ ds). le (cap_time c) t) \<longleftrightarrow> (\<exists>c \<in> set cs. le (cap_time c) t)"
    using Cons.prems(2) cap_order_trans [OF assms(1)] by (fastforce simp: cap_less_equal_def)
  show ?case
  proof (cases "cs_try_delayed le (cs @ ds) t h")
    case None
    then have "\<not> (\<exists>c \<in> set cs. le (cap_time c) t)" using below by (simp add: cs_try_delayed_None)
    with None Cons.prems show ?thesis by (intro exI [of _ "[]"]) auto
  next
    case (Some dh)
    obtain d h1 where dh: "dh = (d, h1)" by (cases dh)
    from cs_try_delayed_Some [OF Some [unfolded dh]] obtain c where
      c: "c \<in> set (cs @ ds)" "cap_less_equal le c d" "cap_time d = t"
      and u: "unaccounted ((cs @ ds) @ [d]) h1 = unaccounted (cs @ ds) h" .
    have d: "\<exists>c \<in> set cs. cap_less_equal le c d"
    proof (cases "c \<in> set cs")
      case False
      with c(1) Cons.prems(2) obtain b where "b \<in> set cs" "cap_less_equal le b c" by auto
      with c(2) cap_less_equal_trans [OF assms(1)] show ?thesis by blast
    qed (use c(2) in blast)
    with c(3) have t: "\<exists>c \<in> set cs. le (cap_time c) t" by (auto simp: cap_less_equal_def)
    have "cs_push_delayed le frontier (cs @ (ds @ [d])) h1 = (r, cs', h')"
      using Cons.prems(1) Some dh by simp
    from Cons.IH [OF this] Cons.prems(2) d obtain es where
      es: "cs' = cs @ (ds @ [d]) @ es" "\<forall>e \<in> set es. \<exists>c \<in> set cs. cap_less_equal le c e"
      "unaccounted cs' h' = unaccounted (cs @ (ds @ [d])) h1"
      "r = Inr () \<longleftrightarrow> (\<forall>t \<in> set frontier. \<exists>c \<in> set cs. le (cap_time c) t)"
      "r = Inr () \<longrightarrow> map cap_time es = frontier" by fastforce
    show ?thesis using es u d t c(3) by (intro exI [of _ "d # es"]) auto
  qed
qed

text \<open>
  C36: downgrading a capability set to a frontier succeeds exactly when every time of the frontier
  is in advance of a capability of the set.  Then the set holds one capability for each time of
  the frontier, each reached from an old one on the same buffer; otherwise it keeps every old
  capability, followed by those already made.  Either way the shared counts change by exactly
  the change of the capabilities held: no capability is leaked and none is released twice.
\<close>

theorem cs_try_downgrade_correct:
  assumes "timestamp_order le" and "cs_try_downgrade le frontier cs h = (r, cs', h')"
  shows "(r = Inr () \<longleftrightarrow> (\<forall>t \<in> set frontier. \<exists>c \<in> set cs. le (cap_time c) t))
    \<and> (if r = Inr () then map cap_time cs' = frontier \<and> (\<forall>d \<in> set cs'. \<exists>c \<in> set cs. cap_less_equal le c d)
       else \<exists>ds. cs' = cs @ ds \<and> (\<forall>d \<in> set ds. \<exists>c \<in> set cs. cap_less_equal le c d))
    \<and> (\<forall>a t. cb_count (h' a) t - cb_count (h a) t = holds cs' a t - holds cs a t)"
proof -
  obtain r1 cs1 h1 where p: "cs_push_delayed le frontier cs h = (r1, cs1, h1)"
    by (cases "cs_push_delayed le frontier cs h")
  from cs_push_delayed_ok [OF assms(1), of frontier cs "[]" h r1 cs1 h1] p obtain es where
    es: "cs1 = cs @ es" "\<forall>e \<in> set es. \<exists>c \<in> set cs. cap_less_equal le c e" "unaccounted cs1 h1 = unaccounted cs h"
    "r1 = Inr () \<longleftrightarrow> (\<forall>t \<in> set frontier. \<exists>c \<in> set cs. le (cap_time c) t)" "r1 = Inr () \<longrightarrow> map cap_time es = frontier"
    by auto
  have u: "cb_count (h1 a) t - holds cs1 a t = cb_count (h a) t - holds cs a t" for a t
    using es(3) by (simp add: unaccounted_def fun_eq_iff)
  show ?thesis
  proof (cases r1)
    case (Inl e)
    with assms(2) p have "r = Inl e" "cs' = cs1" "h' = h1" by (simp_all add: cs_try_downgrade_def)
    with Inl es u show ?thesis by (simp add: algebra_simps)
  next
    case (Inr x)
    with assms(2) p es(1) have "r = Inr ()" "cs' = es" "h' = fold cap_drop cs h1" by (auto simp: cs_try_downgrade_def)
    with Inr es u show ?thesis by (simp add: algebra_simps)
  qed
qed

theorem cs_try_downgrade_correct_witness:
  "\<exists>h'. cs_try_downgrade (\<le>) [4, 2 :: 8 word] [\<lparr>cap_time = 1, cap_internal = 0\<rparr>] (\<lambda>_. cb_new)
         = (Inr (), [\<lparr>cap_time = 4, cap_internal = 0\<rparr>, \<lparr>cap_time = 2, cap_internal = 0\<rparr>], h')
     \<and> cb_count (h' 0) 1 = - 1 \<and> cb_count (h' 0) 2 = 1"
proof -
  define c where "c = \<lparr>cap_time = 1 :: 8 word, cap_internal = 0\<rparr>"
  obtain r cs' h' where d: "cs_try_downgrade (\<le>) [4, 2] [c] (\<lambda>_. cb_new) = (r, cs', h')"
    by (cases "cs_try_downgrade (\<le>) [4, 2] [c] (\<lambda>_. cb_new)")
  have e: "r = Inr ()" "cs' = [\<lparr>cap_time = 4, cap_internal = 0\<rparr>, \<lparr>cap_time = 2, cap_internal = 0\<rparr>]"
    using d by (simp_all add: cs_try_downgrade_def cs_try_delayed_def cap_try_delayed_def cap_new_def c_def)
  from cs_try_downgrade_correct [OF unsigned.timestamp_order_axioms d]
  have "cb_count (h' a) t = holds cs' a t - holds [c] a t" for a t by (auto simp: algebra_simps)
  with d e show ?thesis by (simp add: c_def)
qed

text \<open>Inserting into a capability set: what is redundant is dropped, and nothing else.\<close>

lemma cs_insert_count:
  assumes "cs_insert le c (cs, h) = (cs', h')"
  shows "unaccounted cs' h' = unaccounted (c # cs) h"
proof (cases "list_ex (\<lambda>d. cap_less_equal le d c) cs")
  case True
  with assms have "cs' = cs" "h' = cap_drop c h" by (simp_all add: cs_insert_def)
  then show ?thesis by (simp add: unaccounted_def fun_eq_iff)
next
  case False
  have "holds (filter (cap_less_equal le c) cs) a t = holds cs a t - holds (filter (\<lambda>d. \<not> cap_less_equal le c d) cs) a t" for a t
    using holds_partition [of "cap_less_equal le c" cs a t] by simp
  moreover have "cs' = filter (\<lambda>d. \<not> cap_less_equal le c d) cs @ [c]" "h' = fold cap_drop (filter (cap_less_equal le c) cs) h"
    using False assms by (simp_all add: cs_insert_def)
  ultimately show ?thesis by (simp add: unaccounted_def fun_eq_iff)
qed

definition cs_inv :: "('t \<Rightarrow> 't \<Rightarrow> bool) \<Rightarrow> 't capability_set \<Rightarrow> bool" where
  "cs_inv le cs \<longleftrightarrow> sorted_wrt (\<lambda>c d. \<not> cap_less_equal le c d \<and> \<not> cap_less_equal le d c) cs"

lemma cs_insert_ok:
  assumes "timestamp_order le" and "cs_insert le c (cs, h) = (cs', h')" and "cs_inv le cs"
  shows "cs_inv le cs' \<and> set cs' \<subseteq> insert c (set cs) \<and> (\<forall>d \<in> insert c (set cs). \<exists>e \<in> set cs'. cap_less_equal le e d)"
proof (cases "list_ex (\<lambda>d. cap_less_equal le d c) cs")
  case True
  moreover have "cap_less_equal le d d" for d
    using assms(1) by (simp add: cap_less_equal_def timestamp_order_def partial_order_laws_def)
  ultimately show ?thesis using assms(2,3) by (auto simp: cs_insert_def list_ex_iff)
next
  case False
  have r: "cap_less_equal le d d" for d
    using assms(1) by (simp add: cap_less_equal_def timestamp_order_def partial_order_laws_def)
  have c': "cs' = filter (\<lambda>d. \<not> cap_less_equal le c d) cs @ [c]" using False assms(2) by (simp add: cs_insert_def)
  have "cs_inv le cs'" using assms(3) False
    by (auto simp: c' cs_inv_def sorted_wrt_append sorted_wrt_filter list_ex_iff)
  moreover have "\<exists>e \<in> set cs'. cap_less_equal le e d" if "d \<in> insert c (set cs)" for d
    using that r by (cases "cap_less_equal le c d") (auto simp: c')
  ultimately show ?thesis by (auto simp: c')
qed

text \<open>
  collecting capabilities into a set drops exactly the redundant ones: the result holds
  pairwise incomparable capabilities, all from the collection, below every capability of the
  collection; and the shared counts are those of the capabilities that are kept.
\<close>

theorem cs_from_correct:
  assumes "timestamp_order le" and "cs_from le capabilities h = (cs, h')"
  shows "cs_inv le cs \<and> set cs \<subseteq> set capabilities \<and> (\<forall>c \<in> set capabilities. \<exists>d \<in> set cs. cap_less_equal le d c)
    \<and> (\<forall>a t. cb_count (h' a) t - cb_count (h a) t = holds cs a t - holds capabilities a t)"
proof -
  have "cs_inv le cs \<and> set cs \<subseteq> set cs0 \<union> set capabilities \<and> (\<forall>c \<in> set cs0 \<union> set capabilities. \<exists>d \<in> set cs. cap_less_equal le d c)
    \<and> unaccounted cs h' = unaccounted (cs0 @ capabilities) h"
    if "fold (cs_insert le) capabilities (cs0, h) = (cs, h')" "cs_inv le cs0" for cs0
    using that
  proof (induction capabilities arbitrary: cs0 h)
    case Nil
    have "cap_less_equal le d d" for d
      using assms(1) by (simp add: cap_less_equal_def timestamp_order_def partial_order_laws_def)
    with Nil show ?case by auto
  next
    case (Cons c capabilities)
    obtain cs1 h1 where i: "cs_insert le c (cs0, h) = (cs1, h1)" by (cases "cs_insert le c (cs0, h)")
    note o1 = cs_insert_ok [OF assms(1) i Cons.prems(2)] and u1 = cs_insert_count [OF i]
    have "fold (cs_insert le) capabilities (cs1, h1) = (cs, h')" using Cons.prems(1) i by simp
    note o2 = Cons.IH [OF this conjunct1 [OF o1]]
    have "\<exists>d \<in> set cs. cap_less_equal le d x" if "x \<in> insert c (set cs0) \<union> set capabilities" for x
    proof (cases "x \<in> set capabilities")
      case False
      with that o1 obtain e where e: "e \<in> set cs1" "cap_less_equal le e x" by blast
      with o2 obtain d where "d \<in> set cs" "cap_less_equal le d e" by blast
      with e cap_less_equal_trans [OF assms(1)] show ?thesis by blast
    qed (use o2 in blast)
    moreover have "unaccounted cs h' = unaccounted (cs0 @ c # capabilities) h"
    proof (intro ext)
      fix a t
      have "unaccounted cs h' a t = unaccounted (cs1 @ capabilities) h1 a t" using o2 by simp
      also have "\<dots> = unaccounted (c # cs0) h a t - holds capabilities a t" using u1 by (simp add: unaccounted_def fun_eq_iff)
      finally show "unaccounted cs h' a t = unaccounted (cs0 @ c # capabilities) h a t" by (simp add: unaccounted_def)
    qed
    ultimately show ?case using o1 o2 by auto
  qed
  from this [of "[]"] assms(2) show ?thesis
    by (auto simp: cs_from_def cs_new_def cs_inv_def unaccounted_def fun_eq_iff algebra_simps)
qed

theorem cs_from_correct_witness:
  "\<exists>cs h'. cs_from (\<le>) [\<lparr>cap_time = 3 :: 8 word, cap_internal = 0\<rparr>, \<lparr>cap_time = 1, cap_internal = 0\<rparr>] (\<lambda>_. cb_new) = (cs, h')
     \<and> cs = [\<lparr>cap_time = 1, cap_internal = 0\<rparr>] \<and> cb_count (h' 0) 3 = - 1"
proof -
  define cs0 where "cs0 = [\<lparr>cap_time = 3 :: 8 word, cap_internal = 0\<rparr>, \<lparr>cap_time = 1, cap_internal = 0\<rparr>]"
  obtain cs h' where d: "cs_from (\<le>) cs0 (\<lambda>_. cb_new) = (cs, h')" by (cases "cs_from (\<le>) cs0 (\<lambda>_. cb_new)")
  have e: "cs = [\<lparr>cap_time = 1, cap_internal = 0\<rparr>]"
    using d by (simp add: cs_from_def cs_insert_def cs_new_def cap_less_equal_def cs0_def word_le_nat_alt)
  from cs_from_correct [OF unsigned.timestamp_order_axioms d]
  have "cb_count (h' 0) 3 - cb_count cb_new (3 :: 8 word) = holds cs 0 3 - holds cs0 0 3" by blast
  then have "cb_count (h' 0) 3 = - 1" by (simp add: e cs0_def)
  with d e show ?thesis unfolding cs0_def by blast
qed

end
