(* ===== verification/Operator_Builder.thy ===== *)
theory Operator_Builder
  imports Capability
begin

text \<open>
  \<^verbatim>\<open>timely/src/dataflow/operators/generic/builder_raw.rs\<close> and
  \<^verbatim>\<open>timely/src/dataflow/operators/generic/builder_rc.rs\<close>: how an operator is described,
  and the operator that \<open>build_reschedule\<close> makes of user logic.

  New shared batches are allocated in the store at the next free address.  The scope's answers
  (the operator's index, its address and the number of peers) are arguments of \<open>new\<close>.
\<close>

section \<open>The raw builder\<close>

record 's raw_builder =
  rb_index :: nat
  rb_address :: path
  rb_notify :: bool
  rb_peers :: nat
  rb_inputs :: nat
  rb_outputs :: nat
  rb_summary :: "'s connectivity"

definition rb_new :: "nat \<Rightarrow> path \<Rightarrow> nat \<Rightarrow> 's raw_builder" where
  "rb_new index address peers =
     \<lparr>rb_index = index, rb_address = address, rb_notify = True, rb_peers = peers, rb_inputs = 0, rb_outputs = 0, rb_summary = []\<rparr>"

definition rb_set_notify :: "bool \<Rightarrow> 's raw_builder \<Rightarrow> 's raw_builder" where
  "rb_set_notify notify b = b\<lparr>rb_notify := notify\<rparr>"

text \<open>A new input is connected to its stream as the returned target; summaries to outputs that do not exist panic.\<close>

definition rb_new_input_connection ::
  "(nat \<times> 's antichain) list \<Rightarrow> 's raw_builder \<Rightarrow> (target \<times> 's raw_builder) option" where
  "rb_new_input_connection connection b =
     (let connectivity = pc_from_iter connection
      in if list_all (\<lambda>(k, _). k < rb_outputs b) (pc_iter_ports connectivity)
         then Some (Target (rb_index b) (rb_inputs b),
                    b\<lparr>rb_inputs := rb_inputs b + 1, rb_summary := rb_summary b @ [connectivity]\<rparr>)
         else None)"

definition default_connection :: "'s \<Rightarrow> nat \<Rightarrow> (nat \<times> 's antichain) list" where
  "default_connection dflt n = map (\<lambda>k. (k, antichain_from_elem dflt)) [0..<n]"

definition rb_new_input :: "'s \<Rightarrow> 's raw_builder \<Rightarrow> (target \<times> 's raw_builder) option" where
  "rb_new_input dflt b = rb_new_input_connection (default_connection dflt (rb_outputs b)) b"

fun add_ports :: "nat \<Rightarrow> (nat \<times> 's antichain) list \<Rightarrow> 's connectivity \<Rightarrow> 's connectivity option" where
  "add_ports new_output [] summary = Some summary"
| "add_ports new_output ((inp, entry) # connection) summary =
     do { pc \<leftarrow> vec_get summary inp;
          pc \<leftarrow> pc_add_port new_output entry pc;
          add_ports new_output connection (summary[inp := pc]) }"

definition rb_new_output_connection ::
  "(nat \<times> 's antichain) list \<Rightarrow> 's raw_builder \<Rightarrow> (source \<times> 's raw_builder) option" where
  "rb_new_output_connection connection b =
     do { summary \<leftarrow> add_ports (rb_outputs b) connection (rb_summary b);
          Some (Source (rb_index b) (rb_outputs b), b\<lparr>rb_outputs := rb_outputs b + 1, rb_summary := summary\<rparr>) }"

definition rb_new_output :: "'s \<Rightarrow> 's raw_builder \<Rightarrow> (source \<times> 's raw_builder) option" where
  "rb_new_output dflt b = rb_new_output_connection (default_connection dflt (rb_inputs b)) b"

section \<open>The builder of operators with capabilities\<close>

record 't store =
  st_buffers :: "'t buffers"
  st_next :: nat

definition st_alloc :: "'t store \<Rightarrow> nat \<times> 't store" where
  "st_alloc st = (st_next st, st\<lparr>st_buffers := (st_buffers st)(st_next st := cb_new), st_next := st_next st + 1\<rparr>)"

record ('t, 's) operator_builder =
  ob_builder :: "'s raw_builder"
  ob_frontier :: "'t mutable_antichain list"
  ob_consumed :: "nat list"
  ob_internal :: "nat list"
  ob_summaries :: "'s connectivity"
  ob_produced :: "nat list"

definition ob_new :: "nat \<Rightarrow> path \<Rightarrow> nat \<Rightarrow> ('t, 's) operator_builder" where
  "ob_new index address peers =
     \<lparr>ob_builder = rb_new index address peers, ob_frontier = [], ob_consumed = [], ob_internal = [], ob_summaries = [], ob_produced = []\<rparr>"

definition ob_set_notify :: "bool \<Rightarrow> ('t, 's) operator_builder \<Rightarrow> ('t, 's) operator_builder" where
  "ob_set_notify notify b = b\<lparr>ob_builder := rb_set_notify notify (ob_builder b)\<rparr>"

definition ob_new_input_connection ::
  "(nat \<times> 's antichain) list \<Rightarrow> ('t, 's) operator_builder \<times> 't store \<Rightarrow> (target \<times> ('t, 's) operator_builder \<times> 't store) option" where
  "ob_new_input_connection connection bs =
     (let (b, st) = bs in
      do { (target, raw) \<leftarrow> rb_new_input_connection connection (ob_builder b);
           let (consumed, st) = st_alloc st;
           Some (target,
             b\<lparr>ob_builder := raw, ob_frontier := ob_frontier b @ [ma_new], ob_consumed := ob_consumed b @ [consumed],
               ob_summaries := ob_summaries b @ [pc_from_iter connection]\<rparr>, st) })"

definition ob_new_input ::
  "'s \<Rightarrow> ('t, 's) operator_builder \<times> 't store \<Rightarrow> (target \<times> ('t, 's) operator_builder \<times> 't store) option" where
  "ob_new_input dflt bs = ob_new_input_connection (default_connection dflt (rb_outputs (ob_builder (fst bs)))) bs"

definition ob_new_output_connection ::
  "(nat \<times> 's antichain) list \<Rightarrow> ('t, 's) operator_builder \<times> 't store \<Rightarrow> (source \<times> ('t, 's) operator_builder \<times> 't store) option" where
  "ob_new_output_connection connection bs =
     (let (b, st) = bs; new_output = rb_outputs (ob_builder b) in
      do { (source, raw) \<leftarrow> rb_new_output_connection connection (ob_builder b);
           let (internal, st) = st_alloc st;
           let (produced, st) = st_alloc st;
           summaries \<leftarrow> add_ports new_output connection (ob_summaries b);
           Some (source,
             b\<lparr>ob_builder := raw, ob_internal := ob_internal b @ [internal], ob_produced := ob_produced b @ [produced],
               ob_summaries := summaries\<rparr>, st) })"

definition ob_new_output ::
  "'s \<Rightarrow> ('t, 's) operator_builder \<times> 't store \<Rightarrow> (source \<times> ('t, 's) operator_builder \<times> 't store) option" where
  "ob_new_output dflt bs = ob_new_output_connection (default_connection dflt (rb_inputs (ob_builder (fst bs)))) bs"

section \<open>The operator\<close>

text \<open>The operator core together with what its logic captures.\<close>

record ('t, 's) operator_core =
  oc_address :: path
  oc_notify :: bool
  oc_peers :: nat
  oc_inputs :: nat
  oc_outputs :: nat
  oc_summary :: "'s connectivity"
  oc_frontier :: "'t mutable_antichain list"
  oc_consumed :: "nat list"
  oc_internal :: "nat list"
  oc_summaries :: "'s connectivity"
  oc_produced :: "nat list"

text \<open>Each output's first capability; the evidence of its creation is discarded.\<close>

fun initial_capabilities :: "'t::linorder \<Rightarrow> nat list \<Rightarrow> 't buffers \<Rightarrow> 't capability list \<times> 't buffers" where
  "initial_capabilities minimum [] h = ([], h)"
| "initial_capabilities minimum (batch # internal) h =
     (let (c, h) = cap_new minimum batch h;
          (cs, h) = initial_capabilities minimum internal (h(batch := cb_clear (h batch)))
      in (c # cs, h))"

definition ob_build_reschedule ::
  "'t::linorder \<Rightarrow> ('t, 's) operator_builder \<Rightarrow> 't buffers \<Rightarrow> 't capability list \<times> ('t, 's) operator_core \<times> 't shared_progress \<times> 't buffers" where
  "ob_build_reschedule minimum b h =
     (let (capabilities, h) = initial_capabilities minimum (ob_internal b) h; raw = ob_builder b
      in (capabilities,
          \<lparr>oc_address = rb_address raw, oc_notify = rb_notify raw, oc_peers = rb_peers raw, oc_inputs = rb_inputs raw,
           oc_outputs = rb_outputs raw, oc_summary = rb_summary raw, oc_frontier = ob_frontier b, oc_consumed = ob_consumed b,
           oc_internal = ob_internal b, oc_summaries = ob_summaries b, oc_produced = ob_produced b\<rparr>,
          sp_new (rb_inputs raw) (rb_outputs raw), h))"

definition oc_get_internal_summary ::
  "'t::linorder \<Rightarrow> ('t, 's) operator_core \<Rightarrow> 't shared_progress \<Rightarrow> activations \<Rightarrow> 's connectivity \<times> 't shared_progress \<times> activations" where
  "oc_get_internal_summary minimum oc sp av =
     (oc_summary oc, sp\<lparr>sp_internals := map (cb_update minimum (int (oc_peers oc))) (sp_internals sp)\<rparr>,
      av_activate (oc_address oc) av)"

section \<open>Well-formed builders\<close>

text \<open>
  The lists of the builder have the lengths of the shape, the batches are distinct and allocated,
  and the summaries the capabilities are checked against are those announced to the scope.
\<close>

definition addrs_ok :: "nat list \<Rightarrow> 't store \<Rightarrow> bool" where
  "addrs_ok addrs st \<longleftrightarrow> distinct addrs \<and> (\<forall>a \<in> set addrs. a < st_next st \<and> st_buffers st a = cb_new)"

definition ports_below :: "nat \<Rightarrow> 's connectivity \<Rightarrow> bool" where
  "ports_below n summary \<longleftrightarrow> (\<forall>pc \<in> set summary. \<forall>k \<in> fst ` set (pc_iter_ports pc). k < n)"

definition ob_inv :: "('t, 's) operator_builder \<times> 't store \<Rightarrow> bool" where
  "ob_inv bs \<longleftrightarrow>
     (let (b, st) = bs; raw = ob_builder b in
      length (ob_frontier b) = rb_inputs raw \<and> length (ob_consumed b) = rb_inputs raw \<and> length (rb_summary raw) = rb_inputs raw
      \<and> ob_summaries b = rb_summary raw \<and> length (ob_internal b) = rb_outputs raw \<and> length (ob_produced b) = rb_outputs raw
      \<and> addrs_ok (ob_consumed b @ ob_internal b @ ob_produced b) st \<and> ports_below (rb_outputs raw) (rb_summary raw))"

lemma ob_inv_new: "ob_inv (ob_new index address peers, st)"
  by (simp add: ob_inv_def ob_new_def rb_new_def addrs_ok_def ports_below_def)

lemma addrs_ok_alloc: "addrs_ok addrs st \<Longrightarrow> st_alloc st = (a, st') \<Longrightarrow> addrs_ok (a # addrs) st'"
  by (auto simp: addrs_ok_def st_alloc_def less_Suc_eq)

lemma addrs_ok_perm: "addrs_ok addrs st \<Longrightarrow> mset addrs' = mset addrs \<Longrightarrow> addrs_ok addrs' st"
  unfolding addrs_ok_def by (metis mset_eq_imp_distinct_iff mset_eq_setD)

lemma length_add_ports: "add_ports k connection summary = Some summary' \<Longrightarrow> length summary' = length summary"
  by (induction k connection summary rule: add_ports.induct) (auto simp: bind_eq_Some_conv)

lemma add_ports_below:
  assumes "add_ports k connection summary = Some summary'" and "ports_below n summary" and "k < n"
  shows "ports_below n summary'"
  using assms
proof (induction k connection summary rule: add_ports.induct)
  case (2 k inp entry connection summary)
  from 2(2) obtain pc' where p: "inp < length summary" "pc_add_port k entry (summary ! inp) = Some pc'"
    "add_ports k connection (summary[inp := pc']) = Some summary'" by (auto simp: bind_eq_Some_conv)
  have "\<forall>j \<in> fst ` set (pc_iter_ports (summary ! inp)). j < n" using 2(3) nth_mem [OF p(1)] by (simp add: ports_below_def)
  moreover have "pc' = summary ! inp \<or> pc_iter_ports pc' = bt_insert k entry (pc_iter_ports (summary ! inp))"
    using p(2) by (auto simp: pc_add_port_def pc_iter_ports_def split: if_splits)
  then have "fst ` set (pc_iter_ports pc') \<subseteq> insert k (fst ` set (pc_iter_ports (summary ! inp)))"
    using set_bt_insert_keys [of k entry "pc_iter_ports (summary ! inp)"] by (metis order_refl subset_insertI)
  ultimately have "\<forall>j \<in> fst ` set (pc_iter_ports pc'). j < n" using 2(4) by blast
  then have "ports_below n (summary[inp := pc'])"
    using 2(3) set_update_subset_insert [of summary inp pc'] by (auto simp: ports_below_def)
  with 2(1) [OF _ _ p(3)] p 2(4) show ?case by simp
qed simp

lemma ob_inv_new_input_connection:
  assumes "ob_inv bs" and "ob_new_input_connection connection bs = Some (target, bs')"
  shows "ob_inv bs'"
proof -
  obtain b st where bs: "bs = (b, st)" by (cases bs)
  obtain a st' where a: "st_alloc st = (a, st')" by (cases "st_alloc st")
  from assms(2) have p: "list_all (\<lambda>(k, _). k < rb_outputs (ob_builder b)) (pc_iter_ports (pc_from_iter connection))"
    and bs': "bs' = (b\<lparr>ob_builder := (ob_builder b)\<lparr>rb_inputs := rb_inputs (ob_builder b) + 1,
        rb_summary := rb_summary (ob_builder b) @ [pc_from_iter connection]\<rparr>,
        ob_frontier := ob_frontier b @ [ma_new], ob_consumed := ob_consumed b @ [a],
        ob_summaries := ob_summaries b @ [pc_from_iter connection]\<rparr>, st')"
    by (auto simp: bs a ob_new_input_connection_def rb_new_input_connection_def bind_eq_Some_conv Let_def split: if_splits)
  have "addrs_ok (a # ob_consumed b @ ob_internal b @ ob_produced b) st'"
    by (rule addrs_ok_alloc [OF _ a]) (use assms(1) in \<open>simp add: bs ob_inv_def Let_def\<close>)
  then have "addrs_ok ((ob_consumed b @ [a]) @ ob_internal b @ ob_produced b) st'" by (rule addrs_ok_perm) simp
  moreover have "ports_below (rb_outputs (ob_builder b)) (rb_summary (ob_builder b) @ [pc_from_iter connection])"
    using assms(1) p by (auto simp: bs ob_inv_def Let_def ports_below_def list_all_iff)
  ultimately show ?thesis using assms(1) by (simp add: bs bs' ob_inv_def Let_def)
qed

lemma ob_inv_new_output_connection:
  assumes "ob_inv bs" and "ob_new_output_connection connection bs = Some (source, bs')"
  shows "ob_inv bs'"
proof -
  obtain b st where bs: "bs = (b, st)" by (cases bs)
  obtain a st' where a: "st_alloc st = (a, st')" by (cases "st_alloc st")
  obtain a' st'' where a': "st_alloc st' = (a', st'')" by (cases "st_alloc st'")
  have i: "ob_summaries b = rb_summary (ob_builder b)" using assms(1) by (simp add: bs ob_inv_def Let_def)
  from assms(2) obtain summary where s: "add_ports (rb_outputs (ob_builder b)) connection (rb_summary (ob_builder b)) = Some summary"
    and bs': "bs' = (b\<lparr>ob_builder := (ob_builder b)\<lparr>rb_outputs := rb_outputs (ob_builder b) + 1, rb_summary := summary\<rparr>,
        ob_internal := ob_internal b @ [a], ob_produced := ob_produced b @ [a'], ob_summaries := summary\<rparr>, st'')"
    by (auto simp: bs a a' i ob_new_output_connection_def rb_new_output_connection_def bind_eq_Some_conv)
  have "addrs_ok (a' # a # ob_consumed b @ ob_internal b @ ob_produced b) st''"
    by (intro addrs_ok_alloc [OF _ a'] addrs_ok_alloc [OF _ a]) (use assms(1) in \<open>simp add: bs ob_inv_def Let_def\<close>)
  then have "addrs_ok (ob_consumed b @ (ob_internal b @ [a]) @ ob_produced b @ [a']) st''" by (rule addrs_ok_perm) simp
  moreover have "ports_below (rb_outputs (ob_builder b) + 1) summary"
    by (rule add_ports_below [OF s]) (use assms(1) in \<open>fastforce simp: bs ob_inv_def Let_def ports_below_def\<close>, simp)
  ultimately show ?thesis using assms(1) length_add_ports [OF s] by (simp add: bs bs' ob_inv_def Let_def)
qed

end
