(* ===== verification/Operator_Run.thy ===== *)
theory Operator_Run
  imports Operator_Builder Subgraph_Child
begin

text \<open>
  The operator of \<^verbatim>\<open>builder_rc.rs\<close> at work: the closure \<open>raw_logic\<close> that
  \<open>build_reschedule\<close> wraps around user logic, and the interface the logic has,
  \<^verbatim>\<open>timely/src/dataflow/operators/generic/handles.rs\<close> and
  \<^verbatim>\<open>timely/src/dataflow/channels/pushers/progress.rs\<close>.

  User logic can only act through that interface, so what it does in one call is a list of
  actions: it pulls messages, makes, downgrades and drops capabilities, and sends containers.  The
  logic is an arbitrary function from the frontiers and the session to the actions of the
  call.  An action that panics gives \<open>None\<close>.
\<close>

section \<open>Sessions\<close>

text \<open>
  The shared batches, the capabilities and input capabilities the logic holds, the messages that
  wait at each input, and what was pushed at each output.
\<close>

record ('t, 's, 'd) op_session =
  os_store :: "'t buffers"
  os_caps :: "'t capability list"
  os_incaps :: "('t, 's) input_capability list"
  os_queues :: "('t, 'd) message list list"
  os_sent :: "('t, 'd) message option list list"

text \<open>\<open>InputHandleCore::next\<close>.\<close>

definition input_next ::
  "('t, 's) operator_core \<Rightarrow> nat \<Rightarrow> ('t, 's, 'd) op_session
   \<Rightarrow> ((('t, 's) input_capability \<times> 'd list) option \<times> ('t, 's, 'd) op_session) option" where
  "input_next oc i ss =
     do { q \<leftarrow> vec_get (os_queues ss) i;
          consumed \<leftarrow> vec_get (oc_consumed oc) i;
          summaries \<leftarrow> vec_get (oc_summaries oc) i;
          Some (case next_guarded consumed q of
                  None \<Rightarrow> (None, ss)
                | Some (guard, bundle, q') \<Rightarrow>
                    (Some (\<lparr>ic_internal = oc_internal oc, ic_summaries = summaries, ic_guard = guard\<rparr>, snd bundle),
                     ss\<lparr>os_queues := (os_queues ss)[i := q']\<rparr>)) }"

text \<open>\<open>Progress::give\<close>: the capability is validated in debug builds, and empty containers are not sent.\<close>

definition progress_give ::
  "bool \<Rightarrow> bool \<Rightarrow> 't::linorder \<Rightarrow> 'd list \<Rightarrow> nat \<Rightarrow> 't buffers \<Rightarrow> ('t, 'd) message option list
   \<Rightarrow> ('t buffers \<times> ('t, 'd) message option list) option" where
  "progress_give debug valid time container produced h pushee =
     (if debug \<and> \<not> valid then None
      else if container \<noteq> [] then Some (counter_push produced (Some (time, container)) h pushee)
      else Some (h, pushee))"

datatype ('t, 'd) op_action =
  Receive nat
| DropInput nat
| DelayInput nat 't nat
| RetainInput nat nat
| CloneCap nat
| DelayCap nat 't
| TryDelayCap nat 't
| DowngradeCap nat 't
| TryDowngradeCap nat 't
| DropCap nat
| Give nat nat "'d list"
| GiveInput nat nat "'d list"
| Done nat

definition os_add_cap :: "'t capability \<times> 't buffers \<Rightarrow> ('t, 's, 'd) op_session \<Rightarrow> ('t, 's, 'd) op_session" where
  "os_add_cap ch ss = ss\<lparr>os_caps := os_caps ss @ [fst ch], os_store := snd ch\<rparr>"

definition op_give ::
  "bool \<Rightarrow> ('t::linorder, 's) operator_core \<Rightarrow> bool \<Rightarrow> 't \<Rightarrow> nat \<Rightarrow> 'd list \<Rightarrow> ('t, 's, 'd) op_session
   \<Rightarrow> ('t, 's, 'd) op_session option" where
  "op_give debug oc valid time port data ss =
     do { produced \<leftarrow> vec_get (oc_produced oc) port;
          pushee \<leftarrow> vec_get (os_sent ss) port;
          (h, pushee) \<leftarrow> progress_give debug valid time data produced (os_store ss) pushee;
          Some (ss\<lparr>os_store := h, os_sent := (os_sent ss)[port := pushee]\<rparr>) }"

fun op_act ::
  "bool \<Rightarrow> ('t \<Rightarrow> 't \<Rightarrow> bool) \<Rightarrow> 's \<Rightarrow> ('s \<Rightarrow> 't \<Rightarrow> 't option) \<Rightarrow> ('t::linorder, 's) operator_core \<Rightarrow> ('t, 'd) op_action
   \<Rightarrow> ('t, 's, 'd) op_session \<Rightarrow> ('t, 's, 'd) op_session option" where
  "op_act debug le dflt ri oc (Receive i) ss =
     do { (r, ss) \<leftarrow> input_next oc i ss;
          Some (case r of None \<Rightarrow> ss | Some (c, _) \<Rightarrow> ss\<lparr>os_incaps := os_incaps ss @ [c]\<rparr>) }"
| "op_act debug le dflt ri oc (DropInput k) ss =
     do { c \<leftarrow> vec_get (os_incaps ss) k;
          Some (ss\<lparr>os_incaps := remove_nth k (os_incaps ss), os_store := ic_drop c (os_store ss)\<rparr>) }"
| "op_act debug le dflt ri oc (DelayInput k time port) ss =
     do { c \<leftarrow> vec_get (os_incaps ss) k;
          dh \<leftarrow> ic_delayed_for_output le ri c time port (os_store ss);
          Some (os_add_cap dh ss) }"
| "op_act debug le dflt ri oc (RetainInput k port) ss =
     do { c \<leftarrow> vec_get (os_incaps ss) k;
          dh \<leftarrow> ic_retain_for_output le ri c port (os_store ss);
          Some (os_add_cap dh (ss\<lparr>os_incaps := remove_nth k (os_incaps ss)\<rparr>)) }"
| "op_act debug le dflt ri oc (CloneCap k) ss =
     do { c \<leftarrow> vec_get (os_caps ss) k; Some (os_add_cap (cap_clone c (os_store ss)) ss) }"
| "op_act debug le dflt ri oc (DelayCap k time) ss =
     do { c \<leftarrow> vec_get (os_caps ss) k; dh \<leftarrow> cap_delayed le c time (os_store ss); Some (os_add_cap dh ss) }"
| "op_act debug le dflt ri oc (TryDelayCap k time) ss =
     do { c \<leftarrow> vec_get (os_caps ss) k;
          Some (case cap_try_delayed le c time (os_store ss) of None \<Rightarrow> ss | Some dh \<Rightarrow> os_add_cap dh ss) }"
| "op_act debug le dflt ri oc (DowngradeCap k time) ss =
     do { c \<leftarrow> vec_get (os_caps ss) k;
          (d, h) \<leftarrow> cap_downgrade le c time (os_store ss);
          Some (ss\<lparr>os_caps := (os_caps ss)[k := d], os_store := h\<rparr>) }"
| "op_act debug le dflt ri oc (TryDowngradeCap k time) ss =
     do { c \<leftarrow> vec_get (os_caps ss) k;
          Some (case cap_try_downgrade le c time (os_store ss) of (_, d, h) \<Rightarrow>
                  ss\<lparr>os_caps := (os_caps ss)[k := d], os_store := h\<rparr>) }"
| "op_act debug le dflt ri oc (DropCap k) ss =
     do { c \<leftarrow> vec_get (os_caps ss) k;
          Some (ss\<lparr>os_caps := remove_nth k (os_caps ss), os_store := cap_drop c (os_store ss)\<rparr>) }"
| "op_act debug le dflt ri oc (Give k port data) ss =
     do { c \<leftarrow> vec_get (os_caps ss) k;
          internal \<leftarrow> vec_get (oc_internal oc) port;
          op_give debug oc (cap_valid_for_output c internal) (cap_time c) port data ss }"
| "op_act debug le dflt ri oc (GiveInput k port data) ss =
     do { c \<leftarrow> vec_get (os_incaps ss) k;
          internal \<leftarrow> vec_get (oc_internal oc) port;
          valid \<leftarrow> (if debug then ic_valid_for_output dflt c internal port else Some False);
          op_give debug oc valid (ic_time c) port data ss }"
| "op_act debug le dflt ri oc (Done port) ss =
     do { produced \<leftarrow> vec_get (oc_produced oc) port;
          pushee \<leftarrow> vec_get (os_sent ss) port;
          let (h, pushee) = counter_push produced None (os_store ss) pushee;
          Some (ss\<lparr>os_store := h, os_sent := (os_sent ss)[port := pushee]\<rparr>) }"

fun op_run ::
  "bool \<Rightarrow> ('t \<Rightarrow> 't \<Rightarrow> bool) \<Rightarrow> 's \<Rightarrow> ('s \<Rightarrow> 't \<Rightarrow> 't option) \<Rightarrow> ('t::linorder, 's) operator_core \<Rightarrow> ('t, 'd) op_action list
   \<Rightarrow> ('t, 's, 'd) op_session \<Rightarrow> ('t, 's, 'd) op_session option" where
  "op_run debug le dflt ri oc [] ss = Some ss"
| "op_run debug le dflt ri oc (x # xs) ss = do { ss \<leftarrow> op_act debug le dflt ri oc x ss; op_run debug le dflt ri oc xs ss }"

section \<open>raw\_logic\<close>

fun drain_frontiers ::
  "('t::linorder \<Rightarrow> 't \<Rightarrow> bool) \<Rightarrow> 't change_batch list \<Rightarrow> 't mutable_antichain list
   \<Rightarrow> 't change_batch list \<times> 't mutable_antichain list" where
  "drain_frontiers le (p # ps) (f # fs) =
     (let (us, p') = cb_drain p; (ps', fs') = drain_frontiers le ps fs
      in (p' # ps', snd (ma_update_iter le us f) # fs'))"
| "drain_frontiers le ps fs = (ps, fs)"

text \<open>Batches of consumed and of produced changes.\<close>

fun move_batches :: "'t::linorder change_batch list \<Rightarrow> nat list \<Rightarrow> 't buffers \<Rightarrow> 't change_batch list \<times> 't buffers" where
  "move_batches (p # ps) (a # as) h =
     (let (b, p') = cb_drain_into (h a) p; (ps', h') = move_batches ps as (h(a := b)) in (p' # ps', h'))"
| "move_batches ps as h = (ps, h)"

text \<open>Batches of internal changes, indexed.\<close>

fun move_internals ::
  "nat list \<Rightarrow> nat \<Rightarrow> 't::linorder change_batch list \<Rightarrow> 't buffers \<Rightarrow> ('t change_batch list \<times> 't buffers) option" where
  "move_internals [] index internals h = Some (internals, h)"
| "move_internals (a # as) index internals h =
     do { p \<leftarrow> vec_get internals index;
          let (us, b) = cb_drain (h a);
          move_internals as (Suc index) (internals[index := cb_extend us p]) (h(a := b)) }"

type_synonym ('t, 's, 'd) op_logic =
  "'t mutable_antichain list \<Rightarrow> ('t, 's, 'd) op_session \<Rightarrow> bool \<times> ('t, 'd) op_action list"

definition oc_schedule ::
  "bool \<Rightarrow> ('t \<Rightarrow> 't \<Rightarrow> bool) \<Rightarrow> 's \<Rightarrow> ('s \<Rightarrow> 't \<Rightarrow> 't option) \<Rightarrow> ('t::linorder, 's, 'd) op_logic
   \<Rightarrow> ('t, 's) operator_core \<Rightarrow> ('t, 's, 'd) op_session \<Rightarrow> 't shared_progress
   \<Rightarrow> (bool \<times> ('t, 's) operator_core \<times> ('t, 's, 'd) op_session \<times> 't shared_progress) option" where
  "oc_schedule debug le dflt ri logic oc ss sp =
     (let (frontiers, self_frontier) = drain_frontiers le (sp_frontiers sp) (oc_frontier oc);
          oc = oc\<lparr>oc_frontier := self_frontier\<rparr>;
          (result, actions) = logic self_frontier ss
      in do { ss \<leftarrow> op_run debug le dflt ri oc actions ss;
              let (consumeds, h) = move_batches (sp_consumeds sp) (oc_consumed oc) (os_store ss);
              (internals, h) \<leftarrow> move_internals (oc_internal oc) 0 (sp_internals sp) h;
              let (produceds, h) = move_batches (sp_produceds sp) (oc_produced oc) h;
              Some (result, oc, ss\<lparr>os_store := h\<rparr>,
                \<lparr>sp_frontiers = frontiers, sp_consumeds = consumeds, sp_internals = internals, sp_produceds = produceds\<rparr>) })"

section \<open>Accounting\<close>

text \<open>Records held by guards on a batch, waiting at an input, and pushed at an output, per time.\<close>

definition guarded :: "('t, 's) input_capability list \<Rightarrow> nat \<Rightarrow> 't \<Rightarrow> int" where
  "guarded cs a t =
     upd_count (map (\<lambda>c. (ic_time c, cg_record_count (ic_guard c))) (filter (\<lambda>c. cg_consumed (ic_guard c) = a) cs)) t"

definition queued :: "('t, 'd) message list \<Rightarrow> 't \<Rightarrow> int" where
  "queued q t = upd_count (map (\<lambda>m. (fst m, int (length (snd m)))) q) t"

definition sent_count :: "('t, 'd) message option list \<Rightarrow> 't \<Rightarrow> int" where
  "sent_count ms t = upd_count (map (\<lambda>m. (fst m, int (length (snd m)))) (List.map_filter id ms)) t"

lemma guarded_simps [simp]:
  "guarded [] a t = 0"
  "guarded (c # cs) a t = (if cg_consumed (ic_guard c) = a \<and> ic_time c = t then cg_record_count (ic_guard c) else 0) + guarded cs a t"
  "guarded (cs @ ds) a t = guarded cs a t + guarded ds a t"
  by (simp_all add: guarded_def)

lemma queued_simps [simp]: "queued [] t = 0" "queued (m # q) t = (if fst m = t then int (length (snd m)) else 0) + queued q t"
  by (simp_all add: queued_def)

lemma sent_count_simps [simp]:
  "sent_count [] t = 0" "sent_count (ms @ [None]) t = sent_count ms t"
  "sent_count (ms @ [Some m]) t = sent_count ms t + (if fst m = t then int (length (snd m)) else 0)"
  by (simp_all add: sent_count_def map_filter_def)

lemma holds_remove_nth: "k < length cs \<Longrightarrow> holds (remove_nth k cs) a t = holds cs a t - holds [cs ! k] a t"
  using arg_cong [OF remove_nth_split [of k cs], of "\<lambda>cs. holds cs a t"] by (simp add: remove_nth_def)

lemma guarded_remove_nth: "k < length cs \<Longrightarrow> guarded (remove_nth k cs) a t = guarded cs a t - guarded [cs ! k] a t"
  using arg_cong [OF remove_nth_split [of k cs], of "\<lambda>cs. guarded cs a t"] by (simp add: remove_nth_def)

lemma holds_list_update: "k < length cs \<Longrightarrow> holds (cs[k := d]) a t = holds cs a t - holds [cs ! k] a t + holds [d] a t"
  using arg_cong [OF remove_nth_split [of k cs], of "\<lambda>cs. holds cs a t"] by (simp add: upd_conv_take_nth_drop)

text \<open>An operator whose batches are distinct and whose lists fit together.\<close>

definition oc_ok :: "('t, 's) operator_core \<Rightarrow> bool" where
  "oc_ok oc \<longleftrightarrow> distinct (oc_consumed oc @ oc_internal oc @ oc_produced oc)
     \<and> length (oc_internal oc) = oc_outputs oc \<and> length (oc_produced oc) = oc_outputs oc
     \<and> length (oc_consumed oc) = oc_inputs oc \<and> length (oc_summaries oc) = oc_inputs oc"

text \<open>A session of the operator: what it holds belongs to the operator, and messages are not empty.\<close>

definition os_sane :: "('t::linorder, 's) operator_core \<Rightarrow> ('t, 's, 'd) op_session \<Rightarrow> bool" where
  "os_sane oc ss \<longleftrightarrow> (\<forall>a. cb_inv (os_store ss a))
     \<and> (\<forall>c \<in> set (os_caps ss). cap_internal c \<in> set (oc_internal oc))
     \<and> (\<forall>c \<in> set (os_incaps ss). ic_internal c = oc_internal oc \<and> cg_consumed (ic_guard c) \<in> set (oc_consumed oc)
          \<and> 0 < cg_record_count (ic_guard c))
     \<and> (\<forall>q \<in> set (os_queues ss). \<forall>m \<in> set q. snd m \<noteq> [])
     \<and> length (os_queues ss) = oc_inputs oc \<and> length (os_sent ss) = oc_outputs oc"

text \<open>Since \<open>ss\<close>, the batches have changed by what the session has.\<close>

definition os_balanced :: "('t, 's) operator_core \<Rightarrow> ('t, 's, 'd) op_session \<Rightarrow> ('t, 's, 'd) op_session \<Rightarrow> bool" where
  "os_balanced oc ss ss' \<longleftrightarrow>
     (\<forall>a \<in> set (oc_internal oc). \<forall>t. cb_count (os_store ss' a) t - cb_count (os_store ss a) t
        = holds (os_caps ss') a t - holds (os_caps ss) a t)
     \<and> (\<forall>i < oc_inputs oc. \<forall>t. cb_count (os_store ss' (oc_consumed oc ! i)) t - cb_count (os_store ss (oc_consumed oc ! i)) t
        = (queued (os_queues ss ! i) t + guarded (os_incaps ss) (oc_consumed oc ! i) t)
          - (queued (os_queues ss' ! i) t + guarded (os_incaps ss') (oc_consumed oc ! i) t))
     \<and> (\<forall>p < oc_outputs oc. \<forall>t. cb_count (os_store ss' (oc_produced oc ! p)) t - cb_count (os_store ss (oc_produced oc ! p)) t
        = sent_count (os_sent ss' ! p) t - sent_count (os_sent ss ! p) t)"

text \<open>
  The times the logic may use at a batch: not before a capability it had, or a message it
  received since the store was last drained.
\<close>

definition received :: "('t, 's) operator_core \<Rightarrow> ('t, 's, 'd) op_session \<Rightarrow> 't \<Rightarrow> bool" where
  "received oc ss k \<longleftrightarrow> (\<exists>c \<in> set (os_incaps ss). ic_time c = k) \<or> (\<exists>a \<in> set (oc_consumed oc). 0 < cb_count (os_store ss a) k)"

definition entitled ::
  "('t \<Rightarrow> 't \<Rightarrow> bool) \<Rightarrow> ('t, 's) operator_core \<Rightarrow> 't capability list \<Rightarrow> ('t, 's, 'd) op_session \<Rightarrow> nat \<Rightarrow> 't \<Rightarrow> bool" where
  "entitled le oc cs ss a t \<longleftrightarrow> (\<exists>c \<in> set cs. cap_internal c = a \<and> le (cap_time c) t) \<or> (\<exists>k. received oc ss k \<and> le k t)"

definition os_entitled ::
  "('t \<Rightarrow> 't \<Rightarrow> bool) \<Rightarrow> ('t, 's) operator_core \<Rightarrow> ('t, 's, 'd) op_session \<Rightarrow> ('t, 's, 'd) op_session \<Rightarrow> bool" where
  "os_entitled le oc ss ss' \<longleftrightarrow>
     (\<forall>a \<in> set (oc_consumed oc). \<forall>t. cb_count (os_store ss a) t \<le> cb_count (os_store ss' a) t)
     \<and> (\<forall>k. received oc ss k \<longrightarrow> received oc ss' k)
     \<and> (\<forall>c \<in> set (os_caps ss'). entitled le oc (os_caps ss) ss' (cap_internal c) (cap_time c))
     \<and> (\<forall>p < oc_outputs oc. \<forall>t. sent_count (os_sent ss ! p) t < sent_count (os_sent ss' ! p) t
          \<longrightarrow> entitled le oc (os_caps ss) ss' (oc_internal oc ! p) t)"

text \<open>Both relations are preorders, so the actions can be looked at one at a time.\<close>

definition os_follows ::
  "bool \<Rightarrow> ('t \<Rightarrow> 't \<Rightarrow> bool) \<Rightarrow> ('t::linorder, 's) operator_core \<Rightarrow> ('t, 's, 'd) op_session \<Rightarrow> ('t, 's, 'd) op_session \<Rightarrow> bool" where
  "os_follows debug le oc ss ss' \<longleftrightarrow> os_sane oc ss' \<and> os_balanced oc ss ss' \<and> (debug \<longrightarrow> os_entitled le oc ss ss')"

lemma os_balanced_refl: "os_balanced oc ss ss"
  by (simp add: os_balanced_def)

lemma os_balanced_trans:
  assumes "os_balanced oc ss ss1" and "os_balanced oc ss1 ss2"
  shows "os_balanced oc ss ss2"
  unfolding os_balanced_def
proof (intro conjI ballI allI impI)
  fix a t assume "a \<in> set (oc_internal oc)"
  with assms [unfolded os_balanced_def]
  show "cb_count (os_store ss2 a) t - cb_count (os_store ss a) t = holds (os_caps ss2) a t - holds (os_caps ss) a t"
    by (smt (verit))
next
  fix i t assume "i < oc_inputs oc"
  with assms [unfolded os_balanced_def]
  show "cb_count (os_store ss2 (oc_consumed oc ! i)) t - cb_count (os_store ss (oc_consumed oc ! i)) t
      = (queued (os_queues ss ! i) t + guarded (os_incaps ss) (oc_consumed oc ! i) t)
        - (queued (os_queues ss2 ! i) t + guarded (os_incaps ss2) (oc_consumed oc ! i) t)"
    by (smt (verit))
next
  fix p t assume "p < oc_outputs oc"
  with assms [unfolded os_balanced_def]
  show "cb_count (os_store ss2 (oc_produced oc ! p)) t - cb_count (os_store ss (oc_produced oc ! p)) t
      = sent_count (os_sent ss2 ! p) t - sent_count (os_sent ss ! p) t"
    by (smt (verit))
qed

lemma entitled_trans:
  assumes "timestamp_order le" and "os_entitled le oc ss ss1" and "entitled le oc (os_caps ss1) ss2 a t"
    and "\<forall>k. received oc ss1 k \<longrightarrow> received oc ss2 k"
  shows "entitled le oc (os_caps ss) ss2 a t"
proof (cases "\<exists>k. received oc ss2 k \<and> le k t")
  case False
  with assms(3) obtain c where c: "c \<in> set (os_caps ss1)" "cap_internal c = a" "le (cap_time c) t" by (auto simp: entitled_def)
  with assms(2) have "entitled le oc (os_caps ss) ss1 a (cap_time c)" by (auto simp: os_entitled_def)
  with assms(4) c(3) cap_order_trans [OF assms(1)] show ?thesis unfolding entitled_def by blast
qed (simp add: entitled_def)

lemma entitled_mono:
  "entitled le oc cs ss a t \<Longrightarrow> \<forall>k. received oc ss k \<longrightarrow> received oc ss' k \<Longrightarrow> entitled le oc cs ss' a t"
  unfolding entitled_def by blast

lemma os_entitled_trans:
  assumes "timestamp_order le" and "os_entitled le oc ss ss1" and "os_entitled le oc ss1 ss2"
  shows "os_entitled le oc ss ss2"
  unfolding os_entitled_def
proof (intro conjI ballI allI impI)
  fix a t assume "a \<in> set (oc_consumed oc)"
  with assms(2,3) show "cb_count (os_store ss a) t \<le> cb_count (os_store ss2 a) t"
    unfolding os_entitled_def by (meson order_trans)
next
  fix k assume "received oc ss k"
  with assms(2,3) show "received oc ss2 k" unfolding os_entitled_def by blast
next
  have m: "\<forall>k. received oc ss1 k \<longrightarrow> received oc ss2 k" using assms(3) by (simp add: os_entitled_def)
  fix c assume "c \<in> set (os_caps ss2)"
  with assms(3) have "entitled le oc (os_caps ss1) ss2 (cap_internal c) (cap_time c)" by (simp add: os_entitled_def)
  then show "entitled le oc (os_caps ss) ss2 (cap_internal c) (cap_time c)" by (rule entitled_trans [OF assms(1,2) _ m])
next
  have m: "\<forall>k. received oc ss1 k \<longrightarrow> received oc ss2 k" using assms(3) by (simp add: os_entitled_def)
  fix p t assume p: "p < oc_outputs oc" "sent_count (os_sent ss ! p) t < sent_count (os_sent ss2 ! p) t"
  show "entitled le oc (os_caps ss) ss2 (oc_internal oc ! p) t"
  proof (cases "sent_count (os_sent ss1 ! p) t < sent_count (os_sent ss2 ! p) t")
    case True
    with p(1) assms(3) have "entitled le oc (os_caps ss1) ss2 (oc_internal oc ! p) t" by (simp add: os_entitled_def)
    then show ?thesis by (rule entitled_trans [OF assms(1,2) _ m])
  next
    case False
    with p assms(2) have "entitled le oc (os_caps ss) ss1 (oc_internal oc ! p) t" by (simp add: os_entitled_def)
    then show ?thesis using m by (rule entitled_mono)
  qed
qed

lemma os_entitled_refl: "timestamp_order le \<Longrightarrow> os_entitled le oc ss ss"
  by (auto simp: os_entitled_def entitled_def timestamp_order_def partial_order_laws_def)

lemma os_follows_refl: "timestamp_order le \<Longrightarrow> os_sane oc ss \<Longrightarrow> os_follows debug le oc ss ss"
  by (simp add: os_follows_def os_balanced_refl os_entitled_refl)

lemma os_follows_trans:
  "timestamp_order le \<Longrightarrow> os_follows debug le oc ss ss1 \<Longrightarrow> os_follows debug le oc ss1 ss2 \<Longrightarrow> os_follows debug le oc ss ss2"
  unfolding os_follows_def by (meson os_balanced_trans os_entitled_trans)

section \<open>The actions\<close>

lemma oc_ok_disjoint:
  assumes "oc_ok oc"
  shows "a \<in> set (oc_internal oc) \<Longrightarrow> a \<notin> set (oc_consumed oc) \<and> a \<notin> set (oc_produced oc)"
    and "a \<in> set (oc_produced oc) \<Longrightarrow> a \<notin> set (oc_consumed oc)"
    and "i < oc_inputs oc \<Longrightarrow> oc_consumed oc ! i \<in> set (oc_consumed oc)"
    and "p < oc_outputs oc \<Longrightarrow> oc_produced oc ! p \<in> set (oc_produced oc)"
    and "p < oc_outputs oc \<Longrightarrow> oc_internal oc ! p \<in> set (oc_internal oc)"
  using assms by (auto simp: oc_ok_def)

text \<open>Changes that leave the inputs alone keep what was received.\<close>

lemma received_cong:
  assumes "os_incaps ss' = os_incaps ss" and "\<forall>a \<in> set (oc_consumed oc). \<forall>t. cb_count (os_store ss' a) t = cb_count (os_store ss a) t"
  shows "received oc ss' = received oc ss"
  using assms by (auto simp: received_def fun_eq_iff)

lemma follows_add_cap:
  assumes "oc_ok oc" and "timestamp_order le" and "os_sane oc ss" and "cap_internal d \<in> set (oc_internal oc)"
    and "debug \<Longrightarrow> entitled le oc (os_caps ss) ss (cap_internal d) (cap_time d)"
  shows "os_follows debug le oc ss (os_add_cap (d, buf_update (cap_internal d) (cap_time d) 1 (os_store ss)) ss)" (is "os_follows _ _ _ _ ?ss'")
proof -
  have n: "\<forall>a \<in> set (oc_consumed oc). \<forall>t. cb_count (os_store ?ss' a) t = cb_count (os_store ss a) t"
    "\<forall>a \<in> set (oc_produced oc). \<forall>t. cb_count (os_store ?ss' a) t = cb_count (os_store ss a) t"
    using oc_ok_disjoint(1) [OF assms(1,4)] by (auto simp: os_add_cap_def)
  have "os_sane oc ?ss'" using assms(3,4) by (auto simp: os_sane_def os_add_cap_def buf_update_def)
  moreover have "os_balanced oc ss ?ss'"
    using n oc_ok_disjoint(3,4) [OF assms(1)] by (auto simp: os_balanced_def) (auto simp: os_add_cap_def)
  moreover have "os_entitled le oc ss ?ss'" if debug
  proof -
    have r: "received oc ?ss' = received oc ss" by (rule received_cong [OF _ n(1)]) (simp add: os_add_cap_def)
    have e: "entitled le oc cs ?ss' = entitled le oc cs ss" for cs by (simp add: entitled_def r fun_eq_iff)
    have s: "os_sent ?ss' = os_sent ss" "set (os_caps ?ss') = insert d (set (os_caps ss))" by (simp_all add: os_add_cap_def)
    show ?thesis using n(1) assms(5) [OF that] os_entitled_refl [OF assms(2), of oc ss]
      unfolding os_entitled_def e r s by auto
  qed
  ultimately show ?thesis by (simp add: os_follows_def)
qed

lemma follows_drop_cap:
  assumes "oc_ok oc" and "timestamp_order le" and "os_sane oc ss" and "k < length (os_caps ss)"
  shows "os_follows debug le oc ss (ss\<lparr>os_caps := remove_nth k (os_caps ss), os_store := cap_drop (os_caps ss ! k) (os_store ss)\<rparr>)"
    (is "os_follows _ _ _ _ ?ss'")
proof -
  have d: "cap_internal (os_caps ss ! k) \<in> set (oc_internal oc)" using assms(3,4) by (simp add: os_sane_def)
  have n: "\<forall>a \<in> set (oc_consumed oc). \<forall>t. cb_count (os_store ?ss' a) t = cb_count (os_store ss a) t"
    "\<forall>a \<in> set (oc_produced oc). \<forall>t. cb_count (os_store ?ss' a) t = cb_count (os_store ss a) t"
    using oc_ok_disjoint(1) [OF assms(1) d] by auto
  have "os_sane oc ?ss'" using assms(3) set_remove_nth [of k "os_caps ss"]
    by (auto simp: os_sane_def cap_drop_def buf_update_def)
  moreover have "os_balanced oc ss ?ss'"
    using n oc_ok_disjoint(3,4) [OF assms(1)] by (auto simp: os_balanced_def holds_remove_nth [OF assms(4)])
  moreover have "os_entitled le oc ss ?ss'"
  proof -
    have r: "received oc ?ss' = received oc ss" by (rule received_cong [OF _ n(1)]) simp
    have e: "entitled le oc cs ?ss' = entitled le oc cs ss" for cs by (simp add: entitled_def r fun_eq_iff)
    have s: "os_sent ?ss' = os_sent ss" "set (os_caps ?ss') \<subseteq> set (os_caps ss)" by (simp_all add: set_remove_nth)
    show ?thesis using n(1) s(2) os_entitled_refl [OF assms(2), of oc ss]
      unfolding os_entitled_def e r s(1) by auto
  qed
  ultimately show ?thesis by (simp add: os_follows_def)
qed

text \<open>Replacing a capability is making the new one and dropping the old one.\<close>

lemma follows_caps_perm:
  assumes "os_follows debug le oc ss ss'" and "mset cs = mset (os_caps ss')"
  shows "os_follows debug le oc ss (ss'\<lparr>os_caps := cs\<rparr>)"
proof -
  have s: "set cs = set (os_caps ss')" using assms(2) by (rule mset_eq_setD)
  have "length (filter P cs) = length (filter P (os_caps ss'))" for P
    using assms(2) by (metis mset_filter size_mset)
  then have h: "holds cs = holds (os_caps ss')" by (simp add: holds_def fun_eq_iff)
  have "received oc (ss'\<lparr>os_caps := cs\<rparr>) = received oc ss'" by (rule received_cong) simp_all
  then have e: "entitled le oc cs' (ss'\<lparr>os_caps := cs\<rparr>) = entitled le oc cs' ss'" "received oc (ss'\<lparr>os_caps := cs\<rparr>) = received oc ss'" for cs'
    by (simp_all add: entitled_def fun_eq_iff)
  from assms(1) show ?thesis
    by (simp add: os_follows_def os_sane_def os_balanced_def os_entitled_def s h e)
qed

lemma mset_replace: "k < length cs \<Longrightarrow> mset (cs[k := d]) = mset (remove_nth k (cs @ [d]))"
  by (simp add: remove_nth_def upd_conv_take_nth_drop)

lemma follows_replace_cap:
  assumes "oc_ok oc" and "timestamp_order le" and "os_sane oc ss" and "k < length (os_caps ss)"
    and "cap_internal d = cap_internal (os_caps ss ! k)" and "le (cap_time (os_caps ss ! k)) (cap_time d)"
  shows "os_follows debug le oc ss (ss\<lparr>os_caps := (os_caps ss)[k := d],
    os_store := cap_drop (os_caps ss ! k) (buf_update (cap_internal d) (cap_time d) 1 (os_store ss))\<rparr>)"
proof -
  let ?ss1 = "os_add_cap (d, buf_update (cap_internal d) (cap_time d) 1 (os_store ss)) ss"
  have c: "os_caps ss ! k \<in> set (os_caps ss)" using assms(4) by simp
  have f1: "os_follows debug le oc ss ?ss1"
  proof (rule follows_add_cap [OF assms(1-3)])
    show "cap_internal d \<in> set (oc_internal oc)" using assms(3,5) c by (simp add: os_sane_def)
    show "entitled le oc (os_caps ss) ss (cap_internal d) (cap_time d)" using c assms(5,6) by (auto simp: entitled_def)
  qed
  then have "os_sane oc ?ss1" by (simp add: os_follows_def)
  moreover have k: "k < length (os_caps ?ss1)" "os_caps ?ss1 ! k = os_caps ss ! k" using assms(4) by (simp_all add: os_add_cap_def nth_append)
  ultimately have "os_follows debug le oc ?ss1 (?ss1\<lparr>os_caps := remove_nth k (os_caps ?ss1), os_store := cap_drop (os_caps ss ! k) (os_store ?ss1)\<rparr>)"
    using follows_drop_cap [OF assms(1,2), of ?ss1 k debug] by simp
  from os_follows_trans [OF assms(2) f1 this]
  have "os_follows debug le oc ss ((?ss1\<lparr>os_caps := remove_nth k (os_caps ?ss1), os_store := cap_drop (os_caps ss ! k) (os_store ?ss1)\<rparr>)
    \<lparr>os_caps := (os_caps ss)[k := d]\<rparr>)"
    by (rule follows_caps_perm) (simp add: os_add_cap_def mset_replace [OF assms(4)])
  then show ?thesis by (cases ss) (simp add: os_add_cap_def)
qed

lemma follows_receive:
  assumes "oc_ok oc" and "timestamp_order le" and "os_sane oc ss" and "i < oc_inputs oc" and "os_queues ss ! i = m # q"
    and "c = \<lparr>ic_internal = oc_internal oc, ic_summaries = sm,
           ic_guard = \<lparr>cg_consumed = oc_consumed oc ! i, cg_time = fst m, cg_record_count = int (length (snd m))\<rparr>\<rparr>"
  shows "os_follows debug le oc ss (ss\<lparr>os_queues := (os_queues ss)[i := q], os_incaps := os_incaps ss @ [c]\<rparr>)" (is "os_follows _ _ _ _ ?ss'")
proof -
  have l: "i < length (os_queues ss)" using assms(3,4) by (simp add: os_sane_def)
  then have qi: "os_queues ss ! i \<in> set (os_queues ss)" by simp
  have m: "snd m \<noteq> []" "\<forall>m \<in> set q. snd m \<noteq> []" using assms(3,5) qi by (auto simp: os_sane_def)
  have "\<forall>q' \<in> set ((os_queues ss)[i := q]). \<forall>m \<in> set q'. snd m \<noteq> []"
    using assms(3) m(2) set_update_subset_insert [of "os_queues ss" i q] unfolding os_sane_def by blast
  then have "os_sane oc ?ss'" using assms(3,6) m(1) oc_ok_disjoint(3) [OF assms(1,4)] by (simp add: os_sane_def)
  moreover have "os_balanced oc ss ?ss'"
  proof -
    have "queued (os_queues ss ! j) t = queued ((os_queues ss)[i := q] ! j) t + guarded [c] (oc_consumed oc ! j) t" if "j < oc_inputs oc" for j t
    proof (cases "j = i")
      case True
      then show ?thesis using l assms(5,6) by (simp add: ic_time_def)
    next
      case False
      have "oc_consumed oc ! j \<noteq> oc_consumed oc ! i"
        using assms(1) assms(4) that False by (simp add: oc_ok_def nth_eq_iff_index_eq)
      with False show ?thesis using assms(6) by simp
    qed
    then show ?thesis by (simp add: os_balanced_def del: guarded_simps(1,2))
  qed
  moreover have "os_entitled le oc ss ?ss'"
    using assms(2) by (auto simp: os_entitled_def entitled_def received_def timestamp_order_def partial_order_laws_def)
  ultimately show ?thesis by (simp add: os_follows_def)
qed

lemma follows_drop_input:
  assumes "oc_ok oc" and "timestamp_order le" and "os_sane oc ss" and "k < length (os_incaps ss)"
    and "debug \<Longrightarrow> \<forall>a \<in> set (oc_consumed oc). \<forall>t. 0 \<le> cb_count (os_store ss a) t"
  shows "os_follows debug le oc ss (ss\<lparr>os_incaps := remove_nth k (os_incaps ss), os_store := ic_drop (os_incaps ss ! k) (os_store ss)\<rparr>)"
    (is "os_follows _ _ _ _ ?ss'")
proof -
  let ?c = "os_incaps ss ! k"
  have c: "cg_consumed (ic_guard ?c) \<in> set (oc_consumed oc)" "0 < cg_record_count (ic_guard ?c)" using assms(3,4) by (simp_all add: os_sane_def)
  have n: "\<forall>a \<in> set (oc_internal oc) \<union> set (oc_produced oc). \<forall>t. cb_count (os_store ?ss' a) t = cb_count (os_store ss a) t"
    using oc_ok_disjoint(1,2) [OF assms(1)] c(1) by (auto simp: ic_drop_def guard_drop_def)
  have g: "cb_count (os_store ?ss' a) t = cb_count (os_store ss a) t + guarded [?c] a t" for a t
    by (auto simp: ic_drop_def guard_drop_def ic_time_def)
  have "os_sane oc ?ss'" using assms(3) set_remove_nth [of k "os_incaps ss"]
    by (auto simp: os_sane_def ic_drop_def guard_drop_def buf_update_def)
  moreover have "os_balanced oc ss ?ss'"
    unfolding os_balanced_def g using n [unfolded g] oc_ok_disjoint(4) [OF assms(1)]
    by (auto simp: guarded_remove_nth [OF assms(4)] simp del: guarded_simps(1,2))
  moreover have "os_entitled le oc ss ?ss'" if debug
  proof -
    have g0: "0 \<le> guarded [?c] a t" for a t using c(2) by simp
    have r: "received oc ?ss' x" if "received oc ss x" for x
    proof (cases "ic_time ?c = x")
      case True
      then have "0 < cb_count (os_store ?ss' (cg_consumed (ic_guard ?c))) x"
        using assms(5) [OF \<open>debug\<close>] c unfolding g by (auto intro: add_nonneg_pos)
      with c(1) show ?thesis unfolding received_def by blast
    next
      case False
      have "set (os_incaps ss) = insert ?c (set (remove_nth k (os_incaps ss)))"
        by (subst remove_nth_split [OF assms(4)]) (auto simp: remove_nth_def)
      with that False have "(\<exists>c \<in> set (os_incaps ?ss'). ic_time c = x) \<or> (\<exists>a \<in> set (oc_consumed oc). 0 < cb_count (os_store ss a) x)"
        by (auto simp: received_def)
      then show ?thesis unfolding received_def g using g0 by (metis add_pos_nonneg)
    qed
    have "entitled le oc (os_caps ss) ?ss' (cap_internal d) (cap_time d)" if "d \<in> set (os_caps ss)" for d
      using that os_entitled_refl [OF assms(2), of oc ss] by (auto simp: os_entitled_def r intro: entitled_mono)
    moreover have "cb_count (os_store ss a) t \<le> cb_count (os_store ?ss' a) t" for a t using g0 unfolding g by simp
    ultimately show ?thesis using r by (auto simp: os_entitled_def)
  qed
  ultimately show ?thesis by (simp add: os_follows_def)
qed

text \<open>Pushing at an output changes only what was produced there and what was sent there.\<close>

lemma follows_push:
  assumes "oc_ok oc" and "timestamp_order le" and "os_sane oc ss" and "p < oc_outputs oc"
    and "ss' = ss\<lparr>os_store := (os_store ss)(oc_produced oc ! p := b), os_sent := (os_sent ss)[p := ms]\<rparr>" and "cb_inv b"
    and "\<And>t. cb_count b t - cb_count (os_store ss (oc_produced oc ! p)) t = sent_count ms t - sent_count (os_sent ss ! p) t"
    and "\<And>t. debug \<Longrightarrow> sent_count (os_sent ss ! p) t < sent_count ms t \<Longrightarrow> entitled le oc (os_caps ss) ss (oc_internal oc ! p) t"
  shows "os_follows debug le oc ss ss'"
proof -
  have a: "oc_produced oc ! p \<in> set (oc_produced oc)" and l: "p < length (os_sent ss)"
    using assms(3,4) oc_ok_disjoint(4) [OF assms(1,4)] by (simp_all add: os_sane_def)
  have n: "\<forall>a \<in> set (oc_consumed oc). os_store ss' a = os_store ss a" "\<forall>a \<in> set (oc_internal oc). os_store ss' a = os_store ss a"
    using oc_ok_disjoint(1,2) [OF assms(1)] a by (auto simp: assms(5))
  have "os_sane oc ss'" using assms(3,6) by (simp add: os_sane_def assms(5))
  moreover have "os_balanced oc ss ss'"
  proof -
    have "cb_count (os_store ss' (oc_produced oc ! r)) t - cb_count (os_store ss (oc_produced oc ! r)) t
        = sent_count (os_sent ss' ! r) t - sent_count (os_sent ss ! r) t" if "r < oc_outputs oc" for r t
    proof (cases "r = p")
      case True
      then show ?thesis using assms(7) l by (simp add: assms(5))
    next
      case False
      have "oc_produced oc ! r \<noteq> oc_produced oc ! p"
        using assms(1) assms(4) that False by (simp add: oc_ok_def nth_eq_iff_index_eq)
      with False show ?thesis by (simp add: assms(5))
    qed
    then show ?thesis using n oc_ok_disjoint(3) [OF assms(1)] by (simp add: os_balanced_def) (simp add: assms(5))
  qed
  moreover have "os_entitled le oc ss ss'" if debug
  proof -
    have "received oc ss' = received oc ss" by (rule received_cong) (use n(1) in \<open>simp_all add: assms(5)\<close>)
    then have e: "entitled le oc (os_caps ss) ss' = entitled le oc (os_caps ss) ss" "received oc ss' = received oc ss" by (simp_all add: entitled_def fun_eq_iff)
    have "entitled le oc (os_caps ss) ss (oc_internal oc ! r) t"
      if "r < oc_outputs oc" "sent_count (os_sent ss ! r) t < sent_count (os_sent ss' ! r) t" for r t
      using that assms(8) [OF \<open>debug\<close>, of t] l by (cases "r = p") (auto simp: assms(5))
    moreover have "os_caps ss' = os_caps ss" by (simp add: assms(5))
    ultimately show ?thesis using n(1) os_entitled_refl [OF assms(2), of oc ss] by (simp add: os_entitled_def e)
  qed
  ultimately show ?thesis by (simp add: os_follows_def)
qed

lemma follows_give:
  assumes "oc_ok oc" and "timestamp_order le" and "os_sane oc ss" and "op_give debug oc valid time p data ss = Some ss'"
    and "debug \<Longrightarrow> valid \<Longrightarrow> p < oc_outputs oc \<Longrightarrow> entitled le oc (os_caps ss) ss (oc_internal oc ! p) time"
  shows "os_follows debug le oc ss ss'"
proof -
  from assms(4) have p: "p < length (oc_produced oc)" and v: "debug \<Longrightarrow> valid"
    and ss': "ss' = (if data = [] then ss\<lparr>os_store := os_store ss, os_sent := (os_sent ss)[p := os_sent ss ! p]\<rparr>
      else ss\<lparr>os_store := buf_update (oc_produced oc ! p) time (int (length data)) (os_store ss),
              os_sent := (os_sent ss)[p := os_sent ss ! p @ [Some (time, data)]]\<rparr>)"
    by (auto simp: op_give_def progress_give_def counter_push_def Let_def bind_eq_Some_conv split: if_splits)
  have po: "p < oc_outputs oc" using p assms(1) by (simp add: oc_ok_def)
  have b: "cb_inv (os_store ss (oc_produced oc ! p))" using assms(3) by (simp add: os_sane_def)
  show ?thesis
  proof (cases "data = []")
    case True
    with ss' have "ss' = ss" by simp
    with assms(2,3) show ?thesis by (simp add: os_follows_refl)
  next
    case False
    show ?thesis
      by (rule follows_push [OF assms(1-3) po, where b = "cb_update time (int (length data)) (os_store ss (oc_produced oc ! p))"
            and ms = "os_sent ss ! p @ [Some (time, data)]"])
        (use False ss' b v assms(5) po in \<open>auto simp: buf_update_def split: if_splits\<close>)
  qed
qed

lemma follows_done:
  assumes "oc_ok oc" and "timestamp_order le" and "os_sane oc ss" and "op_act debug le dflt ri oc (Done p) ss = Some ss'"
  shows "os_follows debug le oc ss ss'"
proof -
  obtain e b where e: "cb_is_empty (os_store ss (oc_produced oc ! p)) = (e, b)"
    by (cases "cb_is_empty (os_store ss (oc_produced oc ! p))")
  have i: "cb_inv (os_store ss (oc_produced oc ! p))" using assms(3) by (simp add: os_sane_def)
  from assms(4) have p: "p < length (oc_produced oc)"
    and ss': "ss' = ss\<lparr>os_store := (os_store ss)(oc_produced oc ! p := b),
        os_sent := (os_sent ss)[p := if \<not> e then os_sent ss ! p @ [None] else os_sent ss ! p]\<rparr>"
    by (auto simp: counter_push_def Let_def bind_eq_Some_conv e)
  have po: "p < oc_outputs oc" using p assms(1) by (simp add: oc_ok_def)
  show ?thesis
    by (rule follows_push [OF assms(1-3) po ss']) (use is_empty_snd [OF i e] in \<open>auto split: if_splits\<close>)
qed

text \<open>Capabilities made from a capability that is held, and from an input capability.\<close>

lemma follows_delay:
  assumes "oc_ok oc" and "timestamp_order le" and "os_sane oc ss" and "k < length (os_caps ss)" and "le (cap_time (os_caps ss ! k)) t"
  shows "os_follows debug le oc ss (os_add_cap (cap_new t (cap_internal (os_caps ss ! k)) (os_store ss)) ss)"
proof -
  have c: "os_caps ss ! k \<in> set (os_caps ss)" using assms(4) by simp
  show ?thesis unfolding cap_new_def
    by (rule follows_add_cap [OF assms(1-3), of "\<lparr>cap_time = t, cap_internal = cap_internal (os_caps ss ! k)\<rparr>", simplified])
      (use c assms(3,5) in \<open>auto simp: os_sane_def entitled_def\<close>)
qed

lemma follows_delay_input:
  assumes "oc_ok oc" and "advancing_summary le sle dflt ri fb" and "os_sane oc ss" and "k < length (os_incaps ss)"
    and "some_result_le le ri pth (ic_time (os_incaps ss ! k)) t" and "p < length (ic_internal (os_incaps ss ! k))"
  shows "os_follows debug le oc ss (os_add_cap (cap_new t (ic_internal (os_incaps ss ! k) ! p) (os_store ss)) ss)
    \<and> ic_internal (os_incaps ss ! k) ! p \<in> set (oc_internal oc)"
proof -
  have o: "timestamp_order le" using assms(2) by (simp add: advancing_summary_def path_summary_def)
  have i: "ic_internal (os_incaps ss ! k) ! p \<in> set (oc_internal oc)" using assms(3,4,6) by (simp add: os_sane_def)
  from assms(5) obtain s u where "ri s (ic_time (os_incaps ss ! k)) = Some u" "le u t"
    by (auto simp: some_result_le_def list_ex_iff split: option.splits)
  then have "le (ic_time (os_incaps ss ! k)) t" using advancing_summary.advances [OF assms(2)] cap_order_trans [OF o] by blast
  moreover have "received oc ss (ic_time (os_incaps ss ! k))" using assms(4) by (auto simp: received_def)
  ultimately have "entitled le oc (os_caps ss) ss a t" for a by (auto simp: entitled_def)
  with i show ?thesis unfolding cap_new_def
    by (intro conjI follows_add_cap [OF assms(1) o assms(3), of "\<lparr>cap_time = t, cap_internal = ic_internal (os_incaps ss ! k) ! p\<rparr>", simplified])
qed

lemma follows_retain_input:
  assumes "oc_ok oc" and "advancing_summary le sle dflt ri fb" and "os_sane oc ss"
    and "op_act debug le dflt ri oc (RetainInput k p) ss = Some ss'"
    and nn: "debug \<Longrightarrow> \<forall>a \<in> set (oc_consumed oc). \<forall>t. 0 \<le> cb_count (os_store ss a) t"
  shows "os_follows debug le oc ss ss'"
proof -
  have o: "timestamp_order le" using assms(2) by (simp add: advancing_summary_def path_summary_def)
  define c where "c = os_incaps ss ! k"
  define ss1 where "ss1 = os_add_cap (cap_new (ic_time c) (ic_internal c ! p) (os_store ss)) ss"
  from assms(4) obtain pth where k: "k < length (os_incaps ss)" "some_result_le le ri pth (ic_time c) (ic_time c)" "p < length (ic_internal c)"
    and s: "ss' = os_add_cap (fst (cap_new (ic_time c) (ic_internal c ! p) (os_store ss)), ic_drop c (snd (cap_new (ic_time c) (ic_internal c ! p) (os_store ss))))
          (ss\<lparr>os_incaps := remove_nth k (os_incaps ss)\<rparr>)"
    by (auto simp: bind_eq_Some_conv ic_retain_for_output_def c_def split_beta Let_def split: if_splits)
  have f1: "os_follows debug le oc ss ss1" and di: "ic_internal c ! p \<in> set (oc_internal oc)"
    using follows_delay_input [OF assms(1-3) k(1), of pth "ic_time c" p debug] k by (simp_all add: c_def ss1_def)
  have s1: "os_sane oc ss1" "os_incaps ss1 = os_incaps ss" using f1 by (simp_all add: os_follows_def ss1_def os_add_cap_def)
  have "\<forall>a \<in> set (oc_consumed oc). \<forall>t. 0 \<le> cb_count (os_store ss1 a) t" if debug
    using nn [OF that] oc_ok_disjoint(1) [OF assms(1) di] by (auto simp: ss1_def os_add_cap_def cap_new_def)
  then have "os_follows debug le oc ss1 (ss1\<lparr>os_incaps := remove_nth k (os_incaps ss), os_store := ic_drop c (os_store ss1)\<rparr>)"
    using follows_drop_input [OF assms(1) o s1(1), of k debug] k(1) s1(2) by (simp add: c_def)
  from os_follows_trans [OF o f1 this] show ?thesis unfolding s ss1_def by (cases ss) (simp add: os_add_cap_def)
qed

lemma follows_downgrade:
  assumes "oc_ok oc" and "timestamp_order le" and "os_sane oc ss" and "k < length (os_caps ss)"
    and "cap_try_downgrade le (os_caps ss ! k) t (os_store ss) = (r, d, h)"
  shows "os_follows debug le oc ss (ss\<lparr>os_caps := (os_caps ss)[k := d], os_store := h\<rparr>)"
proof (cases "le (cap_time (os_caps ss ! k)) t")
  case True
  with assms(5) have "d = \<lparr>cap_time = t, cap_internal = cap_internal (os_caps ss ! k)\<rparr>"
    "h = cap_drop (os_caps ss ! k) (buf_update (cap_internal (os_caps ss ! k)) t 1 (os_store ss))"
    by (auto simp: cap_try_downgrade_def cap_try_delayed_def cap_new_def)
  with True follows_replace_cap [OF assms(1-4), of d] show ?thesis by simp
next
  case False
  with assms(5) have "d = os_caps ss ! k" "h = os_store ss" by (auto simp: cap_try_downgrade_def cap_try_delayed_def)
  with os_follows_refl [OF assms(2,3)] show ?thesis by simp
qed

lemma follows_receive_act:
  assumes "oc_ok oc" and "timestamp_order le" and "os_sane oc ss" and "op_act debug le dflt ri oc (Receive i) ss = Some ss'"
  shows "os_follows debug le oc ss ss'"
proof (cases "os_queues ss ! i")
  case Nil
  with assms(4) have "ss' = ss" by (auto simp: input_next_def next_guarded_def bind_eq_Some_conv)
  with assms(2,3) show ?thesis by (simp add: os_follows_refl)
next
  case (Cons m q)
  with assms(4) have "i < oc_inputs oc"
    and "ss' = ss\<lparr>os_queues := (os_queues ss)[i := q], os_incaps := os_incaps ss @ [\<lparr>ic_internal = oc_internal oc,
      ic_summaries = oc_summaries oc ! i,
      ic_guard = \<lparr>cg_consumed = oc_consumed oc ! i, cg_time = fst m, cg_record_count = int (length (snd m))\<rparr>\<rparr>]\<rparr>"
    using assms(3) by (auto simp: input_next_def next_guarded_def bind_eq_Some_conv os_sane_def)
  with follows_receive [OF assms(1-3) _ Cons HOL.refl] show ?thesis by simp
qed

text \<open>Any action.\<close>

lemma follows_act:
  assumes "oc_ok oc" and "advancing_summary le sle dflt ri fb" and "os_sane oc ss" and "op_act debug le dflt ri oc x ss = Some ss'"
    and nn: "debug \<Longrightarrow> \<forall>a \<in> set (oc_consumed oc). \<forall>t. 0 \<le> cb_count (os_store ss a) t"
  shows "os_follows debug le oc ss ss'"
proof -
  have o: "timestamp_order le" using assms(2) by (simp add: advancing_summary_def path_summary_def)
  have refl_le: "le t t" for t using o by (simp add: timestamp_order_def partial_order_laws_def)
  note delay = follows_delay [OF assms(1) o assms(3)] and downgrade = follows_downgrade [OF assms(1) o assms(3)]
  show ?thesis
  proof (cases x)
    case (Receive i)
    with assms(4) show ?thesis using follows_receive_act [OF assms(1) o assms(3)] by blast
  next
    case (DropInput k)
    with assms(4) follows_drop_input [OF assms(1) o assms(3) _ nn, of k] show ?thesis by (auto simp: bind_eq_Some_conv)
  next
    case (DelayInput k t p)
    with assms(4) obtain pth where "k < length (os_incaps ss)" "some_result_le le ri pth (ic_time (os_incaps ss ! k)) t"
      "p < length (ic_internal (os_incaps ss ! k))" "ss' = os_add_cap (cap_new t (ic_internal (os_incaps ss ! k) ! p) (os_store ss)) ss"
      by (auto simp: bind_eq_Some_conv ic_delayed_for_output_def split: if_splits)
    with follows_delay_input [OF assms(1-3), of k pth t p debug] show ?thesis by blast
  next
    case (RetainInput k p)
    with assms(4) show ?thesis using follows_retain_input [OF assms(1-3) _ nn] by blast
  next
    case (CloneCap k)
    with assms(4) delay [OF _ refl_le, of k] show ?thesis by (auto simp: bind_eq_Some_conv cap_clone_def)
  next
    case (DelayCap k t)
    with assms(4) delay [of k t] show ?thesis
      by (auto simp: bind_eq_Some_conv cap_delayed_def cap_try_delayed_def split: if_splits)
  next
    case (TryDelayCap k t)
    with assms(4) delay [of k t] os_follows_refl [OF o assms(3)] show ?thesis
      by (auto simp: bind_eq_Some_conv cap_try_delayed_def split: if_splits)
  next
    case (DowngradeCap k t)
    obtain r d h where d: "cap_try_downgrade le (os_caps ss ! k) t (os_store ss) = (r, d, h)"
      by (cases "cap_try_downgrade le (os_caps ss ! k) t (os_store ss)")
    with assms(4) DowngradeCap downgrade [OF _ d, of debug] show ?thesis
      by (auto simp: bind_eq_Some_conv cap_downgrade_def split: sum.splits)
  next
    case (TryDowngradeCap k t)
    obtain r d h where d: "cap_try_downgrade le (os_caps ss ! k) t (os_store ss) = (r, d, h)"
      by (cases "cap_try_downgrade le (os_caps ss ! k) t (os_store ss)")
    with assms(4) TryDowngradeCap downgrade [OF _ d, of debug] show ?thesis by (auto simp: bind_eq_Some_conv)
  next
    case (DropCap k)
    with assms(4) follows_drop_cap [OF assms(1) o assms(3), of k] show ?thesis by (auto simp: bind_eq_Some_conv)
  next
    case (Give k p data)
    with assms(4) have k: "k < length (os_caps ss)"
      and g: "op_give debug oc (cap_valid_for_output (os_caps ss ! k) (oc_internal oc ! p)) (cap_time (os_caps ss ! k)) p data ss = Some ss'"
      by (auto simp: bind_eq_Some_conv)
    show ?thesis
      by (rule follows_give [OF assms(1) o assms(3) g])
        (use nth_mem [OF k] refl_le in \<open>auto simp: cap_valid_for_output_def entitled_def\<close>)
  next
    case (GiveInput k p data)
    with assms(4) obtain valid where k: "k < length (os_incaps ss)" and g: "op_give debug oc valid (ic_time (os_incaps ss ! k)) p data ss = Some ss'"
      by (auto simp: bind_eq_Some_conv)
    show ?thesis
      by (rule follows_give [OF assms(1) o assms(3) g])
        (use nth_mem [OF k] refl_le in \<open>auto simp: entitled_def received_def\<close>)
  next
    case (Done p)
    with assms(4) show ?thesis using follows_done [OF assms(1) o assms(3)] by blast
  qed
qed

lemma follows_run:
  assumes "oc_ok oc" and "advancing_summary le sle dflt ri fb" and "os_sane oc ss" and "op_run debug le dflt ri oc xs ss = Some ss'"
    and "debug \<Longrightarrow> \<forall>a \<in> set (oc_consumed oc). \<forall>t. 0 \<le> cb_count (os_store ss a) t"
  shows "os_follows debug le oc ss ss'"
  using assms(3-5)
proof (induction xs arbitrary: ss)
  case Nil
  moreover have "timestamp_order le" using assms(2) by (simp add: advancing_summary_def path_summary_def)
  ultimately show ?case by (simp add: os_follows_refl)
next
  case (Cons x xs)
  have o: "timestamp_order le" using assms(2) by (simp add: advancing_summary_def path_summary_def)
  from Cons.prems(2) obtain ss1 where x: "op_act debug le dflt ri oc x ss = Some ss1" and xs: "op_run debug le dflt ri oc xs ss1 = Some ss'"
    by (auto simp: bind_eq_Some_conv)
  have f: "os_follows debug le oc ss ss1" by (rule follows_act [OF assms(1,2) Cons.prems(1) x Cons.prems(3)])
  then have "os_sane oc ss1" by (simp add: os_follows_def)
  moreover have "\<forall>a \<in> set (oc_consumed oc). \<forall>t. 0 \<le> cb_count (os_store ss1 a) t" if debug
    using f Cons.prems(3) [OF that] that unfolding os_follows_def os_entitled_def by (meson order_trans)
  ultimately have "os_follows debug le oc ss1 ss'" using Cons.IH [OF _ xs] by blast
  with f show ?case by (rule os_follows_trans [OF o])
qed

end
