(* ===== verification/Operator_Props.thy ===== *)
theory Operator_Props
  imports Operator_Run
begin

text \<open>
  Properties of operators made by the builder of \<^verbatim>\<open>builder_rc.rs\<close>: how they are built,
  that a call of \<open>schedule\<close> reports exactly what the user logic did with its
  capabilities and messages, and that in debug builds these reports pass the check
  \<open>validate_progress\<close> of the enclosing scope.
\<close>

section \<open>Moving batches\<close>

lemma move_batches_ok:
  assumes "length ps = length as" and "distinct as" and "\<forall>p \<in> set ps. cb_inv p" and "\<forall>a. cb_inv (h a)"
    and "move_batches ps as h = (ps', h')"
  shows "length ps' = length ps \<and> (\<forall>p \<in> set ps'. cb_inv p) \<and> (\<forall>a. cb_inv (h' a)) \<and> (\<forall>a. a \<notin> set as \<longrightarrow> h' a = h a)
    \<and> (\<forall>a \<in> set as. cb_updates (h' a) = [])
    \<and> (\<forall>i < length as. \<forall>t. cb_count (ps' ! i) t = cb_count (ps ! i) t + cb_count (h (as ! i)) t)"
  using assms
proof (induction ps as h arbitrary: ps' h' rule: move_batches.induct)
  case (1 p ps a as h)
  obtain b p' where d: "cb_drain_into (h a) p = (b, p')" by (cases "cb_drain_into (h a) p")
  obtain ps1 h1 where m: "move_batches ps as (h(a := b)) = (ps1, h1)" by (cases "move_batches ps as (h(a := b))")
  have r: "ps' = p' # ps1" "h' = h1" using 1(6) d m by simp_all
  have i: "cb_inv b \<and> cb_inv p'" using cb_inv_drain_into [OF _ _ d] 1(4,5) by simp
  with 1(4,5) have "\<forall>p \<in> set ps. cb_inv p" "\<forall>x. cb_inv ((h(a := b)) x)" by simp_all
  from 1(1) [OF d [symmetric] HOL.refl _ _ this m] 1(2,3)
  have ih: "length ps1 = length ps" "\<forall>p \<in> set ps1. cb_inv p" "\<forall>a. cb_inv (h1 a)" "\<forall>x. x \<notin> set as \<longrightarrow> h1 x = (h(a := b)) x"
    "\<forall>a \<in> set as. cb_updates (h1 a) = []"
    "\<forall>i < length as. \<forall>t. cb_count (ps1 ! i) t = cb_count (ps ! i) t + cb_count ((h(a := b)) (as ! i)) t" by simp_all
  have "cb_updates (h1 a) = []" using ih(4) 1(3) drain_into_facts(1) [OF d] by simp
  moreover have "cb_count ((p' # ps1) ! i) t = cb_count ((p # ps) ! i) t + cb_count (h ((a # as) ! i)) t" if "i < length (a # as)" for i t
  proof (cases i)
    case (Suc j)
    with that have "as ! j \<in> set as" by simp
    then have "as ! j \<noteq> a" using 1(3) by auto
    with Suc ih(6) that show ?thesis by simp
  qed (simp add: drain_into_facts(2) [OF d])
  ultimately show ?case using ih i r 1(2) by auto
qed auto

definition internals_moved ::
  "nat list \<Rightarrow> nat \<Rightarrow> 't::linorder change_batch list \<Rightarrow> 't buffers \<Rightarrow> 't change_batch list \<Rightarrow> 't buffers \<Rightarrow> bool" where
  "internals_moved as index ps h ps' h' \<longleftrightarrow> length ps' = length ps
    \<and> (\<forall>p \<in> set ps'. cb_inv p) \<and> (\<forall>a. cb_inv (h' a)) \<and> (\<forall>a. a \<notin> set as \<longrightarrow> h' a = h a)
    \<and> (\<forall>a \<in> set as. cb_updates (h' a) = [])
    \<and> (\<forall>j < length ps. \<forall>t. cb_count (ps' ! j) t
         = cb_count (ps ! j) t + (if index \<le> j \<and> j < index + length as then cb_count (h (as ! (j - index))) t else 0))"

lemma move_internals_ok:
  assumes "index + length as \<le> length ps" and "distinct as" and "\<forall>p \<in> set ps. cb_inv p" and "\<forall>a. cb_inv (h a)"
  shows "\<exists>ps' h'. move_internals as index ps h = Some (ps', h') \<and> internals_moved as index ps h ps' h'"
  using assms
proof (induction as arbitrary: index ps h)
  case Nil
  then show ?case by (simp add: internals_moved_def)
next
  case (Cons a as)
  define p' where "p' = cb_extend (fst (cb_drain (h a))) (ps ! index)"
  define h1 where "h1 = h(a := cb_new)"
  have l: "index < length ps" using Cons.prems(1) by simp
  have "\<forall>p \<in> set (ps[index := p']). cb_inv p" "\<forall>x. cb_inv (h1 x)"
    using Cons.prems(3,4) l set_update_subset_insert [of ps index p'] by (auto simp: h1_def p'_def)
  from Cons.IH [OF _ _ this, of "Suc index"] Cons.prems(1,2)
  obtain ps' h' where m: "move_internals as (Suc index) (ps[index := p']) h1 = Some (ps', h')"
    and ih: "internals_moved as (Suc index) (ps[index := p']) h1 ps' h'" by auto
  have "cb_count (ps' ! j) t = cb_count (ps ! j) t
      + (if index \<le> j \<and> j < index + length (a # as) then cb_count (h ((a # as) ! (j - index))) t else 0)" if "j < length ps" for j t
  proof (cases "j = index")
    case True
    with ih l show ?thesis by (simp add: internals_moved_def p'_def)
  next
    case False
    have "cb_count (h1 (as ! (j - Suc index))) t = cb_count (h ((a # as) ! (j - index))) t" if "Suc index \<le> j" "j < Suc index + length as"
    proof -
      have "as ! (j - Suc index) \<in> set as" using that by simp
      then have "as ! (j - Suc index) \<noteq> a" using Cons.prems(2) by auto
      moreover have "(a # as) ! (j - index) = as ! (j - Suc index)" using that by (simp add: nth_Cons' Suc_diff_le)
      ultimately show ?thesis by (simp add: h1_def)
    qed
    with ih that False show ?thesis by (auto simp: internals_moved_def)
  qed
  moreover have "cb_updates (h' a) = []" using ih Cons.prems(2) by (simp add: internals_moved_def h1_def cb_new_def)
  ultimately have "internals_moved (a # as) index ps h ps' h'" using ih by (simp add: internals_moved_def h1_def)
  moreover have "move_internals (a # as) index ps h = Some (ps', h')"
    using l m by (simp add: split_beta vec_get_def p'_def h1_def)
  ultimately show ?case by blast
qed

lemma drain_frontiers_ok:
  assumes "timestamp_order le" and "length ps = length fs" and "\<forall>f \<in> set fs. ma_inv le f" and "drain_frontiers le ps fs = (ps', fs')"
  shows "ps' = replicate (length ps) cb_new \<and> length fs' = length fs \<and> (\<forall>f \<in> set fs'. ma_inv le f)
    \<and> (\<forall>i < length fs. \<forall>t. ma_count (fs' ! i) t = ma_count (fs ! i) t + cb_count (ps ! i) t)"
  using assms(2-4)
proof (induction ps fs arbitrary: ps' fs' rule: list_induct2')
  case (4 p ps f fs)
  obtain ps1 fs1 where d: "drain_frontiers le ps fs = (ps1, fs1)" by (cases "drain_frontiers le ps fs")
  obtain out f' where u: "ma_update_iter le (fst (cb_drain p)) f = (out, f')" by (cases "ma_update_iter le (fst (cb_drain p)) f")
  have f': "ma_inv le f'" "ma_count f' t = ma_count f t + cb_count p t" for t
    using timestamp_order.update_iter_state [OF assms(1) _ u] 4(3) by simp_all
  have r: "ps' = cb_new # ps1" "fs' = f' # fs1" using 4(4) d u by (simp_all add: split_beta)
  from 4(1) [OF _ _ d] 4(2,3) f' show ?case by (auto simp: r less_Suc_eq_0_disj)
qed auto

text \<open>What \<open>schedule\<close> does around the actions of the user logic.\<close>

lemma schedule_state:
  assumes "oc_ok oc" and "oc_schedule debug le dflt ri logic oc ss sp = Some (result, oc', ss', sp')"
    and "os_sane oc ss" and "advancing_summary le sle dflt ri fb"
    and nn: "debug \<Longrightarrow> \<forall>a \<in> set (oc_consumed oc). \<forall>t. 0 \<le> cb_count (os_store ss a) t"
    and sp: "length (sp_consumeds sp) = oc_inputs oc" "length (sp_internals sp) = oc_outputs oc" "length (sp_produceds sp) = oc_outputs oc"
    "\<forall>b \<in> set (sp_consumeds sp) \<union> set (sp_internals sp) \<union> set (sp_produceds sp). cb_inv b"
  obtains ss1 fs where "oc' = oc\<lparr>oc_frontier := fs\<rparr>" "drain_frontiers le (sp_frontiers sp) (oc_frontier oc) = (sp_frontiers sp', fs)"
    "os_follows debug le oc ss ss1" "ss' = ss1\<lparr>os_store := os_store ss'\<rparr>" "os_sane oc ss'"
    "\<forall>a \<in> set (oc_consumed oc @ oc_internal oc @ oc_produced oc). cb_updates (os_store ss' a) = []"
    "length (sp_consumeds sp') = oc_inputs oc" "length (sp_internals sp') = oc_outputs oc" "length (sp_produceds sp') = oc_outputs oc"
    "\<forall>b \<in> set (sp_consumeds sp') \<union> set (sp_internals sp') \<union> set (sp_produceds sp'). cb_inv b"
    "\<forall>i < oc_inputs oc. \<forall>t. cb_count (sp_consumeds sp' ! i) t = cb_count (sp_consumeds sp ! i) t + cb_count (os_store ss1 (oc_consumed oc ! i)) t"
    "\<forall>p < oc_outputs oc. \<forall>t. cb_count (sp_internals sp' ! p) t = cb_count (sp_internals sp ! p) t + cb_count (os_store ss1 (oc_internal oc ! p)) t"
    "\<forall>p < oc_outputs oc. \<forall>t. cb_count (sp_produceds sp' ! p) t = cb_count (sp_produceds sp ! p) t + cb_count (os_store ss1 (oc_produced oc ! p)) t"
proof -
  obtain ps fs where fs: "drain_frontiers le (sp_frontiers sp) (oc_frontier oc) = (ps, fs)"
    by (cases "drain_frontiers le (sp_frontiers sp) (oc_frontier oc)")
  let ?oc = "oc\<lparr>oc_frontier := fs\<rparr>"
  obtain res actions where l: "logic fs ss = (res, actions)" by (cases "logic fs ss")
  from assms(2) obtain ss1 where r: "op_run debug le dflt ri ?oc actions ss = Some ss1"
    by (auto simp: oc_schedule_def fs l bind_eq_Some_conv Let_def)
  have ok: "oc_ok ?oc" "os_sane ?oc ss" using assms(1,3) by (simp_all add: oc_ok_def os_sane_def)
  have "os_follows debug le ?oc ss ss1" by (rule follows_run [OF ok(1) assms(4) ok(2) r]) (use nn in simp)
  then have f: "os_follows debug le oc ss ss1"
    by (simp add: os_follows_def os_sane_def os_balanced_def os_entitled_def entitled_def received_def)
  then have s1: "\<forall>a. cb_inv (os_store ss1 a)" "os_sane oc ss1" by (simp_all add: os_follows_def os_sane_def)
  have d: "distinct (oc_consumed oc)" "distinct (oc_internal oc)" "distinct (oc_produced oc)"
    "length (sp_consumeds sp) = length (oc_consumed oc)" "length (sp_produceds sp) = length (oc_produced oc)"
    "length (sp_internals sp) = length (oc_internal oc)"
    using assms(1) sp by (auto simp: oc_ok_def)
  obtain cs h1 where c: "move_batches (sp_consumeds sp) (oc_consumed oc) (os_store ss1) = (cs, h1)"
    by (cases "move_batches (sp_consumeds sp) (oc_consumed oc) (os_store ss1)")
  note c' = move_batches_ok [OF d(4,1) _ s1(1) c]
  have h1: "\<forall>a. cb_inv (h1 a)" using c' sp(4) by auto
  obtain "is" h2 where i: "move_internals (oc_internal oc) 0 (sp_internals sp) h1 = Some (is, h2)"
    and i': "internals_moved (oc_internal oc) 0 (sp_internals sp) h1 is h2"
    using move_internals_ok [OF _ d(2) _ h1, of 0 "sp_internals sp"] sp(4) d(6) by auto
  have h2: "\<forall>a. cb_inv (h2 a)" using i' by (simp add: internals_moved_def)
  obtain qs h3 where q: "move_batches (sp_produceds sp) (oc_produced oc) h2 = (qs, h3)"
    by (cases "move_batches (sp_produceds sp) (oc_produced oc) h2")
  note q' = move_batches_ok [OF d(5,3) _ h2 q]
  have res: "oc' = ?oc" "ss' = ss1\<lparr>os_store := h3\<rparr>"
    "sp' = \<lparr>sp_frontiers = ps, sp_consumeds = cs, sp_internals = is, sp_produceds = qs\<rparr>"
    using assms(2) by (auto simp: oc_schedule_def fs l r c i q Let_def)
  note disj = oc_ok_disjoint [OF assms(1)]
  have cf: "length cs = oc_inputs oc" "\<forall>b \<in> set cs. cb_inv b" "\<forall>a. a \<notin> set (oc_consumed oc) \<longrightarrow> h1 a = os_store ss1 a"
    "\<forall>a \<in> set (oc_consumed oc). cb_updates (h1 a) = []"
    "\<forall>i < oc_inputs oc. \<forall>t. cb_count (cs ! i) t = cb_count (sp_consumeds sp ! i) t + cb_count (os_store ss1 (oc_consumed oc ! i)) t"
    using c' sp d by auto
  have "if": "length is = oc_outputs oc" "\<forall>b \<in> set is. cb_inv b" "\<forall>a. a \<notin> set (oc_internal oc) \<longrightarrow> h2 a = h1 a"
    "\<forall>a \<in> set (oc_internal oc). cb_updates (h2 a) = []"
    "\<forall>p < oc_outputs oc. \<forall>t. cb_count (is ! p) t = cb_count (sp_internals sp ! p) t + cb_count (h1 (oc_internal oc ! p)) t"
    using i' sp d by (auto simp: internals_moved_def)
  have qf: "length qs = oc_outputs oc" "\<forall>b \<in> set qs. cb_inv b" "\<forall>a. cb_inv (h3 a)" "\<forall>a. a \<notin> set (oc_produced oc) \<longrightarrow> h3 a = h2 a"
    "\<forall>a \<in> set (oc_produced oc). cb_updates (h3 a) = []"
    "\<forall>p < oc_outputs oc. \<forall>t. cb_count (qs ! p) t = cb_count (sp_produceds sp ! p) t + cb_count (h2 (oc_produced oc ! p)) t"
    using q' sp d by auto
  show thesis
  proof (rule that [of fs ss1])
    show "os_sane oc ss'" using s1(2) qf(3) by (simp add: res os_sane_def)
    show "\<forall>a \<in> set (oc_consumed oc @ oc_internal oc @ oc_produced oc). cb_updates (os_store ss' a) = []"
    proof
      fix a assume "a \<in> set (oc_consumed oc @ oc_internal oc @ oc_produced oc)"
      then consider "a \<in> set (oc_produced oc)" | "a \<in> set (oc_internal oc)" | "a \<in> set (oc_consumed oc)" by auto
      then show "cb_updates (os_store ss' a) = []"
      proof cases
        case 2
        with disj(1) "if"(4) qf(4) show ?thesis by (simp add: res)
      next
        case 3
        then have "a \<notin> set (oc_internal oc)" "a \<notin> set (oc_produced oc)" using disj(1,2) by auto
        with 3 cf(4) "if"(3) qf(4) show ?thesis by (simp add: res)
      qed (use qf(5) in \<open>simp add: res\<close>)
    qed
    show "\<forall>p < oc_outputs oc. \<forall>t. cb_count (sp_internals sp' ! p) t = cb_count (sp_internals sp ! p) t + cb_count (os_store ss1 (oc_internal oc ! p)) t"
      using "if"(5) cf(3) disj(1,5) by (simp add: res)
    have "oc_produced oc ! p \<notin> set (oc_internal oc)" if "p < oc_outputs oc" for p using disj(1,4) that by blast
    then show "\<forall>p < oc_outputs oc. \<forall>t. cb_count (sp_produceds sp' ! p) t = cb_count (sp_produceds sp ! p) t + cb_count (os_store ss1 (oc_produced oc ! p)) t"
      using qf(6) "if"(3) cf(3) disj(2,4) by (simp add: res)
  qed (use fs f cf "if" qf in \<open>auto simp: res\<close>)
qed

section \<open>Well-formed operators and shared progress\<close>

definition sp_fits :: "('t, 's) operator_core \<Rightarrow> 't::linorder shared_progress \<Rightarrow> bool" where
  "sp_fits oc sp \<longleftrightarrow> length (sp_frontiers sp) = oc_inputs oc \<and> length (sp_consumeds sp) = oc_inputs oc
     \<and> length (sp_internals sp) = oc_outputs oc \<and> length (sp_produceds sp) = oc_outputs oc
     \<and> (\<forall>b \<in> set (sp_consumeds sp) \<union> set (sp_internals sp) \<union> set (sp_produceds sp). cb_inv b)"

definition frontiers_ok :: "('t \<Rightarrow> 't \<Rightarrow> bool) \<Rightarrow> ('t::linorder, 's) operator_core \<Rightarrow> bool" where
  "frontiers_ok le oc \<longleftrightarrow> length (oc_frontier oc) = oc_inputs oc \<and> (\<forall>f \<in> set (oc_frontier oc). ma_inv le f)"

lemmas sp_fitsD = sp_fits_def [THEN iffD1, THEN conjunct1]
  sp_fits_def [THEN iffD1, THEN conjunct2, THEN conjunct1]
  sp_fits_def [THEN iffD1, THEN conjunct2, THEN conjunct2, THEN conjunct1]
  sp_fits_def [THEN iffD1, THEN conjunct2, THEN conjunct2, THEN conjunct2, THEN conjunct1]
  sp_fits_def [THEN iffD1, THEN conjunct2, THEN conjunct2, THEN conjunct2, THEN conjunct2]

section \<open>Building operators\<close>

text \<open>The states a builder can be brought to.\<close>

inductive ob_built :: "nat \<Rightarrow> path \<Rightarrow> nat \<Rightarrow> ('t::linorder, 's) operator_builder \<times> 't store \<Rightarrow> bool" for index address peers where
  new: "\<forall>a. cb_inv (st_buffers st a) \<Longrightarrow> ob_built index address peers (ob_new index address peers, st)"
| set_notify: "ob_built index address peers (b, st) \<Longrightarrow> ob_built index address peers (ob_set_notify notify b, st)"
| new_input: "ob_built index address peers bs \<Longrightarrow> ob_new_input_connection connection bs = Some (target, bs')
    \<Longrightarrow> ob_built index address peers bs'"
| new_output: "ob_built index address peers bs \<Longrightarrow> ob_new_output_connection connection bs = Some (source, bs')
    \<Longrightarrow> ob_built index address peers bs'"

lemma ob_built_inv:
  assumes "ob_built index address peers bs"
  shows "ob_inv bs \<and> (\<forall>a. cb_inv (st_buffers (snd bs) a)) \<and> (\<forall>f \<in> set (ob_frontier (fst bs)). f = ma_new)
    \<and> rb_peers (ob_builder (fst bs)) = peers"
  using assms
proof induction
  case (set_notify b st notify)
  then show ?case by (simp add: ob_inv_def ob_set_notify_def rb_set_notify_def Let_def)
next
  case (new_input bs connection target bs')
  obtain b st where bs: "bs = (b, st)" by (cases bs)
  from new_input.hyps(2) have "\<forall>a. cb_inv (st_buffers (snd bs') a)" "\<forall>f \<in> set (ob_frontier (fst bs')). f = ma_new"
    "rb_peers (ob_builder (fst bs')) = peers"
    using new_input.IH
    by (auto simp: bs ob_new_input_connection_def rb_new_input_connection_def st_alloc_def bind_eq_Some_conv Let_def split: if_splits)
  with ob_inv_new_input_connection [OF _ new_input.hyps(2)] new_input.IH show ?case by blast
next
  case (new_output bs connection source bs')
  obtain b st where bs: "bs = (b, st)" by (cases bs)
  from new_output.hyps(2) have "\<forall>a. cb_inv (st_buffers (snd bs') a)" "\<forall>f \<in> set (ob_frontier (fst bs')). f = ma_new"
    "rb_peers (ob_builder (fst bs')) = peers"
    using new_output.IH
    by (auto simp: bs ob_new_output_connection_def rb_new_output_connection_def st_alloc_def bind_eq_Some_conv Let_def split: if_splits)
  with ob_inv_new_output_connection [OF _ new_output.hyps(2)] new_output.IH show ?case by blast
qed (simp add: ob_inv_new, simp add: ob_new_def rb_new_def)

lemma initial_capabilities_ok:
  assumes "initial_capabilities minimum as h = (cs, h')" and "\<forall>a. cb_inv (h a)"
  shows "map cap_time cs = replicate (length as) minimum \<and> map cap_internal cs = as \<and> (\<forall>a. cb_inv (h' a))
    \<and> (\<forall>a \<in> set as. cb_updates (h' a) = []) \<and> (\<forall>a. a \<notin> set as \<longrightarrow> h' a = h a)"
  using assms
proof (induction as arbitrary: h cs)
  case (Cons a as)
  define h1 where "h1 = (buf_update a minimum 1 h)(a := cb_clear (buf_update a minimum 1 h a))"
  obtain cs1 where c: "initial_capabilities minimum as h1 = (cs1, h')" "cs = \<lparr>cap_time = minimum, cap_internal = a\<rparr> # cs1"
    using Cons.prems(1) by (auto simp: cap_new_def h1_def split: prod.splits)
  have "\<forall>x. cb_inv (h1 x)" using Cons.prems(2) by (simp add: h1_def buf_update_def)
  note ih = Cons.IH [OF c(1) this]
  have "cb_updates (h' a) = []" if "a \<notin> set as" using ih that by (simp add: h1_def cb_clear_def)
  with ih c(2) show ?case by (auto simp: h1_def buf_update_def)
qed auto

text \<open>
  C37: an operator built by any sequence of new inputs and outputs is well formed: its batches are
  distinct, the summaries its capabilities are checked against are those it announces to its scope
  and name existing outputs only, and it starts with one capability at the minimum for each output, with
  nothing recorded; what it announces are as many capabilities at the minimum as there are peers.
\<close>

theorem operator_build_correct:
  fixes b :: "('t::linorder, 's) operator_builder"
  assumes "ob_built index address peers (b, st)" and "ob_build_reschedule minimum b (st_buffers st) = (caps, oc, sp, h)"
    and "oc_get_internal_summary minimum oc sp av = (summary, sp', av')" and "timestamp_order le"
  shows "oc_ok oc \<and> sp_fits oc sp \<and> frontiers_ok le oc
    \<and> os_sane oc \<lparr>os_store = h, os_caps = caps, os_incaps = [], os_queues = replicate (oc_inputs oc) ([] :: ('t, 'd) message list),
        os_sent = replicate (oc_outputs oc) []\<rparr>
    \<and> map cap_time caps = replicate (oc_outputs oc) minimum \<and> map cap_internal caps = oc_internal oc
    \<and> (\<forall>a \<in> set (oc_consumed oc @ oc_internal oc @ oc_produced oc). cb_updates (h a) = [])
    \<and> summary = oc_summaries oc \<and> length summary = oc_inputs oc \<and> ports_below (oc_outputs oc) summary
    \<and> sp_fits oc sp' \<and> (\<forall>p < oc_outputs oc. \<forall>t. cb_count (sp_internals sp' ! p) t = (if t = minimum then int peers else 0))"
proof -
  from ob_built_inv [OF assms(1)] have i: "ob_inv (b, st)" and v: "\<forall>a. cb_inv (st_buffers st a)"
    and f: "\<forall>f \<in> set (ob_frontier b). f = ma_new" and pr: "rb_peers (ob_builder b) = peers" by simp_all
  from assms(2) have c: "initial_capabilities minimum (ob_internal b) (st_buffers st) = (caps, h)"
    and oc: "oc = \<lparr>oc_address = rb_address (ob_builder b), oc_notify = rb_notify (ob_builder b), oc_peers = rb_peers (ob_builder b),
      oc_inputs = rb_inputs (ob_builder b), oc_outputs = rb_outputs (ob_builder b), oc_summary = rb_summary (ob_builder b),
      oc_frontier = ob_frontier b, oc_consumed = ob_consumed b, oc_internal = ob_internal b, oc_summaries = ob_summaries b,
      oc_produced = ob_produced b\<rparr>" and sp: "sp = sp_new (rb_inputs (ob_builder b)) (rb_outputs (ob_builder b))"
    by (auto simp: ob_build_reschedule_def Let_def split: prod.splits)
  from assms(3) have s: "summary = oc_summary oc" "sp' = sp\<lparr>sp_internals := map (cb_update minimum (int (oc_peers oc))) (sp_internals sp)\<rparr>"
    by (simp_all add: oc_get_internal_summary_def)
  note k = initial_capabilities_ok [OF c v]
  have l: "length (ob_internal b) = rb_outputs (ob_builder b)" and ad: "addrs_ok (ob_consumed b @ ob_internal b @ ob_produced b) st"
    and pb: "ports_below (rb_outputs (ob_builder b)) (rb_summary (ob_builder b))"
    using i by (simp_all add: ob_inv_def Let_def)
  have "oc_ok oc" using i by (simp add: oc_ok_def oc ob_inv_def addrs_ok_def Let_def)
  moreover have "sp_fits oc sp" "sp_fits oc sp'" by (auto simp: sp_fits_def oc sp sp_new_def s)
  moreover have "frontiers_ok le oc" using i f timestamp_order.ma_inv_new [OF assms(4)] by (auto simp: frontiers_ok_def oc ob_inv_def Let_def)
  moreover have "\<forall>c \<in> set caps. cap_internal c \<in> set (ob_internal b)" using k by (metis image_eqI set_map)
  then have "os_sane oc \<lparr>os_store = h, os_caps = caps, os_incaps = [], os_queues = replicate (oc_inputs oc) ([] :: ('t, 'd) message list),
        os_sent = replicate (oc_outputs oc) []\<rparr>"
    using k by (auto simp: os_sane_def oc)
  moreover have "\<forall>a \<in> set (oc_consumed oc @ oc_internal oc @ oc_produced oc). cb_updates (h a) = []"
  proof
    fix a assume "a \<in> set (oc_consumed oc @ oc_internal oc @ oc_produced oc)"
    then have "st_buffers st a = cb_new" using ad by (auto simp: addrs_ok_def oc)
    with k show "cb_updates (h a) = []" by (cases "a \<in> set (ob_internal b)") (simp_all add: cb_new_def)
  qed
  moreover have "\<forall>p < oc_outputs oc. \<forall>t. cb_count (sp_internals sp' ! p) t = (if t = minimum then int peers else 0)"
    using pr by (simp add: oc s sp sp_new_def)
  ultimately show ?thesis using i k l pb by (simp add: s(1)) (simp add: oc ob_inv_def Let_def)
qed

theorem operator_build_correct_witness:
  "\<exists>b st caps oc sp h sp'. ob_built 1 [0, 1] 2 (b :: (8 word, 8 word) operator_builder, st)
     \<and> ob_build_reschedule 0 b (st_buffers st) = (caps, oc, sp, h) \<and> oc_inputs oc = 1 \<and> oc_outputs oc = 1 \<and> oc_ok oc
     \<and> map cap_time caps = [0] \<and> oc_get_internal_summary 0 oc sp (av_new False) = (oc_summaries oc, sp', av_activate [0, 1] (av_new False))
     \<and> cb_count (sp_internals sp' ! 0) 0 = 2"
proof -
  let ?b0 = "ob_new 1 [0, 1] 2 :: (8 word, 8 word) operator_builder" and ?st0 = "\<lparr>st_buffers = (\<lambda>_. cb_new), st_next = 0\<rparr>"
  obtain t1 b1 st1 where i: "ob_new_input_connection [] (?b0, ?st0) = Some (t1, b1, st1)" "rb_outputs (ob_builder b1) = 0"
    "rb_summary (ob_builder b1) = [pc_default]" "ob_summaries b1 = [pc_default]" "rb_inputs (ob_builder b1) = 1" "rb_address (ob_builder b1) = [0, 1]"
    by (simp add: ob_new_input_connection_def rb_new_input_connection_def ob_new_def rb_new_def pc_from_iter_def pc_iter_ports_def st_alloc_def pc_default_def)
  obtain s2 b2 st2 where j: "ob_new_output_connection [(0, antichain_from_elem 0)] (b1, st1) = Some (s2, b2, st2)"
    "rb_inputs (ob_builder b2) = 1" "rb_outputs (ob_builder b2) = 1" "rb_address (ob_builder b2) = [0, 1]"
    using i by (auto simp: ob_new_output_connection_def rb_new_output_connection_def pc_add_port_def pc_get_def pc_default_def
        antichain_from_elem_def st_alloc_def vec_get_def)
  have "ob_built 1 [0, 1] 2 (?b0, ?st0)" by (rule ob_built.new) simp
  then have "ob_built 1 [0, 1] 2 (b1, st1)" using i(1) by (rule ob_built.new_input)
  then have b: "ob_built 1 [0, 1] 2 (b2, st2)" using j(1) by (rule ob_built.new_output)
  obtain caps oc sp h where c: "ob_build_reschedule 0 b2 (st_buffers st2) = (caps, oc, sp, h)"
    by (cases "ob_build_reschedule 0 b2 (st_buffers st2)")
  then have oc: "oc_inputs oc = 1" "oc_outputs oc = 1" "oc_address oc = [0, 1]"
    using j(2-4) by (auto simp: ob_build_reschedule_def Let_def split: prod.splits)
  obtain summary sp' av' where g: "oc_get_internal_summary 0 oc sp (av_new False) = (summary, sp', av')"
    by (cases "oc_get_internal_summary 0 oc sp (av_new False)")
  from operator_build_correct [OF b c g unsigned.timestamp_order_axioms, where 'd = nat] oc
  have "oc_ok oc" "map cap_time caps = [0]" "summary = oc_summaries oc" "cb_count (sp_internals sp' ! 0) 0 = 2" by simp_all
  moreover from this have "oc_get_internal_summary 0 oc sp (av_new False) = (oc_summaries oc, sp', av_activate [0, 1] (av_new False))"
    using g oc(3) by (auto simp: oc_get_internal_summary_def)
  ultimately show ?thesis using b c oc by (intro exI conjI)
qed

section \<open>Progress is reported exactly\<close>

text \<open>
  C9: whatever the user logic does, as long as it does not panic, a call of \<open>schedule\<close>
  reports exactly that: for each output the change of the capabilities held, for each input the
  records that were received and whose input capability was dropped, for each output the records
  sent; each added to what was not yet reported.  The operator's own batches are empty afterwards, and
  its view of the input frontiers has taken up the changes it was told.
\<close>

theorem operator_schedule_exact:
  assumes "oc_ok oc" and "advancing_summary le sle dflt ri fb" and "os_sane oc ss" and "sp_fits oc sp" and "frontiers_ok le oc"
    and "\<forall>a \<in> set (oc_consumed oc). \<forall>t. 0 \<le> cb_count (os_store ss a) t"
    and "oc_schedule debug le dflt ri logic oc ss sp = Some (result, oc', ss', sp')"
  shows "oc_ok oc' \<and> os_sane oc' ss' \<and> sp_fits oc' sp' \<and> frontiers_ok le oc'
    \<and> (\<forall>i < oc_inputs oc. \<forall>t. ma_count (oc_frontier oc' ! i) t = ma_count (oc_frontier oc ! i) t + cb_count (sp_frontiers sp ! i) t)
    \<and> (\<forall>a \<in> set (oc_consumed oc @ oc_internal oc @ oc_produced oc). cb_updates (os_store ss' a) = [])
    \<and> (\<forall>p < oc_outputs oc. \<forall>t. cb_count (sp_internals sp' ! p) t
        = cb_count (sp_internals sp ! p) t + cb_count (os_store ss (oc_internal oc ! p)) t
          + holds (os_caps ss') (oc_internal oc ! p) t - holds (os_caps ss) (oc_internal oc ! p) t)
    \<and> (\<forall>i < oc_inputs oc. \<forall>t. cb_count (sp_consumeds sp' ! i) t
        = cb_count (sp_consumeds sp ! i) t + cb_count (os_store ss (oc_consumed oc ! i)) t
          + (queued (os_queues ss ! i) t + guarded (os_incaps ss) (oc_consumed oc ! i) t)
          - (queued (os_queues ss' ! i) t + guarded (os_incaps ss') (oc_consumed oc ! i) t))
    \<and> (\<forall>p < oc_outputs oc. \<forall>t. cb_count (sp_produceds sp' ! p) t
        = cb_count (sp_produceds sp ! p) t + cb_count (os_store ss (oc_produced oc ! p)) t
          + sent_count (os_sent ss' ! p) t - sent_count (os_sent ss ! p) t)"
proof -
  have o: "timestamp_order le" using assms(2) by (simp add: advancing_summary_def path_summary_def)
  obtain ss1 fs where oc': "oc' = oc\<lparr>oc_frontier := fs\<rparr>"
    and d: "drain_frontiers le (sp_frontiers sp) (oc_frontier oc) = (sp_frontiers sp', fs)"
    and f: "os_follows debug le oc ss ss1" and s: "ss' = ss1\<lparr>os_store := os_store ss'\<rparr>" "os_sane oc ss'"
    "\<forall>a \<in> set (oc_consumed oc @ oc_internal oc @ oc_produced oc). cb_updates (os_store ss' a) = []"
    and l: "length (sp_consumeds sp') = oc_inputs oc" "length (sp_internals sp') = oc_outputs oc" "length (sp_produceds sp') = oc_outputs oc"
    "\<forall>b \<in> set (sp_consumeds sp') \<union> set (sp_internals sp') \<union> set (sp_produceds sp'). cb_inv b"
    and c: "\<forall>i < oc_inputs oc. \<forall>t. cb_count (sp_consumeds sp' ! i) t = cb_count (sp_consumeds sp ! i) t + cb_count (os_store ss1 (oc_consumed oc ! i)) t"
    "\<forall>p < oc_outputs oc. \<forall>t. cb_count (sp_internals sp' ! p) t = cb_count (sp_internals sp ! p) t + cb_count (os_store ss1 (oc_internal oc ! p)) t"
    "\<forall>p < oc_outputs oc. \<forall>t. cb_count (sp_produceds sp' ! p) t = cb_count (sp_produceds sp ! p) t + cb_count (os_store ss1 (oc_produced oc ! p)) t"
    using schedule_state [OF assms(1,7,3,2) assms(6) sp_fitsD(2-5) [OF assms(4)]] by metis
  have fr: "sp_frontiers sp' = replicate (oc_inputs oc) cb_new \<and> length fs = oc_inputs oc \<and> (\<forall>f \<in> set fs. ma_inv le f)
    \<and> (\<forall>i < oc_inputs oc. \<forall>t. ma_count (fs ! i) t = ma_count (oc_frontier oc ! i) t + cb_count (sp_frontiers sp ! i) t)"
    using drain_frontiers_ok [OF o _ _ d] assms(4,5) by (simp add: sp_fits_def frontiers_ok_def)
  have same: "os_caps ss' = os_caps ss1" "os_queues ss' = os_queues ss1" "os_incaps ss' = os_incaps ss1" "os_sent ss' = os_sent ss1"
    using s(1) by (metis op_session.select_convs(2-5) op_session.surjective op_session.update_convs(1))+
  have b: "os_balanced oc ss ss1" using f by (simp add: os_follows_def)
  show ?thesis
  proof (intro conjI)
    show "oc_ok oc'" using assms(1) by (simp add: oc' oc_ok_def)
    show "os_sane oc' ss'" using s(2) by (simp add: oc' os_sane_def)
    show "sp_fits oc' sp'" using l fr by (simp add: oc' sp_fits_def)
    show "frontiers_ok le oc'" using fr by (simp add: oc' frontiers_ok_def)
  qed (use fr b c s(3) oc_ok_disjoint(5) [OF assms(1)] in \<open>simp_all add: oc' os_balanced_def same algebra_simps\<close>)
qed

definition example_oc :: "(8 word, 8 word) operator_core" where
  "example_oc = \<lparr>oc_address = [0, 1], oc_notify = True, oc_peers = 2, oc_inputs = 1, oc_outputs = 1,
     oc_summary = [\<lparr>pc_tree = [(0, antichain_from_elem 0)]\<rparr>], oc_frontier = [ma_new], oc_consumed = [0], oc_internal = [1],
     oc_summaries = [\<lparr>pc_tree = [(0, antichain_from_elem 0)]\<rparr>], oc_produced = [2]\<rparr>"

definition example_session :: "(8 word, 8 word, nat) op_session" where
  "example_session = \<lparr>os_store = (\<lambda>_. cb_new), os_caps = [\<lparr>cap_time = 0, cap_internal = 1\<rparr>], os_incaps = [],
     os_queues = [[(3, [10, 20])]], os_sent = [[]]\<rparr>"

definition example_logic :: "(8 word, 8 word, nat) op_logic" where
  "example_logic fs ss = (False, [Receive 0, GiveInput 0 0 [7], DelayCap 0 4, DropInput 0, DropCap 0])"

lemma example_operator_ok:
  "oc_ok example_oc" "os_sane example_oc example_session" "sp_fits example_oc (sp_new 1 1)" "frontiers_ok (\<le>) example_oc"
  using unsigned.ma_inv_new
  by (auto simp: oc_ok_def example_oc_def os_sane_def example_session_def sp_fits_def sp_new_def frontiers_ok_def)

lemma example_schedule:
  obtains oc' ss' sp' where "oc_schedule True (\<le>) 0 checked_add example_logic example_oc example_session (sp_new 1 1) = Some (False, oc', ss', sp')"
    "os_caps ss' = [\<lparr>cap_time = 4, cap_internal = 1\<rparr>]" "os_incaps ss' = []" "os_queues ss' = [[]]" "os_sent ss' = [[Some (3, [7])]]"
proof -
  have "map_option (\<lambda>(r, oc', ss', sp'). (r, os_caps ss', os_incaps ss', os_queues ss', os_sent ss'))
      (oc_schedule True (\<le>) 0 checked_add example_logic example_oc example_session (sp_new 1 1))
    = Some (False, [\<lparr>cap_time = 4, cap_internal = 1\<rparr>], [], [[]], [[Some (3, [7])]])"
    by code_simp
  then show thesis by (auto intro: that)
qed

theorem operator_schedule_exact_witness:
  "\<exists>oc' ss' sp'. oc_schedule True (\<le>) 0 checked_add example_logic example_oc example_session (sp_new 1 1) = Some (False, oc', ss', sp')
     \<and> cb_count (sp_internals sp' ! 0) 0 = - 1 \<and> cb_count (sp_internals sp' ! 0) 4 = 1
     \<and> cb_count (sp_consumeds sp' ! 0) 3 = 2 \<and> cb_count (sp_produceds sp' ! 0) 3 = 1"
proof -
  obtain oc' ss' sp' where e: "oc_schedule True (\<le>) 0 checked_add example_logic example_oc example_session (sp_new 1 1) = Some (False, oc', ss', sp')"
    "os_caps ss' = [\<lparr>cap_time = 4, cap_internal = 1\<rparr>]" "os_incaps ss' = []" "os_queues ss' = [[]]" "os_sent ss' = [[Some (3, [7])]]"
    by (rule example_schedule)
  have n: "\<forall>a \<in> set (oc_consumed example_oc). \<forall>t. 0 \<le> cb_count (os_store example_session a) t" by (simp add: example_session_def)
  have o: "oc_inputs example_oc = 1" "oc_outputs example_oc = 1" "oc_internal example_oc = [1]" "oc_consumed example_oc = [0]"
    "oc_produced example_oc = [2]" "os_store example_session = (\<lambda>_. cb_new)" "os_caps example_session = [\<lparr>cap_time = 0, cap_internal = 1\<rparr>]"
    "os_incaps example_session = []" "os_queues example_session = [[(3, [10, 20])]]" "os_sent example_session = [[]]"
    by (simp_all add: example_oc_def example_session_def)
  from operator_schedule_exact [OF example_operator_ok(1) unsigned.advancing_summary_axioms example_operator_ok(2-4) n e(1)]
  have "cb_count (sp_internals sp' ! 0) t = holds (os_caps ss') 1 t - holds [\<lparr>cap_time = 0, cap_internal = 1\<rparr>] 1 t"
    "cb_count (sp_consumeds sp' ! 0) t = queued [(3, [10, 20 :: nat])] t - (queued (os_queues ss' ! 0) t + guarded (os_incaps ss') 0 t)"
    "cb_count (sp_produceds sp' ! 0) t = sent_count (os_sent ss' ! 0) t" for t
    unfolding o by (simp_all add: sp_new_def)
  with e show ?thesis by (auto simp: sent_count_def map_filter_def)
qed

section \<open>Reports pass the check of the scope\<close>

lemma validate_updates_ok:
  "\<forall>(t, d) \<in> set us. 0 < d \<longrightarrow> supported le cs po outp t = Some True \<Longrightarrow> validate_updates le cs po outp us = Some True"
  by (induction us) auto

lemma validate_batches_ok:
  "\<forall>(p, b) \<in> set bs. \<forall>(t, d) \<in> set (fst (cb_iter b)). 0 < d \<longrightarrow> supported le cs po p t = Some True
    \<Longrightarrow> validate_batches le cs po bs = Some True"
proof (induction bs)
  case (Cons x bs)
  obtain p b where x: "x = (p, b)" by (cases x)
  with Cons validate_updates_ok [of "fst (cb_iter b)" le cs po p] show ?case by simp
qed simp

lemma iter_entry: "cb_inv b \<Longrightarrow> (t, d) \<in> set (fst (cb_iter b)) \<Longrightarrow> cb_count b t = d"
  by (simp add: cb_iter_def Let_def compact_entry)

lemma iter_has_entry: "cb_inv b \<Longrightarrow> cb_count b t \<noteq> 0 \<Longrightarrow> (t, cb_count b t) \<in> set (fst (cb_iter b))"
  by (simp add: cb_iter_def Let_def compact_has_entry)

text \<open>A time the logic was entitled to is supported.\<close>

lemma ma_less_equal_trans:
  "timestamp_order le \<Longrightarrow> ma_less_equal le m t \<Longrightarrow> le t u \<Longrightarrow> ma_less_equal le m u"
  using cap_order_trans by (fastforce simp: ma_less_equal_def aref_less_equal_def list_ex_iff)

lemma entitled_supported:
  assumes "timestamp_order le" and "oc_ok oc" and "entitled le oc cs ss (oc_internal oc ! p) t"
    and "p < length (po_sources child_state)" and "length consumeds = oc_inputs oc" and "\<forall>b \<in> set consumeds. cb_inv b"
    and "\<forall>i < oc_inputs oc. \<forall>t. cb_count (consumeds ! i) t = cb_count (os_store ss (oc_consumed oc ! i)) t"
    and "\<forall>c \<in> set cs. cap_internal c = oc_internal oc ! p \<longrightarrow> ma_less_equal le (pi_implications (po_sources child_state ! p)) (cap_time c)"
    and "\<forall>c \<in> set (os_incaps ss). ma_less_equal le (pi_implications (po_sources child_state ! p)) (ic_time c)"
  shows "supported le consumeds child_state p t = Some True"
proof (cases "ma_less_equal le (pi_implications (po_sources child_state ! p)) t")
  case True
  with assms(4) show ?thesis by (simp add: supported_def vec_get_def)
next
  case False
  with assms(8,9) have "\<not> (\<exists>c \<in> set cs. cap_internal c = oc_internal oc ! p \<and> le (cap_time c) t)" "\<not> (\<exists>c \<in> set (os_incaps ss). le (ic_time c) t)"
    using ma_less_equal_trans [OF assms(1)] by blast+
  with assms(3) obtain k a where k: "le k t" "a \<in> set (oc_consumed oc)" "0 < cb_count (os_store ss a) k" by (auto simp: entitled_def received_def)
  then obtain i where i: "i < oc_inputs oc" "a = oc_consumed oc ! i" using assms(2) by (auto simp: oc_ok_def in_set_conv_nth)
  with k assms(7) have n: "0 < cb_count (consumeds ! i) k" by simp
  have m: "consumeds ! i \<in> set consumeds" using i assms(5) by simp
  then have "(k, cb_count (consumeds ! i) k) \<in> set (fst (cb_iter (consumeds ! i)))"
    using assms(6) n by (intro iter_has_entry) auto
  with n m k(1) have "list_ex (\<lambda>x. list_ex (\<lambda>(t', d). 0 < d \<and> le t' t) (fst (cb_iter x))) consumeds"
    by (auto simp: list_ex_iff)
  with assms(4) show ?thesis by (simp add: supported_def vec_get_def)
qed

lemma new_capability_entitled:
  assumes "os_balanced oc ss ss1" and "os_entitled le oc ss ss1" and "p < oc_outputs oc"
    and "oc_internal oc ! p \<in> set (oc_internal oc)"
    and "cb_count (os_store ss (oc_internal oc ! p)) t < cb_count (os_store ss1 (oc_internal oc ! p)) t"
  shows "entitled le oc (os_caps ss) ss1 (oc_internal oc ! p) t"
proof -
  have "cb_count (os_store ss1 (oc_internal oc ! p)) t - cb_count (os_store ss (oc_internal oc ! p)) t
      = holds (os_caps ss1) (oc_internal oc ! p) t - holds (os_caps ss) (oc_internal oc ! p) t"
    using assms(1,4) by (simp add: os_balanced_def)
  with assms(5) holds_nonneg [of "os_caps ss" "oc_internal oc ! p" t] have "0 < holds (os_caps ss1) (oc_internal oc ! p) t" by linarith
  then obtain d where "d \<in> set (os_caps ss1)" "cap_internal d = oc_internal oc ! p" "cap_time d = t" by (auto simp: holds_pos_iff)
  with assms(2) show ?thesis by (auto simp: os_entitled_def)
qed

lemma new_message_entitled:
  assumes "os_balanced oc ss ss1" and "os_entitled le oc ss ss1" and "p < oc_outputs oc"
    and "cb_count (os_store ss (oc_produced oc ! p)) t < cb_count (os_store ss1 (oc_produced oc ! p)) t"
  shows "entitled le oc (os_caps ss) ss1 (oc_internal oc ! p) t"
proof -
  have "cb_count (os_store ss1 (oc_produced oc ! p)) t - cb_count (os_store ss (oc_produced oc ! p)) t
      = sent_count (os_sent ss1 ! p) t - sent_count (os_sent ss ! p) t"
    using assms(1,3) by (simp add: os_balanced_def)
  with assms(4) have "sent_count (os_sent ss ! p) t < sent_count (os_sent ss1 ! p) t" by linarith
  with assms(2,3) show ?thesis by (auto simp: os_entitled_def)
qed

lemma validate_counted:
  assumes "length bs = n" and "\<forall>b \<in> set bs. cb_inv b"
    and "\<And>p t. p < n \<Longrightarrow> 0 < cb_count (bs ! p) t \<Longrightarrow> supported le consumeds child_state p t = Some True"
  shows "validate_batches le consumeds child_state (enumerate 0 bs) = Some True"
proof (rule validate_batches_ok, clarsimp simp: in_set_enumerate_eq assms(1))
  fix p t d assume p: "p < n" and u: "(t, d) \<in> set (fst (cb_iter (bs ! p)))" "0 < d"
  have "cb_count (bs ! p) t = d" by (rule iter_entry [OF _ u(1)]) (use p assms in auto)
  then show "supported le consumeds child_state p t = Some True" using assms(3) [OF p] u(2) by simp
qed

text \<open>
  C8: in a debug build, the progress an operator reports after a call of \<open>schedule\<close> passes
  \<open>validate_progress\<close>.  Since its batches were last drained, at the state \<open>ss0\<close>, the operator's code may have used its
  capabilities between the calls (\<open>earlier\<close>) and does anything with capabilities and messages in the call; input capabilities
  may outlive it.  What is asked is that the frontier of each output is not beyond the capabilities for that output in
  \<open>ss0\<close>, nor beyond the input capabilities that are still held after the call, whose messages are not yet reported as consumed.
  Then every capability gained and every record sent is in advance of a message consumed or of the frontier of its output.
\<close>

theorem operator_schedule_valid:
  assumes "oc_ok oc" and "advancing_summary le sle dflt ri fb" and "os_sane oc ss0" and "sp_fits oc sp"
    and "\<forall>a \<in> set (oc_consumed oc @ oc_internal oc @ oc_produced oc). cb_updates (os_store ss0 a) = []"
    and "\<forall>b \<in> set (sp_consumeds sp) \<union> set (sp_internals sp) \<union> set (sp_produceds sp). cb_updates b = []"
    and "op_run True le dflt ri oc earlier ss0 = Some ss"
    and "oc_schedule True le dflt ri logic oc ss sp = Some (result, oc', ss', sp')"
    and "ch_shared_progress ch = sp'" and "length (po_sources child_state) = oc_outputs oc"
    and "\<forall>c \<in> set (os_caps ss0). \<forall>p < oc_outputs oc. cap_internal c = oc_internal oc ! p
      \<longrightarrow> ma_less_equal le (pi_implications (po_sources child_state ! p)) (cap_time c)"
    and "\<forall>c \<in> set (os_incaps ss'). \<forall>p < oc_outputs oc. ma_less_equal le (pi_implications (po_sources child_state ! p)) (ic_time c)"
  shows "child_validate_progress le ch child_state = Some True"
proof -
  have o: "timestamp_order le" using assms(2) by (simp add: advancing_summary_def path_summary_def)
  have z: "cb_count (os_store ss0 a) t = 0" if "a \<in> set (oc_consumed oc @ oc_internal oc @ oc_produced oc)" for a t
    using assms(5) that by (simp add: cb_count_def)
  have f0: "os_follows True le oc ss0 ss" by (rule follows_run [OF assms(1,2,3,7)]) (use z in simp)
  have nn: "\<forall>a \<in> set (oc_consumed oc). \<forall>t. 0 \<le> cb_count (os_store ss a) t"
  proof (intro ballI allI)
    fix a t assume a: "a \<in> set (oc_consumed oc)"
    then have "cb_count (os_store ss0 a) t \<le> cb_count (os_store ss a) t" using f0 by (simp add: os_follows_def os_entitled_def)
    then show "0 \<le> cb_count (os_store ss a) t" using z [of a t] a by simp
  qed
  have sane: "os_sane oc ss" using f0 by (simp add: os_follows_def)
  obtain ss1 fs where f1: "os_follows True le oc ss ss1" and s: "ss' = ss1\<lparr>os_store := os_store ss'\<rparr>"
    and l: "length (sp_consumeds sp') = oc_inputs oc" "length (sp_internals sp') = oc_outputs oc" "length (sp_produceds sp') = oc_outputs oc"
    "\<forall>b \<in> set (sp_consumeds sp') \<union> set (sp_internals sp') \<union> set (sp_produceds sp'). cb_inv b"
    and c: "\<forall>i < oc_inputs oc. \<forall>t. cb_count (sp_consumeds sp' ! i) t = cb_count (sp_consumeds sp ! i) t + cb_count (os_store ss1 (oc_consumed oc ! i)) t"
    "\<forall>p < oc_outputs oc. \<forall>t. cb_count (sp_internals sp' ! p) t = cb_count (sp_internals sp ! p) t + cb_count (os_store ss1 (oc_internal oc ! p)) t"
    "\<forall>p < oc_outputs oc. \<forall>t. cb_count (sp_produceds sp' ! p) t = cb_count (sp_produceds sp ! p) t + cb_count (os_store ss1 (oc_produced oc ! p)) t"
    using schedule_state [OF assms(1,8) sane assms(2) nn sp_fitsD(2-5) [OF assms(4)]] by metis
  have inc: "os_incaps ss1 = os_incaps ss'" using s by (metis op_session.select_convs(3) op_session.surjective op_session.update_convs(1))
  have f: "os_follows True le oc ss0 ss1" by (rule os_follows_trans [OF o f0 f1])
  have b: "os_balanced oc ss0 ss1" and e: "os_entitled le oc ss0 ss1" using f by (simp_all add: os_follows_def)
  note disj = oc_ok_disjoint [OF assms(1)]
  have z': "\<forall>i < oc_inputs oc. \<forall>t. cb_count (sp_consumeds sp' ! i) t = cb_count (os_store ss1 (oc_consumed oc ! i)) t"
    using c(1) assms(4,6) by (simp add: sp_fits_def cb_count_def)
  have sup: "supported le (sp_consumeds sp') child_state p t = Some True"
    if "p < oc_outputs oc" and "entitled le oc (os_caps ss0) ss1 (oc_internal oc ! p) t" for p t
    by (rule entitled_supported [OF o assms(1) that(2) _ l(1) _ z']) (use that(1) l(4) assms(10-12) inc in auto)
  have int: "entitled le oc (os_caps ss0) ss1 (oc_internal oc ! p) t"
    if p: "p < oc_outputs oc" and u: "0 < cb_count (sp_internals sp' ! p) t" for p t
    by (rule new_capability_entitled [OF b e p disj(5) [OF p]])
      (use c(2) p u z [of "oc_internal oc ! p" t] disj(5) [OF p] assms(4,6) in \<open>simp add: sp_fits_def cb_count_def\<close>)
  have "validate_batches le (sp_consumeds sp') child_state (enumerate 0 (sp_internals sp')) = Some True"
    by (rule validate_counted [OF l(2)]) (use l(4) int sup in auto)
  moreover have pro: "entitled le oc (os_caps ss0) ss1 (oc_internal oc ! p) t"
    if p: "p < oc_outputs oc" and u: "0 < cb_count (sp_produceds sp' ! p) t" for p t
    by (rule new_message_entitled [OF b e p])
      (use c(3) p u z [of "oc_produced oc ! p" t] disj(4) [OF p] assms(4,6) in \<open>simp add: sp_fits_def cb_count_def\<close>)
  have "validate_batches le (sp_consumeds sp') child_state (enumerate 0 (sp_produceds sp')) = Some True"
    by (rule validate_counted [OF l(3)]) (use l(4) pro sup in auto)
  ultimately show ?thesis by (simp add: child_validate_progress_def assms(9))
qed

text \<open>
  Two elements queued at two times: the logic keeps the first input capability and takes a capability from it, sends
  with the second and drops it, and gives up the capability it had; before the call it had taken a later one.
\<close>

definition keeping_session :: "(8 word, 8 word, nat) op_session" where
  "keeping_session = example_session\<lparr>os_queues := [[(3, [10, 20]), (5, [30])]]\<rparr>"

definition keeping_logic :: "(8 word, 8 word, nat) op_logic" where
  "keeping_logic fs ss = (True, [Receive 0, Receive 0, DelayInput 0 3 0, GiveInput 1 0 [7], DropInput 1, DropCap 0])"

lemma keeping_schedule:
  obtains ss oc' ss' sp' where "op_run True (\<le>) 0 checked_add example_oc [DelayCap 0 4] keeping_session = Some ss"
    "oc_schedule True (\<le>) 0 checked_add keeping_logic example_oc ss (sp_new 1 1) = Some (True, oc', ss', sp')"
    "map ic_time (os_incaps ss') = [3]" "map cap_time (os_caps ss') = [4, 3]" "map cb_updates (sp_produceds sp') = [[(5, 1)]]"
proof -
  have "map_option (map_option (\<lambda>(r, oc', ss', sp'). (r, map ic_time (os_incaps ss'), map cap_time (os_caps ss'), map cb_updates (sp_produceds sp'))))
      (map_option (\<lambda>ss. oc_schedule True (\<le>) 0 checked_add keeping_logic example_oc ss (sp_new 1 1))
        (op_run True (\<le>) 0 checked_add example_oc [DelayCap 0 4] keeping_session))
    = Some (Some (True, [3], [4, 3], [[(5, 1)]]))"
    by code_simp
  then show thesis by (auto intro: that)
qed

theorem operator_schedule_valid_witness:
  "\<exists>ss oc' ss' sp'. op_run True (\<le>) 0 checked_add example_oc [DelayCap 0 4] keeping_session = Some ss
     \<and> oc_schedule True (\<le>) 0 checked_add keeping_logic example_oc ss (sp_new 1 1) = Some (True, oc', ss', sp')
     \<and> map ic_time (os_incaps ss') = [3] \<and> map cap_time (os_caps ss') = [4, 3] \<and> map cb_updates (sp_produceds sp') = [[(5, 1)]]
     \<and> child_validate_progress (\<le>) ((child_empty 1 1 :: (8 word, 8 word, unit) child)\<lparr>ch_shared_progress := sp'\<rparr>)
         \<lparr>po_targets = [], po_sources = [(pi_new :: (8 word, 8 word) port_information)\<lparr>pi_implications := ma_new_bottom 0\<rparr>]\<rparr> = Some True"
proof -
  obtain ss oc' ss' sp' where e: "op_run True (\<le>) 0 checked_add example_oc [DelayCap 0 4] keeping_session = Some ss"
    "oc_schedule True (\<le>) 0 checked_add keeping_logic example_oc ss (sp_new 1 1) = Some (True, oc', ss', sp')"
    "map ic_time (os_incaps ss') = [3]" "map cap_time (os_caps ss') = [4, 3]" "map cb_updates (sp_produceds sp') = [[(5, 1)]]"
    by (rule keeping_schedule)
  let ?ch = "(child_empty 1 1 :: (8 word, 8 word, unit) child)\<lparr>ch_shared_progress := sp'\<rparr>"
    and ?po = "\<lparr>po_targets = [], po_sources = [(pi_new :: (8 word, 8 word) port_information)\<lparr>pi_implications := ma_new_bottom 0\<rparr>]\<rparr>"
  have "os_sane example_oc keeping_session" using example_operator_ok(2) by (auto simp: os_sane_def keeping_session_def example_oc_def)
  then have "child_validate_progress (\<le>) ?ch ?po = Some True"
    by (rule operator_schedule_valid [OF example_operator_ok(1) unsigned.advancing_summary_axioms _ example_operator_ok(3) _ _ e(1,2)])
      (auto simp: keeping_session_def example_session_def example_oc_def sp_new_def ma_less_equal_def ma_new_bottom_def aref_less_equal_def cb_new_def)
  with e show ?thesis by (intro exI [of _ ss] exI [of _ oc'] exI [of _ ss'] exI [of _ sp']) simp
qed

end
