(* ===== verification/Notificator.thy ===== *)
theory Notificator
  imports Capability
begin

text \<open>
  \<^verbatim>\<open>timely/src/dataflow/operators/generic/notificator.rs\<close>: notifications.

  A request is a capability and its count.  The heap of available notifications is a list in
  the order of its layout: popping yields an entry of least time, and which one of several is up to a
  parameter \<open>tie\<close> that looks at the layout, so that nothing is assumed of how the heap breaks
  ties.  Capabilities are dropped where Rust drops them, on the store of shared batches.
\<close>

section \<open>FrontierNotificator\<close>

type_synonym 't request = "'t capability \<times> nat"

record 't frontier_notificator =
  fn_pending :: "'t request list"
  fn_available :: "'t request list"

definition fn_default :: "'t frontier_notificator" where
  "fn_default = \<lparr>fn_pending = [], fn_available = []\<rparr>"

definition fn_from :: "'t capability list \<Rightarrow> 't frontier_notificator" where
  "fn_from caps = \<lparr>fn_pending = map (\<lambda>x. (x, 1)) caps, fn_available = []\<rparr>"

definition fn_notify_at :: "'t capability \<Rightarrow> 't frontier_notificator \<Rightarrow> 't frontier_notificator" where
  "fn_notify_at cap nt = nt\<lparr>fn_pending := fn_pending nt @ [(cap, 1)]\<rparr>"

text \<open>No element of the frontiers is less or equal to the time.\<close>

definition passed :: "('t \<Rightarrow> 't \<Rightarrow> bool) \<Rightarrow> 't mutable_antichain list \<Rightarrow> 't \<Rightarrow> bool" where
  "passed le frontiers t \<longleftrightarrow> list_all (\<lambda>f. \<not> ma_less_equal le f t) frontiers"

definition fn_notify_at_frontiered ::
  "('t \<Rightarrow> 't \<Rightarrow> bool) \<Rightarrow> 't capability \<Rightarrow> 't mutable_antichain list \<Rightarrow> 't frontier_notificator \<Rightarrow> 't frontier_notificator" where
  "fn_notify_at_frontiered le cap frontiers nt =
     (if passed le frontiers (cap_time cap) then nt\<lparr>fn_available := fn_available nt @ [(cap, 1)]\<rparr>
      else nt\<lparr>fn_pending := fn_pending nt @ [(cap, 1)]\<rparr>)"

text \<open>Counts of equal adjacent times move to the last of them.\<close>

fun merge_counts :: "'t request list \<Rightarrow> 't request list" where
  "merge_counts ((c, n) # (d, m) # xs) =
     (if cap_time c = cap_time d then (c, 0) # merge_counts ((d, m + n) # xs) else (c, n) # merge_counts ((d, m) # xs))"
| "merge_counts xs = xs"

text \<open>\<open>retain(|x| x.1 > 0)\<close> drops the capabilities of the others.\<close>

definition retain_counted :: "'t::linorder request list \<Rightarrow> 't buffers \<Rightarrow> 't request list \<times> 't buffers" where
  "retain_counted xs h = (filter (\<lambda>x. 0 < snd x) xs, fold cap_drop (map fst (filter (\<lambda>x. \<not> 0 < snd x) xs)) h)"

fun enable ::
  "('t \<Rightarrow> 't \<Rightarrow> bool) \<Rightarrow> 't mutable_antichain list \<Rightarrow> 't::linorder request list \<Rightarrow> 't request list \<Rightarrow> 't buffers
   \<Rightarrow> 't request list \<times> 't request list \<times> 't buffers" where
  "enable le frontiers [] available h = ([], available, h)"
| "enable le frontiers ((c, n) # pending) available h =
     (if passed le frontiers (cap_time c) then
        (let (c', h) = cap_clone c h;
             (pending', available', h') = enable le frontiers pending (available @ [(c', n)]) h
         in ((c, 0) # pending', available', h'))
      else
        (let (pending', available', h') = enable le frontiers pending available h
         in ((c, n) # pending', available', h')))"

definition fn_make_available ::
  "('t \<Rightarrow> 't \<Rightarrow> bool) \<Rightarrow> 't mutable_antichain list \<Rightarrow> 't::linorder frontier_notificator \<times> 't buffers
   \<Rightarrow> 't frontier_notificator \<times> 't buffers" where
  "fn_make_available le frontiers nh =
     (let (nt, h) = nh in
      if fn_pending nt \<noteq> [] then
        (let (pending, h) = retain_counted (merge_counts (sort_key (\<lambda>x. cap_time (fst x)) (fn_pending nt))) h;
             (pending, available, h) = enable le frontiers pending (fn_available nt) h;
             (pending, h) = retain_counted pending h
         in (\<lparr>fn_pending = pending, fn_available = available\<rparr>, h))
      else (nt, h))"

section \<open>The heap of available notifications\<close>

definition heap_least :: "'t::linorder request list \<Rightarrow> 't" where
  "heap_least xs = hd (sort (map (\<lambda>x. cap_time (fst x)) xs))"

definition heap_top :: "('t::linorder request list \<Rightarrow> nat) \<Rightarrow> 't request list \<Rightarrow> nat" where
  "heap_top tie xs =
     (let ks = filter (\<lambda>k. cap_time (fst (xs ! k)) = heap_least xs) [0..<length xs] in ks ! (tie xs mod length ks))"

definition heap_peek :: "('t::linorder request list \<Rightarrow> nat) \<Rightarrow> 't request list \<Rightarrow> 't request option" where
  "heap_peek tie xs = (if xs = [] then None else Some (xs ! heap_top tie xs))"

definition heap_pop :: "('t::linorder request list \<Rightarrow> nat) \<Rightarrow> 't request list \<Rightarrow> ('t request \<times> 't request list) option" where
  "heap_pop tie xs = (if xs = [] then None else Some (xs ! heap_top tie xs, remove_nth (heap_top tie xs) xs))"

lemma heap_top_less: "xs \<noteq> [] \<Longrightarrow> heap_top tie xs < length xs \<and> cap_time (fst (xs ! heap_top tie xs)) = heap_least xs"
proof -
  assume ne: "xs \<noteq> []"
  define ks where "ks = filter (\<lambda>k. cap_time (fst (xs ! k)) = heap_least xs) [0..<length xs]"
  have "heap_least xs \<in> set (sort (map (\<lambda>x. cap_time (fst x)) xs))"
    unfolding heap_least_def using ne by (intro hd_in_set) (metis length_0_conv length_map length_sort)
  then obtain x where "x \<in> set xs" "cap_time (fst x) = heap_least xs" by auto
  then obtain k where "k < length xs" "cap_time (fst (xs ! k)) = heap_least xs" by (auto simp: in_set_conv_nth)
  then have "ks \<noteq> []" by (auto simp: ks_def filter_empty_conv)
  then have "ks ! (tie xs mod length ks) \<in> set ks" by simp
  then show ?thesis by (auto simp: heap_top_def Let_def ks_def)
qed

text \<open>
  The loop of \<open>next_count\<close>: while the top equals the entry just popped, in its capability
  \<^emph>\<open>and\<close> its count, it is popped too.
\<close>

function pop_equal ::
  "('t::linorder request list \<Rightarrow> nat) \<Rightarrow> 't request \<Rightarrow> nat \<Rightarrow> 't request list \<Rightarrow> 't buffers \<Rightarrow> nat \<times> 't request list \<times> 't buffers" where
  "pop_equal tie front n available h =
     (case heap_pop tie available of
        None \<Rightarrow> (n, available, h)
      | Some (x, rest) \<Rightarrow>
          if cap_eq (fst x) (fst front) \<and> snd x = snd front
          then pop_equal tie front (n + snd x) rest (cap_drop (fst x) h)
          else (n, available, h))"
  by pat_completeness auto
termination
  by (relation "measure (\<lambda>(tie, front, n, available, h). length available)")
    (auto simp: heap_pop_def heap_top_less split: if_splits)

declare pop_equal.simps [simp del]

definition fn_next_count ::
  "('t \<Rightarrow> 't \<Rightarrow> bool) \<Rightarrow> ('t::linorder request list \<Rightarrow> nat) \<Rightarrow> 't mutable_antichain list \<Rightarrow> 't frontier_notificator \<times> 't buffers
   \<Rightarrow> 't request option \<times> 't frontier_notificator \<times> 't buffers" where
  "fn_next_count le tie frontiers nh =
     (let (nt, h) = (if fn_available (fst nh) = [] then fn_make_available le frontiers nh else nh)
      in case heap_pop tie (fn_available nt) of
           None \<Rightarrow> (None, nt, h)
         | Some (front, rest) \<Rightarrow>
             (let (n, rest, h) = pop_equal tie front (snd front) rest h
              in (Some (fst front, n), nt\<lparr>fn_available := rest\<rparr>, h)))"

definition fn_next ::
  "('t \<Rightarrow> 't \<Rightarrow> bool) \<Rightarrow> ('t::linorder request list \<Rightarrow> nat) \<Rightarrow> 't mutable_antichain list \<Rightarrow> 't frontier_notificator \<times> 't buffers
   \<Rightarrow> 't capability option \<times> 't frontier_notificator \<times> 't buffers" where
  "fn_next le tie frontiers nh =
     (case fn_next_count le tie frontiers nh of (r, nh') \<Rightarrow> (map_option fst r, nh'))"

text \<open>\<open>for_each\<close>: the logic may request further notifications, so the loop need not end.\<close>

partial_function (option) fn_for_each_loop ::
  "('t \<Rightarrow> 't \<Rightarrow> bool) \<Rightarrow> ('t::linorder request list \<Rightarrow> nat) \<Rightarrow> 't mutable_antichain list
   \<Rightarrow> ('t request \<Rightarrow> ('t frontier_notificator \<times> 't buffers) \<times> 'u \<Rightarrow> ('t frontier_notificator \<times> 't buffers) \<times> 'u)
   \<Rightarrow> ('t frontier_notificator \<times> 't buffers) \<times> 'u \<Rightarrow> (('t frontier_notificator \<times> 't buffers) \<times> 'u) option" where
  "fn_for_each_loop le tie frontiers logic st =
     (case fn_next_count le tie frontiers (fst st) of
        (None, nh) \<Rightarrow> Some (nh, snd st)
      | (Some r, nh) \<Rightarrow> fn_for_each_loop le tie frontiers logic (logic r (nh, snd st)))"

declare fn_for_each_loop.simps [code]

definition fn_for_each ::
  "('t \<Rightarrow> 't \<Rightarrow> bool) \<Rightarrow> ('t::linorder request list \<Rightarrow> nat) \<Rightarrow> 't mutable_antichain list
   \<Rightarrow> ('t capability \<Rightarrow> ('t frontier_notificator \<times> 't buffers) \<times> 'u \<Rightarrow> ('t frontier_notificator \<times> 't buffers) \<times> 'u)
   \<Rightarrow> ('t frontier_notificator \<times> 't buffers) \<times> 'u \<Rightarrow> (('t frontier_notificator \<times> 't buffers) \<times> 'u) option" where
  "fn_for_each le tie frontiers logic st =
     fn_for_each_loop le tie frontiers (\<lambda>r. logic (fst r)) (fn_make_available le frontiers (fst st), snd st)"

section \<open>Notificator sessions\<close>

text \<open>A session is a \<open>FrontierNotificator\<close> with fixed frontiers, made available when it opens.\<close>

definition nf_new ::
  "('t \<Rightarrow> 't \<Rightarrow> bool) \<Rightarrow> 't mutable_antichain list \<Rightarrow> 't::linorder frontier_notificator \<times> 't buffers
   \<Rightarrow> 't frontier_notificator \<times> 't buffers" where
  "nf_new le frontiers nh = fn_make_available le frontiers nh"

definition nf_notify_at ::
  "('t \<Rightarrow> 't \<Rightarrow> bool) \<Rightarrow> 't mutable_antichain list \<Rightarrow> 't capability \<Rightarrow> 't frontier_notificator \<Rightarrow> 't frontier_notificator" where
  "nf_notify_at le frontiers cap nt = fn_notify_at_frontiered le cap frontiers nt"

definition nf_next ::
  "('t \<Rightarrow> 't \<Rightarrow> bool) \<Rightarrow> ('t::linorder request list \<Rightarrow> nat) \<Rightarrow> 't mutable_antichain list \<Rightarrow> 't frontier_notificator \<times> 't buffers
   \<Rightarrow> 't request option \<times> 't frontier_notificator \<times> 't buffers" where
  "nf_next le tie frontiers nh = fn_next_count le tie frontiers nh"

definition nf_for_each ::
  "('t \<Rightarrow> 't \<Rightarrow> bool) \<Rightarrow> ('t::linorder request list \<Rightarrow> nat) \<Rightarrow> 't mutable_antichain list
   \<Rightarrow> ('t request \<Rightarrow> ('t frontier_notificator \<times> 't buffers) \<times> 'u \<Rightarrow> ('t frontier_notificator \<times> 't buffers) \<times> 'u)
   \<Rightarrow> ('t frontier_notificator \<times> 't buffers) \<times> 'u \<Rightarrow> (('t frontier_notificator \<times> 't buffers) \<times> 'u) option" where
  "nf_for_each le tie frontiers logic st = fn_for_each_loop le tie frontiers logic st"

section \<open>Counting requests\<close>

definition requested :: "'t request list \<Rightarrow> 't \<Rightarrow> nat" where
  "requested xs t = (\<Sum>x \<leftarrow> xs. if cap_time (fst x) = t then snd x else 0)"

lemma requested_simps [simp]:
  "requested [] t = 0" "requested (x # xs) t = (if cap_time (fst x) = t then snd x else 0) + requested xs t"
  "requested (xs @ ys) t = requested xs t + requested ys t"
  by (simp_all add: requested_def)

lemma requested_mset: "mset xs = mset ys \<Longrightarrow> requested xs t = requested ys t"
proof -
  assume "mset xs = mset ys"
  then have "sum_mset (image_mset (\<lambda>x. if cap_time (fst x) = t then snd x else 0) (mset xs))
           = sum_mset (image_mset (\<lambda>x. if cap_time (fst x) = t then snd x else 0) (mset ys))" by simp
  then show ?thesis by (simp add: requested_def sum_mset_sum_list flip: mset_map)
qed

lemma holds_mset: "mset cs = mset ds \<Longrightarrow> holds cs a t = holds ds a t"
proof -
  assume "mset cs = mset ds"
  then have "size (filter_mset P (mset cs)) = size (filter_mset P (mset ds))" for P by simp
  then show ?thesis by (simp add: holds_def flip: mset_filter)
qed

lemma unaccounted_Cons:
  "unaccounted (c # cs) h = (\<lambda>a t. unaccounted cs h a t - of_bool (cap_internal c = a \<and> cap_time c = t))"
  by (simp add: unaccounted_def fun_eq_iff)

lemma unaccounted_mset: "mset cs = mset ds \<Longrightarrow> unaccounted cs h = unaccounted ds h"
  using holds_mset by (fastforce simp: unaccounted_def fun_eq_iff)

lemma requested_filter: "requested (filter (\<lambda>x. 0 < snd x) xs) t = requested xs t"
  by (induction xs) auto

lemma merge_counts_fst [simp]: "map fst (merge_counts xs) = map fst xs"
  by (induction xs rule: merge_counts.induct) auto

lemma requested_merge [simp]: "requested (merge_counts xs) t = requested xs t"
  by (induction xs rule: merge_counts.induct) auto

text \<open>The capabilities a notificator holds.\<close>

definition fn_caps :: "'t frontier_notificator \<Rightarrow> 't capability list" where
  "fn_caps nt = map fst (fn_pending nt @ fn_available nt)"

lemma retain_counted_facts:
  assumes "retain_counted xs h = (ys, h')"
  shows "requested ys t = requested xs t" "set ys \<subseteq> set xs" "\<forall>y \<in> set ys. 0 < snd y" "length ys \<le> length xs"
    "unaccounted (map fst ys @ cs) h' = unaccounted (map fst xs @ cs) h"
proof -
  have ys: "ys = filter (\<lambda>x. 0 < snd x) xs" and h': "h' = fold cap_drop (map fst (filter (\<lambda>x. \<not> 0 < snd x) xs)) h"
    using assms by (simp_all add: retain_counted_def)
  show "requested ys t = requested xs t" "set ys \<subseteq> set xs" "\<forall>y \<in> set ys. 0 < snd y" "length ys \<le> length xs"
    by (auto simp: ys requested_filter)
  have "holds (map fst (filter (\<lambda>x. 0 < snd x) xs)) a t + holds (map fst (filter (\<lambda>x. \<not> 0 < snd x) xs)) a t = holds (map fst xs) a t" for a t
    by (induction xs) auto
  then have "holds (map fst xs) a t = holds (map fst ys) a t + holds (map fst (filter (\<lambda>x. \<not> 0 < snd x) xs)) a t" for a t
    by (simp add: ys)
  then show "unaccounted (map fst ys @ cs) h' = unaccounted (map fst xs @ cs) h"
    by (simp add: unaccounted_def h' fun_eq_iff)
qed

lemma enable_facts:
  assumes "enable le frontiers ps av h = (ps', av', h')" and "\<forall>p \<in> set ps. 0 < snd p"
  shows "map fst ps' = map fst ps \<and> (\<forall>p \<in> set ps'. 0 < snd p \<longrightarrow> \<not> passed le frontiers (cap_time (fst p)))
    \<and> (\<exists>new. av' = av @ new \<and> (\<forall>x \<in> set new. 0 < snd x \<and> passed le frontiers (cap_time (fst x)))
        \<and> length (filter (\<lambda>x. 0 < snd x) ps') + length new = length ps
        \<and> (\<forall>t. requested ps' t + requested new t = requested ps t))
    \<and> unaccounted (map fst ps' @ map fst av') h' = unaccounted (map fst ps @ map fst av) h"
  using assms
proof (induction le frontiers ps av h arbitrary: ps' av' h' rule: enable.induct)
  case (1 le frontiers av h)
  then show ?case by auto
next
  case (2 le frontiers c n ps av h)
  show ?case
  proof (cases "passed le frontiers (cap_time c)")
    case True
    obtain c' h1 where c: "cap_clone c h = (c', h1)" by (cases "cap_clone c h")
    obtain ps1 av1 h2 where e: "enable le frontiers ps (av @ [(c', n)]) h1 = (ps1, av1, h2)"
      by (cases "enable le frontiers ps (av @ [(c', n)]) h1")
    have r: "ps' = (c, 0) # ps1" "av' = av1" "h' = h2" using 2(3) True c e by simp_all
    have c': "c' = c" "h1 = buf_update (cap_internal c) (cap_time c) 1 h" using c by (auto simp: cap_clone_def cap_new_def)
    from 2(1) [OF True c [symmetric] HOL.refl e] 2(4) obtain new where
      ih: "map fst ps1 = map fst ps" "\<forall>p \<in> set ps1. 0 < snd p \<longrightarrow> \<not> passed le frontiers (cap_time (fst p))"
      "av1 = (av @ [(c', n)]) @ new" "\<forall>x \<in> set new. 0 < snd x \<and> passed le frontiers (cap_time (fst x))"
      "length (filter (\<lambda>x. 0 < snd x) ps1) + length new = length ps" "\<forall>t. requested ps1 t + requested new t = requested ps t"
      "unaccounted (map fst ps1 @ map fst av1) h2 = unaccounted (map fst ps @ map fst (av @ [(c', n)])) h1" by auto
    have "unaccounted (map fst ps' @ map fst av') h' = unaccounted (map fst ((c, n) # ps) @ map fst av) h"
    proof (intro ext)
      fix a t
      from fun_cong [OF fun_cong [OF ih(7), of a], of t]
      show "unaccounted (map fst ps' @ map fst av') h' a t = unaccounted (map fst ((c, n) # ps) @ map fst av) h a t"
        by (auto simp: r c' unaccounted_def split: if_splits)
    qed
    moreover have "\<exists>new. av' = av @ new \<and> (\<forall>x \<in> set new. 0 < snd x \<and> passed le frontiers (cap_time (fst x)))
        \<and> length (filter (\<lambda>x. 0 < snd x) ps') + length new = length ((c, n) # ps)
        \<and> (\<forall>t. requested ps' t + requested new t = requested ((c, n) # ps) t)"
      by (rule exI [of _ "(c', n) # new"]) (use ih 2(4) True in \<open>auto simp: r c'\<close>)
    ultimately show ?thesis using ih(1,2) by (simp add: r)
  next
    case False
    obtain ps1 av1 h2 where e: "enable le frontiers ps av h = (ps1, av1, h2)" by (cases "enable le frontiers ps av h")
    have r: "ps' = (c, n) # ps1" "av' = av1" "h' = h2" using 2(3) False e by simp_all
    from 2(2) [OF False e] 2(4) obtain new where
      ih: "map fst ps1 = map fst ps" "\<forall>p \<in> set ps1. 0 < snd p \<longrightarrow> \<not> passed le frontiers (cap_time (fst p))"
      "av1 = av @ new" "\<forall>x \<in> set new. 0 < snd x \<and> passed le frontiers (cap_time (fst x))"
      "length (filter (\<lambda>x. 0 < snd x) ps1) + length new = length ps" "\<forall>t. requested ps1 t + requested new t = requested ps t"
      "unaccounted (map fst ps1 @ map fst av1) h2 = unaccounted (map fst ps @ map fst av) h" by auto
    have "unaccounted (map fst ps' @ map fst av') h' = unaccounted (map fst ((c, n) # ps) @ map fst av) h"
    proof (intro ext)
      fix a t
      from fun_cong [OF fun_cong [OF ih(7), of a], of t]
      show "unaccounted (map fst ps' @ map fst av') h' a t = unaccounted (map fst ((c, n) # ps) @ map fst av) h a t"
        by (simp add: r unaccounted_def)
    qed
    moreover have "\<exists>new. av' = av @ new \<and> (\<forall>x \<in> set new. 0 < snd x \<and> passed le frontiers (cap_time (fst x)))
        \<and> length (filter (\<lambda>x. 0 < snd x) ps') + length new = length ((c, n) # ps)
        \<and> (\<forall>t. requested ps' t + requested new t = requested ((c, n) # ps) t)"
      by (rule exI [of _ new]) (use ih 2(4) in \<open>auto simp: r\<close>)
    ultimately show ?thesis using ih(1,2) False by (simp add: r)
  qed
qed

section \<open>Invariant\<close>

text \<open>Every request is counted, and what is available has been passed by the frontiers.\<close>

definition fn_inv :: "('t \<Rightarrow> 't \<Rightarrow> bool) \<Rightarrow> 't mutable_antichain list \<Rightarrow> 't frontier_notificator \<Rightarrow> bool" where
  "fn_inv le frontiers nt \<longleftrightarrow> (\<forall>x \<in> set (fn_pending nt @ fn_available nt). 0 < snd x)
     \<and> (\<forall>x \<in> set (fn_available nt). passed le frontiers (cap_time (fst x)))"

text \<open>In a session nothing that could be available is pending.\<close>

definition nf_inv :: "('t \<Rightarrow> 't \<Rightarrow> bool) \<Rightarrow> 't mutable_antichain list \<Rightarrow> 't frontier_notificator \<Rightarrow> bool" where
  "nf_inv le frontiers nt \<longleftrightarrow> fn_inv le frontiers nt \<and> (\<forall>x \<in> set (fn_pending nt). \<not> passed le frontiers (cap_time (fst x)))"

definition fn_requested :: "'t frontier_notificator \<Rightarrow> 't \<Rightarrow> nat" where
  "fn_requested nt t = requested (fn_pending nt @ fn_available nt) t"

definition fn_size :: "'t frontier_notificator \<Rightarrow> nat" where
  "fn_size nt = length (fn_pending nt) + length (fn_available nt)"

lemma make_available_ok:
  assumes "fn_inv le frontiers nt" and "fn_make_available le frontiers (nt, h) = (nt', h')"
  shows "nf_inv le frontiers nt' \<and> (\<exists>new. fn_available nt' = fn_available nt @ new) \<and> fn_requested nt' = fn_requested nt
    \<and> fn_size nt' \<le> fn_size nt \<and> unaccounted (fn_caps nt') h' = unaccounted (fn_caps nt) h
    \<and> (nf_inv le frontiers nt \<longrightarrow> fn_available nt' = fn_available nt)"
proof (cases "fn_pending nt = []")
  case True
  with assms show ?thesis by (auto simp: fn_make_available_def nf_inv_def)
next
  case False
  define xs where "xs = merge_counts (sort_key (\<lambda>x. cap_time (fst x)) (fn_pending nt))"
  obtain p1 h1 where r1: "retain_counted xs h = (p1, h1)" by (cases "retain_counted xs h")
  obtain p2 av h2 where e: "enable le frontiers p1 (fn_available nt) h1 = (p2, av, h2)"
    by (cases "enable le frontiers p1 (fn_available nt) h1")
  obtain p3 h3 where r2: "retain_counted p2 h2 = (p3, h3)" by (cases "retain_counted p2 h2")
  have res: "nt' = \<lparr>fn_pending = p3, fn_available = av\<rparr>" "h' = h3"
    using assms(2) False by (simp_all add: fn_make_available_def xs_def [symmetric] r1 e r2)
  note f1 = retain_counted_facts [OF r1] and f2 = retain_counted_facts [OF r2]
  from enable_facts [OF e f1(3)] obtain new where
    en: "map fst p2 = map fst p1" "\<forall>p \<in> set p2. 0 < snd p \<longrightarrow> \<not> passed le frontiers (cap_time (fst p))" "av = fn_available nt @ new"
    "\<forall>x \<in> set new. 0 < snd x \<and> passed le frontiers (cap_time (fst x))"
    "length (filter (\<lambda>x. 0 < snd x) p2) + length new = length p1" "\<forall>t. requested p2 t + requested new t = requested p1 t"
    "unaccounted (map fst p2 @ map fst av) h2 = unaccounted (map fst p1 @ map fst (fn_available nt)) h1" by auto
  have ms: "mset (map fst xs) = mset (map fst (fn_pending nt))" by (simp add: xs_def mset_map)
  have rq: "requested xs t = requested (fn_pending nt) t" for t
    unfolding xs_def by (simp add: requested_mset [of "sort_key (\<lambda>x. cap_time (fst x)) (fn_pending nt)" "fn_pending nt"])
  have lx: "length xs = length (fn_pending nt)" using arg_cong [OF ms, of size] by simp
  have p3: "p3 = filter (\<lambda>x. 0 < snd x) p2" using r2 by (simp add: retain_counted_def)
  have "\<forall>x \<in> set p3. 0 < snd x \<and> \<not> passed le frontiers (cap_time (fst x))" using en(2) f2(2,3) by blast
  then have "nf_inv le frontiers nt'" using assms(1) en(3,4) by (auto simp: nf_inv_def fn_inv_def res)
  moreover have "fn_requested nt' = fn_requested nt"
    using f1(1) f2(1) en(3,6) rq by (simp add: fn_requested_def res fun_eq_iff algebra_simps)
  moreover have "fn_size nt' \<le> fn_size nt" using en(3,5) f1(4) lx by (simp add: fn_size_def res p3)
  moreover have "unaccounted (fn_caps nt') h' = unaccounted (fn_caps nt) h"
  proof -
    have "unaccounted (fn_caps nt') h' = unaccounted (map fst p1 @ map fst (fn_available nt)) h1"
      using f2(5) [of "map fst av"] en(7) by (simp add: fn_caps_def res)
    also have "\<dots> = unaccounted (map fst xs @ map fst (fn_available nt)) h" by (rule f1(5))
    also have "\<dots> = unaccounted (fn_caps nt) h" unfolding fn_caps_def by (rule unaccounted_mset) (use ms in simp)
    finally show ?thesis .
  qed
  moreover have "new = []" if "nf_inv le frontiers nt"
  proof -
    have "set (map fst p1) \<subseteq> set (map fst (fn_pending nt))"
      using f1(2) mset_eq_setD [OF ms] by (metis image_mono list.set_map)
    then have "\<forall>x \<in> set p1. \<not> passed le frontiers (cap_time (fst x))" using that unfolding nf_inv_def by (fastforce simp: image_subset_iff)
    with e have "av = fn_available nt"
      by (induction le frontiers p1 "fn_available nt" h1 arbitrary: p2 av h2 rule: enable.induct) (auto split: prod.splits)
    with en(3) show ?thesis by simp
  qed
  ultimately show ?thesis using en(3) by (auto simp: res)
qed

lemma heap_pop_Some:
  assumes "heap_pop tie xs = Some (x, rest)"
  shows "mset xs = add_mset x (mset rest)" "\<forall>y \<in> set xs. cap_time (fst x) \<le> cap_time (fst y)"
proof -
  have ne: "xs \<noteq> []" and x: "x = xs ! heap_top tie xs" "rest = remove_nth (heap_top tie xs) xs"
    using assms by (auto simp: heap_pop_def split: if_splits)
  note t = heap_top_less [OF ne, of tie]
  show "mset xs = add_mset x (mset rest)" unfolding x using t by (intro mset_remove_nth) simp
  define ts where "ts = sort (map (\<lambda>x. cap_time (fst x)) xs)"
  have "sorted ts" "ts \<noteq> []" using ne by (auto simp: ts_def simp flip: set_empty)
  then have "\<forall>t \<in> set ts. hd ts \<le> t" by (cases ts) auto
  then have le: "\<forall>y \<in> set xs. hd ts \<le> cap_time (fst y)" by (simp add: ts_def)
  have "cap_time (fst x) = hd ts" using t by (simp add: x heap_least_def ts_def)
  with le show "\<forall>y \<in> set xs. cap_time (fst x) \<le> cap_time (fst y)" by simp
qed

lemma heap_pop_None: "heap_pop tie xs = None \<longleftrightarrow> xs = []"
  by (simp add: heap_pop_def)

text \<open>The entries popped with the first one have its time.\<close>

lemma pop_equal_ok:
  assumes "pop_equal tie front n av h = (n', rest, h')"
  shows "\<exists>zs. mset av = mset (zs @ rest) \<and> (\<forall>z \<in> set zs. cap_time (fst z) = cap_time (fst front))
    \<and> n' = n + requested zs (cap_time (fst front)) \<and> unaccounted (cs @ map fst rest) h' = unaccounted (cs @ map fst av) h"
  using assms
proof (induction tie front n av h arbitrary: n' rest h' rule: pop_equal.induct)
  case (1 tie front n av h)
  show ?case
  proof (cases "heap_pop tie av")
    case None
    with 1(2) show ?thesis by (intro exI [of _ "[]"]) (simp add: pop_equal.simps [of tie front n av h])
  next
    case (Some p)
    obtain x r where p: "p = (x, r)" by (cases p)
    note pop = heap_pop_Some [OF Some [unfolded p]]
    show ?thesis
    proof (cases "cap_eq (fst x) (fst front) \<and> snd x = snd front")
      case True
      have "pop_equal tie front (n + snd x) r (cap_drop (fst x) h) = (n', rest, h')"
        using 1(2) Some p True by (simp add: pop_equal.simps [of tie front n av h])
      from 1(1) [OF Some p [symmetric] True this] obtain zs where
        zs: "mset r = mset (zs @ rest)" "\<forall>z \<in> set zs. cap_time (fst z) = cap_time (fst front)"
        "n' = n + snd x + requested zs (cap_time (fst front))"
        "unaccounted (cs @ map fst rest) h' = unaccounted (cs @ map fst r) (cap_drop (fst x) h)" by auto
      have "mset (cs @ map fst av) = mset (fst x # cs @ map fst r)" using arg_cong [OF pop(1), of "image_mset fst"] by simp
      then have "unaccounted (cs @ map fst av) h = unaccounted (fst x # cs @ map fst r) h" by (rule unaccounted_mset)
      also have "\<dots> = unaccounted (cs @ map fst r) (cap_drop (fst x) h)" by (simp add: unaccounted_def fun_eq_iff)
      finally show ?thesis using zs True pop(1) by (intro exI [of _ "x # zs"]) (auto simp: cap_eq_def)
    next
      case False
      with 1(2) Some p show ?thesis by (intro exI [of _ "[]"]) (auto simp: pop_equal.simps [of tie front n av h])
    qed
  qed
qed

lemma next_count_ok:
  assumes "fn_inv le frontiers nt" and "fn_next_count le tie frontiers (nt, h) = (r, nt', h')"
  shows "fn_inv le frontiers nt'
    \<and> (nf_inv le frontiers nt \<longrightarrow> nf_inv le frontiers nt' \<and> (r = None \<longrightarrow> fn_available nt = []))
    \<and> (case r of None \<Rightarrow> nf_inv le frontiers nt' \<and> fn_available nt' = [] \<and> fn_requested nt' = fn_requested nt
           \<and> unaccounted (fn_caps nt') h' = unaccounted (fn_caps nt) h
       | Some (c, n) \<Rightarrow> passed le frontiers (cap_time c) \<and> 0 < n \<and> fn_size nt' < fn_size nt
           \<and> (\<forall>x \<in> set (fn_available nt'). cap_time c \<le> cap_time (fst x))
           \<and> (nf_inv le frontiers nt \<longrightarrow> cap_time c \<in> (\<lambda>x. cap_time (fst x)) ` set (fn_available nt))
           \<and> (\<forall>t. (if cap_time c = t then n else 0) + fn_requested nt' t = fn_requested nt t)
           \<and> unaccounted (c # fn_caps nt') h' = unaccounted (fn_caps nt) h)"
proof -
  obtain nt1 h1 where m: "(if fn_available nt = [] then fn_make_available le frontiers (nt, h) else (nt, h)) = (nt1, h1)"
    by (cases "if fn_available nt = [] then fn_make_available le frontiers (nt, h) else (nt, h)")
  have m': "fn_inv le frontiers nt1 \<and> fn_requested nt1 = fn_requested nt \<and> fn_size nt1 \<le> fn_size nt
    \<and> unaccounted (fn_caps nt1) h1 = unaccounted (fn_caps nt) h \<and> (fn_available nt1 = [] \<longrightarrow> nf_inv le frontiers nt1)
    \<and> (nf_inv le frontiers nt \<longrightarrow> nf_inv le frontiers nt1 \<and> fn_available nt1 = fn_available nt)"
  proof (cases "fn_available nt = []")
    case True
    with m have "fn_make_available le frontiers (nt, h) = (nt1, h1)" by simp
    from make_available_ok [OF assms(1) this] show ?thesis by (auto simp: nf_inv_def)
  next
    case False
    with m assms(1) show ?thesis by auto
  qed
  show ?thesis
  proof (cases "heap_pop tie (fn_available nt1)")
    case None
    then have "fn_available nt1 = []" by (simp add: heap_pop_None)
    moreover have "r = None" "nt' = nt1" "h' = h1" using assms(2) m None by (simp_all add: fn_next_count_def)
    ultimately show ?thesis using m' by simp
  next
    case (Some p)
    obtain x rest where p: "p = (x, rest)" by (cases p)
    obtain n rest' h2 where q: "pop_equal tie x (snd x) rest h1 = (n, rest', h2)" by (cases "pop_equal tie x (snd x) rest h1")
    have res: "r = Some (fst x, n)" "nt' = nt1\<lparr>fn_available := rest'\<rparr>" "h' = h2"
      using assms(2) m Some p q by (simp_all add: fn_next_count_def)
    note pop = heap_pop_Some [OF Some [unfolded p]]
    from pop_equal_ok [OF q, of "map fst (fn_pending nt1)"] obtain zs where
      zs: "mset rest = mset (zs @ rest')" "\<forall>z \<in> set zs. cap_time (fst z) = cap_time (fst x)" "n = snd x + requested zs (cap_time (fst x))"
      "unaccounted (map fst (fn_pending nt1) @ map fst rest') h2 = unaccounted (map fst (fn_pending nt1) @ map fst rest) h1" by blast
    have av: "mset (fn_available nt1) = mset (x # zs @ rest')" using pop(1) zs(1) by simp
    have sav: "set (fn_available nt1) = insert x (set zs \<union> set rest')" using mset_eq_setD [OF av] by simp
    have rz: "requested zs t = (if cap_time (fst x) = t then requested zs t else 0)" for t using zs(2) by (induction zs) auto
    have rq: "(if cap_time (fst x) = t then n else 0) + fn_requested nt' t = fn_requested nt1 t" for t
      using requested_mset [OF av, of t] rz [of t] by (simp add: fn_requested_def res zs(3) split: if_splits)
    have un: "unaccounted (fst x # fn_caps nt') h' = unaccounted (fn_caps nt1) h1"
    proof -
      have "mset (fn_caps nt1) = mset (fst x # map fst (fn_pending nt1) @ map fst rest)"
        using arg_cong [OF pop(1), of "image_mset fst"] by (simp add: fn_caps_def)
      then have "unaccounted (fn_caps nt1) h1 = unaccounted (fst x # map fst (fn_pending nt1) @ map fst rest) h1" by (rule unaccounted_mset)
      also have "\<dots> = unaccounted (fst x # fn_caps nt') h'"
        using zs(4) by (simp add: unaccounted_def fn_caps_def res fun_eq_iff)
      finally show ?thesis ..
    qed
    have "fn_size nt' < fn_size nt" using m' arg_cong [OF av, of size] by (simp add: fn_size_def res)
    moreover have f: "fn_inv le frontiers nt1" using m' by blast
    then have "passed le frontiers (cap_time (fst x))" "0 < snd x" using sav by (simp_all add: fn_inv_def)
    moreover from f have fi: "fn_inv le frontiers nt'" using sav by (simp add: fn_inv_def res Ball_def)
    moreover from calculation have "0 < n" by (simp add: zs(3))
    moreover have "\<forall>y \<in> set (fn_available nt'). cap_time (fst x) \<le> cap_time (fst y)" using pop(2) sav by (simp add: res)
    moreover have "nf_inv le frontiers nt'" if "nf_inv le frontiers nt"
    proof -
      have "nf_inv le frontiers nt1" using m' that by blast
      with fi show ?thesis by (simp add: nf_inv_def res(2))
    qed
    moreover have "cap_time (fst x) \<in> (\<lambda>x. cap_time (fst x)) ` set (fn_available nt)" if "nf_inv le frontiers nt"
    proof -
      have "x \<in> set (fn_available nt1)" unfolding sav by simp
      then show ?thesis using m' that by (simp add: image_iff) blast
    qed
    ultimately show ?thesis using m' rq un by (simp add: res(1))
  qed
qed

section \<open>Notifications in order, and until exhaustion\<close>

text \<open>
  The traces of a session with fixed frontiers: it opens, capabilities are handed in at times not
  before those already delivered, and notifications are delivered.  The user may change the store in
  between.
\<close>

inductive nf_trace ::
  "('t \<Rightarrow> 't \<Rightarrow> bool) \<Rightarrow> ('t::linorder request list \<Rightarrow> nat) \<Rightarrow> 't mutable_antichain list \<Rightarrow> 't frontier_notificator \<times> 't buffers
   \<Rightarrow> 't list \<Rightarrow> 't frontier_notificator \<times> 't buffers \<Rightarrow> bool" for le tie frontiers nh0 where
  new: "nf_trace le tie frontiers nh0 [] (nf_new le frontiers nh0)"
| notify_at: "nf_trace le tie frontiers nh0 ds (nt, h) \<Longrightarrow> \<forall>d \<in> set ds. d \<le> cap_time c
    \<Longrightarrow> nf_trace le tie frontiers nh0 ds (nf_notify_at le frontiers c nt, h')"
| next_one: "nf_trace le tie frontiers nh0 ds nh \<Longrightarrow> nf_next le tie frontiers nh = (Some (c, n), nh')
    \<Longrightarrow> nf_trace le tie frontiers nh0 (ds @ [cap_time c]) nh'"

lemma nf_trace_inv:
  assumes "nf_trace le tie frontiers nh0 ds nh" and "fn_inv le frontiers (fst nh0)"
  shows "nf_inv le frontiers (fst nh) \<and> sorted ds \<and> (\<forall>d \<in> set ds. passed le frontiers d)
    \<and> (\<forall>d \<in> set ds. \<forall>x \<in> set (fn_available (fst nh)). d \<le> cap_time (fst x))"
  using assms
proof induction
  case new
  obtain nt h nt' h' where n: "nh0 = (nt, h)" "fn_make_available le frontiers (nt, h) = (nt', h')"
    by (metis surj_pair)
  with make_available_ok [of le frontiers nt h nt' h'] new show ?case by (simp add: nf_new_def)
next
  case (notify_at ds nt h c h')
  from notify_at.IH [OF notify_at.prems] have i: "nf_inv le frontiers nt" "sorted ds" "\<forall>d \<in> set ds. passed le frontiers d"
    "\<forall>d \<in> set ds. \<forall>x \<in> set (fn_available nt). d \<le> cap_time (fst x)" by simp_all
  show ?case
  proof (cases "passed le frontiers (cap_time c)")
    case True
    then have "nf_notify_at le frontiers c nt = nt\<lparr>fn_available := fn_available nt @ [(c, 1)]\<rparr>"
      by (simp add: nf_notify_at_def fn_notify_at_frontiered_def)
    with i True notify_at.hyps(2) show ?thesis by (simp add: nf_inv_def fn_inv_def Ball_def)
  next
    case False
    then have "nf_notify_at le frontiers c nt = nt\<lparr>fn_pending := fn_pending nt @ [(c, 1)]\<rparr>"
      by (simp add: nf_notify_at_def fn_notify_at_frontiered_def)
    with i False show ?thesis by (simp add: nf_inv_def fn_inv_def Ball_def)
  qed
next
  case (next_one ds nh c n nh')
  obtain nt h nt' h' where n: "nh = (nt, h)" "nh' = (nt', h')" by (cases nh, cases nh')
  have i: "nf_inv le frontiers nt" using next_one n by simp
  then have "fn_inv le frontiers nt" by (simp add: nf_inv_def)
  from next_count_ok [OF this] next_one.hyps(2) n i
  have k: "nf_inv le frontiers nt'" "passed le frontiers (cap_time c)" "\<forall>x \<in> set (fn_available nt'). cap_time c \<le> cap_time (fst x)"
    "cap_time c \<in> (\<lambda>x. cap_time (fst x)) ` set (fn_available nt)"
    unfolding nf_next_def by fastforce+
  from next_one.IH [OF next_one.prems] n have "\<forall>d \<in> set ds. \<forall>x \<in> set (fn_available nt). d \<le> cap_time (fst x)" by simp
  with k(4) have d: "\<forall>d \<in> set ds. d \<le> cap_time c" unfolding image_iff by metis
  with k(3) have "\<forall>d \<in> set ds. \<forall>x \<in> set (fn_available nt'). d \<le> cap_time (fst x)" by (meson order_trans)
  with next_one.IH [OF next_one.prems] k d n show ?case by (auto simp: sorted_append)
qed

text \<open>
  Within a session notifications are delivered in non-decreasing order, as long as none is
  requested at a time before those already delivered, and only at times that all frontiers have
  passed; whatever is still pending is held back by a frontier.
\<close>

theorem notifications_in_order:
  assumes "fn_inv le frontiers nt" and "nf_trace le tie frontiers (nt, h) ds (nt', h')"
  shows "sorted ds \<and> (\<forall>d \<in> set ds. \<forall>f \<in> set frontiers. \<not> ma_less_equal le f d)
    \<and> (\<forall>x \<in> set (fn_pending nt'). \<exists>f \<in> set frontiers. ma_less_equal le f (cap_time (fst x)))"
  using nf_trace_inv [OF assms(2)] assms(1) by (auto simp: passed_def list_all_iff nf_inv_def)

definition example_requests :: "8 word frontier_notificator" where
  "example_requests = fn_from [\<lparr>cap_time = 5, cap_internal = 0\<rparr>, \<lparr>cap_time = 3, cap_internal = 0\<rparr>, \<lparr>cap_time = 9, cap_internal = 0\<rparr>]"

theorem notifications_in_order_witness:
  "\<exists>nt' h'. nf_trace (\<le>) (\<lambda>_. 0) [ma_new_bottom (7 :: 8 word)] (example_requests, \<lambda>_. cb_new) [3, 5] (nt', h')
     \<and> sorted [3, 5 :: 8 word] \<and> (\<forall>x \<in> set (fn_pending nt'). 7 \<le> cap_time (fst x))"
proof -
  let ?F = "[ma_new_bottom (7 :: 8 word)]"
  define nh1 where "nh1 = nf_new (\<le>) ?F (example_requests, \<lambda>_. cb_new)"
  define r2 where "r2 = nf_next (\<le>) (\<lambda>_. 0) ?F nh1"
  define r3 where "r3 = nf_next (\<le>) (\<lambda>_. 0) ?F (snd r2)"
  have "map_option (\<lambda>r. cap_time (fst r)) (fst r2) = Some 3" "map_option (\<lambda>r. cap_time (fst r)) (fst r3) = Some 5"
    unfolding r3_def r2_def nh1_def by code_simp+
  then obtain c n d m where r: "r2 = (Some (c, n), snd r2)" "cap_time c = 3" "r3 = (Some (d, m), snd r3)" "cap_time d = 5"
    by (cases r2; cases r3) auto
  have "nf_trace (\<le>) (\<lambda>_. 0) ?F (example_requests, \<lambda>_. cb_new) [] nh1" unfolding nh1_def by (rule nf_trace.new)
  from nf_trace.next_one [OF this r(1) [unfolded r2_def]] r(2) have "nf_trace (\<le>) (\<lambda>_. 0) ?F (example_requests, \<lambda>_. cb_new) [3] (snd r2)"
    by (simp add: r2_def)
  from nf_trace.next_one [OF this r(3) [unfolded r3_def]] r(4) have t: "nf_trace (\<le>) (\<lambda>_. 0) ?F (example_requests, \<lambda>_. cb_new) [3, 5] (snd r3)"
    by (simp add: r3_def)
  obtain nt' h' where s: "snd r3 = (nt', h')" by (cases "snd r3")
  have "fn_inv (\<le>) ?F example_requests" by (auto simp: fn_inv_def example_requests_def fn_from_def)
  from notifications_in_order [OF this t [unfolded s]] t s show ?thesis
    by (auto simp: ma_less_equal_def ma_new_bottom_def aref_less_equal_def)
qed

text \<open>\<open>for_each\<close> with logic that only takes the notifications.\<close>

abbreviation take_notification ::
  "'t request \<Rightarrow> ('t frontier_notificator \<times> 't buffers) \<times> 't request list \<Rightarrow> ('t frontier_notificator \<times> 't buffers) \<times> 't request list" where
  "take_notification r st \<equiv> (fst st, snd st @ [r])"

lemma for_each_loop_ok:
  assumes "nf_inv le frontiers nt" and "sorted (map (\<lambda>r. cap_time (fst r)) rs)"
    and "\<forall>r \<in> set rs. \<forall>x \<in> set (fn_available nt). cap_time (fst r) \<le> cap_time (fst x)"
  shows "\<exists>nt' h' qs. fn_for_each_loop le tie frontiers take_notification ((nt, h), rs) = Some ((nt', h'), rs @ qs)
    \<and> sorted (map (\<lambda>r. cap_time (fst r)) (rs @ qs)) \<and> (\<forall>r \<in> set qs. passed le frontiers (cap_time (fst r)) \<and> 0 < snd r)
    \<and> nf_inv le frontiers nt' \<and> fn_available nt' = [] \<and> (\<forall>t. requested qs t + fn_requested nt' t = fn_requested nt t)
    \<and> unaccounted (map fst qs @ fn_caps nt') h' = unaccounted (fn_caps nt) h"
  using assms
proof (induction "fn_size nt" arbitrary: nt h rs rule: less_induct)
  case less
  obtain r nt1 h1 where n: "fn_next_count le tie frontiers (nt, h) = (r, nt1, h1)" by (cases "fn_next_count le tie frontiers (nt, h)")
  have i: "fn_inv le frontiers nt" using less.prems(1) by (simp add: nf_inv_def)
  note k = next_count_ok [OF i n]
  show ?case
  proof (cases r)
    case None
    with n have "fn_for_each_loop le tie frontiers take_notification ((nt, h), rs) = Some ((nt1, h1), rs @ [])"
      by (simp add: fn_for_each_loop.simps)
    with k None less.prems(1,2) show ?thesis by (intro exI [of _ nt1] exI [of _ h1] exI [of _ "[]"]) auto
  next
    case (Some p)
    obtain c m where p: "p = (c, m)" by (cases p)
    have k': "nf_inv le frontiers nt1" "passed le frontiers (cap_time c)" "0 < m" "fn_size nt1 < fn_size nt"
      "\<forall>x \<in> set (fn_available nt1). cap_time c \<le> cap_time (fst x)" "cap_time c \<in> (\<lambda>x. cap_time (fst x)) ` set (fn_available nt)"
      "\<forall>t. (if cap_time c = t then m else 0) + fn_requested nt1 t = fn_requested nt t"
      "unaccounted (c # fn_caps nt1) h1 = unaccounted (fn_caps nt) h"
      using k less.prems(1) Some p by auto
    have d: "\<forall>r \<in> set rs. cap_time (fst r) \<le> cap_time c" using less.prems(3) k'(6) unfolding image_iff by metis
    have "sorted (map (\<lambda>r. cap_time (fst r)) (rs @ [(c, m)]))" using less.prems(2) d by (auto simp: sorted_append)
    moreover have "\<forall>r \<in> set (rs @ [(c, m)]). \<forall>x \<in> set (fn_available nt1). cap_time (fst r) \<le> cap_time (fst x)"
      using d k'(5) by (auto intro: order_trans)
    ultimately obtain nt' h' qs where
      ih: "fn_for_each_loop le tie frontiers take_notification ((nt1, h1), rs @ [(c, m)]) = Some ((nt', h'), (rs @ [(c, m)]) @ qs)"
      "sorted (map (\<lambda>r. cap_time (fst r)) ((rs @ [(c, m)]) @ qs))" "\<forall>r \<in> set qs. passed le frontiers (cap_time (fst r)) \<and> 0 < snd r"
      "nf_inv le frontiers nt'" "fn_available nt' = []" "\<forall>t. requested qs t + fn_requested nt' t = fn_requested nt1 t"
      "unaccounted (map fst qs @ fn_caps nt') h' = unaccounted (fn_caps nt1) h1"
      using less.hyps [OF k'(4,1), of "rs @ [(c, m)]" h1] by blast
    have "unaccounted (map fst ((c, m) # qs) @ fn_caps nt') h' = unaccounted (c # fn_caps nt1) h1"
      using ih(7) by (simp add: unaccounted_Cons)
    then have "unaccounted (map fst ((c, m) # qs) @ fn_caps nt') h' = unaccounted (fn_caps nt) h" using k'(8) by simp
    moreover have "requested ((c, m) # qs) t + fn_requested nt' t = fn_requested nt t" for t
      using ih(6) k'(7) by (metis add.assoc fst_conv requested_simps(2) snd_conv)
    moreover have "fn_for_each_loop le tie frontiers take_notification ((nt, h), rs) = Some ((nt', h'), rs @ (c, m) # qs)"
      using ih(1) n Some p by (simp add: fn_for_each_loop.simps [of _ _ _ _ "((nt, h), rs)"])
    ultimately show ?thesis using ih(2-5) k'(2,3)
      by (intro exI [of _ nt'] exI [of _ h'] exI [of _ "(c, m) # qs"]) auto
  qed
qed

text \<open>
  C35: asking for notifications until there are none ends, and every request whose time
  all frontiers have passed has been delivered by then: the counts delivered and the counts still
  pending add up to the counts requested, in non-decreasing order of time, and what is still
  pending is held back by a frontier.  The capabilities delivered and those kept are accounted for.
\<close>

theorem notifications_exhausted:
  assumes "fn_inv le frontiers nt"
  shows "\<exists>nt' h' rs. nf_for_each le tie frontiers take_notification (nf_new le frontiers (nt, h), []) = Some ((nt', h'), rs)
    \<and> fn_available nt' = [] \<and> (\<forall>x \<in> set (fn_pending nt'). \<not> passed le frontiers (cap_time (fst x)))
    \<and> sorted (map (\<lambda>r. cap_time (fst r)) rs)
    \<and> (\<forall>t. requested rs t = (if passed le frontiers t then requested (fn_pending nt @ fn_available nt) t else 0))
    \<and> (\<forall>t. requested (fn_pending nt') t = (if passed le frontiers t then 0 else requested (fn_pending nt @ fn_available nt) t))
    \<and> unaccounted (map fst rs @ fn_caps nt') h' = unaccounted (fn_caps nt) h"
proof -
  obtain nt1 h1 where m: "fn_make_available le frontiers (nt, h) = (nt1, h1)" by (cases "fn_make_available le frontiers (nt, h)")
  note k = make_available_ok [OF assms m]
  then have i: "nf_inv le frontiers nt1" by blast
  have "\<exists>nt' h' qs. fn_for_each_loop le tie frontiers take_notification ((nt1, h1), []) = Some ((nt', h'), [] @ qs)
    \<and> sorted (map (\<lambda>r. cap_time (fst r)) ([] @ qs)) \<and> (\<forall>r \<in> set qs. passed le frontiers (cap_time (fst r)) \<and> 0 < snd r)
    \<and> nf_inv le frontiers nt' \<and> fn_available nt' = [] \<and> (\<forall>t. requested qs t + fn_requested nt' t = fn_requested nt1 t)
    \<and> unaccounted (map fst qs @ fn_caps nt') h' = unaccounted (fn_caps nt1) h1"
    by (rule for_each_loop_ok [OF i]) simp_all
  then obtain nt' h' qs where l: "fn_for_each_loop le tie frontiers take_notification ((nt1, h1), []) = Some ((nt', h'), qs)"
    "sorted (map (\<lambda>r. cap_time (fst r)) qs)" "\<forall>r \<in> set qs. passed le frontiers (cap_time (fst r)) \<and> 0 < snd r"
    "nf_inv le frontiers nt'" "fn_available nt' = []" "\<forall>t. requested qs t + fn_requested nt' t = fn_requested nt1 t"
    "unaccounted (map fst qs @ fn_caps nt') h' = unaccounted (fn_caps nt1) h1" by auto
  have zero: "requested xs t = 0" if "\<forall>x \<in> set xs. cap_time (fst x) \<noteq> t" for xs :: "'a request list" and t
    using that by (induction xs) auto
  have sum: "requested qs t + requested (fn_pending nt') t = requested (fn_pending nt @ fn_available nt) t" for t
    using l(5,6) k by (simp add: fn_requested_def fun_eq_iff)
  have q: "requested qs t = 0" if "\<not> passed le frontiers t" for t by (rule zero) (use l(3) that in auto)
  have p: "requested (fn_pending nt') t = 0" if "passed le frontiers t" for t by (rule zero) (use l(4) that in \<open>auto simp: nf_inv_def\<close>)
  have r: "requested qs t = (if passed le frontiers t then requested (fn_pending nt @ fn_available nt) t else 0)"
    "requested (fn_pending nt') t = (if passed le frontiers t then 0 else requested (fn_pending nt @ fn_available nt) t)" for t
    using sum [of t] q [of t] p [of t] by auto
  have "nf_for_each le tie frontiers take_notification (nf_new le frontiers (nt, h), []) = Some ((nt', h'), qs)"
    using l(1) by (simp add: nf_for_each_def nf_new_def m)
  with l r k show ?thesis
    by (intro exI [of _ nt'] exI [of _ h'] exI [of _ qs]) (auto simp: nf_inv_def)
qed

theorem notifications_exhausted_witness:
  "\<exists>nt' h' rs. nf_for_each (\<le>) (\<lambda>_. 0) [ma_new_bottom (7 :: 8 word)] take_notification
       (nf_new (\<le>) [ma_new_bottom 7] (example_requests, \<lambda>_. cb_new), []) = Some ((nt', h'), rs)
     \<and> requested rs 5 = 1 \<and> requested rs 9 = 0 \<and> requested (fn_pending nt') 9 = 1"
proof -
  let ?F = "[ma_new_bottom (7 :: 8 word)]"
  have "fn_inv (\<le>) ?F example_requests" by (auto simp: fn_inv_def example_requests_def fn_from_def)
  from notifications_exhausted [OF this, of "\<lambda>_. 0" "\<lambda>_. cb_new"] obtain nt' h' rs where
    f: "nf_for_each (\<le>) (\<lambda>_. 0) ?F take_notification (nf_new (\<le>) ?F (example_requests, \<lambda>_. cb_new), []) = Some ((nt', h'), rs)"
    and r: "\<forall>t. requested rs t = (if passed (\<le>) ?F t then requested (fn_pending example_requests @ fn_available example_requests) t else 0)"
    "\<forall>t. requested (fn_pending nt') t = (if passed (\<le>) ?F t then 0 else requested (fn_pending example_requests @ fn_available example_requests) t)"
    by blast
  have "passed (\<le>) ?F 5" "\<not> passed (\<le>) ?F 9" "requested (fn_pending example_requests @ fn_available example_requests) 5 = 1"
    "requested (fn_pending example_requests @ fn_available example_requests) 9 = 1" by code_simp+
  with f r show ?thesis by auto
qed

text \<open>
  Requests for one time can be delivered in several notifications: \<open>next_count\<close> gathers entries
  only when their counts are equal too.
\<close>

lemma counts_not_gathered:
  "fst (nf_next (\<le>) (\<lambda>_. 0) [] (nf_notify_at (\<le>) [] \<lparr>cap_time = 1 :: 8 word, cap_internal = 0\<rparr>
      (fst (nf_new (\<le>) [] (fn_from [\<lparr>cap_time = 1, cap_internal = 0\<rparr>, \<lparr>cap_time = 1, cap_internal = 0\<rparr>], \<lambda>_. cb_new))), \<lambda>_. cb_new))
   = Some (\<lparr>cap_time = 1, cap_internal = 0\<rparr>, 2)"
  by code_simp

end
