(* ===== verification/Shared_Bytes.thy ===== *)
theory Shared_Bytes
  imports Prelude "HOL-Library.Word"
begin

text \<open>
  The crate \<open>timely_bytes\<close> (\<open>bytes/src/lib.rs\<close>): byte slices that share one allocation.

  An \<open>arena\<close> holds the contents of every allocation ever made and its strong count: the
  \<open>Arc<dyn Any>\<close> a slice keeps in \<open>sequestered\<close> is the position of its allocation, and a
  pointer is an offset into it.  \<open>BytesMut\<close> and \<open>Bytes\<close> are handles; cloning an \<open>Arc\<close>
  and dropping a handle change the count.  The code under \<open>unsafe\<close> is sound as long as no writable
  slice overlaps another slice: \<open>arena_ok\<close> states it for the multisets of live handles, and every
  operation is shown to keep it.
\<close>

type_synonym byte = "8 word"

section \<open>Allocations and handles\<close>

record arena =
  ar_mem :: "byte list list"
  ar_refs :: "nat list"

definition arena_empty :: arena where
  "arena_empty = \<lparr>ar_mem = [], ar_refs = []\<rparr>"

definition arc_clone :: "nat \<Rightarrow> arena \<Rightarrow> arena" where
  "arc_clone a m = m\<lparr>ar_refs := (ar_refs m)[a := ar_refs m ! a + 1]\<rparr>"

definition arc_drop :: "nat \<Rightarrow> arena \<Rightarrow> arena" where
  "arc_drop a m = m\<lparr>ar_refs := (ar_refs m)[a := ar_refs m ! a - 1]\<rparr>"

record bytes_mut =
  bm_ptr :: nat
  bm_len :: nat
  bm_sequestered :: nat

record bytes =
  by_ptr :: nat
  by_len :: nat
  by_sequestered :: nat

definition bm_from :: "byte list \<Rightarrow> arena \<Rightarrow> bytes_mut \<times> arena" where
  "bm_from bs m =
     (\<lparr>bm_ptr = 0, bm_len = length bs, bm_sequestered = length (ar_mem m)\<rparr>,
      \<lparr>ar_mem = ar_mem m @ [bs], ar_refs = ar_refs m @ [1]\<rparr>)"

definition bm_freeze :: "bytes_mut \<Rightarrow> bytes" where
  "bm_freeze b = \<lparr>by_ptr = bm_ptr b, by_len = bm_len b, by_sequestered = bm_sequestered b\<rparr>"

text \<open>The result, the rest of the slice, and the arena; \<open>None\<close> when the assertion fails.\<close>

definition bm_extract_to :: "nat \<Rightarrow> bytes_mut \<Rightarrow> arena \<Rightarrow> (bytes \<times> bytes_mut \<times> arena) option" where
  "bm_extract_to index b m =
     (if index \<le> bm_len b then
        Some (bm_freeze (b\<lparr>bm_len := index\<rparr>),
              b\<lparr>bm_ptr := bm_ptr b + index, bm_len := bm_len b - index\<rparr>,
              arc_clone (bm_sequestered b) m)
      else None)"

definition bm_try_regenerate :: "bytes_mut \<Rightarrow> arena \<Rightarrow> bool \<times> bytes_mut" where
  "bm_try_regenerate b m =
     (if ar_refs m ! bm_sequestered b = 1
      then (True, b\<lparr>bm_ptr := 0, bm_len := length (ar_mem m ! bm_sequestered b)\<rparr>)
      else (False, b))"

definition bm_deref :: "arena \<Rightarrow> bytes_mut \<Rightarrow> byte list" where
  "bm_deref m b = take (bm_len b) (drop (bm_ptr b) (ar_mem m ! bm_sequestered b))"

text \<open>Writing \<open>bs\<close> at position \<open>off\<close> of the slice \<open>deref_mut\<close> returns; slicing out of range panics.\<close>

definition overwrite :: "nat \<Rightarrow> 'a list \<Rightarrow> 'a list \<Rightarrow> 'a list" where
  "overwrite off ys xs = take off xs @ ys @ drop (off + length ys) xs"

definition bm_deref_mut :: "nat \<Rightarrow> byte list \<Rightarrow> bytes_mut \<Rightarrow> arena \<Rightarrow> arena option" where
  "bm_deref_mut off bs b m =
     (if off + length bs \<le> bm_len b then
        Some (m\<lparr>ar_mem := (ar_mem m)[bm_sequestered b := overwrite (bm_ptr b + off) bs (ar_mem m ! bm_sequestered b)]\<rparr>)
      else None)"

definition bm_drop :: "bytes_mut \<Rightarrow> arena \<Rightarrow> arena" where
  "bm_drop b m = arc_drop (bm_sequestered b) m"

definition by_extract_to :: "nat \<Rightarrow> bytes \<Rightarrow> arena \<Rightarrow> (bytes \<times> bytes \<times> arena) option" where
  "by_extract_to index b m =
     (if index \<le> by_len b then
        Some (b\<lparr>by_len := index\<rparr>,
              b\<lparr>by_ptr := by_ptr b + index, by_len := by_len b - index\<rparr>,
              arc_clone (by_sequestered b) m)
      else None)"

text \<open>\<open>Inl other\<close> is \<open>Err(other)\<close>; a merged slice gives up its reference.\<close>

definition by_try_merge :: "bytes \<Rightarrow> bytes \<Rightarrow> arena \<Rightarrow> (bytes + unit) \<times> bytes \<times> arena" where
  "by_try_merge b other m =
     (if by_sequestered b = by_sequestered other \<and> by_ptr b + by_len b = by_ptr other
      then (Inr (), b\<lparr>by_len := by_len b + by_len other\<rparr>, arc_drop (by_sequestered other) m)
      else (Inl other, b, m))"

definition by_clone :: "bytes \<Rightarrow> arena \<Rightarrow> bytes \<times> arena" where
  "by_clone b m = (b, arc_clone (by_sequestered b) m)"

definition by_deref :: "arena \<Rightarrow> bytes \<Rightarrow> byte list" where
  "by_deref m b = take (by_len b) (drop (by_ptr b) (ar_mem m ! by_sequestered b))"

definition by_drop :: "bytes \<Rightarrow> arena \<Rightarrow> arena" where
  "by_drop b m = arc_drop (by_sequestered b) m"

section \<open>Ownership\<close>

definition bm_covers :: "nat \<Rightarrow> nat \<Rightarrow> bytes_mut \<Rightarrow> bool" where
  "bm_covers a i b \<longleftrightarrow> bm_sequestered b = a \<and> bm_ptr b \<le> i \<and> i < bm_ptr b + bm_len b"

definition by_covers :: "nat \<Rightarrow> nat \<Rightarrow> bytes \<Rightarrow> bool" where
  "by_covers a i b \<longleftrightarrow> by_sequestered b = a \<and> by_ptr b \<le> i \<and> i < by_ptr b + by_len b"

definition writers :: "bytes_mut multiset \<Rightarrow> nat \<Rightarrow> nat \<Rightarrow> nat" where
  "writers M a i = size (filter_mset (bm_covers a i) M)"

definition readers :: "bytes multiset \<Rightarrow> nat \<Rightarrow> nat \<Rightarrow> nat" where
  "readers B a i = size (filter_mset (by_covers a i) B)"

definition holders :: "bytes_mut multiset \<Rightarrow> bytes multiset \<Rightarrow> nat \<Rightarrow> nat" where
  "holders M B a = size {#b \<in># M. bm_sequestered b = a#} + size {#b \<in># B. by_sequestered b = a#}"

definition exclusive :: "bytes_mut multiset \<Rightarrow> bytes multiset \<Rightarrow> bool" where
  "exclusive M B \<longleftrightarrow> (\<forall>a i. writers M a i \<le> 1 \<and> (writers M a i = 0 \<or> readers B a i = 0))"

definition bm_within :: "arena \<Rightarrow> bytes_mut \<Rightarrow> bool" where
  "bm_within m b \<longleftrightarrow> bm_sequestered b < length (ar_mem m) \<and> bm_ptr b + bm_len b \<le> length (ar_mem m ! bm_sequestered b)"

definition by_within :: "arena \<Rightarrow> bytes \<Rightarrow> bool" where
  "by_within m b \<longleftrightarrow> by_sequestered b < length (ar_mem m) \<and> by_ptr b + by_len b \<le> length (ar_mem m ! by_sequestered b)"

definition arena_ok :: "bytes_mut multiset \<Rightarrow> bytes multiset \<Rightarrow> arena \<Rightarrow> bool" where
  "arena_ok M B m \<longleftrightarrow> length (ar_refs m) = length (ar_mem m)
     \<and> (\<forall>b \<in># M. bm_within m b) \<and> (\<forall>b \<in># B. by_within m b)
     \<and> (\<forall>a < length (ar_mem m). ar_refs m ! a = holders M B a) \<and> exclusive M B"

lemma writers_simps [simp]:
  "writers {#} a i = 0" "writers (add_mset b M) a i = (if bm_covers a i b then 1 else 0) + writers M a i"
  "writers (M + N) a i = writers M a i + writers N a i"
  by (auto simp: writers_def)

lemma readers_simps [simp]:
  "readers {#} a i = 0" "readers (add_mset c B) a i = (if by_covers a i c then 1 else 0) + readers B a i"
  "readers (B + C) a i = readers B a i + readers C a i"
  by (auto simp: readers_def)

lemma holders_simps [simp]:
  "holders {#} {#} a = 0"
  "holders (add_mset b M) B a = (if bm_sequestered b = a then 1 else 0) + holders M B a"
  "holders M (add_mset c B) a = (if by_sequestered c = a then 1 else 0) + holders M B a"
  by (auto simp: holders_def)

lemma no_holders: "holders M B a = 0 \<Longrightarrow> writers M a i = 0 \<and> readers B a i = 0"
  by (auto simp: holders_def writers_def readers_def bm_covers_def by_covers_def filter_mset_eq_conv)

lemma writers_pos: "b \<in># M \<Longrightarrow> bm_covers a i b \<Longrightarrow> 0 < writers M a i"
  by (auto dest!: multi_member_split)

lemma readers_pos: "b \<in># B \<Longrightarrow> by_covers a i b \<Longrightarrow> 0 < readers B a i"
  by (auto dest!: multi_member_split)

lemma ar_simps [simp]:
  "ar_mem (arc_clone a m) = ar_mem m" "ar_mem (arc_drop a m) = ar_mem m"
  "length (ar_refs (arc_clone a m)) = length (ar_refs m)" "length (ar_refs (arc_drop a m)) = length (ar_refs m)"
  "ar_mem (bm_drop b m) = ar_mem m" "ar_mem (by_drop c m) = ar_mem m"
  by (simp_all add: arc_clone_def arc_drop_def bm_drop_def by_drop_def)

lemma deref_mem: "ar_mem m' = ar_mem m \<Longrightarrow> bm_deref m' b = bm_deref m b \<and> by_deref m' c = by_deref m c"
  by (simp add: bm_deref_def by_deref_def)

lemma within_mem: "ar_mem m' = ar_mem m \<Longrightarrow> bm_within m' b = bm_within m b \<and> by_within m' c = by_within m c"
  by (simp add: bm_within_def by_within_def)

text \<open>An update of counts only: what the new handles have to satisfy.\<close>

lemma arena_okI:
  assumes "arena_ok M B m" and "ar_mem m' = ar_mem m" and "length (ar_refs m') = length (ar_refs m)"
    and "\<And>b. b \<in># M' \<Longrightarrow> bm_within m b" and "\<And>c. c \<in># B' \<Longrightarrow> by_within m c"
    and "\<And>a. a < length (ar_mem m) \<Longrightarrow> ar_refs m ! a = holders M B a \<Longrightarrow> ar_refs m' ! a = holders M' B' a"
    and "exclusive M B \<Longrightarrow> exclusive M' B'"
  shows "arena_ok M' B' m'"
  using assms within_mem [OF assms(2)] by (auto simp: arena_ok_def)

lemma refs_clone [simp]: "x < length (ar_refs m) \<Longrightarrow> ar_refs (arc_clone a m) ! x = ar_refs m ! x + (if x = a then 1 else 0)"
  by (simp add: arc_clone_def nth_list_update)

lemma refs_drop [simp]: "x < length (ar_refs m) \<Longrightarrow> ar_refs (arc_drop a m) ! x = ar_refs m ! x - (if x = a then 1 else 0)"
  by (simp add: arc_drop_def nth_list_update)

lemma arena_ok_refs: "arena_ok M B m \<Longrightarrow> length (ar_refs m) = length (ar_mem m)"
  by (simp add: arena_ok_def)

lemma exclusive_at: "exclusive M B \<Longrightarrow> writers M a i \<le> 1 \<and> (writers M a i = 0 \<or> readers B a i = 0)"
  by (simp add: exclusive_def)

lemma exclusive_less:
  "exclusive (add_mset b M) B \<Longrightarrow> exclusive M B" "exclusive M (add_mset c B) \<Longrightarrow> exclusive M B"
proof -
  assume e: "exclusive (add_mset b M) B"
  have "writers M a i \<le> 1 \<and> (writers M a i = 0 \<or> readers B a i = 0)" for a i
    using exclusive_at [OF e, of a i] by (auto split: if_splits)
  then show "exclusive M B" by (simp add: exclusive_def)
next
  assume e: "exclusive M (add_mset c B)"
  have "writers M a i \<le> 1 \<and> (writers M a i = 0 \<or> readers B a i = 0)" for a i
    using exclusive_at [OF e, of a i] by (auto split: if_splits)
  then show "exclusive M B" by (simp add: exclusive_def)
qed

lemmas covers_defs = bm_covers_def by_covers_def bm_freeze_def

section \<open>Every operation keeps ownership\<close>

lemma bm_from_ok:
  assumes ok: "arena_ok M B m" and f: "bm_from bs m = (b, m')"
  shows "arena_ok (add_mset b M) B m'" "bm_deref m' b = bs" "bm_len b = length bs" "bm_within m' b"
    "\<And>c. c \<in># M \<Longrightarrow> bm_deref m' c = bm_deref m c" "\<And>c. c \<in># B \<Longrightarrow> by_deref m' c = by_deref m c"
proof -
  have b: "b = \<lparr>bm_ptr = 0, bm_len = length bs, bm_sequestered = length (ar_mem m)\<rparr>"
    and m': "m' = \<lparr>ar_mem = ar_mem m @ [bs], ar_refs = ar_refs m @ [1]\<rparr>" using f by (simp_all add: bm_from_def)
  have wM: "bm_sequestered c < length (ar_mem m)" if "c \<in># M" for c using ok that by (simp add: arena_ok_def bm_within_def)
  have wB: "by_sequestered c < length (ar_mem m)" if "c \<in># B" for c using ok that by (simp add: arena_ok_def by_within_def)
  have h: "holders M B (length (ar_mem m)) = 0" using wM wB by (fastforce simp: holders_def filter_mset_eq_conv)
  have r: "ar_refs m' ! a = holders (add_mset b M) B a" if "a < length (ar_mem m')" for a
    using ok that h by (auto simp: arena_ok_def m' b nth_append less_Suc_eq)
  have e: "exclusive (add_mset b M) B"
    using ok no_holders [OF h] by (auto simp: exclusive_def arena_ok_def b bm_covers_def)
  have M: "bm_within m' c" if "c \<in># M" for c using ok that by (auto simp: arena_ok_def bm_within_def m' nth_append)
  have B: "by_within m' c" if "c \<in># B" for c using ok that by (auto simp: arena_ok_def by_within_def m' nth_append)
  show w: "bm_within m' b" by (simp add: bm_within_def m' b)
  have l: "length (ar_refs m') = length (ar_mem m')" using ok by (simp add: arena_ok_def m')
  show "arena_ok (add_mset b M) B m'" unfolding arena_ok_def using l w M B r e by simp
  show "bm_deref m' b = bs" "bm_len b = length bs" by (simp_all add: bm_deref_def m' b)
  show "bm_deref m' c = bm_deref m c" if "c \<in># M" for c using wM [OF that] by (simp add: bm_deref_def m' nth_append)
  show "by_deref m' c = by_deref m c" if "c \<in># B" for c using wB [OF that] by (simp add: by_deref_def m' nth_append)
qed

lemma exclusive_freeze:
  assumes e: "exclusive (add_mset b M) B"
  shows "exclusive M (add_mset (bm_freeze b) B)"
proof -
  have "writers M a i \<le> 1 \<and> (writers M a i = 0 \<or> readers (add_mset (bm_freeze b) B) a i = 0)" for a i
    using exclusive_at [OF e, of a i] by (auto simp: covers_defs split: if_splits)
  then show ?thesis by (simp add: exclusive_def)
qed

lemma bm_freeze_ok: "arena_ok (add_mset b M) B m \<Longrightarrow> arena_ok M (add_mset (bm_freeze b) B) m"
  by (rule arena_okI [of "add_mset b M" B m])
    (auto simp: arena_ok_def bm_freeze_def bm_within_def by_within_def exclusive_freeze [unfolded bm_freeze_def] split: if_splits)

lemma bm_extract_to_ok:
  assumes "arena_ok (add_mset b M) B m" and "bm_extract_to n b m = Some (r, b', m')"
  shows "arena_ok (add_mset b' M) (add_mset r B) m'"
proof (rule arena_okI [OF assms(1)])
  have n: "n \<le> bm_len b" and r: "r = bm_freeze (b\<lparr>bm_len := n\<rparr>)"
    and b': "b' = b\<lparr>bm_ptr := bm_ptr b + n, bm_len := bm_len b - n\<rparr>" and m': "m' = arc_clone (bm_sequestered b) m"
    using assms(2) by (auto simp: bm_extract_to_def split: if_splits)
  show "ar_mem m' = ar_mem m" "length (ar_refs m') = length (ar_refs m)" by (simp_all add: m')
  show "bm_within m c" if "c \<in># add_mset b' M" for c
    using assms(1) that n by (auto simp: arena_ok_def bm_within_def b')
  show "by_within m c" if "c \<in># add_mset r B" for c
    using assms(1) that n by (auto simp: arena_ok_def by_within_def bm_within_def r bm_freeze_def)
  show "ar_refs m' ! a = holders (add_mset b' M) (add_mset r B) a"
    if "a < length (ar_mem m)" "ar_refs m ! a = holders (add_mset b M) B a" for a
    using that arena_ok_refs [OF assms(1)] by (simp add: m' b' r bm_freeze_def)
  show "exclusive (add_mset b' M) (add_mset r B)" if e: "exclusive (add_mset b M) B"
    unfolding exclusive_def
  proof (intro allI)
    fix a i
    show "writers (add_mset b' M) a i \<le> 1 \<and> (writers (add_mset b' M) a i = 0 \<or> readers (add_mset r B) a i = 0)"
      using exclusive_at [OF e, of a i] n by (auto simp: r b' covers_defs split: if_splits)
  qed
qed

lemma by_extract_to_ok:
  assumes "arena_ok M (add_mset b B) m" and "by_extract_to n b m = Some (r, b', m')"
  shows "arena_ok M (add_mset r (add_mset b' B)) m'"
proof (rule arena_okI [OF assms(1)])
  have n: "n \<le> by_len b" and r: "r = b\<lparr>by_len := n\<rparr>"
    and b': "b' = b\<lparr>by_ptr := by_ptr b + n, by_len := by_len b - n\<rparr>" and m': "m' = arc_clone (by_sequestered b) m"
    using assms(2) by (auto simp: by_extract_to_def split: if_splits)
  show "ar_mem m' = ar_mem m" "length (ar_refs m') = length (ar_refs m)" by (simp_all add: m')
  show "bm_within m c" if "c \<in># M" for c using assms(1) that by (auto simp: arena_ok_def)
  show "by_within m c" if "c \<in># add_mset r (add_mset b' B)" for c
    using assms(1) that n by (auto simp: arena_ok_def by_within_def r b')
  show "ar_refs m' ! a = holders M (add_mset r (add_mset b' B)) a"
    if "a < length (ar_mem m)" "ar_refs m ! a = holders M (add_mset b B) a" for a
    using that arena_ok_refs [OF assms(1)] by (simp add: m' b' r)
  show "exclusive M (add_mset r (add_mset b' B))" if e: "exclusive M (add_mset b B)"
    unfolding exclusive_def
  proof (intro allI)
    fix a i
    show "writers M a i \<le> 1 \<and> (writers M a i = 0 \<or> readers (add_mset r (add_mset b' B)) a i = 0)"
      using exclusive_at [OF e, of a i] n by (auto simp: r b' covers_defs split: if_splits)
  qed
qed

lemma by_try_merge_ok:
  assumes "arena_ok M (add_mset b (add_mset other B)) m" and "by_try_merge b other m = (r, b', m')"
  shows "arena_ok M (add_mset b' (case r of Inl x \<Rightarrow> add_mset x B | Inr _ \<Rightarrow> B)) m'"
proof (cases "by_sequestered b = by_sequestered other \<and> by_ptr b + by_len b = by_ptr other")
  case False
  then have "r = Inl other" "b' = b" "m' = m" using assms(2) by (auto simp: by_try_merge_def)
  then show ?thesis using assms(1) by simp
next
  case True
  then have r: "r = Inr ()" and b': "b' = b\<lparr>by_len := by_len b + by_len other\<rparr>" and m': "m' = arc_drop (by_sequestered other) m"
    using assms(2) by (auto simp: by_try_merge_def)
  have "arena_ok M (add_mset b' B) m'"
  proof (rule arena_okI [OF assms(1)])
    show "ar_mem m' = ar_mem m" "length (ar_refs m') = length (ar_refs m)" by (simp_all add: m')
    show "bm_within m c" if "c \<in># M" for c using assms(1) that by (auto simp: arena_ok_def)
    show "by_within m c" if "c \<in># add_mset b' B" for c
      using assms(1) that True by (auto simp: arena_ok_def by_within_def b')
    show "ar_refs m' ! a = holders M (add_mset b' B) a"
      if "a < length (ar_mem m)" "ar_refs m ! a = holders M (add_mset b (add_mset other B)) a" for a
      using that arena_ok_refs [OF assms(1)] by (simp add: m' b')
    show "exclusive M (add_mset b' B)" if e: "exclusive M (add_mset b (add_mset other B))"
      unfolding exclusive_def
    proof (intro allI)
      fix a i
      show "writers M a i \<le> 1 \<and> (writers M a i = 0 \<or> readers (add_mset b' B) a i = 0)"
        using exclusive_at [OF e, of a i] True by (auto simp: b' covers_defs split: if_splits)
    qed
  qed
  then show ?thesis by (simp add: r)
qed

lemma by_clone_ok:
  assumes "arena_ok M B m" and "c \<in># B" and "by_clone c m = (c', m')"
  shows "arena_ok M (add_mset c' B) m'"
proof (rule arena_okI [OF assms(1)])
  have c': "c' = c" and m': "m' = arc_clone (by_sequestered c) m" using assms(3) by (auto simp: by_clone_def)
  show "ar_mem m' = ar_mem m" "length (ar_refs m') = length (ar_refs m)" by (simp_all add: m')
  show "bm_within m d" if "d \<in># M" for d using assms(1) that by (auto simp: arena_ok_def)
  show "by_within m d" if "d \<in># add_mset c' B" for d using assms(1,2) that by (auto simp: arena_ok_def c')
  show "ar_refs m' ! a = holders M (add_mset c' B) a" if "a < length (ar_mem m)" "ar_refs m ! a = holders M B a" for a
    using that arena_ok_refs [OF assms(1)] by (simp add: m' c')
  show "exclusive M (add_mset c' B)" if e: "exclusive M B"
    unfolding exclusive_def
  proof (intro allI)
    fix a i
    show "writers M a i \<le> 1 \<and> (writers M a i = 0 \<or> readers (add_mset c' B) a i = 0)"
      using exclusive_at [OF e, of a i] readers_pos [OF assms(2), of a i] by (auto simp: c')
  qed
qed

lemma by_drop_ok: "arena_ok M (add_mset c B) m \<Longrightarrow> arena_ok M B (by_drop c m)"
  unfolding by_drop_def
  by (rule arena_okI [of M "add_mset c B" m]) (auto simp: arena_ok_def dest: exclusive_less split: if_splits)

lemma bm_drop_ok: "arena_ok (add_mset b M) B m \<Longrightarrow> arena_ok M B (bm_drop b m)"
  unfolding bm_drop_def
  by (rule arena_okI [of "add_mset b M" B m]) (auto simp: arena_ok_def dest: exclusive_less split: if_splits)

lemma bm_try_regenerate_ok:
  assumes "arena_ok (add_mset b M) B m" and "bm_try_regenerate b m = (ok, b')"
  shows "arena_ok (add_mset b' M) B m"
    and "ok \<Longrightarrow> bm_ptr b' = 0 \<and> bm_len b' = length (ar_mem m ! bm_sequestered b) \<and> bm_sequestered b' = bm_sequestered b"
    and "\<not> ok \<Longrightarrow> b' = b"
proof -
  show "ok \<Longrightarrow> bm_ptr b' = 0 \<and> bm_len b' = length (ar_mem m ! bm_sequestered b) \<and> bm_sequestered b' = bm_sequestered b"
    and "\<not> ok \<Longrightarrow> b' = b" using assms(2) by (auto simp: bm_try_regenerate_def split: if_splits)
  show "arena_ok (add_mset b' M) B m"
  proof (cases "ar_refs m ! bm_sequestered b = 1")
    case False
    then show ?thesis using assms by (simp add: bm_try_regenerate_def)
  next
    case True
    then have b': "b' = b\<lparr>bm_ptr := 0, bm_len := length (ar_mem m ! bm_sequestered b)\<rparr>"
      using assms(2) by (simp add: bm_try_regenerate_def)
    have "bm_sequestered b < length (ar_mem m)" using assms(1) by (simp add: arena_ok_def bm_within_def)
    then have "holders M B (bm_sequestered b) = 0" using assms(1) True by (auto simp: arena_ok_def)
    note z = no_holders [OF this]
    show ?thesis
    proof (rule arena_okI [OF assms(1)])
      show "exclusive (add_mset b' M) B" if e: "exclusive (add_mset b M) B"
        unfolding exclusive_def
      proof (intro allI)
        fix a i
        show "writers (add_mset b' M) a i \<le> 1 \<and> (writers (add_mset b' M) a i = 0 \<or> readers B a i = 0)"
          using exclusive_at [OF e, of a i] z [of i] by (auto simp: b' bm_covers_def split: if_splits)
      qed
    qed (use assms(1) in \<open>auto simp: arena_ok_def bm_within_def b'\<close>)
  qed
qed

section \<open>Writing through a slice\<close>

lemma length_overwrite [simp]: "off + length ys \<le> length xs \<Longrightarrow> length (overwrite off ys xs) = length xs"
  by (simp add: overwrite_def)

lemma nth_overwrite:
  "off + length ys \<le> length xs \<Longrightarrow> i < length xs \<Longrightarrow>
   overwrite off ys xs ! i = (if off \<le> i \<and> i < off + length ys then ys ! (i - off) else xs ! i)"
  by (auto simp: overwrite_def nth_append)

lemma slice_eqI:
  assumes "length xs = length ys" and "p + n \<le> length xs" and "\<And>i. p \<le> i \<Longrightarrow> i < p + n \<Longrightarrow> xs ! i = ys ! i"
  shows "take n (drop p xs) = take n (drop p ys)"
  using assms by (intro nth_equalityI) auto

text \<open>What a write through \<open>b\<close> does to any slice the bytes of which it does not cover.\<close>

lemma write_elsewhere:
  assumes "bm_deref_mut off bs b m = Some m'" and "bm_within m b"
    and "p + n \<le> length (ar_mem m ! a)" and "\<And>i. p \<le> i \<Longrightarrow> i < p + n \<Longrightarrow> \<not> bm_covers a i b"
  shows "take n (drop p (ar_mem m' ! a)) = take n (drop p (ar_mem m ! a))"
proof (cases "a = bm_sequestered b")
  case False
  then show ?thesis using assms(1) by (auto simp: bm_deref_mut_def split: if_splits)
next
  case True
  have l: "off + length bs \<le> bm_len b" and m': "ar_mem m' ! a = overwrite (bm_ptr b + off) bs (ar_mem m ! a)"
    using assms(1,2) True by (auto simp: bm_deref_mut_def bm_within_def split: if_splits)
  have w: "bm_ptr b + off + length bs \<le> length (ar_mem m ! a)" using l assms(2) True by (simp add: bm_within_def)
  show ?thesis unfolding m'
  proof (rule slice_eqI)
    fix i assume i: "p \<le> i" "i < p + n"
    then have "\<not> bm_covers a i b" by (rule assms(4))
    then have "\<not> (bm_ptr b + off \<le> i \<and> i < bm_ptr b + off + length bs)" using l True by (auto simp: bm_covers_def)
    then show "overwrite (bm_ptr b + off) bs (ar_mem m ! a) ! i = ar_mem m ! a ! i"
      using nth_overwrite [OF w, of i] assms(3) i by auto
  qed (use w assms(3) in simp_all)
qed

lemma by_len_deref: "by_within m b \<Longrightarrow> length (by_deref m b) = by_len b"
  by (auto simp: by_within_def by_deref_def min_def)

lemma bm_len_deref: "bm_within m b \<Longrightarrow> length (bm_deref m b) = bm_len b"
  by (auto simp: bm_within_def bm_deref_def min_def)

lemma bm_deref_mut_ok:
  assumes ok: "arena_ok (add_mset b M) B m" and wr: "bm_deref_mut off bs b m = Some m'"
  shows "arena_ok (add_mset b M) B m'" and "bm_deref m' b = overwrite off bs (bm_deref m b)"
    and "\<And>c. c \<in># M \<Longrightarrow> bm_deref m' c = bm_deref m c" and "\<And>c. c \<in># B \<Longrightarrow> by_deref m' c = by_deref m c"
proof -
  have b: "bm_within m b" using ok by (simp add: arena_ok_def)
  have l: "off + length bs \<le> bm_len b"
    and m': "m' = m\<lparr>ar_mem := (ar_mem m)[bm_sequestered b := overwrite (bm_ptr b + off) bs (ar_mem m ! bm_sequestered b)]\<rparr>"
    using wr by (auto simp: bm_deref_mut_def split: if_splits)
  have w: "bm_ptr b + off + length bs \<le> length (ar_mem m ! bm_sequestered b)" using l b by (simp add: bm_within_def)
  have s: "bm_sequestered b < length (ar_mem m)" using b by (simp add: bm_within_def)
  have len: "length (ar_mem m' ! a) = length (ar_mem m ! a)" "length (ar_mem m') = length (ar_mem m)" for a
    using w s by (cases "a = bm_sequestered b") (simp_all add: m')
  have wi: "bm_within m' c = bm_within m c" "by_within m' d = by_within m d" for c d
    by (simp_all add: bm_within_def by_within_def len)
  have w': "bm_within m' b" using wi(1) b by simp
  from wi show "arena_ok (add_mset b M) B m'" using ok by (simp add: arena_ok_def len) (simp add: m')
  have e: "exclusive (add_mset b M) B" using ok by (simp add: arena_ok_def)
  show "bm_deref m' b = overwrite off bs (bm_deref m b)"
  proof (rule nth_equalityI)
    show "length (bm_deref m' b) = length (overwrite off bs (bm_deref m b))"
      using b l w' bm_len_deref [OF b] bm_len_deref [OF w'] by simp
    fix i assume "i < length (bm_deref m' b)"
    then have i: "i < bm_len b" by (simp add: bm_deref_def)
    have s: "bm_sequestered b < length (ar_mem m)" "bm_ptr b + bm_len b \<le> length (ar_mem m ! bm_sequestered b)"
      using b by (auto simp: bm_within_def)
    then have "bm_deref m' b ! i = overwrite (bm_ptr b + off) bs (ar_mem m ! bm_sequestered b) ! (bm_ptr b + i)"
      using i len(1) [of "bm_sequestered b"] by (simp add: bm_deref_def m')
    also have "\<dots> = overwrite off bs (bm_deref m b) ! i"
      using nth_overwrite [OF w, of "bm_ptr b + i"] nth_overwrite [of off bs "bm_deref m b" i] s i l
      by (auto simp: bm_deref_def)
    finally show "bm_deref m' b ! i = overwrite off bs (bm_deref m b) ! i" .
  qed
  show "bm_deref m' c = bm_deref m c" if c: "c \<in># M" for c
    unfolding bm_deref_def
  proof (rule write_elsewhere [OF wr b])
    show "bm_ptr c + bm_len c \<le> length (ar_mem m ! bm_sequestered c)" using ok c by (simp add: arena_ok_def bm_within_def)
    fix i assume "bm_ptr c \<le> i" "i < bm_ptr c + bm_len c"
    then have "0 < writers M (bm_sequestered c) i" using writers_pos [OF c] by (simp add: bm_covers_def)
    then show "\<not> bm_covers (bm_sequestered c) i b" using exclusive_at [OF e, of "bm_sequestered c" i] by auto
  qed
  show "by_deref m' c = by_deref m c" if c: "c \<in># B" for c
    unfolding by_deref_def
  proof (rule write_elsewhere [OF wr b])
    show "by_ptr c + by_len c \<le> length (ar_mem m ! by_sequestered c)" using ok c by (simp add: arena_ok_def by_within_def)
    fix i assume "by_ptr c \<le> i" "i < by_ptr c + by_len c"
    then have "0 < readers B (by_sequestered c) i" using readers_pos [OF c] by (simp add: by_covers_def)
    then show "\<not> bm_covers (by_sequestered c) i b" using exclusive_at [OF e, of "by_sequestered c" i] by auto
  qed
qed

section \<open>Contents of slices\<close>

lemma bm_extract_to_deref:
  assumes "bm_extract_to n b m = Some (r, b', m')"
  shows "by_deref m' r = take n (bm_deref m b)" "bm_deref m' b' = drop n (bm_deref m b)" "ar_mem m' = ar_mem m"
  using assms by (auto simp: bm_extract_to_def by_deref_def bm_deref_def bm_freeze_def drop_take add.commute min_def split: if_splits)

lemma by_extract_to_deref:
  assumes "by_extract_to n b m = Some (r, b', m')"
  shows "by_deref m' r = take n (by_deref m b)" "by_deref m' b' = drop n (by_deref m b)" "ar_mem m' = ar_mem m"
  using assms by (auto simp: by_extract_to_def by_deref_def drop_take add.commute min_def split: if_splits)

lemma by_try_merge_deref:
  assumes "by_try_merge b other m = (r, b', m')"
  shows "by_deref m' b' @ (case r of Inl x \<Rightarrow> by_deref m' x | Inr _ \<Rightarrow> []) = by_deref m b @ by_deref m other"
    and "ar_mem m' = ar_mem m"
proof -
  have "take (p + q) (drop i xs) = take p (drop i xs) @ take q (drop (i + p) xs)" for p q i and xs :: "byte list"
    by (simp add: take_add add.commute)
  then show "by_deref m' b' @ (case r of Inl x \<Rightarrow> by_deref m' x | Inr _ \<Rightarrow> []) = by_deref m b @ by_deref m other"
    and "ar_mem m' = ar_mem m" using assms by (auto simp: by_try_merge_def by_deref_def split: if_splits)
qed

section \<open>Any use of the crate\<close>

type_synonym pool = "bytes_mut multiset \<times> bytes multiset \<times> arena"

inductive bytes_step :: "pool \<Rightarrow> pool \<Rightarrow> bool" where
  allocate: "bm_from bs m = (b, m') \<Longrightarrow> bytes_step (M, B, m) (add_mset b M, B, m')"
| freeze: "bytes_step (add_mset b M, B, m) (M, add_mset (bm_freeze b) B, m)"
| extract_mut: "bm_extract_to n b m = Some (r, b', m') \<Longrightarrow> bytes_step (add_mset b M, B, m) (add_mset b' M, add_mset r B, m')"
| regenerate: "bm_try_regenerate b m = (ok, b') \<Longrightarrow> bytes_step (add_mset b M, B, m) (add_mset b' M, B, m)"
| overwritten: "bm_deref_mut off bs b m = Some m' \<Longrightarrow> bytes_step (add_mset b M, B, m) (add_mset b M, B, m')"
| drop_mut: "bytes_step (add_mset b M, B, m) (M, B, bm_drop b m)"
| extract_shared: "by_extract_to n c m = Some (r, c', m') \<Longrightarrow> bytes_step (M, add_mset c B, m) (M, add_mset r (add_mset c' B), m')"
| merge: "by_try_merge c d m = (r, c', m') \<Longrightarrow>
    bytes_step (M, add_mset c (add_mset d B), m) (M, add_mset c' (case r of Inl x \<Rightarrow> add_mset x B | Inr _ \<Rightarrow> B), m')"
| clone: "c \<in># B \<Longrightarrow> by_clone c m = (c', m') \<Longrightarrow> bytes_step (M, B, m) (M, add_mset c' B, m')"
| drop_shared: "bytes_step (M, add_mset c B, m) (M, B, by_drop c m)"

lemma bytes_step_ok: "bytes_step s t \<Longrightarrow> arena_ok (fst s) (fst (snd s)) (snd (snd s)) \<Longrightarrow> arena_ok (fst t) (fst (snd t)) (snd (snd t))"
proof (induction rule: bytes_step.induct)
  case (allocate bs m b m' M B)
  then show ?case using bm_from_ok(1) by simp
next
  case (extract_mut n b m r b' m' M B)
  then show ?case using bm_extract_to_ok by simp
next
  case (regenerate b m ok b' M B)
  then show ?case using bm_try_regenerate_ok(1) by simp
next
  case (overwritten off bs b m m' M B)
  then show ?case using bm_deref_mut_ok(1) by simp
next
  case (extract_shared n c m r c' m' M B)
  then show ?case using by_extract_to_ok by simp
next
  case (merge c d m r c' m' M B)
  then show ?case using by_try_merge_ok by simp
next
  case (clone c B m c' m' M)
  then show ?case using by_clone_ok by simp
qed (simp_all add: bm_freeze_ok bm_drop_ok by_drop_ok)

lemma bytes_reach_ok:
  assumes "bytes_step\<^sup>*\<^sup>* ({#}, {#}, arena_empty) (M, B, m)"
  shows "arena_ok M B m"
proof -
  have "arena_ok (fst s) (fst (snd s)) (snd (snd s))" if "bytes_step\<^sup>*\<^sup>* ({#}, {#}, arena_empty) s" for s
    using that
  proof induction
    case base
    show ?case by (simp add: arena_ok_def arena_empty_def exclusive_def)
  next
    case (step s t)
    then show ?case by (blast intro: bytes_step_ok)
  qed
  from this [OF assms] show ?thesis by simp
qed

text \<open>
  C13: However the slices of the crate are split, merged, cloned, frozen, regenerated and dropped, the
  unsafe accesses are sound: every live slice lies within an allocation that is still referenced, and a
  write through a \<open>BytesMut\<close> changes that slice as intended and no byte that any other live slice shows.
\<close>
theorem shared_bytes_safe:
  assumes "bytes_step\<^sup>*\<^sup>* ({#}, {#}, arena_empty) (M, B, m)"
  shows "(\<forall>b \<in># M. bm_ptr b + bm_len b \<le> length (ar_mem m ! bm_sequestered b) \<and> 0 < ar_refs m ! bm_sequestered b)
    \<and> (\<forall>c \<in># B. by_ptr c + by_len c \<le> length (ar_mem m ! by_sequestered c) \<and> 0 < ar_refs m ! by_sequestered c)
    \<and> (\<forall>b \<in># M. \<forall>off bs m'. bm_deref_mut off bs b m = Some m' \<longrightarrow>
         bm_deref m' b = overwrite off bs (bm_deref m b)
         \<and> (\<forall>d \<in># M - {#b#}. bm_deref m' d = bm_deref m d) \<and> (\<forall>c \<in># B. by_deref m' c = by_deref m c))"
proof -
  note ok = bytes_reach_ok [OF assms]
  have "bm_ptr b + bm_len b \<le> length (ar_mem m ! bm_sequestered b) \<and> 0 < ar_refs m ! bm_sequestered b" if "b \<in># M" for b
    using ok multi_member_split [OF that] by (auto simp: arena_ok_def bm_within_def)
  moreover have "by_ptr c + by_len c \<le> length (ar_mem m ! by_sequestered c) \<and> 0 < ar_refs m ! by_sequestered c" if "c \<in># B" for c
    using ok multi_member_split [OF that] by (auto simp: arena_ok_def by_within_def)
  moreover have "bm_deref m' b = overwrite off bs (bm_deref m b)
      \<and> (\<forall>d \<in># M - {#b#}. bm_deref m' d = bm_deref m d) \<and> (\<forall>c \<in># B. by_deref m' c = by_deref m c)"
    if b: "b \<in># M" and w: "bm_deref_mut off bs b m = Some m'" for b off bs m'
    using bm_deref_mut_ok [of b "M - {#b#}" B m, OF _ w] ok b by (simp add: insert_DiffM)
  ultimately show ?thesis by blast
qed

lemma example_pool:
  "\<exists>m. bytes_step\<^sup>*\<^sup>* ({#}, {#}, arena_empty)
     ({#\<lparr>bm_ptr = 1, bm_len = 2, bm_sequestered = 0\<rparr>#}, {#\<lparr>by_ptr = 0, by_len = 1, by_sequestered = 0\<rparr>#}, m)
   \<and> m = \<lparr>ar_mem = [[7, 8, 9]], ar_refs = [2]\<rparr>"
proof -
  let ?m = "\<lparr>ar_mem = [[7, 8, 9]], ar_refs = [1]\<rparr> :: arena" and ?b = "\<lparr>bm_ptr = 0, bm_len = 3, bm_sequestered = 0\<rparr> :: bytes_mut"
  have 1: "bytes_step ({#}, {#}, arena_empty) ({#?b#}, {#}, ?m)"
    by (rule bytes_step.allocate [of "[7, 8, 9]"]) (simp add: bm_from_def arena_empty_def)
  have 2: "bytes_step ({#?b#}, {#}, ?m) ({#\<lparr>bm_ptr = 1, bm_len = 2, bm_sequestered = 0\<rparr>#},
      {#\<lparr>by_ptr = 0, by_len = 1, by_sequestered = 0\<rparr>#}, \<lparr>ar_mem = [[7, 8, 9]], ar_refs = [2]\<rparr>)"
    by (rule bytes_step.extract_mut [of 1]) (simp add: bm_extract_to_def bm_freeze_def arc_clone_def numeral_2_eq_2)
  show ?thesis using converse_rtranclp_into_rtranclp [of bytes_step, OF 1 r_into_rtranclp [of bytes_step, OF 2]] by simp
qed

theorem shared_bytes_safe_witness:
  "\<exists>m m'. bm_deref_mut 0 [5] \<lparr>bm_ptr = 1, bm_len = 2, bm_sequestered = 0\<rparr> m = Some m'
     \<and> bm_deref m' \<lparr>bm_ptr = 1, bm_len = 2, bm_sequestered = 0\<rparr> = [5, 9]
     \<and> by_deref m' \<lparr>by_ptr = 0, by_len = 1, by_sequestered = 0\<rparr> = [7]"
proof -
  define m :: arena where "m = \<lparr>ar_mem = [[7, 8, 9]], ar_refs = [2]\<rparr>"
  define m' :: arena where "m' = \<lparr>ar_mem = [[7, 5, 9]], ar_refs = [2]\<rparr>"
  let ?b = "\<lparr>bm_ptr = 1, bm_len = 2, bm_sequestered = 0\<rparr> :: bytes_mut"
  have w: "bm_deref_mut 0 [5] ?b m = Some m'" by (simp add: bm_deref_mut_def overwrite_def m_def m'_def)
  have r: "bytes_step\<^sup>*\<^sup>* ({#}, {#}, arena_empty) ({#?b#}, {#\<lparr>by_ptr = 0, by_len = 1, by_sequestered = 0\<rparr>#}, m)"
    using example_pool by (simp add: m_def)
  have "bm_deref m' ?b = overwrite 0 [5] (bm_deref m ?b)
      \<and> by_deref m' \<lparr>by_ptr = 0, by_len = 1, by_sequestered = 0\<rparr> = by_deref m \<lparr>by_ptr = 0, by_len = 1, by_sequestered = 0\<rparr>"
    using shared_bytes_safe [OF r] w by fastforce
  with w show ?thesis by (intro exI [of _ m] exI [of _ m']) (simp add: bm_deref_def by_deref_def overwrite_def m_def)
qed

end
