(* ===== verification/Byte_Slab.thy ===== *)
theory Byte_Slab
  imports Shared_Bytes
begin

text \<open>
  \<open>BytesSlab\<close> (\<open>communication/src/allocator/serializing_allocators/bytes_slab.rs\<close>): a working buffer
  with a valid prefix, from which slices are extracted, and which is replaced by a reclaimed or new
  allocation when it runs out of room.  The allocation function of \<open>BytesRefill\<close> is supplied by the
  configuration: \<open>refill_ok\<close> states what its documentation promises, a buffer of the requested size.
  \<open>None\<close> is a panic: a slice out of range, a failed \<open>debug_assert!\<close>, or a shift of 64 and more.
\<close>

section \<open>Slabs\<close>

record bytes_refill =
  rf_logic :: "nat \<Rightarrow> byte list"
  rf_limit :: "nat option"

record bytes_slab =
  sl_buffer :: bytes_mut
  sl_in_progress :: "bytes_mut option list"
  sl_stash :: "bytes_mut list"
  sl_shift :: nat
  sl_valid :: nat
  sl_new_bytes :: bytes_refill

definition slab_new :: "nat \<Rightarrow> bytes_refill \<Rightarrow> arena \<Rightarrow> bytes_slab \<times> arena" where
  "slab_new shift rf m =
     (let (buffer, m) = bm_from (rf_logic rf (2 ^ shift)) m
      in (\<lparr>sl_buffer = buffer, sl_in_progress = [], sl_stash = [], sl_shift = shift, sl_valid = 0, sl_new_bytes = rf\<rparr>, m))"

definition slab_empty :: "arena \<Rightarrow> bytes_slab \<Rightarrow> byte list option" where
  "slab_empty m s = (if sl_valid s \<le> bm_len (sl_buffer s) then Some (drop (sl_valid s) (bm_deref m (sl_buffer s))) else None)"

definition slab_valid :: "arena \<Rightarrow> bytes_slab \<Rightarrow> byte list option" where
  "slab_valid m s = (if sl_valid s \<le> bm_len (sl_buffer s) then Some (take (sl_valid s) (bm_deref m (sl_buffer s))) else None)"

definition slab_make_valid :: "nat \<Rightarrow> bytes_slab \<Rightarrow> bytes_slab" where
  "slab_make_valid n s = s\<lparr>sl_valid := sl_valid s + n\<rparr>"

definition slab_extract :: "nat \<Rightarrow> bytes_slab \<Rightarrow> arena \<Rightarrow> (bytes \<times> bytes_slab \<times> arena) option" where
  "slab_extract n s m =
     (if n \<le> sl_valid s then
        do { (r, b, m) \<leftarrow> bm_extract_to n (sl_buffer s) m;
             Some (r, s\<lparr>sl_valid := sl_valid s - n, sl_buffer := b\<rparr>, m) }
      else None)"

text \<open>Dropping a vector of buffers.\<close>

definition bm_drop_all :: "bytes_mut list \<Rightarrow> arena \<Rightarrow> arena" where
  "bm_drop_all bs m = fold bm_drop bs m"

fun somes :: "'a option list \<Rightarrow> 'a list" where
  "somes [] = []"
| "somes (None # xs) = somes xs"
| "somes (Some x # xs) = x # somes xs"

text \<open>The loop that increases the allocation; the flag is \<open>increased_shift\<close>.\<close>

function slab_grow :: "nat \<Rightarrow> bool \<Rightarrow> bytes_slab \<Rightarrow> arena \<Rightarrow> (bool \<times> bytes_slab \<times> arena) option" where
  "slab_grow capacity increased s m =
     (if 64 \<le> sl_shift s then None
      else if 2 ^ sl_shift s < sl_valid s + capacity then
        slab_grow capacity True (s\<lparr>sl_shift := sl_shift s + 1, sl_stash := [], sl_in_progress := []\<rparr>)
          (bm_drop_all (somes (sl_in_progress s)) (bm_drop_all (sl_stash s) m))
      else Some (increased, s, m))"
  by auto
termination
  by (relation "measure (\<lambda>(_, _, s, _). 64 - sl_shift s)") auto

declare slab_grow.simps [simp del]

fun slab_reclaim :: "nat \<Rightarrow> bytes_mut option list \<Rightarrow> bytes_mut list \<Rightarrow> arena \<Rightarrow> bytes_mut option list \<times> bytes_mut list \<times> arena" where
  "slab_reclaim shift [] stash m = ([], stash, m)"
| "slab_reclaim shift (None # xs) stash m =
     (let (xs, stash, m) = slab_reclaim shift xs stash m in (None # xs, stash, m))"
| "slab_reclaim shift (Some b # xs) stash m =
     (case bm_try_regenerate b m of
        (True, b) \<Rightarrow>
          if bm_len b = 2 ^ shift
          then (let (xs, stash, m) = slab_reclaim shift xs (stash @ [b]) m in (None # xs, stash, m))
          else (let (xs, stash, m) = slab_reclaim shift xs stash (bm_drop b m) in (None # xs, stash, m))
      | (False, b) \<Rightarrow> (let (xs, stash, m) = slab_reclaim shift xs stash m in (Some b # xs, stash, m)))"

definition slab_reclaim_all :: "bytes_slab \<Rightarrow> arena \<Rightarrow> bytes_slab \<times> arena" where
  "slab_reclaim_all s m =
     (if sl_stash s = [] then
        (let (xs, stash, m) = slab_reclaim (sl_shift s) (sl_in_progress s) [] m
         in (s\<lparr>sl_in_progress := filter (\<lambda>x. x \<noteq> None) xs, sl_stash := stash\<rparr>, m))
      else (s, m))"

text \<open>\<open>stash.pop()\<close>, or a new allocation.\<close>

definition slab_new_buffer :: "bytes_slab \<Rightarrow> arena \<Rightarrow> bytes_mut \<times> bytes_slab \<times> arena" where
  "slab_new_buffer s m =
     (if sl_stash s \<noteq> [] then (last (sl_stash s), s\<lparr>sl_stash := butlast (sl_stash s)\<rparr>, m)
      else (let (b, m) = bm_from (rf_logic (sl_new_bytes s) (2 ^ sl_shift s)) m in (b, s, m)))"

definition slab_truncate :: "bytes_slab \<Rightarrow> arena \<Rightarrow> bytes_slab \<times> arena" where
  "slab_truncate s m =
     (case rf_limit (sl_new_bytes s) of
        None \<Rightarrow> (s, m)
      | Some limit \<Rightarrow> (s\<lparr>sl_stash := take limit (sl_stash s)\<rparr>, bm_drop_all (drop limit (sl_stash s)) m))"

definition slab_ensure_capacity :: "nat \<Rightarrow> bytes_slab \<Rightarrow> arena \<Rightarrow> (bytes_slab \<times> arena) option" where
  "slab_ensure_capacity capacity s m =
     do { e \<leftarrow> slab_empty m s;
          if length e < capacity then
            do { (increased, s, m) \<leftarrow> slab_grow capacity False s m;
                 let (s, m) = slab_reclaim_all s m;
                 let (new, s, m) = slab_new_buffer s m;
                 let old = sl_buffer s;
                 let (s, m) = slab_truncate (s\<lparr>sl_buffer := new\<rparr>) m;
                 if sl_valid s \<le> bm_len old then
                   do { m \<leftarrow> bm_deref_mut 0 (take (sl_valid s) (bm_deref m old)) (sl_buffer s) m;
                        Some (if increased then (s, bm_drop old m)
                              else (s\<lparr>sl_in_progress := sl_in_progress s @ [Some old]\<rparr>, m)) }
                 else None }
          else Some (s, m) }"

section \<open>Ownership of a slab\<close>

definition refill_ok :: "bytes_refill \<Rightarrow> bool" where
  "refill_ok rf \<longleftrightarrow> (\<forall>n. length (rf_logic rf n) = n)"

definition slab_muts :: "bytes_slab \<Rightarrow> bytes_mut multiset" where
  "slab_muts s = add_mset (sl_buffer s) (mset (somes (sl_in_progress s)) + mset (sl_stash s))"

definition bm_room :: "nat \<Rightarrow> arena \<Rightarrow> bytes_mut \<Rightarrow> bool" where
  "bm_room shift m b \<longleftrightarrow> bm_sequestered b < length (ar_mem m) \<and> length (ar_mem m ! bm_sequestered b) = 2 ^ shift"

definition slab_ok :: "arena \<Rightarrow> bytes_slab \<Rightarrow> bool" where
  "slab_ok m s \<longleftrightarrow> refill_ok (sl_new_bytes s) \<and> sl_shift s < 64 \<and> sl_valid s \<le> bm_len (sl_buffer s)
     \<and> (\<forall>b \<in># slab_muts s. bm_room (sl_shift s) m b) \<and> (\<forall>b \<in> set (sl_stash s). bm_len b = 2 ^ sl_shift s)"

text \<open>What an operation leaves alone: the contents of other slices and the sizes of allocations.\<close>

definition preserves :: "bytes_mut multiset \<Rightarrow> bytes multiset \<Rightarrow> arena \<Rightarrow> arena \<Rightarrow> bool" where
  "preserves M B m m' \<longleftrightarrow> (\<forall>b \<in># M. bm_deref m' b = bm_deref m b) \<and> (\<forall>c \<in># B. by_deref m' c = by_deref m c)
     \<and> length (ar_mem m) \<le> length (ar_mem m') \<and> (\<forall>a < length (ar_mem m). length (ar_mem m' ! a) = length (ar_mem m ! a))"

lemma preserves_refl [simp]: "preserves M B m m"
  by (simp add: preserves_def)

lemma preserves_trans: "preserves M B m m' \<Longrightarrow> preserves M B m' m'' \<Longrightarrow> preserves M B m m''"
  by (simp add: preserves_def)

lemma preserves_mem: "ar_mem m' = ar_mem m \<Longrightarrow> preserves M B m m'"
  by (simp add: preserves_def bm_deref_def by_deref_def)

lemma preserves_mono: "preserves M B m m' \<Longrightarrow> M' \<subseteq># M \<Longrightarrow> B' \<subseteq># B \<Longrightarrow> preserves M' B' m m'"
  by (auto simp: preserves_def dest: mset_subset_eqD)

lemma preserves_room: "preserves M B m m' \<Longrightarrow> bm_room k m b \<Longrightarrow> bm_room k m' b"
  by (auto simp: preserves_def bm_room_def)

lemma bm_from_preserves:
  assumes "arena_ok M B m" and "bm_from bs m = (b, m')"
  shows "preserves M B m m'"
proof -
  have "ar_mem m' = ar_mem m @ [bs]" using assms(2) by (auto simp: bm_from_def)
  then show ?thesis using bm_from_ok(5,6) [OF assms] by (simp add: preserves_def nth_append)
qed

lemma bm_deref_mut_preserves:
  assumes "arena_ok (add_mset b M) B m" and "bm_deref_mut off bs b m = Some m'"
  shows "preserves M B m m'"
proof -
  have "bm_within m b" using assms(1) by (simp add: arena_ok_def)
  then have "length (ar_mem m') = length (ar_mem m) \<and> (\<forall>a. length (ar_mem m' ! a) = length (ar_mem m ! a))"
    using assms(2) by (auto simp: bm_deref_mut_def bm_within_def nth_list_update split: if_splits)
  then show ?thesis using bm_deref_mut_ok(3,4) [OF assms] by (simp add: preserves_def)
qed

lemma bm_drop_all_mem [simp]: "ar_mem (bm_drop_all bs m) = ar_mem m"
  by (induction bs arbitrary: m) (simp_all add: bm_drop_all_def)

lemma bm_drop_all_ok: "arena_ok (mset bs + M) B m \<Longrightarrow> arena_ok M B (bm_drop_all bs m)"
  by (induction bs arbitrary: m) (auto simp: bm_drop_all_def intro: bm_drop_ok)

lemma somes_append [simp]: "somes (xs @ ys) = somes xs @ somes ys"
  by (induction xs rule: somes.induct) simp_all

lemma somes_filter [simp]: "somes (filter (\<lambda>x. \<exists>y. x = Some y) xs) = somes xs"
  by (induction xs rule: somes.induct) simp_all

definition shelf_ok :: "arena \<Rightarrow> bytes_slab \<Rightarrow> bool" where
  "shelf_ok m s \<longleftrightarrow> refill_ok (sl_new_bytes s) \<and> sl_shift s < 64
     \<and> (\<forall>b \<in> set (somes (sl_in_progress s)) \<union> set (sl_stash s). bm_room (sl_shift s) m b)
     \<and> (\<forall>b \<in> set (sl_stash s). bm_len b = 2 ^ sl_shift s)"

lemma slab_ok_shelf:
  "slab_ok m s \<longleftrightarrow> shelf_ok m s \<and> sl_valid s \<le> bm_len (sl_buffer s) \<and> bm_room (sl_shift s) m (sl_buffer s)"
  by (auto simp: slab_ok_def shelf_ok_def slab_muts_def)

lemma shelf_ok_mem: "ar_mem m' = ar_mem m \<Longrightarrow> shelf_ok m' s = shelf_ok m s"
  by (simp add: shelf_ok_def bm_room_def)

lemma slab_ok_preserves: "preserves M B m m' \<Longrightarrow> slab_ok m s \<Longrightarrow> slab_ok m' s"
  using preserves_room by (auto simp: slab_ok_def)

text \<open>The steps of \<open>ensure_capacity\<close>.\<close>

definition same_core :: "bytes_slab \<Rightarrow> bytes_slab \<Rightarrow> bool" where
  "same_core s s' \<longleftrightarrow> sl_buffer s' = sl_buffer s \<and> sl_valid s' = sl_valid s \<and> sl_new_bytes s' = sl_new_bytes s"

lemma slab_grow_ok:
  assumes "arena_ok (slab_muts s + M) B m" and "shelf_ok m s" and "sl_valid s + capacity \<le> 2 ^ 63"
  shows "\<exists>inc' s' m'. slab_grow capacity inc s m = Some (inc', s', m') \<and> arena_ok (slab_muts s' + M) B m' \<and> shelf_ok m' s'
    \<and> ar_mem m' = ar_mem m \<and> same_core s s' \<and> sl_valid s + capacity \<le> 2 ^ sl_shift s'
    \<and> (\<not> inc' \<longrightarrow> \<not> inc \<and> sl_shift s' = sl_shift s)"
  using assms
proof (induction capacity inc s m rule: slab_grow.induct)
  case (1 capacity inc s m)
  have sh: "sl_shift s < 64" using 1(3) by (simp add: shelf_ok_def)
  show ?case
  proof (cases "2 ^ sl_shift s < sl_valid s + capacity")
    case False
    then have "slab_grow capacity inc s m = Some (inc, s, m)" using sh by (subst slab_grow.simps) simp
    then show ?thesis using 1(2,3) False by (intro exI [of _ inc] exI [of _ s] exI [of _ m]) (simp add: same_core_def)
  next
    case True
    define s1 where "s1 = s\<lparr>sl_shift := sl_shift s + 1, sl_stash := [], sl_in_progress := []\<rparr>"
    define m1 where "m1 = bm_drop_all (somes (sl_in_progress s)) (bm_drop_all (sl_stash s) m)"
    have step: "slab_grow capacity inc s m = slab_grow capacity True s1 m1"
      using True sh unfolding s1_def m1_def by (subst slab_grow.simps) simp
    have "(2::nat) ^ sl_shift s < 2 ^ 63" using True 1(4) by linarith
    then have sh1: "sl_shift s < 63" using power_less_imp_less_exp [of "2::nat" "sl_shift s" 63] by simp
    have "arena_ok (mset (sl_stash s) + (mset (somes (sl_in_progress s)) + add_mset (sl_buffer s) M)) B m"
      using 1(2) by (simp add: slab_muts_def ac_simps)
    then have "arena_ok (add_mset (sl_buffer s) M) B m1" unfolding m1_def by (intro bm_drop_all_ok)
    then have a: "arena_ok (slab_muts s1 + M) B m1" by (simp add: slab_muts_def s1_def)
    have b: "shelf_ok m1 s1" using 1(3) sh1 by (simp add: shelf_ok_def s1_def)
    have c: "sl_valid s1 + capacity \<le> 2 ^ 63" using 1(4) by (simp add: s1_def)
    have d: "\<not> 64 \<le> sl_shift s" using sh by simp
    from 1(1) [OF d True, folded s1_def m1_def, OF a b c] obtain inc' s' m'
      where "slab_grow capacity True s1 m1 = Some (inc', s', m')" "arena_ok (slab_muts s' + M) B m'" "shelf_ok m' s'"
        "ar_mem m' = ar_mem m1" "same_core s1 s'" "sl_valid s1 + capacity \<le> 2 ^ sl_shift s'" inc' by blast
    then show ?thesis unfolding step
      by (intro exI [of _ inc'] exI [of _ s'] exI [of _ m']) (simp add: s1_def m1_def same_core_def)
  qed
qed

lemma slab_reclaim_ok:
  assumes "arena_ok (mset (somes xs) + mset stash + M) B m"
    and "\<forall>b \<in> set (somes xs) \<union> set stash. bm_room shift m b" and "\<forall>b \<in> set stash. bm_len b = 2 ^ shift"
    and "slab_reclaim shift xs stash m = (xs', stash', m')"
  shows "arena_ok (mset (somes xs') + mset stash' + M) B m' \<and> ar_mem m' = ar_mem m
    \<and> (\<forall>b \<in> set (somes xs') \<union> set stash'. bm_room shift m b) \<and> (\<forall>b \<in> set stash'. bm_len b = 2 ^ shift)"
  using assms
proof (induction shift xs stash m arbitrary: M xs' stash' m' rule: slab_reclaim.induct)
  case (1 shift stash m)
  then show ?case by simp
next
  case (2 shift xs stash m)
  then show ?case by (auto split: prod.splits)
next
  case (3 shift b xs stash m)
  obtain ok b1 where t: "bm_try_regenerate b m = (ok, b1)" by (cases "bm_try_regenerate b m")
  have o1: "arena_ok (add_mset b (mset (somes xs) + mset stash + M)) B m" using 3(4) by (simp add: ac_simps)
  note r = bm_try_regenerate_ok [OF o1 t]
  have room: "bm_room shift m b1" if ok using 3(5) r(2) [OF that] by (simp add: bm_room_def)
  show ?case
  proof (cases ok)
    case False
    obtain ys st n where rec: "slab_reclaim shift xs stash m = (ys, st, n)" by (cases "slab_reclaim shift xs stash m")
    have b1: "b1 = b" using r(3) False by simp
    have q: "xs' = Some b # ys" "stash' = st" "m' = n" using 3(7) t False rec b1 by simp_all
    have "arena_ok (mset (somes xs) + mset stash + add_mset b M) B m" using o1 by simp
    from 3(3) [OF t [symmetric] _ this] False 3(5,6) rec q show ?thesis by simp
  next
    case True
    note ok = r(1)
    show ?thesis
    proof (cases "bm_len b1 = 2 ^ shift")
      case l: True
      obtain ys st n where rec: "slab_reclaim shift xs (stash @ [b1]) m = (ys, st, n)" by (cases "slab_reclaim shift xs (stash @ [b1]) m")
      have q: "xs' = None # ys" "stash' = st" "m' = n" using 3(7) t True l rec by simp_all
      have "arena_ok (mset (somes xs) + mset (stash @ [b1]) + M) B m" using ok by simp
      from 3(1) [OF t [symmetric] _ l this _ _ rec] True 3(5,6) l room q show ?thesis by simp
    next
      case l: False
      obtain ys st n where rec: "slab_reclaim shift xs stash (bm_drop b1 m) = (ys, st, n)" by (cases "slab_reclaim shift xs stash (bm_drop b1 m)")
      have q: "xs' = None # ys" "stash' = st" "m' = n" using 3(7) t True l rec by simp_all
      have o2: "arena_ok (mset (somes xs) + mset stash + M) B (bm_drop b1 m)" by (rule bm_drop_ok [OF ok])
      have rm: "bm_room shift (bm_drop b1 m) c = bm_room shift m c" for c by (simp add: bm_room_def)
      have o3: "\<forall>c \<in> set (somes xs) \<union> set stash. bm_room shift (bm_drop b1 m) c" using 3(5) rm by simp
      from 3(2) [OF t [symmetric] _ l o2 o3 3(6) rec] True show ?thesis by (simp add: rm q)
    qed
  qed
qed

lemma slab_reclaim_all_ok:
  assumes "arena_ok (slab_muts s + M) B m" and "shelf_ok m s" and "slab_reclaim_all s m = (s', m')"
  shows "arena_ok (slab_muts s' + M) B m' \<and> shelf_ok m' s' \<and> ar_mem m' = ar_mem m \<and> same_core s s' \<and> sl_shift s' = sl_shift s"
proof (cases "sl_stash s = []")
  case False
  then show ?thesis using assms by (simp add: slab_reclaim_all_def same_core_def)
next
  case True
  obtain xs st n where rec: "slab_reclaim (sl_shift s) (sl_in_progress s) [] m = (xs, st, n)"
    by (cases "slab_reclaim (sl_shift s) (sl_in_progress s) [] m")
  then have q: "s' = s\<lparr>sl_in_progress := filter (\<lambda>x. x \<noteq> None) xs, sl_stash := st\<rparr>" "m' = n"
    using assms(3) True by (simp_all add: slab_reclaim_all_def)
  have "arena_ok (mset (somes (sl_in_progress s)) + mset [] + add_mset (sl_buffer s) M) B m"
    using assms(1) True by (simp add: slab_muts_def)
  from slab_reclaim_ok [OF this _ _ rec] assms(2) True
  have k: "arena_ok (mset (somes xs) + mset st + add_mset (sl_buffer s) M) B n" "ar_mem n = ar_mem m"
    "\<forall>b \<in> set (somes xs) \<union> set st. bm_room (sl_shift s) m b" "\<forall>b \<in> set st. bm_len b = 2 ^ sl_shift s"
    by (simp_all add: shelf_ok_def)
  have "arena_ok (slab_muts s' + M) B m'" using k(1) by (simp add: q slab_muts_def)
  moreover have "shelf_ok m s'" using k(3,4) assms(2) by (simp add: q(1) shelf_ok_def)
  ultimately show ?thesis using k(2) shelf_ok_mem [of m' m] by (simp add: q same_core_def)
qed

lemma slab_new_buffer_ok:
  assumes "arena_ok (slab_muts s + M) B m" and "shelf_ok m s" and "slab_new_buffer s m = (b, s', m')"
  shows "arena_ok (add_mset b (slab_muts s' + M)) B m'" "shelf_ok m' s'" "preserves (slab_muts s + M) B m m'"
    "same_core s s'" "sl_shift s' = sl_shift s" "bm_len b = 2 ^ sl_shift s" "bm_room (sl_shift s) m' b"
proof -
  have all: "arena_ok (add_mset b (slab_muts s' + M)) B m' \<and> shelf_ok m' s' \<and> preserves (slab_muts s + M) B m m'
    \<and> same_core s s' \<and> sl_shift s' = sl_shift s \<and> bm_len b = 2 ^ sl_shift s \<and> bm_room (sl_shift s) m' b"
  proof (cases "sl_stash s = []")
    case False
    then have q: "b = last (sl_stash s)" "s' = s\<lparr>sl_stash := butlast (sl_stash s)\<rparr>" "m' = m"
      using assms(3) by (simp_all add: slab_new_buffer_def)
    have st: "sl_stash s = butlast (sl_stash s) @ [b]" using False q(1) by simp
    have "slab_muts s = add_mset b (slab_muts s')" unfolding slab_muts_def by (subst st) (simp add: q(2))
    moreover have "b \<in> set (sl_stash s)" using False q(1) by simp
    ultimately show ?thesis using assms(1,2)
      by (auto simp: q(2,3) shelf_ok_def same_core_def dest: in_set_butlastD)
  next
    case True
    then have f: "bm_from (rf_logic (sl_new_bytes s) (2 ^ sl_shift s)) m = (b, m')" and s': "s' = s"
      using assms(3) by (auto simp: slab_new_buffer_def split: prod.splits)
    note k = bm_from_ok [OF assms(1) f]
    have p: "preserves (slab_muts s + M) B m m'" by (rule bm_from_preserves [OF assms(1) f])
    have l: "bm_len b = 2 ^ sl_shift s" using k(3) assms(2) by (simp add: shelf_ok_def refill_ok_def)
    have "bm_sequestered b = length (ar_mem m)" "ar_mem m' = ar_mem m @ [rf_logic (sl_new_bytes s) (2 ^ sl_shift s)]"
      using f by (auto simp: bm_from_def)
    then have "bm_room (sl_shift s) m' b" using assms(2) by (simp add: bm_room_def shelf_ok_def refill_ok_def)
    moreover have "shelf_ok m' s" using assms(2) preserves_room [OF p] by (auto simp: shelf_ok_def)
    ultimately show ?thesis using k(1) p l by (simp add: s' same_core_def)
  qed
  then show "arena_ok (add_mset b (slab_muts s' + M)) B m'" "shelf_ok m' s'" "preserves (slab_muts s + M) B m m'"
    "same_core s s'" "sl_shift s' = sl_shift s" "bm_len b = 2 ^ sl_shift s" "bm_room (sl_shift s) m' b" by blast+
qed

lemma slab_truncate_ok:
  assumes "arena_ok (slab_muts s + M) B m" and "shelf_ok m s" and "slab_truncate s m = (s', m')"
  shows "arena_ok (slab_muts s' + M) B m' \<and> shelf_ok m' s' \<and> ar_mem m' = ar_mem m \<and> same_core s s' \<and> sl_shift s' = sl_shift s"
proof (cases "rf_limit (sl_new_bytes s)")
  case None
  then show ?thesis using assms by (simp add: slab_truncate_def same_core_def)
next
  case (Some limit)
  then have q: "s' = s\<lparr>sl_stash := take limit (sl_stash s)\<rparr>" "m' = bm_drop_all (drop limit (sl_stash s)) m"
    using assms(3) by (simp_all add: slab_truncate_def)
  have "mset (sl_stash s) = mset (drop limit (sl_stash s)) + mset (take limit (sl_stash s))"
    by (metis append_take_drop_id mset_append union_commute)
  then have "slab_muts s + M = mset (drop limit (sl_stash s)) + (slab_muts s' + M)"
    by (simp add: slab_muts_def q ac_simps)
  with assms(1) have "arena_ok (slab_muts s' + M) B m'" unfolding q(2) by (simp add: bm_drop_all_ok)
  then show ?thesis using assms(2) by (auto simp: q shelf_ok_def bm_room_def same_core_def dest: in_set_takeD)
qed

section \<open>Capacity\<close>

lemma slab_valid_Some: "slab_ok m s \<Longrightarrow> slab_valid m s = Some (take (sl_valid s) (bm_deref m (sl_buffer s)))"
  by (simp add: slab_valid_def slab_ok_def)

lemma slab_empty_Some: "slab_ok m s \<Longrightarrow> slab_empty m s = Some (drop (sl_valid s) (bm_deref m (sl_buffer s)))"
  by (simp add: slab_empty_def slab_ok_def)

lemma buffer_within: "arena_ok (slab_muts s + M) B m \<Longrightarrow> bm_within m (sl_buffer s)"
  by (simp add: arena_ok_def slab_muts_def)

text \<open>The replacement of the buffer: copying the valid bytes and retiring the old buffer.\<close>

lemma slab_copy_ok:
  assumes "arena_ok (add_mset old (slab_muts s + M)) B m" and "shelf_ok m s"
    and "bm_len (sl_buffer s) = 2 ^ sl_shift s" and "bm_room (sl_shift s) m (sl_buffer s)"
    and "sl_valid s \<le> 2 ^ sl_shift s" and "sl_valid s \<le> bm_len old"
  obtains m' where "bm_deref_mut 0 (take (sl_valid s) (bm_deref m old)) (sl_buffer s) m = Some m'"
    and "arena_ok (add_mset old (slab_muts s + M)) B m'" and "slab_ok m' s"
    and "slab_valid m' s = Some (take (sl_valid s) (bm_deref m old))" and "preserves (add_mset old M) B m m'"
proof -
  let ?v = "take (sl_valid s) (bm_deref m old)" and ?R = "mset (somes (sl_in_progress s)) + mset (sl_stash s)"
  have ok: "arena_ok (add_mset (sl_buffer s) (add_mset old M + ?R)) B m"
    using assms(1) add_mset_commute [of old "sl_buffer s"] by (simp add: slab_muts_def ac_simps)
  have "bm_within m old" using assms(1) by (simp add: arena_ok_def)
  then have lv: "length ?v = sl_valid s" using bm_len_deref assms(6) by simp
  then obtain m' where w: "bm_deref_mut 0 ?v (sl_buffer s) m = Some m'" using assms(3,5) by (simp add: bm_deref_mut_def)
  note k = bm_deref_mut_ok [OF ok w]
  have p0: "preserves (add_mset old M + ?R) B m m'" by (rule bm_deref_mut_preserves [OF ok w])
  then have p: "preserves (add_mset old M) B m m'" by (rule preserves_mono) simp_all
  have o: "arena_ok (add_mset old (slab_muts s + M)) B m'"
    using k(1) add_mset_commute [of "sl_buffer s" old] by (simp add: slab_muts_def ac_simps)
  have sl: "slab_ok m' s" using assms(2-5) preserves_room [OF p0] by (auto simp: slab_ok_shelf shelf_ok_def)
  have "bm_within m (sl_buffer s)" using ok by (simp add: arena_ok_def)
  then have "take (sl_valid s) (bm_deref m' (sl_buffer s)) = ?v" using k(2) lv assms(3,5) by (simp add: overwrite_def)
  then have "slab_valid m' s = Some ?v" using slab_valid_Some [OF sl] by simp
  then show ?thesis using that w o sl p by blast
qed

lemma slab_ensure_capacity_ok:
  assumes ok: "arena_ok (slab_muts s + M) B m" and sl: "slab_ok m s" and cap: "sl_valid s + capacity \<le> 2 ^ 63"
  shows "\<exists>s' m' e. slab_ensure_capacity capacity s m = Some (s', m') \<and> arena_ok (slab_muts s' + M) B m' \<and> slab_ok m' s'
    \<and> slab_valid m' s' = slab_valid m s \<and> slab_empty m' s' = Some e \<and> capacity \<le> length e \<and> preserves M B m m'
    \<and> sl_valid s' = sl_valid s"
proof (cases "length (drop (sl_valid s) (bm_deref m (sl_buffer s))) < capacity")
  case False
  then have "slab_ensure_capacity capacity s m = Some (s, m)" by (simp add: slab_ensure_capacity_def slab_empty_Some [OF sl])
  then show ?thesis using ok sl False slab_empty_Some [OF sl] by auto
next
  case True
  have sh: "shelf_ok m s" and v: "sl_valid s \<le> bm_len (sl_buffer s)" and room: "bm_room (sl_shift s) m (sl_buffer s)"
    using sl by (simp_all add: slab_ok_shelf)
  obtain inc s1 m1 where 1: "slab_grow capacity False s m = Some (inc, s1, m1)" "arena_ok (slab_muts s1 + M) B m1" "shelf_ok m1 s1"
      "ar_mem m1 = ar_mem m" "same_core s s1" "sl_valid s + capacity \<le> 2 ^ sl_shift s1" "\<not> inc \<longrightarrow> sl_shift s1 = sl_shift s"
    using slab_grow_ok [OF ok sh cap, of False] by blast
  obtain s2 m2 where 2: "slab_reclaim_all s1 m1 = (s2, m2)" by (cases "slab_reclaim_all s1 m1")
  note r2 = slab_reclaim_all_ok [OF 1(2,3) 2]
  obtain b s3 m3 where 3: "slab_new_buffer s2 m2 = (b, s3, m3)" by (cases "slab_new_buffer s2 m2")
  have r2': "arena_ok (slab_muts s2 + M) B m2" "shelf_ok m2 s2" using r2 by simp_all
  note r3 = slab_new_buffer_ok [OF r2' 3]
  define old where "old = sl_buffer s3"
  have old: "old = sl_buffer s" using 1(5) r2 r3(4) by (simp add: old_def same_core_def)
  define s3' where "s3' = s3\<lparr>sl_buffer := b\<rparr>"
  obtain s4 m4 where 4: "slab_truncate s3' m3 = (s4, m4)" by (cases "slab_truncate s3' m3")
  have o3: "arena_ok (slab_muts s3' + add_mset old M) B m3" using r3(1) by (simp add: slab_muts_def s3'_def old_def ac_simps)
  have h3: "shelf_ok m3 s3'" using r3(2) by (simp add: shelf_ok_def s3'_def)
  note r4 = slab_truncate_ok [OF o3 h3 4]
  have m23: "preserves (add_mset old M) B m m4"
  proof -
    have "preserves (add_mset old M) B m2 m3"
      by (rule preserves_mono [OF r3(3)]) (use r2 1(5) old in \<open>auto simp: slab_muts_def same_core_def\<close>)
    moreover have "ar_mem m2 = ar_mem m" "ar_mem m4 = ar_mem m3" using r2 1(4) r4 by simp_all
    ultimately show ?thesis using preserves_mem preserves_trans by metis
  qed
  have dold: "bm_deref m4 old = bm_deref m (sl_buffer s)" using m23 old by (simp add: preserves_def)
  have core: "sl_valid s4 = sl_valid s" "sl_buffer s4 = b" "sl_shift s4 = sl_shift s1" "sl_new_bytes s4 = sl_new_bytes s"
    using r4 r3(4,5) r2 1(5) by (simp_all add: s3'_def same_core_def)
  have o4: "arena_ok (add_mset old (slab_muts s4 + M)) B m4" "shelf_ok m4 s4" using r4 by (simp_all add: ac_simps)
  have b4: "bm_len (sl_buffer s4) = 2 ^ sl_shift s4" "bm_room (sl_shift s4) m4 (sl_buffer s4)"
    using r3(6,7) r2 r4 core by (simp_all add: bm_room_def)
  have v4: "sl_valid s4 \<le> 2 ^ sl_shift s4" "sl_valid s4 \<le> bm_len old" using 1(6) core v old by simp_all
  obtain m5 where 5: "bm_deref_mut 0 (take (sl_valid s4) (bm_deref m4 old)) (sl_buffer s4) m4 = Some m5"
      "arena_ok (add_mset old (slab_muts s4 + M)) B m5" "slab_ok m5 s4"
      "slab_valid m5 s4 = Some (take (sl_valid s4) (bm_deref m4 old))" "preserves (add_mset old M) B m4 m5"
    by (rule slab_copy_ok [OF o4 b4 v4])
  have p: "preserves M B m m5" using preserves_mono [OF preserves_trans [OF m23 5(5)], of M B] by simp
  have val: "slab_valid m5 s4 = slab_valid m s" using 5(4) dold core slab_valid_Some [OF sl] by simp
  define s5 where "s5 = (if inc then s4 else s4\<lparr>sl_in_progress := sl_in_progress s4 @ [Some old]\<rparr>)"
  define m6 where "m6 = (if inc then bm_drop old m5 else m5)"
  have run: "slab_ensure_capacity capacity s m = Some (s5, m6)"
    using True 1(1) 2 3 4 5(1) v4(2) slab_empty_Some [OF sl]
    by (simp add: slab_ensure_capacity_def old_def [symmetric] s3'_def [symmetric] s5_def m6_def)
  have mem6: "ar_mem m6 = ar_mem m5" by (simp add: m6_def)
  have o6: "arena_ok (slab_muts s5 + M) B m6"
    using 5(2) bm_drop_ok [of old "slab_muts s4 + M" B m5] add_mset_commute [of old "sl_buffer s4"]
    by (simp add: s5_def m6_def slab_muts_def)
  have "bm_room (sl_shift s) m5 old" if "\<not> inc"
    using preserves_room [OF preserves_trans [OF m23 5(5)]] room old by simp
  then have sl6: "slab_ok m6 s5" using 5(3) 1(7) core
    by (auto simp: s5_def slab_ok_def slab_muts_def bm_room_def mem6)
  have v6: "slab_valid m6 s5 = slab_valid m s" unfolding val [symmetric] by (simp add: s5_def slab_valid_def bm_deref_def mem6)
  have "bm_within m6 (sl_buffer s5)" by (rule buffer_within [OF o6])
  then have "length (drop (sl_valid s5) (bm_deref m6 (sl_buffer s5))) = 2 ^ sl_shift s1 - sl_valid s"
    using bm_len_deref b4(1) core by (simp add: s5_def)
  then have e6: "capacity \<le> length (drop (sl_valid s5) (bm_deref m6 (sl_buffer s5)))" using 1(6) by simp
  have p6: "preserves M B m m6" using preserves_trans [OF p preserves_mem [OF mem6]] .
  have "sl_valid s5 = sl_valid s" using core by (simp add: s5_def)
  with run o6 sl6 v6 e6 p6 slab_empty_Some [OF sl6] show ?thesis by blast
qed

lemma slab_new_ok:
  assumes "arena_ok M B m" and "slab_new shift rf m = (s, m')" and "refill_ok rf" and "shift < 64"
  shows "arena_ok (slab_muts s + M) B m'" "slab_ok m' s" "slab_valid m' s = Some []" "preserves M B m m'" "sl_valid s = 0"
proof -
  obtain b where f: "bm_from (rf_logic rf (2 ^ shift)) m = (b, m')"
    and s: "s = \<lparr>sl_buffer = b, sl_in_progress = [], sl_stash = [], sl_shift = shift, sl_valid = 0, sl_new_bytes = rf\<rparr>"
    using assms(2) by (auto simp: slab_new_def split: prod.splits)
  have b: "bm_sequestered b = length (ar_mem m)" "ar_mem m' = ar_mem m @ [rf_logic rf (2 ^ shift)]" using f by (auto simp: bm_from_def)
  show "arena_ok (slab_muts s + M) B m'" using bm_from_ok(1) [OF assms(1) f] by (simp add: s slab_muts_def)
  show "slab_ok m' s" using assms(3,4) b by (simp add: slab_ok_def s slab_muts_def bm_room_def refill_ok_def)
  show "slab_valid m' s = Some []" "sl_valid s = 0" by (simp_all add: slab_valid_def s)
  show "preserves M B m m'" by (rule bm_from_preserves [OF assms(1) f])
qed

lemma slab_extract_ok:
  assumes ok: "arena_ok (slab_muts s + M) B m" and sl: "slab_ok m s" and v: "slab_valid m s = Some v" and n: "n \<le> length v"
  obtains r s' m' where "slab_extract n s m = Some (r, s', m')" and "arena_ok (slab_muts s' + M) (add_mset r B) m'"
    and "slab_ok m' s'" and "by_deref m' r = take n v" and "slab_valid m' s' = Some (drop n v)" and "ar_mem m' = ar_mem m"
    and "sl_valid s' = sl_valid s - n"
proof -
  have w: "bm_within m (sl_buffer s)" by (rule buffer_within [OF ok])
  have val: "sl_valid s \<le> bm_len (sl_buffer s)" using sl by (simp add: slab_ok_def)
  have vv: "v = take (sl_valid s) (bm_deref m (sl_buffer s))" using v slab_valid_Some [OF sl] by simp
  then have lv: "length v = sl_valid s" using bm_len_deref [OF w] val by simp
  obtain r b m' where x: "bm_extract_to n (sl_buffer s) m = Some (r, b, m')" using n lv val by (simp add: bm_extract_to_def)
  define s' where "s' = s\<lparr>sl_valid := sl_valid s - n, sl_buffer := b\<rparr>"
  have run: "slab_extract n s m = Some (r, s', m')" using n lv x by (simp add: slab_extract_def s'_def)
  have o0: "arena_ok (add_mset (sl_buffer s) (mset (somes (sl_in_progress s)) + mset (sl_stash s) + M)) B m"
    using ok by (simp add: slab_muts_def)
  have o: "arena_ok (slab_muts s' + M) (add_mset r B) m'" using bm_extract_to_ok [OF o0 x] by (simp add: slab_muts_def s'_def)
  note d = bm_extract_to_deref [OF x]
  have b: "bm_len b = bm_len (sl_buffer s) - n" "bm_sequestered b = bm_sequestered (sl_buffer s)"
    using x by (auto simp: bm_extract_to_def split: if_splits)
  have sl': "slab_ok m' s'" using sl b val by (auto simp: slab_ok_def s'_def slab_muts_def bm_room_def d(3))
  have "by_deref m' r = take n v" using d(1) vv n lv by (simp add: min_def)
  moreover have "slab_valid m' s' = Some (drop n v)"
    using slab_valid_Some [OF sl'] d(2) vv by (simp add: s'_def drop_take)
  ultimately show ?thesis using that run o sl' d(3) by (simp add: s'_def)
qed

text \<open>
  C32: \<open>ensure_capacity\<close> returns for every request up to half the address space, with room for the
  requested number of bytes and the valid bytes as they were.  It neither writes to nor invalidates a
  slice handed out earlier: a retired buffer is reused only once no slice of it is left.
\<close>
theorem slab_capacity_correct:
  assumes "arena_ok (slab_muts s + M) B m" and "slab_ok m s" and "sl_valid s + capacity \<le> 2 ^ 63"
  shows "\<exists>s' m' v e. slab_ensure_capacity capacity s m = Some (s', m')
    \<and> slab_valid m s = Some v \<and> slab_valid m' s' = Some v \<and> slab_empty m' s' = Some e \<and> capacity \<le> length e
    \<and> arena_ok (slab_muts s' + M) B m' \<and> slab_ok m' s'
    \<and> (\<forall>b \<in># M. bm_deref m' b = bm_deref m b) \<and> (\<forall>c \<in># B. by_deref m' c = by_deref m c)"
  using slab_ensure_capacity_ok [OF assms] slab_valid_Some [OF assms(2)] by (auto simp: preserves_def)

definition example_refill :: bytes_refill where
  "example_refill = \<lparr>rf_logic = (\<lambda>n. replicate n 0), rf_limit = Some 1\<rparr>"

definition example_slab :: "bytes_slab \<times> arena" where
  "example_slab = slab_new 1 example_refill arena_empty"

lemma example_slab_ok:
  "arena_ok (slab_muts (fst example_slab) + {#}) {#} (snd example_slab)" "slab_ok (snd example_slab) (fst example_slab)"
  using slab_new_ok(1,2) [of "{#}" "{#}" arena_empty 1 example_refill "fst example_slab" "snd example_slab"]
  by (simp_all add: example_slab_def example_refill_def refill_ok_def arena_ok_def arena_empty_def exclusive_def)

theorem slab_capacity_correct_witness:
  "\<exists>s' m' e. slab_ensure_capacity 3 (fst example_slab) (snd example_slab) = Some (s', m')
     \<and> slab_valid m' s' = Some [] \<and> slab_empty m' s' = Some e \<and> 3 \<le> length e"
proof -
  have "sl_valid (fst example_slab) = 0" "slab_valid (snd example_slab) (fst example_slab) = Some []"
    by (simp_all add: example_slab_def slab_new_def slab_valid_def split: prod.splits)
  with slab_capacity_correct [OF example_slab_ok, of 3] show ?thesis by auto
qed

end
