(* ===== verification/Message_Header.thy ===== *)
theory Message_Header
  imports Shared_Bytes
begin

text \<open>
  Framing of messages: \<open>MessageHeader\<close> of \<open>communication/src/networking/mod.rs\<close>.

  Fields of type \<open>usize\<close> are 64 bit words, and \<open>required_bytes\<close> is the wrapping sum of a release
  build.  The \<open>byteorder\<close> crate is a parameter, a pair of functions between a \<open>u64\<close> and its eight
  bytes; \<open>byte_order_ok\<close> is what its documentation promises.
\<close>

unbundle bit_operations_syntax

type_synonym usize = "64 word"

section \<open>Headers\<close>

record byte_order =
  write_u64 :: "usize \<Rightarrow> byte list"
  read_u64 :: "byte list \<Rightarrow> usize"

definition byte_order_ok :: "byte_order \<Rightarrow> bool" where
  "byte_order_ok bo \<longleftrightarrow> (\<forall>w. length (write_u64 bo w) = 8 \<and> read_u64 bo (write_u64 bo w) = w)"

record message_header =
  mh_channel :: usize
  mh_source :: usize
  mh_target_lower :: usize
  mh_target_upper :: usize
  mh_length :: usize
  mh_seqno :: usize

definition mh_fields :: nat where
  "mh_fields = 6"

definition header_bytes :: "message_header \<Rightarrow> usize" where
  "header_bytes h = of_nat (8 * mh_fields)"

definition required_bytes :: "message_header \<Rightarrow> usize" where
  "required_bytes h = header_bytes h + mh_length h"

text \<open>The \<open>k\<close>-th \<open>u64\<close> of a slice.\<close>

definition nth_u64 :: "byte_order \<Rightarrow> byte list \<Rightarrow> nat \<Rightarrow> usize" where
  "nth_u64 bo bs k = read_u64 bo (take 8 (drop (8 * k) bs))"

definition mh_try_read :: "byte_order \<Rightarrow> byte list \<Rightarrow> message_header option" where
  "mh_try_read bo bs =
     (if length bs < 8 * mh_fields then None
      else let header = \<lparr>mh_channel = nth_u64 bo bs 0, mh_source = nth_u64 bo bs 1, mh_target_lower = nth_u64 bo bs 2,
                         mh_target_upper = nth_u64 bo bs 3, mh_length = nth_u64 bo bs 4, mh_seqno = nth_u64 bo bs 5\<rparr>
           in if unat (required_bytes header) \<le> length bs then Some header else None)"

text \<open>The channel and the bounds of the range of targets.\<close>

definition mh_try_read_routing_info :: "byte_order \<Rightarrow> byte list \<Rightarrow> (usize \<times> usize \<times> usize) option" where
  "mh_try_read_routing_info bo bs =
     (if length bs < 32 then None else Some (nth_u64 bo bs 0, nth_u64 bo bs 2, nth_u64 bo bs 3))"

definition mh_write_to :: "byte_order \<Rightarrow> message_header \<Rightarrow> byte list" where
  "mh_write_to bo h =
     write_u64 bo (mh_channel h) @ write_u64 bo (mh_source h) @ write_u64 bo (mh_target_lower h)
     @ write_u64 bo (mh_target_upper h) @ write_u64 bo (mh_length h) @ write_u64 bo (mh_seqno h)"

section \<open>Reading back what was written\<close>

lemma length_mh_write_to: "byte_order_ok bo \<Longrightarrow> length (mh_write_to bo h) = 48"
  by (simp add: mh_write_to_def byte_order_ok_def)

lemma nth_u64_written:
  assumes "byte_order_ok bo"
  shows "nth_u64 bo (mh_write_to bo h @ rest) 0 = mh_channel h" "nth_u64 bo (mh_write_to bo h @ rest) 1 = mh_source h"
    "nth_u64 bo (mh_write_to bo h @ rest) 2 = mh_target_lower h" "nth_u64 bo (mh_write_to bo h @ rest) 3 = mh_target_upper h"
    "nth_u64 bo (mh_write_to bo h @ rest) 4 = mh_length h" "nth_u64 bo (mh_write_to bo h @ rest) 5 = mh_seqno h"
  using assms by (simp_all add: nth_u64_def mh_write_to_def byte_order_ok_def)

lemma required_bytes_unat:
  assumes "unat (mh_length h) < 2 ^ 64 - 48"
  shows "unat (required_bytes h) = 48 + unat (mh_length h)"
proof -
  have "unat (48 :: usize) = 48" by simp
  then have "unat (48 + mh_length h) = 48 + unat (mh_length h)"
    using assms by (subst unat_add_lem [THEN iffD1]) simp_all
  then show ?thesis by (simp add: required_bytes_def header_bytes_def mh_fields_def)
qed

lemma try_read_frame:
  assumes "byte_order_ok bo" and "unat (mh_length h) < 2 ^ 64 - 48"
  shows "mh_try_read bo (mh_write_to bo h @ rest) = (if unat (mh_length h) \<le> length rest then Some h else None)"
proof -
  have l: "\<not> length (mh_write_to bo h @ rest) < 8 * mh_fields" using length_mh_write_to [OF assms(1)] by (simp add: mh_fields_def)
  have e: "\<lparr>mh_channel = mh_channel h, mh_source = mh_source h, mh_target_lower = mh_target_lower h,
      mh_target_upper = mh_target_upper h, mh_length = mh_length h, mh_seqno = mh_seqno h\<rparr> = h" by simp
  show ?thesis
    using l required_bytes_unat [OF assms(2)] length_mh_write_to [OF assms(1), of h]
    unfolding mh_try_read_def nth_u64_written [OF assms(1)] Let_def e by simp
qed

lemma try_read_short: "length bs < 48 \<Longrightarrow> mh_try_read bo bs = None"
  by (simp add: mh_try_read_def mh_fields_def)

lemma try_read_incomplete:
  assumes "byte_order_ok bo" and "unat (mh_length h) = length payload" and "length payload < 2 ^ 64 - 48"
    and n: "n < length (mh_write_to bo h @ payload)"
  shows "mh_try_read bo (take n (mh_write_to bo h @ payload)) = None"
proof (cases "n < 48")
  case True
  then show ?thesis by (intro try_read_short) simp
next
  case False
  have l: "unat (mh_length h) < 2 ^ 64 - 48" using assms(2,3) by simp
  from False have "take n (mh_write_to bo h @ payload) = mh_write_to bo h @ take (n - 48) payload"
    using length_mh_write_to [OF assms(1), of h] by simp
  then show ?thesis using try_read_frame [OF assms(1) l] n length_mh_write_to [OF assms(1), of h] assms(2) by simp
qed

text \<open>
  A header followed by its payload, however the stream continues, is read back as it was written, and
  so is the routing information.  While the header or the payload is incomplete, nothing is read.
\<close>
theorem header_roundtrip:
  assumes "byte_order_ok bo" and "unat (mh_length h) = length payload" and "length payload < 2 ^ 64 - 48"
  shows "mh_try_read bo (mh_write_to bo h @ payload @ rest) = Some h
    \<and> mh_try_read_routing_info bo (mh_write_to bo h @ payload @ rest) = Some (mh_channel h, mh_target_lower h, mh_target_upper h)
    \<and> (\<forall>n < length (mh_write_to bo h @ payload). mh_try_read bo (take n (mh_write_to bo h @ payload)) = None)"
proof (intro conjI allI impI)
  have l: "unat (mh_length h) < 2 ^ 64 - 48" using assms(2,3) by simp
  show "mh_try_read bo (mh_write_to bo h @ payload @ rest) = Some h" using try_read_frame [OF assms(1) l] assms(2) by simp
  show "mh_try_read_routing_info bo (mh_write_to bo h @ payload @ rest) = Some (mh_channel h, mh_target_lower h, mh_target_upper h)"
    using nth_u64_written [OF assms(1), of h "payload @ rest"] length_mh_write_to [OF assms(1), of h]
    by (simp add: mh_try_read_routing_info_def)
  fix n assume n: "n < length (mh_write_to bo h @ payload)"
  show "mh_try_read bo (take n (mh_write_to bo h @ payload)) = None" by (rule try_read_incomplete [OF assms n])
qed

text \<open>The big endian order, which the code selects.\<close>

definition be_write :: "usize \<Rightarrow> byte list" where
  "be_write w = map (\<lambda>k. ucast (drop_bit (8 * k) w)) [7, 6, 5, 4, 3, 2, 1, 0]"

definition be_read :: "byte list \<Rightarrow> usize" where
  "be_read bs = foldl (\<lambda>a b. push_bit 8 a OR ucast b) 0 bs"

definition big_endian :: byte_order where
  "big_endian = \<lparr>write_u64 = be_write, read_u64 = be_read\<rparr>"

lemma be_read_write: "be_read (be_write w) = w"
proof (rule bit_word_eqI)
  fix n assume "n < LENGTH(64)"
  then have n: "n < 64" by simp
  define q r where "q = n div 8" and "r = n mod 8"
  then have r: "r < 8" and q: "q < 8" and nqr: "n = 8 * q + r" using n by auto
  have "q = 0 \<or> q = 1 \<or> q = 2 \<or> q = 3 \<or> q = 4 \<or> q = 5 \<or> q = 6 \<or> q = 7" using q by arith
  then show "bit (be_read (be_write w)) n \<longleftrightarrow> bit w n"
    using r unfolding nqr by (elim disjE) (simp_all add: be_read_def be_write_def bit_simps)
qed

lemma big_endian_ok: "byte_order_ok big_endian"
  by (simp add: byte_order_ok_def big_endian_def be_read_write) (simp add: be_write_def)

theorem header_roundtrip_witness:
  "mh_try_read big_endian (mh_write_to big_endian \<lparr>mh_channel = 3, mh_source = 0, mh_target_lower = 1, mh_target_upper = 2, mh_length = 2, mh_seqno = 9\<rparr> @ [7, 8] @ [1])
     = Some \<lparr>mh_channel = 3, mh_source = 0, mh_target_lower = 1, mh_target_upper = 2, mh_length = 2, mh_seqno = 9\<rparr>"
proof -
  let ?h = "\<lparr>mh_channel = 3, mh_source = 0, mh_target_lower = 1, mh_target_upper = 2, mh_length = 2, mh_seqno = 9\<rparr>"
  have "unat (mh_length ?h) = length [7, 8 :: byte]" "length [7, 8 :: byte] < 2 ^ 64 - 48" by simp_all
  from header_roundtrip [OF big_endian_ok this, of "[1]"] show ?thesis by blast
qed

end
