(* ===== verification/Byte_Exchange.thy ===== *)
theory Byte_Exchange
  imports Byte_Slab Message_Header
begin

text \<open>
  Moving serialized messages between threads
  (\<open>communication/src/allocator/serializing_allocators/bytes_exchange.rs\<close> and \<open>push_pull.rs\<close>).

  A \<open>MergeQueue\<close> is the shared queue itself with the number of handles to it; operations on it are
  atomic, as the code performs them under its lock.  \<open>mq_buzzed\<close> is the token that \<open>buzz\<close> leaves for
  the thread behind the buzzer.  A \<open>SendEndpoint\<close> writes into a slab and hands slices to its queue,
  which the receiver drains.  The serialization of a type, \<open>Bytesable\<close>, is a parameter.
\<close>

section \<open>Queues of bytes\<close>

record merge_queue =
  mq_queue :: "bytes list"
  mq_buzzed :: bool
  mq_panic :: bool
  mq_handles :: nat

definition mq_new :: merge_queue where
  "mq_new = \<lparr>mq_queue = [], mq_buzzed = False, mq_panic = False, mq_handles = 1\<rparr>"

definition mq_clone :: "merge_queue \<Rightarrow> merge_queue" where
  "mq_clone q = q\<lparr>mq_handles := mq_handles q + 1\<rparr>"

definition mq_is_complete :: "merge_queue \<Rightarrow> bool option" where
  "mq_is_complete q = (if mq_panic q then None else Some (mq_handles q = 1 \<and> mq_queue q = []))"

text \<open>The loop over the bytes, with the tail kept aside.\<close>

fun mq_merge :: "bytes \<Rightarrow> bytes list \<Rightarrow> bytes list \<Rightarrow> arena \<Rightarrow> bytes list \<times> arena" where
  "mq_merge tail queue [] m = (queue @ [tail], m)"
| "mq_merge tail queue (more_bytes # iterator) m =
     (case by_try_merge tail more_bytes m of
        (Inl more_bytes, tail, m) \<Rightarrow> mq_merge more_bytes (queue @ [tail]) iterator m
      | (Inr _, tail, m) \<Rightarrow> mq_merge tail queue iterator m)"

text \<open>The merge of the first bytes with the tail of the queue is a round of the same loop.\<close>

definition mq_extend :: "bytes list \<Rightarrow> merge_queue \<Rightarrow> arena \<Rightarrow> (merge_queue \<times> arena) option" where
  "mq_extend iterator q m =
     (if mq_panic q then None
      else case iterator of
        [] \<Rightarrow> Some (q, m)
      | bytes # iterator \<Rightarrow>
          Some (if mq_queue q = []
                then (let (queue, m) = mq_merge bytes [] iterator m in (q\<lparr>mq_queue := queue, mq_buzzed := True\<rparr>, m))
                else (let (queue, m) = mq_merge (last (mq_queue q)) (butlast (mq_queue q)) (bytes # iterator) m
                      in (q\<lparr>mq_queue := queue\<rparr>, m))))"

definition mq_drain_into :: "merge_queue \<Rightarrow> bytes list \<Rightarrow> (merge_queue \<times> bytes list) option" where
  "mq_drain_into q vec = (if mq_panic q then None else Some (q\<lparr>mq_queue := []\<rparr>, vec @ mq_queue q))"

text \<open>Dropping a handle; the last one releases the bytes in the queue.\<close>

definition by_drop_all :: "bytes list \<Rightarrow> arena \<Rightarrow> arena" where
  "by_drop_all bs m = fold by_drop bs m"

definition mq_drop :: "bool \<Rightarrow> merge_queue \<Rightarrow> arena \<Rightarrow> (merge_queue \<times> arena) option" where
  "mq_drop panicking q m =
     (if \<not> panicking \<and> mq_panic q then None
      else Some (let q = q\<lparr>mq_panic := panicking, mq_handles := mq_handles q - 1, mq_buzzed := True\<rparr>
                 in if mq_handles q = 0 then (q\<lparr>mq_queue := []\<rparr>, by_drop_all (mq_queue q) m) else (q, m)))"

section \<open>Endpoints\<close>

record send_endpoint =
  se_send :: merge_queue
  se_buffer :: bytes_slab

definition se_send_buffer :: "send_endpoint \<Rightarrow> arena \<Rightarrow> (send_endpoint \<times> arena) option" where
  "se_send_buffer e m =
     do { v \<leftarrow> slab_valid m (se_buffer e);
          if length v > 0 then
            do { (bytes, s, m) \<leftarrow> slab_extract (length v) (se_buffer e) m;
                 (q, m) \<leftarrow> mq_extend [bytes] (se_send e) m;
                 Some (\<lparr>se_send = q, se_buffer = s\<rparr>, m) }
          else Some (e, m) }"

definition se_new :: "merge_queue \<Rightarrow> bytes_refill \<Rightarrow> arena \<Rightarrow> send_endpoint \<times> arena" where
  "se_new queue refill m = (let (s, m) = slab_new 20 refill m in (\<lparr>se_send = queue, se_buffer = s\<rparr>, m))"

definition se_make_valid :: "nat \<Rightarrow> send_endpoint \<Rightarrow> arena \<Rightarrow> (send_endpoint \<times> arena) option" where
  "se_make_valid n e m = se_send_buffer (e\<lparr>se_buffer := slab_make_valid n (se_buffer e)\<rparr>) m"

definition se_reserve :: "nat \<Rightarrow> send_endpoint \<Rightarrow> arena \<Rightarrow> (send_endpoint \<times> arena) option" where
  "se_reserve capacity e m =
     do { room \<leftarrow> slab_empty m (se_buffer e);
          (e, m) \<leftarrow> (if length room < capacity then
                      do { (e, m) \<leftarrow> se_send_buffer e m;
                           (s, m) \<leftarrow> slab_ensure_capacity capacity (se_buffer e) m;
                           Some (e\<lparr>se_buffer := s\<rparr>, m) }
                    else Some (e, m));
          room \<leftarrow> slab_empty m (se_buffer e);
          if capacity \<le> length room then Some (e, m) else None }"

definition se_publish :: "send_endpoint \<Rightarrow> arena \<Rightarrow> (send_endpoint \<times> arena) option" where
  "se_publish e m = se_send_buffer e m"

section \<open>Pushing and pulling typed messages\<close>

record 'a bytesable =
  length_in_bytes :: "'a \<Rightarrow> nat"
  into_bytes :: "'a \<Rightarrow> byte list"
  from_bytes :: "byte list \<Rightarrow> 'a"

definition bytesable_ok :: "'a bytesable \<Rightarrow> bool" where
  "bytesable_ok bz \<longleftrightarrow> (\<forall>x. length (into_bytes bz x) = length_in_bytes bz x \<and> from_bytes bz (into_bytes bz x) = x)"

record pusher =
  pu_header :: message_header

text \<open>Writing at the front of the empty region of the slab.\<close>

definition slab_write :: "nat \<Rightarrow> byte list \<Rightarrow> bytes_slab \<Rightarrow> arena \<Rightarrow> arena option" where
  "slab_write off bs s m = bm_deref_mut (sl_valid s + off) bs (sl_buffer s) m"

definition pusher_push :: "byte_order \<Rightarrow> 'a bytesable \<Rightarrow> 'a option \<Rightarrow> pusher \<Rightarrow> send_endpoint \<Rightarrow> arena
    \<Rightarrow> (pusher \<times> send_endpoint \<times> arena) option" where
  "pusher_push bo bz element p e m =
     (case element of
        None \<Rightarrow> Some (p, e, m)
      | Some x \<Rightarrow>
          (let header = (pu_header p)\<lparr>mh_length := of_nat (length_in_bytes bz x)\<rparr>;
               p = p\<lparr>pu_header := (pu_header p)\<lparr>mh_seqno := mh_seqno (pu_header p) + 1\<rparr>\<rparr>
           in if mh_length header = 0 then None
              else do { (e, m) \<leftarrow> se_reserve (unat (required_bytes header)) e m;
                        m \<leftarrow> slab_write 0 (mh_write_to bo header) (se_buffer e) m;
                        m \<leftarrow> slab_write (length (mh_write_to bo header)) (into_bytes bz x) (se_buffer e) m;
                        (e, m) \<leftarrow> se_make_valid (unat (required_bytes header)) e m;
                        Some (p, e, m) }))"

text \<open>\<open>T::from_bytes\<close> takes the slice, which is released with the value made from it.\<close>

definition puller_pull :: "'a bytesable \<Rightarrow> bytes list \<Rightarrow> arena \<Rightarrow> 'a option \<times> bytes list \<times> arena" where
  "puller_pull bz receiver m =
     (case receiver of
        [] \<Rightarrow> (None, [], m)
      | bytes # receiver \<Rightarrow> (Some (from_bytes bz (by_deref m bytes)), receiver, by_drop bytes m))"

definition puller_inner_pull :: "'a bytesable \<Rightarrow> 'a list \<Rightarrow> bytes list \<Rightarrow> arena \<Rightarrow> 'a option \<times> 'a list \<times> bytes list \<times> arena" where
  "puller_inner_pull bz inner receiver m =
     (case inner of
        x # inner \<Rightarrow> (Some x, inner, receiver, m)
      | [] \<Rightarrow> (let (r, receiver, m) = puller_pull bz receiver m in (r, [], receiver, m)))"

section \<open>Queues keep the bytes and the boundaries of messages\<close>

text \<open>The contents of a list of slices, cut into whole frames.\<close>

definition carries :: "arena \<Rightarrow> bytes list \<Rightarrow> byte list list \<Rightarrow> bool" where
  "carries m bs fs \<longleftrightarrow> (\<exists>fss. map (by_deref m) bs = map concat fss \<and> concat fss = fs)"

lemma carries_Nil [simp]: "carries m [] fs \<longleftrightarrow> fs = []"
  by (auto simp: carries_def)

lemma carries_append: "carries m bs fs \<Longrightarrow> carries m cs gs \<Longrightarrow> carries m (bs @ cs) (fs @ gs)"
  unfolding carries_def by (metis concat_append map_append)

lemma carries_single: "by_deref m b = concat fs \<Longrightarrow> carries m [b] fs"
  unfolding carries_def by (intro exI [of _ "[fs]"]) simp

lemma carries_cong: "(\<And>b. b \<in> set bs \<Longrightarrow> by_deref m' b = by_deref m b) \<Longrightarrow> carries m' bs fs = carries m bs fs"
  unfolding carries_def by (metis (no_types, lifting) map_cong)

lemma carries_preserves: "preserves M B m m' \<Longrightarrow> mset bs \<subseteq># B \<Longrightarrow> carries m' bs fs = carries m bs fs"
  by (rule carries_cong) (auto simp: preserves_def dest!: mset_subset_eqD)

lemma carries_merge:
  assumes "carries m (bs @ [c, d] @ cs) fs" and "by_deref m b = by_deref m c @ by_deref m d"
  shows "carries m (bs @ [b] @ cs) fs"
proof -
  obtain fss where f: "map (by_deref m) (bs @ [c, d] @ cs) = map concat fss" "concat fss = fs" using assms(1) by (auto simp: carries_def)
  then obtain us x y vs where u: "fss = us @ [x, y] @ vs" "map (by_deref m) bs = map concat us"
      "by_deref m c = concat x" "by_deref m d = concat y" "map (by_deref m) cs = map concat vs"
    by (auto simp: map_eq_append_conv append_eq_map_conv Cons_eq_map_conv map_eq_Cons_conv)
  then show ?thesis unfolding carries_def using f(2) assms(2) by (intro exI [of _ "us @ [x @ y] @ vs"]) simp
qed

lemma mq_merge_ok:
  assumes "arena_ok M (mset (queue @ tail # it) + B) m" and "carries m (queue @ tail # it) fs"
    and "mq_merge tail queue it m = (q', m')"
  shows "arena_ok M (mset q' + B) m' \<and> ar_mem m' = ar_mem m \<and> carries m q' fs \<and> q' \<noteq> []"
  using assms
proof (induction tail queue it m rule: mq_merge.induct)
  case (1 tail queue m)
  then show ?case by auto
next
  case (2 tail queue x it m)
  obtain r t n where t: "by_try_merge tail x m = (r, t, n)" by (cases "by_try_merge tail x m")
  have o: "arena_ok M (add_mset tail (add_mset x (mset queue + mset it + B))) m" using 2(3) by (simp add: ac_simps)
  note k = by_try_merge_ok [OF o t] and d = by_try_merge_deref [OF t]
  have dm: "by_deref n b = by_deref m b" for b by (simp add: by_deref_def d(2))
  show ?case
  proof (cases r)
    case (Inl y)
    then have e: "y = x" "t = tail" "n = m" using t by (auto simp: by_try_merge_def split: if_splits)
    have "mq_merge x (queue @ [tail]) it m = (q', m')" using 2(5) t Inl e by simp
    with 2(1) [OF t [symmetric] Inl HOL.refl] 2(3,4) show ?thesis by (simp add: e)
  next
    case (Inr u)
    have rec: "mq_merge t queue it n = (q', m')" using 2(5) t Inr by simp
    have "carries m (queue @ [t] @ it) fs" by (rule carries_merge [of m queue tail x]) (use 2(4) d(1) Inr dm in simp_all)
    then have c: "carries n (queue @ t # it) fs" using carries_cong [OF dm] by simp
    have "arena_ok M (mset (queue @ t # it) + B) n" using k Inr by (simp add: ac_simps)
    from 2(2) [OF t [symmetric] Inr HOL.refl this c rec] d(2) show ?thesis
      using carries_cong [of q' n m] dm by simp
  qed
qed

lemma mq_extend_ok:
  assumes "arena_ok M (mset (mq_queue q) + mset it + B) m" and "carries m (mq_queue q) fs" and "carries m it gs" and "\<not> mq_panic q"
  obtains q' m' where "mq_extend it q m = Some (q', m')" and "arena_ok M (mset (mq_queue q') + B) m'" and "ar_mem m' = ar_mem m"
    and "carries m (mq_queue q') (fs @ gs)" and "mq_panic q' = mq_panic q" and "mq_handles q' = mq_handles q"
    and "mq_buzzed q' = (mq_buzzed q \<or> mq_queue q = [] \<and> it \<noteq> [])"
proof (cases it)
  case Nil
  then have "mq_extend it q m = Some (q, m)" using assms(4) by (simp add: mq_extend_def)
  then show ?thesis using that assms Nil by simp
next
  case (Cons x xs)
  show ?thesis
  proof (cases "mq_queue q = []")
    case True
    obtain queue m' where r: "mq_merge x [] xs m = (queue, m')" by (cases "mq_merge x [] xs m")
    have run: "mq_extend it q m = Some (q\<lparr>mq_queue := queue, mq_buzzed := True\<rparr>, m')"
      using assms(4) Cons True r by (simp add: mq_extend_def)
    have "arena_ok M (mset ([] @ x # xs) + B) m" "carries m ([] @ x # xs) (fs @ gs)" using assms Cons True by simp_all
    from mq_merge_ok [OF this r] show ?thesis by (intro that [OF run]) (use Cons True in simp_all)
  next
    case False
    let ?t = "last (mq_queue q)" and ?b = "butlast (mq_queue q)"
    obtain queue m' where r: "mq_merge ?t ?b it m = (queue, m')" by (cases "mq_merge ?t ?b it m")
    have run: "mq_extend it q m = Some (q\<lparr>mq_queue := queue\<rparr>, m')"
      using assms(4) Cons False r by (simp add: mq_extend_def)
    have e: "?b @ ?t # it = mq_queue q @ it" using append_butlast_last_id [OF False] by (metis append.assoc append_Cons append_Nil)
    have "arena_ok M (mset (?b @ ?t # it) + B) m" unfolding e using assms(1) by simp
    moreover have "carries m (?b @ ?t # it) (fs @ gs)" unfolding e by (rule carries_append [OF assms(2,3)])
    ultimately show ?thesis using mq_merge_ok [OF _ _ r] by (intro that [OF run]) (use False in simp_all)
  qed
qed

section \<open>Endpoints append whole frames\<close>

definition se_inv :: "bytes_mut multiset \<Rightarrow> bytes multiset \<Rightarrow> send_endpoint \<Rightarrow> arena \<Rightarrow> byte list list \<Rightarrow> bool" where
  "se_inv M B e m fs \<longleftrightarrow> arena_ok (slab_muts (se_buffer e) + M) (mset (mq_queue (se_send e)) + B) m
     \<and> slab_ok m (se_buffer e) \<and> sl_valid (se_buffer e) = 0 \<and> \<not> mq_panic (se_send e) \<and> carries m (mq_queue (se_send e)) fs"

lemma se_send_buffer_idle:
  assumes "slab_ok m (se_buffer e)" and "sl_valid (se_buffer e) = 0"
  shows "se_send_buffer e m = Some (e, m)"
  by (simp add: se_send_buffer_def slab_valid_Some [OF assms(1)] assms(2))

lemma se_new_inv:
  assumes "arena_ok M (mset (mq_queue q) + B) m" and "refill_ok rf" and "\<not> mq_panic q" and "carries m (mq_queue q) fs"
    and "se_new q rf m = (e, m')"
  shows "se_inv M B e m' fs" "preserves M (mset (mq_queue q) + B) m m'"
proof -
  obtain s where s: "slab_new 20 rf m = (s, m')" "e = \<lparr>se_send = q, se_buffer = s\<rparr>"
    using assms(5) by (auto simp: se_new_def split: prod.splits)
  note k = slab_new_ok [OF assms(1) s(1) assms(2)]
  show p: "preserves M (mset (mq_queue q) + B) m m'" using k(4) by simp
  have "carries m' (mq_queue q) fs" using carries_preserves [OF p, of "mq_queue q"] assms(4) by simp
  then show "se_inv M B e m' fs" using k assms(3) by (simp add: se_inv_def s(2))
qed

lemma se_reserve_ok:
  assumes inv: "se_inv M B e m fs" and cap: "capacity \<le> 2 ^ 63"
  obtains e' m' room where "se_reserve capacity e m = Some (e', m')" and "se_inv M B e' m' fs" and "preserves M B m m'"
    and "slab_empty m' (se_buffer e') = Some room" and "capacity \<le> length room" and "se_send e' = se_send e"
proof -
  have ok: "arena_ok (slab_muts (se_buffer e) + M) (mset (mq_queue (se_send e)) + B) m" "slab_ok m (se_buffer e)"
    and v: "sl_valid (se_buffer e) = 0" and np: "\<not> mq_panic (se_send e)" and c: "carries m (mq_queue (se_send e)) fs"
    using inv by (simp_all add: se_inv_def)
  obtain room where em: "slab_empty m (se_buffer e) = Some room" using slab_empty_Some [OF ok(2)] by simp
  note idle = se_send_buffer_idle [OF ok(2) v]
  show ?thesis
  proof (cases "length room < capacity")
    case False
    then have "se_reserve capacity e m = Some (e, m)" by (simp add: se_reserve_def em)
    then show ?thesis using that inv em False by simp
  next
    case True
    obtain s' m' r where k: "slab_ensure_capacity capacity (se_buffer e) m = Some (s', m')"
        "arena_ok (slab_muts s' + M) (mset (mq_queue (se_send e)) + B) m'" "slab_ok m' s'" "slab_empty m' s' = Some r"
        "capacity \<le> length r" "preserves M (mset (mq_queue (se_send e)) + B) m m'" "sl_valid s' = 0"
      using slab_ensure_capacity_ok [OF ok, of capacity] cap v by auto
    have run: "se_reserve capacity e m = Some (e\<lparr>se_buffer := s'\<rparr>, m')" using True by (simp add: se_reserve_def em idle k(1,4,5))
    have "carries m' (mq_queue (se_send e)) fs" using carries_preserves [OF k(6)] c by simp
    then have "se_inv M B (e\<lparr>se_buffer := s'\<rparr>) m' fs" using k np by (simp add: se_inv_def)
    moreover have "preserves M B m m'" using preserves_mono [OF k(6)] by simp
    ultimately show ?thesis using that run k by simp
  qed
qed

lemma drop_overwrite: "v + off \<le> length xs \<Longrightarrow> drop v (overwrite (v + off) ys xs) = overwrite off ys (drop v xs)"
  by (simp add: overwrite_def drop_take add.commute add.left_commute)

lemma take_overwrite: "v + off \<le> length xs \<Longrightarrow> take v (overwrite (v + off) ys xs) = take v xs"
  by (simp add: overwrite_def min_def)

lemma slab_write_ok:
  assumes ok: "arena_ok (slab_muts s + M) B m" and sl: "slab_ok m s" and em: "slab_empty m s = Some room"
    and off: "off + length bs \<le> length room"
  obtains m' where "slab_write off bs s m = Some m'" and "arena_ok (slab_muts s + M) B m'" and "slab_ok m' s"
    and "slab_empty m' s = Some (overwrite off bs room)" and "slab_valid m' s = slab_valid m s" and "preserves M B m m'"
proof -
  let ?R = "mset (somes (sl_in_progress s)) + mset (sl_stash s) + M"
  have o: "arena_ok (add_mset (sl_buffer s) ?R) B m" using ok by (simp add: slab_muts_def)
  have room: "room = drop (sl_valid s) (bm_deref m (sl_buffer s))" using em slab_empty_Some [OF sl] by simp
  have len: "length (bm_deref m (sl_buffer s)) = bm_len (sl_buffer s)" by (rule bm_len_deref [OF buffer_within [OF ok]])
  have v: "sl_valid s \<le> bm_len (sl_buffer s)" using sl by (simp add: slab_ok_def)
  then have l: "sl_valid s + off + length bs \<le> bm_len (sl_buffer s)" using off room len by simp
  then obtain m' where w: "bm_deref_mut (sl_valid s + off) bs (sl_buffer s) m = Some m'" by (simp add: bm_deref_mut_def)
  note k = bm_deref_mut_ok [OF o w] and p = bm_deref_mut_preserves [OF o w]
  have sl': "slab_ok m' s" by (rule slab_ok_preserves [OF p sl])
  have e: "slab_empty m' s = Some (overwrite off bs room)"
    using slab_empty_Some [OF sl'] k(2) drop_overwrite [of "sl_valid s" off "bm_deref m (sl_buffer s)"] l len room by simp
  have vl: "slab_valid m' s = slab_valid m s"
    using slab_valid_Some [OF sl'] slab_valid_Some [OF sl] k(2) take_overwrite [of "sl_valid s" off "bm_deref m (sl_buffer s)"] l len by simp
  have "preserves M B m m'" by (rule preserves_mono [OF p]) simp_all
  then show ?thesis using that w k(1) sl' e vl by (simp add: slab_write_def slab_muts_def)
qed

lemma se_make_valid_ok:
  assumes inv: "se_inv M B e m fs" and em: "slab_empty m (se_buffer e) = Some room" and n: "0 < n" "n \<le> length room"
    and f: "take n room = frame"
  obtains e' m' where "se_make_valid n e m = Some (e', m')" and "se_inv M B e' m' (fs @ [frame])" and "ar_mem m' = ar_mem m"
    and "mq_buzzed (se_send e') = (mq_buzzed (se_send e) \<or> mq_queue (se_send e) = [])"
proof -
  let ?q = "se_send e"
  define s where "s = slab_make_valid n (se_buffer e)"
  have ok: "arena_ok (slab_muts (se_buffer e) + M) (mset (mq_queue ?q) + B) m" and sl0: "slab_ok m (se_buffer e)"
    and v: "sl_valid (se_buffer e) = 0" and np: "\<not> mq_panic ?q" and c: "carries m (mq_queue ?q) fs"
    using inv by (simp_all add: se_inv_def)
  have room: "room = bm_deref m (sl_buffer (se_buffer e))" using em slab_empty_Some [OF sl0] v by simp
  then have "n \<le> bm_len (sl_buffer (se_buffer e))" using n bm_len_deref [OF buffer_within [OF ok]] by simp
  then have sl: "slab_ok m s" using sl0 v by (simp add: slab_ok_def s_def slab_make_valid_def slab_muts_def)
  have o: "arena_ok (slab_muts s + M) (mset (mq_queue ?q) + B) m" using ok by (simp add: s_def slab_make_valid_def slab_muts_def)
  have val: "slab_valid m s = Some frame"
    using slab_valid_Some [OF sl] f room v by (simp add: s_def slab_make_valid_def)
  have fl: "length frame = n" using n(2) f by auto
  obtain r s' m1 where x: "slab_extract n s m = Some (r, s', m1)" "arena_ok (slab_muts s' + M) (add_mset r (mset (mq_queue ?q) + B)) m1"
      "slab_ok m1 s'" "by_deref m1 r = take n frame" "slab_valid m1 s' = Some (drop n frame)" "ar_mem m1 = ar_mem m" "sl_valid s' = sl_valid s - n"
    using slab_extract_ok [OF o sl val, of n] fl by auto
  have sv: "sl_valid s' = 0" using x(7) v by (simp add: s_def slab_make_valid_def)
  have c1: "carries m1 (mq_queue ?q) fs" using c carries_cong [of "mq_queue ?q" m1 m] x(6) by (simp add: by_deref_def)
  have c2: "carries m1 [r] [frame]" by (rule carries_single) (use x(4) fl in simp)
  have o1: "arena_ok (slab_muts s' + M) (mset (mq_queue ?q) + mset [r] + B) m1" using x(2) by (simp add: ac_simps)
  obtain q' m' where y: "mq_extend [r] ?q m1 = Some (q', m')" "arena_ok (slab_muts s' + M) (mset (mq_queue q') + B) m'" "ar_mem m' = ar_mem m1"
      "carries m1 (mq_queue q') (fs @ [frame])" "mq_panic q' = mq_panic ?q" "mq_buzzed q' = (mq_buzzed ?q \<or> mq_queue ?q = [] \<and> [r] \<noteq> [])"
    by (rule mq_extend_ok [OF o1 c1 c2 np])
  have run: "se_make_valid n e m = Some (\<lparr>se_send = q', se_buffer = s'\<rparr>, m')"
    using val fl n(1) x(1) y(1) by (auto simp: se_make_valid_def se_send_buffer_def s_def [symmetric])
  have "slab_ok m' s'" using slab_ok_preserves [OF preserves_mem [OF y(3)] x(3)] .
  moreover have "carries m' (mq_queue q') (fs @ [frame])" using y(4) carries_cong [of "mq_queue q'" m' m1] y(3) by (simp add: by_deref_def)
  ultimately have "se_inv M B \<lparr>se_send = q', se_buffer = s'\<rparr> m' (fs @ [frame])" using y np sv by (simp add: se_inv_def)
  then show ?thesis using that run y x(6) by simp
qed

definition framed_header :: "'a bytesable \<Rightarrow> message_header \<Rightarrow> 'a \<Rightarrow> message_header" where
  "framed_header bz h x = h\<lparr>mh_length := of_nat (length_in_bytes bz x)\<rparr>"

definition frame :: "byte_order \<Rightarrow> 'a bytesable \<Rightarrow> message_header \<Rightarrow> 'a \<Rightarrow> byte list" where
  "frame bo bz h x = mh_write_to bo (framed_header bz h x) @ into_bytes bz x"

text \<open>A message that can be sent: not empty, and small enough for an allocation.\<close>

definition sendable :: "'a bytesable \<Rightarrow> 'a \<Rightarrow> bool" where
  "sendable bz x \<longleftrightarrow> 0 < length_in_bytes bz x \<and> length_in_bytes bz x \<le> 2 ^ 63 - 48"

lemma framed_length:
  assumes "sendable bz x"
  shows "unat (mh_length (framed_header bz h x)) = length_in_bytes bz x"
    and "unat (required_bytes (framed_header bz h x)) = 48 + length_in_bytes bz x"
    and "unat (mh_length (framed_header bz h x)) < 2 ^ 64 - 48" and "mh_length (framed_header bz h x) \<noteq> 0"
proof -
  have b: "length_in_bytes bz x < 2 ^ 63" using assms by (simp add: sendable_def)
  then show l: "unat (mh_length (framed_header bz h x)) = length_in_bytes bz x"
    by (simp add: framed_header_def unat_of_nat)
  then show lt: "unat (mh_length (framed_header bz h x)) < 2 ^ 64 - 48" using b by simp
  show "unat (required_bytes (framed_header bz h x)) = 48 + length_in_bytes bz x" using required_bytes_unat [OF lt] l by simp
  show "mh_length (framed_header bz h x) \<noteq> 0" using l assms by (auto simp: sendable_def)
qed

lemma overwrite_twice: "take (length a + length b) (overwrite (length a) b (overwrite 0 a xs)) = a @ b"
  by (simp add: overwrite_def)

lemma pusher_push_ok:
  assumes inv: "se_inv M B e m fs" and bo: "byte_order_ok bo" and bz: "bytesable_ok bz" and x: "sendable bz x"
  obtains p' e' m' where "pusher_push bo bz (Some x) p e m = Some (p', e', m')"
    and "se_inv M B e' m' (fs @ [frame bo bz (pu_header p) x])" and "preserves M B m m'"
    and "pu_header p' = (pu_header p)\<lparr>mh_seqno := mh_seqno (pu_header p) + 1\<rparr>" and "mq_buzzed (se_send e') = (mq_buzzed (se_send e) \<or> mq_queue (se_send e) = [])"
proof -
  let ?h = "framed_header bz (pu_header p) x"
  have hdef: "(pu_header p)\<lparr>mh_length := of_nat (length_in_bytes bz x)\<rparr> = ?h" by (simp add: framed_header_def)
  note fl = framed_length [OF x, of "pu_header p"]
  have hl: "length (mh_write_to bo ?h) = 48" by (rule length_mh_write_to [OF bo])
  have il: "length (into_bytes bz x) = length_in_bytes bz x" using bz by (simp add: bytesable_ok_def)
  have cap: "unat (required_bytes ?h) \<le> 2 ^ 63" using fl(2) x by (simp add: sendable_def)
  obtain e1 m1 room where 1: "se_reserve (unat (required_bytes ?h)) e m = Some (e1, m1)" "se_inv M B e1 m1 fs" "preserves M B m m1"
      "slab_empty m1 (se_buffer e1) = Some room" "unat (required_bytes ?h) \<le> length room" "se_send e1 = se_send e"
    by (rule se_reserve_ok [OF inv cap])
  have r48: "48 + length_in_bytes bz x \<le> length room" using 1(5) fl(2) by simp
  let ?B = "mset (mq_queue (se_send e1)) + B"
  have ok1: "arena_ok (slab_muts (se_buffer e1) + M) ?B m1" "slab_ok m1 (se_buffer e1)" using 1(2) by (simp_all add: se_inv_def)
  obtain m2 where 2: "slab_write 0 (mh_write_to bo ?h) (se_buffer e1) m1 = Some m2" "arena_ok (slab_muts (se_buffer e1) + M) ?B m2"
      "slab_ok m2 (se_buffer e1)" "slab_empty m2 (se_buffer e1) = Some (overwrite 0 (mh_write_to bo ?h) room)" "preserves M ?B m1 m2"
    using slab_write_ok [OF ok1 1(4), of 0 "mh_write_to bo ?h"] hl r48 by auto
  obtain m3 where 3: "slab_write 48 (into_bytes bz x) (se_buffer e1) m2 = Some m3" "arena_ok (slab_muts (se_buffer e1) + M) ?B m3"
      "slab_ok m3 (se_buffer e1)" "slab_empty m3 (se_buffer e1) = Some (overwrite 48 (into_bytes bz x) (overwrite 0 (mh_write_to bo ?h) room))"
      "preserves M ?B m2 m3"
    using slab_write_ok [OF 2(2,3,4), of 48 "into_bytes bz x"] hl il r48 by auto
  have p3: "preserves M ?B m1 m3" by (rule preserves_trans [OF 2(5) 3(5)])
  have inv3: "se_inv M B e1 m3 fs" using 1(2) 3(2,3) carries_preserves [OF p3] by (simp add: se_inv_def)
  have t: "take (48 + length_in_bytes bz x) (overwrite 48 (into_bytes bz x) (overwrite 0 (mh_write_to bo ?h) room)) = frame bo bz (pu_header p) x"
    using overwrite_twice [of "mh_write_to bo ?h" "into_bytes bz x" room] hl il by (simp add: frame_def)
  have l3: "48 + length_in_bytes bz x \<le> length (overwrite 48 (into_bytes bz x) (overwrite 0 (mh_write_to bo ?h) room))"
    using r48 hl il by simp
  obtain e4 m4 where 4: "se_make_valid (48 + length_in_bytes bz x) e1 m3 = Some (e4, m4)" "se_inv M B e4 m4 (fs @ [frame bo bz (pu_header p) x])"
      "ar_mem m4 = ar_mem m3" "mq_buzzed (se_send e4) = (mq_buzzed (se_send e1) \<or> mq_queue (se_send e1) = [])"
    using se_make_valid_ok [OF inv3 3(4) _ l3 t] by auto
  have run: "pusher_push bo bz (Some x) p e m = Some (p\<lparr>pu_header := (pu_header p)\<lparr>mh_seqno := mh_seqno (pu_header p) + 1\<rparr>\<rparr>, e4, m4)"
    using 1(1) 2(1) 3(1) 4(1) fl(2,4) by (simp add: pusher_push_def hdef Let_def hl)
  have "preserves M B m1 m3" by (rule preserves_mono [OF p3]) simp_all
  then have "preserves M B m m4" using preserves_trans [OF 1(3)] preserves_trans preserves_mem [OF 4(3)] by blast
  then show ?thesis using that [OF run 4(2)] 4(4) 1(6) by simp
qed

end
