(* ===== verification/Serializing_Allocator.thy ===== *)
theory Serializing_Allocator
  imports Byte_Exchange
begin

text \<open>
  The allocators that exchange serialized messages
  (\<open>communication/src/allocator/serializing_allocators/process.rs\<close> and \<open>cluster.rs\<close>).

  The map \<open>to_local\<close> from channels to queues of received slices is an association list with distinct
  keys; the queues it holds are shared with the pullers, which take from their front.  The endpoints and
  the queues of other workers are arguments of the operations that use them.  The loop of \<open>receive\<close>
  tries again when it cannot read a header: that it does not run forever is part of what is proved.
\<close>

section \<open>State\<close>

record ser_allocator =
  sa_index :: nat
  sa_peers :: nat
  sa_events :: "usize list"
  sa_canaries :: "usize list"
  sa_channel_id_bound :: "usize option"
  sa_to_local :: "(usize \<times> bytes list) list"

definition sa_build :: "nat \<Rightarrow> nat \<Rightarrow> ser_allocator" where
  "sa_build index peers = \<lparr>sa_index = index, sa_peers = peers, sa_events = [], sa_canaries = [], sa_channel_id_bound = None, sa_to_local = []\<rparr>"

text \<open>\<open>entry(c)\<close>, updated in place when it is occupied.\<close>

fun local_update :: "'k \<Rightarrow> 'v \<Rightarrow> ('k \<times> 'v) list \<Rightarrow> ('k \<times> 'v) list" where
  "local_update c v [] = [(c, v)]"
| "local_update c v ((d, w) # l) = (if d = c then (d, v) # l else (d, w) # local_update c v l)"

definition local_remove :: "'k \<Rightarrow> ('k \<times> 'v) list \<Rightarrow> ('k \<times> 'v) list" where
  "local_remove c l = filter (\<lambda>x. fst x \<noteq> c) l"

section \<open>Allocation of channels\<close>

text \<open>In-order identifiers are enforced; the entry of the channel may have been made by early messages.\<close>

definition sa_open :: "usize \<Rightarrow> ser_allocator \<Rightarrow> ser_allocator option" where
  "sa_open identifier a =
     (if (case sa_channel_id_bound a of None \<Rightarrow> True | Some bound \<Rightarrow> bound < identifier) then
        Some (a\<lparr>sa_channel_id_bound := Some identifier,
                sa_to_local := (if map_of (sa_to_local a) identifier = None then local_update identifier [] (sa_to_local a) else sa_to_local a)\<rparr>)
      else None)"

definition sa_allocate :: "usize \<Rightarrow> ser_allocator \<Rightarrow> (pusher list \<times> ser_allocator) option" where
  "sa_allocate identifier a =
     do { a \<leftarrow> sa_open identifier a;
          Some (map (\<lambda>target. \<lparr>pu_header = \<lparr>mh_channel = identifier, mh_source = of_nat (sa_index a), mh_target_lower = of_nat target,
                                            mh_target_upper = of_nat (target + 1), mh_length = 0, mh_seqno = 0\<rparr>\<rparr>) [0..<sa_peers a], a) }"

section \<open>Receiving\<close>

text \<open>Channels whose puller has been dropped.\<close>

fun sa_drop_channels :: "usize list \<Rightarrow> ser_allocator \<Rightarrow> arena \<Rightarrow> (ser_allocator \<times> arena) option" where
  "sa_drop_channels [] a m = Some (a, m)"
| "sa_drop_channels (c # cs) a m =
     (case map_of (sa_to_local a) c of
        None \<Rightarrow> None
      | Some dropped \<Rightarrow> sa_drop_channels cs (a\<lparr>sa_to_local := local_remove c (sa_to_local a)\<rparr>) (by_drop_all dropped m))"

fun sa_drain :: "merge_queue list \<Rightarrow> bytes list \<Rightarrow> (merge_queue list \<times> bytes list) option" where
  "sa_drain [] staged = Some ([], staged)"
| "sa_drain (q # qs) staged =
     do { (q, staged) \<leftarrow> mq_drain_into q staged;
          (qs, staged) \<leftarrow> sa_drain qs staged;
          Some (q # qs, staged) }"

definition sa_accepts :: "usize option \<Rightarrow> usize \<Rightarrow> bool" where
  "sa_accepts bound c = (case bound of None \<Rightarrow> True | Some b \<Rightarrow> b < c)"

definition sa_deliver :: "message_header \<Rightarrow> bytes \<Rightarrow> ser_allocator \<Rightarrow> arena \<Rightarrow> ser_allocator \<times> arena" where
  "sa_deliver header peel a m =
     (let a = a\<lparr>sa_events := sa_events a @ [mh_channel header]\<rparr> in
      case map_of (sa_to_local a) (mh_channel header) of
        None \<Rightarrow> if sa_accepts (sa_channel_id_bound a) (mh_channel header)
                then (a\<lparr>sa_to_local := local_update (mh_channel header) [peel] (sa_to_local a)\<rparr>, m)
                else (a, by_drop peel m)
      | Some queue \<Rightarrow> (a\<lparr>sa_to_local := local_update (mh_channel header) (queue @ [peel]) (sa_to_local a)\<rparr>, m))"

partial_function (option) sa_surface :: "byte_order \<Rightarrow> bytes \<Rightarrow> ser_allocator \<Rightarrow> arena \<Rightarrow> (ser_allocator \<times> arena) option" where
  "sa_surface bo bytes a m =
     (if by_len bytes = 0 then Some (a, by_drop bytes m)
      else case mh_try_read bo (by_deref m bytes) of
        None \<Rightarrow> sa_surface bo bytes a m
      | Some header \<Rightarrow>
          (case by_extract_to (unat (required_bytes header)) bytes m of
             None \<Rightarrow> None
           | Some (peel, bytes, m) \<Rightarrow>
               (case by_extract_to (unat (header_bytes header)) peel m of
                  None \<Rightarrow> None
                | Some (front, peel, m) \<Rightarrow>
                    (case sa_deliver header peel a (by_drop front m) of (a, m) \<Rightarrow> sa_surface bo bytes a m))))"

declare sa_surface.simps [code]

fun sa_surface_all :: "byte_order \<Rightarrow> bytes list \<Rightarrow> ser_allocator \<Rightarrow> arena \<Rightarrow> (ser_allocator \<times> arena) option" where
  "sa_surface_all bo [] a m = Some (a, m)"
| "sa_surface_all bo (b # bs) a m = do { (a, m) \<leftarrow> sa_surface bo b a m; sa_surface_all bo bs a m }"

definition sa_receive :: "byte_order \<Rightarrow> merge_queue list \<Rightarrow> ser_allocator \<Rightarrow> arena \<Rightarrow> (merge_queue list \<times> ser_allocator \<times> arena) option" where
  "sa_receive bo recvs a m =
     do { (a, m) \<leftarrow> sa_drop_channels (sa_canaries a) (a\<lparr>sa_canaries := []\<rparr>) m;
          (recvs, staged) \<leftarrow> sa_drain recvs [];
          (a, m) \<leftarrow> sa_surface_all bo staged a m;
          Some (recvs, a, m) }"

fun sa_release :: "send_endpoint list \<Rightarrow> arena \<Rightarrow> (send_endpoint list \<times> arena) option" where
  "sa_release [] m = Some ([], m)"
| "sa_release (e # es) m = do { (e, m) \<leftarrow> se_publish e m; (es, m) \<leftarrow> sa_release es m; Some (e # es, m) }"

section \<open>What is delivered\<close>

type_synonym packet = "message_header \<times> byte list"

definition packet_bytes :: "byte_order \<Rightarrow> packet \<Rightarrow> byte list" where
  "packet_bytes bo p = mh_write_to bo (fst p) @ snd p"

definition packet_ok :: "packet \<Rightarrow> bool" where
  "packet_ok p \<longleftrightarrow> unat (mh_length (fst p)) = length (snd p) \<and> 0 < length (snd p) \<and> length (snd p) \<le> 2 ^ 63 - 48"

text \<open>The contents of the channels, and what the packets of a list add to them.\<close>

definition surfaced :: "arena \<Rightarrow> ser_allocator \<Rightarrow> usize \<Rightarrow> byte list list option" where
  "surfaced m a c = map_option (map (by_deref m)) (map_of (sa_to_local a) c)"

definition spec_deliver :: "usize option \<Rightarrow> packet \<Rightarrow> (usize \<Rightarrow> byte list list option) \<Rightarrow> usize \<Rightarrow> byte list list option" where
  "spec_deliver bound p st =
     (let c = mh_channel (fst p) in
      case st c of
        None \<Rightarrow> if sa_accepts bound c then st(c := Some [snd p]) else st
      | Some q \<Rightarrow> st(c := Some (q @ [snd p])))"

definition local_bytes :: "ser_allocator \<Rightarrow> bytes multiset" where
  "local_bytes a = mset (concat (map snd (sa_to_local a)))"

definition sa_ok :: "ser_allocator \<Rightarrow> bool" where
  "sa_ok a \<longleftrightarrow> distinct (map fst (sa_to_local a))"

lemma map_of_update [simp]: "map_of (local_update c v l) = (map_of l)(c \<mapsto> v)"
  by (induction l rule: local_update.induct) (auto simp: fun_upd_twist)

lemma keys_update: "set (map fst (local_update c v l)) = insert c (set (map fst l))"
  by (induction l rule: local_update.induct) auto

lemma distinct_update: "distinct (map fst l) \<Longrightarrow> distinct (map fst (local_update c v l))"
proof (induction c v l rule: local_update.induct)
  case (2 c v d w l)
  then show ?case using keys_update [of c v l] by (auto simp: image_iff)
qed simp

lemma update_absent: "map_of l c = None \<Longrightarrow> local_update c v l = l @ [(c, v)]"
  by (induction l rule: local_update.induct) (auto split: if_splits)

lemma mset_update: "map_of l c = Some q \<Longrightarrow> mset (concat (map snd (local_update c (q @ [b]) l))) = add_mset b (mset (concat (map snd l)))"
  by (induction l) (auto split: if_splits)

lemma sa_deliver_ok:
  assumes "arena_ok M (add_mset peel (local_bytes a + B)) m" and "sa_ok a" and "sa_deliver header peel a m = (a', m')"
  shows "arena_ok M (local_bytes a' + B) m'" "sa_ok a'" "ar_mem m' = ar_mem m"
    "surfaced m' a' = spec_deliver (sa_channel_id_bound a) (header, by_deref m peel) (surfaced m a)"
    "sa_events a' = sa_events a @ [mh_channel header]" "sa_channel_id_bound a' = sa_channel_id_bound a"
proof -
  let ?c = "mh_channel header"
  have "arena_ok M (local_bytes a' + B) m' \<and> sa_ok a' \<and> ar_mem m' = ar_mem m
    \<and> surfaced m' a' = spec_deliver (sa_channel_id_bound a) (header, by_deref m peel) (surfaced m a)
    \<and> sa_events a' = sa_events a @ [?c] \<and> sa_channel_id_bound a' = sa_channel_id_bound a"
  proof (cases "map_of (sa_to_local a) ?c")
    case None
    show ?thesis
    proof (cases "sa_accepts (sa_channel_id_bound a) ?c")
      case True
      then have q: "a' = a\<lparr>sa_events := sa_events a @ [?c], sa_to_local := local_update ?c [peel] (sa_to_local a)\<rparr>" "m' = m"
        using None assms(3) by (auto simp: sa_deliver_def)
      have "local_bytes a' = add_mset peel (local_bytes a)" by (simp add: local_bytes_def q update_absent [OF None])
      moreover have "surfaced m a' = (surfaced m a)(?c := Some [by_deref m peel])" by (intro ext) (simp add: surfaced_def q)
      ultimately show ?thesis using assms True None distinct_update
        by (simp add: q(2) sa_ok_def spec_deliver_def) (simp add: q(1) surfaced_def)
    next
      case False
      then have q: "a' = a\<lparr>sa_events := sa_events a @ [?c]\<rparr>" "m' = by_drop peel m" using None assms(3) by (auto simp: sa_deliver_def)
      have "arena_ok M (local_bytes a + B) m'" unfolding q(2) by (rule by_drop_ok [OF assms(1)])
      moreover have "surfaced m' a' = surfaced m a" by (intro ext) (simp add: surfaced_def q by_deref_def [abs_def])
      ultimately show ?thesis using assms(2) False None by (simp add: q local_bytes_def sa_ok_def spec_deliver_def surfaced_def)
    qed
  next
    case (Some queue)
    then have q: "a' = a\<lparr>sa_events := sa_events a @ [?c], sa_to_local := local_update ?c (queue @ [peel]) (sa_to_local a)\<rparr>" "m' = m"
      using assms(3) by (auto simp: sa_deliver_def)
    have "local_bytes a' = add_mset peel (local_bytes a)" using mset_update [OF Some] by (simp add: local_bytes_def q)
    moreover have "surfaced m a' = (surfaced m a)(?c := Some (map (by_deref m) queue @ [by_deref m peel]))"
      by (intro ext) (simp add: surfaced_def q)
    ultimately show ?thesis using assms Some distinct_update
      by (simp add: q(2) sa_ok_def spec_deliver_def) (simp add: q(1) surfaced_def)
  qed
  then show "arena_ok M (local_bytes a' + B) m'" "sa_ok a'" "ar_mem m' = ar_mem m"
    "surfaced m' a' = spec_deliver (sa_channel_id_bound a) (header, by_deref m peel) (surfaced m a)"
    "sa_events a' = sa_events a @ [?c]" "sa_channel_id_bound a' = sa_channel_id_bound a" by blast+
qed

lemma packet_length: "byte_order_ok bo \<Longrightarrow> length (packet_bytes bo p) = 48 + length (snd p)"
  by (simp add: packet_bytes_def length_mh_write_to)

lemma packet_read:
  assumes "byte_order_ok bo" and "packet_ok p"
  shows "mh_try_read bo (packet_bytes bo p @ rest) = Some (fst p)" "unat (required_bytes (fst p)) = 48 + length (snd p)"
    "unat (header_bytes (fst p)) = 48"
proof -
  have l: "unat (mh_length (fst p)) < 2 ^ 64 - 48" "unat (mh_length (fst p)) = length (snd p)" using assms(2) by (simp_all add: packet_ok_def)
  show "mh_try_read bo (packet_bytes bo p @ rest) = Some (fst p)"
    using try_read_frame [OF assms(1) l(1), of "snd p @ rest"] l(2) by (simp add: packet_bytes_def)
  show "unat (required_bytes (fst p)) = 48 + length (snd p)" using required_bytes_unat [OF l(1)] l(2) by simp
  show "unat (header_bytes (fst p)) = 48" by (simp add: header_bytes_def mh_fields_def)
qed

lemma by_within_ok: "arena_ok M (add_mset b B) m \<Longrightarrow> length (by_deref m b) = by_len b"
  by (rule by_len_deref) (simp add: arena_ok_def)

lemma sa_surface_step:
  assumes bo: "byte_order_ok bo" and ok: "arena_ok M (add_mset bytes (local_bytes a + B)) m" and sa: "sa_ok a"
    and p: "packet_ok p" and d: "by_deref m bytes = packet_bytes bo p @ rest"
  obtains a1 m1 bytes1 where "sa_surface bo bytes a m = sa_surface bo bytes1 a1 m1" and "arena_ok M (add_mset bytes1 (local_bytes a1 + B)) m1"
    and "sa_ok a1" and "by_deref m1 bytes1 = rest" and "ar_mem m1 = ar_mem m" and "surfaced m1 a1 = spec_deliver (sa_channel_id_bound a) p (surfaced m a)"
    and "sa_events a1 = sa_events a @ [mh_channel (fst p)]" and "sa_channel_id_bound a1 = sa_channel_id_bound a"
proof -
  note rd = packet_read [OF bo p]
  have len: "by_len bytes = 48 + length (snd p) + length rest" using by_within_ok [OF ok] d packet_length [OF bo, of p] by simp
  obtain peel bytes1 n1 where x1: "by_extract_to (48 + length (snd p)) bytes m = Some (peel, bytes1, n1)" using len by (simp add: by_extract_to_def)
  note o1 = by_extract_to_ok [OF ok x1] and d1 = by_extract_to_deref [OF x1]
  have peel: "by_deref n1 peel = packet_bytes bo p" and b1: "by_deref n1 bytes1 = rest" using d1 d packet_length [OF bo, of p] by simp_all
  have lp: "by_len peel = 48 + length (snd p)" using by_within_ok [OF o1] peel packet_length [OF bo, of p] by simp
  obtain front peel' n2 where x2: "by_extract_to 48 peel n1 = Some (front, peel', n2)" using lp by (simp add: by_extract_to_def)
  note o2 = by_extract_to_ok [OF o1 x2] and d2 = by_extract_to_deref [OF x2]
  have pay: "by_deref n2 peel' = snd p" using d2(2) peel length_mh_write_to [OF bo, of "fst p"] by (simp add: packet_bytes_def)
  have o3: "arena_ok M (add_mset peel' (local_bytes a + add_mset bytes1 B)) (by_drop front n2)"
    using by_drop_ok [OF o2] by simp
  obtain a1 m1 where dl: "sa_deliver (fst p) peel' a (by_drop front n2) = (a1, m1)" by (cases "sa_deliver (fst p) peel' a (by_drop front n2)")
  note k = sa_deliver_ok [OF o3 sa dl]
  have mem: "ar_mem m1 = ar_mem m" using k(3) d2(3) d1(3) by simp
  have deq: "by_deref n' c = by_deref m c" if "ar_mem n' = ar_mem m" for n' c using that by (simp add: by_deref_def)
  have run: "sa_surface bo bytes a m = sa_surface bo bytes1 a1 m1"
    using len rd(1) [of rest] d x1 x2 dl rd(2,3) by (subst sa_surface.simps) simp
  have "by_deref m1 bytes1 = rest" using b1 deq [OF mem] deq [OF d1(3)] by simp
  moreover have "surfaced (by_drop front n2) a = surfaced m a"
    by (intro ext) (simp add: surfaced_def by_deref_def [abs_def] d2(3) d1(3))
  moreover have "by_deref (by_drop front n2) peel' = snd p" using pay by (simp add: by_deref_def)
  ultimately show ?thesis using that [OF run] k mem by simp
qed

lemma sa_surface_ok:
  assumes "byte_order_ok bo" and "arena_ok M (add_mset bytes (local_bytes a + B)) m" and "sa_ok a"
    and "\<forall>p \<in> set ps. packet_ok p" and "by_deref m bytes = concat (map (packet_bytes bo) ps)"
  shows "\<exists>a' m'. sa_surface bo bytes a m = Some (a', m') \<and> arena_ok M (local_bytes a' + B) m' \<and> sa_ok a' \<and> ar_mem m' = ar_mem m
    \<and> surfaced m' a' = fold (spec_deliver (sa_channel_id_bound a)) ps (surfaced m a)
    \<and> sa_events a' = sa_events a @ map (\<lambda>p. mh_channel (fst p)) ps \<and> sa_channel_id_bound a' = sa_channel_id_bound a"
  using assms(2-)
proof (induction ps arbitrary: bytes a m)
  case Nil
  then have "by_len bytes = 0" using by_within_ok [OF Nil(1)] by simp
  then have "sa_surface bo bytes a m = Some (a, by_drop bytes m)" by (subst sa_surface.simps) simp
  moreover have "surfaced (by_drop bytes m) a = surfaced m a" by (intro ext) (simp add: surfaced_def by_deref_def [abs_def])
  ultimately show ?case using by_drop_ok [OF Nil(1)] Nil(2) by simp
next
  case (Cons p ps)
  have p: "packet_ok p" and d: "by_deref m bytes = packet_bytes bo p @ concat (map (packet_bytes bo) ps)" using Cons(4,5) by simp_all
  obtain a1 m1 bytes1 where 1: "sa_surface bo bytes a m = sa_surface bo bytes1 a1 m1" "arena_ok M (add_mset bytes1 (local_bytes a1 + B)) m1"
      "sa_ok a1" "by_deref m1 bytes1 = concat (map (packet_bytes bo) ps)" "ar_mem m1 = ar_mem m" "surfaced m1 a1 = spec_deliver (sa_channel_id_bound a) p (surfaced m a)"
      "sa_events a1 = sa_events a @ [mh_channel (fst p)]" "sa_channel_id_bound a1 = sa_channel_id_bound a"
    by (rule sa_surface_step [OF assms(1) Cons(2,3) p d])
  from Cons(1) [OF 1(2,3) _ 1(4)] Cons(4) obtain a' m' where "sa_surface bo bytes1 a1 m1 = Some (a', m')" "arena_ok M (local_bytes a' + B) m'"
      "sa_ok a'" "ar_mem m' = ar_mem m1" "surfaced m' a' = fold (spec_deliver (sa_channel_id_bound a1)) ps (surfaced m1 a1)"
      "sa_events a' = sa_events a1 @ map (\<lambda>p. mh_channel (fst p)) ps" "sa_channel_id_bound a' = sa_channel_id_bound a1" by auto
  then show ?case using 1 by simp
qed

lemma sa_surface_all_ok:
  assumes "byte_order_ok bo" and "arena_ok M (mset bs + local_bytes a + B) m" and "sa_ok a"
    and "\<forall>p \<in> set ps. packet_ok p" and "carries m bs (map (packet_bytes bo) ps)"
  shows "\<exists>a' m'. sa_surface_all bo bs a m = Some (a', m') \<and> arena_ok M (local_bytes a' + B) m' \<and> sa_ok a' \<and> ar_mem m' = ar_mem m
    \<and> surfaced m' a' = fold (spec_deliver (sa_channel_id_bound a)) ps (surfaced m a)
    \<and> sa_events a' = sa_events a @ map (\<lambda>p. mh_channel (fst p)) ps \<and> sa_channel_id_bound a' = sa_channel_id_bound a"
  using assms(2-)
proof (induction bs arbitrary: a m ps)
  case Nil
  then show ?case by simp
next
  case (Cons b bs)
  obtain gss where g: "map (by_deref m) (b # bs) = map concat gss" "concat gss = map (packet_bytes bo) ps"
    using Cons(5) unfolding carries_def by blast
  then obtain fs fss where "gss = fs # fss" by (cases gss) simp_all
  with g have f: "by_deref m b = concat fs" "map (by_deref m) bs = map concat fss" "fs @ concat fss = map (packet_bytes bo) ps"
    by simp_all
  from f(3) obtain ps1 ps2 where ps: "ps = ps1 @ ps2" "fs = map (packet_bytes bo) ps1" "concat fss = map (packet_bytes bo) ps2"
    unfolding append_eq_map_conv by blast
  have o: "arena_ok M (add_mset b (local_bytes a + (mset bs + B))) m" using Cons(2) by (simp add: ac_simps)
  have k1: "\<forall>p \<in> set ps1. packet_ok p" "\<forall>p \<in> set ps2. packet_ok p" using Cons(4) ps(1) by auto
  have d: "by_deref m b = concat (map (packet_bytes bo) ps1)" using f(1) ps(2) by simp
  obtain a1 m1 where 1: "sa_surface bo b a m = Some (a1, m1)" "arena_ok M (local_bytes a1 + (mset bs + B)) m1" "sa_ok a1" "ar_mem m1 = ar_mem m"
      "surfaced m1 a1 = fold (spec_deliver (sa_channel_id_bound a)) ps1 (surfaced m a)"
      "sa_events a1 = sa_events a @ map (\<lambda>p. mh_channel (fst p)) ps1" "sa_channel_id_bound a1 = sa_channel_id_bound a"
    using sa_surface_ok [OF assms(1) o Cons(3) k1(1) d] by blast
  have "carries m bs (map (packet_bytes bo) ps2)" using f(2) ps(3) by (auto simp: carries_def)
  then have c: "carries m1 bs (map (packet_bytes bo) ps2)" using carries_cong [of bs m1 m] 1(4) by (simp add: by_deref_def)
  have o1: "arena_ok M (mset bs + local_bytes a1 + B) m1" using 1(2) by (simp add: ac_simps)
  from Cons(1) [OF o1 1(3) k1(2) c] 1 show ?case by (auto simp: ps(1))
qed

section \<open>Receiving everything\<close>

lemma sa_drain_ok:
  "\<forall>q \<in> set qs. \<not> mq_panic q \<Longrightarrow> sa_drain qs staged = Some (map (\<lambda>q. q\<lparr>mq_queue := []\<rparr>) qs, staged @ concat (map mq_queue qs))"
  by (induction qs arbitrary: staged) (simp_all add: mq_drain_into_def)

lemma by_drop_all_mem [simp]: "ar_mem (by_drop_all bs m) = ar_mem m"
  by (induction bs arbitrary: m) (simp_all add: by_drop_all_def)

lemma by_drop_all_ok: "arena_ok M (mset bs + B) m \<Longrightarrow> arena_ok M B (by_drop_all bs m)"
  by (induction bs arbitrary: m) (auto simp: by_drop_all_def intro: by_drop_ok)

lemma local_remove_mset:
  "distinct (map fst l) \<Longrightarrow> map_of l c = Some q \<Longrightarrow> mset (concat (map snd l)) = mset q + mset (concat (map snd (local_remove c l)))"
proof (induction l)
  case (Cons x l)
  show ?case
  proof (cases "fst x = c")
    case True
    have "\<forall>y \<in> set l. fst y \<noteq> c" using Cons(2) True by (force simp: image_iff)
    then have "local_remove c (x # l) = l" using True by (simp add: local_remove_def)
    then show ?thesis using True Cons(3) by (cases x) simp
  next
    case False
    then show ?thesis using Cons by (cases x) (simp add: local_remove_def)
  qed
qed simp

lemma map_of_remove: "map_of (local_remove c l) = (map_of l)(c := None)"
  by (intro ext) (induction l; auto simp: local_remove_def)

lemma sa_drop_channels_ok:
  assumes "arena_ok M (local_bytes a + B) m" and "sa_ok a" and "distinct cs" and "\<forall>c \<in> set cs. map_of (sa_to_local a) c \<noteq> None"
  shows "\<exists>a' m'. sa_drop_channels cs a m = Some (a', m') \<and> arena_ok M (local_bytes a' + B) m' \<and> sa_ok a' \<and> ar_mem m' = ar_mem m
    \<and> surfaced m' a' = surfaced m a |` (- set cs) \<and> sa_events a' = sa_events a \<and> sa_channel_id_bound a' = sa_channel_id_bound a"
  using assms
proof (induction cs arbitrary: a m)
  case Nil
  then show ?case by simp
next
  case (Cons c cs)
  obtain q where q: "map_of (sa_to_local a) c = Some q" using Cons(5) by auto
  define a1 where "a1 = a\<lparr>sa_to_local := local_remove c (sa_to_local a)\<rparr>"
  define m1 where "m1 = by_drop_all q m"
  have "local_bytes a = mset q + local_bytes a1" using local_remove_mset [OF _ q] Cons(3) by (simp add: sa_ok_def local_bytes_def a1_def)
  then have o: "arena_ok M (local_bytes a1 + B) m1" unfolding m1_def using Cons(2) by (intro by_drop_all_ok) (simp add: ac_simps)
  have sa: "sa_ok a1" using Cons(3) by (simp add: sa_ok_def a1_def local_remove_def distinct_map_filter)
  have s: "surfaced m1 a1 = (surfaced m a)(c := None)"
    by (intro ext) (simp add: surfaced_def a1_def m1_def map_of_remove by_deref_def [abs_def])
  have "distinct cs" "\<forall>d \<in> set cs. map_of (sa_to_local a1) d \<noteq> None" using Cons(4,5) by (auto simp: a1_def map_of_remove)
  from Cons(1) [OF o sa this] obtain a' m' where r: "sa_drop_channels cs a1 m1 = Some (a', m')" "arena_ok M (local_bytes a' + B) m'" "sa_ok a'"
      "ar_mem m' = ar_mem m1" "surfaced m' a' = surfaced m1 a1 |` (- set cs)" "sa_events a' = sa_events a1" "sa_channel_id_bound a' = sa_channel_id_bound a1"
    by blast
  have "surfaced m' a' = surfaced m a |` (- set (c # cs))" unfolding r(5) s by (intro ext) (simp add: restrict_map_def)
  then show ?case using r q by (simp add: a1_def [symmetric] m1_def [symmetric]) (simp add: a1_def m1_def)
qed

definition of_channel :: "usize \<Rightarrow> packet list \<Rightarrow> byte list list" where
  "of_channel c ps = map snd (filter (\<lambda>p. mh_channel (fst p) = c) ps)"

lemma spec_deliver_channel:
  "fold (spec_deliver bound) ps st c =
     (case st c of
        Some q \<Rightarrow> Some (q @ of_channel c ps)
      | None \<Rightarrow> if sa_accepts bound c \<and> of_channel c ps \<noteq> [] then Some (of_channel c ps) else None)"
proof (induction ps arbitrary: st)
  case Nil
  then show ?case by (simp add: of_channel_def split: option.split)
next
  case (Cons p ps)
  show ?case
  proof (cases "mh_channel (fst p) = c")
    case True
    then show ?thesis using Cons by (auto simp: spec_deliver_def of_channel_def split: option.split)
  next
    case False
    then have "spec_deliver bound p st c = st c" by (auto simp: spec_deliver_def Let_def split: option.split)
    moreover have "of_channel c (p # ps) = of_channel c ps" using False by (simp add: of_channel_def)
    ultimately show ?thesis using Cons [of "spec_deliver bound p st"] by (simp split: option.split)
  qed
qed

lemma sa_receive_ok:
  assumes bo: "byte_order_ok bo" and ok: "arena_ok M (local_bytes a + (mset (concat (map mq_queue recvs)) + B)) m" and sa: "sa_ok a"
    and np: "\<forall>q \<in> set recvs. \<not> mq_panic q" and can: "distinct (sa_canaries a)" "\<forall>c \<in> set (sa_canaries a). map_of (sa_to_local a) c \<noteq> None"
    and ps: "\<forall>p \<in> set ps. packet_ok p" "carries m (concat (map mq_queue recvs)) (map (packet_bytes bo) ps)"
  shows "\<exists>a' m'. sa_receive bo recvs a m = Some (map (\<lambda>q. q\<lparr>mq_queue := []\<rparr>) recvs, a', m')
    \<and> arena_ok M (local_bytes a' + B) m' \<and> sa_ok a' \<and> ar_mem m' = ar_mem m
    \<and> surfaced m' a' = fold (spec_deliver (sa_channel_id_bound a)) ps (surfaced m a |` (- set (sa_canaries a)))
    \<and> sa_events a' = sa_events a @ map (\<lambda>p. mh_channel (fst p)) ps \<and> sa_channel_id_bound a' = sa_channel_id_bound a"
proof -
  let ?bs = "concat (map mq_queue recvs)" and ?a = "a\<lparr>sa_canaries := []\<rparr>"
  have o0: "arena_ok M (local_bytes ?a + (mset ?bs + B)) m" "sa_ok ?a" using ok sa by (simp_all add: local_bytes_def sa_ok_def)
  have s0: "surfaced m ?a = surfaced m a" by (intro ext) (simp add: surfaced_def)
  obtain a1 m1 where 1: "sa_drop_channels (sa_canaries a) ?a m = Some (a1, m1)" "arena_ok M (local_bytes a1 + (mset ?bs + B)) m1" "sa_ok a1"
      "ar_mem m1 = ar_mem m" "surfaced m1 a1 = surfaced m a |` (- set (sa_canaries a))" "sa_events a1 = sa_events a" "sa_channel_id_bound a1 = sa_channel_id_bound a"
    using sa_drop_channels_ok [OF o0 can(1)] can(2) s0 by auto
  have o1: "arena_ok M (mset ?bs + local_bytes a1 + B) m1" using 1(2) by (simp add: ac_simps)
  have c1: "carries m1 ?bs (map (packet_bytes bo) ps)" using ps(2) carries_cong [of ?bs m1 m] 1(4) by (simp add: by_deref_def)
  from sa_surface_all_ok [OF bo o1 1(3) ps(1) c1] 1 sa_drain_ok [OF np, of "[]"] show ?thesis
    by (auto simp: sa_receive_def)
qed

text \<open>
  C14: \<open>receive\<close> returns, and surfaces every message that reached the worker, whole and in order: a channel
  that is open gets exactly the payloads addressed to it after those it had, a channel that is not yet
  allocated gets them too, and messages for channels that have been dropped are discarded.  Each message is
  announced once in the events.
\<close>
theorem receive_surfaces:
  assumes "byte_order_ok bo" and "arena_ok M (local_bytes a + (mset (concat (map mq_queue recvs)) + B)) m" and "sa_ok a"
    and "\<forall>q \<in> set recvs. \<not> mq_panic q" and "distinct (sa_canaries a)" and "\<forall>c \<in> set (sa_canaries a). map_of (sa_to_local a) c \<noteq> None"
    and "\<forall>p \<in> set ps. packet_ok p" and "carries m (concat (map mq_queue recvs)) (map (packet_bytes bo) ps)"
  shows "\<exists>recvs' a' m'. sa_receive bo recvs a m = Some (recvs', a', m') \<and> (\<forall>q \<in> set recvs'. mq_queue q = [])
    \<and> sa_events a' = sa_events a @ map (\<lambda>p. mh_channel (fst p)) ps \<and> arena_ok M (local_bytes a' + B) m'
    \<and> (\<forall>c. surfaced m' a' c =
         (case (if c \<in> set (sa_canaries a) then None else surfaced m a c) of
            Some q \<Rightarrow> Some (q @ of_channel c ps)
          | None \<Rightarrow> if sa_accepts (sa_channel_id_bound a) c \<and> of_channel c ps \<noteq> [] then Some (of_channel c ps) else None))"
proof -
  obtain a' m' where r: "sa_receive bo recvs a m = Some (map (\<lambda>q. q\<lparr>mq_queue := []\<rparr>) recvs, a', m')" "arena_ok M (local_bytes a' + B) m'"
    "surfaced m' a' = fold (spec_deliver (sa_channel_id_bound a)) ps (surfaced m a |` (- set (sa_canaries a)))"
    "sa_events a' = sa_events a @ map (\<lambda>p. mh_channel (fst p)) ps"
    using sa_receive_ok [OF assms] by blast
  have "surfaced m' a' c = (case (if c \<in> set (sa_canaries a) then None else surfaced m a c) of Some q \<Rightarrow> Some (q @ of_channel c ps)
      | None \<Rightarrow> if sa_accepts (sa_channel_id_bound a) c \<and> of_channel c ps \<noteq> [] then Some (of_channel c ps) else None)" for c
    unfolding r(3) spec_deliver_channel by (simp add: restrict_map_def)
  then show ?thesis using r by (intro exI [of _ "map (\<lambda>q. q\<lparr>mq_queue := []\<rparr>) recvs"] exI [of _ a'] exI [of _ m']) simp
qed

section \<open>From push to pull\<close>

text \<open>A sequence of pushes through the pushers of one endpoint, and repeated calls of \<open>pull\<close>.\<close>

fun push_all :: "byte_order \<Rightarrow> 'a bytesable \<Rightarrow> (nat \<times> 'a) list \<Rightarrow> pusher list \<Rightarrow> send_endpoint \<Rightarrow> arena \<Rightarrow> (pusher list \<times> send_endpoint \<times> arena) option" where
  "push_all bo bz [] ps e m = Some (ps, e, m)"
| "push_all bo bz ((i, x) # xs) ps e m =
     do { p \<leftarrow> vec_get ps i;
          (p, e, m) \<leftarrow> pusher_push bo bz (Some x) p e m;
          push_all bo bz xs (ps[i := p]) e m }"

fun pull_times :: "'a bytesable \<Rightarrow> nat \<Rightarrow> bytes list \<Rightarrow> arena \<Rightarrow> 'a list" where
  "pull_times bz 0 receiver m = []"
| "pull_times bz (Suc n) receiver m =
     (case puller_pull bz receiver m of
        (None, receiver, m) \<Rightarrow> pull_times bz n receiver m
      | (Some x, receiver, m) \<Rightarrow> x # pull_times bz n receiver m)"

text \<open>The packets the pushes produce, with the sequence numbers of each pusher counting up.\<close>

fun push_packets :: "'a bytesable \<Rightarrow> (nat \<times> 'a) list \<Rightarrow> pusher list \<Rightarrow> packet list" where
  "push_packets bz [] ps = []"
| "push_packets bz ((i, x) # xs) ps =
     (framed_header bz (pu_header (ps ! i)) x, into_bytes bz x)
     # push_packets bz xs (ps[i := (ps ! i)\<lparr>pu_header := (pu_header (ps ! i))\<lparr>mh_seqno := mh_seqno (pu_header (ps ! i)) + 1\<rparr>\<rparr>])"

lemma push_all_ok:
  assumes "byte_order_ok bo" and "bytesable_ok bz" and "\<forall>(i, x) \<in> set xs. i < length ps \<and> sendable bz x" and "se_inv M B e m fs"
  shows "\<exists>ps' e' m'. push_all bo bz xs ps e m = Some (ps', e', m')
    \<and> se_inv M B e' m' (fs @ map (packet_bytes bo) (push_packets bz xs ps)) \<and> preserves M B m m'"
  using assms(3,4)
proof (induction xs arbitrary: ps e m fs)
  case Nil
  then show ?case by simp
next
  case (Cons ix xs)
  obtain i x where ix: "ix = (i, x)" by (cases ix)
  have i: "i < length ps" and x: "sendable bz x" using Cons(2) ix by auto
  define p' where "p' = (ps ! i)\<lparr>pu_header := (pu_header (ps ! i))\<lparr>mh_seqno := mh_seqno (pu_header (ps ! i)) + 1\<rparr>\<rparr>"
  obtain q e1 m1 where 1: "pusher_push bo bz (Some x) (ps ! i) e m = Some (q, e1, m1)"
      "se_inv M B e1 m1 (fs @ [frame bo bz (pu_header (ps ! i)) x])" "preserves M B m m1"
      "pu_header q = (pu_header (ps ! i))\<lparr>mh_seqno := mh_seqno (pu_header (ps ! i)) + 1\<rparr>"
    by (rule pusher_push_ok [OF Cons(3) assms(1,2) x])
  have q: "q = p'" using 1(4) by (simp add: p'_def)
  have all: "\<forall>(j, y) \<in> set xs. j < length (ps[i := p']) \<and> sendable bz y" using Cons(2) by auto
  have f: "frame bo bz (pu_header (ps ! i)) x = packet_bytes bo (framed_header bz (pu_header (ps ! i)) x, into_bytes bz x)"
    by (simp add: frame_def packet_bytes_def)
  have step: "push_all bo bz (ix # xs) ps e m = push_all bo bz xs (ps[i := p']) e1 m1" using 1(1) q i by (simp add: ix vec_get_def)
  obtain ps' e' m' where 2: "push_all bo bz xs (ps[i := p']) e1 m1 = Some (ps', e', m')"
      "se_inv M B e' m' ((fs @ [frame bo bz (pu_header (ps ! i)) x]) @ map (packet_bytes bo) (push_packets bz xs (ps[i := p'])))" "preserves M B m1 m'"
    using Cons(1) [OF all 1(2)] by blast
  have "push_packets bz (ix # xs) ps = (framed_header bz (pu_header (ps ! i)) x, into_bytes bz x) # push_packets bz xs (ps[i := p'])"
    by (simp add: ix p'_def)
  then have "fs @ map (packet_bytes bo) (push_packets bz (ix # xs) ps)
      = (fs @ [frame bo bz (pu_header (ps ! i)) x]) @ map (packet_bytes bo) (push_packets bz xs (ps[i := p']))" using f by simp
  then have "se_inv M B e' m' (fs @ map (packet_bytes bo) (push_packets bz (ix # xs) ps))" using 2(2) by metis
  then show ?case using step 2(1) preserves_trans [OF 1(3) 2(3)] by auto
qed

lemma push_packets_ok:
  assumes "bytesable_ok bz" and "\<forall>(i, x) \<in> set xs. i < length ps \<and> sendable bz x"
  shows "(\<forall>p \<in> set (push_packets bz xs ps). packet_ok p)
    \<and> of_channel c (push_packets bz xs ps) = map (\<lambda>(i, x). into_bytes bz x) (filter (\<lambda>(i, x). mh_channel (pu_header (ps ! i)) = c) xs)"
  using assms(2)
proof (induction xs arbitrary: ps)
  case (Cons ix xs)
  obtain i x where ix: "ix = (i, x)" by (cases ix)
  define p' where "p' = (ps ! i)\<lparr>pu_header := (pu_header (ps ! i))\<lparr>mh_seqno := mh_seqno (pu_header (ps ! i)) + 1\<rparr>\<rparr>"
  have x: "sendable bz x" and i: "i < length ps" using Cons(2) ix by auto
  have all: "\<forall>(j, y) \<in> set xs. j < length (ps[i := p']) \<and> sendable bz y" using Cons(2) by auto
  have "packet_ok (framed_header bz (pu_header (ps ! i)) x, into_bytes bz x)"
    using framed_length(1) [OF x] assms(1) x by (simp add: packet_ok_def bytesable_ok_def sendable_def)
  then have a: "\<forall>p \<in> set (push_packets bz (ix # xs) ps). packet_ok p" using Cons(1) [OF all] by (simp add: ix p'_def)
  have ch: "mh_channel (pu_header (ps[i := p'] ! j)) = mh_channel (pu_header (ps ! j))" for j
    using i by (simp add: nth_list_update p'_def)
  have "push_packets bz (ix # xs) ps = (framed_header bz (pu_header (ps ! i)) x, into_bytes bz x) # push_packets bz xs (ps[i := p'])"
    by (simp add: ix p'_def)
  then have "of_channel c (push_packets bz (ix # xs) ps) = map (\<lambda>(i, x). into_bytes bz x) (filter (\<lambda>(i, x). mh_channel (pu_header (ps ! i)) = c) (ix # xs))"
    using Cons(1) [OF all] by (simp add: ix of_channel_def framed_header_def ch)
  with a show ?case by blast
qed (simp_all add: of_channel_def)

lemma pull_times_ok:
  assumes "bytesable_ok bz" and "map (by_deref m) q = map (into_bytes bz) xs"
  shows "pull_times bz n q m = take n xs"
  using assms(2)
proof (induction n arbitrary: q m xs)
  case (Suc n)
  show ?case
  proof (cases q)
    case Nil
    then have "xs = []" using Suc(2) by simp
    then show ?thesis using Nil Suc(1) [of m "[]" "[]"] by (simp add: puller_pull_def)
  next
    case (Cons b bs)
    then obtain y ys where y: "xs = y # ys" "by_deref m b = into_bytes bz y" "map (by_deref m) bs = map (into_bytes bz) ys"
      using Suc(2) by (cases xs) auto
    have "map (by_deref (by_drop b m)) bs = map (into_bytes bz) ys" using y(3) by (simp add: by_deref_def [abs_def])
    from Suc(1) [OF this] show ?thesis using y assms(1) by (simp add: Cons puller_pull_def bytesable_ok_def)
  qed
qed simp

text \<open>What pushes leave in the queue of the receiving worker.\<close>

lemma pushed_state:
  assumes "byte_order_ok bo" and "bytesable_ok bz" and "refill_ok rf"
    and "\<forall>(i, x) \<in> set xs. i < length ps \<and> sendable bz x"
    and "arena_ok M (local_bytes a + B) m" and "se_new mq_new rf m = (e, m0)"
  obtains ps' e' m1 where "push_all bo bz xs ps e m0 = Some (ps', e', m1)"
    "arena_ok (slab_muts (se_buffer e') + M) (local_bytes a + (mset (concat (map mq_queue [se_send e'])) + B)) m1"
    "\<forall>q \<in> set [se_send e']. \<not> mq_panic q"
    "carries m1 (concat (map mq_queue [se_send e'])) (map (packet_bytes bo) (push_packets bz xs ps))"
proof -
  have "arena_ok M (mset (mq_queue mq_new) + (local_bytes a + B)) m" using assms(5) by (simp add: mq_new_def)
  then have e: "se_inv M (local_bytes a + B) e m0 []"
    using se_new_inv [of M mq_new "local_bytes a + B" m rf "[]" e m0] assms(3,6) by (simp_all add: mq_new_def)
  obtain ps' e' m1 where p: "push_all bo bz xs ps e m0 = Some (ps', e', m1)"
      "se_inv M (local_bytes a + B) e' m1 (map (packet_bytes bo) (push_packets bz xs ps))"
    using push_all_ok [OF assms(1,2,4) e] by auto
  then show thesis using that by (simp add: se_inv_def ac_simps)
qed

text \<open>
  C11: Messages that are pushed at one endpoint, on any number of channels in any order, arrive at the worker
  that drains its queue: after one \<open>receive\<close> each open channel yields, by repeated calls of \<open>pull\<close>, exactly the
  elements that were pushed on it, in the order of the pushes, whatever the sizes of the messages and the
  buffers they were packed in.
\<close>
theorem push_pull_roundtrip:
  assumes "byte_order_ok bo" and "bytesable_ok bz" and "refill_ok rf"
    and "\<forall>(i, x) \<in> set xs. i < length ps \<and> sendable bz x"
    and "arena_ok M (local_bytes a + B) m" and "sa_ok a" and "sa_canaries a = []" and "se_new mq_new rf m = (e, m0)"
  shows "\<exists>ps' e' m1 q a' m2. push_all bo bz xs ps e m0 = Some (ps', e', m1) \<and> sa_receive bo [se_send e'] a m1 = Some ([q], a', m2)
    \<and> mq_queue q = [] \<and> (\<forall>c. map_of (sa_to_local a) c = Some [] \<longrightarrow>
       (\<exists>receiver. map_of (sa_to_local a') c = Some receiver
         \<and> (\<forall>n. pull_times bz n receiver m2 = take n (map snd (filter (\<lambda>(i, x). mh_channel (pu_header (ps ! i)) = c) xs)))))"
proof -
  obtain ps' e' m1 where p: "push_all bo bz xs ps e m0 = Some (ps', e', m1)"
    and i: "arena_ok (slab_muts (se_buffer e') + M) (local_bytes a + (mset (concat (map mq_queue [se_send e'])) + B)) m1"
      "\<forall>q \<in> set [se_send e']. \<not> mq_panic q" "carries m1 (concat (map mq_queue [se_send e'])) (map (packet_bytes bo) (push_packets bz xs ps))"
    by (rule pushed_state [OF assms(1-5,8)])
  let ?q = "se_send e'"
  have pk: "\<forall>p \<in> set (push_packets bz xs ps). packet_ok p"
    and ch: "of_channel c (push_packets bz xs ps) = map (\<lambda>(i, x). into_bytes bz x) (filter (\<lambda>(i, x). mh_channel (pu_header (ps ! i)) = c) xs)" for c
    using push_packets_ok [OF assms(2,4)] by auto
  have can: "distinct (sa_canaries a)" "\<forall>c \<in> set (sa_canaries a). map_of (sa_to_local a) c \<noteq> None" using assms(7) by simp_all
  obtain a' m2 where r: "sa_receive bo [?q] a m1 = Some (map (\<lambda>q. q\<lparr>mq_queue := []\<rparr>) [?q], a', m2)"
      "surfaced m2 a' = fold (spec_deliver (sa_channel_id_bound a)) (push_packets bz xs ps) (surfaced m1 a |` (- set (sa_canaries a)))"
    using sa_receive_ok [OF assms(1) i(1) assms(6) i(2) can pk i(3)] by blast
  have "\<exists>receiver. map_of (sa_to_local a') c = Some receiver
      \<and> (\<forall>n. pull_times bz n receiver m2 = take n (map snd (filter (\<lambda>(i, x). mh_channel (pu_header (ps ! i)) = c) xs)))"
    if c: "map_of (sa_to_local a) c = Some []" for c
  proof -
    have "surfaced m2 a' c = Some (of_channel c (push_packets bz xs ps))"
      unfolding r(2) spec_deliver_channel using c assms(7) by (simp add: surfaced_def restrict_map_def)
    then obtain receiver where rc: "map_of (sa_to_local a') c = Some receiver" "map (by_deref m2) receiver = of_channel c (push_packets bz xs ps)"
      by (auto simp: surfaced_def)
    then have "map (by_deref m2) receiver = map (into_bytes bz) (map snd (filter (\<lambda>(i, x). mh_channel (pu_header (ps ! i)) = c) xs))"
      by (simp add: ch case_prod_unfold)
    then show ?thesis using pull_times_ok [OF assms(2)] rc(1) by blast
  qed
  then show ?thesis using p r(1) by (intro exI [of _ ps'] exI [of _ e'] exI [of _ m1] exI [of _ "?q\<lparr>mq_queue := []\<rparr>"] exI [of _ a'] exI [of _ m2]) simp
qed

text \<open>A type serialized as a single byte.\<close>

definition byte_codec :: "byte bytesable" where
  "byte_codec = \<lparr>length_in_bytes = (\<lambda>_. 1), into_bytes = (\<lambda>b. [b]), from_bytes = hd\<rparr>"

definition example_allocator :: ser_allocator where
  "example_allocator = \<lparr>sa_index = 0, sa_peers = 1, sa_events = [], sa_canaries = [], sa_channel_id_bound = Some 4, sa_to_local = [(4, [])]\<rparr>"

definition example_pusher :: pusher where
  "example_pusher = \<lparr>pu_header = \<lparr>mh_channel = 4, mh_source = 0, mh_target_lower = 0, mh_target_upper = 1, mh_length = 0, mh_seqno = 0\<rparr>\<rparr>"

lemma example_facts:
  "bytesable_ok byte_codec" "refill_ok example_refill" "\<forall>(i, x) \<in> set [(0, 7), (0, 9 :: byte)]. i < length [example_pusher] \<and> sendable byte_codec x"
  "arena_ok {#} (local_bytes example_allocator + {#}) arena_empty" "sa_ok example_allocator" "sa_canaries example_allocator = []"
  by (simp_all add: bytesable_ok_def byte_codec_def refill_ok_def example_refill_def sendable_def example_allocator_def
      local_bytes_def sa_ok_def arena_ok_def arena_empty_def exclusive_def)

theorem push_pull_roundtrip_witness:
  "\<exists>e m0 ps' e' m1 q a' m2 receiver. se_new mq_new example_refill arena_empty = (e, m0)
     \<and> push_all big_endian byte_codec [(0, 7), (0, 9)] [example_pusher] e m0 = Some (ps', e', m1)
     \<and> sa_receive big_endian [se_send e'] example_allocator m1 = Some ([q], a', m2)
     \<and> map_of (sa_to_local a') 4 = Some receiver \<and> pull_times byte_codec 3 receiver m2 = [7, 9]"
proof -
  obtain e m0 where n: "se_new mq_new example_refill arena_empty = (e, m0)" by (cases "se_new mq_new example_refill arena_empty")
  from push_pull_roundtrip [OF big_endian_ok example_facts n] obtain ps' e' m1 q a' m2 where
    r: "push_all big_endian byte_codec [(0, 7), (0, 9)] [example_pusher] e m0 = Some (ps', e', m1)"
      "sa_receive big_endian [se_send e'] example_allocator m1 = Some ([q], a', m2)"
      "\<forall>c. map_of (sa_to_local example_allocator) c = Some [] \<longrightarrow> (\<exists>receiver. map_of (sa_to_local a') c = Some receiver
        \<and> (\<forall>n. pull_times byte_codec n receiver m2 = take n (map snd (filter (\<lambda>(i, x). mh_channel (pu_header ([example_pusher] ! i)) = c) [(0, 7), (0, 9)]))))"
    by blast
  have "map_of (sa_to_local example_allocator) 4 = Some []" by (simp add: example_allocator_def)
  with r(3) obtain receiver where rc: "map_of (sa_to_local a') 4 = Some receiver"
      "\<forall>n. pull_times byte_codec n receiver m2 = take n (map snd (filter (\<lambda>(i, x). mh_channel (pu_header ([example_pusher] ! i)) = 4) [(0, 7), (0, 9)]))"
    by blast
  have "pull_times byte_codec 3 receiver m2 = [7, 9]" using spec [OF rc(2), of 3] by (simp add: example_pusher_def)
  with n r rc show ?thesis by blast
qed

text \<open>Channel 4 is open and channel 2 has been dropped; messages arrive for both and for channel 9, which is not yet allocated.\<close>

definition surfacing_allocator :: ser_allocator where
  "surfacing_allocator = example_allocator\<lparr>sa_canaries := [2], sa_to_local := [(4, []), (2, [])]\<rparr>"

definition surfacing_pushers :: "pusher list" where
  "surfacing_pushers = map (\<lambda>c. example_pusher\<lparr>pu_header := (pu_header example_pusher)\<lparr>mh_channel := c\<rparr>\<rparr>) [4, 9, 2]"

theorem receive_surfaces_witness:
  "\<exists>e m0 ps' e' m1 recvs' a' m2. se_new mq_new example_refill arena_empty = (e, m0)
     \<and> push_all big_endian byte_codec [(0, 7), (1, 9), (2, 5), (0, 8)] surfacing_pushers e m0 = Some (ps', e', m1)
     \<and> sa_receive big_endian [se_send e'] surfacing_allocator m1 = Some (recvs', a', m2)
     \<and> sa_events a' = [4, 9, 2, 4] \<and> surfaced m2 a' 4 = Some [[7], [8]] \<and> surfaced m2 a' 9 = Some [[9]] \<and> surfaced m2 a' 2 = None"
proof -
  let ?xs = "[(0, 7), (1, 9), (2, 5), (0, 8 :: byte)]" and ?a = surfacing_allocator and ?ps = surfacing_pushers
  let ?packets = "push_packets byte_codec ?xs ?ps"
  obtain e m0 where n: "se_new mq_new example_refill arena_empty = (e, m0)" by (cases "se_new mq_new example_refill arena_empty")
  have xs: "\<forall>(i, x) \<in> set ?xs. i < length ?ps \<and> sendable byte_codec x" using example_facts(3) by (simp add: surfacing_pushers_def sendable_def byte_codec_def)
  have a: "arena_ok {#} (local_bytes ?a + {#}) arena_empty" "sa_ok ?a" "distinct (sa_canaries ?a)"
      "\<forall>c \<in> set (sa_canaries ?a). map_of (sa_to_local ?a) c \<noteq> None"
    using example_facts(4,5) by (simp_all add: surfacing_allocator_def example_allocator_def local_bytes_def sa_ok_def)
  obtain ps' e' m1 where p: "push_all big_endian byte_codec ?xs ?ps e m0 = Some (ps', e', m1)"
    and i: "arena_ok (slab_muts (se_buffer e') + {#}) (local_bytes ?a + (mset (concat (map mq_queue [se_send e'])) + {#})) m1"
      "\<forall>q \<in> set [se_send e']. \<not> mq_panic q" "carries m1 (concat (map mq_queue [se_send e'])) (map (packet_bytes big_endian) ?packets)"
    by (rule pushed_state [OF big_endian_ok example_facts(1,2) xs a(1) n])
  have pk: "\<forall>p \<in> set ?packets. packet_ok p" using push_packets_ok [OF example_facts(1) xs] by blast
  from receive_surfaces [OF big_endian_ok i(1) a(2) i(2) a(3,4) pk i(3)] obtain recvs' a' m2 where
    r: "sa_receive big_endian [se_send e'] ?a m1 = Some (recvs', a', m2)" "sa_events a' = sa_events ?a @ map (\<lambda>p. mh_channel (fst p)) ?packets"
      "\<forall>c. surfaced m2 a' c = (case (if c \<in> set (sa_canaries ?a) then None else surfaced m1 ?a c) of
          Some q \<Rightarrow> Some (q @ of_channel c ?packets)
        | None \<Rightarrow> if sa_accepts (sa_channel_id_bound ?a) c \<and> of_channel c ?packets \<noteq> [] then Some (of_channel c ?packets) else None)" by blast
  have c: "map (\<lambda>p. mh_channel (fst p)) ?packets = [4, 9, 2, 4]" "of_channel 4 ?packets = [[7], [8]]" "of_channel 9 ?packets = [[9]]" by code_simp+
  have "sa_events a' = [4, 9, 2, 4]" using r(2) [unfolded c(1)] by (simp add: surfacing_allocator_def example_allocator_def)
  moreover have "surfaced m2 a' 4 = Some [[7], [8]]" "surfaced m2 a' 9 = Some [[9]]" "surfaced m2 a' 2 = None"
    using spec [OF r(3), of 4, unfolded c(2)] spec [OF r(3), of 9, unfolded c(3)] spec [OF r(3), of 2]
    by (simp_all add: surfaced_def surfacing_allocator_def example_allocator_def sa_accepts_def)
  ultimately show ?thesis using n p r(1) by blast
qed

end
