(* ===== verification/Network_Threads.thy ===== *)
theory Network_Threads
  imports Serializing_Allocator
begin

text \<open>
  The communication threads of \<open>communication/src/networking/tcp.rs\<close>.

  What a socket delivers is a list of chunks: a call of \<open>read\<close> returns the next chunk, or as much of it as
  fits the buffer, and nothing once the stream is closed.  A failing or closed stream makes the thread panic,
  which is \<open>None\<close>, as is a header that names no local worker.  Logging is left out.
\<close>

section \<open>Sending\<close>

definition shutdown_header :: message_header where
  "shutdown_header = \<lparr>mh_channel = 0, mh_source = 0, mh_target_lower = 0, mh_target_upper = 0, mh_length = 0, mh_seqno = 0\<rparr>"

text \<open>\<open>sources.retain(|source| !source.is_complete())\<close>, where a completed queue is dropped.\<close>

fun retain_incomplete :: "merge_queue list \<Rightarrow> merge_queue list option" where
  "retain_incomplete [] = Some []"
| "retain_incomplete (q # qs) =
     do { complete \<leftarrow> mq_is_complete q;
          qs \<leftarrow> retain_incomplete qs;
          Some (if complete then qs else q # qs) }"

text \<open>One round of the loop: the bytes written, and the sources that are left.\<close>

definition send_round :: "merge_queue list \<Rightarrow> arena \<Rightarrow> (byte list \<times> merge_queue list \<times> arena) option" where
  "send_round sources m =
     do { (sources, stash) \<leftarrow> sa_drain sources [];
          if stash = [] then do { sources \<leftarrow> retain_incomplete sources; Some ([], sources, m) }
          else Some (concat (map (by_deref m) stash), sources, by_drop_all stash m) }"

text \<open>What is written once no sources are left.\<close>

definition send_end :: "byte_order \<Rightarrow> byte list" where
  "send_end bo = mh_write_to bo shutdown_header"

section \<open>Receiving\<close>

type_synonym reader = "byte list list"

definition read_some :: "nat \<Rightarrow> reader \<Rightarrow> byte list \<times> reader" where
  "read_some room rd =
     (case rd of
        [] \<Rightarrow> ([], [])
      | c # rd \<Rightarrow> if length c \<le> room then (c, rd) else (take room c, drop room c # rd))"

text \<open>The loop over the targets of a message.\<close>

fun stage_message :: "nat \<Rightarrow> nat list \<Rightarrow> bytes \<Rightarrow> bytes list list \<Rightarrow> arena \<Rightarrow> (bytes list list \<times> arena) option" where
  "stage_message base [] bytes stageds m = Some (stageds, m)"
| "stage_message base (t # ts) bytes stageds m =
     (if t < base \<or> length stageds \<le> t - base then None
      else let (c, m) = by_clone bytes m
           in stage_message base ts bytes (stageds[t - base := stageds ! (t - base) @ [c]]) m)"

record recv_state =
  rv_buffer :: bytes_slab
  rv_stageds :: "bytes list list"
  rv_active :: bool
  rv_reader :: reader

definition recv_shutdown :: "recv_state \<Rightarrow> arena \<Rightarrow> (recv_state \<times> arena) option" where
  "recv_shutdown r m =
     do { v \<leftarrow> slab_valid m (rv_buffer r);
          if v \<noteq> [] then None
          else do { (s, m) \<leftarrow> slab_ensure_capacity 1 (rv_buffer r) m;
                    e \<leftarrow> slab_empty m s;
                    let (c, rd) = read_some (length e) (rv_reader r);
                    if c \<noteq> [] then None
                    else Some (r\<lparr>rv_active := False, rv_buffer := s, rv_reader := rd\<rparr>, m) } }"

text \<open>Consuming complete messages from the front of the buffer.\<close>

partial_function (option) recv_messages :: "byte_order \<Rightarrow> nat \<Rightarrow> recv_state \<Rightarrow> arena \<Rightarrow> (recv_state \<times> arena) option" where
  "recv_messages bo base r m =
     (case slab_valid m (rv_buffer r) of
        None \<Rightarrow> None
      | Some v \<Rightarrow>
          (case mh_try_read bo v of
             None \<Rightarrow> Some (r, m)
           | Some header \<Rightarrow>
               (case slab_extract (unat (required_bytes header)) (rv_buffer r) m of
                  None \<Rightarrow> None
                | Some (bytes, s, m) \<Rightarrow>
                    if mh_length header \<noteq> 0 then
                      (case stage_message base [unat (mh_target_lower header)..<unat (mh_target_upper header)] bytes (rv_stageds r) m of
                         None \<Rightarrow> None
                       | Some (stageds, m) \<Rightarrow>
                           recv_messages bo base (r\<lparr>rv_buffer := s, rv_stageds := stageds\<rparr>) (by_drop bytes m))
                    else
                      (case recv_shutdown (r\<lparr>rv_buffer := s\<rparr>) m of
                         None \<Rightarrow> None
                       | Some (r, m) \<Rightarrow> recv_messages bo base r (by_drop bytes m)))))"

declare recv_messages.simps [code]

text \<open>Passing the staged bytes along to the targets.\<close>

fun recv_pass :: "bytes list list \<Rightarrow> merge_queue list \<Rightarrow> arena \<Rightarrow> (merge_queue list \<times> arena) option" where
  "recv_pass [] targets m = Some (targets, m)"
| "recv_pass (st # sts) [] m = None"
| "recv_pass (st # sts) (q # targets) m =
     do { (q, m) \<leftarrow> mq_extend st q m;
          (targets, m) \<leftarrow> recv_pass sts targets m;
          Some (q # targets, m) }"

text \<open>Reading once.\<close>

definition recv_read :: "recv_state \<Rightarrow> arena \<Rightarrow> (recv_state \<times> arena) option" where
  "recv_read r m =
     do { (s, m) \<leftarrow> slab_ensure_capacity 1 (rv_buffer r) m;
          e \<leftarrow> slab_empty m s;
          if e = [] then None
          else let (c, rd) = read_some (length e) (rv_reader r)
               in if c = [] then None
                  else do { m \<leftarrow> slab_write 0 c s m;
                            Some (r\<lparr>rv_buffer := slab_make_valid (length c) s, rv_reader := rd\<rparr>, m) } }"

partial_function (option) recv_loop_rounds :: "byte_order \<Rightarrow> nat \<Rightarrow> recv_state \<Rightarrow> merge_queue list \<Rightarrow> arena \<Rightarrow> (merge_queue list \<times> recv_state \<times> arena) option" where
  "recv_loop_rounds bo base r targets m =
     (if \<not> rv_active r then Some (targets, r, m)
      else case recv_read r m of
        None \<Rightarrow> None
      | Some (r, m) \<Rightarrow>
          (case recv_messages bo base r m of
             None \<Rightarrow> None
           | Some (r, m) \<Rightarrow>
               (case recv_pass (rv_stageds r) targets m of
                  None \<Rightarrow> None
                | Some (targets, m) \<Rightarrow>
                    recv_loop_rounds bo base (r\<lparr>rv_stageds := map (\<lambda>_. []) (rv_stageds r)\<rparr>) targets m)))"

declare recv_loop_rounds.simps [code]

definition recv_loop :: "byte_order \<Rightarrow> bytes_refill \<Rightarrow> nat \<Rightarrow> reader \<Rightarrow> merge_queue list \<Rightarrow> arena \<Rightarrow> (merge_queue list \<times> recv_state \<times> arena) option" where
  "recv_loop bo refill base rd targets m =
     (let (s, m) = slab_new 20 refill m
      in recv_loop_rounds bo base
           \<lparr>rv_buffer = s, rv_stageds = map (\<lambda>_. []) targets, rv_active = True, rv_reader = rd\<rparr> targets m)"

section \<open>Staging\<close>

lemma mset_concat_snoc: "k < length xs \<Longrightarrow> mset (concat (xs[k := xs ! k @ [b]])) = add_mset b (mset (concat xs))"
  by (induction xs arbitrary: k) (auto split: nat.split simp: nth_Cons)

lemma stage_message_ok:
  assumes "arena_ok M (add_mset bytes (mset (concat st) + B)) m" and "\<forall>t \<in> set ts. base \<le> t \<and> t < base + length st" and "distinct ts"
  shows "\<exists>st' m'. stage_message base ts bytes st m = Some (st', m') \<and> arena_ok M (add_mset bytes (mset (concat st') + B)) m'
    \<and> ar_mem m' = ar_mem m \<and> length st' = length st \<and> (\<forall>i < length st. st' ! i = st ! i @ (if base + i \<in> set ts then [bytes] else []))"
  using assms
proof (induction ts arbitrary: st m)
  case Nil
  then show ?case by simp
next
  case (Cons t ts)
  have t: "base \<le> t" "t - base < length st" using Cons(3) by auto
  obtain c m1 where c: "by_clone bytes m = (c, m1)" by (cases "by_clone bytes m")
  have cb: "c = bytes" "ar_mem m1 = ar_mem m" using c by (auto simp: by_clone_def)
  define st1 where "st1 = st[t - base := st ! (t - base) @ [c]]"
  have "arena_ok M (add_mset c (add_mset bytes (mset (concat st) + B))) m1" by (rule by_clone_ok [OF Cons(2) _ c]) simp
  then have o: "arena_ok M (add_mset bytes (mset (concat st1) + B)) m1" using mset_concat_snoc [OF t(2), of c] by (simp add: st1_def cb)
  have d: "\<forall>t \<in> set ts. base \<le> t \<and> t < base + length st1" "distinct ts" "t \<notin> set ts" using Cons(3,4) by (simp_all add: st1_def)
  obtain st' m' where r: "stage_message base ts bytes st1 m1 = Some (st', m')" "arena_ok M (add_mset bytes (mset (concat st') + B)) m'"
      "ar_mem m' = ar_mem m1" "length st' = length st1" "\<forall>i < length st1. st' ! i = st1 ! i @ (if base + i \<in> set ts then [bytes] else [])"
    using Cons(1) [OF o d(1,2)] by blast
  have "stage_message base (t # ts) bytes st m = Some (st', m')" using t c r(1) by (simp add: st1_def [symmetric])
  moreover have "st' ! i = st ! i @ (if base + i \<in> set (t # ts) then [bytes] else [])" if i: "i < length st" for i
  proof (cases "i = t - base")
    case True
    then have "base + i = t" using t by simp
    then show ?thesis using r(5) i d(3) True by (simp add: st1_def cb)
  next
    case False
    then have "base + i \<noteq> t" by auto
    then show ?thesis using r(5) i False by (simp add: st1_def)
  qed
  ultimately show ?case using r cb by (simp add: st1_def)
qed

lemma recv_pass_ok:
  assumes "arena_ok M (mset (concat sts) + (mset (concat (map mq_queue qs)) + B)) m" and "length sts = length qs"
    and "\<forall>q \<in> set qs. \<not> mq_panic q" and "\<forall>i < length qs. carries m (mq_queue (qs ! i)) (f i)" and "\<forall>i < length qs. carries m (sts ! i) (g i)"
  shows "\<exists>qs' m'. recv_pass sts qs m = Some (qs', m') \<and> arena_ok M (mset (concat (map mq_queue qs')) + B) m' \<and> ar_mem m' = ar_mem m
    \<and> length qs' = length qs \<and> (\<forall>q \<in> set qs'. \<not> mq_panic q) \<and> (\<forall>i < length qs. carries m (mq_queue (qs' ! i)) (f i @ g i))"
  using assms
proof (induction sts arbitrary: qs m f g B)
  case Nil
  then show ?case by simp
next
  case (Cons st sts)
  obtain q qs1 where qs: "qs = q # qs1" "length sts = length qs1" using Cons(3) by (cases qs) simp_all
  let ?R = "mset (concat sts) + (mset (concat (map mq_queue qs1)) + B)"
  have o: "arena_ok M (mset (mq_queue q) + mset st + ?R) m" using Cons(2) qs by (simp add: ac_simps)
  have c: "carries m (mq_queue q) (f 0)" "carries m st (g 0)" "\<not> mq_panic q" using Cons(4,5,6) qs by force+
  obtain q' m1 where 1: "mq_extend st q m = Some (q', m1)" "arena_ok M (mset (mq_queue q') + ?R) m1" "ar_mem m1 = ar_mem m"
      "carries m (mq_queue q') (f 0 @ g 0)" "mq_panic q' = mq_panic q"
    by (rule mq_extend_ok [OF o c])
  have cm: "carries m1 bs fs = carries m bs fs" for bs fs by (rule carries_cong) (simp add: by_deref_def 1(3))
  have o1: "arena_ok M (mset (concat sts) + (mset (concat (map mq_queue qs1)) + (mset (mq_queue q') + B))) m1" using 1(2) by (simp add: ac_simps)
  have a1: "\<forall>q \<in> set qs1. \<not> mq_panic q" using Cons(4) qs by simp
  have a2: "\<forall>i < length qs1. carries m1 (mq_queue (qs1 ! i)) (f (Suc i))" using Cons(5) qs cm by force
  have a3: "\<forall>i < length qs1. carries m1 (sts ! i) (g (Suc i))" using Cons(6) qs cm by force
  obtain qs' m' where 2: "recv_pass sts qs1 m1 = Some (qs', m')" "arena_ok M (mset (concat (map mq_queue qs')) + (mset (mq_queue q') + B)) m'"
      "ar_mem m' = ar_mem m1" "length qs' = length qs1" "\<forall>q \<in> set qs'. \<not> mq_panic q" "\<forall>i < length qs1. carries m1 (mq_queue (qs' ! i)) (f (Suc i) @ g (Suc i))"
    using Cons(1) [OF o1 qs(2) a1 a2 a3] by blast
  have run: "recv_pass (st # sts) qs m = Some (q' # qs', m')" using 1(1) 2(1) by (simp add: qs)
  have "arena_ok M (mset (concat (map mq_queue (q' # qs'))) + B) m'" using 2(2) by (simp add: ac_simps)
  moreover have "\<forall>i < length qs. carries m (mq_queue ((q' # qs') ! i)) (f i @ g i)"
    using 1(4) 2(6) cm qs by (auto simp: nth_Cons split: nat.split)
  ultimately show ?case using run 1(3,5) 2(3,4,5) c(3) qs by simp
qed

section \<open>Messages in the buffer\<close>

definition addressed :: "nat \<Rightarrow> packet \<Rightarrow> bool" where
  "addressed t p \<longleftrightarrow> unat (mh_target_lower (fst p)) \<le> t \<and> t < unat (mh_target_upper (fst p))"

definition routed :: "nat \<Rightarrow> nat \<Rightarrow> packet \<Rightarrow> bool" where
  "routed base n p \<longleftrightarrow> base \<le> unat (mh_target_lower (fst p)) \<and> unat (mh_target_upper (fst p)) \<le> base + n"

lemma packet_incomplete:
  assumes "byte_order_ok bo" and "packet_ok p" and "n < length (packet_bytes bo p)"
  shows "mh_try_read bo (take n (packet_bytes bo p)) = None"
  using try_read_incomplete [of bo "fst p" "snd p" n] assms by (simp add: packet_bytes_def packet_ok_def)

lemma send_end_read:
  assumes "byte_order_ok bo"
  shows "length (send_end bo) = 48" "mh_try_read bo (send_end bo) = Some shutdown_header" "unat (required_bytes shutdown_header) = 48"
proof -
  have l: "unat (mh_length shutdown_header) < 2 ^ 64 - 48" "unat (mh_length shutdown_header) = 0" by (simp_all add: shutdown_header_def)
  show "length (send_end bo) = 48" by (simp add: send_end_def length_mh_write_to [OF assms])
  show "mh_try_read bo (send_end bo) = Some shutdown_header"
    using try_read_frame [OF assms l(1), of "[]"] l(2) by (simp add: send_end_def)
  show "unat (required_bytes shutdown_header) = 48" using required_bytes_unat [OF l(1)] l(2) by simp
qed

text \<open>What holds of the state of the thread, and what the messages still to come are.\<close>

definition rv_ok :: "bytes_mut multiset \<Rightarrow> bytes multiset \<Rightarrow> recv_state \<Rightarrow> arena \<Rightarrow> bool" where
  "rv_ok M B r m \<longleftrightarrow> arena_ok (slab_muts (rv_buffer r) + M) (mset (concat (rv_stageds r)) + B) m \<and> slab_ok m (rv_buffer r) \<and> [] \<notin> set (rv_reader r)"

definition to_come :: "byte_order \<Rightarrow> recv_state \<Rightarrow> arena \<Rightarrow> packet list \<Rightarrow> bool" where
  "to_come bo r m ps \<longleftrightarrow>
     (\<exists>v. slab_valid m (rv_buffer r) = Some v
        \<and> v @ concat (rv_reader r) = concat (map (packet_bytes bo) ps) @ (if rv_active r then send_end bo else []))"

definition staged_as :: "byte_order \<Rightarrow> nat \<Rightarrow> recv_state \<Rightarrow> arena \<Rightarrow> packet list \<Rightarrow> bool" where
  "staged_as bo base r m ps \<longleftrightarrow>
     (\<forall>i < length (rv_stageds r). map (by_deref m) (rv_stageds r ! i) = map (packet_bytes bo) (filter (addressed (base + i)) ps))"

lemma staged_preserves:
  assumes "preserves M (mset (concat (rv_stageds r)) + B) m m'" and "staged_as bo base r m ps" and "rv_stageds r' = rv_stageds r"
  shows "staged_as bo base r' m' ps"
  unfolding staged_as_def
proof (intro allI impI)
  fix i assume i: "i < length (rv_stageds r')"
  have "by_deref m' b = by_deref m b" if b: "b \<in> set (rv_stageds r ! i)" for b
  proof -
    have "rv_stageds r ! i \<in> set (rv_stageds r)" using i assms(3) by simp
    then have "b \<in># mset (concat (rv_stageds r)) + B" using b by auto
    then show ?thesis using assms(1) by (simp only: preserves_def)
  qed
  then have "map (by_deref m') (rv_stageds r ! i) = map (by_deref m) (rv_stageds r ! i)" by simp
  also have "\<dots> = map (packet_bytes bo) (filter (addressed (base + i)) ps)" using assms(2,3) i by (simp add: staged_as_def)
  finally show "map (by_deref m') (rv_stageds r' ! i) = map (packet_bytes bo) (filter (addressed (base + i)) ps)" by (simp add: assms(3))
qed

lemma recv_message_step:
  assumes bo: "byte_order_ok bo" and ok: "rv_ok M B r m" and p: "packet_ok p" "routed base (length (rv_stageds r)) p"
    and v: "slab_valid m (rv_buffer r) = Some (packet_bytes bo p @ w)" and st: "staged_as bo base r m ps"
  obtains r' m' where "recv_messages bo base r m = recv_messages bo base r' m'" and "rv_ok M B r' m'"
    and "slab_valid m' (rv_buffer r') = Some w" and "staged_as bo base r' m' (ps @ [p])" and "ar_mem m' = ar_mem m"
    and "rv_reader r' = rv_reader r" and "rv_active r' = rv_active r" and "length (rv_stageds r') = length (rv_stageds r)"
proof -
  have o: "arena_ok (slab_muts (rv_buffer r) + M) (mset (concat (rv_stageds r)) + B) m" and sl: "slab_ok m (rv_buffer r)"
    using ok by (simp_all add: rv_ok_def)
  note rd = packet_read [OF bo p(1)] and len = packet_length [OF bo, of p]
  let ?n = "48 + length (snd p)" and ?ts = "[unat (mh_target_lower (fst p))..<unat (mh_target_upper (fst p))]"
  obtain bytes s m1 where 1: "slab_extract ?n (rv_buffer r) m = Some (bytes, s, m1)"
      "arena_ok (slab_muts s + M) (add_mset bytes (mset (concat (rv_stageds r)) + B)) m1" "slab_ok m1 s"
      "by_deref m1 bytes = take ?n (packet_bytes bo p @ w)" "slab_valid m1 s = Some (drop ?n (packet_bytes bo p @ w))" "ar_mem m1 = ar_mem m"
    by (rule slab_extract_ok [OF o sl v, of ?n]) (use len in simp_all)
  have t: "\<forall>t \<in> set ?ts. base \<le> t \<and> t < base + length (rv_stageds r)" using p(2) by (auto simp: routed_def)
  obtain st' m2 where 2: "stage_message base ?ts bytes (rv_stageds r) m1 = Some (st', m2)"
      "arena_ok (slab_muts s + M) (add_mset bytes (mset (concat st') + B)) m2" "ar_mem m2 = ar_mem m1" "length st' = length (rv_stageds r)"
      "\<forall>i < length (rv_stageds r). st' ! i = rv_stageds r ! i @ (if base + i \<in> set ?ts then [bytes] else [])"
    using stage_message_ok [OF 1(2) t] by auto
  define r' where "r' = r\<lparr>rv_buffer := s, rv_stageds := st'\<rparr>"
  define m' where "m' = by_drop bytes m2"
  have mem: "ar_mem m' = ar_mem m" using 1(6) 2(3) by (simp add: m'_def)
  have nz: "mh_length (fst p) \<noteq> 0" using p(1) by (auto simp: packet_ok_def)
  have run: "recv_messages bo base r m = recv_messages bo base r' m'"
    using v rd(1) [of w] rd(2) 1(1) 2(1) nz by (subst recv_messages.simps) (simp add: r'_def m'_def)
  have "arena_ok (slab_muts s + M) (mset (concat st') + B) m'" unfolding m'_def by (rule by_drop_ok [OF 2(2)])
  moreover have mm1: "ar_mem m' = ar_mem m1" using mem 1(6) by simp
  moreover have "slab_ok m' s" using slab_ok_preserves [OF preserves_mem [OF mm1] 1(3)] .
  ultimately have ok': "rv_ok M B r' m'" using ok by (simp add: rv_ok_def r'_def)
  have v': "slab_valid m' (rv_buffer r') = Some w" using 1(5) len mm1 by (simp add: r'_def slab_valid_def bm_deref_def split: if_splits)
  have db: "by_deref m' bytes = packet_bytes bo p" using 1(4) len mm1 by (simp add: by_deref_def)
  have dm: "by_deref m' b = by_deref m b" for b using mem by (simp add: by_deref_def)
  have "map (by_deref m') (st' ! i) = map (packet_bytes bo) (filter (addressed (base + i)) (ps @ [p]))" if i: "i < length (rv_stageds r)" for i
  proof -
    have "base + i \<in> set ?ts \<longleftrightarrow> addressed (base + i) p" by (simp add: addressed_def)
    then have e: "st' ! i = rv_stageds r ! i @ (if addressed (base + i) p then [bytes] else [])" using 2(5) i by simp
    have "map (by_deref m') (rv_stageds r ! i) = map (packet_bytes bo) (filter (addressed (base + i)) ps)"
      using st i by (simp add: staged_as_def dm [abs_def])
    then show ?thesis by (simp add: e db)
  qed
  then have "staged_as bo base r' m' (ps @ [p])" using 2(4) by (simp add: staged_as_def r'_def)
  then show ?thesis using that [OF run ok' v'] mem 2(4) by (simp add: r'_def)
qed

lemma valid_length:
  assumes "arena_ok (slab_muts s + M) B m" and "slab_ok m s" and "slab_valid m s = Some v"
  shows "sl_valid s = length v"
  using assms(3) slab_valid_Some [OF assms(2)] bm_len_deref [OF buffer_within [OF assms(1)]] assms(2) by (auto simp: slab_ok_def)

lemma valid_read_None:
  assumes "slab_valid m (rv_buffer r) = Some v" and "mh_try_read bo v = None"
  shows "recv_messages bo base r m = Some (r, m)"
  using assms by (subst recv_messages.simps) simp

lemma recv_shutdown_ok:
  assumes bo: "byte_order_ok bo" and ok: "rv_ok M B r m" and v: "slab_valid m (rv_buffer r) = Some (send_end bo)" and rd: "rv_reader r = []"
    and st: "staged_as bo base r m ps"
  obtains r' m' where "recv_messages bo base r m = Some (r', m')" and "rv_ok M B r' m'" and "slab_valid m' (rv_buffer r') = Some []"
    and "staged_as bo base r' m' ps" and "preserves M B m m'" and "\<not> rv_active r'" and "rv_reader r' = []"
    and "length (rv_stageds r') = length (rv_stageds r)"
proof -
  have o: "arena_ok (slab_muts (rv_buffer r) + M) (mset (concat (rv_stageds r)) + B) m" and sl: "slab_ok m (rv_buffer r)"
    using ok by (simp_all add: rv_ok_def)
  note e = send_end_read [OF bo]
  obtain bytes s m1 where 1: "slab_extract 48 (rv_buffer r) m = Some (bytes, s, m1)"
      "arena_ok (slab_muts s + M) (add_mset bytes (mset (concat (rv_stageds r)) + B)) m1" "slab_ok m1 s"
      "slab_valid m1 s = Some (drop 48 (send_end bo))" "ar_mem m1 = ar_mem m" "sl_valid s = sl_valid (rv_buffer r) - 48"
    by (rule slab_extract_ok [OF o sl v, of 48]) (use e(1) in simp_all)
  have v1: "slab_valid m1 s = Some []" using 1(4) e(1) by simp
  have z: "sl_valid s = 0" using valid_length [OF 1(2,3) v1] by simp
  obtain s2 m2 room where 2: "slab_ensure_capacity 1 s m1 = Some (s2, m2)"
      "arena_ok (slab_muts s2 + M) (add_mset bytes (mset (concat (rv_stageds r)) + B)) m2" "slab_ok m2 s2" "slab_valid m2 s2 = slab_valid m1 s"
      "slab_empty m2 s2 = Some room" "preserves M (add_mset bytes (mset (concat (rv_stageds r)) + B)) m1 m2"
    using slab_ensure_capacity_ok [OF 1(2,3), of 1] z by auto
  define r' where "r' = r\<lparr>rv_active := False, rv_buffer := s2, rv_reader := []\<rparr>"
  define m' where "m' = by_drop bytes m2"
  have mem: "ar_mem m' = ar_mem m2" by (simp add: m'_def)
  have sh: "recv_shutdown (r\<lparr>rv_buffer := s\<rparr>) m1 = Some (r', m2)"
    using v1 2(1,5) rd by (simp add: recv_shutdown_def read_some_def r'_def)
  have v': "slab_valid m' (rv_buffer r') = Some []" using 2(4) v1 mem by (simp add: r'_def slab_valid_def bm_deref_def split: if_splits)
  have "recv_messages bo base r m = recv_messages bo base r' m'"
    using v e 1(1) sh by (subst recv_messages.simps) (simp add: shutdown_header_def m'_def)
  then have run: "recv_messages bo base r m = Some (r', m')" using valid_read_None [OF v' try_read_short] by simp
  have p: "preserves M (mset (concat (rv_stageds r)) + B) m m'"
  proof -
    have "preserves M (mset (concat (rv_stageds r)) + B) m1 m2" by (rule preserves_mono [OF 2(6)]) simp_all
    then show ?thesis using preserves_trans [OF preserves_mem [OF 1(5)]] preserves_trans preserves_mem [OF mem] by blast
  qed
  have "arena_ok (slab_muts s2 + M) (mset (concat (rv_stageds r)) + B) m'" unfolding m'_def by (rule by_drop_ok [OF 2(2)])
  then have ok': "rv_ok M B r' m'" using slab_ok_preserves [OF preserves_mem [OF mem] 2(3)] by (simp add: rv_ok_def r'_def)
  have s': "staged_as bo base r' m' ps" by (rule staged_preserves [OF p st]) (simp add: r'_def)
  have "preserves M B m m'" by (rule preserves_mono [OF p]) simp_all
  then show ?thesis using that [OF run ok' v' s'] by (simp add: r'_def)
qed

lemma concat_nils [simp]: "concat (map (\<lambda>_. []) xs) = []"
  by (induction xs) simp_all

lemma no_chunks: "[] \<notin> set rd \<Longrightarrow> concat rd = [] \<Longrightarrow> rd = []"
  by (cases rd) auto

lemma recv_messages_ok:
  assumes bo: "byte_order_ok bo" and "rv_ok M B r m" and "\<forall>p \<in> set ps. packet_ok p \<and> routed base (length (rv_stageds r)) p"
    and "to_come bo r m ps" and "rv_active r" and "staged_as bo base r m qs"
  shows "\<exists>r' m' ps1 ps2. recv_messages bo base r m = Some (r', m') \<and> ps = ps1 @ ps2 \<and> rv_ok M B r' m' \<and> to_come bo r' m' ps2
    \<and> staged_as bo base r' m' (qs @ ps1) \<and> preserves M B m m' \<and> length (rv_stageds r') = length (rv_stageds r)
    \<and> (if rv_active r' then rv_reader r' = rv_reader r \<and> rv_reader r \<noteq> [] \<and> sl_valid (rv_buffer r') < 2 ^ 63 else ps2 = [])"
  using assms(2-)
proof (induction ps arbitrary: r m qs)
  case Nil
  then obtain v where v: "slab_valid m (rv_buffer r) = Some v" "v @ concat (rv_reader r) = send_end bo" by (auto simp: to_come_def)
  have nr: "[] \<notin> set (rv_reader r)" using Nil(1) by (simp add: rv_ok_def)
  have lv: "sl_valid (rv_buffer r) = length v" using Nil(1) v(1) by (auto simp: rv_ok_def intro: valid_length)
  show ?case
  proof (cases "length v < 48")
    case True
    then have "recv_messages bo base r m = Some (r, m)" using valid_read_None [OF v(1) try_read_short] by simp
    moreover have "rv_reader r \<noteq> []" using v(2) True send_end_read(1) [OF bo] by auto
    ultimately have "recv_messages bo base r m = Some (r, m) \<and> [] = [] @ [] \<and> rv_ok M B r m \<and> to_come bo r m ([])
    \<and> staged_as bo base r m (qs @ []) \<and> preserves M B m m \<and> length (rv_stageds r) = length (rv_stageds r)
    \<and> (if rv_active r then rv_reader r = rv_reader r \<and> rv_reader r \<noteq> [] \<and> sl_valid (rv_buffer r) < 2 ^ 63 else [] = [])"
      using Nil True lv by simp
    then show ?thesis by (intro exI)
  next
    case False
    have "length v + length (concat (rv_reader r)) = 48" using arg_cong [OF v(2), of length] send_end_read(1) [OF bo] by simp
    then have "length (concat (rv_reader r)) = 0" using False by linarith
    then have "concat (rv_reader r) = []" by (simp only: length_0_conv)
    then have rd: "rv_reader r = []" by (rule no_chunks [OF nr])
    then have ve: "slab_valid m (rv_buffer r) = Some (send_end bo)" using v by simp
    obtain r' m' where "recv_messages bo base r m = Some (r', m')" "rv_ok M B r' m'" "slab_valid m' (rv_buffer r') = Some []"
        "staged_as bo base r' m' qs" "preserves M B m m'" "\<not> rv_active r'" "rv_reader r' = []" "length (rv_stageds r') = length (rv_stageds r)"
      by (rule recv_shutdown_ok [OF bo Nil(1) ve rd Nil(5)])
    then have "recv_messages bo base r m = Some (r', m') \<and> [] = [] @ [] \<and> rv_ok M B r' m' \<and> to_come bo r' m' ([])
    \<and> staged_as bo base r' m' (qs @ []) \<and> preserves M B m m' \<and> length (rv_stageds r') = length (rv_stageds r)
    \<and> (if rv_active r' then rv_reader r' = rv_reader r \<and> rv_reader r \<noteq> [] \<and> sl_valid (rv_buffer r') < 2 ^ 63 else [] = [])"
      by (simp add: to_come_def)
    then show ?thesis by (intro exI)
  qed
next
  case (Cons p ps)
  obtain v where v: "slab_valid m (rv_buffer r) = Some v" "v @ concat (rv_reader r) = packet_bytes bo p @ concat (map (packet_bytes bo) ps) @ send_end bo"
    using Cons(4,5) by (auto simp: to_come_def)
  have p: "packet_ok p" "routed base (length (rv_stageds r)) p" using Cons(3) by simp_all
  show ?case
  proof (cases "length v < length (packet_bytes bo p)")
    case True
    then have "v = take (length v) (packet_bytes bo p)" using arg_cong [OF v(2), of "take (length v)"] by simp
    then have "mh_try_read bo v = None" using packet_incomplete [OF bo p(1) True] by simp
    from valid_read_None [OF v(1) this] have run: "recv_messages bo base r m = Some (r, m)" .
    have "rv_reader r \<noteq> []" using v(2) True by auto
    moreover have "sl_valid (rv_buffer r) = length v" using Cons(2) v(1) by (auto simp: rv_ok_def intro: valid_length)
    then have "sl_valid (rv_buffer r) < 2 ^ 63" using True packet_length [OF bo, of p] p(1) by (simp add: packet_ok_def)
    ultimately have "recv_messages bo base r m = Some (r, m) \<and> p # ps = [] @ (p # ps) \<and> rv_ok M B r m \<and> to_come bo r m ((p # ps))
    \<and> staged_as bo base r m (qs @ []) \<and> preserves M B m m \<and> length (rv_stageds r) = length (rv_stageds r)
    \<and> (if rv_active r then rv_reader r = rv_reader r \<and> rv_reader r \<noteq> [] \<and> sl_valid (rv_buffer r) < 2 ^ 63 else (p # ps) = [])"
      using run Cons(2-) by simp
    then show ?thesis by (intro exI)
  next
    case False
    define w where "w = drop (length (packet_bytes bo p)) v"
    have vw: "v = packet_bytes bo p @ w" unfolding w_def
      using arg_cong [OF v(2), of "take (length (packet_bytes bo p))"] False append_take_drop_id [of "length (packet_bytes bo p)" v] by simp
    then have w: "w @ concat (rv_reader r) = concat (map (packet_bytes bo) ps) @ send_end bo" using v(2) by simp
    obtain r1 m1 where 1: "recv_messages bo base r m = recv_messages bo base r1 m1" "rv_ok M B r1 m1" "slab_valid m1 (rv_buffer r1) = Some w"
        "staged_as bo base r1 m1 (qs @ [p])" "ar_mem m1 = ar_mem m" "rv_reader r1 = rv_reader r" "rv_active r1 = rv_active r" "length (rv_stageds r1) = length (rv_stageds r)"
      by (rule recv_message_step [OF bo Cons(2) p v(1) [unfolded vw] Cons(6)])
    have a: "\<forall>p \<in> set ps. packet_ok p \<and> routed base (length (rv_stageds r1)) p" "rv_active r1" using Cons(3,5) 1(7,8) by simp_all
    have t: "to_come bo r1 m1 ps" using 1(3,6) w a(2) by (simp add: to_come_def)
    obtain r' m' ps1 ps2 where 2: "recv_messages bo base r1 m1 = Some (r', m')" "ps = ps1 @ ps2" "rv_ok M B r' m'" "to_come bo r' m' ps2"
        "staged_as bo base r' m' ((qs @ [p]) @ ps1)" "preserves M B m1 m'" "length (rv_stageds r') = length (rv_stageds r1)"
        "if rv_active r' then rv_reader r' = rv_reader r1 \<and> rv_reader r1 \<noteq> [] \<and> sl_valid (rv_buffer r') < 2 ^ 63 else ps2 = []"
      using Cons(1) [OF 1(2) a(1) t a(2) 1(4)] by blast
    have "preserves M B m m'" by (rule preserves_trans [OF preserves_mem [OF 1(5)] 2(6)])
    then have "recv_messages bo base r m = Some (r', m') \<and> p # ps = (p # ps1) @ ps2 \<and> rv_ok M B r' m' \<and> to_come bo r' m' (ps2)
    \<and> staged_as bo base r' m' (qs @ (p # ps1)) \<and> preserves M B m m' \<and> length (rv_stageds r') = length (rv_stageds r)
    \<and> (if rv_active r' then rv_reader r' = rv_reader r \<and> rv_reader r \<noteq> [] \<and> sl_valid (rv_buffer r') < 2 ^ 63 else ps2 = [])"
      using 1 2 by (simp split: if_splits)
    then show ?thesis by (intro exI)
  qed
qed

section \<open>The loop\<close>

lemma read_some_ok:
  assumes "read_some room rd = (c, rd')" and "0 < room" and "rd \<noteq> []" and "[] \<notin> set rd"
  shows "c \<noteq> []" "length c \<le> room" "c @ concat rd' = concat rd" "[] \<notin> set rd'"
  using assms by (auto simp: read_some_def split: list.splits if_splits)

lemma recv_read_ok:
  assumes ok: "rv_ok M B r m" and rd: "rv_reader r \<noteq> []" and v: "sl_valid (rv_buffer r) < 2 ^ 63" and t: "to_come bo r m ps" and st: "staged_as bo base r m qs"
  obtains r' m' where "recv_read r m = Some (r', m')" and "rv_ok M B r' m'" and "to_come bo r' m' ps" and "staged_as bo base r' m' qs"
    and "preserves M B m m'" and "rv_active r' = rv_active r" and "rv_stageds r' = rv_stageds r"
    and "length (concat (rv_reader r')) < length (concat (rv_reader r))"
proof -
  let ?B = "mset (concat (rv_stageds r)) + B"
  have o: "arena_ok (slab_muts (rv_buffer r) + M) ?B m" and sl: "slab_ok m (rv_buffer r)" and nr: "[] \<notin> set (rv_reader r)"
    using ok by (simp_all add: rv_ok_def)
  have cap: "sl_valid (rv_buffer r) + 1 \<le> 2 ^ 63" using v by simp
  obtain s m1 room where 1: "slab_ensure_capacity 1 (rv_buffer r) m = Some (s, m1)" "arena_ok (slab_muts s + M) ?B m1" "slab_ok m1 s"
      "slab_valid m1 s = slab_valid m (rv_buffer r)" "slab_empty m1 s = Some room" "1 \<le> length room" "preserves M ?B m m1"
    using slab_ensure_capacity_ok [OF o sl cap] by blast
  obtain c rd' where rs: "read_some (length room) (rv_reader r) = (c, rd')" by (cases "read_some (length room) (rv_reader r)")
  have "0 < length room" using 1(6) by linarith
  note c = read_some_ok [OF rs this rd nr]
  obtain m2 where 2: "slab_write 0 c s m1 = Some m2" "arena_ok (slab_muts s + M) ?B m2" "slab_ok m2 s"
      "slab_empty m2 s = Some (overwrite 0 c room)" "slab_valid m2 s = slab_valid m1 s" "preserves M ?B m1 m2"
    by (rule slab_write_ok [OF 1(2,3,5), of 0 c]) (use c(2) in simp_all)
  define s' where "s' = slab_make_valid (length c) s"
  define r' where "r' = r\<lparr>rv_buffer := s', rv_reader := rd'\<rparr>"
  have run: "recv_read r m = Some (r', m2)"
    using 1(1,5,6) rs c(1) 2(1) by (auto simp: recv_read_def r'_def s'_def)
  obtain w where w: "slab_valid m (rv_buffer r) = Some w" "w @ concat (rv_reader r) = concat (map (packet_bytes bo) ps) @ (if rv_active r then send_end bo else [])"
    using t by (auto simp: to_come_def)
  have "slab_ok m2 s' \<and> slab_valid m2 s' = Some (w @ c)"
  proof -
    have wd: "bm_within m2 (sl_buffer s)" by (rule buffer_within [OF 2(2)])
    have wv: "w = take (sl_valid s) (bm_deref m2 (sl_buffer s))" using w(1) 1(4) 2(5) slab_valid_Some [OF 2(3)] by simp
    have eo: "drop (sl_valid s) (bm_deref m2 (sl_buffer s)) = overwrite 0 c room" using 2(4) slab_empty_Some [OF 2(3)] by simp
    have sv: "sl_valid s \<le> bm_len (sl_buffer s)" using 2(3) by (simp add: slab_ok_def)
    have "length (overwrite 0 c room) = length room" using c(2) by simp
    then have lr: "length room = bm_len (sl_buffer s) - sl_valid s" using arg_cong [OF eo, of length] bm_len_deref [OF wd] by simp
    have le: "sl_valid s + length c \<le> bm_len (sl_buffer s)" using c(2) lr sv by simp
    then have so: "slab_ok m2 s'" using 2(3) by (simp add: slab_ok_def s'_def slab_make_valid_def slab_muts_def)
    have "take (length c) (overwrite 0 c room) = c" by (simp add: overwrite_def)
    then have "take (sl_valid s + length c) (bm_deref m2 (sl_buffer s)) = w @ c" using wv eo by (simp add: take_add)
    then show ?thesis using so slab_valid_Some [OF so] by (simp add: s'_def slab_make_valid_def)
  qed
  note sv = this
  have o2: "arena_ok (slab_muts s' + M) ?B m2" using 2(2) by (simp add: s'_def slab_make_valid_def slab_muts_def)
  have ok': "rv_ok M B r' m2" using o2 sv c(4) by (simp add: rv_ok_def r'_def)
  have t': "to_come bo r' m2 ps" using sv w(2) c(3) by (simp add: to_come_def r'_def)
  have p: "preserves M ?B m m2" by (rule preserves_trans [OF 1(7) 2(6)])
  have st': "staged_as bo base r' m2 qs" by (rule staged_preserves [OF p st]) (simp add: r'_def)
  have "preserves M B m m2" by (rule preserves_mono [OF p]) simp_all
  moreover have "length (concat rd') < length (concat (rv_reader r))" 
  proof -
    have "0 < length c" using c(1) by simp
    then show ?thesis using arg_cong [OF c(3), of length] by (simp only: length_append)
  qed
  ultimately show ?thesis using that [OF run ok' t' st'] by (simp add: r'_def)
qed

lemma carries_frames: "map (by_deref m) bs = fs \<Longrightarrow> carries m bs fs"
  unfolding carries_def by (rule exI [of _ "map (\<lambda>f. [f]) fs"]) (simp add: comp_def)

lemma carries_target:
  assumes "preserves M (mset (concat (map mq_queue qs)) + B) m m'" and "i < length qs"
  shows "carries m' (mq_queue (qs ! i)) fs = carries m (mq_queue (qs ! i)) fs"
proof (rule carries_cong)
  fix b assume b: "b \<in> set (mq_queue (qs ! i))"
  have "mq_queue (qs ! i) \<in> set (map mq_queue qs)" using assms(2) by simp
  then have "b \<in># mset (concat (map mq_queue qs)) + B" using b by auto
  then show "by_deref m' b = by_deref m b" using assms(1) by (simp only: preserves_def)
qed

text \<open>One round: read, consume the complete messages, and pass them along.\<close>

lemma recv_round_ok:
  assumes bo: "byte_order_ok bo" and ok: "rv_ok M (mset (concat (map mq_queue targets)) + B) r m"
    and sts: "rv_stageds r = map (\<lambda>_. []) targets" and ps: "\<forall>p \<in> set ps. packet_ok p \<and> routed base (length targets) p"
    and t: "to_come bo r m ps" and v: "sl_valid (rv_buffer r) < 2 ^ 63" and act: "rv_active r" and rd: "rv_reader r \<noteq> []"
    and np: "\<forall>q \<in> set targets. \<not> mq_panic q" and c: "\<forall>i < length targets. carries m (mq_queue (targets ! i)) (f i)"
  obtains r' targets' m' ps1 ps2 where "recv_loop_rounds bo base r targets m = recv_loop_rounds bo base r' targets' m'" and "ps = ps1 @ ps2"
    and "rv_ok M (mset (concat (map mq_queue targets')) + B) r' m'" and "rv_stageds r' = map (\<lambda>_. []) targets'" and "length targets' = length targets"
    and "to_come bo r' m' ps2" and "preserves M B m m'" and "\<forall>q \<in> set targets'. \<not> mq_panic q"
    and "\<forall>i < length targets. carries m' (mq_queue (targets' ! i)) (f i @ map (packet_bytes bo) (filter (addressed (base + i)) ps1))"
    and "length (concat (rv_reader r')) < length (concat (rv_reader r)) \<or> \<not> rv_active r'"
    and "if rv_active r' then rv_reader r' \<noteq> [] \<and> sl_valid (rv_buffer r') < 2 ^ 63 else ps2 = []"
proof -
  let ?Q = "mset (concat (map mq_queue targets))"
  have st0: "staged_as bo base r m []" by (simp add: staged_as_def sts)
  obtain r1 m1 where 1: "recv_read r m = Some (r1, m1)" "rv_ok M (?Q + B) r1 m1" "to_come bo r1 m1 ps" "staged_as bo base r1 m1 []"
      "preserves M (?Q + B) m m1" "rv_active r1 = rv_active r" "rv_stageds r1 = rv_stageds r" "length (concat (rv_reader r1)) < length (concat (rv_reader r))"
    by (rule recv_read_ok [OF ok rd v t st0])
  have ps': "\<forall>p \<in> set ps. packet_ok p \<and> routed base (length (rv_stageds r1)) p" and a1: "rv_active r1" using ps act 1(6,7) sts by simp_all
  obtain r2 m2 ps1 ps2 where 2: "recv_messages bo base r1 m1 = Some (r2, m2)" "ps = ps1 @ ps2" "rv_ok M (?Q + B) r2 m2" "to_come bo r2 m2 ps2"
      "staged_as bo base r2 m2 ([] @ ps1)" "preserves M (?Q + B) m1 m2" "length (rv_stageds r2) = length (rv_stageds r1)"
      "if rv_active r2 then rv_reader r2 = rv_reader r1 \<and> rv_reader r1 \<noteq> [] \<and> sl_valid (rv_buffer r2) < 2 ^ 63 else ps2 = []"
    using recv_messages_ok [OF bo 1(2) ps' 1(3) a1 1(4)] by blast
  have p2: "preserves M (?Q + B) m m2" by (rule preserves_trans [OF 1(5) 2(6)])
  have len: "length (rv_stageds r2) = length targets" using 2(7) 1(7) sts by simp
  let ?g = "\<lambda>i. map (packet_bytes bo) (filter (addressed (base + i)) ps1)"
  have o2: "arena_ok (slab_muts (rv_buffer r2) + M) (mset (concat (rv_stageds r2)) + (?Q + B)) m2" and sl2: "slab_ok m2 (rv_buffer r2)"
    and nr2: "[] \<notin> set (rv_reader r2)" using 2(3) by (simp_all add: rv_ok_def)
  have c2: "\<forall>i < length targets. carries m2 (mq_queue (targets ! i)) (f i)" using c carries_target [OF p2] by blast
  have g2: "\<forall>i < length targets. carries m2 (rv_stageds r2 ! i) (?g i)" using 2(5) len by (auto simp: staged_as_def intro: carries_frames)
  obtain targets' m3 where 3: "recv_pass (rv_stageds r2) targets m2 = Some (targets', m3)"
      "arena_ok (slab_muts (rv_buffer r2) + M) (mset (concat (map mq_queue targets')) + B) m3" "ar_mem m3 = ar_mem m2" "length targets' = length targets"
      "\<forall>q \<in> set targets'. \<not> mq_panic q" "\<forall>i < length targets. carries m2 (mq_queue (targets' ! i)) (f i @ ?g i)"
    using recv_pass_ok [OF o2 len np c2 g2] by blast
  define r3 where "r3 = r2\<lparr>rv_stageds := map (\<lambda>_. []) (rv_stageds r2)\<rparr>"
  have run: "recv_loop_rounds bo base r targets m = recv_loop_rounds bo base r3 targets' m3"
    using act 1(1) 2(1) 3(1) by (subst recv_loop_rounds.simps) (simp add: r3_def)
  have ok3: "rv_ok M (mset (concat (map mq_queue targets')) + B) r3 m3"
    using 3(2) slab_ok_preserves [OF preserves_mem [OF 3(3)] sl2] nr2 by (simp add: rv_ok_def r3_def)
  have st3: "rv_stageds r3 = map (\<lambda>_. []) targets'" using len 3(4) by (simp add: r3_def map_eq_conv map_replicate_const)
  have t3: "to_come bo r3 m3 ps2" 
  proof -
    have "slab_valid m3 (rv_buffer r2) = slab_valid m2 (rv_buffer r2)" by (simp add: slab_valid_def bm_deref_def 3(3))
    then show ?thesis using 2(4) by (simp add: to_come_def r3_def)
  qed
  have "preserves M B m m2" by (rule preserves_mono [OF p2]) simp_all
  then have p3: "preserves M B m m3" using preserves_trans preserves_mem [OF 3(3)] by blast
  have c3: "\<forall>i < length targets. carries m3 (mq_queue (targets' ! i)) (f i @ ?g i)"
    using 3(6) carries_cong [of _ m3 m2] 3(3) by (simp add: by_deref_def)
  have l3: "length (concat (rv_reader r3)) < length (concat (rv_reader r)) \<or> \<not> rv_active r3" using 2(8) 1(8) by (auto simp: r3_def)
  have f3: "if rv_active r3 then rv_reader r3 \<noteq> [] \<and> sl_valid (rv_buffer r3) < 2 ^ 63 else ps2 = []" using 2(8) by (auto simp: r3_def split: if_splits)
  show ?thesis by (rule that [OF run 2(2) ok3 st3 3(4) t3 p3 3(5) c3 l3 f3])
qed

lemma recv_rounds_ok:
  assumes bo: "byte_order_ok bo" and "rv_ok M (mset (concat (map mq_queue targets)) + B) r m"
    and "rv_stageds r = map (\<lambda>_. []) targets" and "\<forall>p \<in> set ps. packet_ok p \<and> routed base (length targets) p"
    and "to_come bo r m ps" and "sl_valid (rv_buffer r) < 2 ^ 63" and "rv_active r" and "rv_reader r \<noteq> []"
    and "\<forall>q \<in> set targets. \<not> mq_panic q" and "\<forall>i < length targets. carries m (mq_queue (targets ! i)) (f i)"
  shows "\<exists>targets' r' m'. recv_loop_rounds bo base r targets m = Some (targets', r', m') \<and> length targets' = length targets
    \<and> arena_ok (slab_muts (rv_buffer r') + M) (mset (concat (map mq_queue targets')) + B) m' \<and> preserves M B m m' \<and> (\<forall>q \<in> set targets'. \<not> mq_panic q)
    \<and> (\<forall>i < length targets. carries m' (mq_queue (targets' ! i)) (f i @ map (packet_bytes bo) (filter (addressed (base + i)) ps)))"
  using assms(2-)
proof (induction "length (concat (rv_reader r))" arbitrary: r targets m ps f rule: less_induct)
  case less
  obtain r1 targets1 m1 ps1 ps2 where 1: "recv_loop_rounds bo base r targets m = recv_loop_rounds bo base r1 targets1 m1" "ps = ps1 @ ps2"
      "rv_ok M (mset (concat (map mq_queue targets1)) + B) r1 m1" "rv_stageds r1 = map (\<lambda>_. []) targets1" "length targets1 = length targets"
      "to_come bo r1 m1 ps2" "preserves M B m m1" "\<forall>q \<in> set targets1. \<not> mq_panic q"
      "\<forall>i < length targets. carries m1 (mq_queue (targets1 ! i)) (f i @ map (packet_bytes bo) (filter (addressed (base + i)) ps1))"
      "length (concat (rv_reader r1)) < length (concat (rv_reader r)) \<or> \<not> rv_active r1"
      "if rv_active r1 then rv_reader r1 \<noteq> [] \<and> sl_valid (rv_buffer r1) < 2 ^ 63 else ps2 = []"
    by (rule recv_round_ok [OF bo less(2-10)])
  show ?case
  proof (cases "rv_active r1")
    case False
    then have "recv_loop_rounds bo base r1 targets1 m1 = Some (targets1, r1, m1)" by (subst recv_loop_rounds.simps) simp
    moreover have "arena_ok (slab_muts (rv_buffer r1) + M) (mset (concat (map mq_queue targets1)) + B) m1"
      using 1(3) by (simp add: rv_ok_def 1(4))
    ultimately show ?thesis using 1 False by simp
  next
    case True
    have a: "\<forall>p \<in> set ps2. packet_ok p \<and> routed base (length targets1) p" using less(4) 1(2,5) by simp
    have b: "\<forall>i < length targets1. carries m1 (mq_queue (targets1 ! i)) (f i @ map (packet_bytes bo) (filter (addressed (base + i)) ps1))" using 1(5,9) by simp
    have d: "length (concat (rv_reader r1)) < length (concat (rv_reader r))" "sl_valid (rv_buffer r1) < 2 ^ 63" "rv_reader r1 \<noteq> []" using 1(10,11) True by simp_all
    obtain targets' r' m' where 2: "recv_loop_rounds bo base r1 targets1 m1 = Some (targets', r', m')" "length targets' = length targets1"
        "arena_ok (slab_muts (rv_buffer r') + M) (mset (concat (map mq_queue targets')) + B) m'" "preserves M B m1 m'" "\<forall>q \<in> set targets'. \<not> mq_panic q"
        "\<forall>i < length targets1. carries m' (mq_queue (targets' ! i)) ((f i @ map (packet_bytes bo) (filter (addressed (base + i)) ps1)) @ map (packet_bytes bo) (filter (addressed (base + i)) ps2))"
      using less(1) [OF d(1) 1(3,4) a 1(6) d(2) True d(3) 1(8) b] by blast
    then show ?thesis using 1(1,2,5) preserves_trans [OF 1(7) 2(4)] by (intro exI [of _ targets'] exI [of _ r'] exI [of _ m']) simp
  qed
qed

lemma concat_map_concat: "concat (map concat xss) = concat (concat xss)"
  by (induction xss) simp_all

lemma send_round_ok:
  assumes "\<forall>q \<in> set sources. \<not> mq_panic q" and "concat (map mq_queue sources) \<noteq> []" and "carries m (concat (map mq_queue sources)) fs"
    and "arena_ok M (mset (concat (map mq_queue sources)) + B) m"
  shows "send_round sources m = Some (concat fs, map (\<lambda>q. q\<lparr>mq_queue := []\<rparr>) sources, by_drop_all (concat (map mq_queue sources)) m)
    \<and> arena_ok M B (by_drop_all (concat (map mq_queue sources)) m)"
proof -
  obtain fss where f: "map (by_deref m) (concat (map mq_queue sources)) = map concat fss" "concat fss = fs"
    using assms(3) unfolding carries_def by blast
  then have "concat (map (by_deref m) (concat (map mq_queue sources))) = concat fs" by (simp add: concat_map_concat)
  then show ?thesis using sa_drain_ok [OF assms(1), of "[]"] assms(2) by_drop_all_ok [OF assms(4)] by (simp add: send_round_def del: concat_eq_Nil_conv)
qed

lemma recv_loop_ok:
  assumes bo: "byte_order_ok bo" and rf: "refill_ok refill" and ok: "arena_ok M (mset (concat (map mq_queue targets)) + B) m"
    and np: "\<forall>q \<in> set targets. \<not> mq_panic q" and c: "\<forall>i < length targets. carries m (mq_queue (targets ! i)) (f i)"
    and ps: "\<forall>p \<in> set ps. packet_ok p \<and> routed base (length targets) p"
    and rd: "concat rd = concat (map (packet_bytes bo) ps) @ send_end bo" "[] \<notin> set rd"
  shows "\<exists>targets' r' m'. recv_loop bo refill base rd targets m = Some (targets', r', m') \<and> length targets' = length targets
    \<and> arena_ok (slab_muts (rv_buffer r') + M) (mset (concat (map mq_queue targets')) + B) m' \<and> preserves M B m m' \<and> (\<forall>q \<in> set targets'. \<not> mq_panic q)
    \<and> (\<forall>i < length targets. carries m' (mq_queue (targets' ! i)) (f i @ map (packet_bytes bo) (filter (addressed (base + i)) ps)))"
proof -
  obtain s m0 where n: "slab_new 20 refill m = (s, m0)" by (cases "slab_new 20 refill m")
  note k = slab_new_ok [OF ok n rf]
  define r where "r = \<lparr>rv_buffer = s, rv_stageds = map (\<lambda>_. []) targets, rv_active = True, rv_reader = rd\<rparr>"
  have p: "preserves M (mset (concat (map mq_queue targets)) + B) m m0" using k(4) by simp
  have a1: "rv_ok M (mset (concat (map mq_queue targets)) + B) r m0" using k(1,2) rd(2) by (simp add: rv_ok_def r_def)
  have a2: "to_come bo r m0 ps" using k(3) rd(1) by (simp add: to_come_def r_def)
  have "rd \<noteq> []" using rd(1) send_end_read(1) [OF bo] by auto
  then have a3: "rv_stageds r = map (\<lambda>_. []) targets" "sl_valid (rv_buffer r) < 2 ^ 63" "rv_active r" "rv_reader r \<noteq> []"
    using k(5) by (simp_all add: r_def)
  have a4: "\<forall>i < length targets. carries m0 (mq_queue (targets ! i)) (f i)" using c carries_target [OF p] by blast
  obtain targets' r' m' where l: "recv_loop_rounds bo base r targets m0 = Some (targets', r', m')" "length targets' = length targets"
      "arena_ok (slab_muts (rv_buffer r') + M) (mset (concat (map mq_queue targets')) + B) m'" "preserves M B m0 m'" "\<forall>q \<in> set targets'. \<not> mq_panic q"
      "\<forall>i < length targets. carries m' (mq_queue (targets' ! i)) (f i @ map (packet_bytes bo) (filter (addressed (base + i)) ps))"
    using recv_rounds_ok [OF bo a1 a3(1) ps a2 a3(2,3,4) np a4] by blast
  have "preserves M B m m0" by (rule preserves_mono [OF p]) simp_all
  then have "preserves M B m m'" using l(4) by (rule preserves_trans)
  moreover have "recv_loop bo refill base rd targets m = Some (targets', r', m')" using l(1) n by (simp add: recv_loop_def r_def)
  ultimately show ?thesis using l by blast
qed

text \<open>
  C12: What the send thread takes from its queues and writes, followed by the final header, is delivered by the
  receive thread of the other process: however the network cuts the stream into chunks, \<open>recv_loop\<close> returns,
  and the queue of every local worker has grown by exactly the messages addressed to it, whole and in
  order, broadcast messages included.
\<close>
theorem network_roundtrip:
  assumes "byte_order_ok bo" and "refill_ok refill" and "\<forall>p \<in> set ps. packet_ok p \<and> routed base (length targets) p"
    and "\<forall>q \<in> set sources. \<not> mq_panic q" and "concat (map mq_queue sources) \<noteq> []"
    and "carries ms (concat (map mq_queue sources)) (map (packet_bytes bo) ps)" and "arena_ok Ms (mset (concat (map mq_queue sources)) + Bs) ms"
    and "\<forall>q \<in> set targets. \<not> mq_panic q" and "\<forall>i < length targets. carries m (mq_queue (targets ! i)) (f i)"
    and "arena_ok M (mset (concat (map mq_queue targets)) + B) m"
  shows "\<exists>out sources' ms'. send_round sources ms = Some (out, sources', ms') \<and> (\<forall>q \<in> set sources'. mq_queue q = [])
    \<and> (\<forall>rd. concat rd = out @ send_end bo \<and> [] \<notin> set rd \<longrightarrow>
        (\<exists>targets' r' m'. recv_loop bo refill base rd targets m = Some (targets', r', m') \<and> length targets' = length targets
          \<and> (\<forall>i < length targets. carries m' (mq_queue (targets' ! i)) (f i @ map (packet_bytes bo) (filter (addressed (base + i)) ps)))
          \<and> arena_ok (slab_muts (rv_buffer r') + M) (mset (concat (map mq_queue targets')) + B) m'))"
proof -
  have s: "send_round sources ms = Some (concat (map (packet_bytes bo) ps), map (\<lambda>q. q\<lparr>mq_queue := []\<rparr>) sources, by_drop_all (concat (map mq_queue sources)) ms)"
    using send_round_ok [OF assms(4-7)] by blast
  have "\<exists>targets' r' m'. recv_loop bo refill base rd targets m = Some (targets', r', m') \<and> length targets' = length targets
      \<and> (\<forall>i < length targets. carries m' (mq_queue (targets' ! i)) (f i @ map (packet_bytes bo) (filter (addressed (base + i)) ps)))
      \<and> arena_ok (slab_muts (rv_buffer r') + M) (mset (concat (map mq_queue targets')) + B) m'"
    if "concat rd = concat (map (packet_bytes bo) ps) @ send_end bo \<and> [] \<notin> set rd" for rd
    using recv_loop_ok [OF assms(1,2,10,8,9,3)] that by blast
  with s show ?thesis by auto
qed

definition example_packet :: packet where
  "example_packet = (\<lparr>mh_channel = 4, mh_source = 0, mh_target_lower = 2, mh_target_upper = 3, mh_length = 1, mh_seqno = 0\<rparr>, [7])"

theorem network_roundtrip_witness:
  "\<exists>targets' r' m'. recv_loop big_endian example_refill 2 [packet_bytes big_endian example_packet, send_end big_endian] [mq_new] arena_empty
       = Some (targets', r', m') \<and> carries m' (mq_queue (targets' ! 0)) [packet_bytes big_endian example_packet]"
proof -
  let ?f = "packet_bytes big_endian example_packet"
  let ?q = "mq_new\<lparr>mq_queue := [\<lparr>by_ptr = 0, by_len = 49, by_sequestered = 0\<rparr>]\<rparr>"
  define ms :: arena where "ms = \<lparr>ar_mem = [?f], ar_refs = [1]\<rparr>"
  have l: "length ?f = 49" by (simp add: packet_length [OF big_endian_ok] example_packet_def)
  then have "?f \<noteq> []" by (metis list.size(3) zero_neq_numeral)
  have s: "length (send_end big_endian) = 48" by (rule send_end_read(1) [OF big_endian_ok])
  have d: "by_deref ms \<lparr>by_ptr = 0, by_len = 49, by_sequestered = 0\<rparr> = ?f" using l by (simp add: by_deref_def ms_def)
  have h: "refill_ok example_refill" "\<forall>p \<in> set [example_packet]. packet_ok p \<and> routed 2 (length [mq_new]) p" "\<forall>q \<in> set [?q]. \<not> mq_panic q"
      "concat (map mq_queue [?q]) \<noteq> []" "carries ms (concat (map mq_queue [?q])) (map (packet_bytes big_endian) [example_packet])"
      "arena_ok {#} (mset (concat (map mq_queue [?q])) + {#}) ms" "\<forall>q \<in> set [mq_new]. \<not> mq_panic q"
      "\<forall>i < length [mq_new]. carries arena_empty (mq_queue ([mq_new] ! i)) ((\<lambda>_. []) i)" "arena_ok {#} (mset (concat (map mq_queue [mq_new])) + {#}) arena_empty"
    using l carries_single [of ms "\<lparr>by_ptr = 0, by_len = 49, by_sequestered = 0\<rparr>" "[?f]"] d
    by (simp_all add: example_refill_def refill_ok_def example_packet_def packet_ok_def routed_def mq_new_def arena_ok_def by_within_def ms_def exclusive_def arena_empty_def)
  have o: "send_round [?q] ms = Some (?f, [mq_new], by_drop_all [\<lparr>by_ptr = 0, by_len = 49, by_sequestered = 0\<rparr>] ms)"
    by (simp add: send_round_def mq_drain_into_def mq_new_def d)
  have "concat [?f, send_end big_endian] = ?f @ send_end big_endian" "[] \<notin> set [?f, send_end big_endian]"
    using l s by auto
  note rd = this
  from network_roundtrip [OF big_endian_ok h] obtain out sources' ms' where "send_round [?q] ms = Some (out, sources', ms')"
    and all: "\<forall>rd. concat rd = out @ send_end big_endian \<and> [] \<notin> set rd \<longrightarrow> (\<exists>targets' r' m'. recv_loop big_endian example_refill 2 rd [mq_new] arena_empty = Some (targets', r', m')
      \<and> length targets' = length [mq_new] \<and> (\<forall>i < length [mq_new]. carries m' (mq_queue (targets' ! i)) ([] @ map (packet_bytes big_endian) (filter (addressed (2 + i)) [example_packet])))
      \<and> arena_ok (slab_muts (rv_buffer r') + {#}) (mset (concat (map mq_queue targets')) + {#}) m')" by blast
  then have "out = ?f" using o by simp
  with spec [OF all, of "[?f, send_end big_endian]"] rd obtain targets' r' m' where
    "recv_loop big_endian example_refill 2 [?f, send_end big_endian] [mq_new] arena_empty = Some (targets', r', m')"
    "\<forall>i < length [mq_new]. carries m' (mq_queue (targets' ! i)) ([] @ map (packet_bytes big_endian) (filter (addressed (2 + i)) [example_packet]))"
    by blast
  then show ?thesis by (simp add: addressed_def example_packet_def)
qed

end
