(* ===== verification/Message_Codec.thy ===== *)
theory Message_Codec
  imports Serializing_Allocator
begin

text \<open>
  Serialization of dataflow messages: \<open>Message\<close> and \<open>ContainerBytes\<close> for \<open>Vec<T>\<close>
  (\<open>timely/src/dataflow/channels/mod.rs\<close>).

  The \<open>bincode\<close> crate is a parameter for each type: the bytes of a value, their number, and the value read
  from the front of a slice.  \<open>bincode_ok\<close> is what its documentation promises; reading ignores what
  follows the value.  A slice that is too short makes \<open>from_bytes\<close> panic, which is \<open>None\<close>.
\<close>

record ('t, 'c) dataflow_message =
  dm_time :: 't
  dm_data :: 'c
  dm_from :: usize
  dm_seq :: usize

record 't bincode =
  serialize_into :: "'t \<Rightarrow> byte list"
  serialized_size :: "'t \<Rightarrow> nat"
  deserialize_from :: "byte list \<Rightarrow> 't"

definition bincode_ok :: "'t bincode \<Rightarrow> bool" where
  "bincode_ok bc \<longleftrightarrow> (\<forall>t rest. length (serialize_into bc t) = serialized_size bc t \<and> deserialize_from bc (serialize_into bc t @ rest) = t)"

text \<open>A value in memory is smaller than half the address space; its serialization is assumed to be as well.\<close>

definition sizes_ok :: "'t bincode \<Rightarrow> bool" where
  "sizes_ok bc \<longleftrightarrow> (\<forall>t. serialized_size bc t \<le> 2 ^ 62)"

text \<open>\<open>(n + 7) & !7\<close>\<close>

definition round_up :: "usize \<Rightarrow> usize" where
  "round_up n = (n + 7) AND NOT 7"

definition round_up_nat :: "nat \<Rightarrow> nat" where
  "round_up_nat n = unat (round_up (of_nat n))"

definition slop :: "nat \<Rightarrow> byte list" where
  "slop n = replicate (round_up_nat n - n) 0"

section \<open>Vectors\<close>

definition vec_from_bytes :: "'c bincode \<Rightarrow> byte list \<Rightarrow> 'c" where
  "vec_from_bytes bc bs = deserialize_from bc bs"

definition vec_length_in_bytes :: "'c bincode \<Rightarrow> 'c \<Rightarrow> nat" where
  "vec_length_in_bytes bc x = round_up_nat (serialized_size bc x)"

text \<open>The counter of the writer holds the number of bytes written.\<close>

definition vec_into_bytes :: "'c bincode \<Rightarrow> 'c \<Rightarrow> byte list" where
  "vec_into_bytes bc x = (let written = length (serialize_into bc x) in serialize_into bc x @ slop written)"

definition vec_bytes :: "'c bincode \<Rightarrow> 'c bytesable" where
  "vec_bytes bc = \<lparr>length_in_bytes = vec_length_in_bytes bc, into_bytes = vec_into_bytes bc, from_bytes = vec_from_bytes bc\<rparr>"

section \<open>Messages\<close>

definition msg_from_bytes :: "byte_order \<Rightarrow> 't bincode \<Rightarrow> 'c bytesable \<Rightarrow> byte list \<Rightarrow> ('t, 'c) dataflow_message option" where
  "msg_from_bytes le bc cb bs =
     (if length bs < 16 then None
      else let from = nth_u64 le bs 0; seq = nth_u64 le bs 1;
               time = deserialize_from bc (drop 16 bs);
               bytes_read = 8 + 8 + round_up_nat (serialized_size bc time)
           in if length bs < bytes_read then None
              else Some \<lparr>dm_time = time, dm_data = from_bytes cb (drop bytes_read bs), dm_from = from, dm_seq = seq\<rparr>)"

definition msg_length_in_bytes :: "'t bincode \<Rightarrow> 'c bytesable \<Rightarrow> ('t, 'c) dataflow_message \<Rightarrow> nat" where
  "msg_length_in_bytes bc cb x = 16 + round_up_nat (serialized_size bc (dm_time x)) + length_in_bytes cb (dm_data x)"

definition msg_into_bytes :: "byte_order \<Rightarrow> 't bincode \<Rightarrow> 'c bytesable \<Rightarrow> ('t, 'c) dataflow_message \<Rightarrow> byte list" where
  "msg_into_bytes le bc cb x =
     write_u64 le (dm_from x) @ write_u64 le (dm_seq x) @ serialize_into bc (dm_time x)
     @ slop (serialized_size bc (dm_time x)) @ into_bytes cb (dm_data x)"

text \<open>The implementation of \<open>Bytesable\<close>.\<close>

definition msg_bytes :: "byte_order \<Rightarrow> 't bincode \<Rightarrow> 'c bytesable \<Rightarrow> ('t, 'c) dataflow_message bytesable" where
  "msg_bytes le bc cb =
     \<lparr>length_in_bytes = msg_length_in_bytes bc cb, into_bytes = msg_into_bytes le bc cb, from_bytes = (\<lambda>bs. the (msg_from_bytes le bc cb bs))\<rparr>"

section \<open>Alignment\<close>

lemma and_not_7: "(x :: usize) AND NOT 7 = push_bit 3 (drop_bit 3 x)"
proof (rule bit_word_eqI)
  fix n assume n: "n < LENGTH(64)"
  have m: "(7 :: usize) = mask 3" by (simp add: mask_eq_exp_minus_1)
  show "bit (x AND NOT 7) n = bit (push_bit 3 (drop_bit 3 x)) n"
    unfolding m using n by (auto simp: bit_simps)
qed

lemma round_up_nat:
  assumes "n \<le> 2 ^ 63"
  shows "round_up_nat n = (n + 7) div 8 * 8"
proof -
  have b: "n + 7 < 2 ^ 64" using assms by simp
  have "unat (of_nat (n + 7) :: usize) = n + 7" using b by (simp only: unat_of_nat) simp
  then have u: "unat (of_nat n + 7 :: usize) = n + 7" by simp
  have d: "unat (drop_bit 3 (of_nat n + 7 :: usize)) = (n + 7) div 8" using u by (simp only: unat_drop_bit_eq) (simp add: drop_bit_eq_div)
  have "(n + 7) div 8 * 8 < 2 ^ 64" using b by (metis div_times_less_eq_dividend le_less_trans)
  then have "unat (push_bit 3 (drop_bit 3 (of_nat n + 7 :: usize))) = (n + 7) div 8 * 8"
    by (simp add: push_bit_eq_mult unat_word_ariths d)
  then show ?thesis by (simp only: round_up_nat_def round_up_def and_not_7)
qed

lemma round_up_props: "n \<le> 2 ^ 63 \<Longrightarrow> n \<le> round_up_nat n \<and> round_up_nat n < n + 8 \<and> 8 dvd round_up_nat n"
  by (simp add: round_up_nat) arith

lemma length_slop: "n \<le> 2 ^ 63 \<Longrightarrow> n + length (slop n) = round_up_nat n"
  using round_up_props [of n] by (simp add: slop_def)

section \<open>Round trips\<close>

lemma sizes_bound: "sizes_ok bc \<Longrightarrow> serialized_size bc t \<le> 2 ^ 63"
proof -
  assume "sizes_ok bc"
  then have "serialized_size bc t \<le> 2 ^ 62" by (simp add: sizes_ok_def)
  also have "(2 :: nat) ^ 62 \<le> 2 ^ 63" by simp
  finally show ?thesis .
qed

lemma vec_bytes_ok:
  assumes "bincode_ok bc" and "sizes_ok bc"
  shows "bytesable_ok (vec_bytes bc)" "8 dvd vec_length_in_bytes bc x"
proof -
  have b: "serialized_size bc y \<le> 2 ^ 63" for y by (rule sizes_bound [OF assms(2)])
  have l: "length (serialize_into bc y) = serialized_size bc y" for y using assms(1) by (simp add: bincode_ok_def)
  have "length (vec_into_bytes bc y) = vec_length_in_bytes bc y" for y
    using length_slop [OF b, of y] by (simp add: vec_into_bytes_def vec_length_in_bytes_def l)
  moreover have "vec_from_bytes bc (vec_into_bytes bc y) = y" for y
    using assms(1) by (simp add: vec_from_bytes_def vec_into_bytes_def bincode_ok_def)
  ultimately show "bytesable_ok (vec_bytes bc)" by (simp add: bytesable_ok_def vec_bytes_def)
  show "8 dvd vec_length_in_bytes bc x" using round_up_props [OF b] by (simp add: vec_length_in_bytes_def)
qed

lemma msg_bytes_ok:
  assumes le: "byte_order_ok le" and bc: "bincode_ok bc" "sizes_ok bc" and cb: "bytesable_ok cb"
  shows "length (msg_into_bytes le bc cb x) = msg_length_in_bytes bc cb x" "msg_from_bytes le bc cb (msg_into_bytes le bc cb x) = Some x"
proof -
  let ?t = "dm_time x" and ?n = "serialized_size bc (dm_time x)"
  let ?rest = "serialize_into bc ?t @ slop ?n @ into_bytes cb (dm_data x)"
  have b: "?n \<le> 2 ^ 63" by (rule sizes_bound [OF bc(2)])
  have l: "length (serialize_into bc ?t) = ?n" using bc(1) by (simp add: bincode_ok_def)
  have w: "length (write_u64 le u) = 8" "read_u64 le (write_u64 le u) = u" for u using le by (simp_all add: byte_order_ok_def)
  have sl: "?n + length (slop ?n) = round_up_nat ?n" by (rule length_slop [OF b])
  have d: "length (into_bytes cb (dm_data x)) = length_in_bytes cb (dm_data x)" "from_bytes cb (into_bytes cb (dm_data x)) = dm_data x"
    using cb by (simp_all add: bytesable_ok_def)
  show len: "length (msg_into_bytes le bc cb x) = msg_length_in_bytes bc cb x"
    using sl by (simp add: msg_into_bytes_def msg_length_in_bytes_def w l d)
  have i: "msg_into_bytes le bc cb x = write_u64 le (dm_from x) @ write_u64 le (dm_seq x) @ ?rest" by (simp add: msg_into_bytes_def)
  have u: "nth_u64 le (msg_into_bytes le bc cb x) 0 = dm_from x" "nth_u64 le (msg_into_bytes le bc cb x) 1 = dm_seq x"
    unfolding i by (simp_all add: nth_u64_def w)
  have "drop 16 (msg_into_bytes le bc cb x) = ?rest" unfolding i by (simp add: w)
  moreover have "deserialize_from bc ?rest = ?t" using bc(1) by (simp add: bincode_ok_def)
  ultimately have t: "deserialize_from bc (drop 16 (msg_into_bytes le bc cb x)) = ?t" by simp
  have "drop (16 + round_up_nat ?n) (msg_into_bytes le bc cb x) = drop (round_up_nat ?n) ?rest" unfolding i by (simp add: w)
  then have r: "drop (16 + round_up_nat ?n) (msg_into_bytes le bc cb x) = into_bytes cb (dm_data x)" using sl l by simp
  show "msg_from_bytes le bc cb (msg_into_bytes le bc cb x) = Some x"
    using len t u r d(2) by (simp add: msg_from_bytes_def msg_length_in_bytes_def)
qed

text \<open>
  C33: Messages with a vector of data survive serialization: \<open>into_bytes\<close> writes exactly \<open>length_in_bytes\<close> bytes, a
  positive multiple of eight, so that \<open>push\<close> never fails its assertion, and \<open>from_bytes\<close> reads the same message
  from them without panicking.
\<close>
theorem message_codec_roundtrip:
  assumes "byte_order_ok le" and "bincode_ok bt" and "sizes_ok bt" and "bincode_ok bv" and "sizes_ok bv"
  shows "bytesable_ok (msg_bytes le bt (vec_bytes bv))
    \<and> (\<forall>x. msg_from_bytes le bt (vec_bytes bv) (msg_into_bytes le bt (vec_bytes bv) x) = Some x
        \<and> 0 < msg_length_in_bytes bt (vec_bytes bv) x \<and> 8 dvd msg_length_in_bytes bt (vec_bytes bv) x)"
proof -
  note v = vec_bytes_ok [OF assms(4,5)]
  note k = msg_bytes_ok [OF assms(1-3) v(1)]
  have b: "serialized_size bt t \<le> 2 ^ 63" for t by (rule sizes_bound [OF assms(3)])
  have "8 dvd msg_length_in_bytes bt (vec_bytes bv) x" for x
    using round_up_props [OF b] v(2) by (simp add: msg_length_in_bytes_def vec_bytes_def dvd_add)
  then show ?thesis using k by (simp add: bytesable_ok_def msg_bytes_def) (simp add: msg_length_in_bytes_def)
qed

text \<open>Serialization of a single byte.\<close>

definition byte_bincode :: "byte bincode" where
  "byte_bincode = \<lparr>serialize_into = (\<lambda>b. [b]), serialized_size = (\<lambda>_. 1), deserialize_from = hd\<rparr>"

theorem message_codec_roundtrip_witness:
  "msg_from_bytes big_endian byte_bincode (vec_bytes byte_bincode)
     (msg_into_bytes big_endian byte_bincode (vec_bytes byte_bincode) \<lparr>dm_time = 3, dm_data = 5, dm_from = 1, dm_seq = 2\<rparr>)
   = Some \<lparr>dm_time = 3, dm_data = 5, dm_from = 1, dm_seq = 2\<rparr>"
proof -
  have "bincode_ok byte_bincode" "sizes_ok byte_bincode" by (simp_all add: bincode_ok_def sizes_ok_def byte_bincode_def)
  from message_codec_roundtrip [OF big_endian_ok this this] show ?thesis by blast
qed

end
