(* ===== verification/Channel_Allocators.thy ===== *)
theory Channel_Allocators
  imports Serializing_Allocator
begin

text \<open>
  Channels within a thread, message counters, broadcasting, and the assignment of targets in a
  cluster (\<open>communication/src/allocator/thread.rs\<close>, \<open>counters.rs\<close>, \<open>mod.rs\<close> and
  \<open>serializing_allocators/cluster.rs\<close>).

  The two deques a thread-local pusher and puller share are a record; the list of events a counter writes to is
  passed along.  A channel between threads is the list of messages sent and not yet received.
\<close>

section \<open>Channels of a thread\<close>

record 'a thread_channel =
  tc_queue :: "'a list"
  tc_spare :: "'a list"

definition thread_channel_new :: "'a thread_channel" where
  "thread_channel_new = \<lparr>tc_queue = [], tc_spare = []\<rparr>"

text \<open>What is left in place of the element, and the channel.\<close>

definition thread_push :: "'a option \<Rightarrow> 'a thread_channel \<Rightarrow> 'a option \<times> 'a thread_channel" where
  "thread_push element ch =
     (let ch = (case element of None \<Rightarrow> ch | Some x \<Rightarrow> ch\<lparr>tc_queue := tc_queue ch @ [x]\<rparr>)
      in case tc_spare ch of [] \<Rightarrow> (None, ch) | y # ys \<Rightarrow> (Some y, ch\<lparr>tc_spare := ys\<rparr>))"

definition thread_pull :: "'a thread_channel \<Rightarrow> 'a option \<times> 'a thread_channel" where
  "thread_pull ch = (case tc_queue ch of [] \<Rightarrow> (None, ch) | x # xs \<Rightarrow> (Some x, ch\<lparr>tc_queue := xs\<rparr>))"

section \<open>Counters\<close>

definition count_push :: "usize \<Rightarrow> ('a option \<Rightarrow> 'p \<Rightarrow> 'a option \<times> 'p) \<Rightarrow> 'a option \<Rightarrow> 'p \<Rightarrow> usize list \<Rightarrow> 'a option \<times> 'p \<times> usize list" where
  "count_push index push element p events = (let events = events @ [index]; (element, p) = push element p in (element, p, events))"

record count_puller =
  cp_index :: usize
  cp_count :: nat

definition count_pull :: "count_puller \<Rightarrow> ('p \<Rightarrow> 'a option \<times> 'p) \<Rightarrow> 'p \<Rightarrow> usize list \<Rightarrow> 'a option \<times> count_puller \<times> 'p \<times> usize list" where
  "count_pull c pull p events =
     (case pull p of
        (None, p) \<Rightarrow> if cp_count c \<noteq> 0 then (None, c\<lparr>cp_count := 0\<rparr>, p, events @ [cp_index c]) else (None, c, p, events)
      | (Some x, p) \<Rightarrow> (Some x, c\<lparr>cp_count := cp_count c + 1\<rparr>, p, events))"

text \<open>A thread-local channel with counters at both ends, and any use of it.\<close>

record 'a counted_channel =
  cc_channel :: "'a thread_channel"
  cc_puller :: count_puller
  cc_events :: "usize list"

definition counted_new :: "usize \<Rightarrow> usize list \<Rightarrow> 'a counted_channel" where
  "counted_new identifier events =
     \<lparr>cc_channel = thread_channel_new, cc_puller = \<lparr>cp_index = identifier, cp_count = 0\<rparr>, cc_events = events\<rparr>"

definition counted_push :: "'a option \<Rightarrow> 'a counted_channel \<Rightarrow> 'a counted_channel" where
  "counted_push element c =
     (case count_push (cp_index (cc_puller c)) thread_push element (cc_channel c) (cc_events c) of
        (_, ch, events) \<Rightarrow> c\<lparr>cc_channel := ch, cc_events := events\<rparr>)"

definition counted_pull :: "'a counted_channel \<Rightarrow> 'a option \<times> 'a counted_channel" where
  "counted_pull c =
     (case count_pull (cc_puller c) thread_pull (cc_channel c) (cc_events c) of
        (r, cp, ch, events) \<Rightarrow> (r, \<lparr>cc_channel = ch, cc_puller = cp, cc_events = events\<rparr>))"

section \<open>Broadcasting\<close>

fun broadcast_rest :: "('a option \<Rightarrow> 'p \<Rightarrow> 'a option \<times> 'p) \<Rightarrow> 'a option \<Rightarrow> 'a option \<Rightarrow> 'p list \<Rightarrow> 'a option \<times> 'p list" where
  "broadcast_rest push element spare [] = (spare, [])"
| "broadcast_rest push element spare (p # ps) =
     (let (spare, p) = push element p; (spare, ps) = broadcast_rest push element spare ps in (spare, p # ps))"

text \<open>Copies for all pushers but the first, then the element itself for the first.\<close>

definition broadcaster_push :: "('a option \<Rightarrow> 'p \<Rightarrow> 'a option \<times> 'p) \<Rightarrow> 'a option \<Rightarrow> 'a option \<Rightarrow> 'p list \<Rightarrow> 'a option \<times> 'a option \<times> 'p list" where
  "broadcaster_push push spare element ps =
     (case ps of
        [] \<Rightarrow> (element, spare, [])
      | p # rest \<Rightarrow>
          (let (spare, rest) = broadcast_rest push element spare rest;
               (element, p) = push element p
           in (element, spare, p # rest)))"

section \<open>Targets in a cluster\<close>

text \<open>A pusher of the allocator inside the process, or a pusher on the endpoint of a remote process.\<close>

datatype channel_push = Inner_push nat | Remote_push nat pusher

definition target_header :: "usize \<Rightarrow> nat \<Rightarrow> nat \<Rightarrow> nat \<Rightarrow> message_header" where
  "target_header identifier index lower upper =
     \<lparr>mh_channel = identifier, mh_source = of_nat index, mh_target_lower = of_nat lower, mh_target_upper = of_nat upper, mh_length = 0, mh_seqno = 0\<rparr>"

text \<open>\<open>None\<close>: no inner pusher is left, or no endpoint of that index exists.\<close>

fun ca_pushes :: "usize \<Rightarrow> nat \<Rightarrow> nat \<Rightarrow> nat \<Rightarrow> nat list \<Rightarrow> nat list \<Rightarrow> channel_push list option" where
  "ca_pushes identifier index inner_peers sends inner [] = Some []"
| "ca_pushes identifier index inner_peers sends inner (target # ts) =
     (let process_id = target div inner_peers in
      if process_id = index div inner_peers then
        (case inner of
           [] \<Rightarrow> None
         | i # inner \<Rightarrow> map_option (\<lambda>ps. Inner_push i # ps) (ca_pushes identifier index inner_peers sends inner ts))
      else
        (let process_id = (if index div inner_peers < process_id then process_id - 1 else process_id) in
         if process_id < sends then
           map_option (\<lambda>ps. Remote_push process_id \<lparr>pu_header = target_header identifier index target (target + 1)\<rparr> # ps)
             (ca_pushes identifier index inner_peers sends inner ts)
         else None))"

definition ca_allocate :: "usize \<Rightarrow> nat \<Rightarrow> nat \<Rightarrow> nat \<Rightarrow> nat \<Rightarrow> channel_push list option" where
  "ca_allocate identifier index peers inner_peers sends = ca_pushes identifier index inner_peers sends [0..<inner_peers] [0..<peers]"

text \<open>The headers of the pushers to the other processes; the first pusher of the broadcast is the inner one.\<close>

definition ca_broadcast :: "usize \<Rightarrow> nat \<Rightarrow> nat \<Rightarrow> nat \<Rightarrow> pusher list" where
  "ca_broadcast identifier index inner_peers sends =
     map (\<lambda>i. let i = (if index div inner_peers \<le> i then i + 1 else i)
              in \<lparr>pu_header = target_header identifier index (i * inner_peers) (i * inner_peers + inner_peers)\<rparr>) [0..<sends]"

section \<open>First in, first out\<close>

inductive counted_trace :: "usize \<Rightarrow> 'a list \<Rightarrow> 'a list \<Rightarrow> 'a counted_channel \<Rightarrow> bool" for chan where
  start: "counted_trace chan [] [] (counted_new chan [])"
| push: "counted_trace chan ins outs c \<Longrightarrow> counted_trace chan (case element of None \<Rightarrow> ins | Some x \<Rightarrow> ins @ [x]) outs (counted_push element c)"
| pull: "counted_trace chan ins outs c \<Longrightarrow> counted_pull c = (r, c') \<Longrightarrow>
    counted_trace chan ins (case r of None \<Rightarrow> outs | Some x \<Rightarrow> outs @ [x]) c'"
| drain: "counted_trace chan ins outs c \<Longrightarrow> counted_trace chan ins outs (c\<lparr>cc_events := []\<rparr>)"

lemma counted_trace_inv:
  "counted_trace chan ins outs c \<Longrightarrow>
     ins = outs @ tc_queue (cc_channel c) \<and> tc_spare (cc_channel c) = [] \<and> cp_index (cc_puller c) = chan"
proof (induction rule: counted_trace.induct)
  case start
  then show ?case by (simp add: counted_new_def thread_channel_new_def)
next
  case (push ins outs c element)
  then show ?case by (cases element) (simp_all add: counted_push_def count_push_def thread_push_def)
next
  case (pull ins outs c r c')
  then show ?case
    by (cases "tc_queue (cc_channel c)") (auto simp: counted_pull_def count_pull_def thread_pull_def split: if_splits)
next
  case drain
  then show ?case by simp
qed

section \<open>Every target is reached\<close>

definition remote_index :: "nat \<Rightarrow> nat \<Rightarrow> nat" where
  "remote_index own process_id = (if own < process_id then process_id - 1 else process_id)"

text \<open>What the loop makes for target \<open>t\<close> when \<open>n\<close> local targets came before it.\<close>

definition push_for :: "usize \<Rightarrow> nat \<Rightarrow> nat \<Rightarrow> nat list \<Rightarrow> nat \<Rightarrow> nat \<Rightarrow> channel_push" where
  "push_for ident index inner_peers inner t n =
     (if t div inner_peers = index div inner_peers then Inner_push (inner ! n)
      else Remote_push (remote_index (index div inner_peers) (t div inner_peers)) \<lparr>pu_header = target_header ident index t (t + 1)\<rparr>)"

abbreviation locals :: "nat \<Rightarrow> nat \<Rightarrow> nat list \<Rightarrow> nat list" where
  "locals index inner_peers ts \<equiv> filter (\<lambda>t. t div inner_peers = index div inner_peers) ts"

lemma ca_pushes_ok:
  assumes "index div inner_peers < processes" and "sends + 1 = processes"
    and "\<forall>t \<in> set ts. t div inner_peers < processes" and "length (locals index inner_peers ts) \<le> length inner"
  shows "\<exists>ps. ca_pushes ident index inner_peers sends inner ts = Some ps \<and> length ps = length ts
    \<and> (\<forall>k < length ts. ps ! k = push_for ident index inner_peers inner (ts ! k) (length (locals index inner_peers (take k ts))))"
  using assms(3,4)
proof (induction ts arbitrary: inner)
  case Nil
  then show ?case by simp
next
  case (Cons t ts)
  show ?case
  proof (cases "t div inner_peers = index div inner_peers")
    case True
    then obtain i inner' where i: "inner = i # inner'" using Cons(3) by (cases inner) auto
    have "\<forall>t \<in> set ts. t div inner_peers < processes" "length (locals index inner_peers ts) \<le> length inner'"
      using Cons(2,3) True i by simp_all
    from Cons(1) [OF this] obtain ps where ps: "ca_pushes ident index inner_peers sends inner' ts = Some ps" "length ps = length ts"
      "\<forall>k < length ts. ps ! k = push_for ident index inner_peers inner' (ts ! k) (length (locals index inner_peers (take k ts)))" by blast
    have "(Inner_push i # ps) ! k = push_for ident index inner_peers inner ((t # ts) ! k) (length (locals index inner_peers (take k (t # ts))))"
      if "k < length (t # ts)" for k
      using that ps(3) True i by (cases k) (simp_all add: push_for_def)
    moreover have "ca_pushes ident index inner_peers sends inner (t # ts) = Some (Inner_push i # ps)" using ps(1) True i by simp
    ultimately show ?thesis using ps(2) by (intro exI [of _ "Inner_push i # ps"]) simp
  next
    case False
    have "\<forall>t \<in> set ts. t div inner_peers < processes" "length (locals index inner_peers ts) \<le> length inner"
      using Cons(2,3) False by simp_all
    from Cons(1) [OF this] obtain ps where ps: "ca_pushes ident index inner_peers sends inner ts = Some ps" "length ps = length ts"
      "\<forall>k < length ts. ps ! k = push_for ident index inner_peers inner (ts ! k) (length (locals index inner_peers (take k ts)))" by blast
    let ?p = "Remote_push (remote_index (index div inner_peers) (t div inner_peers)) \<lparr>pu_header = target_header ident index t (t + 1)\<rparr>"
    have "remote_index (index div inner_peers) (t div inner_peers) < sends"
      using Cons(2) False assms(1,2) by (auto simp: remote_index_def)
    then have "ca_pushes ident index inner_peers sends inner (t # ts) = Some (?p # ps)" using ps(1) False by (simp add: Let_def remote_index_def)
    moreover have "(?p # ps) ! k = push_for ident index inner_peers inner ((t # ts) ! k) (length (locals index inner_peers (take k (t # ts))))"
      if "k < length (t # ts)" for k
      using that ps(3) False by (cases k) (simp_all add: push_for_def)
    ultimately show ?thesis using ps(2) by (intro exI [of _ "?p # ps"]) simp
  qed
qed

text \<open>The local targets among the first \<open>k\<close> workers.\<close>

lemma locals_count:
  assumes "0 < n"
  shows "length (filter (\<lambda>t. t div n = p) [0..<k]) = min n (k - p * n)"
proof (induction k)
  case (Suc k)
  have e: "k div n = p \<longleftrightarrow> p * n \<le> k \<and> k < p * n + n"
    using assms by (metis div_nat_eqI dividend_less_div_times div_times_less_eq_dividend mult.commute mult_Suc_right add.commute)
  show ?case
  proof (cases "k div n = p")
    case True
    then have b: "p * n \<le> k" "k < p * n + n" using e by simp_all
    have "length (filter (\<lambda>t. t div n = p) [0..<Suc k]) = Suc (min n (k - p * n))" using Suc True by simp
    also have "\<dots> = min n (Suc k - p * n)" using b by (simp add: Suc_diff_le)
    finally show ?thesis .
  next
    case False
    then have "k < p * n \<or> p * n + n \<le> k" using e by auto
    then show ?thesis using Suc False by auto
  qed
qed simp

definition endpoint_process :: "nat \<Rightarrow> nat \<Rightarrow> nat" where
  "endpoint_process own s = (if own \<le> s then s + 1 else s)"

definition covers_target :: "pusher \<Rightarrow> nat \<Rightarrow> bool" where
  "covers_target p t \<longleftrightarrow> unat (mh_target_lower (pu_header p)) \<le> t \<and> t < unat (mh_target_upper (pu_header p))"

lemma unat_of_nat_small: "n < 2 ^ 64 \<Longrightarrow> unat (of_nat n :: usize) = n"
  by (simp only: unat_of_nat) simp

lemma covers_header:
  assumes "lower < 2 ^ 64" and "upper < 2 ^ 64"
  shows "covers_target \<lparr>pu_header = target_header ident index lower upper\<rparr> u \<longleftrightarrow> lower \<le> u \<and> u < upper"
  using unat_of_nat_small [OF assms(1)] unat_of_nat_small [OF assms(2)] by (simp add: covers_target_def target_header_def)

lemma div_eq_range: "0 < n \<Longrightarrow> (t :: nat) div n = i \<longleftrightarrow> i * n \<le> t \<and> t < i * n + n"
  by (metis div_nat_eqI dividend_less_div_times div_times_less_eq_dividend mult.commute mult_Suc_right add.commute)

lemma remote_endpoint:
  assumes "own < processes" and "q < processes"
  shows "q \<noteq> own \<Longrightarrow> remote_index own q < processes - 1 \<and> endpoint_process own (remote_index own q) = q"
    and "s < processes - 1 \<Longrightarrow> endpoint_process own s < processes \<and> endpoint_process own s \<noteq> own"
    and "endpoint_process own s = endpoint_process own s' \<Longrightarrow> s = s'"
  using assms by (auto simp: remote_index_def endpoint_process_def split: if_splits)

lemma push_for_local:
  assumes "0 < n" and "t div n = index div n"
  shows "push_for ident index n [0..<n] t (min n (t - index div n * n)) = Inner_push (t mod n)"
proof -
  have "t - index div n * n = t mod n" using assms(2) by (metis minus_div_mult_eq_mod)
  moreover have "t mod n < n" using assms(1) by simp
  ultimately show ?thesis using assms(2) by (simp add: push_for_def min_def)
qed

lemma broadcast_covers:
  assumes "0 < inner_peers" and "index < processes * inner_peers" and "processes * inner_peers < 2 ^ 64" and "s < processes - 1"
  shows "covers_target (ca_broadcast ident index inner_peers (processes - 1) ! s) t
    \<longleftrightarrow> endpoint_process (index div inner_peers) s = t div inner_peers"
proof -
  let ?own = "index div inner_peers"
  let ?i = "endpoint_process ?own s"
  have own: "?own < processes" using assms(2) by (simp add: less_mult_imp_div_less)
  have "?i < processes" using remote_endpoint(2) [OF own own assms(4)] by simp
  then have "(?i + 1) * inner_peers \<le> processes * inner_peers" by (intro mult_le_mono1) simp
  then have "?i * inner_peers < 2 ^ 64" "?i * inner_peers + inner_peers < 2 ^ 64" using assms(3) by (simp_all add: algebra_simps)
  note c = covers_header [OF this]
  have "ca_broadcast ident index inner_peers (processes - 1) ! s = \<lparr>pu_header = target_header ident index (?i * inner_peers) (?i * inner_peers + inner_peers)\<rparr>"
    using assms(4) by (simp add: ca_broadcast_def endpoint_process_def Let_def)
  then have "covers_target (ca_broadcast ident index inner_peers (processes - 1) ! s) t \<longleftrightarrow> t div inner_peers = ?i"
    using c div_eq_range [OF assms(1), of t ?i] by simp
  then show ?thesis by auto
qed

lemma one_endpoint:
  assumes "own < processes" and "q < processes"
  shows "q \<noteq> own \<longleftrightarrow> (\<exists>!s. s < processes - 1 \<and> endpoint_process own s = q)"
proof (cases "q = own")
  case True
  then show ?thesis using remote_endpoint(2) [OF assms(1,1)] by blast
next
  case False
  note e = remote_endpoint(1) [OF assms False]
  have "\<exists>!s. s < processes - 1 \<and> endpoint_process own s = q"
    using e remote_endpoint(3) [OF assms(1,1)] by metis
  then show ?thesis using False by simp
qed

text \<open>
  In a cluster of \<open>processes\<close> processes with \<open>inner_peers\<close> workers each, allocating a channel yields one pusher
  per worker: the workers of the own process get the inner pushers in order, any other worker a pusher whose
  header names just that worker, on the endpoint of its process.  A broadcast has one header per other
  process; every worker outside the own process is covered by exactly one of them, the one sent to its
  process, and no worker of the own process is.
\<close>
theorem cluster_targets:
  assumes "0 < inner_peers" and "index < processes * inner_peers" and "processes * inner_peers < 2 ^ 64"
  shows "\<exists>ps. ca_allocate ident index (processes * inner_peers) inner_peers (processes - 1) = Some ps \<and> length ps = processes * inner_peers
    \<and> (\<forall>t < processes * inner_peers.
         (if t div inner_peers = index div inner_peers then ps ! t = Inner_push (t mod inner_peers)
          else \<exists>s p. ps ! t = Remote_push s p \<and> s < processes - 1 \<and> endpoint_process (index div inner_peers) s = t div inner_peers
                 \<and> (\<forall>u. covers_target p u \<longleftrightarrow> u = t))
       \<and> (\<forall>s < processes - 1. covers_target (ca_broadcast ident index inner_peers (processes - 1) ! s) t
            \<longleftrightarrow> endpoint_process (index div inner_peers) s = t div inner_peers)
       \<and> (t div inner_peers \<noteq> index div inner_peers \<longleftrightarrow> (\<exists>!s. s < processes - 1 \<and> endpoint_process (index div inner_peers) s = t div inner_peers)))"
proof -
  let ?n = "processes * inner_peers" and ?own = "index div inner_peers"
  have own: "?own < processes" using assms(2) by (simp add: less_mult_imp_div_less)
  have dv: "t div inner_peers < processes" if "t < ?n" for t using that by (simp add: less_mult_imp_div_less)
  have lc: "length (locals index inner_peers [0..<k]) = min inner_peers (k - ?own * inner_peers)" for k by (rule locals_count [OF assms(1)])
  have "\<forall>t \<in> set [0..<?n]. t div inner_peers < processes" "length (locals index inner_peers [0..<?n]) \<le> length [0..<inner_peers]"
    "processes - 1 + 1 = processes" using dv lc [of ?n] own by auto
  from ca_pushes_ok [OF own this(3) this(1,2), of ident] obtain ps where
    ps: "ca_allocate ident index ?n inner_peers (processes - 1) = Some ps" "length ps = ?n"
      "\<forall>k < ?n. ps ! k = push_for ident index inner_peers [0..<inner_peers] k (length (locals index inner_peers (take k [0..<?n])))"
    by (auto simp: ca_allocate_def)
  have at: "ps ! t = push_for ident index inner_peers [0..<inner_peers] t (min inner_peers (t - ?own * inner_peers))" if "t < ?n" for t
    using ps(3) that lc [of t] by (simp add: take_upt min_def)
  have loc: "ps ! t = Inner_push (t mod inner_peers)" if "t < ?n" "t div inner_peers = ?own" for t
    using at [OF that(1)] push_for_local [OF assms(1) that(2)] by simp
  have rem: "\<exists>s p. ps ! t = Remote_push s p \<and> s < processes - 1 \<and> endpoint_process ?own s = t div inner_peers \<and> (\<forall>u. covers_target p u \<longleftrightarrow> u = t)"
    if t: "t < ?n" and d: "t div inner_peers \<noteq> ?own" for t
  proof -
    have "covers_target \<lparr>pu_header = target_header ident index t (t + 1)\<rparr> u \<longleftrightarrow> u = t" for u
      using covers_header [of t "t + 1"] t assms(3) by auto
    then show ?thesis using at [OF t] d remote_endpoint(1) [OF own dv [OF t] d] by (auto simp: push_for_def)
  qed
  note br = broadcast_covers [OF assms] and un = one_endpoint [OF own]
  show ?thesis using ps(1,2) loc rem br un dv by (intro exI [of _ ps]) auto
qed

theorem cluster_targets_witness:
  "\<exists>ps. ca_allocate 7 3 6 2 2 = Some ps \<and> ps ! 2 = Inner_push 0
     \<and> (\<forall>s < 2. covers_target (ca_broadcast 7 3 2 2 ! s) 5 \<longleftrightarrow> endpoint_process 1 s = 2)"
proof -
  have "(0 :: nat) < 2" "(3 :: nat) < 3 * 2" "(3 :: nat) * 2 < 2 ^ 64" by simp_all
  from cluster_targets [OF this, of 7] obtain ps where ps: "ca_allocate 7 3 (3 * 2) 2 (3 - 1) = Some ps"
    "\<forall>t < 3 * 2. (if t div 2 = 3 div 2 then ps ! t = Inner_push (t mod 2)
        else \<exists>s p. ps ! t = Remote_push s p \<and> s < 3 - 1 \<and> endpoint_process (3 div 2) s = t div 2 \<and> (\<forall>u. covers_target p u \<longleftrightarrow> u = t))
      \<and> (\<forall>s < 3 - 1. covers_target (ca_broadcast 7 3 2 (3 - 1) ! s) t \<longleftrightarrow> endpoint_process (3 div 2) s = t div 2)
      \<and> (t div 2 \<noteq> 3 div 2 \<longleftrightarrow> (\<exists>!s. s < 3 - 1 \<and> endpoint_process (3 div 2) s = t div 2))" by blast
  have "ps ! 2 = Inner_push 0" using spec [OF ps(2), of 2] by simp
  moreover have "\<forall>s < 3 - 1. covers_target (ca_broadcast 7 3 2 (3 - 1) ! s) 5 \<longleftrightarrow> endpoint_process (3 div 2) s = 5 div 2"
    using mp [OF spec [OF ps(2), of 5]] by simp
  ultimately show ?thesis using ps(1) by simp
qed

end
