(* ===== verification/Data_Exchange.thy ===== *)
theory Data_Exchange
  imports Prelude "HOL-Library.Word"
begin

text \<open>
  Building containers and distributing their records among workers (\<open>container/src/lib.rs\<close>,
  \<open>timely/src/dataflow/channels/pushers/exchange.rs\<close> and \<open>tee.rs\<close>, and \<open>push_at\<close> of
  \<open>timely/src/dataflow/channels/mod.rs\<close>).

  A container is a \<open>Vec\<close> of elements of non-zero size: its items and its capacity.  \<open>grow\<close> is the capacity the
  allocator yields for a required one, at least that much.  The pushers behind an exchange are the lists of
  what was pushed to them; \<open>left\<close> is the container a pusher leaves in place of the one it took, about
  which nothing is assumed.
\<close>

unbundle bit_operations_syntax

section \<open>Vectors with a capacity\<close>

record 'a rvec =
  vc_items :: "'a list"
  vc_capacity :: nat

definition vec_default :: "'a rvec" where
  "vec_default = \<lparr>vc_items = [], vc_capacity = 0\<rparr>"

definition vec_push :: "(nat \<Rightarrow> nat) \<Rightarrow> 'a \<Rightarrow> 'a rvec \<Rightarrow> 'a rvec" where
  "vec_push grow x v =
     \<lparr>vc_items = vc_items v @ [x],
      vc_capacity = (if length (vc_items v) = vc_capacity v then grow (length (vc_items v) + 1) else vc_capacity v)\<rparr>"

definition vec_reserve :: "(nat \<Rightarrow> nat) \<Rightarrow> nat \<Rightarrow> 'a rvec \<Rightarrow> 'a rvec" where
  "vec_reserve grow additional v =
     (if vc_capacity v - length (vc_items v) < additional then v\<lparr>vc_capacity := grow (length (vc_items v) + additional)\<rparr> else v)"

definition default_capacity :: "nat \<Rightarrow> nat" where
  "default_capacity sz = (if sz = 0 then 2 ^ 13 else if sz \<le> 2 ^ 13 then 2 ^ 13 div sz else 1)"

definition at_capacity :: "'a rvec \<Rightarrow> bool" where
  "at_capacity v \<longleftrightarrow> length (vc_items v) = vc_capacity v"

definition ensure_capacity :: "(nat \<Rightarrow> nat) \<Rightarrow> nat \<Rightarrow> 'a rvec \<Rightarrow> 'a rvec option \<Rightarrow> 'a rvec \<times> 'a rvec option" where
  "ensure_capacity grow sz v stash =
     (let (v, stash) = (if vc_capacity v = 0 then ((case stash of None \<Rightarrow> vec_default | Some w \<Rightarrow> w)\<lparr>vc_items := []\<rparr>, None) else (v, stash));
          preferred = default_capacity sz
      in (if vc_capacity v < preferred then vec_reserve grow (preferred - vc_capacity v) v else v, stash))"

section \<open>The capacity container builder\<close>

record 'a container_builder =
  ccb_current :: "'a rvec"
  ccb_empty :: "'a rvec option"
  ccb_pending :: "'a rvec list"

definition ccb_default :: "'a container_builder" where
  "ccb_default = \<lparr>ccb_current = vec_default, ccb_empty = None, ccb_pending = []\<rparr>"

definition ccb_push_into :: "(nat \<Rightarrow> nat) \<Rightarrow> nat \<Rightarrow> 'a \<Rightarrow> 'a container_builder \<Rightarrow> 'a container_builder" where
  "ccb_push_into grow sz item b =
     (let (current, empty) = ensure_capacity grow sz (ccb_current b) (ccb_empty b);
          current = vec_push grow item current
      in if at_capacity current
         then \<lparr>ccb_current = vec_default, ccb_empty = empty, ccb_pending = ccb_pending b @ [current]\<rparr>
         else \<lparr>ccb_current = current, ccb_empty = empty, ccb_pending = ccb_pending b\<rparr>)"

text \<open>A container is handed out as a reference to the field \<open>empty\<close>, which the caller may write to.\<close>

definition ccb_extract :: "'a container_builder \<Rightarrow> 'a rvec option \<times> 'a container_builder" where
  "ccb_extract b =
     (case ccb_pending b of
        [] \<Rightarrow> (None, b)
      | c # cs \<Rightarrow> (Some c, b\<lparr>ccb_empty := Some c, ccb_pending := cs\<rparr>))"

definition ccb_finish :: "'a container_builder \<Rightarrow> 'a rvec option \<times> 'a container_builder" where
  "ccb_finish b =
     (let b = (if vc_items (ccb_current b) \<noteq> [] then b\<lparr>ccb_current := vec_default, ccb_pending := ccb_pending b @ [ccb_current b]\<rparr> else b)
      in case ccb_pending b of
           [] \<Rightarrow> (None, b\<lparr>ccb_empty := None\<rparr>)
         | c # cs \<Rightarrow> (Some c, b\<lparr>ccb_empty := Some c, ccb_pending := cs\<rparr>))"

section \<open>Pushing messages\<close>

type_synonym ('t, 'a) pushee = "('t \<times> 'a list) option list"

type_synonym ('t, 'a) left_behind = "'t \<times> 'a list \<Rightarrow> 'a rvec option"

definition push_at :: "('t, 'a) left_behind \<Rightarrow> 'a rvec \<Rightarrow> 't \<Rightarrow> ('t, 'a) pushee \<Rightarrow> 'a rvec \<times> ('t, 'a) pushee" where
  "push_at left buffer time p =
     (let m = (time, vc_items buffer)
      in (case left m of None \<Rightarrow> vec_default | Some v \<Rightarrow> v, p @ [Some m]))"

text \<open>
  \<open>while let Some(c) = builder.extract() { send(c) }\<close>, and the same with \<open>finish\<close>, the loops of every client of
  a builder.  The container is a reference into the builder: what \<open>send\<close> leaves in it stays there.
\<close>

function drain_extract :: "('a rvec \<Rightarrow> 's \<Rightarrow> 'a rvec \<times> 's) \<Rightarrow> 'a container_builder \<Rightarrow> 's \<Rightarrow> 'a container_builder \<times> 's" where
  "drain_extract send b s =
     (case ccb_extract b of
        (None, b) \<Rightarrow> (b, s)
      | (Some c, b) \<Rightarrow> (let (c, s) = send c s in drain_extract send (b\<lparr>ccb_empty := Some c\<rparr>) s))"
  by auto
termination
  by (relation "measure (\<lambda>(_, b, _). length (ccb_pending b))") (auto simp: ccb_extract_def split: list.splits)

function drain_finish :: "('a rvec \<Rightarrow> 's \<Rightarrow> 'a rvec \<times> 's) \<Rightarrow> 'a container_builder \<Rightarrow> 's \<Rightarrow> 'a container_builder \<times> 's" where
  "drain_finish send b s =
     (case ccb_finish b of
        (None, b) \<Rightarrow> (b, s)
      | (Some c, b) \<Rightarrow> (let (c, s) = send c s in drain_finish send (b\<lparr>ccb_empty := Some c\<rparr>) s))"
  by auto
termination
  by (relation "measure (\<lambda>(_, b, _). length (ccb_pending b) + (if vc_items (ccb_current b) \<noteq> [] then 1 else 0))")
    (auto simp: ccb_finish_def vec_default_def Let_def dest: arg_cong [where f = length] split: list.splits if_splits)

declare drain_extract.simps [simp del] drain_finish.simps [simp del]

definition push_extracted :: "('t, 'a) left_behind \<Rightarrow> 't \<Rightarrow> 'a container_builder \<Rightarrow> ('t, 'a) pushee \<Rightarrow> 'a container_builder \<times> ('t, 'a) pushee" where
  "push_extracted left time = drain_extract (\<lambda>c. push_at left c time)"

definition push_finished :: "('t, 'a) left_behind \<Rightarrow> 't \<Rightarrow> 'a container_builder \<Rightarrow> ('t, 'a) pushee \<Rightarrow> 'a container_builder \<times> ('t, 'a) pushee" where
  "push_finished left time = drain_finish (\<lambda>c. push_at left c time)"

section \<open>The exchange pusher\<close>

record ('t, 'a) exchange =
  ex_pushers :: "('t, 'a) pushee list"
  ex_current :: "'t option"
  ex_builders :: "'a container_builder list"

definition exchange_new :: "nat \<Rightarrow> ('t, 'a) exchange" where
  "exchange_new peers = \<lparr>ex_pushers = replicate peers [], ex_current = None, ex_builders = replicate peers ccb_default\<rparr>"

definition is_power_of_two :: "nat \<Rightarrow> bool" where
  "is_power_of_two n \<longleftrightarrow> (\<exists>k \<le> n. n = 2 ^ k)"

lemma is_power_of_two_code [code]: "is_power_of_two n \<longleftrightarrow> list_ex (\<lambda>k. n = 2 ^ k) [0..<Suc n]"
  by (auto simp: is_power_of_two_def list_ex_iff less_Suc_eq_le)

definition exchange_index :: "('a \<Rightarrow> 64 word) \<Rightarrow> nat \<Rightarrow> 'a \<Rightarrow> nat" where
  "exchange_index hash_func pushers x =
     (if is_power_of_two pushers then unat (hash_func x AND (of_nat (pushers - 1)))
      else unat (hash_func x mod of_nat pushers))"

text \<open>\<open>None\<close>: the remainder of a division by zero, or an index out of range.\<close>

fun ex_partition :: "(nat \<Rightarrow> nat) \<Rightarrow> nat \<Rightarrow> ('t, 'a) left_behind \<Rightarrow> ('a \<Rightarrow> 64 word) \<Rightarrow> 'a list \<Rightarrow> 't \<Rightarrow> ('t, 'a) exchange \<Rightarrow> ('t, 'a) exchange option" where
  "ex_partition grow sz left hash_func [] time e = Some e"
| "ex_partition grow sz left hash_func (x # xs) time e =
     (if ex_pushers e = [] then None
      else do { let index = exchange_index hash_func (length (ex_pushers e)) x;
                b \<leftarrow> vec_get (ex_builders e) index;
                p \<leftarrow> vec_get (ex_pushers e) index;
                let (b, p) = push_extracted left time (ccb_push_into grow sz x b) p;
                ex_partition grow sz left hash_func xs time
                  (e\<lparr>ex_builders := (ex_builders e)[index := b], ex_pushers := (ex_pushers e)[index := p]\<rparr>) })"

definition ex_flush :: "('t, 'a) left_behind \<Rightarrow> 't \<Rightarrow> ('t, 'a) exchange \<Rightarrow> ('t, 'a) exchange" where
  "ex_flush left time e =
     (let r = map2 (push_finished left time) (ex_builders e) (ex_pushers e)
      in e\<lparr>ex_builders := map fst r, ex_pushers := map snd r\<rparr>)"

definition ex_push :: "(nat \<Rightarrow> nat) \<Rightarrow> nat \<Rightarrow> ('t, 'a) left_behind \<Rightarrow> ('a \<Rightarrow> 64 word) \<Rightarrow> ('t \<times> 'a list) option \<Rightarrow> ('t, 'a) exchange \<Rightarrow> ('t, 'a) exchange option" where
  "ex_push grow sz left hash_func message e =
     (if length (ex_pushers e) = 1 then Some (e\<lparr>ex_pushers := [hd (ex_pushers e) @ [message]]\<rparr>)
      else case message of
        Some (time, data) \<Rightarrow>
          (let e = (case ex_current e of
                      Some current_time \<Rightarrow> if current_time \<noteq> time then (ex_flush left current_time e)\<lparr>ex_current := Some time\<rparr> else e
                    | None \<Rightarrow> e\<lparr>ex_current := Some time\<rparr>)
           in ex_partition grow sz left hash_func data time e)
      | None \<Rightarrow>
          (let e = (case ex_current e of Some time \<Rightarrow> (ex_flush left time e)\<lparr>ex_current := None\<rparr> | None \<Rightarrow> e)
           in Some (e\<lparr>ex_pushers := map (\<lambda>p. p @ [None]) (ex_pushers e)\<rparr>)))"

section \<open>Tees\<close>

text \<open>Copies for all pushers but the last, then the message itself.\<close>

definition tee_push :: "('t \<times> 'a list) option \<Rightarrow> ('t, 'a) pushee list \<Rightarrow> ('t, 'a) pushee list" where
  "tee_push message pushers =
     (if pushers = [] then []
      else map (\<lambda>p. p @ [message]) (butlast pushers) @ [last pushers @ [message]])"

lemma tee_push_all: "tee_push message pushers = map (\<lambda>p. p @ [message]) pushers"
  by (induction pushers) (auto simp: tee_push_def)

section \<open>Builders keep the records\<close>

definition ccb_records :: "'a container_builder \<Rightarrow> 'a list" where
  "ccb_records b = concat (map vc_items (ccb_pending b)) @ vc_items (ccb_current b)"

text \<open>A vector without capacity holds nothing.\<close>

definition ccb_ok :: "'a container_builder \<Rightarrow> bool" where
  "ccb_ok b \<longleftrightarrow> length (vc_items (ccb_current b)) \<le> vc_capacity (ccb_current b)"

definition delivered :: "('t, 'a) pushee \<Rightarrow> ('t \<times> 'a) list" where
  "delivered p = concat (map (\<lambda>m. case m of None \<Rightarrow> [] | Some (t, xs) \<Rightarrow> map (Pair t) xs) p)"

lemma delivered_append [simp]: "delivered (p @ q) = delivered p @ delivered q"
  by (simp add: delivered_def)

lemma delivered_simps [simp]: "delivered [] = []" "delivered [None] = []" "delivered [Some (t, xs)] = map (Pair t) xs"
  by (simp_all add: delivered_def)

definition times_count :: "'t \<Rightarrow> ('t \<times> 'd) list \<Rightarrow> int" where
  "times_count t rs = int (length (filter (\<lambda>r. fst r = t) rs))"

lemma times_count_simps [simp]:
  "times_count t [] = 0" "times_count t (xs @ ys) = times_count t xs + times_count t ys"
  "times_count t (map (Pair u) ds) = (if u = t then int (length ds) else 0)"
  by (simp_all add: times_count_def filter_map comp_def)

lemma ccb_default_ok [simp]: "ccb_ok ccb_default" "ccb_records ccb_default = []"
  by (simp_all add: ccb_ok_def ccb_default_def vec_default_def ccb_records_def)

lemma ensure_capacity_items:
  assumes "ensure_capacity grow sz v stash = (w, s)" and "length (vc_items v) \<le> vc_capacity v"
  shows "vc_items w = vc_items v"
  using assms by (auto simp: ensure_capacity_def vec_reserve_def Let_def split: if_splits prod.splits)

lemma ensure_capacity_le:
  assumes "ensure_capacity grow sz v stash = (w, s)" and "length (vc_items v) \<le> vc_capacity v" and "\<And>n. n \<le> grow n"
  shows "length (vc_items w) \<le> vc_capacity w"
proof -
  have g: "n \<le> k \<Longrightarrow> n \<le> grow k" for n k using assms(3) [of k] by simp
  show ?thesis using assms(1,2) by (auto intro!: g simp: ensure_capacity_def vec_reserve_def Let_def split: if_splits prod.splits)
qed

lemma ccb_push_into_ok:
  assumes "ccb_ok b" and "\<And>n. n \<le> grow n"
  shows "ccb_ok (ccb_push_into grow sz x b)" "ccb_records (ccb_push_into grow sz x b) = ccb_records b @ [x]"
proof -
  obtain w s where e: "ensure_capacity grow sz (ccb_current b) (ccb_empty b) = (w, s)" by (cases "ensure_capacity grow sz (ccb_current b) (ccb_empty b)")
  have l: "length (vc_items (ccb_current b)) \<le> vc_capacity (ccb_current b)" using assms(1) by (simp add: ccb_ok_def)
  note i = ensure_capacity_items [OF e l] and c = ensure_capacity_le [OF e l assms(2)]
  show "ccb_records (ccb_push_into grow sz x b) = ccb_records b @ [x]"
    by (simp add: ccb_push_into_def e ccb_records_def vec_push_def vec_default_def i Let_def)
  have "Suc n \<le> grow (Suc n)" for n by (rule assms(2))
  then show "ccb_ok (ccb_push_into grow sz x b)" using c by (auto simp: ccb_push_into_def e ccb_ok_def vec_push_def vec_default_def Let_def at_capacity_def)
qed

lemma fold_push_into_ok:
  assumes "\<And>n. n \<le> grow n"
  shows "ccb_ok b \<Longrightarrow> ccb_ok (fold (ccb_push_into grow sz) xs b) \<and> ccb_records (fold (ccb_push_into grow sz) xs b) = ccb_records b @ xs"
  by (induction xs arbitrary: b) (simp_all add: ccb_push_into_ok [OF _ assms])

section \<open>Draining a builder\<close>

lemma drain_extract_fold:
  "\<exists>v. drain_extract send b s = (b\<lparr>ccb_empty := v, ccb_pending := []\<rparr>, fold (\<lambda>c s. snd (send c s)) (ccb_pending b) s)"
proof (induction send b s rule: drain_extract.induct [case_names step])
  case (step send b s)
  show ?case
  proof (cases "ccb_pending b")
    case Nil
    then show ?thesis by (intro exI [of _ "ccb_empty b"]) (simp add: drain_extract.simps ccb_extract_def)
  next
    case (Cons c cs)
    obtain v t where v: "send c s = (v, t)" by (cases "send c s")
    have x: "ccb_extract b = (Some c, b\<lparr>ccb_empty := Some c, ccb_pending := cs\<rparr>)" using Cons by (simp add: ccb_extract_def)
    have r: "drain_extract send b s = drain_extract send (b\<lparr>ccb_pending := cs, ccb_empty := Some v\<rparr>) t"
      using x v by (subst drain_extract.simps) simp
    from step [OF x [symmetric] HOL.refl v [symmetric] HOL.refl] show ?thesis by (simp add: r Cons v)
  qed
qed

lemma drain_finish_fold:
  "\<exists>v. drain_finish send b s =
     (b\<lparr>ccb_current := (if vc_items (ccb_current b) \<noteq> [] then vec_default else ccb_current b), ccb_empty := v, ccb_pending := []\<rparr>,
      fold (\<lambda>c s. snd (send c s)) (ccb_pending b @ (if vc_items (ccb_current b) \<noteq> [] then [ccb_current b] else [])) s)"
proof (induction send b s rule: drain_finish.induct [case_names step])
  case (step send b s)
  define q where "q = ccb_pending b @ (if vc_items (ccb_current b) \<noteq> [] then [ccb_current b] else [])"
  define b0 where "b0 = b\<lparr>ccb_current := (if vc_items (ccb_current b) \<noteq> [] then vec_default else ccb_current b), ccb_pending := q\<rparr>"
  have f: "ccb_finish b = (case q of [] \<Rightarrow> (None, b0\<lparr>ccb_empty := None\<rparr>) | c # cs \<Rightarrow> (Some c, b0\<lparr>ccb_empty := Some c, ccb_pending := cs\<rparr>))"
    by (cases b) (simp add: ccb_finish_def b0_def q_def Let_def split: list.splits)
  have e: "vc_items (ccb_current b0) = []" by (simp add: b0_def vec_default_def)
  have goal: "\<exists>v. drain_finish send b s = (b0\<lparr>ccb_empty := v, ccb_pending := []\<rparr>, fold (\<lambda>c s. snd (send c s)) q s)"
  proof (cases q)
    case Nil
    then have "b0\<lparr>ccb_empty := None\<rparr> = b0\<lparr>ccb_empty := None, ccb_pending := []\<rparr>" by (cases b) (simp add: b0_def)
    then show ?thesis using f Nil by (subst drain_finish.simps) auto
  next
    case (Cons c cs)
    obtain v t where v: "send c s = (v, t)" by (cases "send c s")
    have x: "ccb_finish b = (Some c, b0\<lparr>ccb_empty := Some c, ccb_pending := cs\<rparr>)" using Cons f by simp
    have r: "drain_finish send b s = drain_finish send (b0\<lparr>ccb_pending := cs, ccb_empty := Some v\<rparr>) t"
      using x v by (subst drain_finish.simps) simp
    from step [OF x [symmetric] HOL.refl v [symmetric] HOL.refl] show ?thesis by (simp add: r Cons v e)
  qed
  then show ?case by (simp add: b0_def q_def)
qed

text \<open>
  The contract of what containers are sent to: \<open>ok\<close> is an invariant of its state that sending keeps; \<open>recs\<close> is
  what arrived there, and \<open>mk\<close> how a record arrives.  Either loop then moves the records of the builder on, in
  order.
\<close>

locale container_invariant =
  fixes send :: "'a rvec \<Rightarrow> 's \<Rightarrow> 'a rvec \<times> 's" and ok :: "'s \<Rightarrow> bool"
  assumes send_ok: "ok s \<Longrightarrow> ok (snd (send c s))"
begin

lemma send_all_inv: "ok s \<Longrightarrow> ok (fold (\<lambda>c s. snd (send c s)) cs s)"
  by (induction cs arbitrary: s) (simp_all add: send_ok)

lemma extract_inv:
  assumes "drain_extract send b s = (b', s')" and "ccb_ok b" and "ok s"
  shows "ccb_ok b' \<and> ccb_pending b' = [] \<and> ok s'"
  using drain_extract_fold [of send b s] send_all_inv [OF assms(3)] assms(1,2) by (auto simp: ccb_ok_def)

lemma finish_inv:
  assumes "drain_finish send b s = (b', s')" and "ccb_ok b" and "ok s"
  shows "ccb_ok b' \<and> ccb_records b' = [] \<and> ccb_pending b' = [] \<and> ok s'"
  using drain_finish_fold [of send b s] send_all_inv [OF assms(3)] assms(1,2)
  by (auto simp: ccb_ok_def ccb_records_def vec_default_def intro: send_ok)

end

locale container_sink = container_invariant send ok
  for send :: "'a rvec \<Rightarrow> 's \<Rightarrow> 'a rvec \<times> 's" and ok :: "'s \<Rightarrow> bool" +
  fixes recs :: "'s \<Rightarrow> 'r list" and mk :: "'a \<Rightarrow> 'r"
  assumes send_recs: "ok s \<Longrightarrow> recs (snd (send c s)) = recs s @ map mk (vc_items c)"
begin

lemma send_all_recs:
  "ok s \<Longrightarrow> recs (fold (\<lambda>c s. snd (send c s)) cs s) = recs s @ map mk (concat (map vc_items cs))"
  by (induction cs arbitrary: s) (simp_all add: send_ok send_recs)

lemma extract_recs:
  assumes "drain_extract send b s = (b', s')" and "ok s"
  shows "recs s' @ map mk (ccb_records b') = recs s @ map mk (ccb_records b)"
  using drain_extract_fold [of send b s] send_all_recs [OF assms(2), of "ccb_pending b"] assms(1) by (auto simp: ccb_records_def)

lemma extract_moved:
  assumes "drain_extract send b s = (b', s')" and "ok s"
  shows "\<exists>xs. xs @ ccb_records b' = ccb_records b \<and> recs s' = recs s @ map mk xs"
  using drain_extract_fold [of send b s] send_all_recs [OF assms(2), of "ccb_pending b"] assms(1)
  by (intro exI [of _ "concat (map vc_items (ccb_pending b))"]) (auto simp: ccb_records_def)

lemma finish_recs:
  assumes "drain_finish send b s = (b', s')" and "ok s"
  shows "recs s' = recs s @ map mk (ccb_records b)"
proof -
  let ?q = "ccb_pending b @ (if vc_items (ccb_current b) \<noteq> [] then [ccb_current b] else [])"
  have "s' = fold (\<lambda>c s. snd (send c s)) ?q s" using drain_finish_fold [of send b s] assms(1) by auto
  moreover have "concat (map vc_items ?q) = ccb_records b" by (simp add: ccb_records_def)
  ultimately show ?thesis using send_all_recs [OF assms(2), of ?q] by simp
qed

end

interpretation pushee: container_sink "\<lambda>c. push_at left c time" "\<lambda>_. True" delivered "Pair time" for left time
  by unfold_locales (simp_all add: push_at_def Let_def)

lemma push_extracted_ok:
  assumes "push_extracted left time b p = (b', p')" and "ccb_ok b"
  shows "ccb_ok b' \<and> ccb_pending b' = [] \<and> delivered p' @ map (Pair time) (ccb_records b') = delivered p @ map (Pair time) (ccb_records b)"
  using pushee.extract_inv [OF assms(1) [unfolded push_extracted_def] assms(2)] pushee.extract_recs [OF assms(1) [unfolded push_extracted_def]] by simp

lemma push_finished_ok:
  assumes "push_finished left time b p = (b', p')" and "ccb_ok b"
  shows "ccb_ok b' \<and> ccb_records b' = [] \<and> ccb_pending b' = [] \<and> delivered p' = delivered p @ map (Pair time) (ccb_records b)"
  using pushee.finish_inv [OF assms(1) [unfolded push_finished_def] assms(2)] pushee.finish_recs [OF assms(1) [unfolded push_finished_def]] by simp

section \<open>The target of a record\<close>

lemma and_mask_mod: "k < 64 \<Longrightarrow> unat ((h :: 64 word) AND of_nat (2 ^ k - 1)) = unat h mod 2 ^ k"
proof -
  assume "k < 64"
  have "of_nat (2 ^ k - 1) = (mask k :: 64 word)" by (simp add: mask_eq_exp_minus_1 of_nat_diff)
  then have "h AND of_nat (2 ^ k - 1) = take_bit k h" by (simp add: take_bit_eq_mask)
  then show ?thesis by (simp only: unsigned_take_bit_eq) (simp add: take_bit_eq_mod)
qed

lemma exchange_index_mod:
  assumes "0 < n" and "n < 2 ^ 64"
  shows "exchange_index hash_func n x = unat (hash_func x) mod n"
proof (cases "is_power_of_two n")
  case True
  then obtain k where k: "n = 2 ^ k" by (auto simp: is_power_of_two_def)
  then have "(2 :: nat) ^ k < 2 ^ 64" using assms(2) by simp
  then have "k < 64" using power_less_imp_less_exp [of "2 :: nat" k 64] by simp
  from and_mask_mod [OF this] True k show ?thesis by (simp add: exchange_index_def)
next
  case False
  have "unat (of_nat n :: 64 word) = n" using assms(2) by (simp only: unat_of_nat) simp
  then show ?thesis using False by (simp add: exchange_index_def unat_mod_distrib)
qed

section \<open>Exchanging keeps every record\<close>

definition target :: "('a \<Rightarrow> 64 word) \<Rightarrow> nat \<Rightarrow> 'a \<Rightarrow> nat" where
  "target hash_func n x = unat (hash_func x) mod n"

definition for_target :: "('a \<Rightarrow> 64 word) \<Rightarrow> nat \<Rightarrow> nat \<Rightarrow> ('t \<times> 'a) list \<Rightarrow> ('t \<times> 'a) list" where
  "for_target hash_func n i rs = filter (\<lambda>r. target hash_func n (snd r) = i) rs"

definition ex_held :: "('t, 'a) exchange \<Rightarrow> nat \<Rightarrow> ('t \<times> 'a) list" where
  "ex_held e i = (case ex_current e of None \<Rightarrow> [] | Some t \<Rightarrow> map (Pair t) (ccb_records (ex_builders e ! i)))"

definition ex_inv :: "('a \<Rightarrow> 64 word) \<Rightarrow> nat \<Rightarrow> ('t, 'a) exchange \<Rightarrow> ('t \<times> 'a) list \<Rightarrow> bool" where
  "ex_inv hash_func n e rs \<longleftrightarrow> length (ex_pushers e) = n \<and> length (ex_builders e) = n \<and> (\<forall>b \<in> set (ex_builders e). ccb_ok b)
     \<and> (ex_current e = None \<longrightarrow> (\<forall>b \<in> set (ex_builders e). ccb_records b = []))
     \<and> (\<forall>i < n. delivered (ex_pushers e ! i) @ ex_held e i = for_target hash_func n i rs)"

lemma ex_flush_ok:
  assumes "ex_inv hash_func n e rs" and "ex_current e = Some t"
  shows "ex_inv hash_func n (ex_flush left t e) rs" "\<forall>b \<in> set (ex_builders (ex_flush left t e)). ccb_records b = []"
    "ex_current (ex_flush left t e) = Some t"
proof -
  let ?e = "ex_flush left t e"
  have len: "length (ex_pushers e) = n" "length (ex_builders e) = n" using assms(1) by (simp_all add: ex_inv_def)
  have l': "length (ex_pushers ?e) = n" "length (ex_builders ?e) = n" "ex_current ?e = Some t" using len assms(2) by (simp_all add: ex_flush_def Let_def)
  have at: "ccb_ok (ex_builders ?e ! i) \<and> ccb_records (ex_builders ?e ! i) = []
      \<and> delivered (ex_pushers ?e ! i) = delivered (ex_pushers e ! i) @ map (Pair t) (ccb_records (ex_builders e ! i))" if i: "i < n" for i
  proof -
    obtain b p where bp: "push_finished left t (ex_builders e ! i) (ex_pushers e ! i) = (b, p)" by (cases "push_finished left t (ex_builders e ! i) (ex_pushers e ! i)")
    then have "ex_builders ?e ! i = b" "ex_pushers ?e ! i = p" using len i by (simp_all add: ex_flush_def Let_def)
    moreover have "ccb_ok (ex_builders e ! i)" using assms(1) i by (simp add: ex_inv_def)
    ultimately show ?thesis using push_finished_ok [OF bp] by simp
  qed
  show z: "\<forall>b \<in> set (ex_builders ?e). ccb_records b = []" "ex_current ?e = Some t" using at l' by (auto simp: in_set_conv_nth)
  have "\<forall>b \<in> set (ex_builders ?e). ccb_ok b" using at l' by (auto simp: in_set_conv_nth)
  moreover have "delivered (ex_pushers ?e ! i) @ ex_held ?e i = for_target hash_func n i rs" if "i < n" for i
    using at [OF that] assms that l'(3) by (simp add: ex_held_def ex_inv_def)
  ultimately show "ex_inv hash_func n ?e rs" using l' by (simp add: ex_inv_def)
qed

lemma ex_partition_ok:
  assumes "ex_inv hash_func n e rs" and "ex_current e = Some t" and "0 < n" and "n < 2 ^ 64" and "\<And>k. k \<le> grow k"
  shows "\<exists>e'. ex_partition grow sz left hash_func xs t e = Some e' \<and> ex_inv hash_func n e' (rs @ map (Pair t) xs) \<and> ex_current e' = Some t"
  using assms(1,2)
proof (induction xs arbitrary: e rs)
  case Nil
  then show ?case by simp
next
  case (Cons x xs)
  let ?i = "exchange_index hash_func n x"
  have len: "length (ex_pushers e) = n" "length (ex_builders e) = n" using Cons(2) by (simp_all add: ex_inv_def)
  have it: "?i = target hash_func n x" using exchange_index_mod [OF assms(3,4)] by (simp add: target_def)
  have i: "?i < n" using it assms(3) by (simp add: target_def)
  obtain b p where bp: "push_extracted left t (ccb_push_into grow sz x (ex_builders e ! ?i)) (ex_pushers e ! ?i) = (b, p)"
    by (cases "push_extracted left t (ccb_push_into grow sz x (ex_builders e ! ?i)) (ex_pushers e ! ?i)")
  have ok0: "ccb_ok (ex_builders e ! ?i)" using Cons(2) i by (simp add: ex_inv_def)
  note k = ccb_push_into_ok [OF ok0 assms(5), of sz x]
  have q: "ccb_ok b" "delivered p @ map (Pair t) (ccb_records b) = delivered (ex_pushers e ! ?i) @ map (Pair t) (ccb_records (ex_builders e ! ?i)) @ [(t, x)]"
    using push_extracted_ok [OF bp k(1)] k(2) by auto
  define e1 where "e1 = e\<lparr>ex_builders := (ex_builders e)[?i := b], ex_pushers := (ex_pushers e)[?i := p]\<rparr>"
  have "ex_pushers e \<noteq> []" using len assms(3) by auto
  then have step: "ex_partition grow sz left hash_func (x # xs) t e = ex_partition grow sz left hash_func xs t e1"
    using bp len i by (simp add: e1_def Let_def vec_get_def)
  have inv: "ex_inv hash_func n e1 (rs @ [(t, x)])"
  proof -
    have "delivered (ex_pushers e1 ! j) @ ex_held e1 j = for_target hash_func n j (rs @ [(t, x)])" if j: "j < n" for j
    proof (cases "j = ?i")
      case True
      then show ?thesis using Cons(2,3) q(2) j len it by (auto simp: e1_def ex_held_def ex_inv_def for_target_def)
    next
      case False
      then show ?thesis using Cons(2,3) j len it by (auto simp: e1_def ex_held_def ex_inv_def for_target_def)
    qed
    moreover have "\<forall>b \<in> set (ex_builders e1). ccb_ok b" using Cons(2) q(1) by (auto simp: e1_def ex_inv_def dest: set_update_subset_insert [THEN subsetD])
    ultimately show ?thesis using len Cons(3) by (simp add: ex_inv_def e1_def)
  qed
  have "ex_current e1 = Some t" using Cons(3) by (simp add: e1_def)
  from Cons(1) [OF inv this] step show ?case by simp
qed

fun ex_push_all :: "(nat \<Rightarrow> nat) \<Rightarrow> nat \<Rightarrow> ('t, 'a) left_behind \<Rightarrow> ('a \<Rightarrow> 64 word) \<Rightarrow> ('t \<times> 'a list) option list \<Rightarrow> ('t, 'a) exchange \<Rightarrow> ('t, 'a) exchange option" where
  "ex_push_all grow sz left hash_func [] e = Some e"
| "ex_push_all grow sz left hash_func (m # ms) e = do { e \<leftarrow> ex_push grow sz left hash_func m e; ex_push_all grow sz left hash_func ms e }"

lemma ex_push_ok:
  assumes inv: "ex_inv hash_func n e rs" and one: "n = 1 \<longrightarrow> ex_current e = None" and n: "0 < n" "n < 2 ^ 64" and g: "\<And>k. k \<le> grow k"
  shows "\<exists>e'. ex_push grow sz left hash_func m e = Some e' \<and> ex_inv hash_func n e' (rs @ delivered [m]) \<and> (n = 1 \<longrightarrow> ex_current e' = None)
    \<and> (m = None \<longrightarrow> ex_current e' = None)"
proof (cases "n = 1")
  case True
  have len: "length (ex_pushers e) = 1" using inv True by (simp add: ex_inv_def)
  then obtain p where p: "ex_pushers e = [p]" by (auto simp: length_Suc_conv)
  have "for_target hash_func 1 0 rs = rs" for rs :: "('b \<times> 'a) list" by (simp add: for_target_def target_def)
  then have "delivered p = rs" using inv True p one by (simp add: ex_inv_def ex_held_def)
  moreover have "for_target hash_func 1 0 (rs @ delivered [m]) = rs @ delivered [m]" by (simp add: for_target_def target_def)
  ultimately have "ex_inv hash_func n (e\<lparr>ex_pushers := [p @ [m]]\<rparr>) (rs @ delivered [m])"
    using inv True one by (simp add: ex_inv_def ex_held_def)
  then show ?thesis using len p True one by (simp add: ex_push_def)
next
  case False
  have len: "length (ex_pushers e) \<noteq> 1" using inv False by (simp add: ex_inv_def)
  show ?thesis
  proof (cases m)
    case None
    define e1 where "e1 = (case ex_current e of Some time \<Rightarrow> (ex_flush left time e)\<lparr>ex_current := None\<rparr> | None \<Rightarrow> e)"
    have i1: "ex_inv hash_func n e1 rs" "ex_current e1 = None"
    proof -
      show "ex_inv hash_func n e1 rs"
      proof (cases "ex_current e")
        case (Some t)
        note f = ex_flush_ok [OF inv Some, of left]
        have "ex_held (ex_flush left t e) i = []" if "i < n" for i
          using f(2,3) f(1) that by (simp add: ex_held_def ex_inv_def)
        then show ?thesis using f by (simp add: e1_def Some ex_inv_def ex_held_def)
      qed (simp add: e1_def inv)
      show "ex_current e1 = None" by (auto simp: e1_def split: option.split)
    qed
    have "ex_inv hash_func n (e1\<lparr>ex_pushers := map (\<lambda>p. p @ [None]) (ex_pushers e1)\<rparr>) rs"
      using i1 by (auto simp: ex_inv_def ex_held_def)
    then show ?thesis using len None i1(2) False by (simp add: ex_push_def e1_def [symmetric])
  next
    case (Some td)
    obtain t xs where td: "td = (t, xs)" by (cases td)
    define e1 where "e1 = (case ex_current e of Some u \<Rightarrow> if u \<noteq> t then (ex_flush left u e)\<lparr>ex_current := Some t\<rparr> else e | None \<Rightarrow> e\<lparr>ex_current := Some t\<rparr>)"
    have i1: "ex_inv hash_func n e1 rs" "ex_current e1 = Some t"
    proof -
      show "ex_current e1 = Some t" by (auto simp: e1_def split: option.split)
      show "ex_inv hash_func n e1 rs"
      proof (cases "ex_current e")
        case None
        have "ex_held (e\<lparr>ex_current := Some t\<rparr>) i = []" if "i < n" for i using inv None that by (simp add: ex_held_def ex_inv_def)
        then show ?thesis using inv None by (simp add: e1_def ex_inv_def) (simp add: ex_held_def)
      next
        case (Some u)
        note f = ex_flush_ok [OF inv Some, of left]
        have "ex_held (ex_flush left u e) i = [] \<and> ex_held ((ex_flush left u e)\<lparr>ex_current := Some t\<rparr>) i = []" if "i < n" for i
          using f that by (simp add: ex_held_def ex_inv_def)
        then show ?thesis using inv f Some by (auto simp: e1_def ex_inv_def)
      qed
    qed
    obtain e' where "ex_partition grow sz left hash_func xs t e1 = Some e'" "ex_inv hash_func n e' (rs @ map (Pair t) xs)"
      using ex_partition_ok [OF i1 n g, of sz left xs] by blast
    then show ?thesis using len Some td False by (simp add: ex_push_def e1_def [symmetric])
  qed
qed

lemma ex_push_all_ok:
  assumes "0 < n" and "n < 2 ^ 64" and "\<And>k. k \<le> grow k" and "ex_inv hash_func n e rs" and "n = 1 \<longrightarrow> ex_current e = None"
  shows "\<exists>e'. ex_push_all grow sz left hash_func ms e = Some e' \<and> ex_inv hash_func n e' (rs @ delivered ms) \<and> (n = 1 \<longrightarrow> ex_current e' = None)
    \<and> (ms \<noteq> [] \<and> last ms = None \<longrightarrow> ex_current e' = None)"
  using assms(4,5)
proof (induction ms arbitrary: e rs)
  case Nil
  then show ?case by simp
next
  case (Cons m ms)
  obtain e1 where 1: "ex_push grow sz left hash_func m e = Some e1" "ex_inv hash_func n e1 (rs @ delivered [m])" "n = 1 \<longrightarrow> ex_current e1 = None" "m = None \<longrightarrow> ex_current e1 = None"
    using ex_push_ok [OF Cons(2,3) assms(1-3), of sz left m] by blast
  have "delivered (m # ms) = delivered [m] @ delivered ms" using delivered_append [of "[m]" ms] by simp
  then show ?case using 1 Cons(1) [OF 1(2,3)] by (cases ms) auto
qed

text \<open>
  C15: An exchange among \<open>n\<close> workers loses, duplicates and misdirects nothing: once flushed, the pusher of each
  worker \<open>i\<close> has been given exactly the records whose hash is \<open>i\<close> modulo \<open>n\<close>, each at the time it was pushed with
  and in the order of the pushes, whether the index is computed by masking or by a remainder, and
  whatever the containers hold that the pushers leave behind.
\<close>
theorem exchange_routes:
  assumes "0 < n" and "n < 2 ^ 64" and "\<forall>k. k \<le> grow k"
  shows "\<exists>e. ex_push_all grow sz left hash_func (ms @ [None]) (exchange_new n) = Some e \<and> length (ex_pushers e) = n
    \<and> (\<forall>i < n. delivered (ex_pushers e ! i) = filter (\<lambda>r. unat (hash_func (snd r)) mod n = i) (delivered ms))"
proof -
  have "ex_inv hash_func n (exchange_new n) []" by (auto simp: ex_inv_def exchange_new_def ex_held_def for_target_def)
  moreover have "ex_current (exchange_new n) = None" by (simp add: exchange_new_def)
  ultimately obtain e where "ex_push_all grow sz left hash_func (ms @ [None]) (exchange_new n) = Some e"
      "ex_inv hash_func n e ([] @ delivered (ms @ [None]))" "ex_current e = None"
    using ex_push_all_ok [OF assms(1,2), of grow hash_func "exchange_new n" "[]" sz left "ms @ [None]"] assms(3) by auto
  then show ?thesis by (auto simp: ex_inv_def ex_held_def for_target_def target_def)
qed

theorem exchange_routes_witness:
  "\<exists>e. ex_push_all (\<lambda>k. k) 8 (\<lambda>_. None) (\<lambda>x. x) [Some (0 :: nat, [3, 4]), Some (1, [6]), None] (exchange_new 3) = Some e
     \<and> delivered (ex_pushers e ! 0) = [(0, 3), (1, 6)] \<and> delivered (ex_pushers e ! 1) = [(0, 4)]"
proof -
  have "(0 :: nat) < 3" "(3 :: nat) < 2 ^ 64" "\<forall>k. k \<le> (\<lambda>k :: nat. k) k" by simp_all
  from exchange_routes [OF this, of 8 "\<lambda>_. None" "\<lambda>x. x" "[Some (0, [3, 4]), Some (1 :: nat, [6])]"] obtain e where
    e: "ex_push_all (\<lambda>k. k) 8 (\<lambda>_. None) (\<lambda>x. x) ([Some (0, [3, 4]), Some (1 :: nat, [6])] @ [None]) (exchange_new 3) = Some e"
      "\<forall>i < 3. delivered (ex_pushers e ! i) = filter (\<lambda>r. unat (snd r) mod 3 = i) (delivered [Some (0, [3, 4]), Some (1, [6])])" by blast
  have "delivered [Some (0, [3, 4]), Some (1 :: nat, [6 :: 64 word])] = [(0, 3), (0, 4), (1, 6)]" by (simp add: delivered_def)
  then have "delivered (ex_pushers e ! 0) = [(0, 3), (1, 6)]" "delivered (ex_pushers e ! 1) = [(0, 4)]"
    using spec [OF e(2), of 0] spec [OF e(2), of 1] by simp_all
  then show ?thesis using e(1) by simp
qed

end
