(* ===== verification/Input_Handle.thy ===== *)
theory Input_Handle
  imports Operator_Builder Data_Exchange
begin

text \<open>
  Input handles and the operators they feed (\<open>timely/src/dataflow/operators/core/input.rs\<close>).

  A handle sends to any number of streams.  Each has a counter in front of its tee, here the address of the
  counter's batch and what was pushed at the tee, and a batch of progress updates, shared with the operator.
  Containers are built with the capacity builder; \<open>grow\<close>, \<open>sz\<close> and \<open>left\<close> are as in \<open>Data_Exchange\<close>.
\<close>

section \<open>Input handles\<close>

record ('t, 'd) input_handle =
  ih_activate :: "path list"
  ih_progress :: "nat list"
  ih_pushers :: "(nat \<times> ('t, 'd) pushee) list"
  ih_builder :: "'d container_builder"
  ih_buffer :: "'d rvec"
  ih_now_at :: 't

definition ih_new :: "'t \<Rightarrow> ('t, 'd) input_handle" where
  "ih_new minimum = \<lparr>ih_activate = [], ih_progress = [], ih_pushers = [], ih_builder = ccb_default, ih_buffer = vec_default, ih_now_at = minimum\<rparr>"

definition vec_clone_from :: "(nat \<Rightarrow> nat) \<Rightarrow> 'a rvec \<Rightarrow> 'a rvec \<Rightarrow> 'a rvec" where
  "vec_clone_from grow v w =
     \<lparr>vc_items = vc_items w, vc_capacity = (if length (vc_items w) \<le> vc_capacity v then vc_capacity v else grow (length (vc_items w)))\<rparr>"

text \<open>\<open>Message::push_at\<close> for a counter.\<close>

definition counter_push_at ::
  "('t::linorder, 'd) left_behind \<Rightarrow> 'd rvec \<Rightarrow> 't \<Rightarrow> nat \<times> ('t, 'd) pushee \<Rightarrow> 't buffers \<Rightarrow> 'd rvec \<times> (nat \<times> ('t, 'd) pushee) \<times> 't buffers" where
  "counter_push_at left buffer time c h =
     (let m = (time, vc_items buffer);
          (h, p) = counter_push (fst c) (Some m) h (snd c)
      in (case left m of None \<Rightarrow> vec_default | Some v \<Rightarrow> v, (fst c, p), h))"

fun send_container ::
  "(nat \<Rightarrow> nat) \<Rightarrow> ('t::linorder, 'd) left_behind \<Rightarrow> 't \<Rightarrow> 'd rvec \<Rightarrow> 'd rvec \<Rightarrow> (nat \<times> ('t, 'd) pushee) list \<Rightarrow> 't buffers
   \<Rightarrow> 'd rvec \<times> 'd rvec \<times> (nat \<times> ('t, 'd) pushee) list \<times> 't buffers" where
  "send_container grow left now_at container buffer [] h = (container, buffer, [], h)"
| "send_container grow left now_at container buffer [c] h =
     (let (container, c, h) = counter_push_at left container now_at c h in (container, buffer, [c], h))"
| "send_container grow left now_at container buffer (c # d # cs) h =
     (let buffer = vec_clone_from grow buffer container;
          (buffer, c, h) = counter_push_at left buffer now_at c h;
          (container, buffer, cs, h) = send_container grow left now_at container buffer (d # cs) h
      in (container, buffer, c # cs, h))"

type_synonym ('t, 'd) outlet = "'d rvec \<times> (nat \<times> ('t, 'd) pushee) list \<times> 't buffers"

definition ih_outlet :: "(nat \<Rightarrow> nat) \<Rightarrow> ('t::linorder, 'd) left_behind \<Rightarrow> 't \<Rightarrow> 'd rvec \<Rightarrow> ('t, 'd) outlet \<Rightarrow> 'd rvec \<times> ('t, 'd) outlet" where
  "ih_outlet grow left now_at c s = (case s of (buffer, pushers, h) \<Rightarrow> send_container grow left now_at c buffer pushers h)"

definition ih_extract_and_send ::
  "(nat \<Rightarrow> nat) \<Rightarrow> ('t::linorder, 'd) left_behind \<Rightarrow> ('t, 'd) input_handle \<Rightarrow> 't buffers \<Rightarrow> ('t, 'd) input_handle \<times> 't buffers" where
  "ih_extract_and_send grow left ih h =
     (let (b, buffer, pushers, h) = drain_extract (ih_outlet grow left (ih_now_at ih)) (ih_builder ih) (ih_buffer ih, ih_pushers ih, h)
      in (ih\<lparr>ih_builder := b, ih_buffer := buffer, ih_pushers := pushers\<rparr>, h))"

definition ih_flush ::
  "(nat \<Rightarrow> nat) \<Rightarrow> ('t::linorder, 'd) left_behind \<Rightarrow> ('t, 'd) input_handle \<Rightarrow> 't buffers \<Rightarrow> ('t, 'd) input_handle \<times> 't buffers" where
  "ih_flush grow left ih h =
     (let (b, buffer, pushers, h) = drain_finish (ih_outlet grow left (ih_now_at ih)) (ih_builder ih) (ih_buffer ih, ih_pushers ih, h)
      in (ih\<lparr>ih_builder := b, ih_buffer := buffer, ih_pushers := pushers\<rparr>, h))"

definition ih_register ::
  "(nat \<Rightarrow> nat) \<Rightarrow> ('t::linorder, 'd) left_behind \<Rightarrow> 't \<Rightarrow> nat \<times> ('t, 'd) pushee \<Rightarrow> nat \<Rightarrow> ('t, 'd) input_handle \<Rightarrow> 't buffers
   \<Rightarrow> ('t, 'd) input_handle \<times> 't buffers" where
  "ih_register grow left minimum pusher progress ih h =
     (let (ih, h) = ih_flush grow left ih h;
          h = buf_update progress minimum (- 1) h;
          h = buf_update progress (ih_now_at ih) 1 h
      in (ih\<lparr>ih_progress := ih_progress ih @ [progress], ih_pushers := ih_pushers ih @ [pusher]\<rparr>, h))"

fun done_all :: "(nat \<times> ('t::linorder, 'd) pushee) list \<Rightarrow> 't buffers \<Rightarrow> (nat \<times> ('t, 'd) pushee) list \<times> 't buffers" where
  "done_all [] h = ([], h)"
| "done_all (c # cs) h =
     (let (h, p) = counter_push (fst c) None h (snd c);
          (cs, h) = done_all cs h
      in ((fst c, p) # cs, h))"

definition ih_close_epoch ::
  "(nat \<Rightarrow> nat) \<Rightarrow> ('t::linorder, 'd) left_behind \<Rightarrow> ('t, 'd) input_handle \<Rightarrow> 't buffers \<Rightarrow> activations
   \<Rightarrow> ('t, 'd) input_handle \<times> 't buffers \<times> activations" where
  "ih_close_epoch grow left ih h av =
     (let (ih, h) = ih_flush grow left ih h;
          (pushers, h) = done_all (ih_pushers ih) h;
          h = fold (\<lambda>progress. buf_update progress (ih_now_at ih) (- 1)) (ih_progress ih) h
      in (ih\<lparr>ih_pushers := pushers\<rparr>, h, fold av_activate (ih_activate ih) av))"

definition ih_send_batch ::
  "(nat \<Rightarrow> nat) \<Rightarrow> ('t::linorder, 'd) left_behind \<Rightarrow> 'd rvec \<Rightarrow> ('t, 'd) input_handle \<Rightarrow> 't buffers
   \<Rightarrow> 'd rvec \<times> ('t, 'd) input_handle \<times> 't buffers" where
  "ih_send_batch grow left buffer ih h =
     (if vc_items buffer \<noteq> []
      then let (ih, h) = ih_flush grow left ih h;
               (buffer, own, pushers, h) = send_container grow left (ih_now_at ih) buffer (ih_buffer ih) (ih_pushers ih) h
           in (buffer, ih\<lparr>ih_buffer := own, ih_pushers := pushers\<rparr>, h)
      else (buffer, ih, h))"

text \<open>\<open>None\<close>: the assertion that time does not go backwards fails.\<close>

definition ih_advance_to ::
  "(nat \<Rightarrow> nat) \<Rightarrow> ('t::linorder, 'd) left_behind \<Rightarrow> ('t \<Rightarrow> 't \<Rightarrow> bool) \<Rightarrow> 't \<Rightarrow> ('t, 'd) input_handle \<Rightarrow> 't buffers \<Rightarrow> activations
   \<Rightarrow> (('t, 'd) input_handle \<times> 't buffers \<times> activations) option" where
  "ih_advance_to grow left le next_time ih h av =
     (if \<not> le (ih_now_at ih) next_time then None
      else if ih_now_at ih \<noteq> next_time
      then let (ih, h, av) = ih_close_epoch grow left ih h av;
               ih = ih\<lparr>ih_now_at := next_time\<rparr>;
               h = fold (\<lambda>progress. buf_update progress (ih_now_at ih) 1) (ih_progress ih) h
           in Some (ih, h, av)
      else Some (ih, h, av))"

definition ih_push_into ::
  "(nat \<Rightarrow> nat) \<Rightarrow> nat \<Rightarrow> ('t::linorder, 'd) left_behind \<Rightarrow> 'd \<Rightarrow> ('t, 'd) input_handle \<Rightarrow> 't buffers \<Rightarrow> ('t, 'd) input_handle \<times> 't buffers" where
  "ih_push_into grow sz left item ih h = ih_extract_and_send grow left (ih\<lparr>ih_builder := ccb_push_into grow sz item (ih_builder ih)\<rparr>) h"

definition ih_send ::
  "(nat \<Rightarrow> nat) \<Rightarrow> nat \<Rightarrow> ('t::linorder, 'd) left_behind \<Rightarrow> 'd \<Rightarrow> ('t, 'd) input_handle \<Rightarrow> 't buffers \<Rightarrow> ('t, 'd) input_handle \<times> 't buffers" where
  "ih_send grow sz left data ih h = ih_push_into grow sz left data ih h"

definition ih_drop ::
  "(nat \<Rightarrow> nat) \<Rightarrow> ('t::linorder, 'd) left_behind \<Rightarrow> ('t, 'd) input_handle \<Rightarrow> 't buffers \<Rightarrow> activations
   \<Rightarrow> ('t, 'd) input_handle \<times> 't buffers \<times> activations" where
  "ih_drop grow left ih h av = ih_close_epoch grow left ih h av"

section \<open>The input operator\<close>

record 't input_operator =
  io_address :: path
  io_shared_progress :: "'t shared_progress"
  io_progress :: nat
  io_messages :: nat
  io_copies :: nat

definition io_schedule :: "'t::linorder input_operator \<Rightarrow> 't buffers \<Rightarrow> (bool \<times> 't input_operator \<times> 't buffers) option" where
  "io_schedule io h =
     (let sp = io_shared_progress io
      in do { internals \<leftarrow> vec_get (sp_internals sp) 0;
              let (b, internals) = cb_drain_into (h (io_progress io)) internals;
              let h = h(io_progress io := b);
              produceds \<leftarrow> vec_get (sp_produceds sp) 0;
              let (b, produceds) = cb_drain_into (h (io_messages io)) produceds;
              let h = h(io_messages io := b);
              Some (False,
                io\<lparr>io_shared_progress := sp\<lparr>sp_internals := (sp_internals sp)[0 := internals], sp_produceds := (sp_produceds sp)[0 := produceds]\<rparr>\<rparr>, h) })"

definition io_get_internal_summary :: "'t::linorder \<Rightarrow> 't input_operator \<Rightarrow> ('s connectivity \<times> 't input_operator) option" where
  "io_get_internal_summary minimum io =
     (let sp = io_shared_progress io
      in do { internals \<leftarrow> vec_get (sp_internals sp) 0;
              Some ([], io\<lparr>io_shared_progress := sp\<lparr>sp_internals := (sp_internals sp)[0 := cb_update minimum (int (io_copies io)) internals]\<rparr>\<rparr>) })"

text \<open>The scope supplies the address of the operator and the number of workers.\<close>

definition input_from ::
  "(nat \<Rightarrow> nat) \<Rightarrow> ('t::linorder, 'd) left_behind \<Rightarrow> 't \<Rightarrow> path \<Rightarrow> nat \<Rightarrow> ('t, 'd) input_handle \<Rightarrow> 't store
   \<Rightarrow> 't input_operator \<times> ('t, 'd) input_handle \<times> 't store" where
  "input_from grow left minimum address copies ih st =
     (let (produced, st) = st_alloc st;
          ih = ih\<lparr>ih_activate := ih_activate ih @ [address]\<rparr>;
          (progress, st) = st_alloc st;
          (ih, h) = ih_register grow left minimum (produced, []) progress ih (st_buffers st)
      in (\<lparr>io_address = address, io_shared_progress = sp_new 0 1, io_progress = progress, io_messages = produced, io_copies = copies\<rparr>,
          ih, st\<lparr>st_buffers := h\<rparr>))"

section \<open>A handle and its operators\<close>

text \<open>
  The handle is driven by the program, the operators by their scopes; both meet in the store.  A scope that is
  given an operator asks for its summary at once (\<open>PerOperatorState::new\<close>).
\<close>

record ('t, 'd) input_system =
  is_handle :: "('t, 'd) input_handle"
  is_store :: "'t store"
  is_activations :: activations
  is_operators :: "'t input_operator list"

datatype ('t, 'd) input_act = Send 'd | Send_batch "'d rvec" | Flush | Advance_to 't | Input_from path nat | Schedule nat

definition is_new :: "'t \<Rightarrow> activations \<Rightarrow> ('t, 'd) input_system" where
  "is_new minimum av =
     \<lparr>is_handle = ih_new minimum, is_store = \<lparr>st_buffers = \<lambda>_. cb_new, st_next = 0\<rparr>, is_activations = av, is_operators = []\<rparr>"

definition is_put :: "('t, 'd) input_handle \<times> 't buffers \<Rightarrow> ('t, 'd) input_system \<Rightarrow> ('t, 'd) input_system" where
  "is_put ihh s = s\<lparr>is_handle := fst ihh, is_store := (is_store s)\<lparr>st_buffers := snd ihh\<rparr>\<rparr>"

fun is_act ::
  "(nat \<Rightarrow> nat) \<Rightarrow> nat \<Rightarrow> ('t::linorder, 'd) left_behind \<Rightarrow> ('t \<Rightarrow> 't \<Rightarrow> bool) \<Rightarrow> 't \<Rightarrow> ('t, 'd) input_act
   \<Rightarrow> ('t, 'd) input_system \<Rightarrow> ('t, 'd) input_system option" where
  "is_act grow sz left le minimum (Send x) s = Some (is_put (ih_send grow sz left x (is_handle s) (st_buffers (is_store s))) s)"
| "is_act grow sz left le minimum (Send_batch v) s = Some (is_put (snd (ih_send_batch grow left v (is_handle s) (st_buffers (is_store s)))) s)"
| "is_act grow sz left le minimum Flush s = Some (is_put (ih_flush grow left (is_handle s) (st_buffers (is_store s))) s)"
| "is_act grow sz left le minimum (Advance_to t) s =
     do { (ih, h, av) \<leftarrow> ih_advance_to grow left le t (is_handle s) (st_buffers (is_store s)) (is_activations s);
          Some ((is_put (ih, h) s)\<lparr>is_activations := av\<rparr>) }"
| "is_act grow sz left le minimum (Input_from address copies) s =
     (let (io, ih, st) = input_from grow left minimum address copies (is_handle s) (is_store s)
      in do { (_, io) \<leftarrow> (io_get_internal_summary minimum io :: (unit connectivity \<times> 't input_operator) option);
              Some (s\<lparr>is_handle := ih, is_store := st, is_operators := is_operators s @ [io]\<rparr>) })"
| "is_act grow sz left le minimum (Schedule i) s =
     do { io \<leftarrow> vec_get (is_operators s) i;
          (_, io, h) \<leftarrow> io_schedule io (st_buffers (is_store s));
          Some ((is_put (is_handle s, h) s)\<lparr>is_operators := (is_operators s)[i := io]\<rparr>) }"

fun is_run ::
  "(nat \<Rightarrow> nat) \<Rightarrow> nat \<Rightarrow> ('t::linorder, 'd) left_behind \<Rightarrow> ('t \<Rightarrow> 't \<Rightarrow> bool) \<Rightarrow> 't \<Rightarrow> ('t, 'd) input_act list
   \<Rightarrow> ('t, 'd) input_system \<Rightarrow> ('t, 'd) input_system option" where
  "is_run grow sz left le minimum [] s = Some s"
| "is_run grow sz left le minimum (a # as) s = do { s \<leftarrow> is_act grow sz left le minimum a s; is_run grow sz left le minimum as s }"

text \<open>What a handle promises: an epoch, and per stream the records sent since it was created, with their epochs.\<close>

record ('t, 'd) input_spec =
  in_epoch :: 't
  in_streams :: "('t \<times> 'd) list list"

fun spec_act :: "('t \<Rightarrow> 't \<Rightarrow> bool) \<Rightarrow> ('t, 'd) input_act \<Rightarrow> ('t, 'd) input_spec \<Rightarrow> ('t, 'd) input_spec option" where
  "spec_act le (Send x) a = Some (a\<lparr>in_streams := map (\<lambda>st. st @ [(in_epoch a, x)]) (in_streams a)\<rparr>)"
| "spec_act le (Send_batch v) a = Some (a\<lparr>in_streams := map (\<lambda>st. st @ map (Pair (in_epoch a)) (vc_items v)) (in_streams a)\<rparr>)"
| "spec_act le Flush a = Some a"
| "spec_act le (Advance_to t) a = (if le (in_epoch a) t then Some (a\<lparr>in_epoch := t\<rparr>) else None)"
| "spec_act le (Input_from address copies) a = Some (a\<lparr>in_streams := in_streams a @ [[]]\<rparr>)"
| "spec_act le (Schedule i) a = (if i < length (in_streams a) then Some a else None)"

fun spec_run :: "('t \<Rightarrow> 't \<Rightarrow> bool) \<Rightarrow> ('t, 'd) input_act list \<Rightarrow> ('t, 'd) input_spec \<Rightarrow> ('t, 'd) input_spec option" where
  "spec_run le [] a = Some a"
| "spec_run le (x # xs) a = do { a \<leftarrow> spec_act le x a; spec_run le xs a }"

section \<open>What operations on a handle move\<close>

lemma counter_push_at_eq:
  "counter_push_at left v time c h =
     (case left (time, vc_items v) of None \<Rightarrow> vec_default | Some w \<Rightarrow> w, (fst c, snd c @ [Some (time, vc_items v)]),
      buf_update (fst c) time (int (length (vc_items v))) h)"
  by (simp add: counter_push_at_def counter_push_def Let_def)

lemma send_container_ok:
  assumes "send_container grow left now v buffer cs h = (v', buffer', cs', h')" and "\<forall>a. cb_inv (h a)"
  shows "cs' = map (\<lambda>(a, p). (a, p @ [Some (now, vc_items v)])) cs \<and> (\<forall>a. cb_inv (h' a)) \<and> (\<forall>a. a \<notin> fst ` set cs \<longrightarrow> h' a = h a)
    \<and> (distinct (map fst cs) \<longrightarrow> (\<forall>a \<in> fst ` set cs. \<forall>t. cb_count (h' a) t = cb_count (h a) t + (if t = now then int (length (vc_items v)) else 0)))"
  using assms
proof (induction grow left now v buffer cs h arbitrary: v' buffer' cs' h' rule: send_container.induct)
  case (3 grow left now v buffer c d cs h)
  define w where "w = vec_clone_from grow buffer v"
  define h1 where "h1 = buf_update (fst c) now (int (length (vc_items v))) h"
  have w: "vc_items w = vc_items v" by (simp add: w_def vec_clone_from_def)
  obtain b1 where b1: "counter_push_at left w now c h = (b1, (fst c, snd c @ [Some (now, vc_items v)]), h1)"
    by (simp add: counter_push_at_eq w h1_def)
  obtain v2 b2 cs2 h2 where r: "send_container grow left now v b1 (d # cs) h1 = (v2, b2, cs2, h2)" by (metis prod_cases4)
  have o: "cs' = (fst c, snd c @ [Some (now, vc_items v)]) # cs2" "h' = h2"
    using 3(2) r b1 by (simp_all add: w_def [symmetric] Let_def)
  have i: "\<forall>a. cb_inv (h1 a)" using 3(3) by (simp add: h1_def buf_update_def)
  note ih = 3(1) [OF w_def b1 [symmetric] HOL.refl HOL.refl r i]
  have "cb_count (h' a) t = cb_count (h a) t + (if t = now then int (length (vc_items v)) else 0)"
    if dd: "distinct (map fst (c # d # cs))" and a: "a \<in> fst ` set (c # d # cs)" for a t
  proof (cases "a = fst c")
    case True
    then have "h2 a = h1 a" using dd ih by auto
    then show ?thesis using True o by (simp add: h1_def)
  next
    case False
    then have "a \<in> fst ` set (d # cs)" using a by auto
    moreover have "distinct (map fst (d # cs))" using dd by simp
    ultimately have "cb_count (h2 a) t = cb_count (h1 a) t + (if t = now then int (length (vc_items v)) else 0)" using ih by blast
    then show ?thesis using False o by (simp add: h1_def)
  qed
  moreover have "h' a = h a" if "a \<notin> fst ` set (c # d # cs)" for a
    using that ih o by (simp add: h1_def buf_update_def)
  ultimately show ?case using ih o by (auto simp: case_prod_beta)
qed (auto simp: counter_push_at_eq buf_update_def case_prod_beta)

text \<open>
  One handle operation: \<open>moved ih h ih' h' ds\<close> says that the records \<open>ds\<close> were added at the current epoch behind
  all those delivered or held before, the same on every stream, and that the counters agree with the deliveries.
\<close>

definition moved :: "('t::linorder, 'd) input_handle \<Rightarrow> 't buffers \<Rightarrow> ('t, 'd) input_handle \<Rightarrow> 't buffers \<Rightarrow> 'd list \<Rightarrow> bool" where
  "moved ih h ih' h' ds \<longleftrightarrow> ih_now_at ih' = ih_now_at ih \<and> ih_progress ih' = ih_progress ih \<and> ih_activate ih' = ih_activate ih
    \<and> map fst (ih_pushers ih') = map fst (ih_pushers ih) \<and> ccb_ok (ih_builder ih')
    \<and> (\<forall>a. cb_inv (h' a)) \<and> (\<forall>a. a \<notin> fst ` set (ih_pushers ih) \<longrightarrow> h' a = h a)
    \<and> (\<forall>i < length (ih_pushers ih).
         delivered (snd (ih_pushers ih' ! i)) @ map (Pair (ih_now_at ih)) (ccb_records (ih_builder ih'))
           = delivered (snd (ih_pushers ih ! i)) @ map (Pair (ih_now_at ih)) (ccb_records (ih_builder ih) @ ds)
       \<and> (\<forall>t. cb_count (h' (fst (ih_pushers ih ! i))) t - times_count t (delivered (snd (ih_pushers ih' ! i)))
              = cb_count (h (fst (ih_pushers ih ! i))) t - times_count t (delivered (snd (ih_pushers ih ! i)))))"

definition ih_ok :: "('t::linorder, 'd) input_handle \<Rightarrow> 't buffers \<Rightarrow> bool" where
  "ih_ok ih h \<longleftrightarrow> ccb_ok (ih_builder ih) \<and> distinct (map fst (ih_pushers ih)) \<and> (\<forall>a. cb_inv (h a))"

definition outlet_ok :: "nat list \<Rightarrow> 't::linorder buffers \<Rightarrow> ('t \<Rightarrow> int) \<Rightarrow> nat \<Rightarrow> ('t, 'd) outlet \<Rightarrow> bool" where
  "outlet_ok addrs h0 off i s \<longleftrightarrow> (case s of (buffer, pushers, h) \<Rightarrow>
     map fst pushers = addrs \<and> distinct addrs \<and> (\<forall>a. cb_inv (h a)) \<and> (\<forall>a. a \<notin> set addrs \<longrightarrow> h a = h0 a)
     \<and> (i < length addrs \<longrightarrow> (\<forall>t. cb_count (h (addrs ! i)) t = off t + times_count t (delivered (snd (pushers ! i))))))"

definition outlet_recs :: "nat \<Rightarrow> ('t, 'd) outlet \<Rightarrow> ('t \<times> 'd) list" where
  "outlet_recs i s = (case s of (buffer, pushers, h) \<Rightarrow> if i < length pushers then delivered (snd (pushers ! i)) else [])"

lemma outlet_step:
  assumes "outlet_ok addrs h0 off i s"
  shows "outlet_ok addrs h0 off i (snd (ih_outlet grow left now c s))"
    and "i < length addrs \<Longrightarrow> outlet_recs i (snd (ih_outlet grow left now c s)) = outlet_recs i s @ map (Pair now) (vc_items c)"
proof -
  obtain buffer pushers h where s: "s = (buffer, pushers, h)" by (rule prod_cases3)
  obtain v' buffer' cs' h' where e: "send_container grow left now c buffer pushers h = (v', buffer', cs', h')" by (metis prod_cases4)
  have a: "map fst pushers = addrs" "distinct addrs" "\<forall>a. cb_inv (h a)" using assms by (simp_all add: outlet_ok_def s)
  have im: "fst ` set pushers = set addrs" using a(1) by (metis list.set_map)
  note k = send_container_ok [OF e a(3)]
  then have cs: "cs' = map (\<lambda>(a, p). (a, p @ [Some (now, vc_items c)])) pushers" by blast
  have f: "map fst cs' = addrs" using a(1) by (auto simp: cs case_prod_beta)
  have l: "length pushers = length addrs" using a(1) by (metis length_map)
  have n: "snd (cs' ! i) = snd (pushers ! i) @ [Some (now, vc_items c)]" if "i < length addrs" using that l by (simp add: cs case_prod_beta)
  have "cb_count (h' (addrs ! i)) t = off t + times_count t (delivered (snd (cs' ! i)))" if i: "i < length addrs" for t
  proof -
    have "addrs ! i \<in> fst ` set pushers" using i im by simp
    then have "cb_count (h' (addrs ! i)) t = cb_count (h (addrs ! i)) t + (if t = now then int (length (vc_items c)) else 0)" using k a(1,2) by blast
    then show ?thesis using assms i n [OF i] by (simp add: outlet_ok_def s)
  qed
  moreover have "h' a = h0 a" if "a \<notin> set addrs" for a using that k im assms by (simp add: outlet_ok_def s)
  ultimately show "outlet_ok addrs h0 off i (snd (ih_outlet grow left now c s))"
    using f a(2) k by (simp add: outlet_ok_def ih_outlet_def s e)
  assume "i < length addrs"
  then show "outlet_recs i (snd (ih_outlet grow left now c s)) = outlet_recs i s @ map (Pair now) (vc_items c)"
    using n l f by (simp add: outlet_recs_def ih_outlet_def s e cs)
qed

interpretation outlet: container_invariant "ih_outlet grow left now" "outlet_ok addrs h0 off i" for grow left now addrs h0 off i
  using outlet_step(1) by unfold_locales blast

interpretation stream: container_sink "ih_outlet grow left now" "\<lambda>s. outlet_ok addrs h0 off i s \<and> i < length addrs" "outlet_recs i" "Pair now"
  for grow left now addrs h0 off i
  using outlet_step by unfold_locales blast+

definition pusher_offset :: "('t::linorder, 'd) input_handle \<Rightarrow> 't buffers \<Rightarrow> nat \<Rightarrow> 't \<Rightarrow> int" where
  "pusher_offset ih h i t = cb_count (h (fst (ih_pushers ih ! i))) t - times_count t (delivered (snd (ih_pushers ih ! i)))"

lemma outlet_ok_initial: "ih_ok ih h \<Longrightarrow> outlet_ok (map fst (ih_pushers ih)) h (pusher_offset ih h i) i (ih_buffer ih, ih_pushers ih, h)"
  by (simp add: outlet_ok_def ih_ok_def pusher_offset_def)

lemma outlet_moved:
  assumes "\<And>i. outlet_ok (map fst (ih_pushers ih)) h (pusher_offset ih h i) i (buffer, pushers, h')" and "ccb_ok b"
    and "\<And>i. i < length (ih_pushers ih) \<Longrightarrow> outlet_recs i (buffer, pushers, h') @ map (Pair (ih_now_at ih)) (ccb_records b)
        = outlet_recs i (ih_buffer ih, ih_pushers ih, h) @ map (Pair (ih_now_at ih)) (ccb_records (ih_builder ih) @ ds)"
  shows "moved ih h (ih\<lparr>ih_builder := b, ih_buffer := buffer, ih_pushers := pushers\<rparr>) h' ds"
proof -
  have f: "map fst pushers = map fst (ih_pushers ih)" using assms(1) by (simp add: outlet_ok_def)
  then have "length pushers = length (ih_pushers ih)" by (metis length_map)
  then show ?thesis using assms f by (simp add: moved_def outlet_ok_def outlet_recs_def pusher_offset_def)
qed

lemma flush_moved:
  assumes "ih_ok ih h" and "ih_flush grow left ih h = (ih', h')"
  shows "moved ih h ih' h' [] \<and> ccb_records (ih_builder ih') = []"
proof -
  let ?s = "(ih_buffer ih, ih_pushers ih, h)" and ?addrs = "map fst (ih_pushers ih)"
  obtain b buffer pushers h1 where r: "drain_finish (ih_outlet grow left (ih_now_at ih)) (ih_builder ih) ?s = (b, buffer, pushers, h1)"
    by (metis prod_cases4)
  have e: "ih' = ih\<lparr>ih_builder := b, ih_buffer := buffer, ih_pushers := pushers\<rparr>" "h' = h1"
    using assms(2) r by (simp_all add: ih_flush_def)
  have cb: "ccb_ok (ih_builder ih)" using assms(1) by (simp add: ih_ok_def)
  note o = outlet_ok_initial [OF assms(1)]
  note i = outlet.finish_inv [OF r cb o]
  have "moved ih h (ih\<lparr>ih_builder := b, ih_buffer := buffer, ih_pushers := pushers\<rparr>) h1 []"
    by (rule outlet_moved) (use i stream.finish_recs [OF r conjI [OF o]] in simp_all)
  then show ?thesis using e i by simp
qed

lemma push_into_moved:
  assumes "ih_ok ih h" and "\<And>n. n \<le> grow n" and "ih_push_into grow sz left x ih h = (ih', h')"
  shows "moved ih h ih' h' [x]"
proof -
  let ?s = "(ih_buffer ih, ih_pushers ih, h)" and ?addrs = "map fst (ih_pushers ih)" and ?b = "ccb_push_into grow sz x (ih_builder ih)"
  obtain b buffer pushers h1 where r: "drain_extract (ih_outlet grow left (ih_now_at ih)) ?b ?s = (b, buffer, pushers, h1)"
    by (metis prod_cases4)
  have e: "ih' = ih\<lparr>ih_builder := b, ih_buffer := buffer, ih_pushers := pushers\<rparr>" "h' = h1"
    using assms(3) r by (simp_all add: ih_push_into_def ih_extract_and_send_def)
  have "ccb_ok (ih_builder ih)" using assms(1) by (simp add: ih_ok_def)
  note cb = ccb_push_into_ok [OF this assms(2), of sz x]
  note o = outlet_ok_initial [OF assms(1)]
  note i = outlet.extract_inv [OF r cb(1) o]
  have "moved ih h (ih\<lparr>ih_builder := b, ih_buffer := buffer, ih_pushers := pushers\<rparr>) h1 [x]"
    by (rule outlet_moved) (use i stream.extract_recs [OF r conjI [OF o]] cb(2) in simp_all)
  then show ?thesis using e by simp
qed

lemma moved_ok: "ih_ok ih h \<Longrightarrow> moved ih h ih' h' ds \<Longrightarrow> ih_ok ih' h'"
  by (simp add: ih_ok_def moved_def)

lemma moved_length: "moved ih h ih' h' ds \<Longrightarrow> length (ih_pushers ih') = length (ih_pushers ih)"
  unfolding moved_def by (metis length_map)

lemma moved_trans:
  assumes "moved ih h ih1 h1 ds" and "moved ih1 h1 ih2 h2 es"
  shows "moved ih h ih2 h2 (ds @ es)"
proof -
  have l: "length (ih_pushers ih1) = length (ih_pushers ih)" by (rule moved_length [OF assms(1)])
  have m: "map fst (ih_pushers ih1) = map fst (ih_pushers ih)" using assms(1) by (simp add: moved_def)
  then have "fst ` set (ih_pushers ih1) = fst ` set (ih_pushers ih)" by (metis list.set_map)
  moreover have "fst (ih_pushers ih1 ! i) = fst (ih_pushers ih ! i)" if "i < length (ih_pushers ih)" for i
    using m l that by (metis nth_map)
  ultimately show ?thesis using assms l by (simp add: moved_def)
qed

lemma send_batch_moved:
  assumes "ih_ok ih h" and "ih_send_batch grow left v ih h = (v', ih', h')"
  shows "moved ih h ih' h' (vc_items v)"
proof (cases "vc_items v = []")
  case True
  then show ?thesis using assms by (simp add: ih_send_batch_def moved_def ih_ok_def)
next
  case False
  obtain ih1 h1 where f: "ih_flush grow left ih h = (ih1, h1)" by (cases "ih_flush grow left ih h")
  note m = flush_moved [OF assms(1) f]
  have k: "ih_ok ih1 h1" using moved_ok [OF assms(1)] m by blast
  obtain v1 own pushers h2 where c: "ih_outlet grow left (ih_now_at ih1) v (ih_buffer ih1, ih_pushers ih1, h1) = (v1, own, pushers, h2)"
    by (metis prod_cases4)
  have e: "ih' = ih1\<lparr>ih_buffer := own, ih_pushers := pushers\<rparr>" "h' = h2"
    using assms(2) False f c by (simp_all add: ih_send_batch_def ih_outlet_def)
  note o = outlet_step [OF outlet_ok_initial [OF k], of _ grow left "ih_now_at ih1" v, unfolded c snd_conv]
  have "moved ih1 h1 (ih1\<lparr>ih_builder := ih_builder ih1, ih_buffer := own, ih_pushers := pushers\<rparr>) h2 (vc_items v)"
    by (rule outlet_moved) (use o k m in \<open>auto simp: ih_ok_def\<close>)
  from moved_trans [OF conjunct1 [OF m] this] show ?thesis by (simp add: e)
qed

lemma done_all_ok:
  assumes "done_all cs h = (cs', h')" and "\<forall>a. cb_inv (h a)"
  shows "map fst cs' = map fst cs \<and> map (delivered \<circ> snd) cs' = map (delivered \<circ> snd) cs \<and> (\<forall>a. cb_inv (h' a))
    \<and> (\<forall>a. a \<notin> fst ` set cs \<longrightarrow> h' a = h a) \<and> (\<forall>a t. cb_count (h' a) t = cb_count (h a) t)"
  using assms
proof (induction cs h arbitrary: cs' h' rule: done_all.induct)
  case (2 c cs h)
  obtain empty b where b: "cb_is_empty (h (fst c)) = (empty, b)" by (cases "cb_is_empty (h (fst c))")
  define h1 where "h1 = h(fst c := b)"
  define p where "p = (if \<not> empty then snd c @ [None] else snd c)"
  have c: "counter_push (fst c) None h (snd c) = (h1, p)" by (simp add: counter_push_def b h1_def p_def)
  obtain cs1 h2 where r: "done_all cs h1 = (cs1, h2)" by (cases "done_all cs h1")
  have k: "cb_inv b" "\<forall>t. cb_count b t = cb_count (h (fst c)) t" using is_empty_snd [OF _ b] 2(3) by blast+
  have i: "\<forall>a. cb_inv (h1 a)" using 2(3) k by (simp add: h1_def)
  have o: "cs' = (fst c, p) # cs1" "h' = h2" using 2(2) c r by simp_all
  note ih = 2(1) [OF c [symmetric] HOL.refl r i]
  have "delivered p = delivered (snd c)" by (simp add: p_def)
  then show ?case using ih o k by (auto simp: h1_def)
qed simp

lemma done_moved:
  assumes "ih_ok ih h" and "done_all (ih_pushers ih) h = (cs', h')"
  shows "moved ih h (ih\<lparr>ih_pushers := cs'\<rparr>) h' []"
proof -
  have "\<forall>a. cb_inv (h a)" using assms(1) by (simp add: ih_ok_def)
  note k = done_all_ok [OF assms(2) this]
  then have l: "length cs' = length (ih_pushers ih)" by (metis length_map)
  have "delivered (snd (cs' ! i)) = delivered (snd (ih_pushers ih ! i))" if "i < length (ih_pushers ih)" for i
    using k that l by (metis comp_apply nth_map)
  then show ?thesis using k assms(1) by (simp add: moved_def ih_ok_def)
qed

lemma fold_progress_ok:
  assumes "distinct ps" and "\<forall>a. cb_inv (h a)"
  shows "(\<forall>a. cb_inv (fold (\<lambda>p. buf_update p now d) ps h a)) \<and> (\<forall>a. a \<notin> set ps \<longrightarrow> fold (\<lambda>p. buf_update p now d) ps h a = h a)
    \<and> (\<forall>a t. cb_count (fold (\<lambda>p. buf_update p now d) ps h a) t = cb_count (h a) t + (if a \<in> set ps \<and> t = now then d else 0))"
  using assms
proof (induction ps arbitrary: h)
  case (Cons p ps)
  have "\<forall>a. cb_inv (buf_update p now d h a)" using Cons.prems by (simp add: buf_update_def)
  from Cons.IH [OF _ this] Cons.prems(1) show ?case by (auto simp: buf_update_def)
qed simp

lemma close_epoch_ok:
  assumes "ih_ok ih h" and "ih_close_epoch grow left ih h av = (ih', h', av')"
  shows "\<exists>h1. moved ih h ih' h1 [] \<and> ccb_records (ih_builder ih') = []
    \<and> h' = fold (\<lambda>p. buf_update p (ih_now_at ih) (- 1)) (ih_progress ih) h1 \<and> av' = fold av_activate (ih_activate ih) av"
proof -
  obtain ih1 h1 where f: "ih_flush grow left ih h = (ih1, h1)" by (cases "ih_flush grow left ih h")
  obtain cs h2 where d: "done_all (ih_pushers ih1) h1 = (cs, h2)" by (cases "done_all (ih_pushers ih1) h1")
  note m = flush_moved [OF assms(1) f]
  note n = done_moved [OF moved_ok [OF assms(1) conjunct1 [OF m]] d]
  have s: "ih_now_at ih1 = ih_now_at ih" "ih_progress ih1 = ih_progress ih" "ih_activate ih1 = ih_activate ih" using m by (simp_all add: moved_def)
  have "ih' = ih1\<lparr>ih_pushers := cs\<rparr>" "h' = fold (\<lambda>p. buf_update p (ih_now_at ih) (- 1)) (ih_progress ih) h2" "av' = fold av_activate (ih_activate ih) av"
    using assms(2) f d s by (simp_all add: ih_close_epoch_def)
  then show ?thesis using moved_trans [OF conjunct1 [OF m] n] m by auto
qed

section \<open>The invariant of a handle with its operators\<close>

text \<open>
  Per stream: what was delivered and what the builder holds is what was sent; progress updates, reported or not,
  are the share of the other workers at the minimum and one capability at the current epoch; message counts,
  reported or not, are those of the deliveries.
\<close>

definition stream_ok ::
  "'t::linorder \<Rightarrow> 't \<Rightarrow> 'd list \<Rightarrow> 't buffers \<Rightarrow> ('t \<times> 'd) list \<Rightarrow> nat \<Rightarrow> nat \<times> ('t, 'd) pushee \<Rightarrow> 't input_operator \<Rightarrow> bool" where
  "stream_ok minimum now held h sent progress pusher io \<longleftrightarrow>
     (let sp = io_shared_progress io
      in io_progress io = progress \<and> io_messages io = fst pusher
       \<and> length (sp_internals sp) = 1 \<and> length (sp_produceds sp) = 1 \<and> cb_inv (sp_internals sp ! 0) \<and> cb_inv (sp_produceds sp ! 0)
       \<and> delivered (snd pusher) @ map (Pair now) held = sent
       \<and> (\<forall>t. cb_count (h progress) t + cb_count (sp_internals sp ! 0) t
             = (if t = minimum then int (io_copies io) - 1 else 0) + (if t = now then 1 else 0))
       \<and> (\<forall>t. cb_count (h (fst pusher)) t + cb_count (sp_produceds sp ! 0) t = times_count t (delivered (snd pusher))))"

lemma stream_ok_counts:
  assumes "stream_ok minimum now held h sent progress pusher io"
  shows "cb_count (h progress) t + cb_count (sp_internals (io_shared_progress io) ! 0) t
      = (if t = minimum then int (io_copies io) - 1 else 0) + (if t = now then 1 else 0)"
    and "cb_count (h (fst pusher)) t + cb_count (sp_produceds (io_shared_progress io) ! 0) t = times_count t (delivered (snd pusher))"
  using assms by (simp_all add: stream_ok_def Let_def)

definition is_inv :: "'t::linorder \<Rightarrow> ('t, 'd) input_system \<Rightarrow> ('t, 'd) input_spec \<Rightarrow> bool" where
  "is_inv minimum s a \<longleftrightarrow>
     (let ih = is_handle s; h = st_buffers (is_store s); n = length (is_operators s)
      in ih_ok ih h \<and> length (ih_progress ih) = n \<and> length (ih_pushers ih) = n \<and> length (in_streams a) = n \<and> in_epoch a = ih_now_at ih
       \<and> distinct (ih_progress ih @ map fst (ih_pushers ih)) \<and> (\<forall>x \<in> set (ih_progress ih @ map fst (ih_pushers ih)). x < st_next (is_store s))
       \<and> (\<forall>i < n. stream_ok minimum (ih_now_at ih) (ccb_records (ih_builder ih)) h (in_streams a ! i) (ih_progress ih ! i) (ih_pushers ih ! i)
             (is_operators s ! i)))"

lemma is_invD:
  assumes "is_inv minimum s a" and "i < length (is_operators s)"
  shows "stream_ok minimum (ih_now_at (is_handle s)) (ccb_records (ih_builder (is_handle s))) (st_buffers (is_store s)) (in_streams a ! i)
    (ih_progress (is_handle s) ! i) (ih_pushers (is_handle s) ! i) (is_operators s ! i)"
  using assms by (simp add: is_inv_def Let_def)

lemma moved_inv:
  assumes "is_inv minimum s a" and m: "moved (is_handle s) (st_buffers (is_store s)) ih' h' ds"
  shows "is_inv minimum (is_put (ih', h') s) (a\<lparr>in_streams := map (\<lambda>st. st @ map (Pair (in_epoch a)) ds) (in_streams a)\<rparr>)"
proof -
  let ?ih = "is_handle s" and ?h = "st_buffers (is_store s)"
  have k: "ih_ok ?ih ?h" "length (ih_pushers ?ih) = length (is_operators s)" "length (in_streams a) = length (is_operators s)"
    "length (ih_progress ?ih) = length (is_operators s)" "in_epoch a = ih_now_at ?ih"
    "distinct (ih_progress ?ih @ map fst (ih_pushers ?ih))" using assms(1) by (simp_all add: is_inv_def Let_def)
  have l: "length (ih_pushers ih') = length (ih_pushers ?ih)" by (rule moved_length [OF m])
  have sm: "ih_now_at ih' = ih_now_at ?ih" "ih_progress ih' = ih_progress ?ih" "map fst (ih_pushers ih') = map fst (ih_pushers ?ih)"
    using m by (simp_all add: moved_def)
  have "stream_ok minimum (ih_now_at ?ih) (ccb_records (ih_builder ih')) h' (in_streams a ! i @ map (Pair (in_epoch a)) ds)
      (ih_progress ?ih ! i) (ih_pushers ih' ! i) (is_operators s ! i)" if i: "i < length (is_operators s)" for i
  proof -
    note st = is_invD [OF assms(1) i]
    have f: "fst (ih_pushers ih' ! i) = fst (ih_pushers ?ih ! i)" using sm(3) l k(2) i by (metis nth_map)
    have "ih_progress ?ih ! i \<in> set (ih_progress ?ih)" using i k(4) by simp
    then have "ih_progress ?ih ! i \<notin> fst ` set (ih_pushers ?ih)" using k(6) by auto
    then have hp: "h' (ih_progress ?ih ! i) = ?h (ih_progress ?ih ! i)" using m by (simp add: moved_def)
    have mi: "delivered (snd (ih_pushers ih' ! i)) @ map (Pair (ih_now_at ?ih)) (ccb_records (ih_builder ih'))
        = delivered (snd (ih_pushers ?ih ! i)) @ map (Pair (ih_now_at ?ih)) (ccb_records (ih_builder ?ih) @ ds)"
      "\<And>t. cb_count (h' (fst (ih_pushers ?ih ! i))) t - times_count t (delivered (snd (ih_pushers ih' ! i)))
        = cb_count (?h (fst (ih_pushers ?ih ! i))) t - times_count t (delivered (snd (ih_pushers ?ih ! i)))"
      using m i k(2) by (simp_all add: moved_def)
    have "cb_count (h' (fst (ih_pushers ?ih ! i))) t + cb_count (sp_produceds (io_shared_progress (is_operators s ! i)) ! 0) t
        = times_count t (delivered (snd (ih_pushers ih' ! i)))" for t
      using mi(2) [of t] stream_ok_counts(2) [OF st, of t] by linarith
    moreover have "delivered (snd (ih_pushers ih' ! i)) @ map (Pair (ih_now_at ?ih)) (ccb_records (ih_builder ih'))
        = in_streams a ! i @ map (Pair (in_epoch a)) ds" using mi(1) st k(5) by (simp add: stream_ok_def Let_def)
    ultimately show ?thesis using st f hp by (simp add: stream_ok_def Let_def)
  qed
  moreover have "fst ` set (ih_pushers ih') = fst ` set (ih_pushers ?ih)" using sm(3) by (metis list.set_map)
  ultimately show ?thesis using assms(1) moved_ok [OF k(1) m] sm l k m by (simp add: is_inv_def is_put_def Let_def moved_def)
qed

lemma epoch_inv:
  assumes "is_inv minimum s a" and "ccb_records (ih_builder (is_handle s)) = []" and "ih_now_at (is_handle s) \<noteq> t"
    and "h' = fold (\<lambda>p. buf_update p t 1) (ih_progress (is_handle s))
      (fold (\<lambda>p. buf_update p (ih_now_at (is_handle s)) (- 1)) (ih_progress (is_handle s)) (st_buffers (is_store s)))"
  shows "is_inv minimum (is_put ((is_handle s)\<lparr>ih_now_at := t\<rparr>, h') s) (a\<lparr>in_epoch := t\<rparr>)"
proof -
  let ?ih = "is_handle s" and ?h = "st_buffers (is_store s)"
  have k: "ih_ok ?ih ?h" "distinct (ih_progress ?ih @ map fst (ih_pushers ?ih))" "length (ih_progress ?ih) = length (is_operators s)"
    "length (ih_pushers ?ih) = length (is_operators s)" using assms(1) by (simp_all add: is_inv_def Let_def)
  have d: "distinct (ih_progress ?ih)" using k(2) by simp
  have "\<forall>a. cb_inv (?h a)" using k(1) by (simp add: ih_ok_def)
  note f1 = fold_progress_ok [OF d this, of "ih_now_at ?ih" "- 1"]
  note f2 = fold_progress_ok [OF d conjunct1 [OF f1], of t 1]
  have h': "\<forall>a. cb_inv (h' a)" "\<And>a. a \<notin> set (ih_progress ?ih) \<Longrightarrow> h' a = ?h a"
    "\<And>a u. cb_count (h' a) u = cb_count (?h a) u + (if a \<in> set (ih_progress ?ih) then (if u = t then 1 else 0) - (if u = ih_now_at ?ih then 1 else 0) else 0)"
    using f1 f2 assms(3) by (auto simp: assms(4))
  have "stream_ok minimum t [] h' (in_streams a ! i) (ih_progress ?ih ! i) (ih_pushers ?ih ! i) (is_operators s ! i)"
    if i: "i < length (is_operators s)" for i
  proof -
    note st = is_invD [OF assms(1) i]
    have p: "ih_progress ?ih ! i \<in> set (ih_progress ?ih)" using i k(3) by simp
    have "fst (ih_pushers ?ih ! i) \<in> set (map fst (ih_pushers ?ih))" using i k(4) by simp
    then have "fst (ih_pushers ?ih ! i) \<notin> set (ih_progress ?ih)" using k(2) by auto
    then have "h' (fst (ih_pushers ?ih ! i)) = ?h (fst (ih_pushers ?ih ! i))" by (rule h'(2))
    moreover have "cb_count (h' (ih_progress ?ih ! i)) u + cb_count (sp_internals (io_shared_progress (is_operators s ! i)) ! 0) u
        = (if u = minimum then int (io_copies (is_operators s ! i)) - 1 else 0) + (if u = t then 1 else 0)" for u
      using stream_ok_counts(1) [OF st, of u] h'(3) [of "ih_progress ?ih ! i" u] p by (simp split: if_splits)
    ultimately show ?thesis using st assms(2) by (simp add: stream_ok_def Let_def)
  qed
  then show ?thesis using assms(1,2) h'(1) by (simp add: is_inv_def is_put_def Let_def ih_ok_def)
qed

lemma is_put_same [simp]:
  "is_handle (is_put x s) = fst x" "st_buffers (is_store (is_put x s)) = snd x" "is_operators (is_put x s) = is_operators s"
  "is_put y (is_put x s) = is_put y s"
  by (simp_all add: is_put_def)

lemma is_inv_activations [simp]: "is_inv minimum (s\<lparr>is_activations := av\<rparr>) a = is_inv minimum s a"
  by (simp add: is_inv_def)

lemma no_records_spec: "a\<lparr>in_streams := map (\<lambda>st. st @ map (Pair e) []) (in_streams a)\<rparr> = a"
  by simp

lemma advance_inv:
  assumes "is_inv minimum s a" and "is_act grow sz left le minimum (Advance_to t) s = Some s'"
  shows "spec_act le (Advance_to t) a = Some (a\<lparr>in_epoch := t\<rparr>) \<and> is_inv minimum s' (a\<lparr>in_epoch := t\<rparr>)"
proof -
  let ?ih = "is_handle s" and ?h = "st_buffers (is_store s)"
  have e: "in_epoch a = ih_now_at ?ih" and k: "ih_ok ?ih ?h" using assms(1) by (simp_all add: is_inv_def Let_def)
  have le: "le (ih_now_at ?ih) t" using assms(2) by (auto simp: ih_advance_to_def split: if_splits)
  show ?thesis
  proof (cases "ih_now_at ?ih = t")
    case True
    then have "s' = s" using assms(2) le by (simp add: ih_advance_to_def is_put_def)
    moreover have "a\<lparr>in_epoch := t\<rparr> = a" using True e by simp
    ultimately show ?thesis using assms(1) le e by simp
  next
    case False
    obtain ih1 h1 av1 where c: "ih_close_epoch grow left ?ih ?h (is_activations s) = (ih1, h1, av1)" by (metis prod_cases3)
    from close_epoch_ok [OF k c] obtain h0 where m: "moved ?ih ?h ih1 h0 []" "ccb_records (ih_builder ih1) = []"
      and h1: "h1 = fold (\<lambda>p. buf_update p (ih_now_at ?ih) (- 1)) (ih_progress ?ih) h0" by blast
    have sm: "ih_now_at ih1 = ih_now_at ?ih" "ih_progress ih1 = ih_progress ?ih" using m(1) by (simp_all add: moved_def)
    from moved_inv [OF assms(1) m(1)] have "is_inv minimum (is_put (ih1, h0) s) a" by (simp only: no_records_spec)
    from epoch_inv [OF this _ _ HOL.refl, of t] m(2) sm False h1
    have "is_inv minimum (is_put (ih1\<lparr>ih_now_at := t\<rparr>, fold (\<lambda>p. buf_update p t 1) (ih_progress ?ih) h1) s) (a\<lparr>in_epoch := t\<rparr>)" by simp
    moreover have "s' = (is_put (ih1\<lparr>ih_now_at := t\<rparr>, fold (\<lambda>p. buf_update p t 1) (ih_progress ?ih) h1) s)\<lparr>is_activations := av1\<rparr>"
      using assms(2) False le c sm by (simp add: ih_advance_to_def)
    ultimately show ?thesis using le e by simp
  qed
qed

lemma schedule_inv:
  assumes "is_inv minimum s a" and "i < length (is_operators s)"
  shows "\<exists>s'. is_act grow sz left le minimum (Schedule i) s = Some s' \<and> is_inv minimum s' a"
proof -
  let ?ih = "is_handle s" and ?h = "st_buffers (is_store s)" and ?io = "is_operators s ! i"
  let ?sp = "io_shared_progress ?io" and ?p = "ih_progress (is_handle s) ! i" and ?q = "fst (ih_pushers (is_handle s) ! i)"
  note st = is_invD [OF assms]
  have k: "ih_ok ?ih ?h" "distinct (ih_progress ?ih @ map fst (ih_pushers ?ih))" "length (ih_progress ?ih) = length (is_operators s)"
    "length (ih_pushers ?ih) = length (is_operators s)" using assms(1) by (simp_all add: is_inv_def Let_def)
  have w: "io_progress ?io = ?p" "io_messages ?io = ?q" "length (sp_internals ?sp) = 1" "length (sp_produceds ?sp) = 1"
    "cb_inv (sp_internals ?sp ! 0)" "cb_inv (sp_produceds ?sp ! 0)" using st by (simp_all add: stream_ok_def Let_def)
  have pq: "?p \<in> set (ih_progress ?ih)" "?q \<in> set (map fst (ih_pushers ?ih))" using assms(2) k(3,4) by simp_all
  have dj: "x \<noteq> y" if "x \<in> set (ih_progress ?ih)" "y \<in> set (map fst (ih_pushers ?ih))" for x y
    using that k(2) by (metis IntI distinct_append empty_iff)
  note ne = dj [OF pq]
  obtain b1 o1 where d1: "cb_drain_into (?h ?p) (sp_internals ?sp ! 0) = (b1, o1)" by (cases "cb_drain_into (?h ?p) (sp_internals ?sp ! 0)")
  obtain b2 o2 where d2: "cb_drain_into (?h ?q) (sp_produceds ?sp ! 0) = (b2, o2)" by (cases "cb_drain_into (?h ?q) (sp_produceds ?sp ! 0)")
  have full: "sp_internals ?sp \<noteq> []" "sp_produceds ?sp \<noteq> []" using w(3,4) by auto
  define h' where "h' = ?h(?p := b1, ?q := b2)"
  define io' where "io' = ?io\<lparr>io_shared_progress := ?sp\<lparr>sp_internals := (sp_internals ?sp)[0 := o1], sp_produceds := (sp_produceds ?sp)[0 := o2]\<rparr>\<rparr>"
  have r: "is_act grow sz left le minimum (Schedule i) s = Some ((is_put (?ih, h') s)\<lparr>is_operators := (is_operators s)[i := io']\<rparr>)"
    using assms(2) w(1,2) ne d1 d2 full by (simp add: vec_get_def io_schedule_def h'_def io'_def Let_def)
  have ci: "\<forall>a. cb_inv (?h a)" using k(1) by (simp add: ih_ok_def)
  have di: "cb_inv b1" "cb_inv o1" "cb_inv b2" "cb_inv o2"
    using cb_inv_drain_into [OF _ w(5) d1] cb_inv_drain_into [OF _ w(6) d2] ci by auto
  have dc: "cb_count b1 t = 0" "cb_count b2 t = 0" "cb_count o1 t = cb_count (?h ?p) t + cb_count (sp_internals ?sp ! 0) t"
    "cb_count o2 t = cb_count (?h ?q) t + cb_count (sp_produceds ?sp ! 0) t" for t
    using drain_into_facts [OF d1] drain_into_facts [OF d2] by (simp_all add: cb_count_def)
  have "stream_ok minimum (ih_now_at ?ih) (ccb_records (ih_builder ?ih)) h' (in_streams a ! j) (ih_progress ?ih ! j) (ih_pushers ?ih ! j)
      ((is_operators s)[i := io'] ! j)" if j: "j < length (is_operators s)" for j
  proof (cases "j = i")
    case True
    then show ?thesis using st w di dc ne j stream_ok_counts [OF st]
      by (simp add: stream_ok_def Let_def io'_def h'_def)
  next
    case False
    have "ih_progress ?ih ! j \<in> set (ih_progress ?ih)" "fst (ih_pushers ?ih ! j) \<in> set (map fst (ih_pushers ?ih))" using j k(3,4) by simp_all
    then have "ih_progress ?ih ! j \<noteq> ?q" "?p \<noteq> fst (ih_pushers ?ih ! j)" using dj pq by blast+
    moreover have "ih_progress ?ih ! j \<noteq> ?p" using k(2,3) j assms(2) False by (simp add: nth_eq_iff_index_eq)
    moreover have "fst (ih_pushers ?ih ! j) \<noteq> ?q" using k(2,4) j assms(2) False nth_eq_iff_index_eq [of "map fst (ih_pushers ?ih)" j i] by simp
    ultimately have "h' (ih_progress ?ih ! j) = ?h (ih_progress ?ih ! j)" "h' (fst (ih_pushers ?ih ! j)) = ?h (fst (ih_pushers ?ih ! j))"
      by (auto simp: h'_def)
    then show ?thesis using is_invD [OF assms(1) j] False by (simp add: stream_ok_def Let_def)
  qed
  then show ?thesis using assms(1) r ci di by (simp add: is_inv_def Let_def ih_ok_def is_put_def h'_def)
qed

lemma fresh_inv:
  assumes "is_inv minimum s a" and "\<forall>x < st_next (is_store s). h' x = st_buffers (is_store s) x" and "\<forall>x. cb_inv (h' x)"
    and "st_next (is_store s) \<le> n"
  shows "is_inv minimum (s\<lparr>is_handle := (is_handle s)\<lparr>ih_activate := as\<rparr>, is_store := \<lparr>st_buffers = h', st_next = n\<rparr>\<rparr>) a"
proof -
  let ?ih = "is_handle s"
  have k: "\<forall>x \<in> set (ih_progress ?ih @ map fst (ih_pushers ?ih)). x < st_next (is_store s)" "length (ih_progress ?ih) = length (is_operators s)"
    "length (ih_pushers ?ih) = length (is_operators s)" using assms(1) by (simp_all add: is_inv_def Let_def)
  have "h' (ih_progress ?ih ! i) = st_buffers (is_store s) (ih_progress ?ih ! i)"
    "h' (fst (ih_pushers ?ih ! i)) = st_buffers (is_store s) (fst (ih_pushers ?ih ! i))" if "i < length (is_operators s)" for i
    using k that assms(2) by simp_all
  then have "stream_ok minimum (ih_now_at ?ih) (ccb_records (ih_builder ?ih)) h' (in_streams a ! i) (ih_progress ?ih ! i) (ih_pushers ?ih ! i)
      (is_operators s ! i)" if "i < length (is_operators s)" for i
    using is_invD [OF assms(1) that] that by (simp add: stream_ok_def Let_def)
  moreover have "\<forall>x \<in> set (ih_progress ?ih @ map fst (ih_pushers ?ih)). x < n" using k(1) assms(4) by (meson less_le_trans)
  ultimately show ?thesis using assms(1,3) by (simp add: is_inv_def Let_def ih_ok_def)
qed

lemma store_eq: "st\<lparr>st_next := n, st_buffers := h\<rparr> = \<lparr>st_buffers = h, st_next = n\<rparr>"
  by (cases st) simp

lemma register_inv:
  assumes "is_inv minimum s a" and "is_act grow sz left le minimum (Input_from address copies) s = Some s'"
  shows "is_inv minimum s' (a\<lparr>in_streams := in_streams a @ [[]]\<rparr>)"
proof -
  let ?n = "st_next (is_store s)"
  define ih0 where "ih0 = (is_handle s)\<lparr>ih_activate := ih_activate (is_handle s) @ [address]\<rparr>"
  define h0 where "h0 = (st_buffers (is_store s))(?n := cb_new, Suc ?n := cb_new)"
  define s0 where "s0 = s\<lparr>is_handle := ih0, is_store := \<lparr>st_buffers = h0, st_next = Suc (Suc ?n)\<rparr>\<rparr>"
  have "\<forall>x. cb_inv (st_buffers (is_store s) x)" using assms(1) by (simp add: is_inv_def Let_def ih_ok_def)
  then have i0: "is_inv minimum s0 a" unfolding s0_def ih0_def by (intro fresh_inv [OF assms(1)]) (simp_all add: h0_def)
  then have k0: "ih_ok ih0 h0" by (simp add: is_inv_def Let_def s0_def)
  obtain ih1 h1 where f: "ih_flush grow left ih0 h0 = (ih1, h1)" by (cases "ih_flush grow left ih0 h0")
  note m = flush_moved [OF k0 f]
  define s1 where "s1 = is_put (ih1, h1) s0"
  have i1: "is_inv minimum s1 a"
    using moved_inv [OF i0, of ih1 h1 "[]"] m by (simp only: no_records_spec s1_def) (simp add: s0_def)
  define h2 where "h2 = buf_update (Suc ?n) (ih_now_at ih1) 1 (buf_update (Suc ?n) minimum (- 1) h1)"
  define io where "io = \<lparr>io_address = address, io_shared_progress = (sp_new 0 1)\<lparr>sp_internals := [cb_update minimum (int copies) cb_new]\<rparr>,
      io_progress = Suc ?n, io_messages = ?n, io_copies = copies\<rparr>"
  define ih2 where "ih2 = ih1\<lparr>ih_progress := ih_progress ih1 @ [Suc ?n], ih_pushers := ih_pushers ih1 @ [(?n, [])]\<rparr>"
  have r: "s' = s1\<lparr>is_handle := ih2, is_store := (is_store s1)\<lparr>st_buffers := h2\<rparr>, is_operators := is_operators s1 @ [io]\<rparr>"
    using assms(2) f by (simp add: vec_get_def store_eq input_from_def st_alloc_def ih0_def [symmetric] h0_def [symmetric] ih_register_def io_get_internal_summary_def
        sp_new_def s1_def s0_def is_put_def h2_def io_def ih2_def Let_def)
  have k: "ih_progress ih1 = ih_progress (is_handle s)" "map fst (ih_pushers ih1) = map fst (ih_pushers (is_handle s))"
    "ccb_records (ih_builder ih1) = []" "\<forall>x. cb_inv (h1 x)" "\<And>x. x \<notin> fst ` set (ih_pushers ih0) \<Longrightarrow> h1 x = h0 x"
    "\<forall>x \<in> set (ih_progress (is_handle s) @ map fst (ih_pushers (is_handle s))). x < ?n" "ih_pushers ih0 = ih_pushers (is_handle s)"
    using m assms(1) by (simp_all add: moved_def ih0_def is_inv_def Let_def)
  have below: "x \<noteq> ?n" "x \<noteq> Suc ?n" "x < Suc (Suc ?n)" if "x \<in> set (ih_progress ih1) \<or> x \<in> set (map fst (ih_pushers ih1))" for x
  proof -
    have "x < ?n" using that k(1,2,6) by (metis Un_iff set_append)
    then show "x \<noteq> ?n" "x \<noteq> Suc ?n" "x < Suc (Suc ?n)" by simp_all
  qed
  have l: "length (ih_progress ih1) = length (is_operators s1)" "length (ih_pushers ih1) = length (is_operators s1)"
    "length (in_streams a) = length (is_operators s1)" "distinct (ih_progress ih1 @ map fst (ih_pushers ih1))" "ih_ok ih1 h1"
    "in_epoch a = ih_now_at ih1" using i1 by (simp_all add: is_inv_def Let_def s1_def)
  have "?n \<notin> fst ` set (ih_pushers ih0)" "Suc ?n \<notin> fst ` set (ih_pushers ih0)" using below k(2,7) by (metis list.set_map)+
  then have new: "h1 ?n = cb_new" "h1 (Suc ?n) = cb_new" using k(5) by (simp_all add: h0_def)
  have old: "stream_ok minimum (ih_now_at ih2) [] h2 (in_streams a ! i) (ih_progress ih1 ! i) (ih_pushers ih1 ! i) (is_operators s1 ! i)"
    if i: "i < length (is_operators s1)" for i
  proof -
    have "ih_progress ih1 ! i \<noteq> Suc ?n" "fst (ih_pushers ih1 ! i) \<noteq> Suc ?n" using below(2) i l(1,2) by simp_all
    then show ?thesis using is_invD [OF i1 i] k(3) by (simp add: stream_ok_def Let_def s1_def h2_def ih2_def buf_update_def)
  qed
  have fresh: "stream_ok minimum (ih_now_at ih2) [] h2 [] (Suc ?n) (?n, []) io"
    using new by (simp add: stream_ok_def io_def h2_def ih2_def sp_new_def buf_update_def Let_def)
  have "stream_ok minimum (ih_now_at ih2) [] h2 ((in_streams a @ [[]]) ! i) (ih_progress ih2 ! i) (ih_pushers ih2 ! i) ((is_operators s1 @ [io]) ! i)"
    if "i < length (is_operators s1 @ [io])" for i
    using old fresh that l by (cases "i < length (is_operators s1)") (auto simp: ih2_def nth_append less_Suc_eq)
  moreover have "ih_ok ih2 h2" using l(4,5) below by (auto simp: ih_ok_def ih2_def h2_def buf_update_def)
  moreover have "distinct (ih_progress ih2 @ map fst (ih_pushers ih2))" using l(4) below by (auto simp: ih2_def)
  moreover have "\<forall>x \<in> set (ih_progress ih2 @ map fst (ih_pushers ih2)). x < Suc (Suc ?n)"
    using below(3) by (simp add: ih2_def ball_Un)
  ultimately show ?thesis using l k(3) by (simp add: is_inv_def Let_def r s1_def s0_def ih2_def is_put_def)
qed

lemma act_inv:
  assumes "is_inv minimum s a" and "\<forall>n. n \<le> grow n"
  shows "rel_option (is_inv minimum) (is_act grow sz left le minimum act s) (spec_act le act a)"
proof (cases act)
  case (Send x)
  obtain ih' h' where e: "ih_push_into grow sz left x (is_handle s) (st_buffers (is_store s)) = (ih', h')" by fastforce
  have "ih_ok (is_handle s) (st_buffers (is_store s))" using assms(1) by (simp add: is_inv_def Let_def)
  from moved_inv [OF assms(1) push_into_moved [OF this _ e]] assms(2) show ?thesis by (simp add: Send ih_send_def e)
next
  case (Send_batch v)
  obtain v' ih' h' where e: "ih_send_batch grow left v (is_handle s) (st_buffers (is_store s)) = (v', ih', h')" by (metis prod_cases3)
  have "ih_ok (is_handle s) (st_buffers (is_store s))" using assms(1) by (simp add: is_inv_def Let_def)
  from moved_inv [OF assms(1) send_batch_moved [OF this e]] show ?thesis by (simp add: Send_batch e)
next
  case Flush
  obtain ih' h' where e: "ih_flush grow left (is_handle s) (st_buffers (is_store s)) = (ih', h')" by fastforce
  have "ih_ok (is_handle s) (st_buffers (is_store s))" using assms(1) by (simp add: is_inv_def Let_def)
  from moved_inv [OF assms(1) conjunct1 [OF flush_moved [OF this e]]] show ?thesis unfolding no_records_spec by (simp add: Flush e)
next
  case (Advance_to t)
  show ?thesis
  proof (cases "is_act grow sz left le minimum (Advance_to t) s")
    case None
    then have "\<not> le (in_epoch a) t" using assms(1) by (auto simp: ih_advance_to_def is_inv_def Let_def split: if_splits prod.splits)
    then show ?thesis using None Advance_to by simp
  next
    case (Some s')
    from advance_inv [OF assms(1) this] Some Advance_to show ?thesis by simp
  qed
next
  case (Input_from address copies)
  have "is_act grow sz left le minimum (Input_from address copies) s \<noteq> None"
    by (auto simp: vec_get_def input_from_def io_get_internal_summary_def sp_new_def Let_def split: prod.splits)
  then obtain s' where "is_act grow sz left le minimum (Input_from address copies) s = Some s'" by blast
  with register_inv [OF assms(1) this] Input_from show ?thesis by simp
next
  case (Schedule i)
  have l: "length (in_streams a) = length (is_operators s)" using assms(1) by (simp add: is_inv_def Let_def)
  show ?thesis
  proof (cases "i < length (is_operators s)")
    case True
    from schedule_inv [OF assms(1) True, of grow sz left le] Schedule True l show ?thesis by auto
  next
    case False
    then show ?thesis using Schedule l by (simp add: vec_get_def)
  qed
qed

lemma run_inv:
  assumes "\<forall>n. n \<le> grow n"
  shows "is_inv minimum s a \<Longrightarrow> rel_option (is_inv minimum) (is_run grow sz left le minimum acts s) (spec_run le acts a)"
proof (induction acts arbitrary: s a)
  case (Cons act acts)
  note r = act_inv [OF Cons.prems assms, of sz left le act]
  show ?case
  proof (cases "spec_act le act a")
    case None
    with r have "is_act grow sz left le minimum act s = None" by simp
    with None show ?thesis by simp
  next
    case (Some a')
    with r obtain s' where "is_act grow sz left le minimum act s = Some s'" "is_inv minimum s' a'" by (cases "is_act grow sz left le minimum act s") auto
    with Some Cons.IH show ?thesis by simp
  qed
qed simp

lemma new_inv: "is_inv minimum (is_new minimum av) \<lparr>in_epoch = minimum, in_streams = []\<rparr>"
  by (simp add: is_inv_def is_new_def ih_new_def ih_ok_def Let_def)

lemma drop_ok:
  assumes "is_inv minimum s a" and "ih_drop grow left (is_handle s) (st_buffers (is_store s)) av = (ih', h', av')" and "i < length (is_operators s)"
  shows "delivered (snd (ih_pushers ih' ! i)) = in_streams a ! i"
    and "cb_count (h' (io_progress (is_operators s ! i))) t + cb_count (sp_internals (io_shared_progress (is_operators s ! i)) ! 0) t
      = (if t = minimum then int (io_copies (is_operators s ! i)) - 1 else 0)"
proof -
  have k: "ih_ok (is_handle s) (st_buffers (is_store s))" "distinct (ih_progress (is_handle s))" "length (ih_progress (is_handle s)) = length (is_operators s)"
    "length (ih_pushers (is_handle s)) = length (is_operators s)"
    using assms(1) by (simp_all add: is_inv_def Let_def)
  from close_epoch_ok [OF k(1) assms(2) [unfolded ih_drop_def]] obtain h1 where m: "moved (is_handle s) (st_buffers (is_store s)) ih' h1 []"
    and r: "ccb_records (ih_builder ih') = []" and h: "h' = fold (\<lambda>p. buf_update p (ih_now_at (is_handle s)) (- 1)) (ih_progress (is_handle s)) h1" by blast
  have "is_inv minimum (is_put (ih', h1) s) a" using moved_inv [OF assms(1) m] by (simp only: no_records_spec)
  from is_invD [OF this, of i] assms(3) have st: "stream_ok minimum (ih_now_at ih') [] h1 (in_streams a ! i) (ih_progress ih' ! i) (ih_pushers ih' ! i) (is_operators s ! i)"
    using r by simp
  then show "delivered (snd (ih_pushers ih' ! i)) = in_streams a ! i" by (simp add: stream_ok_def Let_def)
  have sm: "ih_progress ih' = ih_progress (is_handle s)" "ih_now_at ih' = ih_now_at (is_handle s)" "\<forall>a. cb_inv (h1 a)" using m by (simp_all add: moved_def)
  have p: "io_progress (is_operators s ! i) = ih_progress (is_handle s) ! i" using st sm by (simp add: stream_ok_def Let_def)
  have "cb_count (h' (ih_progress (is_handle s) ! i)) t = cb_count (h1 (ih_progress (is_handle s) ! i)) t - (if t = ih_now_at (is_handle s) then 1 else 0)"
    using fold_progress_ok [OF k(2) sm(3)] k(3) assms(3) by (simp add: h)
  then show "cb_count (h' (io_progress (is_operators s ! i))) t + cb_count (sp_internals (io_shared_progress (is_operators s ! i)) ! 0) t
      = (if t = minimum then int (io_copies (is_operators s ! i)) - 1 else 0)"
    using stream_ok_counts(1) [OF st, of t] sm(1,2) p by (simp split: if_splits)
qed

section \<open>Properties\<close>

definition in_order :: "('t \<Rightarrow> 't \<Rightarrow> bool) \<Rightarrow> ('t, 'd) input_spec \<Rightarrow> bool" where
  "in_order le a \<longleftrightarrow> (\<forall>st \<in> set (in_streams a). sorted_wrt (\<lambda>x y. le (fst x) (fst y)) st \<and> (\<forall>r \<in> set st. le (fst r) (in_epoch a)))"

lemma spec_act_in_order:
  assumes "partial_order_laws le" and "in_order le a" and "spec_act le act a = Some a'"
  shows "in_order le a'"
proof -
  have r: "le x x" and t: "le x y \<Longrightarrow> le y z \<Longrightarrow> le x z" for x y z using assms(1) by (auto simp: partial_order_laws_def)
  have same: "sorted_wrt (\<lambda>x y. le (fst x) (fst y)) (map (Pair (in_epoch a)) xs)" for xs :: "'b list"
    by (induction xs) (auto simp: r)
  show ?thesis using assms(2,3)
  proof (cases act)
    case (Advance_to u)
    then show ?thesis using assms(2,3) t by (fastforce simp: in_order_def split: if_splits)
  qed (fastforce simp: in_order_def sorted_wrt_append same r split: if_splits)+
qed

lemma spec_run_in_order:
  "partial_order_laws le \<Longrightarrow> in_order le a \<Longrightarrow> spec_run le acts a = Some a' \<Longrightarrow> in_order le a'"
  by (induction acts arbitrary: a) (auto simp: bind_eq_Some_conv dest: spec_act_in_order)

text \<open>
  What the promise means for a handle and its operators: each stream has been given the records sent since it was
  created, but for those still held; the operators report the capability for the current epoch and the
  deliveries; dropping the handle delivers the rest and releases the capability.
\<close>

definition input_agrees ::
  "(nat \<Rightarrow> nat) \<Rightarrow> ('t::linorder, 'd) left_behind \<Rightarrow> ('t \<Rightarrow> 't \<Rightarrow> bool) \<Rightarrow> 't \<Rightarrow> ('t, 'd) input_system \<Rightarrow> ('t, 'd) input_spec \<Rightarrow> bool" where
  "input_agrees grow left le minimum s a \<longleftrightarrow> length (in_streams a) = length (is_operators s) \<and> (\<forall>i < length (is_operators s).
     let h = st_buffers (is_store s); ih = is_handle s; p = snd (ih_pushers ih ! i); io = is_operators s ! i; sp = io_shared_progress io;
         (ih', h', _) = ih_drop grow left ih h (is_activations s)
     in delivered p @ map (Pair (in_epoch a)) (ccb_records (ih_builder ih)) = in_streams a ! i
      \<and> sorted_wrt (\<lambda>x y. le (fst x) (fst y)) (in_streams a ! i)
      \<and> (\<forall>t. cb_count (h (io_messages io)) t + cb_count (sp_produceds sp ! 0) t = times_count t (delivered p))
      \<and> (\<forall>t. cb_count (h (io_progress io)) t + cb_count (sp_internals sp ! 0) t
            = (if t = minimum then int (io_copies io) - 1 else 0) + (if t = in_epoch a then 1 else 0))
      \<and> delivered (snd (ih_pushers ih' ! i)) = in_streams a ! i
      \<and> (\<forall>t. cb_count (h' (io_progress io)) t + cb_count (sp_internals sp ! 0) t = (if t = minimum then int (io_copies io) - 1 else 0)))"

lemma inv_agrees:
  assumes inv: "is_inv minimum s a" and o: "in_order le a"
  shows "input_agrees grow left le minimum s a"
proof -
  have l: "length (in_streams a) = length (is_operators s)" and e: "in_epoch a = ih_now_at (is_handle s)"
    using inv by (simp_all add: is_inv_def Let_def)
  obtain ih' h' av' where d: "ih_drop grow left (is_handle s) (st_buffers (is_store s)) (is_activations s) = (ih', h', av')" by (metis prod_cases3)
  have "sorted_wrt (\<lambda>x y. le (fst x) (fst y)) (in_streams a ! i)" if "i < length (is_operators s)" for i
    using o that l by (simp add: in_order_def)
  then show ?thesis using l d drop_ok [OF inv d] is_invD [OF inv] e by (simp add: input_agrees_def stream_ok_def Let_def)
qed

text \<open>
  C16: An input handle with any number of streams and their operators, whatever the program does with it and
  whenever the operators are scheduled, behaves as the list of records sent at the epochs it was advanced to:
  it panics exactly when time is to go backwards; every stream has been given the records sent since it was
  created, in order and at their epochs, but for those the handle still holds; the operators report the
  capability for the current epoch and the messages delivered; and dropping the handle delivers the rest and
  releases its capability.
\<close>
theorem input_handle_refines:
  assumes "\<forall>n. n \<le> grow n" and "partial_order_laws le"
  shows "rel_option (input_agrees grow left le minimum) (is_run grow sz left le minimum acts (is_new minimum av))
    (spec_run le acts \<lparr>in_epoch = minimum, in_streams = []\<rparr>)"
proof -
  have "in_order le \<lparr>in_epoch = minimum, in_streams = []\<rparr>" by (simp add: in_order_def)
  note o = spec_run_in_order [OF assms(2) this]
  show ?thesis
  proof (rule option.rel_mono_strong [OF run_inv [OF assms(1) new_inv]])
    fix s a assume "a \<in> set_option (spec_run le acts \<lparr>in_epoch = minimum, in_streams = []\<rparr>)" and i: "is_inv minimum s a"
    then have "in_order le a" by (simp add: o)
    then show "input_agrees grow left le minimum s a" by (rule inv_agrees [OF i])
  qed
qed

definition example_acts :: "(nat, nat) input_act list" where
  "example_acts = [Send 9, Input_from [0, 1] 2, Send 5, Send 6, Schedule 0, Advance_to 3, Input_from [1, 1] 2, Send 7, Schedule 1]"

theorem input_handle_refines_witness:
  "\<exists>s. is_run (\<lambda>n. n) 4096 (\<lambda>_. None) (\<le>) 0 example_acts (is_new 0 (av_new False)) = Some s
     \<and> input_agrees (\<lambda>n. n) (\<lambda>_. None) (\<le>) 0 s \<lparr>in_epoch = 3, in_streams = [[(0, 5), (0, 6), (3, 7)], [(3, 7)]]\<rparr>
     \<and> is_run (\<lambda>n. n) 4096 (\<lambda>_. None) (\<le>) 0 (example_acts @ [Advance_to 2]) (is_new 0 (av_new False)) = None"
proof -
  have g: "\<forall>n :: nat. n \<le> n" "partial_order_laws ((\<le>) :: nat \<Rightarrow> nat \<Rightarrow> bool)" by (simp_all add: partial_order_laws_def)
  note r = input_handle_refines [OF g, of "\<lambda>_. None" 0 4096 _ "av_new False"]
  have "spec_run (\<le>) example_acts \<lparr>in_epoch = 0, in_streams = []\<rparr> = Some \<lparr>in_epoch = 3, in_streams = [[(0, 5), (0, 6), (3, 7)], [(3, 7)]]\<rparr>"
    "spec_run (\<le>) (example_acts @ [Advance_to 2]) \<lparr>in_epoch = 0, in_streams = []\<rparr> = None"
    by (simp_all add: example_acts_def)
  with r [of example_acts] r [of "example_acts @ [Advance_to 2]"] show ?thesis
    by (auto simp: option_rel_Some2 rel_option_None2)
qed

section \<open>Closing without a flush\<close>

lemma is_run_append: "is_run grow sz left le minimum (as @ bs) s = Option.bind (is_run grow sz left le minimum as s) (is_run grow sz left le minimum bs)"
  by (induction as arbitrary: s) (auto split: Option.bind_split)

lemma flush_nothing:
  assumes "ccb_pending (ih_builder ih) = []" and "vc_items (ccb_current (ih_builder ih)) = []"
  shows "\<exists>b. ih_flush grow left ih h = (ih\<lparr>ih_builder := b\<rparr>, h)"
  using assms by (intro exI [of _ "(ih_builder ih)\<lparr>ccb_empty := None\<rparr>"]) (simp add: ih_flush_def drain_finish.simps [of _ "ih_builder ih"] ccb_finish_def)

lemma done_all_silent:
  "\<forall>a. cb_inv (h a) \<Longrightarrow> i < length cs \<Longrightarrow> distinct (map fst cs) \<Longrightarrow> cb_updates (h (fst (cs ! i))) = []
    \<Longrightarrow> snd (fst (done_all cs h) ! i) = snd (cs ! i)"
proof (induction cs h arbitrary: i rule: done_all.induct)
  case (2 c cs h)
  obtain empty b where b: "cb_is_empty (h (fst c)) = (empty, b)" by (cases "cb_is_empty (h (fst c))")
  define h1 where "h1 = h(fst c := b)"
  have c: "counter_push (fst c) None h (snd c) = (h1, if \<not> empty then snd c @ [None] else snd c)" by (simp add: counter_push_def b h1_def)
  have i: "\<forall>a. cb_inv (h1 a)" using is_empty_snd [OF _ b] "2.prems"(1) by (simp add: h1_def)
  show ?case
  proof (cases i)
    case 0
    then have "empty" using "2.prems"(1,4) b is_empty_iff [of "h (fst c)"] by (simp add: cb_count_def)
    then show ?thesis using 0 c by (simp add: split_beta)
  next
    case (Suc j)
    then have j: "j < length cs" using "2.prems"(2) by simp
    then have "fst (cs ! j) \<in> set (map fst cs)" by simp
    then have "fst (cs ! j) \<noteq> fst c" using "2.prems"(3) by (metis distinct.simps(2) list.map(2))
    then have "cb_updates (h1 (fst (cs ! j))) = []" using "2.prems"(4) Suc by (simp add: h1_def)
    then have "snd (fst (done_all cs h1) ! j) = snd (cs ! j)"
      using "2.IH" [OF c [symmetric] HOL.refl i j] "2.prems"(3) by simp
    then show ?thesis using Suc c by (simp add: split_beta)
  qed
qed simp

lemma schedule_drains:
  assumes "is_inv minimum s a" and "is_act grow sz left le minimum (Schedule i) s = Some s'"
  shows "i < length (is_operators s') \<and> cb_updates (st_buffers (is_store s') (io_messages (is_operators s' ! i))) = []"
proof -
  have i: "i < length (is_operators s)" using assms(2) by (auto simp: vec_get_def split: if_splits)
  have "is_act grow sz left le minimum (Schedule i) s = (case io_schedule (is_operators s ! i) (st_buffers (is_store s)) of
      None \<Rightarrow> None | Some (b, io, h) \<Rightarrow> Some ((is_put (is_handle s, h) s)\<lparr>is_operators := (is_operators s)[i := io]\<rparr>))"
    using i by (simp add: vec_get_def split: option.split)
  then obtain b io h where r: "io_schedule (is_operators s ! i) (st_buffers (is_store s)) = Some (b, io, h)"
    "s' = (is_put (is_handle s, h) s)\<lparr>is_operators := (is_operators s)[i := io]\<rparr>"
    using assms(2) by (auto simp del: is_act.simps split: option.splits)
  have "io_messages io = io_messages (is_operators s ! i)" "cb_updates (h (io_messages (is_operators s ! i))) = []"
    using r(1) drain_into_facts(1) by (auto simp: io_schedule_def Let_def bind_eq_Some_conv split: prod.splits)
  then show ?thesis using r(2) i by simp
qed

text \<open>
  C28: Closing an input does not always flush what is downstream.  After any use of a handle, when the operator of a stream was scheduled
  last and the handle holds no records, dropping the handle releases the capability for the stream but pushes nothing
  there, not even the flush: the counter, whose counts were taken by the operator, does not pass it on.
\<close>
theorem input_close_unflushed:
  assumes "\<forall>n. n \<le> grow n" and "is_run grow sz left le minimum (acts @ [Schedule i]) (is_new minimum av) = Some s"
    and "ccb_pending (ih_builder (is_handle s)) = []" and "vc_items (ccb_current (ih_builder (is_handle s))) = []"
    and "ih_drop grow left (is_handle s) (st_buffers (is_store s)) (is_activations s) = (ih', h', av')"
  shows "snd (ih_pushers ih' ! i) = snd (ih_pushers (is_handle s) ! i)
    \<and> (\<forall>t. cb_count (h' (io_progress (is_operators s ! i))) t + cb_count (sp_internals (io_shared_progress (is_operators s ! i)) ! 0) t
          = (if t = minimum then int (io_copies (is_operators s ! i)) - 1 else 0))"
proof -
  let ?ih = "is_handle s" and ?h = "st_buffers (is_store s)"
  obtain s0 where s0: "is_run grow sz left le minimum acts (is_new minimum av) = Some s0" "is_act grow sz left le minimum (Schedule i) s0 = Some s"
    using assms(2) by (auto simp: is_run_append bind_eq_Some_conv simp del: is_act.simps)
  have run: "rel_option (is_inv minimum) (is_run grow sz left le minimum acts (is_new minimum av)) (spec_run le acts \<lparr>in_epoch = minimum, in_streams = []\<rparr>)"
    for acts by (rule run_inv [OF assms(1) new_inv])
  obtain a0 where "is_inv minimum s0 a0" using run [of acts] s0(1) by (auto simp: option_rel_Some1)
  note d = schedule_drains [OF this s0(2)]
  obtain a where inv: "is_inv minimum s a" using run [of "acts @ [Schedule i]"] assms(2) by (auto simp: option_rel_Some1)
  then have k: "distinct (map fst (ih_pushers ?ih))" "length (ih_pushers ?ih) = length (is_operators s)" "\<forall>a. cb_inv (?h a)"
    by (simp_all add: is_inv_def Let_def ih_ok_def)
  have "io_messages (is_operators s ! i) = fst (ih_pushers ?ih ! i)" using is_invD [OF inv, of i] d by (simp add: stream_ok_def Let_def)
  then have e: "cb_updates (?h (fst (ih_pushers ?ih ! i))) = []" using d by simp
  obtain b where f: "ih_flush grow left ?ih ?h = (?ih\<lparr>ih_builder := b\<rparr>, ?h)" using flush_nothing [OF assms(3,4)] by blast
  have "ih_pushers ih' = fst (done_all (ih_pushers ?ih) ?h)" using assms(5) f by (auto simp: ih_drop_def ih_close_epoch_def split: prod.splits)
  then have "snd (ih_pushers ih' ! i) = snd (ih_pushers ?ih ! i)" using done_all_silent [OF k(3) _ k(1) e] d k(2) by simp
  moreover have "i < length (is_operators s)" using d by blast
  ultimately show ?thesis using drop_ok(2) [OF inv assms(5)] by simp
qed

text \<open>
  Two records, a full container, are sent at epoch one and the operator is scheduled; an exchange between two workers behind the
  stream keeps both records in its builders when the handle is dropped, and they reach no worker.
\<close>

theorem input_close_unflushed_witness:
  "\<exists>s ih' h' av'. is_run (\<lambda>n. n) 4096 (\<lambda>_. None) (\<le>) 0 ([Input_from [0, 1] 2, Advance_to 1, Send 4, Send 7] @ [Schedule 0]) (is_new 0 (av_new False)) = Some s
     \<and> ih_drop (\<lambda>n. n) (\<lambda>_. None) (is_handle s) (st_buffers (is_store s)) (is_activations s) = (ih', h', av')
     \<and> snd (ih_pushers ih' ! 0) = [Some (1 :: nat, [4, 7 :: nat])]
     \<and> map_option (\<lambda>e. map delivered (ex_pushers e)) (ex_push_all (\<lambda>n. n) 4096 (\<lambda>_. None) of_nat (snd (ih_pushers ih' ! 0)) (exchange_new 2)) = Some [[], []]"
proof -
  let ?run = "is_run (\<lambda>n. n) 4096 (\<lambda>_. None) (\<le>) 0 ([Input_from [0, 1] 2, Advance_to 1, Send (4 :: nat), Send 7] @ [Schedule 0]) (is_new (0 :: nat) (av_new False))"
  let ?state = "\<lambda>s. (map snd (ih_pushers (is_handle s)), ccb_pending (ih_builder (is_handle s)), vc_items (ccb_current (ih_builder (is_handle s))))"
  define R where "R = ?run"
  have "map_option ?state R = Some ([[Some (1 :: nat, [4, 7 :: nat])]], [], [])"
    unfolding R_def
    by (simp add: is_new_def ih_new_def input_from_def st_alloc_def ih_register_def ih_flush_def drain_finish.simps ccb_finish_def ccb_default_def vec_default_def
        io_get_internal_summary_def sp_new_def vec_get_def ih_send_def ih_push_into_def ih_extract_and_send_def drain_extract.simps ccb_extract_def ccb_push_into_def
        ensure_capacity_def vec_reserve_def vec_push_def at_capacity_def default_capacity_def ih_outlet_def counter_push_at_eq is_put_def io_schedule_def
        cb_drain_into_def cb_new_def ih_advance_to_def ih_close_epoch_def counter_push_def cb_is_empty_def cb_compact_def buf_update_def Let_def)
  then obtain s where s: "R = Some s" "map snd (ih_pushers (is_handle s)) = [[Some (1, [4, 7])]]"
    "ccb_pending (ih_builder (is_handle s)) = []" "vc_items (ccb_current (ih_builder (is_handle s))) = []" by (cases R) auto
  obtain ih' h' av' where d: "ih_drop (\<lambda>n. n) (\<lambda>_. None) (is_handle s) (st_buffers (is_store s)) (is_activations s) = (ih', h', av')" by (metis prod_cases3)
  from input_close_unflushed [OF _ s(1) [unfolded R_def] s(3,4) d] have "snd (ih_pushers ih' ! 0) = snd (ih_pushers (is_handle s) ! 0)" by simp
  then have p: "snd (ih_pushers ih' ! 0) = [Some (1, [4, 7])]" using s(2) by (cases "ih_pushers (is_handle s)") simp_all
  have x: "exchange_index of_nat (Suc (Suc 0)) (4 :: nat) = 0" "exchange_index of_nat (Suc (Suc 0)) (7 :: nat) = Suc 0"
    by (simp_all add: exchange_index_mod flip: numeral_2_eq_2)
  have en: "exchange_new 2 = (\<lparr>ex_pushers = [[], []], ex_current = None, ex_builders = [ccb_default, ccb_default]\<rparr> :: (nat, nat) exchange)"
    by (simp add: exchange_new_def numeral_2_eq_2)
  have "map_option (\<lambda>e. map delivered (ex_pushers e)) (ex_push_all (\<lambda>n. n) 4096 (\<lambda>_. None) of_nat [Some (1 :: nat, [4, 7 :: nat])] (exchange_new 2))
      = Some [[], []]"
    by (simp add: en ex_push_def x push_extracted_def drain_extract.simps ccb_extract_def ccb_push_into_def
        ccb_default_def vec_default_def ensure_capacity_def vec_reserve_def vec_push_def at_capacity_def default_capacity_def vec_get_def Let_def)
  then show ?thesis unfolding R_def [symmetric] using s(1) d p by (intro exI [of _ s] exI [of _ ih'] exI [of _ h'] exI [of _ av']) simp
qed

end
