(* ===== verification/Session.thy ===== *)
theory Session
  imports Operator_Run Data_Exchange
begin

text \<open>
  The handles user logic reads its input and builds its output with
  (\<open>timely/src/dataflow/operators/generic/handles.rs\<close>).

  An output session builds containers and sends them with one capability; what it sends to is the shared batch
  store and what was pushed at the output, \<open>None\<close> once a panic unwound.  The closure given to \<open>for_each\<close> or
  \<open>for_each_time\<close> runs on the messages that wait when it is called: the model yields the arguments of its calls.
\<close>

section \<open>Output sessions\<close>

type_synonym ('t, 'd) out_port = "('t buffers \<times> ('t, 'd) pushee) option"

definition session_send ::
  "bool \<Rightarrow> bool \<Rightarrow> ('t::linorder, 'd) left_behind \<Rightarrow> 't \<Rightarrow> nat \<Rightarrow> 'd rvec \<Rightarrow> ('t, 'd) out_port \<Rightarrow> 'd rvec \<times> ('t, 'd) out_port" where
  "session_send debug valid left time produced c s =
     (case s of
        None \<Rightarrow> (c, None)
      | Some (h, p) \<Rightarrow>
          (case progress_give debug valid time (vc_items c) produced h p of
             None \<Rightarrow> (c, None)
           | Some hp \<Rightarrow> (if vc_items c \<noteq> [] then case left (time, vc_items c) of None \<Rightarrow> vec_default | Some v \<Rightarrow> v else c, Some hp)))"

record ('t, 'd) out_session =
  ou_debug :: bool
  ou_valid :: bool
  ou_time :: 't
  ou_produced :: nat
  ou_builder :: "'d container_builder"
  ou_port :: "('t, 'd) out_port"

abbreviation ou_outlet :: "('t::linorder, 'd) left_behind \<Rightarrow> ('t, 'd) out_session \<Rightarrow> 'd rvec \<Rightarrow> ('t, 'd) out_port \<Rightarrow> 'd rvec \<times> ('t, 'd) out_port" where
  "ou_outlet left ou \<equiv> session_send (ou_debug ou) (ou_valid ou) left (ou_time ou) (ou_produced ou)"

text \<open>\<open>session_with_builder\<close>, with its debug assertion.\<close>

definition session_open :: "bool \<Rightarrow> bool \<Rightarrow> 't \<Rightarrow> nat \<Rightarrow> 'd container_builder \<Rightarrow> 't buffers \<Rightarrow> ('t, 'd) pushee \<Rightarrow> ('t, 'd) out_session option" where
  "session_open debug valid time produced builder h p =
     (if debug \<and> \<not> valid then None
      else Some \<lparr>ou_debug = debug, ou_valid = valid, ou_time = time, ou_produced = produced, ou_builder = builder, ou_port = Some (h, p)\<rparr>)"

definition session_extract_and_send :: "('t::linorder, 'd) left_behind \<Rightarrow> ('t, 'd) out_session \<Rightarrow> ('t, 'd) out_session" where
  "session_extract_and_send left ou =
     (let (b, s) = drain_extract (ou_outlet left ou) (ou_builder ou) (ou_port ou) in ou\<lparr>ou_builder := b, ou_port := s\<rparr>)"

definition session_flush :: "('t::linorder, 'd) left_behind \<Rightarrow> ('t, 'd) out_session \<Rightarrow> ('t, 'd) out_session" where
  "session_flush left ou =
     (let (b, s) = drain_finish (ou_outlet left ou) (ou_builder ou) (ou_port ou) in ou\<lparr>ou_builder := b, ou_port := s\<rparr>)"

definition session_give :: "(nat \<Rightarrow> nat) \<Rightarrow> nat \<Rightarrow> ('t::linorder, 'd) left_behind \<Rightarrow> 'd \<Rightarrow> ('t, 'd) out_session \<Rightarrow> ('t, 'd) out_session" where
  "session_give grow sz left x ou = session_extract_and_send left (ou\<lparr>ou_builder := ccb_push_into grow sz x (ou_builder ou)\<rparr>)"

definition session_give_iterator :: "(nat \<Rightarrow> nat) \<Rightarrow> nat \<Rightarrow> ('t::linorder, 'd) left_behind \<Rightarrow> 'd list \<Rightarrow> ('t, 'd) out_session \<Rightarrow> ('t, 'd) out_session" where
  "session_give_iterator grow sz left xs ou = session_extract_and_send left (ou\<lparr>ou_builder := fold (ccb_push_into grow sz) xs (ou_builder ou)\<rparr>)"

definition session_give_container :: "('t::linorder, 'd) left_behind \<Rightarrow> 'd rvec \<Rightarrow> ('t, 'd) out_session \<Rightarrow> ('t, 'd) out_session" where
  "session_give_container left c ou = ou\<lparr>ou_port := snd (ou_outlet left ou c (ou_port ou))\<rparr>"

definition session_give_containers :: "('t::linorder, 'd) left_behind \<Rightarrow> 'd rvec list \<Rightarrow> ('t, 'd) out_session \<Rightarrow> ('t, 'd) out_session" where
  "session_give_containers left cs ou = fold (session_give_container left) cs ou"

definition session_drop :: "('t::linorder, 'd) left_behind \<Rightarrow> ('t, 'd) out_session \<Rightarrow> ('t, 'd) out_session" where
  "session_drop left ou = session_flush left ou"

datatype 'd session_call = Give_record 'd | Give_iterator "'d list" | Give_container "'d rvec" | Give_containers "'d rvec list" | Flush_session

fun session_act :: "(nat \<Rightarrow> nat) \<Rightarrow> nat \<Rightarrow> ('t::linorder, 'd) left_behind \<Rightarrow> 'd session_call \<Rightarrow> ('t, 'd) out_session \<Rightarrow> ('t, 'd) out_session" where
  "session_act grow sz left (Give_record x) = session_give grow sz left x"
| "session_act grow sz left (Give_iterator xs) = session_give_iterator grow sz left xs"
| "session_act grow sz left (Give_container c) = session_give_container left c"
| "session_act grow sz left (Give_containers cs) = session_give_containers left cs"
| "session_act grow sz left Flush_session = session_flush left"

section \<open>Reading the input\<close>

text \<open>The messages that wait, each with its capability: the calls of \<open>for_each\<close>.\<close>

definition input_calls :: "('t, 's) operator_core \<Rightarrow> nat \<Rightarrow> 's port_connectivity \<Rightarrow> ('t, 'd) message list \<Rightarrow> (('t, 's) input_capability \<times> 'd list) list" where
  "input_calls oc consumed summaries q =
     map (\<lambda>m. (\<lparr>ic_internal = oc_internal oc, ic_summaries = summaries,
                ic_guard = \<lparr>cg_consumed = consumed, cg_time = fst m, cg_record_count = int (length (snd m))\<rparr>\<rparr>, snd m)) q"

lemma input_next_queue:
  assumes "input_next oc i ss = Some (Some c, ss')"
  shows "length (os_queues ss' ! i) < length (os_queues ss ! i)"
  using assms by (auto simp: input_next_def next_guarded_def bind_eq_Some_conv split: option.splits list.splits)

function for_each :: "('t, 's) operator_core \<Rightarrow> nat \<Rightarrow> ('t, 's, 'd) op_session
    \<Rightarrow> ((('t, 's) input_capability \<times> 'd list) list \<times> ('t, 's, 'd) op_session) option" where
  "for_each oc i ss =
     (case input_next oc i ss of
        None \<Rightarrow> None
      | Some (None, ss) \<Rightarrow> Some ([], ss)
      | Some (Some c, ss) \<Rightarrow> do { (cs, ss) \<leftarrow> for_each oc i ss; Some (c # cs, ss) })"
  by auto
termination
  by (relation "measure (\<lambda>(_, i, ss). length (os_queues ss ! i))") (auto dest!: sym [of "Some _"] input_next_queue)

declare for_each.simps [simp del]

text \<open>
  The loop of \<open>for_each_time\<close> over the sorted staging area: the capability of the first message is handed to the
  closure with the containers of all messages at its time, whose own capabilities are dropped before.
\<close>

function staged_groups ::
  "(('t::linorder, 's) input_capability \<times> 'd list) list \<Rightarrow> 't buffers \<Rightarrow> (('t, 's) input_capability \<times> 'd list list) list \<times> 't buffers" where
  "staged_groups [] h = ([], h)"
| "staged_groups ((cap, data) # staging) h =
     (let more = takeWhile (\<lambda>(c, _). ic_time c = ic_time cap) staging;
          h = fold ic_drop (map fst more) h;
          (gs, h) = staged_groups (drop (length more) staging) h
      in ((cap, data # map snd more) # gs, h))"
  by pat_completeness auto
termination
  by (relation "measure (\<lambda>(xs, _). length xs)") (auto simp: less_Suc_eq_le)

definition for_each_time ::
  "('t::linorder, 's) operator_core \<Rightarrow> nat \<Rightarrow> ('t, 's, 'd) op_session
   \<Rightarrow> ((('t, 's) input_capability \<times> 'd list list) list \<times> ('t, 's, 'd) op_session) option" where
  "for_each_time oc i ss =
     do { (staging, ss) \<leftarrow> for_each oc i ss;
          let (gs, h) = staged_groups (sort_key (\<lambda>x. ic_time (fst x)) staging) (os_store ss);
          Some (gs, ss\<lparr>os_store := h\<rparr>) }"

section \<open>Sessions deliver what they are given\<close>

lemma append_in_shuffles_left: "zs \<in> shuffles xs' ys' \<Longrightarrow> xs @ zs \<in> shuffles (xs @ xs') ys'"
  by (induction xs) (auto intro: Cons_in_shuffles_leftI)

lemma append_in_shuffles_right: "zs \<in> shuffles xs' ys' \<Longrightarrow> ys @ zs \<in> shuffles xs' (ys @ ys')"
  by (induction ys) (auto intro: Cons_in_shuffles_rightI)

lemma append_in_shuffles:
  "us \<in> shuffles xs ys \<Longrightarrow> vs \<in> shuffles xs' ys' \<Longrightarrow> us @ vs \<in> shuffles (xs @ xs') (ys @ ys')"
proof (induction xs ys arbitrary: us rule: shuffles.induct)
  case (3 x xs y ys)
  from "3.prems"(1) consider us' where "us = x # us'" "us' \<in> shuffles xs (y # ys)" | us' where "us = y # us'" "us' \<in> shuffles (x # xs) ys" by auto
  then show ?case
  proof cases
    case 1
    then show ?thesis using "3.IH"(1) [OF _ "3.prems"(2)] by (auto intro: Cons_in_shuffles_leftI)
  next
    case 2
    then show ?thesis using "3.IH"(2) [OF _ "3.prems"(2)] by (auto intro: Cons_in_shuffles_rightI)
  qed
qed (auto simp: append_in_shuffles_left append_in_shuffles_right)

text \<open>What an operation hands to the builder, and what it sends as containers, past the builder.\<close>

fun given :: "'d session_call \<Rightarrow> 'd list" where
  "given (Give_record x) = [x]"
| "given (Give_iterator xs) = xs"
| "given _ = []"

fun contained :: "'d session_call \<Rightarrow> 'd list" where
  "contained (Give_container c) = vc_items c"
| "contained (Give_containers cs) = concat (map vc_items cs)"
| "contained _ = []"

definition port_ok :: "'t::linorder buffers \<Rightarrow> ('t \<Rightarrow> int) \<Rightarrow> nat \<Rightarrow> ('t, 'd) out_port \<Rightarrow> bool" where
  "port_ok h0 off produced s \<longleftrightarrow> (\<exists>h p. s = Some (h, p) \<and> (\<forall>a. a \<noteq> produced \<longrightarrow> h a = h0 a)
     \<and> (\<forall>t. cb_count (h produced) t = off t + times_count t (delivered p)))"

definition port_recs :: "('t, 'd) out_port \<Rightarrow> ('t \<times> 'd) list" where
  "port_recs s = (case s of None \<Rightarrow> [] | Some (h, p) \<Rightarrow> delivered p)"

lemma session_send_ok:
  assumes "debug \<longrightarrow> valid" and "port_ok h0 off produced s"
  shows "port_ok h0 off produced (snd (session_send debug valid left time produced c s))"
    and "port_recs (snd (session_send debug valid left time produced c s)) = port_recs s @ map (Pair time) (vc_items c)"
  using assms by (auto simp: port_ok_def port_recs_def session_send_def progress_give_def counter_push_def buf_update_def)

interpretation port: container_sink "session_send debug valid left time produced" "\<lambda>s. (debug \<longrightarrow> valid) \<and> port_ok h0 off produced s" port_recs "Pair time"
  for debug valid left time produced h0 off
  by unfold_locales (simp add: session_send_ok(1), elim conjE, rule session_send_ok(2))

definition ou_inv :: "'t::linorder buffers \<Rightarrow> ('t \<Rightarrow> int) \<Rightarrow> ('t \<times> 'd) list \<Rightarrow> ('t, 'd) out_session \<Rightarrow> 'd list \<Rightarrow> 'd list \<Rightarrow> bool" where
  "ou_inv h0 off before ou gs cs \<longleftrightarrow> (ou_debug ou \<longrightarrow> ou_valid ou) \<and> port_ok h0 off (ou_produced ou) (ou_port ou) \<and> ccb_ok (ou_builder ou)
     \<and> (\<exists>sent rs. gs = sent @ ccb_records (ou_builder ou) \<and> port_recs (ou_port ou) = before @ map (Pair (ou_time ou)) rs \<and> rs \<in> shuffles sent cs)"

lemma ou_inv_moved:
  assumes "ou_inv h0 off before ou gs cs" and "ccb_ok b" and "port_ok h0 off (ou_produced ou) s"
    and "port_recs s = port_recs (ou_port ou) @ map (Pair (ou_time ou)) (xs @ ys)" and "xs @ ccb_records b = ccb_records (ou_builder ou) @ zs" and "xs = [] \<or> ys = []"
  shows "ou_inv h0 off before (ou\<lparr>ou_builder := b, ou_port := s\<rparr>) (gs @ zs) (cs @ ys)"
proof -
  obtain sent rs where k: "gs = sent @ ccb_records (ou_builder ou)" "port_recs (ou_port ou) = before @ map (Pair (ou_time ou)) rs" "rs \<in> shuffles sent cs"
    using assms(1) by (auto simp: ou_inv_def)
  have "xs @ ys \<in> shuffles xs ys" using assms(6) by auto
  from append_in_shuffles [OF k(3) this] have "rs @ xs @ ys \<in> shuffles (sent @ xs) (cs @ ys)" .
  moreover have "gs @ zs = (sent @ xs) @ ccb_records b" using k(1) assms(5) by simp
  moreover have "port_recs s = before @ map (Pair (ou_time ou)) (rs @ xs @ ys)" using k(2) assms(4) by simp
  ultimately have "\<exists>sent rs. gs @ zs = sent @ ccb_records b \<and> port_recs s = before @ map (Pair (ou_time ou)) rs \<and> rs \<in> shuffles sent (cs @ ys)" by blast
  then show ?thesis using assms(1-3) by (simp add: ou_inv_def)
qed

lemma extract_and_send_inv:
  assumes "ou_inv h0 off before ou gs cs" and "ccb_ok b0" and "ccb_records b0 = ccb_records (ou_builder ou) @ zs"
  shows "ou_inv h0 off before (session_extract_and_send left (ou\<lparr>ou_builder := b0\<rparr>)) (gs @ zs) cs"
proof -
  obtain b s where r: "drain_extract (ou_outlet left ou) b0 (ou_port ou) = (b, s)" by (cases "drain_extract (ou_outlet left ou) b0 (ou_port ou)")
  have k: "(ou_debug ou \<longrightarrow> ou_valid ou) \<and> port_ok h0 off (ou_produced ou) (ou_port ou)" using assms(1) by (simp add: ou_inv_def)
  note i = port.extract_inv [OF r assms(2) k]
  from port.extract_moved [OF r k] obtain xs where xs: "xs @ ccb_records b = ccb_records b0" "port_recs s = port_recs (ou_port ou) @ map (Pair (ou_time ou)) xs" by blast
  have "ou_inv h0 off before (ou\<lparr>ou_builder := b, ou_port := s\<rparr>) (gs @ zs) (cs @ [])"
    by (rule ou_inv_moved [OF assms(1), of b s xs "[]"]) (use i xs assms(3) in simp_all)
  then show ?thesis using r by (simp add: session_extract_and_send_def)
qed

lemma flush_inv:
  assumes "ou_inv h0 off before ou gs cs"
  shows "ou_inv h0 off before (session_flush left ou) gs cs" and "ccb_records (ou_builder (session_flush left ou)) = []"
proof -
  obtain b s where r: "drain_finish (ou_outlet left ou) (ou_builder ou) (ou_port ou) = (b, s)" by (cases "drain_finish (ou_outlet left ou) (ou_builder ou) (ou_port ou)")
  have k: "(ou_debug ou \<longrightarrow> ou_valid ou) \<and> port_ok h0 off (ou_produced ou) (ou_port ou)" and b: "ccb_ok (ou_builder ou)" using assms by (simp_all add: ou_inv_def)
  note i = port.finish_inv [OF r b k] and x = port.finish_recs [OF r k]
  have "ou_inv h0 off before (ou\<lparr>ou_builder := b, ou_port := s\<rparr>) (gs @ []) (cs @ [])"
    by (rule ou_inv_moved [OF assms, of b s "ccb_records (ou_builder ou)" "[]"]) (use i x in simp_all)
  then show "ou_inv h0 off before (session_flush left ou) gs cs" using r by (simp add: session_flush_def)
  show "ccb_records (ou_builder (session_flush left ou)) = []" using r i by (simp add: session_flush_def)
qed

lemma give_container_inv:
  assumes "ou_inv h0 off before ou gs cs"
  shows "ou_inv h0 off before (session_give_container left c ou) gs (cs @ vc_items c)"
proof -
  have k: "ou_debug ou \<longrightarrow> ou_valid ou" "port_ok h0 off (ou_produced ou) (ou_port ou)" "ccb_ok (ou_builder ou)" using assms by (simp_all add: ou_inv_def)
  have "ou_inv h0 off before (ou\<lparr>ou_builder := ou_builder ou, ou_port := snd (ou_outlet left ou c (ou_port ou))\<rparr>) (gs @ []) (cs @ vc_items c)"
    by (rule ou_inv_moved [OF assms k(3), of _ "[]" "vc_items c"]) (use session_send_ok [OF k(1,2)] in simp_all)
  then show ?thesis by (simp add: session_give_container_def)
qed

lemma give_containers_inv:
  "ou_inv h0 off before ou gs cs \<Longrightarrow> ou_inv h0 off before (session_give_containers left vs ou) gs (cs @ concat (map vc_items vs))"
proof (induction vs arbitrary: ou cs)
  case (Cons v vs)
  from Cons.IH [OF give_container_inv [OF Cons.prems, of left v]] show ?case by (simp add: session_give_containers_def)
qed (simp add: session_give_containers_def)

lemma session_act_inv:
  assumes "ou_inv h0 off before ou gs cs" and "\<forall>n. n \<le> grow n"
  shows "ou_inv h0 off before (session_act grow sz left act ou) (gs @ given act) (cs @ contained act)"
proof -
  have b: "ccb_ok (ou_builder ou)" using assms(1) by (simp add: ou_inv_def)
  have g: "n \<le> grow n" for n using assms(2) by simp
  show ?thesis
  proof (cases act)
    case (Give_record x)
    then show ?thesis using extract_and_send_inv [OF assms(1) ccb_push_into_ok [OF b g]] by (simp add: session_give_def)
  next
    case (Give_iterator xs)
    note f = fold_push_into_ok [OF g b]
    show ?thesis using extract_and_send_inv [OF assms(1) conjunct1 [OF f] conjunct2 [OF f]] by (simp add: session_give_iterator_def Give_iterator)
  qed (simp_all add: give_container_inv give_containers_inv flush_inv assms(1))
qed

lemma session_acts_inv:
  "ou_inv h0 off before ou gs cs \<Longrightarrow> \<forall>n. n \<le> grow n
   \<Longrightarrow> ou_inv h0 off before (fold (session_act grow sz left) acts ou) (gs @ concat (map given acts)) (cs @ concat (map contained acts))"
proof (induction acts arbitrary: ou gs cs)
  case (Cons act acts)
  from Cons.IH [OF session_act_inv [OF Cons.prems] Cons.prems(2)] show ?case by simp
qed simp

lemma session_act_fields [simp]:
  "ou_time (session_act grow sz left act ou) = ou_time ou" "ou_produced (session_act grow sz left act ou) = ou_produced ou"
proof -
  have c: "ou_time (session_give_container left c ou) = ou_time ou" "ou_produced (session_give_container left c ou) = ou_produced ou" for c and ou :: "('a, 'b) out_session"
    by (simp_all add: session_give_container_def)
  have "ou_time (session_give_containers left cs ou) = ou_time ou" "ou_produced (session_give_containers left cs ou) = ou_produced ou" for cs
    unfolding session_give_containers_def by (induction cs arbitrary: ou) (simp_all add: c)
  then show "ou_time (session_act grow sz left act ou) = ou_time ou" "ou_produced (session_act grow sz left act ou) = ou_produced ou"
    by (cases act; simp add: c session_give_def session_give_iterator_def session_extract_and_send_def session_flush_def split: prod.split)+
qed

lemma session_acts_fields [simp]:
  "ou_time (fold (session_act grow sz left) acts ou) = ou_time ou" "ou_produced (fold (session_act grow sz left) acts ou) = ou_produced ou"
  by (induction acts arbitrary: ou) simp_all

lemma session_sends:
  assumes "\<forall>n. n \<le> grow n" and "debug \<longrightarrow> valid" and "ccb_ok builder" and "ccb_records builder = []"
  shows "\<exists>ou ou' rs h' p'. session_open debug valid time produced builder h p = Some ou
    \<and> session_drop left (fold (session_act grow sz left) acts ou) = ou' \<and> ou_port ou' = Some (h', p') \<and> ccb_records (ou_builder ou') = []
    \<and> delivered p' = delivered p @ map (Pair time) rs \<and> rs \<in> shuffles (concat (map given acts)) (concat (map contained acts))
    \<and> (\<forall>a. a \<noteq> produced \<longrightarrow> h' a = h a)
    \<and> (\<forall>t. cb_count (h' produced) t = cb_count (h produced) t + (if t = time then int (length rs) else 0))"
proof -
  define ou where "ou = \<lparr>ou_debug = debug, ou_valid = valid, ou_time = time, ou_produced = produced, ou_builder = builder, ou_port = Some (h, p)\<rparr>"
  define off where "off t = cb_count (h produced) t - times_count t (delivered p)" for t
  define ou' where "ou' = session_drop left (fold (session_act grow sz left) acts ou)"
  have "port_ok h off produced (Some (h, p))" by (simp add: port_ok_def off_def)
  then have "ou_inv h off (delivered p) ou [] []" using assms(2-4) by (simp add: ou_inv_def ou_def port_recs_def)
  note f = flush_inv [OF session_acts_inv [OF this assms(1)], of left]
  have e: "ou_time ou' = time" "ou_produced ou' = produced"
    by (simp_all add: ou'_def session_drop_def session_flush_def ou_def split: prod.split)
  have i: "ou_inv h off (delivered p) ou' (concat (map given acts)) (concat (map contained acts))" "ccb_records (ou_builder ou') = []"
    using f by (simp_all add: ou'_def session_drop_def)
  then obtain rs h' p' where k: "ou_port ou' = Some (h', p')" "delivered p' = delivered p @ map (Pair time) rs"
    "rs \<in> shuffles (concat (map given acts)) (concat (map contained acts))" "\<forall>a. a \<noteq> produced \<longrightarrow> h' a = h a"
    "\<forall>t. cb_count (h' produced) t = off t + times_count t (delivered p')"
    by (auto simp: ou_inv_def port_ok_def port_recs_def e)
  have "session_open debug valid time produced builder h p = Some ou" using assms(2) by (auto simp: session_open_def ou_def)
  moreover have "\<forall>t. cb_count (h' produced) t = cb_count (h produced) t + (if t = time then int (length rs) else 0)"
    using k(2,5) by (simp add: off_def)
  ultimately show ?thesis using k i(2) ou'_def by blast
qed

text \<open>
  C22: An output session with a valid capability never panics, and once it is dropped everything it was given has
  been sent at the time of the capability, and counted: the records given one by one or by an iterator in their
  order, interleaved with the containers given whole, which do not wait for the container being built.
\<close>
theorem session_delivers:
  assumes "\<forall>n. n \<le> grow n" and "debug \<longrightarrow> valid" and "ccb_ok builder" and "ccb_records builder = []"
  shows "\<exists>ou ou' rs h' p'. session_open debug valid time produced builder h p = Some ou
    \<and> session_drop left (fold (session_act grow sz left) acts ou) = ou' \<and> ou_port ou' = Some (h', p') \<and> ccb_records (ou_builder ou') = []
    \<and> delivered p' = delivered p @ map (Pair time) rs \<and> rs \<in> shuffles (concat (map given acts)) (concat (map contained acts))
    \<and> (\<forall>a. a \<noteq> produced \<longrightarrow> h' a = h a)
    \<and> (\<forall>t. cb_count (h' produced) t = cb_count (h produced) t + (if t = time then int (length rs) else 0))"
  by (rule session_sends [OF assms])

theorem session_delivers_witness:
  "\<exists>ou' rs h' p'. session_drop (\<lambda>_. None) (fold (session_act (\<lambda>n. n) 4096 (\<lambda>_. None)) [Give_record 1, Give_container \<lparr>vc_items = [5], vc_capacity = 1\<rparr>, Give_iterator [2, 3]]
        \<lparr>ou_debug = True, ou_valid = True, ou_time = 7, ou_produced = 0, ou_builder = ccb_default, ou_port = Some (\<lambda>_. cb_new, [])\<rparr>) = ou'
     \<and> ou_port ou' = Some (h', p') \<and> delivered p' = map (Pair (7 :: nat)) rs \<and> rs \<in> shuffles [1, 2, 3 :: nat] [5] \<and> cb_count (h' 0) 7 = int (length rs)"
proof -
  have "\<forall>n :: nat. n \<le> n" "True \<longrightarrow> True" by simp_all
  from session_delivers [OF this ccb_default_ok(1,2), of "7 :: nat" 0 "\<lambda>_. cb_new" "[]" "\<lambda>_. None" 4096
      "[Give_record 1, Give_container \<lparr>vc_items = [5], vc_capacity = 1\<rparr>, Give_iterator [2, 3]]"]
  obtain ou ou' rs h' p' where "session_open True True (7 :: nat) 0 ccb_default (\<lambda>_. cb_new) [] = Some ou"
    "session_drop (\<lambda>_. None) (fold (session_act (\<lambda>n. n) 4096 (\<lambda>_. None)) [Give_record 1, Give_container \<lparr>vc_items = [5], vc_capacity = 1\<rparr>, Give_iterator [2, 3]] ou) = ou'"
    "ou_port ou' = Some (h', p')" "delivered p' = delivered [] @ map (Pair 7) rs"
    "rs \<in> shuffles (concat (map given [Give_record 1, Give_container \<lparr>vc_items = [5], vc_capacity = 1\<rparr>, Give_iterator [2, 3 :: nat]]))
        (concat (map contained [Give_record 1, Give_container \<lparr>vc_items = [5], vc_capacity = 1\<rparr>, Give_iterator [2, 3]]))"
    "\<forall>t. cb_count (h' 0) t = cb_count cb_new t + (if t = 7 then int (length rs) else 0)" by blast
  then show ?thesis by (simp only: session_open_def given.simps contained.simps list.map concat.simps append.simps rvec.select_convs delivered_simps(1)
        HOL.simp_thms if_False option.inject cb_count_new if_True add_0) auto
qed

section \<open>Grouping the input by time\<close>

lemma ic_drop_all_count: "cb_count (fold ic_drop cs h a) t = cb_count (h a) t + guarded cs a t"
  by (induction cs arbitrary: h) (auto simp: ic_drop_def guard_drop_def ic_time_def)

lemma guarded_mset: "mset cs = mset ds \<Longrightarrow> guarded cs a t = guarded ds a t"
  unfolding guarded_def by (rule upd_count_mset) (simp add: mset_map mset_filter)

lemma for_each_eq:
  assumes "i < length (os_queues ss)" and "i < length (oc_consumed oc)" and "i < length (oc_summaries oc)"
  shows "for_each oc i ss = Some (input_calls oc (oc_consumed oc ! i) (oc_summaries oc ! i) (os_queues ss ! i), ss\<lparr>os_queues := (os_queues ss)[i := []]\<rparr>)"
  using assms
proof (induction "os_queues ss ! i" arbitrary: ss)
  case Nil
  then have "(os_queues ss)[i := []] = os_queues ss" by (metis list_update_id)
  then show ?case using Nil by (subst for_each.simps) (simp add: input_next_def vec_get_def next_guarded_def input_calls_def)
next
  case (Cons m q)
  let ?ss = "ss\<lparr>os_queues := (os_queues ss)[i := q]\<rparr>"
  have "for_each oc i ?ss = Some (input_calls oc (oc_consumed oc ! i) (oc_summaries oc ! i) q, ss\<lparr>os_queues := (os_queues ss)[i := []]\<rparr>)"
    using Cons(1) [of ?ss] Cons(3-5) by simp
  then show ?case using Cons(2-5) by (subst for_each.simps) (simp add: input_next_def vec_get_def next_guarded_def input_calls_def Cons(2) [symmetric])
qed

lemma takeWhile_same_time:
  assumes "sorted (map (\<lambda>x. ic_time (fst x)) ((cap, data) # xs))"
  defines "same \<equiv> takeWhile (\<lambda>(c, _). ic_time c = ic_time cap) xs"
  shows "map (\<lambda>(c, d). (ic_time c, d)) same = map (Pair (ic_time cap)) (map snd same)"
    and "xs = same @ drop (length same) xs" and "sorted (map (\<lambda>x. ic_time (fst x)) (drop (length same) xs))"
    and "\<forall>x \<in> set (drop (length same) xs). ic_time cap < ic_time (fst x)"
proof -
  have e: "drop (length same) xs = dropWhile (\<lambda>(c, _). ic_time c = ic_time cap) xs" by (simp add: same_def dropWhile_eq_drop)
  show "map (\<lambda>(c, d). (ic_time c, d)) same = map (Pair (ic_time cap)) (map snd same)"
    by (auto simp: same_def dest!: set_takeWhileD)
  show "xs = same @ drop (length same) xs" unfolding e by (simp add: same_def)
  show s: "sorted (map (\<lambda>x. ic_time (fst x)) (drop (length same) xs))" using assms(1) by (simp add: drop_map [symmetric] sorted_wrt_drop)
  show "\<forall>x \<in> set (drop (length same) xs). ic_time cap < ic_time (fst x)"
  proof (cases "drop (length same) xs")
    case (Cons y ys)
    then have "ic_time (fst y) \<noteq> ic_time cap" using hd_dropWhile [of "\<lambda>(c, _). ic_time c = ic_time cap" xs] e by (auto simp: case_prod_beta)
    moreover have "y \<in> set xs" using Cons by (metis in_set_dropD list.set_intros(1))
    then have "ic_time cap \<le> ic_time (fst y)" using assms(1) by auto
    ultimately show ?thesis using s Cons by auto
  qed simp
qed

lemma staged_groups_ok:
  assumes "sorted (map (\<lambda>x. ic_time (fst x)) xs)" and "staged_groups xs h = (gs, h')"
  shows "concat (map (\<lambda>(c, ds). map (Pair (ic_time c)) ds) gs) = map (\<lambda>(c, d). (ic_time c, d)) xs
    \<and> sorted_wrt (<) (map (\<lambda>g. ic_time (fst g)) gs) \<and> (\<lambda>g. ic_time (fst g)) ` set gs \<subseteq> (\<lambda>x. ic_time (fst x)) ` set xs
    \<and> (\<forall>a t. cb_count (h' a) t + guarded (map fst gs) a t = cb_count (h a) t + guarded (map fst xs) a t)"
  using assms
proof (induction xs h arbitrary: gs h' rule: staged_groups.induct)
  case (2 cap data xs h)
  define same where "same = takeWhile (\<lambda>(c, _). ic_time c = ic_time cap) xs"
  define rest where "rest = drop (length same) xs"
  note tw = takeWhile_same_time [OF "2.prems"(1), folded same_def, folded rest_def]
  obtain gs1 h1 where r: "staged_groups rest (fold ic_drop (map fst same) h) = (gs1, h1)" by (cases "staged_groups rest (fold ic_drop (map fst same) h)")
  have o: "gs = (cap, data # map snd same) # gs1" "h' = h1" using "2.prems"(2) r by (simp_all add: same_def [symmetric] rest_def [symmetric] Let_def)
  note ih = "2.IH" [OF same_def HOL.refl, folded rest_def, OF tw(3) r]
  have "ic_time cap < ic_time (fst g)" if "g \<in> set gs1" for g using ih tw(4) that by fastforce
  moreover have "map (\<lambda>(c, d). (ic_time c, d)) xs = map (Pair (ic_time cap)) (map snd same) @ map (\<lambda>(c, d). (ic_time c, d)) rest"
    using tw(1,2) by (metis map_append)
  moreover have "guarded (map fst xs) a t = guarded (map fst same) a t + guarded (map fst rest) a t" for a t
    using tw(2) by (metis map_append guarded_simps(3))
  moreover have "set rest \<subseteq> set xs" by (simp add: rest_def set_drop_subset)
  then have "(\<lambda>g. ic_time (fst g)) ` set gs1 \<subseteq> (\<lambda>x. ic_time (fst x)) ` set xs" using ih by blast
  ultimately show ?case using ih o by (simp add: ic_drop_all_count comp_def subset_insertI2)
qed simp

lemma staged_groups_caps: "staged_groups xs h = (gs, h') \<Longrightarrow> fst ` set gs \<subseteq> fst ` set xs \<and> [] \<notin> snd ` set gs"
proof (induction xs h arbitrary: gs h' rule: staged_groups.induct)
  case (2 cap data xs h)
  define same where "same = takeWhile (\<lambda>(c, _). ic_time c = ic_time cap) xs"
  obtain gs1 h1 where r: "staged_groups (drop (length same) xs) (fold ic_drop (map fst same) h) = (gs1, h1)"
    by (cases "staged_groups (drop (length same) xs) (fold ic_drop (map fst same) h)")
  have "gs = (cap, data # map snd same) # gs1" using "2.prems" r by (simp add: same_def [symmetric] Let_def)
  moreover have "fst ` set gs1 \<subseteq> fst ` set xs" "[] \<notin> snd ` set gs1"
    using "2.IH" [OF same_def HOL.refl r] image_mono [OF set_drop_subset, of fst "length same" xs] by blast+
  ultimately show ?case by (simp add: subset_insertI2)
qed simp

lemma for_each_time_groups:
  assumes "i < length (os_queues ss)" and "i < length (oc_consumed oc)" and "i < length (oc_summaries oc)"
  shows "\<exists>calls gs h'. calls = input_calls oc (oc_consumed oc ! i) (oc_summaries oc ! i) (os_queues ss ! i)
    \<and> fst ` set gs \<subseteq> fst ` set calls \<and> [] \<notin> snd ` set gs \<and> for_each oc i ss = Some (calls, ss\<lparr>os_queues := (os_queues ss)[i := []]\<rparr>)
    \<and> for_each_time oc i ss = Some (gs, ss\<lparr>os_queues := (os_queues ss)[i := []], os_store := h'\<rparr>)
    \<and> map (\<lambda>(c, d). (ic_time c, d)) calls = os_queues ss ! i
    \<and> concat (map (\<lambda>(c, ds). map (Pair (ic_time c)) ds) gs) = sort_key fst (os_queues ss ! i)
    \<and> sorted_wrt (<) (map (\<lambda>g. ic_time (fst g)) gs)
    \<and> (\<forall>a t. cb_count (h' a) t + guarded (map fst gs) a t = cb_count (os_store ss a) t + guarded (map fst calls) a t)"
proof -
  let ?f = "\<lambda>(c, d). (ic_time c, d)" and ?k = "\<lambda>x. ic_time (fst x)"
  define calls where "calls = input_calls oc (oc_consumed oc ! i) (oc_summaries oc ! i) (os_queues ss ! i)"
  obtain gs h' where g: "staged_groups (sort_key ?k calls) (os_store ss) = (gs, h')" by (cases "staged_groups (sort_key ?k calls) (os_store ss)")
  note f = for_each_eq [OF assms, folded calls_def]
  have c: "map ?f calls = os_queues ss ! i" by (simp add: calls_def input_calls_def ic_time_def comp_def)
  have st: "filter (\<lambda>x. u = ?k x) (sort_key ?k calls) = filter (\<lambda>x. u = ?k x) calls" for u
    using sort_key_stable [of ?k u calls] by (simp only: eq_commute [of u])
  have "map ?f (sort_key ?k calls) = sort_key fst (map ?f calls)"
    by (rule sym, rule properties_for_sort_key) (auto simp: case_prod_beta comp_def filter_map st)
  note k = staged_groups_ok [OF sorted_sort_key g] this
  have "guarded (map fst (sort_key ?k calls)) a t = guarded (map fst calls) a t" for a t by (rule guarded_mset) simp
  with k c have "concat (map (\<lambda>(c, ds). map (Pair (ic_time c)) ds) gs) = sort_key fst (os_queues ss ! i)"
    "\<forall>a t. cb_count (h' a) t + guarded (map fst gs) a t = cb_count (os_store ss a) t + guarded (map fst calls) a t" by simp_all
  moreover have "for_each_time oc i ss = Some (gs, ss\<lparr>os_queues := (os_queues ss)[i := []], os_store := h'\<rparr>)"
    using f g by (simp add: for_each_time_def)
  moreover have "fst ` set gs \<subseteq> fst ` set calls" "[] \<notin> snd ` set gs" using staged_groups_caps [OF g] by simp_all
  ultimately show ?thesis using f c conjunct1 [OF conjunct2 [OF k(1)]]
    by (intro exI [of _ calls] exI [of _ gs] exI [of _ h'] conjI) (rule calls_def | assumption)+
qed

text \<open>
  C23: \<open>for_each_time\<close> is \<open>for_each\<close> with the containers gathered by time: on the same messages it hands out the same
  containers, stably sorted by time, one call per time in increasing order, and the capabilities it drops while
  grouping and those it hands out account for exactly the records that the capabilities of \<open>for_each\<close> do.
\<close>
theorem for_each_time_equiv:
  assumes "i < length (os_queues ss)" and "i < length (oc_consumed oc)" and "i < length (oc_summaries oc)"
  shows "\<exists>calls gs h'. for_each oc i ss = Some (calls, ss\<lparr>os_queues := (os_queues ss)[i := []]\<rparr>)
    \<and> for_each_time oc i ss = Some (gs, ss\<lparr>os_queues := (os_queues ss)[i := []], os_store := h'\<rparr>)
    \<and> map (\<lambda>(c, d). (ic_time c, d)) calls = os_queues ss ! i
    \<and> concat (map (\<lambda>(c, ds). map (Pair (ic_time c)) ds) gs) = sort_key fst (os_queues ss ! i)
    \<and> sorted_wrt (<) (map (\<lambda>g. ic_time (fst g)) gs)
    \<and> (\<forall>a t. cb_count (h' a) t + guarded (map fst gs) a t = cb_count (os_store ss a) t + guarded (map fst calls) a t)"
  using for_each_time_groups [OF assms] by blast

definition reader_core :: "(nat, nat) operator_core" where
  "reader_core = \<lparr>oc_address = [0, 1], oc_notify = True, oc_peers = 1, oc_inputs = 1, oc_outputs = 0, oc_summary = [pc_default],
     oc_frontier = [ma_new], oc_consumed = [0], oc_internal = [], oc_summaries = [pc_default], oc_produced = []\<rparr>"

definition reader_session :: "(nat, nat, nat) op_session" where
  "reader_session = \<lparr>os_store = (\<lambda>_. cb_new), os_caps = [], os_incaps = [], os_queues = [[(3, [1]), (2, [2]), (3, [3])]], os_sent = []\<rparr>"

theorem for_each_time_equiv_witness:
  "\<exists>gs h'. for_each_time reader_core 0 reader_session = Some (gs, reader_session\<lparr>os_queues := [[]], os_store := h'\<rparr>)
     \<and> concat (map (\<lambda>(c, ds). map (Pair (ic_time c)) ds) gs) = [(2, [2]), (3, [1]), (3, [3])] \<and> sorted_wrt (<) (map (\<lambda>g. ic_time (fst g)) gs)"
proof -
  have "0 < length (os_queues reader_session)" "0 < length (oc_consumed reader_core)" "0 < length (oc_summaries reader_core)"
    by (simp_all add: reader_session_def reader_core_def)
  from for_each_time_equiv [OF this] obtain gs h'
    where "for_each_time reader_core 0 reader_session = Some (gs, reader_session\<lparr>os_queues := (os_queues reader_session)[0 := []], os_store := h'\<rparr>)"
      "concat (map (\<lambda>(c, ds). map (Pair (ic_time c)) ds) gs) = sort_key fst (os_queues reader_session ! 0)"
      "sorted_wrt (<) (map (\<lambda>g. ic_time (fst g)) gs)" by blast
  moreover have "os_queues reader_session = [[(3, [1]), (2, [2]), (3, [3])]]" by (simp add: reader_session_def)
  ultimately show ?thesis by (auto simp: sort_key_def)
qed

end
