(* ===== verification/Worker.thy ===== *)
theory Worker
  imports Activate "HOL-Library.AList"
begin

text \<open>
  The worker that owns the dataflows of a thread and schedules them (\<open>timely/src/worker.rs\<close>).

  \<open>sched\<close> is the \<open>schedule\<close> of an installed dataflow; it sees and changes the activations of the worker.
  The allocator is an argument of a step: the channels it has events for.  Dropping a dataflow is not seen to activate anything
  by itself; what its operators wake then is a wake-up from outside.  The hash maps of the worker are
  association lists, read only by key.  Resources and loggers are left out.
\<close>

section \<open>Dataflows\<close>

record 'op wrapper =
  wr_identifier :: nat
  wr_operate :: "'op option"
  wr_channel_ids :: "nat list"

type_synonym 'op sched = "'op \<Rightarrow> activations \<Rightarrow> (bool \<times> 'op \<times> activations) option"

definition wrapper_step :: "'op sched \<Rightarrow> 'op wrapper \<Rightarrow> activations \<Rightarrow> (bool \<times> 'op wrapper \<times> activations) option" where
  "wrapper_step sched wr av =
     (case wr_operate wr of
        None \<Rightarrow> Some (False, wr, av)
      | Some op \<Rightarrow> do { (incomplete, op, av) \<leftarrow> sched op av;
                       Some (incomplete, wr\<lparr>wr_operate := (if incomplete then Some op else None)\<rparr>, av) })"

section \<open>Workers\<close>

record 'op worker =
  wk_paths :: "(nat \<times> path) list"
  wk_identifiers :: nat
  wk_dataflows :: "(nat \<times> 'op wrapper) list"
  wk_dataflow_counter :: nat
  wk_activations :: activations
  wk_temp_channel_ids :: "nat list"

definition worker_new :: "bool \<Rightarrow> 'op worker" where
  "worker_new timer =
     \<lparr>wk_paths = [], wk_identifiers = 0, wk_dataflows = [], wk_dataflow_counter = 0, wk_activations = av_new timer, wk_temp_channel_ids = []\<rparr>"

definition wk_new_identifier :: "'op worker \<Rightarrow> nat \<times> 'op worker" where
  "wk_new_identifier w = (let w = w\<lparr>wk_identifiers := wk_identifiers w + 1\<rparr> in (wk_identifiers w - 1, w))"

definition wk_allocate_dataflow_index :: "'op worker \<Rightarrow> nat \<times> 'op worker" where
  "wk_allocate_dataflow_index w = (let w = w\<lparr>wk_dataflow_counter := wk_dataflow_counter w + 1\<rparr> in (wk_dataflow_counter w - 1, w))"

text \<open>\<open>allocate\<close>, \<open>pipeline\<close> and \<open>broadcast\<close>; they differ in what the allocator is asked for.  \<open>None\<close>: an empty address.\<close>

definition wk_allocate :: "nat \<Rightarrow> path \<Rightarrow> 'op worker \<Rightarrow> 'op worker option" where
  "wk_allocate identifier address w =
     (if address = [] then None
      else Some (w\<lparr>wk_paths := AList.update identifier address (wk_paths w), wk_temp_channel_ids := wk_temp_channel_ids w @ [identifier]\<rparr>))"

text \<open>
  A new channel at an address: of an input of an operator, and of the progress updates of a scope (\<open>Progcaster::new\<close>).
  The \<open>build\<close> of a scope takes that channel and activates the path of the scope.
\<close>

definition wk_connect :: "path \<Rightarrow> 'op worker \<Rightarrow> 'op worker option" where
  "wk_connect address w = (let (channel_id, w) = wk_new_identifier w in wk_allocate channel_id address w)"

definition wk_activate :: "path \<Rightarrow> 'op worker \<Rightarrow> 'op worker" where
  "wk_activate path w = w\<lparr>wk_activations := av_activate path (wk_activations w)\<rparr>"

definition wk_build_scope :: "path \<Rightarrow> 'op worker \<Rightarrow> 'op worker option" where
  "wk_build_scope path w = do { w \<leftarrow> wk_connect path w; Some (wk_activate path w) }"

text \<open>
  What the construction of the dataflow at an index does to the worker: operators and scopes take identifiers; inputs of
  operators are connected; nested scopes are built; operators are activated, by \<open>get_internal_summary\<close> when they are
  added and by their logic when \<open>set_external_summary\<close> schedules them; and the closure may use any activator it holds.
\<close>

datatype construction = Identify | Connect path | Build_scope path | Wake path | Wake_after duration path duration

fun wk_construct_step :: "nat \<Rightarrow> construction \<Rightarrow> 'op worker \<Rightarrow> 'op worker option" where
  "wk_construct_step index Identify w = Some (snd (wk_new_identifier w))"
| "wk_construct_step index (Connect rest) w = wk_connect (index # rest) w"
| "wk_construct_step index (Build_scope rest) w = wk_build_scope (index # rest) w"
| "wk_construct_step index (Wake path) w = Some (wk_activate path w)"
| "wk_construct_step index (Wake_after elapsed path delay) w =
     map_option (\<lambda>av. w\<lparr>wk_activations := av\<rparr>) (activator_activate_after elapsed path delay (wk_activations w))"

fun wk_construct :: "nat \<Rightarrow> construction list \<Rightarrow> 'op worker \<Rightarrow> 'op worker option" where
  "wk_construct index [] w = Some w"
| "wk_construct index (c # cs) w = do { w \<leftarrow> wk_construct_step index c w; wk_construct index cs w }"

text \<open>
  \<open>dataflow_core\<close>: \<open>func\<close> is what the closure does, \<open>summaries\<close> what \<open>get_internal_summary\<close> and
  \<open>set_external_summary\<close> of the built dataflow \<open>op\<close> do.
\<close>

definition wk_dataflow_core :: "construction list \<Rightarrow> construction list \<Rightarrow> 'op \<Rightarrow> 'op worker \<Rightarrow> 'op worker option" where
  "wk_dataflow_core func summaries op w =
     (let (dataflow_index, w) = wk_allocate_dataflow_index w;
          addr = [dataflow_index];
          (identifier, w) = wk_new_identifier w
      in do { w \<leftarrow> wk_construct dataflow_index func w;
              w \<leftarrow> wk_build_scope addr w;
              w \<leftarrow> wk_construct dataflow_index summaries w;
              let wrapper = \<lparr>wr_identifier = identifier, wr_operate = Some op, wr_channel_ids = wk_temp_channel_ids w\<rparr>;
              Some (w\<lparr>wk_temp_channel_ids := [], wk_dataflows := AList.update dataflow_index wrapper (wk_dataflows w)\<rparr>) })"

definition wk_drop_dataflow :: "nat \<Rightarrow> 'op worker \<Rightarrow> 'op worker" where
  "wk_drop_dataflow index w =
     (case map_of (wk_dataflows w) index of
        None \<Rightarrow> w
      | Some wr \<Rightarrow> w\<lparr>wk_paths := fold AList.delete (wr_channel_ids wr) (wk_paths w), wk_dataflows := AList.delete index (wk_dataflows w)\<rparr>)"

definition wk_has_dataflows :: "'op worker \<Rightarrow> bool" where
  "wk_has_dataflows w \<longleftrightarrow> wk_dataflows w \<noteq> []"

section \<open>Steps\<close>

definition wk_channel_events :: "nat list \<Rightarrow> 'op worker \<Rightarrow> 'op worker" where
  "wk_channel_events events w =
     w\<lparr>wk_activations := fold (\<lambda>channel av. case map_of (wk_paths w) channel of Some path \<Rightarrow> av_activate path av | None \<Rightarrow> av)
         (remdups_adj (sort events)) (wk_activations w)\<rparr>"

definition min_delay :: "duration option \<Rightarrow> duration option \<Rightarrow> duration option" where
  "min_delay duration empty_for =
     (case (duration, empty_for) of (Some x, Some y) \<Rightarrow> Some (min x y) | (Some x, None) \<Rightarrow> Some x | (None, y) \<Rightarrow> y)"

fun wk_run_dataflows :: "'op sched \<Rightarrow> nat list \<Rightarrow> 'op worker \<Rightarrow> 'op worker option" where
  "wk_run_dataflows sched [] w = Some w"
| "wk_run_dataflows sched (index # indices) w =
     (case map_of (wk_dataflows w) index of
        None \<Rightarrow> wk_run_dataflows sched indices w
      | Some wr \<Rightarrow> do { (incomplete, wr, av) \<leftarrow> wrapper_step sched wr (wk_activations w);
                       let w = w\<lparr>wk_activations := av\<rparr>;
                       let w = (if \<not> incomplete
                                then w\<lparr>wk_paths := fold AList.delete (wr_channel_ids wr) (wk_paths w),
                                       wk_dataflows := AList.delete index (wk_dataflows w)\<rparr>
                                else w\<lparr>wk_dataflows := AList.update index wr (wk_dataflows w)\<rparr>);
                       wk_run_dataflows sched indices w })"

datatype step_outcome = Parked "duration option" | Stepped

text \<open>
  \<open>step_or_park\<close> at the moments \<open>elapsed\<close> of \<open>advance\<close> and \<open>elapsed'\<close> of \<open>empty_for\<close>; with it, whether
  dataflows remain.
\<close>

definition wk_step_or_park ::
  "'op sched \<Rightarrow> nat list \<Rightarrow> duration \<Rightarrow> duration \<Rightarrow> duration option \<Rightarrow> 'op worker \<Rightarrow> (step_outcome \<times> bool \<times> 'op worker) option" where
  "wk_step_or_park sched events elapsed elapsed' duration w =
     (let w = wk_channel_events events w
      in do { av \<leftarrow> av_advance elapsed (wk_activations w);
              let w = w\<lparr>wk_activations := av\<rparr>;
              let delay = min_delay duration (av_empty_for elapsed' av);
              if delay \<noteq> Some (from_nanos 0) then Some (Parked delay, wk_has_dataflows w, w)
              else do { active_dataflows \<leftarrow> av_for_extensions [] av;
                        w \<leftarrow> wk_run_dataflows sched active_dataflows w;
                        Some (Stepped, wk_has_dataflows w, w) } })"

definition wk_step :: "'op sched \<Rightarrow> nat list \<Rightarrow> duration \<Rightarrow> duration \<Rightarrow> 'op worker \<Rightarrow> (step_outcome \<times> bool \<times> 'op worker) option" where
  "wk_step sched events elapsed elapsed' w = wk_step_or_park sched events elapsed elapsed' (Some (from_nanos 0)) w"

text \<open>
  The states of a worker: dataflows are built and dropped, the worker steps, and between these the program and other
  threads wake paths, with an \<open>Activator\<close>, after a delay, or through a \<open>SyncActivator\<close>, and take identifiers.
\<close>

inductive worker_reach :: "'op sched \<Rightarrow> 'op worker \<Rightarrow> bool" for sched where
  wk_init: "worker_reach sched (worker_new timer)"
| wk_build: "worker_reach sched w \<Longrightarrow> wk_dataflow_core func summaries op w = Some w' \<Longrightarrow> worker_reach sched w'"
| wk_drop: "worker_reach sched w \<Longrightarrow> worker_reach sched (wk_drop_dataflow index w)"
| wk_sched: "worker_reach sched w \<Longrightarrow> wk_step_or_park sched events elapsed elapsed' duration w = Some (outcome, remaining, w') \<Longrightarrow> worker_reach sched w'"
| wk_wake: "worker_reach sched w \<Longrightarrow> worker_reach sched (wk_activate path w)"
| wk_wake_after: "worker_reach sched w \<Longrightarrow> activator_activate_after elapsed path delay (wk_activations w) = Some av
    \<Longrightarrow> worker_reach sched (w\<lparr>wk_activations := av\<rparr>)"
| wk_wake_sync: "worker_reach sched w \<Longrightarrow> sync_activate_batch paths (Some (wk_activations w)) = (r, Some av)
    \<Longrightarrow> worker_reach sched (w\<lparr>wk_activations := av\<rparr>)"
| wk_identify: "worker_reach sched w \<Longrightarrow> worker_reach sched (snd (wk_new_identifier w))"

section \<open>Invariant\<close>

text \<open>
  Every registered channel belongs to one installed dataflow, whose index its path starts with, or to the one under
  construction; every channel of an installed dataflow is registered.
\<close>

definition owns :: "(nat \<times> path) list \<Rightarrow> nat \<Rightarrow> nat list \<Rightarrow> bool" where
  "owns paths index cs \<longleftrightarrow> (\<forall>c \<in> set cs. \<exists>rest. map_of paths c = Some (index # rest))"

definition wk_inv :: "'op worker \<Rightarrow> bool" where
  "wk_inv w \<longleftrightarrow> distinct (map fst (wk_dataflows w)) \<and> distinct (map fst (wk_paths w)) \<and> wk_temp_channel_ids w = [] \<and> av_inv (wk_activations w)
     \<and> (\<forall>c \<in> fst ` set (wk_paths w). c < wk_identifiers w)
     \<and> (\<forall>index wr. map_of (wk_dataflows w) index = Some wr \<longrightarrow>
          index < wk_dataflow_counter w \<and> wr_operate wr \<noteq> None \<and> owns (wk_paths w) index (wr_channel_ids wr))
     \<and> (\<forall>c p. map_of (wk_paths w) c = Some p \<longrightarrow>
          (\<exists>index wr. map_of (wk_dataflows w) index = Some wr \<and> c \<in> set (wr_channel_ids wr)))"

text \<open>What is asked of dataflows: a schedule returns and uses the activations only through their operations.\<close>

definition sched_ok :: "'op sched \<Rightarrow> bool" where
  "sched_ok sched \<longleftrightarrow> (\<forall>op av. av_inv av \<longrightarrow> (\<exists>b op' av'. sched op av = Some (b, op', av') \<and> av_inv av'))"

section \<open>Dataflows come and go\<close>

declare map_of_eq_Some_iff [simp del]

lemma map_of_delete_all: "map_of (fold AList.delete cs xs) c = (if c \<in> set cs then None else map_of xs c)"
  by (induction cs arbitrary: xs) (auto simp: delete_conv')

lemma distinct_delete_all: "distinct (map fst xs) \<Longrightarrow> distinct (map fst (fold AList.delete cs xs))"
  by (induction cs arbitrary: xs) (auto simp: distinct_delete)

lemma wk_inv_new: "wk_inv (worker_new timer)"
  by (simp add: wk_inv_def worker_new_def av_inv_new)

lemma wk_inv_remove:
  assumes "wk_inv w" and "map_of (wk_dataflows w) index = Some wr"
  shows "wk_inv (w\<lparr>wk_paths := fold AList.delete (wr_channel_ids wr) (wk_paths w), wk_dataflows := AList.delete index (wk_dataflows w)\<rparr>)"
    (is "wk_inv ?w")
proof -
  note i = assms(1) [unfolded wk_inv_def]
  have own: "owns (wk_paths w) index (wr_channel_ids wr)" using i assms(2) by blast
  have fin: "c \<in> fst ` set (wk_paths ?w) \<Longrightarrow> c \<in> fst ` set (wk_paths w)" for c
    unfolding dom_map_of_conv_image_fst [symmetric] by (auto simp: map_of_delete_all split: if_splits)
  have lt: "\<forall>c \<in> fst ` set (wk_paths ?w). c < wk_identifiers w"
  proof -
    have "\<forall>c \<in> fst ` set (wk_paths w). c < wk_identifiers w" using i by (elim conjE)
    then show ?thesis using fin by blast
  qed
  have dis: "c \<notin> set (wr_channel_ids wr)" if "map_of (wk_dataflows w) j = Some v" "c \<in> set (wr_channel_ids v)" "j \<noteq> index" for j v c
  proof
    assume "c \<in> set (wr_channel_ids wr)"
    moreover have "owns (wk_paths w) j (wr_channel_ids v)" using i that(1) by blast
    ultimately show False using own that(2,3) by (fastforce simp: owns_def)
  qed
  have "owns (wk_paths ?w) j (wr_channel_ids v)" if "map_of (wk_dataflows w) j = Some v" "j \<noteq> index" for j v
    using i that dis [OF that(1) _ that(2)] by (auto simp: owns_def map_of_delete_all)
  moreover have "\<exists>j v. map_of (wk_dataflows ?w) j = Some v \<and> c \<in> set (wr_channel_ids v)" if "map_of (wk_paths ?w) c = Some p" for c p
  proof -
    have "c \<notin> set (wr_channel_ids wr)" "map_of (wk_paths w) c = Some p" using that by (auto simp: map_of_delete_all split: if_splits)
    then obtain j v where jv: "map_of (wk_dataflows w) j = Some v" "c \<in> set (wr_channel_ids v)" using i by blast
    then have "j \<noteq> index" using assms(2) \<open>c \<notin> set (wr_channel_ids wr)\<close> by auto
    then show ?thesis using jv by (intro exI [of _ j] exI [of _ v]) (simp add: delete_conv')
  qed
  ultimately show ?thesis using i lt
    by (auto simp: wk_inv_def distinct_delete distinct_delete_all delete_conv' split: if_splits)
qed

lemma wk_inv_drop: "wk_inv w \<Longrightarrow> wk_inv (wk_drop_dataflow index w)"
  using wk_inv_remove [of w index] by (simp add: wk_drop_dataflow_def split: option.split)

text \<open>
  While the dataflow \<open>index\<close> is under construction: the channels made since the state \<open>w0\<close> are the temporary ones, they
  belong to \<open>index\<close>, and the activations \<open>ps\<close> are not lost.
\<close>

definition constructing :: "'op worker \<Rightarrow> nat \<Rightarrow> path set \<Rightarrow> 'op worker \<Rightarrow> bool" where
  "constructing w0 index ps w \<longleftrightarrow> wk_dataflows w = wk_dataflows w0 \<and> wk_dataflow_counter w = wk_dataflow_counter w0
     \<and> av_inv (wk_activations w) \<and> ps \<subseteq> set (av_pending (wk_activations w))
     \<and> distinct (map fst (wk_paths w)) \<and> (\<forall>c \<in> fst ` set (wk_paths w). c < wk_identifiers w)
     \<and> owns (wk_paths w) index (wk_temp_channel_ids w)
     \<and> (\<forall>c p. map_of (wk_paths w0) c = Some p \<longrightarrow> map_of (wk_paths w) c = Some p)
     \<and> (\<forall>c p. map_of (wk_paths w) c = Some p \<longrightarrow> c \<in> set (wk_temp_channel_ids w) \<or> map_of (wk_paths w0) c = Some p)"

lemma activator_after_ok:
  assumes "av_inv a" and "activator_activate_after elapsed path delay a = Some a'"
  shows "av_inv a'" and "set (av_pending a) \<subseteq> set (av_pending a')"
  using assms av_inv_activate [OF assms(1), of path] av_inv_activate_after [of a elapsed path delay a']
  by (auto simp: activator_activate_after_def av_activate_after_def av_pending_def av_paths_def split: if_splits)

lemma constructing_activations:
  assumes "constructing w0 index ps w" and "av_inv av" and "set (av_pending (wk_activations w)) \<subseteq> set (av_pending av)"
  shows "constructing w0 index ps (w\<lparr>wk_activations := av\<rparr>)"
  using assms unfolding constructing_def by simp blast

lemma constructing_activate:
  assumes "constructing w0 index ps w"
  shows "constructing w0 index ps (wk_activate path w)"
proof -
  have "av_inv (wk_activations w)" using assms by (simp add: constructing_def)
  from constructing_activations [OF assms av_inv_activate(1) [OF this, of path]] av_inv_activate(3) [OF this, of path]
  show ?thesis by (auto simp: wk_activate_def)
qed

lemma constructing_connect:
  assumes "constructing w0 index ps w"
  shows "\<exists>w'. wk_connect (index # rest) w = Some w' \<and> constructing w0 index ps w' \<and> wk_activations w' = wk_activations w"
proof -
  note c = assms [unfolded constructing_def]
  let ?k = "wk_identifiers w"
  let ?w = "w\<lparr>wk_identifiers := ?k + 1, wk_paths := AList.update ?k (index # rest) (wk_paths w), wk_temp_channel_ids := wk_temp_channel_ids w @ [?k]\<rparr>"
  have run: "wk_connect (index # rest) w = Some ?w" by (simp add: wk_connect_def wk_new_identifier_def wk_allocate_def)
  have keys: "\<forall>c \<in> fst ` set (wk_paths w). c < ?k" using c by (elim conjE)
  have new: "map_of (wk_paths w) ?k = None" using keys by (auto simp: map_of_eq_None_iff)
  have "\<forall>c \<in> fst ` set (wk_paths ?w). c < wk_identifiers ?w" "distinct (map fst (wk_paths ?w))"
    using keys c by (auto simp: dom_update [simplified dom_map_of_conv_image_fst] distinct_update)
  moreover have "owns (wk_paths ?w) index (wk_temp_channel_ids ?w)" using c by (auto simp: owns_def update_conv')
  moreover have "\<forall>c p. map_of (wk_paths w0) c = Some p \<longrightarrow> map_of (wk_paths ?w) c = Some p"
  proof (intro allI impI)
    fix c' p
    assume "map_of (wk_paths w0) c' = Some p"
    then have "map_of (wk_paths w) c' = Some p" using c by blast
    moreover from this have "c' \<noteq> ?k" using new by auto
    ultimately show "map_of (wk_paths ?w) c' = Some p" by (simp add: update_conv')
  qed
  moreover have "\<forall>c p. map_of (wk_paths ?w) c = Some p \<longrightarrow> c \<in> set (wk_temp_channel_ids ?w) \<or> map_of (wk_paths w0) c = Some p"
    using c by (auto simp: update_conv')
  ultimately have "constructing w0 index ps ?w" using c by (simp add: constructing_def)
  then show ?thesis using run by auto
qed

lemma constructing_build_scope:
  assumes "constructing w0 index ps w"
  shows "\<exists>w'. wk_build_scope (index # rest) w = Some w' \<and> constructing w0 index ps w' \<and> index # rest \<in> set (av_pending (wk_activations w'))"
proof -
  obtain w1 where w1: "wk_connect (index # rest) w = Some w1" "constructing w0 index ps w1" using constructing_connect [OF assms] by blast
  have "av_inv (wk_activations w1)" using w1(2) by (simp add: constructing_def)
  from av_inv_activate(3) [OF this, of "index # rest"] show ?thesis
    using w1(1) constructing_activate [OF w1(2), of "index # rest"] by (auto simp: wk_build_scope_def wk_activate_def)
qed

lemma constructing_step:
  assumes "constructing w0 index ps w" and "wk_construct_step index c w = Some w'"
  shows "constructing w0 index ps w'"
proof (cases c)
  case Identify
  then have w': "w' = w\<lparr>wk_identifiers := wk_identifiers w + 1\<rparr>" using assms(2) by (simp add: wk_new_identifier_def Let_def)
  have "\<forall>c \<in> fst ` set (wk_paths w). c < wk_identifiers w" using assms(1) unfolding constructing_def by (elim conjE)
  then have "\<forall>c \<in> fst ` set (wk_paths w'). c < wk_identifiers w'" by (simp add: w' less_SucI)
  then show ?thesis using assms(1) unfolding constructing_def w' by simp
next
  case (Wake_after elapsed path delay)
  then obtain av where av: "activator_activate_after elapsed path delay (wk_activations w) = Some av" "w' = w\<lparr>wk_activations := av\<rparr>"
    using assms(2) by auto
  moreover have "av_inv (wk_activations w)" using assms(1) by (simp add: constructing_def)
  ultimately show ?thesis using constructing_activations [OF assms(1) activator_after_ok] by blast
next
  case (Connect rest)
  then show ?thesis using assms constructing_connect [OF assms(1), of rest] by auto
next
  case (Build_scope rest)
  then show ?thesis using assms constructing_build_scope [OF assms(1), of rest] by auto
next
  case (Wake path)
  then show ?thesis using assms(2) constructing_activate [OF assms(1), of path] by simp
qed

lemma constructing_steps: "constructing w0 index ps w \<Longrightarrow> wk_construct index cs w = Some w' \<Longrightarrow> constructing w0 index ps w'"
  by (induction cs arbitrary: w) (auto simp: bind_eq_Some_conv intro: constructing_step)

text \<open>Only a delayed activation whose moment overflows stops a construction.\<close>

lemma construct_returns:
  "constructing w0 index ps w \<Longrightarrow> \<forall>c \<in> set cs. \<forall>elapsed path delay. c \<noteq> Wake_after elapsed path delay \<Longrightarrow> \<exists>w'. wk_construct index cs w = Some w'"
proof (induction cs arbitrary: w)
  case (Cons c cs)
  obtain w1 where "wk_construct_step index c w = Some w1"
    using constructing_connect [OF Cons(2)] constructing_build_scope [OF Cons(2)] Cons(3) by (cases c) (simp_all, blast+)
  moreover from this have "constructing w0 index ps w1" by (rule constructing_step [OF Cons(2)])
  ultimately show ?case using Cons(1) [of w1] Cons(3) by auto
qed simp

lemma constructed_inv:
  assumes "wk_inv w0" and "constructing w index ps w1" and "wk_paths w = wk_paths w0" and "wk_dataflows w = wk_dataflows w0"
    and "index = wk_dataflow_counter w0" and "wk_dataflow_counter w = index + 1"
    and "wr = \<lparr>wr_identifier = identifier, wr_operate = Some op, wr_channel_ids = wk_temp_channel_ids w1\<rparr>"
  shows "wk_inv (w1\<lparr>wk_temp_channel_ids := [], wk_dataflows := AList.update index wr (wk_dataflows w1)\<rparr>)" (is "wk_inv ?w")
proof -
  note i = assms(1) [unfolded wk_inv_def] and c = assms(2) [unfolded constructing_def assms(3,4,6)]
  have fresh: "map_of (wk_dataflows w0) index = None" using i assms(5) by (metis less_irrefl option.exhaust)
  have df: "map_of (wk_dataflows ?w) = (map_of (wk_dataflows w0))(index \<mapsto> wr)" using c by (simp add: update_conv')
  have keep: "map_of (wk_paths w1) k = Some p" if "map_of (wk_paths w0) k = Some p" for k p using c that by blast
  have "j < wk_dataflow_counter ?w \<and> wr_operate v \<noteq> None \<and> owns (wk_paths ?w) j (wr_channel_ids v)"
    if v: "map_of (wk_dataflows ?w) j = Some v" for j v
  proof (cases "j = index")
    case True
    then have "v = wr" using v unfolding df by simp
    then show ?thesis using c True by (simp add: assms(5,7))
  next
    case False
    then have "j < wk_dataflow_counter w0 \<and> wr_operate v \<noteq> None \<and> owns (wk_paths w0) j (wr_channel_ids v)" using v i unfolding df by simp
    then show ?thesis using c keep by (fastforce simp: owns_def assms(5))
  qed
  moreover have "\<exists>j v. map_of (wk_dataflows ?w) j = Some v \<and> k \<in> set (wr_channel_ids v)" if p: "map_of (wk_paths ?w) k = Some p" for k p
  proof (cases "k \<in> set (wk_temp_channel_ids w1)")
    case True
    then show ?thesis by (intro exI [of _ index] exI [of _ wr]) (simp add: update_conv' assms(7))
  next
    case False
    then have "map_of (wk_paths w0) k = Some p" using p c by auto
    then obtain j v where "map_of (wk_dataflows w0) j = Some v" "k \<in> set (wr_channel_ids v)" using i by blast
    moreover from this have "j \<noteq> index" using fresh by auto
    ultimately show ?thesis unfolding df by (intro exI [of _ j] exI [of _ v]) simp
  qed
  moreover have "distinct (map fst (wk_dataflows ?w))" using i c by (simp add: distinct_update)
  ultimately show ?thesis using c unfolding wk_inv_def by simp
qed

lemma dataflow_core_ok:
  assumes "wk_inv w" and "wk_dataflow_core func summaries op w = Some w'"
  shows "wk_inv w' \<and> map_of (wk_dataflows w) (wk_dataflow_counter w) = None
    \<and> insert [wk_dataflow_counter w] (set (av_pending (wk_activations w))) \<subseteq> set (av_pending (wk_activations w'))
    \<and> (\<exists>wr. wr_operate wr = Some op \<and> map_of (wk_dataflows w') = (map_of (wk_dataflows w))(wk_dataflow_counter w \<mapsto> wr))"
proof -
  note i = assms(1) [unfolded wk_inv_def]
  let ?w = "w\<lparr>wk_dataflow_counter := wk_dataflow_counter w + 1, wk_identifiers := wk_identifiers w + 1\<rparr>" and ?index = "wk_dataflow_counter w"
  obtain w1 w2 w3 where run: "wk_construct ?index func ?w = Some w1" "wk_build_scope [?index] w1 = Some w2"
      "wk_construct ?index summaries w2 = Some w3"
      "w' = w3\<lparr>wk_temp_channel_ids := [], wk_dataflows := AList.update ?index
         \<lparr>wr_identifier = wk_identifiers w, wr_operate = Some op, wr_channel_ids = wk_temp_channel_ids w3\<rparr> (wk_dataflows w3)\<rparr>"
    using assms(2) by (auto simp: wk_dataflow_core_def wk_allocate_dataflow_index_def wk_new_identifier_def bind_eq_Some_conv Let_def)
  have c0: "constructing ?w ?index (set (av_pending (wk_activations w))) ?w" using i by (auto simp: constructing_def owns_def less_Suc_eq)
  have c1: "constructing ?w ?index (set (av_pending (wk_activations w))) w1" by (rule constructing_steps [OF c0 run(1)])
  from constructing_build_scope [OF c1, of "[]"] run(2)
  have c2: "constructing ?w ?index (insert [?index] (set (av_pending (wk_activations w)))) w2" by (auto simp: constructing_def)
  have c3: "constructing ?w ?index (insert [?index] (set (av_pending (wk_activations w)))) w3" by (rule constructing_steps [OF c2 run(3)])
  have "insert [?index] (set (av_pending (wk_activations w))) \<subseteq> set (av_pending (wk_activations w3))" using c3 by (simp add: constructing_def)
  moreover have "wk_inv w'" unfolding run(4) by (rule constructed_inv [OF assms(1) c3]) simp_all
  moreover have "map_of (wk_dataflows w) ?index = None" using i by (metis less_irrefl option.exhaust)
  moreover have "wk_dataflows w3 = wk_dataflows w" using c3 by (simp add: constructing_def)
  ultimately show ?thesis
    by (intro conjI exI [of _ "\<lparr>wr_identifier = wk_identifiers w, wr_operate = Some op, wr_channel_ids = wk_temp_channel_ids w3\<rparr>"])
      (simp_all add: run(4) update_conv')
qed

section \<open>A step\<close>

lemma wk_inv_update:
  assumes "wk_inv w" and "map_of (wk_dataflows w) index = Some wr" and "av_inv av"
  shows "wk_inv (w\<lparr>wk_activations := av, wk_dataflows := AList.update index (wr\<lparr>wr_operate := Some op\<rparr>) (wk_dataflows w)\<rparr>)"
proof -
  note i = assms(1) [unfolded wk_inv_def]
  have "\<exists>j v. ((map_of (wk_dataflows w))(index \<mapsto> wr\<lparr>wr_operate := Some op\<rparr>)) j = Some v \<and> c \<in> set (wr_channel_ids v)"
    if p: "map_of (wk_paths w) c = Some p" for c p
  proof -
    obtain j v where "map_of (wk_dataflows w) j = Some v" "c \<in> set (wr_channel_ids v)" using i p by blast
    then show ?thesis using assms(2)
      by (intro exI [of _ j] exI [of _ "if j = index then wr\<lparr>wr_operate := Some op\<rparr> else v"]) auto
  qed
  moreover have "j < wk_dataflow_counter w \<and> wr_operate v \<noteq> None \<and> owns (wk_paths w) j (wr_channel_ids v)"
    if v: "((map_of (wk_dataflows w))(index \<mapsto> wr\<lparr>wr_operate := Some op\<rparr>)) j = Some v" for j v
  proof (cases "j = index")
    case True
    then show ?thesis using v i assms(2) by auto
  next
    case False
    then show ?thesis using v i by simp
  qed
  ultimately show ?thesis using i assms(3) unfolding wk_inv_def by (simp add: update_conv' distinct_update)
qed

text \<open>What a schedule does to the entry of a dataflow.\<close>

definition scheduled :: "'op sched \<Rightarrow> 'op wrapper \<Rightarrow> 'op wrapper option \<Rightarrow> bool" where
  "scheduled sched wr wr' \<longleftrightarrow> (\<exists>op av b op' av'. wr_operate wr = Some op \<and> sched op av = Some (b, op', av')
     \<and> wr' = (if b then Some (wr\<lparr>wr_operate := Some op'\<rparr>) else None))"

lemma run_dataflows_ok:
  assumes "wk_inv w" and "sched_ok sched" and "distinct indices"
  shows "\<exists>w'. wk_run_dataflows sched indices w = Some w' \<and> wk_inv w'
    \<and> (\<forall>index. if index \<in> set indices \<and> index \<in> dom (map_of (wk_dataflows w))
         then scheduled sched (the (map_of (wk_dataflows w) index)) (map_of (wk_dataflows w') index)
         else map_of (wk_dataflows w') index = map_of (wk_dataflows w) index)"
  using assms(1,3)
proof (induction indices arbitrary: w)
  case (Cons index indices)
  show ?case
  proof (cases "map_of (wk_dataflows w) index")
    case None
    then show ?thesis using Cons(1) [OF Cons(2)] Cons(3) by (auto split: if_splits)
  next
    case (Some wr)
    note i = Cons(2) [unfolded wk_inv_def]
    obtain op where op: "wr_operate wr = Some op" using i Some by blast
    have "av_inv (wk_activations w)" using i by (elim conjE)
    then obtain b op' av' where s: "sched op (wk_activations w) = Some (b, op', av')" "av_inv av'" using assms(2) unfolding sched_ok_def by blast
    define w1 where "w1 = (if \<not> b then w\<lparr>wk_activations := av', wk_paths := fold AList.delete (wr_channel_ids wr) (wk_paths w),
        wk_dataflows := AList.delete index (wk_dataflows w)\<rparr>
      else w\<lparr>wk_activations := av', wk_dataflows := AList.update index (wr\<lparr>wr_operate := Some op'\<rparr>) (wk_dataflows w)\<rparr>)"
    have "wk_inv (w\<lparr>wk_activations := av'\<rparr>)" using i s(2) by (simp add: wk_inv_def)
    from wk_inv_remove [OF this, of index wr] wk_inv_update [OF Cons(2) Some s(2), of op'] Some
    have "wk_inv w1" by (simp add: w1_def)
    from Cons(1) [OF this] Cons(3) obtain w' where w': "wk_run_dataflows sched indices w1 = Some w'" "wk_inv w'"
        "\<forall>j. if j \<in> set indices \<and> j \<in> dom (map_of (wk_dataflows w1)) then scheduled sched (the (map_of (wk_dataflows w1) j)) (map_of (wk_dataflows w') j)
           else map_of (wk_dataflows w') j = map_of (wk_dataflows w1) j" by auto
    have r: "wk_run_dataflows sched (index # indices) w = Some w'"
      using w'(1) by (cases b) (simp_all add: Some wrapper_step_def op s(1) w1_def)
    have m: "map_of (wk_dataflows w1) index = (if b then Some (wr\<lparr>wr_operate := Some op'\<rparr>) else None)"
        "j \<noteq> index \<Longrightarrow> map_of (wk_dataflows w1) j = map_of (wk_dataflows w) j" for j
      by (simp_all add: w1_def update_conv' delete_conv')
    have "map_of (wk_dataflows w') index = map_of (wk_dataflows w1) index" using w'(3) Cons(3) by (auto dest: spec [of _ index])
    then have "scheduled sched wr (map_of (wk_dataflows w') index)" unfolding scheduled_def m(1) using op s(1) by blast
    then have "if j \<in> set (index # indices) \<and> j \<in> dom (map_of (wk_dataflows w))
        then scheduled sched (the (map_of (wk_dataflows w) j)) (map_of (wk_dataflows w') j)
        else map_of (wk_dataflows w') j = map_of (wk_dataflows w) j" for j
      using spec [OF w'(3), of j] m(2) [of j] Some by (cases "j = index") (auto simp: domIff split: if_splits)
    then show ?thesis using r w'(2) by blast
  qed
qed simp

lemma channel_events_ok:
  assumes "av_inv (wk_activations w)"
  shows "av_inv (wk_activations (wk_channel_events events w)) \<and> av_rx (wk_activations (wk_channel_events events w)) = av_rx (wk_activations w)
    \<and> av_queue (wk_activations (wk_channel_events events w)) = av_queue (wk_activations w)
    \<and> av_timer (wk_activations (wk_channel_events events w)) = av_timer (wk_activations w)
    \<and> set (av_pending (wk_activations (wk_channel_events events w)))
        = set (av_pending (wk_activations w)) \<union> {p. \<exists>c \<in> set events. map_of (wk_paths w) c = Some p}"
proof -
  let ?f = "\<lambda>channel av. case map_of (wk_paths w) channel of Some path \<Rightarrow> av_activate path av | None \<Rightarrow> av"
  have "av_inv (fold ?f cs av) \<and> av_rx (fold ?f cs av) = av_rx av \<and> av_queue (fold ?f cs av) = av_queue av \<and> av_timer (fold ?f cs av) = av_timer av
      \<and> set (av_pending (fold ?f cs av)) = set (av_pending av) \<union> {p. \<exists>c \<in> set cs. map_of (wk_paths w) c = Some p}" if "av_inv av" for cs av
    using that
  proof (induction cs arbitrary: av)
    case (Cons c cs)
    show ?case
    proof (cases "map_of (wk_paths w) c")
      case None
      then show ?thesis using Cons by simp
    next
      case (Some p)
      have "av_inv (av_activate p av)" "set (av_pending (av_activate p av)) = insert p (set (av_pending av))"
          "av_rx (av_activate p av) = av_rx av" "av_queue (av_activate p av) = av_queue av" "av_timer (av_activate p av) = av_timer av"
        using av_inv_activate [OF Cons(2), of p] by (simp_all add: av_activate_def)
      then show ?thesis using Cons(1) [of "av_activate p av"] Some by auto
    qed
  qed simp
  from this [OF assms, of "remdups_adj (sort events)"] show ?thesis by (simp add: wk_channel_events_def)
qed

lemma channel_events_inv: "wk_inv w \<Longrightarrow> av_inv av \<Longrightarrow> wk_inv ((wk_channel_events events w)\<lparr>wk_activations := av\<rparr>)"
  by (simp add: wk_inv_def wk_channel_events_def)

text \<open>The paths a step finds active, and the dataflows among them.\<close>

definition wk_active :: "nat list \<Rightarrow> duration \<Rightarrow> 'op worker \<Rightarrow> path set" where
  "wk_active events elapsed w = {p. \<exists>c \<in> set events. map_of (wk_paths w) c = Some p} \<union> set (av_pending (wk_activations w))
     \<union> set (av_rx (wk_activations w)) \<union> set (av_due elapsed (wk_activations w))"

definition wk_stepped :: "'op sched \<Rightarrow> nat set \<Rightarrow> 'op worker \<Rightarrow> 'op worker \<Rightarrow> bool" where
  "wk_stepped sched indices w w' \<longleftrightarrow>
     (\<forall>index. if index \<in> indices \<and> index \<in> dom (map_of (wk_dataflows w))
        then scheduled sched (the (map_of (wk_dataflows w) index)) (map_of (wk_dataflows w') index)
        else map_of (wk_dataflows w') index = map_of (wk_dataflows w) index)"

lemma min_delay_zero: "duration = Some (from_nanos 0) \<or> empty_for = Some (from_nanos 0) \<Longrightarrow> min_delay duration empty_for = Some (from_nanos 0)"
proof -
  have "from_nanos 0 \<le> d" for d by (simp add: less_eq_duration_def from_nanos_inverse)
  then show "duration = Some (from_nanos 0) \<or> empty_for = Some (from_nanos 0) \<Longrightarrow> ?thesis"
    by (auto simp: min_delay_def min_def antisym split: option.splits)
qed

lemma step_ok:
  assumes inv: "wk_inv w" and "sched_ok sched"
  shows "\<exists>outcome w'. wk_step_or_park sched events elapsed elapsed' duration w = Some (outcome, wk_has_dataflows w', w') \<and> wk_inv w'
    \<and> (case outcome of
         Parked delay \<Rightarrow> duration \<noteq> Some (from_nanos 0) \<and> wk_active events elapsed w = {} \<and> wk_dataflows w' = wk_dataflows w
       | Stepped \<Rightarrow> wk_stepped sched {index. \<exists>p \<in> wk_active events elapsed w. prefix [index] p} w w')"
proof -
  define a where "a = wk_activations (wk_channel_events events w)"
  have ia: "av_inv (wk_activations w)" using inv by (simp add: wk_inv_def)
  note e = channel_events_ok [OF ia, of events, folded a_def]
  obtain av where av: "av_advance elapsed a = Some av" "av_inv av" "av_pending av = []"
      "set (av_active av) = set (av_pending a) \<union> set (av_rx a) \<union> set (av_due elapsed a)"
    using advance_state [of a elapsed] e by blast
  have act: "set (av_active av) = wk_active events elapsed w"
    using av(4) e by (auto simp: wk_active_def av_due_def)
  have paths: "av_paths av = av_active av" using av(3) append_take_drop_id [of "av_clean av" "av_paths av"] by (simp add: av_active_def av_pending_def)
  let ?w = "(wk_channel_events events w)\<lparr>wk_activations := av\<rparr>"
  have iw: "wk_inv ?w" by (rule channel_events_inv [OF inv av(2)])
  have same: "wk_dataflows ?w = wk_dataflows w" by (simp add: wk_channel_events_def)
  show ?thesis
  proof (cases "min_delay duration (av_empty_for elapsed' av) = Some (from_nanos 0)")
    case False
    have "av_bounds av = []" "duration \<noteq> Some (from_nanos 0)"
      using False min_delay_zero [of duration "av_empty_for elapsed' av"] by (auto simp: av_empty_for_def split: if_splits)
    moreover from this have "wk_active events elapsed w = {}" using act paths by (simp add: av_paths_def)
    ultimately show ?thesis using False av(1) iw same
      by (intro exI [of _ "Parked (min_delay duration (av_empty_for elapsed' av))"] exI [of _ ?w]) (simp add: wk_step_or_park_def a_def Let_def)
  next
    case True
    from for_extensions_correct [OF av(2), of "[]"] obtain es where es: "av_for_extensions [] av = Some es"
        "set es = {index. \<exists>p \<in> wk_active events elapsed w. prefix [index] p}" "sorted_wrt (<) es"
      using av(3) paths act by auto
    have "distinct es" using es(3) by (simp add: strict_sorted_iff)
    from run_dataflows_ok [OF iw assms(2) this, unfolded same] obtain w' where "wk_run_dataflows sched es ?w = Some w'" "wk_inv w'"
        "wk_stepped sched (set es) w w'" unfolding wk_stepped_def by blast
    then show ?thesis using av(1) True es(1,2)
      by (intro exI [of _ Stepped] exI [of _ w']) (simp add: wk_step_or_park_def a_def Let_def)
  qed
qed

lemma wk_inv_activations: "wk_inv w \<Longrightarrow> av_inv av \<Longrightarrow> wk_inv (w\<lparr>wk_activations := av\<rparr>)"
  by (simp add: wk_inv_def)

lemma reach_inv:
  assumes "worker_reach sched w" and "sched_ok sched"
  shows "wk_inv w"
  using assms(1)
proof induction
  case (wk_build w func summaries op w')
  then show ?case using dataflow_core_ok [of w func summaries op w'] by blast
next
  case (wk_sched w events elapsed elapsed' duration outcome remaining w')
  then show ?case using step_ok [OF wk_sched(3) assms(2), of events elapsed elapsed' duration] by auto
next
  case (wk_wake w path)
  then have "av_inv (wk_activations w)" by (simp add: wk_inv_def)
  then show ?case unfolding wk_activate_def by (rule wk_inv_activations [OF wk_wake(2) av_inv_activate(1)])
next
  case (wk_wake_after w elapsed path delay av)
  then have "av_inv (wk_activations w)" by (simp add: wk_inv_def)
  then show ?case using wk_inv_activations [OF wk_wake_after(3) activator_after_ok(1)] wk_wake_after(2) by blast
next
  case (wk_wake_sync w paths r av)
  then have "av_inv (wk_activations w)" by (simp add: wk_inv_def)
  then show ?case using wk_inv_activations [OF wk_wake_sync(3)] av_inv_sync wk_wake_sync(2) by blast
next
  case (wk_identify w)
  then show ?case by (auto simp: wk_inv_def wk_new_identifier_def Let_def less_Suc_eq)
qed (simp_all add: wk_inv_new wk_inv_drop)

text \<open>The dataflow just built is scheduled by the next step.\<close>

lemma built_scheduled:
  assumes "wk_inv w" and "sched_ok sched" and "wk_dataflow_core func summaries op w = Some w1"
  shows "\<exists>wr w2. wr_operate wr = Some op \<and> wk_step_or_park sched events elapsed elapsed' duration w1 = Some (Stepped, wk_has_dataflows w2, w2)
    \<and> scheduled sched wr (map_of (wk_dataflows w2) (wk_dataflow_counter w))"
proof -
  from dataflow_core_ok [OF assms(1,3)] obtain wr where b: "wk_inv w1" "[wk_dataflow_counter w] \<in> set (av_pending (wk_activations w1))"
    "wr_operate wr = Some op" "map_of (wk_dataflows w1) = (map_of (wk_dataflows w))(wk_dataflow_counter w \<mapsto> wr)" by blast
  have act: "[wk_dataflow_counter w] \<in> wk_active events elapsed w1" using b(2) by (simp add: wk_active_def)
  from step_ok [OF b(1) assms(2), of events elapsed elapsed' duration] obtain outcome w2 where
    s: "wk_step_or_park sched events elapsed elapsed' duration w1 = Some (outcome, wk_has_dataflows w2, w2)"
      "case outcome of Parked delay \<Rightarrow> duration \<noteq> Some (from_nanos 0) \<and> wk_active events elapsed w1 = {} \<and> wk_dataflows w2 = wk_dataflows w1
       | Stepped \<Rightarrow> wk_stepped sched {index. \<exists>p \<in> wk_active events elapsed w1. prefix [index] p} w1 w2" by blast
  have "outcome = Stepped" using s(2) act by (cases outcome) auto
  then have "wk_stepped sched {index. \<exists>p \<in> wk_active events elapsed w1. prefix [index] p} w1 w2" using s(2) by simp
  then have "scheduled sched wr (map_of (wk_dataflows w2) (wk_dataflow_counter w))"
    unfolding wk_stepped_def using act b(4) by (auto dest!: spec [of _ "wk_dataflow_counter w"] split: if_splits)
  then show ?thesis using s(1) b(3) \<open>outcome = Stepped\<close> by blast
qed

section \<open>Properties\<close>

text \<open>
  C17: A worker loses no wake-up and schedules nothing else.  In any state a worker can get into by building, dropping and stepping
  dataflows and by wake-ups from outside, a step returns.  It parks only when no path is active: none activated earlier, none sent
  by another thread, none due, and no event on a channel of an installed dataflow.  Otherwise every installed dataflow with an
  active path is scheduled, once, and no other is changed; dataflows that complete are removed.  Afterwards exactly the
  channels of installed dataflows are registered, and the result says whether any dataflow remains.  A dataflow that was just
  built is scheduled by the next step, whatever its construction did.
\<close>

theorem worker_step_correct:
  assumes "worker_reach sched w" and "sched_ok sched"
  shows "(\<exists>outcome w'. wk_step_or_park sched events elapsed elapsed' duration w = Some (outcome, wk_has_dataflows w', w')
    \<and> (case outcome of
         Parked delay \<Rightarrow> duration \<noteq> Some (from_nanos 0) \<and> wk_active events elapsed w = {} \<and> wk_dataflows w' = wk_dataflows w
       | Stepped \<Rightarrow> wk_stepped sched {index. \<exists>p \<in> wk_active events elapsed w. prefix [index] p} w w')
    \<and> dom (map_of (wk_paths w')) = {c. \<exists>index wr. map_of (wk_dataflows w') index = Some wr \<and> c \<in> set (wr_channel_ids wr)})
   \<and> (\<forall>func summaries op w1. wk_dataflow_core func summaries op w = Some w1 \<longrightarrow>
        (\<exists>wr w2. wr_operate wr = Some op \<and> wk_step_or_park sched events elapsed elapsed' duration w1 = Some (Stepped, wk_has_dataflows w2, w2)
           \<and> scheduled sched wr (map_of (wk_dataflows w2) (wk_dataflow_counter w))))"
proof -
  note inv = reach_inv [OF assms]
  obtain outcome w' where w': "wk_step_or_park sched events elapsed elapsed' duration w = Some (outcome, wk_has_dataflows w', w')" "wk_inv w'"
    "case outcome of
         Parked delay \<Rightarrow> duration \<noteq> Some (from_nanos 0) \<and> wk_active events elapsed w = {} \<and> wk_dataflows w' = wk_dataflows w
       | Stepped \<Rightarrow> wk_stepped sched {index. \<exists>p \<in> wk_active events elapsed w. prefix [index] p} w w'"
    using step_ok [OF inv assms(2), of events elapsed elapsed' duration] by blast
  have "dom (map_of (wk_paths w')) = {c. \<exists>index wr. map_of (wk_dataflows w') index = Some wr \<and> c \<in> set (wr_channel_ids wr)}"
  proof (rule set_eqI)
    fix c
    show "c \<in> dom (map_of (wk_paths w')) \<longleftrightarrow> c \<in> {c. \<exists>index wr. map_of (wk_dataflows w') index = Some wr \<and> c \<in> set (wr_channel_ids wr)}"
      using w'(2) unfolding wk_inv_def owns_def dom_def by blast
  qed
  with w' built_scheduled [OF inv assms(2)] show ?thesis by blast
qed

text \<open>
  A dataflow that counts down until it is done.  A worker that has built an operator with one
  input in it schedules it in its first step, and after a wake-up from another thread in the second, which removes it.
\<close>

definition countdown :: "nat sched" where
  "countdown op av = Some (op > 0, op - 1, av)"

lemma countdown_ok: "sched_ok countdown"
  by (simp add: sched_ok_def countdown_def)

lemma countdown_built:
  "\<exists>w. wk_dataflow_core [Identify, Connect [1], Wake [0, 1]] [] (1 :: nat) (worker_new True) = Some w
     \<and> wk_dataflows w = [(0, \<lparr>wr_identifier = 0, wr_operate = Some 1, wr_channel_ids = [2, 3]\<rparr>)]"
  by (simp add: wk_dataflow_core_def wk_allocate_dataflow_index_def wk_new_identifier_def wk_allocate_def wk_connect_def wk_build_scope_def
      wk_activate_def worker_new_def Let_def)

theorem worker_step_correct_witness:
  "\<exists>w w1 w2 w3. wk_dataflow_core [Identify, Connect [1], Wake [0, 1]] [] (1 :: nat) (worker_new True) = Some w
     \<and> wk_step_or_park countdown [] (from_nanos 0) (from_nanos 0) None w = Some (Stepped, True, w1)
     \<and> map_of (wk_dataflows w1) 0 = Some \<lparr>wr_identifier = 0, wr_operate = Some 0, wr_channel_ids = [2, 3]\<rparr>
     \<and> sync_activate [0, 1] (Some (wk_activations w1)) = (Inr (), Some (wk_activations w2)) \<and> wk_dataflows w2 = wk_dataflows w1
     \<and> wk_step_or_park countdown [] (from_nanos 0) (from_nanos 0) None w2 = Some (Stepped, False, w3) \<and> dom (map_of (wk_paths w3)) = {}"
proof -
  let ?e = "from_nanos 0"
  obtain w where w: "wk_dataflow_core [Identify, Connect [1], Wake [0, 1]] [] (1 :: nat) (worker_new True) = Some w"
      "wk_dataflows w = [(0, \<lparr>wr_identifier = 0, wr_operate = Some 1, wr_channel_ids = [2, 3]\<rparr>)]"
    using countdown_built by blast
  have r: "worker_reach countdown (worker_new True)" "worker_reach countdown w" using wk_init wk_build [OF wk_init w(1)] by blast+
  note step = worker_step_correct [OF _ countdown_ok, of _ "[]" ?e ?e None]
  from conjunct2 [OF step [OF r(1)]] w(1) obtain wr w1 where s1: "wr_operate wr = Some 1"
      "wk_step_or_park countdown [] ?e ?e None w = Some (Stepped, wk_has_dataflows w1, w1)"
      "scheduled countdown wr (map_of (wk_dataflows w1) (wk_dataflow_counter (worker_new True :: nat worker)))" by blast
  from step [OF r(2)] s1(2) have st1: "wk_stepped countdown {index. \<exists>p \<in> wk_active [] ?e w. prefix [index] p} w w1" by auto
  have m1: "map_of (wk_dataflows w1) 0 = Some \<lparr>wr_identifier = 0, wr_operate = Some 0, wr_channel_ids = [2, 3]\<rparr>"
    using st1 [unfolded wk_stepped_def, THEN spec [of _ 0]] s1(1,3)
    by (auto simp: w(2) scheduled_def countdown_def worker_new_def dest: arg_cong [of _ _ wr_operate] split: if_splits)
  have n1: "map_of (wk_dataflows w1) index = None" if "index \<noteq> 0" for index
    using st1 [unfolded wk_stepped_def, THEN spec [of _ index]] that by (simp add: w(2))
  define w2 where "w2 = w1\<lparr>wk_activations := (wk_activations w1)\<lparr>av_rx := av_rx (wk_activations w1) @ [[0, 1]]\<rparr>\<rparr>"
  have sync: "sync_activate [0, 1] (Some (wk_activations w1)) = (Inr (), Some (wk_activations w2))"
    by (simp add: sync_activate_def sync_activate_batch_def w2_def)
  have "worker_reach countdown w2"
    using wk_wake_sync [OF wk_sched [OF r(2) s1(2)], of "[[0, 1]]"] by (simp add: sync_activate_batch_def w2_def)
  from conjunct1 [OF step [OF this]] obtain out w3 where s2: "wk_step_or_park countdown [] ?e ?e None w2 = Some (out, wk_has_dataflows w3, w3)"
      "case out of Parked delay \<Rightarrow> None \<noteq> Some ?e \<and> wk_active [] ?e w2 = {} \<and> wk_dataflows w3 = wk_dataflows w2
       | Stepped \<Rightarrow> wk_stepped countdown {index. \<exists>p \<in> wk_active [] ?e w2. prefix [index] p} w2 w3"
      "dom (map_of (wk_paths w3)) = {c. \<exists>index wr. map_of (wk_dataflows w3) index = Some wr \<and> c \<in> set (wr_channel_ids wr)}"
    by blast
  have act: "[0, 1] \<in> wk_active [] ?e w2" by (simp add: wk_active_def w2_def)
  then have out: "out = Stepped" "wk_stepped countdown {index. \<exists>p \<in> wk_active [] ?e w2. prefix [index] p} w2 w3"
    using s2(2) by (auto split: step_outcome.splits)
  have "map_of (wk_dataflows w3) index = None" for index
    using out(2) [unfolded wk_stepped_def, THEN spec [of _ index]] act m1 n1 [of index]
    by (cases "index = 0") (force simp: w2_def scheduled_def countdown_def split: if_splits)+
  then have "map_of (wk_dataflows w3) = Map.empty" by (rule ext)
  then have "wk_dataflows w3 = []" by (simp only: map_of_eq_empty_iff)
  moreover have "wk_dataflows w1 \<noteq> []" using m1 by auto
  ultimately show ?thesis using w(1) s1(2) m1 sync s2 out(1)
    by (intro exI [of _ w] exI [of _ w1] exI [of _ w2] exI [of _ w3]) (simp add: wk_has_dataflows_def w2_def)
qed

end
