(* ===== verification/Raw_Operators.thy ===== *)
theory Raw_Operators
  imports Operator_Builder Data_Exchange "HOL-Library.Sublist"
begin

text \<open>
  Operators that work on \<open>SharedProgress\<close> directly: capture, replay and probe
  (\<open>capture/capture.rs\<close>, \<open>capture/replay.rs\<close>, \<open>capture/event.rs\<close> and \<open>probe.rs\<close> under
  \<open>timely/src/dataflow/operators/core\<close>), and the pushers at the boundary of a nested scope (\<open>enterleave.rs\<close>).

  \<open>raw_operator\<close> is what the closures of the three operators own: the messages that wait at the input and the
  pushers behind the output, each with the address of its counter's batch.  A scope that schedules an operator
  first adds changes to its frontier and messages to its input, and afterwards collects what it reported.
\<close>

section \<open>What the closures own\<close>

record ('t, 'd) raw_operator =
  ro_progress :: "'t shared_progress"
  ro_started :: bool
  ro_input :: "('t, 'd) message list"
  ro_consumed :: nat
  ro_output :: "('t, 'd) pushee"
  ro_produced :: nat

definition ro_new :: "nat \<Rightarrow> nat \<Rightarrow> nat \<Rightarrow> nat \<Rightarrow> ('t, 'd) raw_operator" where
  "ro_new inputs outputs consumed produced =
     \<lparr>ro_progress = sp_new inputs outputs, ro_started = False, ro_input = [], ro_consumed = consumed, ro_output = [], ro_produced = produced\<rparr>"

text \<open>\<open>Counter::next\<close> of the pulling counter: the guard is dropped at once.\<close>

definition puller_next ::
  "nat \<Rightarrow> ('t::linorder, 'd) message list \<Rightarrow> 't buffers \<Rightarrow> (('t, 'd) message \<times> ('t, 'd) message list) option \<times> 't buffers" where
  "puller_next consumed queue h =
     (case next_guarded consumed queue of None \<Rightarrow> (None, h) | Some (g, m, queue) \<Rightarrow> (Some (m, queue), guard_drop g h))"

definition drain_consumed :: "('t::linorder, 'd) raw_operator \<Rightarrow> 't buffers \<Rightarrow> (('t, 'd) raw_operator \<times> 't buffers) option" where
  "drain_consumed r h =
     do { c \<leftarrow> vec_get (sp_consumeds (ro_progress r)) 0;
          let (b, c) = cb_drain_into (h (ro_consumed r)) c;
          Some (r\<lparr>ro_progress := (ro_progress r)\<lparr>sp_consumeds := (sp_consumeds (ro_progress r))[0 := c]\<rparr>\<rparr>, h(ro_consumed r := b)) }"

definition drain_produced :: "('t::linorder, 'd) raw_operator \<Rightarrow> 't buffers \<Rightarrow> (('t, 'd) raw_operator \<times> 't buffers) option" where
  "drain_produced r h =
     do { p \<leftarrow> vec_get (sp_produceds (ro_progress r)) 0;
          let (b, p) = cb_drain_into (h (ro_produced r)) p;
          Some (r\<lparr>ro_progress := (ro_progress r)\<lparr>sp_produceds := (sp_produceds (ro_progress r))[0 := p]\<rparr>\<rparr>, h(ro_produced r := b)) }"

definition update_internal :: "'t::linorder \<Rightarrow> int \<Rightarrow> ('t, 'd) raw_operator \<Rightarrow> ('t, 'd) raw_operator option" where
  "update_internal t d r =
     do { b \<leftarrow> vec_get (sp_internals (ro_progress r)) 0;
          Some (r\<lparr>ro_progress := (ro_progress r)\<lparr>sp_internals := (sp_internals (ro_progress r))[0 := cb_update t d b]\<rparr>\<rparr>) }"

text \<open>A message to the counter in front of the output, and \<open>done\<close>.\<close>

definition output_push :: "('t::linorder, 'd) message option \<Rightarrow> ('t, 'd) raw_operator \<Rightarrow> 't buffers \<Rightarrow> ('t, 'd) raw_operator \<times> 't buffers" where
  "output_push m r h = (let (h, p) = counter_push (ro_produced r) m h (ro_output r) in (r\<lparr>ro_output := p\<rparr>, h))"

section \<open>Capture\<close>

datatype ('t, 'd) event = Progress "('t \<times> int) list" | Messages 't "'d list"

function capture_messages ::
  "nat \<Rightarrow> ('t::linorder, 'd) message list \<Rightarrow> 't buffers \<Rightarrow> ('t, 'd) event list \<times> 't buffers" where
  "capture_messages consumed queue h =
     (case puller_next consumed queue h of
        (None, h) \<Rightarrow> ([], h)
      | (Some (m, queue), h) \<Rightarrow> let (es, h) = capture_messages consumed queue h in (Messages (fst m) (snd m) # es, h))"
  by pat_completeness auto
termination by (relation "measure (\<lambda>(_, queue, _). length queue)")
    (auto simp: puller_next_def next_guarded_def split: list.splits option.splits)

text \<open>The events are what is pushed at \<open>event_pusher\<close>.\<close>

definition capture_schedule ::
  "'t::linorder \<Rightarrow> ('t, 'd) raw_operator \<Rightarrow> 't buffers \<Rightarrow> (('t, 'd) event list \<times> ('t, 'd) raw_operator \<times> 't buffers) option" where
  "capture_schedule minimum r h =
     do { f \<leftarrow> vec_get (sp_frontiers (ro_progress r)) 0;
          let f = (if \<not> ro_started r then cb_update minimum (- 1) f else f);
          let (empty, f) = cb_is_empty f;
          let (es, f) = (if \<not> empty then ([Progress (cb_into_inner f)], cb_new) else ([], f));
          let (ms, h) = capture_messages (ro_consumed r) (ro_input r) h;
          (r, h) \<leftarrow> drain_consumed
            (r\<lparr>ro_started := True, ro_input := [],
               ro_progress := (ro_progress r)\<lparr>sp_frontiers := (sp_frontiers (ro_progress r))[0 := f]\<rparr>\<rparr>) h;
          Some (es @ ms, r, h) }"

section \<open>Replay\<close>

text \<open>
  An event that is borrowed is copied to a buffer of the closure first; what is sent and counted is the same as
  for one that is owned.
\<close>

fun replay_event :: "('t::linorder, 'd) event \<Rightarrow> ('t, 'd) raw_operator \<times> 't buffers \<Rightarrow> (('t, 'd) raw_operator \<times> 't buffers) option" where
  "replay_event (Progress us) (r, h) =
     do { b \<leftarrow> vec_get (sp_internals (ro_progress r)) 0;
          Some (r\<lparr>ro_progress := (ro_progress r)\<lparr>sp_internals := (sp_internals (ro_progress r))[0 := cb_extend us b]\<rparr>\<rparr>, h) }"
| "replay_event (Messages time data) (r, h) = Some (output_push (Some (time, data)) r h)"

fun replay_events :: "('t::linorder, 'd) event list \<Rightarrow> ('t, 'd) raw_operator \<times> 't buffers \<Rightarrow> (('t, 'd) raw_operator \<times> 't buffers) option" where
  "replay_events [] s = Some s"
| "replay_events (e # es) s = do { s \<leftarrow> replay_event e s; replay_events es s }"

text \<open>\<open>event_streams\<close> are the events each stream yields before it has none; their number does not change.\<close>

definition replay_schedule ::
  "'t::linorder \<Rightarrow> duration option \<Rightarrow> duration \<Rightarrow> path \<Rightarrow> ('t, 'd) event list list \<Rightarrow> ('t, 'd) raw_operator \<Rightarrow> 't buffers \<Rightarrow> activations
   \<Rightarrow> (('t, 'd) raw_operator \<times> 't buffers \<times> activations) option" where
  "replay_schedule minimum period elapsed address event_streams r h av =
     do { r \<leftarrow> (if \<not> ro_started r then update_internal minimum (int (length event_streams) - 1) r else Some r);
          (r, h) \<leftarrow> replay_events (concat event_streams) (r\<lparr>ro_started := True\<rparr>, h);
          av \<leftarrow> (case period of None \<Rightarrow> Some av | Some delay \<Rightarrow> activator_activate_after elapsed address delay av);
          let (r, h) = output_push None r h;
          (r, h) \<leftarrow> drain_produced r h;
          Some (r, h, av) }"

section \<open>Probe\<close>

function probe_messages :: "('t::linorder, 'd) raw_operator \<Rightarrow> 't buffers \<Rightarrow> ('t, 'd) raw_operator \<times> 't buffers" where
  "probe_messages r h =
     (case puller_next (ro_consumed r) (ro_input r) h of
        (None, h) \<Rightarrow> (r, h)
      | (Some (m, queue), h) \<Rightarrow> let (r, h) = output_push (Some m) (r\<lparr>ro_input := queue\<rparr>) h in probe_messages r h)"
  by pat_completeness auto
termination by (relation "measure (\<lambda>(r, _). length (ro_input r))")
    (auto simp: puller_next_def next_guarded_def output_push_def counter_push_def Let_def split: list.splits option.splits)

text \<open>The frontier is shared with the handles; \<open>None\<close> when all handles are gone.\<close>

definition probe_schedule ::
  "('t::linorder \<Rightarrow> 't \<Rightarrow> bool) \<Rightarrow> 't \<Rightarrow> 't mutable_antichain option \<Rightarrow> ('t, 'd) raw_operator \<Rightarrow> 't buffers
   \<Rightarrow> ('t mutable_antichain option \<times> ('t, 'd) raw_operator \<times> 't buffers) option" where
  "probe_schedule le minimum shared_frontier r h =
     do { f \<leftarrow> vec_get (sp_frontiers (ro_progress r)) 0;
          let (shared_frontier, f) =
            (case shared_frontier of
               Some frontier \<Rightarrow> let (us, f) = cb_drain f in (Some (snd (ma_update_iter le us frontier)), f)
             | None \<Rightarrow> (None, f));
          let r = r\<lparr>ro_progress := (ro_progress r)\<lparr>sp_frontiers := (sp_frontiers (ro_progress r))[0 := f]\<rparr>\<rparr>;
          r \<leftarrow> (if \<not> ro_started r then update_internal minimum (- 1) r else Some r);
          let (r, h) = probe_messages (r\<lparr>ro_started := True\<rparr>) h;
          let (r, h) = output_push None r h;
          (r, h) \<leftarrow> drain_consumed r h;
          (r, h) \<leftarrow> drain_produced r h;
          Some (shared_frontier, r, h) }"

definition probe_less_than :: "('t \<Rightarrow> 't \<Rightarrow> bool) \<Rightarrow> 't mutable_antichain \<Rightarrow> 't \<Rightarrow> bool" where
  "probe_less_than le frontier time = ma_less_than le frontier time"

definition probe_less_equal :: "('t \<Rightarrow> 't \<Rightarrow> bool) \<Rightarrow> 't mutable_antichain \<Rightarrow> 't \<Rightarrow> bool" where
  "probe_less_equal le frontier time = ma_less_equal le frontier time"

definition probe_done :: "'t mutable_antichain \<Rightarrow> bool" where
  "probe_done frontier = ma_is_empty frontier"

section \<open>The boundary of a nested scope\<close>

record ('t, 'd) ingress_nub =
  ig_targets :: "nat \<times> ('t, 'd) pushee"
  ig_activator :: path
  ig_active :: bool

definition ingress_push ::
  "('o \<Rightarrow> 't::linorder) \<Rightarrow> ('o, 'd) message option \<Rightarrow> ('t, 'd) ingress_nub \<times> 't buffers \<times> activations \<Rightarrow> ('t, 'd) ingress_nub \<times> 't buffers \<times> activations" where
  "ingress_push to_inner element s =
     (case s of (nub, h, av) \<Rightarrow>
        case element of
          Some (time, data) \<Rightarrow>
            (let (h, p) = counter_push (fst (ig_targets nub)) (Some (to_inner time, data)) h (snd (ig_targets nub))
             in (nub\<lparr>ig_targets := (fst (ig_targets nub), p), ig_active := True\<rparr>, h, av))
        | None \<Rightarrow>
            (let (nub, av) = (if ig_active nub then (nub\<lparr>ig_active := False\<rparr>, av_activate (ig_activator nub) av) else (nub, av));
                 (h, p) = counter_push (fst (ig_targets nub)) None h (snd (ig_targets nub))
             in (nub\<lparr>ig_targets := (fst (ig_targets nub), p)\<rparr>, h, av)))"

definition egress_push :: "('t \<Rightarrow> 'o) \<Rightarrow> ('t, 'd) message option \<Rightarrow> ('o, 'd) pushee list \<Rightarrow> ('o, 'd) pushee list" where
  "egress_push to_outer message targets =
     (case message of
        Some (time, data) \<Rightarrow> tee_push (Some (to_outer time, data)) targets
      | None \<Rightarrow> tee_push None targets)"

section \<open>Schedules\<close>

text \<open>What the scope does before a schedule: frontier changes and messages.\<close>

definition ro_arrive :: "('t::linorder \<times> int) list \<Rightarrow> ('t, 'd) message list \<Rightarrow> ('t, 'd) raw_operator \<Rightarrow> ('t, 'd) raw_operator" where
  "ro_arrive us ms r =
     r\<lparr>ro_input := ro_input r @ ms, ro_progress := (ro_progress r)\<lparr>sp_frontiers := map (cb_extend us) (sp_frontiers (ro_progress r))\<rparr>\<rparr>"

text \<open>And after it: the changes it collects, for one input and one output.\<close>

record 't reports =
  rp_consumed :: "('t \<times> int) list"
  rp_internal :: "('t \<times> int) list"
  rp_produced :: "('t \<times> int) list"

definition rp_none :: "'t reports" where
  "rp_none = \<lparr>rp_consumed = [], rp_internal = [], rp_produced = []\<rparr>"

definition ro_collect :: "('t::linorder, 'd) raw_operator \<Rightarrow> 't reports \<Rightarrow> ('t, 'd) raw_operator \<times> 't reports" where
  "ro_collect r p =
     (let sp = ro_progress r
      in (r\<lparr>ro_progress := sp\<lparr>sp_consumeds := map (snd \<circ> cb_drain) (sp_consumeds sp), sp_internals := map (snd \<circ> cb_drain) (sp_internals sp),
             sp_produceds := map (snd \<circ> cb_drain) (sp_produceds sp)\<rparr>\<rparr>,
          \<lparr>rp_consumed = rp_consumed p @ concat (map (fst \<circ> cb_drain) (sp_consumeds sp)),
           rp_internal = rp_internal p @ concat (map (fst \<circ> cb_drain) (sp_internals sp)),
           rp_produced = rp_produced p @ concat (map (fst \<circ> cb_drain) (sp_produceds sp))\<rparr>))"

type_synonym ('t, 'd) round = "('t \<times> int) list \<times> ('t, 'd) message list"

fun capture_rounds ::
  "'t::linorder \<Rightarrow> ('t, 'd) round list \<Rightarrow> ('t, 'd) event list \<Rightarrow> ('t, 'd) raw_operator \<Rightarrow> 't buffers \<Rightarrow> 't reports
   \<Rightarrow> (('t, 'd) event list \<times> ('t, 'd) raw_operator \<times> 't buffers \<times> 't reports) option" where
  "capture_rounds minimum [] events r h p = Some (events, r, h, p)"
| "capture_rounds minimum ((us, ms) # rs) events r h p =
     do { (es, r, h) \<leftarrow> capture_schedule minimum (ro_arrive us ms r) h;
          let (r, p) = ro_collect r p;
          capture_rounds minimum rs (events @ es) r h p }"

fun replay_rounds ::
  "'t::linorder \<Rightarrow> duration option \<Rightarrow> duration \<Rightarrow> path \<Rightarrow> ('t, 'd) event list list list \<Rightarrow> ('t, 'd) raw_operator \<Rightarrow> 't buffers \<Rightarrow> activations \<Rightarrow> 't reports
   \<Rightarrow> (('t, 'd) raw_operator \<times> 't buffers \<times> activations \<times> 't reports) option" where
  "replay_rounds minimum period elapsed address [] r h av p = Some (r, h, av, p)"
| "replay_rounds minimum period elapsed address (streams # rs) r h av p =
     do { (r, h, av) \<leftarrow> replay_schedule minimum period elapsed address streams r h av;
          let (r, p) = ro_collect r p;
          replay_rounds minimum period elapsed address rs r h av p }"

fun probe_rounds ::
  "('t::linorder \<Rightarrow> 't \<Rightarrow> bool) \<Rightarrow> 't \<Rightarrow> ('t, 'd) round list \<Rightarrow> 't mutable_antichain option \<Rightarrow> ('t, 'd) raw_operator \<Rightarrow> 't buffers \<Rightarrow> 't reports
   \<Rightarrow> ('t mutable_antichain option \<times> ('t, 'd) raw_operator \<times> 't buffers \<times> 't reports) option" where
  "probe_rounds le minimum [] f r h p = Some (f, r, h, p)"
| "probe_rounds le minimum ((us, ms) # rs) f r h p =
     do { (f, r, h) \<leftarrow> probe_schedule le minimum f (ro_arrive us ms r) h;
          let (r, p) = ro_collect r p;
          probe_rounds le minimum rs f r h p }"

section \<open>What is carried\<close>

definition records :: "('t, 'd) message list \<Rightarrow> ('t \<times> 'd) list" where
  "records ms = delivered (map Some ms)"

definition messages_sent :: "('t, 'd) pushee \<Rightarrow> ('t, 'd) message list" where
  "messages_sent p = concat (map (\<lambda>m. case m of None \<Rightarrow> [] | Some x \<Rightarrow> [x]) p)"

fun event_messages :: "('t, 'd) event \<Rightarrow> ('t, 'd) message list" where
  "event_messages (Progress us) = []"
| "event_messages (Messages t d) = [(t, d)]"

fun event_changes :: "('t, 'd) event \<Rightarrow> ('t \<times> int) list" where
  "event_changes (Progress us) = us"
| "event_changes (Messages t d) = []"

definition messages_of :: "('t, 'd) event list \<Rightarrow> ('t, 'd) message list" where
  "messages_of es = concat (map event_messages es)"

definition changes_of :: "('t, 'd) event list \<Rightarrow> ('t \<times> int) list" where
  "changes_of es = concat (map event_changes es)"

lemma of_simps [simp]:
  "messages_of [] = []" "messages_of (e # es) = event_messages e @ messages_of es" "messages_of (es @ es') = messages_of es @ messages_of es'"
  "changes_of [] = []" "changes_of (e # es) = event_changes e @ changes_of es" "changes_of (es @ es') = changes_of es @ changes_of es'"
  "messages_sent [] = []" "messages_sent (p @ q) = messages_sent p @ messages_sent q" "messages_sent [Some m] = [m]" "messages_sent [None] = []"
  "records [] = []" "records (ms @ ms') = records ms @ records ms'" "records (m # ms) = map (Pair (fst m)) (snd m) @ records ms"
  by (auto simp: messages_of_def changes_of_def messages_sent_def records_def delivered_def split: prod.splits)

declare capture_messages.simps [simp del] probe_messages.simps [simp del]

text \<open>Between schedules the counters of an operator are empty, and so are the batches it reports in.\<close>

definition ro_idle :: "('t::linorder, 'd) raw_operator \<Rightarrow> 't buffers \<Rightarrow> bool" where
  "ro_idle r h \<longleftrightarrow> (\<forall>a. cb_inv (h a)) \<and> (\<forall>t. cb_count (h (ro_consumed r)) t = 0) \<and> (\<forall>t. cb_count (h (ro_produced r)) t = 0)
     \<and> ro_consumed r \<noteq> ro_produced r \<and> ro_input r = []"

lemma puller_next_simps [simp]:
  "puller_next a [] h = (None, h)"
  "puller_next a (m # ms) h = (Some (m, ms), buf_update a (fst m) (int (length (snd m))) h)"
  by (simp_all add: puller_next_def next_guarded_def guard_drop_def)

lemma output_push_Some: "output_push (Some m) r h
    = (r\<lparr>ro_output := ro_output r @ [Some m]\<rparr>, buf_update (ro_produced r) (fst m) (int (length (snd m))) h)"
  by (cases m) (simp add: output_push_def counter_push_def)

lemma output_push_None:
  assumes "output_push None r h = (r', h')" and "\<forall>a. cb_inv (h a)"
  shows "(\<forall>a. cb_inv (h' a)) \<and> (\<forall>a t. cb_count (h' a) t = cb_count (h a) t)
    \<and> (\<exists>p. messages_sent p = messages_sent (ro_output r) \<and> r' = r\<lparr>ro_output := p\<rparr>)"
  using assms is_empty_snd [of "h (ro_produced r)" "fst (cb_is_empty (h (ro_produced r)))" "snd (cb_is_empty (h (ro_produced r)))"]
  by (intro conjI exI [of _ "ro_output r'"]) (auto simp: output_push_def counter_push_def split_def Let_def)

lemma drain_consumed_ok:
  assumes "sp_consumeds (ro_progress r) = [c]" and "\<forall>a. cb_inv (h a)" and "cb_inv c"
  shows "\<exists>c' h'. drain_consumed r h = Some (r\<lparr>ro_progress := (ro_progress r)\<lparr>sp_consumeds := [c']\<rparr>\<rparr>, h')
    \<and> (\<forall>t. cb_count c' t = cb_count (h (ro_consumed r)) t + cb_count c t) \<and> (\<forall>a. cb_inv (h' a))
    \<and> (\<forall>t. cb_count (h' (ro_consumed r)) t = 0) \<and> (\<forall>a. a \<noteq> ro_consumed r \<longrightarrow> h' a = h a)"
proof -
  obtain b c' where d: "cb_drain_into (h (ro_consumed r)) c = (b, c')" by (cases "cb_drain_into (h (ro_consumed r)) c")
  have "cb_updates b = []" "\<forall>t. cb_count c' t = cb_count (h (ro_consumed r)) t + cb_count c t" "cb_inv b"
    using drain_into_facts [OF d] cb_inv_drain_into [OF _ assms(3) d] assms(2) by auto
  then show ?thesis using assms(2) by (intro exI [of _ c'] exI [of _ "h(ro_consumed r := b)"])
      (simp add: drain_consumed_def assms(1) d vec_get_def cb_count_def)
qed

lemma drain_produced_ok:
  assumes "sp_produceds (ro_progress r) = [c]" and "\<forall>a. cb_inv (h a)" and "cb_inv c"
  shows "\<exists>c' h'. drain_produced r h = Some (r\<lparr>ro_progress := (ro_progress r)\<lparr>sp_produceds := [c']\<rparr>\<rparr>, h')
    \<and> (\<forall>t. cb_count c' t = cb_count (h (ro_produced r)) t + cb_count c t) \<and> (\<forall>a. cb_inv (h' a))
    \<and> (\<forall>t. cb_count (h' (ro_produced r)) t = 0) \<and> (\<forall>a. a \<noteq> ro_produced r \<longrightarrow> h' a = h a)"
proof -
  obtain b c' where d: "cb_drain_into (h (ro_produced r)) c = (b, c')" by (cases "cb_drain_into (h (ro_produced r)) c")
  have "cb_updates b = []" "\<forall>t. cb_count c' t = cb_count (h (ro_produced r)) t + cb_count c t" "cb_inv b"
    using drain_into_facts [OF d] cb_inv_drain_into [OF _ assms(3) d] assms(2) by auto
  then show ?thesis using assms(2) by (intro exI [of _ c'] exI [of _ "h(ro_produced r := b)"])
      (simp add: drain_produced_def assms(1) d vec_get_def cb_count_def)
qed

lemma capture_messages_ok:
  assumes "capture_messages a ms h = (es, h')" and "\<forall>b. cb_inv (h b)"
  shows "messages_of es = ms \<and> changes_of es = [] \<and> (\<forall>b. cb_inv (h' b)) \<and> (\<forall>b. b \<noteq> a \<longrightarrow> h' b = h b)
    \<and> (\<forall>t. cb_count (h' a) t = cb_count (h a) t + times_count t (records ms))"
  using assms
proof (induction ms arbitrary: es h h')
  case (Cons m ms)
  let ?h = "buf_update a (fst m) (int (length (snd m))) h"
  obtain es1 where e: "capture_messages a ms ?h = (es1, h')" "es = Messages (fst m) (snd m) # es1"
    using Cons(2) by (subst (asm) capture_messages.simps) (auto split: prod.splits)
  have "\<forall>b. cb_inv (?h b)" using Cons(3) by (simp add: buf_update_def)
  from Cons(1) [OF e(1) this] show ?case by (auto simp: e(2) buf_update_def)
qed (auto simp: capture_messages.simps)

lemma collect_simps [simp]:
  "ro_started (fst (ro_collect r p)) = ro_started r" "ro_input (fst (ro_collect r p)) = ro_input r"
  "ro_consumed (fst (ro_collect r p)) = ro_consumed r" "ro_output (fst (ro_collect r p)) = ro_output r"
  "ro_produced (fst (ro_collect r p)) = ro_produced r" "sp_frontiers (ro_progress (fst (ro_collect r p))) = sp_frontiers (ro_progress r)"
  by (simp_all add: ro_collect_def Let_def)

text \<open>What a schedule reports in single batches is collected and the batches are left empty.\<close>

lemma collect_consumed:
  "sp_consumeds (ro_progress r) = [c] \<Longrightarrow> sp_consumeds (ro_progress (fst (ro_collect r p))) = [cb_new]
    \<and> upd_count (rp_consumed (snd (ro_collect r p))) t = upd_count (rp_consumed p) t + cb_count c t"
  by (simp add: ro_collect_def Let_def)

lemma collect_internal:
  "sp_internals (ro_progress r) = [c] \<Longrightarrow> sp_internals (ro_progress (fst (ro_collect r p))) = [cb_new]
    \<and> upd_count (rp_internal (snd (ro_collect r p))) t = upd_count (rp_internal p) t + cb_count c t"
  by (simp add: ro_collect_def Let_def)

lemma collect_produced:
  "sp_produceds (ro_progress r) = [c] \<Longrightarrow> sp_produceds (ro_progress (fst (ro_collect r p))) = [cb_new]
    \<and> upd_count (rp_produced (snd (ro_collect r p))) t = upd_count (rp_produced p) t + cb_count c t"
  by (simp add: ro_collect_def Let_def)

section \<open>Capture\<close>

definition capture_ok :: "('t::linorder, 'd) raw_operator \<Rightarrow> 't buffers \<Rightarrow> bool" where
  "capture_ok r h \<longleftrightarrow> ro_idle r h \<and> (\<exists>f. sp_frontiers (ro_progress r) = [f] \<and> cb_inv f \<and> (\<forall>t. cb_count f t = 0))
     \<and> sp_consumeds (ro_progress r) = [cb_new]"

lemma capture_schedule_ok:
  assumes "capture_ok r h"
  shows "\<exists>es r' h'. capture_schedule minimum (ro_arrive us ms r) h = Some (es, r', h') \<and> ro_started r'
    \<and> messages_of es = ms \<and> (\<forall>t. upd_count (changes_of es) t = upd_count us t - of_bool (\<not> ro_started r \<and> t = minimum))
    \<and> (\<exists>c. sp_consumeds (ro_progress r') = [c] \<and> (\<forall>t. cb_count c t = times_count t (records ms)))
    \<and> ro_idle r' h' \<and> (\<exists>f. sp_frontiers (ro_progress r') = [f] \<and> cb_inv f \<and> (\<forall>t. cb_count f t = 0))"
proof -
  obtain f where f: "sp_frontiers (ro_progress r) = [f]" "cb_inv f" "\<forall>t. cb_count f t = 0"
    and i: "\<forall>a. cb_inv (h a)" "\<forall>t. cb_count (h (ro_consumed r)) t = 0" "\<forall>t. cb_count (h (ro_produced r)) t = 0"
      "ro_consumed r \<noteq> ro_produced r" "ro_input r = []"
    and c: "sp_consumeds (ro_progress r) = [cb_new]"
    using assms by (auto simp: capture_ok_def ro_idle_def)
  define f0 where "f0 = (if \<not> ro_started r then cb_update minimum (- 1) (cb_extend us f) else cb_extend us f)"
  obtain empty f1 where f1: "cb_is_empty f0 = (empty, f1)" by (cases "cb_is_empty f0")
  have f0: "cb_inv f0" "cb_count f0 t = upd_count us t - of_bool (\<not> ro_started r \<and> t = minimum)" for t
    using f by (auto simp: f0_def)
  have k: "cb_inv f1" "\<forall>t. cb_count f1 t = cb_count f0 t" using is_empty_snd [OF f0(1) f1] by auto
  have z: "cb_count f0 t = 0" if empty for t using is_empty_iff [OF f0(1)] f1 that by simp
  obtain es h1 where e: "capture_messages (ro_consumed r) ms h = (es, h1)" by (cases "capture_messages (ro_consumed r) ms h")
  note m = capture_messages_ok [OF e i(1)]
  define f2 where "f2 = (if \<not> empty then cb_new else f1)"
  let ?r = "r\<lparr>ro_started := True, ro_input := [], ro_progress := (ro_progress r)\<lparr>sp_frontiers := [f2]\<rparr>\<rparr>"
  have "sp_consumeds (ro_progress ?r) = [cb_new]" "\<forall>a. cb_inv (h1 a)" "cb_inv (cb_new :: 'a change_batch)" using c m by auto
  from drain_consumed_ok [OF this] obtain c' h' where d: "drain_consumed ?r h1 = Some (?r\<lparr>ro_progress := (ro_progress ?r)\<lparr>sp_consumeds := [c']\<rparr>\<rparr>, h')"
      "\<forall>t. cb_count c' t = cb_count (h1 (ro_consumed r)) t" "\<forall>a. cb_inv (h' a)"
      "\<forall>t. cb_count (h' (ro_consumed r)) t = 0" "\<forall>a. a \<noteq> ro_consumed r \<longrightarrow> h' a = h1 a" by auto
  let ?es = "(if \<not> empty then [Progress (cb_into_inner f1)] else []) @ es"
  have "capture_schedule minimum (ro_arrive us ms r) h = Some (?es, ?r\<lparr>ro_progress := (ro_progress ?r)\<lparr>sp_consumeds := [c']\<rparr>\<rparr>, h')"
    using d(1) by (simp add: capture_schedule_def ro_arrive_def f(1) i(5) vec_get_def f0_def [symmetric] f1 e f2_def split: if_splits)
  moreover have "upd_count (changes_of ?es) t = upd_count us t - of_bool (\<not> ro_started r \<and> t = minimum)" for t
    using m k z [of t] f0(2) [of t] by (auto simp: cb_into_inner_def cb_updates_compact_count)
  moreover have "ro_idle (?r\<lparr>ro_progress := (ro_progress ?r)\<lparr>sp_consumeds := [c']\<rparr>\<rparr>) h'"
    using d(3-5) m i(3,4) by (simp add: ro_idle_def)
  moreover have "cb_inv f2 \<and> (\<forall>t. cb_count f2 t = 0)" using k z by (simp add: f2_def)
  ultimately show ?thesis using m d(2) i(2) by auto
qed

lemma capture_rounds_ok:
  assumes "capture_ok r h"
  shows "\<exists>es r' h' p'. capture_rounds minimum rs events r h p = Some (events @ es, r', h', p')
    \<and> messages_of es = concat (map snd rs)
    \<and> (\<forall>t. upd_count (changes_of es) t = upd_count (concat (map fst rs)) t - of_bool (\<not> ro_started r \<and> rs \<noteq> [] \<and> t = minimum))
    \<and> (\<forall>t. upd_count (rp_consumed p') t = upd_count (rp_consumed p) t + times_count t (records (concat (map snd rs))))"
  using assms
proof (induction rs arbitrary: events r h p)
  case (Cons round rs)
  obtain us ms where round: "round = (us, ms)" by (cases round)
  obtain es1 r1 h1 c where a: "capture_schedule minimum (ro_arrive us ms r) h = Some (es1, r1, h1)" "ro_started r1" "messages_of es1 = ms"
      "\<forall>t. upd_count (changes_of es1) t = upd_count us t - of_bool (\<not> ro_started r \<and> t = minimum)"
    and c: "sp_consumeds (ro_progress r1) = [c]" "\<forall>t. cb_count c t = times_count t (records ms)"
    and i: "ro_idle r1 h1" "\<exists>f. sp_frontiers (ro_progress r1) = [f] \<and> cb_inv f \<and> (\<forall>t. cb_count f t = 0)"
    using capture_schedule_ok [OF Cons(2), of minimum us ms] by blast
  obtain r2 p2 where r2: "ro_collect r1 p = (r2, p2)" by (cases "ro_collect r1 p")
  note x = collect_consumed [OF c(1), of p, unfolded r2, simplified] collect_simps [of r1 p, unfolded r2, simplified]
  have "capture_ok r2 h1" using i x by (simp add: capture_ok_def ro_idle_def)
  from Cons(1) [OF this, of "events @ es1" p2] obtain es r' h' p' where
    y: "capture_rounds minimum rs (events @ es1) r2 h1 p2 = Some ((events @ es1) @ es, r', h', p')" "messages_of es = concat (map snd rs)"
      "\<forall>t. upd_count (changes_of es) t = upd_count (concat (map fst rs)) t"
      "\<forall>t. upd_count (rp_consumed p') t = upd_count (rp_consumed p2) t + times_count t (records (concat (map snd rs)))"
    using x a(2) by auto
  show ?case using a c x y
    by (intro exI [of _ "es1 @ es"] exI [of _ r'] exI [of _ h'] exI [of _ p']) (simp add: round r2)
qed simp

section \<open>Replay\<close>

lemma replay_events_ok:
  assumes "sp_internals (ro_progress r) = [b]" and "\<forall>a. cb_inv (h a)"
  shows "\<exists>r' h' b'. replay_events es (r, h) = Some (r', h') \<and> r' = r\<lparr>ro_output := ro_output r', ro_progress := (ro_progress r)\<lparr>sp_internals := [b']\<rparr>\<rparr>
    \<and> (\<forall>t. cb_count b' t = cb_count b t + upd_count (changes_of es) t) \<and> (\<forall>a. cb_inv (h' a))
    \<and> (\<forall>a. a \<noteq> ro_produced r \<longrightarrow> h' a = h a) \<and> messages_sent (ro_output r') = messages_sent (ro_output r) @ messages_of es
    \<and> (\<forall>t. cb_count (h' (ro_produced r)) t = cb_count (h (ro_produced r)) t + times_count t (records (messages_of es)))"
  using assms
proof (induction es arbitrary: r h b)
  case (Cons e es)
  show ?case
  proof (cases e)
    case (Progress us)
    let ?r = "r\<lparr>ro_progress := (ro_progress r)\<lparr>sp_internals := [cb_extend us b]\<rparr>\<rparr>"
    have "replay_event e (r, h) = Some (?r, h)" using Cons(2) by (simp add: Progress vec_get_def)
    then show ?thesis using Cons(1) [of ?r "cb_extend us b" h] Cons(3) by (fastforce simp: Progress)
  next
    case (Messages t d)
    let ?r = "r\<lparr>ro_output := ro_output r @ [Some (t, d)]\<rparr>" and ?h = "buf_update (ro_produced r) t (int (length d)) h"
    have "replay_event e (r, h) = Some (?r, ?h)" by (simp add: Messages output_push_Some)
    moreover have "\<forall>a. cb_inv (?h a)" "sp_internals (ro_progress ?r) = [b]" using Cons(2,3) by (simp_all add: buf_update_def)
    ultimately show ?thesis using Cons(1) [of ?r b ?h] by (fastforce simp: Messages buf_update_def)
  qed
next
  case Nil
  have "(ro_progress r)\<lparr>sp_internals := [b]\<rparr> = ro_progress r" using Nil(1) by (cases "ro_progress r") simp
  then have "r = r\<lparr>ro_output := ro_output r, ro_progress := (ro_progress r)\<lparr>sp_internals := [b]\<rparr>\<rparr>" by simp
  then show ?case using Nil(2) by (intro exI [of _ r] exI [of _ h] exI [of _ b]) simp
qed

definition replay_ok :: "('t::linorder, 'd) raw_operator \<Rightarrow> 't buffers \<Rightarrow> bool" where
  "replay_ok r h \<longleftrightarrow> (\<forall>a. cb_inv (h a)) \<and> (\<forall>t. cb_count (h (ro_produced r)) t = 0)
     \<and> sp_internals (ro_progress r) = [cb_new] \<and> sp_produceds (ro_progress r) = [cb_new]"

lemma replay_schedule_ok:
  assumes "replay_ok r h" and "\<forall>delay. period = Some delay \<longrightarrow> duration_checked_add elapsed delay \<noteq> None"
  shows "\<exists>r' h' av' b c. replay_schedule minimum period elapsed address streams r h av = Some (r', h', av')
    \<and> ro_started r' \<and> (\<forall>a. cb_inv (h' a)) \<and> ro_produced r' = ro_produced r \<and> (\<forall>t. cb_count (h' (ro_produced r)) t = 0)
    \<and> sp_internals (ro_progress r') = [b] \<and> sp_produceds (ro_progress r') = [c]
    \<and> messages_sent (ro_output r') = messages_sent (ro_output r) @ messages_of (concat streams)
    \<and> (\<forall>t. cb_count b t = (if \<not> ro_started r \<and> t = minimum then int (length streams) - 1 else 0) + upd_count (changes_of (concat streams)) t)
    \<and> (\<forall>t. cb_count c t = times_count t (records (messages_of (concat streams))))"
proof -
  have i: "\<forall>a. cb_inv (h a)" "\<forall>t. cb_count (h (ro_produced r)) t = 0" "sp_internals (ro_progress r) = [cb_new]" "sp_produceds (ro_progress r) = [cb_new]"
    using assms(1) by (simp_all add: replay_ok_def)
  define b0 where "b0 = (if \<not> ro_started r then cb_update minimum (int (length streams) - 1) cb_new else cb_new)"
  define r0 where "r0 = r\<lparr>ro_progress := (ro_progress r)\<lparr>sp_internals := [b0]\<rparr>, ro_started := True\<rparr>"
  have r0: "sp_internals (ro_progress r0) = [b0]" "ro_produced r0 = ro_produced r" "sp_produceds (ro_progress r0) = [cb_new]" using i(4) by (simp_all add: r0_def)
  have s: "(if \<not> ro_started r then update_internal minimum (int (length streams) - 1) r else Some r)
      = Some (r\<lparr>ro_progress := (ro_progress r)\<lparr>sp_internals := [b0]\<rparr>\<rparr>)"
    using i(3) by (cases "ro_progress r") (auto simp: update_internal_def b0_def vec_get_def)
  obtain r1 h1 b1 where r1: "replay_events (concat streams) (r0, h) = Some (r1, h1)"
      "r1 = r0\<lparr>ro_output := ro_output r1, ro_progress := (ro_progress r0)\<lparr>sp_internals := [b1]\<rparr>\<rparr>"
      "\<forall>t. cb_count b1 t = cb_count b0 t + upd_count (changes_of (concat streams)) t" "\<forall>a. cb_inv (h1 a)"
      "messages_sent (ro_output r1) = messages_sent (ro_output r0) @ messages_of (concat streams)"
      "\<forall>t. cb_count (h1 (ro_produced r)) t = times_count t (records (messages_of (concat streams)))"
    using replay_events_ok [OF r0(1) i(1), of "concat streams"] i(2) r0(2) by auto
  obtain r2 h2 where r2: "output_push None r1 h1 = (r2, h2)" by (cases "output_push None r1 h1")
  obtain q where q: "messages_sent q = messages_sent (ro_output r1)" "r2 = r1\<lparr>ro_output := q\<rparr>" "\<forall>a. cb_inv (h2 a)"
      "\<forall>a t. cb_count (h2 a) t = cb_count (h1 a) t" using output_push_None [OF r2 r1(4)] by blast
  have pr: "ro_produced r1 = ro_produced r" "ro_produced r2 = ro_produced r" "sp_produceds (ro_progress r2) = [cb_new]" "sp_internals (ro_progress r2) = [b1]"
      "ro_started r2"
    using r0(2,3) by (simp_all add: q(2)) (subst r1(2); simp add: r0_def)+
  obtain c h3 where d: "drain_produced r2 h2 = Some (r2\<lparr>ro_progress := (ro_progress r2)\<lparr>sp_produceds := [c]\<rparr>\<rparr>, h3)"
      "\<forall>t. cb_count c t = cb_count (h2 (ro_produced r)) t" "\<forall>a. cb_inv (h3 a)" "\<forall>t. cb_count (h3 (ro_produced r)) t = 0"
    using drain_produced_ok [OF pr(3) q(3)] pr(2) by auto
  have "\<exists>av'. (case period of None \<Rightarrow> Some av | Some delay \<Rightarrow> activator_activate_after elapsed address delay av) = Some av'"
    using assms(2) by (cases period) (auto simp: activator_activate_after_def av_activate_after_def)
  then obtain av' where av: "(case period of None \<Rightarrow> Some av | Some delay \<Rightarrow> activator_activate_after elapsed address delay av) = Some av'" ..
  have "replay_schedule minimum period elapsed address streams r h av = Some (r2\<lparr>ro_progress := (ro_progress r2)\<lparr>sp_produceds := [c]\<rparr>\<rparr>, h3, av')"
    unfolding replay_schedule_def s using r1(1) av r2 d(1) by (simp add: r0_def)
  then show ?thesis using d(2-4) pr q r1(3,5,6)
    by (intro exI [of _ "r2\<lparr>ro_progress := (ro_progress r2)\<lparr>sp_produceds := [c]\<rparr>\<rparr>"] exI [of _ h3] exI [of _ av'] exI [of _ b1] exI [of _ c])
      (auto simp: b0_def r0_def)
qed

lemma replay_rounds_ok:
  assumes "replay_ok r h" and "\<forall>delay. period = Some delay \<longrightarrow> duration_checked_add elapsed delay \<noteq> None"
    and "\<forall>streams \<in> set rs. length streams = n"
  shows "\<exists>r' h' av' p'. replay_rounds minimum period elapsed address rs r h av p = Some (r', h', av', p')
    \<and> messages_sent (ro_output r') = messages_sent (ro_output r) @ messages_of (concat (concat rs))
    \<and> (\<forall>t. upd_count (rp_internal p') t = upd_count (rp_internal p) t + (if \<not> ro_started r \<and> rs \<noteq> [] \<and> t = minimum then int n - 1 else 0)
          + upd_count (changes_of (concat (concat rs))) t)
    \<and> (\<forall>t. upd_count (rp_produced p') t = upd_count (rp_produced p) t + times_count t (records (messages_of (concat (concat rs)))))"
  using assms(1,3)
proof (induction rs arbitrary: r h av p)
  case (Cons streams rs)
  obtain r1 h1 av1 b c where a: "replay_schedule minimum period elapsed address streams r h av = Some (r1, h1, av1)" "ro_started r1" "\<forall>a. cb_inv (h1 a)"
      "ro_produced r1 = ro_produced r" "\<forall>t. cb_count (h1 (ro_produced r)) t = 0"
      "messages_sent (ro_output r1) = messages_sent (ro_output r) @ messages_of (concat streams)"
      "\<forall>t. cb_count b t = (if \<not> ro_started r \<and> t = minimum then int (length streams) - 1 else 0) + upd_count (changes_of (concat streams)) t"
      "\<forall>t. cb_count c t = times_count t (records (messages_of (concat streams)))"
    and bc: "sp_internals (ro_progress r1) = [b]" "sp_produceds (ro_progress r1) = [c]"
    using replay_schedule_ok [OF Cons(2) assms(2), of minimum address streams av] by blast
  obtain r2 p2 where r2: "ro_collect r1 p = (r2, p2)" by (cases "ro_collect r1 p")
  note x = collect_internal [OF bc(1), of p, unfolded r2, simplified] collect_produced [OF bc(2), of p, unfolded r2, simplified]
    collect_simps [of r1 p, unfolded r2, simplified]
  have "replay_ok r2 h1" using a(3-5) x by (simp add: replay_ok_def)
  from Cons(1) [OF this, of av1 p2] Cons(3) obtain r' h' av' p' where
    y: "replay_rounds minimum period elapsed address rs r2 h1 av1 p2 = Some (r', h', av', p')"
      "messages_sent (ro_output r') = messages_sent (ro_output r2) @ messages_of (concat (concat rs))"
      "\<forall>t. upd_count (rp_internal p') t = upd_count (rp_internal p2) t + upd_count (changes_of (concat (concat rs))) t"
      "\<forall>t. upd_count (rp_produced p') t = upd_count (rp_produced p2) t + times_count t (records (messages_of (concat (concat rs))))"
    using x a(2) by auto
  show ?case using a x y Cons(3)
    by (intro exI [of _ r'] exI [of _ h'] exI [of _ av'] exI [of _ p']) (simp add: r2)
qed simp

text \<open>The passes of a replay interleave its streams, each in order.\<close>

lemma concat_streams_sum:
  fixes F :: "'e list \<Rightarrow> 'm::comm_monoid_add"
  assumes "F [] = 0" and "\<And>xs ys. F (xs @ ys) = F xs + F ys" and "\<forall>streams \<in> set rs. length streams = n"
  shows "F (concat (concat rs)) = (\<Sum>i<n. F (concat (map (\<lambda>streams. streams ! i) rs)))"
proof -
  have one: "F (concat xs) = (\<Sum>i<length xs. F (xs ! i))" for xs
    by (induction xs) (simp_all add: assms(1,2) sum.lessThan_Suc_shift del: sum.lessThan_Suc)
  show ?thesis using assms(3) by (induction rs) (simp_all add: assms(1,2) one sum.distrib)
qed

lemma stream_subseq:
  assumes "\<forall>streams \<in> set rs. length streams = n" and "i < n"
  shows "subseq (concat (map (\<lambda>streams. streams ! i) rs)) (concat (concat rs))"
proof -
  have sub: "subseq (xs ! i) (concat xs)" if "i < length xs" for xs :: "'a list list"
    using that by (induction xs arbitrary: i) (auto simp: nth_Cons split: nat.split intro: list_emb_append2)
  show ?thesis using assms by (induction rs) (auto intro!: list_emb_append_mono sub)
qed

lemma messages_of_subseq: "subseq es es' \<Longrightarrow> subseq (messages_of es) (messages_of es')"
  by (induction rule: list_emb.induct) (auto intro: list_emb_append2 list_emb_append_mono)

section \<open>Probe\<close>

lemma probe_messages_ok:
  assumes "probe_messages r h = (r', h')" and "\<forall>a. cb_inv (h a)" and "ro_consumed r \<noteq> ro_produced r"
  shows "r' = r\<lparr>ro_input := [], ro_output := ro_output r @ map Some (ro_input r)\<rparr> \<and> (\<forall>a. cb_inv (h' a))
    \<and> (\<forall>t. cb_count (h' (ro_consumed r)) t = cb_count (h (ro_consumed r)) t + times_count t (records (ro_input r)))
    \<and> (\<forall>t. cb_count (h' (ro_produced r)) t = cb_count (h (ro_produced r)) t + times_count t (records (ro_input r)))"
  using assms
proof (induction "ro_input r" arbitrary: r h)
  case Nil
  then show ?case by (simp add: probe_messages.simps [of r h])
next
  case (Cons m ms)
  let ?r = "r\<lparr>ro_input := ms, ro_output := ro_output r @ [Some m]\<rparr>"
  let ?h = "buf_update (ro_produced r) (fst m) (int (length (snd m))) (buf_update (ro_consumed r) (fst m) (int (length (snd m))) h)"
  have "probe_messages ?r ?h = (r', h')"
    using Cons(3) by (subst (asm) probe_messages.simps) (simp add: Cons(2) [symmetric] output_push_Some)
  moreover have "\<forall>a. cb_inv (?h a)" using Cons(4) by (simp add: buf_update_def)
  ultimately show ?case using Cons(1) [of ?r ?h] Cons(5) by (simp add: Cons(2) [symmetric])
qed

definition probe_ok :: "('t::linorder, 'd) raw_operator \<Rightarrow> 't buffers \<Rightarrow> bool" where
  "probe_ok r h \<longleftrightarrow> ro_idle r h \<and> sp_frontiers (ro_progress r) = [cb_new] \<and> sp_consumeds (ro_progress r) = [cb_new]
     \<and> sp_internals (ro_progress r) = [cb_new] \<and> sp_produceds (ro_progress r) = [cb_new]"

lemma probe_schedule_ok:
  assumes "probe_ok r h" and "timestamp_order le" and "ma_inv le f"
  shows "\<exists>f' r' h' b c d. probe_schedule le minimum (Some f) (ro_arrive us ms r) h = Some (Some f', r', h')
    \<and> ma_inv le f' \<and> (\<forall>t. ma_count f' t = ma_count f t + upd_count us t) \<and> ro_started r' \<and> ro_idle r' h'
    \<and> messages_sent (ro_output r') = messages_sent (ro_output r) @ ms \<and> sp_frontiers (ro_progress r') = [cb_new]
    \<and> sp_consumeds (ro_progress r') = [c] \<and> (\<forall>t. cb_count c t = times_count t (records ms))
    \<and> sp_produceds (ro_progress r') = [d] \<and> (\<forall>t. cb_count d t = times_count t (records ms))
    \<and> sp_internals (ro_progress r') = [b] \<and> (\<forall>t. cb_count b t = - of_bool (\<not> ro_started r \<and> t = minimum))"
proof -
  have i: "\<forall>a. cb_inv (h a)" "\<forall>t. cb_count (h (ro_consumed r)) t = 0" "\<forall>t. cb_count (h (ro_produced r)) t = 0"
      "ro_consumed r \<noteq> ro_produced r" "ro_input r = []"
    and sp: "sp_frontiers (ro_progress r) = [cb_new]" "sp_consumeds (ro_progress r) = [cb_new]"
      "sp_internals (ro_progress r) = [cb_new]" "sp_produceds (ro_progress r) = [cb_new]"
    using assms(1) by (simp_all add: probe_ok_def ro_idle_def)
  define ws where "ws = fst (cb_drain (cb_extend us cb_new))"
  define f' where "f' = snd (ma_update_iter le ws f)"
  obtain out where f': "ma_update_iter le ws f = (out, f')" by (cases "ma_update_iter le ws f") (simp add: f'_def)
  note f = timestamp_order.update_iter_state [OF assms(2,3) f']
  define b where "b = (if \<not> ro_started r then cb_update minimum (- 1) cb_new else cb_new)"
  define r0 where "r0 = r\<lparr>ro_input := ms, ro_progress := (ro_progress r)\<lparr>sp_frontiers := [cb_new], sp_internals := [b]\<rparr>, ro_started := True\<rparr>"
  have s: "(if \<not> ro_started r then update_internal minimum (- 1) (r\<lparr>ro_input := ms, ro_progress := (ro_progress r)\<lparr>sp_frontiers := [cb_new]\<rparr>\<rparr>)
        else Some (r\<lparr>ro_input := ms, ro_progress := (ro_progress r)\<lparr>sp_frontiers := [cb_new]\<rparr>\<rparr>))
      = Some (r\<lparr>ro_input := ms, ro_progress := (ro_progress r)\<lparr>sp_frontiers := [cb_new], sp_internals := [b]\<rparr>\<rparr>)"
    using sp(3) by (cases "ro_progress r") (auto simp: update_internal_def b_def vec_get_def)
  obtain r1 h1 where p: "probe_messages r0 h = (r1, h1)" by (cases "probe_messages r0 h")
  have m: "r1 = r0\<lparr>ro_input := [], ro_output := ro_output r @ map Some ms\<rparr>" "\<forall>a. cb_inv (h1 a)"
      "\<forall>t. cb_count (h1 (ro_consumed r)) t = times_count t (records ms)" "\<forall>t. cb_count (h1 (ro_produced r)) t = times_count t (records ms)"
    using probe_messages_ok [OF p i(1)] i(2-4) by (simp_all add: r0_def)
  obtain r2 h2 where r2: "output_push None r1 h1 = (r2, h2)" by (cases "output_push None r1 h1")
  obtain q where q: "messages_sent q = messages_sent (ro_output r1)" "r2 = r1\<lparr>ro_output := q\<rparr>" "\<forall>a. cb_inv (h2 a)"
      "\<forall>a t. cb_count (h2 a) t = cb_count (h1 a) t" using output_push_None [OF r2 m(2)] by blast
  have "sp_consumeds (ro_progress r2) = [cb_new]" using sp by (simp add: q(2) m(1) r0_def)
  from drain_consumed_ok [OF this q(3)] obtain c h3 where c:
      "drain_consumed r2 h2 = Some (r2\<lparr>ro_progress := (ro_progress r2)\<lparr>sp_consumeds := [c]\<rparr>\<rparr>, h3)"
      "\<forall>t. cb_count c t = times_count t (records ms)" "\<forall>a. cb_inv (h3 a)" "\<forall>t. cb_count (h3 (ro_consumed r)) t = 0"
      "\<forall>t. cb_count (h3 (ro_produced r)) t = times_count t (records ms)"
    using q(4) m(3,4) i(4) by (auto simp: q(2) m(1) r0_def)
  define r3 where "r3 = r2\<lparr>ro_progress := (ro_progress r2)\<lparr>sp_consumeds := [c]\<rparr>\<rparr>"
  have "sp_produceds (ro_progress r3) = [cb_new]" using sp by (simp add: r3_def q(2) m(1) r0_def)
  from drain_produced_ok [OF this c(3)] obtain d h4 where d:
      "drain_produced r3 h3 = Some (r3\<lparr>ro_progress := (ro_progress r3)\<lparr>sp_produceds := [d]\<rparr>\<rparr>, h4)"
      "\<forall>t. cb_count d t = times_count t (records ms)" "\<forall>a. cb_inv (h4 a)" "\<forall>t. cb_count (h4 (ro_produced r)) t = 0"
      "\<forall>t. cb_count (h4 (ro_consumed r)) t = 0"
    using c(4,5) i(4) by (auto simp: r3_def q(2) m(1) r0_def)
  let ?r = "r3\<lparr>ro_progress := (ro_progress r3)\<lparr>sp_produceds := [d]\<rparr>\<rparr>"
  have "probe_schedule le minimum (Some f) (ro_arrive us ms r) h = Some (Some f', ?r, h4)"
  proof -
    have "cb_drain (cb_extend us cb_new) = (ws, cb_new)" by (simp add: ws_def prod_eq_iff)
    then show ?thesis using p r2 c(1) d(1) s i(5) sp(1)
      by (simp add: probe_schedule_def ro_arrive_def vec_get_def f' r0_def r3_def cong: if_cong)
  qed
  moreover have "ro_idle ?r h4" using d(3-5) i(4) by (simp add: ro_idle_def r3_def q(2) m(1) r0_def)
  moreover have "messages_sent (ro_output ?r) = messages_sent (ro_output r) @ ms"
    using q(1) by (simp add: r3_def q(2) m(1)) (simp add: messages_sent_def comp_def)
  moreover have "upd_count ws t = upd_count us t" for t by (simp add: ws_def)
  ultimately show ?thesis using f(1,2) c(2) d(2)
    by (intro exI [of _ f'] exI [of _ ?r] exI [of _ h4] exI [of _ b] exI [of _ c] exI [of _ d])
      (simp add: r3_def q(2) m(1) r0_def b_def)
qed

lemma probe_rounds_ok:
  assumes "probe_ok r h" and "timestamp_order le" and "ma_inv le f"
  shows "\<exists>f' r' h' p'. probe_rounds le minimum rs (Some f) r h p = Some (Some f', r', h', p')
    \<and> ma_inv le f' \<and> (\<forall>t. ma_count f' t = ma_count f t + upd_count (concat (map fst rs)) t)
    \<and> messages_sent (ro_output r') = messages_sent (ro_output r) @ concat (map snd rs)
    \<and> (\<forall>t. upd_count (rp_consumed p') t = upd_count (rp_consumed p) t + times_count t (records (concat (map snd rs))))
    \<and> (\<forall>t. upd_count (rp_produced p') t = upd_count (rp_produced p) t + times_count t (records (concat (map snd rs))))
    \<and> (\<forall>t. upd_count (rp_internal p') t = upd_count (rp_internal p) t - of_bool (\<not> ro_started r \<and> rs \<noteq> [] \<and> t = minimum))"
  using assms(1,3)
proof (induction rs arbitrary: f r h p)
  case (Cons round rs)
  obtain us ms where round: "round = (us, ms)" by (cases round)
  obtain f1 r1 h1 b c d where a: "probe_schedule le minimum (Some f) (ro_arrive us ms r) h = Some (Some f1, r1, h1)" "ma_inv le f1"
      "\<forall>t. ma_count f1 t = ma_count f t + upd_count us t" "ro_started r1" "ro_idle r1 h1"
      "messages_sent (ro_output r1) = messages_sent (ro_output r) @ ms" "sp_frontiers (ro_progress r1) = [cb_new]"
    and c: "sp_consumeds (ro_progress r1) = [c]" "\<forall>t. cb_count c t = times_count t (records ms)"
    and d: "sp_produceds (ro_progress r1) = [d]" "\<forall>t. cb_count d t = times_count t (records ms)"
    and b: "sp_internals (ro_progress r1) = [b]" "\<forall>t. cb_count b t = - of_bool (\<not> ro_started r \<and> t = minimum)"
    using probe_schedule_ok [OF Cons(2) assms(2) Cons(3), of minimum us ms] by blast
  obtain r2 p2 where r2: "ro_collect r1 p = (r2, p2)" by (cases "ro_collect r1 p")
  note x = collect_consumed [OF c(1), of p, unfolded r2, simplified] collect_internal [OF b(1), of p, unfolded r2, simplified]
    collect_produced [OF d(1), of p, unfolded r2, simplified] collect_simps [of r1 p, unfolded r2, simplified]
  have "probe_ok r2 h1" using a(5,7) x by (simp add: probe_ok_def ro_idle_def)
  from Cons(1) [OF this a(2), of p2] obtain f' r' h' p' where
    y: "probe_rounds le minimum rs (Some f1) r2 h1 p2 = Some (Some f', r', h', p')" "ma_inv le f'"
      "\<forall>t. ma_count f' t = ma_count f1 t + upd_count (concat (map fst rs)) t"
      "messages_sent (ro_output r') = messages_sent (ro_output r2) @ concat (map snd rs)"
      "\<forall>t. upd_count (rp_consumed p') t = upd_count (rp_consumed p2) t + times_count t (records (concat (map snd rs)))"
      "\<forall>t. upd_count (rp_produced p') t = upd_count (rp_produced p2) t + times_count t (records (concat (map snd rs)))"
      "\<forall>t. upd_count (rp_internal p') t = upd_count (rp_internal p2) t"
    using x a(4) by auto
  show ?case using a b c d x y
    by (intro exI [of _ f'] exI [of _ r'] exI [of _ h'] exI [of _ p']) (simp add: round r2)
qed simp

section \<open>Scope boundaries\<close>

lemma messages_sent_Cons [simp]: "messages_sent (None # p) = messages_sent p" "messages_sent (Some m # p) = m # messages_sent p"
  by (simp_all add: messages_sent_def)

text \<open>How many flushes end a run of messages, after messages that are still to be flushed or not.\<close>

definition runs_flushed :: "bool \<Rightarrow> 'm option list \<Rightarrow> nat" where
  "runs_flushed active es =
     (let messages = map (\<lambda>e. e \<noteq> None) es in length (filter (\<lambda>(before, now). before \<and> \<not> now) (zip (active # messages) messages)))"

lemma runs_flushed_simps [simp]:
  "runs_flushed active [] = 0" "runs_flushed active (None # es) = of_bool active + runs_flushed False es"
  "runs_flushed active (Some m # es) = runs_flushed True es"
  by (simp_all add: runs_flushed_def Let_def)

lemma ingress_push_all:
  assumes "fold (ingress_push to_inner) es (nub, h, av) = (nub', h', av')" and "\<forall>a. cb_inv (h a)" and "av_inv av"
  shows "fst (ig_targets nub') = fst (ig_targets nub) \<and> ig_activator nub' = ig_activator nub \<and> (\<forall>a. cb_inv (h' a))
    \<and> messages_sent (snd (ig_targets nub')) = messages_sent (snd (ig_targets nub)) @ map (\<lambda>(t, d). (to_inner t, d)) (messages_sent es)
    \<and> (\<forall>t. cb_count (h' (fst (ig_targets nub))) t = cb_count (h (fst (ig_targets nub))) t
          + times_count t (records (map (\<lambda>(t, d). (to_inner t, d)) (messages_sent es))))
    \<and> av_pending av' = av_pending av @ replicate (runs_flushed (ig_active nub) es) (ig_activator nub)
    \<and> (ig_active nub' \<longleftrightarrow> (if es = [] then ig_active nub else last es \<noteq> None))
    \<and> (ig_active nub \<or> messages_sent es \<noteq> [] \<longrightarrow> ig_active nub' \<or> ig_activator nub \<in> set (av_pending av'))"
  using assms
proof (induction es arbitrary: nub h av)
  case (Cons e es)
  obtain nub1 h1 av1 where e: "ingress_push to_inner e (nub, h, av) = (nub1, h1, av1)" by (metis prod_cases3)
  have r: "fold (ingress_push to_inner) es (nub1, h1, av1) = (nub', h', av')" using Cons(2) e by simp
  show ?case
  proof (cases e)
    case None
    obtain b c where b: "cb_is_empty (h (fst (ig_targets nub))) = (b, c)" by (cases "cb_is_empty (h (fst (ig_targets nub)))")
    have c: "cb_inv c" "\<forall>t. cb_count c t = cb_count (h (fst (ig_targets nub))) t" using is_empty_snd [OF _ b] Cons(3) by auto
    have 1: "h1 = h(fst (ig_targets nub) := c)" "fst (ig_targets nub1) = fst (ig_targets nub)" "ig_activator nub1 = ig_activator nub" "\<not> ig_active nub1"
        "messages_sent (snd (ig_targets nub1)) = messages_sent (snd (ig_targets nub))"
        "av1 = (if ig_active nub then av_activate (ig_activator nub) av else av)"
      using e by (auto simp: None ingress_push_def counter_push_def b Let_def split: if_splits)
    have "\<forall>a. cb_inv (h1 a)" using Cons(3) c by (simp add: 1)
    moreover have "av_inv av1" using Cons(4) by (simp add: 1(6) av_inv_activate)
    moreover have "av_pending av1 = av_pending av @ replicate (of_bool (ig_active nub)) (ig_activator nub)"
      using Cons(4) av_inv_activate(3) [of av "ig_activator nub"] by (auto simp: 1(6))
    ultimately show ?thesis using Cons(1) [OF r] 1(1-5) c by (auto simp: None replicate_add)
  next
    case (Some m)
    have 1: "h1 = buf_update (fst (ig_targets nub)) (to_inner (fst m)) (int (length (snd m))) h" "av1 = av" "ig_active nub1"
        "ig_activator nub1 = ig_activator nub" "ig_targets nub1 = (fst (ig_targets nub), snd (ig_targets nub) @ [Some (to_inner (fst m), snd m)])"
      using e by (auto simp: Some ingress_push_def counter_push_def split: prod.splits)
    have "\<forall>a. cb_inv (h1 a)" using Cons(3) by (simp add: 1 buf_update_def)
    from Cons(1) [OF r this] show ?thesis using 1 Cons(4) by (auto simp: Some split_def)
  qed
qed simp

lemma egress_push_all:
  "fold (egress_push to_outer) es targets = map (\<lambda>p. p @ map (map_option (\<lambda>(t, d). (to_outer t, d))) es) targets"
  by (induction es arbitrary: targets) (auto simp: egress_push_def tee_push_all split: option.splits)

lemma messages_sent_map: "messages_sent (map (map_option f) es) = map f (messages_sent es)"
  by (induction es) (auto simp: messages_sent_def split: option.splits)

section \<open>Properties\<close>

text \<open>
  C19: Captured streams can be replayed.  When the events that \<open>n\<close> captures push, over any schedules, are given to one replay
  in any passes, the replay returns, sends exactly the captured messages, those of each capture in their order,
  counts as produced the records in them, and holds, with the capability at the minimum it is created with, exactly the
  capabilities that make up the frontiers the captures were shown.
\<close>

theorem capture_replay_roundtrip:
  fixes rounds :: "nat \<Rightarrow> ('t::linorder, 'd) round list"
  assumes "\<forall>delay. period = Some delay \<longrightarrow> duration_checked_add elapsed delay \<noteq> None"
    and len: "\<forall>streams \<in> set passes. length streams = n" and "passes \<noteq> []" and "\<forall>i<n. rounds i \<noteq> []"
    and cap: "\<forall>i<n. map_option fst (capture_rounds minimum (rounds i) [] (ro_new 1 0 0 1) (\<lambda>_. cb_new) rp_none)
        = Some (concat (map (\<lambda>streams. streams ! i) passes))"
  shows "\<exists>r h av' p. replay_rounds minimum period elapsed address passes (ro_new 0 1 0 1) (\<lambda>_. cb_new) av rp_none = Some (r, h, av', p)
    \<and> mset (messages_sent (ro_output r)) = (\<Sum>i<n. mset (concat (map snd (rounds i))))
    \<and> (\<forall>i<n. subseq (concat (map snd (rounds i))) (messages_sent (ro_output r)))
    \<and> (\<forall>t. upd_count (rp_produced p) t = (\<Sum>i<n. times_count t (records (concat (map snd (rounds i))))))
    \<and> (\<forall>t. of_bool (t = minimum) + upd_count (rp_internal p) t = (\<Sum>i<n. upd_count (concat (map fst (rounds i))) t))"
proof -
  define es where "es i = concat (map (\<lambda>streams. streams ! i) passes)" for i
  have c0: "capture_ok (ro_new 1 0 0 1 :: ('t, 'd) raw_operator) (\<lambda>_. cb_new)"
    by (simp add: capture_ok_def ro_idle_def ro_new_def sp_new_def cb_count_new)
  have e: "messages_of (es i) = concat (map snd (rounds i))"
      "upd_count (changes_of (es i)) t = upd_count (concat (map fst (rounds i))) t - of_bool (t = minimum)" if "i < n" for i t
    using capture_rounds_ok [OF c0, of minimum "rounds i" "[]" rp_none] that cap assms(4) by (auto simp: ro_new_def es_def)
  have r0: "replay_ok (ro_new 0 1 0 1 :: ('t, 'd) raw_operator) (\<lambda>_. cb_new)"
    by (simp add: replay_ok_def ro_new_def sp_new_def)
  obtain r h av' p where r: "replay_rounds minimum period elapsed address passes (ro_new 0 1 0 1) (\<lambda>_. cb_new) av rp_none = Some (r, h, av', p)"
      "messages_sent (ro_output r) = messages_of (concat (concat passes))"
      "\<forall>t. upd_count (rp_internal p) t = (if t = minimum then int n - 1 else 0) + upd_count (changes_of (concat (concat passes))) t"
      "\<forall>t. upd_count (rp_produced p) t = times_count t (records (messages_of (concat (concat passes))))"
    using replay_rounds_ok [OF r0 assms(1) len, of minimum address av rp_none] assms(3) by (auto simp: ro_new_def rp_none_def)
  have "mset (messages_of (concat (concat passes))) = (\<Sum>i<n. mset (messages_of (es i)))"
    unfolding es_def by (rule concat_streams_sum [OF _ _ len]) simp_all
  moreover have "times_count t (records (messages_of (concat (concat passes)))) = (\<Sum>i<n. times_count t (records (messages_of (es i))))" for t
    unfolding es_def by (rule concat_streams_sum [OF _ _ len]) simp_all
  moreover have "upd_count (changes_of (concat (concat passes))) t = (\<Sum>i<n. upd_count (changes_of (es i)) t)" for t
    unfolding es_def by (rule concat_streams_sum [OF _ _ len]) simp_all
  moreover have "subseq (messages_of (es i)) (messages_of (concat (concat passes)))" if "i < n" for i
    unfolding es_def by (rule messages_of_subseq [OF stream_subseq [OF len that]])
  ultimately show ?thesis using r e by (auto simp: sum_subtractf)
qed

definition example_rounds :: "nat \<Rightarrow> (nat, char) round list" where
  "example_rounds i = (if i = 0 then [([(0, 1)], []), ([], [(0, ''ab'')]), ([(0, - 1), (1, 1)], [])] else [([(0, 1)], []), ([(0, - 1)], [])])"

definition example_passes :: "(nat, char) event list list list" where
  "example_passes = [[[Messages 0 ''ab''], []], [[Progress [(0, - 1), (1, 1)]], [Progress [(0, - 1)]]]]"

theorem capture_replay_roundtrip_witness:
  "\<exists>r h av p. replay_rounds 0 None (from_nanos 0) [] example_passes (ro_new 0 1 0 1) (\<lambda>_. cb_new) (av_new True) rp_none = Some (r, h, av, p)
    \<and> mset (messages_sent (ro_output r)) = {#(0, ''ab'')#} \<and> upd_count (rp_internal p) 1 = 1"
proof -
  have "map_option fst (capture_rounds 0 (example_rounds i) [] (ro_new 1 0 0 1) (\<lambda>_. cb_new) rp_none)
      = Some (concat (map (\<lambda>streams. streams ! i) example_passes))" if "i < 2" for i
  proof -
    have "map_option fst (capture_rounds 0 (example_rounds 0) [] (ro_new 1 0 0 1) (\<lambda>_. cb_new) rp_none)
        = Some [Messages 0 ''ab'', Progress [(0, - 1), (1, 1)]]"
      "map_option fst (capture_rounds 0 (example_rounds 1) [] (ro_new 1 0 0 1) (\<lambda>_. cb_new) rp_none) = Some [Progress [(0, - 1)]]" by code_simp+
    then show ?thesis using that by (auto simp: less_2_cases_iff example_passes_def)
  qed
  moreover have "\<forall>streams \<in> set example_passes. length streams = 2" "example_passes \<noteq> []" by (simp_all add: example_passes_def)
  moreover have "\<forall>i<2. example_rounds i \<noteq> []" by (simp add: example_rounds_def)
  ultimately obtain r h av p where
      "replay_rounds 0 None (from_nanos 0) [] example_passes (ro_new 0 1 0 1) (\<lambda>_. cb_new) (av_new True) rp_none = Some (r, h, av, p)"
      "mset (messages_sent (ro_output r)) = (\<Sum>i<2. mset (concat (map snd (example_rounds i))))"
      "of_bool (1 = (0 :: nat)) + upd_count (rp_internal p) 1 = (\<Sum>i<2. upd_count (concat (map fst (example_rounds i))) 1)"
    using capture_replay_roundtrip [of None "from_nanos 0" example_passes 2 example_rounds 0 "[]" "av_new True"] by blast
  then show ?thesis by (intro exI [of _ r] exI [of _ h] exI [of _ av] exI [of _ p]) (simp add: example_rounds_def numeral_2_eq_2)
qed

text \<open>
  C20: A probe is exact and transparent.  After any schedules its handle answers from exactly the frontier changes the probe was
  told, every message went on in order, what was consumed is what was produced, and the initial capability is given up
  at the first schedule.
\<close>

theorem probe_exact:
  fixes minimum :: "'t::linorder" and rs :: "('t, 'd) round list"
  assumes "timestamp_order le"
  shows "\<exists>f r h p. probe_rounds le minimum rs (Some ma_new) (ro_new 1 1 0 1) (\<lambda>_. cb_new) rp_none = Some (Some f, r, h, p)
    \<and> (\<forall>t. probe_less_equal le f t \<longleftrightarrow> (\<exists>x. upd_count (concat (map fst rs)) x > 0 \<and> le x t))
    \<and> (\<forall>t. probe_less_than le f t \<longleftrightarrow> (\<exists>x. upd_count (concat (map fst rs)) x > 0 \<and> less_than le x t))
    \<and> (probe_done f \<longleftrightarrow> (\<forall>x. upd_count (concat (map fst rs)) x \<le> 0))
    \<and> messages_sent (ro_output r) = concat (map snd rs)
    \<and> (\<forall>t. upd_count (rp_consumed p) t = times_count t (records (concat (map snd rs))) \<and> upd_count (rp_produced p) t = upd_count (rp_consumed p) t)
    \<and> (\<forall>t. upd_count (rp_internal p) t = - of_bool (rs \<noteq> [] \<and> t = minimum))"
proof -
  have i: "probe_ok (ro_new 1 1 0 1 :: ('t, 'd) raw_operator) (\<lambda>_. cb_new)"
    by (simp add: probe_ok_def ro_idle_def ro_new_def sp_new_def)
  obtain f and r :: "('t, 'd) raw_operator" and h p where x:
      "probe_rounds le minimum rs (Some ma_new) (ro_new 1 1 0 1) (\<lambda>_. cb_new) rp_none = Some (Some f, r, h, p)"
      "ma_inv le f" "\<forall>t. ma_count f t = upd_count (concat (map fst rs)) t" "messages_sent (ro_output r) = concat (map snd rs)"
      "\<forall>t. upd_count (rp_consumed p) t = times_count t (records (concat (map snd rs)))"
      "\<forall>t. upd_count (rp_produced p) t = times_count t (records (concat (map snd rs)))"
      "\<forall>t. upd_count (rp_internal p) t = - of_bool (rs \<noteq> [] \<and> t = minimum)"
    using probe_rounds_ok [OF i assms timestamp_order.ma_inv_new [OF assms], of minimum rs rp_none]
    by (auto simp: ro_new_def rp_none_def ma_count_def ma_new_def)
  then show ?thesis
    using timestamp_order.ma_inv_less_equal [OF assms x(2)] timestamp_order.ma_inv_less_than [OF assms x(2)]
      timestamp_order.ma_inv_is_empty [OF assms x(2)]
    by (intro exI [of _ f] exI [of _ r] exI [of _ h] exI [of _ p])
      (simp add: probe_less_equal_def probe_less_than_def probe_done_def not_less)
qed

theorem probe_exact_witness:
  "\<exists>f r h p. probe_rounds (\<le>) (0 :: 8 word) [([(0, 1)], [(0, ''ab'')]), ([(0, - 1), (3, 1)], [])] (Some ma_new) (ro_new 1 1 0 1) (\<lambda>_. cb_new) rp_none
      = Some (Some f, r, h, p) \<and> \<not> probe_less_than (\<le>) f 3 \<and> messages_sent (ro_output r) = [(0, ''ab'')]"
proof -
  have "\<not> (\<exists>x. upd_count (concat (map fst [([(0 :: 8 word, 1)], [(0, ''ab'')]), ([(0, - 1), (3, 1)], [])])) x > 0 \<and> less_than (\<le>) x 3)"
    by (auto simp: less_than_def split: if_splits)
  then show ?thesis
    using probe_exact [OF unsigned.timestamp_order_axioms, of "0 :: 8 word" "[([(0, 1)], [(0, ''ab'')]), ([(0, - 1), (3, 1)], [])]"]
    by auto
qed

text \<open>
  C21: Entering and leaving a nested scope changes nothing but the time.  Whatever messages and flushes are pushed at the
  boundary, the scope is given every message and told of every record at the inner time; it is activated exactly once for
  every flush that ends a run of messages, so once the last message is flushed the scope has been woken; and if every
  time is the outer time of its inner time, all that leaves is what entered, in order.
\<close>

theorem enter_leave_roundtrip:
  assumes "fold (ingress_push to_inner) es (\<lparr>ig_targets = (a, []), ig_activator = address, ig_active = False\<rparr>, \<lambda>_. cb_new, av) = (nub, h, av')"
    and "av_inv av" and "\<And>t. to_outer (to_inner t) = t"
  shows "(\<forall>t. cb_count (h a) t = times_count t (records (map (\<lambda>(t, d). (to_inner t, d)) (messages_sent es))))
    \<and> messages_sent (snd (ig_targets nub)) = map (\<lambda>(t, d). (to_inner t, d)) (messages_sent es)
    \<and> av_pending av' = av_pending av @ replicate (runs_flushed False es) address
    \<and> (messages_sent es \<noteq> [] \<and> last es = None \<longrightarrow> address \<in> set (av_pending av'))
    \<and> (\<forall>p \<in> set (fold (egress_push to_outer) (snd (ig_targets nub)) (replicate k [])). messages_sent p = messages_sent es)"
  using ingress_push_all [OF assms(1) _ assms(2)] assms(3)
  by (auto simp: egress_push_all messages_sent_map comp_def split_def split: if_splits)

theorem enter_leave_roundtrip_witness:
  "\<exists>nub h av'. fold (ingress_push (product_to_inner (0 :: nat))) [Some (4 :: nat, ''ab''), None, None, Some (5, ''c''), Some (4, ''d''), None]
       (\<lparr>ig_targets = (0, []), ig_activator = [1], ig_active = False\<rparr>, \<lambda>_. cb_new, av_new True) = (nub, h, av')
     \<and> av_pending av' = [[1], [1]] \<and> cb_count (h 0) (Product 4 0) = 3
     \<and> map messages_sent (fold (egress_push product_to_outer) (snd (ig_targets nub)) (replicate 2 []))
         = replicate 2 [(4, ''ab''), (5, ''c''), (4, ''d'')]"
proof -
  let ?es = "[Some (4 :: nat, ''ab''), None, None, Some (5, ''c''), Some (4, ''d''), None]"
  obtain nub h av' where f: "fold (ingress_push (product_to_inner (0 :: nat))) ?es
      (\<lparr>ig_targets = (0, []), ig_activator = [1], ig_active = False\<rparr>, \<lambda>_. cb_new, av_new True) = (nub, h, av')" by (metis prod_cases3)
  let ?ps = "fold (egress_push product_to_outer) (snd (ig_targets nub)) (replicate 2 [])"
  have "product_to_outer (product_to_inner (0 :: nat) t) = t" for t :: nat by (simp add: product_to_outer_def product_to_inner_def)
  note r = enter_leave_roundtrip [OF f av_inv_new this, of 2]
  have "av_pending (av_new True) = []" by (simp add: av_new_def av_pending_def av_paths_def)
  with r have "av_pending av' = [[1], [1]]" "cb_count (h 0) (Product 4 0) = 3"
    by (simp_all add: product_to_inner_def records_def delivered_def times_count_def)
  moreover have "map messages_sent ?ps = map (\<lambda>_. [(4, ''ab''), (5, ''c''), (4, ''d'')]) ?ps" using r by (intro map_cong) auto
  then have "map messages_sent ?ps = replicate 2 [(4, ''ab''), (5, ''c''), (4, ''d'')]"
    by (simp add: map_replicate_const egress_push_all numeral_2_eq_2)
  ultimately show ?thesis using f by blast
qed

end
