(* ===== verification/Sequencer.thy ===== *)
theory Sequencer
  imports Frontier "HOL-Library.Sublist"
begin

text \<open>
  A log shared by all workers (\<open>timely/src/synchronization/sequence.rs\<close>).

  Each worker has a queue of proposals, a source operator that stamps them with the elapsed time and its own
  counter and sends a copy to every worker, and a sink operator that sorts what arrived and releases what the
  frontier has passed.  The channels between sources and sinks are lists; the frontier a sink is shown is any
  that the progress protocol may show it, that is, one that no capability and no message on its way to the
  sink is behind.
\<close>

section \<open>The operators of one worker\<close>

type_synonym ('t, 'd) command = "('t \<times> nat \<times> nat) \<times> 'd"

record ('t, 'd) sq_worker =
  sq_live :: bool
  sq_send :: "'d list"
  sq_recv :: "'d list"
  sq_catchup_until :: "'t option"
  sq_active :: bool
  sq_capability :: "'t option"
  sq_counter :: nat
  sq_recvd :: "('t, 'd) command list"

definition sq_preloaded :: "'t \<Rightarrow> 'd list \<Rightarrow> ('t, 'd) sq_worker" where
  "sq_preloaded minimum preload =
     \<lparr>sq_live = True, sq_send = [], sq_recv = preload, sq_catchup_until = None, sq_active = False,
      sq_capability = Some minimum, sq_counter = 0, sq_recvd = []\<rparr>"

definition sq_push :: "'d \<Rightarrow> ('t, 'd) sq_worker \<Rightarrow> ('t, 'd) sq_worker" where
  "sq_push element w = w\<lparr>sq_send := sq_send w @ [element], sq_active := True\<rparr>"

definition sq_next :: "('t, 'd) sq_worker \<Rightarrow> 'd option \<times> ('t, 'd) sq_worker" where
  "sq_next w = (case sq_recv w of [] \<Rightarrow> (None, w) | x # xs \<Rightarrow> (Some x, w\<lparr>sq_recv := xs\<rparr>))"

definition sq_drop :: "('t, 'd) sq_worker \<Rightarrow> ('t, 'd) sq_worker" where
  "sq_drop w = w\<lparr>sq_live := False, sq_active := True\<rparr>"

text \<open>
  The closure of \<open>SequenceInput\<close>: what it sends, as triples of the target worker, the counter and the element, at the
  time of its capability.  \<open>None\<close>: the capability is gone, or cannot be downgraded to an earlier time.
\<close>

definition sq_commands :: "nat \<Rightarrow> nat \<Rightarrow> 'd list \<Rightarrow> (nat \<times> nat \<times> 'd) list" where
  "sq_commands peers counter elements =
     concat (map (\<lambda>(k, element). map (\<lambda>worker_index. (worker_index, k, element)) [0..<peers]) (enumerate counter elements))"

definition sq_source ::
  "nat \<Rightarrow> 't::linorder \<Rightarrow> ('t, 'd) sq_worker \<Rightarrow> ((nat \<times> nat \<times> 'd) list \<times> ('t, 'd) sq_worker) option" where
  "sq_source peers elapsed w =
     (if sq_live w
      then do { capability \<leftarrow> sq_capability w;
                if \<not> capability \<le> elapsed then None
                else (let msgs = sq_commands peers (sq_counter w) (sq_send w);
                          w = w\<lparr>sq_capability := Some elapsed, sq_counter := sq_counter w + length (sq_send w), sq_send := []\<rparr>
                      in case sq_catchup_until w of
                           None \<Rightarrow> Some (msgs, w)
                         | Some t \<Rightarrow> Some (msgs, if elapsed < t then w\<lparr>sq_active := True\<rparr> else w\<lparr>sq_catchup_until := None\<rparr>)) }
      else Some ([], w\<lparr>sq_capability := None\<rparr>))"

text \<open>
  The closure of \<open>SequenceOutput\<close>, on the messages that arrived, with their times, in the order \<open>for_each_time\<close> has
  them: stably sorted by time.
\<close>

definition sq_sink ::
  "'t::linorder list \<Rightarrow> ('t \<times> nat \<times> nat \<times> 'd) list \<Rightarrow> ('t, 'd) sq_worker \<Rightarrow> ('t, 'd) command list \<times> ('t, 'd) sq_worker" where
  "sq_sink frontier data w =
     (let recvd = sq_recvd w @ map (\<lambda>(time, worker, counter, element). ((time, worker, counter), element)) (sort_key fst data);
          recvd = sort_key fst recvd;
          w = (if recvd \<noteq> [] then w\<lparr>sq_catchup_until := Some (fst (fst (last recvd))), sq_active := True\<rparr> else w);
          count = length (filter (\<lambda>((time, _, _), _). \<not> aref_less_equal (\<le>) frontier time) recvd);
          iter = take count recvd;
          w = w\<lparr>sq_recvd := drop count recvd\<rparr>
      in (iter, if sq_live w then w\<lparr>sq_recv := sq_recv w @ map snd iter\<rparr> else w))"

section \<open>All workers\<close>

text \<open>
  \<open>sn_channel s w\<close> are the messages from the source of worker \<open>s\<close> to the sink of \<open>w\<close>, \<open>sn_inbox w\<close> those that
  arrived and wait to be read.  \<open>sn_log\<close> records what the sources sent, \<open>sn_out w\<close> what the sink of \<open>w\<close> released,
  and \<open>sn_seen w\<close> what \<open>next\<close> returned at worker \<open>w\<close>.
\<close>

record ('t, 'd) sq_net =
  sn_worker :: "nat \<Rightarrow> ('t, 'd) sq_worker"
  sn_channel :: "nat \<Rightarrow> nat \<Rightarrow> ('t \<times> nat \<times> nat \<times> 'd) list"
  sn_inbox :: "nat \<Rightarrow> ('t \<times> nat \<times> nat \<times> 'd) list"
  sn_log :: "('t \<times> nat \<times> 'd) list"
  sn_out :: "nat \<Rightarrow> ('t, 'd) command list"
  sn_seen :: "nat \<Rightarrow> 'd list"

datatype ('t, 'd) sq_event = Push nat 'd | Next nat | Drop nat | Source nat 't | Deliver nat nat | Sink nat "'t list"

definition sn_new :: "'t \<Rightarrow> ('t, 'd) sq_net" where
  "sn_new minimum =
     \<lparr>sn_worker = \<lambda>_. sq_preloaded minimum [], sn_channel = \<lambda>_ _. [], sn_inbox = \<lambda>_. [], sn_log = [], sn_out = \<lambda>_. [],
      sn_seen = \<lambda>_. []\<rparr>"

text \<open>The contract of the progress protocol for the frontier at the sink of worker \<open>w\<close>.\<close>

definition frontier_sound :: "nat \<Rightarrow> nat \<Rightarrow> 't::linorder list \<Rightarrow> ('t, 'd) sq_net \<Rightarrow> bool" where
  "frontier_sound peers w frontier n \<longleftrightarrow>
     list_all (\<lambda>s. (case sq_capability (sn_worker n s) of None \<Rightarrow> True | Some c \<Rightarrow> aref_less_equal (\<le>) frontier c)
       \<and> list_all (\<lambda>m. aref_less_equal (\<le>) frontier (fst m)) (sn_channel n s w)) [0..<peers]"

definition sn_set :: "nat \<Rightarrow> ('t, 'd) sq_worker \<Rightarrow> ('t, 'd) sq_net \<Rightarrow> ('t, 'd) sq_net" where
  "sn_set i w n = n\<lparr>sn_worker := (sn_worker n)(i := w)\<rparr>"

fun sn_step :: "nat \<Rightarrow> ('t::linorder, 'd) sq_event \<Rightarrow> ('t, 'd) sq_net \<Rightarrow> ('t, 'd) sq_net option" where
  "sn_step peers (Push i x) n =
     (if i < peers \<and> sq_live (sn_worker n i) then Some (sn_set i (sq_push x (sn_worker n i)) n) else None)"
| "sn_step peers (Next i) n =
     (if i < peers \<and> sq_live (sn_worker n i)
      then (let (x, w) = sq_next (sn_worker n i)
            in Some ((sn_set i w n)\<lparr>sn_seen := (sn_seen n)(i := sn_seen n i @ (case x of None \<Rightarrow> [] | Some y \<Rightarrow> [y]))\<rparr>))
      else None)"
| "sn_step peers (Drop i) n =
     (if i < peers \<and> sq_live (sn_worker n i) then Some (sn_set i (sq_drop (sn_worker n i)) n) else None)"
| "sn_step peers (Source i elapsed) n =
     (if i < peers
      then do { (msgs, w) \<leftarrow> sq_source peers elapsed ((sn_worker n i)\<lparr>sq_active := False\<rparr>);
                Some ((sn_set i w n)\<lparr>sn_channel := (sn_channel n)(i := \<lambda>t. sn_channel n i t @ map (Pair elapsed) (filter (\<lambda>m. fst m = t) msgs)),
                        sn_log := sn_log n @ map (\<lambda>(_, m). (elapsed, m)) (filter (\<lambda>m. fst m = 0) msgs)\<rparr>) }
      else None)"
| "sn_step peers (Deliver s t) n =
     (case sn_channel n s t of
        [] \<Rightarrow> None
      | m # ms \<Rightarrow> if s < peers \<and> t < peers
          then Some (n\<lparr>sn_channel := (sn_channel n)(s := (sn_channel n s)(t := ms)), sn_inbox := (sn_inbox n)(t := sn_inbox n t @ [m])\<rparr>) else None)"
| "sn_step peers (Sink i frontier) n =
     (if i < peers \<and> frontier_sound peers i frontier n
      then (let (iter, w) = sq_sink frontier (sn_inbox n i) (sn_worker n i)
            in Some ((sn_set i w n)\<lparr>sn_inbox := (sn_inbox n)(i := []), sn_out := (sn_out n)(i := sn_out n i @ iter)\<rparr>))
      else None)"

fun sn_run :: "nat \<Rightarrow> ('t::linorder, 'd) sq_event list \<Rightarrow> ('t, 'd) sq_net \<Rightarrow> ('t, 'd) sq_net option" where
  "sn_run peers [] n = Some n"
| "sn_run peers (e # es) n = do { n \<leftarrow> sn_step peers e n; sn_run peers es n }"


section \<open>What is released, and in which order\<close>

definition command_of :: "'t \<times> nat \<times> nat \<times> 'd \<Rightarrow> ('t, 'd) command" where
  "command_of m = (case m of (time, worker, counter, element) \<Rightarrow> ((time, worker, counter), element))"

definition logged :: "('t, 'd) command \<Rightarrow> 't \<times> nat \<times> 'd" where
  "logged c = (case c of ((time, _, counter), element) \<Rightarrow> (time, counter, element))"

definition sent_key :: "'t \<times> nat \<times> 'd \<Rightarrow> 't \<times> nat" where
  "sent_key m = (fst m, fst (snd m))"

definition sequenced :: "('t::linorder, 'd) sq_net \<Rightarrow> 'd list" where
  "sequenced n = map (\<lambda>(_, _, element). element) (sort_key sent_key (sn_log n))"

text \<open>The copies meant for worker \<open>w\<close> that are not yet released: on a channel, or in one of the two queues at the sink.\<close>

definition in_flight :: "nat \<Rightarrow> nat \<Rightarrow> ('t, 'd) sq_net \<Rightarrow> ('t, 'd) command multiset" where
  "in_flight peers w n = image_mset command_of (\<Sum>s<peers. mset (sn_channel n s w))"

definition pending :: "nat \<Rightarrow> nat \<Rightarrow> ('t, 'd) sq_net \<Rightarrow> ('t, 'd) command multiset" where
  "pending peers w n = mset (sq_recvd (sn_worker n w)) + image_mset command_of (mset (sn_inbox n w)) + in_flight peers w n"

definition sn_caps :: "nat \<Rightarrow> ('t, 'd) sq_net \<Rightarrow> 't set" where
  "sn_caps peers n = {c. \<exists>s<peers. sq_capability (sn_worker n s) = Some c}"

abbreviation command_time :: "('t, 'd) command \<Rightarrow> 't" where
  "command_time c \<equiv> fst (fst c)"

definition released_ok :: "nat \<Rightarrow> ('t::linorder \<times> nat \<times> 'd) list \<Rightarrow> 't set \<Rightarrow> ('t, 'd) command multiset \<Rightarrow> ('t, 'd) command list \<Rightarrow> bool" where
  "released_ok w log caps pend out \<longleftrightarrow>
     image_mset logged (mset out + pend) = mset log
   \<and> (\<forall>c \<in># mset out + pend. fst (snd (fst c)) = w)
   \<and> sorted (map fst out)
   \<and> (\<forall>c \<in> set out. (\<forall>d \<in># pend. command_time c < command_time d) \<and> (\<forall>t \<in> caps. command_time c < t))"

definition sn_inv :: "nat \<Rightarrow> nat \<Rightarrow> ('t::linorder, 'd) sq_net \<Rightarrow> bool" where
  "sn_inv peers w n \<longleftrightarrow>
     released_ok w (sn_log n) (sn_caps peers n) (pending peers w n) (sn_out n w)
   \<and> prefix (sn_seen n w @ sq_recv (sn_worker n w)) (map snd (sn_out n w))
   \<and> (sq_live (sn_worker n w) \<longrightarrow> sn_seen n w @ sq_recv (sn_worker n w) = map snd (sn_out n w))"

lemma released_ok_antimono:
  "released_ok w log caps pend out \<Longrightarrow> caps' \<subseteq> caps \<Longrightarrow> released_ok w log caps' pend out"
  unfolding released_ok_def by blast

lemma released_ok_sent:
  assumes "released_ok w log caps pend out" and "image_mset logged new = mset log'"
    and "\<forall>c \<in># new. fst (snd (fst c)) = w" and "\<forall>c \<in># new. \<exists>t \<in> caps. t \<le> command_time c"
    and "\<forall>t \<in> caps'. \<exists>t' \<in> caps. t' \<le> t"
  shows "released_ok w (log @ log') caps' (pend + new) out"
proof -
  have "command_time c < t" if "c \<in> set out" "\<exists>t' \<in> caps. t' \<le> t" for c t
    using assms(1) that unfolding released_ok_def by (meson order_less_le_trans)
  then have "\<forall>c \<in> set out. (\<forall>d \<in># pend + new. command_time c < command_time d) \<and> (\<forall>t \<in> caps'. command_time c < t)"
    using assms(1,4,5) by (fastforce simp: released_ok_def)
  with assms(1-3) show ?thesis unfolding released_ok_def by (simp add: ball_Un union_assoc [symmetric])
qed

text \<open>The sink releases a sorted prefix of what it holds, all that is before the frontier and nothing else.\<close>

lemma released_ok_sink:
  assumes "released_ok w log caps (mset recvd + flight) out" and "sorted (map fst recvd)"
    and "\<forall>t \<in> caps. aref_less_equal (\<le>) frontier t" and "\<forall>c \<in># flight. aref_less_equal (\<le>) frontier (command_time c)"
    and "k = length (filter (\<lambda>c. \<not> aref_less_equal (\<le>) frontier (command_time c)) recvd)"
  shows "released_ok w log caps (mset (drop k recvd) + flight) (out @ take k recvd)"
proof -
  let ?P = "\<lambda>c. \<not> aref_less_equal (\<le>) frontier (command_time c)"
  have mono: "aref_less_equal (\<le>) frontier t'" if "aref_less_equal (\<le>) frontier t" "t \<le> t'" for t t'
    using that by (auto simp: aref_less_equal_def list_ex_iff intro: order_trans)
  have split: "takeWhile ?P xs = filter ?P xs" if "sorted (map fst xs)" for xs :: "(('a, 'b) command) list"
    using that
  proof (induction xs)
    case (Cons x xs)
    have "aref_less_equal (\<le>) frontier (command_time y)" if "\<not> ?P x" "y \<in> set xs" for y
      using Cons(2) that mono [of "command_time x" "command_time y"] by (force simp: less_eq_prod_def)
    then show ?case using Cons by (auto simp: filter_empty_conv)
  qed simp
  have tk: "take k recvd = filter ?P recvd"
    using split [OF assms(2)] assms(5) by (metis takeWhile_eq_take)
  have "filter ?P recvd @ filter ?P (drop k recvd) = filter ?P (take k recvd @ drop k recvd)" unfolding filter_append by (simp add: tk)
  then have late: "aref_less_equal (\<le>) frontier (command_time c)" if "c \<in> set (drop k recvd)" for c
    using that by (auto simp: filter_empty_conv)
  have before: "command_time c < t" if "c \<in> set (take k recvd)" "aref_less_equal (\<le>) frontier t" for c t
    using that mono [of t "command_time c"] by (auto simp: tk not_le [symmetric])
  have ms: "mset recvd = mset (take k recvd) + mset (drop k recvd)" by (metis append_take_drop_id mset_append)
  have sr: "sorted (map fst (take k recvd))" using assms(2) by (simp add: take_map [symmetric] sorted_wrt_take)
  have "fst c \<le> fst d" if "c \<in> set out" "d \<in> set (take k recvd)" for c d
    using assms(1) that by (auto simp: released_ok_def less_eq_prod_def dest: in_set_takeD)
  then have so: "sorted (map fst (out @ take k recvd))"
    using assms(1) sr by (auto simp: released_ok_def sorted_append)
  have "command_time c < command_time d" if "c \<in> set (out @ take k recvd)" "d \<in># mset (drop k recvd) + flight" for c d
    using that assms(1,4) before [of c "command_time d"] late [of d] by (auto simp: released_ok_def dest: in_set_dropD)
  moreover have "command_time c < t" if "c \<in> set (out @ take k recvd)" "t \<in> caps" for c t
    using that assms(1,3) before [of c t] by (auto simp: released_ok_def)
  moreover have "mset (out @ take k recvd) + (mset (drop k recvd) + flight) = mset out + (mset recvd + flight)"
    unfolding ms by (simp add: ac_simps)
  ultimately show ?thesis using assms(1) so unfolding released_ok_def by metis
qed

text \<open>Distinct keys leave one order that a worker can see.\<close>

lemma logged_key: "fst (snd (fst c)) = w \<Longrightarrow> sent_key (logged c) = (command_time c, snd (snd (fst c)))"
  by (auto simp: sent_key_def logged_def split: prod.splits)

lemma released_prefix:
  assumes ok: "released_ok w log caps pend out" and d: "distinct (map sent_key log)"
  shows "\<exists>rest. sort_key sent_key log = map logged out @ rest \<and> mset rest = image_mset logged pend"
proof -
  obtain ps where ps: "mset ps = pend" using ex_mset by blast
  define rest where "rest = sort_key sent_key (map logged ps)"
  have keys: "sent_key (logged c) \<le> sent_key (logged e)" if "fst (snd (fst c)) = w" "fst (snd (fst e)) = w" "fst c \<le> fst e" for c e :: "('a, 'b) command"
    using that by (auto simp: logged_key less_eq_prod_def)
  have sorted: "sorted (map sent_key (map logged out @ rest))"
  proof -
    have "sorted (map sent_key (map logged out))"
      unfolding map_map sorted_map using ok
      by (auto simp: released_ok_def sorted_map intro: keys elim!: sorted_wrt_mono_rel [rotated])
    moreover have "sent_key (logged c) \<le> sent_key m" if "c \<in> set out" "m \<in> set rest" for c m
    proof -
      have m: "m \<in> set rest" by (rule that(2))
      obtain e where e: "e \<in> set ps" "m = logged e" using m by (auto simp: rest_def)
      then have "fst (snd (fst c)) = w" "fst (snd (fst e)) = w" "command_time c < command_time e"
        using that(1) ok by (simp_all add: ps [symmetric] released_ok_def)
      then show ?thesis using keys [of c e] e(2) by (simp add: less_eq_prod_def)
    qed
    ultimately show ?thesis by (auto simp: sorted_append rest_def)
  qed
  have ms: "mset (map logged out @ rest) = mset log" using ok by (simp add: rest_def released_ok_def ps)
  have dd: "distinct (map sent_key (map logged out @ rest))" using d ms by (metis mset_eq_imp_distinct_iff mset_map)
  have "sort_key sent_key log = map logged out @ rest"
  proof (rule map_sorted_distinct_set_unique [where f = sent_key])
    show "inj_on sent_key (set (sort_key sent_key log) \<union> set (map logged out @ rest))"
      using d mset_eq_setD [OF ms] by (simp add: distinct_map)
  qed (use d sorted dd mset_eq_setD [OF ms] in \<open>simp_all add: distinct_map\<close>)
  then show ?thesis using ps by (auto simp: rest_def)
qed

section \<open>The steps keep the order\<close>

lemma pending_cong:
  "sq_recvd (sn_worker n' w) = sq_recvd (sn_worker n w) \<Longrightarrow> sn_inbox n' w = sn_inbox n w \<Longrightarrow> sn_channel n' = sn_channel n
    \<Longrightarrow> pending peers w n' = pending peers w n"
  by (simp add: pending_def in_flight_def)

lemma sn_caps_cong:
  "(\<And>s. sq_capability (sn_worker n' s) = sq_capability (sn_worker n s)) \<Longrightarrow> sn_caps peers n' = sn_caps peers n"
  by (simp add: sn_caps_def)

lemma sum_channel:
  fixes f :: "nat \<Rightarrow> 'm multiset"
  assumes "i < peers" and "\<And>s. s \<noteq> i \<Longrightarrow> g s = f s" and "g i = f i + x"
  shows "(\<Sum>s<peers. g s) = (\<Sum>s<peers. f s) + x"
proof -
  have "sum g ({..<peers} - {i}) = sum f ({..<peers} - {i})" using assms(2) by (intro sum.cong) auto
  then show ?thesis using assms(1,3) sum.remove [of "{..<peers}" i g] sum.remove [of "{..<peers}" i f] by (simp add: ac_simps)
qed

lemma filter_commands:
  "w < peers \<Longrightarrow> filter (\<lambda>m. fst m = w) (sq_commands peers k elements) = map (Pair w) (enumerate k elements)"
proof (induction elements arbitrary: k)
  case (Cons x xs)
  have "filter (\<lambda>v. v = w) [0..<peers] = [w]"
    using Cons(2) by (induction peers) (auto simp: filter_empty_conv less_Suc_eq)
  then show ?case using Cons(1) [OF Cons(2), of "Suc k"] by (simp add: sq_commands_def filter_map comp_def)
qed (simp add: sq_commands_def)

lemma source_facts:
  assumes "sq_source peers elapsed w = Some (msgs, w')"
  shows "sq_recvd w' = sq_recvd w \<and> sq_recv w' = sq_recv w \<and> sq_live w' = sq_live w
    \<and> (\<exists>es. (\<forall>v < peers. filter (\<lambda>m. fst m = v) msgs = map (Pair v) es)
       \<and> (es = [] \<and> sq_capability w' = None \<or> sq_capability w' = Some elapsed \<and> (\<exists>c. sq_capability w = Some c \<and> c \<le> elapsed)))"
proof (cases "sq_live w")
  case True
  then have "msgs = sq_commands peers (sq_counter w) (sq_send w)" "sq_capability w' = Some elapsed"
      "\<exists>c. sq_capability w = Some c \<and> c \<le> elapsed" "sq_recvd w' = sq_recvd w \<and> sq_recv w' = sq_recv w \<and> sq_live w' = sq_live w"
    using assms by (auto simp: sq_source_def Let_def split: if_splits option.splits Option.bind_splits)
  then show ?thesis using filter_commands by blast
qed (use assms in \<open>auto simp: sq_source_def intro!: exI [of _ "[]"]\<close>)

lemma source_inv:
  assumes "sn_inv peers w n" and w: "w < peers" and i: "i < peers" and "sn_step peers (Source i elapsed) n = Some n'"
  shows "sn_inv peers w n'"
proof -
  obtain msgs w' where s: "sq_source peers elapsed ((sn_worker n i)\<lparr>sq_active := False\<rparr>) = Some (msgs, w')"
    and n': "n' = (sn_set i w' n)\<lparr>sn_channel := (sn_channel n)(i := \<lambda>t. sn_channel n i t @ map (Pair elapsed) (filter (\<lambda>m. fst m = t) msgs)),
        sn_log := sn_log n @ map (\<lambda>(_, m). (elapsed, m)) (filter (\<lambda>m. fst m = 0) msgs)\<rparr>"
    using assms(4) i by (auto split: Option.bind_splits)
  obtain es where es: "\<forall>v < peers. filter (\<lambda>m. fst m = v) msgs = map (Pair v) es"
      "es = [] \<and> sq_capability w' = None \<or> sq_capability w' = Some elapsed \<and> (\<exists>c. sq_capability (sn_worker n i) = Some c \<and> c \<le> elapsed)"
    and f: "sq_recvd w' = sq_recvd (sn_worker n i)" "sq_recv w' = sq_recv (sn_worker n i)" "sq_live w' = sq_live (sn_worker n i)"
    using source_facts [OF s] by auto
  define new where "new = mset (map (\<lambda>(k, x). ((elapsed, w, k), x)) es)"
  have "(\<Sum>s<peers. mset (sn_channel n' s w)) = (\<Sum>s<peers. mset (sn_channel n s w)) + mset (map (Pair elapsed \<circ> Pair w) es)"
    by (rule sum_channel [OF i]) (use es(1) w in \<open>simp_all add: n'\<close>)
  then have p: "pending peers w n' = pending peers w n + new"
    using f by (simp add: pending_def in_flight_def n' sn_set_def new_def multiset.map_comp comp_def command_of_def split_def)
  have log: "sn_log n' = sn_log n @ map (Pair elapsed) es" using es(1) w by (simp add: n')
  have caps: "\<exists>t' \<in> sn_caps peers n. t' \<le> t" if "t \<in> sn_caps peers n'" for t
    using that es(2) i by (auto simp: sn_caps_def n' sn_set_def split: if_splits)
  have "released_ok w (sn_log n @ map (Pair elapsed) es) (sn_caps peers n') (pending peers w n + new) (sn_out n w)"
  proof (rule released_ok_sent)
    show "image_mset logged new = mset (map (Pair elapsed) es)"
      by (simp add: new_def multiset.map_comp comp_def logged_def split_def)
    show "\<forall>c \<in># new. \<exists>t \<in> sn_caps peers n. t \<le> command_time c" using es(2) i by (auto simp: new_def sn_caps_def)
  qed (use assms(1) caps in \<open>auto simp: sn_inv_def new_def\<close>)
  then show ?thesis using assms(1) f by (simp add: sn_inv_def p log) (cases "w = i"; simp add: n' sn_set_def)
qed

lemma deliver_inv:
  assumes "sn_inv peers w n" and "sn_step peers (Deliver s t) n = Some n'"
  shows "sn_inv peers w n'"
proof -
  obtain m ms where m: "sn_channel n s t = m # ms" "s < peers" "t < peers"
    and n': "n' = n\<lparr>sn_channel := (sn_channel n)(s := (sn_channel n s)(t := ms)), sn_inbox := (sn_inbox n)(t := sn_inbox n t @ [m])\<rparr>"
    using assms(2) by (auto split: list.splits if_splits)
  have "pending peers w n' = pending peers w n"
  proof (cases "w = t")
    case True
    have "(\<Sum>s<peers. mset (sn_channel n s w)) = (\<Sum>s<peers. mset (sn_channel n' s w)) + {#m#}"
      by (rule sum_channel [OF m(2)]) (simp_all add: n' m(1) True)
    then show ?thesis by (simp add: pending_def in_flight_def n' True)
  next
    case False
    then have "sn_channel n' s' w = sn_channel n s' w" for s' by (simp add: n')
    then show ?thesis using False by (simp add: pending_def in_flight_def) (simp add: n')
  qed
  moreover have "sn_caps peers n' = sn_caps peers n" by (rule sn_caps_cong) (simp add: n')
  ultimately show ?thesis using assms(1) by (simp add: sn_inv_def) (simp add: n')
qed

lemma command_of_eq: "(\<lambda>(time, worker, counter, element). ((time, worker, counter), element)) = command_of"
  by (simp add: command_of_def fun_eq_iff split_def)

lemma sink_facts:
  assumes "sq_sink frontier data w = (iter, w')"
  shows "\<exists>recvd. mset recvd = mset (sq_recvd w) + image_mset command_of (mset data) \<and> sorted (map fst recvd)
    \<and> (let k = length (filter (\<lambda>c. \<not> aref_less_equal (\<le>) frontier (command_time c)) recvd)
       in iter = take k recvd \<and> sq_recvd w' = drop k recvd)
    \<and> sq_live w' = sq_live w \<and> sq_capability w' = sq_capability w
    \<and> sq_recv w' = (if sq_live w then sq_recv w @ map snd iter else sq_recv w)"
proof -
  define recvd where "recvd = sort_key fst (sq_recvd w @ map command_of (sort_key fst data))"
  have "mset recvd = mset (sq_recvd w) + image_mset command_of (mset data)" "sorted (map fst recvd)" by (simp_all add: recvd_def)
  then show ?thesis using assms [unfolded sq_sink_def command_of_eq Let_def, folded recvd_def]
    by (intro exI [of _ recvd]; cases "recvd = []"; cases "sq_live w") (auto simp: Let_def split_def)
qed

lemma sink_inv:
  assumes "sn_inv peers w n" and w: "w < peers" and "sn_step peers (Sink i frontier) n = Some n'"
  shows "sn_inv peers w n'"
proof -
  obtain iter w' where s: "sq_sink frontier (sn_inbox n i) (sn_worker n i) = (iter, w')" and i: "i < peers" "frontier_sound peers i frontier n"
    and n': "n' = (sn_set i w' n)\<lparr>sn_inbox := (sn_inbox n)(i := []), sn_out := (sn_out n)(i := sn_out n i @ iter)\<rparr>"
    using assms(3) by (auto split: if_splits prod.splits)
  obtain recvd k where r: "mset recvd = mset (sq_recvd (sn_worker n i)) + image_mset command_of (mset (sn_inbox n i))" "sorted (map fst recvd)"
      "k = length (filter (\<lambda>c. \<not> aref_less_equal (\<le>) frontier (command_time c)) recvd)" "iter = take k recvd" "sq_recvd w' = drop k recvd"
    and f: "sq_live w' = sq_live (sn_worker n i)" "sq_capability w' = sq_capability (sn_worker n i)"
      "sq_recv w' = (if sq_live (sn_worker n i) then sq_recv (sn_worker n i) @ map snd iter else sq_recv (sn_worker n i))"
    using sink_facts [OF s] by (auto simp: Let_def)
  have caps: "sn_caps peers n' = sn_caps peers n" by (rule sn_caps_cong) (simp add: n' sn_set_def f)
  have fl: "in_flight peers w n' = in_flight peers w n" by (simp add: in_flight_def n' sn_set_def)
  show ?thesis
  proof (cases "w = i")
    case True
    have "pending peers w n = mset recvd + in_flight peers w n" by (simp add: pending_def r(1) True)
    moreover have "pending peers w n' = mset (drop k recvd) + in_flight peers w n"
      unfolding pending_def fl using True by (simp add: n' sn_set_def r(5))
    moreover have "\<forall>t \<in> sn_caps peers n. aref_less_equal (\<le>) frontier t"
      using i(2) by (auto simp: sn_caps_def frontier_sound_def list_all_iff split: option.splits)
    moreover have "\<forall>c \<in># in_flight peers w n. aref_less_equal (\<le>) frontier (command_time c)"
      using i(2) True by (auto simp: in_flight_def frontier_sound_def list_all_iff command_of_def set_mset_sum split_def)
    ultimately have "released_ok w (sn_log n) (sn_caps peers n') (pending peers w n') (sn_out n w @ iter)"
      using assms(1) released_ok_sink [OF _ r(2) _ _ r(3), of w "sn_log n" "sn_caps peers n" "in_flight peers w n" "sn_out n w"]
      by (simp add: sn_inv_def caps r(4))
    then show ?thesis using assms(1) True f unfolding sn_inv_def
      by (simp add: n' sn_set_def) (metis append_assoc prefix_append map_append prefix_def)
  next
    case False
    then have "pending peers w n' = pending peers w n" by (intro pending_cong) (simp_all add: n' sn_set_def)
    then show ?thesis using assms(1) False caps by (simp add: sn_inv_def) (simp add: n' sn_set_def)
  qed
qed

lemma sn_step_inv:
  assumes "sn_inv peers w n" and "w < peers" and "sn_step peers e n = Some n'"
  shows "sn_inv peers w n'"
proof -
  have local: "sn_inv peers w ((sn_set i u n)\<lparr>sn_seen := seen\<rparr>)"
    if "sq_recvd u = sq_recvd (sn_worker n i)" "sq_capability u = sq_capability (sn_worker n i)"
      "sq_live u \<longrightarrow> sq_live (sn_worker n i)" "seen i @ sq_recv u = sn_seen n i @ sq_recv (sn_worker n i)"
      "\<And>j. j \<noteq> i \<Longrightarrow> seen j = sn_seen n j" for i u seen
  proof -
    let ?n = "(sn_set i u n)\<lparr>sn_seen := seen\<rparr>"
    have "pending peers w ?n = pending peers w n" using that(1) by (intro pending_cong) (simp_all add: sn_set_def)
    moreover have "sn_caps peers ?n = sn_caps peers n" using that(2) by (intro sn_caps_cong) (simp add: sn_set_def)
    ultimately show ?thesis using assms(1) that(3-5) by (cases "w = i") (simp_all add: sn_inv_def sn_set_def)
  qed
  show ?thesis
  proof (cases e)
    case (Push i x)
    then show ?thesis using assms(3) local [of "sq_push x (sn_worker n i)" i "sn_seen n"] by (auto simp: sq_push_def sn_set_def split: if_splits)
  next
    case (Next i)
    then show ?thesis using assms(3) local [of "snd (sq_next (sn_worker n i))" i "sn_seen n'"]
      by (auto simp: sq_next_def sn_set_def split: if_splits list.splits)
  next
    case (Drop i)
    then show ?thesis using assms(3) local [of "sq_drop (sn_worker n i)" i "sn_seen n"] by (auto simp: sq_drop_def sn_set_def split: if_splits)
  next
    case (Source i t)
    then show ?thesis using assms source_inv [of peers w n i t n'] by (auto split: if_splits)
  next
    case (Deliver s t)
    then show ?thesis using assms deliver_inv by blast
  next
    case (Sink i f)
    then show ?thesis using assms sink_inv by blast
  qed
qed

lemma sn_run_inv: "sn_run peers es n = Some n' \<Longrightarrow> sn_inv peers w n \<Longrightarrow> w < peers \<Longrightarrow> sn_inv peers w n'"
  by (induction peers es n rule: sn_run.induct) (auto split: Option.bind_splits dest: sn_step_inv)

lemma sn_new_inv: "sn_inv peers w (sn_new minimum)"
  by (simp add: sn_inv_def sn_new_def released_ok_def pending_def in_flight_def sq_preloaded_def)

section \<open>Properties\<close>

text \<open>
  C18: All workers see the elements in the same order.  After any run of the sequencers, with any interleaving of
  pushes, sources, deliveries and sinks, what \<open>next\<close> returned at a worker is an initial part of one sequence, the
  elements sent by any worker ordered by time and counter, provided no two sources sent at the same time with
  the same counter; and when nothing is pending for a worker that still has its sequencer, it has the whole
  sequence: what it saw and what waits in its queue.
\<close>

theorem sequencer_consistent:
  assumes "sn_run peers es (sn_new minimum) = Some n" and "distinct (map sent_key (sn_log n))" and "w < peers"
  shows "prefix (sn_seen n w) (sequenced n)
    \<and> (pending peers w n = {#} \<and> sq_live (sn_worker n w) \<longrightarrow> sn_seen n w @ sq_recv (sn_worker n w) = sequenced n)"
proof -
  have inv: "sn_inv peers w n" by (rule sn_run_inv [OF assms(1) sn_new_inv assms(3)])
  then have "released_ok w (sn_log n) (sn_caps peers n) (pending peers w n) (sn_out n w)" by (simp add: sn_inv_def)
  from released_prefix [OF this assms(2)] obtain rest where rest: "sort_key sent_key (sn_log n) = map logged (sn_out n w) @ rest"
      "mset rest = image_mset logged (pending peers w n)" by blast
  have "map (\<lambda>(_, _, element). element) (map logged out) = map snd out" for out :: "('a, 'b) command list"
    by (simp add: logged_def split_def)
  then have s: "sequenced n = map snd (sn_out n w) @ map (\<lambda>(_, _, element). element) rest" by (simp add: sequenced_def rest(1))
  then have "prefix (sn_seen n w) (sequenced n)" using inv unfolding sn_inv_def by (metis append_prefixD prefix_prefix)
  moreover have "sn_seen n w @ sq_recv (sn_worker n w) = sequenced n" if "pending peers w n = {#} \<and> sq_live (sn_worker n w)"
    using that rest(2) inv by (simp add: s sn_inv_def)
  ultimately show ?thesis by blast
qed

definition example_events :: "(nat, char) sq_event list" where
  "example_events =
     [Push 0 (CHR ''a''), Push 1 (CHR ''b''), Push 0 (CHR ''c''), Source 1 2, Source 0 3, Deliver 0 1, Deliver 0 1, Deliver 1 1,
      Sink 1 [2], Deliver 1 0, Source 1 5, Sink 1 [3], Drop 0, Source 0 6, Sink 1 [5], Next 1, Next 1]"

lemma example_seen:
  "map_option (\<lambda>n. (map sent_key (sn_log n), sn_seen n 1, sn_worker n 1, sn_inbox n 1, map (\<lambda>s. sn_channel n s 1) [0..<2]))
     (sn_run 2 example_events (sn_new 0))
   = Some ([(2, 0), (3, 0), (3, 1)], ''ba'',
       \<lparr>sq_live = True, sq_send = [], sq_recv = ''c'', sq_catchup_until = Some 3, sq_active = True, sq_capability = Some 5,
        sq_counter = 1, sq_recvd = []\<rparr>, [], [[], []])"
  by code_simp

theorem sequencer_consistent_witness:
  "\<exists>n. sn_run 2 example_events (sn_new 0) = Some n \<and> ''bac'' = sequenced n"
proof -
  obtain n where n: "sn_run 2 example_events (sn_new 0) = Some n" "map sent_key (sn_log n) = [(2, 0), (3, 0), (3, 1)]" "sn_seen n 1 = ''ba''"
      "sq_recv (sn_worker n 1) = ''c''" "sq_recvd (sn_worker n 1) = []" "sq_live (sn_worker n 1)" "sn_inbox n 1 = []"
      "\<forall>s < 2. sn_channel n s 1 = []"
    using example_seen by (auto simp: upt_conv_Cons less_2_cases_iff)
  have "pending 2 1 n = {#}" using n(5,7,8) by (simp add: pending_def in_flight_def)
  then show ?thesis using n sequencer_consistent [of 2 example_events 0 n 1] by auto
qed

section \<open>Elements with the same key\<close>

text \<open>
  Workers \<open>i\<close> and \<open>j\<close> send \<open>x\<close> and \<open>y\<close>, both at time \<open>t\<close>; each receives its own element first; all sources move on to \<open>u\<close>.
\<close>

definition tied_events :: "nat \<Rightarrow> nat \<Rightarrow> nat \<Rightarrow> 't \<Rightarrow> 't \<Rightarrow> 'd \<Rightarrow> 'd \<Rightarrow> ('t, 'd) sq_event list" where
  "tied_events peers i j t u x y =
     [Push i x, Push j y, Source i t, Source j t, Deliver i i, Deliver j i, Deliver j j, Deliver i j]
     @ map (\<lambda>s. Source s u) [0..<peers] @ [Sink i [u], Sink j [u], Next i, Next i, Next j, Next j]"

lemma sn_run_append: "sn_run peers (es @ fs) n = Option.bind (sn_run peers es n) (sn_run peers fs)"
  by (induction es arbitrary: n) (auto split: Option.bind_split)

lemma sources_idle:
  assumes "distinct ss" and "\<forall>s \<in> set ss. s < peers \<and> sq_live (sn_worker n s) \<and> sq_send (sn_worker n s) = []
      \<and> (\<exists>c. sq_capability (sn_worker n s) = Some c \<and> c \<le> u) \<and> sq_catchup_until (sn_worker n s) = None"
  shows "sn_run peers (map (\<lambda>s. Source s u) ss) n = Some (n\<lparr>sn_worker := \<lambda>s. if s \<in> set ss
      then (sn_worker n s)\<lparr>sq_active := False, sq_capability := Some u\<rparr> else sn_worker n s\<rparr>)"
  using assms
proof (induction ss arbitrary: n)
  case (Cons s ss)
  let ?w = "(sn_worker n s)\<lparr>sq_active := False, sq_capability := Some u\<rparr>"
  have "sq_source peers u ((sn_worker n s)\<lparr>sq_active := False\<rparr>) = Some ([], ?w)"
    using Cons(3) by (cases "sn_worker n s") (auto simp: sq_source_def sq_commands_def)
  then have s: "sn_step peers (Source s u) n = Some (sn_set s ?w n)" using Cons(3) by (cases n) (simp add: sn_set_def)
  have "sn_run peers (map (\<lambda>s. Source s u) ss) (sn_set s ?w n) = Some ((sn_set s ?w n)\<lparr>sn_worker := \<lambda>r. if r \<in> set ss
      then (sn_worker (sn_set s ?w n) r)\<lparr>sq_active := False, sq_capability := Some u\<rparr> else sn_worker (sn_set s ?w n) r\<rparr>)"
    by (rule Cons(1)) (use Cons(2,3) in \<open>auto simp: sn_set_def\<close>)
  moreover have "(\<lambda>r. if r \<in> set ss then (sn_worker (sn_set s ?w n) r)\<lparr>sq_active := False, sq_capability := Some u\<rparr> else sn_worker (sn_set s ?w n) r)
      = (\<lambda>r. if r \<in> set (s # ss) then (sn_worker n r)\<lparr>sq_active := False, sq_capability := Some u\<rparr> else sn_worker n r)"
    using Cons(2) by (auto simp: fun_eq_iff sn_set_def)
  ultimately show ?case using s by (simp add: sn_set_def)
qed simp

lemma tied_sent:
  assumes "i < peers" and "j < peers" and "i \<noteq> j" and "minimum \<le> t"
  defines "w0 \<equiv> sq_preloaded minimum [] :: ('t::linorder, 'd) sq_worker"
  shows "\<exists>n. sn_run peers [Push i x, Push j y, Source i t, Source j t, Deliver i i, Deliver j i, Deliver j j, Deliver i j] (sn_new minimum) = Some n
    \<and> sn_worker n = (\<lambda>_. w0)(i := w0\<lparr>sq_capability := Some t, sq_counter := 1\<rparr>, j := w0\<lparr>sq_capability := Some t, sq_counter := 1\<rparr>)
    \<and> (\<forall>s. sn_channel n s i = [] \<and> sn_channel n s j = [])
    \<and> sn_inbox n i = [(t, i, 0, x), (t, i, 0, y)] \<and> sn_inbox n j = [(t, j, 0, y), (t, j, 0, x)]
    \<and> sn_log n = [(t, 0, x), (t, 0, y)] \<and> sn_seen n = (\<lambda>_. []) \<and> sn_out n = (\<lambda>_. [])"
proof -
  have p: "0 < peers" using assms(1) by simp
  note f = filter_commands [OF assms(1), of 0 "[x]"] filter_commands [OF assms(1), of 0 "[y]"] filter_commands [OF assms(2), of 0 "[x]"]
    filter_commands [OF assms(2), of 0 "[y]"] filter_commands [OF p, of 0 "[x]"] filter_commands [OF p, of 0 "[y]"]
  show ?thesis using assms(1-4) by (simp add: w0_def sn_new_def sq_preloaded_def sn_set_def sq_push_def sq_source_def f Let_def fun_upd_twist)
qed

text \<open>
  C27: Elements that two workers send at the same time with the same counter are not ordered: the sinks
  compare time, target worker and counter, never the source, so arrival order decides.  For any two of any number of
  workers, any two elements and any times, there is a run in which each of the two sees its own element first, although
  both sources sent at the same time with the same counter.
\<close>

theorem sequencer_diverges:
  assumes "i < peers" and "j < peers" and "i \<noteq> j" and "minimum \<le> t" and "t < u"
  shows "\<exists>n. sn_run peers (tied_events peers i j t u x y) (sn_new minimum) = Some n
    \<and> sn_log n = [(t, 0, x), (t, 0, y)] \<and> sn_seen n i = [x, y] \<and> sn_seen n j = [y, x]"
proof -
  obtain n where n: "sn_run peers [Push i x, Push j y, Source i t, Source j t, Deliver i i, Deliver j i, Deliver j j, Deliver i j] (sn_new minimum) = Some n"
    "sn_worker n = (\<lambda>_. sq_preloaded minimum [])(i := (sq_preloaded minimum [])\<lparr>sq_capability := Some t, sq_counter := 1\<rparr>,
       j := (sq_preloaded minimum [])\<lparr>sq_capability := Some t, sq_counter := 1\<rparr>)"
    "\<forall>s. sn_channel n s i = [] \<and> sn_channel n s j = []" "sn_inbox n i = [(t, i, 0, x), (t, i, 0, y)]" "sn_inbox n j = [(t, j, 0, y), (t, j, 0, x)]"
    "sn_log n = [(t, 0, x), (t, 0, y)]" "sn_seen n = (\<lambda>_. [])" "sn_out n = (\<lambda>_. [])"
    using tied_sent [OF assms(1-4), of x y] by blast
  define n1 where "n1 = n\<lparr>sn_worker := \<lambda>s. if s \<in> set [0..<peers]
      then (sn_worker n s)\<lparr>sq_active := False, sq_capability := Some u\<rparr> else sn_worker n s\<rparr>"
  have "sn_run peers (map (\<lambda>s. Source s u) [0..<peers]) n = Some n1"
    unfolding n1_def using assms(4,5) by (intro sources_idle) (auto simp: n(2) sq_preloaded_def)
  moreover have w1: "sn_worker n1 w = (sq_preloaded minimum [])\<lparr>sq_capability := Some u, sq_counter := 1\<rparr>" if "w = i \<or> w = j" for w
    using that assms(1-3) by (auto simp: n1_def n(2) sq_preloaded_def)
  have caps: "sq_capability (sn_worker n1 s) = Some u" if "s < peers" for s using that by (simp add: n1_def)
  have same: "sn_channel n1 = sn_channel n" "sn_inbox n1 = sn_inbox n" "sn_log n1 = sn_log n" "sn_seen n1 = sn_seen n" by (simp_all add: n1_def)
  have sink: "sq_sink [u] [(t, w, 0, a), (t, w, 0, b)] ((sq_preloaded minimum [])\<lparr>sq_capability := Some u, sq_counter := 1\<rparr>)
      = ([((t, w, 0), a), ((t, w, 0), b)], (sq_preloaded minimum [])\<lparr>sq_capability := Some u, sq_counter := 1, sq_recv := [a, b],
           sq_catchup_until := Some t, sq_active := True\<rparr>)" for w :: nat and a b :: 'b
    using assms(5) by (simp add: sq_sink_def sq_preloaded_def aref_less_equal_def)
  have "\<exists>n2. sn_run peers [Sink i [u], Sink j [u], Next i, Next i, Next j, Next j] n1 = Some n2
      \<and> sn_log n2 = [(t, 0, x), (t, 0, y)] \<and> sn_seen n2 i = [x, y] \<and> sn_seen n2 j = [y, x]"
    using assms(1-3) n(3-7) by (simp add: frontier_sound_def list_all_iff aref_less_equal_def sn_set_def same w1 caps sink sink [unfolded sq_preloaded_def, simplified] sq_next_def sq_preloaded_def)
  ultimately show ?thesis unfolding tied_events_def sn_run_append n(1) by (simp del: sn_run.simps)
qed

theorem sequencer_diverges_witness:
  "\<exists>n. sn_run 3 (tied_events 3 2 0 5 7 (CHR ''a'') (CHR ''b'')) (sn_new (0 :: nat)) = Some n \<and> sn_seen n 2 = ''ab'' \<and> sn_seen n 0 = ''ba''"
  using sequencer_diverges [of 2 3 0 "0 :: nat" 5 7 "CHR ''a''" "CHR ''b''"] by auto

end
