(* ===== verification/Notify_Operators.thy ===== *)
theory Notify_Operators
  imports Session Notificator "HOL-Library.AList"
begin

text \<open>
  Operators that hold records back until the frontier has passed their time:
  \<^verbatim>\<open>unary_notify\<close> of \<^verbatim>\<open>timely/src/dataflow/operators/generic/operator.rs\<close>, and over it
  \<^verbatim>\<open>timely/src/dataflow/operators/delay.rs\<close>, \<^verbatim>\<open>aggregation/aggregate.rs\<close> and
  \<^verbatim>\<open>aggregation/state_machine.rs\<close>.

  An operator is its notificator, its output with the container builder, the store of shared batches, and what
  the closure has captured.  A hash map is an association list; where its entries are enumerated, the order is a
  parameter.  The functions a user hands in are functions of their arguments.  \<open>None\<close> is a panic.
\<close>

section \<open>Operators with one input, one output and a notificator\<close>

text \<open>What stays the same over the life of an operator: the order of times and the action of summaries, the ties of
  the heap, the build profile, the memory behaviour of vectors and of what is behind the output, and the ports.\<close>

record ('t, 's, 'e) unary_env =
  ue_le :: "'t \<Rightarrow> 't \<Rightarrow> bool"
  ue_ri :: "'s \<Rightarrow> 't \<Rightarrow> 't option"
  ue_dflt :: 's
  ue_tie :: "'t request list \<Rightarrow> nat"
  ue_debug :: bool
  ue_grow :: "nat \<Rightarrow> nat"
  ue_sz :: nat
  ue_left :: "('t, 'e) left_behind"
  ue_core :: "('t, 's) operator_core"

record ('t, 'e, 'u) notify_op =
  nu_store :: "'t buffers"
  nu_notificator :: "'t frontier_notificator"
  nu_builder :: "'e container_builder"
  nu_pushee :: "('t, 'e) pushee"
  nu_user :: 'u

primrec try_fold :: "('a \<Rightarrow> 'b \<Rightarrow> 'b option) \<Rightarrow> 'a list \<Rightarrow> 'b \<Rightarrow> 'b option" where
  "try_fold f [] s = Some s"
| "try_fold f (x # xs) s = Option.bind (f x s) (try_fold f xs)"

text \<open>A session at the output, from its opening to its drop.\<close>

definition unary_output ::
  "('t::linorder, 's, 'e) unary_env \<Rightarrow> bool \<Rightarrow> 't \<Rightarrow> 'e session_call list \<Rightarrow> ('t, 'e, 'u) notify_op \<Rightarrow> ('t, 'e, 'u) notify_op option" where
  "unary_output ue valid time acts nu =
     do { produced \<leftarrow> vec_get (oc_produced (ue_core ue)) 0;
          ou \<leftarrow> session_open (ue_debug ue) valid time produced (nu_builder nu) (nu_store nu) (nu_pushee nu);
          let ou = session_drop (ue_left ue) (fold (session_act (ue_grow ue) (ue_sz ue) (ue_left ue)) acts ou);
          (h, p) \<leftarrow> ou_port ou;
          Some (nu\<lparr>nu_store := h, nu_builder := ou_builder ou, nu_pushee := p\<rparr>) }"

text \<open>The calls of the closure given to \<open>for_each_time\<close> on the messages \<open>q\<close>.\<close>

definition unary_input ::
  "('t::linorder, 's, 'e) unary_env \<Rightarrow> ('t, 'd) message list \<Rightarrow> ('t, 'e, 'u) notify_op
   \<Rightarrow> ((('t, 's) input_capability \<times> 'd list list) list \<times> ('t, 'e, 'u) notify_op) option" where
  "unary_input ue q nu =
     do { (gs, ss) \<leftarrow> for_each_time (ue_core ue) 0 \<lparr>os_store = nu_store nu, os_caps = [], os_incaps = [], os_queues = [q], os_sent = []\<rparr>;
          Some (gs, nu\<lparr>nu_store := os_store ss\<rparr>) }"

text \<open>\<open>notificator.for_each(body)\<close>; the store and the notificator travel through the loop, the rest beside it.\<close>

definition notified_call ::
  "('t::linorder request \<Rightarrow> ('t, 'e, 'u) notify_op \<Rightarrow> ('t, 'e, 'u) notify_op option) \<Rightarrow> 't request
   \<Rightarrow> ('t frontier_notificator \<times> 't buffers) \<times> ('t, 'e, 'u) notify_op option
   \<Rightarrow> ('t frontier_notificator \<times> 't buffers) \<times> ('t, 'e, 'u) notify_op option" where
  "notified_call body r st =
     (case snd st of
        None \<Rightarrow> st
      | Some nu \<Rightarrow>
          (case body r (nu\<lparr>nu_notificator := fst (fst st), nu_store := snd (fst st)\<rparr>) of
             None \<Rightarrow> (fst st, None)
           | Some nu' \<Rightarrow> ((nu_notificator nu', nu_store nu'), Some nu')))"

definition unary_notified ::
  "('t::linorder, 's, 'e) unary_env \<Rightarrow> 't mutable_antichain list
   \<Rightarrow> ('t request \<Rightarrow> ('t, 'e, 'u) notify_op \<Rightarrow> ('t, 'e, 'u) notify_op option) \<Rightarrow> ('t, 'e, 'u) notify_op \<Rightarrow> ('t, 'e, 'u) notify_op option" where
  "unary_notified ue frontiers body nu =
     do { (nh, u) \<leftarrow> nf_for_each (ue_le ue) (ue_tie ue) frontiers (notified_call body) ((nu_notificator nu, nu_store nu), Some nu);
          nu \<leftarrow> u;
          Some (nu\<lparr>nu_notificator := fst nh, nu_store := snd nh\<rparr>) }"

text \<open>
  The constructor: notifications at the times \<open>init\<close>, requested with capabilities made from the initial one, which is
  dropped with the end of the constructor.
\<close>

definition request_initial :: "('t \<Rightarrow> 't \<Rightarrow> bool) \<Rightarrow> 't::linorder capability \<Rightarrow> 't
   \<Rightarrow> 't frontier_notificator \<times> 't buffers \<Rightarrow> ('t frontier_notificator \<times> 't buffers) option" where
  "request_initial le c time nh = do { (d, h) \<leftarrow> cap_delayed le c time (snd nh); Some (fn_notify_at d (fst nh), h) }"

definition unary_notify_new ::
  "('t \<Rightarrow> 't \<Rightarrow> bool) \<Rightarrow> 't::linorder capability \<Rightarrow> 't list \<Rightarrow> 'u \<Rightarrow> 't buffers \<Rightarrow> ('t, 'e, 'u) notify_op option" where
  "unary_notify_new le c init u h =
     do { (nt, h) \<leftarrow> try_fold (request_initial le c) init (fn_default, h);
          Some \<lparr>nu_store = cap_drop c h, nu_notificator = nt, nu_builder = ccb_default, nu_pushee = [], nu_user = u\<rparr> }"

text \<open>
  One call of the operator's logic: the frontier is wrapped into a notificator session, the closure runs, and
  the drop of the output handle flushes what is behind it.
\<close>

definition unary_notify_call ::
  "('t::linorder, 's, 'e) unary_env
   \<Rightarrow> ('t mutable_antichain list \<Rightarrow> ('t, 'd) message list \<Rightarrow> ('t, 'e, 'u) notify_op \<Rightarrow> ('t, 'e, 'u) notify_op option)
   \<Rightarrow> 't mutable_antichain \<Rightarrow> ('t, 'd) message list \<Rightarrow> ('t, 'e, 'u) notify_op \<Rightarrow> ('t, 'e, 'u) notify_op option" where
  "unary_notify_call ue logic frontier q nu =
     do { let (nt, h) = nf_new (ue_le ue) [frontier] (nu_notificator nu, nu_store nu);
          nu \<leftarrow> logic [frontier] q (nu\<lparr>nu_notificator := nt, nu_store := h\<rparr>);
          produced \<leftarrow> vec_get (oc_produced (ue_core ue)) 0;
          let (h, p) = counter_push produced None (nu_store nu) (nu_pushee nu);
          Some (nu\<lparr>nu_store := h, nu_pushee := p\<rparr>) }"

definition drop_notified :: "'t::linorder request \<Rightarrow> ('t, 'e, 'u) notify_op \<Rightarrow> ('t, 'e, 'u) notify_op" where
  "drop_notified r nu = nu\<lparr>nu_store := cap_drop (fst r) (nu_store nu)\<rparr>"

definition drop_input :: "('t::linorder, 's) input_capability \<Rightarrow> ('t, 'e, 'u) notify_op \<Rightarrow> ('t, 'e, 'u) notify_op" where
  "drop_input cap nu = nu\<lparr>nu_store := ic_drop cap (nu_store nu)\<rparr>"

text \<open>The validation of a notified capability at the output, and a notification requested from input.\<close>

definition notified_output ::
  "('t::linorder, 's, 'e) unary_env \<Rightarrow> 't capability \<Rightarrow> 'e session_call list \<Rightarrow> ('t, 'e, 'u) notify_op \<Rightarrow> ('t, 'e, 'u) notify_op option" where
  "notified_output ue c acts nu =
     do { a \<leftarrow> vec_get (oc_internal (ue_core ue)) 0; unary_output ue (cap_valid_for_output c a) (cap_time c) acts nu }"

definition notify_retained ::
  "('t::linorder, 's, 'e) unary_env \<Rightarrow> 't mutable_antichain list \<Rightarrow> ('t, 's) input_capability \<Rightarrow> ('t, 'e, 'u) notify_op \<Rightarrow> ('t, 'e, 'u) notify_op option" where
  "notify_retained ue frontiers cap nu =
     do { (c, h) \<leftarrow> ic_retain (ue_le ue) (ue_ri ue) cap (nu_store nu);
          Some (nu\<lparr>nu_store := h, nu_notificator := nf_notify_at (ue_le ue) frontiers c (nu_notificator nu)\<rparr>) }"

definition get_or :: "'v \<Rightarrow> ('k \<times> 'v) list \<Rightarrow> 'k \<Rightarrow> 'v" where
  "get_or d m k = (case map_of m k of None \<Rightarrow> d | Some v \<Rightarrow> v)"

section \<open>delay\<close>

text \<open>
  \<open>elements.entry(new_time).or_insert_with(\<dots>)\<close> followed by adding items: a time that has no entry yet requests a
  notification.  The items are records for \<open>delay\<close> and containers for \<open>delay_batch\<close>.
\<close>

definition stash_delayed ::
  "('t::linorder, 's, 'e) unary_env \<Rightarrow> 't mutable_antichain list \<Rightarrow> ('t, 's) input_capability \<Rightarrow> 't \<Rightarrow> 'x list
   \<Rightarrow> ('t, 'e, ('t \<times> 'x list) list) notify_op \<Rightarrow> ('t, 'e, ('t \<times> 'x list) list) notify_op option" where
  "stash_delayed ue frontiers cap new_time items nu =
     do { nu \<leftarrow> (case map_of (nu_user nu) new_time of
                    Some _ \<Rightarrow> Some nu
                  | None \<Rightarrow> do { (c, h) \<leftarrow> ic_delayed (ue_le ue) (ue_ri ue) cap new_time (nu_store nu);
                                Some (nu\<lparr>nu_store := h, nu_notificator := nf_notify_at (ue_le ue) frontiers c (nu_notificator nu),
                                         nu_user := AList.update new_time [] (nu_user nu)\<rparr>) });
          Some (nu\<lparr>nu_user := AList.update new_time (get_or [] (nu_user nu) new_time @ items) (nu_user nu)\<rparr>) }"

definition delay_datum ::
  "('t::linorder, 's, 'd) unary_env \<Rightarrow> ('d \<Rightarrow> 't \<Rightarrow> 't) \<Rightarrow> 't mutable_antichain list \<Rightarrow> ('t, 's) input_capability \<Rightarrow> 'd
   \<Rightarrow> ('t, 'd, ('t \<times> 'd list) list) notify_op \<Rightarrow> ('t, 'd, ('t \<times> 'd list) list) notify_op option" where
  "delay_datum ue func frontiers cap datum nu =
     (let new_time = func datum (ic_time cap)
      in if ue_le ue (ic_time cap) new_time then stash_delayed ue frontiers cap new_time [datum] nu else None)"

definition delay_input ::
  "('t::linorder, 's, 'd) unary_env \<Rightarrow> ('d \<Rightarrow> 't \<Rightarrow> 't) \<Rightarrow> 't mutable_antichain list \<Rightarrow> ('t, 's) input_capability \<times> 'd list list
   \<Rightarrow> ('t, 'd, ('t \<times> 'd list) list) notify_op \<Rightarrow> ('t, 'd, ('t \<times> 'd list) list) notify_op option" where
  "delay_input ue func frontiers g nu =
     do { nu \<leftarrow> try_fold (delay_datum ue func frontiers (fst g)) (concat (snd g)) nu; Some (drop_input (fst g) nu) }"

definition delay_notified ::
  "('t::linorder, 's, 'd) unary_env \<Rightarrow> 't request \<Rightarrow> ('t, 'd, ('t \<times> 'd list) list) notify_op \<Rightarrow> ('t, 'd, ('t \<times> 'd list) list) notify_op option" where
  "delay_notified ue r nu =
     do { let time = cap_time (fst r);
          nu \<leftarrow> (case map_of (nu_user nu) time of
                   None \<Rightarrow> Some nu
                 | Some data \<Rightarrow> notified_output ue (fst r) [Give_iterator data] (nu\<lparr>nu_user := AList.delete time (nu_user nu)\<rparr>));
          Some (drop_notified r nu) }"

definition delay_logic ::
  "('t::linorder, 's, 'd) unary_env \<Rightarrow> ('d \<Rightarrow> 't \<Rightarrow> 't) \<Rightarrow> 't mutable_antichain list \<Rightarrow> ('t, 'd) message list
   \<Rightarrow> ('t, 'd, ('t \<times> 'd list) list) notify_op \<Rightarrow> ('t, 'd, ('t \<times> 'd list) list) notify_op option" where
  "delay_logic ue func frontiers q nu =
     do { (gs, nu) \<leftarrow> unary_input ue q nu;
          nu \<leftarrow> try_fold (delay_input ue func frontiers) gs nu;
          unary_notified ue frontiers (delay_notified ue) nu }"

definition delay_schedule ::
  "('t::linorder, 's, 'd) unary_env \<Rightarrow> ('d \<Rightarrow> 't \<Rightarrow> 't) \<Rightarrow> 't mutable_antichain \<Rightarrow> ('t, 'd) message list
   \<Rightarrow> ('t, 'd, ('t \<times> 'd list) list) notify_op \<Rightarrow> ('t, 'd, ('t \<times> 'd list) list) notify_op option" where
  "delay_schedule ue func = unary_notify_call ue (delay_logic ue func)"

definition delay_batch_input ::
  "('t::linorder, 's, 'd) unary_env \<Rightarrow> ('t \<Rightarrow> 't) \<Rightarrow> 't mutable_antichain list \<Rightarrow> ('t, 's) input_capability \<times> 'd list list
   \<Rightarrow> ('t, 'd, ('t \<times> 'd list list) list) notify_op \<Rightarrow> ('t, 'd, ('t \<times> 'd list list) list) notify_op option" where
  "delay_batch_input ue func frontiers g nu =
     do { let new_time = func (ic_time (fst g));
          nu \<leftarrow> (if ue_le ue (ic_time (fst g)) new_time then stash_delayed ue frontiers (fst g) new_time (snd g) nu else None);
          Some (drop_input (fst g) nu) }"

text \<open>A container is sent whole, and every container in a session of its own.\<close>

definition delay_batch_notified ::
  "('t::linorder, 's, 'd) unary_env \<Rightarrow> 't request \<Rightarrow> ('t, 'd, ('t \<times> 'd list list) list) notify_op \<Rightarrow> ('t, 'd, ('t \<times> 'd list list) list) notify_op option" where
  "delay_batch_notified ue r nu =
     do { let time = cap_time (fst r);
          nu \<leftarrow> (case map_of (nu_user nu) time of
                   None \<Rightarrow> Some nu
                 | Some datas \<Rightarrow>
                     try_fold (\<lambda>data. notified_output ue (fst r) [Give_container \<lparr>vc_items = data, vc_capacity = length data\<rparr>]) datas
                       (nu\<lparr>nu_user := AList.delete time (nu_user nu)\<rparr>));
          Some (drop_notified r nu) }"

definition delay_batch_logic ::
  "('t::linorder, 's, 'd) unary_env \<Rightarrow> ('t \<Rightarrow> 't) \<Rightarrow> 't mutable_antichain list \<Rightarrow> ('t, 'd) message list
   \<Rightarrow> ('t, 'd, ('t \<times> 'd list list) list) notify_op \<Rightarrow> ('t, 'd, ('t \<times> 'd list list) list) notify_op option" where
  "delay_batch_logic ue func frontiers q nu =
     do { (gs, nu) \<leftarrow> unary_input ue q nu;
          nu \<leftarrow> try_fold (delay_batch_input ue func frontiers) gs nu;
          unary_notified ue frontiers (delay_batch_notified ue) nu }"

definition delay_batch_schedule ::
  "('t::linorder, 's, 'd) unary_env \<Rightarrow> ('t \<Rightarrow> 't) \<Rightarrow> 't mutable_antichain \<Rightarrow> ('t, 'd) message list
   \<Rightarrow> ('t, 'd, ('t \<times> 'd list list) list) notify_op \<Rightarrow> ('t, 'd, ('t \<times> 'd list list) list) notify_op option" where
  "delay_batch_schedule ue func = unary_notify_call ue (delay_batch_logic ue func)"

section \<open>aggregate\<close>

type_synonym ('t, 'k, 'a) aggregates = "('t \<times> ('k \<times> 'a) list) list"

definition aggregate_record :: "('k \<Rightarrow> 'v \<Rightarrow> 'a \<Rightarrow> 'a) \<Rightarrow> 'a \<Rightarrow> 'k \<times> 'v \<Rightarrow> ('k \<times> 'a) list \<Rightarrow> ('k \<times> 'a) list" where
  "aggregate_record foldf dflt kv m = AList.update (fst kv) (foldf (fst kv) (snd kv) (get_or dflt m (fst kv))) m"

definition aggregate_input ::
  "('t::linorder, 's, 'r) unary_env \<Rightarrow> ('k \<Rightarrow> 'v \<Rightarrow> 'a \<Rightarrow> 'a) \<Rightarrow> 'a \<Rightarrow> 't mutable_antichain list \<Rightarrow> ('t, 's) input_capability \<times> ('k \<times> 'v) list list
   \<Rightarrow> ('t, 'r, ('t, 'k, 'a) aggregates) notify_op \<Rightarrow> ('t, 'r, ('t, 'k, 'a) aggregates) notify_op option" where
  "aggregate_input ue foldf dflt frontiers g nu =
     (let time = ic_time (fst g);
          agg_time = fold (aggregate_record foldf dflt) (concat (snd g)) (get_or [] (nu_user nu) time)
      in notify_retained ue frontiers (fst g) (nu\<lparr>nu_user := AList.update time agg_time (nu_user nu)\<rparr>))"

text \<open>The aggregates of a time are enumerated in the order of the hash map, \<open>iter\<close>.\<close>

definition aggregate_notified ::
  "('t::linorder, 's, 'r) unary_env \<Rightarrow> ('k \<Rightarrow> 'a \<Rightarrow> 'r) \<Rightarrow> (('k \<times> 'a) list \<Rightarrow> ('k \<times> 'a) list) \<Rightarrow> 't request
   \<Rightarrow> ('t, 'r, ('t, 'k, 'a) aggregates) notify_op \<Rightarrow> ('t, 'r, ('t, 'k, 'a) aggregates) notify_op option" where
  "aggregate_notified ue emit iter r nu =
     do { let time = cap_time (fst r);
          nu \<leftarrow> (case map_of (nu_user nu) time of
                   None \<Rightarrow> Some nu
                 | Some aggs \<Rightarrow>
                     notified_output ue (fst r) (map (\<lambda>(key, agg). Give_record (emit key agg)) (iter aggs))
                       (nu\<lparr>nu_user := AList.delete time (nu_user nu)\<rparr>));
          Some (drop_notified r nu) }"

definition aggregate_logic ::
  "('t::linorder, 's, 'r) unary_env \<Rightarrow> ('k \<Rightarrow> 'v \<Rightarrow> 'a \<Rightarrow> 'a) \<Rightarrow> 'a \<Rightarrow> ('k \<Rightarrow> 'a \<Rightarrow> 'r) \<Rightarrow> (('k \<times> 'a) list \<Rightarrow> ('k \<times> 'a) list)
   \<Rightarrow> 't mutable_antichain list \<Rightarrow> ('t, 'k \<times> 'v) message list
   \<Rightarrow> ('t, 'r, ('t, 'k, 'a) aggregates) notify_op \<Rightarrow> ('t, 'r, ('t, 'k, 'a) aggregates) notify_op option" where
  "aggregate_logic ue foldf dflt emit iter frontiers q nu =
     do { (gs, nu) \<leftarrow> unary_input ue q nu;
          nu \<leftarrow> try_fold (aggregate_input ue foldf dflt frontiers) gs nu;
          unary_notified ue frontiers (aggregate_notified ue emit iter) nu }"

definition aggregate_schedule ::
  "('t::linorder, 's, 'r) unary_env \<Rightarrow> ('k \<Rightarrow> 'v \<Rightarrow> 'a \<Rightarrow> 'a) \<Rightarrow> 'a \<Rightarrow> ('k \<Rightarrow> 'a \<Rightarrow> 'r) \<Rightarrow> (('k \<times> 'a) list \<Rightarrow> ('k \<times> 'a) list)
   \<Rightarrow> 't mutable_antichain \<Rightarrow> ('t, 'k \<times> 'v) message list
   \<Rightarrow> ('t, 'r, ('t, 'k, 'a) aggregates) notify_op \<Rightarrow> ('t, 'r, ('t, 'k, 'a) aggregates) notify_op option" where
  "aggregate_schedule ue foldf dflt emit iter = unary_notify_call ue (aggregate_logic ue foldf dflt emit iter)"

section \<open>state machine\<close>

text \<open>The captured maps: what waits at each time, and the state of each key.\<close>

record ('t, 'k, 'v, 'a) machine =
  sm_pending :: "('t \<times> ('k \<times> 'v) list) list"
  sm_states :: "('k \<times> 'a) list"

type_synonym ('k, 'v, 'a, 'r) transition = "'k \<Rightarrow> 'v \<Rightarrow> 'a \<Rightarrow> 'a \<times> bool \<times> 'r list"

text \<open>The loop over the records of one time: the states after it, and the iterators given to the session.\<close>

fun sm_records :: "('k, 'v, 'a, 'r) transition \<Rightarrow> 'a \<Rightarrow> ('k \<times> 'v) list \<Rightarrow> ('k \<times> 'a) list \<Rightarrow> 'r list list \<times> ('k \<times> 'a) list" where
  "sm_records foldf dflt [] states = ([], states)"
| "sm_records foldf dflt ((key, val) # rest) states =
     (let (state, remove, out) = foldf key val (get_or dflt states key);
          states = AList.update key state states;
          states = (if remove then AList.delete key states else states);
          (outs, states) = sm_records foldf dflt rest states
      in (out # outs, states))"

definition machine_notified ::
  "('t::linorder, 's, 'r) unary_env \<Rightarrow> ('k, 'v, 'a, 'r) transition \<Rightarrow> 'a \<Rightarrow> 't request
   \<Rightarrow> ('t, 'r, ('t, 'k, 'v, 'a) machine) notify_op \<Rightarrow> ('t, 'r, ('t, 'k, 'v, 'a) machine) notify_op option" where
  "machine_notified ue foldf dflt r nu =
     do { let time = cap_time (fst r);
          nu \<leftarrow> (case map_of (sm_pending (nu_user nu)) time of
                   None \<Rightarrow> Some nu
                 | Some pend \<Rightarrow>
                     (let (outs, states) = sm_records foldf dflt pend (sm_states (nu_user nu))
                      in notified_output ue (fst r) (map Give_iterator outs)
                           (nu\<lparr>nu_user := \<lparr>sm_pending = AList.delete time (sm_pending (nu_user nu)), sm_states = states\<rparr>\<rparr>)));
          Some (drop_notified r nu) }"

definition stash_pending :: "'t \<Rightarrow> ('k \<times> 'v) list \<Rightarrow> ('t, 'k, 'v, 'a) machine \<Rightarrow> ('t, 'k, 'v, 'a) machine" where
  "stash_pending time data m = m\<lparr>sm_pending := AList.update time (get_or [] (sm_pending m) time @ data) (sm_pending m)\<rparr>"

definition machine_input ::
  "('t::linorder, 's, 'r) unary_env \<Rightarrow> ('k, 'v, 'a, 'r) transition \<Rightarrow> 'a \<Rightarrow> 't mutable_antichain list \<Rightarrow> ('t, 's) input_capability \<times> ('k \<times> 'v) list list
   \<Rightarrow> ('t, 'r, ('t, 'k, 'v, 'a) machine) notify_op \<Rightarrow> ('t, 'r, ('t, 'k, 'v, 'a) machine) notify_op option" where
  "machine_input ue foldf dflt frontiers g nu =
     do { let time = ic_time (fst g);
          frontier \<leftarrow> vec_get frontiers 0;
          if ma_less_than (ue_le ue) frontier time
          then notify_retained ue frontiers (fst g) (nu\<lparr>nu_user := fold (stash_pending time) (snd g) (nu_user nu)\<rparr>)
          else do { a \<leftarrow> vec_get (oc_internal (ue_core ue)) 0;
                    valid \<leftarrow> ic_valid_for_output (ue_dflt ue) (fst g) a 0;
                    let (outs, states) = sm_records foldf dflt (concat (snd g)) (sm_states (nu_user nu));
                    nu \<leftarrow> unary_output ue valid time (map Give_iterator outs) (nu\<lparr>nu_user := (nu_user nu)\<lparr>sm_states := states\<rparr>\<rparr>);
                    Some (drop_input (fst g) nu) } }"

definition machine_logic ::
  "('t::linorder, 's, 'r) unary_env \<Rightarrow> ('k, 'v, 'a, 'r) transition \<Rightarrow> 'a \<Rightarrow> 't mutable_antichain list \<Rightarrow> ('t, 'k \<times> 'v) message list
   \<Rightarrow> ('t, 'r, ('t, 'k, 'v, 'a) machine) notify_op \<Rightarrow> ('t, 'r, ('t, 'k, 'v, 'a) machine) notify_op option" where
  "machine_logic ue foldf dflt frontiers q nu =
     do { nu \<leftarrow> unary_notified ue frontiers (machine_notified ue foldf dflt) nu;
          (gs, nu) \<leftarrow> unary_input ue q nu;
          try_fold (machine_input ue foldf dflt frontiers) gs nu }"

definition machine_schedule ::
  "('t::linorder, 's, 'r) unary_env \<Rightarrow> ('k, 'v, 'a, 'r) transition \<Rightarrow> 'a \<Rightarrow> 't mutable_antichain \<Rightarrow> ('t, 'k \<times> 'v) message list
   \<Rightarrow> ('t, 'r, ('t, 'k, 'v, 'a) machine) notify_op \<Rightarrow> ('t, 'r, ('t, 'k, 'v, 'a) machine) notify_op option" where
  "machine_schedule ue foldf dflt = unary_notify_call ue (machine_logic ue foldf dflt)"

section \<open>What an operator accounts for\<close>

abbreviation ue_internal :: "('t, 's, 'e) unary_env \<Rightarrow> nat" where "ue_internal ue \<equiv> oc_internal (ue_core ue) ! 0"
abbreviation ue_produced :: "('t, 's, 'e) unary_env \<Rightarrow> nat" where "ue_produced ue \<equiv> oc_produced (ue_core ue) ! 0"
abbreviation ue_consumed :: "('t, 's, 'e) unary_env \<Rightarrow> nat" where "ue_consumed ue \<equiv> oc_consumed (ue_core ue) ! 0"

text \<open>The ports are there, and the input is connected to the output by the default summary, which changes no time.\<close>

definition unary_ok :: "('t, 's, 'e) unary_env \<Rightarrow> bool" where
  "unary_ok ue \<longleftrightarrow> (\<forall>n. n \<le> ue_grow ue n) \<and> (\<forall>t. ue_le ue t t) \<and> (\<forall>t. ue_ri ue (ue_dflt ue) t = Some t)
     \<and> oc_internal (ue_core ue) \<noteq> [] \<and> oc_produced (ue_core ue) \<noteq> [] \<and> oc_consumed (ue_core ue) \<noteq> [] \<and> oc_summaries (ue_core ue) \<noteq> []
     \<and> (\<exists>path. pc_get (oc_summaries (ue_core ue) ! 0) 0 = Some path \<and> ac_elements path = [ue_dflt ue])"

text \<open>
  What the batches hold beyond the capabilities of the notificator and the records sent.  It grows by the records
  consumed and is otherwise left alone by everything the operator does.
\<close>

definition nu_ledger :: "('t::linorder, 's, 'e) unary_env \<Rightarrow> ('t, 'e, 'u) notify_op \<Rightarrow> nat \<Rightarrow> 't \<Rightarrow> int" where
  "nu_ledger ue nu a t = unaccounted (fn_caps (nu_notificator nu)) (nu_store nu) a t
     - (if a = ue_produced ue then times_count t (delivered (nu_pushee nu)) else 0)"

text \<open>Between calls the builder is empty, and the capabilities are for the output.\<close>

definition nu_ok :: "('t, 's, 'e) unary_env \<Rightarrow> ('t, 'e, 'u) notify_op \<Rightarrow> bool" where
  "nu_ok ue nu \<longleftrightarrow> ccb_ok (nu_builder nu) \<and> ccb_records (nu_builder nu) = []
     \<and> (\<forall>c \<in> set (fn_caps (nu_notificator nu)). cap_internal c = ue_internal ue)"

lemma ccb_ok_empty: "ccb_records b = [] \<Longrightarrow> ccb_ok b"
  by (simp add: ccb_records_def ccb_ok_def)

lemma unary_output_ok:
  assumes "unary_ok ue" and "nu_ok ue nu" and "ue_debug ue \<longrightarrow> valid"
  shows "\<exists>h b p rs. unary_output ue valid time acts nu = Some (nu\<lparr>nu_store := h, nu_builder := b, nu_pushee := p\<rparr>)
    \<and> nu_ok ue (nu\<lparr>nu_store := h, nu_builder := b, nu_pushee := p\<rparr>)
    \<and> nu_ledger ue (nu\<lparr>nu_store := h, nu_builder := b, nu_pushee := p\<rparr>) = nu_ledger ue nu
    \<and> delivered p = delivered (nu_pushee nu) @ map (Pair time) rs \<and> rs \<in> shuffles (concat (map given acts)) (concat (map contained acts))"
proof -
  have g: "\<forall>n. n \<le> ue_grow ue n" and pr: "vec_get (oc_produced (ue_core ue)) 0 = Some (ue_produced ue)" using assms(1) by (simp_all add: unary_ok_def)
  have b: "ccb_ok (nu_builder nu)" "ccb_records (nu_builder nu) = []" using assms(2) by (simp_all add: nu_ok_def)
  from session_sends [OF g assms(3) b, of time "ue_produced ue" "nu_store nu" "nu_pushee nu" "ue_left ue" "ue_sz ue" acts]
  obtain ou ou' rs h p where k: "session_open (ue_debug ue) valid time (ue_produced ue) (nu_builder nu) (nu_store nu) (nu_pushee nu) = Some ou"
    "session_drop (ue_left ue) (fold (session_act (ue_grow ue) (ue_sz ue) (ue_left ue)) acts ou) = ou'" "ou_port ou' = Some (h, p)"
    "ccb_records (ou_builder ou') = []" "delivered p = delivered (nu_pushee nu) @ map (Pair time) rs" "rs \<in> shuffles (concat (map given acts)) (concat (map contained acts))"
    "\<forall>a. a \<noteq> ue_produced ue \<longrightarrow> h a = nu_store nu a"
    "\<forall>t. cb_count (h (ue_produced ue)) t = cb_count (nu_store nu (ue_produced ue)) t + (if t = time then int (length rs) else 0)" by blast
  let ?nu = "nu\<lparr>nu_store := h, nu_builder := ou_builder ou', nu_pushee := p\<rparr>"
  have "unary_output ue valid time acts nu = Some ?nu" by (simp add: unary_output_def pr k(1-3))
  moreover have "nu_ok ue ?nu" using assms(2) k(4) by (simp add: nu_ok_def ccb_ok_empty)
  moreover have "nu_ledger ue ?nu = nu_ledger ue nu"
  proof (intro ext)
    fix a t
    show "nu_ledger ue ?nu a t = nu_ledger ue nu a t"
      using k(7,8) by (cases "a = ue_produced ue") (auto simp: nu_ledger_def unaccounted_def k(5))
  qed
  ultimately show ?thesis using k(5,6) by blast
qed

section \<open>Capabilities of a notificator\<close>

lemma enable_caps: "enable le frontiers ps av h = (ps', av', h') \<Longrightarrow> fst ` set ps' \<union> fst ` set av' \<subseteq> fst ` set ps \<union> fst ` set av"
proof (induction le frontiers ps av h arbitrary: ps' av' h' rule: enable.induct)
  case (2 le frontiers c n ps av h)
  show ?case
  proof (cases "passed le frontiers (cap_time c)")
    case True
    obtain c' h1 where c: "cap_clone c h = (c', h1)" by (cases "cap_clone c h")
    obtain ps1 av1 h2 where e: "enable le frontiers ps (av @ [(c', n)]) h1 = (ps1, av1, h2)"
      by (cases "enable le frontiers ps (av @ [(c', n)]) h1")
    have "c' = c" using c by (auto simp: cap_clone_def cap_new_def)
    moreover have "ps' = (c, 0) # ps1" "av' = av1" using "2.prems" True c e by simp_all
    ultimately show ?thesis using "2.IH"(1) [OF True c [symmetric] HOL.refl e] by simp
  next
    case False
    obtain ps1 av1 h2 where e: "enable le frontiers ps av h = (ps1, av1, h2)" by (cases "enable le frontiers ps av h")
    moreover from this have "ps' = (c, n) # ps1" "av' = av1" using "2.prems" False by simp_all
    ultimately show ?thesis using "2.IH"(2) [OF False e] by (simp add: subset_insertI2)
  qed
qed simp

lemma make_available_caps:
  assumes "fn_make_available le frontiers (nt, h) = (nt', h')"
  shows "set (fn_caps nt') \<subseteq> set (fn_caps nt)"
proof (cases "fn_pending nt = []")
  case False
  define xs where "xs = merge_counts (sort_key (\<lambda>x. cap_time (fst x)) (fn_pending nt))"
  obtain p1 h1 where r1: "retain_counted xs h = (p1, h1)" by (cases "retain_counted xs h")
  obtain p2 av h2 where e: "enable le frontiers p1 (fn_available nt) h1 = (p2, av, h2)"
    by (cases "enable le frontiers p1 (fn_available nt) h1")
  obtain p3 h3 where r2: "retain_counted p2 h2 = (p3, h3)" by (cases "retain_counted p2 h2")
  have n: "fn_caps nt' = map fst p3 @ map fst av"
    using assms False by (auto simp: fn_make_available_def fn_caps_def xs_def [symmetric] r1 e r2)
  have x: "fst ` set xs = fst ` set (fn_pending nt)"
    unfolding xs_def by (metis merge_counts_fst list.set_map set_sort)
  have "set (fn_caps nt') \<subseteq> fst ` set p2 \<union> fst ` set av" using image_mono [OF retain_counted_facts(2) [OF r2], of fst] by (auto simp: n)
  also have "\<dots> \<subseteq> fst ` set p1 \<union> fst ` set (fn_available nt)" by (rule enable_caps [OF e])
  also have "\<dots> \<subseteq> fst ` set xs \<union> fst ` set (fn_available nt)" using image_mono [OF retain_counted_facts(2) [OF r1], of fst] by blast
  also have "\<dots> = set (fn_caps nt)" unfolding x by (simp add: fn_caps_def image_Un)
  finally show ?thesis .
qed (use assms in \<open>simp add: fn_make_available_def\<close>)

lemma pop_equal_set: "pop_equal tie front n av h = (n', rest, h') \<Longrightarrow> set rest \<subseteq> set av"
  using pop_equal_ok [of tie front n av h n' rest h' "[]"] mset_eq_setD by fastforce

lemma next_count_caps:
  assumes "fn_next_count le tie frontiers (nt, h) = (r, nt', h')"
  shows "set (fn_caps nt') \<subseteq> set (fn_caps nt)" and "r = Some (c, n) \<Longrightarrow> c \<in> set (fn_caps nt)"
proof -
  obtain nt1 h1 where m: "(if fn_available nt = [] then fn_make_available le frontiers (nt, h) else (nt, h)) = (nt1, h1)"
    by (cases "if fn_available nt = [] then fn_make_available le frontiers (nt, h) else (nt, h)")
  have s: "set (fn_caps nt1) \<subseteq> set (fn_caps nt)" using m make_available_caps [of le frontiers nt h nt1 h1] by (cases "fn_available nt = []") simp_all
  show "set (fn_caps nt') \<subseteq> set (fn_caps nt)" and "r = Some (c, n) \<Longrightarrow> c \<in> set (fn_caps nt)"
  proof (atomize (full), cases "heap_pop tie (fn_available nt1)")
    case None
    then show "set (fn_caps nt') \<subseteq> set (fn_caps nt) \<and> (r = Some (c, n) \<longrightarrow> c \<in> set (fn_caps nt))"
      using assms m s by (simp add: fn_next_count_def)
  next
    case (Some p)
    obtain x rest where p: "p = (x, rest)" by (cases p)
    obtain k rest' h2 where q: "pop_equal tie x (snd x) rest h1 = (k, rest', h2)" by (cases "pop_equal tie x (snd x) rest h1")
    have "r = Some (fst x, k)" "nt' = nt1\<lparr>fn_available := rest'\<rparr>" using assms m Some p q by (simp_all add: fn_next_count_def)
    moreover have "insert x (set rest') \<subseteq> set (fn_available nt1)"
      using mset_eq_setD [of "fn_available nt1" "x # rest"] heap_pop_Some(1) [OF Some [unfolded p]] pop_equal_set [OF q] by auto
    moreover from this have "fst x \<in> fst ` set (fn_available nt1)" "fst ` set rest' \<subseteq> fst ` set (fn_available nt1)" by auto
    ultimately show "set (fn_caps nt') \<subseteq> set (fn_caps nt) \<and> (r = Some (c, n) \<longrightarrow> c \<in> set (fn_caps nt))"
      using s by (simp add: fn_caps_def image_Un) blast
  qed
qed

text \<open>The times that are available before and after a notification was taken from a session.\<close>

lemma next_count_times:
  assumes "nf_inv le frontiers nt" and "fn_next_count le tie frontiers (nt, h) = (Some (c, n), nt', h')"
  shows "(\<lambda>x. cap_time (fst x)) ` set (fn_available nt) = insert (cap_time c) ((\<lambda>x. cap_time (fst x)) ` set (fn_available nt'))"
proof -
  obtain nt1 h1 where m: "(if fn_available nt = [] then fn_make_available le frontiers (nt, h) else (nt, h)) = (nt1, h1)"
    by (cases "if fn_available nt = [] then fn_make_available le frontiers (nt, h) else (nt, h)")
  have "fn_inv le frontiers nt" using assms(1) by (simp add: nf_inv_def)
  then have a: "fn_available nt1 = fn_available nt"
    using m assms(1) make_available_ok [of le frontiers nt h nt1 h1] by (cases "fn_available nt = []") simp_all
  obtain x rest where p: "heap_pop tie (fn_available nt1) = Some (x, rest)"
    using assms(2) m by (cases "heap_pop tie (fn_available nt1)") (auto simp: fn_next_count_def)
  obtain k rest' h2 where q: "pop_equal tie x (snd x) rest h1 = (k, rest', h2)" by (cases "pop_equal tie x (snd x) rest h1")
  have r: "c = fst x" "fn_available nt' = rest'" using assms(2) m p q by (auto simp: fn_next_count_def)
  from pop_equal_ok [OF q, of "[]"] obtain zs where z: "mset rest = mset (zs @ rest')" "\<forall>z \<in> set zs. cap_time (fst z) = cap_time (fst x)" by blast
  have "set (fn_available nt) = insert x (set zs \<union> set rest')"
    using mset_eq_setD [of "fn_available nt" "x # zs @ rest'"] heap_pop_Some(1) [OF p] z(1) by (simp add: a)
  then show ?thesis using z(2) by (auto simp: r)
qed

section \<open>Loops over notifications\<close>

text \<open>What is sent, and what is left captured, by steps that each send at one time.\<close>

primrec step_all :: "('x \<Rightarrow> 't) \<Rightarrow> ('x \<Rightarrow> 'u \<Rightarrow> 'e list \<times> 'u) \<Rightarrow> 'x list \<Rightarrow> 'u \<Rightarrow> ('t \<times> 'e) list \<times> 'u" where
  "step_all time step [] u = ([], u)"
| "step_all time step (x # xs) u =
     (let (es, u) = step x u; (rs, u) = step_all time step xs u in (map (Pair (time x)) es @ rs, u))"

text \<open>
  The contract of a closure given to \<open>for_each\<close>: a notification releases what is captured for its time, sends it with
  the capability of the notification, and drops that.  It requests no further notification.
\<close>

locale notify_body =
  fixes ue :: "('t::linorder, 's, 'e) unary_env"
    and body :: "'t request \<Rightarrow> ('t, 'e, 'u) notify_op \<Rightarrow> ('t, 'e, 'u) notify_op option"
    and release :: "'t \<Rightarrow> 'u \<Rightarrow> 'e list \<times> 'u"
  assumes body_ok: "unary_ok ue \<Longrightarrow> nu_ok ue nu \<Longrightarrow> cap_internal (fst r) = ue_internal ue
    \<Longrightarrow> \<exists>nu'. body r nu = Some nu' \<and> nu_ok ue nu' \<and> nu_notificator nu' = nu_notificator nu
      \<and> nu_user nu' = snd (release (cap_time (fst r)) (nu_user nu))
      \<and> delivered (nu_pushee nu') = delivered (nu_pushee nu) @ map (Pair (cap_time (fst r))) (fst (release (cap_time (fst r)) (nu_user nu)))
      \<and> (\<forall>a t. nu_ledger ue nu' a t = nu_ledger ue nu a t - holds [fst r] a t)"
begin

lemma loop_step:
  assumes "unary_ok ue" and "nf_inv (ue_le ue) frontiers (nu_notificator nu)" and "nu_ok ue nu"
    and "fn_next_count (ue_le ue) (ue_tie ue) frontiers (nu_notificator nu, nu_store nu) = (Some (c, n), nt1, h1)"
  shows "\<exists>nu'. notified_call body (c, n) ((nt1, h1), Some nu) = ((nu_notificator nu', nu_store nu'), Some nu')
    \<and> nu_ok ue nu' \<and> nu_notificator nu' = nt1 \<and> nu_user nu' = snd (release (cap_time c) (nu_user nu))
    \<and> delivered (nu_pushee nu') = delivered (nu_pushee nu) @ map (Pair (cap_time c)) (fst (release (cap_time c) (nu_user nu)))
    \<and> nu_ledger ue nu' = nu_ledger ue nu"
proof -
  define nu1 where "nu1 = nu\<lparr>nu_notificator := nt1, nu_store := h1\<rparr>"
  have i: "fn_inv (ue_le ue) frontiers (nu_notificator nu)" using assms(2) by (simp add: nf_inv_def)
  have u: "unaccounted (c # fn_caps nt1) h1 = unaccounted (fn_caps (nu_notificator nu)) (nu_store nu)" using next_count_ok [OF i assms(4)] by simp
  have "nu_ok ue nu1" "cap_internal c = ue_internal ue"
    using assms(3) next_count_caps(1) [OF assms(4)] next_count_caps(2) [OF assms(4) HOL.refl] by (auto simp: nu_ok_def nu1_def)
  from body_ok [OF assms(1) this(1), of "(c, n)"] this(2) obtain nu' where k: "body (c, n) nu1 = Some nu'" "nu_ok ue nu'" "nu_notificator nu' = nt1"
    "nu_user nu' = snd (release (cap_time c) (nu_user nu))"
    "delivered (nu_pushee nu') = delivered (nu_pushee nu) @ map (Pair (cap_time c)) (fst (release (cap_time c) (nu_user nu)))"
    "\<forall>a t. nu_ledger ue nu' a t = nu_ledger ue nu1 a t - holds [c] a t" by (auto simp: nu1_def)
  have "nu_ledger ue nu1 a t - holds [c] a t = nu_ledger ue nu a t" for a t
    using fun_cong [OF fun_cong [OF u, of a], of t] by (auto simp: nu_ledger_def nu1_def unaccounted_def algebra_simps)
  then have "nu_ledger ue nu' = nu_ledger ue nu" using k(6) by (simp add: fun_eq_iff)
  moreover have "notified_call body (c, n) ((nt1, h1), Some nu) = ((nu_notificator nu', nu_store nu'), Some nu')"
    using k(1) by (simp add: notified_call_def nu1_def)
  ultimately show ?thesis using k(2-5) by blast
qed

lemma notified_none:
  "fn_next_count (ue_le ue) (ue_tie ue) frontiers (nu_notificator nu, nu_store nu) = (None, nt1, h1)
   \<Longrightarrow> unary_notified ue frontiers body nu = Some (nu\<lparr>nu_notificator := nt1, nu_store := h1\<rparr>)"
  by (simp add: unary_notified_def nf_for_each_def fn_for_each_loop.simps)

lemma notified_some:
  "fn_next_count (ue_le ue) (ue_tie ue) frontiers (nu_notificator nu, nu_store nu) = (Some r, nh1)
   \<Longrightarrow> notified_call body r (nh1, Some nu) = ((nu_notificator nu', nu_store nu'), Some nu')
   \<Longrightarrow> unary_notified ue frontiers body nu = unary_notified ue frontiers body nu'"
  by (simp add: unary_notified_def nf_for_each_def fn_for_each_loop.simps [of _ _ _ _ "((nu_notificator nu, nu_store nu), Some nu)"])

lemma notified_ok:
  assumes "unary_ok ue" and "nf_inv (ue_le ue) frontiers (nu_notificator nu)" and "nu_ok ue nu"
  shows "\<exists>nu' ts. unary_notified ue frontiers body nu = Some nu' \<and> nu_ok ue nu'
    \<and> nf_inv (ue_le ue) frontiers (nu_notificator nu') \<and> fn_available (nu_notificator nu') = []
    \<and> sorted ts \<and> set ts = (\<lambda>x. cap_time (fst x)) ` set (fn_available (nu_notificator nu))
    \<and> (\<forall>t. t \<notin> set ts \<longrightarrow> fn_requested (nu_notificator nu') t = fn_requested (nu_notificator nu) t)
    \<and> nu_user nu' = snd (step_all id release ts (nu_user nu))
    \<and> delivered (nu_pushee nu') = delivered (nu_pushee nu) @ fst (step_all id release ts (nu_user nu))
    \<and> nu_ledger ue nu' = nu_ledger ue nu"
  using assms(2,3)
proof (induction "fn_size (nu_notificator nu)" arbitrary: nu rule: less_induct)
  case less
  let ?T = "\<lambda>nt. (\<lambda>x. cap_time (fst x)) ` set (fn_available nt)"
  obtain r nt1 h1 where n: "fn_next_count (ue_le ue) (ue_tie ue) frontiers (nu_notificator nu, nu_store nu) = (r, nt1, h1)"
    by (cases "fn_next_count (ue_le ue) (ue_tie ue) frontiers (nu_notificator nu, nu_store nu)")
  have i: "fn_inv (ue_le ue) frontiers (nu_notificator nu)" using less.prems(1) by (simp add: nf_inv_def)
  note k = next_count_ok [OF i n]
  show ?case
  proof (cases r)
    case None
    let ?nu = "nu\<lparr>nu_notificator := nt1, nu_store := h1\<rparr>"
    have "unary_notified ue frontiers body nu = Some ?nu" using n None by (simp add: notified_none)
    moreover have "nu_ok ue ?nu" using less.prems(2) next_count_caps(1) [OF n] by (auto simp: nu_ok_def)
    moreover have "nu_ledger ue ?nu = nu_ledger ue nu" using k None by (simp add: nu_ledger_def fun_eq_iff)
    ultimately show ?thesis using k None less.prems(1) by (intro exI [of _ ?nu] exI [of _ "[]"]) simp
  next
    case (Some p)
    obtain c m where p: "p = (c, m)" by (cases p)
    from loop_step [OF assms(1) less.prems n [unfolded Some p]] obtain nu1 where
      s: "notified_call body (c, m) ((nt1, h1), Some nu) = ((nu_notificator nu1, nu_store nu1), Some nu1)" "nu_ok ue nu1" "nu_notificator nu1 = nt1"
      "nu_user nu1 = snd (release (cap_time c) (nu_user nu))"
      "delivered (nu_pushee nu1) = delivered (nu_pushee nu) @ map (Pair (cap_time c)) (fst (release (cap_time c) (nu_user nu)))"
      "nu_ledger ue nu1 = nu_ledger ue nu" by blast
    have k': "nf_inv (ue_le ue) frontiers nt1" "fn_size nt1 < fn_size (nu_notificator nu)" "\<forall>x \<in> set (fn_available nt1). cap_time c \<le> cap_time (fst x)"
      "cap_time c \<in> ?T (nu_notificator nu)" "\<forall>t. (if cap_time c = t then m else 0) + fn_requested nt1 t = fn_requested (nu_notificator nu) t"
      using k less.prems(1) Some p by auto
    have T: "?T (nu_notificator nu) = insert (cap_time c) (?T nt1)"
      using next_count_times [OF less.prems(1) n [unfolded Some p]] .
    from less.hyps [of nu1] k'(1,2) s(2,3) obtain nu' ts where
      ih: "unary_notified ue frontiers body nu1 = Some nu'" "nu_ok ue nu'" "nf_inv (ue_le ue) frontiers (nu_notificator nu')"
      "fn_available (nu_notificator nu') = []" "sorted ts" "set ts = ?T nt1"
      "\<forall>t. t \<notin> set ts \<longrightarrow> fn_requested (nu_notificator nu') t = fn_requested nt1 t"
      "nu_user nu' = snd (step_all id release ts (nu_user nu1))"
      "delivered (nu_pushee nu') = delivered (nu_pushee nu1) @ fst (step_all id release ts (nu_user nu1))" "nu_ledger ue nu' = nu_ledger ue nu1" by auto
    have "unary_notified ue frontiers body nu = Some nu'" using notified_some [OF n [unfolded Some p] s(1)] ih(1) by simp
    moreover have "sorted (cap_time c # ts)" using ih(5,6) k'(3) by auto
    moreover have "set (cap_time c # ts) = ?T (nu_notificator nu)" using ih(6) T by simp
    moreover have "\<forall>t. t \<notin> set (cap_time c # ts) \<longrightarrow> fn_requested (nu_notificator nu') t = fn_requested (nu_notificator nu) t"
      using ih(7) k'(5) by (metis add_0 list.set_intros(1,2))
    ultimately show ?thesis using ih s(4-6)
      by (intro exI [of _ nu'] exI [of _ "cap_time c # ts"]) (simp add: case_prod_beta Let_def)
  qed
qed

end

section \<open>Reading the input of a unary operator\<close>

definition input_cap_ok :: "('t, 's, 'e) unary_env \<Rightarrow> ('t, 's) input_capability \<Rightarrow> bool" where
  "input_cap_ok ue c \<longleftrightarrow> ic_internal c = oc_internal (ue_core ue) \<and> ic_summaries c = oc_summaries (ue_core ue) ! 0"

abbreviation timed_groups :: "(('t, 's) input_capability \<times> 'd list list) list \<Rightarrow> ('t \<times> 'd list list) list" where
  "timed_groups gs \<equiv> map (\<lambda>g. (ic_time (fst g), snd g)) gs"

text \<open>The messages \<open>q\<close> gathered by time, in increasing order.\<close>

definition groups_of :: "('t::linorder, 'd) message list \<Rightarrow> ('t \<times> 'd list list) list \<Rightarrow> bool" where
  "groups_of q grps \<longleftrightarrow> concat (map (\<lambda>(t, ds). map (Pair t) ds) grps) = sort_key fst q \<and> sorted_wrt (<) (map fst grps) \<and> [] \<notin> snd ` set grps"

lemma guarded_input_calls: "guarded (map fst (input_calls oc consumed summaries q)) a t = (if a = consumed then queued q t else 0)"
  unfolding input_calls_def by (induction q) (auto simp: ic_time_def)

lemma unary_input_ok:
  assumes "unary_ok ue"
  shows "\<exists>gs h. unary_input ue q nu = Some (gs, nu\<lparr>nu_store := h\<rparr>) \<and> groups_of q (timed_groups gs) \<and> (\<forall>g \<in> set gs. input_cap_ok ue (fst g))
    \<and> (\<forall>a t. cb_count (h a) t + guarded (map fst gs) a t = cb_count (nu_store nu a) t + (if a = ue_consumed ue then queued q t else 0))"
proof -
  let ?oc = "ue_core ue"
  let ?ss = "\<lparr>os_store = nu_store nu, os_caps = [], os_incaps = [], os_queues = [q], os_sent = []\<rparr> :: ('a, 'b, 'd) op_session"
  have "0 < length (os_queues ?ss)" "0 < length (oc_consumed ?oc)" "0 < length (oc_summaries ?oc)" using assms by (simp_all add: unary_ok_def)
  from for_each_time_groups [OF this] obtain gs h where k: "fst ` set gs \<subseteq> fst ` set (input_calls ?oc (ue_consumed ue) (oc_summaries ?oc ! 0) q)"
    "for_each_time ?oc 0 ?ss = Some (gs, ?ss\<lparr>os_queues := [[]], os_store := h\<rparr>)"
    "concat (map (\<lambda>(c, ds). map (Pair (ic_time c)) ds) gs) = sort_key fst q" "sorted_wrt (<) (map (\<lambda>g. ic_time (fst g)) gs) \<and> [] \<notin> snd ` set gs"
    "\<forall>a t. cb_count (h a) t + guarded (map fst gs) a t = cb_count (nu_store nu a) t + guarded (map fst (input_calls ?oc (ue_consumed ue) (oc_summaries ?oc ! 0) q)) a t"
    by auto
  have "unary_input ue q nu = Some (gs, nu\<lparr>nu_store := h\<rparr>)" by (simp add: unary_input_def k(2))
  moreover have "groups_of q (timed_groups gs)" using k(3,4) by (simp add: groups_of_def comp_def case_prod_unfold image_image)
  moreover have "input_cap_ok ue (fst g)" if "g \<in> set gs" for g
  proof -
    have "fst g \<in> fst ` set (input_calls ?oc (ue_consumed ue) (oc_summaries ?oc ! 0) q)" using k(1) that by blast
    then show ?thesis by (auto simp: input_cap_ok_def input_calls_def)
  qed
  ultimately show ?thesis using k(5) by (auto simp: guarded_input_calls)
qed

section \<open>Operators that release by time\<close>

text \<open>There are requests for exactly the times that something is captured for.\<close>

definition covers :: "('u \<Rightarrow> 't set) \<Rightarrow> ('t, 'e, 'u) notify_op \<Rightarrow> bool" where
  "covers keys nu \<longleftrightarrow> (\<forall>t. 0 < fn_requested (nu_notificator nu) t \<longleftrightarrow> t \<in> keys (nu_user nu))"

text \<open>The state between two calls of the logic: nothing is available, which depends on the frontier.\<close>

definition notify_inv :: "('t, 's, 'e) unary_env \<Rightarrow> ('u \<Rightarrow> 't set) \<Rightarrow> ('t, 'e, 'u) notify_op \<Rightarrow> bool" where
  "notify_inv ue keys nu \<longleftrightarrow> nu_ok ue nu \<and> covers keys nu \<and> fn_available (nu_notificator nu) = []
     \<and> (\<forall>x \<in> set (fn_pending (nu_notificator nu)). 0 < snd x)"

lemma requested_pos: "0 < requested xs t \<longleftrightarrow> (\<exists>x \<in> set xs. cap_time (fst x) = t \<and> 0 < snd x)"
  by (induction xs) auto

lemma available_times:
  assumes "nf_inv le frontiers nt"
  shows "(\<lambda>x. cap_time (fst x)) ` set (fn_available nt) = {t. 0 < fn_requested nt t \<and> passed le frontiers t}"
  using assms by (auto simp: fn_requested_def requested_pos nf_inv_def fn_inv_def)

lemma make_available_phase:
  assumes "notify_inv ue keys nu" and "fn_make_available (ue_le ue) frontiers (nu_notificator nu, nu_store nu) = (nt, h)"
  defines "nu1 \<equiv> nu\<lparr>nu_notificator := nt, nu_store := h\<rparr>"
  shows "nu_ok ue nu1" "covers keys nu1" "nf_inv (ue_le ue) frontiers nt" "nu_ledger ue nu1 = nu_ledger ue nu"
proof -
  have "fn_inv (ue_le ue) frontiers (nu_notificator nu)" using assms(1) by (simp add: notify_inv_def fn_inv_def)
  note k = make_available_ok [OF this assms(2)]
  show "nf_inv (ue_le ue) frontiers nt" using k by blast
  show "nu_ok ue nu1" using assms(1) make_available_caps [OF assms(2)] by (auto simp: notify_inv_def nu_ok_def nu1_def)
  show "covers keys nu1" using assms(1) k by (simp add: notify_inv_def covers_def nu1_def)
  show "nu_ledger ue nu1 = nu_ledger ue nu" using k by (simp add: nu_ledger_def nu1_def fun_eq_iff)
qed

text \<open>The messages are absorbed group by group, and then what is captured for passed times is released in order; or the other way around.\<close>

definition absorb_then_release ::
  "('t::linorder \<times> 'd list list \<Rightarrow> 'u \<Rightarrow> 'e list \<times> 'u) \<Rightarrow> ('t \<Rightarrow> 'u \<Rightarrow> 'e list \<times> 'u) \<Rightarrow> ('u \<Rightarrow> 't set) \<Rightarrow> ('t \<Rightarrow> bool) \<Rightarrow> ('t, 'd) message list
   \<Rightarrow> 'u \<Rightarrow> ('t \<times> 'e) list \<Rightarrow> 'u \<Rightarrow> ('t \<times> 'e) list \<Rightarrow> bool" where
  "absorb_then_release absorb release keys pass q u d u' d' \<longleftrightarrow>
     (\<exists>grps ts. let (rs1, u1) = step_all fst absorb grps u; (rs2, u2) = step_all id release ts u1
        in groups_of q grps \<and> sorted ts \<and> set ts = {t \<in> keys u1. pass t} \<and> u' = u2 \<and> d' = d @ rs1 @ rs2)"

definition release_then_absorb ::
  "('t::linorder \<Rightarrow> 'u \<Rightarrow> 'e list \<times> 'u) \<Rightarrow> ('t \<times> 'd list list \<Rightarrow> 'u \<Rightarrow> 'e list \<times> 'u) \<Rightarrow> ('u \<Rightarrow> 't set) \<Rightarrow> ('t \<Rightarrow> bool) \<Rightarrow> ('t, 'd) message list
   \<Rightarrow> 'u \<Rightarrow> ('t \<times> 'e) list \<Rightarrow> 'u \<Rightarrow> ('t \<times> 'e) list \<Rightarrow> bool" where
  "release_then_absorb release absorb keys pass q u d u' d' \<longleftrightarrow>
     (\<exists>grps ts. let (rs1, u1) = step_all id release ts u; (rs2, u2) = step_all fst absorb grps u1
        in groups_of q grps \<and> sorted ts \<and> set ts = {t \<in> keys u. pass t} \<and> u' = u2 \<and> d' = d @ rs1 @ rs2)"

lemma input_ledger:
  assumes "\<forall>a t. cb_count (h a) t + guarded cs a t = cb_count (nu_store nu1 a) t + (if a = ue_consumed ue then queued q t else 0)"
    and "nu_ledger ue nu1 = l" and "\<forall>a t. nu_ledger ue nu2 a t = nu_ledger ue (nu1\<lparr>nu_store := h\<rparr>) a t + guarded cs a t"
  shows "\<forall>a t. nu_ledger ue nu2 a t = l a t + (if a = ue_consumed ue then queued q t else 0)"
proof (intro allI)
  fix a t
  have "nu_ledger ue (nu1\<lparr>nu_store := h\<rparr>) a t = nu_ledger ue nu1 a t + cb_count (h a) t - cb_count (nu_store nu1 a) t"
    by (simp add: nu_ledger_def unaccounted_def)
  moreover have "cb_count (h a) t + guarded cs a t = cb_count (nu_store nu1 a) t + (if a = ue_consumed ue then queued q t else 0)" using assms(1) by blast
  ultimately show "nu_ledger ue nu2 a t = l a t + (if a = ue_consumed ue then queued q t else 0)" using assms(2,3) by simp
qed

text \<open>A call of the logic inherits what its closure does.\<close>

lemma notify_call_ok:
  assumes "unary_ok ue" and "notify_inv ue keys nu"
    and "\<And>nu1. nu_ok ue nu1 \<Longrightarrow> covers keys nu1 \<Longrightarrow> nf_inv (ue_le ue) [frontier] (nu_notificator nu1) \<Longrightarrow> nu_user nu1 = nu_user nu
      \<Longrightarrow> delivered (nu_pushee nu1) = delivered (nu_pushee nu) \<Longrightarrow> nu_ledger ue nu1 = nu_ledger ue nu
      \<Longrightarrow> \<exists>nu2. logic [frontier] q nu1 = Some nu2 \<and> notify_inv ue keys nu2 \<and> P (nu_user nu2) (delivered (nu_pushee nu2)) (nu_ledger ue nu2)"
  shows "\<exists>nu'. unary_notify_call ue logic frontier q nu = Some nu' \<and> notify_inv ue keys nu' \<and> P (nu_user nu') (delivered (nu_pushee nu')) (nu_ledger ue nu')"
proof -
  obtain nt h where m: "fn_make_available (ue_le ue) [frontier] (nu_notificator nu, nu_store nu) = (nt, h)"
    by (cases "fn_make_available (ue_le ue) [frontier] (nu_notificator nu, nu_store nu)")
  from assms(3) [of "nu\<lparr>nu_notificator := nt, nu_store := h\<rparr>"] make_available_phase [OF assms(2) m] obtain nu2 where
    l: "logic [frontier] q (nu\<lparr>nu_notificator := nt, nu_store := h\<rparr>) = Some nu2" "notify_inv ue keys nu2"
    "P (nu_user nu2) (delivered (nu_pushee nu2)) (nu_ledger ue nu2)" by auto
  obtain h2 p2 where c: "counter_push (ue_produced ue) None (nu_store nu2) (nu_pushee nu2) = (h2, p2)"
    by (cases "counter_push (ue_produced ue) None (nu_store nu2) (nu_pushee nu2)")
  let ?nu = "nu2\<lparr>nu_store := h2, nu_pushee := p2\<rparr>"
  have pr: "vec_get (oc_produced (ue_core ue)) 0 = Some (ue_produced ue)" using assms(1) by (simp add: unary_ok_def)
  have "unary_notify_call ue logic frontier q nu = Some ?nu" by (simp add: unary_notify_call_def nf_new_def m l(1) pr c)
  moreover obtain e b where e: "cb_is_empty (nu_store nu2 (ue_produced ue)) = (e, b)" by (cases "cb_is_empty (nu_store nu2 (ue_produced ue))")
  then have "cb_count b t = cb_count (nu_store nu2 (ue_produced ue)) t" for t by (metis is_empty_count snd_conv)
  then have "delivered p2 = delivered (nu_pushee nu2)" "cb_count (h2 a) t = cb_count (nu_store nu2 a) t" for a t
    using c e by (auto simp: counter_push_def)
  moreover from this have "nu_ledger ue ?nu = nu_ledger ue nu2" by (simp add: nu_ledger_def unaccounted_def fun_eq_iff)
  moreover have "notify_inv ue keys ?nu" using l(2) by (simp add: notify_inv_def nu_ok_def covers_def)
  ultimately show ?thesis using l(3) by (intro exI [of _ ?nu]) simp
qed

text \<open>The contract of the closure given to \<open>for_each_time\<close>: it captures the records of one time, or sends them at once.\<close>

locale notify_operator = notify_body ue body release
  for ue :: "('t::linorder, 's, 'e) unary_env" and body :: "'t request \<Rightarrow> ('t, 'e, 'u) notify_op \<Rightarrow> ('t, 'e, 'u) notify_op option"
    and release :: "'t \<Rightarrow> 'u \<Rightarrow> 'e list \<times> 'u" +
  fixes input :: "'t mutable_antichain list \<Rightarrow> ('t, 's) input_capability \<times> 'd list list \<Rightarrow> ('t, 'e, 'u) notify_op \<Rightarrow> ('t, 'e, 'u) notify_op option"
    and absorb :: "'t mutable_antichain list \<Rightarrow> 't \<times> 'd list list \<Rightarrow> 'u \<Rightarrow> 'e list \<times> 'u"
    and keys :: "'u \<Rightarrow> 't set"
    and pre :: "'t mutable_antichain list \<Rightarrow> 't \<times> 'd list list \<Rightarrow> bool"
  assumes keys_release: "keys (snd (release t u)) = keys u - {t}"
    and input_ok: "unary_ok ue \<Longrightarrow> input_cap_ok ue (fst g) \<Longrightarrow> pre frontiers (ic_time (fst g), snd g) \<Longrightarrow> nu_ok ue nu \<Longrightarrow> covers keys nu
      \<Longrightarrow> nf_inv (ue_le ue) frontiers (nu_notificator nu)
      \<Longrightarrow> \<exists>nu'. input frontiers g nu = Some nu' \<and> nu_ok ue nu' \<and> covers keys nu' \<and> nf_inv (ue_le ue) frontiers (nu_notificator nu')
        \<and> nu_user nu' = snd (absorb frontiers (ic_time (fst g), snd g) (nu_user nu))
        \<and> delivered (nu_pushee nu') = delivered (nu_pushee nu) @ map (Pair (ic_time (fst g))) (fst (absorb frontiers (ic_time (fst g), snd g) (nu_user nu)))
        \<and> (\<forall>a t. nu_ledger ue nu' a t = nu_ledger ue nu a t + guarded [fst g] a t)"
begin

lemma inputs_ok:
  assumes "unary_ok ue" and "\<forall>g \<in> set gs. input_cap_ok ue (fst g)" and "\<forall>g \<in> set (timed_groups gs). pre frontiers g"
    and "nu_ok ue nu" and "covers keys nu" and "nf_inv (ue_le ue) frontiers (nu_notificator nu)"
  shows "\<exists>nu'. try_fold (input frontiers) gs nu = Some nu' \<and> nu_ok ue nu' \<and> covers keys nu' \<and> nf_inv (ue_le ue) frontiers (nu_notificator nu')
    \<and> nu_user nu' = snd (step_all fst (absorb frontiers) (timed_groups gs) (nu_user nu))
    \<and> delivered (nu_pushee nu') = delivered (nu_pushee nu) @ fst (step_all fst (absorb frontiers) (timed_groups gs) (nu_user nu))
    \<and> (\<forall>a t. nu_ledger ue nu' a t = nu_ledger ue nu a t + guarded (map fst gs) a t)"
  using assms(2-)
proof (induction gs arbitrary: nu)
  case (Cons g gs)
  from input_ok [OF assms(1) _ _ Cons.prems(3-5), of g] Cons.prems(1,2) obtain nu1 where
    k: "input frontiers g nu = Some nu1" "nu_ok ue nu1" "covers keys nu1" "nf_inv (ue_le ue) frontiers (nu_notificator nu1)"
    "nu_user nu1 = snd (absorb frontiers (ic_time (fst g), snd g) (nu_user nu))"
    "delivered (nu_pushee nu1) = delivered (nu_pushee nu) @ map (Pair (ic_time (fst g))) (fst (absorb frontiers (ic_time (fst g), snd g) (nu_user nu)))"
    "\<forall>a t. nu_ledger ue nu1 a t = nu_ledger ue nu a t + guarded [fst g] a t" by auto
  from Cons.IH [OF _ _ k(2-4)] Cons.prems(1,2) obtain nu' where
    ih: "try_fold (input frontiers) gs nu1 = Some nu'" "nu_ok ue nu'" "covers keys nu'" "nf_inv (ue_le ue) frontiers (nu_notificator nu')"
    "nu_user nu' = snd (step_all fst (absorb frontiers) (timed_groups gs) (nu_user nu1))"
    "delivered (nu_pushee nu') = delivered (nu_pushee nu1) @ fst (step_all fst (absorb frontiers) (timed_groups gs) (nu_user nu1))"
    "\<forall>a t. nu_ledger ue nu' a t = nu_ledger ue nu1 a t + guarded (map fst gs) a t" by auto
  have "try_fold (input frontiers) (g # gs) nu = Some nu'" using k(1) ih(1) by simp
  with ih k(5-7) show ?case by (intro exI [of _ nu']) (simp add: case_prod_beta Let_def)
qed simp

lemma keys_step_all: "keys (snd (step_all id release ts u)) = keys u - set ts"
  by (induction ts arbitrary: u) (auto simp: case_prod_beta Let_def keys_release)

lemma notified_phase:
  assumes "unary_ok ue" and "nu_ok ue nu" and "covers keys nu" and "nf_inv (ue_le ue) frontiers (nu_notificator nu)"
  shows "\<exists>nu' ts. unary_notified ue frontiers body nu = Some nu' \<and> notify_inv ue keys nu' \<and> nf_inv (ue_le ue) frontiers (nu_notificator nu')
    \<and> sorted ts \<and> set ts = {t \<in> keys (nu_user nu). passed (ue_le ue) frontiers t}
    \<and> nu_user nu' = snd (step_all id release ts (nu_user nu))
    \<and> delivered (nu_pushee nu') = delivered (nu_pushee nu) @ fst (step_all id release ts (nu_user nu)) \<and> nu_ledger ue nu' = nu_ledger ue nu"
proof -
  from notified_ok [OF assms(1,4,2)] obtain nu' ts where
    k: "unary_notified ue frontiers body nu = Some nu'" "nu_ok ue nu'" "nf_inv (ue_le ue) frontiers (nu_notificator nu')"
    "fn_available (nu_notificator nu') = []" "sorted ts" "set ts = (\<lambda>x. cap_time (fst x)) ` set (fn_available (nu_notificator nu))"
    "\<forall>t. t \<notin> set ts \<longrightarrow> fn_requested (nu_notificator nu') t = fn_requested (nu_notificator nu) t"
    "nu_user nu' = snd (step_all id release ts (nu_user nu))"
    "delivered (nu_pushee nu') = delivered (nu_pushee nu) @ fst (step_all id release ts (nu_user nu))" "nu_ledger ue nu' = nu_ledger ue nu" by blast
  have ts: "set ts = {t \<in> keys (nu_user nu). passed (ue_le ue) frontiers t}"
    using k(6) available_times [OF assms(4)] assms(3) by (auto simp: covers_def)
  have z: "fn_requested (nu_notificator nu') t = 0" if "passed (ue_le ue) frontiers t" for t
    using available_times [OF k(3)] k(4) that by auto
  have "covers keys nu'" unfolding covers_def k(8) keys_step_all
  proof
    fix t
    show "0 < fn_requested (nu_notificator nu') t \<longleftrightarrow> t \<in> keys (nu_user nu) - set ts"
      using z [of t] k(7) ts assms(3) by (cases "t \<in> set ts") (simp_all add: covers_def)
  qed
  then have "notify_inv ue keys nu'" using k(2-4) by (simp add: notify_inv_def nf_inv_def fn_inv_def)
  then show ?thesis using k ts by blast
qed

text \<open>Operators that read their input and then take their notifications.\<close>

lemma input_first:
  assumes "unary_ok ue" and "notify_inv ue keys nu" and "\<And>grps. groups_of q grps \<Longrightarrow> \<forall>g \<in> set grps. pre [frontier] g"
  shows "\<exists>nu'. unary_notify_call ue (\<lambda>frontiers q nu.
         do { (gs, nu) \<leftarrow> unary_input ue q nu; nu \<leftarrow> try_fold (input frontiers) gs nu; unary_notified ue frontiers body nu }) frontier q nu = Some nu'
    \<and> notify_inv ue keys nu'
    \<and> absorb_then_release (absorb [frontier]) release keys (passed (ue_le ue) [frontier]) q (nu_user nu) (delivered (nu_pushee nu)) (nu_user nu') (delivered (nu_pushee nu'))
    \<and> (\<forall>a t. nu_ledger ue nu' a t = nu_ledger ue nu a t + (if a = ue_consumed ue then queued q t else 0))"
proof (rule notify_call_ok [OF assms(1,2), where P = "\<lambda>u d l.
    absorb_then_release (absorb [frontier]) release keys (passed (ue_le ue) [frontier]) q (nu_user nu) (delivered (nu_pushee nu)) u d
    \<and> (\<forall>a t. l a t = nu_ledger ue nu a t + (if a = ue_consumed ue then queued q t else 0))"])
  fix nu1
  assume h: "nu_ok ue nu1" "covers keys nu1" "nf_inv (ue_le ue) [frontier] (nu_notificator nu1)" "nu_user nu1 = nu_user nu"
    "delivered (nu_pushee nu1) = delivered (nu_pushee nu)" "nu_ledger ue nu1 = nu_ledger ue nu"
  from unary_input_ok [OF assms(1)] obtain gs h where
    i: "unary_input ue q nu1 = Some (gs, nu1\<lparr>nu_store := h\<rparr>)" "groups_of q (timed_groups gs)" "\<forall>g \<in> set gs. input_cap_ok ue (fst g)"
    "\<forall>a t. cb_count (h a) t + guarded (map fst gs) a t = cb_count (nu_store nu1 a) t + (if a = ue_consumed ue then queued q t else 0)" by blast
  let ?nu = "nu1\<lparr>nu_store := h\<rparr>"
  have "nu_ok ue ?nu" "covers keys ?nu" "nf_inv (ue_le ue) [frontier] (nu_notificator ?nu)" using h(1-3) by (simp_all add: nu_ok_def covers_def)
  from inputs_ok [OF assms(1) i(3) assms(3) [OF i(2)] this] obtain nu2 where
    j: "try_fold (input [frontier]) gs ?nu = Some nu2" "nu_ok ue nu2" "covers keys nu2" "nf_inv (ue_le ue) [frontier] (nu_notificator nu2)"
    "nu_user nu2 = snd (step_all fst (absorb [frontier]) (timed_groups gs) (nu_user nu))"
    "delivered (nu_pushee nu2) = delivered (nu_pushee nu) @ fst (step_all fst (absorb [frontier]) (timed_groups gs) (nu_user nu))"
    "\<forall>a t. nu_ledger ue nu2 a t = nu_ledger ue ?nu a t + guarded (map fst gs) a t" using h(4,5) by auto
  note l = input_ledger [OF i(4) h(6) j(7)]
  from notified_phase [OF assms(1) j(2-4)] obtain nu3 ts where
    n: "unary_notified ue [frontier] body nu2 = Some nu3" "notify_inv ue keys nu3" "sorted ts"
    "set ts = {t \<in> keys (nu_user nu2). passed (ue_le ue) [frontier] t}" "nu_user nu3 = snd (step_all id release ts (nu_user nu2))"
    "delivered (nu_pushee nu3) = delivered (nu_pushee nu2) @ fst (step_all id release ts (nu_user nu2))" "nu_ledger ue nu3 = nu_ledger ue nu2" by blast
  have "absorb_then_release (absorb [frontier]) release keys (passed (ue_le ue) [frontier]) q (nu_user nu) (delivered (nu_pushee nu)) (nu_user nu3) (delivered (nu_pushee nu3))"
    unfolding absorb_then_release_def using i(2) j(5,6) n(3-6) by (intro exI [of _ "timed_groups gs"] exI [of _ ts]) (simp add: case_prod_unfold Let_def)
  with i(1) j(1) l n(1,2,7)
  show "\<exists>nu3. do { (gs, nu) \<leftarrow> unary_input ue q nu1; nu \<leftarrow> try_fold (input [frontier]) gs nu; unary_notified ue [frontier] body nu } = Some nu3
    \<and> notify_inv ue keys nu3
    \<and> absorb_then_release (absorb [frontier]) release keys (passed (ue_le ue) [frontier]) q (nu_user nu) (delivered (nu_pushee nu)) (nu_user nu3) (delivered (nu_pushee nu3))
    \<and> (\<forall>a t. nu_ledger ue nu3 a t = nu_ledger ue nu a t + (if a = ue_consumed ue then queued q t else 0))"
    by (intro exI [of _ nu3]) simp
qed

text \<open>Operators that take their notifications and then read their input.\<close>

lemma notify_first:
  assumes "unary_ok ue" and "notify_inv ue keys nu" and "\<And>grps. groups_of q grps \<Longrightarrow> \<forall>g \<in> set grps. pre [frontier] g"
    and "\<And>grps u. \<forall>t \<in> keys u. \<not> passed (ue_le ue) [frontier] t \<Longrightarrow> \<forall>t \<in> keys (snd (step_all fst (absorb [frontier]) grps u)). \<not> passed (ue_le ue) [frontier] t"
  shows "\<exists>nu'. unary_notify_call ue (\<lambda>frontiers q nu.
         do { nu \<leftarrow> unary_notified ue frontiers body nu; (gs, nu) \<leftarrow> unary_input ue q nu; try_fold (input frontiers) gs nu }) frontier q nu = Some nu'
    \<and> notify_inv ue keys nu'
    \<and> release_then_absorb release (absorb [frontier]) keys (passed (ue_le ue) [frontier]) q (nu_user nu) (delivered (nu_pushee nu)) (nu_user nu') (delivered (nu_pushee nu'))
    \<and> (\<forall>a t. nu_ledger ue nu' a t = nu_ledger ue nu a t + (if a = ue_consumed ue then queued q t else 0))"
proof (rule notify_call_ok [OF assms(1,2), where P = "\<lambda>u d l.
    release_then_absorb release (absorb [frontier]) keys (passed (ue_le ue) [frontier]) q (nu_user nu) (delivered (nu_pushee nu)) u d
    \<and> (\<forall>a t. l a t = nu_ledger ue nu a t + (if a = ue_consumed ue then queued q t else 0))"])
  fix nu1
  assume h: "nu_ok ue nu1" "covers keys nu1" "nf_inv (ue_le ue) [frontier] (nu_notificator nu1)" "nu_user nu1 = nu_user nu"
    "delivered (nu_pushee nu1) = delivered (nu_pushee nu)" "nu_ledger ue nu1 = nu_ledger ue nu"
  from notified_phase [OF assms(1) h(1-3)] obtain nu2 ts where
    n: "unary_notified ue [frontier] body nu1 = Some nu2" "notify_inv ue keys nu2" "nf_inv (ue_le ue) [frontier] (nu_notificator nu2)" "sorted ts"
    "set ts = {t \<in> keys (nu_user nu). passed (ue_le ue) [frontier] t}" "nu_user nu2 = snd (step_all id release ts (nu_user nu))"
    "delivered (nu_pushee nu2) = delivered (nu_pushee nu) @ fst (step_all id release ts (nu_user nu))" "nu_ledger ue nu2 = nu_ledger ue nu"
    using h(4-6) by auto
  have np: "\<forall>t \<in> keys (nu_user nu2). \<not> passed (ue_le ue) [frontier] t" using n(5,6) by (simp add: keys_step_all)
  from unary_input_ok [OF assms(1)] obtain gs h where
    i: "unary_input ue q nu2 = Some (gs, nu2\<lparr>nu_store := h\<rparr>)" "groups_of q (timed_groups gs)" "\<forall>g \<in> set gs. input_cap_ok ue (fst g)"
    "\<forall>a t. cb_count (h a) t + guarded (map fst gs) a t = cb_count (nu_store nu2 a) t + (if a = ue_consumed ue then queued q t else 0)" by blast
  let ?nu = "nu2\<lparr>nu_store := h\<rparr>"
  have "nu_ok ue ?nu" "covers keys ?nu" "nf_inv (ue_le ue) [frontier] (nu_notificator ?nu)"
    using n(2,3) by (simp_all add: notify_inv_def nu_ok_def covers_def)
  from inputs_ok [OF assms(1) i(3) assms(3) [OF i(2)] this] obtain nu3 where
    j: "try_fold (input [frontier]) gs ?nu = Some nu3" "nu_ok ue nu3" "covers keys nu3" "nf_inv (ue_le ue) [frontier] (nu_notificator nu3)"
    "nu_user nu3 = snd (step_all fst (absorb [frontier]) (timed_groups gs) (nu_user nu2))"
    "delivered (nu_pushee nu3) = delivered (nu_pushee nu2) @ fst (step_all fst (absorb [frontier]) (timed_groups gs) (nu_user nu2))"
    "\<forall>a t. nu_ledger ue nu3 a t = nu_ledger ue ?nu a t + guarded (map fst gs) a t" by auto
  note l = input_ledger [OF i(4) n(8) j(7)]
  have "(\<lambda>x. cap_time (fst x)) ` set (fn_available (nu_notificator nu3)) = {}"
    unfolding available_times [OF j(4)] using assms(4) [OF np, of "timed_groups gs"] j(3,5) by (auto simp: covers_def)
  then have v: "notify_inv ue keys nu3" using j(2-4) by (simp add: notify_inv_def nf_inv_def fn_inv_def)
  have "release_then_absorb release (absorb [frontier]) keys (passed (ue_le ue) [frontier]) q (nu_user nu) (delivered (nu_pushee nu)) (nu_user nu3) (delivered (nu_pushee nu3))"
    unfolding release_then_absorb_def using i(2) j(5,6) n(4-7) by (intro exI [of _ "timed_groups gs"] exI [of _ ts]) (simp add: case_prod_unfold Let_def)
  with i(1) j(1) l n(1) v
  show "\<exists>nu3. do { nu \<leftarrow> unary_notified ue [frontier] body nu1; (gs, nu) \<leftarrow> unary_input ue q nu; try_fold (input [frontier]) gs nu } = Some nu3
    \<and> notify_inv ue keys nu3
    \<and> release_then_absorb release (absorb [frontier]) keys (passed (ue_le ue) [frontier]) q (nu_user nu) (delivered (nu_pushee nu)) (nu_user nu3) (delivered (nu_pushee nu3))
    \<and> (\<forall>a t. nu_ledger ue nu3 a t = nu_ledger ue nu a t + (if a = ue_consumed ue then queued q t else 0))"
    by (intro exI [of _ nu3]) simp
qed

end

end
