(* ===== verification/Notify_Props.thy ===== *)
theory Notify_Props
  imports Notify_Operators
begin

text \<open>
  What the operators of \<open>Notify_Operators\<close> compute: \<open>delay\<close> and \<open>delay_batch\<close>, \<open>aggregate\<close> and
  \<open>state_machine\<close> are interpreted as operators that release by time.
\<close>

section \<open>Requests and outputs\<close>

lemma nf_notify_at_ok:
  assumes "nf_inv le frontiers nt"
  shows "nf_inv le frontiers (nf_notify_at le frontiers c nt)"
    and "fn_requested (nf_notify_at le frontiers c nt) t = fn_requested nt t + (if t = cap_time c then 1 else 0)"
    and "set (fn_caps (nf_notify_at le frontiers c nt)) = insert c (set (fn_caps nt))"
    and "unaccounted (fn_caps (nf_notify_at le frontiers c nt)) (buf_update (cap_internal c) (cap_time c) 1 h) = unaccounted (fn_caps nt) h"
  using assms by (auto simp: nf_notify_at_def fn_notify_at_frontiered_def nf_inv_def fn_inv_def fn_requested_def fn_caps_def unaccounted_def fun_eq_iff)

lemma input_cap_path:
  assumes "unary_ok ue" and "input_cap_ok ue cap"
  obtains path where "pc_get (ic_summaries cap) 0 = Some path" "ac_elements path = [ue_dflt ue]"
    "\<And>t. some_result_le (ue_le ue) (ue_ri ue) path (ic_time cap) t \<longleftrightarrow> ue_le ue (ic_time cap) t"
    "vec_get (ic_internal cap) 0 = Some (ue_internal ue)"
proof -
  obtain path where p: "pc_get (ic_summaries cap) 0 = Some path" "ac_elements path = [ue_dflt ue]"
    using assms by (auto simp: unary_ok_def input_cap_ok_def)
  have "some_result_le (ue_le ue) (ue_ri ue) path (ic_time cap) t \<longleftrightarrow> ue_le ue (ic_time cap) t" for t
    using assms(1) p(2) by (simp add: some_result_le_def unary_ok_def)
  moreover have "vec_get (ic_internal cap) 0 = Some (ue_internal ue)" using assms by (simp add: unary_ok_def input_cap_ok_def)
  ultimately show thesis using that p by blast
qed

lemma ic_delayed_eq:
  assumes "unary_ok ue" and "input_cap_ok ue cap" and "ue_le ue (ic_time cap) t"
  shows "ic_delayed (ue_le ue) (ue_ri ue) cap t h = Some (\<lparr>cap_time = t, cap_internal = ue_internal ue\<rparr>, buf_update (ue_internal ue) t 1 h)"
  by (rule input_cap_path [OF assms(1,2)]) (use assms(3) in \<open>simp add: ic_delayed_def ic_delayed_for_output_def cap_new_def vec_get_def split: if_splits\<close>)

lemma ic_retain_eq:
  assumes "unary_ok ue" and "input_cap_ok ue cap"
  shows "ic_retain (ue_le ue) (ue_ri ue) cap h
    = Some (\<lparr>cap_time = ic_time cap, cap_internal = ue_internal ue\<rparr>, ic_drop cap (buf_update (ue_internal ue) (ic_time cap) 1 h))"
  by (rule input_cap_path [OF assms]) (use assms(1) in \<open>simp add: ic_retain_def ic_retain_for_output_def cap_new_def unary_ok_def vec_get_def split: if_splits\<close>)

lemma ic_valid_eq:
  assumes "unary_ok ue" and "input_cap_ok ue cap"
  shows "ic_valid_for_output (ue_dflt ue) cap (ue_internal ue) 0 = Some True"
  by (rule input_cap_path [OF assms]) (simp add: ic_valid_for_output_def vec_get_def split: if_splits)

lemma drop_input_ledger: "nu_ledger ue (drop_input cap nu) a t = nu_ledger ue nu a t + guarded [cap] a t"
  by (simp add: drop_input_def nu_ledger_def unaccounted_def ic_drop_def guard_drop_def ic_time_def)

lemma drop_notified_ledger: "nu_ledger ue (drop_notified r nu) a t = nu_ledger ue nu a t - holds [fst r] a t"
  by (simp add: drop_notified_def nu_ledger_def unaccounted_def)

lemma drops_keep [simp]:
  "nu_ok ue (drop_input cap nu) = nu_ok ue nu" "nu_ok ue (drop_notified r nu) = nu_ok ue nu"
  "nu_user (drop_input cap nu) = nu_user nu" "nu_user (drop_notified r nu) = nu_user nu"
  "nu_notificator (drop_input cap nu) = nu_notificator nu" "nu_notificator (drop_notified r nu) = nu_notificator nu"
  "nu_pushee (drop_input cap nu) = nu_pushee nu" "nu_pushee (drop_notified r nu) = nu_pushee nu"
  by (simp_all add: drop_input_def drop_notified_def nu_ok_def)

lemma nu_ok_user [simp]: "nu_ok ue (nu\<lparr>nu_user := u\<rparr>) = nu_ok ue nu"
  by (simp add: nu_ok_def)

lemma nu_ledger_user [simp]: "nu_ledger ue (nu\<lparr>nu_user := u\<rparr>) = nu_ledger ue nu"
  by (simp add: nu_ledger_def fun_eq_iff)

text \<open>A notified capability is valid at the output, and a session with it sends what it is given.\<close>

lemma notified_output_ok:
  assumes "unary_ok ue" and "nu_ok ue nu" and "cap_internal c = ue_internal ue"
  shows "\<exists>nu' rs. notified_output ue c acts nu = Some nu' \<and> nu_ok ue nu' \<and> nu_ledger ue nu' = nu_ledger ue nu
    \<and> nu_notificator nu' = nu_notificator nu \<and> nu_user nu' = nu_user nu
    \<and> delivered (nu_pushee nu') = delivered (nu_pushee nu) @ map (Pair (cap_time c)) rs
    \<and> rs \<in> shuffles (concat (map given acts)) (concat (map contained acts))"
proof -
  have a: "vec_get (oc_internal (ue_core ue)) 0 = Some (ue_internal ue)" using assms(1) by (simp add: unary_ok_def)
  from unary_output_ok [OF assms(1,2), of True "cap_time c" acts] obtain h b p rs where
    "unary_output ue True (cap_time c) acts nu = Some (nu\<lparr>nu_store := h, nu_builder := b, nu_pushee := p\<rparr>)"
    "nu_ok ue (nu\<lparr>nu_store := h, nu_builder := b, nu_pushee := p\<rparr>)" "nu_ledger ue (nu\<lparr>nu_store := h, nu_builder := b, nu_pushee := p\<rparr>) = nu_ledger ue nu"
    "delivered p = delivered (nu_pushee nu) @ map (Pair (cap_time c)) rs" "rs \<in> shuffles (concat (map given acts)) (concat (map contained acts))" by blast
  then show ?thesis using assms(3)
    by (intro exI [of _ "nu\<lparr>nu_store := h, nu_builder := b, nu_pushee := p\<rparr>"] exI [of _ rs]) (simp add: notified_output_def a cap_valid_for_output_def)
qed

text \<open>A notification for the time of an input capability, which is given up.\<close>

lemma notify_retained_ok:
  assumes "unary_ok ue" and "input_cap_ok ue cap" and "nu_ok ue nu" and "nf_inv (ue_le ue) frontiers (nu_notificator nu)"
  shows "\<exists>nu'. notify_retained ue frontiers cap nu = Some nu' \<and> nu_ok ue nu' \<and> nf_inv (ue_le ue) frontiers (nu_notificator nu')
    \<and> nu_user nu' = nu_user nu \<and> nu_pushee nu' = nu_pushee nu
    \<and> (\<forall>t. fn_requested (nu_notificator nu') t = fn_requested (nu_notificator nu) t + (if t = ic_time cap then 1 else 0))
    \<and> (\<forall>a t. nu_ledger ue nu' a t = nu_ledger ue nu a t + guarded [cap] a t)"
proof -
  define c where "c = \<lparr>cap_time = ic_time cap, cap_internal = ue_internal ue\<rparr>"
  define nu1 where "nu1 = nu\<lparr>nu_store := buf_update (ue_internal ue) (ic_time cap) 1 (nu_store nu),
    nu_notificator := nf_notify_at (ue_le ue) frontiers c (nu_notificator nu)\<rparr>"
  note k = nf_notify_at_ok [OF assms(4)]
  have r: "notify_retained ue frontiers cap nu = Some (drop_input cap nu1)"
    by (simp add: notify_retained_def ic_retain_eq [OF assms(1,2)] nu1_def c_def drop_input_def)
  have "nu_ok ue nu1" using assms(3) k(3) [of c] by (auto simp: nu_ok_def nu1_def c_def)
  moreover have "nu_ledger ue nu1 = nu_ledger ue nu"
    using k(4) [of c "nu_store nu"] by (simp add: nu_ledger_def nu1_def c_def fun_eq_iff)
  moreover have "fn_requested (nu_notificator nu1) t = fn_requested (nu_notificator nu) t + (if t = ic_time cap then 1 else 0)" for t
    by (simp add: nu1_def k(2) c_def)
  ultimately show ?thesis using r k(1) [of c]
    by (intro exI [of _ "drop_input cap nu1"]) (simp add: drop_input_ledger, simp add: nu1_def)
qed

section \<open>Maps from times\<close>

text \<open>The entry of a time is removed, and what is in it is sent.\<close>

definition keyed_release :: "('x \<Rightarrow> 'e list) \<Rightarrow> 't \<Rightarrow> ('t \<times> 'x) list \<Rightarrow> 'e list \<times> ('t \<times> 'x) list" where
  "keyed_release out t m = (case map_of m t of None \<Rightarrow> [] | Some x \<Rightarrow> out x, AList.delete t m)"

abbreviation times_of :: "('t \<times> 'x) list \<Rightarrow> 't set" where "times_of m \<equiv> fst ` set m"

lemma keys_keyed_release: "times_of (snd (keyed_release out t m)) = times_of m - {t}"
  by (auto simp: keyed_release_def AList.delete_eq image_iff)

lemma delete_absent: "map_of m t = None \<Longrightarrow> AList.delete t m = m"
  by (simp add: map_of_eq_None_iff)

abbreviation at_time :: "'t \<Rightarrow> ('t \<times> 'e) list \<Rightarrow> 'e list" where
  "at_time t rs \<equiv> map snd (filter (\<lambda>r. fst r = t) rs)"

lemma at_time_pair [simp]: "at_time t (map (Pair s) es) = (if s = t then es else [])"
  by (induction es) auto

lemma step_all_ConsE:
  assumes "step_all time step (x # xs) u = (rs, u')"
  obtains rs1 where "step_all time step xs (snd (step x u)) = (rs1, u')" "rs = map (Pair (time x)) (fst (step x u)) @ rs1"
proof (cases "step_all time step xs (snd (step x u))")
  case (Pair rs1 u1)
  then show thesis using that [of rs1] assms by (simp add: case_prod_unfold Let_def)
qed

lemma keyed_release_all:
  assumes "sorted ts" and "step_all id (keyed_release out) ts m = (rs, m')"
  shows "sorted (map fst rs) \<and> fst ` set rs \<subseteq> set ts \<and> (\<forall>t. map_of m' t = (if t \<in> set ts then None else map_of m t))
    \<and> (\<forall>t. at_time t rs = (if t \<in> set ts then fst (keyed_release out t m) else []))"
  using assms
proof (induction ts arbitrary: m rs m')
  case (Cons s ts)
  have e: "snd (keyed_release out s m) = AList.delete s m" by (simp add: keyed_release_def)
  obtain rs1 where r: "step_all id (keyed_release out) ts (AList.delete s m) = (rs1, m')"
    "rs = map (Pair s) (fst (keyed_release out s m)) @ rs1"
    by (rule step_all_ConsE [OF Cons.prems(2)]) (simp add: e id_def)
  have ih: "sorted (map fst rs1)" "fst ` set rs1 \<subseteq> set ts" "map_of m' t = (if t \<in> set ts then None else map_of (AList.delete s m) t)"
    "at_time t rs1 = (if t \<in> set ts then fst (keyed_release out t (AList.delete s m)) else [])" for t
    using Cons.IH [OF _ r(1)] Cons.prems(1) by auto
  have "sorted (map fst rs)" using ih(1,2) Cons.prems(1) by (auto simp: r(2) sorted_append comp_def map_replicate_const)
  moreover have "map_of m' t = (if t \<in> set (s # ts) then None else map_of m t)" for t
    by (simp add: ih(3) delete_conv')
  moreover have "at_time t rs = (if t \<in> set (s # ts) then fst (keyed_release out t m) else [])" for t
    using ih(4) [of t] by (auto simp: r(2) keyed_release_def delete_conv')
  ultimately show ?case using ih(2) by (auto simp: r(2))
qed simp

lemma absorb_then_release_keyed:
  assumes "absorb_then_release absorb (keyed_release out) times_of pass q m d m' d'" and "\<And>g u. fst (absorb g u) = []"
  obtains grps m1 rs where "groups_of q grps" "m1 = fold (\<lambda>g u. snd (absorb g u)) grps m" "d' = d @ rs" "sorted (map fst rs)"
    "\<And>t. map_of m' t = (if pass t then None else map_of m1 t)"
    "\<And>t. at_time t rs = (if pass t then (case map_of m1 t of None \<Rightarrow> [] | Some x \<Rightarrow> out x) else [])"
proof -
  have s: "step_all fst absorb grps u = ([], fold (\<lambda>g u. snd (absorb g u)) grps u)" for grps u
    using assms(2) by (induction grps arbitrary: u) (simp_all add: case_prod_unfold Let_def)
  obtain grps ts where k: "groups_of q grps" "sorted ts" "set ts = {t \<in> times_of (fold (\<lambda>g u. snd (absorb g u)) grps m). pass t}"
    "m' = snd (step_all id (keyed_release out) ts (fold (\<lambda>g u. snd (absorb g u)) grps m))"
    "d' = d @ fst (step_all id (keyed_release out) ts (fold (\<lambda>g u. snd (absorb g u)) grps m))"
    using assms(1) by (auto simp: absorb_then_release_def s case_prod_unfold Let_def)
  define m1 where "m1 = fold (\<lambda>g u. snd (absorb g u)) grps m"
  obtain rs where r: "step_all id (keyed_release out) ts m1 = (rs, m')" "d' = d @ rs"
    using k(4,5) by (simp add: m1_def prod_eq_iff)
  note a = keyed_release_all [OF k(2) r(1)]
  have n: "map_of m1 t = None" if "t \<notin> set ts" "pass t" for t using k(3) that by (auto simp: m1_def map_of_eq_None_iff)
  have "map_of m' t = (if pass t then None else map_of m1 t)" for t
    using a n [of t] k(3) by (cases "t \<in> set ts") auto
  moreover have "at_time t rs = (if pass t then (case map_of m1 t of None \<Rightarrow> [] | Some x \<Rightarrow> out x) else [])" for t
    using a n [of t] k(3) by (cases "t \<in> set ts") (auto simp: keyed_release_def)
  ultimately show thesis using that k(1) r(2) a m1_def by blast
qed

text \<open>What a group adds to the entry of each time is a filter of its records, and of the messages.\<close>

lemma groups_concat:
  assumes "groups_of q grps"
  shows "concat (map (\<lambda>(s, ds). concat (map (f s) ds)) grps) = concat (map (\<lambda>(s, d). f s d) (sort_key fst q))"
proof -
  have "concat (map (\<lambda>(s, ds). concat (map (f s) ds)) grps) = concat (map (\<lambda>(s, d). f s d) (concat (map (\<lambda>(t, ds). map (Pair t) ds) grps)))"
    by (induction grps) (auto simp: comp_def)
  then show ?thesis using assms by (simp add: groups_of_def)
qed

lemma groups_messages:
  assumes "groups_of q grps" and "(t, ds) \<in> set grps" and "d \<in> set ds"
  shows "(t, d) \<in> set q"
proof -
  have "(t, d) \<in> set (concat (map (\<lambda>(t, ds). map (Pair t) ds) grps))" using assms(2,3) by force
  also have "\<dots> = set q" using assms(1) by (simp only: groups_of_def set_sort)
  finally show ?thesis .
qed

section \<open>delay and delay batch\<close>

definition add_items :: "'t \<Rightarrow> 'x list \<Rightarrow> ('t \<times> 'x list) list \<Rightarrow> ('t \<times> 'x list) list" where
  "add_items t items m = AList.update t (get_or [] m t @ items) m"

lemma get_or_add_items: "get_or [] (add_items s items m) t = get_or [] m t @ (if s = t then items else [])"
  by (simp add: add_items_def get_or_def update_conv')

lemma times_add_items: "times_of (add_items t items m) = insert t (times_of m)"
  by (simp add: add_items_def dom_update)

lemma stash_delayed_ok:
  assumes "unary_ok ue" and "input_cap_ok ue cap" and "ue_le ue (ic_time cap) t" and "nu_ok ue nu" and "covers times_of nu"
    and "nf_inv (ue_le ue) frontiers (nu_notificator nu)"
  shows "\<exists>nu'. stash_delayed ue frontiers cap t items nu = Some nu' \<and> nu_ok ue nu' \<and> covers times_of nu'
    \<and> nf_inv (ue_le ue) frontiers (nu_notificator nu') \<and> nu_pushee nu' = nu_pushee nu
    \<and> nu_user nu' = add_items t items (nu_user nu) \<and> nu_ledger ue nu' = nu_ledger ue nu"
proof (cases "map_of (nu_user nu) t")
  case (Some xs)
  then have "t \<in> times_of (nu_user nu)" by (force dest: map_of_SomeD)
  then have "covers times_of (nu\<lparr>nu_user := add_items t items (nu_user nu)\<rparr>)" using assms(5) by (simp add: covers_def times_add_items insert_absorb)
  with Some assms(4,6) show ?thesis by (simp add: stash_delayed_def add_items_def)
next
  case None
  define c where "c = \<lparr>cap_time = t, cap_internal = ue_internal ue\<rparr>"
  define nu1 where "nu1 = nu\<lparr>nu_store := buf_update (ue_internal ue) t 1 (nu_store nu), nu_notificator := nf_notify_at (ue_le ue) frontiers c (nu_notificator nu)\<rparr>"
  note k = nf_notify_at_ok [OF assms(6)]
  have "stash_delayed ue frontiers cap t items nu = Some (nu1\<lparr>nu_user := add_items t items (nu_user nu)\<rparr>)"
    by (simp add: stash_delayed_def None ic_delayed_eq [OF assms(1-3)] nu1_def c_def add_items_def get_or_def update_conv')
  moreover have "nu_ok ue nu1" using assms(4) k(3) [of c] by (auto simp: nu_ok_def nu1_def c_def)
  moreover have "nu_ledger ue nu1 = nu_ledger ue nu" using k(4) [of c "nu_store nu"] by (simp add: nu_ledger_def nu1_def c_def fun_eq_iff)
  moreover have "covers times_of (nu1\<lparr>nu_user := add_items t items (nu_user nu)\<rparr>)"
    using assms(5) by (auto simp: covers_def nu1_def k(2) c_def times_add_items)
  ultimately show ?thesis using k(1) [of c] by (simp add: nu1_def)
qed

definition delay_absorb :: "('d \<Rightarrow> 't \<Rightarrow> 't) \<Rightarrow> 't \<times> 'd list list \<Rightarrow> ('t \<times> 'd list) list \<Rightarrow> 'e list \<times> ('t \<times> 'd list) list" where
  "delay_absorb func g u = ([], fold (\<lambda>d. add_items (func d (fst g)) [d]) (concat (snd g)) u)"

lemma delay_data_ok:
  assumes "unary_ok ue" and "input_cap_ok ue cap" and "\<forall>d \<in> set ds. ue_le ue (ic_time cap) (func d (ic_time cap))"
    and "nu_ok ue nu" and "covers times_of nu" and "nf_inv (ue_le ue) frontiers (nu_notificator nu)"
  shows "\<exists>nu'. try_fold (delay_datum ue func frontiers cap) ds nu = Some nu' \<and> nu_ok ue nu' \<and> covers times_of nu'
    \<and> nf_inv (ue_le ue) frontiers (nu_notificator nu') \<and> nu_pushee nu' = nu_pushee nu
    \<and> nu_user nu' = fold (\<lambda>d. add_items (func d (ic_time cap)) [d]) ds (nu_user nu) \<and> nu_ledger ue nu' = nu_ledger ue nu"
  using assms(3-)
proof (induction ds arbitrary: nu)
  case (Cons d ds)
  from stash_delayed_ok [OF assms(1,2) _ Cons.prems(2-4)] Cons.prems(1) obtain nu1 where
    k: "stash_delayed ue frontiers cap (func d (ic_time cap)) [d] nu = Some nu1" "nu_ok ue nu1" "covers times_of nu1"
    "nf_inv (ue_le ue) frontiers (nu_notificator nu1)" "nu_pushee nu1 = nu_pushee nu"
    "nu_user nu1 = add_items (func d (ic_time cap)) [d] (nu_user nu)" "nu_ledger ue nu1 = nu_ledger ue nu"
    by (metis list.set_intros(1))
  from Cons.IH [OF _ k(2-4)] Cons.prems(1) k show ?case by (simp add: delay_datum_def)
qed simp

interpretation delay: notify_operator ue "delay_notified ue" "keyed_release id" "delay_input ue func" "\<lambda>_. delay_absorb func" times_of
  "\<lambda>_ g. \<forall>d \<in> set (concat (snd g)). ue_le ue (fst g) (func d (fst g))"
  for ue :: "('t::linorder, 's, 'd) unary_env" and func
proof unfold_locales
  fix nu :: "('t, 'd, ('t \<times> 'd list) list) notify_op" and r :: "'t request"
  assume a: "unary_ok ue" "nu_ok ue nu" "cap_internal (fst r) = ue_internal ue"
  show "\<exists>nu'. delay_notified ue r nu = Some nu' \<and> nu_ok ue nu' \<and> nu_notificator nu' = nu_notificator nu
      \<and> nu_user nu' = snd (keyed_release id (cap_time (fst r)) (nu_user nu))
      \<and> delivered (nu_pushee nu') = delivered (nu_pushee nu) @ map (Pair (cap_time (fst r))) (fst (keyed_release id (cap_time (fst r)) (nu_user nu)))
      \<and> (\<forall>a t. nu_ledger ue nu' a t = nu_ledger ue nu a t - holds [fst r] a t)"
  proof (cases "map_of (nu_user nu) (cap_time (fst r))")
    case None
    with a(2) show ?thesis
      by (intro exI [of _ "drop_notified r nu"]) (simp add: delay_notified_def keyed_release_def drop_notified_ledger delete_absent)
  next
    case (Some data)
    from notified_output_ok [OF a(1) _ a(3), of "nu\<lparr>nu_user := AList.delete (cap_time (fst r)) (nu_user nu)\<rparr>" "[Give_iterator data]"] a(2) Some
    show ?thesis by (auto simp: delay_notified_def keyed_release_def drop_notified_ledger)
  qed
next
  fix t and u :: "('t \<times> 'd list) list"
  show "times_of (snd (keyed_release id t u)) = times_of u - {t}" by (rule keys_keyed_release)
next
  fix g :: "('t, 's) input_capability \<times> 'd list list" and frontiers and nu :: "('t, 'd, ('t \<times> 'd list) list) notify_op"
  assume a: "unary_ok ue" "input_cap_ok ue (fst g)"
    "\<forall>d \<in> set (concat (snd (ic_time (fst g), snd g))). ue_le ue (fst (ic_time (fst g), snd g)) (func d (fst (ic_time (fst g), snd g)))"
    "nu_ok ue nu" "covers times_of nu" "nf_inv (ue_le ue) frontiers (nu_notificator nu)"
  from delay_data_ok [OF a(1,2) _ a(4-6), of "concat (snd g)" func] a(3)
  show "\<exists>nu'. delay_input ue func frontiers g nu = Some nu' \<and> nu_ok ue nu' \<and> covers times_of nu' \<and> nf_inv (ue_le ue) frontiers (nu_notificator nu')
      \<and> nu_user nu' = snd (delay_absorb func (ic_time (fst g), snd g) (nu_user nu))
      \<and> delivered (nu_pushee nu') = delivered (nu_pushee nu) @ map (Pair (ic_time (fst g))) (fst (delay_absorb func (ic_time (fst g), snd g) (nu_user nu)))
      \<and> (\<forall>a t. nu_ledger ue nu' a t = nu_ledger ue nu a t + guarded [fst g] a t)"
    by (auto simp: delay_input_def delay_absorb_def drop_input_ledger covers_def)
qed

text \<open>The records of the messages \<open>q\<close> that \<open>func\<close> moves to the time \<open>t\<close>, in the order in which they are read.\<close>

definition delayed_to :: "('d \<Rightarrow> 't::linorder \<Rightarrow> 't) \<Rightarrow> ('t, 'd) message list \<Rightarrow> 't \<Rightarrow> 'd list" where
  "delayed_to func q t = concat (map (\<lambda>(s, ds). filter (\<lambda>d. func d s = t) ds) (sort_key fst q))"

lemma get_or_fold_add:
  "get_or [] (fold (\<lambda>d. add_items (f d) (g d)) ds m) t = get_or [] m t @ concat (map g (filter (\<lambda>d. f d = t) ds))"
  by (induction ds arbitrary: m) (simp_all add: get_or_add_items)

lemma delay_absorb_all:
  assumes "groups_of q grps"
  shows "get_or [] (fold (\<lambda>g u. snd (delay_absorb func g u)) grps m) t = get_or [] m t @ delayed_to func q t"
proof -
  have "get_or [] (fold (\<lambda>g u. snd (delay_absorb func g u)) grps m) t
      = get_or [] m t @ concat (map (\<lambda>(s, ds). concat (map (filter (\<lambda>d. func d s = t)) ds)) grps)"
    by (induction grps arbitrary: m) (auto simp: delay_absorb_def get_or_fold_add filter_concat)
  then show ?thesis by (simp add: groups_concat [OF assms] delayed_to_def)
qed

text \<open>The operator as its constructor leaves it.\<close>

lemma notify_new_inv:
  assumes "keys u = {}"
  shows "\<exists>nu. unary_notify_new le c [] u h = Some nu \<and> notify_inv ue keys nu \<and> nu_user nu = u \<and> delivered (nu_pushee nu) = []"
  using assms by (simp add: unary_notify_new_def notify_inv_def nu_ok_def covers_def fn_default_def fn_caps_def fn_requested_def)

definition example_env :: "(nat, nat, 'e) unary_env" where
  "example_env = \<lparr>ue_le = (\<le>), ue_ri = (\<lambda>s t. Some (s + t)), ue_dflt = 0, ue_tie = (\<lambda>_. 0), ue_debug = True, ue_grow = (\<lambda>n. n), ue_sz = 4096,
     ue_left = (\<lambda>_. None),
     ue_core = \<lparr>oc_address = [0, 1], oc_notify = True, oc_peers = 1, oc_inputs = 1, oc_outputs = 1, oc_summary = [], oc_frontier = [ma_new],
       oc_consumed = [0], oc_internal = [1], oc_summaries = [snd (pc_insert (\<le>) 0 0 pc_default)], oc_produced = [2]\<rparr>\<rparr>"

lemma example_env_le [simp]: "ue_le example_env = (\<le>)"
  by (simp add: example_env_def)

lemma example_env_ok: "unary_ok example_env"
proof -
  have "map_option ac_elements (pc_get (snd (pc_insert (\<le>) 0 (0 :: nat) pc_default)) 0) = Some [0]" by code_simp
  then show ?thesis by (auto simp: unary_ok_def example_env_def)
qed

text \<open>
  C26: a call of the logic of \<open>delay\<close> does not panic when \<open>func\<close> moves no record back in time.  It sends, in the order of
  their times, exactly the records that are due: what was held back or has just arrived for a time the frontier
  has passed, at that time and in the order of arrival.  Everything else is held back, with a notification requested for
  its time, and the batches account for the capabilities held, the records consumed and the records sent.
\<close>
theorem delay_correct:
  assumes "unary_ok ue" and "notify_inv ue times_of nu" and "\<forall>(t, ds) \<in> set q. \<forall>d \<in> set ds. ue_le ue t (func d t)"
  shows "\<exists>nu' rs. delay_schedule ue func frontier q nu = Some nu' \<and> notify_inv ue times_of nu'
    \<and> delivered (nu_pushee nu') = delivered (nu_pushee nu) @ rs \<and> sorted (map fst rs)
    \<and> (\<forall>t. at_time t rs = (if passed (ue_le ue) [frontier] t then get_or [] (nu_user nu) t @ delayed_to func q t else []))
    \<and> (\<forall>t. get_or [] (nu_user nu') t = (if passed (ue_le ue) [frontier] t then [] else get_or [] (nu_user nu) t @ delayed_to func q t))
    \<and> (\<forall>a t. nu_ledger ue nu' a t = nu_ledger ue nu a t + (if a = ue_consumed ue then queued q t else 0))"
proof -
  have pre: "\<forall>g \<in> set grps. \<forall>d \<in> set (concat (snd g)). ue_le ue (fst g) (func d (fst g))" if "groups_of q grps" for grps
    using groups_messages [OF that] assms(3) by fastforce
  have e: "delay_schedule ue func = unary_notify_call ue (\<lambda>frontiers q nu.
      do { (gs, nu) \<leftarrow> unary_input ue q nu; nu \<leftarrow> try_fold (delay_input ue func frontiers) gs nu; unary_notified ue frontiers (delay_notified ue) nu })"
    by (simp add: delay_schedule_def delay_logic_def [abs_def])
  from delay.input_first [OF assms(1,2), of q func frontier, OF pre] obtain nu' where
    k: "delay_schedule ue func frontier q nu = Some nu'" "notify_inv ue times_of nu'"
    "absorb_then_release (delay_absorb func) (keyed_release id) times_of (passed (ue_le ue) [frontier]) q (nu_user nu) (delivered (nu_pushee nu)) (nu_user nu') (delivered (nu_pushee nu'))"
    "\<forall>a t. nu_ledger ue nu' a t = nu_ledger ue nu a t + (if a = ue_consumed ue then queued q t else 0)" unfolding e by blast
  obtain grps m1 rs where r: "groups_of q grps" "m1 = fold (\<lambda>g u. snd (delay_absorb func g u)) grps (nu_user nu)"
    "delivered (nu_pushee nu') = delivered (nu_pushee nu) @ rs" "sorted (map fst rs)"
    "\<And>t. map_of (nu_user nu') t = (if passed (ue_le ue) [frontier] t then None else map_of m1 t)"
    "\<And>t. at_time t rs = (if passed (ue_le ue) [frontier] t then (case map_of m1 t of None \<Rightarrow> [] | Some x \<Rightarrow> id x) else [])"
    by (rule absorb_then_release_keyed [OF k(3)]) (simp_all add: delay_absorb_def)
  have m1: "get_or [] m1 t = get_or [] (nu_user nu) t @ delayed_to func q t" for t unfolding r(2) by (rule delay_absorb_all [OF r(1)])
  have "get_or [] (nu_user nu') t = (if passed (ue_le ue) [frontier] t then [] else get_or [] m1 t)" for t by (simp add: get_or_def r(5))
  moreover have "at_time t rs = (if passed (ue_le ue) [frontier] t then get_or [] m1 t else [])" for t using r(6) by (simp add: get_or_def split: option.split)
  ultimately show ?thesis using k(1,2,4) r(3,4) by (intro exI [of _ nu'] exI [of _ rs]) (simp add: m1)
qed

theorem delay_correct_witness:
  "\<exists>nu nu'. unary_notify_new (\<le>) \<lparr>cap_time = 0, cap_internal = 1\<rparr> [] [] (\<lambda>_. cb_new) = Some nu
     \<and> delay_schedule example_env (\<lambda>d _. d) (ma_new_bottom (5 :: nat)) [(3, [10, 4])] nu = Some nu'
     \<and> at_time 4 (delivered (nu_pushee nu')) = [4] \<and> get_or [] (nu_user nu') 10 = [10]"
proof -
  obtain nu where n: "unary_notify_new (\<le>) \<lparr>cap_time = 0 :: nat, cap_internal = 1\<rparr> [] ([] :: (nat \<times> nat list) list) (\<lambda>_. cb_new) = Some nu"
    "notify_inv example_env times_of nu" "nu_user nu = []" "delivered (nu_pushee nu) = ([] :: (nat \<times> nat) list)"
    using notify_new_inv [of times_of "[] :: (nat \<times> nat list) list" "(\<le>)" "\<lparr>cap_time = 0, cap_internal = 1\<rparr>" "\<lambda>_. cb_new" example_env] by auto
  have "\<forall>(t, ds) \<in> set [(3 :: nat, [10, 4 :: nat])]. \<forall>d \<in> set ds. ue_le (example_env :: (nat, nat, nat) unary_env) t d" by (simp add: example_env_def)
  from delay_correct [OF example_env_ok n(2) this, of "ma_new_bottom 5"] obtain nu' rs where
    k: "delay_schedule example_env (\<lambda>d _. d) (ma_new_bottom 5) [(3, [10, 4])] nu = Some nu'" "delivered (nu_pushee nu') = [] @ rs"
    "\<forall>t. at_time t rs = (if passed (\<le>) [ma_new_bottom 5] t then get_or [] [] t @ delayed_to (\<lambda>d _. d) [(3, [10, 4])] t else [])"
    "\<forall>t. get_or [] (nu_user nu') t = (if passed (\<le>) [ma_new_bottom 5] t then [] else get_or [] [] t @ delayed_to (\<lambda>d _. d) [(3, [10, 4])] t)"
    unfolding n(3,4) example_env_le by blast
  have "passed (\<le>) [ma_new_bottom (5 :: nat)] 4" "\<not> passed (\<le>) [ma_new_bottom (5 :: nat)] 10"
    by (simp_all add: passed_def ma_less_equal_def ma_new_bottom_def aref_less_equal_def)
  with k(3,4) have "at_time 4 rs = [4]" "get_or [] (nu_user nu') 10 = [10]" by (simp_all add: get_or_def delayed_to_def)
  with n(1) k(1,2) show ?thesis by auto
qed

text \<open>\<open>delay_batch\<close> moves containers.\<close>

lemma notified_containers_ok:
  assumes "unary_ok ue" and "nu_ok ue nu" and "cap_internal c = ue_internal ue"
  shows "\<exists>nu'. try_fold (\<lambda>data. notified_output ue c [Give_container \<lparr>vc_items = data, vc_capacity = length data\<rparr>]) datas nu = Some nu'
    \<and> nu_ok ue nu' \<and> nu_ledger ue nu' = nu_ledger ue nu \<and> nu_notificator nu' = nu_notificator nu \<and> nu_user nu' = nu_user nu
    \<and> delivered (nu_pushee nu') = delivered (nu_pushee nu) @ map (Pair (cap_time c)) (concat datas)"
  using assms(2)
proof (induction datas arbitrary: nu)
  case (Cons data datas)
  from notified_output_ok [OF assms(1) Cons.prems assms(3), of "[Give_container \<lparr>vc_items = data, vc_capacity = length data\<rparr>]"] obtain nu1 where
    k: "notified_output ue c [Give_container \<lparr>vc_items = data, vc_capacity = length data\<rparr>] nu = Some nu1" "nu_ok ue nu1" "nu_ledger ue nu1 = nu_ledger ue nu"
    "nu_notificator nu1 = nu_notificator nu" "nu_user nu1 = nu_user nu" "delivered (nu_pushee nu1) = delivered (nu_pushee nu) @ map (Pair (cap_time c)) data" by auto
  from Cons.IH [OF k(2)] k show ?case by auto
qed simp

definition delay_batch_absorb :: "('t \<Rightarrow> 't) \<Rightarrow> 't \<times> 'd list list \<Rightarrow> ('t \<times> 'd list list) list \<Rightarrow> 'e list \<times> ('t \<times> 'd list list) list" where
  "delay_batch_absorb func g u = ([], add_items (func (fst g)) (snd g) u)"

interpretation delay_batch: notify_operator ue "delay_batch_notified ue" "keyed_release concat" "delay_batch_input ue func" "\<lambda>_. delay_batch_absorb func" times_of
  "\<lambda>_ g. ue_le ue (fst g) (func (fst g))"
  for ue :: "('t::linorder, 's, 'd) unary_env" and func
proof unfold_locales
  fix nu :: "('t, 'd, ('t \<times> 'd list list) list) notify_op" and r :: "'t request"
  assume a: "unary_ok ue" "nu_ok ue nu" "cap_internal (fst r) = ue_internal ue"
  show "\<exists>nu'. delay_batch_notified ue r nu = Some nu' \<and> nu_ok ue nu' \<and> nu_notificator nu' = nu_notificator nu
      \<and> nu_user nu' = snd (keyed_release concat (cap_time (fst r)) (nu_user nu))
      \<and> delivered (nu_pushee nu') = delivered (nu_pushee nu) @ map (Pair (cap_time (fst r))) (fst (keyed_release concat (cap_time (fst r)) (nu_user nu)))
      \<and> (\<forall>a t. nu_ledger ue nu' a t = nu_ledger ue nu a t - holds [fst r] a t)"
  proof (cases "map_of (nu_user nu) (cap_time (fst r))")
    case None
    with a(2) show ?thesis
      by (intro exI [of _ "drop_notified r nu"]) (simp add: delay_batch_notified_def keyed_release_def drop_notified_ledger delete_absent)
  next
    case (Some datas)
    from notified_containers_ok [OF a(1) _ a(3), of "nu\<lparr>nu_user := AList.delete (cap_time (fst r)) (nu_user nu)\<rparr>" datas] a(2) Some
    show ?thesis by (auto simp: delay_batch_notified_def keyed_release_def drop_notified_ledger)
  qed
next
  fix t and u :: "('t \<times> 'd list list) list"
  show "times_of (snd (keyed_release concat t u)) = times_of u - {t}" by (rule keys_keyed_release)
next
  fix g :: "('t, 's) input_capability \<times> 'd list list" and frontiers and nu :: "('t, 'd, ('t \<times> 'd list list) list) notify_op"
  assume a: "unary_ok ue" "input_cap_ok ue (fst g)" "ue_le ue (fst (ic_time (fst g), snd g)) (func (fst (ic_time (fst g), snd g)))"
    "nu_ok ue nu" "covers times_of nu" "nf_inv (ue_le ue) frontiers (nu_notificator nu)"
  from stash_delayed_ok [OF a(1,2) _ a(4-6), of "func (ic_time (fst g))" "snd g"] a(3)
  show "\<exists>nu'. delay_batch_input ue func frontiers g nu = Some nu' \<and> nu_ok ue nu' \<and> covers times_of nu' \<and> nf_inv (ue_le ue) frontiers (nu_notificator nu')
      \<and> nu_user nu' = snd (delay_batch_absorb func (ic_time (fst g), snd g) (nu_user nu))
      \<and> delivered (nu_pushee nu') = delivered (nu_pushee nu) @ map (Pair (ic_time (fst g))) (fst (delay_batch_absorb func (ic_time (fst g), snd g) (nu_user nu)))
      \<and> (\<forall>a t. nu_ledger ue nu' a t = nu_ledger ue nu a t + guarded [fst g] a t)"
    by (auto simp: delay_batch_input_def delay_batch_absorb_def drop_input_ledger covers_def)
qed

lemma delay_batch_absorb_all:
  assumes "groups_of q grps"
  shows "get_or [] (fold (\<lambda>g u. snd (delay_batch_absorb func g u)) grps m) t = get_or [] m t @ map snd (filter (\<lambda>(s, d). func s = t) (sort_key fst q))"
proof -
  have "get_or [] (fold (\<lambda>g u. snd (delay_batch_absorb func g u)) grps m) t
      = get_or [] m t @ concat (map (\<lambda>(s, ds). concat (map (\<lambda>d. if func s = t then [d] else []) ds)) grps)"
    by (induction grps arbitrary: m) (auto simp: delay_batch_absorb_def get_or_add_items)
  moreover have "concat (map (\<lambda>(s, d). if func s = t then [d] else []) xs) = map snd (filter (\<lambda>(s, d). func s = t) xs)" for xs :: "('a \<times> 'b list) list"
    by (induction xs) auto
  ultimately show ?thesis by (simp add: groups_concat [OF assms])
qed

text \<open>Whole containers are held back and sent, in the order in which they are read.\<close>

lemma delay_batch_correct:
  assumes "unary_ok ue" and "notify_inv ue times_of nu" and "\<forall>t. ue_le ue t (func t)"
  shows "\<exists>nu' rs. delay_batch_schedule ue func frontier q nu = Some nu' \<and> notify_inv ue times_of nu'
    \<and> delivered (nu_pushee nu') = delivered (nu_pushee nu) @ rs \<and> sorted (map fst rs)
    \<and> (\<forall>t. let now = get_or [] (nu_user nu) t @ map snd (filter (\<lambda>(s, d). func s = t) (sort_key fst q)) in
        at_time t rs = (if passed (ue_le ue) [frontier] t then concat now else [])
        \<and> get_or [] (nu_user nu') t = (if passed (ue_le ue) [frontier] t then [] else now))
    \<and> (\<forall>a t. nu_ledger ue nu' a t = nu_ledger ue nu a t + (if a = ue_consumed ue then queued q t else 0))"
proof -
  have e: "delay_batch_schedule ue func = unary_notify_call ue (\<lambda>frontiers q nu.
      do { (gs, nu) \<leftarrow> unary_input ue q nu; nu \<leftarrow> try_fold (delay_batch_input ue func frontiers) gs nu; unary_notified ue frontiers (delay_batch_notified ue) nu })"
    by (simp add: delay_batch_schedule_def delay_batch_logic_def [abs_def])
  from delay_batch.input_first [OF assms(1,2), of q func frontier] assms(3) obtain nu' where
    k: "delay_batch_schedule ue func frontier q nu = Some nu'" "notify_inv ue times_of nu'"
    "absorb_then_release (delay_batch_absorb func) (keyed_release concat) times_of (passed (ue_le ue) [frontier]) q (nu_user nu) (delivered (nu_pushee nu)) (nu_user nu') (delivered (nu_pushee nu'))"
    "\<forall>a t. nu_ledger ue nu' a t = nu_ledger ue nu a t + (if a = ue_consumed ue then queued q t else 0)" unfolding e by blast
  obtain grps m1 rs where r: "groups_of q grps" "m1 = fold (\<lambda>g u. snd (delay_batch_absorb func g u)) grps (nu_user nu)"
    "delivered (nu_pushee nu') = delivered (nu_pushee nu) @ rs" "sorted (map fst rs)"
    "\<And>t. map_of (nu_user nu') t = (if passed (ue_le ue) [frontier] t then None else map_of m1 t)"
    "\<And>t. at_time t rs = (if passed (ue_le ue) [frontier] t then (case map_of m1 t of None \<Rightarrow> [] | Some x \<Rightarrow> concat x) else [])"
    by (rule absorb_then_release_keyed [OF k(3)]) (simp_all add: delay_batch_absorb_def)
  have m1: "get_or [] m1 t = get_or [] (nu_user nu) t @ map snd (filter (\<lambda>(s, d). func s = t) (sort_key fst q))" for t
    unfolding r(2) by (rule delay_batch_absorb_all [OF r(1)])
  have "get_or [] (nu_user nu') t = (if passed (ue_le ue) [frontier] t then [] else get_or [] m1 t)" for t by (simp add: get_or_def r(5))
  moreover have "at_time t rs = (if passed (ue_le ue) [frontier] t then concat (get_or [] m1 t) else [])" for t
    using r(6) by (simp add: get_or_def split: option.split)
  ultimately show ?thesis using k(1,2,4) r(3,4) by (intro exI [of _ nu'] exI [of _ rs]) (simp add: m1 Let_def)
qed

section \<open>aggregate\<close>

text \<open>The aggregate of a key over the records \<open>recs\<close>, and the map of all of them.\<close>

definition aggregate_of :: "('k \<Rightarrow> 'v \<Rightarrow> 'a \<Rightarrow> 'a) \<Rightarrow> 'a \<Rightarrow> ('k \<times> 'v) list \<Rightarrow> 'k \<Rightarrow> 'a" where
  "aggregate_of foldf dflt recs k = fold (foldf k) (map snd (filter (\<lambda>r. fst r = k) recs)) dflt"

abbreviation aggregated :: "('k \<Rightarrow> 'v \<Rightarrow> 'a \<Rightarrow> 'a) \<Rightarrow> 'a \<Rightarrow> ('k \<times> 'v) list \<Rightarrow> ('k \<times> 'a) list" where
  "aggregated foldf dflt recs \<equiv> fold (aggregate_record foldf dflt) recs []"

lemma aggregate_records:
  "map_of (fold (aggregate_record foldf dflt) recs m) k
    = (if k \<in> fst ` set recs then Some (fold (foldf k) (map snd (filter (\<lambda>r. fst r = k) recs)) (get_or dflt m k)) else map_of m k)"
proof (induction recs arbitrary: m)
  case (Cons r recs)
  have "filter (\<lambda>r. fst r = k) recs = []" if "k \<notin> fst ` set recs" using that by (auto simp: filter_empty_conv)
  then show ?case using Cons by (cases "fst r = k") (auto simp: aggregate_record_def update_conv' get_or_def)
qed simp

lemma aggregated_distinct: "distinct (map fst m) \<Longrightarrow> distinct (map fst (fold (aggregate_record foldf dflt) recs m))"
  by (induction recs arbitrary: m) (simp_all add: aggregate_record_def distinct_update)

lemma aggregated_keys: "fst ` set (aggregated foldf dflt recs) = fst ` set recs"
proof (intro set_eqI)
  fix k
  have "k \<in> fst ` set (aggregated foldf dflt recs) \<longleftrightarrow> map_of (aggregated foldf dflt recs) k \<noteq> None" by (simp add: map_of_eq_None_iff)
  then show "k \<in> fst ` set (aggregated foldf dflt recs) \<longleftrightarrow> k \<in> fst ` set recs" by (simp add: aggregate_records)
qed

lemma mset_by_key:
  assumes "distinct (map fst xs)"
  shows "mset xs = image_mset (\<lambda>k. (k, the (map_of xs k))) (mset_set (fst ` set xs))"
proof -
  have "xs = map (\<lambda>k. (k, the (map_of xs k))) (map fst xs)" using assms by (auto intro!: map_idI [symmetric])
  then have "mset xs = image_mset (\<lambda>k. (k, the (map_of xs k))) (mset (map fst xs))" by (metis mset_map)
  moreover have "mset (map fst xs) = mset_set (fst ` set xs)" using mset_set_set [OF assms] by simp
  ultimately show ?thesis by simp
qed

lemma mset_aggregated:
  "mset (aggregated foldf dflt recs) = image_mset (\<lambda>k. (k, aggregate_of foldf dflt recs k)) (mset_set (fst ` set recs))"
proof -
  have "distinct (map fst (aggregated foldf dflt recs))" by (rule aggregated_distinct) simp
  note mset_by_key [OF this, unfolded aggregated_keys]
  also have "image_mset (\<lambda>k. (k, the (map_of (aggregated foldf dflt recs) k))) (mset_set (fst ` set recs))
      = image_mset (\<lambda>k. (k, aggregate_of foldf dflt recs k)) (mset_set (fst ` set recs))"
    by (rule image_mset_cong) (auto simp: aggregate_records aggregate_of_def get_or_def)
  finally show ?thesis .
qed

definition aggregate_absorb ::
  "('k \<Rightarrow> 'v \<Rightarrow> 'a \<Rightarrow> 'a) \<Rightarrow> 'a \<Rightarrow> 't \<times> ('k \<times> 'v) list list \<Rightarrow> ('t, 'k, 'a) aggregates \<Rightarrow> 'e list \<times> ('t, 'k, 'a) aggregates" where
  "aggregate_absorb foldf dflt g u = ([], AList.update (fst g) (fold (aggregate_record foldf dflt) (concat (snd g)) (get_or [] u (fst g))) u)"

definition emit_all :: "('k \<Rightarrow> 'a \<Rightarrow> 'r) \<Rightarrow> (('k \<times> 'a) list \<Rightarrow> ('k \<times> 'a) list) \<Rightarrow> ('k \<times> 'a) list \<Rightarrow> 'r list" where
  "emit_all emit iter aggs = map (\<lambda>(k, a). emit k a) (iter aggs)"

lemma given_records: "concat (map given (map (\<lambda>x. Give_record (f x)) xs)) = map f xs" "concat (map contained (map (\<lambda>x. Give_record (f x)) xs)) = []"
  by (induction xs) simp_all

interpretation aggregate: notify_operator ue "aggregate_notified ue emit iter" "keyed_release (emit_all emit iter)"
  "aggregate_input ue foldf dflt" "\<lambda>_. aggregate_absorb foldf dflt" times_of "\<lambda>_ _. True"
  for ue :: "('t::linorder, 's, 'r) unary_env" and emit :: "'k \<Rightarrow> 'a \<Rightarrow> 'r" and iter and foldf :: "'k \<Rightarrow> 'v \<Rightarrow> 'a \<Rightarrow> 'a" and dflt
proof unfold_locales
  fix nu :: "('t, 'r, ('t, 'k, 'a) aggregates) notify_op" and r :: "'t request"
  assume a: "unary_ok ue" "nu_ok ue nu" "cap_internal (fst r) = ue_internal ue"
  let ?rel = "keyed_release (emit_all emit iter) (cap_time (fst r)) (nu_user nu)"
  show "\<exists>nu'. aggregate_notified ue emit iter r nu = Some nu' \<and> nu_ok ue nu' \<and> nu_notificator nu' = nu_notificator nu \<and> nu_user nu' = snd ?rel
      \<and> delivered (nu_pushee nu') = delivered (nu_pushee nu) @ map (Pair (cap_time (fst r))) (fst ?rel)
      \<and> (\<forall>a t. nu_ledger ue nu' a t = nu_ledger ue nu a t - holds [fst r] a t)"
  proof (cases "map_of (nu_user nu) (cap_time (fst r))")
    case None
    with a(2) show ?thesis
      by (intro exI [of _ "drop_notified r nu"]) (simp add: aggregate_notified_def keyed_release_def drop_notified_ledger delete_absent)
  next
    case (Some aggs)
    have e: "map (\<lambda>(key, agg). Give_record (emit key agg)) (iter aggs) = map (\<lambda>x. Give_record (emit (fst x) (snd x))) (iter aggs)"
      by (simp add: case_prod_unfold)
    from notified_output_ok [OF a(1) _ a(3), of "nu\<lparr>nu_user := AList.delete (cap_time (fst r)) (nu_user nu)\<rparr>" "map (\<lambda>(key, agg). Give_record (emit key agg)) (iter aggs)"] a(2) Some
    show ?thesis unfolding e given_records by (auto simp: aggregate_notified_def e keyed_release_def drop_notified_ledger emit_all_def case_prod_unfold)
  qed
next
  fix t and u :: "('t, 'k, 'a) aggregates"
  show "times_of (snd (keyed_release (emit_all emit iter) t u)) = times_of u - {t}" by (rule keys_keyed_release)
next
  fix g :: "('t, 's) input_capability \<times> ('k \<times> 'v) list list" and frontiers and nu :: "('t, 'r, ('t, 'k, 'a) aggregates) notify_op"
  assume a: "unary_ok ue" "input_cap_ok ue (fst g)" "nu_ok ue nu" "covers times_of nu" "nf_inv (ue_le ue) frontiers (nu_notificator nu)"
  let ?abs = "aggregate_absorb foldf dflt (ic_time (fst g), snd g) (nu_user nu) :: 'r list \<times> _"
  have u: "times_of (snd ?abs) = insert (ic_time (fst g)) (times_of (nu_user nu))" by (simp add: aggregate_absorb_def dom_update)
  from notify_retained_ok [OF a(1,2), of "nu\<lparr>nu_user := snd ?abs\<rparr>" frontiers] a(3,5) obtain nu' where
    k: "notify_retained ue frontiers (fst g) (nu\<lparr>nu_user := snd ?abs\<rparr>) = Some nu'" "nu_ok ue nu'" "nf_inv (ue_le ue) frontiers (nu_notificator nu')"
    "nu_user nu' = snd ?abs" "nu_pushee nu' = nu_pushee nu"
    "\<forall>t. fn_requested (nu_notificator nu') t = fn_requested (nu_notificator nu) t + (if t = ic_time (fst g) then 1 else 0)"
    "\<forall>a t. nu_ledger ue nu' a t = nu_ledger ue nu a t + guarded [fst g] a t" by auto
  have "covers times_of nu'" using a(4) by (auto simp: covers_def k(4,6) u)
  moreover have "aggregate_input ue foldf dflt frontiers g nu = Some nu'" using k(1) by (simp add: aggregate_input_def aggregate_absorb_def Let_def)
  ultimately show "\<exists>nu'. aggregate_input ue foldf dflt frontiers g nu = Some nu' \<and> nu_ok ue nu' \<and> covers times_of nu' \<and> nf_inv (ue_le ue) frontiers (nu_notificator nu')
      \<and> nu_user nu' = snd ?abs \<and> delivered (nu_pushee nu') = delivered (nu_pushee nu) @ map (Pair (ic_time (fst g))) (fst ?abs)
      \<and> (\<forall>a t. nu_ledger ue nu' a t = nu_ledger ue nu a t + guarded [fst g] a t)"
    using k by (auto simp: aggregate_absorb_def)
qed

text \<open>The records of the messages at a time, in the order of arrival.\<close>

definition records_at :: "('t, 'd) message list \<Rightarrow> 't \<Rightarrow> 'd list" where
  "records_at q t = concat (map snd (filter (\<lambda>m. fst m = t) q))"

lemma groups_records:
  assumes "groups_of q grps"
  shows "concat (map (\<lambda>(s, ds). if s = t then concat ds else []) grps) = records_at q t"
proof -
  have "concat (map (\<lambda>(s, ds). if s = t then concat ds else []) grps) = concat (map (\<lambda>(s, ds). concat (map (\<lambda>d. if s = t then d else []) ds)) grps)"
    by (induction grps) auto
  also have "\<dots> = concat (map (\<lambda>(s, d). if s = t then d else []) (sort_key fst q))" by (rule groups_concat [OF assms])
  also have "\<dots> = concat (map snd (filter (\<lambda>m. fst m = t) (sort_key fst q)))"
    by (induction rule: list.induct [of _ "sort_key fst q"]) auto
  also have "\<dots> = records_at q t" by (simp add: sort_key_stable records_at_def)
  finally show ?thesis .
qed

lemma aggregate_absorb_all:
  assumes "groups_of q grps"
  shows "get_or [] (fold (\<lambda>g u. snd (aggregate_absorb foldf dflt g u)) grps m) t = fold (aggregate_record foldf dflt) (records_at q t) (get_or [] m t)"
proof -
  have "get_or [] (fold (\<lambda>g u. snd (aggregate_absorb foldf dflt g u)) grps m) t
      = fold (aggregate_record foldf dflt) (concat (map (\<lambda>(s, ds). if s = t then concat ds else []) grps)) (get_or [] m t)"
    by (induction grps arbitrary: m) (auto simp: aggregate_absorb_def get_or_def update_conv')
  then show ?thesis by (simp add: groups_records [OF assms])
qed

text \<open>
  C25: a call of the logic of \<open>aggregate\<close> does not panic.  For every time that the frontier has passed it sends one
  result for every key among all the records received for the time, computed by folding the values of the key in the
  order of arrival, in whichever order the map is enumerated; for other times the aggregates are kept, and nothing is sent.
\<close>
theorem aggregate_correct:
  assumes "unary_ok ue" and "notify_inv ue times_of nu" and "\<forall>m. mset (iter m) = mset m"
    and "\<forall>t. get_or [] (nu_user nu) t = aggregated foldf dflt (recs t)"
  shows "\<exists>nu' rs. aggregate_schedule ue foldf dflt emit iter frontier q nu = Some nu' \<and> notify_inv ue times_of nu'
    \<and> delivered (nu_pushee nu') = delivered (nu_pushee nu) @ rs \<and> sorted (map fst rs)
    \<and> (\<forall>t. let all = recs t @ records_at q t in
        mset (at_time t rs) = (if passed (ue_le ue) [frontier] t then image_mset (\<lambda>k. emit k (aggregate_of foldf dflt all k)) (mset_set (fst ` set all)) else {#})
        \<and> get_or [] (nu_user nu') t = aggregated foldf dflt (if passed (ue_le ue) [frontier] t then [] else all))
    \<and> (\<forall>a t. nu_ledger ue nu' a t = nu_ledger ue nu a t + (if a = ue_consumed ue then queued q t else 0))"
proof -
  have e: "aggregate_schedule ue foldf dflt emit iter = unary_notify_call ue (\<lambda>frontiers q nu.
      do { (gs, nu) \<leftarrow> unary_input ue q nu; nu \<leftarrow> try_fold (aggregate_input ue foldf dflt frontiers) gs nu; unary_notified ue frontiers (aggregate_notified ue emit iter) nu })"
    by (simp add: aggregate_schedule_def aggregate_logic_def [abs_def])
  from aggregate.input_first [OF assms(1,2), where q = q and frontier = frontier and foldf = foldf and dflt = dflt and emit = emit and iter = iter] obtain nu' where
    k: "aggregate_schedule ue foldf dflt emit iter frontier q nu = Some nu'" "notify_inv ue times_of nu'"
    "absorb_then_release (aggregate_absorb foldf dflt) (keyed_release (emit_all emit iter)) times_of (passed (ue_le ue) [frontier]) q (nu_user nu) (delivered (nu_pushee nu)) (nu_user nu') (delivered (nu_pushee nu'))"
    "\<forall>a t. nu_ledger ue nu' a t = nu_ledger ue nu a t + (if a = ue_consumed ue then queued q t else 0)" unfolding e by blast
  obtain grps m1 rs where r: "groups_of q grps" "m1 = fold (\<lambda>g u. snd (aggregate_absorb foldf dflt g u)) grps (nu_user nu)"
    "delivered (nu_pushee nu') = delivered (nu_pushee nu) @ rs" "sorted (map fst rs)"
    "\<And>t. map_of (nu_user nu') t = (if passed (ue_le ue) [frontier] t then None else map_of m1 t)"
    "\<And>t. at_time t rs = (if passed (ue_le ue) [frontier] t then (case map_of m1 t of None \<Rightarrow> [] | Some x \<Rightarrow> emit_all emit iter x) else [])"
    by (rule absorb_then_release_keyed [OF k(3)]) (simp_all add: aggregate_absorb_def)
  have m1: "get_or [] m1 t = aggregated foldf dflt (recs t @ records_at q t)" for t
    unfolding r(2) aggregate_absorb_all [OF r(1)] using assms(4) by simp
  have "iter [] = []" using assms(3) by (metis mset_zero_iff)
  then have o: "at_time t rs = (if passed (ue_le ue) [frontier] t then emit_all emit iter (get_or [] m1 t) else [])" for t
    using r(6) by (simp add: get_or_def emit_all_def split: option.split)
  have em: "mset (emit_all emit iter (aggregated foldf dflt all)) = image_mset (\<lambda>k. emit k (aggregate_of foldf dflt all k)) (mset_set (fst ` set all))" for all
    using assms(3) by (simp add: emit_all_def mset_aggregated image_mset.compositionality comp_def)
  have "mset (at_time t rs) = (if passed (ue_le ue) [frontier] t then image_mset (\<lambda>k. emit k (aggregate_of foldf dflt (recs t @ records_at q t) k))
      (mset_set (fst ` set (recs t @ records_at q t))) else {#})" for t
    unfolding o m1 using em [of "recs t @ records_at q t"] by (simp only: if_distrib [of mset] mset.simps(1))
  moreover have "get_or [] (nu_user nu') t = aggregated foldf dflt (if passed (ue_le ue) [frontier] t then [] else recs t @ records_at q t)" for t
    using m1 by (simp add: get_or_def r(5))
  ultimately show ?thesis unfolding Let_def using k(1,2,4) r(3,4) by blast
qed

theorem aggregate_correct_witness:
  "\<exists>nu nu'. unary_notify_new (\<le>) \<lparr>cap_time = 0, cap_internal = 1\<rparr> [] [] (\<lambda>_. cb_new) = Some nu
     \<and> aggregate_schedule example_env (\<lambda>_ v a. a + v) 0 (\<lambda>k a. (k, a)) rev (ma_new_bottom (5 :: nat)) [(3, [(1, 10), (2, 5)]), (7, [(1, 1)]), (3, [(1, 4)])] nu = Some nu'
     \<and> mset (at_time 3 (delivered (nu_pushee nu'))) = {#(1 :: nat, 14 :: nat), (2, 5)#} \<and> get_or [] (nu_user nu') 7 = [(1, 1)]"
proof -
  let ?q = "[(3 :: nat, [(1 :: nat, 10 :: nat), (2, 5)]), (7, [(1, 1)]), (3, [(1, 4)])]" and ?f = "\<lambda>_ v a :: nat. a + v"
  obtain nu :: "(nat, nat \<times> nat, (nat, nat, nat) aggregates) notify_op" where n: "unary_notify_new (\<le>) \<lparr>cap_time = 0, cap_internal = 1\<rparr> [] [] (\<lambda>_. cb_new) = Some nu"
    "notify_inv example_env times_of nu" "nu_user nu = []" "delivered (nu_pushee nu) = []"
    using notify_new_inv [of times_of "[] :: (nat, nat, nat) aggregates" "(\<le>)" "\<lparr>cap_time = 0, cap_internal = 1\<rparr>" "\<lambda>_. cb_new" example_env] by auto
  have "\<forall>m :: (nat \<times> nat) list. mset (rev m) = mset m" "\<forall>t. get_or [] (nu_user nu) t = aggregated ?f 0 ((\<lambda>_. []) t)"
    by (simp_all add: n(3) get_or_def)
  from aggregate_correct [OF example_env_ok n(2) this, of Pair "ma_new_bottom 5" ?q] obtain nu' rs where
    k: "aggregate_schedule example_env ?f 0 (\<lambda>k a. (k, a)) rev (ma_new_bottom 5) ?q nu = Some nu'" "delivered (nu_pushee nu') = [] @ rs"
    "mset (at_time 3 rs) = (if passed (\<le>) [ma_new_bottom (5 :: nat)] 3 then image_mset (\<lambda>k. (k, aggregate_of ?f 0 (records_at ?q 3) k)) (mset_set (fst ` set (records_at ?q 3))) else {#})"
    "get_or [] (nu_user nu') 7 = aggregated ?f 0 (if passed (\<le>) [ma_new_bottom (5 :: nat)] 7 then [] else records_at ?q 7)"
    unfolding n(4) example_env_le Let_def append_Nil by blast
  have p: "passed (\<le>) [ma_new_bottom (5 :: nat)] 3" "\<not> passed (\<le>) [ma_new_bottom (5 :: nat)] 7"
    by (simp_all add: passed_def ma_less_equal_def ma_new_bottom_def aref_less_equal_def)
  have q: "records_at ?q 3 = [(1, 10), (2, 5), (1, 4)]" "records_at ?q 7 = [(1, 1)]" by (simp_all add: records_at_def)
  have "fst ` set [(1 :: nat, 10 :: nat), (2, 5), (1, 4)] = {1, 2}" "mset_set {1, 2 :: nat} = {#1, 2#}" by auto
  with k(3) [unfolded q] p have "mset (at_time 3 rs) = {#(1, 14), (2, 5)#}" by (simp add: aggregate_of_def)
  moreover from k(4) [unfolded q] p have "get_or [] (nu_user nu') 7 = [(1, 1)]" by (simp add: aggregate_record_def get_or_def)
  ultimately show ?thesis using n(1) k(1,2) by auto
qed

section \<open>state machine\<close>

text \<open>The reference: records applied one at a time to the states of their keys, with the outputs at the times of the records.\<close>

definition machine_run ::
  "('k, 'v, 'a, 'r) transition \<Rightarrow> 'a \<Rightarrow> ('t \<times> 'k \<times> 'v) list \<Rightarrow> ('k \<times> 'a) list \<Rightarrow> ('t \<times> 'r) list \<times> ('k \<times> 'a) list" where
  "machine_run foldf dflt ps states =
     step_all fst (\<lambda>(_, key, val) states.
        let (state, remove, out) = foldf key val (get_or dflt states key); states = AList.update key state states
        in (out, if remove then AList.delete key states else states)) ps states"

lemma step_all_append:
  "step_all time step (xs @ ys) u = (fst (step_all time step xs u) @ fst (step_all time step ys (snd (step_all time step xs u))),
     snd (step_all time step ys (snd (step_all time step xs u))))"
  by (induction xs arbitrary: u) (simp_all add: case_prod_unfold Let_def)

lemma machine_run_append:
  "machine_run foldf dflt (ps @ qs) st = (fst (machine_run foldf dflt ps st) @ fst (machine_run foldf dflt qs (snd (machine_run foldf dflt ps st))),
     snd (machine_run foldf dflt qs (snd (machine_run foldf dflt ps st))))"
  unfolding machine_run_def by (rule step_all_append)

lemma machine_run_Nil [simp]: "machine_run foldf dflt [] st = ([], st)"
  by (simp add: machine_run_def)

lemma machine_run_records:
  "machine_run foldf dflt (map (Pair t) recs) st = (map (Pair t) (concat (fst (sm_records foldf dflt recs st))), snd (sm_records foldf dflt recs st))"
proof (induction recs arbitrary: st)
  case (Cons r recs)
  then show ?case by (cases r) (simp add: machine_run_def case_prod_unfold Let_def)
qed simp

definition machine_release :: "('k, 'v, 'a, 'r) transition \<Rightarrow> 'a \<Rightarrow> 't \<Rightarrow> ('t, 'k, 'v, 'a) machine \<Rightarrow> 'r list \<times> ('t, 'k, 'v, 'a) machine" where
  "machine_release foldf dflt t m =
     (let (outs, states) = sm_records foldf dflt (get_or [] (sm_pending m) t) (sm_states m)
      in (concat outs, \<lparr>sm_pending = AList.delete t (sm_pending m), sm_states = states\<rparr>))"

definition machine_absorb ::
  "('t \<Rightarrow> 't \<Rightarrow> bool) \<Rightarrow> ('k, 'v, 'a, 'r) transition \<Rightarrow> 'a \<Rightarrow> 't mutable_antichain list \<Rightarrow> 't \<times> ('k \<times> 'v) list list
   \<Rightarrow> ('t, 'k, 'v, 'a) machine \<Rightarrow> 'r list \<times> ('t, 'k, 'v, 'a) machine" where
  "machine_absorb le foldf dflt frontiers g m =
     (if ma_less_than le (frontiers ! 0) (fst g) then ([], fold (stash_pending (fst g)) (snd g) m)
      else (let (outs, states) = sm_records foldf dflt (concat (snd g)) (sm_states m) in (concat outs, m\<lparr>sm_states := states\<rparr>)))"

lemma stash_pending_all:
  "sm_states (fold (stash_pending t) ds m) = sm_states m"
  "get_or [] (sm_pending (fold (stash_pending t) ds m)) s = get_or [] (sm_pending m) s @ (if s = t then concat ds else [])"
  "times_of (sm_pending (fold (stash_pending t) ds m)) = times_of (sm_pending m) \<union> (if ds = [] then {} else {t})"
  by (induction ds arbitrary: m) (auto simp: stash_pending_def get_or_def update_conv' dom_update)

lemma given_iterators: "concat (map given (map Give_iterator outs)) = concat outs" "concat (map contained (map Give_iterator outs)) = []"
  by (induction outs) simp_all

abbreviation machine_times :: "('t, 'k, 'v, 'a) machine \<Rightarrow> 't set" where "machine_times m \<equiv> times_of (sm_pending m)"

lemma machine_notified_ok:
  assumes "unary_ok ue" and "nu_ok ue nu" and "cap_internal (fst r) = ue_internal ue"
  shows "\<exists>nu'. machine_notified ue foldf dflt r nu = Some nu' \<and> nu_ok ue nu' \<and> nu_notificator nu' = nu_notificator nu
      \<and> nu_user nu' = snd (machine_release foldf dflt (cap_time (fst r)) (nu_user nu))
      \<and> delivered (nu_pushee nu') = delivered (nu_pushee nu) @ map (Pair (cap_time (fst r))) (fst (machine_release foldf dflt (cap_time (fst r)) (nu_user nu)))
      \<and> (\<forall>a t. nu_ledger ue nu' a t = nu_ledger ue nu a t - holds [fst r] a t)"
proof (cases "map_of (sm_pending (nu_user nu)) (cap_time (fst r))")
  case None
  with assms(2) show ?thesis
    by (intro exI [of _ "drop_notified r nu"]) (simp add: machine_notified_def machine_release_def get_or_def drop_notified_ledger delete_absent)
next
  case (Some pend)
  obtain outs states where o: "sm_records foldf dflt pend (sm_states (nu_user nu)) = (outs, states)"
    by (cases "sm_records foldf dflt pend (sm_states (nu_user nu))")
  from notified_output_ok [OF assms(1) _ assms(3), of "nu\<lparr>nu_user := \<lparr>sm_pending = AList.delete (cap_time (fst r)) (sm_pending (nu_user nu)), sm_states = states\<rparr>\<rparr>"
      "map Give_iterator outs"] assms(2) Some o
  show ?thesis unfolding given_iterators
    by (auto simp: machine_notified_def machine_release_def get_or_def drop_notified_ledger)
qed

lemma machine_input_ok:
  fixes foldf :: "('k, 'v, 'a, 'r) transition" and dflt
  assumes "unary_ok ue" and "input_cap_ok ue (fst g)" and "frontiers \<noteq> []" and "snd g \<noteq> []" and "nu_ok ue nu" and "covers machine_times nu"
    and "nf_inv (ue_le ue) frontiers (nu_notificator nu)"
  defines "res \<equiv> machine_absorb (ue_le ue) foldf dflt frontiers (ic_time (fst g), snd g) (nu_user nu)"
  shows "\<exists>nu'. machine_input ue foldf dflt frontiers g nu = Some nu' \<and> nu_ok ue nu' \<and> covers machine_times nu' \<and> nf_inv (ue_le ue) frontiers (nu_notificator nu')
      \<and> nu_user nu' = snd res \<and> delivered (nu_pushee nu') = delivered (nu_pushee nu) @ map (Pair (ic_time (fst g))) (fst res)
      \<and> (\<forall>a t. nu_ledger ue nu' a t = nu_ledger ue nu a t + guarded [fst g] a t)"
proof (cases "ma_less_than (ue_le ue) (frontiers ! 0) (ic_time (fst g))")
  case True
  let ?u = "fold (stash_pending (ic_time (fst g))) (snd g) (nu_user nu)"
  from notify_retained_ok [OF assms(1,2), of "nu\<lparr>nu_user := ?u\<rparr>" frontiers] assms(5,7) obtain nu' where
    k: "notify_retained ue frontiers (fst g) (nu\<lparr>nu_user := ?u\<rparr>) = Some nu'" "nu_ok ue nu'" "nf_inv (ue_le ue) frontiers (nu_notificator nu')"
    "nu_user nu' = ?u" "nu_pushee nu' = nu_pushee nu"
    "\<forall>t. fn_requested (nu_notificator nu') t = fn_requested (nu_notificator nu) t + (if t = ic_time (fst g) then 1 else 0)"
    "\<forall>a t. nu_ledger ue nu' a t = nu_ledger ue nu a t + guarded [fst g] a t" by auto
  have "covers machine_times nu'" using assms(4,6) by (auto simp: covers_def k(4,6) stash_pending_all)
  moreover have "machine_input ue foldf dflt frontiers g nu = Some nu'" using k(1) True assms(3) by (simp add: machine_input_def vec_get_def)
  ultimately show ?thesis using k True by (auto simp: res_def machine_absorb_def)
next
  case False
  obtain outs states where o: "sm_records foldf dflt (concat (snd g)) (sm_states (nu_user nu)) = (outs, states)"
    by (cases "sm_records foldf dflt (concat (snd g)) (sm_states (nu_user nu))")
  let ?nu = "nu\<lparr>nu_user := (nu_user nu)\<lparr>sm_states := states\<rparr>\<rparr>"
  have "nu_ok ue ?nu" using assms(5) by simp
  from unary_output_ok [OF assms(1) this, of True "ic_time (fst g)" "map Give_iterator outs", unfolded given_iterators] obtain h b p where
    k: "unary_output ue True (ic_time (fst g)) (map Give_iterator outs) ?nu = Some (?nu\<lparr>nu_store := h, nu_builder := b, nu_pushee := p\<rparr>)"
    "nu_ok ue (?nu\<lparr>nu_store := h, nu_builder := b, nu_pushee := p\<rparr>)" "nu_ledger ue (?nu\<lparr>nu_store := h, nu_builder := b, nu_pushee := p\<rparr>) = nu_ledger ue nu"
    "delivered p = delivered (nu_pushee nu) @ map (Pair (ic_time (fst g))) (concat outs)" by auto
  let ?nu' = "drop_input (fst g) (?nu\<lparr>nu_store := h, nu_builder := b, nu_pushee := p\<rparr>)"
  have "vec_get (oc_internal (ue_core ue)) 0 = Some (ue_internal ue)" "vec_get frontiers 0 = Some (frontiers ! 0)" using assms(1,3) by (simp_all add: unary_ok_def)
  then have "machine_input ue foldf dflt frontiers g nu = Some ?nu'"
    using False o k(1) ic_valid_eq [OF assms(1,2)] by (simp add: machine_input_def vec_get_def)
  moreover have "covers machine_times ?nu'" using assms(6) by (simp add: covers_def)
  ultimately show ?thesis using k(2-4) assms(7) False o
    by (intro exI [of _ ?nu']) (simp add: res_def machine_absorb_def drop_input_ledger)
qed

interpretation machine: notify_operator ue "machine_notified ue foldf dflt" "machine_release foldf dflt"
  "machine_input ue foldf dflt" "machine_absorb (ue_le ue) foldf dflt" machine_times "\<lambda>frontiers g. frontiers \<noteq> [] \<and> snd g \<noteq> []"
  for ue :: "('t::linorder, 's, 'r) unary_env" and foldf :: "('k, 'v, 'a, 'r) transition" and dflt
proof unfold_locales
  fix t and u :: "('t, 'k, 'v, 'a) machine"
  show "machine_times (snd (machine_release foldf dflt t u)) = machine_times u - {t}"
    by (auto simp: machine_release_def case_prod_unfold Let_def AList.delete_eq image_iff)
qed (rule machine_notified_ok machine_input_ok; simp)+

text \<open>The records released by the notifications, and those processed on arrival.\<close>

lemma machine_release_all:
  assumes "sorted ts" and "step_all id (machine_release foldf dflt) ts m = (rs, m')"
  shows "\<exists>ps. rs = fst (machine_run foldf dflt ps (sm_states m)) \<and> sm_states m' = snd (machine_run foldf dflt ps (sm_states m))
    \<and> sorted (map fst ps) \<and> fst ` set ps \<subseteq> set ts \<and> (\<forall>t. map_of (sm_pending m') t = (if t \<in> set ts then None else map_of (sm_pending m) t))
    \<and> (\<forall>t. at_time t ps = (if t \<in> set ts then get_or [] (sm_pending m) t else []))"
  using assms
proof (induction ts arbitrary: m rs m')
  case (Cons s ts)
  define pend where "pend = get_or [] (sm_pending m) s"
  define m1 where "m1 = snd (machine_release foldf dflt s m)"
  obtain rs1 where r: "step_all id (machine_release foldf dflt) ts m1 = (rs1, m')" "rs = map (Pair s) (fst (machine_release foldf dflt s m)) @ rs1"
    by (rule step_all_ConsE [OF Cons.prems(2)]) (simp add: m1_def)
  have m1: "sm_pending m1 = AList.delete s (sm_pending m)" "sm_states m1 = snd (machine_run foldf dflt (map (Pair s) pend) (sm_states m))"
    "map (Pair s) (fst (machine_release foldf dflt s m)) = fst (machine_run foldf dflt (map (Pair s) pend) (sm_states m))"
    by (simp_all add: m1_def machine_release_def pend_def machine_run_records case_prod_unfold Let_def)
  from Cons.IH [OF _ r(1)] Cons.prems(1) obtain ps where
    ih: "rs1 = fst (machine_run foldf dflt ps (sm_states m1))" "sm_states m' = snd (machine_run foldf dflt ps (sm_states m1))" "sorted (map fst ps)"
    "fst ` set ps \<subseteq> set ts" "\<And>t. map_of (sm_pending m') t = (if t \<in> set ts then None else map_of (sm_pending m1) t)"
    "\<And>t. at_time t ps = (if t \<in> set ts then get_or [] (sm_pending m1) t else [])" by auto
  let ?ps = "map (Pair s) pend @ ps"
  have "sorted (map fst ?ps)" using ih(3,4) Cons.prems(1) by (auto simp: sorted_append comp_def map_replicate_const)
  moreover have "at_time t ?ps = (if t \<in> set (s # ts) then get_or [] (sm_pending m) t else [])" for t
    using ih(6) [of t] by (auto simp: m1(1) get_or_def delete_conv' pend_def)
  moreover have "map_of (sm_pending m') t = (if t \<in> set (s # ts) then None else map_of (sm_pending m) t)" for t
    by (simp add: ih(5) m1(1) delete_conv')
  ultimately show ?case using ih(1,2,4) r(2) m1(2,3) by (intro exI [of _ ?ps]) (auto simp: machine_run_append)
qed simp

lemma machine_absorb_all:
  assumes "sorted (map fst grps)" and "step_all fst (machine_absorb le foldf dflt [frontier]) grps m = (rs, m')"
  defines "later \<equiv> ma_less_than le frontier" and "new \<equiv> \<lambda>t. concat (map (\<lambda>(s, ds). if s = t then concat ds else []) grps)"
  shows "\<exists>ps. rs = fst (machine_run foldf dflt ps (sm_states m)) \<and> sm_states m' = snd (machine_run foldf dflt ps (sm_states m))
    \<and> sorted (map fst ps) \<and> fst ` set ps \<subseteq> {t \<in> fst ` set grps. \<not> later t} \<and> machine_times m' \<subseteq> machine_times m \<union> {t \<in> fst ` set grps. later t}
    \<and> (\<forall>t. at_time t ps = (if later t then [] else new t)) \<and> (\<forall>t. get_or [] (sm_pending m') t = get_or [] (sm_pending m) t @ (if later t then new t else []))"
  using assms(1,2) unfolding new_def
proof (induction grps arbitrary: m rs m')
  case (Cons g grps)
  define m1 where "m1 = snd (machine_absorb le foldf dflt [frontier] g m)"
  define now where "now = (if later (fst g) then [] else map (Pair (fst g)) (concat (snd g)))"
  obtain rs1 where r: "step_all fst (machine_absorb le foldf dflt [frontier]) grps m1 = (rs1, m')"
    "rs = map (Pair (fst g)) (fst (machine_absorb le foldf dflt [frontier] g m)) @ rs1"
    by (rule step_all_ConsE [OF Cons.prems(2)]) (simp add: m1_def)
  have m1: "sm_states m1 = snd (machine_run foldf dflt now (sm_states m))"
    "map (Pair (fst g)) (fst (machine_absorb le foldf dflt [frontier] g m)) = fst (machine_run foldf dflt now (sm_states m))"
    "get_or [] (sm_pending m1) t = get_or [] (sm_pending m) t @ (if later t \<and> fst g = t then concat (snd g) else [])"
    "machine_times m1 \<subseteq> machine_times m \<union> (if later (fst g) then {fst g} else {})" for t
    by (auto simp: m1_def now_def later_def machine_absorb_def machine_run_records stash_pending_all case_prod_unfold Let_def)
  from Cons.IH [OF _ r(1)] Cons.prems(1) obtain ps where
    ih: "rs1 = fst (machine_run foldf dflt ps (sm_states m1))" "sm_states m' = snd (machine_run foldf dflt ps (sm_states m1))" "sorted (map fst ps)"
    "fst ` set ps \<subseteq> {t \<in> fst ` set grps. \<not> later t}" "machine_times m' \<subseteq> machine_times m1 \<union> {t \<in> fst ` set grps. later t}"
    "\<And>t. at_time t ps = (if later t then [] else concat (map (\<lambda>(s, ds). if s = t then concat ds else []) grps))"
    "\<And>t. get_or [] (sm_pending m') t = get_or [] (sm_pending m1) t @ (if later t then concat (map (\<lambda>(s, ds). if s = t then concat ds else []) grps) else [])" by auto
  have "fst g \<le> t" if "t \<in> fst ` set ps" for t using ih(4) Cons.prems(1) that by fastforce
  then have "sorted (map fst (now @ ps))" using ih(3) by (auto simp: now_def sorted_append comp_def map_replicate_const)
  moreover have "at_time t (now @ ps) = (if later t then [] else concat (map (\<lambda>(s, ds). if s = t then concat ds else []) (g # grps)))" for t
    using ih(6) [of t] by (cases g) (auto simp: now_def comp_def)
  moreover have "get_or [] (sm_pending m') t = get_or [] (sm_pending m) t @ (if later t then concat (map (\<lambda>(s, ds). if s = t then concat ds else []) (g # grps)) else [])" for t
    using ih(7) [of t] m1(3) [of t] by (cases g) auto
  moreover have "fst ` set (now @ ps) \<subseteq> {t \<in> fst ` set (g # grps). \<not> later t}" using ih(4) by (auto simp: now_def)
  moreover have "machine_times m' \<subseteq> machine_times m \<union> {t \<in> fst ` set (g # grps). later t}"
  proof
    fix t
    assume "t \<in> machine_times m'"
    then have "t \<in> machine_times m1 \<or> t \<in> fst ` set grps \<and> later t" using ih(5) by blast
    moreover have "t \<in> machine_times m \<or> t = fst g \<and> later t" if "t \<in> machine_times m1"
      using subsetD [OF m1(4) that] by (cases "later (fst g)") auto
    ultimately have "t \<in> machine_times m \<or> (t = fst g \<or> t \<in> fst ` set grps) \<and> later t" by blast
    then show "t \<in> machine_times m \<union> {t \<in> fst ` set (g # grps). later t}" by simp
  qed
  ultimately show ?case using ih(1,2) r(2) m1(1,2) by (intro exI [of _ "now @ ps"]) (simp add: machine_run_append)
qed simp

lemma release_then_absorbE:
  assumes "release_then_absorb release absorb keys pass q u d u' d'"
  obtains grps ts rs1 u1 rs2 where "step_all id release ts u = (rs1, u1)" "step_all fst absorb grps u1 = (rs2, u')"
    "groups_of q grps" "sorted ts" "set ts = {t \<in> keys u. pass t}" "d' = d @ rs1 @ rs2"
proof -
  obtain grps ts where g: "let (rs1, u1) = step_all id release ts u; (rs2, u2) = step_all fst absorb grps u1
      in groups_of q grps \<and> sorted ts \<and> set ts = {t \<in> keys u. pass t} \<and> u' = u2 \<and> d' = d @ rs1 @ rs2"
    using assms unfolding release_then_absorb_def by blast
  obtain rs1 u1 where 1: "step_all id release ts u = (rs1, u1)" by (cases "step_all id release ts u")
  obtain rs2 u2 where 2: "step_all fst absorb grps u1 = (rs2, u2)" by (cases "step_all fst absorb grps u1")
  from g that [OF 1] 2 show thesis by (simp add: 1)
qed

lemma less_than_not_passed: "ma_less_than le frontier t \<Longrightarrow> \<not> passed le [frontier] t"
  by (auto simp: ma_less_than_def aref_less_than_def passed_def ma_less_equal_def aref_less_equal_def less_than_def list_ex_iff)

lemma machine_schedule_ok:
  assumes "unary_ok ue" and "notify_inv ue machine_times nu"
  shows "\<exists>nu'. machine_schedule ue foldf dflt frontier q nu = Some nu' \<and> notify_inv ue machine_times nu'
    \<and> release_then_absorb (machine_release foldf dflt) (machine_absorb (ue_le ue) foldf dflt [frontier]) machine_times (passed (ue_le ue) [frontier]) q
        (nu_user nu) (delivered (nu_pushee nu)) (nu_user nu') (delivered (nu_pushee nu'))
    \<and> (\<forall>a t. nu_ledger ue nu' a t = nu_ledger ue nu a t + (if a = ue_consumed ue then queued q t else 0))"
proof -
  have pre: "\<forall>g \<in> set grps. [frontier] \<noteq> [] \<and> snd g \<noteq> []" if "groups_of q grps" for grps
    using that by (force simp: groups_of_def)
  have keys: "\<forall>t \<in> machine_times (snd (step_all fst (machine_absorb (ue_le ue) foldf dflt [frontier]) grps u)). \<not> passed (ue_le ue) [frontier] t"
    if "\<forall>t \<in> machine_times u. \<not> passed (ue_le ue) [frontier] t" for grps u
    using that
  proof (induction grps arbitrary: u)
    case (Cons g grps)
    have "machine_times (snd (machine_absorb (ue_le ue) foldf dflt [frontier] g u)) \<subseteq> machine_times u \<union> {t. ma_less_than (ue_le ue) frontier t}"
      by (auto simp: machine_absorb_def stash_pending_all case_prod_unfold Let_def)
    then have "\<forall>t \<in> machine_times (snd (machine_absorb (ue_le ue) foldf dflt [frontier] g u)). \<not> passed (ue_le ue) [frontier] t"
      using Cons.prems less_than_not_passed [of "ue_le ue" frontier] by blast
    from Cons.IH [OF this] show ?case by (simp add: case_prod_unfold Let_def)
  qed simp
  have e: "machine_schedule ue foldf dflt = unary_notify_call ue (\<lambda>frontiers q nu.
      do { nu \<leftarrow> unary_notified ue frontiers (machine_notified ue foldf dflt) nu; (gs, nu) \<leftarrow> unary_input ue q nu; try_fold (machine_input ue foldf dflt frontiers) gs nu })"
    by (simp add: machine_schedule_def machine_logic_def [abs_def])
  show ?thesis unfolding e
    by (rule machine.notify_first [OF assms, where q = q and frontier = frontier and foldf = foldf and dflt = dflt]) (use pre keys in blast)+
qed

lemma groups_times:
  assumes "groups_of q grps" and "\<forall>m \<in> set q. P (fst m)" and "t \<in> fst ` set grps"
  shows "P t"
proof -
  obtain ds where d: "(t, ds) \<in> set grps" using assms(3) by auto
  then have "snd (t, ds) \<in> snd ` set grps" by (rule imageI)
  then have "ds \<noteq> []" using assms(1) unfolding groups_of_def by (metis snd_conv)
  then have "(t, hd ds) \<in> set q" using groups_messages [OF assms(1) d] by simp
  then show ?thesis using bspec [OF assms(2)] by fastforce
qed

lemma ma_less_equalE:
  assumes "ma_less_equal le frontier t"
  obtains x where "x \<in> set (ma_frontier frontier)" "le x t"
  using assms by (auto simp: ma_less_equal_def aref_less_equal_def list_ex_iff)

lemma times_of_remove:
  assumes "\<And>t. map_of m' t = (if t \<in> T then None else map_of m t)"
  shows "times_of m' = times_of m - T"
proof (intro set_eqI)
  fix t
  show "t \<in> times_of m' \<longleftrightarrow> t \<in> times_of m - T"
    using assms [of t] map_of_eq_None_iff [of m' t] map_of_eq_None_iff [of m t] by (cases "t \<in> T") simp_all
qed

text \<open>What is released was passed by the frontier, so it comes before what has just arrived.\<close>

lemma passed_before:
  fixes s :: "'t::linorder"
  assumes "passed (\<le>) [frontier] s" and "ma_less_equal (\<le>) frontier t"
  shows "s \<le> t"
proof (rule ma_less_equalE [OF assms(2)])
  fix x
  assume "x \<in> set (ma_frontier frontier)" "x \<le> t"
  moreover from this have "\<not> x \<le> s" using assms(1) by (auto simp: passed_def ma_less_equal_def aref_less_equal_def list_ex_iff)
  ultimately show ?thesis by simp
qed

lemma machine_steps_in_order:
  assumes "release_then_absorb (machine_release foldf dflt) (machine_absorb (\<le>) foldf dflt [frontier]) machine_times (passed (\<le>) [frontier]) q m d m' d'"
    and "\<forall>t \<in> machine_times m \<union> set (ma_frontier frontier). lo \<le> t" and "\<forall>m \<in> set q. ma_less_equal (\<le>) frontier (fst m)"
  shows "\<exists>ps. d' = d @ fst (machine_run foldf dflt ps (sm_states m)) \<and> sm_states m' = snd (machine_run foldf dflt ps (sm_states m))
    \<and> sorted (map fst ps) \<and> (\<forall>t \<in> fst ` set ps. lo \<le> t \<and> \<not> ma_less_than (\<le>) frontier t) \<and> (\<forall>t \<in> machine_times m'. ma_less_equal (\<le>) frontier t)
    \<and> (\<forall>t. mset (at_time t ps) + mset (get_or [] (sm_pending m') t) = mset (get_or [] (sm_pending m) t) + mset (records_at q t))"
proof -
  let ?L = "ma_less_than (\<le>) frontier"
  obtain grps ts rs1 m1 rs2 where
    k: "step_all id (machine_release foldf dflt) ts m = (rs1, m1)" "step_all fst (machine_absorb (\<le>) foldf dflt [frontier]) grps m1 = (rs2, m')"
    "groups_of q grps" "sorted ts" "set ts = {t \<in> machine_times m. passed (\<le>) [frontier] t}" "d' = d @ rs1 @ rs2"
    by (rule release_then_absorbE [OF assms(1)])
  from machine_release_all [OF k(4,1)] obtain ps where
    p: "rs1 = fst (machine_run foldf dflt ps (sm_states m))" "sm_states m1 = snd (machine_run foldf dflt ps (sm_states m))"
    "sorted (map fst ps)" "fst ` set ps \<subseteq> set ts" "\<And>t. map_of (sm_pending m1) t = (if t \<in> set ts then None else map_of (sm_pending m) t)"
    "\<And>t. at_time t ps = (if t \<in> set ts then get_or [] (sm_pending m) t else [])" by blast
  have sg: "sorted (map fst grps)" using k(3) by (auto simp: groups_of_def intro: strict_sorted_imp_sorted)
  from machine_absorb_all [OF sg k(2)] obtain qs where
    a: "rs2 = fst (machine_run foldf dflt qs (sm_states m1))" "sm_states m' = snd (machine_run foldf dflt qs (sm_states m1))" "sorted (map fst qs)"
    "fst ` set qs \<subseteq> {t \<in> fst ` set grps. \<not> ?L t}" "machine_times m' \<subseteq> machine_times m1 \<union> {t \<in> fst ` set grps. ?L t}"
    "\<And>t. at_time t qs = (if ?L t then [] else records_at q t)"
    "\<And>t. get_or [] (sm_pending m') t = get_or [] (sm_pending m1) t @ (if ?L t then records_at q t else [])"
    unfolding groups_records [OF k(3)] by blast
  note g = groups_times [OF k(3), of "ma_less_equal (\<le>) frontier", OF assms(3)] and tm = times_of_remove [OF p(5)]
  have "s \<le> t" if "s \<in> fst ` set ps" "t \<in> fst ` set qs" for s t
    by (rule passed_before [of frontier]) (use that p(4) a(4) k(5) g in blast)+
  then have "sorted (map fst (ps @ qs))" using p(3) a(3) by (simp add: sorted_append)
  moreover have "lo \<le> t \<and> \<not> ?L t" if "t \<in> fst ` set ps" for t
    using that p(4) k(5) assms(2) less_than_not_passed [of "(\<le>)" frontier t] by blast
  moreover have "lo \<le> t \<and> \<not> ?L t" if "t \<in> fst ` set qs" for t
    by (rule ma_less_equalE [OF g [of t]]) (use that a(4) assms(2) in \<open>blast intro: order_trans\<close>)+
  moreover have "\<forall>t \<in> machine_times m'. ma_less_equal (\<le>) frontier t" using a(5) g k(5) by (auto simp: tm passed_def)
  moreover have "mset (at_time t (ps @ qs)) + mset (get_or [] (sm_pending m') t) = mset (get_or [] (sm_pending m) t) + mset (records_at q t)" for t
    using p(5,6) [of t] a(6,7) [of t] by (auto simp: get_or_def)
  moreover have "d' = d @ fst (machine_run foldf dflt (ps @ qs) (sm_states m))" "sm_states m' = snd (machine_run foldf dflt (ps @ qs) (sm_states m))"
    using k(6) p(1,2) a(1,2) by (simp_all add: machine_run_append)
  ultimately show ?thesis by (intro exI [of _ "ps @ qs"]) (simp add: image_Un ball_Un)
qed

text \<open>
  C24: over totally ordered times \<open>state_machine\<close> applies records to the states of their keys in the order of time.  A call of
  its logic does not panic; it processes a list \<open>ps\<close> of records, sorted by time, with the outputs and the
  states that applying them one at a time gives.  When what is pending and the frontier are at \<open>lo\<close> or later, and input is not
  before the frontier, every record processed is between \<open>lo\<close> and the frontier, and what stays pending is not before the
  frontier, so that later calls continue the order.  No record is lost or processed twice.
\<close>
theorem machine_in_order:
  assumes "unary_ok ue" and "ue_le ue = (\<le>)" and "notify_inv ue machine_times nu"
    and "\<forall>t \<in> machine_times (nu_user nu) \<union> set (ma_frontier frontier). lo \<le> t" and "\<forall>m \<in> set q. ma_less_equal (\<le>) frontier (fst m)"
  shows "\<exists>nu' ps. machine_schedule ue foldf dflt frontier q nu = Some nu' \<and> notify_inv ue machine_times nu'
    \<and> delivered (nu_pushee nu') = delivered (nu_pushee nu) @ fst (machine_run foldf dflt ps (sm_states (nu_user nu)))
    \<and> sm_states (nu_user nu') = snd (machine_run foldf dflt ps (sm_states (nu_user nu)))
    \<and> sorted (map fst ps) \<and> (\<forall>p \<in> set ps. lo \<le> fst p \<and> \<not> ma_less_than (\<le>) frontier (fst p))
    \<and> (\<forall>t \<in> machine_times (nu_user nu'). ma_less_equal (\<le>) frontier t)
    \<and> (\<forall>t. mset (at_time t ps) + mset (get_or [] (sm_pending (nu_user nu')) t) = mset (get_or [] (sm_pending (nu_user nu)) t) + mset (records_at q t))
    \<and> (\<forall>a t. nu_ledger ue nu' a t = nu_ledger ue nu a t + (if a = ue_consumed ue then queued q t else 0))"
proof -
  from machine_schedule_ok [OF assms(1,3), of foldf dflt frontier q, unfolded assms(2)] obtain nu' where
    m: "machine_schedule ue foldf dflt frontier q nu = Some nu'" "notify_inv ue machine_times nu'"
    "release_then_absorb (machine_release foldf dflt) (machine_absorb (\<le>) foldf dflt [frontier]) machine_times (passed (\<le>) [frontier]) q
       (nu_user nu) (delivered (nu_pushee nu)) (nu_user nu') (delivered (nu_pushee nu'))"
    "\<forall>a t. nu_ledger ue nu' a t = nu_ledger ue nu a t + (if a = ue_consumed ue then queued q t else 0)" by blast
  from machine_steps_in_order [OF m(3) assms(4,5)] m(1,2,4) show ?thesis unfolding ball_simps(9) by blast
qed

text \<open>A running sum for every key, reset by a zero: records at 4 wait for the frontier, records at the frontier do not.\<close>

definition running_sum :: "(nat, nat, nat, nat \<times> nat) transition" where
  "running_sum key val state = (state + val, val = 0, [(key, state + val)])"

theorem machine_in_order_witness:
  "\<exists>nu nu' ps. unary_notify_new (\<le>) \<lparr>cap_time = 0, cap_internal = 1\<rparr> [] \<lparr>sm_pending = [], sm_states = []\<rparr> (\<lambda>_. cb_new) = Some nu
     \<and> machine_schedule example_env running_sum 0 (ma_new_bottom (3 :: nat)) [(4, [(1, 5)]), (3, [(1, 2)])] nu = Some nu'
     \<and> mset (at_time 3 ps) + mset (get_or [] (sm_pending (nu_user nu')) 3) = {#(1, 2)#} \<and> sorted (map fst ps)
     \<and> (\<forall>p \<in> set ps. fst p \<le> 3) \<and> delivered (nu_pushee nu') = fst (machine_run running_sum 0 ps [])"
proof -
  let ?q = "[(4 :: nat, [(1 :: nat, 5 :: nat)]), (3, [(1, 2)])]" and ?m = "\<lparr>sm_pending = [], sm_states = []\<rparr> :: (nat, nat, nat, nat) machine"
  obtain nu :: "(nat, nat \<times> nat, (nat, nat, nat, nat) machine) notify_op" where n: "unary_notify_new (\<le>) \<lparr>cap_time = 0, cap_internal = 1\<rparr> [] ?m (\<lambda>_. cb_new) = Some nu"
    "notify_inv example_env machine_times nu" "nu_user nu = ?m" "delivered (nu_pushee nu) = []"
    using notify_new_inv [of machine_times ?m "(\<le>)" "\<lparr>cap_time = 0, cap_internal = 1\<rparr>" "\<lambda>_. cb_new" example_env] by auto
  have f: "ma_frontier (ma_new_bottom (3 :: nat)) = [3]" by (simp add: ma_new_bottom_def)
  have "\<forall>t \<in> machine_times (nu_user nu) \<union> set (ma_frontier (ma_new_bottom (3 :: nat))). 3 \<le> t"
    "\<forall>m \<in> set ?q. ma_less_equal (\<le>) (ma_new_bottom 3) (fst m)" by (simp_all add: n(3) f ma_less_equal_def aref_less_equal_def)
  from machine_in_order [OF example_env_ok example_env_le n(2) this, of running_sum 0] obtain nu' ps where
    k: "machine_schedule example_env running_sum 0 (ma_new_bottom 3) ?q nu = Some nu'"
    "delivered (nu_pushee nu') = [] @ fst (machine_run running_sum 0 ps [])" "sorted (map fst ps)" "\<forall>p \<in> set ps. 3 \<le> fst p \<and> \<not> ma_less_than (\<le>) (ma_new_bottom 3) (fst p)"
    "\<forall>t. mset (at_time t ps) + mset (get_or [] (sm_pending (nu_user nu')) t) = mset (get_or [] [] t) + mset (records_at ?q t)"
    unfolding n(3,4) machine.simps by (elim exE conjE) (rule that; assumption)
  have "\<forall>p \<in> set ps. fst p \<le> 3" using k(4) by (auto simp: ma_less_than_def aref_less_than_def less_than_def f)
  moreover have "mset (get_or [] [] (3 :: nat)) + mset (records_at ?q 3) = {#(1, 2)#}" by (simp add: get_or_def records_at_def)
  ultimately show ?thesis using n(1) k(1,3) k(2) [unfolded append_Nil] spec [OF k(5), of 3] by metis
qed

end
